(* ===== verification/Ami_Prelude.thy ===== *)
theory Ami_Prelude
  imports Main "HOL-Library.Word" "HOL-Library.Monad_Syntax"
begin

text \<open>
  Shared vocabulary of the development: the AmigaOS integer types, checked access to
  arrays, big-endian fields, and the generic facts on lists and words that the component
  theories use.

  \<^item> \<open>UBYTE\<close>, \<open>UWORD\<close> and \<open>ULONG\<close> of \<^verbatim>\<open>exec/types.h\<close> are words of 8, 16 and 32 bits, so
    their arithmetic wraps as it does in C. A signed \<open>LONG\<close> that is only compared or
    returned (a handle, a length, a status) is an \<open>int\<close>.
  \<^item> A read or a write through a pointer is \<open>rd\<close>, \<open>rd_range\<close> or \<open>wr_range\<close> on the list of
    bytes the pointer's object holds. Their result is \<open>None\<close> when the access leaves the
    object, so an out-of-bounds access of the C code is visible in the model and the
    absence of one is a theorem.
  \<^item> \<open>be_val\<close> and \<open>be32\<close>, \<open>be16\<close> are the big-endian reading and writing of an integer, the
    network order and also the native order of the 68k.
\<close>

unbundle bit_operations_syntax

type_synonym UBYTE = "8 word"
type_synonym UWORD = "16 word"
type_synonym ULONG = "32 word"
type_synonym LONG = int

named_theorems mem_defs \<open>definitions of the checked memory accesses\<close>
named_theorems word_nat \<open>word comparisons and sums read as natural numbers\<close>

section \<open>Checked memory access\<close>

definition rd :: "'a list \<Rightarrow> nat \<Rightarrow> 'a option" where
  "rd xs i = (if i < length xs then Some (xs ! i) else None)"

definition rd_range :: "'a list \<Rightarrow> nat \<Rightarrow> nat \<Rightarrow> 'a list option" where
  "rd_range xs off n = (if off + n \<le> length xs then Some (take n (drop off xs)) else None)"

definition wr_range :: "'a list \<Rightarrow> nat \<Rightarrow> 'a list \<Rightarrow> 'a list option" where
  "wr_range xs off ys =
     (if off + length ys \<le> length xs
      then Some (take off xs @ ys @ drop (off + length ys) xs) else None)"

declare rd_def [mem_defs] rd_range_def [mem_defs] wr_range_def [mem_defs]

lemma rd_in_range [simp]: "i < length xs \<Longrightarrow> rd xs i = Some (xs ! i)"
  by (simp add: rd_def)

lemma rd_range_in_range [simp]:
  "off + n \<le> length xs \<Longrightarrow> rd_range xs off n = Some (take n (drop off xs))"
  by (simp add: rd_range_def)

lemma wr_range_in_range:
  "off + length ys \<le> length xs \<Longrightarrow>
   wr_range xs off ys = Some (take off xs @ ys @ drop (off + length ys) xs)"
  by (simp add: wr_range_def)

lemma wr_range_append:
  "Option.bind (wr_range xs off a) (\<lambda>ys. wr_range ys (off + length a) b) = wr_range xs off (a @ b)"
  by (auto simp: wr_range_def ac_simps)

lemma wr_range_ex:
  assumes "off + length ys \<le> length xs"
  obtains zs where "wr_range xs off ys = Some zs"
  using assms by (simp add: wr_range_def)

lemma wr_range_length: "wr_range xs off ys = Some zs \<Longrightarrow> length zs = length xs"
  by (auto simp: wr_range_def split: if_splits)

lemma wr_range_same:
  assumes "wr_range xs off ys = Some zs"
  shows "take (length ys) (drop off zs) = ys"
  using assms by (auto simp: wr_range_def split: if_splits)

lemma wr_range_outside:
  assumes "wr_range xs off ys = Some zs" and "i < off \<or> off + length ys \<le> i" and "i < length xs"
  shows "zs ! i = xs ! i"
  using assms by (auto simp: wr_range_def nth_append split: if_splits)

lemma wr_range_drop:
  assumes "wr_range xs off ys = Some zs" and "off + length ys \<le> p"
  shows "drop p zs = drop p xs"
  using assms by (auto simp: wr_range_def split: if_splits)

lemma wr_range_take:
  assumes "wr_range xs off ys = Some zs" and "p \<le> off"
  shows "take p zs = take p xs"
  using assms by (auto simp: wr_range_def min_def split: if_splits)

lemma take_eq_shorter:
  assumes "take m xs = take m ys" and "n \<le> m"
  shows "take n xs = take n ys"
proof -
  have "take n (take m xs) = take n (take m ys)" using assms(1) by simp
  then show ?thesis using assms(2) by (simp add: min_def)
qed

section \<open>Big-endian integers\<close>

definition be_step :: "ULONG \<Rightarrow> UBYTE \<Rightarrow> ULONG" where
  "be_step v b = push_bit 8 v OR ucast b"

definition be_val :: "UBYTE list \<Rightarrow> ULONG" where
  "be_val bs = foldl be_step 0 bs"

definition be32 :: "ULONG \<Rightarrow> UBYTE list" where
  "be32 v = [ucast (drop_bit 24 v), ucast (drop_bit 16 v), ucast (drop_bit 8 v), ucast v]"

definition be16 :: "UWORD \<Rightarrow> UBYTE list" where
  "be16 v = [ucast (drop_bit 8 v), ucast v]"

lemma length_be32 [simp]: "length (be32 v) = 4"
  by (simp add: be32_def)

lemma length_be16 [simp]: "length (be16 v) = 2"
  by (simp add: be16_def)

lemma be_val_be32 [simp]: "be_val (be32 v) = v"
proof (rule bit_word_eqI)
  fix n assume "n < LENGTH(32)"
  then consider "n < 8" | "8 \<le> n" "n < 16" | "16 \<le> n" "n < 24" | "24 \<le> n" "n < 32"
    by fastforce
  then show "bit (be_val (be32 v)) n \<longleftrightarrow> bit v n"
    by cases (auto simp: be_val_def be32_def be_step_def bit_simps)
qed

lemma be_val_be16 [simp]: "be_val (be16 v) = ucast v"
  unfolding be_val_def be16_def be_step_def
  by (rule bit_word_eqI) (auto simp: bit_simps dest: bit_imp_le_length)

lemma be32_be_val:
  assumes "length bs = 4"
  shows "be32 (be_val bs) = bs"
proof -
  from assms obtain a b c d where bs: "bs = [a, b, c, d]"
    by (auto simp: length_Suc_conv eval_nat_numeral)
  have "ucast (drop_bit 24 (be_val bs)) = a" "ucast (drop_bit 16 (be_val bs)) = b"
    "ucast (drop_bit 8 (be_val bs)) = c" "ucast (be_val bs) = d"
    unfolding bs be_val_def be_step_def by (rule bit_word_eqI; auto simp: bit_simps dest: bit_imp_le_length)+
  then show ?thesis unfolding be32_def bs by simp
qed

section \<open>Words read as natural numbers\<close>

lemma unat_add_nowrap: "unat a + unat b < 2 ^ LENGTH('w) \<Longrightarrow> unat (a + b) = unat a + unat b"
  for a b :: "'w::len word"
  by (simp add: unat_word_ariths)

lemma unat_Suc_less: "a < b \<Longrightarrow> unat (a + 1) = Suc (unat a)"
  for a b :: "'w::len word"
  by unat_arith

lemma unat_ucast_up: "LENGTH('a) \<le> LENGTH('b) \<Longrightarrow> unat (ucast (a :: 'a::len word) :: 'b::len word) = unat a"
  by (simp add: uint_up_ucast is_up flip: nat_uint_eq)

lemma unat_lt2p: "unat a < 2 ^ LENGTH('w)"
  for a :: "'w::len word"
  by (rule unsigned_less)

lemma unat_sub_le: "a \<le> b \<Longrightarrow> unat (b - a) = unat b - unat a"
  for a b :: "'w::len word"
  by (rule unat_sub)

declare word_less_nat_alt [word_nat] word_le_nat_alt [word_nat]

lemma sint_small:
  fixes w :: ULONG
  assumes "unat w < 2 ^ 31"
  shows "sint w = int (unat w)"
proof -
  have u: "int (unat w) = uint w" by simp
  have "int (unat w) < int (2 ^ 31)" using assms by (simp only: of_nat_less_iff)
  then have "uint w < 2 ^ 31" unfolding u by simp
  then have "signed_take_bit 31 (uint w) = uint w"
    by (intro signed_take_bit_int_eq_self) (simp_all add: order_trans [OF _ unsigned_greater_eq])
  then show ?thesis unfolding u by (simp add: sint_uint)
qed

end
