(* ===== verification/Bpf_Filter.thy ===== *)
theory Bpf_Filter
  imports Ami_Prelude
begin

text \<open>
  The packet view and the BPF filter interpreter of \<^verbatim>\<open>src/bpf/bpf_filter.c\<close>.

  A view is up to eight logically contiguous runs of bytes. A run is a pointer and a
  length; the model gives the pointer as the list of bytes that can be read from it, and a
  read past that list is a memory fault (\<open>None\<close> at the outer option). \<open>view_ok\<close> is what
  the builders of views establish; under it no load faults, and a load on the scattered
  view is the same load on the bytes laid end to end (\<open>ami_bpf_load_flat\<close>).

  The interpreter is a step function on the two registers, the sixteen scratch words and
  the program counter, iterated by \<open>bpf_run\<close>. Every \<^verbatim>\<open>return 0\<close> of the C code is a stop
  with a tag that says why; the tag exists in the model only and \<open>ami_bpf_filter_view\<close>
  drops it. The loop has no fuel: its termination is proved from the fact that each step
  moves the counter forward and never past the program's end.
\<close>

section \<open>Views\<close>

record AmiBpfSeg =
  sg_base :: "UBYTE list"
  sg_len :: ULONG

record AmiBpfView =
  vw_wirelen :: ULONG
  vw_caplen :: ULONG
  vw_nsegs :: UWORD
  vw_seg :: "AmiBpfSeg list"

definition AMI_BPF_MAX_SEGS :: nat where
  "AMI_BPF_MAX_SEGS = 8"

definition ami_bpf_view_linear :: "AmiBpfView \<Rightarrow> UBYTE list \<Rightarrow> ULONG \<Rightarrow> AmiBpfView" where
  "ami_bpf_view_linear view frame len =
     view\<lparr>vw_wirelen := len, vw_caplen := len, vw_nsegs := 1,
          vw_seg := (vw_seg view)[0 := \<lparr>sg_base = frame, sg_len = len\<rparr>]\<rparr>"

definition ami_bpf_view_add :: "AmiBpfView \<Rightarrow> UBYTE list \<Rightarrow> ULONG \<Rightarrow> LONG \<times> AmiBpfView" where
  "ami_bpf_view_add view base len =
     (if AMI_BPF_MAX_SEGS \<le> unat (vw_nsegs view) then (-1, view)
      else if len = 0 then (0, view)
      else (0, view\<lparr>vw_seg := (vw_seg view)[unat (vw_nsegs view) := \<lparr>sg_base = base, sg_len = len\<rparr>],
                    vw_nsegs := vw_nsegs view + 1,
                    vw_caplen := vw_caplen view + len,
                    vw_wirelen := vw_wirelen view + len\<rparr>))"

text \<open>The segments in use, \<^verbatim>\<open>seg[0 .. nsegs)\<close>.\<close>

definition view_segs :: "AmiBpfView \<Rightarrow> AmiBpfSeg list" where
  "view_segs view = take (unat (vw_nsegs view)) (vw_seg view)"

text \<open>
  \<^verbatim>\<open>ami_bpf_view_at\<close>: the bytes from offset \<open>off\<close> on in its segment and how many of them
  belong to the segment; \<open>base\<close> is the running start of the segment.
\<close>

fun view_at_from :: "AmiBpfSeg list \<Rightarrow> ULONG \<Rightarrow> ULONG \<Rightarrow> (UBYTE list \<times> ULONG) option" where
  "view_at_from [] base off = None"
| "view_at_from (s # ss) base off =
     (if off < base + sg_len s
      then Some (drop (unat (off - base)) (sg_base s), base + sg_len s - off)
      else view_at_from ss (base + sg_len s) off)"

definition ami_bpf_view_at :: "AmiBpfView \<Rightarrow> ULONG \<Rightarrow> (UBYTE list \<times> ULONG) option" where
  "ami_bpf_view_at view off = view_at_from (view_segs view) 0 off"

text \<open>The two copy loops of \<^verbatim>\<open>ami_bpf_load\<close>: within one segment, and byte by byte across.\<close>

fun load_run :: "UBYTE list \<Rightarrow> nat \<Rightarrow> ULONG \<Rightarrow> ULONG option" where
  "load_run p 0 value = Some value"
| "load_run [] (Suc n) value = None"
| "load_run (b # p) (Suc n) value = load_run p n (be_step value b)"

fun load_straddle :: "AmiBpfView \<Rightarrow> ULONG \<Rightarrow> nat \<Rightarrow> ULONG \<Rightarrow> ULONG option option" where
  "load_straddle view off 0 value = Some (Some value)"
| "load_straddle view off (Suc n) value =
     (case ami_bpf_view_at view off of
        None \<Rightarrow> Some None
      | Some ([], avail) \<Rightarrow> None
      | Some (b # p, avail) \<Rightarrow> load_straddle view (off + 1) n (be_step value b))"

text \<open>
  \<^verbatim>\<open>ami_bpf_load\<close>: the outer option is a memory fault, the inner one the \<^verbatim>\<open>BOOL\<close> result.
\<close>

definition ami_bpf_load :: "AmiBpfView \<Rightarrow> ULONG \<Rightarrow> UWORD \<Rightarrow> ULONG option option" where
  "ami_bpf_load view off sz =
     (if sz = 0 then Some None
      else if vw_caplen view < ucast sz \<or> vw_caplen view - ucast sz < off then Some None
      else case ami_bpf_view_at view off of
             None \<Rightarrow> Some None
           | Some (p, avail) \<Rightarrow>
               if ucast sz \<le> avail then map_option Some (load_run p (unat sz) 0)
               else load_straddle view off (unat sz) 0)"

section \<open>Instructions\<close>

record bpf_insn =
  in_code :: UWORD
  in_jt :: UBYTE
  in_jf :: UBYTE
  in_k :: ULONG

definition BPF_CLASS :: "UWORD \<Rightarrow> UWORD" where "BPF_CLASS code = code AND 0x07"
definition BPF_SIZE :: "UWORD \<Rightarrow> UWORD" where "BPF_SIZE code = code AND 0x18"
definition BPF_MODE :: "UWORD \<Rightarrow> UWORD" where "BPF_MODE code = code AND 0xe0"
definition BPF_OP :: "UWORD \<Rightarrow> UWORD" where "BPF_OP code = code AND 0xf0"
definition BPF_SRC :: "UWORD \<Rightarrow> UWORD" where "BPF_SRC code = code AND 0x08"
definition BPF_RVAL :: "UWORD \<Rightarrow> UWORD" where "BPF_RVAL code = code AND 0x18"
definition BPF_MISCOP :: "UWORD \<Rightarrow> UWORD" where "BPF_MISCOP code = code AND 0xf8"

abbreviation (input) BPF_LD :: UWORD where "BPF_LD \<equiv> 0x00"
abbreviation (input) BPF_LDX :: UWORD where "BPF_LDX \<equiv> 0x01"
abbreviation (input) BPF_ST :: UWORD where "BPF_ST \<equiv> 0x02"
abbreviation (input) BPF_STX :: UWORD where "BPF_STX \<equiv> 0x03"
abbreviation (input) BPF_ALU :: UWORD where "BPF_ALU \<equiv> 0x04"
abbreviation (input) BPF_JMP :: UWORD where "BPF_JMP \<equiv> 0x05"
abbreviation (input) BPF_RET :: UWORD where "BPF_RET \<equiv> 0x06"
abbreviation (input) BPF_MISC :: UWORD where "BPF_MISC \<equiv> 0x07"
abbreviation (input) BPF_W :: UWORD where "BPF_W \<equiv> 0x00"
abbreviation (input) BPF_H :: UWORD where "BPF_H \<equiv> 0x08"
abbreviation (input) BPF_B :: UWORD where "BPF_B \<equiv> 0x10"
abbreviation (input) BPF_IMM :: UWORD where "BPF_IMM \<equiv> 0x00"
abbreviation (input) BPF_ABS :: UWORD where "BPF_ABS \<equiv> 0x20"
abbreviation (input) BPF_IND :: UWORD where "BPF_IND \<equiv> 0x40"
abbreviation (input) BPF_MEM :: UWORD where "BPF_MEM \<equiv> 0x60"
abbreviation (input) BPF_LEN :: UWORD where "BPF_LEN \<equiv> 0x80"
abbreviation (input) BPF_MSH :: UWORD where "BPF_MSH \<equiv> 0xa0"
abbreviation (input) BPF_ADD :: UWORD where "BPF_ADD \<equiv> 0x00"
abbreviation (input) BPF_SUB :: UWORD where "BPF_SUB \<equiv> 0x10"
abbreviation (input) BPF_MUL :: UWORD where "BPF_MUL \<equiv> 0x20"
abbreviation (input) BPF_DIV :: UWORD where "BPF_DIV \<equiv> 0x30"
abbreviation (input) BPF_OR :: UWORD where "BPF_OR \<equiv> 0x40"
abbreviation (input) BPF_AND :: UWORD where "BPF_AND \<equiv> 0x50"
abbreviation (input) BPF_LSH :: UWORD where "BPF_LSH \<equiv> 0x60"
abbreviation (input) BPF_RSH :: UWORD where "BPF_RSH \<equiv> 0x70"
abbreviation (input) BPF_NEG :: UWORD where "BPF_NEG \<equiv> 0x80"
abbreviation (input) BPF_JA :: UWORD where "BPF_JA \<equiv> 0x00"
abbreviation (input) BPF_JEQ :: UWORD where "BPF_JEQ \<equiv> 0x10"
abbreviation (input) BPF_JGT :: UWORD where "BPF_JGT \<equiv> 0x20"
abbreviation (input) BPF_JGE :: UWORD where "BPF_JGE \<equiv> 0x30"
abbreviation (input) BPF_JSET :: UWORD where "BPF_JSET \<equiv> 0x40"
abbreviation (input) BPF_K :: UWORD where "BPF_K \<equiv> 0x00"
abbreviation (input) BPF_X :: UWORD where "BPF_X \<equiv> 0x08"
abbreviation (input) BPF_A :: UWORD where "BPF_A \<equiv> 0x10"
abbreviation (input) BPF_TAX :: UWORD where "BPF_TAX \<equiv> 0x00"
abbreviation (input) BPF_TXA :: UWORD where "BPF_TXA \<equiv> 0x80"

definition BPF_MEMWORDS :: nat where
  "BPF_MEMWORDS = 16"

definition ami_bpf_size_bytes :: "UWORD \<Rightarrow> UWORD" where
  "ami_bpf_size_bytes code =
     (if BPF_SIZE code = BPF_W then 4 else if BPF_SIZE code = BPF_H then 2
      else if BPF_SIZE code = BPF_B then 1 else 0)"

section \<open>The interpreter\<close>

text \<open>
  Why a run stops. The code answers 0 for every rejection; the cases are kept apart here: a read past the
  captured bytes, a load whose size bits name no size, a division by a zero \<^verbatim>\<open>X\<close> and one by a constant zero.
\<close>

record bpf_regs =
  rA :: ULONG
  rX :: ULONG
  rmem :: "ULONG list"
  rpc :: ULONG

datatype bpf_stop = Returned | Off_Packet | Bad_Size | Div_By_X | Div_By_K | Bad_Scratch | Bad_Insn | Bad_Jump
  | Ran_Off | No_Program | No_View

datatype bpf_outcome = Next bpf_regs | Stop bpf_stop ULONG

abbreviation reject :: "bpf_stop \<Rightarrow> bpf_outcome option" where
  "reject why \<equiv> Some (Stop why 0)"

text \<open>A packet load into a register, or the rejection it becomes.\<close>

definition load_into ::
  "AmiBpfView \<Rightarrow> ULONG \<Rightarrow> UWORD \<Rightarrow> (ULONG \<Rightarrow> bpf_regs) \<Rightarrow> bpf_outcome option" where
  "load_into view off sz put =
     (case ami_bpf_load view off sz of
        None \<Rightarrow> None
      | Some None \<Rightarrow> reject (if sz = 0 then Bad_Size else Off_Packet)
      | Some (Some v) \<Rightarrow> Some (Next (put v)))"

text \<open>A scratch word into a register, under the bound the code tests.\<close>

definition scratch_into :: "bpf_regs \<Rightarrow> ULONG \<Rightarrow> (ULONG \<Rightarrow> bpf_regs) \<Rightarrow> bpf_outcome option" where
  "scratch_into s k put =
     (if BPF_MEMWORDS \<le> unat k then reject Bad_Scratch
      else map_option (\<lambda>v. Next (put v)) (rd (rmem s) (unat k)))"

definition scratch_store :: "bpf_regs \<Rightarrow> ULONG \<Rightarrow> ULONG \<Rightarrow> bpf_outcome option" where
  "scratch_store s k v =
     (if BPF_MEMWORDS \<le> unat k then reject Bad_Scratch
      else map_option (\<lambda>m. Next (s\<lparr>rmem := m\<rparr>)) (wr_range (rmem s) (unat k) [v]))"

definition step_ld :: "AmiBpfView \<Rightarrow> UWORD \<Rightarrow> ULONG \<Rightarrow> bpf_regs \<Rightarrow> bpf_outcome option" where
  "step_ld view code k s =
     (if BPF_MODE code = BPF_IMM then Some (Next (s\<lparr>rA := k\<rparr>))
      else if BPF_MODE code = BPF_LEN then Some (Next (s\<lparr>rA := vw_wirelen view\<rparr>))
      else if BPF_MODE code = BPF_MEM then scratch_into s k (\<lambda>v. s\<lparr>rA := v\<rparr>)
      else if BPF_MODE code = BPF_ABS then
        load_into view k (ami_bpf_size_bytes code) (\<lambda>v. s\<lparr>rA := v\<rparr>)
      else if BPF_MODE code = BPF_IND then
        (if rX s + k < rX s then reject (if ami_bpf_size_bytes code = 0 then Bad_Size else Off_Packet)
         else load_into view (rX s + k) (ami_bpf_size_bytes code) (\<lambda>v. s\<lparr>rA := v\<rparr>))
      else reject Bad_Insn)"

definition step_ldx :: "AmiBpfView \<Rightarrow> UWORD \<Rightarrow> ULONG \<Rightarrow> bpf_regs \<Rightarrow> bpf_outcome option" where
  "step_ldx view code k s =
     (if BPF_MODE code = BPF_IMM then Some (Next (s\<lparr>rX := k\<rparr>))
      else if BPF_MODE code = BPF_LEN then Some (Next (s\<lparr>rX := vw_wirelen view\<rparr>))
      else if BPF_MODE code = BPF_MEM then scratch_into s k (\<lambda>v. s\<lparr>rX := v\<rparr>)
      else if BPF_MODE code = BPF_MSH then
        (if BPF_SIZE code \<noteq> BPF_B then reject Bad_Insn
         else load_into view k 1 (\<lambda>v. s\<lparr>rX := push_bit 2 (v AND 0x0F)\<rparr>))
      else reject Bad_Insn)"

definition alu_operand :: "UWORD \<Rightarrow> ULONG \<Rightarrow> bpf_regs \<Rightarrow> ULONG" where
  "alu_operand code k s = (if BPF_SRC code = BPF_X then rX s else k)"

definition step_alu :: "UWORD \<Rightarrow> ULONG \<Rightarrow> bpf_regs \<Rightarrow> bpf_outcome option" where
  "step_alu code k s =
     (let v = alu_operand code k s; A = rA s; put = (\<lambda>a. Some (Next (s\<lparr>rA := a\<rparr>)))
      in if BPF_OP code = BPF_ADD then put (A + v)
         else if BPF_OP code = BPF_SUB then put (A - v)
         else if BPF_OP code = BPF_MUL then put (A * v)
         else if BPF_OP code = BPF_DIV then
           (if v = 0 then reject (if BPF_SRC code = BPF_X then Div_By_X else Div_By_K) else put (A div v))
         else if BPF_OP code = BPF_OR then put (A OR v)
         else if BPF_OP code = BPF_AND then put (A AND v)
         else if BPF_OP code = BPF_LSH then put (if 31 < v then 0 else push_bit (unat v) A)
         else if BPF_OP code = BPF_RSH then put (if 31 < v then 0 else drop_bit (unat v) A)
         else if BPF_OP code = BPF_NEG then put (0 - A)
         else reject Bad_Insn)"

text \<open>The counter already stands past the jump; \<open>room\<close> is how far it may still go.\<close>

definition jump_by :: "ULONG \<Rightarrow> ULONG \<Rightarrow> bpf_regs \<Rightarrow> bpf_outcome option" where
  "jump_by count dist s =
     (if count - rpc s < dist then reject Bad_Jump else Some (Next (s\<lparr>rpc := rpc s + dist\<rparr>)))"

definition jump_taken :: "UWORD \<Rightarrow> ULONG \<Rightarrow> ULONG \<Rightarrow> bool option" where
  "jump_taken code A v =
     (if BPF_OP code = BPF_JGT then Some (v < A)
      else if BPF_OP code = BPF_JGE then Some (v \<le> A)
      else if BPF_OP code = BPF_JEQ then Some (A = v)
      else if BPF_OP code = BPF_JSET then Some (A AND v \<noteq> 0)
      else None)"

definition step_jmp :: "bpf_insn \<Rightarrow> ULONG \<Rightarrow> bpf_regs \<Rightarrow> bpf_outcome option" where
  "step_jmp p count s =
     (if BPF_OP (in_code p) = BPF_JA then jump_by count (in_k p) s
      else case jump_taken (in_code p) (rA s) (alu_operand (in_code p) (in_k p) s) of
             None \<Rightarrow> reject Bad_Insn
           | Some taken \<Rightarrow> jump_by count (ucast (if taken then in_jt p else in_jf p)) s)"

definition step_ret :: "UWORD \<Rightarrow> ULONG \<Rightarrow> bpf_regs \<Rightarrow> bpf_outcome option" where
  "step_ret code k s =
     (if BPF_RVAL code = BPF_K then Some (Stop Returned k)
      else if BPF_RVAL code = BPF_A then Some (Stop Returned (rA s))
      else reject Bad_Insn)"

definition step_misc :: "UWORD \<Rightarrow> bpf_regs \<Rightarrow> bpf_outcome option" where
  "step_misc code s =
     (if BPF_MISCOP code = BPF_TAX then Some (Next (s\<lparr>rX := rA s\<rparr>))
      else if BPF_MISCOP code = BPF_TXA then Some (Next (s\<lparr>rA := rX s\<rparr>))
      else reject Bad_Insn)"

definition bpf_step :: "bpf_insn \<Rightarrow> ULONG \<Rightarrow> AmiBpfView \<Rightarrow> bpf_regs \<Rightarrow> bpf_outcome option" where
  "bpf_step p count view s =
     (let code = in_code p; k = in_k p
      in if BPF_CLASS code = BPF_LD then step_ld view code k s
         else if BPF_CLASS code = BPF_LDX then step_ldx view code k s
         else if BPF_CLASS code = BPF_ST then scratch_store s k (rA s)
         else if BPF_CLASS code = BPF_STX then scratch_store s k (rX s)
         else if BPF_CLASS code = BPF_ALU then step_alu code k s
         else if BPF_CLASS code = BPF_JMP then step_jmp p count s
         else if BPF_CLASS code = BPF_RET then step_ret code k s
         else step_misc code s)"

text \<open>A step that goes on moves the counter by a jump distance inside the program.\<close>

named_theorems step_defs \<open>the instruction classes of the interpreter\<close>

declare step_ld_def [step_defs] step_ldx_def [step_defs] step_alu_def [step_defs]
  step_jmp_def [step_defs] step_ret_def [step_defs] step_misc_def [step_defs]
  load_into_def [step_defs] scratch_into_def [step_defs] scratch_store_def [step_defs]
  jump_by_def [step_defs] bpf_step_def [step_defs] Let_def [step_defs]

lemma jump_by_forward:
  assumes "jump_by count dist s = Some (Next s')" and "rpc s \<le> count"
  shows "rpc s \<le> rpc s' \<and> rpc s' \<le> count"
  using assms by (auto simp: jump_by_def split: if_splits) unat_arith+

lemma step_jmp_forward:
  assumes "step_jmp p count s = Some (Next s')" and "rpc s \<le> count"
  shows "rpc s \<le> rpc s' \<and> rpc s' \<le> count"
  using assms jump_by_forward by (auto simp: step_jmp_def split: if_splits option.splits)

lemma bpf_step_rpc:
  assumes "bpf_step p count view s = Some (Next s')" and "BPF_CLASS (in_code p) \<noteq> BPF_JMP"
  shows "rpc s' = rpc s"
  using assms
  by (auto simp: step_defs split: if_splits option.splits)

lemma bpf_step_forward:
  assumes "bpf_step p count view s = Some (Next s')" and "rpc s \<le> count"
  shows "rpc s \<le> rpc s' \<and> rpc s' \<le> count"
proof (cases "BPF_CLASS (in_code p) = BPF_JMP")
  case True
  with assms have "step_jmp p count s = Some (Next s')" by (simp add: bpf_step_def)
  then show ?thesis using assms(2) by (rule step_jmp_forward)
next
  case False
  with assms(1) have "rpc s' = rpc s" by (rule bpf_step_rpc)
  with assms(2) show ?thesis by simp
qed

function bpf_run ::
  "bpf_insn list \<Rightarrow> ULONG \<Rightarrow> AmiBpfView \<Rightarrow> bpf_regs \<Rightarrow> (bpf_stop \<times> ULONG) option" where
  "bpf_run insns count view s =
     (if rpc s < count then
        (case rd insns (unat (rpc s)) of
           None \<Rightarrow> None
         | Some p \<Rightarrow>
             (case bpf_step p count view (s\<lparr>rpc := rpc s + 1\<rparr>) of
                None \<Rightarrow> None
              | Some (Stop why r) \<Rightarrow> Some (why, r)
              | Some (Next s') \<Rightarrow> bpf_run insns count view s'))
      else Some (Ran_Off, 0))"
  by pat_completeness auto
termination
proof (relation "measure (\<lambda>(insns, count, view, s). unat count - unat (rpc s))")
  fix insns count view s p out s'
  assume lt: "rpc s < count"
    and "bpf_step p count view (s\<lparr>rpc := rpc s + 1\<rparr>) = Some out" and "out = Next s'"
  moreover from lt have "rpc s + 1 \<le> count" by unat_arith
  ultimately have "rpc s + 1 \<le> rpc s'" and "rpc s' \<le> count"
    using bpf_step_forward [of p count view "s\<lparr>rpc := rpc s + 1\<rparr>" s'] by auto
  with lt show "((insns, count, view, s'), insns, count, view, s)
      \<in> measure (\<lambda>(insns, count, view, s). unat count - unat (rpc s))"
    by simp unat_arith
qed simp

declare bpf_run.simps [simp del]

definition bpf_start :: bpf_regs where
  "bpf_start = \<lparr>rA = 0, rX = 0, rmem = replicate BPF_MEMWORDS 0, rpc = 0\<rparr>"

text \<open>The program pointer and the view pointer may be \<^verbatim>\<open>NULL\<close>.\<close>

definition filter_outcome ::
  "bpf_insn list option \<Rightarrow> ULONG \<Rightarrow> AmiBpfView option \<Rightarrow> (bpf_stop \<times> ULONG) option" where
  "filter_outcome insns count view =
     (case insns of
        None \<Rightarrow> Some (No_Program, - 1)
      | Some prog \<Rightarrow>
          if count = 0 then Some (No_Program, - 1)
          else (case view of
                  None \<Rightarrow> Some (No_View, 0)
                | Some v \<Rightarrow> bpf_run prog count v bpf_start))"

definition ami_bpf_filter_view ::
  "bpf_insn list option \<Rightarrow> ULONG \<Rightarrow> AmiBpfView option \<Rightarrow> ULONG option" where
  "ami_bpf_filter_view insns count view = map_option snd (filter_outcome insns count view)"

text \<open>\<^verbatim>\<open>ami_bpf_filter\<close>: a one-segment view on the caller's stack.\<close>

definition linear_view :: "UBYTE list \<Rightarrow> ULONG \<Rightarrow> ULONG \<Rightarrow> AmiBpfView" where
  "linear_view frame wirelen caplen =
     \<lparr>vw_wirelen = wirelen, vw_caplen = caplen, vw_nsegs = 1,
      vw_seg = [\<lparr>sg_base = frame, sg_len = caplen\<rparr>]\<rparr>"

definition ami_bpf_filter ::
  "bpf_insn list option \<Rightarrow> ULONG \<Rightarrow> UBYTE list \<Rightarrow> ULONG \<Rightarrow> ULONG \<Rightarrow> ULONG option" where
  "ami_bpf_filter insns count frame wirelen caplen =
     ami_bpf_filter_view insns count (Some (linear_view frame wirelen caplen))"

section \<open>The bytes of a view\<close>

definition segs_bytes :: "AmiBpfSeg list \<Rightarrow> UBYTE list" where
  "segs_bytes ss = concat (map (\<lambda>s. take (unat (sg_len s)) (sg_base s)) ss)"

definition view_bytes :: "AmiBpfView \<Rightarrow> UBYTE list" where
  "view_bytes view = segs_bytes (view_segs view)"

definition segs_ok :: "AmiBpfSeg list \<Rightarrow> bool" where
  "segs_ok ss \<longleftrightarrow> (\<forall>s \<in> set ss. unat (sg_len s) \<le> length (sg_base s))"

text \<open>
  A well-formed view: the segments in use exist, each can be read for its whole length,
  and \<^verbatim>\<open>caplen\<close> is their total.
\<close>

definition view_ok :: "AmiBpfView \<Rightarrow> bool" where
  "view_ok view \<longleftrightarrow>
     unat (vw_nsegs view) \<le> AMI_BPF_MAX_SEGS \<and> unat (vw_nsegs view) \<le> length (vw_seg view) \<and>
     segs_ok (view_segs view) \<and> length (view_bytes view) = unat (vw_caplen view)"

text \<open>The specification of a load: big-endian, from the bytes laid end to end.\<close>

definition flat_load :: "UBYTE list \<Rightarrow> ULONG \<Rightarrow> UWORD \<Rightarrow> ULONG option" where
  "flat_load bytes off sz =
     (if sz \<noteq> 0 \<and> unat off + unat sz \<le> length bytes
      then Some (be_val (take (unat sz) (drop (unat off) bytes))) else None)"

lemma segs_bytes_simps [simp]:
  "segs_bytes [] = []"
  "segs_bytes (s # ss) = take (unat (sg_len s)) (sg_base s) @ segs_bytes ss"
  by (simp_all add: segs_bytes_def)

lemma segs_ok_simps [simp]:
  "segs_ok []"
  "segs_ok (s # ss) \<longleftrightarrow> unat (sg_len s) \<le> length (sg_base s) \<and> segs_ok ss"
  by (simp_all add: segs_ok_def)

lemma view_at_from_outside:
  assumes "segs_ok ss" and "unat base + length (segs_bytes ss) < 2 ^ 32"
    and "unat base + length (segs_bytes ss) \<le> unat off"
  shows "view_at_from ss base off = None"
  using assms
proof (induction ss arbitrary: base)
  case (Cons s ss)
  from Cons.prems have sum: "unat (base + sg_len s) = unat base + unat (sg_len s)"
    by (intro unat_add_nowrap) simp
  with Cons show ?case by (simp add: word_nat not_less)
qed simp

lemma view_at_from_inside:
  assumes "segs_ok ss" and "unat base + length (segs_bytes ss) < 2 ^ 32"
    and "base \<le> off" and "unat off < unat base + length (segs_bytes ss)"
  shows "\<exists>p avail. view_at_from ss base off = Some (p, avail) \<and> 0 < unat avail \<and>
    unat avail \<le> length p \<and>
    unat avail \<le> length (segs_bytes ss) - (unat off - unat base) \<and>
    take (unat avail) p = take (unat avail) (drop (unat off - unat base) (segs_bytes ss))"
  using assms
proof (induction ss arbitrary: base)
  case (Cons s ss)
  from Cons.prems have sum: "unat (base + sg_len s) = unat base + unat (sg_len s)"
    by (intro unat_add_nowrap) simp
  show ?case
  proof (cases "off < base + sg_len s")
    case True
    then have le: "off \<le> base + sg_len s" by simp
    have "unat (base + sg_len s - off) = unat base + unat (sg_len s) - unat off"
      using unat_sub_le [OF le] sum by simp
    moreover have "unat (off - base) = unat off - unat base"
      using Cons.prems(3) by (rule unat_sub_le)
    ultimately show ?thesis using True Cons.prems sum
      by (auto simp: word_nat drop_take intro!: arg_cong [where f = "\<lambda>n. take n _"])
  next
    case False
    then have ge: "base + sg_len s \<le> off" by simp
    have lt: "unat off < unat (base + sg_len s) + length (segs_bytes ss)"
      using Cons.prems sum by simp
    have eq: "drop (unat off - unat base) (segs_bytes (s # ss))
        = drop (unat off - unat (base + sg_len s)) (segs_bytes ss)"
      using ge Cons.prems sum by (simp add: word_nat)
    have "\<exists>p avail. view_at_from ss (base + sg_len s) off = Some (p, avail) \<and> 0 < unat avail \<and>
      unat avail \<le> length p \<and>
      unat avail \<le> length (segs_bytes ss) - (unat off - unat (base + sg_len s)) \<and>
      take (unat avail) p
        = take (unat avail) (drop (unat off - unat (base + sg_len s)) (segs_bytes ss))"
      using Cons.prems ge lt sum by (intro Cons.IH) simp_all
    then show ?thesis using False ge Cons.prems sum eq
      by (fastforce simp: word_nat)
  qed
qed (simp add: word_nat)

lemma view_at_inside:
  assumes "view_ok view" and "unat off < length (view_bytes view)"
  obtains p avail where "ami_bpf_view_at view off = Some (p, avail)" and "0 < unat avail"
    and "unat avail \<le> length p" and "unat avail \<le> length (view_bytes view) - unat off"
    and "take (unat avail) p = take (unat avail) (drop (unat off) (view_bytes view))"
  using assms view_at_from_inside [of "view_segs view" 0 off] unat_lt2p [of "vw_caplen view"]
  by (auto simp: view_ok_def view_bytes_def ami_bpf_view_at_def)

lemma load_run_eq: "n \<le> length p \<Longrightarrow> load_run p n v = Some (foldl be_step v (take n p))"
  by (induction p n v rule: load_run.induct) auto

lemma drop_Cons_view: "drop i xs = b # ys \<Longrightarrow> drop (Suc i) xs = ys"
  by (metis drop_Suc list.sel(3) tl_drop)

lemma load_straddle_eq:
  assumes "view_ok view" and "unat off + n \<le> length (view_bytes view)"
  shows "load_straddle view off n v
    = Some (Some (foldl be_step v (take n (drop (unat off) (view_bytes view)))))"
  using assms(2)
proof (induction n arbitrary: off v)
  case (Suc n)
  then have lt: "unat off < length (view_bytes view)" by simp
  obtain p avail where at: "ami_bpf_view_at view off = Some (p, avail)" "0 < unat avail"
    "unat avail \<le> length p"
    and tk: "take (unat avail) p = take (unat avail) (drop (unat off) (view_bytes view))"
    using view_at_inside [OF assms(1) lt] by metis
  obtain b p' where p: "p = b # p'" using at by (cases p) auto
  obtain ys where ys: "drop (unat off) (view_bytes view) = b # ys"
    using tk at(2) p lt by (cases "unat avail"; cases "drop (unat off) (view_bytes view)") auto
  show ?case
  proof (cases n)
    case 0
    with at p ys show ?thesis by simp
  next
    case (Suc m)
    have "length (view_bytes view) < 2 ^ 32"
      using assms(1) unat_lt2p [of "vw_caplen view"] by (simp add: view_ok_def)
    then have "unat (off + 1) = Suc (unat off)"
      using Suc.prems by (subst unat_add_nowrap) auto
    with Suc.IH [of "off + 1" "be_step v b"] Suc.prems at p ys drop_Cons_view [OF ys]
    show ?thesis by simp
  qed
qed simp

text \<open>A load on a well-formed view never faults and is the flat load of its bytes.\<close>

lemma ami_bpf_load_flat:
  assumes ok: "view_ok view"
  shows "ami_bpf_load view off sz = Some (flat_load (view_bytes view) off sz)"
proof (cases "sz \<noteq> 0 \<and> unat off + unat sz \<le> length (view_bytes view)")
  case False
  with ok show ?thesis
    by (auto simp: ami_bpf_load_def flat_load_def view_ok_def word_nat unat_ucast_up
        unat_sub_le not_le not_less)
next
  case True
  then have "0 < unat sz" by (simp add: unat_gt_0)
  with True have lt: "unat off < length (view_bytes view)" by simp
  obtain p avail where at: "ami_bpf_view_at view off = Some (p, avail)" "unat avail \<le> length p"
    and tk: "take (unat avail) p = take (unat avail) (drop (unat off) (view_bytes view))"
    using view_at_inside [OF ok lt] by metis
  have guard: "\<not> (vw_caplen view < ucast sz \<or> vw_caplen view - ucast sz < off)"
    using ok True by (auto simp: view_ok_def word_nat unat_ucast_up unat_sub_le)
  show ?thesis
  proof (cases "ucast sz \<le> avail")
    case in_one: True
    then have le: "unat sz \<le> unat avail" by (simp add: word_nat unat_ucast_up)
    have "take (unat sz) p = take (unat sz) (drop (unat off) (view_bytes view))"
      using tk le by (rule take_eq_shorter)
    with True guard at in_one le show ?thesis
      by (simp add: ami_bpf_load_def flat_load_def load_run_eq be_val_def)
  next
    case False
    moreover have "load_straddle view off (unat sz) 0
        = Some (Some (be_val (take (unat sz) (drop (unat off) (view_bytes view)))))"
      using load_straddle_eq [OF ok] True by (simp add: be_val_def)
    ultimately show ?thesis using True guard at
      by (simp add: ami_bpf_load_def flat_load_def)
  qed
qed

section \<open>No memory fault, and independence from the segmentation\<close>

lemma bpf_step_total:
  assumes "view_ok view" and "length (rmem s) = BPF_MEMWORDS"
  shows "bpf_step p count view s \<noteq> None"
  using assms by (auto simp: step_defs ami_bpf_load_flat rd_def wr_range_def BPF_MEMWORDS_def
      split: option.splits)

lemma bpf_step_mem:
  assumes "bpf_step p count view s = Some (Next s')" and "length (rmem s) = BPF_MEMWORDS"
  shows "length (rmem s') = BPF_MEMWORDS"
  using assms by (auto simp: step_defs dest: wr_range_length split: if_splits option.splits)

lemma bpf_step_cong:
  assumes "view_ok v" and "view_ok w" and "view_bytes v = view_bytes w"
    and "vw_wirelen v = vw_wirelen w"
  shows "bpf_step p count v s = bpf_step p count w s"
proof -
  have "load_into v = load_into w"
    using assms by (intro ext) (simp add: load_into_def ami_bpf_load_flat)
  with assms(4) show ?thesis by (simp add: bpf_step_def step_ld_def step_ldx_def Let_def)
qed

lemma bpf_run_total:
  assumes "view_ok view" and "unat count \<le> length insns" and "length (rmem s) = BPF_MEMWORDS"
  shows "bpf_run insns count view s \<noteq> None"
  using assms
proof (induction insns count view s rule: bpf_run.induct)
  case (1 insns count view s)
  show ?case
  proof (cases "rpc s < count")
    case True
    let ?s = "s\<lparr>rpc := rpc s + 1\<rparr>" and ?p = "insns ! unat (rpc s)"
    from True 1(3) have rd: "rd insns (unat (rpc s)) = Some ?p"
      by (intro rd_in_range) unat_arith
    obtain out where out: "bpf_step ?p count view ?s = Some out"
      using bpf_step_total [OF 1(2), of ?s ?p count] 1(4) by auto
    show ?thesis
    proof (cases out)
      case (Next s')
      then have "bpf_run insns count view s' \<noteq> None"
        using "1.IH" [OF True rd out Next 1(2,3)] bpf_step_mem [of ?p count view ?s s'] out 1(4)
        by simp
      then show ?thesis using True rd out Next by (subst bpf_run.simps) simp
    next
      case (Stop why r)
      then show ?thesis using True rd out by (subst bpf_run.simps) simp
    qed
  qed (subst bpf_run.simps, simp)
qed

lemma bpf_run_cong:
  assumes "view_ok v" and "view_ok w" and "view_bytes v = view_bytes w"
    and "vw_wirelen v = vw_wirelen w"
  shows "bpf_run insns count v s = bpf_run insns count w s"
  using assms
proof (induction insns count v s rule: bpf_run.induct)
  case (1 insns count v s)
  show ?case
    using "1.IH" [OF _ _ _ _ "1.prems"] bpf_step_cong [OF "1.prems"]
    by (subst (1 2) bpf_run.simps) (auto split: option.splits bpf_outcome.splits)
qed

lemma filter_outcome_total:
  assumes "view_ok view" and "unat count \<le> length prog"
  shows "filter_outcome (Some prog) count (Some view) \<noteq> None"
  using bpf_run_total [OF assms, of bpf_start] by (simp add: filter_outcome_def bpf_start_def)

subsection \<open>The builders of views\<close>

lemma linear_view_ok:
  assumes "unat caplen \<le> length frame"
  shows "view_ok (linear_view frame wirelen caplen)"
    and "view_bytes (linear_view frame wirelen caplen) = take (unat caplen) frame"
  using assms
  by (simp_all add: view_ok_def view_bytes_def view_segs_def linear_view_def segs_bytes_def
      segs_ok_def AMI_BPF_MAX_SEGS_def min_def)

lemma ami_bpf_view_linear_ok:
  assumes "unat len \<le> length frame" and "length (vw_seg view) = AMI_BPF_MAX_SEGS"
  shows "view_ok (ami_bpf_view_linear view frame len)"
    and "view_bytes (ami_bpf_view_linear view frame len) = take (unat len) frame"
    and "length (vw_seg (ami_bpf_view_linear view frame len)) = AMI_BPF_MAX_SEGS"
  using assms
  by (cases "vw_seg view"; simp add: view_ok_def view_bytes_def view_segs_def
      ami_bpf_view_linear_def segs_bytes_def segs_ok_def AMI_BPF_MAX_SEGS_def min_def)+

lemma segs_bytes_snoc:
  "segs_bytes (ss @ [s]) = segs_bytes ss @ take (unat (sg_len s)) (sg_base s)"
  by (simp add: segs_bytes_def)

lemma ami_bpf_view_add_ok:
  assumes ok: "view_ok view" and len8: "length (vw_seg view) = AMI_BPF_MAX_SEGS"
    and base: "unat len \<le> length base" and cap: "unat (vw_caplen view) + unat len < 2 ^ 32"
  shows "view_ok (snd (ami_bpf_view_add view base len))"
    and "length (vw_seg (snd (ami_bpf_view_add view base len))) = AMI_BPF_MAX_SEGS"
    and "fst (ami_bpf_view_add view base len) = 0 \<Longrightarrow>
      view_bytes (snd (ami_bpf_view_add view base len)) = view_bytes view @ take (unat len) base"
proof -
  show "length (vw_seg (snd (ami_bpf_view_add view base len))) = AMI_BPF_MAX_SEGS"
    using len8 by (simp add: ami_bpf_view_add_def)
  have grow: "view_segs (snd (ami_bpf_view_add view base len))
      = view_segs view @ [\<lparr>sg_base = base, sg_len = len\<rparr>]" and
    n: "unat (vw_nsegs view + 1) = Suc (unat (vw_nsegs view))" and
    c: "unat (vw_caplen view + len) = unat (vw_caplen view) + unat len"
    if "unat (vw_nsegs view) < AMI_BPF_MAX_SEGS" "len \<noteq> 0"
  proof -
    show n: "unat (vw_nsegs view + 1) = Suc (unat (vw_nsegs view))"
      using that(1) by (subst unat_add_nowrap) (simp_all add: AMI_BPF_MAX_SEGS_def)
    show "view_segs (snd (ami_bpf_view_add view base len))
      = view_segs view @ [\<lparr>sg_base = base, sg_len = len\<rparr>]"
      using that len8 n
      by (simp add: view_segs_def ami_bpf_view_add_def take_Suc_conv_app_nth)
    show "unat (vw_caplen view + len) = unat (vw_caplen view) + unat len"
      using cap by (intro unat_add_nowrap) simp
  qed
  show "view_ok (snd (ami_bpf_view_add view base len))"
  proof (cases "unat (vw_nsegs view) < AMI_BPF_MAX_SEGS \<and> len \<noteq> 0")
    case True
    with ok len8 base grow n c show ?thesis
      by (auto simp: view_ok_def view_bytes_def segs_bytes_snoc ami_bpf_view_add_def segs_ok_def)
  next
    case False
    with ok show ?thesis by (auto simp: ami_bpf_view_add_def)
  qed
  show "view_bytes (snd (ami_bpf_view_add view base len)) = view_bytes view @ take (unat len) base"
    if "fst (ami_bpf_view_add view base len) = 0"
  proof (cases "len = 0")
    case True
    with that show ?thesis by (simp add: ami_bpf_view_add_def split: if_splits)
  next
    case False
    with that grow show ?thesis
      by (auto simp: view_bytes_def segs_bytes_snoc ami_bpf_view_add_def split: if_splits)
  qed
qed

end
