(* ===== verification/Bpf_Validate.thy ===== *)
theory Bpf_Validate
  imports Bpf_Filter
begin

text \<open>
  The load-time program check of \<^verbatim>\<open>src/bpf/bpf_validate.c\<close> and what it buys at run time:
  an accepted program can stop only by executing a return instruction, by reading past the
  captured packet, or by dividing by a register that holds zero. Every other rejection of
  the interpreter (an unimplemented encoding, a load without a size, a constant zero divisor, a
  bad scratch index, a jump out of the program, running off the end) is excluded.
\<close>

section \<open>The check\<close>

definition BPF_MAXINSNS :: ULONG where
  "BPF_MAXINSNS = 512"

definition validate_load :: "UWORD \<Rightarrow> ULONG \<Rightarrow> bool" where
  "validate_load code k =
     (if BPF_MODE code = BPF_ABS \<or> BPF_MODE code = BPF_IND then
        \<not> (BPF_CLASS code \<noteq> BPF_LD \<or> ami_bpf_size_bytes code = 0)
      else if BPF_MODE code = BPF_IMM \<or> BPF_MODE code = BPF_LEN then \<not> (BPF_SIZE code \<noteq> BPF_W)
      else if BPF_MODE code = BPF_MEM then \<not> (BPF_SIZE code \<noteq> BPF_W \<or> BPF_MEMWORDS \<le> unat k)
      else if BPF_MODE code = BPF_MSH then \<not> (BPF_CLASS code \<noteq> BPF_LDX \<or> BPF_SIZE code \<noteq> BPF_B)
      else False)"

definition validate_alu :: "UWORD \<Rightarrow> ULONG \<Rightarrow> bool" where
  "validate_alu code k =
     (if BPF_OP code \<in> {BPF_ADD, BPF_SUB, BPF_MUL, BPF_OR, BPF_AND, BPF_LSH, BPF_RSH} then True
      else if BPF_OP code = BPF_DIV then \<not> (BPF_SRC code = BPF_K \<and> k = 0)
      else BPF_OP code = BPF_NEG)"

definition validate_jmp :: "bpf_insn \<Rightarrow> ULONG \<Rightarrow> bool" where
  "validate_jmp p room =
     (if BPF_OP (in_code p) = BPF_JA then \<not> room \<le> in_k p
      else if BPF_OP (in_code p) \<in> {BPF_JEQ, BPF_JGT, BPF_JGE, BPF_JSET} then
        \<not> (room \<le> ucast (in_jt p) \<or> room \<le> ucast (in_jf p))
      else False)"

text \<open>One turn of the loop: may the instruction stand \<open>room\<close> instructions before the end?\<close>

definition validate_insn :: "bpf_insn \<Rightarrow> ULONG \<Rightarrow> bool" where
  "validate_insn p room =
     (let code = in_code p; k = in_k p
      in if BPF_CLASS code = BPF_LD \<or> BPF_CLASS code = BPF_LDX then validate_load code k
         else if BPF_CLASS code = BPF_ST \<or> BPF_CLASS code = BPF_STX then
           \<not> (BPF_SIZE code \<noteq> 0 \<or> BPF_MODE code \<noteq> 0) \<and> \<not> BPF_MEMWORDS \<le> unat k
         else if BPF_CLASS code = BPF_ALU then validate_alu code k
         else if BPF_CLASS code = BPF_JMP then validate_jmp p room
         else if BPF_CLASS code = BPF_RET then BPF_RVAL code = BPF_K \<or> BPF_RVAL code = BPF_A
         else BPF_MISCOP code = BPF_TAX \<or> BPF_MISCOP code = BPF_TXA)"

function validate_from :: "bpf_insn list \<Rightarrow> ULONG \<Rightarrow> ULONG \<Rightarrow> bool option" where
  "validate_from insns count i =
     (if i < count then
        (case rd insns (unat i) of
           None \<Rightarrow> None
         | Some p \<Rightarrow> if validate_insn p (count - (i + 1)) then validate_from insns count (i + 1)
                    else Some False)
      else Some True)"
  by pat_completeness auto
termination
  by (relation "measure (\<lambda>(insns, count, i). unat count - unat i)") (auto, unat_arith)

declare validate_from.simps [simp del]

definition ami_bpf_validate :: "bpf_insn list option \<Rightarrow> ULONG \<Rightarrow> LONG option" where
  "ami_bpf_validate insns count =
     (case insns of
        None \<Rightarrow> Some (-1)
      | Some prog \<Rightarrow>
          if count = 0 \<or> BPF_MAXINSNS < count then Some (-1)
          else do {
            ok \<leftarrow> validate_from prog count 0;
            if \<not> ok then Some (-1)
            else do {
              p \<leftarrow> rd prog (unat (count - 1));
              Some (if BPF_CLASS (in_code p) \<noteq> BPF_RET then -1 else 0)
            }
          })"

section \<open>What acceptance means\<close>

lemma validate_from_iff:
  assumes "unat count \<le> length prog"
  shows "validate_from prog count i = Some
    (\<forall>j. unat i \<le> j \<and> j < unat count \<longrightarrow>
         validate_insn (prog ! j) (count - (of_nat j + 1)))"
  using assms
proof (induction prog count i rule: validate_from.induct)
  case (1 prog count i)
  show ?case
  proof (cases "i < count")
    case True
    then have rd: "rd prog (unat i) = Some (prog ! unat i)"
      using "1.prems" by (intro rd_in_range) unat_arith
    have suc: "unat (i + 1) = Suc (unat i)" using True by (rule unat_Suc_less)
    have lt: "unat i < unat count" using True by (simp add: word_nat)
    have split: "(\<forall>j. unat i \<le> j \<and> j < unat count \<longrightarrow> P j)
        \<longleftrightarrow> P (unat i) \<and> (\<forall>j. unat (i + 1) \<le> j \<and> j < unat count \<longrightarrow> P j)" for P
      unfolding suc using lt le_eq_less_or_eq Suc_le_eq by auto
    show ?thesis
      using "1.IH" [OF True rd _ "1.prems"] True rd
      by (subst validate_from.simps, subst split) auto
  next
    case False
    then show ?thesis by (subst validate_from.simps) (auto simp: word_nat not_less)
  qed
qed

text \<open>The check as a specification: what every instruction and the last one must satisfy.\<close>

definition bpf_program_ok :: "bpf_insn list \<Rightarrow> ULONG \<Rightarrow> bool" where
  "bpf_program_ok prog count \<longleftrightarrow>
     0 < count \<and> count \<le> BPF_MAXINSNS \<and>
     (\<forall>j < unat count. validate_insn (prog ! j) (count - (of_nat j + 1))) \<and>
     BPF_CLASS (in_code (prog ! (unat count - 1))) = BPF_RET"

lemma ami_bpf_validate_eq:
  assumes "unat count \<le> length prog"
  shows "ami_bpf_validate (Some prog) count = Some (if bpf_program_ok prog count then 0 else -1)"
proof (cases "count = 0")
  case True
  then show ?thesis by (simp add: ami_bpf_validate_def bpf_program_ok_def)
next
  case False
  then have pos: "0 < count" and last: "unat (count - 1) = unat count - 1"
    by (simp_all add: word_neq_0_conv unat_minus_one)
  have "rd prog (unat (count - 1)) = Some (prog ! (unat count - 1))"
    unfolding last using pos assms by (intro rd_in_range) unat_arith
  moreover define A where
    "A \<longleftrightarrow> (\<forall>j < unat count. validate_insn (prog ! j) (count - (of_nat j + 1)))"
  then have "validate_from prog count 0 = Some A"
    using validate_from_iff [OF assms, of 0] by simp
  ultimately show ?thesis
    using pos by (auto simp: ami_bpf_validate_def bpf_program_ok_def not_less simp flip: A_def)
qed

section \<open>Accepted programs at run time\<close>

lemma validated_jump:
  assumes "validate_jmp p (count - rpc s)" and "step_jmp p count s = Some out" and "rpc s \<le> count"
  shows "\<exists>s'. out = Next s' \<and> rpc s' < count"
proof -
  have go: "jump_by count d s = Some (Next (s\<lparr>rpc := rpc s + d\<rparr>)) \<and> rpc s + d < count"
    if "\<not> count - rpc s \<le> d" for d
    using that assms(3) by (auto simp: jump_by_def not_le) unat_arith+
  show ?thesis
  proof (cases "BPF_OP (in_code p) = BPF_JA")
    case True
    with assms(1) go [of "in_k p"] assms(2) show ?thesis
      by (auto simp: validate_jmp_def step_jmp_def)
  next
    case False
    with assms(1) obtain taken
      where "jump_taken (in_code p) (rA s) (alu_operand (in_code p) (in_k p) s) = Some taken"
      by (auto simp: validate_jmp_def jump_taken_def split: if_splits)
    with False assms(1,2) go [of "ucast (in_jt p)"] go [of "ucast (in_jf p)"] show ?thesis
      by (cases taken) (auto simp: validate_jmp_def step_jmp_def split: if_splits)
  qed
qed

lemma BPF_SRC_cases: "BPF_SRC code = BPF_X \<or> BPF_SRC code = BPF_K"
proof -
  have "code AND push_bit 3 1 = (if bit code 3 then push_bit 3 1 else 0)"
    by (rule bit_word_eqI) (simp only: bit_and_iff bit_push_bit_iff bit_1_iff bit_0_eq split: if_splits, auto)
  then show ?thesis by (simp add: BPF_SRC_def split: if_splits)
qed

lemma validated_step_stop:
  assumes "validate_insn p (count - rpc s)" and "bpf_step p count view s = Some (Stop why r)"
    and "rpc s \<le> count"
  shows "why \<in> {Returned, Off_Packet, Div_By_X}"
proof (cases "BPF_CLASS (in_code p) = BPF_JMP")
  case True
  with assms validated_jump [of p count s "Stop why r"] show ?thesis
    by (auto simp: validate_insn_def bpf_step_def Let_def)
next
  case False
  with assms(1,2) BPF_SRC_cases [of "in_code p"] show ?thesis
    by (auto simp: validate_insn_def validate_load_def validate_alu_def alu_operand_def step_defs
        split: if_splits option.splits)
qed

lemma validated_step_next:
  assumes "validate_insn p (count - rpc s)" and "bpf_step p count view s = Some (Next s')"
    and "rpc s < count \<or> rpc s = count \<and> BPF_CLASS (in_code p) = BPF_RET"
  shows "rpc s' < count"
proof (cases "BPF_CLASS (in_code p) = BPF_JMP")
  case True
  with assms validated_jump [of p count s "Next s'"] show ?thesis
    by (auto simp: validate_insn_def bpf_step_def Let_def)
next
  case False
  with assms(2) have "rpc s' = rpc s" by (rule bpf_step_rpc)
  moreover have "BPF_CLASS (in_code p) \<noteq> BPF_RET"
    using assms(2) by (auto simp: bpf_step_def step_ret_def Let_def split: if_splits)
  ultimately show ?thesis using assms(3) by simp
qed

lemma validated_run_stop:
  assumes "bpf_program_ok prog count" and "unat count \<le> length prog" and "rpc s < count"
    and "bpf_run prog count view s = Some (why, r)"
  shows "why \<in> {Returned, Off_Packet, Div_By_X}"
  using assms
proof (induction prog count view s rule: bpf_run.induct)
  case (1 prog count view s)
  let ?s = "s\<lparr>rpc := rpc s + 1\<rparr>" and ?p = "prog ! unat (rpc s)"
  have lt: "unat (rpc s) < unat count" using 1(4) by (simp add: word_nat)
  have rd: "rd prog (unat (rpc s)) = Some ?p"
    using lt 1(3) by (intro rd_in_range) simp
  have ok: "validate_insn ?p (count - rpc ?s)"
    using 1(2) lt by (auto simp: bpf_program_ok_def dest!: spec [of _ "unat (rpc s)"])
  have le: "rpc ?s \<le> count" using 1(4) by simp unat_arith
  have last: "rpc ?s < count \<or> rpc ?s = count \<and> BPF_CLASS (in_code ?p) = BPF_RET"
  proof (cases "rpc ?s = count")
    case True
    then have "unat count - 1 = unat (rpc s)" using unat_Suc_less [OF 1(4)] by simp
    with True 1(2) show ?thesis by (simp add: bpf_program_ok_def)
  next
    case False
    with le show ?thesis by simp
  qed
  obtain out where out: "bpf_step ?p count view ?s = Some out"
    using 1(4,5) rd by (subst (asm) bpf_run.simps) (auto split: option.splits)
  show ?case
  proof (cases out)
    case (Next s')
    with 1(4,5) rd out have "bpf_run prog count view s' = Some (why, r)"
      by (subst (asm) bpf_run.simps) simp
    moreover have "rpc s' < count" using ok out last unfolding Next by (rule validated_step_next)
    ultimately show ?thesis using "1.IH" [OF 1(4) rd out Next 1(2,3)] by simp
  next
    case (Stop w q)
    with 1(4,5) rd out have "w = why" by (subst (asm) bpf_run.simps) simp
    with validated_step_stop [OF ok _ le] out Stop show ?thesis by simp
  qed
qed


section \<open>Properties\<close>

text \<open>
  The inputs the witnesses use: the classic test of an Ethernet type field for IPv4, and a
  frame whose type field straddles two segments.
\<close>

definition sample_prog :: "bpf_insn list" where
  "sample_prog =
     [\<lparr>in_code = 0x28, in_jt = 0, in_jf = 0, in_k = 12\<rparr>,
      \<lparr>in_code = 0x15, in_jt = 0, in_jf = 1, in_k = 0x0800\<rparr>,
      \<lparr>in_code = 0x06, in_jt = 0, in_jf = 0, in_k = 96\<rparr>,
      \<lparr>in_code = 0x06, in_jt = 0, in_jf = 0, in_k = 0\<rparr>]"

definition sample_view :: AmiBpfView where
  "sample_view =
     \<lparr>vw_wirelen = 16, vw_caplen = 16, vw_nsegs = 2,
      vw_seg = [\<lparr>sg_base = replicate 12 0xFF @ [0x08], sg_len = 13\<rparr>,
                \<lparr>sg_base = [0x00, 0x45, 0x00, 0x99], sg_len = 3\<rparr>]\<rparr>"

text \<open>
  C2. Whatever the program (validated or not), running it on a well-formed view ends and
  touches no byte outside the program, the scratch memory and the packet's segments.
\<close>

theorem bpf_filter_no_fault:
  assumes "view_ok view" and "unat count \<le> length prog"
  shows "\<exists>keep. ami_bpf_filter_view (Some prog) count (Some view) = Some keep"
  using filter_outcome_total [OF assms] by (auto simp: ami_bpf_filter_view_def)

theorem bpf_filter_no_fault_witness:
  "\<exists>keep. ami_bpf_filter_view (Some sample_prog) 4 (Some sample_view) = Some keep"
proof (rule bpf_filter_no_fault)
  show "view_ok sample_view" by code_simp
  show "unat (4 :: ULONG) \<le> length sample_prog" by code_simp
qed

text \<open>
  C6. The interpreter does not see how a packet is cut into segments: on any well-formed
  view it returns what it returns on the same bytes in one contiguous buffer.
\<close>

theorem bpf_filter_scatter:
  assumes "view_ok view"
  shows "ami_bpf_filter_view insns count (Some view)
       = ami_bpf_filter insns count (view_bytes view) (vw_wirelen view) (vw_caplen view)"
proof -
  let ?flat = "linear_view (view_bytes view) (vw_wirelen view) (vw_caplen view)"
  from assms have len: "length (view_bytes view) = unat (vw_caplen view)" by (simp add: view_ok_def)
  then have "view_ok ?flat" and "view_bytes view = view_bytes ?flat"
    by (simp_all add: linear_view_ok)
  then have "bpf_run p count view s = bpf_run p count ?flat s" for p s
    using assms by (intro bpf_run_cong) (simp_all add: linear_view_def)
  then show ?thesis
    by (simp add: ami_bpf_filter_def ami_bpf_filter_view_def filter_outcome_def split: option.splits)
qed

theorem bpf_filter_scatter_witness:
  "ami_bpf_filter_view (Some sample_prog) 4 (Some sample_view)
   = ami_bpf_filter (Some sample_prog) 4 (view_bytes sample_view) 16 16
   \<and> ami_bpf_filter_view (Some sample_prog) 4 (Some sample_view) = Some 96"
proof -
  have "view_ok sample_view" by code_simp
  moreover have "vw_wirelen sample_view = 16" and "vw_caplen sample_view = 16"
    and "ami_bpf_filter_view (Some sample_prog) 4 (Some sample_view) = Some 96"
    by code_simp+
  ultimately show ?thesis using bpf_filter_scatter [of sample_view "Some sample_prog" 4] by simp
qed

text \<open>
  C7. \<^verbatim>\<open>ami_bpf_validate\<close> is sound for the interpreter: a program it accepts can only stop at
  a return instruction, at a read of one, two or four bytes past the captured ones, or at a
  division by the register \<^verbatim>\<open>X\<close> when it is zero; it never divides by a constant zero, never meets a load
  without a size or an encoding the interpreter does not implement, never indexes the scratch
  memory or jumps out of range, and never runs off its end.
\<close>

theorem bpf_validate_sound:
  assumes "ami_bpf_validate (Some prog) count = Some 0" and "unat count \<le> length prog"
    and "filter_outcome (Some prog) count (Some view) = Some (why, keep)"
  shows "why \<in> {Returned, Off_Packet, Div_By_X}"
proof -
  have ok: "bpf_program_ok prog count"
    using assms(1) ami_bpf_validate_eq [OF assms(2)] by (simp split: if_splits)
  then have "0 < count" by (simp add: bpf_program_ok_def)
  moreover from this assms(3) have "bpf_run prog count view bpf_start = Some (why, keep)"
    by (simp add: filter_outcome_def word_neq_0_conv split: if_splits)
  ultimately show ?thesis
    using validated_run_stop [OF ok assms(2), of bpf_start view why keep]
    by (simp add: bpf_start_def)
qed

theorem bpf_validate_sound_witness:
  "ami_bpf_validate (Some sample_prog) 4 = Some 0 \<and>
   filter_outcome (Some sample_prog) 4 (Some sample_view) = Some (Returned, 96) \<and>
   Returned \<in> {Returned, Off_Packet, Div_By_X}"
proof -
  have acc: "ami_bpf_validate (Some sample_prog) 4 = Some 0" and len: "unat (4 :: ULONG) \<le> length sample_prog"
    and run: "filter_outcome (Some sample_prog) 4 (Some sample_view) = Some (Returned, 96)"
    by code_simp+
  with bpf_validate_sound [OF acc len run] show ?thesis by blast
qed

end
