(* ===== verification/Bpf_Table.thy ===== *)
theory Bpf_Table
  imports Bpf_Validate
begin

text \<open>
  The channel table and the interface registry of \<^verbatim>\<open>src/bpf/\<close>: the state of
  \<^verbatim>\<open>bpf_channel.c\<close> and \<^verbatim>\<open>bpf_tap.c\<close>, the life cycle of a channel (open, close, release,
  teardown) and the binding of channels to interfaces (attach, detach, rebind).

  Every definition is the body of one critical section of the code, between
  \<^verbatim>\<open>ami_bpf_lock()\<close> and \<^verbatim>\<open>ami_bpf_unlock()\<close>; the sections of different tasks interleave in
  theory \<open>Bpf_Sections\<close>. A pointer into the channel or interface table is the index of the
  row; the two buffers of a channel are offsets into its one allocation, so that the swap of
  \<^verbatim>\<open>ami_bpf_rotate\<close> is a swap of offsets as it is in C. \<^verbatim>\<open>ami_free\<close> is the loss of the object.
  The capture hook is a callback of the stack: the model keeps the list of the values the
  registered hook has been called with.
\<close>

section \<open>State\<close>

type_synonym APTR = nat \<comment> \<open>an opaque pointer; 0 is \<^verbatim>\<open>NULL\<close>\<close>

type_synonym inject_fn = "APTR \<Rightarrow> UWORD \<Rightarrow> UBYTE list option \<Rightarrow> UBYTE list \<Rightarrow> LONG"

definition AMI_BPF_MAX_CHANNELS :: nat where "AMI_BPF_MAX_CHANNELS = 4"
definition AMI_BPF_MAX_IFACES :: nat where "AMI_BPF_MAX_IFACES = 5"
definition AMI_BPF_IFNAMSIZ :: nat where "AMI_BPF_IFNAMSIZ = 16"
definition AMI_BPF_DEFAULT_BLEN :: ULONG where "AMI_BPF_DEFAULT_BLEN = 4096"
definition DLT_EN10MB :: ULONG where "DLT_EN10MB = 1"

abbreviation AMI_BPF_EINVAL :: LONG where "AMI_BPF_EINVAL \<equiv> -1"
abbreviation AMI_BPF_ENXIO :: LONG where "AMI_BPF_ENXIO \<equiv> -2"
abbreviation AMI_BPF_EPERM :: LONG where "AMI_BPF_EPERM \<equiv> -3"
abbreviation AMI_BPF_EBUSY :: LONG where "AMI_BPF_EBUSY \<equiv> -4"
abbreviation AMI_BPF_EINTR :: LONG where "AMI_BPF_EINTR \<equiv> -5"
abbreviation AMI_BPF_EIO :: LONG where "AMI_BPF_EIO \<equiv> -6"
abbreviation AMI_BPF_ENOBUFS :: LONG where "AMI_BPF_ENOBUFS \<equiv> -7"
abbreviation AMI_BPF_EMSGSIZE :: LONG where "AMI_BPF_EMSGSIZE \<equiv> -8"

record AmiBpfIf =
  if_used :: bool
  if_name :: "UBYTE list"
  if_cookie :: APTR
  if_dlt :: ULONG
  if_mtu :: ULONG
  if_inject :: "inject_fn option"

record AmiBpfChan =
  ch_open :: bool
  ch_owner :: APTR
  ch_iface :: "nat option"
  ch_ifname :: "UBYTE list"
  ch_blen :: ULONG
  ch_bufbase :: "UBYTE list option"
  ch_store :: "nat option"
  ch_hold :: "nat option"
  ch_store_len :: ULONG
  ch_hold_len :: ULONG
  ch_hold_pos :: ULONG
  ch_reading :: bool
  ch_release_pending :: bool
  ch_filter :: "bpf_insn list option"
  ch_filter_len :: ULONG
  ch_dlt :: ULONG
  ch_immediate :: bool
  ch_promisc :: bool
  ch_rtimeout_sec :: ULONG
  ch_rtimeout_usec :: ULONG
  ch_notify_task :: APTR
  ch_notify_mask :: ULONG
  ch_irq_task :: APTR
  ch_irq_mask :: ULONG
  ch_recv_count :: ULONG
  ch_drop_count :: ULONG

record bpf_state =
  bs_chan :: "AmiBpfChan list"
  bs_gen :: "ULONG list"
  bs_bound :: UWORD
  bs_iface :: "AmiBpfIf list"
  bs_hook :: "UWORD list option" \<comment> \<open>calls the registered capture hook has received\<close>
  bs_signals :: "(APTR \<times> ULONG) list" \<comment> \<open>signals sent, oldest first\<close>

definition zero_if :: AmiBpfIf where
  "zero_if = \<lparr>if_used = False, if_name = replicate AMI_BPF_IFNAMSIZ 0, if_cookie = 0, if_dlt = 0,
     if_mtu = 0, if_inject = None\<rparr>"

definition zero_chan :: AmiBpfChan where
  "zero_chan =
     \<lparr>ch_open = False, ch_owner = 0, ch_iface = None, ch_ifname = replicate AMI_BPF_IFNAMSIZ 0,
      ch_blen = 0, ch_bufbase = None, ch_store = None, ch_hold = None, ch_store_len = 0,
      ch_hold_len = 0, ch_hold_pos = 0, ch_reading = False, ch_release_pending = False,
      ch_filter = None, ch_filter_len = 0, ch_dlt = 0, ch_immediate = False, ch_promisc = False,
      ch_rtimeout_sec = 0, ch_rtimeout_usec = 0, ch_notify_task = 0, ch_notify_mask = 0,
      ch_irq_task = 0, ch_irq_mask = 0, ch_recv_count = 0, ch_drop_count = 0\<rparr>"

definition set_chan :: "bpf_state \<Rightarrow> nat \<Rightarrow> AmiBpfChan \<Rightarrow> bpf_state" where
  "set_chan st i ch = st\<lparr>bs_chan := (bs_chan st)[i := ch]\<rparr>"

section \<open>The bound count and the capture hook\<close>

definition ami_bpf_capture_notify :: "bpf_state \<Rightarrow> UWORD \<Rightarrow> bpf_state" where
  "ami_bpf_capture_notify st capturing =
     (case bs_hook st of None \<Rightarrow> st | Some calls \<Rightarrow> st\<lparr>bs_hook := Some (calls @ [capturing])\<rparr>)"

definition ami_bpf_bound_inc :: "bpf_state \<Rightarrow> bpf_state" where
  "ami_bpf_bound_inc st =
     (let st = st\<lparr>bs_bound := bs_bound st + 1\<rparr>
      in if bs_bound st = 1 then ami_bpf_capture_notify st 1 else st)"

definition ami_bpf_bound_dec :: "bpf_state \<Rightarrow> bpf_state" where
  "ami_bpf_bound_dec st =
     (if bs_bound st = 0 then st
      else let st = st\<lparr>bs_bound := bs_bound st - 1\<rparr>
           in if bs_bound st = 0 then ami_bpf_capture_notify st 0 else st)"

text \<open>\<open>Some ()\<close> stands for a function pointer, \<open>None\<close> for \<^verbatim>\<open>NULL\<close>.\<close>

definition ami_bpf_set_capture_hook :: "bpf_state \<Rightarrow> unit option \<Rightarrow> bpf_state" where
  "ami_bpf_set_capture_hook st fn =
     st\<lparr>bs_hook := (case fn of None \<Rightarrow> None | Some _ \<Rightarrow> Some [bs_bound st])\<rparr>"

section \<open>Handles\<close>

definition ami_bpf_chan_get :: "bpf_state \<Rightarrow> APTR \<Rightarrow> LONG \<Rightarrow> LONG + nat" where
  "ami_bpf_chan_get st owner channel =
     (if channel < 0 \<or> int AMI_BPF_MAX_CHANNELS \<le> channel \<or> \<not> ch_open (bs_chan st ! nat channel)
      then Inl AMI_BPF_ENXIO
      else if ch_owner (bs_chan st ! nat channel) \<noteq> owner then Inl AMI_BPF_EPERM
      else Inr (nat channel))"

section \<open>Life cycle\<close>

definition ami_bpf_init :: "bpf_state \<Rightarrow> LONG \<times> bpf_state" where
  "ami_bpf_init st =
     (let st = st\<lparr>bs_chan := replicate AMI_BPF_MAX_CHANNELS zero_chan,
                  bs_gen := replicate AMI_BPF_MAX_CHANNELS 0\<rparr>;
          st = (if bs_bound st \<noteq> 0 then ami_bpf_capture_notify (st\<lparr>bs_bound := 0\<rparr>) 0 else st)
      in (0, st\<lparr>bs_iface := replicate AMI_BPF_MAX_IFACES zero_if\<rparr>))"

definition ami_bpf_chan_release :: "bpf_state \<Rightarrow> nat \<Rightarrow> bool \<Rightarrow> APTR \<Rightarrow> bpf_state" where
  "ami_bpf_chan_release st i force expected_owner =
     (let ch = bs_chan st ! i
      in if expected_owner \<noteq> 0 \<and> (\<not> ch_open ch \<or> ch_owner ch \<noteq> expected_owner) then st
         else let st = (if ch_iface ch \<noteq> None then ami_bpf_bound_dec st else st)
              in if ch_reading ch \<and> \<not> force
                 then set_chan st i
                        (ch\<lparr>ch_owner := 0, ch_iface := None, ch_release_pending := True\<rparr>)
                 else set_chan st i zero_chan)"

definition ami_bpf_close_owner :: "bpf_state \<Rightarrow> APTR \<Rightarrow> bpf_state" where
  "ami_bpf_close_owner st owner =
     fold (\<lambda>i st. if ch_open (bs_chan st ! i) \<and> ch_owner (bs_chan st ! i) = owner
                  then ami_bpf_chan_release st i False owner else st)
       [0..<AMI_BPF_MAX_CHANNELS] st"

definition ami_bpf_cleanup :: "bpf_state \<Rightarrow> bpf_state" where
  "ami_bpf_cleanup st =
     fold (\<lambda>i st. if ch_open (bs_chan st ! i) then ami_bpf_chan_release st i True 0 else st)
       [0..<AMI_BPF_MAX_CHANNELS] st"

text \<open>The first row of a table that satisfies a test, as the search loops find it.\<close>

fun find_row :: "('a \<Rightarrow> bool) \<Rightarrow> 'a list \<Rightarrow> nat option" where
  "find_row P [] = None"
| "find_row P (x # xs) = (if P x then Some 0 else map_option Suc (find_row P xs))"

definition next_generation :: "ULONG \<Rightarrow> ULONG" where
  "next_generation g = (if g + 1 = 0 then 1 else g + 1)"

definition open_slot :: "bpf_state \<Rightarrow> APTR \<Rightarrow> nat \<Rightarrow> bpf_state" where
  "open_slot st owner i =
     (set_chan st i (zero_chan\<lparr>ch_open := True, ch_owner := owner, ch_blen := AMI_BPF_DEFAULT_BLEN,
                              ch_dlt := DLT_EN10MB\<rparr>))
       \<lparr>bs_gen := (bs_gen st)[i := next_generation (bs_gen st ! i)]\<rparr>"

definition ami_bpf_open :: "bpf_state \<Rightarrow> APTR \<Rightarrow> LONG \<Rightarrow> LONG \<times> bpf_state" where
  "ami_bpf_open st owner channel =
     (if int AMI_BPF_MAX_CHANNELS \<le> channel then (AMI_BPF_ENXIO, st)
      else case (if channel < 0 then find_row (\<lambda>c. \<not> ch_open c) (bs_chan st)
                 else Some (nat channel)) of
             None \<Rightarrow> (AMI_BPF_EBUSY, st)
           | Some i \<Rightarrow> if ch_open (bs_chan st ! i) then (AMI_BPF_EBUSY, st)
                      else (int i, open_slot st owner i))"

definition ami_bpf_close :: "bpf_state \<Rightarrow> APTR \<Rightarrow> LONG \<Rightarrow> LONG \<times> bpf_state" where
  "ami_bpf_close st owner channel =
     (case ami_bpf_chan_get st owner channel of
        Inl status \<Rightarrow> (status, st)
      | Inr i \<Rightarrow>
          if ch_reading (bs_chan st ! i) then (AMI_BPF_EBUSY, st)
          else let st = (if ch_iface (bs_chan st ! i) \<noteq> None then ami_bpf_bound_dec st else st)
               in (0, set_chan st i zero_chan))"

section \<open>Interfaces\<close>

text \<open>The names agree up to and including a terminator within the 16 bytes.\<close>

fun name_match :: "UBYTE list \<Rightarrow> UBYTE list \<Rightarrow> bool" where
  "name_match (a # as) (b # bs) = (if a \<noteq> b then False else if a = 0 then True else name_match as bs)"
| "name_match _ _ = False"

text \<open>A C string cut to 15 bytes and padded with terminators.\<close>

definition copy_name :: "UBYTE list \<Rightarrow> UBYTE list" where
  "copy_name name =
     (let n = take (AMI_BPF_IFNAMSIZ - 1) (takeWhile (\<lambda>c. c \<noteq> 0) name)
      in n @ replicate (AMI_BPF_IFNAMSIZ - length n) 0)"

definition ami_bpf_iface_by_cookie :: "bpf_state \<Rightarrow> APTR \<Rightarrow> nat option" where
  "ami_bpf_iface_by_cookie st cookie =
     (if cookie = 0 then None
      else find_row (\<lambda>ifp. if_used ifp \<and> if_cookie ifp = cookie) (bs_iface st))"

definition ami_bpf_iface_by_name :: "bpf_state \<Rightarrow> UBYTE list \<Rightarrow> nat option" where
  "ami_bpf_iface_by_name st name =
     find_row (\<lambda>ifp. if_used ifp \<and> name_match (if_name ifp) name) (bs_iface st)"

definition unbind_one :: "nat \<Rightarrow> nat \<Rightarrow> bpf_state \<Rightarrow> bpf_state" where
  "unbind_one j i st =
     (let ch = bs_chan st ! i
      in if ch_open ch \<and> ch_iface ch = Some j
         then ami_bpf_bound_dec (set_chan st i (ch\<lparr>ch_iface := None\<rparr>)) else st)"

definition ami_bpf_chan_unbind_locked :: "bpf_state \<Rightarrow> nat \<Rightarrow> bpf_state" where
  "ami_bpf_chan_unbind_locked st j = fold (unbind_one j) [0..<AMI_BPF_MAX_CHANNELS] st"

definition rebind_one :: "nat \<Rightarrow> nat \<Rightarrow> bpf_state \<Rightarrow> bpf_state" where
  "rebind_one j i st =
     (let ch = bs_chan st ! i; ifp = bs_iface st ! j
      in if \<not> ch_open ch \<or> ch_release_pending ch \<or> ch_iface ch \<noteq> None \<or> ch_store ch = None then st
         else if name_match (ch_ifname ch) (if_name ifp)
         then ami_bpf_bound_inc (set_chan st i (ch\<lparr>ch_iface := Some j, ch_dlt := if_dlt ifp\<rparr>))
         else st)"

definition ami_bpf_chan_rebind_locked :: "bpf_state \<Rightarrow> nat \<Rightarrow> bpf_state" where
  "ami_bpf_chan_rebind_locked st j = fold (rebind_one j) [0..<AMI_BPF_MAX_CHANNELS] st"

text \<open>\<open>name = None\<close> is a \<^verbatim>\<open>NULL\<close> name.\<close>

definition ami_bpf_attach_interface ::
  "bpf_state \<Rightarrow> UBYTE list option \<Rightarrow> APTR \<Rightarrow> ULONG \<Rightarrow> ULONG \<Rightarrow> inject_fn option \<Rightarrow> LONG \<times> bpf_state" where
  "ami_bpf_attach_interface st name cookie dlt mtu inject =
     (case name of
        None \<Rightarrow> (-1, st)
      | Some nm \<Rightarrow>
          if cookie = 0 then (-1, st)
          else case (case ami_bpf_iface_by_cookie st cookie of
                       Some j \<Rightarrow> Some j
                     | None \<Rightarrow> find_row (\<lambda>ifp. \<not> if_used ifp) (bs_iface st)) of
                 None \<Rightarrow> (-1, st)
               | Some j \<Rightarrow>
                   (0, ami_bpf_chan_rebind_locked
                         (st\<lparr>bs_iface := (bs_iface st)
                            [j := \<lparr>if_used = True, if_name = copy_name nm, if_cookie = cookie,
                                   if_dlt = dlt, if_mtu = mtu, if_inject = inject\<rparr>]\<rparr>) j))"

definition ami_bpf_detach_interface :: "bpf_state \<Rightarrow> APTR \<Rightarrow> bpf_state" where
  "ami_bpf_detach_interface st cookie =
     (case ami_bpf_iface_by_cookie st cookie of
        None \<Rightarrow> st
      | Some j \<Rightarrow>
          let st = ami_bpf_chan_unbind_locked st j
          in st\<lparr>bs_iface := (bs_iface st)[j := zero_if]\<rparr>)"

end
