(* ===== verification/Bpf_Record.thy ===== *)
theory Bpf_Record
  imports Ami_Prelude
begin

text \<open>
  The capture record of \<^verbatim>\<open>src/bpf/bpf_channel.c\<close> and the way records lie in a channel
  buffer. \<open>rec_bytes\<close> is the wire form (18 header bytes, two pad bytes, the captured data);
  records start on four-byte boundaries and the alignment after the last one is not
  counted. \<open>holds area pos len rs\<close> says that the records \<open>rs\<close> lie in \<open>area\<close> from \<open>pos\<close> to
  \<open>len\<close>; \<open>parse_area\<close> reads them back from the header fields, as a consumer does, and is
  the inverse (\<open>parse_holds\<close>).
\<close>

section \<open>Alignment\<close>

definition BPF_WORDALIGN :: "ULONG \<Rightarrow> ULONG" where
  "BPF_WORDALIGN x = (x + 3) AND NOT 3"

definition align4 :: "nat \<Rightarrow> nat" where
  "align4 n = (n + 3) div 4 * 4"

lemma and_not_mask_eq: "x AND NOT (mask n) = push_bit n (drop_bit n x)" for x :: "'w::len word"
  by (rule bit_word_eqI) (auto simp: bit_simps)

lemma and_not_3: "x AND NOT 3 = push_bit 2 (drop_bit 2 x)" for x :: ULONG
  using and_not_mask_eq [of x 2] by (simp add: mask_eq_exp_minus_1)

lemma align4_props: "n \<le> align4 n" "align4 n < n + 4" "4 dvd align4 n"
  unfolding align4_def by presburger+

lemma align4_0 [simp]: "align4 0 = 0"
  by (simp add: align4_def)

lemma align4_id: "4 dvd n \<Longrightarrow> align4 n = n"
  unfolding align4_def by presburger

lemma align4_mono: "m \<le> n \<Longrightarrow> align4 m \<le> align4 n"
  unfolding align4_def by (simp add: div_le_mono)

lemma align4_le: "n \<le> m \<Longrightarrow> 4 dvd m \<Longrightarrow> align4 n \<le> m"
  unfolding align4_def by presburger

lemma unat_WORDALIGN:
  assumes "unat x + 3 < 2 ^ 32"
  shows "unat (BPF_WORDALIGN x) = align4 (unat x)"
proof -
  have sum: "unat (x + 3) = unat x + 3" using assms by (subst unat_add_nowrap) simp_all
  have "unat (drop_bit 2 (x + 3)) = (unat x + 3) div 4"
    using sum by (simp add: drop_bit_eq_div unat_div)
  moreover have "push_bit 2 (drop_bit 2 (x + 3)) = drop_bit 2 (x + 3) * 4"
    by (simp add: push_bit_eq_mult)
  moreover have "unat (drop_bit 2 (x + 3) * 4) = unat (drop_bit 2 (x + 3)) * 4"
    using assms calculation(1) by (simp add: unat_word_ariths)
  ultimately show ?thesis unfolding BPF_WORDALIGN_def and_not_3 align4_def by simp
qed

section \<open>Records\<close>

record bpf_rec =
  rc_sec :: ULONG
  rc_usec :: ULONG
  rc_caplen :: ULONG
  rc_datalen :: ULONG
  rc_data :: "UBYTE list"

definition rec_ok :: "bpf_rec \<Rightarrow> bool" where
  "rec_ok r \<longleftrightarrow> length (rc_data r) = unat (rc_caplen r)"

abbreviation (input) AMI_BPF_HDRLEN :: nat where "AMI_BPF_HDRLEN \<equiv> 20"

definition rec_header :: "bpf_rec \<Rightarrow> UBYTE list" where
  "rec_header r = be32 (rc_sec r) @ be32 (rc_usec r) @ be32 (rc_caplen r) @ be32 (rc_datalen r)
     @ be16 20 @ [0, 0]"

definition rec_bytes :: "bpf_rec \<Rightarrow> UBYTE list" where
  "rec_bytes r = rec_header r @ rc_data r"

definition rec_size :: "bpf_rec \<Rightarrow> nat" where
  "rec_size r = AMI_BPF_HDRLEN + length (rc_data r)"

lemma length_rec_header [simp]: "length (rec_header r) = AMI_BPF_HDRLEN"
  by (simp add: rec_header_def)

lemma length_rec_bytes [simp]: "length (rec_bytes r) = rec_size r"
  by (simp add: rec_bytes_def rec_size_def)

lemma rec_size_pos: "20 \<le> rec_size r"
  by (simp add: rec_size_def)

text \<open>The header fields as \<^verbatim>\<open>ami_bpf_get16\<close> and \<^verbatim>\<open>ami_bpf_get32\<close> read them.\<close>

definition get_be :: "UBYTE list \<Rightarrow> nat \<Rightarrow> nat \<Rightarrow> ULONG option" where
  "get_be area off n = map_option be_val (rd_range area off n)"

lemma get_be_header:
  assumes "take (rec_size r) (drop pos area) = rec_bytes r" and "pos + rec_size r \<le> length area"
  shows "get_be area pos 4 = Some (rc_sec r)" and "get_be area (pos + 4) 4 = Some (rc_usec r)"
    and "get_be area (pos + 8) 4 = Some (rc_caplen r)"
    and "get_be area (pos + 12) 4 = Some (rc_datalen r)"
    and "get_be area (pos + 16) 2 = Some 20"
    and "rd_range area (pos + 20) (length (rc_data r)) = Some (rc_data r)"
proof -
  have field: "take n (drop (pos + k) area) = take n (drop k (rec_bytes r))"
    if "k + n \<le> rec_size r" for k n
  proof -
    have "take n (drop k (take (rec_size r) (drop pos area))) = take n (drop (pos + k) area)"
      using that by (simp add: take_drop add.commute min_def)
    then show ?thesis using assms(1) by simp
  qed
  note f = field [of 0 4] field [of 4 4] field [of 8 4] field [of 12 4] field [of 16 2]
    field [of 20 "length (rc_data r)"]
  have "be_val (be16 20) = 20" by simp
  then show "get_be area pos 4 = Some (rc_sec r)" and "get_be area (pos + 4) 4 = Some (rc_usec r)"
    and "get_be area (pos + 8) 4 = Some (rc_caplen r)"
    and "get_be area (pos + 12) 4 = Some (rc_datalen r)"
    and "get_be area (pos + 16) 2 = Some 20"
    and "rd_range area (pos + 20) (length (rc_data r)) = Some (rc_data r)"
    using f assms(2)
    by (simp_all add: get_be_def rec_size_def rec_bytes_def rec_header_def)
qed

section \<open>Areas of records\<close>

fun holds :: "UBYTE list \<Rightarrow> nat \<Rightarrow> nat \<Rightarrow> bpf_rec list \<Rightarrow> bool" where
  "holds area pos len [] = (pos = align4 len)"
| "holds area pos len (r # rs) =
     (rec_ok r \<and> pos + rec_size r \<le> len \<and> len \<le> length area \<and>
      take (rec_size r) (drop pos area) = rec_bytes r \<and>
      holds area (align4 (pos + rec_size r)) len rs)"

lemma holds_len: "holds area pos len rs \<Longrightarrow> rs \<noteq> [] \<Longrightarrow> pos < len"
  using rec_size_pos [of "hd rs"] by (cases rs) auto

lemma holds_Nil_end: "holds area pos len [] \<Longrightarrow> len \<le> pos"
  using align4_props(1) by simp

lemma holds_Nil_iff: "holds area pos len rs \<Longrightarrow> len \<le> pos \<longleftrightarrow> rs = []"
  using holds_len holds_Nil_end by (cases rs) fastforce+

text \<open>What a consumer of the buffer sees: step over the records by their header fields.\<close>

function parse_area :: "UBYTE list \<Rightarrow> nat \<Rightarrow> nat \<Rightarrow> bpf_rec list" where
  "parse_area area pos len =
     (if pos < len then
        (case (get_be area pos 4, get_be area (pos + 4) 4, get_be area (pos + 8) 4,
               get_be area (pos + 12) 4) of
           (Some sec, Some usec, Some caplen, Some datalen) \<Rightarrow>
             (case rd_range area (pos + AMI_BPF_HDRLEN) (unat caplen) of
                Some d \<Rightarrow> \<lparr>rc_sec = sec, rc_usec = usec, rc_caplen = caplen, rc_datalen = datalen,
                           rc_data = d\<rparr>
                         # parse_area area (align4 (pos + AMI_BPF_HDRLEN + unat caplen)) len
              | None \<Rightarrow> [])
         | _ \<Rightarrow> [])
      else [])"
  by pat_completeness auto
termination
proof (relation "measure (\<lambda>(area, pos, len). len - pos)")
  fix pos len :: nat and caplen :: ULONG
  assume "pos < len"
  then have "len - align4 (pos + 20 + unat caplen) < len - pos"
    using align4_props(1) [of "pos + 20 + unat caplen"] by linarith
  then show "((area, align4 (pos + AMI_BPF_HDRLEN + unat caplen), len), area, pos, len)
      \<in> measure (\<lambda>(area, pos, len). len - pos)" for area :: "UBYTE list"
    by simp
qed simp

declare parse_area.simps [simp del]

lemma parse_holds: "holds area pos len rs \<Longrightarrow> parse_area area pos len = rs"
proof (induction rs arbitrary: pos)
  case Nil
  then show ?case using align4_props(1) [of len] by (subst parse_area.simps) simp
next
  case (Cons r rs)
  then have le: "pos + rec_size r \<le> length area" and lt: "pos < len"
    and tk: "take (rec_size r) (drop pos area) = rec_bytes r" and ok: "rec_ok r"
    using rec_size_pos [of r] by auto
  have "parse_area area (align4 (pos + rec_size r)) len = rs" using Cons by simp
  then have "parse_area area (align4 (pos + 20 + unat (rc_caplen r))) len = rs"
    using ok by (simp add: rec_ok_def rec_size_def add.assoc)
  moreover have "rd_range area (pos + 20) (unat (rc_caplen r)) = Some (rc_data r)"
    using get_be_header(6) [OF tk le] ok by (simp add: rec_ok_def)
  ultimately show ?case using lt
    by (subst parse_area.simps) (simp add: get_be_header [OF tk le])
qed

lemma take_rec_same:
  assumes "take len area' = take len area" and "p + n \<le> len"
  shows "take n (drop p area') = take n (drop p area)"
proof -
  have "take n (drop p xs) = take n (drop p (take len xs))" for xs :: "'a list"
    using assms(2) by (simp add: drop_take min_def)
  then show ?thesis using assms(1) by metis
qed

lemma holds_cong:
  assumes "holds area pos len rs" and "take len area' = take len area"
    and "length area' = length area"
  shows "holds area' pos len rs"
  using assms(1)
proof (induction rs arbitrary: pos)
  case (Cons r rs)
  with assms(3) take_rec_same [OF assms(2), of pos "rec_size r"] show ?case by simp
qed simp

lemma holds_snoc:
  assumes "holds area pos len rs" and "take len area' = take len area"
    and "length area' = length area" and "rec_ok r"
    and "take (rec_size r) (drop (align4 len) area') = rec_bytes r"
    and "align4 len + rec_size r \<le> length area"
  shows "holds area' pos (align4 len + rec_size r) (rs @ [r])"
  using assms(1)
proof (induction rs arbitrary: pos)
  case Nil
  with assms show ?case by simp
next
  case (Cons a rs)
  moreover have "len \<le> align4 len" by (rule align4_props)
  ultimately show ?case
    using assms(3,6) take_rec_same [OF assms(2), of pos "rec_size a"] by auto
qed

section \<open>Runs of whole records\<close>

text \<open>
  The bytes a run of records takes, with the alignment between records and none after the
  last; and how many records fit whole into \<open>room\<close> bytes.
\<close>

fun span :: "bpf_rec list \<Rightarrow> nat" where
  "span [] = 0"
| "span [r] = rec_size r"
| "span (r # s # rs) = align4 (rec_size r) + span (s # rs)"

definition aspan :: "bpf_rec list \<Rightarrow> nat" where
  "aspan rs = sum_list (map (\<lambda>r. align4 (rec_size r)) rs)"

fun fit_count :: "nat \<Rightarrow> bpf_rec list \<Rightarrow> nat" where
  "fit_count room [] = 0"
| "fit_count room (r # rs) =
     (if rec_size r \<le> room then Suc (fit_count (room - align4 (rec_size r)) rs) else 0)"

lemma aspan_simps [simp]: "aspan [] = 0" "aspan (r # rs) = align4 (rec_size r) + aspan rs"
  by (simp_all add: aspan_def)

lemma span_Cons: "span (r # rs) = (if rs = [] then rec_size r else align4 (rec_size r) + span rs)"
  by (cases rs) simp_all

lemma span_le_aspan: "span rs \<le> aspan rs"
  by (induction rs rule: span.induct) (simp_all add: align4_props)

lemma span_pos: "rs \<noteq> [] \<Longrightarrow> 20 \<le> span rs"
proof (induction rs rule: span.induct)
  case (3 r s rs)
  then show ?case using rec_size_pos [of r] align4_props(1) [of "rec_size r"] by simp
qed (use rec_size_pos in auto)

lemma align4_add: "4 dvd p \<Longrightarrow> align4 (p + n) = p + align4 n"
  unfolding align4_def by presburger

lemma fit_count_le: "fit_count room rs \<le> length rs"
  by (induction room rs rule: fit_count.induct) auto

lemma fit_count_0: "fit_count 0 rs = 0"
  using rec_size_pos [of "hd rs"] by (cases rs) auto

lemma fit_count_fits: "span (take (fit_count room rs) rs) \<le> room"
proof (induction room rs rule: fit_count.induct)
  case (2 room r rs)
  then show ?case
  proof (cases "take (fit_count (room - align4 (rec_size r)) rs) rs = []")
    case False
    then have "room - align4 (rec_size r) \<noteq> 0" using fit_count_0 by (metis take0)
    then show ?thesis using 2 False by (auto simp: span_Cons)
  qed (simp add: span_Cons)
qed simp

lemma fit_count_max:
  "fit_count room rs < length rs \<Longrightarrow> room < span (take (Suc (fit_count room rs)) rs)"
proof (induction room rs rule: fit_count.induct)
  case (2 room r rs)
  show ?case
  proof (cases "rec_size r \<le> room")
    case True
    then have "room - align4 (rec_size r)
      < span (take (Suc (fit_count (room - align4 (rec_size r)) rs)) rs)"
      using 2 by simp
    moreover have "rs \<noteq> []" using 2(2) True by auto
    ultimately show ?thesis using True by (simp add: span_Cons)
  qed (simp add: span_Cons)
qed simp

lemma holds_span_le:
  assumes "holds area pos len rs" and "4 dvd pos" and "k \<le> length rs" and "0 < k"
  shows "pos + span (take k rs) \<le> len"
  using assms
proof (induction rs arbitrary: pos k)
  case (Cons r rs)
  then obtain j where k: "k = Suc j" by (cases k) auto
  show ?case
  proof (cases "take j rs = []")
    case False
    then have "align4 (pos + rec_size r) + span (take j rs) \<le> len"
      using Cons k align4_props(3) [of "pos + rec_size r"] by (intro Cons.IH) auto
    then show ?thesis using k False align4_add [OF Cons.prems(2), of "rec_size r"]
      by (simp add: span_Cons)
  qed (use Cons k in \<open>simp add: span_Cons\<close>)
qed simp

text \<open>Stepping over \<open>k\<close> records leaves the others.\<close>

lemma holds_drop:
  assumes "holds area pos len rs" and "4 dvd pos" and "k \<le> length rs"
  shows "holds area (pos + aspan (take k rs)) len (drop k rs)" and "4 dvd pos + aspan (take k rs)"
proof -
  have "holds area (pos + aspan (take k rs)) len (drop k rs) \<and> 4 dvd pos + aspan (take k rs)"
    using assms
  proof (induction rs arbitrary: pos k)
    case (Cons r rs)
    show ?case
    proof (cases k)
      case (Suc j)
      then have "holds area (align4 (pos + rec_size r) + aspan (take j rs)) len (drop j rs) \<and>
        4 dvd align4 (pos + rec_size r) + aspan (take j rs)"
        using Cons align4_props(3) [of "pos + rec_size r"] by (intro Cons.IH) auto
      then show ?thesis using Suc align4_add [OF Cons.prems(2), of "rec_size r"] by (simp add: add.assoc)
    qed (use Cons in auto)
  qed simp
  then show "holds area (pos + aspan (take k rs)) len (drop k rs)" "4 dvd pos + aspan (take k rs)"
    by auto
qed

text \<open>The first \<open>k\<close> records alone, and the same records at the start of a buffer.\<close>

lemma holds_take:
  assumes "holds area pos len rs" and "4 dvd pos" and "len \<le> length area"
  shows "holds area pos (pos + span (take k rs)) (take k rs)"
  using assms(1,2)
proof (induction rs arbitrary: pos k)
  case Nil
  then show ?case by (simp add: align4_id)
next
  case (Cons r rs)
  show ?case
  proof (cases k)
    case 0
    then show ?thesis using Cons.prems by (simp add: align4_id)
  next
    case (Suc j)
    define p2 where "p2 = align4 (pos + rec_size r)"
    have p2: "p2 = pos + align4 (rec_size r)" unfolding p2_def by (rule align4_add [OF Cons.prems(2)])
    have IH: "holds area p2 (p2 + span (take j rs)) (take j rs)"
      using Cons.prems by (intro Cons.IH) (auto simp: p2_def align4_props)
    have le: "pos + span (take k (r # rs)) \<le> length area"
    proof (cases "length (r # rs) < k")
      case True
      then show ?thesis using holds_span_le [OF Cons.prems, of "length (r # rs)"] assms(3) by simp
    next
      case False
      then show ?thesis using holds_span_le [OF Cons.prems, of k] Suc assms(3) by simp
    qed
    have "span (take k (r # rs)) = (if take j rs = [] then rec_size r
        else align4 (rec_size r) + span (take j rs))"
      using Suc by (simp add: span_Cons)
    then show ?thesis using Cons.prems IH le p2 Suc align4_props(1) [of "rec_size r"]
      by (cases "take j rs = []") (auto simp: p2_def [symmetric] add.assoc)
  qed
qed

lemma holds_shift:
  assumes "holds area (p + q) (p + l) rs" and "4 dvd p" and "p \<le> length area"
  shows "holds (drop p area) q l rs"
  using assms
proof (induction rs arbitrary: q)
  case (Cons r rs)
  have "align4 (p + q + rec_size r) = p + align4 (q + rec_size r)"
    using align4_add [OF assms(2), of "q + rec_size r"] by (simp add: add.assoc)
  moreover have "l \<le> length area - p" using Cons.prems by auto
  moreover have "drop (q + p) area = drop (p + q) area" by (simp only: add.commute)
  ultimately show ?case using Cons by (simp add: add.assoc)
qed (simp add: align4_add)

lemma batch_holds:
  assumes "holds area pos len rs" and "4 dvd pos" and "len \<le> length area" and "pos \<le> length area"
    and "n = span (take k rs)" and "pos + n \<le> length area"
  shows "holds (take n (drop pos area)) 0 n (take k rs)"
proof -
  have "holds (drop pos area) 0 n (take k rs)"
    using holds_take [OF assms(1-3), of k] assms by (intro holds_shift) simp_all
  moreover have "holds (take n xs) 0 n rs'" if "holds xs 0 n rs'" "n \<le> length xs" for xs and rs' :: "bpf_rec list"
  proof -
    have aux: "holds (take n xs) p n rs'" if "holds xs p n rs'" "n \<le> length xs" for p
      using that
    proof (induction rs' arbitrary: p)
      case (Cons r rs)
      then have "rec_size r \<le> n - p" by auto
      then show ?case using Cons by (simp add: drop_take min_absorb1)
    qed simp
    then show ?thesis using that by blast
  qed
  ultimately show ?thesis using assms(6) by simp
qed

end
