(* ===== verification/Bpf_Inv.thy ===== *)
theory Bpf_Inv
  imports Bpf_Table Bpf_Record
begin

text \<open>
  The invariant of the channel table, and that the life-cycle and binding sections of
  theory \<open>Bpf_Table\<close> keep it.

  \<open>chan_ok\<close> says of one channel: a closed slot is all zero; the two buffers are the two
  halves of one allocation of twice \<^verbatim>\<open>blen\<close> bytes, each holding whole records; the interface
  row of a bound channel is in use; an installed filter has passed the
  validator; a channel waiting for its release has no owner and no interface. \<open>bpf_inv\<close> adds that
  \<^verbatim>\<open>ami_bpf_bound_channels\<close> is the number of bound channels and that the capture hook's last
  call told the truth about whether it is zero.
\<close>

section \<open>The invariant\<close>

definition hold_area :: "AmiBpfChan \<Rightarrow> UBYTE list" where
  "hold_area ch = (case (ch_bufbase ch, ch_hold ch) of
     (Some b, Some off) \<Rightarrow> take (unat (ch_blen ch)) (drop off b) | _ \<Rightarrow> [])"

definition store_area :: "AmiBpfChan \<Rightarrow> UBYTE list" where
  "store_area ch = (case (ch_bufbase ch, ch_store ch) of
     (Some b, Some off) \<Rightarrow> take (unat (ch_blen ch)) (drop off b) | _ \<Rightarrow> [])"

text \<open>The records waiting in a channel: those of the hold buffer, then those of the store.\<close>

definition hold_recs :: "AmiBpfChan \<Rightarrow> bpf_rec list" where
  "hold_recs ch = parse_area (hold_area ch) (unat (ch_hold_pos ch)) (unat (ch_hold_len ch))"

definition store_recs :: "AmiBpfChan \<Rightarrow> bpf_rec list" where
  "store_recs ch = parse_area (store_area ch) 0 (unat (ch_store_len ch))"

definition chan_queue :: "AmiBpfChan \<Rightarrow> bpf_rec list" where
  "chan_queue ch = hold_recs ch @ store_recs ch"

definition recs_ok :: "AmiBpfChan \<Rightarrow> bool" where
  "recs_ok ch \<longleftrightarrow>
     holds (hold_area ch) (unat (ch_hold_pos ch)) (unat (ch_hold_len ch)) (hold_recs ch) \<and>
     holds (store_area ch) 0 (unat (ch_store_len ch)) (store_recs ch)"

definition blen_ok :: "ULONG \<Rightarrow> bool" where
  "blen_ok n \<longleftrightarrow> 32 \<le> unat n \<and> unat n \<le> 0x8000 \<and> 4 dvd unat n"

definition bufs_ok :: "AmiBpfChan \<Rightarrow> bool" where
  "bufs_ok ch \<longleftrightarrow>
     (case ch_bufbase ch of
        None \<Rightarrow> ch_store ch = None \<and> ch_hold ch = None \<and> ch_store_len ch = 0 \<and>
                ch_hold_len ch = 0 \<and> ch_hold_pos ch = 0 \<and> \<not> ch_reading ch
      | Some b \<Rightarrow>
          blen_ok (ch_blen ch) \<and> length b = 2 * unat (ch_blen ch) \<and>
          (ch_store ch = Some 0 \<and> ch_hold ch = Some (unat (ch_blen ch)) \<or>
           ch_store ch = Some (unat (ch_blen ch)) \<and> ch_hold ch = Some 0) \<and>
          ch_store_len ch \<le> ch_blen ch \<and> ch_hold_len ch \<le> ch_blen ch \<and>
          (ch_hold_pos ch < ch_hold_len ch \<or> ch_hold_len ch = 0 \<and> ch_hold_pos ch = 0) \<and>
          4 dvd unat (ch_hold_pos ch))"

definition filter_ok :: "AmiBpfChan \<Rightarrow> bool" where
  "filter_ok ch \<longleftrightarrow>
     (case ch_filter ch of
        None \<Rightarrow> ch_filter_len ch = 0
      | Some p \<Rightarrow> length p = unat (ch_filter_len ch) \<and> bpf_program_ok p (ch_filter_len ch))"

definition iface_ok :: "AmiBpfIf list \<Rightarrow> AmiBpfChan \<Rightarrow> bool" where
  "iface_ok ifs ch \<longleftrightarrow>
     (case ch_iface ch of None \<Rightarrow> True | Some j \<Rightarrow> j < length ifs \<and> if_used (ifs ! j))"

definition chan_ok :: "AmiBpfIf list \<Rightarrow> AmiBpfChan \<Rightarrow> bool" where
  "chan_ok ifs ch \<longleftrightarrow>
     (\<not> ch_open ch \<longrightarrow> ch = zero_chan) \<and> bufs_ok ch \<and> recs_ok ch \<and> filter_ok ch \<and> iface_ok ifs ch \<and>
     length (ch_ifname ch) = AMI_BPF_IFNAMSIZ \<and>
     (ch_release_pending ch \<longrightarrow> ch_iface ch = None \<and> ch_owner ch = 0)"

definition bound_count :: "AmiBpfChan list \<Rightarrow> nat" where
  "bound_count chans = length (filter (\<lambda>ch. ch_iface ch \<noteq> None) chans)"

definition hook_ok :: "bpf_state \<Rightarrow> bool" where
  "hook_ok st \<longleftrightarrow>
     (case bs_hook st of
        None \<Rightarrow> True
      | Some calls \<Rightarrow> calls \<noteq> [] \<and> (last calls = 0 \<longleftrightarrow> bs_bound st = 0))"

definition bpf_inv :: "bpf_state \<Rightarrow> bool" where
  "bpf_inv st \<longleftrightarrow>
     length (bs_chan st) = AMI_BPF_MAX_CHANNELS \<and> length (bs_gen st) = AMI_BPF_MAX_CHANNELS \<and>
     length (bs_iface st) = AMI_BPF_MAX_IFACES \<and>
     (\<forall>ch \<in> set (bs_chan st). chan_ok (bs_iface st) ch) \<and>
     (\<forall>ifp \<in> set (bs_iface st). length (if_name ifp) = AMI_BPF_IFNAMSIZ) \<and>
     unat (bs_bound st) = bound_count (bs_chan st) \<and> hook_ok st"

section \<open>Generic preservation lemmas\<close>

lemma length_filter_update:
  "i < length xs \<Longrightarrow>
   length (filter P (xs[i := y])) + (if P (xs ! i) then 1 else 0)
   = length (filter P xs) + (if P y then 1 else 0)"
proof (induction xs arbitrary: i)
  case (Cons x xs)
  then show ?case by (cases i) fastforce+
qed simp

lemma find_row_Some: "find_row P xs = Some i \<Longrightarrow> i < length xs \<and> P (xs ! i)"
  by (induction xs arbitrary: i) (auto split: if_splits)

lemma find_row_None: "find_row P xs = None \<longleftrightarrow> (\<forall>x \<in> set xs. \<not> P x)"
  by (induction xs) auto

lemma inv_chan: "bpf_inv st \<Longrightarrow> i < AMI_BPF_MAX_CHANNELS \<Longrightarrow> chan_ok (bs_iface st) (bs_chan st ! i)"
  by (simp add: bpf_inv_def)

lemma set_chan_simps [simp]:
  "bs_chan (set_chan st i ch) = (bs_chan st)[i := ch]"
  "bs_gen (set_chan st i ch) = bs_gen st"
  "bs_bound (set_chan st i ch) = bs_bound st"
  "bs_iface (set_chan st i ch) = bs_iface st"
  "bs_hook (set_chan st i ch) = bs_hook st"
  "bs_signals (set_chan st i ch) = bs_signals st"
  by (simp_all add: set_chan_def)

lemma notify_simps [simp]:
  "bs_chan (ami_bpf_capture_notify st v) = bs_chan st"
  "bs_gen (ami_bpf_capture_notify st v) = bs_gen st"
  "bs_bound (ami_bpf_capture_notify st v) = bs_bound st"
  "bs_iface (ami_bpf_capture_notify st v) = bs_iface st"
  "bs_signals (ami_bpf_capture_notify st v) = bs_signals st"
  by (simp_all add: ami_bpf_capture_notify_def split: option.splits)

lemma bound_simps [simp]:
  "bs_chan (ami_bpf_bound_inc st) = bs_chan st" "bs_chan (ami_bpf_bound_dec st) = bs_chan st"
  "bs_gen (ami_bpf_bound_inc st) = bs_gen st" "bs_gen (ami_bpf_bound_dec st) = bs_gen st"
  "bs_iface (ami_bpf_bound_inc st) = bs_iface st" "bs_iface (ami_bpf_bound_dec st) = bs_iface st"
  "bs_signals (ami_bpf_bound_inc st) = bs_signals st" "bs_signals (ami_bpf_bound_dec st) = bs_signals st"
  by (simp_all add: ami_bpf_bound_inc_def ami_bpf_bound_dec_def Let_def)

lemma bound_dec_set_chan:
  "set_chan (ami_bpf_bound_dec st) i ch = ami_bpf_bound_dec (set_chan st i ch)"
  by (auto simp: set_chan_def ami_bpf_bound_dec_def ami_bpf_capture_notify_def Let_def
      split: option.splits)

lemma bound_count_le: "bound_count chans \<le> length chans"
  by (simp add: bound_count_def)

lemma zero_chan_simps [simp]:
  "ch_iface zero_chan = None" "\<not> ch_open zero_chan" "\<not> ch_reading zero_chan"
  "ch_store zero_chan = None" "ch_bufbase zero_chan = None" "ch_owner zero_chan = 0"
  by (simp_all add: zero_chan_def)

lemma zero_if_simps [simp]: "\<not> if_used zero_if" "length (if_name zero_if) = AMI_BPF_IFNAMSIZ"
  by (simp_all add: zero_if_def)

lemma length_copy_name [simp]: "length (copy_name name) = AMI_BPF_IFNAMSIZ"
  by (simp add: copy_name_def Let_def AMI_BPF_IFNAMSIZ_def min_def)

lemma hook_ok_cong: "bs_hook st' = bs_hook st \<Longrightarrow> bs_bound st' = bs_bound st \<Longrightarrow> hook_ok st' = hook_ok st"
  by (simp add: hook_ok_def split: option.splits)

lemma zero_chan_ok: "chan_ok ifs zero_chan"
  by (simp add: chan_ok_def zero_chan_def bufs_ok_def recs_ok_def filter_ok_def iface_ok_def
      hold_recs_def store_recs_def parse_area.simps)

lemma inv_same_binding:
  assumes inv: "bpf_inv st" and i: "i < AMI_BPF_MAX_CHANNELS" and ok: "chan_ok (bs_iface st) ch"
    and same: "ch_iface ch = None \<longleftrightarrow> ch_iface (bs_chan st ! i) = None"
  shows "bpf_inv (set_chan st i ch)"
proof -
  from inv i have "i < length (bs_chan st)" by (simp add: bpf_inv_def)
  then have "bound_count ((bs_chan st)[i := ch]) = bound_count (bs_chan st)"
    using same length_filter_update [of i "bs_chan st" "\<lambda>ch. ch_iface ch \<noteq> None" ch]
    by (auto simp: bound_count_def)
  with inv ok show ?thesis
    by (auto simp: bpf_inv_def hook_ok_def split: option.splits
        dest!: set_update_subset_insert [THEN subsetD])
qed

lemma inv_unbind:
  assumes inv: "bpf_inv st" and i: "i < AMI_BPF_MAX_CHANNELS" and ok: "chan_ok (bs_iface st) ch"
    and bound: "ch_iface (bs_chan st ! i) \<noteq> None" and free: "ch_iface ch = None"
  shows "bpf_inv (ami_bpf_bound_dec (set_chan st i ch))"
proof -
  from inv i have len: "i < length (bs_chan st)" by (simp add: bpf_inv_def)
  then have cnt: "Suc (bound_count ((bs_chan st)[i := ch])) = bound_count (bs_chan st)"
    using bound free length_filter_update [of i "bs_chan st" "\<lambda>ch. ch_iface ch \<noteq> None" ch]
    by (auto simp: bound_count_def)
  then have nz: "bs_bound st \<noteq> 0" using inv by (auto simp: bpf_inv_def)
  then have dec: "unat (bs_bound st - 1) = bound_count ((bs_chan st)[i := ch])"
    using cnt inv by (simp add: bpf_inv_def unat_minus_one)
  have "hook_ok (ami_bpf_bound_dec (set_chan st i ch))"
    using inv nz by (auto simp: bpf_inv_def hook_ok_def ami_bpf_bound_dec_def
        ami_bpf_capture_notify_def Let_def split: option.splits)
  moreover have "bs_bound (ami_bpf_bound_dec (set_chan st i ch)) = bs_bound st - 1"
    using nz by (simp add: ami_bpf_bound_dec_def Let_def)
  ultimately show ?thesis using inv ok dec
    by (auto simp: bpf_inv_def dest!: set_update_subset_insert [THEN subsetD])
qed

lemma inv_bind:
  assumes inv: "bpf_inv st" and i: "i < AMI_BPF_MAX_CHANNELS" and ok: "chan_ok (bs_iface st) ch"
    and free: "ch_iface (bs_chan st ! i) = None" and bound: "ch_iface ch \<noteq> None"
  shows "bpf_inv (ami_bpf_bound_inc (set_chan st i ch))"
proof -
  from inv i have len: "i < length (bs_chan st)" by (simp add: bpf_inv_def)
  then have cnt: "bound_count ((bs_chan st)[i := ch]) = Suc (bound_count (bs_chan st))"
    using bound free length_filter_update [of i "bs_chan st" "\<lambda>ch. ch_iface ch \<noteq> None" ch]
    by (auto simp: bound_count_def)
  have small: "unat (bs_bound st) \<le> 4"
    using inv bound_count_le [of "bs_chan st"] by (simp add: bpf_inv_def AMI_BPF_MAX_CHANNELS_def)
  then have inc: "unat (bs_bound st + 1) = Suc (unat (bs_bound st))"
    by (subst unat_add_nowrap) simp_all
  then have nz: "bs_bound st + 1 \<noteq> 0" by auto
  have "hook_ok (ami_bpf_bound_inc (set_chan st i ch))"
    using inv nz by (auto simp: bpf_inv_def hook_ok_def ami_bpf_bound_inc_def
        ami_bpf_capture_notify_def Let_def split: option.splits)
  moreover have "bs_bound (ami_bpf_bound_inc (set_chan st i ch)) = bs_bound st + 1"
    by (simp add: ami_bpf_bound_inc_def Let_def)
  ultimately show ?thesis using inv ok inc cnt
    by (auto simp: bpf_inv_def dest!: set_update_subset_insert [THEN subsetD])
qed

text \<open>
  Channels that agree on everything the invariant reads; counters, masks, timeouts and the
  mode flags are free.
\<close>

definition same_core :: "AmiBpfChan \<Rightarrow> AmiBpfChan \<Rightarrow> bool" where
  "same_core ch ch' \<longleftrightarrow>
     ch_open ch' = ch_open ch \<and> ch_owner ch' = ch_owner ch \<and> ch_iface ch' = ch_iface ch \<and>
     ch_ifname ch' = ch_ifname ch \<and> ch_blen ch' = ch_blen ch \<and> ch_bufbase ch' = ch_bufbase ch \<and> ch_store ch' = ch_store ch \<and>
     ch_hold ch' = ch_hold ch \<and> ch_store_len ch' = ch_store_len ch \<and>
     ch_hold_len ch' = ch_hold_len ch \<and> ch_hold_pos ch' = ch_hold_pos ch \<and>
     ch_reading ch' = ch_reading ch \<and> ch_release_pending ch' = ch_release_pending ch \<and>
     ch_filter ch' = ch_filter ch \<and> ch_filter_len ch' = ch_filter_len ch"

lemma same_core_areas:
  assumes "same_core ch ch'"
  shows "hold_area ch' = hold_area ch" and "store_area ch' = store_area ch"
    and "hold_recs ch' = hold_recs ch" and "store_recs ch' = store_recs ch"
    and "chan_queue ch' = chan_queue ch"
  using assms
  by (simp_all add: same_core_def hold_area_def store_area_def hold_recs_def store_recs_def
      chan_queue_def cong: option.case_cong)

lemma same_core_parts:
  assumes "same_core ch ch'"
  shows "bufs_ok ch' = bufs_ok ch" and "recs_ok ch' = recs_ok ch" and "filter_ok ch' = filter_ok ch"
    and "iface_ok ifs ch' = iface_ok ifs ch"
proof -
  show "bufs_ok ch' = bufs_ok ch" "filter_ok ch' = filter_ok ch" "iface_ok ifs ch' = iface_ok ifs ch"
    using assms
    by (simp_all add: same_core_def bufs_ok_def filter_ok_def iface_ok_def cong: option.case_cong)
  show "recs_ok ch' = recs_ok ch"
    using assms same_core_areas [OF assms] by (simp add: recs_ok_def) (simp add: same_core_def)
qed

lemma same_core_ok:
  assumes "same_core ch ch'" and "ch_open ch" and "chan_ok ifs ch"
  shows "chan_ok ifs ch'"
  using assms same_core_parts [OF assms(1)] by (simp add: chan_ok_def) (simp add: same_core_def)

section \<open>The life cycle keeps the invariant\<close>

lemma chan_get_Inr:
  assumes "ami_bpf_chan_get st owner channel = Inr i"
  shows "i < AMI_BPF_MAX_CHANNELS" and "ch_open (bs_chan st ! i)"
    and "ch_owner (bs_chan st ! i) = owner" and "channel = int i"
  using assms by (auto simp: ami_bpf_chan_get_def split: if_splits)

lemma chan_update_ok:
  assumes "chan_ok ifs ch" and "bufs_ok ch'" and "recs_ok ch'" and "filter_ok ch'"
    and "iface_ok ifs ch'" and "ch_open ch'" and "\<not> ch_release_pending ch'"
    and "ch_ifname ch' = ch_ifname ch"
  shows "chan_ok ifs ch'"
  using assms by (simp add: chan_ok_def)

lemma retire_inv:
  assumes inv: "bpf_inv st" and i: "i < AMI_BPF_MAX_CHANNELS"
  shows "bpf_inv (set_chan (if ch_iface (bs_chan st ! i) \<noteq> None then ami_bpf_bound_dec st else st)
    i zero_chan)"
proof (cases "ch_iface (bs_chan st ! i) = None")
  case True
  then show ?thesis using inv_same_binding [OF inv i zero_chan_ok] by simp
next
  case False
  then show ?thesis using inv_unbind [OF inv i zero_chan_ok False] by (simp add: bound_dec_set_chan)
qed

lemma pending_ok:
  assumes "chan_ok ifs ch" and "ch_reading ch" and "ch_open ch"
  shows "chan_ok ifs (ch\<lparr>ch_owner := 0, ch_iface := None, ch_release_pending := True\<rparr>)"
  using assms
  by (auto simp: chan_ok_def bufs_ok_def recs_ok_def filter_ok_def iface_ok_def hold_recs_def
      store_recs_def hold_area_def store_area_def split: option.splits)

lemma reading_open: "chan_ok ifs ch \<Longrightarrow> ch_reading ch \<Longrightarrow> ch_open ch"
  by (auto simp: chan_ok_def zero_chan_def)

lemma release_inv:
  assumes inv: "bpf_inv st" and i: "i < AMI_BPF_MAX_CHANNELS"
  shows "bpf_inv (ami_bpf_chan_release st i force expected_owner)"
proof -
  let ?ch = "bs_chan st ! i"
    and ?p = "(bs_chan st ! i)\<lparr>ch_owner := 0, ch_iface := None, ch_release_pending := True\<rparr>"
  have "bpf_inv (set_chan (if ch_iface ?ch \<noteq> None then ami_bpf_bound_dec st else st) i ?p)"
    if "ch_reading ?ch"
  proof -
    have ok: "chan_ok (bs_iface st) ?p"
      using that inv_chan [OF inv i] pending_ok reading_open by blast
    show ?thesis
      using inv_same_binding [OF inv i ok] inv_unbind [OF inv i ok]
      by (auto simp: bound_dec_set_chan)
  qed
  then show ?thesis using inv retire_inv [OF inv i]
    by (simp add: ami_bpf_chan_release_def Let_def)
qed

text \<open>A loop over the four channels keeps what each turn keeps.\<close>

lemma fold_channels:
  assumes "\<And>i st. i < n \<Longrightarrow> P st \<Longrightarrow> P (f i st)" and "P st"
  shows "P (fold f [0..<n] st)"
proof -
  have "P (fold f xs st)" if "set xs \<subseteq> {0..<n}" for xs
    using that assms by (induction xs arbitrary: st) auto
  then show ?thesis by simp
qed

lemma close_owner_inv: "bpf_inv st \<Longrightarrow> bpf_inv (ami_bpf_close_owner st owner)"
  unfolding ami_bpf_close_owner_def by (rule fold_channels) (auto intro: release_inv)

lemma cleanup_inv: "bpf_inv st \<Longrightarrow> bpf_inv (ami_bpf_cleanup st)"
  unfolding ami_bpf_cleanup_def by (rule fold_channels) (auto intro: release_inv)

lemma close_inv: "bpf_inv st \<Longrightarrow> bpf_inv (snd (ami_bpf_close st owner channel))"
  using retire_inv chan_get_Inr(1)
  by (auto simp: ami_bpf_close_def Let_def split: sum.splits)

lemma open_slot_inv:
  assumes inv: "bpf_inv st" and i: "i < AMI_BPF_MAX_CHANNELS" and "\<not> ch_open (bs_chan st ! i)"
  shows "bpf_inv (open_slot st owner i)"
proof -
  let ?ch = "zero_chan\<lparr>ch_open := True, ch_owner := owner, ch_blen := AMI_BPF_DEFAULT_BLEN,
    ch_dlt := DLT_EN10MB\<rparr>"
  have "chan_ok (bs_iface st) ?ch"
    by (simp add: chan_ok_def zero_chan_def bufs_ok_def recs_ok_def filter_ok_def iface_ok_def
        hold_recs_def store_recs_def parse_area.simps)
  moreover have "bs_chan st ! i = zero_chan"
    using inv_chan [OF inv i] assms(3) by (simp add: chan_ok_def)
  ultimately have "bpf_inv (set_chan st i ?ch)"
    using inv i by (intro inv_same_binding) (simp_all add: zero_chan_def)
  moreover have "hook_ok (open_slot st owner i) = hook_ok (set_chan st i ?ch)"
    by (rule hook_ok_cong) (simp_all add: open_slot_def)
  ultimately show ?thesis by (simp add: bpf_inv_def) (simp add: open_slot_def)
qed

lemma open_inv:
  assumes inv: "bpf_inv st"
  shows "bpf_inv (snd (ami_bpf_open st owner channel))"
proof -
  have "i < AMI_BPF_MAX_CHANNELS" if "find_row (\<lambda>c. \<not> ch_open c) (bs_chan st) = Some i" for i
    using inv find_row_Some [OF that] by (simp add: bpf_inv_def)
  then show ?thesis using inv
    by (auto simp: ami_bpf_open_def not_le split: option.splits if_splits
        intro!: open_slot_inv)
qed

lemma init_inv: "hook_ok st \<Longrightarrow> bpf_inv (snd (ami_bpf_init st))"
  using zero_chan_ok
  by (auto simp: ami_bpf_init_def bpf_inv_def hook_ok_def bound_count_def zero_chan_def
      ami_bpf_capture_notify_def Let_def split: option.splits)

lemma set_capture_hook_inv: "bpf_inv st \<Longrightarrow> bpf_inv (ami_bpf_set_capture_hook st fn)"
  by (auto simp: bpf_inv_def hook_ok_def ami_bpf_set_capture_hook_def split: option.splits)

section \<open>Binding keeps the invariant\<close>

lemma unbind_one_inv:
  assumes inv: "bpf_inv st" and i: "i < AMI_BPF_MAX_CHANNELS"
  shows "bpf_inv (unbind_one j i st)"
proof -
  let ?ch = "bs_chan st ! i"
  have "chan_ok (bs_iface st) (?ch\<lparr>ch_iface := None\<rparr>)" if "ch_open ?ch"
    using inv_chan [OF inv i] that
    by (auto simp: chan_ok_def bufs_ok_def recs_ok_def filter_ok_def iface_ok_def hold_recs_def
        store_recs_def hold_area_def store_area_def split: option.splits)
  then show ?thesis using inv inv_unbind [OF inv i, of "?ch\<lparr>ch_iface := None\<rparr>"]
    by (auto simp: unbind_one_def Let_def)
qed

lemma rebind_one_inv:
  assumes inv: "bpf_inv st" and i: "i < AMI_BPF_MAX_CHANNELS"
    and j: "j < length (bs_iface st)" "if_used (bs_iface st ! j)"
  shows "bpf_inv (rebind_one j i st)"
proof -
  let ?ch = "bs_chan st ! i"
  have "chan_ok (bs_iface st) (?ch\<lparr>ch_iface := Some j, ch_dlt := d\<rparr>)"
    if "ch_open ?ch" "\<not> ch_release_pending ?ch" "ch_store ?ch = Some off" for d off
    using inv_chan [OF inv i] that j
    by (auto simp: chan_ok_def bufs_ok_def recs_ok_def filter_ok_def iface_ok_def hold_recs_def
        store_recs_def hold_area_def store_area_def split: option.splits)
  then show ?thesis using inv inv_bind [OF inv i]
    by (auto simp: rebind_one_def Let_def)
qed

lemma iface_by_cookie_Some:
  assumes "ami_bpf_iface_by_cookie st cookie = Some j"
  shows "j < length (bs_iface st)" and "if_used (bs_iface st ! j)"
    and "if_cookie (bs_iface st ! j) = cookie" and "cookie \<noteq> 0"
  using assms find_row_Some by (auto simp: ami_bpf_iface_by_cookie_def split: if_splits)

lemma unbind_one_iface [simp]: "bs_iface (unbind_one j i st) = bs_iface st"
  by (simp add: unbind_one_def Let_def)

lemma rebind_one_iface [simp]: "bs_iface (rebind_one j i st) = bs_iface st"
  by (simp add: rebind_one_def Let_def)

lemma unbind_all_iface [simp]: "bs_iface (ami_bpf_chan_unbind_locked st j) = bs_iface st"
  unfolding ami_bpf_chan_unbind_locked_def
  by (rule fold_channels [where P = "\<lambda>s. bs_iface s = bs_iface st"]) auto

lemma unbind_all_inv: "bpf_inv st \<Longrightarrow> bpf_inv (ami_bpf_chan_unbind_locked st j)"
  unfolding ami_bpf_chan_unbind_locked_def by (rule fold_channels) (auto intro: unbind_one_inv)

lemma unbind_one_self:
  "bpf_inv st \<Longrightarrow> i < AMI_BPF_MAX_CHANNELS \<Longrightarrow> ch_iface (bs_chan (unbind_one j i st) ! i) \<noteq> Some j"
  using inv_chan [of st i]
  by (auto simp: unbind_one_def Let_def chan_ok_def bpf_inv_def)

lemma unbind_one_other: "k \<noteq> i \<Longrightarrow> bs_chan (unbind_one j i st) ! k = bs_chan st ! k"
  by (simp add: unbind_one_def Let_def)

lemma unbind_prefix:
  assumes "bpf_inv st" and "n \<le> AMI_BPF_MAX_CHANNELS"
  shows "bpf_inv (fold (unbind_one j) [0..<n] st) \<and>
    (\<forall>i < n. ch_iface (bs_chan (fold (unbind_one j) [0..<n] st) ! i) \<noteq> Some j)"
  using assms(2)
proof (induction n)
  case (Suc n)
  then show ?case
    using unbind_one_inv [of "fold (unbind_one j) [0..<n] st" n j]
      unbind_one_self [of "fold (unbind_one j) [0..<n] st" n j]
    by (auto simp: less_Suc_eq unbind_one_other)
qed (simp add: assms)

lemma unbind_all_free:
  assumes "bpf_inv st" and "ch \<in> set (bs_chan (ami_bpf_chan_unbind_locked st j))"
  shows "ch_iface ch \<noteq> Some j"
proof -
  have "length (bs_chan (ami_bpf_chan_unbind_locked st j)) = AMI_BPF_MAX_CHANNELS"
    using unbind_all_inv [OF assms(1)] by (simp add: bpf_inv_def)
  with assms(2) obtain i where "i < AMI_BPF_MAX_CHANNELS"
    "ch = bs_chan (ami_bpf_chan_unbind_locked st j) ! i" by (auto simp: in_set_conv_nth)
  then show ?thesis using unbind_prefix [OF assms(1), of AMI_BPF_MAX_CHANNELS]
    by (auto simp: ami_bpf_chan_unbind_locked_def)
qed

lemma inv_iface_row:
  assumes "bpf_inv st" and "\<And>ch. ch \<in> set (bs_chan st) \<Longrightarrow> ch_iface ch = Some j \<Longrightarrow> if_used row"
    and "length (if_name row) = AMI_BPF_IFNAMSIZ"
  shows "bpf_inv (st\<lparr>bs_iface := (bs_iface st)[j := row]\<rparr>)"
proof -
  have "hook_ok (st\<lparr>bs_iface := (bs_iface st)[j := row]\<rparr>) = hook_ok st"
    by (rule hook_ok_cong) simp_all
  moreover have "chan_ok ((bs_iface st)[j := row]) ch" if "ch \<in> set (bs_chan st)" for ch
  proof -
    have "chan_ok (bs_iface st) ch" using assms(1) that by (simp add: bpf_inv_def)
    moreover from this have "iface_ok ((bs_iface st)[j := row]) ch"
      using assms(2) [OF that]
      by (cases "ch_iface ch = Some j") (auto simp: chan_ok_def iface_ok_def split: option.splits)
    ultimately show ?thesis by (simp add: chan_ok_def)
  qed
  moreover have "\<forall>ifp \<in> set ((bs_iface st)[j := row]). length (if_name ifp) = AMI_BPF_IFNAMSIZ"
    using assms(1,3) set_update_subset_insert [of "bs_iface st" j row] by (auto simp: bpf_inv_def)
  ultimately show ?thesis using assms(1) by (simp add: bpf_inv_def)
qed

lemma detach_inv: "bpf_inv st \<Longrightarrow> bpf_inv (ami_bpf_detach_interface st cookie)"
  using unbind_all_inv unbind_all_free
  by (auto simp: ami_bpf_detach_interface_def Let_def simp flip: unbind_all_iface
      split: option.splits intro!: inv_iface_row)

lemma rebind_all_inv:
  assumes "bpf_inv st" and "j < length (bs_iface st)" and "if_used (bs_iface st ! j)"
  shows "bpf_inv (ami_bpf_chan_rebind_locked st j)"
proof -
  have "bpf_inv (fold (rebind_one j) [0..<AMI_BPF_MAX_CHANNELS] st) \<and>
    bs_iface (fold (rebind_one j) [0..<AMI_BPF_MAX_CHANNELS] st) = bs_iface st"
    by (rule fold_channels [where P = "\<lambda>s. bpf_inv s \<and> bs_iface s = bs_iface st"])
       (use assms in \<open>auto intro: rebind_one_inv\<close>)
  then show ?thesis by (simp add: ami_bpf_chan_rebind_locked_def)
qed

lemma attach_inv:
  assumes inv: "bpf_inv st"
  shows "bpf_inv (snd (ami_bpf_attach_interface st name cookie dlt mtu inject))"
proof -
  have row: "j < length (bs_iface st)"
    if "(case ami_bpf_iface_by_cookie st cookie of Some j \<Rightarrow> Some j
       | None \<Rightarrow> find_row (\<lambda>ifp. \<not> if_used ifp) (bs_iface st)) = Some j" for j
    using that find_row_Some iface_by_cookie_Some by (auto split: option.splits)
  show ?thesis using inv
    by (auto simp: ami_bpf_attach_interface_def split: option.splits
        intro!: rebind_all_inv inv_iface_row dest: row iface_by_cookie_Some(1) find_row_Some)
qed

section \<open>A concrete table\<close>

text \<open>
  One interface, one channel of owner 7 bound to it with buffers of 64 bytes and the
  filter of the validator's example; the other three slots are closed.
\<close>

definition sample_if :: AmiBpfIf where
  "sample_if = zero_if\<lparr>if_used := True, if_name := copy_name [101, 116, 104, 48], if_cookie := 77,
     if_dlt := DLT_EN10MB, if_mtu := 1500\<rparr>"

definition sample_chan :: AmiBpfChan where
  "sample_chan = zero_chan\<lparr>ch_open := True, ch_owner := 7, ch_iface := Some 0,
     ch_ifname := if_name sample_if, ch_blen := 64, ch_bufbase := Some (replicate 128 0),
     ch_store := Some 0, ch_hold := Some 64, ch_dlt := DLT_EN10MB,
     ch_filter := Some sample_prog, ch_filter_len := 4\<rparr>"

definition sample_state :: bpf_state where
  "sample_state = \<lparr>bs_chan = [sample_chan, zero_chan, zero_chan, zero_chan],
     bs_gen = [1, 0, 0, 0], bs_bound = 1, bs_iface = sample_if # replicate 4 zero_if,
     bs_hook = Some [0, 1], bs_signals = []\<rparr>"

lemma sample_state_inv: "bpf_inv sample_state"
  by code_simp

end
