(* ===== verification/Bpf_Capture.thy ===== *)
theory Bpf_Capture
  imports Bpf_Inv
begin

text \<open>
  The capture path: \<^verbatim>\<open>ami_bpf_copy_bytes\<close>, \<^verbatim>\<open>ami_bpf_view_copy\<close>, \<^verbatim>\<open>ami_bpf_rotate\<close> and
  \<^verbatim>\<open>ami_bpf_capture\<close> of \<^verbatim>\<open>src/bpf/bpf_channel.c\<close>, and the taps of \<^verbatim>\<open>bpf_tap.c\<close> and
  \<^verbatim>\<open>bpf_tap_tx.c\<close> that call it.

  The clock (\<^verbatim>\<open>ami_bpf_now\<close>) and the outcome of \<^verbatim>\<open>ami_bpf_try_lock\<close> are arguments, one value
  for each channel the loop visits. The refinement lemma \<open>capture_locked_spec\<close> is the
  contract of the path: seen through \<open>chan_queue\<close>, a capture appends one record, or counts
  a drop, or leaves the queue alone because the filter rejected the packet.
\<close>

section \<open>Copying\<close>

text \<open>
  \<^verbatim>\<open>ami_bpf_copy_bytes\<close> on the bytes \<open>src\<close> of its source: \<open>d\<close> and \<open>s\<close> are the two addresses,
  the result is what it writes from \<open>d\<close> on. When the addresses agree modulo four the code
  copies single bytes up to a boundary, then longwords, then the rest.
\<close>

fun copy_head :: "nat \<Rightarrow> nat \<Rightarrow> nat \<Rightarrow> UBYTE list \<Rightarrow> UBYTE list \<times> nat" where
  "copy_head 0 d len src = ([], len)"
| "copy_head (Suc fuel) d len src =
     (if d mod 4 \<noteq> 0
      then (case src of
              [] \<Rightarrow> ([], len)
            | b # src' \<Rightarrow> let (out, len') = copy_head fuel (d + 1) (len - 1) src' in (b # out, len'))
      else ([], len))"

fun copy_longs :: "nat \<Rightarrow> UBYTE list \<Rightarrow> UBYTE list \<times> nat" where
  "copy_longs len (a # b # c # e # src) =
     (if 4 \<le> len then let (out, len') = copy_longs (len - 4) src in (a # b # c # e # out, len')
      else ([], len))"
| "copy_longs len src = ([], len)"

definition ami_bpf_copy_bytes :: "nat \<Rightarrow> nat \<Rightarrow> UBYTE list \<Rightarrow> nat \<Rightarrow> UBYTE list" where
  "ami_bpf_copy_bytes d s src len =
     (if 8 \<le> len \<and> d mod 4 = s mod 4
      then let (h, len1) = copy_head 3 d len src;
               (m, len2) = copy_longs len1 (drop (length h) src)
           in h @ m @ take len2 (drop (length h + length m) src)
      else take len src)"

lemma copy_head_spec:
  assumes "copy_head fuel d len src = (h, len')" and "fuel \<le> len" and "len \<le> length src"
  shows "h = take (length h) src \<and> len' = len - length h \<and> length h \<le> fuel"
  using assms
proof (induction fuel arbitrary: d len src h len')
  case (Suc fuel)
  show ?case
  proof (cases "d mod 4 \<noteq> 0")
    case True
    with Suc.prems obtain b src' out where src: "src = b # src'" and h: "h = b # out"
      and r: "copy_head fuel (d + 1) (len - 1) src' = (out, len')"
      by (cases src) (auto split: prod.splits)
    from Suc.IH [OF r] Suc.prems src have "out = take (length out) src' \<and>
      len' = len - 1 - length out \<and> length out \<le> fuel" by simp
    with h src show ?thesis by simp
  qed (use Suc.prems in auto)
qed simp

text \<open>Three bytes always reach the boundary, so the bound on the head loop cuts nothing off.\<close>

lemma copy_head_aligned:
  assumes "copy_head fuel d len src = (h, len')" and "fuel \<le> length src"
    and "d mod 4 = 0 \<or> 4 - d mod 4 \<le> fuel"
  shows "(d + length h) mod 4 = 0"
  using assms
proof (induction fuel arbitrary: d len src h len')
  case (Suc fuel)
  show ?case
  proof (cases "d mod 4 \<noteq> 0")
    case True
    with Suc.prems obtain b src' out where src: "src = b # src'" and h: "h = b # out"
      and r: "copy_head fuel (d + 1) (len - 1) src' = (out, len')"
      by (cases src) (auto split: prod.splits)
    have "(d + 1) mod 4 = 0 \<or> 4 - (d + 1) mod 4 \<le> fuel"
      using Suc.prems(3) True by presburger
    with Suc.IH [OF r] Suc.prems(2) src h show ?thesis by simp
  qed (use Suc.prems in auto)
qed auto

lemma copy_longs_spec:
  "copy_longs len src = (m, len') \<Longrightarrow> len \<le> length src \<Longrightarrow>
   m = take (length m) src \<and> len' = len - length m \<and> length m \<le> len"
proof (induction len src arbitrary: m len' rule: copy_longs.induct)
  case (1 len a b c e src)
  show ?case
  proof (cases "4 \<le> len")
    case True
    obtain out l where r: "copy_longs (len - 4) src = (out, l)" by fastforce
    with 1 True have "out = take (length out) src \<and> l = len - 4 - length out \<and> length out \<le> len - 4"
      by simp
    with 1 True r show ?thesis by auto
  qed (use 1 in auto)
qed auto

lemma copy_bytes_take:
  assumes "len \<le> length src"
  shows "ami_bpf_copy_bytes d s src len = take len src"
proof (cases "8 \<le> len \<and> d mod 4 = s mod 4")
  case True
  obtain h len1 where h: "copy_head 3 d len src = (h, len1)" by fastforce
  obtain m len2 where m: "copy_longs len1 (drop (length h) src) = (m, len2)" by fastforce
  from copy_head_spec [OF h] True assms
  have hs: "h = take (length h) src" "len1 = len - length h" "length h \<le> 3" by simp_all
  from copy_longs_spec [OF m] hs assms
  have ms: "m = take (length m) (drop (length h) src)" "len2 = len1 - length m" "length m \<le> len1"
    by simp_all
  have "h @ m @ take len2 (drop (length h + length m) src)
    = take (length h + (length m + len2)) src"
    using hs(1) ms(1) by (metis add.commute drop_drop take_add)
  also have "length h + (length m + len2) = len" using hs(2,3) ms(2,3) True by linarith
  finally show ?thesis using True h m by (simp add: ami_bpf_copy_bytes_def)
qed (auto simp: ami_bpf_copy_bytes_def)

text \<open>
  \<^verbatim>\<open>ami_bpf_view_copy\<close>: \<open>len\<close> bytes from offset \<open>off\<close> of the view into the object \<open>mem\<close> at
  \<open>dst\<close>, with zeros for what the view does not cover.
\<close>

fun view_copy_from ::
  "AmiBpfSeg list \<Rightarrow> ULONG \<Rightarrow> ULONG \<Rightarrow> UBYTE list \<Rightarrow> nat \<Rightarrow> ULONG \<Rightarrow> UBYTE list option" where
  "view_copy_from [] base off mem dst len = wr_range mem dst (replicate (unat len) 0)"
| "view_copy_from (s # ss) base off mem dst len =
     (if len = 0 then Some mem
      else if base + sg_len s \<le> off then view_copy_from ss (base + sg_len s) off mem dst len
      else let start = (if base < off then off - base else 0);
               n = (if len < sg_len s - start then len else sg_len s - start)
           in do {
                run \<leftarrow> rd_range (sg_base s) (unat start) (unat n);
                mem' \<leftarrow> wr_range mem dst run;
                view_copy_from ss (base + sg_len s) (off + n) mem' (dst + unat n) (len - n)
              })"

definition ami_bpf_view_copy ::
  "AmiBpfView \<Rightarrow> ULONG \<Rightarrow> UBYTE list \<Rightarrow> nat \<Rightarrow> ULONG \<Rightarrow> UBYTE list option" where
  "ami_bpf_view_copy view off mem dst len = view_copy_from (view_segs view) 0 off mem dst len"

section \<open>Rotation and capture\<close>

definition ami_bpf_rotate :: "AmiBpfChan \<Rightarrow> AmiBpfChan" where
  "ami_bpf_rotate ch =
     ch\<lparr>ch_hold := ch_store ch, ch_hold_len := ch_store_len ch, ch_hold_pos := 0,
        ch_store := ch_hold ch, ch_store_len := 0\<rparr>"

text \<open>The record at \<open>rec\<close>: six header fields, the pad, the captured bytes.\<close>

definition write_record ::
  "UBYTE list \<Rightarrow> nat \<Rightarrow> ULONG \<Rightarrow> ULONG \<Rightarrow> ULONG \<Rightarrow> AmiBpfView \<Rightarrow> UBYTE list option" where
  "write_record mem rec sec usec caplen view = do {
     mem \<leftarrow> wr_range mem (rec + 0) (be32 sec);
     mem \<leftarrow> wr_range mem (rec + 4) (be32 usec);
     mem \<leftarrow> wr_range mem (rec + 8) (be32 caplen);
     mem \<leftarrow> wr_range mem (rec + 12) (be32 (vw_wirelen view));
     mem \<leftarrow> wr_range mem (rec + 16) (be16 20);
     mem \<leftarrow> wr_range mem (rec + 18) (replicate (AMI_BPF_HDRLEN - 18) 0);
     ami_bpf_view_copy view 0 mem (rec + AMI_BPF_HDRLEN) caplen
   }"

text \<open>
  The part of the loop body after the re-check, on the channel: the new channel and
  whether the reader is woken, or \<open>None\<close> for a memory fault.
\<close>

definition capture_append ::
  "ULONG \<times> ULONG \<Rightarrow> AmiBpfView \<Rightarrow> AmiBpfChan \<Rightarrow> ULONG \<Rightarrow> ULONG \<Rightarrow> ULONG \<Rightarrow> bool
   \<Rightarrow> (AmiBpfChan \<times> bool) option" where
  "capture_append now view ch curlen caplen totlen wake = do {
     base \<leftarrow> ch_bufbase ch;
     store \<leftarrow> ch_store ch;
     base' \<leftarrow> write_record base (store + unat curlen) (fst now) (snd now) caplen view;
     Some (ch\<lparr>ch_bufbase := Some base', ch_store_len := curlen + totlen\<rparr>, wake \<or> ch_immediate ch)
   }"

definition capture_locked ::
  "ULONG \<times> ULONG \<Rightarrow> AmiBpfView \<Rightarrow> AmiBpfChan \<Rightarrow> (AmiBpfChan \<times> bool) option" where
  "capture_locked now view ch = do {
     let ch = ch\<lparr>ch_recv_count := ch_recv_count ch + 1\<rparr>;
     slen \<leftarrow> ami_bpf_filter_view (ch_filter ch) (ch_filter_len ch) (Some view);
     if slen = 0 then Some (ch, False)
     else
       let caplen = (if slen < vw_wirelen view then slen else vw_wirelen view);
           caplen = (if vw_caplen view < caplen then vw_caplen view else caplen);
           totlen = 20 + caplen;
           caplen = (if ch_blen ch < totlen then ch_blen ch - 20 else caplen);
           totlen = (if ch_blen ch < totlen then ch_blen ch else totlen);
           curlen = BPF_WORDALIGN (ch_store_len ch)
       in if ch_blen ch < curlen + totlen
          then if ch_hold_len ch = 0 \<and> \<not> ch_reading ch
               then capture_append now view (ami_bpf_rotate ch) 0 caplen totlen True
               else Some (ch\<lparr>ch_drop_count := ch_drop_count ch + 1\<rparr>, False)
          else capture_append now view ch curlen caplen totlen False
   }"

definition ami_bpf_notify :: "APTR \<Rightarrow> ULONG \<Rightarrow> bpf_state \<Rightarrow> bpf_state" where
  "ami_bpf_notify task sigmask st =
     (if task = 0 \<or> sigmask = 0 then st else st\<lparr>bs_signals := bs_signals st @ [(task, sigmask)]\<rparr>)"

text \<open>
  One turn of the loop for channel \<open>i\<close>: whether the loop goes on, and the new state.
\<close>

definition capture_one ::
  "bool \<Rightarrow> ULONG \<times> ULONG \<Rightarrow> APTR \<Rightarrow> AmiBpfView \<Rightarrow> nat \<Rightarrow> bpf_state \<Rightarrow> (bool \<times> bpf_state) option" where
  "capture_one got_lock now cookie view i st =
     (let ch = bs_chan st ! i
      in if \<not> ch_open ch \<or> ch_store ch = None then Some (True, st)
         else if \<not> got_lock then Some (True, st)
         else case ami_bpf_iface_by_cookie st cookie of
                None \<Rightarrow> Some (False, st)
              | Some j \<Rightarrow>
                  if \<not> ch_open ch \<or> ch_iface ch \<noteq> Some j \<or> ch_store ch = None \<or> ch_blen ch \<le> 20
                  then Some (True, st)
                  else do {
                    (ch', wake) \<leftarrow> capture_locked now view ch;
                    let st = set_chan st i ch';
                    let st = (if wake
                              then ami_bpf_notify (ch_irq_task ch') (ch_irq_mask ch')
                                     (ami_bpf_notify (ch_notify_task ch') (ch_notify_mask ch') st)
                              else st);
                    Some (True, st)
                  })"

fun capture_loop ::
  "(nat \<Rightarrow> bool) \<Rightarrow> (nat \<Rightarrow> ULONG \<times> ULONG) \<Rightarrow> APTR \<Rightarrow> AmiBpfView \<Rightarrow> nat list \<Rightarrow> bpf_state
   \<Rightarrow> bpf_state option" where
  "capture_loop locks clock cookie view [] st = Some st"
| "capture_loop locks clock cookie view (i # is) st = do {
     (go_on, st) \<leftarrow> capture_one (locks i) (clock i) cookie view i st;
     if go_on then capture_loop locks clock cookie view is st else Some st
   }"

definition ami_bpf_capture ::
  "(nat \<Rightarrow> bool) \<Rightarrow> (nat \<Rightarrow> ULONG \<times> ULONG) \<Rightarrow> bpf_state \<Rightarrow> APTR \<Rightarrow> AmiBpfView \<Rightarrow> bpf_state option" where
  "ami_bpf_capture locks clock st cookie view =
     capture_loop locks clock cookie view [0..<AMI_BPF_MAX_CHANNELS] st"

section \<open>The taps\<close>

definition ami_bpf_tap_view ::
  "(nat \<Rightarrow> bool) \<Rightarrow> (nat \<Rightarrow> ULONG \<times> ULONG) \<Rightarrow> bpf_state \<Rightarrow> APTR \<Rightarrow> AmiBpfView option
   \<Rightarrow> bpf_state option" where
  "ami_bpf_tap_view locks clock st cookie view =
     (if bs_bound st = 0 then Some st
      else case view of None \<Rightarrow> Some st | Some v \<Rightarrow> ami_bpf_capture locks clock st cookie v)"

text \<open>\<open>scratch\<close> is the uninitialised \<^verbatim>\<open>AmiBpfView\<close> on the stack of the tap.\<close>

definition ami_bpf_tap_rx ::
  "(nat \<Rightarrow> bool) \<Rightarrow> (nat \<Rightarrow> ULONG \<times> ULONG) \<Rightarrow> AmiBpfView \<Rightarrow> bpf_state \<Rightarrow> APTR \<Rightarrow> UBYTE list option
   \<Rightarrow> ULONG \<Rightarrow> bpf_state option" where
  "ami_bpf_tap_rx locks clock scratch st cookie frame len =
     (case frame of
        None \<Rightarrow> Some st
      | Some f \<Rightarrow>
          if bs_bound st = 0 \<or> len = 0 then Some st
          else ami_bpf_tap_view locks clock st cookie (Some (ami_bpf_view_linear scratch f len)))"

text \<open>
  An \<^verbatim>\<open>NX_PACKET\<close> of a chain is its bytes from \<^verbatim>\<open>nx_packet_prepend_ptr\<close> on and the distance
  to \<^verbatim>\<open>nx_packet_append_ptr\<close>; the first one carries the length of the whole chain.
\<close>

fun tx_segments :: "(UBYTE list \<times> LONG) list \<Rightarrow> AmiBpfView \<Rightarrow> AmiBpfView" where
  "tx_segments [] view = view"
| "tx_segments ((bytes, len) # rest) view =
     (if len \<le> 0 then tx_segments rest view
      else let (status, view') = ami_bpf_view_add view bytes (of_int len)
           in if status \<noteq> 0 then view' else tx_segments rest view')"

definition eth_header :: "UWORD \<Rightarrow> ULONG \<Rightarrow> ULONG \<Rightarrow> UBYTE list option \<Rightarrow> UBYTE list" where
  "eth_header ether_type dst_msw dst_lsw src_mac =
     [ucast (drop_bit 8 dst_msw), ucast dst_msw] @ be32 dst_lsw
     @ (case src_mac of None \<Rightarrow> replicate 6 0 | Some mac \<Rightarrow> take 6 mac) @ be16 ether_type"

definition tx_view ::
  "AmiBpfView \<Rightarrow> ULONG \<Rightarrow> (UBYTE list \<times> LONG) list \<Rightarrow> ULONG \<Rightarrow> bool \<Rightarrow> UWORD \<Rightarrow> ULONG \<Rightarrow> ULONG
   \<Rightarrow> UBYTE list option \<Rightarrow> AmiBpfView" where
  "tx_view scratch dlt chain packet_length has_link_header ether_type dst_msw dst_lsw src_mac =
     (let view = scratch\<lparr>vw_wirelen := 0, vw_caplen := 0, vw_nsegs := 0\<rparr>;
          cooked = (\<not> has_link_header \<and> dlt = DLT_EN10MB);
          view = (if cooked
                  then snd (ami_bpf_view_add view (eth_header ether_type dst_msw dst_lsw src_mac) 14)
                  else view);
          wirelen = packet_length + (if cooked then 14 else 0)
      in (tx_segments chain view)\<lparr>vw_wirelen := wirelen\<rparr>)"

definition ami_bpf_tap_tx ::
  "(nat \<Rightarrow> bool) \<Rightarrow> bool \<Rightarrow> (nat \<Rightarrow> ULONG \<times> ULONG) \<Rightarrow> AmiBpfView \<Rightarrow> bpf_state \<Rightarrow> APTR
   \<Rightarrow> ((UBYTE list \<times> LONG) list \<times> ULONG) option \<Rightarrow> bool \<Rightarrow> UWORD \<Rightarrow> ULONG \<Rightarrow> ULONG
   \<Rightarrow> UBYTE list option \<Rightarrow> bpf_state option" where
  "ami_bpf_tap_tx locks got_lock clock scratch st cookie packet has_link_header ether_type
      dst_msw dst_lsw src_mac =
     (case packet of
        None \<Rightarrow> Some st
      | Some (chain, packet_length) \<Rightarrow>
          if bs_bound st = 0 \<or> \<not> got_lock then Some st
          else case ami_bpf_iface_by_cookie st cookie of
                 None \<Rightarrow> Some st
               | Some j \<Rightarrow>
                   ami_bpf_capture locks clock st cookie
                     (tx_view scratch (if_dlt (bs_iface st ! j)) chain packet_length
                        has_link_header ether_type dst_msw dst_lsw src_mac))"

section \<open>What a record write does\<close>

lemma view_copy_from_spec:
  assumes "segs_ok ss" and "unat base + length (segs_bytes ss) < 2 ^ 32"
    and "unat len \<le> length (segs_bytes ss)" and "dst + unat len \<le> length mem"
  shows "view_copy_from ss base base mem dst len = wr_range mem dst (take (unat len) (segs_bytes ss))"
  using assms
proof (induction ss arbitrary: base mem dst len)
  case (Cons s ss)
  let ?n = "if len < sg_len s then len else sg_len s"
  have sum: "unat (base + sg_len s) = unat base + unat (sg_len s)"
    using Cons.prems by (intro unat_add_nowrap) simp
  have len_s: "unat (sg_len s) \<le> length (sg_base s)" using Cons.prems by simp
  consider "len = 0" | "len \<noteq> 0" "sg_len s = 0" | "len \<noteq> 0" "sg_len s \<noteq> 0" "len < sg_len s"
    | "len \<noteq> 0" "sg_len s \<noteq> 0" "sg_len s \<le> len"
    by (metis not_less)
  then show ?case
  proof cases
    case 1
    then show ?thesis using Cons.prems by (simp add: wr_range_def)
  next
    case 2
    then show ?thesis using Cons.IH [of base len dst mem] Cons.prems by simp
  next
    case 3
    have gt: "\<not> base + sg_len s \<le> base"
      using 3 sum by (simp add: word_nat unat_gt_0)
    have le: "unat len \<le> unat (sg_len s)" using 3 by (simp add: word_nat)
    have rd: "rd_range (sg_base s) 0 (unat len) = Some (take (unat len) (sg_base s))"
      using le len_s by simp
    obtain mem' where w: "wr_range mem dst (take (unat len) (sg_base s)) = Some mem'"
      using Cons.prems le len_s by (elim wr_range_ex [rotated]) simp
    have "view_copy_from ss (base + sg_len s) (base + len) mem' (dst + unat len) 0 = Some mem'"
      using w Cons.prems by (cases ss) (auto simp: wr_range_def split: if_splits)
    moreover have "take (unat len) (segs_bytes (s # ss)) = take (unat len) (sg_base s)"
      using le len_s by (simp add: min_def)
    ultimately show ?thesis using 3 gt rd w by (simp add: Let_def)
  next
    case 4
    have gt: "\<not> base + sg_len s \<le> base"
      using 4 sum by (simp add: word_nat unat_gt_0)
    have le: "unat (sg_len s) \<le> unat len" using 4 by (simp add: word_nat)
    have ln: "unat (len - sg_len s) = unat len - unat (sg_len s)" using 4 by (intro unat_sub_le)
    have rd: "rd_range (sg_base s) 0 (unat (sg_len s)) = Some (take (unat (sg_len s)) (sg_base s))"
      using len_s by simp
    obtain mem' where w: "wr_range mem dst (take (unat (sg_len s)) (sg_base s)) = Some mem'"
      using Cons.prems le len_s by (elim wr_range_ex [rotated]) simp
    have "view_copy_from ss (base + sg_len s) (base + sg_len s) mem' (dst + unat (sg_len s)) (len - sg_len s)
      = wr_range mem' (dst + unat (sg_len s)) (take (unat (len - sg_len s)) (segs_bytes ss))"
      using Cons.prems sum ln wr_range_length [OF w] le by (intro Cons.IH) simp_all
    moreover have "wr_range mem' (dst + unat (sg_len s)) (take (unat (len - sg_len s)) (segs_bytes ss))
      = wr_range mem dst (take (unat len) (segs_bytes (s # ss)))"
    proof -
      have "length (take (unat (sg_len s)) (sg_base s)) = unat (sg_len s)" using len_s by simp
      moreover from this have "take (unat len) (segs_bytes (s # ss)) =
        take (unat (sg_len s)) (sg_base s) @ take (unat (len - sg_len s)) (segs_bytes ss)"
        using le ln by simp
      ultimately show ?thesis
        using wr_range_append [of mem dst "take (unat (sg_len s)) (sg_base s)"] w
        by (metis Option.bind.simps(2))
    qed
    moreover have "\<not> len < sg_len s" using 4 by simp
    ultimately show ?thesis using 4(1) gt rd w by (simp add: Let_def)
  qed
qed (simp add: wr_range_def)

definition capture_rec :: "ULONG \<times> ULONG \<Rightarrow> AmiBpfView \<Rightarrow> ULONG \<Rightarrow> bpf_rec" where
  "capture_rec now view caplen =
     \<lparr>rc_sec = fst now, rc_usec = snd now, rc_caplen = caplen, rc_datalen = vw_wirelen view,
      rc_data = take (unat caplen) (view_bytes view)\<rparr>"

lemma write_record_spec:
  assumes ok: "view_ok view" and cap: "unat caplen \<le> unat (vw_caplen view)"
    and room: "rec + 20 + unat caplen \<le> length mem"
  shows "write_record mem rec (fst now) (snd now) caplen view
       = wr_range mem rec (rec_bytes (capture_rec now view caplen))"
proof -
  have copy: "ami_bpf_view_copy view 0 m (rec + 20) caplen
      = wr_range m (rec + 20) (take (unat caplen) (view_bytes view))"
    if "length m = length mem" for m
    unfolding ami_bpf_view_copy_def view_bytes_def
    using ok cap room that unat_lt2p [of "vw_caplen view"]
    by (intro view_copy_from_spec) (simp_all add: view_ok_def view_bytes_def)
  let ?h = "rec_header (capture_rec now view caplen)"
  have "write_record mem rec (fst now) (snd now) caplen view
      = Option.bind (wr_range mem rec ?h) (\<lambda>m. ami_bpf_view_copy view 0 m (rec + 20) caplen)"
    unfolding write_record_def rec_header_def capture_rec_def wr_range_append [symmetric]
    by (simp add: numeral_2_eq_2 add.commute [of _ rec])
  also have "\<dots> = Option.bind (wr_range mem rec ?h)
      (\<lambda>m. wr_range m (rec + length ?h) (take (unat caplen) (view_bytes view)))"
    using copy by (cases "wr_range mem rec ?h") (auto dest: wr_range_length)
  finally show ?thesis
    by (simp only: wr_range_append rec_bytes_def) (simp add: capture_rec_def)
qed

section \<open>The two halves of the buffer\<close>

lemma area_write:
  assumes w: "wr_range b (off + p) bs = Some b'" and "p + length bs \<le> n" and "off + n \<le> length b"
  shows "take p (take n (drop off b')) = take p (take n (drop off b))"
    and "take (length bs) (drop p (take n (drop off b'))) = bs"
proof -
  from wr_range_take [OF w order_refl] have tk: "take (off + p) b' = take (off + p) b" .
  have "take p (drop off c) = drop off (take (off + p) c)" for c :: "'a list"
    by (simp add: drop_take)
  with tk have "take p (drop off b') = take p (drop off b)" by metis
  then show "take p (take n (drop off b')) = take p (take n (drop off b))"
    using assms(2) by (simp add: min_def)
  have "take (length bs) (drop p (take n (drop off b'))) = take (length bs) (drop (off + p) b')"
    using assms(2) by (simp add: drop_take min_def add.commute)
  then show "take (length bs) (drop p (take n (drop off b'))) = bs"
    using wr_range_same [OF w] by simp
qed

lemma area_other:
  assumes w: "wr_range b (off + p) bs = Some b'" and "p + length bs \<le> n"
    and "q + n \<le> off \<or> off + n \<le> q"
  shows "take n (drop q b') = take n (drop q b)"
  using assms(3)
proof
  assume "q + n \<le> off"
  then have "q + n \<le> off + p" by simp
  with w have "take (q + n) b' = take (q + n) b" by (rule wr_range_take)
  moreover have "take n (drop q c) = drop q (take (q + n) c)" for c :: "'a list"
    by (simp add: drop_take)
  ultimately show ?thesis by metis
next
  assume "off + n \<le> q"
  then have "off + p + length bs \<le> q" using assms(2) by simp
  with w have "drop q b' = drop q b" by (rule wr_range_drop)
  then show ?thesis by simp
qed

lemma bufs_length:
  assumes "bufs_ok ch" and "ch_bufbase ch = Some b"
  shows "length (hold_area ch) = unat (ch_blen ch)" and "length (store_area ch) = unat (ch_blen ch)"
  using assms by (auto simp: bufs_ok_def hold_area_def store_area_def)

lemma recs_okI:
  assumes "holds (hold_area ch) (unat (ch_hold_pos ch)) (unat (ch_hold_len ch)) hs"
    and "holds (store_area ch) 0 (unat (ch_store_len ch)) ss"
  shows "recs_ok ch" and "hold_recs ch = hs" and "store_recs ch = ss"
  using assms parse_holds by (auto simp: recs_ok_def hold_recs_def store_recs_def)

lemma rotate_spec:
  assumes "bufs_ok ch" and "recs_ok ch" and "ch_hold_len ch = 0"
  shows "bufs_ok (ami_bpf_rotate ch)" and "recs_ok (ami_bpf_rotate ch)"
    and "hold_recs (ami_bpf_rotate ch) = store_recs ch" and "store_recs (ami_bpf_rotate ch) = []"
    and "hold_recs ch = []"
proof -
  have h: "hold_area (ami_bpf_rotate ch) = store_area ch"
    by (simp add: ami_bpf_rotate_def hold_area_def store_area_def split: option.splits)
  show "bufs_ok (ami_bpf_rotate ch)"
    using assms(1) by (auto simp: bufs_ok_def ami_bpf_rotate_def word_neq_0_conv split: option.splits)
  have "holds (hold_area (ami_bpf_rotate ch)) (unat (ch_hold_pos (ami_bpf_rotate ch)))
      (unat (ch_hold_len (ami_bpf_rotate ch))) (store_recs ch)"
    using assms(2) h by (simp add: recs_ok_def ami_bpf_rotate_def)
  moreover have "holds (store_area (ami_bpf_rotate ch)) 0 (unat (ch_store_len (ami_bpf_rotate ch))) []"
    by (simp add: ami_bpf_rotate_def)
  ultimately show "recs_ok (ami_bpf_rotate ch)" "hold_recs (ami_bpf_rotate ch) = store_recs ch"
    "store_recs (ami_bpf_rotate ch) = []"
    by (rule recs_okI)+
  show "hold_recs ch = []" using assms(3) by (simp add: hold_recs_def parse_area.simps)
qed

lemma rotate_chan_ok:
  assumes "chan_ok ifs ch" and "ch_open ch" and "ch_hold_len ch = 0"
  shows "chan_ok ifs (ami_bpf_rotate ch)"
proof -
  have "bufs_ok ch" "recs_ok ch" using assms(1) by (simp_all add: chan_ok_def)
  note rotate_spec [OF this assms(3)]
  moreover have "filter_ok (ami_bpf_rotate ch)" "iface_ok ifs (ami_bpf_rotate ch)"
    using assms(1)
    by (simp_all add: chan_ok_def filter_ok_def iface_ok_def ami_bpf_rotate_def cong: option.case_cong)
  ultimately show ?thesis using assms by (simp add: chan_ok_def) (simp add: ami_bpf_rotate_def)
qed

text \<open>Appending a record: the store gains it, the hold buffer keeps every byte.\<close>

lemma capture_append_spec:
  assumes bufs: "bufs_ok ch" and recs: "recs_ok ch" and base: "ch_bufbase ch = Some b"
    and ok: "view_ok view" and cap: "unat caplen \<le> unat (vw_caplen view)"
    and cur: "unat curlen = align4 (unat (ch_store_len ch))" and tot: "unat totlen = 20 + unat caplen"
    and fit: "unat curlen + unat totlen \<le> unat (ch_blen ch)"
  obtains b' where
    "capture_append now view ch curlen caplen totlen wake
      = Some (ch\<lparr>ch_bufbase := Some b', ch_store_len := curlen + totlen\<rparr>, wake \<or> ch_immediate ch)"
    and "bufs_ok (ch\<lparr>ch_bufbase := Some b', ch_store_len := curlen + totlen\<rparr>)"
    and "recs_ok (ch\<lparr>ch_bufbase := Some b', ch_store_len := curlen + totlen\<rparr>)"
    and "hold_recs (ch\<lparr>ch_bufbase := Some b', ch_store_len := curlen + totlen\<rparr>) = hold_recs ch"
    and "store_recs (ch\<lparr>ch_bufbase := Some b', ch_store_len := curlen + totlen\<rparr>)
      = store_recs ch @ [capture_rec now view caplen]"
    and "hold_area (ch\<lparr>ch_bufbase := Some b', ch_store_len := curlen + totlen\<rparr>) = hold_area ch"
proof -
  let ?n = "unat (ch_blen ch)" and ?r = "capture_rec now view caplen"
  obtain so ho where so: "ch_store ch = Some so" and ho: "ch_hold ch = Some ho"
    and dis: "ho + ?n \<le> so \<or> so + ?n \<le> ho" and len: "so + ?n \<le> length b"
    and lb: "length b = 2 * ?n" and small: "?n \<le> 0x8000"
    using bufs base by (auto simp: bufs_ok_def blen_ok_def)
  have data: "length (rc_data ?r) = unat caplen"
    using ok cap by (simp add: capture_rec_def view_ok_def)
  then have size: "rec_size ?r = 20 + unat caplen" by (simp add: rec_size_def)
  have "write_record b (so + unat curlen) (fst now) (snd now) caplen view
      = wr_range b (so + unat curlen) (rec_bytes ?r)"
    using ok cap fit tot len by (intro write_record_spec) simp_all
  moreover obtain b' where w: "wr_range b (so + unat curlen) (rec_bytes ?r) = Some b'"
    using fit tot len size by (elim wr_range_ex [rotated]) simp
  ultimately have run: "capture_append now view ch curlen caplen totlen wake
      = Some (ch\<lparr>ch_bufbase := Some b', ch_store_len := curlen + totlen\<rparr>, wake \<or> ch_immediate ch)"
    by (simp add: capture_append_def base so)
  let ?ch = "ch\<lparr>ch_bufbase := Some b', ch_store_len := curlen + totlen\<rparr>"
  have room: "unat curlen + length (rec_bytes ?r) \<le> ?n" using fit tot size by simp
  have lb': "length b' = length b" using w by (rule wr_range_length)
  have sum: "unat (curlen + totlen) = unat curlen + unat totlen"
    using fit small by (intro unat_add_nowrap) simp
  have hold: "hold_area ?ch = hold_area ch"
    using area_other [OF w room dis] base ho by (simp add: hold_area_def)
  have sa: "store_area ?ch = take ?n (drop so b')" and sa0: "store_area ch = take ?n (drop so b)"
    using base so by (simp_all add: store_area_def)
  have "take (unat (ch_store_len ch)) (store_area ?ch) = take (unat (ch_store_len ch)) (store_area ch)"
    unfolding sa sa0 using area_write(1) [OF w room len] align4_props(1) [of "unat (ch_store_len ch)"]
    unfolding cur by (rule take_eq_shorter)
  moreover have "take (rec_size ?r) (drop (align4 (unat (ch_store_len ch))) (store_area ?ch)) = rec_bytes ?r"
    using area_write(2) [OF w room len] unfolding sa cur by simp
  moreover have "length (store_area ?ch) = length (store_area ch)"
    unfolding sa sa0 using lb' by simp
  moreover have "align4 (unat (ch_store_len ch)) + rec_size ?r \<le> length (store_area ch)"
    using room cur bufs_length(2) [OF bufs base] by simp
  moreover have "rec_ok ?r" using data by (simp add: rec_ok_def capture_rec_def)
  ultimately have "holds (store_area ?ch) 0 (align4 (unat (ch_store_len ch)) + rec_size ?r)
      (store_recs ch @ [?r])"
    using recs by (intro holds_snoc) (auto simp: recs_ok_def)
  then have "holds (store_area ?ch) 0 (unat (ch_store_len ?ch)) (store_recs ch @ [?r])"
    using sum cur tot size by simp
  moreover have "holds (hold_area ?ch) (unat (ch_hold_pos ?ch)) (unat (ch_hold_len ?ch)) (hold_recs ch)"
    using recs hold by (simp add: recs_ok_def)
  ultimately have "recs_ok ?ch" "hold_recs ?ch = hold_recs ch" "store_recs ?ch = store_recs ch @ [?r]"
    using recs_okI [of ?ch] by auto
  moreover have "bufs_ok ?ch"
    using bufs base lb' sum fit by (auto simp: bufs_ok_def word_nat)
  ultimately show thesis using that run hold by blast
qed

section \<open>The contract of a capture\<close>

text \<open>How much of the packet a channel keeps, given the filter's answer \<open>slen\<close>.\<close>

definition keep_len :: "AmiBpfChan \<Rightarrow> AmiBpfView \<Rightarrow> ULONG \<Rightarrow> ULONG" where
  "keep_len ch view slen = min (min slen (vw_wirelen view)) (min (vw_caplen view) (ch_blen ch - 20))"

text \<open>The record fits behind those of the store, or behind nothing after a rotation.\<close>

definition has_room :: "AmiBpfChan \<Rightarrow> AmiBpfView \<Rightarrow> ULONG \<Rightarrow> bool" where
  "has_room ch view slen \<longleftrightarrow>
     align4 (unat (ch_store_len ch)) + 20 + unat (keep_len ch view slen) \<le> unat (ch_blen ch) \<or>
     ch_hold_len ch = 0 \<and> \<not> ch_reading ch"

text \<open>The specification: what one accepted, rejected or dropped packet does to a channel.\<close>

definition capture_post ::
  "ULONG \<times> ULONG \<Rightarrow> AmiBpfView \<Rightarrow> ULONG \<Rightarrow> AmiBpfChan \<Rightarrow> AmiBpfChan \<Rightarrow> bool" where
  "capture_post now view slen ch ch' \<longleftrightarrow>
     ch_recv_count ch' = ch_recv_count ch + 1 \<and>
     (if slen \<noteq> 0 \<and> has_room ch view slen
      then chan_queue ch' = chan_queue ch @ [capture_rec now view (keep_len ch view slen)]
      else chan_queue ch' = chan_queue ch) \<and>
     ch_drop_count ch' = ch_drop_count ch + (if slen \<noteq> 0 \<and> \<not> has_room ch view slen then 1 else 0)"

text \<open>What no capture changes: the handle, and the buffer a reader is copying from.\<close>

definition capture_frame :: "AmiBpfChan \<Rightarrow> AmiBpfChan \<Rightarrow> bool" where
  "capture_frame ch ch' \<longleftrightarrow>
     ch_open ch' = ch_open ch \<and> ch_owner ch' = ch_owner ch \<and> ch_iface ch' = ch_iface ch \<and>
     ch_reading ch' = ch_reading ch \<and> ch_release_pending ch' = ch_release_pending ch \<and>
     ch_filter ch' = ch_filter ch \<and> ch_filter_len ch' = ch_filter_len ch \<and>
     ch_blen ch' = ch_blen ch \<and>
     (ch_reading ch \<longrightarrow> hold_area ch' = hold_area ch \<and> ch_hold ch' = ch_hold ch \<and>
        ch_hold_len ch' = ch_hold_len ch \<and> ch_hold_pos ch' = ch_hold_pos ch)"

lemma capture_lens:
  fixes slen wire cap blen :: ULONG
  assumes "unat cap + 20 < 2 ^ 32" and "20 < unat blen"
  defines "c1 \<equiv> (if slen < wire then slen else wire)"
  defines "c2 \<equiv> (if cap < c1 then cap else c1)"
  defines "c3 \<equiv> (if blen < 20 + c2 then blen - 20 else c2)"
  defines "t \<equiv> (if blen < 20 + c2 then blen else 20 + c2)"
  shows "c3 = min (min slen wire) (min cap (blen - 20))" and "unat t = 20 + unat c3"
    and "unat c3 \<le> unat cap"
proof -
  have c2: "c2 = min (min slen wire) cap" "unat c2 \<le> unat cap"
    by (auto simp: c1_def c2_def min_def word_le_nat_alt [symmetric])
  then have sum: "unat (20 + c2) = 20 + unat c2"
    using assms(1) by (subst unat_add_nowrap) simp_all
  have sub: "unat (blen - 20) = unat blen - 20"
    using assms(2) by (subst unat_sub_le) (simp_all add: word_nat)
  have lt: "blen < 20 + c2 \<longleftrightarrow> blen - 20 < c2"
    using sum sub assms(2) by (auto simp: word_less_nat_alt)
  have "c3 = min c2 (blen - 20)" using lt by (auto simp: c3_def min_def)
  then show "c3 = min (min slen wire) (min cap (blen - 20))"
    unfolding c2(1) by (simp add: min.assoc)
  show "unat t = 20 + unat c3" using sum sub assms(2) by (auto simp: t_def c3_def)
  show "unat c3 \<le> unat cap" using c2(2) lt sub by (auto simp: c3_def word_less_nat_alt)
qed

lemma has_room_iff:
  assumes "chan_ok ifs ch" and "ch_bufbase ch = Some b"
    and "unat t = 20 + unat (keep_len ch view slen)" and "unat t \<le> unat (ch_blen ch)"
  shows "unat (BPF_WORDALIGN (ch_store_len ch)) = align4 (unat (ch_store_len ch))"
    and "ch_blen ch < BPF_WORDALIGN (ch_store_len ch) + t \<longleftrightarrow>
      unat (ch_blen ch) < align4 (unat (ch_store_len ch)) + 20 + unat (keep_len ch view slen)"
proof -
  have small: "unat (ch_store_len ch) \<le> unat (ch_blen ch)" "unat (ch_blen ch) \<le> 0x8000"
    using assms(1,2) by (auto simp: chan_ok_def bufs_ok_def blen_ok_def word_nat)
  then show al: "unat (BPF_WORDALIGN (ch_store_len ch)) = align4 (unat (ch_store_len ch))"
    by (intro unat_WORDALIGN) simp
  have "unat (BPF_WORDALIGN (ch_store_len ch) + t) = unat (BPF_WORDALIGN (ch_store_len ch)) + unat t"
    using small assms(4) al align4_props(2) [of "unat (ch_store_len ch)"]
    by (intro unat_add_nowrap) simp
  then show "ch_blen ch < BPF_WORDALIGN (ch_store_len ch) + t \<longleftrightarrow>
      unat (ch_blen ch) < align4 (unat (ch_store_len ch)) + 20 + unat (keep_len ch view slen)"
    using al assms(3) by (simp add: word_less_nat_alt add.assoc)
qed

lemma filter_view_total:
  assumes "chan_ok ifs ch" and "view_ok view"
  obtains slen where "ami_bpf_filter_view (ch_filter ch) (ch_filter_len ch) (Some view) = Some slen"
proof (cases "ch_filter ch")
  case None
  then show ?thesis using that by (simp add: ami_bpf_filter_view_def filter_outcome_def)
next
  case (Some p)
  then have "unat (ch_filter_len ch) \<le> length p" using assms(1) by (simp add: chan_ok_def filter_ok_def)
  with filter_outcome_total [OF assms(2)] Some show ?thesis
    using that by (auto simp: ami_bpf_filter_view_def)
qed

lemma capture_append_post:
  assumes ok: "chan_ok ifs ch" and c: "ch_bufbase ch = Some b" "ch_open ch" and v: "view_ok view"
    and cur: "unat curlen = align4 (unat (ch_store_len ch))"
    and tot: "unat totlen = 20 + unat caplen" and cap: "unat caplen \<le> unat (vw_caplen view)"
    and fit: "unat curlen + unat totlen \<le> unat (ch_blen ch)"
  obtains ch' where
    "capture_append now view ch curlen caplen totlen wake = Some (ch', wake \<or> ch_immediate ch)"
    and "chan_ok ifs ch'" and "capture_frame ch ch'"
    and "chan_queue ch' = chan_queue ch @ [capture_rec now view caplen]"
    and "ch_recv_count ch' = ch_recv_count ch" and "ch_drop_count ch' = ch_drop_count ch"
proof -
  have parts: "bufs_ok ch" "recs_ok ch" using ok by (simp_all add: chan_ok_def)
  obtain b' where
    run: "capture_append now view ch curlen caplen totlen wake
      = Some (ch\<lparr>ch_bufbase := Some b', ch_store_len := curlen + totlen\<rparr>, wake \<or> ch_immediate ch)"
    and post: "bufs_ok (ch\<lparr>ch_bufbase := Some b', ch_store_len := curlen + totlen\<rparr>)"
      "recs_ok (ch\<lparr>ch_bufbase := Some b', ch_store_len := curlen + totlen\<rparr>)"
      "hold_recs (ch\<lparr>ch_bufbase := Some b', ch_store_len := curlen + totlen\<rparr>) = hold_recs ch"
      "store_recs (ch\<lparr>ch_bufbase := Some b', ch_store_len := curlen + totlen\<rparr>)
        = store_recs ch @ [capture_rec now view caplen]"
      "hold_area (ch\<lparr>ch_bufbase := Some b', ch_store_len := curlen + totlen\<rparr>) = hold_area ch"
    by (rule capture_append_spec [OF parts c(1) v cap cur tot fit])
  have "chan_ok ifs (ch\<lparr>ch_bufbase := Some b', ch_store_len := curlen + totlen\<rparr>)"
    using ok post c by (simp add: chan_ok_def filter_ok_def iface_ok_def cong: option.case_cong)
  moreover have "capture_frame ch (ch\<lparr>ch_bufbase := Some b', ch_store_len := curlen + totlen\<rparr>)"
    using post(5) by (simp add: capture_frame_def)
  ultimately show thesis using that [OF run] post by (simp add: chan_queue_def)
qed

lemma capture_locked_spec:
  assumes ok: "chan_ok ifs ch" and c: "ch_bufbase ch = Some b" "ch_open ch" and v: "view_ok view"
    and cap: "unat (vw_caplen view) + 20 < 2 ^ 32"
  obtains ch' wake slen where "capture_locked now view ch = Some (ch', wake)"
    and "ami_bpf_filter_view (ch_filter ch) (ch_filter_len ch) (Some view) = Some slen"
    and "chan_ok ifs ch'" and "capture_frame ch ch'" and "capture_post now view slen ch ch'"
proof -
  let ?c1 = "ch\<lparr>ch_recv_count := ch_recv_count ch + 1\<rparr>"
  obtain slen where f: "ami_bpf_filter_view (ch_filter ch) (ch_filter_len ch) (Some view) = Some slen"
    using ok v by (rule filter_view_total)
  have core: "same_core ch ?c1" by (simp add: same_core_def)
  have ok1: "chan_ok ifs ?c1" using core c(2) ok by (rule same_core_ok)
  have same: "chan_queue ?c1 = chan_queue ch" "hold_area ?c1 = hold_area ch"
    using same_core_areas [OF core] by simp_all
  have big: "20 < unat (ch_blen ch)" using ok c by (auto simp: chan_ok_def bufs_ok_def blen_ok_def)
  define c2 where "c2 = (if vw_caplen view < (if slen < vw_wirelen view then slen else vw_wirelen view)
    then vw_caplen view else (if slen < vw_wirelen view then slen else vw_wirelen view))"
  define k where "k = (if ch_blen ch < 20 + c2 then ch_blen ch - 20 else c2)"
  define t where "t = (if ch_blen ch < 20 + c2 then ch_blen ch else 20 + c2)"
  have kk: "keep_len ch view slen = k"
    unfolding k_def c2_def keep_len_def by (rule capture_lens(1) [OF cap big, symmetric])
  have t: "unat t = 20 + unat k" and kc: "unat k \<le> unat (vw_caplen view)"
    unfolding t_def k_def c2_def by (rule capture_lens [OF cap big])+
  have tb: "unat t \<le> unat (ch_blen ch)"
    by (auto simp: t_def not_less word_le_nat_alt)
  have run: "capture_locked now view ch =
      (if slen = 0 then Some (?c1, False)
       else if ch_blen ch < BPF_WORDALIGN (ch_store_len ch) + t
       then if ch_hold_len ch = 0 \<and> \<not> ch_reading ch
            then capture_append now view (ami_bpf_rotate ?c1) 0 k t True
            else Some (?c1\<lparr>ch_drop_count := ch_drop_count ch + 1\<rparr>, False)
       else capture_append now view ?c1 (BPF_WORDALIGN (ch_store_len ch)) k t False)"
    using f by (simp add: capture_locked_def Let_def cong: if_cong flip: c2_def k_def t_def
        split del: if_split)
  note room = has_room_iff [OF ok c(1), of t view slen, unfolded kk, OF t tb]
  consider "slen = 0" | "slen \<noteq> 0" "ch_blen ch < BPF_WORDALIGN (ch_store_len ch) + t"
      "ch_hold_len ch = 0 \<and> \<not> ch_reading ch"
    | "slen \<noteq> 0" "ch_blen ch < BPF_WORDALIGN (ch_store_len ch) + t"
      "\<not> (ch_hold_len ch = 0 \<and> \<not> ch_reading ch)"
    | "slen \<noteq> 0" "\<not> ch_blen ch < BPF_WORDALIGN (ch_store_len ch) + t"
    by blast
  then show thesis
  proof cases
    case 1
    then have "capture_frame ch ?c1" "capture_post now view slen ch ?c1"
      using same by (simp_all add: capture_frame_def capture_post_def)
    with 1 run ok1 f show ?thesis by (intro that [of ?c1 False slen]) simp_all
  next
    case 2
    have b1: "bufs_ok ?c1" "recs_ok ?c1" using ok1 by (simp_all add: chan_ok_def)
    note rot = rotate_spec [OF b1]
    let ?r = "ami_bpf_rotate ?c1"
    have okr: "chan_ok ifs ?r" using ok1 2 c by (intro rotate_chan_ok) simp_all
    have rb: "ch_bufbase ?r = Some b" "ch_open ?r" using c by (simp_all add: ami_bpf_rotate_def)
    have cur: "unat (0 :: ULONG) = align4 (unat (ch_store_len ?r))"
      and fit: "unat (0 :: ULONG) + unat t \<le> unat (ch_blen ?r)"
      using tb by (simp_all add: ami_bpf_rotate_def)
    obtain ch' where a: "capture_append now view ?r 0 k t True = Some (ch', True \<or> ch_immediate ?r)"
      "chan_ok ifs ch'" "capture_frame ?r ch'" "chan_queue ch' = chan_queue ?r @ [capture_rec now view k]"
      "ch_recv_count ch' = ch_recv_count ?r" "ch_drop_count ch' = ch_drop_count ?r"
      by (rule capture_append_post [OF okr rb v cur t kc fit])
    have "chan_queue ?r = chan_queue ch" using rot 2 same(1) by (simp add: chan_queue_def)
    then have "capture_post now view slen ch ch'" "capture_frame ch ch'"
      using a 2 kk by (auto simp: capture_post_def capture_frame_def has_room_def ami_bpf_rotate_def)
    with a run 2 f show ?thesis by (intro that [of ch' "True \<or> ch_immediate ?r" slen]) simp_all
  next
    case 3
    let ?d = "?c1\<lparr>ch_drop_count := ch_drop_count ch + 1\<rparr>"
    have core': "same_core ch ?d" by (simp add: same_core_def)
    have "capture_post now view slen ch ?d" "capture_frame ch ?d"
      using 3 room kk same_core_areas [OF core']
      by (simp_all add: capture_post_def capture_frame_def has_room_def)
    moreover have "capture_locked now view ch = Some (?d, False)" using 3 run by auto
    ultimately show ?thesis using f same_core_ok [OF core' c(2) ok] by (intro that)
  next
    case 4
    have cb: "ch_bufbase ?c1 = Some b" "ch_open ?c1" using c by simp_all
    have cur: "unat (BPF_WORDALIGN (ch_store_len ch)) = align4 (unat (ch_store_len ?c1))"
      and fit: "unat (BPF_WORDALIGN (ch_store_len ch)) + unat t \<le> unat (ch_blen ?c1)"
      using room 4 t by simp_all
    obtain ch' where a: "capture_append now view ?c1 (BPF_WORDALIGN (ch_store_len ch)) k t False
        = Some (ch', False \<or> ch_immediate ?c1)"
      "chan_ok ifs ch'" "capture_frame ?c1 ch'" "chan_queue ch' = chan_queue ?c1 @ [capture_rec now view k]"
      "ch_recv_count ch' = ch_recv_count ?c1" "ch_drop_count ch' = ch_drop_count ?c1"
      by (rule capture_append_post [OF ok1 cb v cur t kc fit])
    have "capture_post now view slen ch ch'" "capture_frame ch ch'"
      using a 4 kk room same by (simp_all add: capture_post_def capture_frame_def has_room_def)
    with a run 4 f show ?thesis by (intro that [of ch' "False \<or> ch_immediate ?c1" slen]) simp_all
  qed
qed

section \<open>The whole capture\<close>

text \<open>
  Channel \<open>i\<close> has buffers and is bound to the interface behind \<open>cookie\<close>, and its lock was
  free.
\<close>

definition taps :: "(nat \<Rightarrow> bool) \<Rightarrow> APTR \<Rightarrow> bpf_state \<Rightarrow> nat \<Rightarrow> bool" where
  "taps locks cookie st i \<longleftrightarrow>
     ch_iface (bs_chan st ! i) \<noteq> None \<and> ch_store (bs_chan st ! i) \<noteq> None \<and>
     ch_iface (bs_chan st ! i) = ami_bpf_iface_by_cookie st cookie \<and> locks i"

definition captured ::
  "(nat \<Rightarrow> ULONG \<times> ULONG) \<Rightarrow> AmiBpfView \<Rightarrow> nat \<Rightarrow> AmiBpfChan \<Rightarrow> AmiBpfChan \<Rightarrow> bool" where
  "captured clock view i ch ch' \<longleftrightarrow>
     (\<exists>slen. ami_bpf_filter_view (ch_filter ch) (ch_filter_len ch) (Some view) = Some slen \<and>
             capture_post (clock i) view slen ch ch' \<and> capture_frame ch ch')"

lemma bound_chan:
  assumes "chan_ok ifs ch" and "ch_iface ch = Some j" and "ch_store ch \<noteq> None"
  obtains b where "ch_open ch" and "ch_bufbase ch = Some b" and "ch_store ch \<noteq> None"
    and "\<not> ch_blen ch \<le> 20"
proof -
  have "ch_open ch" using assms by (auto simp: chan_ok_def)
  moreover obtain b where "ch_bufbase ch = Some b" "ch_store ch \<noteq> None" "blen_ok (ch_blen ch)"
    using assms by (auto simp: chan_ok_def bufs_ok_def split: option.splits)
  ultimately show thesis using that by (auto simp: blen_ok_def word_le_nat_alt)
qed

lemma signals_inv [simp]:
  "bpf_inv (st\<lparr>bs_signals := x\<rparr>) = bpf_inv st"
  by (simp add: bpf_inv_def hook_ok_def cong: option.case_cong)

lemma notify_frame [simp]:
  "bs_chan (ami_bpf_notify t m st) = bs_chan st" "bs_iface (ami_bpf_notify t m st) = bs_iface st"
  "bs_gen (ami_bpf_notify t m st) = bs_gen st" "bs_bound (ami_bpf_notify t m st) = bs_bound st"
  "bpf_inv (ami_bpf_notify t m st) = bpf_inv st"
  by (simp_all add: ami_bpf_notify_def)

lemma capture_one_spec:
  assumes inv: "bpf_inv st" and i: "i < AMI_BPF_MAX_CHANNELS" and v: "view_ok view"
    and cap: "unat (vw_caplen view) + 20 < 2 ^ 32"
  obtains go_on st' where "capture_one (locks i) (clock i) cookie view i st = Some (go_on, st')"
    and "bpf_inv st'" and "bs_iface st' = bs_iface st" and "bs_gen st' = bs_gen st"
    and "\<And>k. k \<noteq> i \<Longrightarrow> bs_chan st' ! k = bs_chan st ! k"
    and "taps locks cookie st i \<Longrightarrow> captured clock view i (bs_chan st ! i) (bs_chan st' ! i)"
    and "\<not> taps locks cookie st i \<Longrightarrow> st' = st"
    and "\<not> go_on \<Longrightarrow> ami_bpf_iface_by_cookie st cookie = None"
proof (cases "taps locks cookie st i")
  case False
  let ?go = "\<not> (ch_open (bs_chan st ! i) \<and> ch_store (bs_chan st ! i) \<noteq> None \<and> locks i \<and>
    ami_bpf_iface_by_cookie st cookie = None)"
  have "capture_one (locks i) (clock i) cookie view i st = Some (?go, st)"
    using False by (auto simp: capture_one_def taps_def Let_def split: option.splits)
  then show thesis using False inv by (intro that) auto
next
  case True
  then obtain j where j: "ch_iface (bs_chan st ! i) = Some j"
    "ami_bpf_iface_by_cookie st cookie = Some j" "locks i" "ch_store (bs_chan st ! i) \<noteq> None"
    by (auto simp: taps_def)
  note ok = inv_chan [OF inv i]
  obtain b where c: "ch_open (bs_chan st ! i)" "ch_bufbase (bs_chan st ! i) = Some b"
    "ch_store (bs_chan st ! i) \<noteq> None" "\<not> ch_blen (bs_chan st ! i) \<le> 20"
    by (rule bound_chan [OF ok j(1,4)])
  obtain ch' wake slen where r: "capture_locked (clock i) view (bs_chan st ! i) = Some (ch', wake)"
    "ami_bpf_filter_view (ch_filter (bs_chan st ! i)) (ch_filter_len (bs_chan st ! i)) (Some view)
      = Some slen"
    "chan_ok (bs_iface st) ch'" "capture_frame (bs_chan st ! i) ch'"
    "capture_post (clock i) view slen (bs_chan st ! i) ch'"
    by (rule capture_locked_spec [OF ok c(2,1) v cap])
  have "bpf_inv (set_chan st i ch')"
    using inv i r(3,4) by (intro inv_same_binding) (simp_all add: capture_frame_def)
  moreover have "i < length (bs_chan st)" using inv i by (simp add: bpf_inv_def)
  moreover have "capture_one (locks i) (clock i) cookie view i st = Some (True,
      if wake then ami_bpf_notify (ch_irq_task ch') (ch_irq_mask ch')
        (ami_bpf_notify (ch_notify_task ch') (ch_notify_mask ch') (set_chan st i ch'))
      else set_chan st i ch')" (is "_ = Some (True, ?st')")
    using r c j by (auto simp: capture_one_def Let_def)
  ultimately show thesis
    using r True by (intro that [of True ?st']) (auto simp: captured_def)
qed

lemma by_cookie_cong:
  "bs_iface st' = bs_iface st \<Longrightarrow> ami_bpf_iface_by_cookie st' cookie = ami_bpf_iface_by_cookie st cookie"
  by (simp add: ami_bpf_iface_by_cookie_def)

lemma taps_cong:
  assumes "bs_iface st' = bs_iface st" and "bs_chan st' ! k = bs_chan st ! k"
  shows "taps locks cookie st' k = taps locks cookie st k"
  using assms by (simp add: taps_def ami_bpf_iface_by_cookie_def)

lemma capture_loop_spec:
  assumes "bpf_inv st" and "set is \<subseteq> {0..<AMI_BPF_MAX_CHANNELS}" and "distinct is"
    and v: "view_ok view" and cap: "unat (vw_caplen view) + 20 < 2 ^ 32"
  shows "\<exists>st'. capture_loop locks clock cookie view is st = Some st' \<and> bpf_inv st' \<and>
    bs_iface st' = bs_iface st \<and> bs_gen st' = bs_gen st \<and>
    (\<forall>k. if k \<in> set is \<and> taps locks cookie st k
         then captured clock view k (bs_chan st ! k) (bs_chan st' ! k)
         else bs_chan st' ! k = bs_chan st ! k)"
  using assms(1-3)
proof (induction "is" arbitrary: st)
  case (Cons i "is")
  then have i: "i < AMI_BPF_MAX_CHANNELS" by simp
  obtain go_on st1 where one: "capture_one (locks i) (clock i) cookie view i st = Some (go_on, st1)"
    and inv1: "bpf_inv st1" and ifs: "bs_iface st1 = bs_iface st" and gen: "bs_gen st1 = bs_gen st"
    and other: "\<And>k. k \<noteq> i \<Longrightarrow> bs_chan st1 ! k = bs_chan st ! k"
    and tap: "taps locks cookie st i \<Longrightarrow> captured clock view i (bs_chan st ! i) (bs_chan st1 ! i)"
    and skip: "\<not> taps locks cookie st i \<Longrightarrow> st1 = st"
    and stop: "\<not> go_on \<Longrightarrow> ami_bpf_iface_by_cookie st cookie = None"
    by (rule capture_one_spec [OF Cons.prems(1) i v cap, of locks clock cookie]) blast
  show ?case
  proof (cases go_on)
    case True
    obtain st2 where two: "capture_loop locks clock cookie view is st1 = Some st2" "bpf_inv st2"
      "bs_iface st2 = bs_iface st1" "bs_gen st2 = bs_gen st1"
      and chans: "\<And>k. if k \<in> set is \<and> taps locks cookie st1 k
         then captured clock view k (bs_chan st1 ! k) (bs_chan st2 ! k)
         else bs_chan st2 ! k = bs_chan st1 ! k"
      using Cons.IH [OF inv1] Cons.prems by auto
    have "if k \<in> set (i # is) \<and> taps locks cookie st k
         then captured clock view k (bs_chan st ! k) (bs_chan st2 ! k)
         else bs_chan st2 ! k = bs_chan st ! k" for k
    proof (cases "k = i")
      case True
      then show ?thesis using chans [of i] Cons.prems(3) tap skip by (cases "taps locks cookie st i") auto
    next
      case False
      then show ?thesis using chans [of k] taps_cong [OF ifs other [OF False], of locks cookie] other [OF False]
        by (auto split: if_splits)
    qed
    then show ?thesis using one True two ifs gen by simp
  next
    case False
    then have "\<not> taps locks cookie st k" for k using stop by (auto simp: taps_def)
    then show ?thesis using one False inv1 skip by auto
  qed
qed simp

lemma capture_inv:
  assumes "bpf_inv st" and "view_ok view" and "unat (vw_caplen view) + 20 < 2 ^ 32"
  obtains st' where "ami_bpf_capture locks clock st cookie view = Some st'" and "bpf_inv st'"
    and "bs_iface st' = bs_iface st" and "bs_gen st' = bs_gen st"
    and "\<And>k. k < AMI_BPF_MAX_CHANNELS \<Longrightarrow> taps locks cookie st k \<Longrightarrow>
      captured clock view k (bs_chan st ! k) (bs_chan st' ! k)"
    and "\<And>k. k < AMI_BPF_MAX_CHANNELS \<Longrightarrow> \<not> taps locks cookie st k \<Longrightarrow>
      bs_chan st' ! k = bs_chan st ! k"
  using capture_loop_spec [OF assms(1) _ _ assms(2,3), of "[0..<AMI_BPF_MAX_CHANNELS]" locks clock cookie]
  by (auto simp: ami_bpf_capture_def)

section \<open>The views of the taps\<close>

abbreviation chain_bytes :: "(UBYTE list \<times> LONG) list \<Rightarrow> int" where
  "chain_bytes chain \<equiv> sum_list (map (\<lambda>(b, len). max 0 len) chain)"

lemma chain_bytes_nonneg: "0 \<le> chain_bytes chain"
  by (rule sum_list_nonneg) auto

lemma tx_view_add_ok:
  assumes "view_ok view" and "length (vw_seg view) = AMI_BPF_MAX_SEGS"
    and "len \<le> int (length bytes)" and "0 < len"
    and sz: "int (unat (vw_caplen view)) + len + rest < 2 ^ 32 - 20" and "0 \<le> rest"
  shows "view_ok (snd (ami_bpf_view_add view bytes (of_int len)))"
    and "length (vw_seg (snd (ami_bpf_view_add view bytes (of_int len)))) = AMI_BPF_MAX_SEGS"
    and "int (unat (vw_caplen (snd (ami_bpf_view_add view bytes (of_int len))))) + rest < 2 ^ 32 - 20"
proof -
  have "len < 2 ^ 32" using sz assms(6) by linarith
  then have len: "int (unat (of_int len :: ULONG)) = len"
    using assms(4) by (simp add: unsigned_of_int take_bit_int_eq_self)
  have le: "unat (of_int len :: ULONG) \<le> length bytes" using assms(3) len by linarith
  have "int (unat (vw_caplen view) + unat (of_int len :: ULONG)) < int (2 ^ 32)"
    unfolding of_nat_add len using sz assms(6) by simp
  then have sum: "unat (vw_caplen view) + unat (of_int len :: ULONG) < 2 ^ 32"
    by (simp only: of_nat_less_iff)
  show "view_ok (snd (ami_bpf_view_add view bytes (of_int len)))"
    "length (vw_seg (snd (ami_bpf_view_add view bytes (of_int len)))) = AMI_BPF_MAX_SEGS"
    by (rule ami_bpf_view_add_ok [OF assms(1,2) le sum])+
  have "unat (vw_caplen view + of_int len) = unat (vw_caplen view) + unat (of_int len :: ULONG)"
    using sum by (intro unat_add_nowrap) simp
  then have "int (unat (vw_caplen view + of_int len)) = int (unat (vw_caplen view)) + len"
    by (simp only: of_nat_add len)
  then show "int (unat (vw_caplen (snd (ami_bpf_view_add view bytes (of_int len))))) + rest < 2 ^ 32 - 20"
    using sz assms(4) by (auto simp: ami_bpf_view_add_def)
qed

lemma tx_segments_ok:
  assumes "view_ok view" and "length (vw_seg view) = AMI_BPF_MAX_SEGS"
    and "\<forall>(bytes, len) \<in> set chain. len \<le> int (length bytes)"
    and "int (unat (vw_caplen view)) + chain_bytes chain < 2 ^ 32 - 20"
  shows "view_ok (tx_segments chain view) \<and>
    int (unat (vw_caplen (tx_segments chain view))) < 2 ^ 32 - 20"
  using assms
proof (induction chain view rule: tx_segments.induct)
  case (2 bytes len rest view)
  show ?case
  proof (cases "len \<le> 0")
    case True
    then show ?thesis using "2.IH"(1) "2.prems" by simp
  next
    case False
    have add: "view_ok (snd (ami_bpf_view_add view bytes (of_int len)))"
      "length (vw_seg (snd (ami_bpf_view_add view bytes (of_int len)))) = AMI_BPF_MAX_SEGS"
      "int (unat (vw_caplen (snd (ami_bpf_view_add view bytes (of_int len))))) + chain_bytes rest < 2 ^ 32 - 20"
      using tx_view_add_ok [OF "2.prems"(1,2), of len bytes "chain_bytes rest"] "2.prems"(3,4) False
        chain_bytes_nonneg [of rest] by simp_all
    then show ?thesis using "2.IH"(2) [OF False] "2.prems"(3) False chain_bytes_nonneg [of rest]
      by (auto split: prod.splits)
  qed
qed simp

lemma tx_view_ok:
  assumes segs: "length (vw_seg scratch) = AMI_BPF_MAX_SEGS"
    and chain: "\<forall>(bytes, len) \<in> set chain. len \<le> int (length bytes)"
    and mac: "\<forall>m. src_mac = Some m \<longrightarrow> 6 \<le> length m"
    and small: "chain_bytes chain + 14 < 2 ^ 32 - 20"
  shows "view_ok (tx_view scratch dlt chain plen link ty msw lsw src_mac)"
    and "unat (vw_caplen (tx_view scratch dlt chain plen link ty msw lsw src_mac)) + 20 < 2 ^ 32"
proof -
  let ?v0 = "scratch\<lparr>vw_wirelen := 0, vw_caplen := 0, vw_nsegs := 0\<rparr>"
    and ?eth = "eth_header ty msw lsw src_mac"
  have v0: "view_ok ?v0" "length (vw_seg ?v0) = AMI_BPF_MAX_SEGS"
    using segs by (simp_all add: view_ok_def view_segs_def view_bytes_def)
  have eth: "(14::int) \<le> int (length ?eth)"
    using mac by (auto simp: eth_header_def split: option.splits)
  note v1 = tx_view_add_ok [OF v0 eth, of "chain_bytes chain"]
  define v where "v = (if \<not> link \<and> dlt = DLT_EN10MB then snd (ami_bpf_view_add ?v0 ?eth 14) else ?v0)"
  have v: "view_ok v" "length (vw_seg v) = AMI_BPF_MAX_SEGS"
    "int (unat (vw_caplen v)) + chain_bytes chain < 2 ^ 32 - 20"
    using v0 v1 small chain_bytes_nonneg [of chain] by (auto simp: v_def)
  note fin = tx_segments_ok [OF v(1,2) chain v(3)]
  have eq: "tx_view scratch dlt chain plen link ty msw lsw src_mac
    = (tx_segments chain v)\<lparr>vw_wirelen := (plen + (if \<not> link \<and> dlt = DLT_EN10MB then 14 else 0))\<rparr>"
    by (simp add: tx_view_def v_def Let_def)
  show "view_ok (tx_view scratch dlt chain plen link ty msw lsw src_mac)"
    using fin unfolding eq by (simp add: view_ok_def view_segs_def view_bytes_def)
  have "int (unat (vw_caplen (tx_segments chain v)) + 20) < int (2 ^ 32)"
    unfolding of_nat_add using fin by simp
  then have "unat (vw_caplen (tx_segments chain v)) + 20 < 2 ^ 32" by (simp only: of_nat_less_iff)
  then show "unat (vw_caplen (tx_view scratch dlt chain plen link ty msw lsw src_mac)) + 20 < 2 ^ 32"
    unfolding eq by simp
qed

lemma capture_total:
  assumes "bpf_inv st" and "view_ok view" and "unat (vw_caplen view) + 20 < 2 ^ 32"
  shows "\<exists>st'. ami_bpf_capture locks clock st cookie view = Some st' \<and> bpf_inv st'"
  using capture_inv [OF assms] by blast

lemma sample_view_hyps: "view_ok sample_view" "unat (vw_caplen sample_view) + 20 < 2 ^ 32"
proof -
  show "view_ok sample_view" by code_simp
qed (simp add: sample_view_def)

section \<open>Properties\<close>

text \<open>
  Whatever is captured, in whatever state of the table and whichever locks the tap
  gets: the capture touches no byte outside a channel's buffers and the segments of the
  view, and every channel is left well formed.
\<close>

lemma bpf_capture_safe:
  assumes "bpf_inv st" and "view_ok view" and "unat (vw_caplen view) + 20 < 2 ^ 32"
  shows "\<exists>st'. ami_bpf_capture locks clock st cookie view = Some st' \<and> bpf_inv st'"
  by (rule capture_total [OF assms])

text \<open>
  C3. The contract of the tap. On every channel bound to the interface of the cookie whose
  lock it gets, a capture counts the packet, runs the filter on it, and then appends one
  record with the time stamp, the packet's length on the wire and as many of its bytes as
  the filter, the packet and the buffer allow to the channel's queue; or, the filter
  having accepted and no buffer having room, counts a drop and leaves the queue alone; or,
  the filter having rejected, leaves the queue alone. A buffer that is being read is not
  touched. Every other channel is unchanged.
\<close>

theorem bpf_capture_contract:
  assumes "bpf_inv st" and "view_ok view" and "unat (vw_caplen view) + 20 < 2 ^ 32"
    and "ami_bpf_capture locks clock st cookie view = Some st'" and "k < AMI_BPF_MAX_CHANNELS"
  shows "if taps locks cookie st k
         then \<exists>slen. ami_bpf_filter_view (ch_filter (bs_chan st ! k)) (ch_filter_len (bs_chan st ! k))
                        (Some view) = Some slen \<and>
                     capture_post (clock k) view slen (bs_chan st ! k) (bs_chan st' ! k) \<and>
                     capture_frame (bs_chan st ! k) (bs_chan st' ! k)
         else bs_chan st' ! k = bs_chan st ! k"
  using capture_inv [OF assms(1-3), of locks clock cookie] assms(4,5)
  by (auto simp: captured_def split: if_splits)

theorem bpf_capture_contract_witness:
  "\<exists>st'. ami_bpf_capture (\<lambda>_. True) (\<lambda>_. (1, 2)) sample_state 77 sample_view = Some st' \<and>
     chan_queue (bs_chan sample_state ! 0) = [] \<and>
     chan_queue (bs_chan st' ! 0) = [\<lparr>rc_sec = 1, rc_usec = 2, rc_caplen = 16, rc_datalen = 16,
       rc_data = view_bytes sample_view\<rparr>] \<and> ch_drop_count (bs_chan st' ! 0) = 0"
proof -
  obtain st' where st': "ami_bpf_capture (\<lambda>_. True) (\<lambda>_. (1, 2)) sample_state 77 sample_view = Some st'"
    using capture_total [OF sample_state_inv sample_view_hyps] by blast
  have "taps (\<lambda>_. True) 77 sample_state 0"
    and slen: "ami_bpf_filter_view (ch_filter (bs_chan sample_state ! 0))
      (ch_filter_len (bs_chan sample_state ! 0)) (Some sample_view) = Some 96"
    and room: "has_room (bs_chan sample_state ! 0) sample_view 96"
    and keep: "capture_rec (1, 2) sample_view (keep_len (bs_chan sample_state ! 0) sample_view 96)
      = \<lparr>rc_sec = 1, rc_usec = 2, rc_caplen = 16, rc_datalen = 16, rc_data = view_bytes sample_view\<rparr>"
    and q: "chan_queue (bs_chan sample_state ! 0) = []" "ch_drop_count (bs_chan sample_state ! 0) = 0"
    by code_simp+
  then have "capture_post (1, 2) sample_view 96 (bs_chan sample_state ! 0) (bs_chan st' ! 0)"
    using bpf_capture_contract [OF sample_state_inv _ _ st', of 0] sample_view_hyps
    by (simp add: AMI_BPF_MAX_CHANNELS_def)
  then show ?thesis using st' room keep q by (simp add: capture_post_def)
qed

text \<open>
  The transmit tap is safe on every packet chain, longer than the segment table of a
  view or not: the view it builds (with the link header it makes up for a cooked frame) is
  well formed, nothing outside it is read, and the table stays well formed.
\<close>

lemma bpf_tap_tx_safe:
  assumes "bpf_inv st" and "length (vw_seg scratch) = AMI_BPF_MAX_SEGS"
    and "\<forall>(bytes, len) \<in> set chain. len \<le> int (length bytes)"
    and "\<forall>m. src_mac = Some m \<longrightarrow> 6 \<le> length m"
    and "chain_bytes chain + 14 < 2 ^ 32 - 20"
  shows "\<exists>st'. ami_bpf_tap_tx locks got_lock clock scratch st cookie (Some (chain, plen)) link ty
           msw lsw src_mac = Some st' \<and> bpf_inv st'"
  using capture_total [OF assms(1) tx_view_ok [OF assms(2-5)]] assms(1)
  by (auto simp: ami_bpf_tap_tx_def split: option.splits)

end
