(* ===== verification/Bpf_Read.thy ===== *)
theory Bpf_Read
  imports Bpf_Capture
begin

text \<open>
  The reader of \<^verbatim>\<open>src/bpf/bpf_channel.c\<close>: \<^verbatim>\<open>ami_bpf_read\<close> with its timed wait, the walk over the
  records of the hold buffer and the copy outside the lock, and the two polls
  (\<^verbatim>\<open>ami_bpf_data_waiting\<close>, \<^verbatim>\<open>ami_bpf_capturing\<close>).

  A read takes and drops the table lock several times. Each window in which it does not
  hold the lock is a function on the state, what the other tasks do then: a field of
  \<open>bpf_tasks\<close>. The locale \<open>bpf_others\<close> states what the reader needs of them (they keep the
  invariant, and leave the buffer alone that is being copied), and its lemmas are proved
  for every such environment. The walk is a partial function, because on a damaged buffer
  it would not end; on the buffers the invariant describes it always does.
\<close>

section \<open>The timeout\<close>

definition AMI_BPF_TICKS_PER_SEC :: ULONG where "AMI_BPF_TICKS_PER_SEC = 50"
definition AMI_BPF_WAIT_SLICE :: ULONG where "AMI_BPF_WAIT_SLICE = 1"

definition read_budget :: "AmiBpfChan \<Rightarrow> ULONG" where
  "read_budget ch =
     (let tick_usec = 1000000 div AMI_BPF_TICKS_PER_SEC;
          fraction = ch_rtimeout_usec ch div tick_usec;
          fraction = (if ch_rtimeout_usec ch mod tick_usec \<noteq> 0 then fraction + 1 else fraction)
      in if (NOT 0 - fraction) div AMI_BPF_TICKS_PER_SEC < ch_rtimeout_sec ch then NOT 0
         else ch_rtimeout_sec ch * AMI_BPF_TICKS_PER_SEC + fraction)"

section \<open>Waiting for data\<close>

record bpf_tasks =
  tk_wait :: "nat \<Rightarrow> bpf_state \<Rightarrow> bpf_state" \<comment> \<open>during the nth sleep\<close>
  tk_signals :: "nat \<Rightarrow> ULONG \<Rightarrow> ULONG" \<comment> \<open>\<^verbatim>\<open>ami_bpf_signals_set\<close> at the nth poll\<close>
  tk_copying :: "bpf_state \<Rightarrow> bpf_state" \<comment> \<open>before the bytes are copied\<close>
  tk_copied :: "bpf_state \<Rightarrow> bpf_state" \<comment> \<open>after it, before the lock is back\<close>
  tk_releasing :: "bpf_state \<Rightarrow> bpf_state" \<comment> \<open>before a pending release\<close>

datatype read_turn = Read_Return LONG | Read_Wait ULONG | Read_Data nat

text \<open>One turn of the wait loop, with the lock held.\<close>

definition read_turn :: "bpf_state \<Rightarrow> APTR \<Rightarrow> LONG \<Rightarrow> ULONG \<Rightarrow> read_turn \<times> bpf_state" where
  "read_turn st owner channel generation =
     (case ami_bpf_chan_get st owner channel of
        Inl status \<Rightarrow> (Read_Return status, st)
      | Inr i \<Rightarrow>
          if bs_gen st ! i \<noteq> generation then (Read_Return AMI_BPF_ENXIO, st)
          else if ch_reading (bs_chan st ! i) then (Read_Return 0, st)
          else let ch = bs_chan st ! i;
                   ch = (if ch_hold_len ch = 0 \<and> 0 < ch_store_len ch then ami_bpf_rotate ch else ch);
                   st = set_chan st i ch
               in if ch_hold_len ch \<noteq> 0 then (Read_Data i, st) else (Read_Wait (ch_irq_mask ch), st))"

function read_wait ::
  "bpf_tasks \<Rightarrow> APTR \<Rightarrow> LONG \<Rightarrow> ULONG \<Rightarrow> ULONG \<Rightarrow> ULONG \<Rightarrow> bpf_state \<Rightarrow> (LONG + nat) \<times> bpf_state" where
  "read_wait tk owner channel generation budget waited st =
     (case read_turn st owner channel generation of
        (Read_Return status, st) \<Rightarrow> (Inl status, st)
      | (Read_Data i, st) \<Rightarrow> (Inr i, st)
      | (Read_Wait irq_mask, st) \<Rightarrow>
          if budget \<le> waited then (Inl 0, st)
          else if tk_signals tk (unat waited) irq_mask \<noteq> 0 then (Inl AMI_BPF_EINTR, st)
          else read_wait tk owner channel generation budget (waited + AMI_BPF_WAIT_SLICE)
                 (tk_wait tk (unat waited) st))"
  by pat_completeness auto
termination
proof (relation "measure (\<lambda>(tk, owner, channel, generation, budget, waited, st). unat (budget - waited))")
  fix tk :: bpf_tasks and owner channel generation and budget waited :: ULONG and st st' st''
  assume "\<not> budget \<le> waited"
  then have "unat (budget - (waited + AMI_BPF_WAIT_SLICE)) < unat (budget - waited)"
    unfolding AMI_BPF_WAIT_SLICE_def
    by (metis add.commute diff_diff_add linorder_not_le measure_unat word_gt_0 right_minus_eq less_irrefl)
  then show "((tk, owner, channel, generation, budget, waited + AMI_BPF_WAIT_SLICE, st''),
      tk, owner, channel, generation, budget, waited, st)
    \<in> measure (\<lambda>(tk, owner, channel, generation, budget, waited, st). unat (budget - waited))"
    for owner :: APTR and channel :: LONG and generation :: ULONG and st st'' :: bpf_state by simp
qed simp

declare read_wait.simps [simp del]

section \<open>The walk and the copy\<close>

text \<open>The memory from \<^verbatim>\<open>ch->hold\<close> on, to the end of the allocation.\<close>

definition hold_mem :: "AmiBpfChan \<Rightarrow> UBYTE list option" where
  "hold_mem ch = do { b \<leftarrow> ch_bufbase ch; off \<leftarrow> ch_hold ch; Some (drop off b) }"

partial_function (option) read_walk ::
  "UBYTE list \<Rightarrow> ULONG \<Rightarrow> ULONG \<Rightarrow> ULONG \<Rightarrow> ULONG \<Rightarrow> ULONG \<Rightarrow> (ULONG \<times> ULONG) option" where
  "read_walk hold hold_pos hold_len len pos stop =
     (if pos < hold_len then do {
        hdrlen \<leftarrow> get_be hold (unat pos + 16) 2;
        caplen \<leftarrow> get_be hold (unat pos + 8) 4;
        let reclen = hdrlen + caplen;
        if len < (pos + reclen) - hold_pos then Some (pos, stop)
        else read_walk hold hold_pos hold_len len (pos + BPF_WORDALIGN reclen) (pos + reclen)
      }
      else Some (pos, stop))"

declare read_walk.simps [code]

text \<open>The last section: the records are consumed, the buffer is free again.\<close>

definition finish_chan :: "AmiBpfChan \<Rightarrow> ULONG \<Rightarrow> AmiBpfChan" where
  "finish_chan ch pos =
     (let ch = ch\<lparr>ch_hold_pos := pos\<rparr>;
          ch = (if ch_hold_len ch \<le> ch_hold_pos ch then ch\<lparr>ch_hold_len := 0, ch_hold_pos := 0\<rparr> else ch)
      in ch\<lparr>ch_reading := False\<rparr>)"

definition read_finish :: "bpf_state \<Rightarrow> nat \<Rightarrow> ULONG \<Rightarrow> bpf_state" where
  "read_finish st i pos = set_chan st i (finish_chan (bs_chan st ! i) pos)"

text \<open>
  The end of the section in which data was found: the walk, and the channel is marked. The answer is where the
  walk ended, where the bytes start in the allocation and how many they are; \<open>None\<close> if not one record fits.
\<close>

definition read_mark :: "bpf_state \<Rightarrow> nat \<Rightarrow> LONG \<Rightarrow> ((ULONG \<times> nat \<times> ULONG) option \<times> bpf_state) option" where
  "read_mark st i len = do {
     let ch = bs_chan st ! i;
     hold \<leftarrow> hold_mem ch;
     (pos, stop) \<leftarrow> read_walk hold (ch_hold_pos ch) (ch_hold_len ch) (of_int len)
                     (ch_hold_pos ch) (ch_hold_pos ch);
     if stop = ch_hold_pos ch then Some (None, st)
     else do {
       off \<leftarrow> ch_hold ch;
       Some (Some (pos, off + unat (ch_hold_pos ch), stop - ch_hold_pos ch), set_chan st i (ch\<lparr>ch_reading := True\<rparr>))
     }
   }"

text \<open>The read outside the lock, from the buffer as it then is.\<close>

definition copy_out :: "bpf_state \<Rightarrow> nat \<Rightarrow> nat \<Rightarrow> nat \<Rightarrow> UBYTE list option" where
  "copy_out st i src n = do { from \<leftarrow> ch_bufbase (bs_chan st ! i); rd_range from src n }"

text \<open>
  From the walk to the return, once there is data and the lock is held: \<open>addr\<close> and \<open>mem\<close> are
  the caller's buffer, \<open>base\<close> is the address of the channel's allocation. The result is the
  return value, the caller's memory afterwards and the state.
\<close>

definition read_deliver ::
  "bpf_tasks \<Rightarrow> nat \<Rightarrow> bpf_state \<Rightarrow> nat \<Rightarrow> nat \<Rightarrow> UBYTE list \<Rightarrow> LONG
   \<Rightarrow> (LONG \<times> UBYTE list \<times> bpf_state) option" where
  "read_deliver tk base st i addr mem len = do {
     (marked, st) \<leftarrow> read_mark st i len;
     case marked of None \<Rightarrow> Some (AMI_BPF_EINVAL, mem, st)
     | Some (pos, src, nbytes) \<Rightarrow> do {
         let st = tk_copying tk st;
         bytes \<leftarrow> copy_out st i src (unat nbytes);
         mem \<leftarrow> wr_range mem 0 (ami_bpf_copy_bytes addr (base + src) bytes (unat nbytes));
         let st = read_finish (tk_copied tk st) i pos;
         let st = (if ch_release_pending (bs_chan st ! i)
                   then ami_bpf_chan_release (tk_releasing tk st) i False 0 else st);
         Some (sint nbytes, mem, st)
       }
   }"

text \<open>The whole call; a \<open>buffer\<close> of \<open>None\<close> is \<^verbatim>\<open>NULL\<close>.\<close>

definition ami_bpf_read ::
  "bpf_tasks \<Rightarrow> nat \<Rightarrow> bpf_state \<Rightarrow> APTR \<Rightarrow> LONG \<Rightarrow> (nat \<times> UBYTE list) option \<Rightarrow> LONG
   \<Rightarrow> (LONG \<times> UBYTE list \<times> bpf_state) option" where
  "ami_bpf_read tk base st owner channel buffer len =
     (let mem = (case buffer of None \<Rightarrow> [] | Some (a, m) \<Rightarrow> m)
      in case ami_bpf_chan_get st owner channel of
        Inl status \<Rightarrow> Some (status, mem, st)
      | Inr i \<Rightarrow>
          if buffer = None \<or> len \<le> 0 then Some (AMI_BPF_EINVAL, mem, st)
          else case read_wait tk owner channel (bs_gen st ! i) (read_budget (bs_chan st ! i)) 0 st of
            (Inl status, st) \<Rightarrow> Some (status, mem, st)
          | (Inr i, st) \<Rightarrow> read_deliver tk base st i (fst (the buffer)) mem len)"

section \<open>Polls\<close>

definition ami_bpf_capturing :: "bpf_state \<Rightarrow> UWORD" where
  "ami_bpf_capturing st = bs_bound st"

definition ami_bpf_buffered :: "AmiBpfChan \<Rightarrow> ULONG" where
  "ami_bpf_buffered ch = (ch_hold_len ch - ch_hold_pos ch) + ch_store_len ch"

definition ami_bpf_data_waiting :: "bpf_state \<Rightarrow> APTR \<Rightarrow> LONG \<Rightarrow> LONG" where
  "ami_bpf_data_waiting st owner channel =
     (case ami_bpf_chan_get st owner channel of
        Inl status \<Rightarrow> status
      | Inr i \<Rightarrow> if ami_bpf_buffered (bs_chan st ! i) \<noteq> 0 then 1 else 0)"

section \<open>The walk returns the whole records that fit\<close>

lemma get_be_take:
  assumes "get_be (take n xs) off k = Some v"
  shows "get_be xs off k = Some v"
proof -
  have "off + k \<le> n" and "off + k \<le> length xs" and "v = be_val (take k (drop off (take n xs)))"
    using assms by (auto simp: get_be_def rd_range_def split: if_splits)
  then show ?thesis by (simp add: get_be_def rd_range_def drop_take min_absorb1)
qed

lemma read_walk_spec:
  fixes pos hold_pos hold_len len stop :: ULONG
  assumes "holds (take blen hold) (unat pos) (unat hold_len) rs" and "4 dvd unat pos"
    and "unat hold_len \<le> blen" and "blen \<le> 0x8000" and "blen \<le> length hold" and "hold_pos \<le> pos"
    and "pos \<le> 0x10000" and "k = fit_count (unat len - (unat pos - unat hold_pos)) rs"
  shows "\<exists>pos' stop'. read_walk hold hold_pos hold_len len pos stop = Some (pos', stop') \<and>
    unat pos' = unat pos + aspan (take k rs) \<and>
    (if k = 0 then stop' = stop else unat stop' = unat pos + span (take k rs))"
  using assms(1,2,6-8)
proof (induction rs arbitrary: pos stop k)
  case Nil
  then have "\<not> pos < hold_len" using align4_props(1) [of "unat hold_len"] by (simp add: word_less_nat_alt)
  then show ?case using Nil by (simp add: read_walk.simps)
next
  case (Cons r rs)
  have le: "unat pos + rec_size r \<le> unat hold_len" "unat hold_len \<le> length (take blen hold)"
    and tk: "take (rec_size r) (drop (unat pos) (take blen hold)) = rec_bytes r"
    and ok: "rec_ok r" and rest: "holds (take blen hold) (align4 (unat pos + rec_size r)) (unat hold_len) rs"
    using Cons.prems(1) by auto
  have lt: "pos < hold_len" using le(1) rec_size_pos [of r] by (simp add: word_less_nat_alt)
  have hdr: "get_be hold (unat pos + 16) 2 = Some 20" "get_be hold (unat pos + 8) 4 = Some (rc_caplen r)"
    using get_be_header(3,5) [OF tk] le by (auto intro: get_be_take)
  have rs: "unat (20 + rc_caplen r) = rec_size r"
    using ok le assms(3,4) by (subst unat_add_nowrap) (auto simp: rec_ok_def rec_size_def)
  then have sum: "unat (pos + (20 + rc_caplen r)) = unat pos + rec_size r"
    using le(1) assms(3,4) by (subst unat_add_nowrap) auto
  have al: "unat (pos + BPF_WORDALIGN (20 + rc_caplen r)) = unat pos + align4 (rec_size r)"
    using rs le(1) assms(3,4) align4_props(2) [of "rec_size r"]
    by (subst unat_add_nowrap; subst unat_WORDALIGN) auto
  have hp: "unat hold_pos \<le> unat pos" using Cons.prems(3) by (simp add: word_le_nat_alt)
  have sub: "unat (pos + (20 + rc_caplen r) - hold_pos) = unat pos + rec_size r - unat hold_pos"
    using sum hp by (subst unat_sub_le) (auto simp: word_le_nat_alt)
  have fit: "len < pos + (20 + rc_caplen r) - hold_pos \<longleftrightarrow>
      \<not> rec_size r \<le> unat len - (unat pos - unat hold_pos)"
    using sub hp rec_size_pos [of r] unfolding word_less_nat_alt by linarith
  show ?case
  proof (cases "rec_size r \<le> unat len - (unat pos - unat hold_pos)")
    case False
    then show ?thesis using Cons.prems(5) lt hdr fit by (subst read_walk.simps) simp
  next
    case True
    let ?pos = "pos + BPF_WORDALIGN (20 + rc_caplen r)" and ?stop = "pos + (20 + rc_caplen r)"
      and ?j = "fit_count (unat len - (unat pos - unat hold_pos) - align4 (rec_size r)) rs"
    have "unat (?pos) - unat hold_pos = unat pos - unat hold_pos + align4 (rec_size r)"
      using al hp by simp
    then have "\<exists>pos' stop'. read_walk hold hold_pos hold_len len ?pos ?stop = Some (pos', stop') \<and>
        unat pos' = unat ?pos + aspan (take ?j rs) \<and>
        (if ?j = 0 then stop' = ?stop else unat stop' = unat ?pos + span (take ?j rs))"
      using rest al le assms(3,4) hp align4_props [of "rec_size r"] align4_add [OF Cons.prems(2), of "rec_size r"]
      by (intro Cons.IH) (auto simp: word_le_nat_alt Cons.prems(2))
    moreover have "read_walk hold hold_pos hold_len len pos stop
        = read_walk hold hold_pos hold_len len ?pos ?stop"
      using lt hdr fit True by (subst read_walk.simps) (simp add: Let_def)
    moreover have "take ?j rs = [] \<longleftrightarrow> ?j = 0" using fit_count_le [of _ rs] by (metis take_eq_Nil list.size(3) le_zero_eq)
    ultimately show ?thesis using Cons.prems(5) True al sum by (auto simp: span_Cons split: if_splits)
  qed
qed

section \<open>The sections of a read\<close>

text \<open>What the other tasks leave alone while a channel's hold buffer is being copied.\<close>

definition reader_frame :: "AmiBpfChan \<Rightarrow> AmiBpfChan \<Rightarrow> bool" where
  "reader_frame ch ch' \<longleftrightarrow>
     ch_reading ch' \<and> ch_blen ch' = ch_blen ch \<and> ch_hold ch' = ch_hold ch \<and>
     hold_area ch' = hold_area ch \<and>
     (ch_hold_len ch' = ch_hold_len ch \<and> ch_hold_pos ch' = ch_hold_pos ch \<or>
      ch_hold_len ch' = 0 \<and> ch_hold_pos ch' = 0)"

lemma reader_frame_trans [trans]:
  "reader_frame a b \<Longrightarrow> reader_frame b c \<Longrightarrow> reader_frame a c"
  by (auto simp: reader_frame_def)

lemma reader_frame_refl: "ch_reading ch \<Longrightarrow> reader_frame ch ch"
  by (simp add: reader_frame_def)

lemma hold_mem_area:
  assumes "chan_ok ifs ch" and "ch_bufbase ch = Some b"
  obtains off where "ch_hold ch = Some off" and "hold_mem ch = Some (drop off b)"
    and "hold_area ch = take (unat (ch_blen ch)) (drop off b)"
    and "off + unat (ch_blen ch) \<le> length b" and "length (hold_area ch) = unat (ch_blen ch)"
    and "4 dvd off" and "blen_ok (ch_blen ch)"
proof -
  from assms have bl: "blen_ok (ch_blen ch)" "length b = 2 * unat (ch_blen ch)"
    and off: "ch_hold ch = Some (unat (ch_blen ch)) \<or> ch_hold ch = Some 0"
    by (auto simp: chan_ok_def bufs_ok_def)
  then obtain o1 where o1: "ch_hold ch = Some o1" "o1 = unat (ch_blen ch) \<or> o1 = 0" by auto
  show thesis
  proof (rule that [OF o1(1)])
    show "hold_mem ch = Some (drop o1 b)" using assms(2) o1 by (simp add: hold_mem_def)
    show "hold_area ch = take (unat (ch_blen ch)) (drop o1 b)" using assms(2) o1 by (simp add: hold_area_def)
    then show "length (hold_area ch) = unat (ch_blen ch)" using bl(2) o1(2) by auto
    show "o1 + unat (ch_blen ch) \<le> length b" using bl(2) o1(2) by auto
    show "4 dvd o1" "blen_ok (ch_blen ch)" using bl o1(2) by (auto simp: blen_ok_def)
  qed
qed

lemma hold_data:
  assumes "chan_ok ifs ch" and "ch_hold_len ch \<noteq> 0"
  obtains b where "ch_bufbase ch = Some b" and "ch_hold_pos ch < ch_hold_len ch"
    and "ch_hold_len ch \<le> ch_blen ch" and "4 dvd unat (ch_hold_pos ch)" and "ch_open ch"
    and "holds (hold_area ch) (unat (ch_hold_pos ch)) (unat (ch_hold_len ch)) (hold_recs ch)"
    and "hold_recs ch \<noteq> []"
proof -
  from assms obtain b where b: "ch_bufbase ch = Some b" "ch_hold_pos ch < ch_hold_len ch"
    "ch_hold_len ch \<le> ch_blen ch" "4 dvd unat (ch_hold_pos ch)"
    by (auto simp: chan_ok_def bufs_ok_def split: option.splits)
  moreover have "ch_open ch" using assms by (auto simp: chan_ok_def zero_chan_def)
  moreover have h: "holds (hold_area ch) (unat (ch_hold_pos ch)) (unat (ch_hold_len ch)) (hold_recs ch)"
    using assms(1) by (simp add: chan_ok_def recs_ok_def)
  moreover have "hold_recs ch \<noteq> []"
    using holds_Nil_iff [OF h] b(2) by (simp add: word_less_nat_alt)
  ultimately show thesis by (rule that)
qed

text \<open>The walk on the buffer of a well-formed channel.\<close>

lemma read_walk_chan:
  fixes len :: LONG
  assumes ok: "chan_ok ifs ch" and "ch_hold_len ch \<noteq> 0" and "0 < len" and "len < 2 ^ 31"
    and k: "k = fit_count (nat len) (hold_recs ch)"
  obtains hold pos stop where "hold_mem ch = Some hold"
    and "read_walk hold (ch_hold_pos ch) (ch_hold_len ch) (of_int len) (ch_hold_pos ch) (ch_hold_pos ch)
      = Some (pos, stop)"
    and "unat pos = unat (ch_hold_pos ch) + aspan (take k (hold_recs ch))"
    and "if k = 0 then stop = ch_hold_pos ch
         else ch_hold_pos ch < stop \<and> unat stop = unat (ch_hold_pos ch) + span (take k (hold_recs ch)) \<and>
              unat stop \<le> unat (ch_hold_len ch)"
proof -
  obtain b where b: "ch_bufbase ch = Some b" "ch_hold_pos ch < ch_hold_len ch"
    "ch_hold_len ch \<le> ch_blen ch" "4 dvd unat (ch_hold_pos ch)"
    and h: "holds (hold_area ch) (unat (ch_hold_pos ch)) (unat (ch_hold_len ch)) (hold_recs ch)"
    by (rule hold_data [OF ok assms(2)])
  obtain off where off: "hold_mem ch = Some (drop off b)" "off + unat (ch_blen ch) \<le> length b"
    and area: "hold_area ch = take (unat (ch_blen ch)) (drop off b)" and bl: "blen_ok (ch_blen ch)"
    by (rule hold_mem_area [OF ok b(1)])
  have len: "unat (of_int len :: ULONG) = nat len"
    using assms(3,4) by (simp add: unat_eq_nat_uint uint_word_of_int)
  have "\<exists>pos' stop'. read_walk (drop off b) (ch_hold_pos ch) (ch_hold_len ch) (of_int len)
      (ch_hold_pos ch) (ch_hold_pos ch) = Some (pos', stop') \<and>
    unat pos' = unat (ch_hold_pos ch) + aspan (take k (hold_recs ch)) \<and>
    (if k = 0 then stop' = ch_hold_pos ch else unat stop' = unat (ch_hold_pos ch) + span (take k (hold_recs ch)))"
    using h area b bl off len k
    by (intro read_walk_spec [of "unat (ch_blen ch)"]) (auto simp: word_le_nat_alt word_less_nat_alt blen_ok_def)
  then obtain pos stop where w: "read_walk (drop off b) (ch_hold_pos ch) (ch_hold_len ch) (of_int len)
      (ch_hold_pos ch) (ch_hold_pos ch) = Some (pos, stop)"
    "unat pos = unat (ch_hold_pos ch) + aspan (take k (hold_recs ch))"
    "if k = 0 then stop = ch_hold_pos ch else unat stop = unat (ch_hold_pos ch) + span (take k (hold_recs ch))"
    by blast
  have "20 \<le> span (take k (hold_recs ch))" if "k \<noteq> 0"
    using that k fit_count_le [of "nat len" "hold_recs ch"] by (intro span_pos) auto
  moreover have "unat (ch_hold_pos ch) + span (take k (hold_recs ch)) \<le> unat (ch_hold_len ch)" if "k \<noteq> 0"
    using that k fit_count_le [of "nat len" "hold_recs ch"] by (intro holds_span_le [OF h b(4)]) auto
  ultimately show thesis using w by (intro that [OF off(1) w(1,2)]) (auto simp: word_less_nat_alt)
qed

text \<open>
  The last section after whatever the others did: the channel is well formed, and the
  records that were copied are gone; if the buffers were flushed meanwhile they are gone
  with the rest.
\<close>

lemma finish_chan_simps [simp]:
  "ch_bufbase (finish_chan ch pos) = ch_bufbase ch" "ch_blen (finish_chan ch pos) = ch_blen ch"
  "ch_open (finish_chan ch pos) = ch_open ch" "ch_ifname (finish_chan ch pos) = ch_ifname ch" "ch_iface (finish_chan ch pos) = ch_iface ch"
  "ch_hold (finish_chan ch pos) = ch_hold ch" "ch_store (finish_chan ch pos) = ch_store ch"
  "ch_store_len (finish_chan ch pos) = ch_store_len ch"
  "ch_owner (finish_chan ch pos) = ch_owner ch" "ch_filter (finish_chan ch pos) = ch_filter ch"
  "ch_filter_len (finish_chan ch pos) = ch_filter_len ch" "\<not> ch_reading (finish_chan ch pos)"
  "ch_release_pending (finish_chan ch pos) = ch_release_pending ch"
  "hold_area (finish_chan ch pos) = hold_area ch" "store_area (finish_chan ch pos) = store_area ch"
  "store_recs (finish_chan ch pos) = store_recs ch"
  by (simp_all add: finish_chan_def hold_area_def store_area_def store_recs_def Let_def
      cong: option.case_cong)

lemma finish_chan_pos:
  "ch_hold_len (finish_chan ch pos) = (if ch_hold_len ch \<le> pos then 0 else ch_hold_len ch)"
  "ch_hold_pos (finish_chan ch pos) = (if ch_hold_len ch \<le> pos then 0 else pos)"
  by (simp_all add: finish_chan_def Let_def)

lemma finish_holds:
  assumes ok: "chan_ok ifs ch" and len: "ch_hold_len ch \<noteq> 0" and k: "k \<le> length (hold_recs ch)"
    and pos: "unat pos = unat (ch_hold_pos ch) + aspan (take k (hold_recs ch))"
    and frame: "reader_frame ch ch'"
  shows "holds (hold_area (finish_chan ch' pos)) (unat (ch_hold_pos (finish_chan ch' pos)))
      (unat (ch_hold_len (finish_chan ch' pos)))
      (if ch_hold_len ch' = 0 then [] else drop k (hold_recs ch))"
    and "4 dvd unat (ch_hold_pos (finish_chan ch' pos))"
proof -
  obtain b where dvd: "4 dvd unat (ch_hold_pos ch)"
    and h: "holds (hold_area ch) (unat (ch_hold_pos ch)) (unat (ch_hold_len ch)) (hold_recs ch)"
    by (rule hold_data [OF ok len])
  have rest: "holds (hold_area ch) (unat pos) (unat (ch_hold_len ch)) (drop k (hold_recs ch))"
    and dvd': "4 dvd unat pos"
    using holds_drop [OF h dvd k] pos by simp_all
  have same: "hold_area ch' = hold_area ch" "ch_hold_len ch' = ch_hold_len ch \<or> ch_hold_len ch' = 0"
    using frame by (auto simp: reader_frame_def)
  have "ch_hold_len ch \<le> pos \<longleftrightarrow> drop k (hold_recs ch) = []"
    using holds_Nil_iff [OF rest] by (simp add: word_le_nat_alt)
  then show "holds (hold_area (finish_chan ch' pos)) (unat (ch_hold_pos (finish_chan ch' pos)))
      (unat (ch_hold_len (finish_chan ch' pos)))
      (if ch_hold_len ch' = 0 then [] else drop k (hold_recs ch))"
    using same rest len by (auto simp: finish_chan_pos)
  show "4 dvd unat (ch_hold_pos (finish_chan ch' pos))" using dvd' by (simp add: finish_chan_pos)
qed

lemma finish_chan_spec:
  assumes "chan_ok ifs0 ch" and "ch_hold_len ch \<noteq> 0" and "k \<le> length (hold_recs ch)"
    and "unat pos = unat (ch_hold_pos ch) + aspan (take k (hold_recs ch))"
    and "reader_frame ch ch'" and ok': "chan_ok ifs ch'"
  shows "chan_ok ifs (finish_chan ch' pos)"
    and "chan_queue (finish_chan ch' pos)
      = (if ch_hold_len ch' = 0 then [] else drop k (hold_recs ch)) @ store_recs ch'"
proof -
  note h = finish_holds [OF assms(1-5)]
  have st: "holds (store_area (finish_chan ch' pos)) 0 (unat (ch_store_len (finish_chan ch' pos)))
      (store_recs ch')"
    using ok' by (simp add: chan_ok_def recs_ok_def)
  note r = recs_okI [OF h(1) st]
  show "chan_queue (finish_chan ch' pos)
      = (if ch_hold_len ch' = 0 then [] else drop k (hold_recs ch)) @ store_recs ch'"
    using r by (simp add: chan_queue_def)
  have rd: "ch_reading ch'" using assms(5) by (simp add: reader_frame_def)
  then have op: "ch_open ch'" using ok' reading_open by blast
  have "bufs_ok (finish_chan ch' pos)"
    using ok' rd h(2) by (auto simp: chan_ok_def bufs_ok_def finish_chan_pos split: option.splits)
  moreover have "filter_ok (finish_chan ch' pos)" "iface_ok ifs (finish_chan ch' pos)"
    using ok' by (simp_all add: chan_ok_def filter_ok_def iface_ok_def cong: option.case_cong)
  ultimately show "chan_ok ifs (finish_chan ch' pos)" using r(1) ok' op by (simp add: chan_ok_def)
qed

lemma set_reading:
  assumes "chan_ok ifs ch" and "ch_bufbase ch = Some b" and "ch_open ch"
  shows "chan_ok ifs (ch\<lparr>ch_reading := True\<rparr>)" and "reader_frame ch (ch\<lparr>ch_reading := True\<rparr>)"
    and "store_recs (ch\<lparr>ch_reading := True\<rparr>) = store_recs ch"
  using assms
  by (auto simp: chan_ok_def bufs_ok_def recs_ok_def filter_ok_def iface_ok_def hold_recs_def
      store_recs_def hold_area_def store_area_def reader_frame_def split: option.splits)

lemma hold_bytes:
  assumes ok: "chan_ok ifs ch'" and frame: "reader_frame ch ch'" and area: "length (hold_area ch) = unat (ch_blen ch)"
    and off: "ch_hold ch = Some off" and n: "p + n \<le> unat (ch_blen ch)"
  obtains b' where "ch_bufbase ch' = Some b'" and "rd_range b' (off + p) n = Some (take n (drop p (hold_area ch)))"
proof -
  have rd: "ch_reading ch'" using frame by (simp add: reader_frame_def)
  then obtain b' where b': "ch_bufbase ch' = Some b'"
    using ok by (auto simp: chan_ok_def bufs_ok_def split: option.splits)
  obtain off' where "ch_hold ch' = Some off'" and a': "hold_area ch' = take (unat (ch_blen ch')) (drop off' b')"
    and le: "off' + unat (ch_blen ch') \<le> length b'"
    by (rule hold_mem_area [OF ok b'])
  then have "off' = off" "ch_blen ch' = ch_blen ch" "hold_area ch = take (unat (ch_blen ch)) (drop off b')"
    using frame off by (auto simp: reader_frame_def)
  then have "rd_range b' (off + p) n = Some (take n (drop p (hold_area ch)))"
    using n le by (simp add: rd_range_def drop_take min_absorb1 add.commute)
  with b' show thesis by (rule that)
qed

section \<open>One turn of the wait\<close>

text \<open>Turning the buffers shows the reader the same records in the same order.\<close>

lemma turned_chan:
  assumes ok: "chan_ok ifs ch" and op: "ch_open ch"
    and ch': "ch' = (if ch_hold_len ch = 0 \<and> 0 < ch_store_len ch then ami_bpf_rotate ch else ch)"
  shows "chan_ok ifs ch'" and "chan_queue ch' = chan_queue ch" and "ch_iface ch' = ch_iface ch"
    and "ch_reading ch' = ch_reading ch" and "ch_owner ch' = ch_owner ch"
    and "hold_recs ch' = (if ch_hold_len ch = 0 then store_recs ch else hold_recs ch)"
    and "ch_hold_len ch' = 0 \<longleftrightarrow> chan_queue ch = []"
proof -
  have parts: "bufs_ok ch" "recs_ok ch" using ok by (simp_all add: chan_ok_def)
  have empty: "store_recs ch = []" if "\<not> 0 < ch_store_len ch"
  proof -
    have "ch_store_len ch = 0" using that by (simp add: word_neq_0_conv [symmetric])
    then show ?thesis by (simp add: store_recs_def parse_area.simps)
  qed
  show "chan_ok ifs ch'" using ch' ok rotate_chan_ok [OF ok op] by simp
  show "chan_queue ch' = chan_queue ch"
    using ch' rotate_spec [OF parts] by (simp add: chan_queue_def)
  show recs: "hold_recs ch' = (if ch_hold_len ch = 0 then store_recs ch else hold_recs ch)"
    using ch' rotate_spec [OF parts] empty by auto
  show "ch_iface ch' = ch_iface ch" "ch_reading ch' = ch_reading ch" "ch_owner ch' = ch_owner ch"
    using ch' by (simp_all add: ami_bpf_rotate_def)
  have "holds (store_area ch) 0 (unat (ch_store_len ch)) (store_recs ch)"
    using parts by (simp add: recs_ok_def)
  then have "ch_store_len ch = 0 \<longleftrightarrow> store_recs ch = []"
    by (metis holds_Nil_iff le_zero_eq unat_eq_zero)
  moreover have "hold_recs ch \<noteq> []" if "ch_hold_len ch \<noteq> 0" using hold_data [OF ok that] by metis
  ultimately show "ch_hold_len ch' = 0 \<longleftrightarrow> chan_queue ch = []"
    using ch' rotate_spec(5) [OF parts] by (auto simp: chan_queue_def ami_bpf_rotate_def word_gt_0)
qed

lemma read_turn_spec:
  assumes inv: "bpf_inv st" and t: "read_turn st owner channel generation = (t, st')"
  shows "bpf_inv st'"
    and "t = Read_Return s \<Longrightarrow> s \<in> {0, AMI_BPF_ENXIO, AMI_BPF_EPERM}"
    and "t = Read_Data i \<Longrightarrow> ami_bpf_chan_get st owner channel = Inr i \<and>
      st' = set_chan st i (bs_chan st' ! i) \<and>
      bs_chan st' ! i = (if ch_hold_len (bs_chan st ! i) = 0 \<and> 0 < ch_store_len (bs_chan st ! i)
        then ami_bpf_rotate (bs_chan st ! i) else bs_chan st ! i) \<and> ch_hold_len (bs_chan st' ! i) \<noteq> 0"
proof -
  have "bpf_inv (set_chan st i (if ch_hold_len (bs_chan st ! i) = 0 \<and> 0 < ch_store_len (bs_chan st ! i)
        then ami_bpf_rotate (bs_chan st ! i) else bs_chan st ! i))"
    if "ami_bpf_chan_get st owner channel = Inr i" for i
    using turned_chan(1,3) [OF inv_chan [OF inv] _ refl] chan_get_Inr [OF that]
    by (intro inv_same_binding [OF inv]) simp_all
  moreover have "i < length (bs_chan st)" if "ami_bpf_chan_get st owner channel = Inr i" for i
    using chan_get_Inr(1) [OF that] inv by (simp add: bpf_inv_def)
  ultimately show "bpf_inv st'"
    and "t = Read_Return s \<Longrightarrow> s \<in> {0, AMI_BPF_ENXIO, AMI_BPF_EPERM}"
    and "t = Read_Data i \<Longrightarrow> ami_bpf_chan_get st owner channel = Inr i \<and>
      st' = set_chan st i (bs_chan st' ! i) \<and>
      bs_chan st' ! i = (if ch_hold_len (bs_chan st ! i) = 0 \<and> 0 < ch_store_len (bs_chan st ! i)
        then ami_bpf_rotate (bs_chan st ! i) else bs_chan st ! i) \<and> ch_hold_len (bs_chan st' ! i) \<noteq> 0"
    using t inv
    by (auto simp: read_turn_def ami_bpf_chan_get_def Let_def split: sum.splits if_splits)
qed

lemma read_wait_spec:
  "read_wait tk owner channel generation budget waited st = (r, st') \<Longrightarrow> bpf_inv st \<Longrightarrow>
   (\<And>n st. bpf_inv st \<Longrightarrow> bpf_inv (tk_wait tk n st)) \<Longrightarrow>
   bpf_inv st' \<and>
   (case r of Inl s \<Rightarrow> s \<in> {0, AMI_BPF_ENXIO, AMI_BPF_EPERM, AMI_BPF_EINTR}
    | Inr i \<Rightarrow> i < AMI_BPF_MAX_CHANNELS \<and> channel = int i \<and> ch_hold_len (bs_chan st' ! i) \<noteq> 0)"
proof (induction tk owner channel generation budget waited st arbitrary: r st' rule: read_wait.induct)
  case (1 tk owner channel generation budget waited st)
  obtain t st1 where t: "read_turn st owner channel generation = (t, st1)" by fastforce
  note ts = read_turn_spec [OF "1.prems"(2) t]
  show ?case
  proof (cases t)
    case (Read_Return s)
    then show ?thesis using "1.prems"(1) ts(1,2) t by (subst (asm) read_wait.simps) auto
  next
    case (Read_Data i)
    then show ?thesis using "1.prems"(1) ts(1) ts(3) [OF Read_Data] t chan_get_Inr
      by (subst (asm) read_wait.simps) (auto dest: chan_get_Inr)
  next
    case (Read_Wait m)
    show ?thesis
    proof (cases "budget \<le> waited \<or> tk_signals tk (unat waited) m \<noteq> 0")
      case True
      then show ?thesis using "1.prems"(1) ts(1) t Read_Wait
        by (subst (asm) read_wait.simps) (auto split: if_splits)
    next
      case False
      then have "read_wait tk owner channel generation budget (waited + AMI_BPF_WAIT_SLICE)
          (tk_wait tk (unat waited) st1) = (r, st')"
        using "1.prems"(1) t Read_Wait by (subst (asm) read_wait.simps) simp
      then show ?thesis using "1.IH" [OF t [symmetric] Read_Wait] False "1.prems"(3) ts(1) by blast
    qed
  qed
qed

lemma read_finish_inv:
  assumes "bpf_inv st" and "bpf_inv st2" and i: "i < AMI_BPF_MAX_CHANNELS"
    and "ch_hold_len (bs_chan st ! i) \<noteq> 0" and "k \<le> length (hold_recs (bs_chan st ! i))"
    and "unat pos = unat (ch_hold_pos (bs_chan st ! i)) + aspan (take k (hold_recs (bs_chan st ! i)))"
    and "reader_frame (bs_chan st ! i) (bs_chan st2 ! i)"
  shows "bpf_inv (read_finish st2 i pos)"
  unfolding read_finish_def
  by (rule inv_same_binding [OF assms(2) i
        finish_chan_spec(1) [OF inv_chan [OF assms(1) i] assms(4-7) inv_chan [OF assms(2) i]]]) simp

lemma deliver_parse:
  assumes ok: "chan_ok ifs ch" and "ch_hold_len ch \<noteq> 0" and rs: "rs = take k (hold_recs ch)"
    and le: "unat (ch_hold_pos ch) + span rs \<le> unat (ch_hold_len ch)"
  shows "length (take (span rs) (drop (unat (ch_hold_pos ch)) (hold_area ch))) = span rs \<and>
    parse_area (take (span rs) (drop (unat (ch_hold_pos ch)) (hold_area ch)) @ rest) 0 (span rs) = rs"
proof -
  obtain b where b: "ch_bufbase ch = Some b" "ch_hold_len ch \<le> ch_blen ch" "4 dvd unat (ch_hold_pos ch)"
    and h: "holds (hold_area ch) (unat (ch_hold_pos ch)) (unat (ch_hold_len ch)) (hold_recs ch)"
    by (rule hold_data [OF ok assms(2)])
  have "length (hold_area ch) = unat (ch_blen ch)" by (rule hold_mem_area [OF ok b(1)])
  then have len: "unat (ch_hold_len ch) \<le> length (hold_area ch)" using b(2) by (simp add: word_le_nat_alt)
  have "holds (take (span rs) (drop (unat (ch_hold_pos ch)) (hold_area ch))) 0 (span rs) rs"
    using le len unfolding rs by (intro batch_holds [OF h b(3)]) auto
  moreover have l: "length (take (span rs) (drop (unat (ch_hold_pos ch)) (hold_area ch))) = span rs"
    using le len by simp
  moreover have "holds (xs @ rest) q n r" if "holds xs q n r" "length xs = n" for xs q n r
    using that by (induction r arbitrary: q) auto
  ultimately show ?thesis using parse_holds by blast
qed

section \<open>Reading among other tasks\<close>

text \<open>
  What a reader of channel \<open>me\<close> relies on: the other tasks keep the table well formed, and
  while the channel is marked as being read they leave its hold buffer alone, except that
  they may empty it (\<^verbatim>\<open>BIOCFLUSH\<close>, \<^verbatim>\<open>BIOCSETF\<close>) or ask for the channel's release.
\<close>

locale bpf_others =
  fixes tk :: bpf_tasks and me :: nat
  assumes wait_inv: "bpf_inv st \<Longrightarrow> bpf_inv (tk_wait tk n st)"
    and copying_inv: "bpf_inv st \<Longrightarrow> me < AMI_BPF_MAX_CHANNELS \<Longrightarrow> ch_reading (bs_chan st ! me) \<Longrightarrow>
      bpf_inv (tk_copying tk st)"
    and copied_inv: "bpf_inv st \<Longrightarrow> me < AMI_BPF_MAX_CHANNELS \<Longrightarrow> ch_reading (bs_chan st ! me) \<Longrightarrow>
      bpf_inv (tk_copied tk st)"
    and releasing_inv: "bpf_inv st \<Longrightarrow> bpf_inv (tk_releasing tk st)"
    and copying_frame: "bpf_inv st \<Longrightarrow> me < AMI_BPF_MAX_CHANNELS \<Longrightarrow> ch_reading (bs_chan st ! me) \<Longrightarrow>
      reader_frame (bs_chan st ! me) (bs_chan (tk_copying tk st) ! me)"
    and copied_frame: "bpf_inv st \<Longrightarrow> me < AMI_BPF_MAX_CHANNELS \<Longrightarrow> ch_reading (bs_chan st ! me) \<Longrightarrow>
      reader_frame (bs_chan st ! me) (bs_chan (tk_copied tk st) ! me)"
begin

lemma copy_windows:
  assumes inv: "bpf_inv st" and i: "me < AMI_BPF_MAX_CHANNELS" and len0: "ch_hold_len (bs_chan st ! me) \<noteq> 0"
    and st1: "st1 = tk_copying tk (set_chan st me ((bs_chan st ! me)\<lparr>ch_reading := True\<rparr>))"
  shows "bpf_inv st1" and "bpf_inv (tk_copied tk st1)"
    and "reader_frame (bs_chan st ! me) (bs_chan st1 ! me)"
    and "reader_frame (bs_chan st ! me) (bs_chan (tk_copied tk st1) ! me)"
proof -
  let ?ch = "bs_chan st ! me"
  have ok: "chan_ok (bs_iface st) ?ch" by (rule inv_chan [OF inv i])
  obtain b where b: "ch_bufbase ?ch = Some b" "ch_open ?ch" by (rule hold_data [OF ok len0])
  have i': "me < length (bs_chan st)" using inv i by (simp add: bpf_inv_def)
  have inv0: "bpf_inv (set_chan st me (?ch\<lparr>ch_reading := True\<rparr>))"
    by (rule inv_same_binding [OF inv i set_reading(1) [OF ok b]]) simp
  have rd0: "ch_reading (bs_chan (set_chan st me (?ch\<lparr>ch_reading := True\<rparr>)) ! me)" using i' by simp
  show inv1: "bpf_inv st1" unfolding st1 by (rule copying_inv [OF inv0 i rd0])
  show f1: "reader_frame ?ch (bs_chan st1 ! me)"
    using set_reading(2) [OF ok b] copying_frame [OF inv0 i] i'
    unfolding st1 by (auto intro: reader_frame_trans)
  then show "bpf_inv (tk_copied tk st1)" using copied_inv [OF inv1 i] by (simp add: reader_frame_def)
  show "reader_frame ?ch (bs_chan (tk_copied tk st1) ! me)"
    using f1 copied_frame [OF inv1 i] by (auto intro: reader_frame_trans simp: reader_frame_def)
qed

text \<open>
  From the walk on: the caller gets the longest run of whole records of the hold buffer
  that fits, byte for byte as they were when the lock was dropped.
\<close>

lemma deliver_spec:
  assumes inv: "bpf_inv st" and i: "me < AMI_BPF_MAX_CHANNELS"
    and len0: "ch_hold_len (bs_chan st ! me) \<noteq> 0" and l: "0 < len" "len < 2 ^ 31" "len \<le> int (length mem)"
    and k: "k = fit_count (nat len) (hold_recs (bs_chan st ! me))" and "k \<noteq> 0"
    and n: "n = span (take k (hold_recs (bs_chan st ! me)))"
    and st2: "st2 = tk_copied tk (tk_copying tk (set_chan st me ((bs_chan st ! me)\<lparr>ch_reading := True\<rparr>)))"
  obtains pos where
    "read_deliver tk base st me addr mem len = Some (int n,
       take n (drop (unat (ch_hold_pos (bs_chan st ! me))) (hold_area (bs_chan st ! me))) @ drop n mem,
       (if ch_release_pending (bs_chan (read_finish st2 me pos) ! me)
        then ami_bpf_chan_release (tk_releasing tk (read_finish st2 me pos)) me False 0
        else read_finish st2 me pos))"
    and "unat pos = unat (ch_hold_pos (bs_chan st ! me)) + aspan (take k (hold_recs (bs_chan st ! me)))"
    and "unat (ch_hold_pos (bs_chan st ! me)) + n \<le> unat (ch_hold_len (bs_chan st ! me))"
proof -
  let ?ch = "bs_chan st ! me"
  define st1 where "st1 = tk_copying tk (set_chan st me (?ch\<lparr>ch_reading := True\<rparr>))"
  note win = copy_windows [OF inv i len0 st1_def]
  have ok: "chan_ok (bs_iface st) ?ch" by (rule inv_chan [OF inv i])
  obtain b where b: "ch_bufbase ?ch = Some b" "ch_hold_len ?ch \<le> ch_blen ?ch"
    by (rule hold_data [OF ok len0])
  obtain off where off: "ch_hold ?ch = Some off" "length (hold_area ?ch) = unat (ch_blen ?ch)"
    and bl: "blen_ok (ch_blen ?ch)"
    by (rule hold_mem_area [OF ok b(1)])
  obtain hold pos stop where w: "hold_mem ?ch = Some hold"
    "read_walk hold (ch_hold_pos ?ch) (ch_hold_len ?ch) (of_int len) (ch_hold_pos ?ch) (ch_hold_pos ?ch)
      = Some (pos, stop)"
    and pos: "unat pos = unat (ch_hold_pos ?ch) + aspan (take k (hold_recs ?ch))"
    and fin: "if k = 0 then stop = ch_hold_pos ?ch
         else ch_hold_pos ?ch < stop \<and> unat stop = unat (ch_hold_pos ?ch) + span (take k (hold_recs ?ch)) \<and>
              unat stop \<le> unat (ch_hold_len ?ch)"
    by (rule read_walk_chan [OF ok len0 l(1,2) k])
  have fin': "ch_hold_pos ?ch < stop" "unat stop = unat (ch_hold_pos ?ch) + n" "unat stop \<le> unat (ch_hold_len ?ch)"
    using fin \<open>k \<noteq> 0\<close> n by auto
  have nb: "unat (stop - ch_hold_pos ?ch) = n"
    using fin' by (subst unat_sub_le) (auto simp: word_le_nat_alt)
  have small: "n \<le> 0x8000" "unat (ch_hold_pos ?ch) + n \<le> unat (ch_blen ?ch)"
    using fin' b(2) bl by (auto simp: blen_ok_def word_le_nat_alt)
  have sg: "sint (stop - ch_hold_pos ?ch) = int n"
    using sint_small [of "stop - ch_hold_pos ?ch"] nb small(1) by simp
  have room: "n \<le> length mem" using fit_count_fits [of "nat len" "hold_recs ?ch"] k n l by simp
  obtain b' where b': "ch_bufbase (bs_chan st1 ! me) = Some b'"
    "rd_range b' (off + unat (ch_hold_pos ?ch)) n = Some (take n (drop (unat (ch_hold_pos ?ch)) (hold_area ?ch)))"
    by (rule hold_bytes [OF inv_chan [OF win(1) i] win(3) off(2,1) small(2)])
  have n_len: "n \<le> length (drop (unat (ch_hold_pos ?ch)) (hold_area ?ch))" using off(2) small(2) by simp
  have ne: "stop \<noteq> ch_hold_pos ?ch" using fin'(1) by auto
  show thesis
  proof (rule that [OF _ pos])
    show "unat (ch_hold_pos ?ch) + n \<le> unat (ch_hold_len ?ch)" using fin' by simp
    show "read_deliver tk base st me addr mem len = Some (int n,
       take n (drop (unat (ch_hold_pos ?ch)) (hold_area ?ch)) @ drop n mem,
       (if ch_release_pending (bs_chan (read_finish st2 me pos) ! me)
        then ami_bpf_chan_release (tk_releasing tk (read_finish st2 me pos)) me False 0
        else read_finish st2 me pos))"
      using w ne off(1) b' nb sg room n_len
      by (simp add: read_deliver_def read_mark_def copy_out_def Let_def st2 st1_def [symmetric] copy_bytes_take wr_range_def)
  qed
qed

lemma deliver_none:
  assumes "bpf_inv st" and "me < AMI_BPF_MAX_CHANNELS"
    and "ch_hold_len (bs_chan st ! me) \<noteq> 0" and "0 < len" and "len < 2 ^ 31"
    and "fit_count (nat len) (hold_recs (bs_chan st ! me)) = 0"
  shows "read_deliver tk base st me addr mem len = Some (AMI_BPF_EINVAL, mem, st)"
proof -
  obtain hold pos stop where "hold_mem (bs_chan st ! me) = Some hold"
    "read_walk hold (ch_hold_pos (bs_chan st ! me)) (ch_hold_len (bs_chan st ! me)) (of_int len)
       (ch_hold_pos (bs_chan st ! me)) (ch_hold_pos (bs_chan st ! me)) = Some (pos, stop)"
    "if (0::nat) = 0 then stop = ch_hold_pos (bs_chan st ! me) else True"
    by (rule read_walk_chan [OF inv_chan [OF assms(1,2)] assms(3-5) assms(6) [symmetric]]) simp
  then show ?thesis by (simp add: read_deliver_def read_mark_def)
qed

lemma deliver_shape:
  assumes inv: "bpf_inv st" and i: "me < AMI_BPF_MAX_CHANNELS"
    and len0: "ch_hold_len (bs_chan st ! me) \<noteq> 0" and l: "0 < len" "len < 2 ^ 31" "len \<le> int (length mem)"
  shows "\<exists>status mem' st'. read_deliver tk base st me addr mem len = Some (status, mem', st') \<and> bpf_inv st' \<and>
    (status \<in> {0, AMI_BPF_EINVAL, AMI_BPF_ENXIO, AMI_BPF_EPERM, AMI_BPF_EINTR} \<and> mem' = mem \<or>
     (\<exists>rs. rs \<noteq> [] \<and> status = int (span rs) \<and> status \<le> len \<and> parse_area mem' 0 (span rs) = rs \<and>
           drop (span rs) mem' = drop (span rs) mem))"
proof (cases "fit_count (nat len) (hold_recs (bs_chan st ! me)) = 0")
  case True
  then show ?thesis using deliver_none [OF inv i len0 l(1,2)] inv by simp
next
  case False
  let ?ch = "bs_chan st ! me"
  define rs where "rs = take (fit_count (nat len) (hold_recs ?ch)) (hold_recs ?ch)"
  define st2 where "st2 = tk_copied tk (tk_copying tk (set_chan st me (?ch\<lparr>ch_reading := True\<rparr>)))"
  note win = copy_windows [OF inv i len0 refl, folded st2_def]
  obtain p where d: "read_deliver tk base st me addr mem len = Some (int (span rs),
       take (span rs) (drop (unat (ch_hold_pos ?ch)) (hold_area ?ch)) @ drop (span rs) mem,
       (if ch_release_pending (bs_chan (read_finish st2 me p) ! me)
        then ami_bpf_chan_release (tk_releasing tk (read_finish st2 me p)) me False 0
        else read_finish st2 me p))"
    and p: "unat p = unat (ch_hold_pos ?ch) + aspan rs"
    and le: "unat (ch_hold_pos ?ch) + span rs \<le> unat (ch_hold_len ?ch)"
    by (rule deliver_spec [OF inv i len0 l refl False refl st2_def, folded rs_def])
  have fin: "bpf_inv (read_finish st2 me p)"
    using p fit_count_le by (intro read_finish_inv [OF inv win(2) i len0 _ _ win(4)]) (auto simp: rs_def)
  have ne: "rs \<noteq> []" using False fit_count_le [of "nat len" "hold_recs ?ch"] by (auto simp: rs_def)
  have "int (span rs) \<le> len" using fit_count_fits [of "nat len" "hold_recs ?ch"] l(1) by (simp add: rs_def)
  moreover have "parse_area (take (span rs) (drop (unat (ch_hold_pos ?ch)) (hold_area ?ch)) @ drop (span rs) mem)
      0 (span rs) = rs"
    using deliver_parse [OF inv_chan [OF inv i] len0 rs_def le] by blast
  moreover have "drop (span rs) (take (span rs) (drop (unat (ch_hold_pos ?ch)) (hold_area ?ch)) @ drop (span rs) mem)
      = drop (span rs) mem"
    using deliver_parse [OF inv_chan [OF inv i] len0 rs_def le] by simp
  ultimately show ?thesis
    using d ne fin release_inv [OF releasing_inv [OF fin] i] by auto
qed

text \<open>
  The whole call, whatever the others do: it returns, the table is well formed, and the
  caller's memory is as it was or starts with whole records.
\<close>

lemma read_spec:
  assumes inv: "bpf_inv st" and me: "channel = int me"
    and l: "len < 2 ^ 31" "len \<le> int (length mem)"
  shows "\<exists>status mem' st'. ami_bpf_read tk base st owner channel (Some (addr, mem)) len
      = Some (status, mem', st') \<and> bpf_inv st' \<and>
    (status \<in> {0, AMI_BPF_EINVAL, AMI_BPF_ENXIO, AMI_BPF_EPERM, AMI_BPF_EINTR} \<and> mem' = mem \<or>
     (\<exists>rs. rs \<noteq> [] \<and> status = int (span rs) \<and> status \<le> len \<and> parse_area mem' 0 (span rs) = rs \<and>
           drop (span rs) mem' = drop (span rs) mem))"
proof (cases "ami_bpf_chan_get st owner channel")
  case (Inl s)
  then have "s \<in> {AMI_BPF_ENXIO, AMI_BPF_EPERM}" by (auto simp: ami_bpf_chan_get_def split: if_splits)
  then show ?thesis using Inl inv by (auto simp: ami_bpf_read_def)
next
  case get: (Inr i)
  show ?thesis
  proof (cases "len \<le> 0")
    case True
    then show ?thesis using get inv by (simp add: ami_bpf_read_def)
  next
    case pos: False
    obtain r st1 where w: "read_wait tk owner channel (bs_gen st ! i) (read_budget (bs_chan st ! i)) 0 st = (r, st1)"
      by fastforce
    note ws = read_wait_spec [OF w inv wait_inv]
    show ?thesis
    proof (cases r)
      case (Inl s)
      then show ?thesis using get pos w ws by (auto simp: ami_bpf_read_def)
    next
      case (Inr j)
      then have j: "j = me" "me < AMI_BPF_MAX_CHANNELS" "ch_hold_len (bs_chan st1 ! me) \<noteq> 0" "bpf_inv st1"
        using ws me by auto
      have "ami_bpf_read tk base st owner channel (Some (addr, mem)) len
          = read_deliver tk base st1 me addr mem len"
        using get pos w Inr j(1) by (simp add: ami_bpf_read_def)
      then show ?thesis using deliver_shape [OF j(4,2,3) _ l] pos by simp
    qed
  qed
qed

end

section \<open>Reading alone\<close>

text \<open>Nobody else runs; signals may still be pending for the reader.\<close>

definition quiet_tasks :: "(nat \<Rightarrow> ULONG \<Rightarrow> ULONG) \<Rightarrow> bpf_tasks" where
  "quiet_tasks sigs = \<lparr>tk_wait = \<lambda>n st. st, tk_signals = sigs, tk_copying = \<lambda>st. st,
     tk_copied = \<lambda>st. st, tk_releasing = \<lambda>st. st\<rparr>"

interpretation quiet: bpf_others "quiet_tasks sigs" me for sigs me
  by unfold_locales (auto simp: quiet_tasks_def reader_frame_refl)

lemma quiet_simps [simp]:
  "tk_wait (quiet_tasks sigs) n st = st" "tk_signals (quiet_tasks sigs) = sigs"
  "tk_copying (quiet_tasks sigs) st = st" "tk_copied (quiet_tasks sigs) st = st"
  "tk_releasing (quiet_tasks sigs) st = st"
  by (simp_all add: quiet_tasks_def)

text \<open>With data waiting the first turn of the loop ends it.\<close>

lemma read_wait_data:
  assumes inv: "bpf_inv st" and get: "ami_bpf_chan_get st owner channel = Inr i"
    and "\<not> ch_reading (bs_chan st ! i)" and q: "chan_queue (bs_chan st ! i) \<noteq> []"
  obtains ch' where "read_wait tk owner channel (bs_gen st ! i) budget waited st = (Inr i, set_chan st i ch')"
    and "ch' = (if ch_hold_len (bs_chan st ! i) = 0 \<and> 0 < ch_store_len (bs_chan st ! i)
                then ami_bpf_rotate (bs_chan st ! i) else bs_chan st ! i)"
proof -
  define ch' where "ch' = (if ch_hold_len (bs_chan st ! i) = 0 \<and> 0 < ch_store_len (bs_chan st ! i)
                then ami_bpf_rotate (bs_chan st ! i) else bs_chan st ! i)"
  note c = chan_get_Inr [OF get]
  have "ch_hold_len ch' \<noteq> 0"
    using turned_chan(7) [OF inv_chan [OF inv c(1)] c(2) ch'_def] q by simp
  then have "read_turn st owner channel (bs_gen st ! i) = (Read_Data i, set_chan st i ch')"
    using get assms(3) by (simp add: read_turn_def Let_def ch'_def)
  then show thesis using ch'_def by (intro that) (simp_all add: read_wait.simps)
qed

lemma deliver_alone:
  assumes inv: "bpf_inv st" and i: "i < AMI_BPF_MAX_CHANNELS" and len0: "ch_hold_len (bs_chan st ! i) \<noteq> 0"
    and np: "\<not> ch_release_pending (bs_chan st ! i)"
    and l: "0 < len" "len < 2 ^ 31" "len \<le> int (length mem)"
    and k: "k = fit_count (nat len) (hold_recs (bs_chan st ! i))" and "k \<noteq> 0"
    and n: "n = span (take k (hold_recs (bs_chan st ! i)))"
  shows "\<exists>mem' st'. read_deliver (quiet_tasks sigs) base st i addr mem len = Some (int n, mem', st') \<and>
    bpf_inv st' \<and> chan_queue (bs_chan st' ! i) = drop k (chan_queue (bs_chan st ! i)) \<and>
    parse_area mem' 0 n = take k (hold_recs (bs_chan st ! i)) \<and> drop n mem' = drop n mem"
proof -
  let ?ch = "bs_chan st ! i"
  let ?st2 = "set_chan st i (?ch\<lparr>ch_reading := True\<rparr>)"
  have st2: "?st2 = tk_copied (quiet_tasks sigs) (tk_copying (quiet_tasks sigs) ?st2)" by simp
  obtain p where d: "read_deliver (quiet_tasks sigs) base st i addr mem len = Some (int n,
       take n (drop (unat (ch_hold_pos ?ch)) (hold_area ?ch)) @ drop n mem,
       (if ch_release_pending (bs_chan (read_finish ?st2 i p) ! i)
        then ami_bpf_chan_release (read_finish ?st2 i p) i False 0 else read_finish ?st2 i p))"
    and p: "unat p = unat (ch_hold_pos ?ch) + aspan (take k (hold_recs ?ch))"
    and le: "unat (ch_hold_pos ?ch) + n \<le> unat (ch_hold_len ?ch)"
    by (rule quiet.deliver_spec [OF inv i len0 l k \<open>k \<noteq> 0\<close> n st2, unfolded quiet_simps])
  have ok: "chan_ok (bs_iface st) ?ch" by (rule inv_chan [OF inv i])
  have i': "i < length (bs_chan st)" using inv i by (simp add: bpf_inv_def)
  obtain b where b: "ch_bufbase ?ch = Some b" "ch_open ?ch" by (rule hold_data [OF ok len0])
  note sr = set_reading [OF ok b]
  have kl: "k \<le> length (hold_recs ?ch)" using k fit_count_le by simp
  note fin = finish_chan_spec(2) [OF ok len0 kl p sr(2,1)]
  have "bpf_inv ?st2" by (rule inv_same_binding [OF inv i sr(1)]) simp
  then have "bpf_inv (read_finish ?st2 i p)"
    using sr(2) i' by (intro read_finish_inv [OF inv _ i len0 kl p]) simp_all
  moreover have "chan_queue (bs_chan (read_finish ?st2 i p) ! i) = drop k (chan_queue ?ch)"
    using fin i' len0 sr(3) kl by (simp add: read_finish_def chan_queue_def)
  ultimately show ?thesis
    using d np i' deliver_parse [OF ok len0 refl le [unfolded n], of "drop n mem"] n
    by (simp add: read_finish_def)
qed

lemma read_alone:
  assumes inv: "bpf_inv st" and get: "ami_bpf_chan_get st owner channel = Inr i" and "owner \<noteq> 0"
    and "\<not> ch_reading (bs_chan st ! i)" and q: "chan_queue (bs_chan st ! i) \<noteq> []"
    and l: "0 < len" "len < 2 ^ 31" "len \<le> int (length mem)"
    and batch: "batch = (if ch_hold_len (bs_chan st ! i) = 0 then store_recs (bs_chan st ! i)
                         else hold_recs (bs_chan st ! i))"
    and k: "k = fit_count (nat len) batch"
  shows "\<exists>mem' st'. ami_bpf_read (quiet_tasks sigs) base st owner channel (Some (addr, mem)) len
      = Some (if k = 0 then AMI_BPF_EINVAL else int (span (take k batch)), mem', st') \<and> bpf_inv st' \<and>
    chan_queue (bs_chan st' ! i) = drop k (chan_queue (bs_chan st ! i)) \<and>
    parse_area mem' 0 (span (take k batch)) = take k batch \<and>
    drop (span (take k batch)) mem' = drop (span (take k batch)) mem"
proof -
  note c = chan_get_Inr [OF get]
  obtain ch' where w: "read_wait (quiet_tasks sigs) owner channel (bs_gen st ! i)
      (read_budget (bs_chan st ! i)) 0 st = (Inr i, set_chan st i ch')"
    and ch': "ch' = (if ch_hold_len (bs_chan st ! i) = 0 \<and> 0 < ch_store_len (bs_chan st ! i)
                then ami_bpf_rotate (bs_chan st ! i) else bs_chan st ! i)"
    by (rule read_wait_data [OF inv get assms(4) q])
  note t = turned_chan [OF inv_chan [OF inv c(1)] c(2) ch']
  let ?st = "set_chan st i ch'"
  have inv1: "bpf_inv ?st" by (rule inv_same_binding [OF inv c(1) t(1)]) (simp add: t)
  have cur: "bs_chan ?st ! i = ch'" using inv c(1) by (simp add: bpf_inv_def)
  have len0: "ch_hold_len (bs_chan ?st ! i) \<noteq> 0" using t(7) q cur by simp
  have recs: "hold_recs (bs_chan ?st ! i) = batch" using t(6) batch cur by simp
  have rd: "ami_bpf_read (quiet_tasks sigs) base st owner channel (Some (addr, mem)) len
      = read_deliver (quiet_tasks sigs) base ?st i addr mem len"
    using get w l(1) by (simp add: ami_bpf_read_def)
  show ?thesis
  proof (cases "k = 0")
    case True
    then have "read_deliver (quiet_tasks sigs) base ?st i addr mem len = Some (AMI_BPF_EINVAL, mem, ?st)"
      using k recs by (intro quiet.deliver_none [OF inv1 c(1) len0 l(1,2)]) simp
    then show ?thesis using rd True inv1 cur t(2) by (simp add: parse_area.simps)
  next
    case False
    have "\<not> ch_release_pending (bs_chan ?st ! i)"
      using t(1,5) \<open>owner \<noteq> 0\<close> c(3) cur by (auto simp: chan_ok_def)
    then show ?thesis
      using deliver_alone [OF inv1 c(1) len0 _ l _ False refl, of sigs base addr] k recs rd False cur t(2) by simp
  qed
qed

text \<open>With nothing to read the loop polls until the budget is spent or a signal is pending.\<close>

lemma read_turn_empty:
  assumes inv: "bpf_inv st" and get: "ami_bpf_chan_get st owner channel = Inr i"
    and "\<not> ch_reading (bs_chan st ! i)" and q: "chan_queue (bs_chan st ! i) = []"
  shows "read_turn st owner channel (bs_gen st ! i) = (Read_Wait (ch_irq_mask (bs_chan st ! i)), st)"
proof -
  note c = chan_get_Inr [OF get]
  note t = turned_chan(7) [OF inv_chan [OF inv c(1)] c(2) refl]
  have "\<not> (ch_hold_len (bs_chan st ! i) = 0 \<and> 0 < ch_store_len (bs_chan st ! i))"
    using t q by (auto simp: ami_bpf_rotate_def)
  moreover have "set_chan st i (bs_chan st ! i) = st" by (simp add: set_chan_def)
  ultimately show ?thesis using t q get assms(3) by (auto simp: read_turn_def Let_def)
qed

lemma read_wait_idle:
  assumes "read_turn st owner channel generation = (Read_Wait m, st)"
  shows "read_wait (quiet_tasks sigs) owner channel generation budget waited st
    = (Inl (if \<exists>n. unat waited \<le> n \<and> n < unat budget \<and> sigs n m \<noteq> 0 then AMI_BPF_EINTR else 0), st)"
proof (induction "unat budget - unat waited" arbitrary: waited)
  case 0
  then have "budget \<le> waited" by (simp add: word_le_nat_alt)
  then show ?case using assms 0 by (subst read_wait.simps) auto
next
  case (Suc d)
  then have lt: "unat waited < unat budget" by simp
  then have inc: "unat (waited + AMI_BPF_WAIT_SLICE) = Suc (unat waited)"
    unfolding AMI_BPF_WAIT_SLICE_def by (intro unat_Suc_less [of waited budget]) (simp add: word_less_nat_alt)
  have "read_wait (quiet_tasks sigs) owner channel generation budget (waited + AMI_BPF_WAIT_SLICE) st
    = (Inl (if \<exists>n. Suc (unat waited) \<le> n \<and> n < unat budget \<and> sigs n m \<noteq> 0 then AMI_BPF_EINTR else 0), st)"
    using Suc.hyps(1) [of "waited + AMI_BPF_WAIT_SLICE"] Suc.hyps(2) inc by simp
  moreover have "(\<exists>n. unat waited \<le> n \<and> n < unat budget \<and> sigs n m \<noteq> 0)
    \<longleftrightarrow> sigs (unat waited) m \<noteq> 0 \<or> (\<exists>n. Suc (unat waited) \<le> n \<and> n < unat budget \<and> sigs n m \<noteq> 0)"
    using lt by (metis Suc_le_eq le_eq_less_or_eq)
  ultimately show ?case using assms lt by (subst read_wait.simps) (simp add: word_le_nat_alt)
qed

lemma ticks_of_usec:
  fixes usec :: ULONG
  shows "unat (if usec mod 20000 \<noteq> 0 then usec div 20000 + 1 else usec div 20000)
    = (unat usec + 19999) div 20000"
proof -
  have u: "unat usec < 2 ^ 32" using unat_lt2p [of usec] by simp
  have dv: "unat (usec div 20000) = unat usec div 20000" by (simp add: unat_div)
  have md: "usec mod 20000 = 0 \<longleftrightarrow> unat usec mod 20000 = 0"
  proof -
    have "unat (usec mod 20000) = unat usec mod 20000" by (simp add: unat_mod)
    then show ?thesis by (metis unat_eq_zero)
  qed
  have inc: "unat (usec div 20000 + 1) = unat usec div 20000 + 1"
    using dv u by (subst unat_add_nowrap) auto
  show ?thesis
  proof (cases "unat usec mod 20000 = 0")
    case True
    then obtain q where q: "unat usec = 20000 * q" by (auto elim: dvdE simp: mod_eq_0_iff_dvd)
    have "(unat usec + 19999) div 20000 = unat usec div 20000" unfolding q by simp
    then show ?thesis using True md dv by simp
  next
    case False
    define q r where "q = unat usec div 20000" and "r = unat usec mod 20000"
    have u: "unat usec = 20000 * q + r" and r: "r \<noteq> 0" "r < 20000" using False by (simp_all add: q_def r_def)
    have "(r + 19999) div 20000 = 1" using r by (intro div_nat_eqI) simp_all
    then have "(20000 * q + (r + 19999)) div 20000 = q + 1" by simp
    then have "(unat usec + 19999) div 20000 = unat usec div 20000 + 1"
      unfolding q_def [symmetric] using u by (simp add: add.assoc)
    then show ?thesis using False md inc by simp
  qed
qed

lemma saturating_ticks:
  fixes sec f :: ULONG
  assumes "unat f \<le> 214749"
  shows "unat (if (NOT 0 - f) div 50 < sec then NOT 0 else sec * 50 + f)
    = min (2 ^ 32 - 1) (unat sec * 50 + unat f)"
proof -
  have top: "unat (NOT 0 :: ULONG) = 2 ^ 32 - 1" by (simp add: unsigned_minus_1_eq_mask mask_eq_exp_minus_1)
  have "f \<le> NOT 0" by simp
  then have m: "unat (NOT 0 - f) = 2 ^ 32 - 1 - unat f" using top by (simp only: unat_sub_le)
  have q: "(NOT 0 - f) div 50 < sec \<longleftrightarrow> (2 ^ 32 - 1 - unat f) div 50 < unat sec"
    unfolding word_less_nat_alt unat_div m by simp
  show ?thesis
  proof (cases "(2 ^ 32 - 1 - unat f) div 50 < unat sec")
    case True
    then have "\<not> unat sec * 50 \<le> 2 ^ 32 - 1 - unat f"
      using less_eq_div_iff_mult_less_eq [of 50 "unat sec" "2 ^ 32 - 1 - unat f"] by linarith
    then have "2 ^ 32 - 1 < unat sec * 50 + unat f" by simp
    then show ?thesis using True q top by simp
  next
    case False
    then have "unat sec * 50 \<le> 2 ^ 32 - 1 - unat f"
      using less_eq_div_iff_mult_less_eq [of 50 "unat sec" "2 ^ 32 - 1 - unat f"] by linarith
    then have le: "unat sec * 50 + unat f \<le> 2 ^ 32 - 1" using assms by simp
    then have "unat (sec * 50) = unat sec * 50" by (simp add: unat_word_ariths)
    then have "unat (sec * 50 + f) = unat sec * 50 + unat f"
      using le by (subst unat_add_nowrap) simp_all
    then show ?thesis using False q le by simp
  qed
qed

lemma buffered_exact:
  assumes "chan_ok ifs ch"
  shows "unat (ami_bpf_buffered ch) = unat (ch_hold_len ch) - unat (ch_hold_pos ch) + unat (ch_store_len ch)"
    and "unat (ch_hold_pos ch) < unat (ch_hold_len ch) \<or> unat (ch_hold_len ch) = 0"
proof -
  have b: "unat (ch_hold_pos ch) \<le> unat (ch_hold_len ch)" "unat (ch_hold_len ch) \<le> 0x8000"
      "unat (ch_store_len ch) \<le> 0x8000"
    using assms by (auto simp: chan_ok_def bufs_ok_def blen_ok_def word_nat split: option.splits)
  then have "unat (ch_hold_len ch - ch_hold_pos ch) = unat (ch_hold_len ch) - unat (ch_hold_pos ch)"
    by (intro unat_sub_le) (simp add: word_le_nat_alt)
  then show "unat (ami_bpf_buffered ch)
      = unat (ch_hold_len ch) - unat (ch_hold_pos ch) + unat (ch_store_len ch)"
    unfolding ami_bpf_buffered_def using b by (subst unat_add_nowrap) simp_all
  show "unat (ch_hold_pos ch) < unat (ch_hold_len ch) \<or> unat (ch_hold_len ch) = 0"
    using assms by (auto simp: chan_ok_def bufs_ok_def word_nat split: option.splits)
qed

section \<open>Properties\<close>

definition sample_recs :: "bpf_rec list" where
  "sample_recs = [\<lparr>rc_sec = 1, rc_usec = 2, rc_caplen = 3, rc_datalen = 60, rc_data = [7, 8, 9]\<rparr>,
     \<lparr>rc_sec = 3, rc_usec = 4, rc_caplen = 1, rc_datalen = 60, rc_data = [5]\<rparr>]"

definition sample_full :: bpf_state where
  "sample_full = set_chan sample_state 0 (sample_chan\<lparr>ch_store_len := 45,
     ch_bufbase := Some (rec_bytes (sample_recs ! 0) @ [0] @ rec_bytes (sample_recs ! 1) @ replicate 83 0)\<rparr>)"

lemma sample_full_facts:
  "bpf_inv sample_full" "ami_bpf_chan_get sample_full 7 0 = Inr 0" "\<not> ch_reading (bs_chan sample_full ! 0)"
  "chan_queue (bs_chan sample_full ! 0) = sample_recs" "store_recs (bs_chan sample_full ! 0) = sample_recs"
  "ch_hold_len (bs_chan sample_full ! 0) = 0"
  by code_simp+

text \<open>
  C4. A read returns captured packets whole and in order. With records waiting and nobody
  else using the table, \<^verbatim>\<open>bpf_read\<close> hands over the first \<open>k\<close> records of the channel's queue,
  laid out so that the reader's own walk over the headers finds exactly these; it removes
  exactly these from the queue. They come out of one buffer only, \<open>batch\<close>: the hold buffer, or the
  store buffer when the hold buffer is empty; within it \<open>k\<close> is as large as the length of the call
  allows, and records behind it stay for the next read even if they would have fitted. When not even
  one record fits it answers \<^verbatim>\<open>EINVAL\<close> and consumes nothing. The rest of the caller's memory is
  untouched.
\<close>

theorem bpf_read_fifo:
  assumes "bpf_inv st" and "ami_bpf_chan_get st owner channel = Inr i" and "owner \<noteq> 0"
    and "\<not> ch_reading (bs_chan st ! i)" and "chan_queue (bs_chan st ! i) \<noteq> []"
    and "0 < len" and "len < 2 ^ 31" and "len \<le> int (length mem)"
    and "batch = (if ch_hold_len (bs_chan st ! i) = 0 then store_recs (bs_chan st ! i)
                  else hold_recs (bs_chan st ! i))"
  shows "\<exists>k mem' st'. ami_bpf_read (quiet_tasks sigs) base st owner channel (Some (addr, mem)) len
      = Some (if k = 0 then AMI_BPF_EINVAL else int (span (take k batch)), mem', st') \<and> bpf_inv st' \<and>
    k \<le> length batch \<and> int (span (take k batch)) \<le> len \<and>
    (k < length batch \<longrightarrow> len < int (span (take (Suc k) batch))) \<and>
    parse_area mem' 0 (span (take k batch)) = take k (chan_queue (bs_chan st ! i)) \<and>
    chan_queue (bs_chan st' ! i) = drop k (chan_queue (bs_chan st ! i)) \<and>
    drop (span (take k batch)) mem' = drop (span (take k batch)) mem"
proof -
  let ?k = "fit_count (nat len) batch"
  have parts: "bufs_ok (bs_chan st ! i)" "recs_ok (bs_chan st ! i)"
    using inv_chan [OF assms(1) chan_get_Inr(1) [OF assms(2)]] by (simp_all add: chan_ok_def)
  have "take ?k (chan_queue (bs_chan st ! i)) = take ?k batch"
    using assms(9) rotate_spec(5) [OF parts] fit_count_le [of "nat len" batch] by (auto simp: chan_queue_def)
  moreover have "int (span (take ?k batch)) \<le> len" using fit_count_fits [of "nat len" batch] assms(6) by simp
  moreover have "?k < length batch \<longrightarrow> len < int (span (take (Suc ?k) batch))"
    using fit_count_max [of "nat len" batch] by auto
  ultimately show ?thesis
    using read_alone [OF assms refl, of sigs base addr] fit_count_le [of "nat len" batch]
    by (intro exI [of _ ?k]) auto
qed

theorem bpf_read_fifo_witness:
  "\<exists>mem' st'. ami_bpf_read (quiet_tasks (\<lambda>_ _. 0)) 0 sample_full 7 0 (Some (0, replicate 32 0)) 32
     = Some (23, mem', st') \<and> parse_area mem' 0 23 = [sample_recs ! 0] \<and>
     chan_queue (bs_chan st' ! 0) = [sample_recs ! 1]"
proof -
  have batch: "sample_recs = (if ch_hold_len (bs_chan sample_full ! 0) = 0
      then store_recs (bs_chan sample_full ! 0) else hold_recs (bs_chan sample_full ! 0))"
    and ne: "chan_queue (bs_chan sample_full ! 0) \<noteq> []"
    using sample_full_facts by (simp_all add: sample_recs_def)
  have spans: "span (take 1 sample_recs) = 23" "span (take 2 sample_recs) = 45" "length sample_recs = 2"
    by code_simp+
  obtain k mem' st' where r: "ami_bpf_read (quiet_tasks (\<lambda>_ _. 0)) 0 sample_full 7 0 (Some (0, replicate 32 0)) 32
      = Some (if k = 0 then -1 else int (span (take k sample_recs)), mem', st')"
    and k: "k \<le> 2" "int (span (take k sample_recs)) \<le> 32" "k < 2 \<longrightarrow> 32 < int (span (take (Suc k) sample_recs))"
    and q: "parse_area mem' 0 (span (take k sample_recs)) = take k sample_recs"
      "chan_queue (bs_chan st' ! 0) = drop k sample_recs"
    using bpf_read_fifo [OF sample_full_facts(1,2) _ sample_full_facts(3) ne _ _ _ batch, of 32 "replicate 32 0"
        "\<lambda>_ _. 0" 0 0] sample_full_facts(4) spans(3) by auto
  have "k = 0 \<or> k = 1 \<or> k = 2" using k(1) by auto
  then have "k = 1" using k spans by auto
  then show ?thesis using r q spans(1) by (simp add: sample_recs_def)
qed

text \<open>
  C31. A read that finds nothing waits for its timeout and no longer: it polls once per
  tick of its budget and answers 0, or \<^verbatim>\<open>EINTR\<close> if at one of these polls a signal of the
  interrupt mask is pending. It changes nothing.
\<close>

theorem bpf_read_timeout:
  assumes "bpf_inv st" and "ami_bpf_chan_get st owner channel = Inr i"
    and "\<not> ch_reading (bs_chan st ! i)" and "chan_queue (bs_chan st ! i) = []" and "0 < len"
  shows "ami_bpf_read (quiet_tasks sigs) base st owner channel (Some (addr, mem)) len
    = Some (if \<exists>n < unat (read_budget (bs_chan st ! i)). sigs n (ch_irq_mask (bs_chan st ! i)) \<noteq> 0
            then AMI_BPF_EINTR else 0, mem, st)"
  using read_wait_idle [OF read_turn_empty [OF assms(1-4)], of sigs "read_budget (bs_chan st ! i)" 0]
    assms(2,5)
  by (simp add: ami_bpf_read_def)

theorem bpf_read_timeout_witness:
  "ami_bpf_read (quiet_tasks (\<lambda>_ _. 0)) 0 sample_state 7 0 (Some (0, [1, 2])) 2 = Some (0, [1, 2], sample_state)"
proof -
  have "ami_bpf_chan_get sample_state 7 0 = Inr 0" "\<not> ch_reading (bs_chan sample_state ! 0)"
    "chan_queue (bs_chan sample_state ! 0) = []" by code_simp+
  then show ?thesis
    using bpf_read_timeout [OF sample_state_inv, of 7 0 0 2 "\<lambda>_ _. 0" 0 0 "[1, 2]"] by simp
qed

text \<open>
  The wait budget of a read is the channel's timeout in ticks of a fiftieth of a second,
  rounded up to a whole tick, and saturates at the largest \<^verbatim>\<open>ULONG\<close> instead of wrapping, for
  every pair of seconds and microseconds, normalised or not.
\<close>

lemma bpf_read_budget_exact:
  "unat (read_budget ch)
   = min (2 ^ 32 - 1) (unat (ch_rtimeout_sec ch) * 50 + (unat (ch_rtimeout_usec ch) + 19999) div 20000)"
proof -
  define f where "f = (if ch_rtimeout_usec ch mod 20000 \<noteq> 0 then ch_rtimeout_usec ch div 20000 + 1
    else ch_rtimeout_usec ch div 20000)"
  have f: "unat f = (unat (ch_rtimeout_usec ch) + 19999) div 20000"
    unfolding f_def by (rule ticks_of_usec)
  then have fs: "unat f \<le> 214749" using unat_lt2p [of "ch_rtimeout_usec ch"] by simp
  have "read_budget ch = (if (NOT 0 - f) div 50 < ch_rtimeout_sec ch then NOT 0
    else ch_rtimeout_sec ch * 50 + f)"
    by (simp add: read_budget_def AMI_BPF_TICKS_PER_SEC_def Let_def f_def)
  then show ?thesis unfolding f [symmetric] by (simp only: saturating_ticks [OF fs])
qed

text \<open>
  \<^verbatim>\<open>bpf_data_waiting\<close> tells the truth: it answers 1 exactly when a read would find a
  record, and 0 exactly when the queue is empty.
\<close>

lemma bpf_data_waiting_iff:
  assumes "bpf_inv st" and "ami_bpf_chan_get st owner channel = Inr i"
  shows "ami_bpf_data_waiting st owner channel = (if chan_queue (bs_chan st ! i) = [] then 0 else 1)"
proof -
  let ?ch = "bs_chan st ! i"
  have ok: "chan_ok (bs_iface st) ?ch" using inv_chan [OF assms(1) chan_get_Inr(1) [OF assms(2)]] .
  have "ami_bpf_buffered ?ch = 0 \<longleftrightarrow> ch_hold_len ?ch = 0 \<and> ch_store_len ?ch = 0"
    unfolding unat_eq_zero [symmetric] using buffered_exact [OF ok] by linarith
  moreover have "ch_hold_len ?ch = 0 \<and> ch_store_len ?ch = 0 \<longleftrightarrow> chan_queue ?ch = []"
    using turned_chan(7) [OF ok chan_get_Inr(2) [OF assms(2)] refl]
    by (auto simp: ami_bpf_rotate_def word_gt_0 split: if_splits)
  ultimately show ?thesis using assms(2) by (simp add: ami_bpf_data_waiting_def)
qed

end
