(* ===== verification/Bpf_Ioctl.thy ===== *)
theory Bpf_Ioctl
  imports Bpf_Read
begin

text \<open>
  The control calls of \<^verbatim>\<open>src/bpf/bpf_channel.c\<close>: \<^verbatim>\<open>ami_bpf_ioctl\<close> with one definition for each
  command, \<^verbatim>\<open>ami_bpf_write\<close>, the signal masks, and the errno mapping of
  \<^verbatim>\<open>src/bsdsocket/bpf.c\<close>.

  An ioctl checks the handle, drops the lock and takes it again in the command; the two
  commands that allocate drop it a second time between the snapshot and the commit. What
  the other tasks do in window \<open>n\<close> is \<open>oth n\<close>. The allocator is an argument: \<open>alloc n\<close> is the
  memory \<^verbatim>\<open>ami_alloc(n)\<close> returns, \<open>None\<close> when it refuses.
\<close>

section \<open>Command codes\<close>

definition IOC :: "ULONG \<Rightarrow> ULONG \<Rightarrow> ULONG \<Rightarrow> ULONG \<Rightarrow> ULONG" where
  "IOC inout grp num len = inout OR push_bit 16 (len AND 0x1fff) OR push_bit 8 grp OR num"

definition AMI_BPF_CMD :: "ULONG \<Rightarrow> ULONG" where
  "AMI_BPF_CMD c = c AND (0xe0000000 OR 0x0000FFFF)"

definition BIOCGBLEN :: ULONG where "BIOCGBLEN = IOC 0x40000000 66 102 4"
definition BIOCSBLEN :: ULONG where "BIOCSBLEN = IOC 0xc0000000 66 102 4"
definition BIOCSETF :: ULONG where "BIOCSETF = IOC 0x80000000 66 103 8"
definition BIOCFLUSH :: ULONG where "BIOCFLUSH = IOC 0x20000000 66 104 0"
definition BIOCPROMISC :: ULONG where "BIOCPROMISC = IOC 0x20000000 66 105 0"
definition BIOCGDLT :: ULONG where "BIOCGDLT = IOC 0x40000000 66 106 4"
definition BIOCGETIF :: ULONG where "BIOCGETIF = IOC 0x40000000 66 107 32"
definition BIOCSETIF :: ULONG where "BIOCSETIF = IOC 0x80000000 66 108 32"
definition BIOCSRTIMEOUT :: ULONG where "BIOCSRTIMEOUT = IOC 0x80000000 66 109 8"
definition BIOCGRTIMEOUT :: ULONG where "BIOCGRTIMEOUT = IOC 0x40000000 66 110 8"
definition BIOCGSTATS :: ULONG where "BIOCGSTATS = IOC 0x40000000 66 111 8"
definition BIOCIMMEDIATE :: ULONG where "BIOCIMMEDIATE = IOC 0x80000000 66 112 4"
definition BIOCVERSION :: ULONG where "BIOCVERSION = IOC 0x40000000 66 113 4"
definition AMI_BPF_FIONREAD :: ULONG where "AMI_BPF_FIONREAD = IOC 0x40000000 102 127 4"
definition AMI_BPF_SIOCGIFADDR :: ULONG where "AMI_BPF_SIOCGIFADDR = IOC 0xc0000000 105 33 32"

definition BPF_MINBUFSIZE :: ULONG where "BPF_MINBUFSIZE = 32"
definition BPF_MAXBUFSIZE :: ULONG where "BPF_MAXBUFSIZE = 0x8000"

section \<open>Arguments\<close>

text \<open>
  What the argument pointer of an ioctl points to: whether the address is odd, the bytes
  there, and, for \<^verbatim>\<open>BIOCSETF\<close>, the \<^verbatim>\<open>struct bpf_program\<close>: its length and its instruction
  pointer (whether that is odd, and the instructions).
\<close>

record bpf_arg =
  ba_odd :: bool
  ba_mem :: "UBYTE list"
  ba_len :: ULONG
  ba_insns :: "(bool \<times> bpf_insn list) option"

type_synonym ioctl_result = "(LONG \<times> UBYTE list \<times> bpf_state) option"

text \<open>A command's critical section: look the handle up, then act on the channel.\<close>

definition locked ::
  "bpf_state \<Rightarrow> APTR \<Rightarrow> LONG \<Rightarrow> UBYTE list \<Rightarrow> (nat \<Rightarrow> ioctl_result) \<Rightarrow> ioctl_result" where
  "locked st owner channel mem act =
     (case ami_bpf_chan_get st owner channel of Inl status \<Rightarrow> Some (status, mem, st) | Inr i \<Rightarrow> act i)"

text \<open>A value read under the lock and stored through the pointer after it.\<close>

definition answer :: "bpf_state \<Rightarrow> UBYTE list \<Rightarrow> UBYTE list \<Rightarrow> ioctl_result" where
  "answer st mem bytes = do { mem' \<leftarrow> wr_range mem 0 bytes; Some (0, mem', st) }"

definition ioctl_fionread :: "bpf_state \<Rightarrow> APTR \<Rightarrow> LONG \<Rightarrow> UBYTE list \<Rightarrow> ioctl_result" where
  "ioctl_fionread st owner channel mem =
     locked st owner channel mem (\<lambda>i. answer st mem (be32 (ami_bpf_buffered (bs_chan st ! i))))"

definition ioctl_gblen :: "bpf_state \<Rightarrow> APTR \<Rightarrow> LONG \<Rightarrow> UBYTE list \<Rightarrow> ioctl_result" where
  "ioctl_gblen st owner channel mem =
     locked st owner channel mem (\<lambda>i. answer st mem (be32 (ch_blen (bs_chan st ! i))))"

definition clamp_blen :: "ULONG \<Rightarrow> ULONG" where
  "clamp_blen want =
     (let want = (if want < BPF_MINBUFSIZE then BPF_MINBUFSIZE else want);
          want = (if BPF_MAXBUFSIZE < want then BPF_MAXBUFSIZE else want)
      in BPF_WORDALIGN want)"

definition ioctl_sblen :: "bpf_state \<Rightarrow> APTR \<Rightarrow> LONG \<Rightarrow> UBYTE list \<Rightarrow> ioctl_result" where
  "ioctl_sblen st owner channel mem = do {
     arg \<leftarrow> get_be mem 0 4;
     let want = clamp_blen arg;
     locked st owner channel mem (\<lambda>i.
       if ch_bufbase (bs_chan st ! i) \<noteq> None then Some (AMI_BPF_EINVAL, mem, st)
       else answer (set_chan st i ((bs_chan st ! i)\<lparr>ch_blen := want\<rparr>)) mem (be32 want))
   }"

definition ioctl_flush :: "bpf_state \<Rightarrow> APTR \<Rightarrow> LONG \<Rightarrow> UBYTE list \<Rightarrow> ioctl_result" where
  "ioctl_flush st owner channel mem =
     locked st owner channel mem (\<lambda>i. Some (0, mem, set_chan st i
       ((bs_chan st ! i)\<lparr>ch_store_len := 0, ch_hold_len := 0, ch_hold_pos := 0,
                         ch_recv_count := 0, ch_drop_count := 0\<rparr>)))"

definition ioctl_promisc :: "bpf_state \<Rightarrow> APTR \<Rightarrow> LONG \<Rightarrow> UBYTE list \<Rightarrow> ioctl_result" where
  "ioctl_promisc st owner channel mem =
     locked st owner channel mem (\<lambda>i. Some (0, mem, set_chan st i ((bs_chan st ! i)\<lparr>ch_promisc := True\<rparr>)))"

definition ioctl_gdlt :: "bpf_state \<Rightarrow> APTR \<Rightarrow> LONG \<Rightarrow> UBYTE list \<Rightarrow> ioctl_result" where
  "ioctl_gdlt st owner channel mem =
     locked st owner channel mem (\<lambda>i. answer st mem (be32 (ch_dlt (bs_chan st ! i))))"

definition ioctl_getif :: "bpf_state \<Rightarrow> APTR \<Rightarrow> LONG \<Rightarrow> UBYTE list \<Rightarrow> ioctl_result" where
  "ioctl_getif st owner channel mem =
     locked st owner channel mem (\<lambda>i.
       if ch_iface (bs_chan st ! i) = None then Some (AMI_BPF_EINVAL, mem, st)
       else answer st mem (ch_ifname (bs_chan st ! i)))"

text \<open>\<open>hook\<close> is the registered address hook, \<open>None\<close> when there is none.\<close>

definition ami_bpf_cookie_address :: "(APTR \<Rightarrow> ULONG) option \<Rightarrow> APTR \<Rightarrow> ULONG" where
  "ami_bpf_cookie_address hook cookie =
     (case hook of None \<Rightarrow> 0 | Some fn \<Rightarrow> if cookie = 0 then 0 else fn cookie)"

definition ioctl_gifaddr ::
  "(APTR \<Rightarrow> ULONG) option \<Rightarrow> bpf_state \<Rightarrow> APTR \<Rightarrow> LONG \<Rightarrow> UBYTE list \<Rightarrow> ioctl_result" where
  "ioctl_gifaddr hook st owner channel mem =
     locked st owner channel mem (\<lambda>i.
       case ch_iface (bs_chan st ! i) of
         None \<Rightarrow> Some (AMI_BPF_EINVAL, mem, st)
       | Some j \<Rightarrow> do {
           let addr = ami_bpf_cookie_address hook (if_cookie (bs_iface st ! j));
           mem' \<leftarrow> wr_range mem AMI_BPF_IFNAMSIZ ([16, 2, 0, 0] @ be32 addr @ replicate 8 0);
           Some (0, mem', st)
         })"

definition ioctl_srtimeout :: "bpf_state \<Rightarrow> APTR \<Rightarrow> LONG \<Rightarrow> UBYTE list \<Rightarrow> ioctl_result" where
  "ioctl_srtimeout st owner channel mem = do {
     sec \<leftarrow> get_be mem 0 4;
     usec \<leftarrow> get_be mem 4 4;
     locked st owner channel mem (\<lambda>i. Some (0, mem, set_chan st i
       ((bs_chan st ! i)\<lparr>ch_rtimeout_sec := sec, ch_rtimeout_usec := usec\<rparr>)))
   }"

definition ioctl_grtimeout :: "bpf_state \<Rightarrow> APTR \<Rightarrow> LONG \<Rightarrow> UBYTE list \<Rightarrow> ioctl_result" where
  "ioctl_grtimeout st owner channel mem =
     locked st owner channel mem (\<lambda>i. answer st mem
       (be32 (ch_rtimeout_sec (bs_chan st ! i)) @ be32 (ch_rtimeout_usec (bs_chan st ! i))))"

definition ioctl_gstats :: "bpf_state \<Rightarrow> APTR \<Rightarrow> LONG \<Rightarrow> UBYTE list \<Rightarrow> ioctl_result" where
  "ioctl_gstats st owner channel mem =
     locked st owner channel mem (\<lambda>i. answer st mem
       (be32 (ch_recv_count (bs_chan st ! i)) @ be32 (ch_drop_count (bs_chan st ! i))))"

definition ioctl_immediate :: "bpf_state \<Rightarrow> APTR \<Rightarrow> LONG \<Rightarrow> UBYTE list \<Rightarrow> ioctl_result" where
  "ioctl_immediate st owner channel mem = do {
     v \<leftarrow> get_be mem 0 4;
     locked st owner channel mem (\<lambda>i. Some (0, mem,
       set_chan st i ((bs_chan st ! i)\<lparr>ch_immediate := (v \<noteq> 0)\<rparr>)))
   }"

definition ioctl_version :: "bpf_state \<Rightarrow> APTR \<Rightarrow> LONG \<Rightarrow> UBYTE list \<Rightarrow> ioctl_result" where
  "ioctl_version st owner channel mem = locked st owner channel mem (\<lambda>i. answer st mem (be16 1 @ be16 1))"

section \<open>The commands that allocate\<close>

definition ami_bpf_ioctl_snapshot ::
  "bpf_state \<Rightarrow> APTR \<Rightarrow> LONG \<Rightarrow> LONG + ULONG \<times> ULONG \<times> bool" where
  "ami_bpf_ioctl_snapshot st owner channel =
     (case ami_bpf_chan_get st owner channel of
        Inl status \<Rightarrow> Inl status
      | Inr i \<Rightarrow> Inr (bs_gen st ! i, ch_blen (bs_chan st ! i), ch_bufbase (bs_chan st ! i) \<noteq> None))"

definition ami_bpf_ioctl_revalidate :: "bpf_state \<Rightarrow> APTR \<Rightarrow> LONG \<Rightarrow> ULONG \<Rightarrow> LONG + nat" where
  "ami_bpf_ioctl_revalidate st owner channel generation =
     (case ami_bpf_chan_get st owner channel of
        Inl status \<Rightarrow> Inl status
      | Inr i \<Rightarrow> if bs_gen st ! i \<noteq> generation then Inl AMI_BPF_ENXIO else Inr i)"

text \<open>The interface name is read byte by byte up to a terminator or the fifteenth byte.\<close>

definition read_name :: "UBYTE list \<Rightarrow> UBYTE list option" where
  "read_name mem =
     (if AMI_BPF_IFNAMSIZ - 1 \<le> length mem \<or> 0 \<in> set mem then Some (copy_name mem) else None)"

definition install_buffers :: "UBYTE list option \<Rightarrow> ULONG \<Rightarrow> AmiBpfChan \<Rightarrow> AmiBpfChan" where
  "install_buffers base blen ch =
     (case base of
        None \<Rightarrow> ch
      | Some b \<Rightarrow>
          if ch_bufbase ch \<noteq> None then ch
          else ch\<lparr>ch_bufbase := Some b, ch_store := Some 0, ch_hold := Some (unat blen), ch_blen := blen,
                  ch_store_len := 0, ch_hold_len := 0, ch_hold_pos := 0\<rparr>)"

definition bind_chan :: "bpf_state \<Rightarrow> nat \<Rightarrow> nat \<Rightarrow> AmiBpfChan \<Rightarrow> bpf_state" where
  "bind_chan st i j ch =
     (let st = (if ch_iface ch = None then ami_bpf_bound_inc st else st)
      in set_chan st i (ch\<lparr>ch_iface := Some j, ch_dlt := if_dlt (bs_iface st ! j),
                           ch_ifname := if_name (bs_iface st ! j)\<rparr>))"

definition ami_bpf_ioctl_setif ::
  "(nat \<Rightarrow> bpf_state \<Rightarrow> bpf_state) \<Rightarrow> (ULONG \<Rightarrow> UBYTE list option) \<Rightarrow> bpf_state \<Rightarrow> APTR \<Rightarrow> LONG
   \<Rightarrow> UBYTE list \<Rightarrow> ioctl_result" where
  "ami_bpf_ioctl_setif oth alloc st owner channel mem = do {
     ifname \<leftarrow> read_name mem;
     case ami_bpf_ioctl_snapshot st owner channel of
       Inl status \<Rightarrow> Some (status, mem, st)
     | Inr (generation, blen, has_buffer) \<Rightarrow>
         let blen = clamp_blen blen;
             base = (if has_buffer then None else alloc (2 * blen))
         in if \<not> has_buffer \<and> base = None then Some (AMI_BPF_ENOBUFS, mem, st)
            else let st = oth 1 st
                 in case ami_bpf_ioctl_revalidate st owner channel generation of
                      Inl status \<Rightarrow> Some (status, mem, st)
                    | Inr i \<Rightarrow>
                        (case ami_bpf_iface_by_name st ifname of
                           None \<Rightarrow> Some (AMI_BPF_EINVAL, mem, st)
                         | Some j \<Rightarrow>
                             Some (0, mem, bind_chan st i j (install_buffers base blen (bs_chan st ! i))))
   }"

text \<open>The program is copied first, instruction by instruction, and the copy is validated.\<close>

definition load_program ::
  "(ULONG \<Rightarrow> UBYTE list option) \<Rightarrow> ULONG \<Rightarrow> (bool \<times> bpf_insn list) option
   \<Rightarrow> (LONG + bpf_insn list option) option" where
  "load_program alloc count insns =
     (if count = 0 then Some (Inr None)
      else case insns of
             None \<Rightarrow> Some (Inl AMI_BPF_EINVAL)
           | Some (unaligned, is) \<Rightarrow>
               if BPF_MAXINSNS < count \<or> unaligned then Some (Inl AMI_BPF_EINVAL)
               else if alloc (count * 8) = None then Some (Inl AMI_BPF_ENOBUFS)
               else do {
                 copy \<leftarrow> rd_range is 0 (unat count);
                 status \<leftarrow> ami_bpf_validate (Some copy) count;
                 if status \<noteq> 0 then Some (Inl AMI_BPF_EINVAL) else Some (Inr (Some copy))
               })"

definition install_filter :: "bpf_insn list option \<Rightarrow> ULONG \<Rightarrow> AmiBpfChan \<Rightarrow> AmiBpfChan" where
  "install_filter copy count ch =
     ch\<lparr>ch_filter := copy, ch_filter_len := count, ch_store_len := 0, ch_hold_len := 0, ch_hold_pos := 0\<rparr>"

definition ami_bpf_ioctl_setf ::
  "(nat \<Rightarrow> bpf_state \<Rightarrow> bpf_state) \<Rightarrow> (ULONG \<Rightarrow> UBYTE list option) \<Rightarrow> bpf_state \<Rightarrow> APTR \<Rightarrow> LONG
   \<Rightarrow> bpf_arg option \<Rightarrow> ioctl_result" where
  "ami_bpf_ioctl_setf oth alloc st owner channel prog =
     (case prog of
        None \<Rightarrow> Some (AMI_BPF_EINVAL, [], st)
      | Some arg \<Rightarrow>
          case ami_bpf_ioctl_snapshot st owner channel of
            Inl status \<Rightarrow> Some (status, ba_mem arg, st)
          | Inr (generation, _, _) \<Rightarrow>
              load_program alloc (ba_len arg) (ba_insns arg) \<bind> (\<lambda>r.
                case r of
                  Inl status \<Rightarrow> Some (status, ba_mem arg, st)
                | Inr copy \<Rightarrow>
                    let st = oth 1 st
                    in case ami_bpf_ioctl_revalidate st owner channel generation of
                         Inl status \<Rightarrow> Some (status, ba_mem arg, st)
                       | Inr i \<Rightarrow>
                           Some (0, ba_mem arg, set_chan st i
                             (install_filter copy (ba_len arg) (bs_chan st ! i)))))"

section \<open>Dispatch\<close>

text \<open>The commands that refuse a \<^verbatim>\<open>NULL\<close> argument before anything else.\<close>

definition need_arg :: "bpf_state \<Rightarrow> bpf_arg option \<Rightarrow> (UBYTE list \<Rightarrow> ioctl_result) \<Rightarrow> ioctl_result" where
  "need_arg st buffer act =
     (case buffer of None \<Rightarrow> Some (AMI_BPF_EINVAL, [], st) | Some arg \<Rightarrow> act (ba_mem arg))"

definition ioctl_command ::
  "(nat \<Rightarrow> bpf_state \<Rightarrow> bpf_state) \<Rightarrow> (ULONG \<Rightarrow> UBYTE list option) \<Rightarrow> (APTR \<Rightarrow> ULONG) option \<Rightarrow> bpf_state
   \<Rightarrow> APTR \<Rightarrow> LONG \<Rightarrow> ULONG \<Rightarrow> bpf_arg option \<Rightarrow> ioctl_result" where
  "ioctl_command oth alloc hook st owner channel command buffer =
     (let cmd = AMI_BPF_CMD command; need = need_arg st buffer;
          mem = (case buffer of None \<Rightarrow> [] | Some arg \<Rightarrow> ba_mem arg)
      in if cmd = AMI_BPF_CMD AMI_BPF_FIONREAD then need (ioctl_fionread st owner channel)
         else if cmd = AMI_BPF_CMD BIOCGBLEN then need (ioctl_gblen st owner channel)
         else if cmd = AMI_BPF_CMD BIOCSBLEN then need (ioctl_sblen st owner channel)
         else if cmd = AMI_BPF_CMD BIOCSETF then ami_bpf_ioctl_setf oth alloc st owner channel buffer
         else if cmd = AMI_BPF_CMD BIOCFLUSH then ioctl_flush st owner channel mem
         else if cmd = AMI_BPF_CMD BIOCPROMISC then ioctl_promisc st owner channel mem
         else if cmd = AMI_BPF_CMD BIOCGDLT then need (ioctl_gdlt st owner channel)
         else if cmd = AMI_BPF_CMD BIOCGETIF then need (ioctl_getif st owner channel)
         else if cmd = AMI_BPF_CMD AMI_BPF_SIOCGIFADDR then need (ioctl_gifaddr hook st owner channel)
         else if cmd = AMI_BPF_CMD BIOCSETIF then need (ami_bpf_ioctl_setif oth alloc st owner channel)
         else if cmd = AMI_BPF_CMD BIOCSRTIMEOUT then need (ioctl_srtimeout st owner channel)
         else if cmd = AMI_BPF_CMD BIOCGRTIMEOUT then need (ioctl_grtimeout st owner channel)
         else if cmd = AMI_BPF_CMD BIOCGSTATS then need (ioctl_gstats st owner channel)
         else if cmd = AMI_BPF_CMD BIOCIMMEDIATE then need (ioctl_immediate st owner channel)
         else if cmd = AMI_BPF_CMD BIOCVERSION then need (ioctl_version st owner channel)
         else Some (AMI_BPF_EINVAL, mem, st))"

definition byte_command :: "ULONG \<Rightarrow> bool" where
  "byte_command command \<longleftrightarrow> AMI_BPF_CMD command \<in>
     {AMI_BPF_CMD BIOCGETIF, AMI_BPF_CMD BIOCSETIF, AMI_BPF_CMD AMI_BPF_SIOCGIFADDR}"

definition ami_bpf_ioctl ::
  "(nat \<Rightarrow> bpf_state \<Rightarrow> bpf_state) \<Rightarrow> (ULONG \<Rightarrow> UBYTE list option) \<Rightarrow> (APTR \<Rightarrow> ULONG) option \<Rightarrow> bpf_state
   \<Rightarrow> APTR \<Rightarrow> LONG \<Rightarrow> ULONG \<Rightarrow> bpf_arg option \<Rightarrow> ioctl_result" where
  "ami_bpf_ioctl oth alloc hook st owner channel command buffer =
     (let mem = (case buffer of None \<Rightarrow> [] | Some arg \<Rightarrow> ba_mem arg)
      in case ami_bpf_chan_get st owner channel of
           Inl status \<Rightarrow> Some (status, mem, st)
         | Inr _ \<Rightarrow>
             if \<not> byte_command command \<and> (case buffer of None \<Rightarrow> False | Some arg \<Rightarrow> ba_odd arg)
             then Some (AMI_BPF_EINVAL, mem, st)
             else ioctl_command oth alloc hook (oth 0 st) owner channel command buffer)"

section \<open>Writing and the masks\<close>

text \<open>
  \<^verbatim>\<open>ami_bpf_write\<close>: the frame handed to the interface's injector, and what it answered. The
  state does not change.
\<close>

definition ami_bpf_write :: "bpf_state \<Rightarrow> APTR \<Rightarrow> LONG \<Rightarrow> UBYTE list option \<Rightarrow> LONG \<Rightarrow> LONG option" where
  "ami_bpf_write st owner channel buffer len =
     (case ami_bpf_chan_get st owner channel of
        Inl status \<Rightarrow> Some status
      | Inr i \<Rightarrow>
          (case buffer of
             None \<Rightarrow> Some AMI_BPF_EINVAL
           | Some frame \<Rightarrow>
               if len \<le> 0 then Some AMI_BPF_EINVAL
               else case ch_iface (bs_chan st ! i) of
                 None \<Rightarrow> Some AMI_BPF_ENXIO
               | Some j \<Rightarrow>
                   (case if_inject (bs_iface st ! j) of
                      None \<Rightarrow> Some AMI_BPF_ENXIO
                    | Some inject \<Rightarrow>
                        let cookie = if_cookie (bs_iface st ! j); mtu = if_mtu (bs_iface st ! j)
                        in if ch_dlt (bs_chan st ! i) \<noteq> DLT_EN10MB
                           then if mtu \<noteq> 0 \<and> mtu < of_int len then Some AMI_BPF_EMSGSIZE
                                else do {
                                  bytes \<leftarrow> rd_range frame 0 (nat len);
                                  Some (if inject cookie 0 None bytes < 0 then AMI_BPF_ENOBUFS else len)
                                }
                           else if len < 14 then Some AMI_BPF_EINVAL
                           else do {
                             ty \<leftarrow> get_be frame 12 2;
                             if mtu \<noteq> 0 \<and> mtu < of_int (len - 14) then Some AMI_BPF_EMSGSIZE
                             else do {
                               hdr \<leftarrow> rd_range frame 0 14;
                               payload \<leftarrow> rd_range frame 14 (nat (len - 14));
                               Some (if inject cookie (ucast ty) (Some hdr) payload < 0
                                     then AMI_BPF_ENOBUFS else len)
                             }
                           })))"

text \<open>\<open>task\<close> is the calling task, \<^verbatim>\<open>ami_bpf_current_task\<close>.\<close>

definition ami_bpf_set_notify_mask ::
  "APTR \<Rightarrow> bpf_state \<Rightarrow> APTR \<Rightarrow> LONG \<Rightarrow> ULONG \<Rightarrow> LONG \<times> bpf_state" where
  "ami_bpf_set_notify_mask task st owner channel signal_mask =
     (case ami_bpf_chan_get st owner channel of
        Inl status \<Rightarrow> (status, st)
      | Inr i \<Rightarrow> (0, set_chan st i ((bs_chan st ! i)
          \<lparr>ch_notify_mask := signal_mask, ch_notify_task := (if signal_mask \<noteq> 0 then task else 0)\<rparr>)))"

definition ami_bpf_set_interrupt_mask ::
  "APTR \<Rightarrow> bpf_state \<Rightarrow> APTR \<Rightarrow> LONG \<Rightarrow> ULONG \<Rightarrow> LONG \<times> bpf_state" where
  "ami_bpf_set_interrupt_mask task st owner channel signal_mask =
     (case ami_bpf_chan_get st owner channel of
        Inl status \<Rightarrow> (status, st)
      | Inr i \<Rightarrow> (0, set_chan st i ((bs_chan st ! i)
          \<lparr>ch_irq_mask := signal_mask, ch_irq_task := (if signal_mask \<noteq> 0 then task else 0)\<rparr>)))"

section \<open>Every command keeps the table well formed\<close>

text \<open>The call returned, with a well-formed table and as much caller memory as before.\<close>

definition ioctl_good :: "nat \<Rightarrow> ioctl_result \<Rightarrow> bool" where
  "ioctl_good n r \<longleftrightarrow> (case r of None \<Rightarrow> False | Some (s, mem, st) \<Rightarrow> bpf_inv st \<and> length mem = n)"

named_theorems ioctl_goods

lemma good_Some [simp]: "ioctl_good n (Some (s, mem, st)) \<longleftrightarrow> bpf_inv st \<and> length mem = n"
  by (simp add: ioctl_good_def)

lemma good_if: "(c \<Longrightarrow> ioctl_good n a) \<Longrightarrow> (\<not> c \<Longrightarrow> ioctl_good n b) \<Longrightarrow> ioctl_good n (if c then a else b)"
  by simp

lemma good_locked [ioctl_goods]:
  assumes "bpf_inv st" and "n = length mem"
    and "\<And>i. i < AMI_BPF_MAX_CHANNELS \<Longrightarrow> ami_bpf_chan_get st owner channel = Inr i \<Longrightarrow>
      ch_open (bs_chan st ! i) \<Longrightarrow> chan_ok (bs_iface st) (bs_chan st ! i) \<Longrightarrow> ioctl_good n (act i)"
  shows "ioctl_good n (locked st owner channel mem act)"
  using assms chan_get_Inr inv_chan by (auto simp: locked_def split: sum.splits)

lemma good_answer [ioctl_goods]:
  assumes "bpf_inv st" and "n = length mem" and "length bytes \<le> length mem"
  shows "ioctl_good n (answer st mem bytes)"
  using assms by (simp add: answer_def wr_range_def)

lemma set_same_core:
  assumes "bpf_inv st" and "i < AMI_BPF_MAX_CHANNELS" and "ch_open (bs_chan st ! i)"
    and "same_core (bs_chan st ! i) ch"
  shows "bpf_inv (set_chan st i ch)"
  using assms same_core_ok [OF assms(4,3) inv_chan [OF assms(1,2)]]
  by (intro inv_same_binding) (simp_all add: same_core_def)

text \<open>Emptying both buffers, and a new filter that empties them too.\<close>

lemma emptied_ok:
  assumes "chan_ok ifs ch" and "ch_open ch"
    and "\<And>p. copy = Some p \<Longrightarrow> length p = unat count \<and> bpf_program_ok p count" and "copy = None \<Longrightarrow> count = 0"
  shows "chan_ok ifs (ch\<lparr>ch_filter := copy, ch_filter_len := count, ch_store_len := 0, ch_hold_len := 0,
    ch_hold_pos := 0, ch_recv_count := r, ch_drop_count := d\<rparr>)"
  using assms
  by (auto simp: chan_ok_def bufs_ok_def recs_ok_def filter_ok_def iface_ok_def hold_recs_def store_recs_def
      hold_area_def store_area_def parse_area.simps split: option.splits)

lemma filter_kept:
  assumes "chan_ok ifs ch"
  shows "ch_filter ch = Some p \<Longrightarrow> length p = unat (ch_filter_len ch) \<and> bpf_program_ok p (ch_filter_len ch)"
    and "ch_filter ch = None \<Longrightarrow> ch_filter_len ch = 0"
  using assms by (simp_all add: chan_ok_def filter_ok_def)

lemma clamp_blen_ok: "blen_ok (clamp_blen want)"
proof -
  define w where "w = (if BPF_MAXBUFSIZE < (if want < BPF_MINBUFSIZE then BPF_MINBUFSIZE else want)
    then BPF_MAXBUFSIZE else (if want < BPF_MINBUFSIZE then BPF_MINBUFSIZE else want))"
  have "32 \<le> unat w" "unat w \<le> 0x8000"
    by (auto simp: w_def BPF_MINBUFSIZE_def BPF_MAXBUFSIZE_def word_less_nat_alt)
  moreover have "clamp_blen want = BPF_WORDALIGN w" by (simp add: clamp_blen_def w_def Let_def)
  moreover have "unat (BPF_WORDALIGN w) = align4 (unat w)" using calculation by (intro unat_WORDALIGN) simp
  ultimately show ?thesis
    using align4_props [of "unat w"] align4_le [of "unat w" "0x8000"] by (simp add: blen_ok_def)
qed

lemma get_be_total: "off + n \<le> length mem \<Longrightarrow> \<exists>v. get_be mem off n = Some v"
  by (simp add: get_be_def rd_range_def)

lemma ifname_len:
  assumes "chan_ok ifs ch" shows "length (ch_ifname ch) = 16"
  using assms by (simp add: chan_ok_def AMI_BPF_IFNAMSIZ_def)

lemma queries_good [ioctl_goods]:
  assumes "bpf_inv st"
  shows "4 \<le> length mem \<Longrightarrow> ioctl_good (length mem) (ioctl_fionread st owner channel mem)"
    and "4 \<le> length mem \<Longrightarrow> ioctl_good (length mem) (ioctl_gblen st owner channel mem)"
    and "4 \<le> length mem \<Longrightarrow> ioctl_good (length mem) (ioctl_gdlt st owner channel mem)"
    and "16 \<le> length mem \<Longrightarrow> ioctl_good (length mem) (ioctl_getif st owner channel mem)"
    and "32 \<le> length mem \<Longrightarrow> ioctl_good (length mem) (ioctl_gifaddr hook st owner channel mem)"
    and "8 \<le> length mem \<Longrightarrow> ioctl_good (length mem) (ioctl_grtimeout st owner channel mem)"
    and "8 \<le> length mem \<Longrightarrow> ioctl_good (length mem) (ioctl_gstats st owner channel mem)"
    and "4 \<le> length mem \<Longrightarrow> ioctl_good (length mem) (ioctl_version st owner channel mem)"
  unfolding ioctl_fionread_def ioctl_gblen_def ioctl_gdlt_def ioctl_getif_def ioctl_gifaddr_def
    ioctl_grtimeout_def ioctl_gstats_def ioctl_version_def
  using assms
  by (auto intro!: good_locked good_answer simp: ifname_len wr_range_def AMI_BPF_IFNAMSIZ_def
      split: option.splits)

lemma promisc_good [ioctl_goods]:
  assumes "bpf_inv st"
  shows "ioctl_good (length mem) (ioctl_promisc st owner channel mem)"
  unfolding ioctl_promisc_def using assms by (auto intro!: good_locked set_same_core simp: same_core_def)

lemma modes_good [ioctl_goods]:
  assumes "bpf_inv st"
  shows "8 \<le> length mem \<Longrightarrow> ioctl_good (length mem) (ioctl_srtimeout st owner channel mem)"
    and "4 \<le> length mem \<Longrightarrow> ioctl_good (length mem) (ioctl_immediate st owner channel mem)"
  unfolding ioctl_srtimeout_def ioctl_immediate_def
  using assms get_be_total [of 0 4 mem] get_be_total [of 4 4 mem]
  by (auto intro!: good_locked set_same_core simp: same_core_def)

lemma flush_good [ioctl_goods]:
  assumes "bpf_inv st"
  shows "ioctl_good (length mem) (ioctl_flush st owner channel mem)"
  unfolding ioctl_flush_def
proof (rule good_locked [OF assms refl])
  fix i assume i: "i < AMI_BPF_MAX_CHANNELS" "ch_open (bs_chan st ! i)" "chan_ok (bs_iface st) (bs_chan st ! i)"
  have "chan_ok (bs_iface st) ((bs_chan st ! i)\<lparr>ch_store_len := 0, ch_hold_len := 0, ch_hold_pos := 0,
      ch_recv_count := 0, ch_drop_count := 0\<rparr>)"
    using emptied_ok [where r = 0 and d = 0 and copy = "ch_filter (bs_chan st ! i)",
        OF i(3,2) filter_kept [OF i(3)]] by simp
  then show "ioctl_good (length mem) (Some (0, mem, set_chan st i ((bs_chan st ! i)
      \<lparr>ch_store_len := 0, ch_hold_len := 0, ch_hold_pos := 0, ch_recv_count := 0, ch_drop_count := 0\<rparr>)))"
    using inv_same_binding [OF assms i(1)] by simp
qed

lemma sblen_good [ioctl_goods]:
  assumes "bpf_inv st" and "4 \<le> length mem"
  shows "ioctl_good (length mem) (ioctl_sblen st owner channel mem)"
proof -
  obtain v where v: "get_be mem 0 4 = Some v" using get_be_total [of 0 4 mem] assms(2) by auto
  have "bpf_inv (set_chan st i ((bs_chan st ! i)\<lparr>ch_blen := w\<rparr>))"
    if "i < AMI_BPF_MAX_CHANNELS" "ch_open (bs_chan st ! i)" "ch_bufbase (bs_chan st ! i) = None" for i w
    using inv_chan [OF assms(1) that(1)] that
    by (intro inv_same_binding [OF assms(1)])
       (auto simp: chan_ok_def bufs_ok_def recs_ok_def filter_ok_def iface_ok_def hold_recs_def store_recs_def
          hold_area_def store_area_def split: option.splits)
  then show ?thesis unfolding ioctl_sblen_def v using assms
    by (auto intro!: good_locked good_answer simp: Let_def)
qed

text \<open>The commit of \<^verbatim>\<open>BIOCSETIF\<close>: buffers if there are none yet, then the binding.\<close>

lemma install_buffers_ok:
  assumes ok: "chan_ok ifs ch" and op: "ch_open ch" and bl: "blen_ok blen"
    and base: "\<And>b. base = Some b \<Longrightarrow> length b = 2 * unat blen"
  shows "chan_ok ifs (install_buffers base blen ch)"
    and "ch_open (install_buffers base blen ch)" and "ch_iface (install_buffers base blen ch) = ch_iface ch"
    and "ch_release_pending (install_buffers base blen ch) = ch_release_pending ch"
proof -
  show "chan_ok ifs (install_buffers base blen ch)"
  proof (cases "ch_bufbase ch = None \<and> base \<noteq> None")
    case True
    then obtain b where b: "base = Some b" "length b = 2 * unat blen" using base by auto
    show ?thesis using ok op bl b True
      by (auto simp: install_buffers_def chan_ok_def bufs_ok_def recs_ok_def filter_ok_def iface_ok_def
          hold_recs_def store_recs_def hold_area_def store_area_def parse_area.simps word_le_nat_alt
          split: option.splits)
  qed (use ok in \<open>auto simp: install_buffers_def split: option.splits\<close>)
  show "ch_open (install_buffers base blen ch)" "ch_iface (install_buffers base blen ch) = ch_iface ch"
    "ch_release_pending (install_buffers base blen ch) = ch_release_pending ch"
    using op by (simp_all add: install_buffers_def split: option.splits)
qed

lemma bound_inc_set_chan:
  "set_chan (ami_bpf_bound_inc st) i ch = ami_bpf_bound_inc (set_chan st i ch)"
  by (auto simp: set_chan_def ami_bpf_bound_inc_def ami_bpf_capture_notify_def Let_def split: option.splits)

lemma bind_chan_inv:
  assumes inv: "bpf_inv st" and i: "i < AMI_BPF_MAX_CHANNELS" and ok: "chan_ok (bs_iface st) ch"
    and "ch_open ch" and "\<not> ch_release_pending ch" and same: "ch_iface ch = ch_iface (bs_chan st ! i)"
    and j: "j < length (bs_iface st)" "if_used (bs_iface st ! j)"
  shows "bpf_inv (bind_chan st i j ch)"
proof -
  let ?new = "ch\<lparr>ch_iface := Some j, ch_dlt := if_dlt (bs_iface st ! j), ch_ifname := if_name (bs_iface st ! j)\<rparr>"
  have "length (if_name (bs_iface st ! j)) = AMI_BPF_IFNAMSIZ" using inv j(1) by (simp add: bpf_inv_def)
  then have new: "chan_ok (bs_iface st) ?new"
    using ok assms(4,5) j
    by (auto simp: chan_ok_def bufs_ok_def recs_ok_def filter_ok_def iface_ok_def hold_recs_def store_recs_def
        hold_area_def store_area_def split: option.splits)
  show ?thesis
  proof (cases "ch_iface ch = None")
    case True
    then show ?thesis using inv_bind [OF inv i new] same by (simp add: bind_chan_def bound_inc_set_chan)
  next
    case False
    then show ?thesis using inv_same_binding [OF inv i new] same by (auto simp: bind_chan_def)
  qed
qed

lemma revalidate_Inr:
  assumes "ami_bpf_ioctl_revalidate st owner channel g = Inr i"
  shows "ami_bpf_chan_get st owner channel = Inr i" and "bs_gen st ! i = g"
  using assms by (auto simp: ami_bpf_ioctl_revalidate_def split: sum.splits if_splits)

lemma owned_not_pending:
  assumes "bpf_inv st" and "ami_bpf_chan_get st owner channel = Inr i" and "owner \<noteq> 0"
  shows "\<not> ch_release_pending (bs_chan st ! i)"
  using inv_chan [OF assms(1) chan_get_Inr(1) [OF assms(2)]] chan_get_Inr(3) [OF assms(2)] assms(3)
  by (auto simp: chan_ok_def)

lemma setif_commit:
  assumes inv: "bpf_inv st" and rev: "ami_bpf_ioctl_revalidate st owner channel g = Inr i"
    and "owner \<noteq> 0" and "ami_bpf_iface_by_name st nm = Some j"
    and base: "\<And>b. base = Some b \<Longrightarrow> length b = 2 * unat (clamp_blen w)"
  shows "bpf_inv (bind_chan st i j (install_buffers base (clamp_blen w) (bs_chan st ! i)))"
proof -
  note get = revalidate_Inr(1) [OF rev]
  note c = chan_get_Inr [OF get]
  note ins = install_buffers_ok [OF inv_chan [OF inv c(1)] c(2) clamp_blen_ok base]
  have "j < length (bs_iface st) \<and> if_used (bs_iface st ! j)"
    using assms(4) find_row_Some by (fastforce simp: ami_bpf_iface_by_name_def)
  then show ?thesis using ins owned_not_pending [OF inv get assms(3)]
    by (intro bind_chan_inv [OF inv c(1)]) auto
qed

text \<open>What the code relies on of the allocator: memory of the size asked for, or none.\<close>

definition alloc_ok :: "(ULONG \<Rightarrow> UBYTE list option) \<Rightarrow> bool" where
  "alloc_ok alloc \<longleftrightarrow> (\<forall>n m. alloc n = Some m \<longrightarrow> length m = unat n)"

lemma twice_blen: "blen_ok b \<Longrightarrow> unat (2 * b) = 2 * unat b"
  by (simp add: blen_ok_def unat_word_ariths)

lemma setif_good [ioctl_goods]:
  assumes inv: "bpf_inv st" and oth: "\<And>n st. bpf_inv st \<Longrightarrow> bpf_inv (oth n st)" and al: "alloc_ok alloc"
    and "owner \<noteq> 0" and "16 \<le> length mem"
  shows "ioctl_good (length mem) (ami_bpf_ioctl_setif oth alloc st owner channel mem)"
proof -
  have nm: "read_name mem = Some (copy_name mem)" using assms(5) by (simp add: read_name_def AMI_BPF_IFNAMSIZ_def)
  have len: "length b = 2 * unat (clamp_blen w)" if "alloc (2 * clamp_blen w) = Some b" for b w
    using al that twice_blen [OF clamp_blen_ok] by (simp add: alloc_ok_def)
  have com: "bpf_inv (bind_chan (oth 1 st) i j (install_buffers base (clamp_blen w) (bs_chan (oth 1 st) ! i)))"
    if "ami_bpf_ioctl_revalidate (oth 1 st) owner channel g = Inr i"
      "ami_bpf_iface_by_name (oth 1 st) (copy_name mem) = Some j"
      "base = None \<or> alloc (2 * clamp_blen w) = base" for g i j base w
    using setif_commit [OF oth [OF inv] that(1) assms(4) that(2), of base w] len that(3) by auto
  show ?thesis unfolding ami_bpf_ioctl_setif_def nm using inv oth [OF inv]
    by (auto simp: Let_def simp del: One_nat_def intro!: com split: sum.splits option.splits)
qed

lemma load_program_spec:
  assumes "\<And>b is. insns = Some (b, is) \<Longrightarrow> unat count \<le> length is"
  obtains r where "load_program alloc count insns = Some r"
    and "\<And>copy. r = Inr copy \<Longrightarrow> (copy = None \<longrightarrow> count = 0) \<and>
      (\<forall>p. copy = Some p \<longrightarrow> length p = unat count \<and> bpf_program_ok p count)"
proof (cases "count = 0 \<or> insns = None \<or> BPF_MAXINSNS < count \<or> fst (the insns) \<or> alloc (count * 8) = None")
  case True
  then have "load_program alloc count insns = Some (if count = 0 then Inr None
      else if insns = None \<or> BPF_MAXINSNS < count \<or> fst (the insns) then Inl AMI_BPF_EINVAL
      else Inl AMI_BPF_ENOBUFS)"
    by (cases insns) (auto simp: load_program_def)
  then show thesis by (rule that) (auto split: if_splits)
next
  case False
  then obtain "is" where ins: "insns = Some (False, is)" by (cases insns) auto
  then have len: "unat count \<le> length is" using assms by auto
  let ?p = "take (unat count) is"
  have "ami_bpf_validate (Some ?p) count = Some (if bpf_program_ok ?p count then 0 else -1)"
    using len by (intro ami_bpf_validate_eq) simp
  then show thesis using False ins len
    by (intro that [of "if bpf_program_ok ?p count then Inr (Some ?p) else Inl AMI_BPF_EINVAL"])
       (auto simp: load_program_def rd_range_def split: if_splits)
qed

lemma setf_good [ioctl_goods]:
  assumes inv: "bpf_inv st" and oth: "\<And>n st. bpf_inv st \<Longrightarrow> bpf_inv (oth n st)"
    and arg: "\<And>b is. ba_insns arg = Some (b, is) \<Longrightarrow> unat (ba_len arg) \<le> length is"
  shows "ioctl_good (length (ba_mem arg)) (ami_bpf_ioctl_setf oth alloc st owner channel (Some arg))"
proof -
  obtain r where r: "load_program alloc (ba_len arg) (ba_insns arg) = Some r"
    and copy: "\<And>copy. r = Inr copy \<Longrightarrow> (copy = None \<longrightarrow> ba_len arg = 0) \<and>
      (\<forall>p. copy = Some p \<longrightarrow> length p = unat (ba_len arg) \<and> bpf_program_ok p (ba_len arg))"
    by (rule load_program_spec [where alloc = alloc, OF arg]) auto
  have com: "bpf_inv (set_chan (oth 1 st) i (install_filter c (ba_len arg) (bs_chan (oth 1 st) ! i)))"
    if "ami_bpf_ioctl_revalidate (oth 1 st) owner channel g = Inr i" "r = Inr c" for g i c
  proof -
    note k = chan_get_Inr [OF revalidate_Inr(1) [OF that(1)]]
    have "chan_ok (bs_iface (oth 1 st)) (install_filter c (ba_len arg) (bs_chan (oth 1 st) ! i))"
      using emptied_ok [OF inv_chan [OF oth [OF inv] k(1)] k(2), of c "ba_len arg"
          "ch_drop_count (bs_chan (oth 1 st) ! i)" "ch_recv_count (bs_chan (oth 1 st) ! i)"] copy [OF that(2)]
      by (simp add: install_filter_def)
    then show ?thesis by (intro inv_same_binding [OF oth [OF inv] k(1)]) (simp_all add: install_filter_def)
  qed
  show ?thesis unfolding ami_bpf_ioctl_setf_def using r inv oth [OF inv] com
    by (auto simp: Let_def simp del: One_nat_def split: sum.splits)
qed

lemma masks_inv:
  assumes "bpf_inv st"
  shows "bpf_inv (snd (ami_bpf_set_notify_mask task st owner channel m))"
    and "bpf_inv (snd (ami_bpf_set_interrupt_mask task st owner channel m))"
  using assms chan_get_Inr
  by (auto simp: ami_bpf_set_notify_mask_def ami_bpf_set_interrupt_mask_def same_core_def
      intro!: set_same_core split: sum.splits)

text \<open>
  The size of the structure each command reads or writes through the argument: a longword, a \<^verbatim>\<open>timeval\<close> or a pair
  of counters, the name of a \<^verbatim>\<open>struct ifreq\<close>, a whole one. The program of \<^verbatim>\<open>BIOCSETF\<close> is apart, in \<open>ba_insns\<close>.
\<close>

definition arg_size :: "ULONG \<Rightarrow> nat" where
  "arg_size command =
     (let cmd = AMI_BPF_CMD command
      in if cmd = AMI_BPF_CMD AMI_BPF_FIONREAD then 4
         else if cmd = AMI_BPF_CMD BIOCGBLEN then 4
         else if cmd = AMI_BPF_CMD BIOCSBLEN then 4
         else if cmd = AMI_BPF_CMD BIOCSETF then 0
         else if cmd = AMI_BPF_CMD BIOCFLUSH then 0
         else if cmd = AMI_BPF_CMD BIOCPROMISC then 0
         else if cmd = AMI_BPF_CMD BIOCGDLT then 4
         else if cmd = AMI_BPF_CMD BIOCGETIF then 16
         else if cmd = AMI_BPF_CMD AMI_BPF_SIOCGIFADDR then 32
         else if cmd = AMI_BPF_CMD BIOCSETIF then 16
         else if cmd = AMI_BPF_CMD BIOCSRTIMEOUT then 8
         else if cmd = AMI_BPF_CMD BIOCGRTIMEOUT then 8
         else if cmd = AMI_BPF_CMD BIOCGSTATS then 8
         else if cmd = AMI_BPF_CMD BIOCIMMEDIATE then 4
         else if cmd = AMI_BPF_CMD BIOCVERSION then 4
         else 0)"

definition arg_ok :: "ULONG \<Rightarrow> bpf_arg option \<Rightarrow> bool" where
  "arg_ok command buffer \<longleftrightarrow>
     (case buffer of
        None \<Rightarrow> True
      | Some arg \<Rightarrow> arg_size command \<le> length (ba_mem arg) \<and>
          (case ba_insns arg of None \<Rightarrow> True | Some (_, is) \<Rightarrow> unat (ba_len arg) \<le> length is))"

lemma command_good:
  assumes inv: "bpf_inv st" and oth: "\<And>n st. bpf_inv st \<Longrightarrow> bpf_inv (oth n st)" and al: "alloc_ok alloc"
    and "owner \<noteq> 0" and arg: "arg_ok command buffer"
  shows "\<exists>n. ioctl_good n (ioctl_command oth alloc hook st owner channel command buffer)"
proof (cases buffer)
  case None
  have none: "ioctl_good 0 (Some (s, [], st))" for s using inv by simp
  have "ioctl_good 0 (ioctl_command oth alloc hook st owner channel command buffer)"
    unfolding None ioctl_command_def Let_def need_arg_def ami_bpf_ioctl_setf_def option.case
    using flush_good [where mem = "[]", OF inv] promisc_good [where mem = "[]", OF inv]
    by (intro good_if none) simp_all
  then show ?thesis ..
next
  case (Some a)
  then have len: "arg_size command \<le> length (ba_mem a)"
    and ins: "\<And>b is. ba_insns a = Some (b, is) \<Longrightarrow> unat (ba_len a) \<le> length is"
    using arg by (auto simp: arg_ok_def)
  note goods = queries_good [OF inv] modes_good [OF inv] promisc_good [OF inv] flush_good [OF inv]
    sblen_good [OF inv] setif_good [OF inv oth al assms(4)] setf_good [OF inv oth ins]
  have "ioctl_good (length (ba_mem a)) (ioctl_command oth alloc hook st owner channel command buffer)"
    unfolding Some ioctl_command_def Let_def need_arg_def option.case
    using inv len by (intro good_if goods) (simp_all add: arg_size_def)
  then show ?thesis ..
qed

section \<open>The library's return convention\<close>

text \<open>
  \<^verbatim>\<open>bsd_bpf_result\<close> of \<^verbatim>\<open>src/bsdsocket/bpf.c\<close>: the value returned to the caller and the errno
  set, if any.
\<close>

definition bsd_bpf_errno :: "LONG list" where
  "bsd_bpf_errno = [0, 22, 6, 1, 16, 4, 5, 55, 40]"

definition bsd_bpf_result :: "LONG \<Rightarrow> LONG \<times> LONG option" where
  "bsd_bpf_result status =
     (if 0 \<le> status then (status, None)
      else let index = - status;
               index = (if int (length bsd_bpf_errno) \<le> index then - AMI_BPF_EINVAL else index)
           in (-1, Some (bsd_bpf_errno ! nat index)))"

section \<open>Properties\<close>

text \<open>
  C8. Whatever command number a program passes to \<^verbatim>\<open>bpf_ioctl\<close>, with an argument that has room for just the
  structure of that command, whatever other
  tasks do to the table while the call has no lock, and whether or not memory is to be had:
  the call returns, reads and writes only its argument and the channel, and leaves the table
  well formed (in particular, no filter that the validator refuses is ever installed).
\<close>

theorem bpf_ioctl_safe:
  assumes "bpf_inv st" and "\<And>n st. bpf_inv st \<Longrightarrow> bpf_inv (oth n st)" and "alloc_ok alloc"
    and "owner \<noteq> 0" and "arg_ok command buffer"
  shows "\<exists>status mem st'. ami_bpf_ioctl oth alloc hook st owner channel command buffer
    = Some (status, mem, st') \<and> bpf_inv st'"
proof -
  have "\<exists>n. ioctl_good n (ioctl_command oth alloc hook (oth 0 st) owner channel command buffer)"
    by (rule command_good [OF assms(2) [OF assms(1)] assms(2-5)])
  then show ?thesis using assms(1)
    by (auto simp: ami_bpf_ioctl_def ioctl_good_def Let_def split: sum.splits option.splits)
qed

definition zeroed :: "ULONG \<Rightarrow> UBYTE list option" where
  "zeroed n = Some (replicate (unat n) 0)"

lemma zeroed_ok: "alloc_ok zeroed"
  by (simp add: alloc_ok_def zeroed_def)

definition sample_arg :: bpf_arg where
  "sample_arg = \<lparr>ba_odd = False, ba_mem = copy_name [101, 116, 104, 48] @ replicate 16 0, ba_len = 4,
     ba_insns = Some (False, sample_prog)\<rparr>"

theorem bpf_ioctl_safe_witness:
  "\<exists>status mem st'. ami_bpf_ioctl (\<lambda>n st. ami_bpf_close_owner st 9) zeroed None sample_state 7 0 BIOCSETF
     (Some sample_arg) = Some (status, mem, st') \<and> bpf_inv st'"
proof (rule bpf_ioctl_safe)
  show "bpf_inv sample_state" by (rule sample_state_inv)
  show "bpf_inv (ami_bpf_close_owner st 9)" if "bpf_inv st" for n st using that by (rule close_owner_inv)
  show "alloc_ok zeroed" by (rule zeroed_ok)
  show "(7::APTR) \<noteq> 0" by simp
  show "arg_ok BIOCSETF (Some sample_arg)" by code_simp
qed

text \<open>
  \<^verbatim>\<open>BIOCSETF\<close> with a program: exactly when the validator accepts the copy of it, the copy
  becomes the channel's filter and what was buffered is discarded; otherwise the answer is
  \<^verbatim>\<open>EINVAL\<close> and nothing changes.
\<close>

lemma bpf_setf_exact:
  assumes "ami_bpf_chan_get st owner channel = Inr i" and "ba_insns arg = Some (False, is)"
    and "ba_len arg \<noteq> 0" and "ba_len arg \<le> BPF_MAXINSNS" and "unat (ba_len arg) \<le> length is"
    and "alloc (ba_len arg * 8) \<noteq> None"
  shows "ami_bpf_ioctl (\<lambda>n st. st) alloc hook st owner channel BIOCSETF (Some (arg\<lparr>ba_odd := False\<rparr>)) = Some
    (if bpf_program_ok (take (unat (ba_len arg)) is) (ba_len arg)
     then (0, ba_mem arg, set_chan st i ((bs_chan st ! i)
            \<lparr>ch_filter := Some (take (unat (ba_len arg)) is), ch_filter_len := ba_len arg,
             ch_store_len := 0, ch_hold_len := 0, ch_hold_pos := 0\<rparr>))
     else (AMI_BPF_EINVAL, ba_mem arg, st))"
proof -
  have cmds: "AMI_BPF_CMD BIOCSETF \<noteq> AMI_BPF_CMD AMI_BPF_FIONREAD"
    "AMI_BPF_CMD BIOCSETF \<noteq> AMI_BPF_CMD BIOCGBLEN" "AMI_BPF_CMD BIOCSETF \<noteq> AMI_BPF_CMD BIOCSBLEN"
    by code_simp+
  have "ami_bpf_validate (Some (take (unat (ba_len arg)) is)) (ba_len arg)
    = Some (if bpf_program_ok (take (unat (ba_len arg)) is) (ba_len arg) then 0 else -1)"
    using assms(5) by (intro ami_bpf_validate_eq) simp
  moreover have "(BPF_MAXINSNS < ba_len arg) = False" using assms(4) by auto
  ultimately show ?thesis using assms cmds
    by (simp add: ami_bpf_ioctl_def ioctl_command_def ami_bpf_ioctl_setf_def ami_bpf_ioctl_snapshot_def
        ami_bpf_ioctl_revalidate_def load_program_def rd_range_def install_filter_def Let_def)
qed

text \<open>
  The dispatch drops the parameter length of a command code, so that a caller built with
  another size of its argument structure reaches the same handler.
\<close>

lemma bpf_cmd_any_length: "AMI_BPF_CMD (IOC inout grp num len) = AMI_BPF_CMD (IOC inout grp num len')"
proof -
  have m: "(0xe0000000 OR 0x0000FFFF :: ULONG) = NOT (push_bit 16 (mask 13))" and f: "(0x1fff :: ULONG) = mask 13"
    by (simp_all add: mask_eq_exp_minus_1)
  show ?thesis unfolding AMI_BPF_CMD_def IOC_def m f by (rule bit_word_eqI) (auto simp: bit_simps)
qed

text \<open>
  A timeout set with \<^verbatim>\<open>BIOCSRTIMEOUT\<close> is the timeout \<^verbatim>\<open>BIOCGRTIMEOUT\<close> reports, byte for byte.
\<close>

lemma bpf_timeout_roundtrip:
  assumes "bpf_inv st" and "ioctl_srtimeout st owner channel mem = Some (0, mem, st')"
    and "8 \<le> length mem2"
  shows "ioctl_grtimeout st' owner channel mem2 = Some (0, take 8 mem @ drop 8 mem2, st')"
proof -
  from assms(2) obtain sec usec i where mem: "get_be mem 0 4 = Some sec" "get_be mem 4 4 = Some usec"
    and get: "ami_bpf_chan_get st owner channel = Inr i"
    and st': "st' = set_chan st i ((bs_chan st ! i)\<lparr>ch_rtimeout_sec := sec, ch_rtimeout_usec := usec\<rparr>)"
    by (auto simp: ioctl_srtimeout_def locked_def ami_bpf_chan_get_def
        split: sum.splits if_splits Option.bind_splits)
  have i: "i < length (bs_chan st)" using chan_get_Inr(1) [OF get] assms(1) by (simp add: bpf_inv_def)
  have len: "8 \<le> length mem" "sec = be_val (take 4 mem)" "usec = be_val (take 4 (drop 4 mem))"
    using mem by (auto simp: get_be_def rd_range_def split: if_splits)
  have "be32 sec @ be32 usec = take 8 mem"
    using len be32_be_val [of "take 4 mem"] be32_be_val [of "take 4 (drop 4 mem)"] take_add [of 4 4 mem] by simp
  moreover have "ami_bpf_chan_get st' owner channel = Inr i"
    using get i unfolding st' by (auto simp: ami_bpf_chan_get_def nth_list_update split: if_splits)
  ultimately show ?thesis using i assms(3) len(1)
    by (simp add: ioctl_grtimeout_def locked_def answer_def wr_range_def st')
qed

text \<open>
  The library reports every failure of the capture layer by \<open>-1\<close> and the matching errno,
  a status it does not know as \<^verbatim>\<open>EINVAL\<close>, and passes every success through.
\<close>

lemma bsd_bpf_result_exact:
  "bsd_bpf_result status =
     (if 0 \<le> status then (status, None)
      else (-1, Some (if status = AMI_BPF_ENXIO then 6 else if status = AMI_BPF_EPERM then 1
        else if status = AMI_BPF_EBUSY then 16 else if status = AMI_BPF_EINTR then 4
        else if status = AMI_BPF_EIO then 5 else if status = AMI_BPF_ENOBUFS then 55
        else if status = AMI_BPF_EMSGSIZE then 40 else 22)))"
proof -
  consider "0 \<le> status" | "status = -1" | "status = -2" | "status = -3" | "status = -4" | "status = -5"
    | "status = -6" | "status = -7" | "status = -8" | "status < -8" by linarith
  then show ?thesis by cases (simp_all add: bsd_bpf_result_def bsd_bpf_errno_def)
qed

end
