(* ===== verification/Bpf_Sections.thy ===== *)
theory Bpf_Sections
  imports Bpf_Ioctl
begin

text \<open>
  The critical sections of \<^verbatim>\<open>src/bpf/\<close> and the reads in progress as one system, and what holds of every
  interleaving of its steps. \<open>bpf_section\<close> has one rule for each stretch of code between
  \<^verbatim>\<open>ami_bpf_lock()\<close> and \<^verbatim>\<open>ami_bpf_unlock()\<close> that ends a call's use of the table or lets it come back to it
  afresh. A read holds on to what it saw: \<open>bpf_reader\<close> is where a task is between its marking the channel
  and its return, with its own variables, and \<open>system_step\<close> adds the steps of these tasks. Nothing in the rules
  says that what a reader remembers still fits the table; that is proved.

  Start-up (\<^verbatim>\<open>ami_bpf_init\<close>) and the forced release of the teardown (\<^verbatim>\<open>ami_bpf_cleanup\<close>) are steps that are
  taken only while no read is in progress. The code does not make sure of that: the comment above \<^verbatim>\<open>ami_bpf_cleanup\<close>
  says that it does not wait for a copy-out. The last property of this theory shows what the forced release does
  to a copy that is under way.
\<close>

section \<open>Sections\<close>

inductive bpf_section :: "bpf_state \<Rightarrow> bpf_state \<Rightarrow> bool" where
  sec_capture: "\<lbrakk>view_ok view; unat (vw_caplen view) + 20 < 2 ^ 32; i < AMI_BPF_MAX_CHANNELS;
     capture_one got now cookie view i st = Some (go_on, st')\<rbrakk> \<Longrightarrow> bpf_section st st'"
| sec_open: "bpf_section st (snd (ami_bpf_open st owner channel))"
| sec_close: "bpf_section st (snd (ami_bpf_close st owner channel))"
| sec_release: "i < AMI_BPF_MAX_CHANNELS \<Longrightarrow> bpf_section st (ami_bpf_chan_release st i False owner)"
| sec_attach: "bpf_section st (snd (ami_bpf_attach_interface st name cookie dlt mtu inject))"
| sec_detach: "bpf_section st (ami_bpf_detach_interface st cookie)"
| sec_hook: "bpf_section st (ami_bpf_set_capture_hook st fn)"
| sec_notify: "bpf_section st (snd (ami_bpf_set_notify_mask task st owner channel m))"
| sec_interrupt: "bpf_section st (snd (ami_bpf_set_interrupt_mask task st owner channel m))"
| sec_sblen: "ioctl_sblen st owner channel mem = Some (s, mem', st') \<Longrightarrow> bpf_section st st'"
| sec_flush: "ioctl_flush st owner channel mem = Some (s, mem', st') \<Longrightarrow> bpf_section st st'"
| sec_promisc: "ioctl_promisc st owner channel mem = Some (s, mem', st') \<Longrightarrow> bpf_section st st'"
| sec_srtimeout: "ioctl_srtimeout st owner channel mem = Some (s, mem', st') \<Longrightarrow> bpf_section st st'"
| sec_immediate: "ioctl_immediate st owner channel mem = Some (s, mem', st') \<Longrightarrow> bpf_section st st'"
| sec_setif: "\<lbrakk>owner \<noteq> 0; ami_bpf_ioctl_revalidate st owner channel g = Inr i;
     ami_bpf_iface_by_name st nm = Some j;
     \<forall>b. base = Some b \<longrightarrow> length b = 2 * unat (clamp_blen w)\<rbrakk>
     \<Longrightarrow> bpf_section st (bind_chan st i j (install_buffers base (clamp_blen w) (bs_chan st ! i)))"
| sec_setf: "\<lbrakk>ami_bpf_ioctl_revalidate st owner channel g = Inr i;
     load_program alloc count insns = Some (Inr copy);
     \<forall>b is. insns = Some (b, is) \<longrightarrow> unat count \<le> length is\<rbrakk>
     \<Longrightarrow> bpf_section st (set_chan st i (install_filter copy count (bs_chan st ! i)))"
| sec_turn: "bpf_section st (snd (read_turn st owner channel g))"

section \<open>Reads in progress\<close>

text \<open>
  A task that has marked channel \<open>i\<close> and will copy \<open>n\<close> bytes from \<open>src\<close> on, one that has copied and will take the
  lock to set the position, and one that found a release pending when it did.
\<close>

datatype bpf_reader = Rd_Copy nat ULONG nat nat | Rd_Copied nat ULONG | Rd_Release nat

record bpf_system =
  sy_table :: bpf_state
  sy_reader :: "nat \<Rightarrow> bpf_reader option"

definition no_reader :: "bpf_system \<Rightarrow> bool" where
  "no_reader sy \<longleftrightarrow> (\<forall>t. sy_reader sy t = None)"

text \<open>The label is the task that reads; the sections of all other calls have none.\<close>

inductive system_step :: "nat option \<Rightarrow> bpf_system \<Rightarrow> bpf_system \<Rightarrow> bool" where
  step_section: "bpf_section (sy_table sy) st' \<Longrightarrow> system_step None sy (sy\<lparr>sy_table := st'\<rparr>)"
| step_begin: "\<lbrakk>sy_reader sy t = None; read_turn (sy_table sy) owner channel g = (Read_Data i, st1);
     0 < len; len < 2 ^ 31; read_mark st1 i len = Some (Some (pos, src, n), st2)\<rbrakk>
     \<Longrightarrow> system_step (Some t) sy (sy\<lparr>sy_table := st2, sy_reader := (sy_reader sy)(t \<mapsto> Rd_Copy i pos src (unat n))\<rparr>)"
| step_copy: "\<lbrakk>sy_reader sy t = Some (Rd_Copy i pos src n); copy_out (sy_table sy) i src n = Some bytes\<rbrakk>
     \<Longrightarrow> system_step (Some t) sy (sy\<lparr>sy_reader := (sy_reader sy)(t \<mapsto> Rd_Copied i pos)\<rparr>)"
| step_finish: "\<lbrakk>sy_reader sy t = Some (Rd_Copied i pos); st' = read_finish (sy_table sy) i pos\<rbrakk>
     \<Longrightarrow> system_step (Some t) sy (sy\<lparr>sy_table := st', sy_reader :=
       (sy_reader sy)(t := if ch_release_pending (bs_chan st' ! i) then Some (Rd_Release i) else None)\<rparr>)"
| step_release: "sy_reader sy t = Some (Rd_Release i)
     \<Longrightarrow> system_step (Some t) sy (sy\<lparr>sy_table := ami_bpf_chan_release (sy_table sy) i False 0,
       sy_reader := (sy_reader sy)(t := None)\<rparr>)"
| step_cleanup: "\<lbrakk>no_reader sy; i < AMI_BPF_MAX_CHANNELS\<rbrakk>
     \<Longrightarrow> system_step None sy (sy\<lparr>sy_table := ami_bpf_chan_release (sy_table sy) i True 0\<rparr>)"
| step_init: "no_reader sy \<Longrightarrow> system_step None sy (sy\<lparr>sy_table := snd (ami_bpf_init (sy_table sy))\<rparr>)"

definition any_step :: "bpf_system \<Rightarrow> bpf_system \<Rightarrow> bool" where
  "any_step sy sy' \<longleftrightarrow> (\<exists>l. system_step l sy sy')"

text \<open>The steps of all tasks but one.\<close>

definition other_step :: "nat \<Rightarrow> bpf_system \<Rightarrow> bpf_system \<Rightarrow> bool" where
  "other_step t sy sy' \<longleftrightarrow> (\<exists>l. l \<noteq> Some t \<and> system_step l sy sy')"

definition bpf_reachable :: "bpf_system \<Rightarrow> bool" where
  "bpf_reachable sy \<longleftrightarrow>
     (\<exists>st0. hook_ok st0 \<and> any_step\<^sup>*\<^sup>* \<lparr>sy_table = snd (ami_bpf_init st0), sy_reader = \<lambda>_. None\<rparr> sy)"

section \<open>The table at the end of a section\<close>

lemma finish_flushed:
  assumes "chan_ok ifs ch" and "ch_reading ch" and "ch_hold_len ch = 0"
  shows "chan_ok ifs (finish_chan ch pos)"
proof -
  have st: "holds (store_area (finish_chan ch pos)) 0 (unat (ch_store_len (finish_chan ch pos))) (store_recs ch)"
    using assms(1) by (simp add: chan_ok_def recs_ok_def)
  have "holds (hold_area (finish_chan ch pos)) (unat (ch_hold_pos (finish_chan ch pos)))
      (unat (ch_hold_len (finish_chan ch pos))) []"
    using assms(3) by (simp add: finish_chan_pos)
  note r = recs_okI(1) [OF this st]
  have "bufs_ok (finish_chan ch pos)"
    using assms by (auto simp: chan_ok_def bufs_ok_def finish_chan_pos split: option.splits)
  moreover have "filter_ok (finish_chan ch pos)" "iface_ok ifs (finish_chan ch pos)"
    using assms(1) by (simp_all add: chan_ok_def filter_ok_def iface_ok_def cong: option.case_cong)
  ultimately show ?thesis using r assms reading_open [OF assms(1,2)] by (simp add: chan_ok_def)
qed

lemma finish_section_inv:
  assumes inv: "bpf_inv st" and i: "i < AMI_BPF_MAX_CHANNELS" and rd: "ch_reading (bs_chan st ! i)"
    and k: "k \<le> length (hold_recs (bs_chan st ! i))"
    and pos: "ch_hold_len (bs_chan st ! i) \<noteq> 0 \<longrightarrow>
       unat pos = unat (ch_hold_pos (bs_chan st ! i)) + aspan (take k (hold_recs (bs_chan st ! i)))"
  shows "bpf_inv (read_finish st i pos)"
proof (cases "ch_hold_len (bs_chan st ! i) = 0")
  case True
  show ?thesis unfolding read_finish_def
    by (rule inv_same_binding [OF inv i finish_flushed [OF inv_chan [OF inv i] rd True]]) simp
next
  case False
  then show ?thesis using pos k by (intro read_finish_inv [OF inv inv i False]) (simp_all add: reader_frame_refl rd)
qed

lemma begin_section_inv:
  assumes inv: "bpf_inv st" and i: "i < AMI_BPF_MAX_CHANNELS" and len0: "ch_hold_len (bs_chan st ! i) \<noteq> 0"
  shows "bpf_inv (set_chan st i ((bs_chan st ! i)\<lparr>ch_reading := True\<rparr>))"
proof -
  obtain b where "ch_bufbase (bs_chan st ! i) = Some b" "ch_open (bs_chan st ! i)"
    by (rule hold_data [OF inv_chan [OF inv i] len0])
  then show ?thesis by (intro inv_same_binding [OF inv i set_reading(1) [OF inv_chan [OF inv i]]]) simp_all
qed

lemma setf_section_inv:
  assumes inv: "bpf_inv st" and rev: "ami_bpf_ioctl_revalidate st owner channel g = Inr i"
    and load: "load_program alloc count insns = Some (Inr copy)"
    and len: "\<forall>b is. insns = Some (b, is) \<longrightarrow> unat count \<le> length is"
  shows "bpf_inv (set_chan st i (install_filter copy count (bs_chan st ! i)))"
proof -
  note k = chan_get_Inr [OF revalidate_Inr(1) [OF rev]]
  obtain r where "load_program alloc count insns = Some r"
    and r: "\<And>copy. r = Inr copy \<Longrightarrow> (copy = None \<longrightarrow> count = 0) \<and>
      (\<forall>p. copy = Some p \<longrightarrow> length p = unat count \<and> bpf_program_ok p count)"
    by (rule load_program_spec [where alloc = alloc and insns = insns and count = count]) (use len in auto)
  with load have "(copy = None \<longrightarrow> count = 0) \<and> (\<forall>p. copy = Some p \<longrightarrow> length p = unat count \<and> bpf_program_ok p count)"
    by auto
  then have "chan_ok (bs_iface st) (install_filter copy count (bs_chan st ! i))"
    using emptied_ok [OF inv_chan [OF inv k(1)] k(2), of copy count
        "ch_drop_count (bs_chan st ! i)" "ch_recv_count (bs_chan st ! i)"]
    by (simp add: install_filter_def)
  then show ?thesis by (intro inv_same_binding [OF inv k(1)]) (simp_all add: install_filter_def)
qed

lemma long_argument:
  "ioctl_sblen st owner channel mem = Some r \<Longrightarrow> 4 \<le> length mem"
  "ioctl_srtimeout st owner channel mem = Some r \<Longrightarrow> 8 \<le> length mem"
  "ioctl_immediate st owner channel mem = Some r \<Longrightarrow> 4 \<le> length mem"
  by (auto simp: ioctl_sblen_def ioctl_srtimeout_def ioctl_immediate_def get_be_def rd_range_def
      split: Option.bind_splits if_splits)

lemma section_inv:
  assumes "bpf_section st st'" and "bpf_inv st"
  shows "bpf_inv st'"
  using assms
proof (cases rule: bpf_section.cases)
  case (sec_capture view i got now cookie go_on)
  then show ?thesis
    using capture_one_spec [OF assms(2) sec_capture(3,1,2), of "\<lambda>_. got" "\<lambda>_. now" cookie] by (metis option.inject prod.inject)
next
  case (sec_sblen owner channel mem s mem')
  then show ?thesis using sblen_good [OF assms(2) long_argument(1)] by (metis good_Some)
next
  case (sec_flush owner channel mem s mem')
  then show ?thesis using flush_good [OF assms(2)] by (metis good_Some)
next
  case (sec_promisc owner channel mem s mem')
  then show ?thesis using promisc_good [OF assms(2)] by (metis good_Some)
next
  case (sec_srtimeout owner channel mem s mem')
  then show ?thesis using modes_good(1) [OF assms(2) long_argument(2)] by (metis good_Some)
next
  case (sec_immediate owner channel mem s mem')
  then show ?thesis using modes_good(2) [OF assms(2) long_argument(3)] by (metis good_Some)
next
  case (sec_setif owner channel g i nm j base w)
  then show ?thesis using setif_commit [OF assms(2)] by blast
next
  case (sec_setf owner channel g i alloc count insns copy)
  then show ?thesis using setf_section_inv [OF assms(2)] by blast
next
  case (sec_turn owner channel g)
  then show ?thesis using read_turn_spec(1) [OF assms(2)] by (metis prod.collapse)
qed (use assms(2) in \<open>auto intro: open_inv close_inv release_inv attach_inv detach_inv set_capture_hook_inv masks_inv\<close>)

section \<open>Nobody touches a buffer that is being read\<close>

lemma frame_set_chan:
  assumes "bpf_inv st" and "k < AMI_BPF_MAX_CHANNELS" and "ch_reading (bs_chan st ! k)"
    and "k = i \<Longrightarrow> reader_frame (bs_chan st ! i) ch"
  shows "reader_frame (bs_chan st ! k) ((bs_chan st)[i := ch] ! k)"
  using assms by (cases "k = i") (auto simp: bpf_inv_def reader_frame_refl)

lemma emptied_frame:
  assumes "ch_reading ch"
  shows "reader_frame ch (ch\<lparr>ch_store_len := 0, ch_hold_len := 0, ch_hold_pos := 0, ch_recv_count := 0,
      ch_drop_count := 0\<rparr>)"
    and "reader_frame ch (install_filter copy count ch)"
  using assms by (simp_all add: reader_frame_def hold_area_def install_filter_def cong: option.case_cong)

lemma same_core_frame: "same_core ch ch' \<Longrightarrow> ch_reading ch \<Longrightarrow> reader_frame ch ch'"
  using same_core_areas(1) [of ch ch'] by (auto simp: reader_frame_def same_core_def)

lemma capture_frame_reader: "capture_frame ch ch' \<Longrightarrow> ch_reading ch \<Longrightarrow> reader_frame ch ch'"
  by (auto simp: reader_frame_def capture_frame_def)

lemma rebind_frame:
  assumes "bpf_inv st" and "k < AMI_BPF_MAX_CHANNELS" and "ch_reading (bs_chan st ! k)"
    and "bs_chan st0 = bs_chan st"
  shows "reader_frame (bs_chan st ! k) (bs_chan (ami_bpf_chan_rebind_locked st0 j) ! k)"
    and "reader_frame (bs_chan st ! k) (bs_chan (ami_bpf_chan_unbind_locked st0 j) ! k)"
proof -
  let ?P = "\<lambda>s. length (bs_chan s) = AMI_BPF_MAX_CHANNELS \<and> reader_frame (bs_chan st ! k) (bs_chan s ! k)"
  have P0: "?P st0" using assms by (simp add: bpf_inv_def reader_frame_refl)
  have upd: "reader_frame a (b\<lparr>ch_iface := x, ch_dlt := d\<rparr>)" "reader_frame a (b\<lparr>ch_iface := x\<rparr>)"
    if "reader_frame a b" for a b x d
    using that by (auto simp: reader_frame_def hold_area_def split: option.splits)
  have rb: "?P (rebind_one j i s)" if "?P s" "i < AMI_BPF_MAX_CHANNELS" for i s
    using that upd(1) by (cases "i = k") (auto simp: rebind_one_def Let_def)
  have ub: "?P (unbind_one j i s)" if "?P s" "i < AMI_BPF_MAX_CHANNELS" for i s
    using that upd(2) by (cases "i = k") (auto simp: unbind_one_def Let_def)
  show "reader_frame (bs_chan st ! k) (bs_chan (ami_bpf_chan_rebind_locked st0 j) ! k)"
    using fold_channels [of AMI_BPF_MAX_CHANNELS ?P "rebind_one j" st0, OF rb P0]
    by (simp add: ami_bpf_chan_rebind_locked_def)
  show "reader_frame (bs_chan st ! k) (bs_chan (ami_bpf_chan_unbind_locked st0 j) ! k)"
    using fold_channels [of AMI_BPF_MAX_CHANNELS ?P "unbind_one j" st0, OF ub P0]
    by (simp add: ami_bpf_chan_unbind_locked_def)
qed

lemma release_frame:
  assumes "bpf_inv st" and "k < AMI_BPF_MAX_CHANNELS" and "ch_reading (bs_chan st ! k)"
  shows "reader_frame (bs_chan st ! k) (bs_chan (ami_bpf_chan_release st i False owner) ! k)"
proof -
  have "reader_frame ch (ch\<lparr>ch_owner := 0, ch_iface := None, ch_release_pending := True\<rparr>)" if "ch_reading ch" for ch
    using that by (auto simp: reader_frame_def hold_area_def split: option.splits)
  then show ?thesis using assms
    by (cases "k = i") (auto simp: ami_bpf_chan_release_def Let_def bpf_inv_def reader_frame_refl)
qed

lemma open_close_frame:
  assumes "bpf_inv st" and "k < AMI_BPF_MAX_CHANNELS" and "ch_reading (bs_chan st ! k)"
  shows "reader_frame (bs_chan st ! k) (bs_chan (snd (ami_bpf_open st owner channel)) ! k)"
    and "reader_frame (bs_chan st ! k) (bs_chan (snd (ami_bpf_close st owner channel)) ! k)"
proof -
  have op: "ch_open (bs_chan st ! k)" by (rule reading_open [OF inv_chan [OF assms(1,2)] assms(3)])
  show "reader_frame (bs_chan st ! k) (bs_chan (snd (ami_bpf_open st owner channel)) ! k)"
  proof (cases "ami_bpf_open st owner channel")
    case (Pair s st')
    then have "st' = st \<or> (\<exists>i. i \<noteq> k \<and> st' = open_slot st owner i)"
      using op by (auto simp: ami_bpf_open_def split: if_splits option.splits)
    then show ?thesis using Pair assms(3) by (auto simp: open_slot_def reader_frame_refl)
  qed
  show "reader_frame (bs_chan st ! k) (bs_chan (snd (ami_bpf_close st owner channel)) ! k)"
    using assms(3) reader_frame_refl [OF assms(3)]
    by (auto simp: ami_bpf_close_def Let_def split: sum.splits intro!: frame_set_chan [OF assms])
qed

lemma command_frame:
  assumes "bpf_inv st" and "k < AMI_BPF_MAX_CHANNELS" and "ch_reading (bs_chan st ! k)"
  shows "ioctl_sblen st owner channel mem = Some (s, mem', st') \<Longrightarrow> reader_frame (bs_chan st ! k) (bs_chan st' ! k)"
    and "ioctl_flush st owner channel mem = Some (s, mem', st') \<Longrightarrow> reader_frame (bs_chan st ! k) (bs_chan st' ! k)"
    and "ioctl_promisc st owner channel mem = Some (s, mem', st') \<Longrightarrow> reader_frame (bs_chan st ! k) (bs_chan st' ! k)"
    and "ioctl_srtimeout st owner channel mem = Some (s, mem', st') \<Longrightarrow> reader_frame (bs_chan st ! k) (bs_chan st' ! k)"
    and "ioctl_immediate st owner channel mem = Some (s, mem', st') \<Longrightarrow> reader_frame (bs_chan st ! k) (bs_chan st' ! k)"
    and "reader_frame (bs_chan st ! k) (bs_chan (snd (ami_bpf_set_notify_mask task st owner channel m)) ! k)"
    and "reader_frame (bs_chan st ! k) (bs_chan (snd (ami_bpf_set_interrupt_mask task st owner channel m)) ! k)"
proof -
  note fs = frame_set_chan [OF assms] and rf = reader_frame_refl [OF assms(3)]
  have fsc: "reader_frame (bs_chan st ! k) ((bs_chan st)[i := ch] ! k)" if "same_core (bs_chan st ! i) ch" for i ch
    using that assms(3) by (intro fs same_core_frame) auto
  have buf: "ch_bufbase (bs_chan st ! k) \<noteq> None"
    using inv_chan [OF assms(1,2)] assms(3) by (auto simp: chan_ok_def bufs_ok_def)
  show "ioctl_sblen st owner channel mem = Some (s, mem', st') \<Longrightarrow> reader_frame (bs_chan st ! k) (bs_chan st' ! k)"
    using rf buf by (auto simp: ioctl_sblen_def locked_def answer_def Let_def
        split: sum.splits if_splits Option.bind_splits intro!: fs)
  show "ioctl_flush st owner channel mem = Some (s, mem', st') \<Longrightarrow> reader_frame (bs_chan st ! k) (bs_chan st' ! k)"
    using rf assms(3) by (auto simp: ioctl_flush_def locked_def split: sum.splits
        intro!: fs emptied_frame(1))
  show "ioctl_promisc st owner channel mem = Some (s, mem', st') \<Longrightarrow> reader_frame (bs_chan st ! k) (bs_chan st' ! k)"
    "ioctl_srtimeout st owner channel mem = Some (s, mem', st') \<Longrightarrow> reader_frame (bs_chan st ! k) (bs_chan st' ! k)"
    "ioctl_immediate st owner channel mem = Some (s, mem', st') \<Longrightarrow> reader_frame (bs_chan st ! k) (bs_chan st' ! k)"
    "reader_frame (bs_chan st ! k) (bs_chan (snd (ami_bpf_set_notify_mask task st owner channel m)) ! k)"
    "reader_frame (bs_chan st ! k) (bs_chan (snd (ami_bpf_set_interrupt_mask task st owner channel m)) ! k)"
    using rf assms(3) by (auto simp: ioctl_promisc_def ioctl_srtimeout_def ioctl_immediate_def locked_def
        ami_bpf_set_notify_mask_def ami_bpf_set_interrupt_mask_def same_core_def
        split: sum.splits Option.bind_splits intro!: fsc)
qed

lemma setif_frame:
  assumes "bpf_inv st" and "k < AMI_BPF_MAX_CHANNELS" and "ch_reading (bs_chan st ! k)"
  shows "reader_frame (bs_chan st ! k) (bs_chan (bind_chan st i j (install_buffers base w (bs_chan st ! i))) ! k)"
proof -
  have buf: "ch_bufbase (bs_chan st ! k) \<noteq> None"
    using inv_chan [OF assms(1,2)] assms(3) by (auto simp: chan_ok_def bufs_ok_def)
  have "reader_frame ch (install_buffers base w ch\<lparr>ch_iface := x, ch_dlt := d, ch_ifname := n\<rparr>)"
    if "ch_reading ch" "ch_bufbase ch \<noteq> None" for ch x d n
    using that by (auto simp: install_buffers_def reader_frame_def hold_area_def split: option.splits)
  then show ?thesis using buf assms(3)
    by (auto simp: bind_chan_def Let_def intro!: frame_set_chan [OF assms])
qed

lemma turn_frame:
  assumes "bpf_inv st" and "k < AMI_BPF_MAX_CHANNELS" and "ch_reading (bs_chan st ! k)"
  shows "reader_frame (bs_chan st ! k) (bs_chan (snd (read_turn st owner channel g)) ! k)"
  using assms(3) reader_frame_refl [OF assms(3)]
  by (auto simp: read_turn_def Let_def split: sum.splits intro!: frame_set_chan [OF assms])

lemma capture_one_frame:
  assumes "bpf_inv st" and "k < AMI_BPF_MAX_CHANNELS" and "ch_reading (bs_chan st ! k)"
    and "view_ok view" and "unat (vw_caplen view) + 20 < 2 ^ 32" and "i < AMI_BPF_MAX_CHANNELS"
    and "capture_one got now cookie view i st = Some (go_on, st')"
  shows "reader_frame (bs_chan st ! k) (bs_chan st' ! k)"
proof -
  obtain go st1 where one: "capture_one got now cookie view i st = Some (go, st1)"
    and other: "\<And>k. k \<noteq> i \<Longrightarrow> bs_chan st1 ! k = bs_chan st ! k"
    and tap: "taps (\<lambda>_. got) cookie st i \<Longrightarrow> captured (\<lambda>_. now) view i (bs_chan st ! i) (bs_chan st1 ! i)"
    and skip: "\<not> taps (\<lambda>_. got) cookie st i \<Longrightarrow> st1 = st"
    by (rule capture_one_spec [OF assms(1,6,4,5), of "\<lambda>_. got" "\<lambda>_. now" cookie]) blast
  have "st1 = st'" using one assms(7) by simp
  then show ?thesis
    using other [of k] tap skip assms(3) reader_frame_refl [OF assms(3)]
    by (cases "k = i"; cases "taps (\<lambda>_. got) cookie st i") (auto simp: captured_def intro: capture_frame_reader)
qed

lemma section_frame:
  assumes "bpf_section st st'" and inv: "bpf_inv st" and k: "k < AMI_BPF_MAX_CHANNELS" and rd: "ch_reading (bs_chan st ! k)"
  shows "reader_frame (bs_chan st ! k) (bs_chan st' ! k)"
  using assms(1)
proof (cases rule: bpf_section.cases)
  case (sec_capture view i got now cookie go_on)
  then show ?thesis using capture_one_frame [OF inv k rd] by blast
next
  case (sec_attach name cookie dlt mtu inject)
  then show ?thesis using rebind_frame(1) [OF inv k rd] reader_frame_refl [OF rd]
    by (auto simp: ami_bpf_attach_interface_def split: option.splits)
next
  case (sec_detach cookie)
  then show ?thesis using rebind_frame(2) [OF inv k rd] reader_frame_refl [OF rd]
    by (auto simp: ami_bpf_detach_interface_def Let_def split: option.splits)
next
  case (sec_hook fn)
  then show ?thesis using reader_frame_refl [OF rd] by (simp add: ami_bpf_set_capture_hook_def)
next
  case (sec_setf owner channel g i alloc count insns copy)
  then show ?thesis using rd by (auto intro!: frame_set_chan [OF inv k rd] emptied_frame(2))
qed (use open_close_frame [OF inv k rd] release_frame [OF inv k rd] command_frame [OF inv k rd]
     setif_frame [OF inv k rd] turn_frame [OF inv k rd] in \<open>auto\<close>)

section \<open>The invariant of the system\<close>

text \<open>
  What a reader remembers: its channel is marked, the position it will set is a record boundary unless the
  buffer was emptied meanwhile, and the bytes it will copy are whole records of the hold buffer.
\<close>

definition at_boundary :: "bpf_state \<Rightarrow> nat \<Rightarrow> ULONG \<Rightarrow> bool" where
  "at_boundary st i pos \<longleftrightarrow>
     i < AMI_BPF_MAX_CHANNELS \<and> ch_reading (bs_chan st ! i) \<and>
     (ch_hold_len (bs_chan st ! i) \<noteq> 0 \<longrightarrow> (\<exists>k \<le> length (hold_recs (bs_chan st ! i)).
        unat pos = unat (ch_hold_pos (bs_chan st ! i)) + aspan (take k (hold_recs (bs_chan st ! i)))))"

definition copies_records :: "AmiBpfChan \<Rightarrow> nat \<Rightarrow> nat \<Rightarrow> bool" where
  "copies_records ch src n \<longleftrightarrow>
     (\<exists>off p rs. ch_hold ch = Some off \<and> src = off + p \<and> p + n \<le> unat (ch_blen ch) \<and> rs \<noteq> [] \<and> n = span rs \<and>
        parse_area (take n (drop p (hold_area ch))) 0 n = rs)"

definition reader_ok :: "bpf_state \<Rightarrow> bpf_reader \<Rightarrow> bool" where
  "reader_ok st r =
     (case r of Rd_Copy i pos src n \<Rightarrow> at_boundary st i pos \<and> copies_records (bs_chan st ! i) src n
      | Rd_Copied i pos \<Rightarrow> at_boundary st i pos
      | Rd_Release i \<Rightarrow> i < AMI_BPF_MAX_CHANNELS)"

definition marks :: "bpf_reader \<Rightarrow> nat option" where
  "marks r = (case r of Rd_Copy i pos src n \<Rightarrow> Some i | Rd_Copied i pos \<Rightarrow> Some i | Rd_Release i \<Rightarrow> None)"

definition system_inv :: "bpf_system \<Rightarrow> bool" where
  "system_inv sy \<longleftrightarrow>
     bpf_inv (sy_table sy) \<and> (\<forall>t r. sy_reader sy t = Some r \<longrightarrow> reader_ok (sy_table sy) r) \<and>
     (\<forall>t u r q i. sy_reader sy t = Some r \<and> sy_reader sy u = Some q \<and> marks r = Some i \<and> marks q = Some i \<longrightarrow> t = u)"

lemma system_invD:
  assumes "system_inv sy"
  shows "bpf_inv (sy_table sy)" and "sy_reader sy t = Some r \<Longrightarrow> reader_ok (sy_table sy) r"
    and "sy_reader sy t = Some r \<Longrightarrow> sy_reader sy u = Some q \<Longrightarrow> marks r = Some i \<Longrightarrow> marks q = Some i \<Longrightarrow> t = u"
  using assms unfolding system_inv_def by blast+

lemma system_invI:
  assumes "bpf_inv (sy_table sy)" and "\<And>t r. sy_reader sy t = Some r \<Longrightarrow> reader_ok (sy_table sy) r"
    and "\<And>t u r q i. sy_reader sy t = Some r \<Longrightarrow> sy_reader sy u = Some q \<Longrightarrow> marks r = Some i \<Longrightarrow> marks q = Some i \<Longrightarrow> t = u"
  shows "system_inv sy"
  using assms unfolding system_inv_def by blast

lemma frame_boundary:
  assumes "at_boundary st i pos" and "reader_frame (bs_chan st ! i) (bs_chan st' ! i)"
  shows "at_boundary st' i pos"
proof -
  have "hold_recs (bs_chan st' ! i) = hold_recs (bs_chan st ! i)" if "ch_hold_len (bs_chan st' ! i) \<noteq> 0"
    using assms(2) that by (auto simp: reader_frame_def hold_recs_def)
  then show ?thesis using assms by (auto simp: at_boundary_def reader_frame_def)
qed

lemma frame_copies:
  "copies_records ch src n \<Longrightarrow> reader_frame ch ch' \<Longrightarrow> copies_records ch' src n"
  by (simp add: copies_records_def reader_frame_def)

lemma frame_reader_ok:
  assumes "reader_ok st r" and "\<And>i. marks r = Some i \<Longrightarrow> i < AMI_BPF_MAX_CHANNELS \<Longrightarrow> ch_reading (bs_chan st ! i) \<Longrightarrow>
    reader_frame (bs_chan st ! i) (bs_chan st' ! i)"
  shows "reader_ok st' r"
proof (cases "marks r")
  case None
  then show ?thesis using assms(1) by (simp add: reader_ok_def marks_def split: bpf_reader.splits)
next
  case (Some i)
  then have "reader_frame (bs_chan st ! i) (bs_chan st' ! i)"
    using assms by (auto simp: reader_ok_def marks_def at_boundary_def split: bpf_reader.splits)
  then show ?thesis using assms(1) Some frame_boundary [of st] frame_copies
    by (auto simp: reader_ok_def marks_def split: bpf_reader.splits)
qed

lemma reader_reading:
  assumes "reader_ok st r" and "marks r = Some i"
  shows "i < AMI_BPF_MAX_CHANNELS" and "ch_reading (bs_chan st ! i)"
  using assms by (auto simp: reader_ok_def marks_def at_boundary_def split: bpf_reader.splits)

text \<open>What the marking section leaves behind.\<close>

lemma mark_ok:
  assumes inv: "bpf_inv st" and i: "i < AMI_BPF_MAX_CHANNELS" and len0: "ch_hold_len (bs_chan st ! i) \<noteq> 0"
    and l: "0 < len" "len < 2 ^ 31" and mark: "read_mark st i len = Some (Some (pos, src, n), st')"
  shows "st' = set_chan st i ((bs_chan st ! i)\<lparr>ch_reading := True\<rparr>)" and "bpf_inv st'"
    and "reader_ok st' (Rd_Copy i pos src (unat n))"
proof -
  let ?ch = "bs_chan st ! i" and ?recs = "hold_recs (bs_chan st ! i)"
  define k where "k = fit_count (nat len) ?recs"
  have ok: "chan_ok (bs_iface st) ?ch" by (rule inv_chan [OF inv i])
  obtain hold p stop where W: "hold_mem ?ch = Some hold"
      "read_walk hold (ch_hold_pos ?ch) (ch_hold_len ?ch) (of_int len) (ch_hold_pos ?ch) (ch_hold_pos ?ch) = Some (p, stop)"
      "unat p = unat (ch_hold_pos ?ch) + aspan (take k ?recs)"
      "if k = 0 then stop = ch_hold_pos ?ch
       else ch_hold_pos ?ch < stop \<and> unat stop = unat (ch_hold_pos ?ch) + span (take k ?recs) \<and> unat stop \<le> unat (ch_hold_len ?ch)"
    by (rule read_walk_chan [OF ok len0 l k_def])
  obtain b where b: "ch_bufbase ?ch = Some b" "ch_hold_len ?ch \<le> ch_blen ?ch" by (rule hold_data [OF ok len0])
  obtain off where off: "ch_hold ?ch = Some off" by (rule hold_mem_area [OF ok b(1)])
  have run: "pos = p" "src = off + unat (ch_hold_pos ?ch)" "n = stop - ch_hold_pos ?ch" "stop \<noteq> ch_hold_pos ?ch"
    and st': "st' = set_chan st i (?ch\<lparr>ch_reading := True\<rparr>)"
    using mark W(1,2) off by (auto simp: read_mark_def Let_def split: if_splits)
  then show "st' = set_chan st i (?ch\<lparr>ch_reading := True\<rparr>)" by simp
  show "bpf_inv st'" unfolding st' by (rule begin_section_inv [OF inv i len0])
  have k: "k \<noteq> 0" "k \<le> length ?recs" using W(4) run(4) fit_count_le [of "nat len" ?recs] by (auto simp: k_def [symmetric] split: if_splits)
  have stop: "ch_hold_pos ?ch < stop" "unat stop = unat (ch_hold_pos ?ch) + span (take k ?recs)" "unat stop \<le> unat (ch_hold_len ?ch)"
    using W(4) k(1) by simp_all
  have n: "unat n = span (take k ?recs)" unfolding run(3) using stop(1,2) by (subst unat_sub_le) (auto simp: word_le_nat_alt)
  have cur: "bs_chan st' ! i = ?ch\<lparr>ch_reading := True\<rparr>" using inv i by (simp add: st' bpf_inv_def)
  have same: "hold_recs (?ch\<lparr>ch_reading := True\<rparr>) = ?recs" "hold_area (?ch\<lparr>ch_reading := True\<rparr>) = hold_area ?ch"
    by (simp_all add: hold_recs_def hold_area_def cong: option.case_cong)
  have "at_boundary st' i pos" unfolding at_boundary_def cur same using i W(3) run(1) k(2) by auto
  moreover have "copies_records (bs_chan st' ! i) src (unat n)"
    unfolding copies_records_def cur same
  proof (intro exI conjI)
    show "ch_hold (?ch\<lparr>ch_reading := True\<rparr>) = Some off" using off by simp
    show "src = off + unat (ch_hold_pos ?ch)" by (rule run(2))
    show "unat (ch_hold_pos ?ch) + unat n \<le> unat (ch_blen (?ch\<lparr>ch_reading := True\<rparr>))"
      using n stop(2,3) b(2) by (simp add: word_le_nat_alt)
    show "take k ?recs \<noteq> []" using k by auto
    show "unat n = span (take k ?recs)" by (rule n)
    show "parse_area (take (unat n) (drop (unat (ch_hold_pos ?ch)) (hold_area ?ch))) 0 (unat n) = take k ?recs"
      using deliver_parse [OF ok len0 refl, of k "[]"] n stop(2,3) by simp
  qed
  ultimately show "reader_ok st' (Rd_Copy i pos src (unat n))" by (simp add: reader_ok_def)
qed

text \<open>A reader's copy is in bounds, and its bytes are whole records.\<close>

lemma copy_out_val:
  assumes inv: "bpf_inv st" and i: "i < AMI_BPF_MAX_CHANNELS" and rd: "ch_reading (bs_chan st ! i)"
    and off: "ch_hold (bs_chan st ! i) = Some off" and n: "p + n \<le> unat (ch_blen (bs_chan st ! i))"
  shows "copy_out st i (off + p) n = Some (take n (drop p (hold_area (bs_chan st ! i))))"
proof -
  have ok: "chan_ok (bs_iface st) (bs_chan st ! i)" by (rule inv_chan [OF inv i])
  then obtain b where b: "ch_bufbase (bs_chan st ! i) = Some b"
    using rd by (auto simp: chan_ok_def bufs_ok_def split: option.splits)
  have "length (hold_area (bs_chan st ! i)) = unat (ch_blen (bs_chan st ! i))" by (rule hold_mem_area [OF ok b])
  from hold_bytes [OF ok reader_frame_refl [OF rd] this off n] obtain b' where
    "ch_bufbase (bs_chan st ! i) = Some b'" "rd_range b' (off + p) n = Some (take n (drop p (hold_area (bs_chan st ! i))))" .
  then show ?thesis by (simp add: copy_out_def)
qed

lemma copy_out_records:
  assumes "bpf_inv st" and "reader_ok st (Rd_Copy i pos src n)"
  obtains bytes rs where "copy_out st i src n = Some bytes" and "rs \<noteq> []" and "n = span rs" and "parse_area bytes 0 n = rs"
proof -
  have b: "at_boundary st i pos" "copies_records (bs_chan st ! i) src n" using assms(2) by (simp_all add: reader_ok_def)
  from b(2) obtain off p rs where C: "ch_hold (bs_chan st ! i) = Some off"
      "src = off + p" "p + n \<le> unat (ch_blen (bs_chan st ! i))" "rs \<noteq> []" "n = span rs"
      "parse_area (take n (drop p (hold_area (bs_chan st ! i)))) 0 n = rs"
    unfolding copies_records_def by blast
  have "copy_out st i (off + p) n = Some (take n (drop p (hold_area (bs_chan st ! i))))"
    using b(1) by (intro copy_out_val [OF assms(1) _ _ C(1,3)]) (simp_all add: at_boundary_def)
  then show thesis using that C(2,4-6) by simp
qed

text \<open>The copy of a reader does not change while the buffer keeps its bytes.\<close>

lemma copy_out_same:
  assumes "bpf_inv st" and "reader_ok st (Rd_Copy i pos src n)" and "bpf_inv st'"
    and frame: "reader_frame (bs_chan st ! i) (bs_chan st' ! i)"
  shows "copy_out st' i src n = copy_out st i src n \<and> copy_out st i src n \<noteq> None"
proof -
  have b: "at_boundary st i pos" "copies_records (bs_chan st ! i) src n" using assms(2) by (simp_all add: reader_ok_def)
  from b(2) obtain off p rs where C: "ch_hold (bs_chan st ! i) = Some off" "src = off + p" "p + n \<le> unat (ch_blen (bs_chan st ! i))"
    unfolding copies_records_def by blast
  have i: "i < AMI_BPF_MAX_CHANNELS" "ch_reading (bs_chan st ! i)" using b(1) by (simp_all add: at_boundary_def)
  have F: "ch_reading (bs_chan st' ! i)" "ch_hold (bs_chan st' ! i) = Some off"
      "hold_area (bs_chan st' ! i) = hold_area (bs_chan st ! i)" "ch_blen (bs_chan st' ! i) = ch_blen (bs_chan st ! i)"
    using frame C(1) by (auto simp: reader_frame_def)
  show ?thesis
    using copy_out_val [OF assms(1) i C(1,3)] copy_out_val [OF assms(3) i(1) F(1,2), of p n] C(2,3) F(3,4) by simp
qed

section \<open>Every step keeps it\<close>

lemma system_frame:
  assumes inv: "system_inv sy" and tab: "bpf_inv st'"
    and frame: "\<And>k. k < AMI_BPF_MAX_CHANNELS \<Longrightarrow> ch_reading (bs_chan (sy_table sy) ! k) \<Longrightarrow>
      reader_frame (bs_chan (sy_table sy) ! k) (bs_chan st' ! k)"
  shows "system_inv (sy\<lparr>sy_table := st'\<rparr>)"
proof (rule system_invI)
  show "reader_ok (sy_table (sy\<lparr>sy_table := st'\<rparr>)) r" if "sy_reader (sy\<lparr>sy_table := st'\<rparr>) t = Some r" for t r
    using that system_invD(2) [OF inv] frame_reader_ok [of "sy_table sy" r st'] frame by simp
qed (use tab system_invD(3) [OF inv] in simp_all)

lemma system_drop:
  assumes inv: "system_inv sy" and tab: "bpf_inv st'" and t: "sy_reader sy t = Some r"
    and frame: "\<And>k. k < AMI_BPF_MAX_CHANNELS \<Longrightarrow> ch_reading (bs_chan (sy_table sy) ! k) \<Longrightarrow> marks r \<noteq> Some k \<Longrightarrow>
      reader_frame (bs_chan (sy_table sy) ! k) (bs_chan st' ! k)"
    and new: "\<And>q. v = Some q \<Longrightarrow> reader_ok st' q \<and> (marks q = None \<or> marks q = marks r)"
  shows "system_inv (sy\<lparr>sy_table := st', sy_reader := (sy_reader sy)(t := v)\<rparr>)"
proof (rule system_invI)
  let ?sy = "sy\<lparr>sy_table := st', sy_reader := (sy_reader sy)(t := v)\<rparr>"
  have key: "w = t" if "sy_reader sy w = Some z" "marks z = Some i" "v = Some q" "marks q = Some i" for w z q i
  proof -
    have "marks r = Some i" using new [OF that(3)] that(4) by simp
    then show ?thesis using system_invD(3) [OF inv that(1) t that(2)] by simp
  qed
  show "bpf_inv (sy_table ?sy)" using tab by simp
  show "reader_ok (sy_table ?sy) q" if "sy_reader ?sy u = Some q" for u q
  proof (cases "u = t")
    case False
    then have q: "sy_reader sy u = Some q" using that by simp
    have "reader_ok st' q"
    proof (rule frame_reader_ok [OF system_invD(2) [OF inv q]])
      fix k assume k: "marks q = Some k" "k < AMI_BPF_MAX_CHANNELS" "ch_reading (bs_chan (sy_table sy) ! k)"
      have "marks r \<noteq> Some k" using system_invD(3) [OF inv q t k(1)] False by blast
      then show "reader_frame (bs_chan (sy_table sy) ! k) (bs_chan st' ! k)" using frame k(2,3) by blast
    qed
    then show ?thesis by simp
  qed (use that new in simp)
  show "u = w" if "sy_reader ?sy u = Some q" "sy_reader ?sy w = Some z" "marks q = Some i" "marks z = Some i" for u w q z i
  proof (cases "u = t")
    case True
    then show ?thesis using that key [of w z i q] by (cases "w = t") simp_all
  next
    case False
    then show ?thesis using that key [of u q i z] system_invD(3) [OF inv, of u q w z i] by (cases "w = t") simp_all
  qed
qed

lemma begin_step:
  assumes inv: "system_inv sy" and free: "sy_reader sy t = None"
    and turn: "read_turn (sy_table sy) owner channel g = (Read_Data i, st1)"
    and l: "0 < len" "len < 2 ^ 31" and mark: "read_mark st1 i len = Some (Some (pos, src, n), st2)"
  shows "system_inv (sy\<lparr>sy_table := st2, sy_reader := (sy_reader sy)(t \<mapsto> Rd_Copy i pos src (unat n))\<rparr>)"
    and "k < AMI_BPF_MAX_CHANNELS \<Longrightarrow> ch_reading (bs_chan (sy_table sy) ! k) \<Longrightarrow>
      reader_frame (bs_chan (sy_table sy) ! k) (bs_chan st2 ! k)"
proof -
  have tab: "bpf_inv (sy_table sy)" using inv by (simp add: system_inv_def)
  note T = read_turn_spec(1) [OF tab turn] read_turn_spec(3) [OF tab turn, of i, OF refl]
  have i: "i < AMI_BPF_MAX_CHANNELS" using T(2) chan_get_Inr(1) by blast
  have idle: "\<not> ch_reading (bs_chan (sy_table sy) ! i)"
    using turn by (auto simp: read_turn_def Let_def split: sum.splits if_splits)
  note M = mark_ok [OF T(1) i _ l mark]
  have M: "st2 = set_chan st1 i ((bs_chan st1 ! i)\<lparr>ch_reading := True\<rparr>)" "bpf_inv st2" "reader_ok st2 (Rd_Copy i pos src (unat n))"
    using M T(2) by auto
  show frame: "reader_frame (bs_chan (sy_table sy) ! k) (bs_chan st2 ! k)"
    if "k < AMI_BPF_MAX_CHANNELS" "ch_reading (bs_chan (sy_table sy) ! k)" for k
  proof -
    have "k \<noteq> i" using idle that(2) by auto
    then have "bs_chan st2 ! k = bs_chan st1 ! k" by (simp add: M(1))
    then show ?thesis using turn_frame [OF tab that, of owner channel g] turn by simp
  qed
  have fresh: "marks q \<noteq> Some i" if "sy_reader sy u = Some q" for u q
    using system_invD(2) [OF inv that] idle reader_reading(2) by blast
  have new: "marks (Rd_Copy i pos src (unat n)) = Some i" by (simp add: marks_def)
  have S: "system_inv (sy\<lparr>sy_table := st2\<rparr>)" by (rule system_frame [OF inv M(2) frame])
  show "system_inv (sy\<lparr>sy_table := st2, sy_reader := (sy_reader sy)(t \<mapsto> Rd_Copy i pos src (unat n))\<rparr>)"
    (is "system_inv ?sy")
  proof (rule system_invI)
    show "reader_ok (sy_table ?sy) r" if "sy_reader ?sy u = Some r" for u r
      using that M(3) system_invD(2) [OF S] by (cases "u = t") auto
    show "u = w" if "sy_reader ?sy u = Some r" "sy_reader ?sy w = Some q" "marks r = Some j" "marks q = Some j" for u w r q j
      using that new fresh system_invD(3) [OF inv] by (cases "u = t"; cases "w = t") auto
  qed (use M(2) in simp)
qed

lemma finish_step:
  assumes inv: "system_inv sy" and t: "sy_reader sy t = Some (Rd_Copied i pos)" and st': "st' = read_finish (sy_table sy) i pos"
  shows "bpf_inv st'" and "i < AMI_BPF_MAX_CHANNELS" and "k \<noteq> i \<Longrightarrow> bs_chan st' ! k = bs_chan (sy_table sy) ! k"
proof -
  have b: "bpf_inv (sy_table sy)" "at_boundary (sy_table sy) i pos"
    using system_invD(1) [OF inv] system_invD(2) [OF inv t] by (simp_all add: reader_ok_def)
  then show "i < AMI_BPF_MAX_CHANNELS" by (simp add: at_boundary_def)
  show "bpf_inv st'"
  proof (cases "ch_hold_len (bs_chan (sy_table sy) ! i) = 0")
    case True
    then show ?thesis unfolding st' using b finish_section_inv [OF b(1), of i 0 pos] by (simp add: at_boundary_def)
  next
    case False
    then obtain k where "k \<le> length (hold_recs (bs_chan (sy_table sy) ! i))"
        "unat pos = unat (ch_hold_pos (bs_chan (sy_table sy) ! i)) + aspan (take k (hold_recs (bs_chan (sy_table sy) ! i)))"
      using b(2) by (auto simp: at_boundary_def)
    then show ?thesis unfolding st' using b finish_section_inv [OF b(1), of i k pos] by (simp add: at_boundary_def)
  qed
  show "k \<noteq> i \<Longrightarrow> bs_chan st' ! k = bs_chan (sy_table sy) ! k" by (simp add: st' read_finish_def)
qed

lemma step_inv:
  assumes "system_step l sy sy'" and inv: "system_inv sy"
  shows "system_inv sy'"
  using assms(1)
proof (cases rule: system_step.cases)
  case (step_section st')
  have "bpf_inv (sy_table sy)" using inv by (simp add: system_inv_def)
  then show ?thesis using step_section system_frame [OF inv] section_inv section_frame by blast
next
  case (step_begin t owner channel g i st1 len pos src n st2)
  then show ?thesis using begin_step(1) [OF inv] by blast
next
  case (step_copy t i pos src n bytes)
  have "system_inv (sy\<lparr>sy_table := sy_table sy, sy_reader := (sy_reader sy)(t := Some (Rd_Copied i pos))\<rparr>)"
    using system_invD(1) [OF inv] system_invD(2) [OF inv step_copy(3)]
    by (intro system_drop [OF inv _ step_copy(3)]) (auto simp: reader_ok_def marks_def reader_frame_refl)
  then show ?thesis using step_copy by simp
next
  case (step_finish t i pos st')
  note F = finish_step [OF inv step_finish(3,4)]
  show ?thesis unfolding step_finish(2)
    by (rule system_drop [OF inv F(1) step_finish(3)])
      (use F(2,3) in \<open>auto simp: marks_def reader_ok_def reader_frame_refl split: if_splits\<close>)
next
  case (step_release t i)
  have "i < AMI_BPF_MAX_CHANNELS" "bpf_inv (sy_table sy)"
    using system_invD(1) [OF inv] system_invD(2) [OF inv step_release(3)] by (simp_all add: reader_ok_def)
  then show ?thesis unfolding step_release(2)
    by (intro system_drop [OF inv _ step_release(3)]) (auto intro: release_inv release_frame)
next
  case (step_cleanup i)
  then show ?thesis using inv release_inv by (auto simp: system_inv_def no_reader_def)
next
  case step_init
  then show ?thesis using inv init_inv by (auto simp: system_inv_def no_reader_def bpf_inv_def [of "sy_table sy"])
qed

lemma steps_inv: "any_step\<^sup>*\<^sup>* sy sy' \<Longrightarrow> system_inv sy \<Longrightarrow> system_inv sy'"
  by (induction rule: rtranclp_induct) (auto simp: any_step_def intro: step_inv)

lemma reachable_inv:
  assumes "bpf_reachable sy"
  shows "system_inv sy"
proof -
  obtain st0 where "hook_ok st0" and run: "any_step\<^sup>*\<^sup>* \<lparr>sy_table = snd (ami_bpf_init st0), sy_reader = \<lambda>_. None\<rparr> sy"
    using assms by (auto simp: bpf_reachable_def)
  then have "system_inv \<lparr>sy_table = snd (ami_bpf_init st0), sy_reader = \<lambda>_. None\<rparr>" by (simp add: system_inv_def init_inv)
  with run show ?thesis by (rule steps_inv)
qed

section \<open>The steps of the others leave a reader alone\<close>

lemma other_step_frame:
  assumes "other_step t sy sy'" and inv: "system_inv sy" and t: "sy_reader sy t = Some r" and i: "marks r = Some i"
  shows "sy_reader sy' t = Some r \<and> reader_frame (bs_chan (sy_table sy) ! i) (bs_chan (sy_table sy') ! i)"
proof -
  have tab: "bpf_inv (sy_table sy)" and ok: "reader_ok (sy_table sy) r" by (rule system_invD(1) [OF inv], rule system_invD(2) [OF inv t])
  note rd = reader_reading [OF ok i]
  obtain l where l: "l \<noteq> Some t" and step: "system_step l sy sy'" using assms(1) by (auto simp: other_step_def)
  from step show ?thesis
  proof (cases rule: system_step.cases)
    case (step_section st')
    then show ?thesis using section_frame [OF _ tab rd] t by simp
  next
    case (step_begin u owner channel g j st1 len pos src n st2)
    then show ?thesis using begin_step(2) [OF inv step_begin(3-7) rd] t l by simp
  next
    case (step_copy u j pos src n bytes)
    then show ?thesis using t l reader_frame_refl [OF rd(2)] by simp
  next
    case (step_finish u j pos st')
    have "j \<noteq> i"
    proof -
      have "marks (Rd_Copied j pos) = Some j" by (simp add: marks_def)
      then show ?thesis using system_invD(3) [OF inv t step_finish(3) i] l step_finish(1) by auto
    qed
    then show ?thesis using finish_step(3) [OF inv step_finish(3,4)] t l step_finish reader_frame_refl [OF rd(2)] by simp
  next
    case (step_release u j)
    then show ?thesis using release_frame [OF tab rd] t l by simp
  qed (use t in \<open>auto simp: no_reader_def\<close>)
qed

lemma other_steps_frame:
  assumes "(other_step t)\<^sup>*\<^sup>* sy sy'" and "system_inv sy" and "sy_reader sy t = Some r" and "marks r = Some i"
  shows "system_inv sy'" and "sy_reader sy' t = Some r" and "reader_frame (bs_chan (sy_table sy) ! i) (bs_chan (sy_table sy') ! i)"
proof -
  have "system_inv sy' \<and> sy_reader sy' t = Some r \<and> reader_frame (bs_chan (sy_table sy) ! i) (bs_chan (sy_table sy') ! i)"
    using assms(1)
  proof (induction rule: rtranclp_induct)
    case base
    have "reader_ok (sy_table sy) r" by (rule system_invD(2) [OF assms(2,3)])
    then show ?case using assms(2-4) reader_reading(2) reader_frame_refl by blast
  next
    case (step sy1 sy2)
    then have "system_inv sy2" using step_inv by (auto simp: other_step_def)
    then show ?case using other_step_frame [OF step.hyps(2) _ _ assms(4)] step.IH by (auto intro: reader_frame_trans)
  qed
  then show "system_inv sy'" "sy_reader sy' t = Some r" "reader_frame (bs_chan (sy_table sy) ! i) (bs_chan (sy_table sy') ! i)" by simp_all
qed

section \<open>A reader among sections of other tasks\<close>

text \<open>
  The windows of a read filled with steps of the system. While the task sleeps, and before it releases a channel
  closed under it, the others may do anything; while its copy is under way they are all tasks but this one, and
  the table is the table of a system in which this task is a reader.
\<close>

definition any_run :: "bpf_state \<Rightarrow> bpf_state \<Rightarrow> bool" where
  "any_run st st' \<longleftrightarrow>
     (\<exists>rd rd'. system_inv \<lparr>sy_table = st, sy_reader = rd\<rparr> \<and>
        any_step\<^sup>*\<^sup>* \<lparr>sy_table = st, sy_reader = rd\<rparr> \<lparr>sy_table = st', sy_reader = rd'\<rparr>)"

definition others_run :: "nat \<Rightarrow> bpf_state \<Rightarrow> bpf_state \<Rightarrow> bool" where
  "others_run me st st' \<longleftrightarrow>
     (\<exists>rd rd' t r. system_inv \<lparr>sy_table = st, sy_reader = rd\<rparr> \<and> rd t = Some r \<and> marks r = Some me \<and>
        (other_step t)\<^sup>*\<^sup>* \<lparr>sy_table = st, sy_reader = rd\<rparr> \<lparr>sy_table = st', sy_reader = rd'\<rparr>)"

lemma any_run_inv: "any_run st st' \<Longrightarrow> bpf_inv st'"
  unfolding any_run_def using steps_inv system_invD(1) by fastforce

lemma others_run_frame:
  assumes "others_run me st st'"
  shows "bpf_inv st'" and "reader_frame (bs_chan st ! me) (bs_chan st' ! me)"
proof -
  obtain rs rs' t r where inv: "system_inv \<lparr>sy_table = st, sy_reader = rs\<rparr>" and r: "rs t = Some r" "marks r = Some me"
    and run: "(other_step t)\<^sup>*\<^sup>* \<lparr>sy_table = st, sy_reader = rs\<rparr> \<lparr>sy_table = st', sy_reader = rs'\<rparr>"
    using assms unfolding others_run_def by blast
  note F = other_steps_frame [OF run inv _ r(2)]
  show "bpf_inv st'" using system_invD(1) [OF F(1)] r(1) by simp
  show "reader_frame (bs_chan st ! me) (bs_chan st' ! me)" using F(3) r(1) by simp
qed

locale bpf_scheduled =
  fixes tk :: bpf_tasks and me :: nat
  assumes wait_steps: "bpf_inv st \<Longrightarrow> any_run st (tk_wait tk n st)"
    and copying_steps: "bpf_inv st \<Longrightarrow> me < AMI_BPF_MAX_CHANNELS \<Longrightarrow> ch_reading (bs_chan st ! me) \<Longrightarrow>
      others_run me st (tk_copying tk st)"
    and copied_steps: "bpf_inv st \<Longrightarrow> me < AMI_BPF_MAX_CHANNELS \<Longrightarrow> ch_reading (bs_chan st ! me) \<Longrightarrow>
      others_run me st (tk_copied tk st)"
    and releasing_steps: "bpf_inv st \<Longrightarrow> any_run st (tk_releasing tk st)"

sublocale bpf_scheduled \<subseteq> bpf_others tk me
proof unfold_locales
  fix st n
  assume inv: "bpf_inv st"
  show "bpf_inv (tk_wait tk n st)" by (rule any_run_inv [OF wait_steps [OF inv]])
  show "bpf_inv (tk_releasing tk st)" by (rule any_run_inv [OF releasing_steps [OF inv]])
  assume me: "me < AMI_BPF_MAX_CHANNELS" "ch_reading (bs_chan st ! me)"
  note F = others_run_frame [OF copying_steps [OF inv me]] others_run_frame [OF copied_steps [OF inv me]]
  show "bpf_inv (tk_copying tk st)" "reader_frame (bs_chan st ! me) (bs_chan (tk_copying tk st) ! me)"
    "bpf_inv (tk_copied tk st)" "reader_frame (bs_chan st ! me) (bs_chan (tk_copied tk st) ! me)" by (fact F)+
qed

context bpf_scheduled
begin

lemmas scheduled_read = read_spec

end

text \<open>Sections alone are a run, with the reader where it is.\<close>

lemma sections_steps:
  assumes "bpf_section\<^sup>*\<^sup>* st st'"
  shows "any_step\<^sup>*\<^sup>* \<lparr>sy_table = st, sy_reader = rs\<rparr> \<lparr>sy_table = st', sy_reader = rs\<rparr>"
    and "(other_step t)\<^sup>*\<^sup>* \<lparr>sy_table = st, sy_reader = rs\<rparr> \<lparr>sy_table = st', sy_reader = rs\<rparr>"
proof -
  have one: "system_step None \<lparr>sy_table = a, sy_reader = rs\<rparr> \<lparr>sy_table = b, sy_reader = rs\<rparr>" if "bpf_section a b" for a b
    using step_section [of "\<lparr>sy_table = a, sy_reader = rs\<rparr>" b] that by simp
  show "any_step\<^sup>*\<^sup>* \<lparr>sy_table = st, sy_reader = rs\<rparr> \<lparr>sy_table = st', sy_reader = rs\<rparr>"
    using assms
  proof (induction rule: rtranclp_induct)
    case (step a b)
    then show ?case using one any_step_def by (metis rtranclp.rtrancl_into_rtrancl)
  qed simp
  show "(other_step t)\<^sup>*\<^sup>* \<lparr>sy_table = st, sy_reader = rs\<rparr> \<lparr>sy_table = st', sy_reader = rs\<rparr>"
    using assms
  proof (induction rule: rtranclp_induct)
    case (step a b)
    have "other_step t \<lparr>sy_table = a, sy_reader = rs\<rparr> \<lparr>sy_table = b, sy_reader = rs\<rparr>"
      unfolding other_step_def using one [OF step.hyps(2)] by blast
    then show ?case using step.IH by (rule rtranclp.rtrancl_into_rtrancl [rotated])
  qed simp
qed

lemma sections_run:
  assumes "bpf_section\<^sup>*\<^sup>* st st'" and inv: "bpf_inv st"
  shows "any_run st st'" and "me < AMI_BPF_MAX_CHANNELS \<Longrightarrow> ch_reading (bs_chan st ! me) \<Longrightarrow> others_run me st st'"
proof -
  have "system_inv \<lparr>sy_table = st, sy_reader = \<lambda>_. None\<rparr>" using inv by (simp add: system_inv_def)
  then show "any_run st st'" unfolding any_run_def using sections_steps(1) [OF assms(1)] by blast
  assume me: "me < AMI_BPF_MAX_CHANNELS" "ch_reading (bs_chan st ! me)"
  define r where "r = Rd_Copied me (ch_hold_pos (bs_chan st ! me))"
  have "at_boundary st me (ch_hold_pos (bs_chan st ! me))" unfolding at_boundary_def using me by (auto intro!: exI [of _ 0])
  then have "system_inv \<lparr>sy_table = st, sy_reader = [0 \<mapsto> r]\<rparr>"
    using inv by (auto simp: r_def system_inv_def reader_ok_def marks_def split: if_splits)
  moreover have "marks r = Some me" by (simp add: r_def marks_def)
  ultimately show "others_run me st st'"
    unfolding others_run_def using sections_steps(2) [OF assms(1), of 0 "[0 \<mapsto> r]"] by (metis fun_upd_same)
qed

text \<open>A capture is a sequence of sections, one for each channel it visits.\<close>

lemma capture_sections:
  assumes "view_ok view" and "unat (vw_caplen view) + 20 < 2 ^ 32"
  shows "set is \<subseteq> {0..<AMI_BPF_MAX_CHANNELS} \<Longrightarrow>
    capture_loop locks clock cookie view is st = Some st' \<Longrightarrow> bpf_section\<^sup>*\<^sup>* st st'"
proof (induction "is" arbitrary: st)
  case (Cons i "is")
  then obtain go st1 where one: "capture_one (locks i) (clock i) cookie view i st = Some (go, st1)"
    and rest: "if go then capture_loop locks clock cookie view is st1 = Some st' else st1 = st'"
    by (auto split: Option.bind_splits if_splits)
  have "bpf_section st st1" using sec_capture [OF assms _ one] Cons.prems(1) by auto
  moreover have "bpf_section\<^sup>*\<^sup>* st1 st'" using rest Cons.IH Cons.prems(1) by (cases go) auto
  ultimately show ?case by (rule converse_rtranclp_into_rtranclp)
qed simp

text \<open>
  The tap at work in every window: the packet of \<open>view\<close> arrives on the interface of \<open>cookie\<close>
  while the reader sleeps and again while it copies.
\<close>

definition tap_once :: "(nat \<Rightarrow> bool) \<Rightarrow> (nat \<Rightarrow> ULONG \<times> ULONG) \<Rightarrow> APTR \<Rightarrow> AmiBpfView \<Rightarrow> bpf_state \<Rightarrow> bpf_state" where
  "tap_once locks clock cookie view st =
     (if view_ok view \<and> unat (vw_caplen view) + 20 < 2 ^ 32
      then (case ami_bpf_capture locks clock st cookie view of None \<Rightarrow> st | Some st' \<Rightarrow> st') else st)"

definition tap_tasks ::
  "(nat \<Rightarrow> bool) \<Rightarrow> (nat \<Rightarrow> ULONG \<times> ULONG) \<Rightarrow> APTR \<Rightarrow> AmiBpfView \<Rightarrow> (nat \<Rightarrow> ULONG \<Rightarrow> ULONG) \<Rightarrow> bpf_tasks" where
  "tap_tasks locks clock cookie view sigs =
     \<lparr>tk_wait = \<lambda>n. tap_once locks clock cookie view, tk_signals = sigs,
      tk_copying = tap_once locks clock cookie view, tk_copied = tap_once locks clock cookie view,
      tk_releasing = tap_once locks clock cookie view\<rparr>"

lemma tap_once_sections: "bpf_section\<^sup>*\<^sup>* st (tap_once locks clock cookie view st)"
  by (auto simp: tap_once_def ami_bpf_capture_def split: option.splits intro!: capture_sections)

interpretation tapped: bpf_scheduled "tap_tasks locks clock cookie view sigs" me for locks clock cookie view sigs me
  by unfold_locales (auto simp: tap_tasks_def intro: sections_run tap_once_sections)

interpretation idle: bpf_scheduled "quiet_tasks sigs" me for sigs me
  by unfold_locales (auto intro: sections_run)

section \<open>The forced release\<close>

lemma cleanup_zero:
  assumes "bpf_inv st" and "i < AMI_BPF_MAX_CHANNELS"
  shows "bs_chan (ami_bpf_cleanup st) ! i = zero_chan"
proof -
  let ?f = "\<lambda>i st. if ch_open (bs_chan st ! i) then ami_bpf_chan_release st i True 0 else st"
  have closed: "bs_chan s ! k = zero_chan" if "bpf_inv s" "k < AMI_BPF_MAX_CHANNELS" "\<not> ch_open (bs_chan s ! k)" for s k
    using inv_chan [OF that(1,2)] that(3) by (auto simp: chan_ok_def)
  have zero: "bs_chan (?f k s) ! k = zero_chan" if "bpf_inv s" "k < AMI_BPF_MAX_CHANNELS" for k s
    using closed [OF that] that by (auto simp: ami_bpf_chan_release_def Let_def bpf_inv_def)
  have other: "bs_chan (?f k s) ! j = bs_chan s ! j" if "j \<noteq> k" for j k s
    using that by (auto simp: ami_bpf_chan_release_def Let_def)
  have step: "bpf_inv (?f k s)" if "bpf_inv s" "k < AMI_BPF_MAX_CHANNELS" for k s using that by (auto intro: release_inv)
  have "bpf_inv (fold ?f [0..<n] st) \<and> (\<forall>k < n. bs_chan (fold ?f [0..<n] st) ! k = zero_chan)" if "n \<le> AMI_BPF_MAX_CHANNELS" for n
    using that
  proof (induction n)
    case (Suc n)
    let ?s = "fold ?f [0..<n] st"
    have IH: "bpf_inv ?s" "\<forall>k < n. bs_chan ?s ! k = zero_chan" using Suc by simp_all
    have "fold ?f [0..<Suc n] st = ?f n ?s" by simp
    moreover have "bs_chan (?f n ?s) ! k = zero_chan" if "k < Suc n" for k
      using that zero [OF IH(1), of n] other [of k n ?s] IH(2) Suc.prems by (cases "k = n") auto
    ultimately show ?case using step [OF IH(1), of n] Suc.prems by (simp only:) simp
  qed (use assms(1) in simp)
  from this [of AMI_BPF_MAX_CHANNELS] show ?thesis unfolding ami_bpf_cleanup_def using assms(2) by simp
qed

section \<open>Properties\<close>

text \<open>
  C1. In every state that the running system can reach, from start-up on, through any interleaving of opens,
  closes, releases, attaches, detaches, control calls and captures of any number of tasks and of the steps of
  any number of reads in progress, with start-up and the forced release of the teardown only while no read is
  in progress: the table is well formed (closed slots are empty, the buffers of every channel hold
  whole records, every filter has passed the validator, and \<^verbatim>\<open>ami_bpf_bound_channels\<close> and the capture hook tell
  the truth about the bound channels), and a read that is about to copy finds its bytes where it left them,
  inside the buffer and whole records from end to end. A read sets the position it computed before it gave
  the lock away; that this is still a record boundary is part of what is proved.
\<close>

theorem bpf_reachable_inv:
  assumes "bpf_reachable sy"
  shows "bpf_inv (sy_table sy) \<and>
    (\<forall>t i pos src n. sy_reader sy t = Some (Rd_Copy i pos src n) \<longrightarrow>
      (\<exists>bytes rs. copy_out (sy_table sy) i src n = Some bytes \<and> rs \<noteq> [] \<and> n = span rs \<and> parse_area bytes 0 n = rs))"
  using reachable_inv [OF assms] copy_out_records system_invD(1,2) by metis

text \<open>A run from start-up to a read in progress: attach, open, set the interface, a packet, and the mark.\<close>

definition sample_attached :: bpf_state where
  "sample_attached = snd (ami_bpf_attach_interface (snd (ami_bpf_init (sample_state\<lparr>bs_hook := None\<rparr>)))
     (Some [101, 116, 104, 48, 0]) 77 DLT_EN10MB 1500 None)"

definition sample_opened :: bpf_state where
  "sample_opened = snd (ami_bpf_open sample_attached 7 (- 1))"

definition sample_bound :: bpf_state where
  "sample_bound = bind_chan sample_opened 0 0
     (install_buffers (Some (replicate (2 * unat (clamp_blen 64)) 0)) (clamp_blen 64) (bs_chan sample_opened ! 0))"

definition sample_tapped :: bpf_state where
  "sample_tapped = (case capture_one True (1, 2) 77 sample_view 0 sample_bound of None \<Rightarrow> sample_bound | Some (_, st) \<Rightarrow> st)"

definition sample_marked :: bpf_state where
  "sample_marked = (let st = snd (read_turn sample_tapped 7 0 1) in
     case read_mark st 0 64 of None \<Rightarrow> st | Some (_, st') \<Rightarrow> st')"

definition sample_system :: bpf_system where
  "sample_system = \<lparr>sy_table = sample_marked, sy_reader = [0 \<mapsto> Rd_Copy 0 36 0 36]\<rparr>"

lemma sample_bind: "ami_bpf_ioctl_revalidate sample_opened 7 0 1 = Inr 0"
  "ami_bpf_iface_by_name sample_opened [101, 116, 104, 48, 0] = Some 0"
  by code_simp+

lemma sample_capture:
  obtains go where "capture_one True (1, 2) 77 sample_view 0 sample_bound = Some (go, sample_tapped)"
proof -
  have "capture_one True (1, 2) 77 sample_view 0 sample_bound \<noteq> None" by code_simp
  then show thesis using that by (auto simp: sample_tapped_def)
qed

lemma sample_turn: "read_turn sample_tapped 7 0 1 = (Read_Data 0, snd (read_turn sample_tapped 7 0 1))"
proof -
  have "fst (read_turn sample_tapped 7 0 1) = Read_Data 0" by code_simp
  then show ?thesis by (metis prod.collapse)
qed

lemma sample_mark: "read_mark (snd (read_turn sample_tapped 7 0 1)) 0 64 = Some (Some (36, 0, 36), sample_marked)"
proof -
  have "map_option fst (read_mark (snd (read_turn sample_tapped 7 0 1)) 0 64) = Some (Some (36, 0, 36))" by code_simp
  then show ?thesis by (auto simp: sample_marked_def Let_def)
qed

lemma sample_reachable: "bpf_reachable sample_system"
proof -
  let ?st0 = "sample_state\<lparr>bs_hook := None\<rparr>" and ?sy = "\<lambda>st. \<lparr>sy_table = st, sy_reader = \<lambda>_. None\<rparr> :: bpf_system"
  have "bpf_section (snd (ami_bpf_init ?st0)) sample_attached" unfolding sample_attached_def by (rule sec_attach)
  moreover have "bpf_section sample_attached sample_opened" unfolding sample_opened_def by (rule sec_open)
  moreover have "bpf_section sample_opened sample_bound"
    unfolding sample_bound_def by (rule sec_setif [OF _ sample_bind]) simp_all
  moreover have "bpf_section sample_bound sample_tapped"
  proof -
    obtain go where "capture_one True (1, 2) 77 sample_view 0 sample_bound = Some (go, sample_tapped)" by (rule sample_capture)
    moreover have "view_ok sample_view" by code_simp
    ultimately show ?thesis by (intro sec_capture) (simp_all add: sample_view_def AMI_BPF_MAX_CHANNELS_def)
  qed
  ultimately have "bpf_section\<^sup>*\<^sup>* (snd (ami_bpf_init ?st0)) sample_tapped"
    by (rule converse_rtranclp_into_rtranclp
        [OF _ converse_rtranclp_into_rtranclp [OF _ converse_rtranclp_into_rtranclp [OF _ r_into_rtranclp]]])
  note run = sections_steps(1) [OF this, of "\<lambda>_. None"]
  have "system_step (Some 0) (?sy sample_tapped) sample_system"
    using step_begin [of "?sy sample_tapped" 0 7 0 1 0 _ 64, OF _ _ _ _ sample_mark] sample_turn
    by (simp add: sample_system_def)
  then have "any_step\<^sup>*\<^sup>* (?sy (snd (ami_bpf_init ?st0))) sample_system"
    using run by (metis any_step_def rtranclp.rtrancl_into_rtrancl)
  then show ?thesis unfolding bpf_reachable_def by (intro exI [of _ ?st0]) (simp add: hook_ok_def)
qed

theorem bpf_reachable_inv_witness:
  "bpf_inv sample_marked \<and> (\<exists>bytes rs. copy_out sample_marked 0 0 36 = Some bytes \<and> rs \<noteq> [] \<and>
     36 = span rs \<and> parse_area bytes 0 36 = rs)"
proof -
  have "sy_table sample_system = sample_marked" "sy_reader sample_system 0 = Some (Rd_Copy 0 36 0 36)"
    by (simp_all add: sample_system_def)
  then show ?thesis using bpf_reachable_inv [OF sample_reachable] by metis
qed

text \<open>
  C9. While a task copies out of a channel outside the lock, no interleaving of the steps of all other tasks
  disturbs it: the channel stays marked for it, the hold buffer keeps every byte and its place, its fill either
  stays or is emptied as a whole, and the copy, wherever it falls among these steps, is within the buffer and gives
  the bytes it would have given at once. The other tasks open, close, release, bind, filter, flush, capture
  and read; the forced release of the teardown is not among their steps while this read is in progress
  (the last property of this theory has what it would do).
\<close>

theorem bpf_reader_undisturbed:
  assumes "(other_step t)\<^sup>*\<^sup>* sy sy'" and "system_inv sy" and "sy_reader sy t = Some (Rd_Copy i pos src n)"
  shows "sy_reader sy' t = sy_reader sy t \<and>
    ch_reading (bs_chan (sy_table sy') ! i) \<and>
    hold_area (bs_chan (sy_table sy') ! i) = hold_area (bs_chan (sy_table sy) ! i) \<and>
    ch_hold (bs_chan (sy_table sy') ! i) = ch_hold (bs_chan (sy_table sy) ! i) \<and>
    (ch_hold_len (bs_chan (sy_table sy') ! i) = ch_hold_len (bs_chan (sy_table sy) ! i) \<and>
       ch_hold_pos (bs_chan (sy_table sy') ! i) = ch_hold_pos (bs_chan (sy_table sy) ! i) \<or>
     ch_hold_len (bs_chan (sy_table sy') ! i) = 0 \<and> ch_hold_pos (bs_chan (sy_table sy') ! i) = 0) \<and>
    copy_out (sy_table sy') i src n = copy_out (sy_table sy) i src n \<and> copy_out (sy_table sy) i src n \<noteq> None"
proof -
  have "marks (Rd_Copy i pos src n) = Some i" by (simp add: marks_def)
  note F = other_steps_frame [OF assms this]
  have "copy_out (sy_table sy') i src n = copy_out (sy_table sy) i src n \<and> copy_out (sy_table sy) i src n \<noteq> None"
    using copy_out_same [OF system_invD(1) [OF assms(2)] system_invD(2) [OF assms(2,3)] system_invD(1) [OF F(1)] F(3)] by simp
  then show ?thesis using F(2,3) assms(3) by (auto simp: reader_frame_def)
qed

theorem bpf_reader_undisturbed_witness:
  "copy_out (ami_bpf_chan_release (snd (ami_bpf_close sample_marked 7 0)) 0 False 7) 0 0 36 = copy_out sample_marked 0 0 36"
proof -
  have "bpf_section\<^sup>*\<^sup>* sample_marked (ami_bpf_chan_release (snd (ami_bpf_close sample_marked 7 0)) 0 False 7)"
    by (rule converse_rtranclp_into_rtranclp, rule sec_close, rule r_into_rtranclp, rule sec_release)
      (simp add: AMI_BPF_MAX_CHANNELS_def)
  from sections_steps(2) [OF this] have run: "(other_step 0)\<^sup>*\<^sup>* sample_system
      \<lparr>sy_table = ami_bpf_chan_release (snd (ami_bpf_close sample_marked 7 0)) 0 False 7, sy_reader = [0 \<mapsto> Rd_Copy 0 36 0 36]\<rparr>"
    by (simp add: sample_system_def)
  show ?thesis
    using bpf_reader_undisturbed [OF run reachable_inv [OF sample_reachable], of 0 36 0 36] by (simp add: sample_system_def)
qed

text \<open>
  C5. \<^verbatim>\<open>bpf_read\<close> is correct among other tasks. Whatever steps run while it sleeps, while
  it copies outside the lock and before it releases a channel closed under it (sections of other calls and
  steps of other reads; the forced release of the teardown only while nobody reads), the call
  returns; it leaves the table well formed; and the caller's memory is either untouched
  (an error, an interrupt or nothing to read) or starts with whole records, as many bytes
  as the return value says, and is untouched behind them.
\<close>

theorem bpf_read_concurrent:
  assumes "bpf_scheduled tk me" and "bpf_inv st" and "channel = int me"
    and "len < 2 ^ 31" and "len \<le> int (length mem)"
  shows "\<exists>status mem' st'. ami_bpf_read tk base st owner channel (Some (addr, mem)) len
      = Some (status, mem', st') \<and> bpf_inv st' \<and>
    (status \<in> {0, AMI_BPF_EINVAL, AMI_BPF_ENXIO, AMI_BPF_EPERM, AMI_BPF_EINTR} \<and> mem' = mem \<or>
     (\<exists>rs. rs \<noteq> [] \<and> status = int (span rs) \<and> status \<le> len \<and> parse_area mem' 0 (span rs) = rs \<and>
           drop (span rs) mem' = drop (span rs) mem))"
  by (rule bpf_scheduled.scheduled_read [OF assms])

theorem bpf_read_concurrent_witness:
  "\<exists>status mem' st'. ami_bpf_read (tap_tasks (\<lambda>_. True) (\<lambda>_. (5, 6)) 77 sample_view (\<lambda>_ _. 0)) 0
     sample_full 7 0 (Some (0, replicate 64 0)) 64 = Some (status, mem', st') \<and> bpf_inv st'"
  using bpf_read_concurrent [OF tapped.bpf_scheduled_axioms sample_full_facts(1), of 0 0 64 "replicate 64 0"
      "\<lambda>_. True" "\<lambda>_. (5, 6)" 77 sample_view "\<lambda>_ _. 0" 0 7 0]
  by auto

text \<open>
  C39. The forced release of the teardown does not wait for a read. In every reachable state in which a task is
  about to copy out of a channel, its copy is within the channel's buffer; after \<^verbatim>\<open>ami_bpf_cleanup\<close> the channel
  is closed and empty, the buffer is gone, and the same copy reads memory that the channel no longer has.
\<close>

theorem bpf_cleanup_under_reader:
  assumes "bpf_reachable sy" and "sy_reader sy t = Some (Rd_Copy i pos src n)"
  shows "copy_out (sy_table sy) i src n \<noteq> None \<and> copy_out (ami_bpf_cleanup (sy_table sy)) i src n = None \<and>
    bs_chan (ami_bpf_cleanup (sy_table sy)) ! i = zero_chan"
proof -
  have inv: "system_inv sy" by (rule reachable_inv [OF assms(1)])
  note ok = system_invD(1) [OF inv] system_invD(2) [OF inv assms(2)]
  then have i: "i < AMI_BPF_MAX_CHANNELS" by (simp add: reader_ok_def at_boundary_def)
  have "copy_out (sy_table sy) i src n \<noteq> None" using copy_out_records [OF ok] by auto
  then show ?thesis using cleanup_zero [OF ok(1) i] by (simp add: copy_out_def zero_chan_def)
qed

theorem bpf_cleanup_under_reader_witness:
  "copy_out sample_marked 0 0 36 \<noteq> None \<and> copy_out (ami_bpf_cleanup sample_marked) 0 0 36 = None"
  using bpf_cleanup_under_reader [OF sample_reachable, of 0 0 36 0 36] by (simp add: sample_system_def)

end
