(* ===== verification/Bpf_Clock.thy ===== *)
theory Bpf_Clock
  imports Ami_Prelude
begin

text \<open>
  The time stamp of a capture record: \<^verbatim>\<open>ami_bpf_utc_secs\<close> of \<^verbatim>\<open>src/bpf/bpf_internal.h\<close>, which
  turns the Amiga's local clock into seconds of UTC since 1970.
\<close>

definition AMI_BPF_AMIGA_EPOCH :: ULONG where
  "AMI_BPF_AMIGA_EPOCH = 252460800"

definition ami_bpf_utc_secs :: "ULONG \<Rightarrow> LONG \<Rightarrow> ULONG" where
  "ami_bpf_utc_secs since78 west =
     (let secs = since78 + AMI_BPF_AMIGA_EPOCH
      in if 0 < west then secs + of_int west * 60
         else if west < 0
         then let east = of_int (- west) * 60
              in if east < secs then secs - east else 0
         else secs)"

lemma uint_minutes:
  assumes "0 \<le> m" and "m * 60 < 2 ^ 32"
  shows "uint (of_int m * 60 :: ULONG) = m * 60"
proof -
  have "(of_int m * 60 :: ULONG) = of_int (m * 60)" by simp
  then show ?thesis using assms by (simp only: uint_word_of_int) simp
qed

text \<open>
  For every clock value that does not run past the range of the stamp, the stamp is the
  local time moved by the zone's offset, and 1970 at the earliest: it never wraps below.
\<close>

lemma bpf_utc_exact:
  assumes "uint since78 + 252460800 + \<bar>west\<bar> * 60 < 2 ^ 32"
  shows "uint (ami_bpf_utc_secs since78 west) = max 0 (uint since78 + 252460800 + west * 60)"
proof -
  have ge: "0 \<le> uint since78" by simp
  have secs: "uint (since78 + 252460800) = uint since78 + 252460800"
    using assms by (simp add: uint_word_ariths)
  consider "0 < west" | "west = 0" | "west < 0" by linarith
  then show ?thesis
  proof cases
    case 1
    then have "uint (of_int west * 60 :: ULONG) = west * 60" using assms ge by (intro uint_minutes) linarith+
    then show ?thesis using 1 assms secs
      by (simp add: ami_bpf_utc_secs_def AMI_BPF_AMIGA_EPOCH_def Let_def uint_word_ariths)
  next
    case 2
    then show ?thesis using secs by (simp add: ami_bpf_utc_secs_def AMI_BPF_AMIGA_EPOCH_def Let_def)
  next
    case 3
    have e: "uint (of_int (- west) * 60 :: ULONG) = - west * 60" using assms 3 ge by (intro uint_minutes) linarith+
    show ?thesis
    proof (cases "(of_int (- west) * 60 :: ULONG) < since78 + 252460800")
      case True
      then have lt: "- west * 60 < uint since78 + 252460800" using e secs unfolding word_less_def by simp
      then have "uint (of_int (- west) * 60 :: ULONG) \<le> uint (since78 + 252460800)" unfolding e secs by simp
      from iffD1 [OF uint_sub_lem this]
      have "uint (since78 + 252460800 - of_int (- west) * 60) = uint since78 + 252460800 - (- west * 60)"
        by (simp only: e secs)
      then show ?thesis using 3 True lt by (simp add: ami_bpf_utc_secs_def AMI_BPF_AMIGA_EPOCH_def Let_def)
    next
      case False
      then have "uint since78 + 252460800 \<le> - west * 60" using e secs unfolding word_less_def by simp
      then show ?thesis using 3 False by (simp add: ami_bpf_utc_secs_def AMI_BPF_AMIGA_EPOCH_def Let_def)
    qed
  qed
qed

end
