(* ===== verification/Ip6_Select.thy ===== *)
theory Ip6_Select
  imports Ami_Prelude
begin

text \<open>
  RFC 6724 source address selection, \<^verbatim>\<open>src/ipv6/ipv6_srcsel.c\<close>, in the configuration the
  build ships: point-to-point support, the loopback interface and IPv6 multicast on.

  An address is four longwords in host order. The tables of \<^verbatim>\<open>NX_IP\<close> belong to NetX Duo; the
  records here carry the fields the selection reads. A pointer to an interface is its index in
  \<^verbatim>\<open>nx_ip_interface\<close>, whose last entry is the loopback interface; a pointer to an address is
  its index in \<^verbatim>\<open>nx_ipv6_address\<close>; \<^verbatim>\<open>NX_NULL\<close> is \<open>None\<close>. The three module variables of the
  point-to-point part are the record \<open>anx6_ptp\<close>.
\<close>

section \<open>Addresses\<close>

type_synonym addr6 = "ULONG \<times> ULONG \<times> ULONG \<times> ULONG"

fun words6 :: "addr6 \<Rightarrow> ULONG list" where
  "words6 (a, b, c, d) = [a, b, c, d]"

text \<open>The leading bits two addresses agree on.\<close>

function diff_bit :: "ULONG \<Rightarrow> nat \<Rightarrow> nat" where
  "diff_bit diff b = (if b < 32 then if diff AND drop_bit b 0x80000000 \<noteq> 0 then b else diff_bit diff (b + 1) else b)"
  by pat_completeness auto
termination by (relation "measure (\<lambda>(diff, b). 32 - b)") auto

declare diff_bit.simps [simp del]

fun prefix_len_from :: "ULONG list \<Rightarrow> ULONG list \<Rightarrow> nat \<Rightarrow> nat" where
  "prefix_len_from (a # as) (b # bs) i =
     (let diff = a XOR b in if diff = 0 then prefix_len_from as bs (i + 1) else i * 32 + diff_bit diff 0)"
| "prefix_len_from _ _ i = 128"

definition anx6_common_prefix_len :: "addr6 \<Rightarrow> addr6 \<Rightarrow> nat" where
  "anx6_common_prefix_len a b = prefix_len_from (words6 a) (words6 b) 0"

definition anx6_same_address :: "addr6 \<Rightarrow> addr6 \<Rightarrow> bool" where
  "anx6_same_address a b \<longleftrightarrow> (case (a, b) of ((a0, a1, a2, a3), (b0, b1, b2, b3)) \<Rightarrow>
     a0 = b0 \<and> a1 = b1 \<and> a2 = b2 \<and> a3 = b3)"

fun covers_from :: "ULONG list \<Rightarrow> nat \<Rightarrow> ULONG list \<Rightarrow> bool" where
  "covers_from (p # ps) len (a # as) =
     (if len = 0 then True
      else let bits = (if 32 \<le> len then 32 else len);
               msk = (if bits = 32 then 0xFFFFFFFF else NOT (drop_bit bits 0xFFFFFFFF))
           in if (p XOR a) AND msk \<noteq> 0 then False else covers_from ps (len - bits) as)"
| "covers_from _ len _ = True"

definition anx6_prefix_covers :: "addr6 \<Rightarrow> nat \<Rightarrow> addr6 \<Rightarrow> bool" where
  "anx6_prefix_covers prefix len addr = covers_from (words6 prefix) len (words6 addr)"

section \<open>Scope and policy\<close>

abbreviation (input) ANX6_SCOPE_LINK :: nat where "ANX6_SCOPE_LINK \<equiv> 2"
abbreviation (input) ANX6_SCOPE_SITE :: nat where "ANX6_SCOPE_SITE \<equiv> 5"
abbreviation (input) ANX6_SCOPE_GLOBAL :: nat where "ANX6_SCOPE_GLOBAL \<equiv> 14"

fun anx6_scope :: "addr6 \<Rightarrow> nat" where
  "anx6_scope (a0, a1, a2, a3) =
     (if a0 AND 0xFF000000 = 0xFF000000 then unat (drop_bit 16 a0 AND 0xF)
      else if a0 AND 0xFFC00000 = 0xFE800000 then ANX6_SCOPE_LINK
      else if a0 AND 0xFFC00000 = 0xFEC00000 then ANX6_SCOPE_SITE
      else if a0 = 0 \<and> a1 = 0 \<and> a2 = 0 \<and> a3 = 1 then ANX6_SCOPE_LINK
      else if a0 = 0 \<and> a1 = 0 \<and> a2 = 0x0000FFFF \<and>
              (a3 AND 0xFFFF0000 = 0xA9FE0000 \<or> a3 AND 0xFF000000 = 0x7F000000) then ANX6_SCOPE_LINK
      else ANX6_SCOPE_GLOBAL)"

record anx6_policy =
  pol_prefix :: addr6
  pol_length :: nat
  pol_precedence :: nat
  pol_label :: nat

definition policy_row :: "addr6 \<Rightarrow> nat \<Rightarrow> nat \<Rightarrow> nat \<Rightarrow> anx6_policy" where
  "policy_row p l pr lb = \<lparr>pol_prefix = p, pol_length = l, pol_precedence = pr, pol_label = lb\<rparr>"

definition anx6_policy_table :: "anx6_policy list" where
  "anx6_policy_table =
    [policy_row (0, 0, 0, 1) 128 50 0,
     policy_row (0, 0, 0, 0) 0 40 1,
     policy_row (0, 0, 0xFFFF, 0) 96 35 4,
     policy_row (0x20020000, 0, 0, 0) 16 30 2,
     policy_row (0x20010000, 0, 0, 0) 32 5 5,
     policy_row (0xFC000000, 0, 0, 0) 7 3 13,
     policy_row (0, 0, 0, 0) 96 1 3,
     policy_row (0xFEC00000, 0, 0, 0) 10 1 11,
     policy_row (0x3FFE0000, 0, 0, 0) 16 1 12]"

fun policy_scan :: "anx6_policy list \<Rightarrow> addr6 \<Rightarrow> anx6_policy \<Rightarrow> nat \<Rightarrow> anx6_policy" where
  "policy_scan [] addr best best_len = best"
| "policy_scan (r # rs) addr best best_len =
     (if best_len < pol_length r \<and> anx6_prefix_covers (pol_prefix r) (pol_length r) addr
      then policy_scan rs addr r (pol_length r) else policy_scan rs addr best best_len)"

text \<open>The row found: its length is the result, its precedence and label are stored.\<close>

definition anx6_policy_lookup :: "addr6 \<Rightarrow> anx6_policy" where
  "anx6_policy_lookup addr = policy_scan anx6_policy_table addr (anx6_policy_table ! 1) 0"

definition anx6_label :: "addr6 \<Rightarrow> nat" where
  "anx6_label addr = pol_label (anx6_policy_lookup addr)"

section \<open>The tables of the stack\<close>

datatype nx_addr_state = Addr_Unknown | Addr_Tentative | Addr_Preferred | Addr_Deprecated | Addr_Valid

record NX_INTERFACE =
  nif_link_up :: bool
  nif_priority :: int
  nif_mapping_needed :: bool

record NXD_IPV6_ADDRESS =
  na_valid :: bool
  na_state :: nx_addr_state
  na_attached :: "nat option"
  na_address :: addr6
  na_prefix_length :: nat

record NX_ROUTER_ENTRY =
  nr_flag :: ULONG
  nr_interface :: "nat option"

record NX_MLD_ENTRY =
  nm_interface :: "nat option"
  nm_group :: addr6

record NX_IP =
  ip_interface :: "NX_INTERFACE list"
  ip_address :: "NXD_IPV6_ADDRESS list"
  ip_router :: "NX_ROUTER_ENTRY list"
  ip_multicast :: "NX_MLD_ENTRY list"

definition NX_MAX_PHYSICAL_INTERFACES :: nat where "NX_MAX_PHYSICAL_INTERFACES = 4"

abbreviation (input) NX_LOOPBACK_INTERFACE :: nat where
  "NX_LOOPBACK_INTERFACE \<equiv> NX_MAX_PHYSICAL_INTERFACES"

definition link_up :: "NX_IP \<Rightarrow> nat \<Rightarrow> bool" where
  "link_up ip i = nif_link_up (ip_interface ip ! i)"

definition unspecified :: "addr6 \<Rightarrow> bool" where
  "unspecified a \<longleftrightarrow> a = (0, 0, 0, 0)"

definition multicast :: "addr6 \<Rightarrow> bool" where
  "multicast a \<longleftrightarrow> fst a AND 0xFF000000 = 0xFF000000"

definition anx6_usable :: "NX_IP \<Rightarrow> NXD_IPV6_ADDRESS \<Rightarrow> bool" where
  "anx6_usable ip addr \<longleftrightarrow>
     (if \<not> na_valid addr then False
      else if na_state addr \<noteq> Addr_Valid \<and> na_state addr \<noteq> Addr_Preferred \<and> na_state addr \<noteq> Addr_Deprecated
      then False
      else case na_attached addr of
             None \<Rightarrow> False
           | Some i \<Rightarrow> if \<not> link_up ip i then False
                      else if multicast (na_address addr) then False
                      else if unspecified (na_address addr) then False else True)"

definition anx6_prefer :: "NX_IP \<Rightarrow> nat \<Rightarrow> nat option \<Rightarrow> bool" where
  "anx6_prefer ip candidate best \<longleftrightarrow>
     (case best of None \<Rightarrow> True
      | Some b \<Rightarrow> nif_priority (ip_interface ip ! b) < nif_priority (ip_interface ip ! candidate))"

section \<open>Point-to-point peers and routes\<close>

definition ANX6_PTP_ROUTES :: nat where "ANX6_PTP_ROUTES = 8"

record ptp_route =
  pr_prefix :: addr6
  pr_length :: nat
  pr_interface :: nat

record anx6_ptp =
  ptp_peer :: "addr6 list"
  ptp_peers :: nat
  ptp_route :: "ptp_route list"
  ptp_routes :: nat

datatype nx_status = NX_SUCCESS | NX_IP_ADDRESS_ERROR | NX_NO_MORE_ENTRIES | NX_ENTRY_NOT_FOUND

text \<open>The entries in use.\<close>

definition used_routes :: "anx6_ptp \<Rightarrow> ptp_route list" where
  "used_routes p = take (ptp_routes p) (ptp_route p)"

fun find_from :: "addr6 \<Rightarrow> nat \<Rightarrow> ptp_route list \<Rightarrow> nat" where
  "find_from prefix len [] = 0"
| "find_from prefix len (r # rs) =
     (if pr_length r = len \<and> anx6_prefix_covers (pr_prefix r) len prefix then 0 else Suc (find_from prefix len rs))"

definition anx6_ptp_route_find :: "anx6_ptp \<Rightarrow> addr6 \<Rightarrow> nat \<Rightarrow> nat" where
  "anx6_ptp_route_find p prefix len = find_from prefix len (used_routes p)"

definition mask_word :: "nat \<Rightarrow> nat \<Rightarrow> ULONG \<Rightarrow> ULONG" where
  "mask_word len i w =
     (let bits = (if (i + 1) * 32 \<le> len then 32 else if i * 32 < len then len - i * 32 else 0)
      in if bits = 32 then w else if bits = 0 then 0 else w AND NOT (drop_bit bits 0xFFFFFFFF))"

fun mask6 :: "nat \<Rightarrow> addr6 \<Rightarrow> addr6" where
  "mask6 len (a, b, c, d) = (mask_word len 0 a, mask_word len 1 b, mask_word len 2 c, mask_word len 3 d)"

definition anx6_ptp_route_add :: "anx6_ptp \<Rightarrow> addr6 \<Rightarrow> nat \<Rightarrow> nat \<Rightarrow> nx_status \<times> anx6_ptp" where
  "anx6_ptp_route_add p prefix len interface_index =
     (if len = 0 \<or> 128 < len \<or> NX_MAX_PHYSICAL_INTERFACES \<le> interface_index then (NX_IP_ADDRESS_ERROR, p)
      else let n = anx6_ptp_route_find p prefix len
           in if n = ANX6_PTP_ROUTES then (NX_NO_MORE_ENTRIES, p)
              else let p' = p\<lparr>ptp_route := (ptp_route p)[n := \<lparr>pr_prefix = mask6 len prefix, pr_length = len,
                                                          pr_interface = interface_index\<rparr>]\<rparr>
                   in (NX_SUCCESS, if n = ptp_routes p then p'\<lparr>ptp_routes := ptp_routes p + 1\<rparr> else p'))"

text \<open>Entry \<open>n\<close> goes, the last one takes its place.\<close>

definition drop_route :: "anx6_ptp \<Rightarrow> nat \<Rightarrow> anx6_ptp" where
  "drop_route p n =
     (let last = ptp_routes p - 1
      in p\<lparr>ptp_routes := last, ptp_route := (ptp_route p)[n := ptp_route p ! last]\<rparr>)"

definition anx6_ptp_route_delete :: "anx6_ptp \<Rightarrow> addr6 \<Rightarrow> nat \<Rightarrow> nat \<Rightarrow> nx_status \<times> anx6_ptp" where
  "anx6_ptp_route_delete p prefix len interface_index =
     (let n = anx6_ptp_route_find p prefix len
      in if n = ptp_routes p \<or> pr_interface (ptp_route p ! n) \<noteq> interface_index
         then (NX_ENTRY_NOT_FOUND, p) else (NX_SUCCESS, drop_route p n))"

definition anx6_ptp_route_get :: "anx6_ptp \<Rightarrow> nat \<Rightarrow> ptp_route option" where
  "anx6_ptp_route_get p n = (if ptp_routes p \<le> n then None else Some (ptp_route p ! n))"

fun purge_routes :: "nat \<Rightarrow> nat \<Rightarrow> anx6_ptp \<Rightarrow> anx6_ptp" where
  "purge_routes interface_index 0 p = p"
| "purge_routes interface_index (Suc i) p =
     purge_routes interface_index i
       (if pr_interface (ptp_route p ! i) = interface_index then drop_route p i else p)"

definition anx6_ptp_peer_set :: "anx6_ptp \<Rightarrow> nat \<Rightarrow> addr6 option \<Rightarrow> anx6_ptp" where
  "anx6_ptp_peer_set p interface_index peer =
     (if NX_MAX_PHYSICAL_INTERFACES \<le> interface_index then p
      else let new = (case peer of None \<Rightarrow> (0, 0, 0, 0) | Some a \<Rightarrow> a);
               p = p\<lparr>ptp_peer := (ptp_peer p)[interface_index := new]\<rparr>;
               p = (if unspecified new then purge_routes interface_index (ptp_routes p) p else p)
           in p\<lparr>ptp_peers := length (filter (\<lambda>a. \<not> unspecified a) (ptp_peer p))\<rparr>)"

text \<open>\<open>None\<close> for an index out of range; else whether there is a peer, and the stored address.\<close>

definition anx6_ptp_peer_get :: "anx6_ptp \<Rightarrow> nat \<Rightarrow> (bool \<times> addr6) option" where
  "anx6_ptp_peer_get p interface_index =
     (if NX_MAX_PHYSICAL_INTERFACES \<le> interface_index then None
      else Some (\<not> unspecified (ptp_peer p ! interface_index), ptp_peer p ! interface_index))"

section \<open>Default routers\<close>

text \<open>Whether entry \<open>rt\<close> (on interface \<open>rif\<close>) displaces \<open>best\<close> (on \<open>bif\<close>).\<close>

definition router_beats :: "NX_IP \<Rightarrow> nat \<Rightarrow> nat \<Rightarrow> bool" where
  "router_beats ip rif bif \<longleftrightarrow>
     (let r = ip_interface ip ! rif; b = ip_interface ip ! bif
      in nif_priority b < nif_priority r \<or>
         (nif_priority r = nif_priority b \<and> \<not> nif_mapping_needed r \<and> nif_mapping_needed b))"

definition live_router :: "NX_IP \<Rightarrow> NX_ROUTER_ENTRY \<Rightarrow> bool" where
  "live_router ip rt \<longleftrightarrow> nr_flag rt \<noteq> 0 \<and>
     (case nr_interface rt of None \<Rightarrow> False | Some i \<Rightarrow> link_up ip i)"

text \<open>The entry found, with its index and its interface.\<close>

fun router_scan :: "NX_IP \<Rightarrow> NX_ROUTER_ENTRY list \<Rightarrow> nat \<Rightarrow> (nat \<times> nat) option \<Rightarrow> (nat \<times> nat) option" where
  "router_scan ip [] i best = best"
| "router_scan ip (rt # rts) i best =
     (if nr_flag rt = 0 then router_scan ip rts (i + 1) best
      else case nr_interface rt of
             None \<Rightarrow> router_scan ip rts (i + 1) best
           | Some rif \<Rightarrow>
               if \<not> link_up ip rif then router_scan ip rts (i + 1) best
               else case best of
                      None \<Rightarrow> router_scan ip rts (i + 1) (Some (i, rif))
                    | Some (k, bif) \<Rightarrow>
                        router_scan ip rts (i + 1) (if router_beats ip rif bif then Some (i, rif) else best))"

definition anx6_default_router :: "NX_IP \<Rightarrow> (nat \<times> nat) option" where
  "anx6_default_router ip = router_scan ip (ip_router ip) 0 None"

text \<open>The two bits of a route type the stack defines are arguments.\<close>

fun static_scan :: "ULONG \<Rightarrow> ULONG \<Rightarrow> NX_ROUTER_ENTRY list \<Rightarrow> nat \<Rightarrow> nat option" where
  "static_scan type_valid type_static [] i = None"
| "static_scan type_valid type_static (rt # rts) i =
     (if nr_flag rt AND type_valid \<noteq> 0 \<and> nr_flag rt AND type_static \<noteq> 0 then Some i
      else static_scan type_valid type_static rts (i + 1))"

definition anx6_static_default_router :: "ULONG \<Rightarrow> ULONG \<Rightarrow> NX_IP \<Rightarrow> nat option" where
  "anx6_static_default_router type_valid type_static ip = static_scan type_valid type_static (ip_router ip) 0"

section \<open>The outgoing interface\<close>

text \<open>1. An address this node holds.\<close>

fun own_scan :: "NX_IP \<Rightarrow> addr6 \<Rightarrow> NXD_IPV6_ADDRESS list \<Rightarrow> nat option" where
  "own_scan ip dest [] = None"
| "own_scan ip dest (a # as) =
     (if anx6_usable ip a \<and> anx6_same_address (na_address a) dest then na_attached a else own_scan ip dest as)"

text \<open>2b. The peer of a point-to-point link.\<close>

fun peer_scan :: "NX_IP \<Rightarrow> addr6 \<Rightarrow> addr6 list \<Rightarrow> nat \<Rightarrow> nat option" where
  "peer_scan ip dest [] i = None"
| "peer_scan ip dest (p # ps) i =
     (if link_up ip i \<and> anx6_same_address p dest then Some i else peer_scan ip dest ps (i + 1))"

fun first_up_scan :: "NX_IP \<Rightarrow> NXD_IPV6_ADDRESS list \<Rightarrow> nat option \<Rightarrow> nat option" where
  "first_up_scan ip [] best = best"
| "first_up_scan ip (a # as) best =
     (if \<not> anx6_usable ip a then first_up_scan ip as best
      else if na_attached a = Some NX_LOOPBACK_INTERFACE then first_up_scan ip as best
      else if anx6_prefer ip (the (na_attached a)) best then first_up_scan ip as (na_attached a)
      else first_up_scan ip as best)"

text \<open>3. A group this node joined.\<close>

fun joined_scan :: "NX_IP \<Rightarrow> addr6 \<Rightarrow> NX_MLD_ENTRY list \<Rightarrow> nat option" where
  "joined_scan ip dest [] = None"
| "joined_scan ip dest (m # ms) =
     (case nm_interface m of
        None \<Rightarrow> joined_scan ip dest ms
      | Some j \<Rightarrow> if link_up ip j \<and> anx6_same_address (nm_group m) dest then Some j else joined_scan ip dest ms)"

text \<open>5. The longest prefix of an address held, then the higher priority, then the first.\<close>

fun onlink_scan :: "NX_IP \<Rightarrow> addr6 \<Rightarrow> NXD_IPV6_ADDRESS list \<Rightarrow> nat option \<Rightarrow> nat \<Rightarrow> nat option \<times> nat" where
  "onlink_scan ip dest [] best best_length = (best, best_length)"
| "onlink_scan ip dest (a # as) best best_length =
     (if \<not> anx6_usable ip a then onlink_scan ip dest as best best_length
      else if na_attached a = Some NX_LOOPBACK_INTERFACE then onlink_scan ip dest as best best_length
      else if anx6_prefix_covers (na_address a) (na_prefix_length a) dest \<and>
              (best = None \<or> best_length < na_prefix_length a \<or>
               na_prefix_length a = best_length \<and> anx6_prefer ip (the (na_attached a)) best)
      then onlink_scan ip dest as (na_attached a) (na_prefix_length a)
      else onlink_scan ip dest as best best_length)"

text \<open>5b. A longer prefix routed through a point-to-point link.\<close>

fun ptp_scan :: "NX_IP \<Rightarrow> addr6 \<Rightarrow> ptp_route list \<Rightarrow> nat option \<Rightarrow> nat \<Rightarrow> nat option \<times> nat" where
  "ptp_scan ip dest [] best best_length = (best, best_length)"
| "ptp_scan ip dest (r # rs) best best_length =
     (if best_length < pr_length r \<and> link_up ip (pr_interface r) \<and>
         anx6_prefix_covers (pr_prefix r) (pr_length r) dest
      then ptp_scan ip dest rs (Some (pr_interface r)) (pr_length r)
      else ptp_scan ip dest rs best best_length)"

definition anx6_outgoing_interface :: "anx6_ptp \<Rightarrow> NX_IP \<Rightarrow> addr6 \<Rightarrow> nat option" where
  "anx6_outgoing_interface p ip dest =
     (case own_scan ip dest (ip_address ip) of
        Some i \<Rightarrow> Some i
      | None \<Rightarrow>
          let scope = anx6_scope dest
          in if dest = (0, 0, 0, 1) then Some NX_LOOPBACK_INTERFACE
             else case (if ptp_peers p \<noteq> 0 then peer_scan ip dest (ptp_peer p) 0 else None) of
               Some i \<Rightarrow> Some i
             | None \<Rightarrow>
                 let first_up = first_up_scan ip (ip_address ip) None
                 in case (if multicast dest then joined_scan ip dest (ip_multicast ip) else None) of
                      Some j \<Rightarrow> Some j
                    | None \<Rightarrow>
                        if multicast dest \<or> scope \<le> ANX6_SCOPE_LINK then first_up
                        else let (best, best_length) = onlink_scan ip dest (ip_address ip) None 0;
                                 (best, best_length) = ptp_scan ip dest (used_routes p) best best_length
                             in case best of
                                  Some i \<Rightarrow> Some i
                                | None \<Rightarrow> map_option snd (anx6_default_router ip))"

section \<open>The candidates and the rules\<close>

record anx6_candidate =
  cand_address :: nat
  cand_same :: bool
  cand_scope :: nat
  cand_deprecated :: bool
  cand_outgoing :: bool
  cand_label_match :: bool
  cand_prefix_len :: nat

definition anx6_describe :: "nat \<Rightarrow> NXD_IPV6_ADDRESS \<Rightarrow> addr6 \<Rightarrow> nat \<Rightarrow> nat \<Rightarrow> anx6_candidate" where
  "anx6_describe k addr dest dest_label out_if =
     \<lparr>cand_address = k,
      cand_same = anx6_same_address (na_address addr) dest,
      cand_scope = anx6_scope (na_address addr),
      cand_deprecated = (na_state addr = Addr_Deprecated),
      cand_outgoing = (na_attached addr = Some out_if),
      cand_label_match = (anx6_label (na_address addr) = dest_label),
      cand_prefix_len = (let len = anx6_common_prefix_len (na_address addr) dest
                         in if na_prefix_length addr < len then na_prefix_length addr else len)\<rparr>"

definition anx6_better :: "nat \<Rightarrow> anx6_candidate \<Rightarrow> anx6_candidate \<Rightarrow> int" where
  "anx6_better dest_scope sa sb =
     (if cand_same sa \<noteq> cand_same sb then (if cand_same sa then 1 else -1)
      else if cand_scope sa \<noteq> cand_scope sb
      then if cand_scope sa < cand_scope sb then (if cand_scope sa < dest_scope then -1 else 1)
           else (if cand_scope sb < dest_scope then 1 else -1)
      else if cand_deprecated sa \<noteq> cand_deprecated sb then (if cand_deprecated sa then -1 else 1)
      else if cand_outgoing sa \<noteq> cand_outgoing sb then (if cand_outgoing sa then 1 else -1)
      else if cand_label_match sa \<noteq> cand_label_match sb then (if cand_label_match sa then 1 else -1)
      else if cand_prefix_len sa \<noteq> cand_prefix_len sb
      then (if cand_prefix_len sb < cand_prefix_len sa then 1 else -1)
      else 0)"

text \<open>The guards of the loop over the address table.\<close>

definition is_candidate :: "NX_IP \<Rightarrow> nat \<Rightarrow> nat \<Rightarrow> nat option \<Rightarrow> NXD_IPV6_ADDRESS \<Rightarrow> bool" where
  "is_candidate ip dest_scope out_if if_ptr addr \<longleftrightarrow>
     (if \<not> anx6_usable ip addr then False
      else if dest_scope \<le> ANX6_SCOPE_LINK \<and> na_attached addr \<noteq> Some out_if then False
      else if na_attached addr = Some NX_LOOPBACK_INTERFACE \<and> out_if \<noteq> NX_LOOPBACK_INTERFACE then False
      else if if_ptr \<noteq> None \<and> na_attached addr \<noteq> if_ptr then False else True)"

fun select_scan ::
  "NX_IP \<Rightarrow> addr6 \<Rightarrow> nat \<Rightarrow> nat option \<Rightarrow> NXD_IPV6_ADDRESS list \<Rightarrow> nat \<Rightarrow> anx6_candidate option
   \<Rightarrow> anx6_candidate option" where
  "select_scan ip dest out_if if_ptr [] k best = best"
| "select_scan ip dest out_if if_ptr (a # as) k best =
     (if \<not> is_candidate ip (anx6_scope dest) out_if if_ptr a then select_scan ip dest out_if if_ptr as (k + 1) best
      else let here = anx6_describe k a dest (anx6_label dest) out_if
           in select_scan ip dest out_if if_ptr as (k + 1)
                (case best of
                   None \<Rightarrow> Some here
                 | Some b \<Rightarrow> if 0 < anx6_better (anx6_scope dest) here b then Some here else best))"

text \<open>\<open>None\<close> is \<^verbatim>\<open>NX_NO_INTERFACE_ADDRESS\<close>; otherwise the index of the source address.\<close>

definition nxd_ipv6_interface_find :: "anx6_ptp \<Rightarrow> NX_IP \<Rightarrow> addr6 \<Rightarrow> nat option \<Rightarrow> nat option" where
  "nxd_ipv6_interface_find p ip dest if_ptr =
     (if unspecified dest then None
      else case (case if_ptr of Some i \<Rightarrow> Some i | None \<Rightarrow> anx6_outgoing_interface p ip dest) of
             None \<Rightarrow> None
           | Some out_if \<Rightarrow>
               (case select_scan ip dest out_if if_ptr (ip_address ip) 0 None of
                  None \<Rightarrow> None
                | Some best \<Rightarrow> if cand_scope best < anx6_scope dest then None else Some (cand_address best)))"

end
