(* ===== verification/Ip6_Prefix.thy ===== *)
theory Ip6_Prefix
  imports Ip6_Select
begin

text \<open>
  Prefixes as bits: the loops of \<^verbatim>\<open>anx6_common_prefix_len\<close> and \<^verbatim>\<open>anx6_prefix_covers\<close> over longwords
  and masks, against the 128 bits of an address counted from the front; and with that the
  longest-match lookup in the policy table.
\<close>

definition addr_bit :: "addr6 \<Rightarrow> nat \<Rightarrow> bool" where
  "addr_bit a n = bit (words6 a ! (n div 32)) (31 - n mod 32)"

lemma length_words6 [simp]: "length (words6 a) = 4"
  by (cases a) simp

section \<open>One longword\<close>

lemma drop_push_one: "b \<le> k \<Longrightarrow> k < 32 \<Longrightarrow> drop_bit b (push_bit k 1 :: ULONG) = push_bit (k - b) 1"
  by (rule bit_word_eqI) (auto simp: bit_simps)

lemma top_bit: "b < 32 \<Longrightarrow> (diff :: ULONG) AND drop_bit b 0x80000000 \<noteq> 0 \<longleftrightarrow> bit diff (31 - b)"
proof -
  assume b: "b < 32"
  have "(0x80000000 :: ULONG) = push_bit 31 1" by simp
  then have "drop_bit b (0x80000000 :: ULONG) = push_bit (31 - b) 1"
    using b drop_push_one [of b 31] by (simp only:)
  then show ?thesis by (simp add: push_bit_eq_mult and_exp_eq_0_iff_not_bit)
qed

lemma diff_bit_spec:
  assumes "bit diff (31 - m)" and "b \<le> m" and "m < 32"
  shows "b \<le> diff_bit diff b \<and> diff_bit diff b \<le> m \<and> bit diff (31 - diff_bit diff b) \<and>
    (\<forall>n. b \<le> n \<longrightarrow> n < diff_bit diff b \<longrightarrow> \<not> bit diff (31 - n))"
  using assms
proof (induction diff b rule: diff_bit.induct)
  case (1 diff b)
  then have b: "b < 32" by simp
  show ?case
  proof (cases "bit diff (31 - b)")
    case True
    then have "diff_bit diff b = b" using b top_bit [OF b, of diff] by (subst diff_bit.simps) simp
    then show ?thesis using True 1 by auto
  next
    case False
    then have eq: "diff_bit diff b = diff_bit diff (b + 1)"
      using b top_bit [OF b, of diff] by (subst diff_bit.simps) simp
    have "b + 1 \<le> m" using False 1 by (cases "b = m") auto
    then show ?thesis using 1 b top_bit [OF b, of diff] False eq
      by (metis Suc_eq_plus1 Suc_leD Suc_leI le_neq_implies_less)
  qed
qed

lemma word_diff_ex: "(a :: ULONG) \<noteq> b \<Longrightarrow> \<exists>m < 32. bit (a XOR b) (31 - m)"
proof -
  assume "a \<noteq> b"
  then obtain n where n: "n < 32" "bit a n \<noteq> bit b n" using bit_word_eqI [of a b] by auto
  then have "bit (a XOR b) (31 - (31 - n))" by (simp add: bit_simps)
  then show ?thesis using n(1) by (intro exI [of _ "31 - n"]) auto
qed

definition agree :: "ULONG \<Rightarrow> ULONG \<Rightarrow> nat \<Rightarrow> bool" where
  "agree a b k \<longleftrightarrow> (\<forall>n < k. bit a (31 - n) = bit b (31 - n))"

lemma agree_32: "agree a b 32 \<longleftrightarrow> a = b"
proof
  assume "agree a b 32"
  then have "bit a n = bit b n" if "n < 32" for n
    using that \<open>agree a b 32\<close> [unfolded agree_def, rule_format, of "31 - n"] by simp
  then show "a = b" by (intro bit_word_eqI) simp
qed (simp add: agree_def)

lemma mask_agree:
  fixes a b :: ULONG
  assumes "k \<le> 32"
  shows "(a XOR b) AND (if k = 32 then 0xFFFFFFFF else NOT (drop_bit k 0xFFFFFFFF)) = 0 \<longleftrightarrow> agree a b k"
proof -
  let ?m = "if k = 32 then 0xFFFFFFFF else NOT (drop_bit k 0xFFFFFFFF) :: ULONG"
  have ones: "(0xFFFFFFFF :: ULONG) = mask 32" by (simp add: mask_eq_exp_minus_1)
  have m: "bit ?m n \<longleftrightarrow> n < 32 \<and> 32 \<le> n + k" for n
    using assms unfolding ones by (auto simp: bit_simps)
  have "(a XOR b) AND ?m = 0 \<longleftrightarrow> (\<forall>n < 32. \<not> bit ((a XOR b) AND ?m) n)"
    by (auto intro!: bit_word_eqI)
  also have "\<dots> \<longleftrightarrow> (\<forall>n < 32. 32 \<le> n + k \<longrightarrow> bit a n = bit b n)"
    using m by (auto simp: bit_and_iff bit_xor_iff)
  also have "\<dots> \<longleftrightarrow> agree a b k"
  proof
    assume l: "\<forall>n < 32. 32 \<le> n + k \<longrightarrow> bit a n = bit b n"
    show "agree a b k" unfolding agree_def using l assms by auto
  next
    assume r: "agree a b k"
    show "\<forall>n < 32. 32 \<le> n + k \<longrightarrow> bit a n = bit b n"
    proof (intro allI impI)
      fix n assume "n < 32" "32 \<le> n + k"
      then show "bit a n = bit b n" using r [unfolded agree_def, rule_format, of "31 - n"] by simp
    qed
  qed
  finally show ?thesis .
qed

section \<open>The bits of an address\<close>

definition lbit :: "ULONG list \<Rightarrow> nat \<Rightarrow> bool" where
  "lbit ws n = bit (ws ! (n div 32)) (31 - n mod 32)"

lemma lbit_Cons: "lbit (w # ws) n = (if n < 32 then bit w (31 - n) else lbit ws (n - 32))"
proof (cases "n < 32")
  case False
  then have "n div 32 = Suc ((n - 32) div 32)" "n mod 32 = (n - 32) mod 32"
    using le_div_geq [of 32 n] le_mod_geq [of 32 n] by simp_all
  then show ?thesis using False by (simp add: lbit_def)
qed (simp add: lbit_def)

lemma addr_bit_lbit: "addr_bit a n = lbit (words6 a) n"
  by (simp add: addr_bit_def lbit_def)

lemma split_bits:
  "(\<forall>n < k. lbit (p # ps) n = lbit (a # as) n) \<longleftrightarrow>
   agree p a (min k 32) \<and> (\<forall>n < k - 32. lbit ps n = lbit as n)"
proof
  assume l: "\<forall>n < k. lbit (p # ps) n = lbit (a # as) n"
  have "agree p a (min k 32)" unfolding agree_def using l by (auto simp: lbit_Cons split: if_splits)
  moreover have "lbit ps n = lbit as n" if "n < k - 32" for n
    using l [rule_format, of "n + 32"] that by (simp add: lbit_Cons)
  ultimately show "agree p a (min k 32) \<and> (\<forall>n < k - 32. lbit ps n = lbit as n)" by blast
qed (auto simp: lbit_Cons agree_def)

lemma covers_from_spec:
  "length ps = length as \<Longrightarrow> len \<le> 32 * length ps \<Longrightarrow>
   covers_from ps len as \<longleftrightarrow> (\<forall>n < len. lbit ps n = lbit as n)"
proof (induction ps len as rule: covers_from.induct)
  case (1 p ps len a as)
  show ?case
  proof (cases "len = 0")
    case False
    define bits where "bits = (if 32 \<le> len then 32 else len)"
    have bits: "bits \<le> 32" "bits = min len 32" "len - bits = len - 32" by (auto simp: bits_def)
    have "covers_from (p # ps) len (a # as) \<longleftrightarrow> agree p a bits \<and> covers_from ps (len - bits) as"
      using mask_agree [OF bits(1), of p a] False by (simp add: bits_def [symmetric] Let_def)
    also have "\<dots> \<longleftrightarrow> agree p a (min len 32) \<and> (\<forall>n < len - 32. lbit ps n = lbit as n)"
    proof (cases "agree p a bits")
      case True
      have "length ps = length as" "len - bits \<le> 32 * length ps" using 1(2,3) bits(3) by auto
      then have "covers_from ps (len - bits) as \<longleftrightarrow> (\<forall>n < len - bits. lbit ps n = lbit as n)"
        using 1(1) [OF False bits_def refl] mask_agree [OF bits(1), of p a] True
        unfolding bits_def [symmetric] by simp
      then show ?thesis using True bits(2,3) by simp
    qed (use bits in simp)
    finally show ?thesis unfolding split_bits .
  qed simp
qed auto

lemma prefix_covers_bits:
  assumes "len \<le> 128"
  shows "anx6_prefix_covers p len a \<longleftrightarrow> (\<forall>n < len. addr_bit p n = addr_bit a n)"
  using assms covers_from_spec [of "words6 p" "words6 a" len]
  by (simp add: anx6_prefix_covers_def addr_bit_lbit)

lemma prefix_len_from_spec:
  "length as = length bs \<Longrightarrow> i + length as = 4 \<Longrightarrow>
   i * 32 \<le> prefix_len_from as bs i \<and> prefix_len_from as bs i \<le> 128 \<and>
   (\<forall>n < prefix_len_from as bs i - i * 32. lbit as n = lbit bs n) \<and>
   (prefix_len_from as bs i < 128 \<longrightarrow>
      lbit as (prefix_len_from as bs i - i * 32) \<noteq> lbit bs (prefix_len_from as bs i - i * 32))"
proof (induction as bs i rule: prefix_len_from.induct)
  case (1 a as b bs i)
  show ?case
  proof (cases "a = b")
    case True
    define L where "L = prefix_len_from as bs (i + 1)"
    have IH: "(i + 1) * 32 \<le> L" "L \<le> 128" "\<forall>n < L - (i + 1) * 32. lbit as n = lbit bs n"
      "L < 128 \<longrightarrow> lbit as (L - (i + 1) * 32) \<noteq> lbit bs (L - (i + 1) * 32)"
      using 1 True by (auto simp: L_def)
    have L: "prefix_len_from (a # as) (b # bs) i = L" using True by (simp add: L_def)
    have shift: "L - i * 32 - 32 = L - (i + 1) * 32" "\<not> L - i * 32 < 32" using IH(1) by auto
    then show ?thesis unfolding L using IH True
      by (auto simp: lbit_Cons split_bits agree_def)
  next
    case False
    then obtain m where m: "m < 32" "bit (a XOR b) (31 - m)" using word_diff_ex by blast
    note d = diff_bit_spec [OF m(2) _ m(1), of 0]
    define D where "D = diff_bit (a XOR b) 0"
    have D: "D < 32" "bit (a XOR b) (31 - D)" "\<forall>n < D. \<not> bit (a XOR b) (31 - n)"
      using d m(1) by (auto simp: D_def)
    have L: "prefix_len_from (a # as) (b # bs) i = i * 32 + D"
    proof -
      have "a XOR b \<noteq> 0" using m(2) by auto
      then show ?thesis by (simp add: D_def Let_def)
    qed
    have "i * 32 + D < 128" using 1(3) D(1) by simp
    then show ?thesis unfolding L using D by (auto simp: lbit_Cons bit_simps)
  qed
qed auto

lemma common_prefix_len_spec:
  fixes a b :: addr6
  shows "anx6_common_prefix_len a b \<le> 128"
    and "\<And>n. n < anx6_common_prefix_len a b \<Longrightarrow> addr_bit a n = addr_bit b n"
    and "anx6_common_prefix_len a b < 128 \<Longrightarrow>
      addr_bit a (anx6_common_prefix_len a b) \<noteq> addr_bit b (anx6_common_prefix_len a b)"
  using prefix_len_from_spec [of "words6 a" "words6 b" 0]
  by (simp_all add: anx6_common_prefix_len_def addr_bit_lbit)

lemma covers_iff_common:
  assumes "len \<le> 128"
  shows "anx6_prefix_covers p len a \<longleftrightarrow> len \<le> anx6_common_prefix_len p a"
proof
  assume "anx6_prefix_covers p len a"
  then show "len \<le> anx6_common_prefix_len p a"
    using prefix_covers_bits [OF assms] common_prefix_len_spec(3) [of p a] assms by (metis leI order.strict_trans2)
qed (use prefix_covers_bits [OF assms] common_prefix_len_spec(2) in \<open>auto\<close>)

section \<open>The policy table\<close>

lemma policy_scan_spec:
  assumes "best \<in> set T" and "set rs \<subseteq> set T" and "pol_length best = best_len"
    and "anx6_prefix_covers (pol_prefix best) best_len addr"
  defines "r \<equiv> policy_scan rs addr best best_len"
  shows "r \<in> set T \<and> anx6_prefix_covers (pol_prefix r) (pol_length r) addr \<and> best_len \<le> pol_length r \<and>
    (\<forall>q \<in> set rs. anx6_prefix_covers (pol_prefix q) (pol_length q) addr \<longrightarrow> pol_length q \<le> pol_length r)"
  using assms(1-4) unfolding r_def
proof (induction rs arbitrary: best best_len)
  case (Cons q rs)
  show ?case
  proof (cases "best_len < pol_length q \<and> anx6_prefix_covers (pol_prefix q) (pol_length q) addr")
    case True
    then show ?thesis using Cons.IH [of q "pol_length q"] Cons.prems by auto
  next
    case False
    then show ?thesis using Cons.IH [of best best_len] Cons.prems by auto
  qed
qed auto

text \<open>
  \<^verbatim>\<open>anx6_policy_lookup\<close> is the longest match of RFC 6724 2.1 for every address: the row it
  finds is a row of the policy table, its prefix covers the address bit for bit, and no row
  that covers the address is longer.
\<close>

lemma ip6_policy_longest:
  "anx6_policy_lookup addr \<in> set anx6_policy_table \<and>
   (\<forall>n < pol_length (anx6_policy_lookup addr).
      addr_bit (pol_prefix (anx6_policy_lookup addr)) n = addr_bit addr n) \<and>
   (\<forall>q \<in> set anx6_policy_table. (\<forall>n < pol_length q. addr_bit (pol_prefix q) n = addr_bit addr n) \<longrightarrow>
      pol_length q \<le> pol_length (anx6_policy_lookup addr))"
proof -
  have small: "\<forall>q \<in> set anx6_policy_table. pol_length q \<le> 128" by code_simp
  have d: "anx6_policy_table ! 1 \<in> set anx6_policy_table" "pol_length (anx6_policy_table ! 1) = 0"
    by code_simp+
  have "anx6_prefix_covers (pol_prefix (anx6_policy_table ! 1)) 0 addr"
    by (simp add: prefix_covers_bits)
  from policy_scan_spec [OF d(1) subset_refl d(2) this] show ?thesis
    using small by (auto simp: anx6_policy_lookup_def prefix_covers_bits)
qed

text \<open>
  \<^verbatim>\<open>anx6_common_prefix_len\<close> counts the leading bits two addresses share (RFC 6724 2.2): they
  agree on every bit before the result and, unless it is 128, differ on the next; and
  \<^verbatim>\<open>anx6_prefix_covers\<close>, which masks whole longwords, is the same comparison.
\<close>

lemma ip6_common_prefix_exact:
  "anx6_common_prefix_len a b \<le> 128 \<and>
   (\<forall>n < anx6_common_prefix_len a b. addr_bit a n = addr_bit b n) \<and>
   (anx6_common_prefix_len a b < 128 \<longrightarrow>
      addr_bit a (anx6_common_prefix_len a b) \<noteq> addr_bit b (anx6_common_prefix_len a b)) \<and>
   (\<forall>len \<le> 128. anx6_prefix_covers a len b = (len \<le> anx6_common_prefix_len a b))"
  using common_prefix_len_spec [where a = a and b = b] covers_iff_common by blast

end
