(* ===== verification/Simulation.thy ===== *)
theory Simulation
  imports Ami_Prelude
begin

text \<open>
  A component and its specification. The locale \<open>simulation\<close> is the contract between the two:
  an invariant every operation keeps, and an abstraction under which every operation does, and
  answers, what the specification says. That whole histories then agree is proved here once.
\<close>

fun run_ops :: "('c \<Rightarrow> 's \<Rightarrow> 'r \<times> 's) \<Rightarrow> 'c list \<Rightarrow> 's \<Rightarrow> 'r list \<times> 's" where
  "run_ops step [] s = ([], s)"
| "run_ops step (c # cs) s =
     (let (r, s') = step c s; (rs, t) = run_ops step cs s' in (r # rs, t))"

locale simulation =
  fixes inv :: "'s \<Rightarrow> bool" and abs :: "'s \<Rightarrow> 'a"
    and step :: "'c \<Rightarrow> 's \<Rightarrow> 'r \<times> 's" and spec :: "'c \<Rightarrow> 'a \<Rightarrow> 'r \<times> 'a"
  assumes step_inv: "inv s \<Longrightarrow> inv (snd (step c s))"
    and step_abs: "inv s \<Longrightarrow> spec c (abs s) = (fst (step c s), abs (snd (step c s)))"
begin

lemma run_inv: "inv s \<Longrightarrow> inv (snd (run_ops step cs s))"
proof (induction cs arbitrary: s)
  case (Cons c cs)
  then have "inv (snd (run_ops step cs (snd (step c s))))" using step_inv by blast
  then show ?case by (simp add: Let_def split_beta)
qed simp

lemma run_abs:
  "inv s \<Longrightarrow> run_ops spec cs (abs s) = (fst (run_ops step cs s), abs (snd (run_ops step cs s)))"
proof (induction cs arbitrary: s)
  case (Cons c cs)
  then show ?case using step_abs [of s c] step_inv [of s c] by (simp add: Let_def split_beta)
qed simp

end

end
