(* ===== verification/Ip6_Ptp.thy ===== *)
theory Ip6_Ptp
  imports Ip6_Prefix Simulation
begin

text \<open>
  The table of prefixes routed through point-to-point links and of the peers of these links
  (\<^verbatim>\<open>anx6_ptp_route_add\<close>, \<^verbatim>\<open>anx6_ptp_route_delete\<close>, \<^verbatim>\<open>anx6_ptp_peer_set\<close>) against its
  specification: a partial map from prefixes to interfaces and one from interfaces to peers.
\<close>

section \<open>Masked prefixes\<close>

lemma mask_word_bit:
  assumes "m < 32"
  shows "bit (mask_word len i w) (31 - m) \<longleftrightarrow> i * 32 + m < len \<and> bit w (31 - m)"
proof -
  have ones: "(0xFFFFFFFF :: ULONG) = mask 32" by (simp add: mask_eq_exp_minus_1)
  show ?thesis using assms unfolding mask_word_def ones Let_def by (auto simp: bit_simps)
qed

lemma mask6_bit:
  assumes "n < 128"
  shows "addr_bit (mask6 len a) n \<longleftrightarrow> n < len \<and> addr_bit a n"
proof -
  obtain w0 w1 w2 w3 where a: "a = (w0, w1, w2, w3)" by (cases a)
  consider "n < 32" | "32 \<le> n" "n < 64" | "64 \<le> n" "n < 96" | "96 \<le> n" using assms by linarith
  then show ?thesis
    unfolding a addr_bit_lbit mask6.simps words6.simps lbit_Cons
    using mask_word_bit [of n len 0 w0] mask_word_bit [of "n - 32" len 1 w1]
      mask_word_bit [of "n - 64" len 2 w2] mask_word_bit [of "n - 96" len 3 w3] assms
    by cases (simp_all add: less_diff_conv2)
qed

lemma addr_eq_bits: "a = b \<longleftrightarrow> (\<forall>n < 128. addr_bit a n = addr_bit b n)"
proof -
  obtain a0 a1 a2 a3 where a: "a = (a0, a1, a2, a3)" by (cases a)
  obtain b0 b1 b2 b3 where b: "b = (b0, b1, b2, b3)" by (cases b)
  show ?thesis unfolding a b addr_bit_lbit words6.simps split_bits by (simp add: agree_32)
qed

lemma covers_masked:
  assumes "len \<le> 128" and "mask6 len p = p"
  shows "anx6_prefix_covers p len a \<longleftrightarrow> p = mask6 len a"
proof -
  have "p = mask6 len a \<longleftrightarrow> mask6 len p = mask6 len a" using assms(2) by simp
  also have "\<dots> \<longleftrightarrow> (\<forall>n < 128. (n < len \<and> addr_bit p n) = (n < len \<and> addr_bit a n))"
    unfolding addr_eq_bits by (simp add: mask6_bit)
  also have "\<dots> \<longleftrightarrow> anx6_prefix_covers p len a"
    unfolding prefix_covers_bits [OF assms(1)] using assms(1) by (meson less_le_trans)
  finally show ?thesis by simp
qed

lemma mask6_idem [simp]: "mask6 len (mask6 len a) = mask6 len a"
  unfolding addr_eq_bits by (auto simp: mask6_bit)

section \<open>The invariant and the specification\<close>

type_synonym route_key = "addr6 \<times> nat"

definition route_key :: "ptp_route \<Rightarrow> route_key" where
  "route_key r = (pr_prefix r, pr_length r)"

definition route_ok :: "ptp_route \<Rightarrow> bool" where
  "route_ok r \<longleftrightarrow> 0 < pr_length r \<and> pr_length r \<le> 128 \<and> pr_interface r < NX_MAX_PHYSICAL_INTERFACES \<and>
     mask6 (pr_length r) (pr_prefix r) = pr_prefix r"

definition ptp_inv :: "anx6_ptp \<Rightarrow> bool" where
  "ptp_inv p \<longleftrightarrow> length (ptp_route p) = ANX6_PTP_ROUTES \<and> ptp_routes p \<le> ANX6_PTP_ROUTES \<and>
     list_all route_ok (used_routes p) \<and> distinct (map route_key (used_routes p)) \<and>
     length (ptp_peer p) = NX_MAX_PHYSICAL_INTERFACES \<and>
     ptp_peers p = length (filter (\<lambda>a. \<not> unspecified a) (ptp_peer p))"

record ptp_spec =
  sp_routes :: "route_key \<rightharpoonup> nat"
  sp_peer :: "nat \<rightharpoonup> addr6"

definition ptp_abs :: "anx6_ptp \<Rightarrow> ptp_spec" where
  "ptp_abs p = \<lparr>sp_routes = map_of (map (\<lambda>r. (route_key r, pr_interface r)) (used_routes p)),
     sp_peer = (\<lambda>i. if i < NX_MAX_PHYSICAL_INTERFACES \<and> \<not> unspecified (ptp_peer p ! i)
                    then Some (ptp_peer p ! i) else None)\<rparr>"

datatype ptp_op =
    Route_Add addr6 nat nat
  | Route_Delete addr6 nat nat
  | Peer_Set nat "addr6 option"

fun ptp_step :: "ptp_op \<Rightarrow> anx6_ptp \<Rightarrow> nx_status \<times> anx6_ptp" where
  "ptp_step (Route_Add prefix len i) p = anx6_ptp_route_add p prefix len i"
| "ptp_step (Route_Delete prefix len i) p = anx6_ptp_route_delete p prefix len i"
| "ptp_step (Peer_Set i peer) p = (NX_SUCCESS, anx6_ptp_peer_set p i peer)"

fun spec_step :: "ptp_op \<Rightarrow> ptp_spec \<Rightarrow> nx_status \<times> ptp_spec" where
  "spec_step (Route_Add prefix len i) s =
     (if \<not> (0 < len \<and> len \<le> 128 \<and> i < NX_MAX_PHYSICAL_INTERFACES) then (NX_IP_ADDRESS_ERROR, s)
      else if (mask6 len prefix, len) \<notin> dom (sp_routes s) \<and> card (dom (sp_routes s)) = ANX6_PTP_ROUTES
      then (NX_NO_MORE_ENTRIES, s)
      else (NX_SUCCESS, s\<lparr>sp_routes := (sp_routes s)((mask6 len prefix, len) \<mapsto> i)\<rparr>))"
| "spec_step (Route_Delete prefix len i) s =
     (if sp_routes s (mask6 len prefix, len) = Some i
      then (NX_SUCCESS, s\<lparr>sp_routes := (sp_routes s)((mask6 len prefix, len) := None)\<rparr>)
      else (NX_ENTRY_NOT_FOUND, s))"
| "spec_step (Peer_Set i peer) s =
     (NX_SUCCESS,
      if \<not> i < NX_MAX_PHYSICAL_INTERFACES then s
      else if peer = None \<or> peer = Some (0, 0, 0, 0)
      then \<lparr>sp_routes = sp_routes s |` {k. sp_routes s k \<noteq> Some i}, sp_peer = (sp_peer s)(i := None)\<rparr>
      else s\<lparr>sp_peer := (sp_peer s)(i := peer)\<rparr>)"

section \<open>The map a table stands for\<close>

lemma ptp_inv_length: "ptp_inv p \<Longrightarrow> length (used_routes p) = ptp_routes p"
  by (simp add: ptp_inv_def used_routes_def)

lemma sp_routes_iff:
  assumes "ptp_inv p"
  shows "sp_routes (ptp_abs p) k = Some i \<longleftrightarrow>
    (\<exists>r \<in> set (used_routes p). route_key r = k \<and> pr_interface r = i)"
proof -
  have "distinct (map fst (map (\<lambda>r. (route_key r, pr_interface r)) (used_routes p)))"
    using assms by (simp add: ptp_inv_def comp_def)
  from map_of_eq_Some_iff [OF this] show ?thesis by (auto simp: ptp_abs_def image_iff)
qed

lemma sp_routes_dom: "dom (sp_routes (ptp_abs p)) = route_key ` set (used_routes p)"
  by (simp add: ptp_abs_def dom_map_of_conv_image_fst image_image)

lemma sp_routes_card: "ptp_inv p \<Longrightarrow> card (dom (sp_routes (ptp_abs p))) = ptp_routes p"
  using distinct_card [of "map route_key (used_routes p)"]
  by (simp add: sp_routes_dom ptp_inv_length) (simp add: ptp_inv_def)

lemma key_inj:
  "ptp_inv p \<Longrightarrow> r \<in> set (used_routes p) \<Longrightarrow> q \<in> set (used_routes p) \<Longrightarrow> route_key r = route_key q \<Longrightarrow> r = q"
  by (simp add: ptp_inv_def distinct_map inj_on_def)

lemma sp_routes_cong:
  assumes "ptp_inv q" and "\<And>k i. (\<exists>r \<in> set (used_routes q). route_key r = k \<and> pr_interface r = i) \<longleftrightarrow> m k = Some i"
  shows "sp_routes (ptp_abs q) = m"
proof
  fix k show "sp_routes (ptp_abs q) k = m k"
    using sp_routes_iff [OF assms(1), of k] assms(2) [of k] by (metis not_None_eq)
qed

lemma ptp_abs_routesI:
  "ptp_peer q = ptp_peer p \<Longrightarrow> sp_routes (ptp_abs q) = m \<Longrightarrow> ptp_abs q = (ptp_abs p)\<lparr>sp_routes := m\<rparr>"
  by (simp add: ptp_abs_def cong: if_cong)

lemma find_from_spec:
  "list_all route_ok rs \<Longrightarrow>
   find_from prefix len rs = length (takeWhile (\<lambda>r. route_key r \<noteq> (mask6 len prefix, len)) rs)"
proof (induction rs)
  case (Cons r rs)
  then show ?case using covers_masked [of len "pr_prefix r" prefix] by (auto simp: route_ok_def route_key_def)
qed simp

lemma find_cases:
  assumes "ptp_inv p"
  obtains (absent) "anx6_ptp_route_find p prefix len = ptp_routes p"
      "(mask6 len prefix, len) \<notin> route_key ` set (used_routes p)"
  | (present) n where "anx6_ptp_route_find p prefix len = n" "n < ptp_routes p"
      "route_key (used_routes p ! n) = (mask6 len prefix, len)" "ptp_route p ! n = used_routes p ! n"
proof -
  let ?P = "\<lambda>r. route_key r \<noteq> (mask6 len prefix, len)"
  have f: "anx6_ptp_route_find p prefix len = length (takeWhile ?P (used_routes p))"
    using assms by (simp add: anx6_ptp_route_find_def find_from_spec ptp_inv_def)
  show ?thesis
  proof (cases "length (takeWhile ?P (used_routes p)) < length (used_routes p)")
    case True
    show ?thesis
    proof (rule present [OF f])
      show "length (takeWhile ?P (used_routes p)) < ptp_routes p"
        using True ptp_inv_length [OF assms] by simp
      then show "ptp_route p ! length (takeWhile ?P (used_routes p)) =
          used_routes p ! length (takeWhile ?P (used_routes p))"
        by (simp add: used_routes_def)
    qed (use nth_length_takeWhile [OF True] in simp)
  next
    case False
    then have "length (takeWhile ?P (used_routes p)) = length (used_routes p)"
      using length_takeWhile_le [of ?P "used_routes p"] by linarith
    then have "takeWhile ?P (used_routes p) = used_routes p" by (subst takeWhile_eq_take) simp
    then have "\<forall>r \<in> set (used_routes p). ?P r" by (simp only: takeWhile_eq_all_conv)
    then have "(mask6 len prefix, len) \<notin> route_key ` set (used_routes p)" by force
    moreover have "anx6_ptp_route_find p prefix len = ptp_routes p"
      unfolding f \<open>length _ = length _\<close> by (rule ptp_inv_length [OF assms])
    ultimately show ?thesis by (rule absent [rotated])
  qed
qed

section \<open>Every operation\<close>

lemma used_update:
  "n < ptp_routes p \<Longrightarrow> used_routes (p\<lparr>ptp_route := (ptp_route p)[n := r]\<rparr>) = (used_routes p)[n := r]"
  by (simp add: used_routes_def take_update_swap)

lemma used_append:
  assumes "ptp_routes p < length (ptp_route p)"
  shows "used_routes (p\<lparr>ptp_route := (ptp_route p)[ptp_routes p := r], ptp_routes := ptp_routes p + 1\<rparr>) =
    used_routes p @ [r]"
  using assms by (simp add: used_routes_def take_Suc_conv_app_nth)

lemma masked_ok:
  assumes "0 < len" "len \<le> 128" "i < NX_MAX_PHYSICAL_INTERFACES"
  shows "route_ok \<lparr>pr_prefix = mask6 len prefix, pr_length = len, pr_interface = i\<rparr>"
  using assms by (simp add: route_ok_def)

lemma map_of_replace:
  assumes "distinct (map fst xs)" and "n < length xs" and "fst (xs ! n) = k"
  shows "map_of (xs[n := (k, v)]) = (map_of xs)(k \<mapsto> v)"
proof -
  obtain w where w: "xs ! n = (k, w)" using assms(3) by (metis prod.collapse)
  define ys zs where "ys = take n xs" and "zs = drop (Suc n) xs"
  have xs: "xs = ys @ (k, w) # zs" using id_take_nth_drop [OF assms(2)] w by (simp add: ys_def zs_def)
  have up: "xs[n := (k, v)] = ys @ (k, v) # zs"
    using assms(2) by (simp add: ys_def zs_def upd_conv_take_nth_drop)
  have "k \<notin> fst ` set ys" using assms(1) unfolding xs by auto
  then have "map_of ys k = None" by (simp add: map_of_eq_None_iff)
  then show ?thesis unfolding up unfolding xs by (auto simp: fun_eq_iff map_add_def split: option.split)
qed

lemma map_of_append_new:
  "k \<notin> fst ` set xs \<Longrightarrow> map_of (xs @ [(k, v)]) = (map_of xs)(k \<mapsto> v)"
proof -
  assume "k \<notin> fst ` set xs"
  then have "map_of xs k = None" by (simp only: map_of_eq_None_iff not_False_eq_True)
  then show ?thesis by (auto simp: fun_eq_iff map_add_def split: option.split)
qed

lemma add_simulates:
  fixes i len :: nat and prefix :: addr6
  assumes "ptp_inv p"
  defines "r \<equiv> anx6_ptp_route_add p prefix len i"
  shows "ptp_inv (snd r) \<and> spec_step (Route_Add prefix len i) (ptp_abs p) = (fst r, ptp_abs (snd r))"
proof (cases "0 < len \<and> len \<le> 128 \<and> i < NX_MAX_PHYSICAL_INTERFACES")
  case False
  then have "r = (NX_IP_ADDRESS_ERROR, p)" unfolding r_def anx6_ptp_route_add_def by auto
  then show ?thesis using assms(1) False by simp
next
  case True
  define e where "e = \<lparr>pr_prefix = mask6 len prefix, pr_length = len, pr_interface = i\<rparr>"
  have e: "route_ok e" "route_key e = (mask6 len prefix, len)" "pr_interface e = i"
    using True by (simp_all add: e_def masked_ok route_key_def)
  show ?thesis
  proof (rule find_cases [OF assms(1), of prefix len])
    assume f: "anx6_ptp_route_find p prefix len = ptp_routes p"
      and new: "(mask6 len prefix, len) \<notin> route_key ` set (used_routes p)"
    show ?thesis
    proof (cases "ptp_routes p = ANX6_PTP_ROUTES")
      case full: True
      then have "r = (NX_NO_MORE_ENTRIES, p)" using True f by (simp add: r_def anx6_ptp_route_add_def)
      then show ?thesis using True new full assms(1) by (simp add: sp_routes_dom [symmetric] sp_routes_card)
    next
      case room: False
      define q where "q = p\<lparr>ptp_route := (ptp_route p)[ptp_routes p := e], ptp_routes := ptp_routes p + 1\<rparr>"
      have r: "r = (NX_SUCCESS, q)" using True f room by (simp add: r_def anx6_ptp_route_add_def q_def e_def Let_def)
      have u: "used_routes q = used_routes p @ [e]"
        unfolding q_def using assms(1) room by (intro used_append) (simp add: ptp_inv_def)
      have q: "ptp_inv q" using assms(1) room e new unfolding ptp_inv_def u by (auto simp: q_def)
      have m: "sp_routes (ptp_abs q) = (sp_routes (ptp_abs p))(route_key e \<mapsto> i)"
        using map_of_append_new [of "route_key e" "map (\<lambda>r. (route_key r, pr_interface r)) (used_routes p)" i] new e
        unfolding ptp_abs_def u by (simp add: image_image)
      have "ptp_abs q = (ptp_abs p)\<lparr>sp_routes := (sp_routes (ptp_abs p))(route_key e \<mapsto> i)\<rparr>"
        by (rule ptp_abs_routesI [OF _ m]) (simp add: q_def)
      then show ?thesis using r q True new room assms(1) e by (simp add: sp_routes_card)
    qed
  next
    fix n assume f: "anx6_ptp_route_find p prefix len = n" and n: "n < ptp_routes p"
      and k: "route_key (used_routes p ! n) = (mask6 len prefix, len)"
    define q where "q = p\<lparr>ptp_route := (ptp_route p)[n := e]\<rparr>"
    have "n \<noteq> ANX6_PTP_ROUTES" "n \<noteq> ptp_routes p" using n assms(1) by (auto simp: ptp_inv_def)
    then have r: "r = (NX_SUCCESS, q)" using True f by (simp add: r_def anx6_ptp_route_add_def q_def e_def)
    have u: "used_routes q = (used_routes p)[n := e]" unfolding q_def using n by (rule used_update)
    have nl: "n < length (used_routes p)" using n ptp_inv_length [OF assms(1)] by simp
    have keys: "map route_key (used_routes q) = map route_key (used_routes p)"
      unfolding u map_update using k e nl by (metis length_map list_update_id nth_map)
    have q: "ptp_inv q" using assms(1) e(1) unfolding ptp_inv_def keys
      by (auto simp: q_def u [unfolded q_def] list_all_iff dest: set_update_subset_insert [THEN subsetD])
    have m: "sp_routes (ptp_abs q) = (sp_routes (ptp_abs p))(route_key e \<mapsto> i)"
      unfolding ptp_abs_def u using e(3) nl k assms(1)
      by (simp add: map_update map_of_replace e(2) ptp_inv_def comp_def)
    have "(mask6 len prefix, len) \<in> dom (sp_routes (ptp_abs p))"
      unfolding sp_routes_dom using k nl by (metis image_eqI nth_mem)
    moreover have "ptp_abs q = (ptp_abs p)\<lparr>sp_routes := (sp_routes (ptp_abs p))(route_key e \<mapsto> i)\<rparr>"
      by (rule ptp_abs_routesI [OF _ m]) (simp add: q_def)
    ultimately show ?thesis using r q True e(2) by simp
  qed
qed

lemma drop_route_used:
  assumes "ptp_inv p" and "n < ptp_routes p"
  shows "ptp_inv (drop_route p n)" and "set (used_routes (drop_route p n)) = set (used_routes p) - {ptp_route p ! n}"
proof -
  let ?l = "ptp_routes p - 1"
  define xs ys where "xs = ptp_route p" and "ys = take ?l xs"
  have len: "ptp_routes p \<le> length xs" using assms(1) by (simp add: ptp_inv_def xs_def)
  have u: "used_routes p = ys @ [xs ! ?l]"
    using assms(2) len by (simp add: used_routes_def ys_def xs_def take_Suc_conv_app_nth [symmetric])
  have d: "distinct (map route_key (ys @ [xs ! ?l]))" "list_all route_ok (ys @ [xs ! ?l])"
    using assms(1) unfolding u [symmetric] by (simp_all add: ptp_inv_def)
  have v: "used_routes (drop_route p n) = (if n < ?l then ys[n := xs ! ?l] else ys)"
    by (auto simp: drop_route_def used_routes_def Let_def xs_def ys_def take_update_swap list_update_beyond not_less)
  have yl: "length ys = ?l" using len by (simp add: ys_def)
  have n: "xs ! n = (if n < ?l then ys ! n else xs ! ?l)" 
  proof (cases "n < ?l")
    case False
    then have "n = ?l" using assms(2) by linarith
    then show ?thesis by simp
  qed (simp add: ys_def)
  have k: "distinct (map route_key (used_routes (drop_route p n))) \<and> list_all route_ok (used_routes (drop_route p n)) \<and>
    set (used_routes (drop_route p n)) = set (used_routes p) - {ptp_route p ! n}"
  proof (cases "n < ?l")
    case True
    define a b where "a = take n ys" and "b = drop (Suc n) ys"
    have s: "ys = a @ ys ! n # b" using id_take_nth_drop [of n ys] True yl by (simp add: a_def b_def)
    have up: "ys[n := xs ! ?l] = a @ xs ! ?l # b"
      using True yl by (simp add: a_def b_def upd_conv_take_nth_drop)
    have "distinct (map route_key (a @ ys ! n # b @ [xs ! ?l]))" "list_all route_ok (a @ ys ! n # b @ [xs ! ?l])"
      using d s by (metis append.assoc append_Cons)+
    moreover have "set (used_routes p) = set (a @ ys ! n # b @ [xs ! ?l])" unfolding u using s by (metis append.assoc append_Cons)
    moreover have "ptp_route p ! n = ys ! n" using n True by (simp add: xs_def)
    ultimately show ?thesis using True unfolding v up by auto
  next
    case False
    then show ?thesis using d n unfolding v u by (auto simp: xs_def)
  qed
  then show "set (used_routes (drop_route p n)) = set (used_routes p) - {ptp_route p ! n}" by blast
  show "ptp_inv (drop_route p n)"
  proof -
    have "length (ptp_route (drop_route p n)) = length (ptp_route p)" "ptp_routes (drop_route p n) \<le> ptp_routes p"
      "ptp_peer (drop_route p n) = ptp_peer p" "ptp_peers (drop_route p n) = ptp_peers p"
      by (simp_all add: drop_route_def Let_def)
    then show ?thesis using k assms(1) unfolding ptp_inv_def by auto
  qed
qed

lemma delete_simulates:
  fixes i len :: nat and prefix :: addr6
  assumes "ptp_inv p"
  defines "r \<equiv> anx6_ptp_route_delete p prefix len i"
  shows "ptp_inv (snd r) \<and> spec_step (Route_Delete prefix len i) (ptp_abs p) = (fst r, ptp_abs (snd r))"
proof (rule find_cases [OF assms(1), of prefix len])
  assume f: "anx6_ptp_route_find p prefix len = ptp_routes p"
    and new: "(mask6 len prefix, len) \<notin> route_key ` set (used_routes p)"
  have "sp_routes (ptp_abs p) (mask6 len prefix, len) = None" using new by (simp add: sp_routes_dom [symmetric] domIff)
  then show ?thesis using f assms(1) by (simp add: r_def anx6_ptp_route_delete_def)
next
  fix n assume f: "anx6_ptp_route_find p prefix len = n" and n: "n < ptp_routes p"
    and k: "route_key (used_routes p ! n) = (mask6 len prefix, len)" and e: "ptp_route p ! n = used_routes p ! n"
  let ?e = "ptp_route p ! n" and ?k = "(mask6 len prefix, len)"
  have nl: "?e \<in> set (used_routes p)" using n ptp_inv_length [OF assms(1)] unfolding e by simp
  have at: "sp_routes (ptp_abs p) ?k = Some (pr_interface ?e)"
    unfolding sp_routes_iff [OF assms(1)] using nl k e by auto
  show ?thesis
  proof (cases "pr_interface ?e = i")
    case False
    then have "r = (NX_ENTRY_NOT_FOUND, p)" using f by (simp add: r_def anx6_ptp_route_delete_def Let_def)
    then show ?thesis using False at assms(1) by simp
  next
    case True
    then have r: "r = (NX_SUCCESS, drop_route p n)" using f n by (simp add: r_def anx6_ptp_route_delete_def Let_def)
    note dr = drop_route_used [OF assms(1) n]
    have m: "sp_routes (ptp_abs (drop_route p n)) = (sp_routes (ptp_abs p))(?k := None)"
    proof (rule sp_routes_cong [OF dr(1)])
      fix k' j
      show "(\<exists>q \<in> set (used_routes (drop_route p n)). route_key q = k' \<and> pr_interface q = j) \<longleftrightarrow>
        ((sp_routes (ptp_abs p))(?k := None)) k' = Some j"
      proof (cases "k' = ?k")
        case True
        have "route_key q \<noteq> k'" if "q \<in> set (used_routes p) - {?e}" for q
          using key_inj [OF assms(1) _ nl, of q] that k e True by auto
        then show ?thesis using True unfolding dr(2) by auto
      next
        case False
        then have "route_key ?e \<noteq> k'" using k e by simp
        then have "(\<exists>q \<in> set (used_routes p) - {?e}. route_key q = k' \<and> pr_interface q = j) \<longleftrightarrow>
            (\<exists>q \<in> set (used_routes p). route_key q = k' \<and> pr_interface q = j)" by auto
        then show ?thesis using sp_routes_iff [OF assms(1), of k' j] False unfolding dr(2) by simp
      qed
    qed
    have "ptp_abs (drop_route p n) = (ptp_abs p)\<lparr>sp_routes := (sp_routes (ptp_abs p))(?k := None)\<rparr>"
      by (rule ptp_abs_routesI [OF _ m]) (simp add: drop_route_def Let_def)
    then show ?thesis using r dr(1) at True by simp
  qed
qed

lemma purge_used:
  "ptp_inv p \<Longrightarrow> i \<le> ptp_routes p \<Longrightarrow> (\<And>k. i \<le> k \<Longrightarrow> k < ptp_routes p \<Longrightarrow> pr_interface (ptp_route p ! k) \<noteq> j) \<Longrightarrow>
   ptp_inv (purge_routes j i p) \<and>
   set (used_routes (purge_routes j i p)) = {r \<in> set (used_routes p). pr_interface r \<noteq> j} \<and>
   ptp_peer (purge_routes j i p) = ptp_peer p"
proof (induction i arbitrary: p)
  case 0
  have "\<forall>r \<in> set (used_routes p). pr_interface r \<noteq> j"
  proof
    fix r assume "r \<in> set (used_routes p)"
    then obtain k where "k < ptp_routes p" "r = ptp_route p ! k" by (auto simp: in_set_conv_nth used_routes_def)
    then show "pr_interface r \<noteq> j" using 0(3) [of k] by simp
  qed
  then show ?case using 0 by auto
next
  case (Suc i)
  show ?case
  proof (cases "pr_interface (ptp_route p ! i) = j")
    case False
    then have "pr_interface (ptp_route p ! k) \<noteq> j" if "i \<le> k" "k < ptp_routes p" for k
      using that Suc.prems(3) [of k] by (cases "k = i") auto
    then show ?thesis using Suc.IH [OF Suc.prems(1)] Suc.prems(2) False by simp
  next
    case True
    have i: "i < ptp_routes p" using Suc.prems(2) by simp
    note dr = drop_route_used [OF Suc.prems(1) i]
    have "i < length (ptp_route p)" using Suc.prems(1) i by (simp add: ptp_inv_def)
    then have "pr_interface (ptp_route (drop_route p i) ! k) \<noteq> j"
      if "i \<le> k" "k < ptp_routes (drop_route p i)" for k
      using that Suc.prems(3) [of k] Suc.prems(3) [of "ptp_routes p - 1"]
      by (cases "k = i") (auto simp: drop_route_def Let_def)
    moreover have "i \<le> ptp_routes (drop_route p i)" using i by (simp add: drop_route_def Let_def)
    ultimately have IH: "ptp_inv (purge_routes j i (drop_route p i)) \<and>
        set (used_routes (purge_routes j i (drop_route p i))) = {r \<in> set (used_routes (drop_route p i)). pr_interface r \<noteq> j} \<and>
        ptp_peer (purge_routes j i (drop_route p i)) = ptp_peer (drop_route p i)"
      using Suc.IH [OF dr(1)] by blast
    moreover have "ptp_peer (drop_route p i) = ptp_peer p" by (simp add: drop_route_def Let_def)
    ultimately show ?thesis using True unfolding dr(2) by auto
  qed
qed

lemma unspecified_zero: "unspecified a \<longleftrightarrow> a = (0, 0, 0, 0)"
  by (simp add: unspecified_def)

lemma sp_peer_set:
  assumes "ptp_inv p" and "i < NX_MAX_PHYSICAL_INTERFACES" and "ptp_peer q = (ptp_peer p)[i := a]"
  shows "sp_peer (ptp_abs q) = (sp_peer (ptp_abs p))(i := if unspecified a then None else Some a)"
  using assms by (auto simp: ptp_abs_def ptp_inv_def fun_eq_iff nth_list_update)

lemma drop_peers: "drop_route (s\<lparr>ptp_peers := m\<rparr>) n = (drop_route s n)\<lparr>ptp_peers := m\<rparr>"
  by (simp add: drop_route_def Let_def)

lemma purge_peers: "purge_routes j n (s\<lparr>ptp_peers := m\<rparr>) = (purge_routes j n s)\<lparr>ptp_peers := m\<rparr>"
  by (induction n arbitrary: s) (simp_all add: drop_peers)

lemma purge_peer: "ptp_peer (purge_routes j n s) = ptp_peer s"
  by (induction n arbitrary: s) (simp_all add: drop_route_def Let_def)

lemma peer_set_simulates:
  fixes i :: nat and peer :: "addr6 option"
  assumes "ptp_inv p"
  defines "q \<equiv> anx6_ptp_peer_set p i peer"
  shows "ptp_inv q \<and> spec_step (Peer_Set i peer) (ptp_abs p) = (NX_SUCCESS, ptp_abs q)"
proof (cases "i < NX_MAX_PHYSICAL_INTERFACES")
  case False
  then show ?thesis using assms(1) by (simp add: q_def anx6_ptp_peer_set_def)
next
  case True
  define a where "a = (case peer of None \<Rightarrow> (0, 0, 0, 0) | Some a \<Rightarrow> a)"
  define p1 where "p1 = p\<lparr>ptp_peer := (ptp_peer p)[i := a],
    ptp_peers := length (filter (\<lambda>a. \<not> unspecified a) ((ptp_peer p)[i := a]))\<rparr>"
  have p1: "ptp_inv p1" using assms(1) by (simp add: ptp_inv_def p1_def used_routes_def)
  have clear: "unspecified a \<longleftrightarrow> peer = None \<or> peer = Some (0, 0, 0, 0)"
    by (auto simp: a_def unspecified_def split: option.splits)
  define q' where "q' = (if unspecified a then purge_routes i (ptp_routes p1) p1 else p1)"
  have q: "q = q'"
    unfolding q_def anx6_ptp_peer_set_def q'_def p1_def a_def [symmetric] using True
    by (simp add: Let_def purge_peers a_def [symmetric] purge_peer)
  show ?thesis
  proof (cases "unspecified a")
    case False
    have "ptp_abs p1 = (ptp_abs p)\<lparr>sp_peer := (sp_peer (ptp_abs p))(i := peer)\<rparr>"
      using sp_peer_set [OF assms(1) True, of p1 a] False clear
      by (auto simp: p1_def ptp_abs_def used_routes_def a_def split: option.splits)
    moreover have "\<not> (peer = None \<or> peer = Some (0, 0, 0, 0))" using False clear by blast
    ultimately show ?thesis using q p1 False True by (simp only: q'_def spec_step.simps if_False not_True_eq_False)
  next
    case un: True
    have pu: "ptp_inv q'" "set (used_routes q') = {r \<in> set (used_routes p1). pr_interface r \<noteq> i}"
      "ptp_peer q' = ptp_peer p1"
      using purge_used [OF p1, of "ptp_routes p1" i] un by (simp_all add: q'_def)
    have u1: "used_routes p1 = used_routes p" by (simp add: p1_def used_routes_def)
    have m: "sp_routes (ptp_abs q') = sp_routes (ptp_abs p) |` {k. sp_routes (ptp_abs p) k \<noteq> Some i}"
    proof (rule sp_routes_cong [OF pu(1)])
      fix k j
      have "(\<exists>r \<in> set (used_routes q'). route_key r = k \<and> pr_interface r = j) \<longleftrightarrow>
          (\<exists>r \<in> set (used_routes p). route_key r = k \<and> pr_interface r = j) \<and> j \<noteq> i"
        unfolding pu(2) u1 by auto
      then show "(\<exists>r \<in> set (used_routes q'). route_key r = k \<and> pr_interface r = j) \<longleftrightarrow>
          (sp_routes (ptp_abs p) |` {k. sp_routes (ptp_abs p) k \<noteq> Some i}) k = Some j"
        using sp_routes_iff [OF assms(1), of k j] by (auto simp: restrict_map_def)
    qed
    have "sp_peer (ptp_abs q') = (sp_peer (ptp_abs p))(i := None)"
      using sp_peer_set [OF assms(1) True, of q' a] un pu(3) by (simp add: p1_def)
    then have "ptp_abs q' = \<lparr>sp_routes = sp_routes (ptp_abs p) |` {k. sp_routes (ptp_abs p) k \<noteq> Some i},
        sp_peer = (sp_peer (ptp_abs p))(i := None)\<rparr>"
      using m by (intro ptp_spec.equality) simp_all
    then show ?thesis using q pu(1) un clear True by auto
  qed
qed

section \<open>The table simulates its specification\<close>

interpretation ptp: simulation ptp_inv ptp_abs ptp_step spec_step
proof
  fix p c assume p: "ptp_inv p"
  have "ptp_inv (snd (ptp_step c p)) \<and>
      spec_step c (ptp_abs p) = (fst (ptp_step c p), ptp_abs (snd (ptp_step c p)))"
    using add_simulates [OF p] delete_simulates [OF p] peer_set_simulates [OF p] by (cases c) auto
  then show "ptp_inv (snd (ptp_step c p))"
    "spec_step c (ptp_abs p) = (fst (ptp_step c p), ptp_abs (snd (ptp_step c p)))" by blast+
qed

definition ptp_start :: anx6_ptp where
  "ptp_start = \<lparr>ptp_peer = replicate NX_MAX_PHYSICAL_INTERFACES (0, 0, 0, 0), ptp_peers = 0,
     ptp_route = replicate ANX6_PTP_ROUTES \<lparr>pr_prefix = (0, 0, 0, 0), pr_length = 0, pr_interface = 0\<rparr>,
     ptp_routes = 0\<rparr>"

lemma ptp_inv_start: "ptp_inv ptp_start"
  by (simp add: ptp_inv_def ptp_start_def used_routes_def unspecified_def)

lemma ptp_abs_start: "ptp_abs ptp_start = \<lparr>sp_routes = Map.empty, sp_peer = Map.empty\<rparr>"
  by (simp add: ptp_abs_def ptp_start_def used_routes_def unspecified_def fun_eq_iff)

text \<open>
  C33. The point-to-point tables are a partial map of prefixes and one of peers. Whatever
  sequence of route additions, route deletions and peer changes runs on the empty module
  variables, each answers what the specification answers on its two maps (an addition
  replaces the route of the same masked prefix, and is refused for a bad length or interface and
  for a ninth prefix; a deletion needs the interface to match; clearing a peer drops exactly the
  routes through its interface), the tables stand for the maps after it, and the array bound, the
  uniqueness of a prefix and the count of peers hold throughout.
\<close>

theorem ip6_routes_refine:
  "ptp_inv (snd (run_ops ptp_step cs ptp_start)) \<and>
   run_ops spec_step cs \<lparr>sp_routes = Map.empty, sp_peer = Map.empty\<rparr> =
     (fst (run_ops ptp_step cs ptp_start), ptp_abs (snd (run_ops ptp_step cs ptp_start)))"
  using ptp.run_inv [OF ptp_inv_start, of cs] ptp.run_abs [OF ptp_inv_start, of cs] ptp_abs_start by simp

end
