(* ===== verification/Preference.thy ===== *)
theory Preference
  imports Ami_Prelude "HOL-Library.Product_Lexorder"
begin

text \<open>
  Choosing the best of a list by one pass, the way the selection loops of the stack do: the
  first element is taken, and a later one replaces the choice only if it beats it. The locale
  \<open>preference\<close> is the interface of such a loop: the comparison of the code agrees with a rank
  in a linear order. What the loop then finds is proved once: an element of the highest rank,
  and of these the first.
\<close>

fun pick :: "('a \<Rightarrow> 'a \<Rightarrow> bool) \<Rightarrow> 'a list \<Rightarrow> 'a option \<Rightarrow> 'a option" where
  "pick beats [] best = best"
| "pick beats (x # xs) best =
     pick beats xs (case best of None \<Rightarrow> Some x | Some b \<Rightarrow> if beats x b then Some x else Some b)"

definition first_best :: "('a \<Rightarrow> 'b::linorder) \<Rightarrow> 'a list \<Rightarrow> 'a \<Rightarrow> bool" where
  "first_best rank xs b \<longleftrightarrow>
     (\<exists>ys zs. xs = ys @ b # zs \<and> (\<forall>y \<in> set ys. rank y < rank b) \<and> (\<forall>z \<in> set zs. rank z \<le> rank b))"

lemma first_best_in: "first_best rank xs b \<Longrightarrow> b \<in> set xs"
  by (auto simp: first_best_def)

lemma first_best_max: "first_best rank xs b \<Longrightarrow> x \<in> set xs \<Longrightarrow> rank x \<le> rank b"
  by (fastforce simp: first_best_def)

locale preference =
  fixes rank :: "'a \<Rightarrow> 'b::linorder" and beats :: "'a \<Rightarrow> 'a \<Rightarrow> bool"
  assumes beats_iff: "beats x y \<longleftrightarrow> rank y < rank x"
begin

lemma pick_Some: "\<exists>b. pick beats xs (Some c) = Some b"
  by (induction xs arbitrary: c) simp_all

lemma pick_None_iff: "pick beats xs None = None \<longleftrightarrow> xs = []"
proof (cases xs)
  case (Cons x ys)
  then show ?thesis using pick_Some [of ys x] by auto
qed simp

lemma pick_from:
  "pick beats xs (Some c) = Some b \<Longrightarrow> first_best rank (c # xs) b"
proof (induction xs arbitrary: c)
  case Nil
  then have "[c] = [] @ b # []" by simp
  then show ?case unfolding first_best_def by (metis empty_iff list.set(1))
next
  case (Cons x xs)
  show ?case
  proof (cases "rank c < rank x")
    case True
    then have "first_best rank (x # xs) b" using Cons by (simp add: beats_iff)
    then obtain ys zs where s: "x # xs = ys @ b # zs" "\<forall>y \<in> set ys. rank y < rank b"
      "\<forall>z \<in> set zs. rank z \<le> rank b" by (auto simp: first_best_def)
    have "rank x \<le> rank b" using s by (cases ys) auto
    then have "\<forall>y \<in> set (c # ys). rank y < rank b" using s True by auto
    moreover have "c # x # xs = (c # ys) @ b # zs" using s by simp
    ultimately show ?thesis using s(3) unfolding first_best_def by blast
  next
    case False
    then have "first_best rank (c # xs) b" using Cons by (simp add: beats_iff)
    then obtain ys zs where s: "c # xs = ys @ b # zs" "\<forall>y \<in> set ys. rank y < rank b"
      "\<forall>z \<in> set zs. rank z \<le> rank b" by (auto simp: first_best_def)
    show ?thesis
    proof (cases ys)
      case Nil
      then have "c # x # xs = [] @ b # (x # zs)" "\<forall>z \<in> set (x # zs). rank z \<le> rank b" using s False by auto
      then show ?thesis unfolding first_best_def by (metis empty_iff list.set(1))
    next
      case (Cons y ys')
      then have "c # x # xs = (c # x # ys') @ b # zs" "\<forall>y \<in> set (c # x # ys'). rank y < rank b"
        using s False by auto
      then show ?thesis using s(3) unfolding first_best_def by blast
    qed
  qed
qed

lemma pick_best: "pick beats xs None = Some b \<Longrightarrow> first_best rank xs b"
  using pick_from by (cases xs) auto

end

end
