(* ===== verification/Ip6_Correct.thy ===== *)
theory Ip6_Correct
  imports Ip6_Ptp Preference
begin

text \<open>
  Source address selection against RFC 6724. Each loop of the selection is one pass for the
  best (\<open>pick\<close>) of a list of entries; the locale \<open>preference\<close> is interpreted for the comparison
  of each: the rules for source addresses, the routes of a destination, and the default routers.
\<close>

section \<open>The orders\<close>

text \<open>
  Rules 1, 2, 3, 5, 6 and 8 as one lexicographic rank. A scope that reaches the destination
  beats one that does not; among those that do the smaller wins, among those that do not the
  larger.
\<close>

definition scope_rank :: "nat \<Rightarrow> nat \<Rightarrow> bool \<times> int" where
  "scope_rank dest_scope scope =
     (dest_scope \<le> scope, if dest_scope \<le> scope then - int scope else int scope)"

definition source_rank ::
  "nat \<Rightarrow> anx6_candidate \<Rightarrow> bool \<times> (bool \<times> int) \<times> bool \<times> bool \<times> bool \<times> nat" where
  "source_rank dest_scope c =
     (cand_same c, scope_rank dest_scope (cand_scope c), \<not> cand_deprecated c, cand_outgoing c,
      cand_label_match c, cand_prefix_len c)"

lemma scope_rank_less:
  "scope_rank d a < scope_rank d b \<longleftrightarrow>
     (if a < b then a < d else b < a \<and> \<not> b < d)"
  by (auto simp: scope_rank_def)

lemma scope_rank_inj: "scope_rank d a = scope_rank d b \<longleftrightarrow> a = b"
  by (auto simp: scope_rank_def)

lemma lex_less: "(a, b) < (c, d) \<longleftrightarrow> (if a = c then b < d else a < c)"
  for a c :: "'a::linorder" and b d :: "'b::linorder"
  by auto

lemma better_rank: "0 < anx6_better d x y \<longleftrightarrow> source_rank d y < source_rank d x"
  unfolding source_rank_def lex_less scope_rank_less scope_rank_inj anx6_better_def by auto

interpretation source: preference "source_rank d" "\<lambda>x y. 0 < anx6_better d x y" for d
  by unfold_locales (rule better_rank)





definition router_rank :: "NX_IP \<Rightarrow> nat \<times> nat \<Rightarrow> int \<times> bool" where
  "router_rank ip r = (nif_priority (ip_interface ip ! snd r), \<not> nif_mapping_needed (ip_interface ip ! snd r))"

interpretation router: preference "router_rank ip" "\<lambda>x y. router_beats ip (snd x) (snd y)" for ip
  by unfold_locales (auto simp: router_rank_def router_beats_def Let_def)

interpretation link: preference "\<lambda>i. nif_priority (ip_interface ip ! i)"
  "\<lambda>i j. anx6_prefer ip i (Some j)" for ip
  by unfold_locales (simp add: anx6_prefer_def)

section \<open>The loops as one pass over their entries\<close>

definition candidates :: "NX_IP \<Rightarrow> addr6 \<Rightarrow> nat \<Rightarrow> nat option \<Rightarrow> nat \<Rightarrow> NXD_IPV6_ADDRESS list \<Rightarrow> anx6_candidate list" where
  "candidates ip dest out_if if_ptr k as =
     map (\<lambda>(j, a). anx6_describe j a dest (anx6_label dest) out_if)
       (filter (\<lambda>(j, a). is_candidate ip (anx6_scope dest) out_if if_ptr a) (enumerate k as))"

lemma select_scan_pick:
  "select_scan ip dest out_if if_ptr as k best =
   pick (\<lambda>x y. 0 < anx6_better (anx6_scope dest) x y) (candidates ip dest out_if if_ptr k as) best"
  by (induction as arbitrary: k best) (auto simp: candidates_def Let_def split: option.split)

definition live :: "NX_IP \<Rightarrow> NXD_IPV6_ADDRESS \<Rightarrow> bool" where
  "live ip a \<longleftrightarrow> anx6_usable ip a \<and> na_attached a \<noteq> Some NX_LOOPBACK_INTERFACE"

lemma usable_attached: "anx6_usable ip a \<Longrightarrow> \<exists>i. na_attached a = Some i"
  by (auto simp: anx6_usable_def split: if_splits option.splits)

lemma first_up_pick:
  "first_up_scan ip as best =
   pick (\<lambda>i j. anx6_prefer ip i (Some j)) (map (the \<circ> na_attached) (filter (live ip) as)) best"
proof (induction as arbitrary: best)
  case (Cons a as)
  show ?case
  proof (cases "live ip a")
    case True
    then obtain i where "na_attached a = Some i" using usable_attached live_def by blast
    then show ?thesis using True Cons.IH
      by (cases best) (auto simp: live_def anx6_prefer_def)
  next
    case False
    then show ?thesis using Cons.IH by (auto simp: live_def)
  qed
qed simp







definition routers :: "NX_IP \<Rightarrow> nat \<Rightarrow> NX_ROUTER_ENTRY list \<Rightarrow> (nat \<times> nat) list" where
  "routers ip k rts = map (\<lambda>(j, rt). (j, the (nr_interface rt))) (filter (\<lambda>(j, rt). live_router ip rt) (enumerate k rts))"

lemma router_pick:
  "router_scan ip rts k best = pick (\<lambda>x y. router_beats ip (snd x) (snd y)) (routers ip k rts) best"
proof (induction rts arbitrary: k best)
  case (Cons rt rts)
  show ?case
  proof (cases "live_router ip rt")
    case True
    then obtain rif where "nr_interface rt = Some rif" by (auto simp: live_router_def split: option.splits)
    then show ?thesis using True by (auto simp: routers_def live_router_def Cons.IH split: option.split)
  next
    case False
    then show ?thesis by (auto simp: routers_def live_router_def Cons.IH split: option.splits)
  qed
qed (simp add: routers_def)

section \<open>The source address\<close>

lemma set_enumerate: "set (enumerate k as) = (\<lambda>j. (k + j, as ! j)) ` {..<length as}"
  by (force simp: enumerate_eq_zip set_zip)

lemma candidates_nth:
  "c \<in> set (candidates ip dest out_if if_ptr k as) \<longleftrightarrow>
   (\<exists>j < length as. is_candidate ip (anx6_scope dest) out_if if_ptr (as ! j) \<and>
      c = anx6_describe (k + j) (as ! j) dest (anx6_label dest) out_if)"
  by (auto simp: candidates_def set_enumerate)

lemma candidates_sorted: "sorted_wrt (\<lambda>x y. cand_address x < cand_address y) (candidates ip dest out_if if_ptr k as)"
proof (induction as arbitrary: k)
  case (Cons a as)
  have "\<forall>c \<in> set (candidates ip dest out_if if_ptr (Suc k) as). k < cand_address c"
    by (auto simp: candidates_nth anx6_describe_def)
  then show ?case using Cons.IH [of "Suc k"]
    by (auto simp: candidates_def anx6_describe_def)
qed (simp add: candidates_def)

lemma first_best_sorted:
  assumes "first_best rank xs b" and "sorted_wrt (\<lambda>x y. key x < (key y :: nat)) xs" and "x \<in> set xs" and "key x < key b"
  shows "rank x < rank b"
proof -
  obtain ys zs where s: "xs = ys @ b # zs" "\<forall>y \<in> set ys. rank y < rank b" using assms(1) by (auto simp: first_best_def)
  have "\<forall>z \<in> set zs. key b < key z" using assms(2) unfolding s(1) by (simp add: sorted_wrt_append)
  then have "x \<in> set ys" using assms(3,4) unfolding s(1) by auto
  then show ?thesis using s(2) by blast
qed

definition outgoing :: "anx6_ptp \<Rightarrow> NX_IP \<Rightarrow> addr6 \<Rightarrow> nat option \<Rightarrow> nat option" where
  "outgoing p ip dest if_ptr = (case if_ptr of Some i \<Rightarrow> Some i | None \<Rightarrow> anx6_outgoing_interface p ip dest)"

lemma find_unfold:
  "nxd_ipv6_interface_find p ip dest if_ptr =
     (if unspecified dest then None
      else case outgoing p ip dest if_ptr of None \<Rightarrow> None
      | Some out \<Rightarrow> (case pick (\<lambda>x y. 0 < anx6_better (anx6_scope dest) x y)
                            (candidates ip dest out if_ptr 0 (ip_address ip)) None of
                       None \<Rightarrow> None
                     | Some best \<Rightarrow> if cand_scope best < anx6_scope dest then None else Some (cand_address best)))"
  unfolding nxd_ipv6_interface_find_def outgoing_def select_scan_pick by (rule refl)

text \<open>
  C32. The source address chosen is the one RFC 6724 asks for. When \<^verbatim>\<open>_nxd_ipv6_interface_find\<close>
  answers with an address, that address is a candidate (assigned, not tentative, on an interface
  that is up, on the outgoing link when the destination is link-local, never a loopback address
  on another link, on the interface the caller named), its scope reaches the destination, no
  candidate ranks higher under rules 1, 2, 3, 5, 6 and 8 taken in this order, and every earlier
  candidate of the table ranks strictly lower.
\<close>

theorem ip6_source_optimal:
  assumes "nxd_ipv6_interface_find p ip dest if_ptr = Some k"
  shows "\<exists>out. outgoing p ip dest if_ptr = Some out \<and> k < length (ip_address ip) \<and>
    is_candidate ip (anx6_scope dest) out if_ptr (ip_address ip ! k) \<and>
    anx6_scope dest \<le> anx6_scope (na_address (ip_address ip ! k)) \<and>
    (\<forall>j < length (ip_address ip). is_candidate ip (anx6_scope dest) out if_ptr (ip_address ip ! j) \<longrightarrow>
       (let d = (\<lambda>i. source_rank (anx6_scope dest) (anx6_describe i (ip_address ip ! i) dest (anx6_label dest) out))
        in d j \<le> d k \<and> (j < k \<longrightarrow> d j < d k)))"
proof -
  obtain out best where o: "outgoing p ip dest if_ptr = Some out"
    and pk: "pick (\<lambda>x y. 0 < anx6_better (anx6_scope dest) x y) (candidates ip dest out if_ptr 0 (ip_address ip)) None = Some best"
    and sc: "\<not> cand_scope best < anx6_scope dest" and k: "k = cand_address best"
    using assms unfolding find_unfold by (auto split: if_splits option.splits)
  note fb = source.pick_best [OF pk]
  obtain j where j: "j < length (ip_address ip)" "is_candidate ip (anx6_scope dest) out if_ptr (ip_address ip ! j)"
    "best = anx6_describe j (ip_address ip ! j) dest (anx6_label dest) out"
    using first_best_in [OF fb] by (auto simp: candidates_nth)
  have "k = j" using j(3) k by (simp add: anx6_describe_def)
  moreover have "anx6_scope dest \<le> anx6_scope (na_address (ip_address ip ! j))"
    using sc j(3) by (simp add: anx6_describe_def)
  moreover have "source_rank (anx6_scope dest) (anx6_describe i (ip_address ip ! i) dest (anx6_label dest) out)
      \<le> source_rank (anx6_scope dest) best \<and>
      (i < j \<longrightarrow> source_rank (anx6_scope dest) (anx6_describe i (ip_address ip ! i) dest (anx6_label dest) out)
        < source_rank (anx6_scope dest) best)"
    if "i < length (ip_address ip)" "is_candidate ip (anx6_scope dest) out if_ptr (ip_address ip ! i)" for i
  proof -
    have c: "anx6_describe i (ip_address ip ! i) dest (anx6_label dest) out
        \<in> set (candidates ip dest out if_ptr 0 (ip_address ip))" using that by (auto simp: candidates_nth)
    show ?thesis using first_best_max [OF fb c] first_best_sorted [OF fb candidates_sorted c]
      by (simp add: j(3)) (simp add: anx6_describe_def)
  qed
  ultimately show ?thesis using o j unfolding Let_def by blast
qed

lemma describe_scope:
  "cand_scope (anx6_describe j a dest l out) = anx6_scope (na_address a)"
  "cand_same (anx6_describe j a dest l out) \<longleftrightarrow> na_address a = dest"
  by (auto simp: anx6_describe_def anx6_same_address_def split: prod.splits)

lemma rank_scope:
  assumes "source_rank d x \<le> source_rank d y" and "d \<le> cand_scope x" and "cand_same y \<Longrightarrow> cand_scope y = d"
  shows "d \<le> cand_scope y"
  using assms by (auto simp: source_rank_def scope_rank_def split: if_splits)

text \<open>
  C35. The selection fails only when it has to. It answers with an address exactly if the
  destination is not the unspecified address, there is an outgoing interface, and some
  candidate has a scope that reaches the destination; rule 2 never loses such a candidate to
  one of a smaller scope.
\<close>

theorem ip6_source_complete:
  "(nxd_ipv6_interface_find p ip dest if_ptr \<noteq> None) =
   (dest \<noteq> (0, 0, 0, 0) \<and> (\<exists>out a. outgoing p ip dest if_ptr = Some out \<and> a \<in> set (ip_address ip) \<and>
      is_candidate ip (anx6_scope dest) out if_ptr a \<and> anx6_scope dest \<le> anx6_scope (na_address a)))"
proof (cases "unspecified dest \<or> outgoing p ip dest if_ptr = None")
  case True
  then show ?thesis by (auto simp: find_unfold unspecified_def)
next
  case False
  then obtain out where o: "outgoing p ip dest if_ptr = Some out" and d: "\<not> unspecified dest" by blast
  let ?cs = "candidates ip dest out if_ptr 0 (ip_address ip)"
  have same: "cand_scope c = anx6_scope dest" if "c \<in> set ?cs" "cand_same c" for c
    using that by (auto simp: candidates_nth describe_scope)
  have "(\<exists>a \<in> set (ip_address ip). is_candidate ip (anx6_scope dest) out if_ptr a \<and>
      anx6_scope dest \<le> anx6_scope (na_address a)) \<longleftrightarrow> (\<exists>c \<in> set ?cs. anx6_scope dest \<le> cand_scope c)"
    unfolding Bex_def candidates_nth in_set_conv_nth [of _ "ip_address ip"] by (auto simp: describe_scope)
  moreover have "(nxd_ipv6_interface_find p ip dest if_ptr \<noteq> None) \<longleftrightarrow>
      (\<exists>c \<in> set ?cs. anx6_scope dest \<le> cand_scope c)"
  proof (cases "pick (\<lambda>x y. 0 < anx6_better (anx6_scope dest) x y) ?cs None")
    case None
    then have "?cs = []" by (simp only: source.pick_None_iff)
    then show ?thesis using o d None by (simp add: find_unfold)
  next
    case (Some best)
    note fb = source.pick_best [OF Some]
    have "anx6_scope dest \<le> cand_scope best" if "c \<in> set ?cs" "anx6_scope dest \<le> cand_scope c" for c
      using rank_scope [OF first_best_max [OF fb that(1)] that(2)] same [OF first_best_in [OF fb]] by blast
    then show ?thesis using o d Some first_best_in [OF fb] by (auto simp: find_unfold not_less)
  qed
  ultimately show ?thesis using o d by (auto simp: unspecified_def)
qed

section \<open>The outgoing interface\<close>


text \<open>
  \<^verbatim>\<open>anx6_default_router\<close> finds the best router there is: nothing exactly if no entry of the
  router table is in use on an interface that is up, and otherwise the first among those whose
  interface has the highest priority and, at that priority, is a point-to-point link before a LAN.
\<close>

lemma ip6_default_router_best:
  "case anx6_default_router ip of
     None \<Rightarrow> routers ip 0 (ip_router ip) = []
   | Some r \<Rightarrow> first_best (router_rank ip) (routers ip 0 (ip_router ip)) r"
  using router.pick_None_iff [of ip "routers ip 0 (ip_router ip)"] router.pick_best [of ip "routers ip 0 (ip_router ip)"]
  by (simp add: anx6_default_router_def router_pick split: option.split)

section \<open>A node with two links\<close>

definition sample_if :: "bool \<Rightarrow> NX_INTERFACE" where
  "sample_if up = \<lparr>nif_link_up = up, nif_priority = 0, nif_mapping_needed = True\<rparr>"

definition sample_addr :: "nat \<Rightarrow> addr6 \<Rightarrow> nat \<Rightarrow> NXD_IPV6_ADDRESS" where
  "sample_addr i a len = \<lparr>na_valid = True, na_state = Addr_Preferred, na_attached = Some i, na_address = a,
     na_prefix_length = len\<rparr>"

text \<open>
  Interface 0 holds fe80::1 and has joined the group ff0e::1, interface 1 holds 2001:db8::1/64
  and fe80::2, interface 4 is the loopback interface; a router is on interface 1.
\<close>

definition sample_ip :: NX_IP where
  "sample_ip = \<lparr>ip_interface = [sample_if True, sample_if True, sample_if False, sample_if False, sample_if True],
     ip_address = [sample_addr 0 (0xFE800000, 0, 0, 1) 64, sample_addr 1 (0x20010DB8, 0, 0, 1) 64,
                   sample_addr 1 (0xFE800000, 0, 0, 2) 64, sample_addr 4 (0, 0, 0, 1) 128],
     ip_router = [\<lparr>nr_flag = 1, nr_interface = Some 1\<rparr>],
     ip_multicast = [\<lparr>nm_interface = Some 0, nm_group = (0xFF0E0000, 0, 0, 1)\<rparr>]\<rparr>"

theorem ip6_source_optimal_witness:
  "\<exists>out. outgoing ptp_start sample_ip (0x20010DB8, 0, 0, 9) None = Some out \<and>
     is_candidate sample_ip (anx6_scope (0x20010DB8, 0, 0, 9)) out None (ip_address sample_ip ! 1)"
proof -
  have "nxd_ipv6_interface_find ptp_start sample_ip (0x20010DB8, 0, 0, 9) None = Some 1" by code_simp
  from ip6_source_optimal [OF this] show ?thesis by blast
qed


text \<open>
  The candidate set of a multicast destination is not limited to the outgoing link when the
  group's scope is wider than the link, although RFC 6724 section 4 and the comment above the
  guard ask for it. A node that joined ff0e::1 on interface 0 finds interface 0 as the
  outgoing interface, and is then given a source address of interface 1, which the caller sends by.
\<close>

lemma ip6_multicast_other_link:
  "multicast (0xFF0E0000, 0, 0, 1) \<and>
   anx6_outgoing_interface ptp_start sample_ip (0xFF0E0000, 0, 0, 1) = Some 0 \<and>
   map_option (\<lambda>k. na_attached (ip_address sample_ip ! k))
     (nxd_ipv6_interface_find ptp_start sample_ip (0xFF0E0000, 0, 0, 1) None) = Some (Some 1)"
  by code_simp

end
