(* ===== verification/Cfg_Text.thy ===== *)
theory Cfg_Text
  imports Ami_Prelude "HOL-Library.Char_ord"
begin

text \<open>
  The text layer of the configuration files, \<^verbatim>\<open>src/config/config_text.c\<close>: comparisons,
  numbers, switches, hardware addresses and IPv4 addresses.

  A C string that is only read is the list of its characters before the terminator, so the
  end of the list is the terminating NUL and a pointer into the string is the rest of the list.
  A \<^verbatim>\<open>BOOL\<close> result with an output parameter is an \<open>option\<close>. \<^verbatim>\<open>ULONG\<close> values are 32-bit words; the
  count of digits, which is only compared with zero, is a \<open>nat\<close>.
\<close>

section \<open>Characters and strings\<close>

definition blank :: "char \<Rightarrow> bool" where
  "blank c \<longleftrightarrow> c = CHR '' '' \<or> c = CHR 0x09"

definition skip_blanks :: "string \<Rightarrow> string" where
  "skip_blanks s = dropWhile blank s"

definition to_lower :: "char \<Rightarrow> char" where
  "to_lower c = (if CHR ''A'' \<le> c \<and> c \<le> CHR ''Z'' then char_of (of_char c + (97 - 65) :: nat) else c)"

definition first_char :: "string \<Rightarrow> char" where
  "first_char s = (case s of [] \<Rightarrow> CHR 0x00 | c # _ \<Rightarrow> c)"

fun ami_cfg_stricmp :: "string \<Rightarrow> string \<Rightarrow> int" where
  "ami_cfg_stricmp (a # as) (b # bs) =
     (if to_lower a \<noteq> to_lower b then of_char (to_lower a) - of_char (to_lower b) else ami_cfg_stricmp as bs)"
| "ami_cfg_stricmp as bs = of_char (to_lower (first_char as)) - of_char (to_lower (first_char bs))"

text \<open>The characters stored, and the index after them.\<close>

fun copy_loop :: "nat \<Rightarrow> nat \<Rightarrow> string \<Rightarrow> string \<Rightarrow> string \<times> nat" where
  "copy_loop dstlen i dst [] = (dst, i)"
| "copy_loop dstlen i dst (c # src) =
     (if i + 1 < dstlen then copy_loop dstlen (i + 1) (dst[i := c]) src else (dst, i))"

definition ami_cfg_copy_string :: "string \<Rightarrow> nat \<Rightarrow> string option \<Rightarrow> string" where
  "ami_cfg_copy_string dst dstlen src =
     (if dstlen = 0 then dst
      else let (d, i) = copy_loop dstlen 0 dst (case src of None \<Rightarrow> [] | Some s \<Rightarrow> s) in d[i := CHR 0x00])"

fun join_loop :: "nat \<Rightarrow> string option list \<Rightarrow> nat \<Rightarrow> string \<Rightarrow> string \<times> nat" where
  "join_loop dstlen [] pos dst = (dst, pos)"
| "join_loop dstlen (None # srcs) pos dst = join_loop dstlen srcs pos dst"
| "join_loop dstlen (Some s # srcs) pos dst =
     (let (d, q) = copy_loop dstlen pos dst s in join_loop dstlen srcs q d)"

definition ami_cfg_join3 :: "string \<Rightarrow> nat \<Rightarrow> string option \<Rightarrow> string option \<Rightarrow> string option \<Rightarrow> string" where
  "ami_cfg_join3 dst dstlen a b c =
     (if dstlen = 0 then dst
      else let (d, pos) = join_loop dstlen [a, b, c] 0 (dst[0 := CHR 0x00]) in d[pos := CHR 0x00])"

section \<open>Numbers\<close>

definition dec_digit :: "char \<Rightarrow> bool" where
  "dec_digit c \<longleftrightarrow> CHR ''0'' \<le> c \<and> c \<le> CHR ''9''"

definition char_diff :: "char \<Rightarrow> char \<Rightarrow> ULONG" where
  "char_diff c d = of_char c - of_char d"

definition digit_value :: "ULONG \<Rightarrow> char \<Rightarrow> ULONG option" where
  "digit_value base c =
     (if dec_digit c then Some (char_diff c CHR ''0'')
      else if base = 16 \<and> CHR ''a'' \<le> c \<and> c \<le> CHR ''f'' then Some (char_diff c CHR ''a'' + 10)
      else if base = 16 \<and> CHR ''A'' \<le> c \<and> c \<le> CHR ''F'' then Some (char_diff c CHR ''A'' + 10)
      else None)"

text \<open>\<open>None\<close> is the early return of an overflow.\<close>

fun ulong_loop :: "ULONG \<Rightarrow> ULONG \<Rightarrow> nat \<Rightarrow> string \<Rightarrow> (ULONG \<times> nat \<times> string) option" where
  "ulong_loop base value digits [] = Some (value, digits, [])"
| "ulong_loop base value digits (c # s) =
     (case digit_value base c of
        None \<Rightarrow> Some (value, digits, c # s)
      | Some digit \<Rightarrow> if (0xFFFFFFFF - digit) div base < value then None
                      else ulong_loop base (value * base + digit) (digits + 1) s)"

definition number_base :: "string \<Rightarrow> ULONG \<times> string" where
  "number_base s = (case s of
     c # d # t \<Rightarrow> if c = CHR ''0'' \<and> (d = CHR ''x'' \<or> d = CHR ''X'') then (16, t) else (10, s)
   | _ \<Rightarrow> (10, s))"

definition ami_cfg_parse_ulong :: "string \<Rightarrow> ULONG option" where
  "ami_cfg_parse_ulong s =
     (let (base, t) = number_base (skip_blanks s)
      in case ulong_loop base 0 0 t of
           None \<Rightarrow> None
         | Some (value, digits, rest) \<Rightarrow> if digits = 0 \<or> skip_blanks rest \<noteq> [] then None else Some value)"

text \<open>The \<^verbatim>\<open>LONG\<close> stored is the signed reading of the result.\<close>

definition ami_cfg_parse_long :: "string \<Rightarrow> int option" where
  "ami_cfg_parse_long s =
     (let t = skip_blanks s;
          signed = (t \<noteq> [] \<and> (hd t = CHR ''-'' \<or> hd t = CHR ''+''));
          negative = (t \<noteq> [] \<and> hd t = CHR ''-'')
      in case ami_cfg_parse_ulong (if signed then tl t else t) of
           None \<Rightarrow> None
         | Some magnitude \<Rightarrow>
             if negative
             then if 0x80000000 < magnitude then None
                  else Some (sint (if magnitude = 0x80000000 then 0x80000000 else - magnitude))
             else if 0x7FFFFFFF < magnitude then None else Some (sint magnitude))"

definition hex_nibble :: "char \<Rightarrow> ULONG option" where
  "hex_nibble c =
     (if dec_digit c then Some (char_diff c CHR ''0'')
      else if CHR ''a'' \<le> c \<and> c \<le> CHR ''f'' then Some (char_diff c CHR ''a'' + 10)
      else if CHR ''A'' \<le> c \<and> c \<le> CHR ''F'' then Some (char_diff c CHR ''A'' + 10)
      else None)"

fun mac_byte :: "nat \<Rightarrow> ULONG \<Rightarrow> string \<Rightarrow> (ULONG \<times> string) option" where
  "mac_byte 0 byte s = Some (byte, s)"
| "mac_byte (Suc n) byte [] = None"
| "mac_byte (Suc n) byte (c # s) =
     (case hex_nibble c of None \<Rightarrow> None | Some nibble \<Rightarrow> mac_byte n (push_bit 4 byte OR nibble) s)"

definition skip_separator :: "string \<Rightarrow> string" where
  "skip_separator s = (case s of c # t \<Rightarrow> if c = CHR '':'' \<or> c = CHR ''-'' then t else s | [] \<Rightarrow> s)"

fun mac_loop :: "nat \<Rightarrow> nat \<Rightarrow> string \<Rightarrow> (UBYTE list \<times> string) option" where
  "mac_loop 0 i s = Some ([], s)"
| "mac_loop (Suc n) i s =
     (case mac_byte 2 0 (if 0 < i then skip_separator s else s) of
        None \<Rightarrow> None
      | Some (byte, t) \<Rightarrow> map_option (\<lambda>(bs, u). (ucast byte # bs, u)) (mac_loop n (i + 1) t))"

definition ami_cfg_parse_mac :: "string \<Rightarrow> UBYTE list option" where
  "ami_cfg_parse_mac s =
     (case mac_loop 6 0 s of None \<Rightarrow> None | Some (bs, t) \<Rightarrow> if t = [] then Some bs else None)"

definition ami_cfg_parse_bool :: "string \<Rightarrow> bool option" where
  "ami_cfg_parse_bool s =
     (if list_ex (\<lambda>w. ami_cfg_stricmp s w = 0) [''yes'', ''true'', ''on'', ''1''] then Some True
      else if list_ex (\<lambda>w. ami_cfg_stricmp s w = 0) [''no'', ''false'', ''off'', ''0''] then Some False
      else None)"

section \<open>IPv4 addresses\<close>

fun octet_loop :: "ULONG \<Rightarrow> nat \<Rightarrow> string \<Rightarrow> (ULONG \<times> nat \<times> string) option" where
  "octet_loop value digits [] = Some (value, digits, [])"
| "octet_loop value digits (c # s) =
     (if \<not> dec_digit c then Some (value, digits, c # s)
      else let digit = char_diff c CHR ''0''
           in if (255 - digit) div 10 < value then None
              else octet_loop (value * 10 + digit) (digits + 1) s)"

lemma octet_loop_rest: "octet_loop v n s = Some (w, m, t) \<Longrightarrow> length t + m = length s + n"
  by (induction v n s rule: octet_loop.induct) (auto simp: Let_def split: if_splits)

function dotted_loop :: "ULONG list \<Rightarrow> string \<Rightarrow> (ULONG list \<times> string) option" where
  "dotted_loop parts s =
     (case octet_loop 0 0 s of
        None \<Rightarrow> None
      | Some (value, digits, t) \<Rightarrow>
          if digits = 0 \<or> 4 \<le> length parts then None
          else case t of
                 c # u \<Rightarrow> if c = CHR ''.'' then dotted_loop (parts @ [value]) u else Some (parts @ [value], t)
               | [] \<Rightarrow> Some (parts @ [value], t))"
  by pat_completeness auto
termination
  by (relation "measure (\<lambda>(parts, s). length s)") (auto dest: octet_loop_rest)

declare dotted_loop.simps [simp del]

text \<open>The parts; the empty list stands for the count 0.\<close>

definition split_dotted :: "string \<Rightarrow> ULONG list" where
  "split_dotted s =
     (let t = skip_blanks s
      in if t = [] then []
         else case dotted_loop [] t of
                None \<Rightarrow> []
              | Some (parts, rest) \<Rightarrow> if skip_blanks rest \<noteq> [] then [] else parts)"

definition ami_config_parse_ip :: "string \<Rightarrow> ULONG option" where
  "ami_config_parse_ip s =
     (case split_dotted s of
        [a, b, c, d] \<Rightarrow> Some (push_bit 24 a OR push_bit 16 b OR push_bit 8 c OR d)
      | _ \<Rightarrow> None)"

definition ami_cfg_parse_net_number :: "string \<Rightarrow> ULONG option" where
  "ami_cfg_parse_net_number s =
     (let parts = split_dotted s
      in if parts = [] then None else Some (foldl (\<lambda>value p. push_bit 8 value OR p) 0 parts))"

text \<open>The digits of an octet, the last one first, as the array \<^verbatim>\<open>digits\<close> holds them.\<close>

function octet_digits :: "ULONG \<Rightarrow> string" where
  "octet_digits v = char_of (48 + unat (v mod 10)) # (if v div 10 \<noteq> 0 then octet_digits (v div 10) else [])"
  by pat_completeness auto
termination
  by (relation "measure unat") (auto simp: unat_div unat_gt_0 intro!: div_less_dividend dest: gr0I)

declare octet_digits.simps [simp del]

fun format_octets :: "nat \<Rightarrow> ULONG \<Rightarrow> string" where
  "format_octets 0 addr = rev (octet_digits (addr AND 0xFF))"
| "format_octets (Suc n) addr =
     rev (octet_digits (drop_bit (Suc n * 8) addr AND 0xFF)) @ ''.'' @ format_octets n addr"

text \<open>The characters stored before the terminator; the result is their number.\<close>

definition ami_format_ip4 :: "ULONG \<Rightarrow> string" where
  "ami_format_ip4 addr = format_octets 3 addr"

definition ami_config_format_ip :: "ULONG \<Rightarrow> string \<Rightarrow> nat \<Rightarrow> string" where
  "ami_config_format_ip addr buf buflen =
     (if buflen = 0 then buf else ami_cfg_copy_string buf buflen (Some (ami_format_ip4 addr)))"

section \<open>Numbers of ENV: variables\<close>

fun env_loop :: "ULONG \<Rightarrow> string \<Rightarrow> ULONG \<times> string" where
  "env_loop value [] = (value, [])"
| "env_loop value (c # s) =
     (if dec_digit c \<and> value \<le> 100000 then env_loop (value * 10 + char_diff c CHR ''0'') s else (value, c # s))"

definition ami_cfg_env_number :: "string \<Rightarrow> ULONG \<Rightarrow> ULONG \<Rightarrow> ULONG \<Rightarrow> ULONG" where
  "ami_cfg_env_number text lo hi fallback =
     (let p = skip_blanks text
      in if p = [] \<or> \<not> dec_digit (hd p) then fallback
         else let (value, t) = env_loop 0 p;
                  rest = dropWhile (\<lambda>c. blank c \<or> c = CHR 0x0A \<or> c = CHR 0x0D) t
              in if rest \<noteq> [] \<or> value < lo \<or> hi < value then fallback else value)"

section \<open>Diagnostics\<close>

text \<open>
  The module variables: the reporter and its argument, named by numbers, and the file being read.
  A call of the reporter is the value \<open>(reporter, user, problem)\<close> a function returns.
\<close>

record AmiCfgProblem =
  pb_file :: string
  pb_line :: ULONG
  pb_severity :: UWORD
  pb_text :: "string option"
  pb_text_code :: UWORD
  pb_hint :: UWORD
  pb_hint_text :: "string option"

record cfg_diag =
  dg_reporter :: "nat option"
  dg_user :: nat
  dg_file :: string

definition ami_config_set_reporter :: "cfg_diag \<Rightarrow> nat option \<Rightarrow> nat \<Rightarrow> cfg_diag" where
  "ami_config_set_reporter d reporter user = d\<lparr>dg_reporter := reporter, dg_user := user\<rparr>"

definition ami_cfg_problem_file :: "cfg_diag \<Rightarrow> string option \<Rightarrow> cfg_diag" where
  "ami_cfg_problem_file d path = d\<lparr>dg_file := (case path of Some p \<Rightarrow> p | None \<Rightarrow> ''the configuration'')\<rparr>"

definition ami_cfg_problems_wanted :: "cfg_diag \<Rightarrow> bool" where
  "ami_cfg_problems_wanted d \<longleftrightarrow> dg_reporter d \<noteq> None"

definition report :: "cfg_diag \<Rightarrow> AmiCfgProblem \<Rightarrow> (nat \<times> nat \<times> AmiCfgProblem) option" where
  "report d problem = map_option (\<lambda>r. (r, dg_user d, problem)) (dg_reporter d)"

definition ami_cfg_problem ::
  "cfg_diag \<Rightarrow> ULONG \<Rightarrow> UWORD \<Rightarrow> string option \<Rightarrow> UWORD \<Rightarrow> (nat \<times> nat \<times> AmiCfgProblem) option" where
  "ami_cfg_problem d line severity txt hint =
     (if txt = None then None
      else report d \<lparr>pb_file = dg_file d, pb_line = line, pb_severity = severity, pb_text = txt, pb_text_code = 0,
                     pb_hint = hint, pb_hint_text = None\<rparr>)"

definition ami_cfg_problem_built ::
  "cfg_diag \<Rightarrow> ULONG \<Rightarrow> UWORD \<Rightarrow> string option \<Rightarrow> string option \<Rightarrow> (nat \<times> nat \<times> AmiCfgProblem) option" where
  "ami_cfg_problem_built d line severity txt hint =
     (if txt = None then None
      else report d \<lparr>pb_file = dg_file d, pb_line = line, pb_severity = severity, pb_text = txt, pb_text_code = 0,
                     pb_hint = 0, pb_hint_text = hint\<rparr>)"

definition ami_cfg_problem_code ::
  "cfg_diag \<Rightarrow> ULONG \<Rightarrow> UWORD \<Rightarrow> UWORD \<Rightarrow> UWORD \<Rightarrow> (nat \<times> nat \<times> AmiCfgProblem) option" where
  "ami_cfg_problem_code d line severity code hint =
     (if code = 0 then None
      else report d \<lparr>pb_file = dg_file d, pb_line = line, pb_severity = severity, pb_text = None, pb_text_code = code,
                     pb_hint = hint, pb_hint_text = None\<rparr>)"

end
