(* ===== verification/Cfg_Numbers.thy ===== *)
theory Cfg_Numbers
  imports Cfg_Text
begin

text \<open>
  What the number readers of the configuration accept and return, against the grammar of a
  number and its value over the natural numbers; and the round trip of IPv4 addresses.
\<close>

section \<open>Digits\<close>

definition digit_nat :: "char \<Rightarrow> nat" where
  "digit_nat c = (if dec_digit c then of_char c - 48 else if CHR ''a'' \<le> c then of_char c - 87 else of_char c - 55)"

definition hex_digit :: "char \<Rightarrow> bool" where
  "hex_digit c \<longleftrightarrow> dec_digit c \<or> CHR ''a'' \<le> c \<and> c \<le> CHR ''f'' \<or> CHR ''A'' \<le> c \<and> c \<le> CHR ''F''"

definition digits_from :: "nat \<Rightarrow> nat \<Rightarrow> string \<Rightarrow> nat" where
  "digits_from base v ds = foldl (\<lambda>v c. v * base + digit_nat c) v ds"

abbreviation (input) digits_val :: "nat \<Rightarrow> string \<Rightarrow> nat" where
  "digits_val base ds \<equiv> digits_from base 0 ds"

lemma digits_from_simps [simp]:
  "digits_from base v [] = v" "digits_from base v (c # ds) = digits_from base (v * base + digit_nat c) ds"
  by (simp_all add: digits_from_def)

lemma digits_from_append: "digits_from base v (xs @ ys) = digits_from base (digits_from base v xs) ys"
  by (simp add: digits_from_def)

lemma digits_from_le: "0 < base \<Longrightarrow> v \<le> digits_from base v ds"
proof (induction ds arbitrary: v)
  case (Cons c ds)
  then have "v * base + digit_nat c \<le> digits_from base (v * base + digit_nat c) ds" by blast
  moreover have "v \<le> v * base + digit_nat c" using Cons.prems by (simp add: trans_le_add1)
  ultimately show ?case by simp
qed simp

lemma unat_of_char: "unat (of_char x :: ULONG) = of_char x"
proof -
  have "unat (of_nat (of_char x) :: ULONG) = of_char x mod 2 ^ 32" by (simp add: unat_of_nat)
  moreover have "(of_char x :: nat) < 256" by simp
  ultimately show ?thesis by (simp add: of_nat_of_char)
qed

lemma unat_char_diff: "d \<le> c \<Longrightarrow> unat (char_diff c d) = of_char c - of_char d"
proof -
  assume "d \<le> c"
  then have "of_char d \<le> (of_char c :: nat)" by (simp add: less_eq_char_def)
  then show ?thesis unfolding char_diff_def by (simp add: unat_sub word_le_nat_alt unat_of_char)
qed

lemma dec_digit_bounds: "dec_digit c \<Longrightarrow> 48 \<le> (of_char c :: nat) \<and> of_char c \<le> (57 :: nat)"
  by (simp add: dec_digit_def less_eq_char_def)

lemma digit_nat_dec: "dec_digit c \<Longrightarrow> digit_nat c < 10"
  using dec_digit_bounds [of c] by (auto simp: digit_nat_def)

lemma unat_dec_digit: "dec_digit c \<Longrightarrow> unat (char_diff c CHR ''0'') = digit_nat c"
  using dec_digit_bounds [of c] by (subst unat_char_diff) (auto simp: dec_digit_def digit_nat_def)

lemma digit_value_10: "digit_value 10 c = (if dec_digit c then Some (char_diff c CHR ''0'') else None)"
  by (simp add: digit_value_def)

lemma hex_value:
  assumes "CHR ''a'' \<le> c \<and> c \<le> CHR ''f'' \<and> l = CHR ''a'' \<or> CHR ''A'' \<le> c \<and> c \<le> CHR ''F'' \<and> l = CHR ''A''"
  shows "unat (char_diff c l + 10) = digit_nat c \<and> digit_nat c < 16"
proof -
  have b: "(97 \<le> (of_char c :: nat) \<and> of_char c \<le> (102 :: nat) \<and> l = CHR ''a'') \<or>
      (65 \<le> (of_char c :: nat) \<and> of_char c \<le> (70 :: nat) \<and> l = CHR ''A'')"
    using assms by (auto simp: less_eq_char_def)
  have n: "digit_nat c = of_char c - of_char l + 10" using b by (auto simp: digit_nat_def dec_digit_def less_eq_char_def)
  have u: "unat (char_diff c l) = of_char c - of_char l" using assms by (intro unat_char_diff) auto
  have "unat (char_diff c l) + unat (10 :: ULONG) < 2 ^ LENGTH(32)" using u b by auto
  from unat_add_nowrap [OF this] show ?thesis using u n b by auto
qed

lemma digit_value_spec:
  assumes "base = 10 \<or> base = 16" and "digit_value base c = Some d"
  shows "unat d = digit_nat c \<and> digit_nat c < unat base"
proof (cases "dec_digit c")
  case True
  then show ?thesis using assms digit_nat_dec [OF True] unat_dec_digit [OF True] by (auto simp: digit_value_def)
next
  case False
  then show ?thesis using assms hex_value [of c] by (auto simp: digit_value_def split: if_splits)
qed

lemma digit_value_iff:
  "digit_value 10 c \<noteq> None \<longleftrightarrow> dec_digit c" "digit_value 16 c \<noteq> None \<longleftrightarrow> hex_digit c"
  by (auto simp: digit_value_def hex_digit_def)

lemma digit_isd:
  "(\<lambda>c. digit_value 10 c \<noteq> None) = dec_digit" "(\<lambda>c. digit_value 16 c \<noteq> None) = hex_digit"
  by (rule ext, rule digit_value_iff)+

text \<open>The guard against overflow is exact.\<close>

lemma guard_exact:
  fixes m d b v :: ULONG
  assumes "0 < unat b" and "unat d \<le> unat m"
  shows "(m - d) div b < v \<longleftrightarrow> unat m < unat v * unat b + unat d"
proof -
  have "unat (m - d) = unat m - unat d" using assms(2) by (simp add: unat_sub word_le_nat_alt)
  then have "(m - d) div b < v \<longleftrightarrow> (unat m - unat d) div unat b < unat v"
    by (simp add: word_less_nat_alt unat_div)
  also have "\<dots> \<longleftrightarrow> unat m - unat d < unat v * unat b" using assms(1) by (simp add: div_less_iff_less_mult)
  finally show ?thesis using assms(2) by auto
qed

lemma step_exact:
  fixes d b v :: ULONG
  assumes "unat v * unat b + unat d < 2 ^ 32"
  shows "unat (v * b + d) = unat v * unat b + unat d"
proof -
  have "unat (v * b) = unat v * unat b" using assms by (simp add: unat_word_ariths)
  then show ?thesis using assms by (subst unat_add_nowrap) auto
qed

section \<open>Unsigned numbers\<close>

lemma ulong_loop_spec:
  assumes "base = 10 \<or> base = 16"
  defines "isd \<equiv> \<lambda>c. digit_value base c \<noteq> None"
  shows "ulong_loop base v n s =
    (if digits_from (unat base) (unat v) (takeWhile isd s) < 2 ^ 32
     then Some (of_nat (digits_from (unat base) (unat v) (takeWhile isd s)), n + length (takeWhile isd s), dropWhile isd s)
     else None)"
proof (induction s arbitrary: v n)
  case Nil
  then show ?case using unat_lt2p [of v] by simp
next
  case (Cons c s)
  have b: "0 < unat base" "unat base \<le> 16" using assms(1) by auto
  show ?case
  proof (cases "digit_value base c")
    case None
    then show ?thesis using unat_lt2p [of v] by (simp add: isd_def)
  next
    case (Some d)
    note d = digit_value_spec [OF assms(1) Some]
    have m: "unat (0xFFFFFFFF :: ULONG) = 2 ^ 32 - 1" by simp
    have g: "(0xFFFFFFFF - d) div base < v \<longleftrightarrow> 2 ^ 32 \<le> unat v * unat base + digit_nat c"
      using guard_exact [where b = base and d = d and m = "0xFFFFFFFF" and v = v] b d unfolding m by auto
    show ?thesis
    proof (cases "2 ^ 32 \<le> unat v * unat base + digit_nat c")
      case True
      then have "2 ^ 32 \<le> digits_from (unat base) (unat v * unat base + digit_nat c) (takeWhile isd s)"
        using digits_from_le [OF b(1)] order.trans by blast
      then show ?thesis using Some g True by (simp add: isd_def)
    next
      case False
      then have "unat (v * base + d) = unat v * unat base + digit_nat c" using step_exact [where v = v and b = base and d = d] d by simp
      then show ?thesis using Some g False Cons.IH [of "v * base + d" "n + 1"] by (simp add: isd_def)
    qed
  qed
qed

definition number_text :: "string \<Rightarrow> nat \<Rightarrow> bool" where
  "number_text s v \<longleftrightarrow> (\<exists>pre ds post. list_all blank pre \<and> list_all blank post \<and> ds \<noteq> [] \<and>
     (s = pre @ ds @ post \<and> list_all dec_digit ds \<and> v = digits_val 10 ds \<or>
      (\<exists>x \<in> {''0x'', ''0X''}. s = pre @ x @ ds @ post \<and> list_all hex_digit ds \<and> v = digits_val 16 ds)))"

lemma blank_not_digit: "blank c \<Longrightarrow> \<not> hex_digit c" "dec_digit c \<Longrightarrow> hex_digit c"
  by (auto simp: blank_def hex_digit_def dec_digit_def less_eq_char_def)

lemma not_blank_digit: "hex_digit c \<Longrightarrow> \<not> blank c" "dec_digit c \<Longrightarrow> \<not> blank c"
  using blank_not_digit by blast+

lemma takeWhile_split:
  assumes "list_all P xs" and "ys = [] \<or> \<not> P (hd ys)"
  shows "takeWhile P (xs @ ys) = xs \<and> dropWhile P (xs @ ys) = ys"
proof -
  have "takeWhile P (xs @ ys) = xs @ takeWhile P ys" "dropWhile P (xs @ ys) = dropWhile P ys"
    using assms(1) by (induction xs) auto
  then show ?thesis using assms(2) by (cases ys) auto
qed

lemma all_blank_hd: "list_all blank ys \<Longrightarrow> ys = [] \<or> \<not> hex_digit (hd ys)"
  using blank_not_digit(1) by (cases ys) auto

lemma skip_blanks_nil: "skip_blanks s = [] \<longleftrightarrow> list_all blank s"
  by (auto simp: skip_blanks_def dropWhile_eq_Nil_conv list_all_iff)

lemma skip_blanks_app:
  assumes "list_all blank pre" and "t = [] \<or> \<not> blank (hd t)"
  shows "skip_blanks (pre @ t) = t"
  using takeWhile_split [OF assms] by (simp add: skip_blanks_def)

lemma number_base_dec:
  assumes "list_all dec_digit ds" and "ds \<noteq> []" and "list_all blank post"
  shows "number_base (ds @ post) = (10, ds @ post)"
proof -
  have no: "c = CHR ''x'' \<or> c = CHR ''X'' \<Longrightarrow> \<not> dec_digit c \<and> \<not> blank c" for c
    by (auto simp: dec_digit_def blank_def less_eq_char_def)
  obtain c ds' where c: "ds = c # ds'" using assms(2) by (cases ds) auto
  show ?thesis
  proof (cases "ds' @ post")
    case (Cons d t)
    then have "dec_digit d \<or> blank d" using assms c by (cases ds') auto
    then show ?thesis using Cons no [of d] by (auto simp: number_base_def c)
  qed (simp add: number_base_def c)
qed

lemma number_base_hex: "x = ''0x'' \<or> x = ''0X'' \<Longrightarrow> number_base (x @ t) = (16, t)"
  by (auto simp: number_base_def)

lemma number_base_cases:
  obtains (dec) "number_base s = (10, s)" | (hex) x t where "x = ''0x'' \<or> x = ''0X''" "s = x @ t" "number_base s = (16, t)"
proof (cases "number_base s = (10, s)")
  case False
  then obtain c d t where s: "s = c # d # t" by (auto simp: number_base_def split: list.splits)
  then have "c = CHR ''0'' \<and> (d = CHR ''x'' \<or> d = CHR ''X'') \<and> number_base s = (16, t)"
    using False by (auto simp: number_base_def split: if_splits)
  then show ?thesis using hex [of "[c, d]" t] s by auto
qed

lemma parse_ulong_fun:
  "ami_cfg_parse_ulong s = Some w \<longleftrightarrow>
   (case number_base (skip_blanks s) of (base, t) \<Rightarrow>
      let ds = takeWhile (\<lambda>c. digit_value base c \<noteq> None) t
      in ds \<noteq> [] \<and> list_all blank (dropWhile (\<lambda>c. digit_value base c \<noteq> None) t) \<and> digits_val (unat base) ds = unat w)"
proof -
  obtain base t where b: "number_base (skip_blanks s) = (base, t)" "base = 10 \<or> base = 16"
    by (rule number_base_cases [of "skip_blanks s"]) auto
  let ?v = "digits_val (unat base) (takeWhile (\<lambda>c. digit_value base c \<noteq> None) t)"
  have "?v < 2 ^ 32 \<and> of_nat ?v = w \<longleftrightarrow> ?v = unat w"
    using unat_lt2p [where a = w] by (auto simp: unat_of_nat)
  then show ?thesis using b ulong_loop_spec [OF b(2), of 0 0 t]
    by (auto simp: ami_cfg_parse_ulong_def Let_def skip_blanks_nil split: if_splits)
qed

lemma parse_ulong_iff: "ami_cfg_parse_ulong s = Some w \<longleftrightarrow> number_text s (unat w)"
proof
  assume l: "ami_cfg_parse_ulong s = Some w"
  define pre where "pre = takeWhile blank s"
  have s: "s = pre @ skip_blanks s" and pre: "list_all blank pre"
    by (auto simp: pre_def skip_blanks_def list_all_iff dest: set_takeWhileD)
  show "number_text s (unat w)"
  proof (rule number_base_cases [of "skip_blanks s"])
    assume "number_base (skip_blanks s) = (10, skip_blanks s)"
    note f = l [unfolded parse_ulong_fun this]
    let ?ds = "takeWhile dec_digit (skip_blanks s)" and ?post = "dropWhile dec_digit (skip_blanks s)"
    have "?ds \<noteq> [] \<and> list_all blank ?post \<and> digits_val 10 ?ds = unat w"
      using f by (simp only: prod.case Let_def digit_isd) simp
    moreover have "list_all dec_digit ?ds" by (auto simp: list_all_iff dest: set_takeWhileD)
    moreover have "s = pre @ ?ds @ ?post" using s by simp
    ultimately show ?thesis using pre unfolding number_text_def by metis
  next
    fix x t assume x: "x = ''0x'' \<or> x = ''0X''" "skip_blanks s = x @ t" and "number_base (skip_blanks s) = (16, t)"
    note f = l [unfolded parse_ulong_fun this(3)]
    let ?ds = "takeWhile hex_digit t" and ?post = "dropWhile hex_digit t"
    have "?ds \<noteq> [] \<and> list_all blank ?post \<and> digits_val 16 ?ds = unat w"
      using f by (simp only: prod.case Let_def digit_isd) simp
    moreover have "list_all hex_digit ?ds" by (auto simp: list_all_iff dest: set_takeWhileD)
    moreover have "s = pre @ x @ ?ds @ ?post" using s x(2) by simp
    ultimately show ?thesis using pre x(1) unfolding number_text_def by (metis insertCI)
  qed
next
  assume "number_text s (unat w)"
  then obtain pre ds post where b: "list_all blank pre" "list_all blank post" "ds \<noteq> []"
    and or: "s = pre @ ds @ post \<and> list_all dec_digit ds \<and> unat w = digits_val 10 ds \<or>
      (\<exists>x \<in> {''0x'', ''0X''}. s = pre @ x @ ds @ post \<and> list_all hex_digit ds \<and> unat w = digits_val 16 ds)"
    unfolding number_text_def by blast
  from or show "ami_cfg_parse_ulong s = Some w"
  proof
    assume d: "s = pre @ ds @ post \<and> list_all dec_digit ds \<and> unat w = digits_val 10 ds"
    have "\<not> blank (hd ds)" using d b(3) not_blank_digit(2) by (cases ds) auto
    then have "skip_blanks s = ds @ post" using d b skip_blanks_app [OF b(1), of "ds @ post"] by simp
    moreover have "takeWhile dec_digit (ds @ post) = ds \<and> dropWhile dec_digit (ds @ post) = post"
      using d all_blank_hd [OF b(2)] blank_not_digit(2) by (intro takeWhile_split) auto
    moreover have "number_base (ds @ post) = (10, ds @ post)" using d b by (intro number_base_dec) auto
    ultimately show ?thesis using d b by (simp only: parse_ulong_fun prod.case Let_def digit_isd) simp
  next
    assume "\<exists>x \<in> {''0x'', ''0X''}. s = pre @ x @ ds @ post \<and> list_all hex_digit ds \<and> unat w = digits_val 16 ds"
    then obtain x where x: "x = ''0x'' \<or> x = ''0X''" and d: "s = pre @ x @ ds @ post" "list_all hex_digit ds"
      "unat w = digits_val 16 ds" by blast
    have "\<not> blank (hd (x @ ds @ post))" using x by (auto simp: blank_def)
    then have "skip_blanks s = x @ ds @ post" using d skip_blanks_app [OF b(1)] by simp
    moreover have "takeWhile hex_digit (ds @ post) = ds \<and> dropWhile hex_digit (ds @ post) = post"
      using d all_blank_hd [OF b(2)] by (intro takeWhile_split) auto
    ultimately show ?thesis using d b number_base_hex [OF x, of "ds @ post"]
      by (simp only: parse_ulong_fun prod.case Let_def digit_isd) simp
  qed
qed

text \<open>
  \<^verbatim>\<open>ami_cfg_parse_ulong\<close> accepts exactly the numbers: blanks, then decimal digits, or \<^verbatim>\<open>0x\<close> or
  \<^verbatim>\<open>0X\<close> and hexadecimal ones, then blanks, and nothing else; the value it stores is the number
  itself, and a number that does not fit 32 bits is refused and never wrapped.
\<close>

lemma cfg_ulong_exact: "(ami_cfg_parse_ulong s = Some w) = number_text s (unat w)"
  by (rule parse_ulong_iff)

section \<open>Signed numbers\<close>

lemma skip_blanks_idem [simp]: "skip_blanks (skip_blanks s) = skip_blanks s"
  by (simp add: skip_blanks_def dropWhile_idem)

lemma parse_ulong_skip: "ami_cfg_parse_ulong (skip_blanks s) = ami_cfg_parse_ulong s"
  by (simp add: ami_cfg_parse_ulong_def)

lemma parse_ulong_sign: "c = CHR ''-'' \<or> c = CHR ''+'' \<Longrightarrow> ami_cfg_parse_ulong (c # t) = None"
proof -
  assume c: "c = CHR ''-'' \<or> c = CHR ''+''"
  then have "skip_blanks (c # t) = c # t" "number_base (c # t) = (10, c # t)" "digit_value 10 c = None"
    by (auto simp: skip_blanks_def blank_def number_base_def digit_value_def dec_digit_def less_eq_char_def split: list.split)
  then show ?thesis by (simp add: ami_cfg_parse_ulong_def)
qed

lemma sint_minus_small:
  fixes w :: ULONG
  assumes "unat w \<le> 2 ^ 31"
  shows "sint (- w) = - int (unat w)"
proof -
  have w: "- w = word_of_int (- int (unat w))" by simp
  have "int (unat w) \<le> 2 ^ 31" using assms by (metis of_nat_le_iff of_nat_power of_nat_numeral)
  moreover have "0 \<le> int (unat w)" "(0 :: int) < 2 ^ 31" by (rule of_nat_0_le_iff) simp
  ultimately have "signed_take_bit 31 (- int (unat w)) = - int (unat w)"
    by (intro signed_take_bit_int_eq_self) linarith+
  moreover have "sint (word_of_int (- int (unat w)) :: ULONG) = signed_take_bit 31 (- int (unat w))"
    unfolding signed_of_int by simp
  ultimately show ?thesis unfolding w by (simp only:)
qed

lemma parse_long_value:
  fixes m :: ULONG
  shows "(if neg then if 0x80000000 < m then None else Some (sint (if m = 0x80000000 then 0x80000000 else - m))
          else if 0x7FFFFFFF < m then None else Some (sint m)) = Some z \<longleftrightarrow>
    z = (if neg then - int (unat m) else int (unat m)) \<and> - (2 ^ 31) \<le> z \<and> z < 2 ^ 31"
proof (cases neg)
  case True
  have h: "(if m = 0x80000000 then 0x80000000 else - m) = - m" by simp
  define n where "n = unat m"
  have "\<not> 0x80000000 < m \<longleftrightarrow> n \<le> 2 ^ 31" by (simp add: word_less_nat_alt not_less n_def)
  moreover have "n \<le> 2 ^ 31 \<Longrightarrow> sint (- m) = - int n" using sint_minus_small [of m] by (simp only: n_def)
  moreover have "n \<le> 2 ^ 31 \<longleftrightarrow> - (2 ^ 31) \<le> - int n" "- int n < 2 ^ 31" by auto
  ultimately show ?thesis using True unfolding h n_def [symmetric] by auto
next
  case False
  define n where "n = unat m"
  have "\<not> 0x7FFFFFFF < m \<longleftrightarrow> n < 2 ^ 31" unfolding word_less_nat_alt not_less n_def by simp arith
  moreover have "n < 2 ^ 31 \<Longrightarrow> sint m = int n" using sint_small [of m] by (simp only: n_def)
  moreover have "n < 2 ^ 31 \<longleftrightarrow> int n < 2 ^ 31" "- (2 ^ 31) \<le> int n" by auto
  ultimately show ?thesis using False unfolding n_def [symmetric] by auto
qed

text \<open>
  \<^verbatim>\<open>ami_cfg_parse_long\<close> accepts exactly a number behind an optional sign, with the blanks
  the unsigned reader allows, and stores its value with that sign; a value outside the range of a
  \<^verbatim>\<open>LONG\<close> is refused, and the smallest one, whose magnitude no \<^verbatim>\<open>LONG\<close> holds, is not.
\<close>

lemma cfg_long_exact:
  "(ami_cfg_parse_long s = Some z) =
   (\<exists>pre sg t n. s = pre @ sg @ t \<and> list_all blank pre \<and> sg \<in> {'''', ''+'', ''-''} \<and> number_text t n \<and> n < 2 ^ 32 \<and>
      z = (if sg = ''-'' then - int n else int n) \<and> - (2 ^ 31) \<le> z \<and> z < 2 ^ 31)" (is "?l \<longleftrightarrow> ?r")
proof
  assume ?l
  define t where "t = skip_blanks s"
  define sg where "sg = (if t \<noteq> [] \<and> (hd t = CHR ''-'' \<or> hd t = CHR ''+'') then [hd t] else [])"
  define u where "u = drop (length sg) t"
  have t: "t = sg @ u" by (cases t) (auto simp: sg_def u_def)
  have s: "s = takeWhile blank s @ sg @ u" unfolding t [symmetric] by (simp add: t_def skip_blanks_def)
  have b: "list_all blank (takeWhile blank s)" by (auto simp: list_all_iff dest: set_takeWhileD)
  have neg: "(t \<noteq> [] \<and> hd t = CHR ''-'') \<longleftrightarrow> sg = ''-''" by (auto simp: sg_def)
  have u: "(if t \<noteq> [] \<and> (hd t = CHR ''-'' \<or> hd t = CHR ''+'') then tl t else t) = u"
    by (auto simp: sg_def u_def drop_Suc)
  obtain m where m: "ami_cfg_parse_ulong u = Some m"
    and z: "z = (if sg = ''-'' then - int (unat m) else int (unat m)) \<and> - (2 ^ 31) \<le> z \<and> z < 2 ^ 31"
    using \<open>?l\<close> parse_long_value [of "sg = ''-''" _ z] unfolding ami_cfg_parse_long_def Let_def t_def [symmetric] u neg
    by (auto split: option.splits)
  have "sg \<in> {'''', ''+'', ''-''}" by (auto simp: sg_def)
  moreover have "number_text u (unat m)" "unat m < 2 ^ 32"
    using m parse_ulong_iff unat_lt2p [where a = m] by auto
  ultimately show ?r using s b z by blast
next
  assume ?r
  then obtain pre sg t n where e: "s = pre @ sg @ t" "list_all blank pre" "sg \<in> {'''', ''+'', ''-''}" "number_text t n" "n < 2 ^ 32"
    "z = (if sg = ''-'' then - int n else int n) \<and> - (2 ^ 31) \<le> z \<and> z < 2 ^ 31" by blast
  define m :: ULONG where "m = of_nat n"
  have m: "unat m = n" using e(5) by (simp add: m_def unat_of_nat)
  then have p: "ami_cfg_parse_ulong t = Some m" using e(4) parse_ulong_iff by blast
  define u where "u = skip_blanks s"
  have "ami_cfg_parse_ulong (if u \<noteq> [] \<and> (hd u = CHR ''-'' \<or> hd u = CHR ''+'') then tl u else u) = Some m \<and>
      ((u \<noteq> [] \<and> hd u = CHR ''-'') \<longleftrightarrow> sg = ''-'')"
  proof (cases "sg = []")
    case True
    then have "u = skip_blanks t" using e(1,2) by (simp add: u_def skip_blanks_def list_all_iff)
    then have "ami_cfg_parse_ulong u = Some m" using p by (simp add: parse_ulong_skip)
    moreover from this have "\<not> (u \<noteq> [] \<and> (hd u = CHR ''-'' \<or> hd u = CHR ''+''))"
      using parse_ulong_sign [of "hd u" "tl u"] by (cases u) auto
    ultimately show ?thesis using True by auto
  next
    case False
    then have "\<not> blank (hd (sg @ t))" using e(3) by (auto simp: blank_def)
    then have "u = sg @ t" unfolding u_def e(1) using e(2) by (intro skip_blanks_app) auto
    then show ?thesis using False e(3) p by auto
  qed
  then show ?l using e(6) m parse_long_value [of "sg = ''-''" m z]
    unfolding ami_cfg_parse_long_def Let_def u_def [symmetric] by simp
qed

section \<open>Dotted quads\<close>

definition octet_text :: "string \<Rightarrow> bool" where
  "octet_text ds \<longleftrightarrow> ds \<noteq> [] \<and> list_all dec_digit ds \<and> digits_val 10 ds \<le> 255"

fun join_dots :: "string list \<Rightarrow> string" where
  "join_dots [] = []"
| "join_dots [d] = d"
| "join_dots (d # e # ds) = d @ CHR ''.'' # join_dots (e # ds)"

lemma octet_loop_spec:
  assumes "unat v \<le> 255"
  shows "octet_loop v n s =
    (if digits_from 10 (unat v) (takeWhile dec_digit s) \<le> 255
     then Some (of_nat (digits_from 10 (unat v) (takeWhile dec_digit s)), n + length (takeWhile dec_digit s), dropWhile dec_digit s)
     else None)"
  using assms
proof (induction s arbitrary: v n)
  case (Cons c s)
  show ?case
  proof (cases "dec_digit c")
    case True
    define d where "d = char_diff c CHR ''0''"
    have d: "unat d = digit_nat c" "digit_nat c < 10" using True by (simp_all add: d_def unat_dec_digit digit_nat_dec)
    have g: "(255 - d) div 10 < v \<longleftrightarrow> 255 < unat v * 10 + digit_nat c"
      using guard_exact [where b = "10" and d = d and m = "255" and v = v] d by simp
    show ?thesis
    proof (cases "255 < unat v * 10 + digit_nat c")
      case big: True
      then have "255 < digits_from 10 (unat v * 10 + digit_nat c) (takeWhile dec_digit s)"
        using digits_from_le [of 10] less_le_trans by simp blast
      then show ?thesis using True g big by (simp add: d_def [symmetric] Let_def)
    next
      case False
      then have "unat (v * 10 + d) = unat v * 10 + digit_nat c"
        using step_exact [where v = v and b = "10" and d = d] d by simp
      then show ?thesis using True g False Cons.IH [of "v * 10 + d" "n + 1"] by (simp add: d_def [symmetric] Let_def)
    qed
  qed (use Cons.prems in simp)
qed simp

lemma octet_loop_text:
  assumes "octet_text ds" and "rest = [] \<or> \<not> dec_digit (hd rest)"
  shows "octet_loop 0 0 (ds @ rest) = Some (of_nat (digits_val 10 ds), length ds, rest)"
  using assms takeWhile_split [of dec_digit ds rest] octet_loop_spec [of 0 0 "ds @ rest"]
  by (simp add: octet_text_def)

lemma octet_loop_inv:
  assumes "octet_loop 0 0 s = Some (v, n, rest)" and "n \<noteq> 0"
  obtains ds where "octet_text ds" "s = ds @ rest" "v = of_nat (digits_val 10 ds)" "rest = [] \<or> \<not> dec_digit (hd rest)"
proof -
  let ?ds = "takeWhile dec_digit s"
  have "s = ?ds @ dropWhile dec_digit s" by simp
  moreover have "list_all dec_digit ?ds" by (auto simp: list_all_iff dest: set_takeWhileD)
  moreover have "dropWhile dec_digit s = [] \<or> \<not> dec_digit (hd (dropWhile dec_digit s))" using hd_dropWhile by blast
  ultimately show ?thesis using assms octet_loop_spec [of 0 0 s] that [of ?ds]
    by (auto simp: octet_text_def split: if_splits)
qed

definition stops :: "string \<Rightarrow> bool" where
  "stops rest \<longleftrightarrow> rest = [] \<or> \<not> dec_digit (hd rest) \<and> hd rest \<noteq> CHR ''.''"

lemma dot_not_digit [simp]: "\<not> dec_digit CHR ''.''"
  by (simp add: dec_digit_def less_eq_char_def)

lemma dotted_complete:
  "dss \<noteq> [] \<Longrightarrow> list_all octet_text dss \<Longrightarrow> length parts + length dss \<le> 4 \<Longrightarrow> stops rest \<Longrightarrow>
   dotted_loop parts (join_dots dss @ rest) = Some (parts @ map (\<lambda>ds. of_nat (digits_val 10 ds)) dss, rest)"
proof (induction dss arbitrary: parts rule: join_dots.induct)
  case (2 d)
  then have "octet_loop 0 0 (d @ rest) = Some (of_nat (digits_val 10 d), length d, rest)"
    by (intro octet_loop_text) (auto simp: stops_def)
  then show ?case using 2 by (subst dotted_loop.simps) (auto simp: octet_text_def stops_def split: list.split)
next
  case (3 d e ds)
  let ?t = "CHR ''.'' # join_dots (e # ds) @ rest"
  have "octet_loop 0 0 (d @ ?t) = Some (of_nat (digits_val 10 d), length d, ?t)"
    using 3 by (intro octet_loop_text) auto
  then show ?case using 3 by (subst dotted_loop.simps) (auto simp: octet_text_def)
qed simp

lemma dotted_sound:
  "dotted_loop parts s = Some (qs, rest) \<Longrightarrow>
   \<exists>dss. dss \<noteq> [] \<and> list_all octet_text dss \<and> length parts + length dss \<le> 4 \<and> stops rest \<and>
     s = join_dots dss @ rest \<and> qs = parts @ map (\<lambda>ds. of_nat (digits_val 10 ds)) dss"
proof (induction parts s rule: dotted_loop.induct)
  case (1 parts s)
  obtain v n t where o: "octet_loop 0 0 s = Some (v, n, t)" and n: "n \<noteq> 0" "\<not> 4 \<le> length parts"
    using 1(2) by (subst (asm) dotted_loop.simps) (auto split: option.splits if_splits)
  obtain d where d: "octet_text d" "s = d @ t" "v = of_nat (digits_val 10 d)" "t = [] \<or> \<not> dec_digit (hd t)"
    using octet_loop_inv [OF o n(1)] by blast
  show ?case
  proof (cases "t \<noteq> [] \<and> hd t = CHR ''.''")
    case True
    then obtain u where u: "t = CHR ''.'' # u" by (cases t) auto
    have "dotted_loop (parts @ [v]) u = Some (qs, rest)"
      using 1(2) o n u by (subst (asm) dotted_loop.simps) simp
    then obtain dss where e: "dss \<noteq> []" "list_all octet_text dss" "length (parts @ [v]) + length dss \<le> 4" "stops rest"
      "u = join_dots dss @ rest" "qs = (parts @ [v]) @ map (\<lambda>ds. of_nat (digits_val 10 ds)) dss"
      using 1(1) [OF o refl refl _ u refl] n by auto
    then have "join_dots (d # dss) = d @ CHR ''.'' # join_dots dss" by (cases dss) auto
    then show ?thesis using d e u by (intro exI [of _ "d # dss"]) auto
  next
    case False
    then have "qs = parts @ [v]" "rest = t" "stops t"
      using 1(2) o n d(4) by (subst (asm) dotted_loop.simps, auto simp: stops_def split: list.splits if_splits)+
    then show ?thesis using d n by (intro exI [of _ "[d]"]) auto
  qed
qed

lemma blank_stops: "list_all blank post \<Longrightarrow> stops post"
  by (cases post) (auto simp: stops_def blank_def dec_digit_def less_eq_char_def)

lemma join_dots_hd:
  assumes "dss \<noteq> []" and "list_all octet_text dss"
  shows "join_dots dss \<noteq> []" and "\<not> blank (hd (join_dots dss @ t))"
proof -
  have "join_dots dss \<noteq> [] \<and> hd (join_dots dss) = hd (hd dss) \<and> dec_digit (hd (hd dss))"
    using assms by (cases dss rule: join_dots.cases) (auto simp: octet_text_def list_all_iff)
  then show "join_dots dss \<noteq> []" and "\<not> blank (hd (join_dots dss @ t))" using not_blank_digit(2) by auto
qed

lemma split_dotted_iff:
  assumes "ps \<noteq> []"
  shows "split_dotted s = ps \<longleftrightarrow>
    (\<exists>pre dss post. list_all blank pre \<and> list_all blank post \<and> list_all octet_text dss \<and> length dss \<le> 4 \<and>
       s = pre @ join_dots dss @ post \<and> ps = map (\<lambda>ds. of_nat (digits_val 10 ds)) dss)" (is "?l \<longleftrightarrow> ?r")
proof
  assume ?l
  then obtain rest where d: "dotted_loop [] (skip_blanks s) = Some (ps, rest)" and r: "list_all blank rest"
    using assms by (auto simp: split_dotted_def Let_def skip_blanks_nil split: if_splits option.splits)
  have s: "s = takeWhile blank s @ skip_blanks s" by (simp add: skip_blanks_def)
  have pre: "list_all blank (takeWhile blank s)" by (auto simp: list_all_iff dest: set_takeWhileD)
  obtain dss where e: "list_all octet_text dss" "length dss \<le> 4" "skip_blanks s = join_dots dss @ rest"
      "ps = map (\<lambda>ds. of_nat (digits_val 10 ds)) dss"
    using dotted_sound [OF d] by auto
  have "s = takeWhile blank s @ join_dots dss @ rest" using s e(3) by simp
  then show ?r using pre r e by blast
next
  assume ?r
  then obtain pre dss post where e: "list_all blank pre" "list_all blank post" "list_all octet_text dss" "length dss \<le> 4"
    "s = pre @ join_dots dss @ post" "ps = map (\<lambda>ds. of_nat (digits_val 10 ds)) dss" by blast
  then have ne: "dss \<noteq> []" using assms by auto
  have "skip_blanks s = join_dots dss @ post"
    using skip_blanks_app [OF e(1)] join_dots_hd [OF ne e(3)] e(5) by blast
  moreover have "dotted_loop [] (join_dots dss @ post) = Some (ps, post)"
    using dotted_complete [OF ne e(3) _ blank_stops [OF e(2)], of "[]"] e(4,6) by simp
  moreover have "skip_blanks post = []" using e(2) by (simp only: skip_blanks_nil)
  ultimately show ?l using join_dots_hd(1) [OF ne e(3)] by (simp add: split_dotted_def Let_def)
qed

lemma pack_octets:
  assumes "v0 \<le> 255" "v1 \<le> 255" "v2 \<le> 255" "v3 \<le> 255"
  shows "push_bit 24 (of_nat v0) OR push_bit 16 (of_nat v1) OR push_bit 8 (of_nat v2) OR of_nat v3 = (a :: ULONG) \<longleftrightarrow>
    be32 a = [of_nat v0, of_nat v1, of_nat v2, of_nat v3]"
proof -
  have u: "ucast (of_nat v :: UBYTE) = (of_nat v :: ULONG)" if "v \<le> 255" for v
    using that by (simp add: unsigned_of_nat take_bit_nat_eq_self)
  have "be_val [of_nat v0, of_nat v1, of_nat v2, of_nat v3] =
      push_bit 24 (of_nat v0) OR push_bit 16 (of_nat v1) OR push_bit 8 (of_nat v2) OR of_nat v3"
    using assms by (simp add: be_val_def be_step_def u push_bit_or ac_simps)
  moreover have "be32 (be_val [of_nat v0, of_nat v1, of_nat v2, of_nat v3]) = [of_nat v0, of_nat v1, of_nat v2, of_nat v3]"
    by (rule be32_be_val) simp
  ultimately show ?thesis by (metis be_val_be32)
qed

lemma split_four:
  "split_dotted s = [p0, p1, p2, p3] \<longleftrightarrow>
   (\<exists>pre d0 d1 d2 d3 post. s = pre @ join_dots [d0, d1, d2, d3] @ post \<and> list_all blank (pre @ post) \<and>
      list_all octet_text [d0, d1, d2, d3] \<and> [p0, p1, p2, p3] = map (\<lambda>ds. of_nat (digits_val 10 ds)) [d0, d1, d2, d3])"
    (is "?l \<longleftrightarrow> ?r")
proof
  assume l: ?l
  from iffD1 [OF split_dotted_iff [OF list.distinct(2)] l]
  obtain pre dss post where e: "list_all blank pre" "list_all blank post" "list_all octet_text dss"
    "s = pre @ join_dots dss @ post" "[p0, p1, p2, p3] = map (\<lambda>ds. of_nat (digits_val 10 ds)) dss"
    by (elim exE conjE) 
  have "length dss = 4" using arg_cong [OF e(5), of length] by simp
  then obtain d0 d1 d2 d3 where "dss = [d0, d1, d2, d3]" by (auto simp: length_Suc_conv eval_nat_numeral)
  then show ?r using e by (intro exI [of _ pre] exI [of _ d0] exI [of _ d1] exI [of _ d2] exI [of _ d3] exI [of _ post]) simp
next
  assume ?r
  then obtain pre d0 d1 d2 d3 post where e: "s = pre @ join_dots [d0, d1, d2, d3] @ post" "list_all blank (pre @ post)"
    "list_all octet_text [d0, d1, d2, d3]" "[p0, p1, p2, p3] = map (\<lambda>ds. of_nat (digits_val 10 ds)) [d0, d1, d2, d3]" by (elim exE conjE)
  have "list_all blank pre" "list_all blank post" "length [d0, d1, d2, d3] \<le> 4" using e(2) by auto
  then show ?l using e(1,3,4) by (intro iffD2 [OF split_dotted_iff [OF list.distinct(2)]] exI conjI)
qed

lemma cfg_ip4_iff:
  "(ami_config_parse_ip s = Some a) =
   (\<exists>pre d0 d1 d2 d3 post. s = pre @ join_dots [d0, d1, d2, d3] @ post \<and> list_all blank (pre @ post) \<and>
      list_all octet_text [d0, d1, d2, d3] \<and>
      be32 a = map (\<lambda>ds. of_nat (digits_val 10 ds)) [d0, d1, d2, d3])"
proof -
  let ?q = "\<lambda>d0 d1 d2 d3. push_bit 24 (of_nat (digits_val 10 d0)) OR push_bit 16 (of_nat (digits_val 10 d1)) OR
    push_bit 8 (of_nat (digits_val 10 d2)) OR of_nat (digits_val 10 d3) :: ULONG"
  have q: "?q d0 d1 d2 d3 = a \<longleftrightarrow> be32 a = map (\<lambda>ds. of_nat (digits_val 10 ds)) [d0, d1, d2, d3]"
    if "list_all octet_text [d0, d1, d2, d3]" for d0 d1 d2 d3
    using that pack_octets by (simp add: octet_text_def)
  have "ami_config_parse_ip s = Some a \<longleftrightarrow>
      (\<exists>p0 p1 p2 p3. split_dotted s = [p0, p1, p2, p3] \<and> push_bit 24 p0 OR push_bit 16 p1 OR push_bit 8 p2 OR p3 = a)"
    by (auto simp: ami_config_parse_ip_def split: list.splits)
  also have "\<dots> \<longleftrightarrow> (\<exists>pre d0 d1 d2 d3 post. s = pre @ join_dots [d0, d1, d2, d3] @ post \<and> list_all blank (pre @ post) \<and>
      list_all octet_text [d0, d1, d2, d3] \<and> ?q d0 d1 d2 d3 = a)"
    unfolding split_four by (simp only: list.map list.inject simp_thms) blast
  also have "\<dots> \<longleftrightarrow> (\<exists>pre d0 d1 d2 d3 post. s = pre @ join_dots [d0, d1, d2, d3] @ post \<and> list_all blank (pre @ post) \<and>
      list_all octet_text [d0, d1, d2, d3] \<and> be32 a = map (\<lambda>ds. of_nat (digits_val 10 ds)) [d0, d1, d2, d3])"
    by (intro iff_exI conj_cong refl) (rule q)
  finally show ?thesis .
qed

text \<open>
  \<^verbatim>\<open>ami_config_parse_ip\<close> accepts exactly the dotted quads: four groups of decimal digits, each
  of a value up to 255 however many digits spell it, joined by single dots, with blanks allowed
  only around the whole; the four bytes of the result, in network order, are the four values.
\<close>

lemma cfg_ip4_exact:
  "(ami_config_parse_ip s = Some a) =
   (\<exists>pre d0 d1 d2 d3 post. s = pre @ join_dots [d0, d1, d2, d3] @ post \<and> list_all blank (pre @ post) \<and>
      list_all octet_text [d0, d1, d2, d3] \<and>
      be32 a = map (\<lambda>ds. of_nat (digits_val 10 ds)) [d0, d1, d2, d3])"
  by (rule cfg_ip4_iff)

lemma octet_digits_text:
  "list_all dec_digit (octet_digits v) \<and> digits_val 10 (rev (octet_digits v)) = unat v"
proof (induction v rule: octet_digits.induct)
  case (1 v)
  define d where "d = char_of (48 + unat (v mod 10))"
  have m: "unat (v mod 10) < 10" by (simp add: unat_mod)
  have "of_char d = 48 + unat (v mod 10)" using m by (simp add: d_def)
  then have d: "dec_digit d" "digit_nat d = unat (v mod 10)"
    using m by (simp_all add: dec_digit_def less_eq_char_def digit_nat_def)
  have u: "unat v = unat (v div 10) * 10 + unat (v mod 10)" by (simp add: unat_div unat_mod)
  show ?case
  proof (cases "v div 10 = 0")
    case True
    then show ?thesis using d u by (subst (1 2) octet_digits.simps) (simp add: d_def)
  next
    case False
    then show ?thesis using 1 d u by (subst (1 2) octet_digits.simps) (simp add: d_def digits_from_append)
  qed
qed

lemma octet_digits_length: "unat v < 10 ^ Suc n \<Longrightarrow> length (octet_digits v) \<le> Suc n"
proof (induction n arbitrary: v)
  case 0
  then have "v div 10 = 0" by (simp add: word_eq_iff_unsigned unat_div flip: unat_eq_0)
  then show ?case by (subst octet_digits.simps) simp
next
  case (Suc n)
  have "unat (v div 10) < 10 ^ Suc n" using Suc.prems by (simp add: unat_div div_less_iff_less_mult)
  then show ?case using Suc.IH [of "v div 10"] by (subst octet_digits.simps) simp
qed

lemma octet_text_format:
  assumes "unat v \<le> 255"
  shows "octet_text (rev (octet_digits v))" and "digits_val 10 (rev (octet_digits v)) = unat v"
    and "length (octet_digits v) \<le> 3"
proof -
  have "octet_digits v \<noteq> []" by (subst octet_digits.simps) simp
  then show "octet_text (rev (octet_digits v))"
    using octet_digits_text [of v] assms by (simp add: octet_text_def list_all_iff)
  show "digits_val 10 (rev (octet_digits v)) = unat v" using octet_digits_text [of v] by blast
  show "length (octet_digits v) \<le> 3" using octet_digits_length [of v 2] assms by simp
qed

definition octet :: "nat \<Rightarrow> ULONG \<Rightarrow> ULONG" where
  "octet n a = drop_bit (n * 8) a AND 0xFF"

lemma octet_small: "unat (octet n a) \<le> 255"
  using word_and_le1 [of "drop_bit (n * 8) a" "0xFF"] unfolding octet_def word_le_nat_alt by simp

lemma octet_be32: "be32 a = [ucast (octet 3 a), ucast (octet 2 a), ucast (octet 1 a), ucast (octet 0 a)]"
proof -
  have m: "(0xFF :: ULONG) = mask 8" by (simp add: mask_eq_exp_minus_1)
  have "(ucast (octet n a) :: UBYTE) = ucast (drop_bit (n * 8) a)" for n
    unfolding octet_def m by (rule bit_word_eqI) (auto simp: bit_simps)
  then show ?thesis by (simp add: be32_def)
qed

lemma format_join:
  "ami_format_ip4 a = join_dots (map (\<lambda>n. rev (octet_digits (octet n a))) [3, 2, 1, 0])"
  by (simp add: ami_format_ip4_def octet_def numeral_3_eq_3 numeral_2_eq_2)

lemma ip4_roundtrip:
  "ami_config_parse_ip (ami_format_ip4 a) = Some a \<and> length (ami_format_ip4 a) + 1 \<le> 16"
proof
  let ?d = "\<lambda>n. rev (octet_digits (octet n a))"
  have t: "list_all octet_text [?d 3, ?d 2, ?d 1, ?d 0]" using octet_text_format(1) octet_small by simp
  have "be32 a = map (\<lambda>ds. of_nat (digits_val 10 ds)) [?d 3, ?d 2, ?d 1, ?d 0]"
    using octet_text_format(2) octet_small by (simp add: octet_be32)
  moreover have "ami_format_ip4 a = [] @ join_dots [?d 3, ?d 2, ?d 1, ?d 0] @ []" by (simp add: format_join)
  moreover have "list_all blank ([] @ [])" by simp
  ultimately show "ami_config_parse_ip (ami_format_ip4 a) = Some a"
    unfolding cfg_ip4_iff using t by (intro exI conjI)
  show "length (ami_format_ip4 a) + 1 \<le> 16"
    using octet_text_format(3) [OF octet_small, of 0 a] octet_text_format(3) [OF octet_small, of 1 a]
      octet_text_format(3) [OF octet_small, of 2 a] octet_text_format(3) [OF octet_small, of 3 a]
    by (simp add: format_join)
qed

text \<open>
  An IPv4 address printed by \<^verbatim>\<open>ami_format_ip4\<close> reads back as itself, for every address, and
  the text with its terminator fits the sixteen bytes the callers give it.
\<close>

lemma cfg_ip4_roundtrip:
  "ami_config_parse_ip (ami_format_ip4 a) = Some a \<and> length (ami_format_ip4 a) + 1 \<le> 16"
  by (rule ip4_roundtrip)

end
