(* ===== verification/Cfg_Ip6.thy ===== *)
theory Cfg_Ip6
  imports Cfg_Numbers
begin

text \<open>
  IPv6 addresses to and from text, \<^verbatim>\<open>src/config/config_text6.c\<close>: the parser of RFC 4291 2.2 with
  the zone of RFC 4007 11 and a prefix length, and the printer of RFC 5952, with the round
  trip between them.

  The array \<^verbatim>\<open>group\<close> with \<^verbatim>\<open>count\<close> entries in use is the list of these entries; \<^verbatim>\<open>gap\<close> is an
  \<open>option\<close>. \<^verbatim>\<open>BOOL\<close> results are options, \<open>None\<close> standing for \<^verbatim>\<open>FALSE\<close>.
\<close>

section \<open>Parsing\<close>

definition ip6_hex_digit :: "char \<Rightarrow> ULONG option" where
  "ip6_hex_digit c =
     (if dec_digit c then Some (char_diff c CHR ''0'')
      else if CHR ''a'' \<le> c \<and> c \<le> CHR ''f'' then Some (char_diff c CHR ''a'' + 10)
      else if CHR ''A'' \<le> c \<and> c \<le> CHR ''F'' then Some (char_diff c CHR ''A'' + 10)
      else None)"

definition addr_char :: "char \<Rightarrow> bool" where
  "addr_char c \<longleftrightarrow> c \<noteq> CHR ''/'' \<and> c \<noteq> CHR ''%'' \<and> \<not> blank c"

definition addr_ends :: "string \<Rightarrow> bool" where
  "addr_ends s \<longleftrightarrow> s = [] \<or> \<not> addr_char (hd s)"

text \<open>The scan ahead for a dot before the next colon.\<close>

definition dot_ahead :: "string \<Rightarrow> bool" where
  "dot_ahead s \<longleftrightarrow>
     (let look = dropWhile (\<lambda>c. c \<noteq> CHR '':'' \<and> addr_char c \<and> c \<noteq> CHR ''.'') s
      in look \<noteq> [] \<and> hd look = CHR ''.'')"

fun quad_copy :: "string \<Rightarrow> string \<Rightarrow> (string \<times> string) option" where
  "quad_copy quad [] = Some (quad, [])"
| "quad_copy quad (c # s) =
     (if \<not> addr_char c then Some (quad, c # s)
      else if 16 - 1 \<le> length quad then None
      else quad_copy (quad @ [c]) s)"

fun hex_loop :: "ULONG \<Rightarrow> nat \<Rightarrow> string \<Rightarrow> (ULONG \<times> nat \<times> string) option" where
  "hex_loop value digits [] = Some (value, digits, [])"
| "hex_loop value digits (c # s) =
     (case ip6_hex_digit c of
        None \<Rightarrow> Some (value, digits, c # s)
      | Some digit \<Rightarrow> if 4 \<le> digits then None else hex_loop (push_bit 4 value OR digit) (digits + 1) s)"

lemma hex_loop_rest: "hex_loop v n s = Some (w, m, t) \<Longrightarrow> length t + m = length s + n"
  by (induction v n s rule: hex_loop.induct) (auto split: if_splits option.splits)

definition quad_tail :: "UWORD list \<Rightarrow> string \<Rightarrow> (UWORD list \<times> string) option" where
  "quad_tail groups s =
     (case quad_copy [] s of
        None \<Rightarrow> None
      | Some (quad, t) \<Rightarrow>
          (case ami_config_parse_ip quad of
             None \<Rightarrow> None
           | Some v4 \<Rightarrow>
               if 8 < length groups + 2 then None
               else Some (groups @ [ucast (drop_bit 16 v4), ucast (v4 AND 0xFFFF)], t)))"

function group_loop :: "UWORD list \<Rightarrow> nat option \<Rightarrow> string \<Rightarrow> (UWORD list \<times> nat option \<times> string) option" where
  "group_loop groups gap s =
     (if addr_ends s then Some (groups, gap, s)
      else if dot_ahead s then map_option (\<lambda>(g, t). (g, gap, t)) (quad_tail groups s)
      else case hex_loop 0 0 s of
             None \<Rightarrow> None
           | Some (value, digits, t) \<Rightarrow>
               if digits = 0 \<or> 8 \<le> length groups then None
               else let g = groups @ [ucast value]
                    in if t = [] \<or> hd t \<noteq> CHR '':'' then Some (g, gap, t)
                       else let u = tl t
                            in if u \<noteq> [] \<and> hd u = CHR '':''
                               then if gap \<noteq> None then None
                                    else if addr_ends (tl u) then Some (g, Some (length g), tl u)
                                    else group_loop g (Some (length g)) (tl u)
                               else if addr_ends u then None else group_loop g gap u)"
  by pat_completeness auto
termination
proof (relation "measure (\<lambda>(groups, gap, s). length s)", goal_cases)
  case (2 groups gap s x2 x y xa ya g u)
  then show ?case using hex_loop_rest [of 0 0 s x xa ya] by auto
next
  case (3 groups gap s x2 x y xa ya g u)
  then show ?case using hex_loop_rest [of 0 0 s x xa ya] by auto
qed simp

declare group_loop.simps [simp del]

fun zone_loop :: "nat \<Rightarrow> string \<Rightarrow> string \<Rightarrow> (string \<times> string) option" where
  "zone_loop zone_len zone [] = Some (zone, [])"
| "zone_loop zone_len zone (c # s) =
     (if c = CHR ''/'' \<or> blank c then Some (zone, c # s)
      else if zone_len \<le> length zone + 1 then None
      else zone_loop zone_len (zone @ [c]) s)"

text \<open>The zone, if one is written; the caller has room for \<open>zone_len\<close> characters.\<close>

definition parse_zone :: "nat \<Rightarrow> string \<Rightarrow> (string option \<times> string) option" where
  "parse_zone zone_len s =
     (if s = [] \<or> hd s \<noteq> CHR ''%'' then Some (None, s)
      else if zone_len = 0 then None
      else case zone_loop zone_len [] (tl s) of
             None \<Rightarrow> None
           | Some (zone, t) \<Rightarrow> if zone = [] then None else Some (Some zone, t))"

fun prefix_loop :: "ULONG \<Rightarrow> nat \<Rightarrow> string \<Rightarrow> (ULONG \<times> nat \<times> string) option" where
  "prefix_loop prefix digits [] = Some (prefix, digits, [])"
| "prefix_loop prefix digits (c # s) =
     (if \<not> dec_digit c then Some (prefix, digits, c # s)
      else let digit = char_diff c CHR ''0''
           in if (128 - digit) div 10 < prefix then None
              else prefix_loop (prefix * 10 + digit) (digits + 1) s)"

definition parse_prefix :: "bool \<Rightarrow> string \<Rightarrow> (ULONG option \<times> string) option" where
  "parse_prefix wanted s =
     (if s = [] \<or> hd s \<noteq> CHR ''/'' then Some (None, s)
      else if \<not> wanted then None
      else case prefix_loop 0 0 (tl s) of
             None \<Rightarrow> None
           | Some (prefix, digits, t) \<Rightarrow> if digits = 0 then None else Some (Some prefix, t))"

text \<open>The two loops that move the groups after the gap to the end and clear the gap.\<close>

fun shift_loop :: "nat \<Rightarrow> nat \<Rightarrow> nat \<Rightarrow> UWORD list \<Rightarrow> UWORD list" where
  "shift_loop count gap 0 groups = groups"
| "shift_loop count gap (Suc i) groups =
     (if gap < Suc i then shift_loop count gap i (groups[i + (8 - count) := groups ! i]) else groups)"

fun clear_loop :: "nat \<Rightarrow> nat \<Rightarrow> UWORD list \<Rightarrow> UWORD list" where
  "clear_loop 0 i groups = groups"
| "clear_loop (Suc n) i groups = clear_loop n (i + 1) (groups[i := 0])"

definition expand_groups :: "UWORD list \<Rightarrow> nat option \<Rightarrow> UWORD list option" where
  "expand_groups groups gap =
     (case gap of
        None \<Rightarrow> if length groups \<noteq> 8 then None else Some groups
      | Some g \<Rightarrow>
          if 8 \<le> length groups then None
          else let count = length groups; array = groups @ replicate (8 - count) 0
               in Some (clear_loop (8 - count) g (shift_loop count g count array)))"

definition pack_groups :: "UWORD list \<Rightarrow> ULONG list" where
  "pack_groups g = map (\<lambda>i. push_bit 16 (ucast (g ! (i * 2))) OR ucast (g ! (i * 2 + 1))) [0, 1, 2, 3]"

definition parse_start :: "string \<Rightarrow> (nat option \<times> string) option" where
  "parse_start s =
     (if s \<noteq> [] \<and> hd s = CHR '':''
      then if tl s = [] \<or> hd (tl s) \<noteq> CHR '':'' then None else Some (Some 0, tl (tl s))
      else Some (None, s))"

definition ami_cfg_parse_ip6_inner ::
  "string \<Rightarrow> bool \<Rightarrow> nat \<Rightarrow> (ULONG list \<times> ULONG option \<times> string option) option" where
  "ami_cfg_parse_ip6_inner text want_prefix zone_len =
     do {
       (gap, s) \<leftarrow> parse_start (skip_blanks text);
       (groups, gap, s) \<leftarrow> group_loop [] gap s;
       (zone, s) \<leftarrow> parse_zone zone_len s;
       (prefix, s) \<leftarrow> parse_prefix want_prefix s;
       if skip_blanks s \<noteq> [] then None
       else do {
         g \<leftarrow> expand_groups groups gap;
         Some (pack_groups g, prefix, zone)
       }
     }"

definition ami_config_parse_ip6 :: "string \<Rightarrow> bool \<Rightarrow> (ULONG list \<times> ULONG option) option" where
  "ami_config_parse_ip6 text want_prefix =
     map_option (\<lambda>(a, p, z). (a, p)) (ami_cfg_parse_ip6_inner text want_prefix 0)"

definition ami_config_parse_ip6_zone ::
  "string \<Rightarrow> bool \<Rightarrow> nat \<Rightarrow> (ULONG list \<times> ULONG option \<times> string option) option" where
  "ami_config_parse_ip6_zone text want_prefix zone_len = ami_cfg_parse_ip6_inner text want_prefix zone_len"

section \<open>Printing\<close>

definition split_words :: "ULONG list \<Rightarrow> UWORD list" where
  "split_words addr = concat (map (\<lambda>w. [ucast (drop_bit 16 w), ucast (w AND 0xFFFF)]) addr)"

text \<open>The longest run of zero groups: the run being counted, and the best so far.\<close>

fun run_scan :: "UWORD list \<Rightarrow> nat \<Rightarrow> nat option \<Rightarrow> nat \<Rightarrow> nat option \<Rightarrow> nat \<Rightarrow> nat option \<times> nat" where
  "run_scan [] i run_at run_len best_at best_len = (best_at, best_len)"
| "run_scan (w # ws) i run_at run_len best_at best_len =
     (if w = 0
      then let at = (case run_at of None \<Rightarrow> i | Some a \<Rightarrow> a);
               len = (case run_at of None \<Rightarrow> 0 | Some a \<Rightarrow> run_len) + 1
           in if best_len < len then run_scan ws (i + 1) (Some at) len (Some at) len
              else run_scan ws (i + 1) (Some at) len best_at best_len
      else run_scan ws (i + 1) None 0 best_at best_len)"

definition best_run :: "UWORD list \<Rightarrow> nat option \<times> nat" where
  "best_run groups = (let (at, len) = run_scan groups 0 None 0 None 0 in (if len < 2 then None else at, len))"

function hex_digits :: "UWORD \<Rightarrow> string" where
  "hex_digits v =
     (let nibble = unat (v AND 0xF); u = drop_bit 4 v
      in char_of (if nibble < 10 then 48 + nibble else 97 + nibble - 10) # (if u \<noteq> 0 then hex_digits u else []))"
  by pat_completeness auto
termination
  by (relation "measure unat") (auto simp: drop_bit_eq_div unat_div unat_gt_0 intro!: div_less_dividend dest: gr0I)

declare hex_digits.simps [simp del]

definition in_run :: "nat option \<Rightarrow> nat \<Rightarrow> nat \<Rightarrow> bool" where
  "in_run at len i \<longleftrightarrow> (case at of None \<Rightarrow> False | Some a \<Rightarrow> a \<le> i \<and> i < a + len)"

function emit_groups :: "UWORD list \<Rightarrow> nat option \<Rightarrow> nat \<Rightarrow> nat \<Rightarrow> string" where
  "emit_groups groups at len i =
     (if 8 \<le> i then []
      else if in_run at len i then (if at = Some i then '':'' else []) @ emit_groups groups at len (i + 1)
      else (if i \<noteq> 0 then '':'' else []) @
           (if i = 6 \<and> at = Some 0 \<and> (len = 6 \<or> len = 5 \<and> groups ! 5 = 0xFFFF)
            then ami_format_ip4 (push_bit 16 (ucast (groups ! 6)) OR ucast (groups ! 7))
            else rev (hex_digits (groups ! i)) @ emit_groups groups at len (i + 1)))"
  by pat_completeness auto
termination by (relation "measure (\<lambda>(groups, at, len, i). 8 - i)") auto

declare emit_groups.simps [simp del]

text \<open>The characters stored before the terminator.\<close>

definition ami_format_ip6 :: "ULONG list \<Rightarrow> string" where
  "ami_format_ip6 addr =
     (let groups = split_words addr; (at, len) = best_run groups
      in emit_groups groups at len 0 @ (case at of None \<Rightarrow> [] | Some a \<Rightarrow> if a + len = 8 then '':'' else []))"

text \<open>
  The string a buffer of \<open>buflen\<close> characters, not 0, holds after a call; \<open>None\<close> is a null address.
\<close>

definition ami_config_format_ip6 :: "ULONG list option \<Rightarrow> nat \<Rightarrow> string" where
  "ami_config_format_ip6 addr buflen =
     (case addr of None \<Rightarrow> [] | Some a \<Rightarrow> if buflen < 46 then [] else ami_format_ip6 a)"

fun zone_copy :: "nat \<Rightarrow> string \<Rightarrow> string \<Rightarrow> string" where
  "zone_copy buflen buf [] = buf"
| "zone_copy buflen buf (c # zone) =
     (if length buf + 1 < buflen then zone_copy buflen (buf @ [c]) zone else buf)"

definition ami_config_format_ip6_zone :: "ULONG list option \<Rightarrow> string \<Rightarrow> nat \<Rightarrow> string" where
  "ami_config_format_ip6_zone addr zone buflen =
     (if zone = [] then ami_config_format_ip6 addr buflen
      else if buflen < 46 + 1 + 16 then []
      else let buf = ami_config_format_ip6 addr buflen
           in if buf = [] then [] else zone_copy buflen (buf @ ''%'') zone)"

end
