(* ===== verification/Cfg_Ip6_Correct.thy ===== *)
theory Cfg_Ip6_Correct
  imports Cfg_Ip6
begin

text \<open>
  The printed form of an IPv6 address is the canonical one of RFC 5952 and reads back as the
  same address.
\<close>

section \<open>One group\<close>

text \<open>A group as RFC 5952 writes it: lower case, the leading zeroes left out but for the last digit.\<close>

definition hex_text :: "UWORD \<Rightarrow> string" where
  "hex_text v = map (\<lambda>d. ''0123456789abcdef'' ! d)
     (dropWhile (\<lambda>d. d = 0) (map (\<lambda>k. unat v div 16 ^ k mod 16) [3, 2, 1]) @ [unat v mod 16])"

lemma hex_table:
  assumes "d < 16"
  shows "''0123456789abcdef'' ! d = char_of (if d < 10 then 48 + d else 97 + d - 10 :: nat)"
proof -
  have "list_all (\<lambda>d. ''0123456789abcdef'' ! d = char_of (if d < 10 then 48 + d else 97 + d - 10 :: nat)) [0..<16]"
    by code_simp
  then show ?thesis using assms by (simp add: list_all_iff)
qed

lemma hex_digits_unat:
  "hex_digits v = ''0123456789abcdef'' ! (unat v mod 16) # (if unat v < 16 then [] else hex_digits (drop_bit 4 v))"
proof -
  have "v AND 0xF = v mod 16" using take_bit_eq_mask [of 4 v] by (simp add: mask_eq_exp_minus_1 take_bit_eq_mod)
  then have nibble: "unat (v AND 0xF) = unat v mod 16" by (simp add: unat_mod)
  have "unat (drop_bit 4 v) = unat v div 16" by (simp add: drop_bit_eq_div unat_div)
  then have rest: "drop_bit 4 v \<noteq> 0 \<longleftrightarrow> \<not> unat v < 16" by (metis div_eq_0_iff unat_eq_zero zero_neq_numeral)
  show ?thesis
    unfolding hex_digits.simps [of v] Let_def nibble rest using hex_table [of "unat v mod 16"] by simp
qed

lemma hex_text_digits: "hex_text v = rev (hex_digits v)"
proof -
  let ?n = "unat v"
  have top: "?n < 65536" using unat_lt2p [of v] by simp
  define v1 v2 v3 where v: "v1 = drop_bit 4 v" "v2 = drop_bit 4 v1" "v3 = drop_bit 4 v2"
  have d: "unat v1 = ?n div 16" "unat v2 = ?n div 256" "unat v3 = ?n div 4096"
    by (simp_all add: v drop_bit_eq_div unat_div div_mult2_eq [symmetric])
  note h = hex_digits_unat [of v, folded v] hex_digits_unat [of v1, folded v] hex_digits_unat [of v2, folded v] hex_digits_unat [of v3]
  have last: "?n div 4096 < 16" using top by simp
  consider "?n < 16" | "16 \<le> ?n" "?n < 256" | "256 \<le> ?n" "?n < 4096" | "4096 \<le> ?n" by linarith
  then show ?thesis
  proof cases
    case 1
    then show ?thesis by (simp add: hex_text_def h(1))
  next
    case 2
    then have "?n div 16 < 16" "?n div 16 \<noteq> 0" "?n div 256 = 0" "?n div 4096 = 0" by auto
    then show ?thesis using 2 by (simp add: hex_text_def h(1,2) d)
  next
    case 3
    then have "\<not> ?n div 16 < 16" "?n div 256 < 16" "?n div 256 \<noteq> 0" "?n div 4096 = 0" by auto
    then show ?thesis using 3 by (simp add: hex_text_def h(1-3) d)
  next
    case 4
    then have "\<not> ?n div 16 < 16" "\<not> ?n div 256 < 16" "?n div 4096 \<noteq> 0" by auto
    then show ?thesis using 4 last by (simp add: hex_text_def h d)
  qed
qed

definition hex_fold :: "ULONG \<Rightarrow> string \<Rightarrow> ULONG" where
  "hex_fold v ds = foldl (\<lambda>v c. push_bit 4 v OR the (ip6_hex_digit c)) v ds"

lemma hex_loop_fold:
  "list_all (\<lambda>c. ip6_hex_digit c \<noteq> None) ds \<Longrightarrow> n + length ds \<le> 4 \<Longrightarrow>
   rest = [] \<or> ip6_hex_digit (hd rest) = None \<Longrightarrow>
   hex_loop v n (ds @ rest) = Some (hex_fold v ds, n + length ds, rest)"
proof (induction ds arbitrary: v n)
  case Nil
  then show ?case by (cases rest) (auto simp: hex_fold_def)
qed (auto simp: hex_fold_def)

lemma nibble_digit:
  assumes "n < 16"
  defines "c \<equiv> char_of (if n < 10 then 48 + n else 97 + n - 10)"
  shows "ip6_hex_digit c = Some (of_nat n)"
proof -
  have c: "(of_char c :: nat) = (if n < 10 then 48 + n else 87 + n)" using assms(1) by (auto simp: c_def)
  have u: "unat (char_diff c CHR ''0'') = n" if "n < 10" using c that by (subst unat_char_diff) (auto simp: less_eq_char_def)
  have v: "unat (char_diff c CHR ''a'' + 10) = n" if "\<not> n < 10"
    using hex_value [of c "CHR ''a''"] c that assms(1) by (auto simp: less_eq_char_def digit_nat_def dec_digit_def)
  show ?thesis
  proof (cases "n < 10")
    case True
    then have "dec_digit c" using c by (simp add: dec_digit_def less_eq_char_def)
    moreover have "char_diff c CHR ''0'' = of_nat n" using arg_cong [OF u [OF True], of "of_nat :: nat \<Rightarrow> ULONG"] by simp
    ultimately show ?thesis by (simp add: ip6_hex_digit_def)
  next
    case False
    then have "\<not> dec_digit c" "CHR ''a'' \<le> c \<and> c \<le> CHR ''f''" using c assms(1) by (auto simp: dec_digit_def less_eq_char_def)
    moreover have "char_diff c CHR ''a'' + 10 = of_nat n" using arg_cong [OF v [OF False], of "of_nat :: nat \<Rightarrow> ULONG"] by simp
    ultimately show ?thesis by (simp add: ip6_hex_digit_def)
  qed
qed

lemma join_nibble: "push_bit 4 (ucast (drop_bit 4 v)) OR ucast (v AND 0xF) = (ucast v :: ULONG)"
  for v :: UWORD
proof -
  have m: "(0xF :: UWORD) = mask 4" by (simp add: mask_eq_exp_minus_1)
  show ?thesis unfolding m by (rule bit_word_eqI) (auto simp: bit_simps dest: bit_imp_le_length)
qed

lemma hex_digits_spec:
  "list_all (\<lambda>c. ip6_hex_digit c \<noteq> None) (hex_digits v) \<and> hex_fold 0 (rev (hex_digits v)) = ucast v"
proof (induction v rule: hex_digits.induct)
  case (1 v)
  define n where "n = unat (v AND 0xF)"
  have "v AND 0xF \<le> 0xF" by (rule word_and_le1)
  then have "n < 16" by (simp add: n_def word_le_nat_alt)
  note d = nibble_digit [OF this]
  have n: "(of_nat n :: ULONG) = ucast (v AND 0xF)" by (simp add: n_def unsigned_of_nat)
  show ?case
  proof (cases "drop_bit 4 v = 0")
    case True
    then have "ucast v = (ucast (v AND 0xF) :: ULONG)" using join_nibble [of v] by simp
    then show ?thesis using True d n by (subst (1 2) hex_digits.simps) (simp add: n_def [symmetric] Let_def hex_fold_def)
  next
    case False
    then show ?thesis using 1 [OF n_def refl] d n join_nibble [of v]
      by (subst (1 2) hex_digits.simps) (simp add: n_def [symmetric] Let_def hex_fold_def)
  qed
qed

lemma hex_digits_length: "unat v < 16 ^ Suc n \<Longrightarrow> length (hex_digits v) \<le> Suc n"
proof (induction n arbitrary: v)
  case 0
  then have "unat (drop_bit 4 v) = 0" by (simp add: drop_bit_eq_div unat_div)
  then have "drop_bit 4 v = 0" by (simp only: unat_eq_0)
  then show ?case by (subst hex_digits.simps) (simp add: Let_def)
next
  case (Suc n)
  have "unat (drop_bit 4 v) < 16 ^ Suc n" using Suc.prems by (simp add: drop_bit_eq_div unat_div div_less_iff_less_mult)
  then show ?case using Suc.IH [of "drop_bit 4 v"] by (subst hex_digits.simps) (simp add: Let_def)
qed

lemma hex_text_length: "0 < length (hex_text v)" "length (hex_text v) \<le> 4"
proof -
  show "0 < length (hex_text v)" unfolding hex_text_digits by (subst hex_digits.simps) (simp add: Let_def)
  have "unat v < 16 ^ Suc 3" using unat_lt2p [where a = v] by simp
  then show "length (hex_text v) \<le> 4" using hex_digits_length [of v 3] by (simp add: hex_text_digits)
qed

lemma hex_text_chars: "list_all (\<lambda>c. ip6_hex_digit c \<noteq> None) (hex_text v)"
  using hex_digits_spec [of v] by (simp add: hex_text_digits list_all_iff)

lemma hex_loop_text:
  assumes "rest = [] \<or> ip6_hex_digit (hd rest) = None"
  shows "hex_loop 0 0 (hex_text v @ rest) = Some (ucast v, length (hex_text v), rest)"
  using hex_loop_fold [OF hex_text_chars _ assms, of 0 v 0] hex_text_length(2) [of v] hex_digits_spec [of v]
  by (simp add: hex_text_digits)

lemma hex_char: "ip6_hex_digit c \<noteq> None \<Longrightarrow> c \<noteq> CHR '':'' \<and> addr_char c \<and> c \<noteq> CHR ''.''"
  by (auto simp: ip6_hex_digit_def addr_char_def blank_def dec_digit_def less_eq_char_def split: if_splits)

lemma hex_text_hd: "ip6_hex_digit (hd (hex_text v @ t)) \<noteq> None"
  using hex_text_chars [of v] hex_text_length(1) [of v] by (cases "hex_text v") auto

lemma not_ends_text: "\<not> addr_ends (hex_text v @ t)"
  using hex_text_hd [of v t] hex_char hex_text_length(1) [of v] by (auto simp: addr_ends_def)

lemma dot_ahead_text:
  assumes "t = [] \<or> hd t = CHR '':'' \<or> \<not> addr_char (hd t)"
  shows "\<not> dot_ahead (hex_text v @ t)"
proof -
  let ?P = "\<lambda>c. c \<noteq> CHR '':'' \<and> addr_char c \<and> c \<noteq> CHR ''.''"
  have "list_all ?P (hex_text v)" using hex_text_chars [of v] hex_char by (auto simp: list_all_iff)
  moreover have "t = [] \<or> \<not> ?P (hd t)" using assms by auto
  ultimately have "dropWhile ?P (hex_text v @ t) = t" using takeWhile_split [of ?P] by blast
  moreover have "t = [] \<or> hd t \<noteq> CHR ''.''" using assms by (auto simp: addr_char_def blank_def)
  ultimately show ?thesis unfolding dot_ahead_def by (auto simp: Let_def)
qed

section \<open>Reading groups\<close>

fun join_colons :: "UWORD list \<Rightarrow> string" where
  "join_colons [] = []"
| "join_colons [g] = hex_text g"
| "join_colons (g # h # gs) = hex_text g @ CHR '':'' # join_colons (h # gs)"

lemma join_colons_Cons: "gs \<noteq> [] \<Longrightarrow> join_colons (g # gs) = hex_text g @ CHR '':'' # join_colons gs"
  by (cases gs) auto

lemma join_colons_hd:
  assumes "gs \<noteq> []"
  shows "join_colons gs @ t \<noteq> []" and "ip6_hex_digit (hd (join_colons gs @ t)) \<noteq> None"
proof -
  obtain g u where "join_colons gs @ t = hex_text g @ u" using assms by (cases gs rule: join_colons.cases) auto
  then show "join_colons gs @ t \<noteq> []" and "ip6_hex_digit (hd (join_colons gs @ t)) \<noteq> None"
    using hex_text_hd [of g u] hex_text_length(1) [of g] by auto
qed

lemma colon_not_hex [simp]: "ip6_hex_digit CHR '':'' = None"
  by (simp add: ip6_hex_digit_def dec_digit_def less_eq_char_def)

lemma ends_not_hex: "addr_ends t \<Longrightarrow> t = [] \<or> ip6_hex_digit (hd t) = None"
  using hex_char by (auto simp: addr_ends_def)

lemma ends_not_colon: "addr_ends t \<Longrightarrow> t = [] \<or> hd t \<noteq> CHR '':''"
  by (auto simp: addr_ends_def addr_char_def blank_def)

lemma ucast_there_back [simp]: "ucast (ucast g :: ULONG) = g" for g :: UWORD
  by (rule bit_word_eqI) (auto simp: bit_simps)

lemma group_last:
  assumes "addr_ends t" and "length acc < 8"
  shows "group_loop acc gap (hex_text g @ t) = Some (acc @ [g], gap, t)"
proof -
  have "hex_loop 0 0 (hex_text g @ t) = Some (ucast g, length (hex_text g), t)"
    by (rule hex_loop_text [OF ends_not_hex [OF assms(1)]])
  moreover have "\<not> dot_ahead (hex_text g @ t)" using assms(1) by (intro dot_ahead_text) (auto simp: addr_ends_def)
  ultimately show ?thesis using assms ends_not_colon [OF assms(1)] not_ends_text [of g t] hex_text_length(1) [of g]
    by (subst group_loop.simps) (simp add: Let_def)
qed

lemma group_colon:
  assumes "length acc < 8"
  shows "group_loop acc gap (hex_text g @ CHR '':'' # u) =
    (if u \<noteq> [] \<and> hd u = CHR '':''
     then if gap \<noteq> None then None
          else if addr_ends (tl u) then Some (acc @ [g], Some (Suc (length acc)), tl u)
          else group_loop (acc @ [g]) (Some (Suc (length acc))) (tl u)
     else if addr_ends u then None else group_loop (acc @ [g]) gap u)"
proof -
  have "hex_loop 0 0 (hex_text g @ CHR '':'' # u) = Some (ucast g, length (hex_text g), CHR '':'' # u)"
    by (rule hex_loop_text) simp
  moreover have "\<not> dot_ahead (hex_text g @ CHR '':'' # u)" by (intro dot_ahead_text) simp
  ultimately show ?thesis using assms not_ends_text [of g "CHR '':'' # u"] hex_text_length(1) [of g]
    by (subst group_loop.simps) (simp add: Let_def)
qed

lemma hd_hex_facts: "s \<noteq> [] \<Longrightarrow> ip6_hex_digit (hd s) \<noteq> None \<Longrightarrow> \<not> addr_ends s \<and> hd s \<noteq> CHR '':''"
  using hex_char by (auto simp: addr_ends_def)

lemma group_next:
  assumes "length acc < 8" and "gs \<noteq> []"
  shows "group_loop acc gap (hex_text g @ CHR '':'' # join_colons gs @ t) = group_loop (acc @ [g]) gap (join_colons gs @ t)"
  using group_colon [OF assms(1), of gap g "join_colons gs @ t"] hd_hex_facts [OF join_colons_hd [OF assms(2), of t]]
  by simp

lemma groups_end:
  "gs \<noteq> [] \<Longrightarrow> addr_ends t \<Longrightarrow> length acc + length gs \<le> 8 \<Longrightarrow>
   group_loop acc gap (join_colons gs @ t) = Some (acc @ gs, gap, t)"
proof (induction gs arbitrary: acc rule: join_colons.induct)
  case (3 g h gs)
  then show ?case using group_next [of acc "h # gs" gap g t] by simp
qed (use group_last in auto)

lemma groups_gap:
  "gs \<noteq> [] \<Longrightarrow> length acc + length gs \<le> 8 \<Longrightarrow>
   group_loop acc None (join_colons gs @ CHR '':'' # CHR '':'' # t) =
     (if addr_ends t then Some (acc @ gs, Some (length (acc @ gs)), t)
      else group_loop (acc @ gs) (Some (length (acc @ gs))) t)"
proof (induction gs arbitrary: acc rule: join_colons.induct)
  case (2 g)
  then show ?case using group_colon [of acc None g "CHR '':'' # t"] by simp
next
  case (3 g h gs)
  then show ?case using group_next [of acc "h # gs" None g "CHR '':'' # CHR '':'' # t"] by simp
qed simp

section \<open>A dotted quad at the end\<close>

lemma octet_chars: "octet_text ds \<Longrightarrow> list_all (\<lambda>c. c \<noteq> CHR '':'' \<and> addr_char c \<and> c \<noteq> CHR ''.'') ds"
  by (auto simp: octet_text_def list_all_iff addr_char_def blank_def dec_digit_def less_eq_char_def)

lemma octet_addr: "octet_text ds \<Longrightarrow> list_all addr_char ds"
  using octet_chars by (auto simp: list_all_iff)

lemma dot_addr [simp]: "addr_char CHR ''.''"
  by (simp add: addr_char_def blank_def)

lemma quad_copy_all:
  "list_all addr_char s \<Longrightarrow> length q + length s \<le> 15 \<Longrightarrow> quad_copy q s = Some (q @ s, [])"
  by (induction s arbitrary: q) auto

lemma format_ip4_parts:
  obtains d0 d1 d2 d3 where "ami_format_ip4 a = d0 @ CHR ''.'' # d1 @ CHR ''.'' # d2 @ CHR ''.'' # d3"
    "octet_text d0" "octet_text d1" "octet_text d2" "octet_text d3"
  using octet_text_format(1) [OF octet_small] by (intro that) (simp_all add: format_join)

lemma split_v4:
  fixes a b :: UWORD
  defines "v \<equiv> push_bit 16 (ucast a) OR ucast b :: ULONG"
  shows "ucast (drop_bit 16 v) = a" and "ucast (v AND 0xFFFF) = b"
proof -
  have m: "(0xFFFF :: ULONG) = mask 16" by (simp add: mask_eq_exp_minus_1)
  show "ucast (drop_bit 16 v) = a" unfolding v_def
    by (rule bit_word_eqI) (auto simp: bit_simps dest: bit_imp_le_length)
  show "ucast (v AND 0xFFFF) = b" unfolding v_def m
    by (rule bit_word_eqI) (auto simp: bit_simps dest: bit_imp_le_length)
qed

lemma group_quad:
  fixes a b :: UWORD
  assumes "length acc \<le> 6" and "ami_config_parse_ip (ami_format_ip4 v) = Some v" and "length (ami_format_ip4 v) \<le> 15"
  defines "s \<equiv> ami_format_ip4 v"
  assumes "v = push_bit 16 (ucast a) OR ucast b"
  shows "group_loop acc gap s = Some (acc @ [a, b], gap, [])" and "\<not> addr_ends s" and "hd s \<noteq> CHR '':''"
proof -
  obtain d0 d1 d2 d3 where d: "s = d0 @ CHR ''.'' # d1 @ CHR ''.'' # d2 @ CHR ''.'' # d3"
    "octet_text d0" "octet_text d1" "octet_text d2" "octet_text d3" using format_ip4_parts unfolding s_def by blast
  note c = octet_chars [OF d(2)] octet_chars [OF d(3)] octet_chars [OF d(4)] octet_chars [OF d(5)]
  have all: "list_all addr_char s" unfolding d(1) using d(2-5) by (simp add: octet_addr)
  have h: "s \<noteq> []" "addr_char (hd s)" "hd s \<noteq> CHR '':''"
  proof -
    obtain x xs where x: "d0 = x # xs" using d(2) by (cases d0) (auto simp: octet_text_def)
    show "s \<noteq> []" "addr_char (hd s)" "hd s \<noteq> CHR '':''" using c(1) unfolding d(1) x by simp_all
  qed
  then show "\<not> addr_ends s" "hd s \<noteq> CHR '':''" by (auto simp: addr_ends_def)
  have "dropWhile (\<lambda>c. c \<noteq> CHR '':'' \<and> addr_char c \<and> c \<noteq> CHR ''.'') s = CHR ''.'' # d1 @ CHR ''.'' # d2 @ CHR ''.'' # d3"
    unfolding d(1) using takeWhile_split [OF c(1)] by simp
  then have "dot_ahead s" by (simp add: dot_ahead_def Let_def)
  moreover have "quad_tail acc s = Some (acc @ [a, b], [])"
    using quad_copy_all [OF all, of "[]"] assms(1-3) split_v4 [of a b]
    by (simp add: quad_tail_def s_def assms(5) [symmetric])
  ultimately show "group_loop acc gap s = Some (acc @ [a, b], gap, [])"
    using \<open>\<not> addr_ends s\<close> by (subst group_loop.simps) simp
qed

section \<open>Filling the gap\<close>

lemma shift_loop_nth:
  "length gs = 8 \<Longrightarrow> i \<le> count \<Longrightarrow> count \<le> 8 \<Longrightarrow>
   length (shift_loop count g i gs) = 8 \<and>
   (\<forall>k < 8. shift_loop count g i gs ! k =
      (if g + (8 - count) \<le> k \<and> k < i + (8 - count) then gs ! (k - (8 - count)) else gs ! k))"
proof (induction i arbitrary: gs)
  case (Suc i)
  show ?case
  proof (cases "g < Suc i")
    case True
    let ?d = "8 - count" and ?gs = "gs[i + (8 - count) := gs ! i]"
    have IH: "length (shift_loop count g i ?gs) = 8 \<and> (\<forall>k < 8. shift_loop count g i ?gs ! k =
        (if g + ?d \<le> k \<and> k < i + ?d then ?gs ! (k - ?d) else ?gs ! k))"
      using Suc.IH [of ?gs] Suc.prems by simp
    have "shift_loop count g i ?gs ! k =
        (if g + ?d \<le> k \<and> k < Suc i + ?d then gs ! (k - ?d) else gs ! k)" if "k < 8" for k
      using IH that Suc.prems True by (cases "k = i + ?d") (auto simp: nth_list_update)
    then show ?thesis using True IH by simp
  qed (use Suc.prems in auto)
qed auto

lemma clear_loop_nth:
  "i + n \<le> length gs \<Longrightarrow>
   length (clear_loop n i gs) = length gs \<and>
   (\<forall>k < length gs. clear_loop n i gs ! k = (if i \<le> k \<and> k < i + n then 0 else gs ! k))"
proof (induction n arbitrary: i gs)
  case (Suc n)
  then have "length (clear_loop n (i + 1) (gs[i := 0])) = length gs \<and>
     (\<forall>k < length gs. clear_loop n (i + 1) (gs[i := 0]) ! k =
        (if i + 1 \<le> k \<and> k < i + 1 + n then 0 else gs[i := 0] ! k))"
    using Suc.IH [of "i + 1" "gs[i := 0]"] by simp
  then show ?case using Suc.prems by (auto simp: nth_list_update)
qed auto

lemma expand_gap:
  assumes "length gs = 8" and "a + n \<le> 8" and "0 < n" and "\<forall>k. a \<le> k \<longrightarrow> k < a + n \<longrightarrow> gs ! k = 0"
  shows "expand_groups (take a gs @ drop (a + n) gs) (Some a) = Some gs"
proof -
  define xs where "xs = take a gs @ drop (a + n) gs"
  define arr where "arr = xs @ replicate (8 - length xs) 0"
  have len: "length xs = 8 - n" using assms(1-3) by (simp add: xs_def)
  have l: "length arr = 8" using len by (simp add: arr_def)
  define r where "r = clear_loop n a (shift_loop (8 - n) a (8 - n) arr)"
  have n: "8 - (8 - n) = n" using assms(2) by simp
  have sh: "length (shift_loop (8 - n) a (8 - n) arr) = 8 \<and> (\<forall>k < 8. shift_loop (8 - n) a (8 - n) arr ! k =
      (if a + n \<le> k \<and> k < 8 then arr ! (k - n) else arr ! k))"
    using shift_loop_nth [OF l order_refl, of "8 - n" a] assms(2,3) n by simp
  have r: "length r = 8 \<and> (\<forall>k < 8. r ! k = (if a \<le> k \<and> k < a + n then 0 else if a + n \<le> k then arr ! (k - n) else arr ! k))"
    using clear_loop_nth [of a n "shift_loop (8 - n) a (8 - n) arr"] sh assms(2) by (auto simp: r_def)
  have "r ! k = gs ! k" if "k < 8" for k
    using r that assms len by (auto simp: arr_def xs_def nth_append)
  then have "r = gs" using r assms(1) by (intro nth_equalityI) auto
  then show ?thesis using len assms(3) n unfolding xs_def [symmetric]
    by (simp add: expand_groups_def Let_def arr_def r_def)
qed

section \<open>The longest run of zeroes\<close>

definition zero_run :: "UWORD list \<Rightarrow> nat \<Rightarrow> nat \<Rightarrow> bool" where
  "zero_run gs a n \<longleftrightarrow> a + n \<le> length gs \<and> (\<forall>k < n. gs ! (a + k) = 0)"

text \<open>
  After the first \<open>i\<close> groups: the run that ends there, and the best of those that end there or before.
\<close>

definition run_inv :: "UWORD list \<Rightarrow> nat \<Rightarrow> nat option \<Rightarrow> nat \<Rightarrow> nat option \<Rightarrow> nat \<Rightarrow> bool" where
  "run_inv gs i run_at run_len best_at best_len \<longleftrightarrow>
     (case run_at of None \<Rightarrow> run_len = 0 \<and> (0 < i \<longrightarrow> gs ! (i - 1) \<noteq> 0)
      | Some r \<Rightarrow> 0 < run_len \<and> r + run_len = i \<and> zero_run gs r run_len \<and> (0 < r \<longrightarrow> gs ! (r - 1) \<noteq> 0)) \<and>
     (case best_at of None \<Rightarrow> best_len = 0 | Some b \<Rightarrow> 0 < best_len \<and> b + best_len \<le> i \<and> zero_run gs b best_len) \<and>
     (\<forall>a n. zero_run gs a n \<longrightarrow> 0 < n \<longrightarrow> a + n \<le> i \<longrightarrow>
        n \<le> best_len \<and> (n = best_len \<longrightarrow> the best_at \<le> a))"

lemma zero_run_end:
  assumes "zero_run gs a n" and "0 < n" and "a + n = i" and "0 < r \<longrightarrow> gs ! (r - 1) \<noteq> 0" and "r \<le> i"
  shows "r \<le> a"
proof (rule ccontr)
  assume "\<not> r \<le> a"
  then have "r - 1 - a < n" "a + (r - 1 - a) = r - 1" "0 < r" using assms by auto
  then show False using assms(1,4) unfolding zero_run_def by metis
qed

lemma run_inv_step:
  assumes inv: "run_inv gs i run_at run_len best_at best_len" and i: "i < length gs" and z: "gs ! i = 0"
  defines "at \<equiv> (case run_at of None \<Rightarrow> i | Some a \<Rightarrow> a)"
    and "len \<equiv> (case run_at of None \<Rightarrow> 0 | Some a \<Rightarrow> run_len) + 1"
  shows "if best_len < len then run_inv gs (i + 1) (Some at) len (Some at) len
    else run_inv gs (i + 1) (Some at) len best_at best_len"
proof -
  have len: "at + len = i + 1" "0 < len" and first: "0 < at \<longrightarrow> gs ! (at - 1) \<noteq> 0"
    using inv by (auto simp: run_inv_def at_def len_def split: option.splits)
  have run: "zero_run gs at len"
    using inv i z by (auto simp: run_inv_def at_def len_def zero_run_def less_Suc_eq split: option.splits)
  have new: "n \<le> len \<and> at \<le> a" if "zero_run gs a n" "0 < n" "a + n = i + 1" for a n
    using zero_run_end [OF that first] len that(3) by linarith
  have old: "n \<le> best_len \<and> (n = best_len \<longrightarrow> the best_at \<le> a)" if "zero_run gs a n" "0 < n" "a + n \<le> i" for a n
    using inv that by (simp add: run_inv_def)
  have best: "case best_at of None \<Rightarrow> best_len = 0 | Some b \<Rightarrow> 0 < best_len \<and> b + best_len \<le> i \<and> zero_run gs b best_len"
    using inv by (simp add: run_inv_def)
  show ?thesis
  proof (cases "best_len < len")
    case True
    have "n \<le> len \<and> (n = len \<longrightarrow> at \<le> a)" if "zero_run gs a n" "0 < n" "a + n \<le> i + 1" for a n
      using new [OF that(1,2)] old [OF that(1,2)] that(3) True by (cases "a + n = i + 1") auto
    then show ?thesis using True len run first by (simp add: run_inv_def)
  next
    case False
    have "n \<le> best_len \<and> (n = best_len \<longrightarrow> the best_at \<le> a)" if "zero_run gs a n" "0 < n" "a + n \<le> i + 1" for a n
    proof (cases "a + n = i + 1")
      case True
      have "the best_at \<le> a" if "n = best_len"
        using best that \<open>0 < n\<close> True by (auto split: option.splits)
      then show ?thesis using new [OF that(1,2) True] False by auto
    qed (use old [OF that(1,2)] that(3) in auto)
    then show ?thesis using False len run first best by (auto simp: run_inv_def split: option.splits)
  qed
qed

lemma run_scan_inv:
  "run_inv gs i run_at run_len best_at best_len \<Longrightarrow> i + length ws = length gs \<Longrightarrow> ws = drop i gs \<Longrightarrow>
   run_scan ws i run_at run_len best_at best_len = (ba, bl) \<Longrightarrow> \<exists>ra rl. run_inv gs (length gs) ra rl ba bl"
proof (induction ws arbitrary: i run_at run_len best_at best_len)
  case (Cons w ws)
  have l: "i < length gs" using Cons.prems(2) by simp
  have i: "i < length gs" "gs ! i = w" "ws = drop (i + 1) gs"
    using l trans [OF Cons.prems(3) Cons_nth_drop_Suc [OF l, symmetric]] by simp_all
  show ?case
  proof (cases "w = 0")
    case True
    define at len where "at = (case run_at of None \<Rightarrow> i | Some a \<Rightarrow> a)"
      and "len = (case run_at of None \<Rightarrow> 0 | Some a \<Rightarrow> run_len) + 1"
    note st = run_inv_step [OF Cons.prems(1) i(1), folded at_def len_def]
    show ?thesis
    proof (cases "best_len < len")
      case b: True
      then have rs: "run_scan ws (i + 1) (Some at) len (Some at) len = (ba, bl)"
        using Cons.prems(4) True by (simp add: at_def [symmetric] len_def [symmetric] Let_def del: One_nat_def)
      have "run_inv gs (i + 1) (Some at) len (Some at) len" using st b True i(2) by simp
      then show ?thesis using Cons.IH [OF _ _ i(3) rs] Cons.prems(2) by simp
    next
      case b: False
      then have rs: "run_scan ws (i + 1) (Some at) len best_at best_len = (ba, bl)"
        using Cons.prems(4) True by (simp add: at_def [symmetric] len_def [symmetric] Let_def del: One_nat_def)
      have "run_inv gs (i + 1) (Some at) len best_at best_len" using st b True i(2) by simp
      then show ?thesis using Cons.IH [OF _ _ i(3) rs] Cons.prems(2) by simp
    qed
  next
    case False
    have "\<not> (zero_run gs a n \<and> 0 < n \<and> a + n = i + 1)" for a n
    proof
      assume "zero_run gs a n \<and> 0 < n \<and> a + n = i + 1"
      then have "a + (n - 1) = i" "n - 1 < n" "\<forall>k < n. gs ! (a + k) = 0" by (auto simp: zero_run_def)
      then have "gs ! (a + (n - 1)) = 0" "a + (n - 1) = i" by blast+
      then show False using False i(2) by simp
    qed
    then have "run_inv gs (i + 1) None 0 best_at best_len"
      using Cons.prems(1) False i unfolding run_inv_def
      by (auto split: option.splits simp: le_Suc_eq)
    moreover have "run_scan ws (i + 1) None 0 best_at best_len = (ba, bl)" using Cons.prems(4) False by simp
    ultimately show ?thesis using Cons.IH [OF _ _ i(3)] Cons.prems(2) by simp
  qed
qed auto

lemma best_run_spec:
  assumes "best_run gs = (at, n)"
  shows "case at of None \<Rightarrow> \<not> (\<exists>a m. 2 \<le> m \<and> zero_run gs a m)
    | Some a \<Rightarrow> 2 \<le> n \<and> zero_run gs a n \<and> (\<forall>b m. zero_run gs b m \<longrightarrow> m \<le> n \<and> (m = n \<longrightarrow> a \<le> b))"
proof -
  obtain ba bl where r: "run_scan gs 0 None 0 None 0 = (ba, bl)" by fastforce
  have "run_inv gs 0 None 0 None 0" by (auto simp: run_inv_def)
  then obtain ra rl where inv: "run_inv gs (length gs) ra rl ba bl" using run_scan_inv [OF _ _ _ r] by fastforce
  have all: "m \<le> bl \<and> (m = bl \<longrightarrow> the ba \<le> b)" if "zero_run gs b m" "0 < m" for b m
    using inv that by (simp add: run_inv_def zero_run_def)
  have best: "case ba of None \<Rightarrow> bl = 0 | Some b \<Rightarrow> zero_run gs b bl"
    using inv by (auto simp: run_inv_def split: option.splits)
  have an: "at = (if bl < 2 then None else ba)" "n = bl" using assms r by (auto simp: best_run_def)
  show ?thesis
  proof (cases "bl < 2")
    case True
    then show ?thesis using an all by fastforce
  next
    case False
    then obtain b where b: "ba = Some b" using best by (cases ba) auto
    have "m \<le> bl \<and> (m = bl \<longrightarrow> b \<le> c)" if "zero_run gs c m" for c m
      using all [OF that] b False by (cases "m = 0") auto
    then show ?thesis using an b False best by auto
  qed
qed

section \<open>The text printed\<close>

lemma join_colons_drop:
  "i < length gs \<Longrightarrow> join_colons (drop i gs) =
     hex_text (gs ! i) @ (if Suc i < length gs then CHR '':'' # join_colons (drop (Suc i) gs) else [])"
  by (simp add: Cons_nth_drop_Suc [symmetric] join_colons_Cons)

lemma emit_tail:
  assumes "length gs = 8" and "at = Some 0 \<longrightarrow> n \<noteq> 6 \<and> \<not> (n = 5 \<and> gs ! 5 = 0xFFFF)"
    and "\<And>a. at = Some a \<Longrightarrow> a + n \<le> i"
  shows "emit_groups gs at n i = (if 8 \<le> i then [] else (if i = 0 then [] else '':'') @ join_colons (drop i gs))"
  using assms(3)
proof (induction "8 - i" arbitrary: i)
  case (Suc k)
  have "\<not> in_run at n i" using Suc.prems by (auto simp: in_run_def split: option.splits)
  moreover have "emit_groups gs at n (Suc i) =
      (if 8 \<le> Suc i then [] else (if Suc i = 0 then [] else '':'') @ join_colons (drop (Suc i) gs))"
    using Suc.hyps(1) [of "Suc i"] Suc.hyps(2) Suc.prems by fastforce
  ultimately show ?case using Suc.hyps(2) assms(1,2) join_colons_drop [of i gs]
    by (subst emit_groups.simps) (auto simp: hex_text_digits)
qed (simp add: emit_groups.simps)

lemma emit_run:
  assumes "at = Some a" and "a + n \<le> 8" and "a \<le> i" and "i < a + n"
  shows "emit_groups gs at n i = (if i = a then '':'' else []) @ emit_groups gs at n (a + n)"
  using assms(3,4)
proof (induction "a + n - i" arbitrary: i)
  case (Suc k)
  have "in_run at n i" using Suc.prems assms(1) by (simp add: in_run_def)
  then have "emit_groups gs at n i = (if i = a then '':'' else []) @ emit_groups gs at n (i + 1)"
    using assms(1,2) Suc.prems by (subst emit_groups.simps) auto
  moreover have "emit_groups gs at n (i + 1) = emit_groups gs at n (a + n)"
    using Suc.hyps(1) [of "i + 1"] Suc.hyps(2) Suc.prems by (cases "i + 1 = a + n") auto
  ultimately show ?case by simp
qed simp

lemma emit_front:
  assumes "length gs = 8" and "at = Some a" and "a \<le> 8" and "i < a"
  shows "emit_groups gs at n i =
    (if i = 0 then [] else '':'') @ join_colons (take (a - i) (drop i gs)) @ emit_groups gs at n a"
  using assms(4)
proof (induction "a - i" arbitrary: i)
  case (Suc k)
  have take: "take (a - i) (drop i gs) = gs ! i # take (a - Suc i) (drop (Suc i) gs)"
  proof -
    have "drop i gs = gs ! i # drop (Suc i) gs" using Suc.prems assms(1,3) by (simp add: Cons_nth_drop_Suc)
    moreover have "a - i = Suc (a - Suc i)" using Suc.prems by simp
    ultimately show ?thesis by simp
  qed
  have "\<not> in_run at n i" using Suc.prems assms(2) by (simp add: in_run_def)
  then have e: "emit_groups gs at n i = (if i = 0 then [] else '':'') @ hex_text (gs ! i) @ emit_groups gs at n (Suc i)"
    using assms(2,3) Suc.prems by (subst emit_groups.simps) (auto simp: hex_text_digits)
  show ?case
  proof (cases "Suc i = a")
    case True
    then show ?thesis using e take by simp
  next
    case False
    then have "Suc i < a" using Suc.prems by simp
    moreover from this have "take (a - Suc i) (drop (Suc i) gs) \<noteq> []" using assms(1,3) by simp
    ultimately show ?thesis using e take Suc.hyps(1) [of "Suc i"] Suc.hyps(2) by (simp add: join_colons_Cons)
  qed
qed simp

definition dotted :: "UWORD list \<Rightarrow> nat \<Rightarrow> nat \<Rightarrow> bool" where
  "dotted gs a n \<longleftrightarrow> a = 0 \<and> (n = 6 \<or> n = 5 \<and> gs ! 5 = 0xFFFF)"

definition tail_quad :: "UWORD list \<Rightarrow> ULONG" where
  "tail_quad gs = push_bit 16 (ucast (gs ! 6)) OR ucast (gs ! 7)"

definition tail_text :: "UWORD list \<Rightarrow> nat \<Rightarrow> nat \<Rightarrow> string" where
  "tail_text gs a n =
     (if dotted gs a n
      then (if n = 6 then [] else hex_text (gs ! 5) @ '':'') @ ami_format_ip4 (tail_quad gs)
      else join_colons (drop (a + n) gs))"

lemma length_split_words [simp]: "length (split_words addr) = 2 * length addr"
  by (induction addr) (simp_all add: split_words_def)

lemma format_plain:
  assumes "length addr = 4" and "best_run (split_words addr) = (None, n)"
  shows "ami_format_ip6 addr = join_colons (split_words addr)"
  using emit_tail [of "split_words addr" None n 0] assms by (simp add: ami_format_ip6_def)

lemma format_run:
  assumes "length addr = 4" and "best_run (split_words addr) = (Some a, n)" and "a + n \<le> 8" and "2 \<le> n"
  shows "ami_format_ip6 addr = join_colons (take a (split_words addr)) @ ''::'' @ tail_text (split_words addr) a n"
proof -
  define gs where "gs = split_words addr"
  let ?e = "emit_groups gs (Some a) n" and ?f = "if a + n = 8 then '':'' else []"
  have l: "length gs = 8" using assms(1) by (simp add: gs_def)
  have f: "ami_format_ip6 addr = ?e 0 @ ?f" using assms(2) by (simp add: ami_format_ip6_def gs_def)
  have 1: "?e 0 = join_colons (take a gs) @ ?e a"
    using emit_front [OF l refl, of a 0 n] assms(3) by (cases "a = 0") auto
  have 2: "?e a = '':'' @ ?e (a + n)" using emit_run [OF refl, of a n a gs] assms(3,4) by simp
  have 3: "?e (a + n) @ ?f = '':'' @ tail_text gs a n"
  proof (cases "dotted gs a n")
    case False
    then show ?thesis using emit_tail [OF l, of "Some a" n "a + n"] l assms(3,4) by (auto simp: dotted_def tail_text_def)
  next
    case True
    have six: "?e 6 = '':'' @ ami_format_ip4 (tail_quad gs)"
      using True by (subst emit_groups.simps) (auto simp: dotted_def in_run_def tail_quad_def)
    show ?thesis
    proof (cases "n = 6")
      case True
      then show ?thesis using six \<open>dotted gs a n\<close> by (simp add: dotted_def tail_text_def)
    next
      case False
      then have n: "a = 0" "n = 5" using True by (auto simp: dotted_def)
      have "?e 5 = '':'' @ hex_text (gs ! 5) @ ?e 6"
        using n by (subst emit_groups.simps) (simp add: in_run_def hex_text_digits)
      then show ?thesis using six n True by (simp add: tail_text_def)
    qed
  qed
  show ?thesis using f 1 2 3 unfolding gs_def [symmetric] by simp
qed

lemma pack_split: "pack_groups (split_words [a, b, c, d]) = [a, b, c, d]"
proof -
  have m: "(0xFFFF :: ULONG) = mask 16" by (simp add: mask_eq_exp_minus_1)
  have "push_bit 16 (ucast (ucast (drop_bit 16 w) :: UWORD)) OR ucast (ucast (w AND 0xFFFF) :: UWORD) = w" for w :: ULONG
    unfolding m by (rule bit_word_eqI) (auto simp: bit_simps)
  then show ?thesis by (simp add: pack_groups_def split_words_def)
qed

lemma inner_done:
  assumes "parse_start text = Some (gap, s)" and "group_loop [] gap s = Some (xs, gap', [])"
    and "expand_groups xs gap' = Some gs" and "text = [] \<or> \<not> blank (hd text)"
  shows "ami_config_parse_ip6 text wanted = Some (pack_groups gs, None)"
proof -
  have "skip_blanks text = text" using assms(4) skip_blanks_app [of "[]" "text"] by simp
  then show ?thesis using assms(1-3)
    by (simp add: ami_config_parse_ip6_def ami_cfg_parse_ip6_inner_def parse_zone_def parse_prefix_def skip_blanks_def)
qed

lemma group_loop_tail:
  assumes "length gs = 8" and "length acc = a" and "a + n \<le> 8" and "2 \<le> n" and "tail_text gs a n \<noteq> []"
    and v4: "\<And>v. ami_config_parse_ip (ami_format_ip4 v) = Some v \<and> length (ami_format_ip4 v) \<le> 15"
  shows "group_loop acc (Some a) (tail_text gs a n) = Some (acc @ drop (a + n) gs, Some a, []) \<and> \<not> addr_ends (tail_text gs a n)"
proof (cases "dotted gs a n")
  case False
  then have d: "drop (a + n) gs \<noteq> []" using assms(5) by (auto simp: tail_text_def)
  have "addr_ends []" by (simp add: addr_ends_def)
  then have "group_loop acc (Some a) (join_colons (drop (a + n) gs)) = Some (acc @ drop (a + n) gs, Some a, [])"
    using groups_end [OF d, of "[]" acc "Some a"] assms(1-4) by simp
  then show ?thesis using False hd_hex_facts [OF join_colons_hd [OF d, of "[]"]] by (simp add: tail_text_def)
next
  case True
  note q = group_quad [OF _ conjunct1 [OF v4] conjunct2 [OF v4] tail_quad_def [of gs]]
  have last: "drop 6 gs = [gs ! 6, gs ! 7]"
    using assms(1) Cons_nth_drop_Suc [of 6 gs] Cons_nth_drop_Suc [of 7 gs] by simp
  show ?thesis
  proof (cases "n = 6")
    case n: True
    then show ?thesis using True q(1,2) [of acc] assms(2) last by (simp add: tail_text_def dotted_def)
  next
    case False
    then have n: "a = 0" "n = 5" using True by (auto simp: dotted_def)
    have "drop 5 gs = [gs ! 5, gs ! 6, gs ! 7]" using assms(1) Cons_nth_drop_Suc [of 5 gs] last by simp
    then show ?thesis using True n assms(2) q [of "[gs ! 5]"] group_colon [of acc "Some a" "gs ! 5" "ami_format_ip4 (tail_quad gs)"]
        not_ends_text [of "gs ! 5"] by (simp add: tail_text_def)
  qed
qed

lemma hex_not_blank: "ip6_hex_digit c \<noteq> None \<Longrightarrow> \<not> blank c"
  using hex_char by (auto simp: addr_char_def)

lemma parse_plain:
  assumes "length gs = 8"
  shows "ami_config_parse_ip6 (join_colons gs) wanted = Some (pack_groups gs, None)"
proof -
  have ne: "gs \<noteq> []" using assms by auto
  have h: "join_colons gs \<noteq> []" "ip6_hex_digit (hd (join_colons gs)) \<noteq> None" using join_colons_hd [OF ne, of "[]"] by auto
  have "parse_start (join_colons gs) = Some (None, join_colons gs)" using h hd_hex_facts by (auto simp: parse_start_def)
  moreover have "group_loop [] None (join_colons gs) = Some (gs, None, [])"
    using groups_end [OF ne, of "[]" "[]" None] assms by (simp add: addr_ends_def)
  moreover have "expand_groups gs None = Some gs" using assms by (simp add: expand_groups_def)
  ultimately show ?thesis using inner_done hex_not_blank [OF h(2)] by blast
qed

lemma parse_run:
  assumes "length gs = 8" and "zero_run gs a n" and "2 \<le> n"
    and v4: "\<And>v. ami_config_parse_ip (ami_format_ip4 v) = Some v \<and> length (ami_format_ip4 v) \<le> 15"
  shows "ami_config_parse_ip6 (join_colons (take a gs) @ ''::'' @ tail_text gs a n) wanted = Some (pack_groups gs, None)"
proof -
  let ?t = "tail_text gs a n" and ?s = "join_colons (take a gs) @ ''::'' @ tail_text gs a n"
  have a: "a + n \<le> 8" "\<forall>k. a \<le> k \<longrightarrow> k < a + n \<longrightarrow> gs ! k = 0"
    using assms(1,2) by (auto simp: zero_run_def) (metis le_add_diff_inverse less_diff_conv2 add.commute)
  have ex: "expand_groups (take a gs @ drop (a + n) gs) (Some a) = Some gs"
    using expand_gap [OF assms(1) a(1) _ a(2)] assms(3) by simp
  have la: "length (take a gs) = a" using a(1) assms(1) by simp
  have tail: "(if addr_ends ?t then Some (take a gs, Some a, ?t) else group_loop (take a gs) (Some a) ?t) =
      Some (take a gs @ drop (a + n) gs, Some a, [])"
  proof (cases "?t = []")
    case True
    then have "\<not> dotted gs a n" using v4 [of "tail_quad gs"] by (auto simp: tail_text_def ami_config_parse_ip_def split_dotted_def skip_blanks_def)
    then have "drop (a + n) gs = []" using True join_colons_hd(1) [of "drop (a + n) gs" "[]"] by (auto simp: tail_text_def)
    then show ?thesis using True by (simp add: addr_ends_def)
  next
    case False
    then show ?thesis using group_loop_tail [OF assms(1) la a(1) assms(3) False v4] by simp
  qed
  show ?thesis
  proof (cases "a = 0")
    case True
    then have "parse_start ?s = Some (Some 0, ?t)" by (simp add: parse_start_def)
    moreover have "group_loop [] (Some 0) ?t = Some (take a gs @ drop (a + n) gs, Some a, [])"
      using tail True by (cases "addr_ends ?t") (simp_all add: group_loop.simps)
    moreover have "\<not> blank (hd ?s)" using True by (simp add: blank_def)
    ultimately show ?thesis using inner_done ex by blast
  next
    case False
    then have ne: "take a gs \<noteq> []" using assms(1) by auto
    note h = join_colons_hd [OF ne, of "''::'' @ ?t"]
    have "parse_start ?s = Some (None, ?s)" using h hd_hex_facts [OF h] by (simp add: parse_start_def)
    moreover have "group_loop [] None ?s = Some (take a gs @ drop (a + n) gs, Some a, [])"
    proof -
      have p: "length ([] :: UWORD list) + length (take a gs) \<le> 8" using la a(1) by simp
      show ?thesis using groups_gap [OF ne p, of ?t, unfolded append_Nil la] tail by (simp only: append_Cons append_Nil)
    qed
    ultimately show ?thesis using inner_done ex hex_not_blank [OF h(2)] by blast
  qed
qed

lemma join_colons_length: "length (join_colons gs) \<le> 5 * length gs - 1"
proof (induction gs rule: join_colons.induct)
  case (2 g)
  then show ?case using hex_text_length(2) [of g] by simp
next
  case (3 g h gs)
  then show ?case using hex_text_length(2) [of g] by simp
qed simp

lemma run_length:
  assumes "length gs = 8" and "\<And>v. length (ami_format_ip4 v) \<le> 15" and "a + n \<le> 8"
  shows "length (join_colons (take a gs)) + length (tail_text gs a n) \<le> 43"
proof (cases "dotted gs a n")
  case True
  then show ?thesis using hex_text_length(2) [of "gs ! 5"] assms(2) [of "tail_quad gs"]
    by (auto simp: tail_text_def dotted_def)
next
  case False
  have "length (join_colons (take a gs)) \<le> 5 * a - 1" using join_colons_length [of "take a gs"] assms(1,3) by simp
  moreover have "length (tail_text gs a n) \<le> 5 * (8 - (a + n)) - 1"
    using False join_colons_length [of "drop (a + n) gs"] assms(1) by (simp add: tail_text_def)
  ultimately show ?thesis using assms(3) by linarith
qed

text \<open>
  C36. Every IPv6 address survives the trip through text: what \<^verbatim>\<open>ami_format_ip6\<close> prints,
  \<^verbatim>\<open>ami_config_parse_ip6\<close> reads back as the same four longwords and no prefix length, for both
  dialects of the reader; and the text with its terminator fits \<^verbatim>\<open>AMI_CFG_IP6_STRLEN\<close>.
\<close>

theorem cfg_ip6_roundtrip:
  "ami_config_parse_ip6 (ami_format_ip6 [a, b, c, d]) wanted = Some ([a, b, c, d], None) \<and>
   length (ami_format_ip6 [a, b, c, d]) + 1 \<le> 46"
proof -
  define gs where "gs = split_words [a, b, c, d]"
  have l: "length gs = 8" by (simp add: gs_def)
  have v4: "ami_config_parse_ip (ami_format_ip4 v) = Some v \<and> length (ami_format_ip4 v) \<le> 15" for v
    using ip4_roundtrip [of v] by simp
  have pk: "pack_groups gs = [a, b, c, d]" unfolding gs_def by (rule pack_split)
  obtain at n where br: "best_run gs = (at, n)" by fastforce
  note spec = best_run_spec [OF br]
  show ?thesis
  proof (cases at)
    case None
    then have f: "ami_format_ip6 [a, b, c, d] = join_colons gs" using format_plain br by (simp add: gs_def)
    show ?thesis unfolding f using parse_plain [OF l] pk join_colons_length [of gs] l by simp
  next
    case (Some x)
    then have z: "zero_run gs x n" "2 \<le> n" "x + n \<le> 8" using spec l by (auto simp: zero_run_def)
    have f: "ami_format_ip6 [a, b, c, d] = join_colons (take x gs) @ ''::'' @ tail_text gs x n"
      using format_run [of "[a, b, c, d]" x n] br Some z by (simp add: gs_def)
    have "length (ami_format_ip6 [a, b, c, d]) + 1 \<le> 46"
      using run_length [OF l _ z(3)] v4 unfolding f by simp
    then show ?thesis unfolding f using parse_run [OF l z(1,2) v4] pk by simp
  qed
qed

text \<open>
  C38. The text \<^verbatim>\<open>ami_format_ip6\<close> prints is the one RFC 5952 4 asks for: lower-case hexadecimal groups without
  leading zeroes joined by colons, with the longest run of two or more zero groups, the leftmost of
  equals, written as a double colon, and no run written so when there is none. The tail of an
  IPv4-mapped or IPv4-compatible address is a dotted quad.
\<close>

theorem cfg_ip6_canonical:
  "let gs = split_words [a, b, c, d]; s = ami_format_ip6 [a, b, c, d]
   in case best_run gs of
        (None, n) \<Rightarrow> s = join_colons gs \<and> \<not> (\<exists>x m. 2 \<le> m \<and> zero_run gs x m)
      | (Some x, n) \<Rightarrow> s = join_colons (take x gs) @ ''::'' @ tail_text gs x n \<and> 2 \<le> n \<and> zero_run gs x n \<and>
          \<not> (\<exists>y m. zero_run gs y m \<and> (n < m \<or> m = n \<and> y < x))"
proof -
  define gs where "gs = split_words [a, b, c, d]"
  obtain at n where br: "best_run gs = (at, n)" by fastforce
  note spec = best_run_spec [OF br]
  show ?thesis
  proof (cases at)
    case None
    then show ?thesis using br spec format_plain [of "[a, b, c, d]" n] by (simp add: gs_def)
  next
    case (Some x)
    then have z: "2 \<le> n" "zero_run gs x n" "\<And>y m. zero_run gs y m \<Longrightarrow> m \<le> n \<and> (m = n \<longrightarrow> x \<le> y)"
      using spec by auto
    then have "x + n \<le> 8" by (simp add: zero_run_def gs_def)
    then have f: "ami_format_ip6 [a, b, c, d] = join_colons (take x gs) @ ''::'' @ tail_text gs x n"
      using format_run [of "[a, b, c, d]" x n] br Some z by (simp add: gs_def)
    have "\<not> (\<exists>y m. zero_run gs y m \<and> (n < m \<or> m = n \<and> y < x))" using z(3) by (metis leD)
    then show ?thesis using f br Some z(1,2) unfolding gs_def [symmetric] by (simp add: Let_def)
  qed
qed

end
