(* ===== verification/Cfg_Buffer.thy ===== *)
theory Cfg_Buffer
  imports Cfg_Text
begin

text \<open>
  The readers of \<^verbatim>\<open>src/config/config_text.c\<close> that cut a line up in place: lines, trimming, comments,
  quoted items, tokens and \<^verbatim>\<open>key=value\<close> pairs.

  The buffer is a list of characters with its NULs, a \<^verbatim>\<open>char *\<close> is an index into it, and every
  access is checked: \<open>None\<close> is an access outside the buffer. A function that returns a pointer
  or \<^verbatim>\<open>NULL\<close> returns an \<open>option\<close> inside the result.
\<close>

abbreviation NUL :: char where "NUL \<equiv> CHR 0x00"
abbreviation QUOTE :: char where "QUOTE \<equiv> CHR 0x22"

definition wr :: "'a list \<Rightarrow> nat \<Rightarrow> 'a \<Rightarrow> 'a list option" where
  "wr xs i v = (if i < length xs then Some (xs[i := v]) else None)"

lemma rd_less: "rd xs i = Some v \<Longrightarrow> i < length xs"
  by (simp add: rd_def split: if_splits)

lemma wr_length: "wr xs i v = Some ys \<Longrightarrow> length ys = length xs"
  by (auto simp: wr_def split: if_splits)

section \<open>Lines\<close>

function skip_while :: "(char \<Rightarrow> bool) \<Rightarrow> string \<Rightarrow> nat \<Rightarrow> nat option" where
  "skip_while P mem p =
     (case rd mem p of None \<Rightarrow> None | Some c \<Rightarrow> if c \<noteq> NUL \<and> P c then skip_while P mem (p + 1) else Some p)"
  by pat_completeness auto
termination by (relation "measure (\<lambda>(P, mem, p). length mem - p)") (auto dest: rd_less)

declare skip_while.simps [simp del]

definition ami_cfg_strlen :: "string \<Rightarrow> nat \<Rightarrow> nat option" where
  "ami_cfg_strlen mem s = map_option (\<lambda>p. p - s) (skip_while (\<lambda>c. True) mem s)"

fun ami_cfg_zero :: "string \<Rightarrow> nat \<Rightarrow> nat \<Rightarrow> string option" where
  "ami_cfg_zero mem b 0 = Some mem"
| "ami_cfg_zero mem b (Suc len) = Option.bind (wr mem b NUL) (\<lambda>mem. ami_cfg_zero mem (b + 1) len)"

text \<open>The line, \<open>None\<close> at the end; the cursor and the buffer after it.\<close>

definition ami_cfg_next_line :: "string \<Rightarrow> nat \<Rightarrow> (string \<times> nat \<times> nat option) option" where
  "ami_cfg_next_line mem cursor =
     do {
       c \<leftarrow> rd mem cursor;
       if c = NUL then Some (mem, cursor, None)
       else do {
         p \<leftarrow> skip_while (\<lambda>c. c \<noteq> CHR 0x0A \<and> c \<noteq> CHR 0x0D) mem cursor;
         c \<leftarrow> rd mem p;
         if c = NUL then Some (mem, p, Some cursor)
         else do {
           mem \<leftarrow> wr mem p NUL;
           d \<leftarrow> rd mem (p + 1);
           Some (mem, if c = CHR 0x0D \<and> d = CHR 0x0A \<or> c = CHR 0x0A \<and> d = CHR 0x0D then p + 2 else p + 1, Some cursor)
         }
       }
     }"

definition trim_char :: "char \<Rightarrow> bool" where
  "trim_char c \<longleftrightarrow> c = CHR '' '' \<or> c = CHR 0x09 \<or> c = CHR 0x0C \<or> c = CHR 0x0B"

fun trim_end :: "string \<Rightarrow> nat \<Rightarrow> nat \<Rightarrow> nat option" where
  "trim_end mem s 0 = Some 0"
| "trim_end mem s (Suc e) =
     (if s < Suc e
      then case rd mem e of
             None \<Rightarrow> None
           | Some c \<Rightarrow> if \<not> trim_char c \<and> c \<noteq> CHR 0x0D then Some (Suc e) else trim_end mem s e
      else Some (Suc e))"

definition ami_cfg_trim :: "string \<Rightarrow> nat \<Rightarrow> (string \<times> nat) option" where
  "ami_cfg_trim mem s =
     do {
       s \<leftarrow> skip_while trim_char mem s;
       n \<leftarrow> ami_cfg_strlen mem s;
       e \<leftarrow> trim_end mem s (s + n);
       mem \<leftarrow> wr mem e NUL;
       Some (mem, s)
     }"

function strip_loop :: "string \<Rightarrow> string \<Rightarrow> bool \<Rightarrow> nat \<Rightarrow> string option" where
  "strip_loop mem chars in_quotes s =
     (case rd mem s of
        None \<Rightarrow> None
      | Some c \<Rightarrow>
          if c = NUL then Some mem
          else if c = QUOTE then strip_loop mem chars (\<not> in_quotes) (s + 1)
          else if in_quotes
          then if c = CHR ''*''
               then case rd mem (s + 1) of
                      None \<Rightarrow> None
                    | Some d \<Rightarrow> if d \<noteq> NUL then strip_loop mem chars in_quotes (s + 2)
                                else strip_loop mem chars in_quotes (s + 1)
               else strip_loop mem chars in_quotes (s + 1)
          else if c \<in> set chars then wr mem s NUL
          else strip_loop mem chars in_quotes (s + 1))"
  by pat_completeness auto
termination by (relation "measure (\<lambda>(mem, chars, q, s). length mem - s)") (auto dest: rd_less)

declare strip_loop.simps [simp del]

definition ami_cfg_strip_comment :: "string \<Rightarrow> nat \<Rightarrow> string \<Rightarrow> string option" where
  "ami_cfg_strip_comment mem s chars = strip_loop mem chars False s"

section \<open>Quoted items\<close>

definition escape :: "char \<Rightarrow> char" where
  "escape d = (if d = CHR ''n'' \<or> d = CHR ''N'' then CHR 0x0A
               else if d = CHR ''e'' \<or> d = CHR ''E'' then CHR 0x1B else d)"

function unquote_loop :: "string \<Rightarrow> nat \<Rightarrow> nat \<Rightarrow> (string \<times> nat \<times> nat) option" where
  "unquote_loop mem p out =
     (case rd mem p of
        None \<Rightarrow> None
      | Some c \<Rightarrow>
          if c = NUL \<or> c = QUOTE then Some (mem, p, out)
          else if c = CHR ''*''
          then case rd mem (p + 1) of
                 None \<Rightarrow> None
               | Some d \<Rightarrow>
                   if d \<noteq> NUL
                   then (case wr mem out (escape d) of None \<Rightarrow> None | Some mem' \<Rightarrow> unquote_loop mem' (p + 2) (out + 1))
                   else (case wr mem out c of None \<Rightarrow> None | Some mem' \<Rightarrow> unquote_loop mem' (p + 1) (out + 1))
          else case wr mem out c of None \<Rightarrow> None | Some mem' \<Rightarrow> unquote_loop mem' (p + 1) (out + 1))"
  by pat_completeness auto
termination
  by (relation "measure (\<lambda>(mem, p, out). length mem - p)") (auto dest!: rd_less wr_length)

declare unquote_loop.simps [simp del]

definition unquote_content :: "string \<Rightarrow> nat \<Rightarrow> nat \<Rightarrow> (string \<times> nat) option" where
  "unquote_content mem p out =
     do {
       (mem, p, out) \<leftarrow> unquote_loop mem p out;
       c \<leftarrow> rd mem p;
       mem \<leftarrow> wr mem out NUL;
       Some (mem, if c = QUOTE then p + 1 else p)
     }"

definition ami_cfg_unquote :: "string \<Rightarrow> nat \<Rightarrow> string option" where
  "ami_cfg_unquote mem s =
     do {
       c \<leftarrow> rd mem s;
       if c = QUOTE then map_option fst (unquote_content mem (s + 1) s) else Some mem
     }"

text \<open>The item, \<open>None\<close> when the line is exhausted; the cursor and the buffer after it.\<close>

definition scan_item :: "string \<Rightarrow> nat \<Rightarrow> (string \<times> nat \<times> nat option) option" where
  "scan_item mem cursor =
     do {
       p \<leftarrow> skip_while blank mem cursor;
       c \<leftarrow> rd mem p;
       if c = NUL then Some (mem, p, None)
       else if c = QUOTE then do {
         (mem, q) \<leftarrow> unquote_content mem (p + 1) (p + 1);
         Some (mem, q, Some (p + 1))
       }
       else do {
         q \<leftarrow> skip_while (\<lambda>c. \<not> blank c) mem p;
         c \<leftarrow> rd mem q;
         if c \<noteq> NUL then do { mem \<leftarrow> wr mem q NUL; Some (mem, q + 1, Some p) }
         else Some (mem, q, Some p)
       }
     }"

fun tokenize_loop :: "nat \<Rightarrow> string \<Rightarrow> nat \<Rightarrow> (string \<times> nat list) option" where
  "tokenize_loop 0 mem line = Some (mem, [])"
| "tokenize_loop (Suc n) mem line =
     (case scan_item mem line of
        None \<Rightarrow> None
      | Some (mem, line, None) \<Rightarrow> Some (mem, [])
      | Some (mem, line, Some item) \<Rightarrow>
          map_option (\<lambda>(mem, ts). (mem, item # ts)) (tokenize_loop n mem line))"

definition ami_cfg_tokenize :: "string \<Rightarrow> nat \<Rightarrow> nat \<Rightarrow> (string \<times> nat list) option" where
  "ami_cfg_tokenize mem line max_tokens = tokenize_loop max_tokens mem line"

text \<open>
  \<^verbatim>\<open>FALSE\<close> is \<open>None\<close> inside; otherwise the key and the value, \<open>None\<close> standing for the address of the
  empty string the code keeps for a value that is not there.
\<close>

definition ami_cfg_next_pair :: "string \<Rightarrow> nat \<Rightarrow> (string \<times> nat \<times> (nat \<times> nat option) option) option" where
  "ami_cfg_next_pair mem cursor =
     do {
       k \<leftarrow> skip_while blank mem cursor;
       c \<leftarrow> rd mem k;
       if c = NUL then Some (mem, k, None)
       else do {
         kend \<leftarrow> skip_while (\<lambda>c. \<not> blank c \<and> c \<noteq> CHR ''='') mem k;
         p \<leftarrow> skip_while blank mem kend;
         c \<leftarrow> rd mem p;
         p \<leftarrow> (if c = CHR ''='' then skip_while blank mem (p + 1) else Some p);
         mem \<leftarrow> wr mem kend NUL;
         (mem, p, item) \<leftarrow> scan_item mem p;
         Some (mem, p, Some (k, item))
       }
     }"

end
