(* ===== verification/Cfg_Buffer_Correct.thy ===== *)
theory Cfg_Buffer_Correct
  imports Cfg_Buffer
begin

text \<open>
  The in-place readers against readers of plain strings: no access leaves the buffer, the pieces
  handed out are NUL-terminated strings inside it with the right contents, later pieces do not
  disturb earlier ones although the cutting and the unquoting write over the line, and nothing
  outside the line changes.
\<close>

section \<open>Strings in the buffer\<close>

fun cstr :: "string \<Rightarrow> nat \<Rightarrow> string \<Rightarrow> bool" where
  "cstr mem p [] \<longleftrightarrow> rd mem p = Some NUL"
| "cstr mem p (c # s) \<longleftrightarrow> c \<noteq> NUL \<and> rd mem p = Some c \<and> cstr mem (Suc p) s"

lemma cstr_cong:
  "(\<And>i. p \<le> i \<Longrightarrow> i \<le> p + length s \<Longrightarrow> rd mem' i = rd mem i) \<Longrightarrow> cstr mem' p s = cstr mem p s"
proof (induction s arbitrary: p)
  case (Cons c s)
  have "cstr mem' (Suc p) s = cstr mem (Suc p) s" using Cons.prems by (intro Cons.IH) simp
  then show ?case using Cons.prems [of p] by simp
qed simp

lemma cstr_append: "cstr mem p (s @ t) \<Longrightarrow> cstr mem (p + length s) t"
proof (induction s arbitrary: p)
  case (Cons c s)
  then show ?case using Cons.IH [of "Suc p"] by simp
qed simp

lemma cstr_prefix: "cstr mem p (s @ t) \<Longrightarrow> i < length s \<Longrightarrow> rd mem (p + i) = Some (s ! i)"
proof (induction s arbitrary: p i)
  case (Cons c s)
  then show ?case using Cons.IH [of "Suc p" "i - 1"] by (cases i) auto
qed simp

lemma cstr_end: "cstr mem p s \<Longrightarrow> rd mem (p + length s) = Some NUL"
  using cstr_append [of mem p s "[]"] by simp

lemma cstr_rd: "cstr mem p s \<Longrightarrow> rd mem p = Some (case s of [] \<Rightarrow> NUL | c # _ \<Rightarrow> c)"
  by (cases s) auto

lemma cstr_nul_free: "cstr mem p s \<Longrightarrow> NUL \<notin> set s"
  by (induction s arbitrary: p) auto

lemma cstr_piece:
  assumes "NUL \<notin> set s" and "\<And>i. i < length s \<Longrightarrow> rd mem (p + i) = Some (s ! i)" and "rd mem (p + length s) = Some NUL"
  shows "cstr mem p s"
  using assms
proof (induction s arbitrary: p)
  case (Cons c s)
  have "rd mem (Suc p + i) = Some (s ! i)" if "i < length s" for i using Cons.prems(2) [of "Suc i"] that by simp
  then have "cstr mem (Suc p) s" using Cons.prems(1,3) by (intro Cons.IH) auto
  then show ?case using Cons.prems(1) Cons.prems(2) [of 0] by auto
qed simp

lemma rd_wr:
  assumes "wr mem j v = Some mem'"
  shows "rd mem' i = (if i = j then Some v else rd mem i)"
  using assms by (auto simp: wr_def rd_def split: if_splits)

lemma wr_ex: "rd mem i = Some c \<Longrightarrow> j \<le> i \<Longrightarrow> \<exists>mem'. wr mem j v = Some mem'"
  by (auto simp: rd_def wr_def split: if_splits)

lemma skip_while_cstr:
  "cstr mem p s \<Longrightarrow> skip_while P mem p = Some (p + length (takeWhile P s)) \<and>
     cstr mem (p + length (takeWhile P s)) (dropWhile P s)"
proof (induction s arbitrary: p)
  case Nil
  then show ?case by (simp add: skip_while.simps [of P mem p])
next
  case (Cons c s)
  then show ?case using Cons.IH [of "Suc p"] by (simp add: skip_while.simps [of P mem p])
qed

section \<open>Items of a string\<close>

fun unq :: "string \<Rightarrow> string \<times> string" where
  "unq [] = ([], [])"
| "unq (c # s) =
     (if c = QUOTE then ([], s)
      else if c = CHR ''*''
      then (case s of [] \<Rightarrow> ([c], []) | d # t \<Rightarrow> (escape d # fst (unq t), snd (unq t)))
      else (c # fst (unq s), snd (unq s)))"

definition item :: "string \<Rightarrow> (string \<times> string) option" where
  "item s = (case dropWhile blank s of
     [] \<Rightarrow> None
   | c # t \<Rightarrow> if c = QUOTE then Some (unq t)
              else Some (takeWhile (\<lambda>c. \<not> blank c) (c # t), drop 1 (dropWhile (\<lambda>c. \<not> blank c) (c # t))))"

fun tokens :: "nat \<Rightarrow> string \<Rightarrow> string list" where
  "tokens 0 s = []"
| "tokens (Suc n) s = (case item s of None \<Rightarrow> [] | Some (t, r) \<Rightarrow> t # tokens n r)"

definition pair :: "string \<Rightarrow> (string \<times> string option \<times> string) option" where
  "pair s = (let t = dropWhile blank s; is_key = (\<lambda>c. \<not> blank c \<and> c \<noteq> CHR ''='')
     in if t = [] then None
        else let u = dropWhile blank (dropWhile is_key t);
                 v = (if u \<noteq> [] \<and> hd u = CHR ''='' then dropWhile blank (tl u) else u)
             in case item v of
                  None \<Rightarrow> Some (takeWhile is_key t, None, [])
                | Some (x, r) \<Rightarrow> Some (takeWhile is_key t, Some x, r))"

lemma escape_not_nul: "d \<noteq> NUL \<Longrightarrow> escape d \<noteq> NUL"
  by (simp add: escape_def)

text \<open>
  From \<open>p\<close> and \<open>out\<close> to \<open>p'\<close> and \<open>out'\<close>: the content of \<open>s\<close> is at \<open>out\<close>, the rest of \<open>s\<close> is after
  the closing quote at \<open>p'\<close>, and nothing else has changed.
\<close>

definition unquoted :: "string \<Rightarrow> nat \<Rightarrow> string \<Rightarrow> nat \<Rightarrow> string \<Rightarrow> nat \<Rightarrow> nat \<Rightarrow> bool" where
  "unquoted mem p s out mem' p' out' \<longleftrightarrow>
     out' = out + length (fst (unq s)) \<and> out' \<le> p' \<and> p \<le> p' \<and>
     (\<forall>i < length (fst (unq s)). rd mem' (out + i) = Some (fst (unq s) ! i)) \<and> NUL \<notin> set (fst (unq s)) \<and>
     (\<forall>i. i < out \<or> p' \<le> i \<longrightarrow> rd mem' i = rd mem i) \<and>
     (rd mem p' = Some QUOTE \<and> p' + 1 + length (snd (unq s)) = p + length s \<and> cstr mem (p' + 1) (snd (unq s)) \<or>
      rd mem p' = Some NUL \<and> snd (unq s) = [] \<and> p' = p + length s)"

lemma unquoted_step:
  assumes "unquoted mem1 (p + k) t (out + 1) mem' p' out'" and "wr mem out v = Some mem1" and "out \<le> p" and "0 < k"
    and "unq s = (v # fst (unq t), snd (unq t))" and "k + length t = length s" and "v \<noteq> NUL"
  shows "unquoted mem p s out mem' p' out'"
proof -
  have same: "rd mem1 i = rd mem i" if "i \<noteq> out" for i using rd_wr [OF assms(2), of i] that by simp
  note u = assms(1) [unfolded unquoted_def]
  have p': "out < p'" using u assms(3,4) by linarith
  have here: "rd mem' out = Some v" using u rd_wr [OF assms(2), of out] by simp
  have 1: "rd mem' (out + i) = Some ((v # fst (unq t)) ! i)" if "i < length (v # fst (unq t))" for i
    using u here that by (cases i) auto
  have 2: "cstr mem1 (p' + 1) r = cstr mem (p' + 1) r" for r using p' same by (intro cstr_cong) auto
  have 3: "rd mem' i = rd mem i" if "i < out \<or> p' \<le> i" for i using u same [of i] p' that by auto
  have 4: "rd mem1 p' = rd mem p'" using same p' by simp
  have 5: "p + length s = p + k + length t" using assms(6) by simp
  have 6: "rd mem p' = Some QUOTE \<and> p' + 1 + length (snd (unq t)) = p + k + length t \<and> cstr mem (p' + 1) (snd (unq t)) \<or>
      rd mem p' = Some NUL \<and> snd (unq t) = [] \<and> p' = p + k + length t"
    using u unfolding 2 4 by blast
  have 7: "out' = out + length (v # fst (unq t))" "out' \<le> p'" "p \<le> p'" "NUL \<notin> set (v # fst (unq t))"
    using u assms(7) by auto
  show ?thesis unfolding unquoted_def assms(5) fst_conv snd_conv 5 using 1 3 6 7 by blast
qed

lemma unquote_loop_cstr:
  "cstr mem p s \<Longrightarrow> out \<le> p \<Longrightarrow>
   \<exists>mem' p' out'. unquote_loop mem p out = Some (mem', p', out') \<and> unquoted mem p s out mem' p' out'"
proof (induction s arbitrary: mem p out rule: unq.induct)
  case 1
  then show ?case by (simp add: unquote_loop.simps [of mem p out] unquoted_def)
next
  case (2 c s)
  have c: "c \<noteq> NUL" "rd mem p = Some c" "cstr mem (p + 1) s" using 2(5) by auto
  obtain mem1 where w: "wr mem out c = Some mem1" using wr_ex [OF c(2) 2(6)] by blast
  have keep: "cstr m (p + k) t = cstr mem (p + k) t" if "wr mem out v = Some m" "0 < k" for m v k t
    using that 2(6) rd_wr [OF that(1)] by (intro cstr_cong) auto
  consider (quote) "c = QUOTE" | (plain) "c \<noteq> QUOTE" "c \<noteq> CHR ''*''" | (star) "c = CHR ''*''" "s = []"
    | (esc) d t where "c = CHR ''*''" "s = d # t" by (cases s) auto
  then show ?case
  proof cases
    case quote
    then show ?thesis using c 2(6) by (simp add: unquote_loop.simps [of mem p out] unquoted_def)
  next
    case plain
    then obtain mem' p' out' where r: "unquote_loop mem1 (p + 1) (out + 1) = Some (mem', p', out')"
        "unquoted mem1 (p + 1) s (out + 1) mem' p' out'"
      using 2(3) [of mem1 "p + 1" "out + 1"] keep [OF w, of 1] c(3) 2(6) by auto
    have "unquoted mem p (c # s) out mem' p' out'"
      by (rule unquoted_step [OF r(2) w 2(6)]) (use plain c in auto)
    then show ?thesis using r(1) plain c w by (simp add: unquote_loop.simps [of mem p out])
  next
    case star
    then have r: "unquote_loop mem1 (p + 1) (out + 1) = Some (mem1, p + 1, out + 1)" "unquoted mem1 (p + 1) [] (out + 1) mem1 (p + 1) (out + 1)"
      using c(3) keep [OF w, of 1 "[]"] 2(6) by (simp_all add: unquote_loop.simps [of mem1 "Suc p"] unquoted_def)
    have "unquoted mem p (c # s) out mem1 (p + 1) (out + 1)"
      by (rule unquoted_step [OF r(2) w 2(6)]) (use star c in auto)
    then show ?thesis using r(1) star c w by (simp add: unquote_loop.simps [of mem p out])
  next
    case esc
    then have d: "d \<noteq> NUL" "rd mem (p + 1) = Some d" "cstr mem (p + 2) t" using c(3) by auto
    obtain m where m: "wr mem out (escape d) = Some m" using wr_ex [OF c(2) 2(6)] by blast
    obtain mem' p' out' where r: "unquote_loop m (p + 2) (out + 1) = Some (mem', p', out')"
        "unquoted m (p + 2) t (out + 1) mem' p' out'"
      using 2(1) [of d t m "p + 2" "out + 1"] keep [OF m, of 2] d(3) 2(6) esc by auto
    have "unquoted mem p (c # s) out mem' p' out'"
      by (rule unquoted_step [OF r(2) m 2(6)]) (use esc escape_not_nul [OF d(1)] in auto)
    then show ?thesis using r(1) esc c d m by (simp add: unquote_loop.simps [of mem p out])
  qed
qed

lemma unquote_content_cstr:
  assumes "cstr mem p s" and "out \<le> p"
  shows "\<exists>mem' q. unquote_content mem p out = Some (mem', q) \<and> cstr mem' out (fst (unq s)) \<and> cstr mem' q (snd (unq s)) \<and>
    q + length (snd (unq s)) = p + length s \<and> p \<le> q \<and>
    (out + length (fst (unq s)) < q \<or> snd (unq s) = [] \<and> out + length (fst (unq s)) \<le> q) \<and>
    (\<forall>i. i < out \<or> q \<le> i \<longrightarrow> rd mem' i = rd mem i)"
proof -
  obtain m p' out' where l: "unquote_loop mem p out = Some (m, p', out')" and "unquoted mem p s out m p' out'"
    using unquote_loop_cstr [OF assms] by blast
  note u = this(2) [unfolded unquoted_def]
  have same: "rd m p' = rd mem p'" using u by blast
  obtain c where c: "rd m p' = Some c" "c = QUOTE \<or> c = NUL" using u unfolding same by auto
  obtain mem' where w: "wr m out' NUL = Some mem'" using wr_ex [OF c(1)] u by blast
  define q where "q = (if c = QUOTE then p' + 1 else p')"
  have r: "unquote_content mem p out = Some (mem', q)" using l c w by (simp add: unquote_content_def q_def)
  have w': "rd mem' i = (if i = out' then Some NUL else rd m i)" for i by (rule rd_wr [OF w])
  have past: "rd mem' i = rd m i" if "q \<le> i" for i
    using that u c w' [of i] by (auto simp: q_def split: if_splits)
  have frame: "rd mem' i = rd mem i" if "i < out \<or> q \<le> i" for i
    using that u w' [of i] past [of i] by (auto simp: q_def split: if_splits)
  have "cstr mem' out (fst (unq s))"
    using u w' by (intro cstr_piece) auto
  moreover have "cstr mem' q (snd (unq s))"
  proof -
    have "cstr mem' q (snd (unq s)) = cstr mem q (snd (unq s))" using frame by (intro cstr_cong) auto
    then show ?thesis using u c unfolding same by (auto simp: q_def)
  qed
  moreover have "q + length (snd (unq s)) = p + length s" "p \<le> q"
    "out + length (fst (unq s)) < q \<or> snd (unq s) = [] \<and> out + length (fst (unq s)) \<le> q"
    using u c unfolding same by (auto simp: q_def)
  ultimately show ?thesis using r frame by blast
qed

lemma scan_item_cstr:
  assumes "cstr mem p s"
  shows "case item s of
     None \<Rightarrow> \<exists>q. scan_item mem p = Some (mem, q, None) \<and> cstr mem q []
   | Some (t, r) \<Rightarrow> \<exists>mem' q a. scan_item mem p = Some (mem', q, Some a) \<and> cstr mem' a t \<and> cstr mem' q r \<and>
       p \<le> a \<and> p \<le> q \<and> (a + length t < q \<or> r = [] \<and> a + length t \<le> q) \<and> q + length r = p + length s \<and>
       (\<forall>i. i < p \<or> q \<le> i \<longrightarrow> rd mem' i = rd mem i)"
proof -
  define b where "b = p + length (takeWhile blank s)"
  have k: "skip_while blank mem p = Some b" "cstr mem b (dropWhile blank s)"
    using skip_while_cstr [OF assms] by (simp_all add: b_def)
  have len: "b + length (dropWhile blank s) = p + length s"
    by (simp add: b_def flip: length_append)
  show ?thesis
  proof (cases "dropWhile blank s")
    case Nil
    then show ?thesis using k unfolding item_def Nil by (simp add: scan_item_def)
  next
    case (Cons c t)
    then have c: "c \<noteq> NUL" "rd mem b = Some c" "cstr mem (b + 1) t" using k(2) by auto
    show ?thesis
    proof (cases "c = QUOTE")
      case True
      obtain mem' q where u: "unquote_content mem (b + 1) (b + 1) = Some (mem', q)" "cstr mem' (b + 1) (fst (unq t))"
        "cstr mem' q (snd (unq t))" "q + length (snd (unq t)) = b + 1 + length t" "b + 1 \<le> q"
        "b + 1 + length (fst (unq t)) < q \<or> snd (unq t) = [] \<and> b + 1 + length (fst (unq t)) \<le> q"
        "\<forall>i. i < b + 1 \<or> q \<le> i \<longrightarrow> rd mem' i = rd mem i"
        using unquote_content_cstr [OF c(3) order_refl] by blast
      have "scan_item mem p = Some (mem', q, Some (b + 1))" using k c True u(1) by (simp add: scan_item_def)
      moreover have "item s = Some (fst (unq t), snd (unq t))" using Cons True by (simp add: item_def)
      moreover have "p \<le> b" by (simp add: b_def)
      ultimately show ?thesis using u len Cons by auto
    next
      case False
      define w rest q where "w = takeWhile (\<lambda>c. \<not> blank c) (c # t)" and "rest = dropWhile (\<lambda>c. \<not> blank c) (c # t)" and "q = b + length w"
      have sk: "skip_while (\<lambda>c. \<not> blank c) mem b = Some q" "cstr mem q rest"
        using skip_while_cstr [OF k(2), of "\<lambda>c. \<not> blank c"] Cons by (simp_all add: q_def w_def rest_def)
      have it: "item s = Some (w, drop 1 rest)" using Cons False by (simp add: item_def w_def rest_def)
      have wl: "length w + length rest = length (c # t)" unfolding w_def rest_def by (metis length_append takeWhile_dropWhile_id)
      have all: "cstr mem b (w @ rest)" using k(2) Cons by (simp add: w_def rest_def)
      have wc: "NUL \<notin> set w" "\<And>i. i < length w \<Longrightarrow> rd mem (b + i) = Some (w ! i)"
        using cstr_nul_free [OF all] cstr_prefix [OF all] by auto
      have pb: "p \<le> b" "p \<le> q" by (simp_all add: b_def q_def)
      show ?thesis
      proof (cases rest)
        case Nil
        have "scan_item mem p = Some (mem, q, Some b)" using k c False sk Nil by (simp add: scan_item_def)
        moreover have "cstr mem b w" using all Nil by simp
        ultimately show ?thesis using it sk(2) Nil pb wl len Cons by (auto simp: q_def)
      next
        case (Cons d u)
        then have d: "d \<noteq> NUL" "rd mem q = Some d" "cstr mem (q + 1) u" using sk(2) by auto
        obtain mem' where w: "wr mem q NUL = Some mem'" using wr_ex [OF d(2) order_refl] by blast
        have r: "rd mem' i = (if i = q then Some NUL else rd mem i)" for i by (rule rd_wr [OF w])
        have "scan_item mem p = Some (mem', q + 1, Some b)" using k c False sk d w by (simp add: scan_item_def)
        moreover have "cstr mem' b w" using wc r by (intro cstr_piece) (auto simp: q_def)
        moreover have "cstr mem' (q + 1) u" using d(3) r by (subst cstr_cong [of _ _ mem' mem]) auto
        ultimately show ?thesis using it Cons pb wl len \<open>dropWhile blank s = c # t\<close> r by (auto simp: q_def)
      qed
    qed
  qed
qed

section \<open>Tokens and pairs\<close>

lemma tokenize_cstr:
  "cstr mem p s \<Longrightarrow>
   \<exists>mem' ps. tokenize_loop n mem p = Some (mem', ps) \<and> list_all2 (cstr mem') ps (tokens n s) \<and>
     (\<forall>i. i < p \<or> p + length s \<le> i \<longrightarrow> rd mem' i = rd mem i)"
proof (induction n arbitrary: mem p s)
  case (Suc n)
  note sc = scan_item_cstr [OF Suc.prems]
  show ?case
  proof (cases "item s")
    case None
    then show ?thesis using sc by auto
  next
    case (Some tr)
    obtain t r where tr: "tr = (t, r)" by (cases tr)
    obtain m q a where m: "scan_item mem p = Some (m, q, Some a)" "cstr m a t" "cstr m q r" "p \<le> a" "p \<le> q"
      "a + length t < q \<or> r = [] \<and> a + length t \<le> q" "q + length r = p + length s"
      "\<forall>i. i < p \<or> q \<le> i \<longrightarrow> rd m i = rd mem i"
      using sc Some tr by auto
    obtain mem' ps where IH: "tokenize_loop n m q = Some (mem', ps)" "list_all2 (cstr mem') ps (tokens n r)"
      "\<forall>i. i < q \<or> q + length r \<le> i \<longrightarrow> rd mem' i = rd m i"
      using Suc.IH [OF m(3)] by blast
    have "cstr mem' a t = cstr m a t" using IH(3) m(6) by (intro cstr_cong) auto
    moreover have "rd mem' i = rd mem i" if "i < p \<or> p + length s \<le> i" for i
      using that IH(3) m(5,7,8) by auto
    ultimately show ?thesis using Some tr m IH by auto
  qed
qed simp

text \<open>
  C37. \<^verbatim>\<open>ami_cfg_tokenize\<close> cuts a line up in place without harm. On any NUL-terminated line in a
  buffer it makes no access outside the buffer; the pointers it stores are, in order, the first
  \<^verbatim>\<open>max\<close> items of the line, each a NUL-terminated string with exactly the item's characters, quotes
  removed and escapes replaced, and still intact after the later items were cut; and no character
  before the line or from its terminator on has changed.
\<close>

theorem cfg_tokenize_inplace:
  assumes "cstr mem line s"
  shows "\<exists>mem' ps. ami_cfg_tokenize mem line max_tokens = Some (mem', ps) \<and>
    list_all2 (cstr mem') ps (tokens max_tokens s) \<and>
    (\<forall>i. i < line \<or> line + length s \<le> i \<longrightarrow> rd mem' i = rd mem i)"
  unfolding ami_cfg_tokenize_def by (rule tokenize_cstr [OF assms])

definition sample_line :: string where
  "sample_line = ''x  a'' @ [QUOTE] @ '' b'' @ [CHR 0x09, QUOTE] @ ''c*n d'' @ [QUOTE, NUL]"

theorem cfg_tokenize_inplace_witness:
  "\<exists>mem' ps. ami_cfg_tokenize sample_line 1 4 = Some (mem', ps) \<and>
     list_all2 (cstr mem') ps [''a'' @ [QUOTE], ''b'', ''c'' @ [CHR 0x0A] @ '' d'']"
proof -
  have "cstr sample_line 1 (''  a'' @ [QUOTE] @ '' b'' @ [CHR 0x09, QUOTE] @ ''c*n d'' @ [QUOTE])" by code_simp
  from cfg_tokenize_inplace [OF this, of 4]
  have "\<exists>mem' ps. ami_cfg_tokenize sample_line 1 4 = Some (mem', ps) \<and> list_all2 (cstr mem') ps
      (tokens 4 (''  a'' @ [QUOTE] @ '' b'' @ [CHR 0x09, QUOTE] @ ''c*n d'' @ [QUOTE]))" by blast
  moreover have "tokens 4 (''  a'' @ [QUOTE] @ '' b'' @ [CHR 0x09, QUOTE] @ ''c*n d'' @ [QUOTE]) =
      [''a'' @ [QUOTE], ''b'', ''c'' @ [CHR 0x0A] @ '' d'']" by code_simp
  ultimately show ?thesis by simp
qed

lemma skip_blanks_cstr:
  assumes "cstr mem p s"
  obtains q where "skip_while blank mem p = Some q" "cstr mem q (dropWhile blank s)" "p \<le> q"
    "q + length (dropWhile blank s) = p + length s"
proof
  show "skip_while blank mem p = Some (p + length (takeWhile blank s))" using skip_while_cstr [OF assms] by blast
  show "cstr mem (p + length (takeWhile blank s)) (dropWhile blank s)" using skip_while_cstr [OF assms] by blast
qed (simp_all flip: length_append)

lemma pair_finish:
  assumes "cstr mem k (key @ w)" and "kend = k + length key" and "cstr mem p v"
    and "kend < p \<or> v = [] \<and> p = kend" and "p + length v = kend + length w"
  shows "\<exists>m m' q a. wr mem kend NUL = Some m \<and> scan_item m p = Some (m', q, a) \<and> cstr m' k key \<and>
    rel_option (cstr m') a (map_option fst (item v)) \<and> cstr m' q (case item v of None \<Rightarrow> [] | Some (x, r) \<Rightarrow> r) \<and>
    (\<forall>i. i < k \<or> kend + length w \<le> i \<longrightarrow> rd m' i = rd mem i)"
proof -
  have end_nul: "rd mem (kend + length w) = Some NUL" using cstr_end [OF assms(1)] assms(2) by (simp add: add.assoc)
  then obtain m where m: "wr mem kend NUL = Some m" using wr_ex [of mem "kend + length w" NUL kend] by auto
  have r: "rd m i = (if i = kend then Some NUL else rd mem i)" for i by (rule rd_wr [OF m])
  have key: "cstr m k key"
    using cstr_prefix [OF assms(1)] cstr_nul_free [OF assms(1)] r assms(2) by (intro cstr_piece) auto
  have v: "cstr m p v" using assms(3,4) r by (cases "kend < p") (auto simp: cstr_cong [of p v m mem])
  have frame: "rd m i = rd mem i" if "i < k \<or> kend + length w \<le> i" for i
    using that r [of i] assms(2) end_nul by auto
  note sc = scan_item_cstr [OF v]
  show ?thesis
  proof (cases "item v")
    case None
    then show ?thesis using sc m key frame by auto
  next
    case (Some xr)
    obtain x rest where xr: "xr = (x, rest)" by (cases xr)
    obtain m' q a where s: "scan_item m p = Some (m', q, Some a)" "cstr m' a x" "cstr m' q rest" "p \<le> q"
      "q + length rest = p + length v" "\<forall>i. i < p \<or> q \<le> i \<longrightarrow> rd m' i = rd m i"
      using sc Some xr by auto
    have "v \<noteq> []" using Some by (auto simp: item_def)
    then have "kend < p" using assms(4) by blast
    then have "cstr m' k key = cstr m k key" using s(6) assms(2) by (intro cstr_cong) auto
    moreover have "rd m' i = rd mem i" if "i < k \<or> kend + length w \<le> i" for i
      using that s(5,6) frame [OF that] \<open>kend < p\<close> assms(2,5) by auto
    ultimately show ?thesis using s m key Some xr by auto
  qed
qed

text \<open>
  \<^verbatim>\<open>ami_cfg_next_pair\<close> reads one pair in place without harm, with or without the equals
  sign and blanks around it: no access leaves the buffer; \<^verbatim>\<open>FALSE\<close> exactly at the end of the line;
  otherwise the key and the value, if there is one, are NUL-terminated strings with the characters
  of the pair, the cursor is at what is left of the line, and nothing outside the line has changed.
\<close>

lemma cfg_next_pair_inplace:
  assumes "cstr mem cursor s"
  shows "case pair s of
     None \<Rightarrow> \<exists>q. ami_cfg_next_pair mem cursor = Some (mem, q, None)
   | Some (key, value, rest) \<Rightarrow> \<exists>mem' q k v. ami_cfg_next_pair mem cursor = Some (mem', q, Some (k, v)) \<and>
       cstr mem' k key \<and> rel_option (cstr mem') v value \<and> cstr mem' q rest \<and>
       (\<forall>i. i < cursor \<or> cursor + length s \<le> i \<longrightarrow> rd mem' i = rd mem i)"
proof -
  let ?P = "\<lambda>c. \<not> blank c \<and> c \<noteq> CHR ''=''"
  define t where "t = dropWhile blank s"
  obtain k where k: "skip_while blank mem cursor = Some k" "cstr mem k t" "cursor \<le> k" "k + length t = cursor + length s"
    using skip_blanks_cstr [OF assms] unfolding t_def by blast
  show ?thesis
  proof (cases "t = []")
    case True
    then show ?thesis using k by (simp add: ami_cfg_next_pair_def pair_def t_def [symmetric])
  next
    case False
    define key where "key = takeWhile ?P t"
    define kend where "kend = k + length key"
    have c0: "rd mem k = Some (hd t)" "hd t \<noteq> NUL" using k(2) False by (cases t; simp)+
    have ke: "skip_while ?P mem k = Some kend" "cstr mem kend (dropWhile ?P t)"
      using skip_while_cstr [OF k(2), of ?P] by (simp_all add: key_def kend_def)
    have kl: "kend + length (dropWhile ?P t) = k + length t" by (simp add: kend_def key_def flip: length_append)
    define u where "u = dropWhile blank (dropWhile ?P t)"
    obtain p where p: "skip_while blank mem kend = Some p" "cstr mem p u" "kend \<le> p" "p + length u = kend + length (dropWhile ?P t)"
      using skip_blanks_cstr [OF ke(2)] unfolding u_def by blast
    define v where "v = (if u \<noteq> [] \<and> hd u = CHR ''='' then dropWhile blank (tl u) else u)"
    obtain p2 where p2: "(if u \<noteq> [] \<and> hd u = CHR ''='' then skip_while blank mem (p + 1) else Some p) = Some p2"
      "cstr mem p2 v" "p \<le> p2" "p2 + length v = p + length u"
    proof (cases "u \<noteq> [] \<and> hd u = CHR ''=''")
      case True
      then have "cstr mem (p + 1) (tl u)" using p(2) by (cases u) auto
      from skip_blanks_cstr [OF this] show ?thesis using True that by (force simp: v_def)
    qed (use p that in \<open>auto simp: v_def\<close>)
    have w: "cstr mem k (key @ dropWhile ?P t)" using k(2) by (simp add: key_def)
    have after: "kend < p2 \<or> v = [] \<and> p2 = kend"
    proof (cases "dropWhile ?P t")
      case Nil
      then have "u = []" by (simp only: u_def dropWhile.simps)
      then have "v = []" by (simp add: v_def)
      then show ?thesis using p(4) p2(4) Nil \<open>u = []\<close> by simp
    next
      case (Cons d ds)
      then have "\<not> ?P d" using hd_dropWhile [of ?P t] by auto
      have "length v \<le> length u" using length_dropWhile_le [of blank "tl u"] by (auto simp: v_def intro: order_trans)
      have "length v < length (dropWhile ?P t)"
      proof (cases "blank d")
        case True
        then have "length u \<le> length ds" using length_dropWhile_le [of blank ds] by (simp add: u_def Cons)
        then show ?thesis using \<open>length v \<le> length u\<close> Cons by simp
      next
        case False
        then have "u = d # ds" "d = CHR ''=''" using \<open>\<not> ?P d\<close> by (auto simp: u_def Cons)
        then show ?thesis using length_dropWhile_le [of blank ds] Cons by (simp add: v_def)
      qed
      then show ?thesis using p(4) p2(4) by linarith
    qed
    obtain m m' q a where f: "wr mem kend NUL = Some m" "scan_item m p2 = Some (m', q, a)" "cstr m' k key"
      "rel_option (cstr m') a (map_option fst (item v))" "cstr m' q (case item v of None \<Rightarrow> [] | Some (x, r) \<Rightarrow> r)"
      "\<forall>i. i < k \<or> kend + length (dropWhile ?P t) \<le> i \<longrightarrow> rd m' i = rd mem i"
      using pair_finish [OF w kend_def p2(2) after] p(4) p2(4) by auto
    have "rd mem p = Some (if u = [] then NUL else hd u)" using p(2) by (cases u) auto
    then have "ami_cfg_next_pair mem cursor = Some (m', q, Some (k, a))"
      using k c0 ke p p2(1) f(1,2) unfolding ami_cfg_next_pair_def by (cases "u = []") (simp_all split: if_splits)
    moreover have "pair s = Some (key, map_option fst (item v), case item v of None \<Rightarrow> [] | Some (x, r) \<Rightarrow> r)"
      using False unfolding pair_def t_def [symmetric] Let_def u_def [symmetric] v_def [symmetric] key_def [symmetric]
      by (simp split: option.split)
    ultimately show ?thesis using f(3-6) k(3,4) kl by auto
  qed
qed

end
