(* ===== verification/Rt_Arith.thy ===== *)
theory Rt_Arith
  imports Ami_Prelude "HOL-Library.Signed_Division"
begin

text \<open>
  The compiler runtime of \<^verbatim>\<open>src/common/ami_udivdi3.c\<close>: the 32- and 64-bit multiplications,
  divisions and shifts that every C expression of the program compiles to on a 68000.

  The file has a portable arm and an assembly arm for each routine, and chooses between the
  68000, 68020 and 68060 forms at run time. A \<open>rt_cpu\<close> says which arm runs: \<open>rt_asm\<close> is
  \<^verbatim>\<open>AMI_RT_ASM\<close> (the file was compiled for the 68k), the other two are the file's static flags.
  The instructions the assembly uses are definitions of this theory, with the two things that can
  go wrong with a 68k division written out: a zero divisor traps (\<open>None\<close>), and a quotient that
  does not fit leaves the operand unchanged. A C division by zero is \<open>None\<close> as well. Routines
  that take a \<^verbatim>\<open>remainder\<close> pointer return the pair of quotient and remainder; a caller that
  passes a null pointer takes the first component.
\<close>

type_synonym u16 = "16 word"
type_synonym u32 = "32 word"
type_synonym u64 = "64 word"

record rt_cpu =
  rt_asm :: bool
  ami_rt_020 :: bool
  ami_rt_mulul :: bool

definition ami_rt_cpu_select :: "int \<Rightarrow> int \<Rightarrow> rt_cpu \<Rightarrow> rt_cpu" where
  "ami_rt_cpu_select have_68020 have_mulul cpu =
     cpu\<lparr>ami_rt_020 := (have_68020 \<noteq> 0), ami_rt_mulul := (have_mulul \<noteq> 0)\<rparr>"

section \<open>The instructions\<close>

text \<open>The low sixteen bits of a register, as the word forms read it.\<close>

definition low16 :: "u32 \<Rightarrow> u32" where
  "low16 a = ucast (ucast a :: u16)"

definition mulu_w :: "u32 \<Rightarrow> u32 \<Rightarrow> u32" where
  "mulu_w d s = low16 d * low16 s"

definition divu_w :: "u32 \<Rightarrow> u32 \<Rightarrow> u32 option" where
  "divu_w d s =
     (let v = low16 s
      in if v = 0 then None
         else if 0x10000 \<le> d div v then Some d
         else Some (push_bit 16 (d mod v) OR d div v))"

definition divu_l :: "u32 \<Rightarrow> u32 \<Rightarrow> u32 option" where
  "divu_l d s = (if s = 0 then None else Some (d div s))"

definition muls_l :: "u32 \<Rightarrow> u32 \<Rightarrow> u32" where
  "muls_l d s = d * s"

definition divs_l :: "u32 \<Rightarrow> u32 \<Rightarrow> u32 option" where
  "divs_l d s =
     (if s = 0 then None
      else if d = 0x80000000 \<and> s = -1 then Some d
      else Some (word_of_int (sint d sdiv sint s)))"

definition wide :: "u32 \<Rightarrow> u32 \<Rightarrow> u64" where
  "wide hi lo = push_bit 32 (ucast hi) OR ucast lo"

definition mulu_l_wide :: "u32 \<Rightarrow> u32 \<Rightarrow> u64" where
  "mulu_l_wide a b = ucast a * ucast b"

text \<open>The register pair before and after: remainder in the high one, quotient in the low one.\<close>

definition divu_l_wide :: "u32 \<Rightarrow> u32 \<Rightarrow> u32 \<Rightarrow> (u32 \<times> u32) option" where
  "divu_l_wide hi lo s =
     (if s = 0 then None
      else if s \<le> hi then Some (hi, lo)
      else Some (ucast (wide hi lo mod ucast s), ucast (wide hi lo div ucast s)))"

section \<open>Leading zeros and multiplication\<close>

definition ami_clz32 :: "u32 \<Rightarrow> nat" where
  "ami_clz32 value =
     (let n = 0;
          (n, value) = (if value AND 0xFFFF0000 = 0 then (n + 16, push_bit 16 value) else (n, value));
          (n, value) = (if value AND 0xFF000000 = 0 then (n + 8, push_bit 8 value) else (n, value));
          (n, value) = (if value AND 0xF0000000 = 0 then (n + 4, push_bit 4 value) else (n, value));
          (n, value) = (if value AND 0xC0000000 = 0 then (n + 2, push_bit 2 value) else (n, value))
      in if value AND 0x80000000 = 0 then n + 1 else n)"

definition ami_umul16 :: "rt_cpu \<Rightarrow> u32 \<Rightarrow> u32 \<Rightarrow> u32" where
  "ami_umul16 cpu a b =
     (if rt_asm cpu then mulu_w a b
      else let x = (ucast a :: u16); y = (ucast b :: u16) in ucast x * ucast y)"

definition ami_umul16x32 :: "rt_cpu \<Rightarrow> u32 \<Rightarrow> u32 \<Rightarrow> u32" where
  "ami_umul16x32 cpu q v = ami_umul16 cpu q v + push_bit 16 (ami_umul16 cpu q (drop_bit 16 v))"

definition ami_umul32_wide :: "rt_cpu \<Rightarrow> u32 \<Rightarrow> u32 \<Rightarrow> u64" where
  "ami_umul32_wide cpu a b =
     (if rt_asm cpu \<and> ami_rt_mulul cpu then mulu_l_wide a b
      else let a_lo = low16 a; a_hi = low16 (drop_bit 16 a);
               b_lo = low16 b; b_hi = low16 (drop_bit 16 b);
               ll = a_lo * b_lo; lh = a_lo * b_hi; hl = a_hi * b_lo; hh = a_hi * b_hi;
               mid = drop_bit 16 ll + low16 lh + low16 hl
           in wide (hh + drop_bit 16 lh + drop_bit 16 hl + drop_bit 16 mid)
                (push_bit 16 mid OR low16 ll))"

definition ami_umul32_low :: "rt_cpu \<Rightarrow> u32 \<Rightarrow> u32 \<Rightarrow> u32" where
  "ami_umul32_low cpu a b =
     (if rt_asm cpu \<and> ami_rt_020 cpu then muls_l a b
      else let a_lo = low16 a; a_hi = low16 (drop_bit 16 a);
               b_lo = low16 b; b_hi = low16 (drop_bit 16 b)
           in a_lo * b_lo + push_bit 16 (a_lo * b_hi + a_hi * b_lo))"

definition muldi3 :: "rt_cpu \<Rightarrow> u64 \<Rightarrow> u64 \<Rightarrow> u64" where
  "muldi3 cpu a b =
     (let a_lo = ucast a; b_lo = ucast b
      in ami_umul32_wide cpu a_lo b_lo +
         push_bit 32 (ucast (ami_umul32_low cpu a_lo (ucast (drop_bit 32 b)) +
                             ami_umul32_low cpu (ucast (drop_bit 32 a)) b_lo)))"

definition mulsi3 :: "rt_cpu \<Rightarrow> u32 \<Rightarrow> u32 \<Rightarrow> u32" where
  "mulsi3 cpu a b =
     (if rt_asm cpu \<and> ami_rt_020 cpu then muls_l a b else ucast (ami_umul32_wide cpu a b))"

section \<open>The soft divide\<close>

text \<open>Quotient and remainder of one \<^verbatim>\<open>DIVU.W\<close> or its C form.\<close>

definition ami_divu32_16_step :: "rt_cpu \<Rightarrow> u32 \<Rightarrow> u32 \<Rightarrow> (u32 \<times> u32) option" where
  "ami_divu32_16_step cpu numerator divisor =
     (if rt_asm cpu
      then map_option (\<lambda>step. (low16 step, drop_bit 16 step)) (divu_w numerator divisor)
      else if divisor = 0 then None else Some (numerator div divisor, numerator mod divisor))"

definition ami_divu32_16 :: "rt_cpu \<Rightarrow> u32 \<Rightarrow> u32 \<Rightarrow> (u32 \<times> u32) option" where
  "ami_divu32_16 cpu numerator divisor =
     (if rt_asm cpu \<and> ami_rt_020 cpu
      then do {
        q \<leftarrow> divu_l numerator divisor;
        let back = muls_l q divisor;
        Some (q, numerator - back)
      }
      else do {
        (q_hi, rem) \<leftarrow> ami_divu32_16_step cpu (drop_bit 16 numerator) divisor;
        (q_lo, rem) \<leftarrow> ami_divu32_16_step cpu (push_bit 16 rem OR numerator AND 0xFFFF) divisor;
        Some (push_bit 16 q_hi OR q_lo, rem)
      })"

lemma ami_umul16_alt: "ami_umul16 cpu a b = low16 a * low16 b"
  by (simp add: ami_umul16_def mulu_w_def low16_def Let_def)

text \<open>The correction loop of a quotient digit; every turn that goes on lowers \<open>q\<close>.\<close>

function fix_digit :: "rt_cpu \<Rightarrow> u32 \<Rightarrow> u32 \<Rightarrow> u32 \<Rightarrow> u32 \<Rightarrow> u32 \<Rightarrow> u32" where
  "fix_digit cpu v1 v0 un q rhat =
     (if drop_bit 16 q \<noteq> 0 \<or> push_bit 16 rhat OR un < ami_umul16 cpu q v0
      then if drop_bit 16 (rhat + v1) = 0 then fix_digit cpu v1 v0 un (q - 1) (rhat + v1) else q - 1
      else q)"
  by pat_completeness auto
termination
proof (relation "measure (\<lambda>(cpu, v1, v0, un, q, rhat). unat q)", simp)
  fix cpu and v1 v0 un q rhat :: u32
  assume "drop_bit 16 q \<noteq> 0 \<or> push_bit 16 rhat OR un < ami_umul16 cpu q v0"
  then have "q \<noteq> 0" by (auto simp: ami_umul16_alt low16_def)
  then show "((cpu, v1, v0, un, q - 1, rhat + v1), cpu, v1, v0, un, q, rhat)
               \<in> measure (\<lambda>(cpu, v1, v0, un, q, rhat). unat q)"
    by (simp add: unat_minus_one word_neq_0_conv unat_gt_0)
qed

declare fix_digit.simps [simp del]

definition ami_divu64_32_soft :: "rt_cpu \<Rightarrow> u32 \<Rightarrow> u32 \<Rightarrow> u32 \<Rightarrow> (u32 \<times> u32) option" where
  "ami_divu64_32_soft cpu hi lo divisor =
     (if divisor < 0x10000
      then do {
        (q1, rhat) \<leftarrow> ami_divu32_16_step cpu (push_bit 16 hi OR drop_bit 16 lo) divisor;
        (q0, remainder) \<leftarrow> ami_divu32_16_step cpu (push_bit 16 rhat OR lo AND 0xFFFF) divisor;
        Some (push_bit 16 q1 OR q0, remainder)
      }
      else do {
        let s = ami_clz32 divisor;
        let divisor = push_bit s divisor;
        let v1 = drop_bit 16 divisor;
        let v0 = divisor AND 0xFFFF;
        let un32 = push_bit s hi OR (if s \<noteq> 0 then drop_bit (32 - s) lo else 0);
        let un10 = push_bit s lo;
        let un1 = drop_bit 16 un10;
        let un0 = un10 AND 0xFFFF;
        (q1, rhat) \<leftarrow> ami_divu32_16 cpu un32 v1;
        let q1 = fix_digit cpu v1 v0 un1 q1 rhat;
        let un21 = push_bit 16 un32 + un1 - ami_umul16x32 cpu q1 divisor;
        (q0, rhat) \<leftarrow> ami_divu32_16 cpu un21 v1;
        let q0 = fix_digit cpu v1 v0 un0 q0 rhat;
        let remainder = drop_bit s (push_bit 16 un21 + un0 - ami_umul16x32 cpu q0 divisor);
        Some (push_bit 16 q1 OR q0, remainder)
      })"

definition ami_divu64_32 :: "rt_cpu \<Rightarrow> u32 \<Rightarrow> u32 \<Rightarrow> u32 \<Rightarrow> (u32 \<times> u32) option" where
  "ami_divu64_32 cpu hi lo divisor =
     (if rt_asm cpu \<and> ami_rt_mulul cpu
      then map_option (\<lambda>(hi, lo). (lo, hi)) (divu_l_wide hi lo divisor)
      else ami_divu64_32_soft cpu hi lo divisor)"

section \<open>64-bit division\<close>

text \<open>The arm for a divisor of at least \<open>2 ^ 32\<close>: normalise, estimate, correct once.\<close>

definition udivmod_large :: "rt_cpu \<Rightarrow> u32 \<Rightarrow> u32 \<Rightarrow> u32 \<Rightarrow> u32 \<Rightarrow> (u64 \<times> u64) option" where
  "udivmod_large cpu n_hi n_lo d_hi d_lo =
     (let bm = ami_clz32 d_hi
      in if bm = 0
         then if d_hi < n_hi \<or> d_lo \<le> n_lo
              then Some (1, wide (n_hi - d_hi - of_bool (n_lo < d_lo)) (n_lo - d_lo))
              else Some (0, wide n_hi n_lo)
         else do {
           let b = 32 - bm;
           let d_hi = push_bit bm d_hi OR drop_bit b d_lo;
           let d_lo = push_bit bm d_lo;
           let n_2 = drop_bit b n_hi;
           let n_hi = push_bit bm n_hi OR drop_bit b n_lo;
           let n_lo = push_bit bm n_lo;
           (q_lo, n_hi) \<leftarrow> ami_divu64_32 cpu n_2 n_hi d_hi;
           let m = ami_umul32_wide cpu q_lo d_lo;
           let m_hi = (ucast (drop_bit 32 m) :: u32);
           let m_lo = (ucast m :: u32);
           let (q_lo, m_hi, m_lo) =
             (if n_hi < m_hi \<or> m_hi = n_hi \<and> n_lo < m_lo
              then (q_lo - 1, m_hi - d_hi - of_bool (m_lo < d_lo), m_lo - d_lo)
              else (q_lo, m_hi, m_lo));
           let n_hi = n_hi - m_hi - of_bool (n_lo < m_lo);
           let n_lo = n_lo - m_lo;
           Some (ucast q_lo, wide (drop_bit bm n_hi) (push_bit b n_hi OR drop_bit bm n_lo))
         })"

definition udivmoddi4 :: "rt_cpu \<Rightarrow> u64 \<Rightarrow> u64 \<Rightarrow> (u64 \<times> u64) option" where
  "udivmoddi4 cpu numerator denominator =
     (let n_hi = (ucast (drop_bit 32 numerator) :: u32); n_lo = (ucast numerator :: u32);
          d_hi = (ucast (drop_bit 32 denominator) :: u32); d_lo = (ucast denominator :: u32)
      in if denominator = 0 then Some (NOT 0, 0)
         else if d_hi = 0 then
           if n_hi < d_lo then do {
             (q_lo, rem) \<leftarrow> ami_divu64_32 cpu n_hi n_lo d_lo;
             Some (ucast q_lo, ucast rem)
           }
           else do {
             (q_hi, rem) \<leftarrow> ami_divu64_32 cpu 0 n_hi d_lo;
             (q_lo, rem) \<leftarrow> ami_divu64_32 cpu rem n_lo d_lo;
             Some (wide q_hi q_lo, ucast rem)
           }
         else if n_hi < d_hi then Some (0, numerator)
         else udivmod_large cpu n_hi n_lo d_hi d_lo)"

definition udivdi3 :: "rt_cpu \<Rightarrow> u64 \<Rightarrow> u64 \<Rightarrow> u64 option" where
  "udivdi3 cpu numerator denominator = map_option fst (udivmoddi4 cpu numerator denominator)"

definition umoddi3 :: "rt_cpu \<Rightarrow> u64 \<Rightarrow> u64 \<Rightarrow> u64 option" where
  "umoddi3 cpu numerator denominator = map_option snd (udivmoddi4 cpu numerator denominator)"

definition divdi3 :: "rt_cpu \<Rightarrow> u64 \<Rightarrow> u64 \<Rightarrow> u64 option" where
  "divdi3 cpu numerator denominator = do {
     let negate = False;
     let (numerator, negate) =
       (if sint numerator < 0 then (- numerator, \<not> negate) else (numerator, negate));
     let (denominator, negate) =
       (if sint denominator < 0 then (- denominator, \<not> negate) else (denominator, negate));
     (quotient, _) \<leftarrow> udivmoddi4 cpu numerator denominator;
     Some (if negate then - quotient else quotient)
   }"

definition moddi3 :: "rt_cpu \<Rightarrow> u64 \<Rightarrow> u64 \<Rightarrow> u64 option" where
  "moddi3 cpu numerator denominator = do {
     let negate = sint numerator < 0;
     let numerator = (if sint numerator < 0 then - numerator else numerator);
     let denominator = (if sint denominator < 0 then - denominator else denominator);
     (_, remainder) \<leftarrow> udivmoddi4 cpu numerator denominator;
     Some (if negate then - remainder else remainder)
   }"

section \<open>The 32-bit set of the plain 68000\<close>

definition ami_udivmodsi :: "rt_cpu \<Rightarrow> u32 \<Rightarrow> u32 \<Rightarrow> (u32 \<times> u32) option" where
  "ami_udivmodsi cpu numerator denominator =
     (if denominator = 0 then Some (NOT 0, 0) else ami_divu64_32_soft cpu 0 numerator denominator)"

definition udivsi3 :: "rt_cpu \<Rightarrow> u32 \<Rightarrow> u32 \<Rightarrow> u32 option" where
  "udivsi3 cpu numerator denominator =
     (if rt_asm cpu \<and> ami_rt_020 cpu \<and> denominator \<noteq> 0 then divu_l numerator denominator
      else map_option fst (ami_udivmodsi cpu numerator denominator))"

definition umodsi3 :: "rt_cpu \<Rightarrow> u32 \<Rightarrow> u32 \<Rightarrow> u32 option" where
  "umodsi3 cpu numerator denominator =
     (if rt_asm cpu \<and> ami_rt_020 cpu \<and> denominator \<noteq> 0
      then map_option (\<lambda>q. numerator - muls_l q denominator) (divu_l numerator denominator)
      else map_option snd (ami_udivmodsi cpu numerator denominator))"

definition divsi3 :: "rt_cpu \<Rightarrow> u32 \<Rightarrow> u32 \<Rightarrow> u32 option" where
  "divsi3 cpu numerator denominator =
     (if rt_asm cpu \<and> ami_rt_020 cpu \<and> denominator \<noteq> 0 then divs_l numerator denominator
      else do {
        let negate = False;
        let (numerator, negate) =
          (if sint numerator < 0 then (- numerator, \<not> negate) else (numerator, negate));
        let (denominator, negate) =
          (if sint denominator < 0 then (- denominator, \<not> negate) else (denominator, negate));
        (quotient, _) \<leftarrow> ami_udivmodsi cpu numerator denominator;
        Some (if negate then - quotient else quotient)
      })"

definition modsi3 :: "rt_cpu \<Rightarrow> u32 \<Rightarrow> u32 \<Rightarrow> u32 option" where
  "modsi3 cpu numerator denominator =
     (if rt_asm cpu \<and> ami_rt_020 cpu \<and> denominator \<noteq> 0
      then map_option (\<lambda>q. numerator - muls_l q denominator) (divs_l numerator denominator)
      else do {
        let negate = sint numerator < 0;
        let numerator = (if sint numerator < 0 then - numerator else numerator);
        let denominator = (if sint denominator < 0 then - denominator else denominator);
        (_, remainder) \<leftarrow> ami_udivmodsi cpu numerator denominator;
        Some (if negate then - remainder else remainder)
      })"

section \<open>64-bit shifts\<close>

text \<open>The count is a C \<^verbatim>\<open>int\<close>; every shift is one of 32 bits.\<close>

definition lshrdi3 :: "u64 \<Rightarrow> int \<Rightarrow> u64" where
  "lshrdi3 v count =
     (let hi = (ucast (drop_bit 32 v) :: u32); lo = (ucast v :: u32)
      in if count \<le> 0 then v
         else if 64 \<le> count then 0
         else if 32 \<le> count then ucast (drop_bit (nat (count - 32)) hi)
         else wide (drop_bit (nat count) hi)
                (drop_bit (nat count) lo OR push_bit (nat (32 - count)) hi))"

definition ashldi3 :: "u64 \<Rightarrow> int \<Rightarrow> u64" where
  "ashldi3 v count =
     (let hi = (ucast (drop_bit 32 v) :: u32); lo = (ucast v :: u32)
      in if count \<le> 0 then v
         else if 64 \<le> count then 0
         else if 32 \<le> count then push_bit 32 (ucast (push_bit (nat (count - 32)) lo))
         else wide (push_bit (nat count) hi OR drop_bit (nat (32 - count)) lo)
                (push_bit (nat count) lo))"

definition ashrdi3 :: "u64 \<Rightarrow> int \<Rightarrow> u64" where
  "ashrdi3 v count =
     (let hi = (ucast (drop_bit 32 v) :: u32); lo = (ucast v :: u32)
      in if count \<le> 0 then v
         else if 64 \<le> count then (if sint v < 0 then -1 else 0)
         else if 32 \<le> count then scast (signed_drop_bit (nat (count - 32)) hi)
         else wide (signed_drop_bit (nat count) hi)
                (drop_bit (nat count) lo OR push_bit (nat (32 - count)) hi))"

end
