(* ===== verification/Rt_Correct.thy ===== *)
theory Rt_Correct
  imports Rt_Arith
begin

text \<open>
  What the runtime of \<^verbatim>\<open>src/common/ami_udivdi3.c\<close> computes: each routine is the mathematical
  operation on every input and on every processor, the correction loops of the two digits end, and
  no division traps.
\<close>

section \<open>Words read as numbers\<close>

lemma unat_low16: "unat (low16 a) = unat a mod 65536"
  by (simp add: low16_def unsigned_ucast_eq take_bit_eq_mod unat_mod)

lemma unat_and_16: "unat (a AND 0xFFFF :: u32) = unat a mod 65536"
proof -
  have "a AND 0xFFFF = take_bit 16 a"
    by (simp add: take_bit_eq_mask mask_numeral)
  then show ?thesis by (simp add: unsigned_take_bit_eq take_bit_eq_mod unat_mod)
qed

lemma unat_drop: "unat (drop_bit n (a :: 'a::len word)) = unat a div 2 ^ n"
  by (simp add: unat_drop_bit_eq) (simp add: drop_bit_eq_div)

lemma unat_push:
  assumes "unat a * 2 ^ n < 2 ^ LENGTH('a)"
  shows "unat (push_bit n a :: 'a::len word) = unat a * 2 ^ n"
  using assms by (simp add: unsigned_push_bit_eq) (simp add: push_bit_eq_mult take_bit_eq_mod)

lemma or_is_add:
  assumes "unat b < 2 ^ n"
  shows "push_bit n a OR b = push_bit n a + (b :: 'a::len word)"
proof -
  have "\<not> bit b m" if "n \<le> m" for m
  proof -
    have "unat b < 2 ^ m" using assms that by (meson less_le_trans one_le_numeral power_increasing)
    then have "\<not> bit (unat b) m" by (simp add: bit_iff_odd)
    then show ?thesis by (simp add: bit_unsigned_iff)
  qed
  then show ?thesis
    by (subst disjunctive_add) (auto simp: bit_push_bit_iff)
qed

lemma unat_join:
  assumes "unat b < 2 ^ n" and "unat a * 2 ^ n + 2 ^ n \<le> 2 ^ LENGTH('a)"
  shows "unat (push_bit n a OR b :: 'a::len word) = unat a * 2 ^ n + unat b"
proof -
  have "unat (push_bit n a) = unat a * 2 ^ n"
    by (rule unat_push) (use assms in linarith)
  then show ?thesis
    using assms by (simp add: or_is_add unat_word_ariths)
qed

lemma unat_lt_32: "unat (a :: u32) < 2 ^ 32"
  using unat_lt2p [of a] by simp

lemma mod_lt_32: "0 < unat v \<Longrightarrow> N mod unat (v :: u32) < 2 ^ 32"
  using mod_less_divisor [of "unat v" N] unat_lt_32 [of v] by linarith

lemma low_digit:
  fixes a u :: nat
  assumes "u < 65536"
  shows "(a * 65536 + u) div 65536 = a" and "(a * 65536 + u) mod 65536 = u"
  using assms by simp_all

lemma unat_wide: "unat (wide hi lo) = unat hi * 2 ^ 32 + unat lo"
proof -
  have "unat (ucast lo :: u64) = unat lo" "unat (ucast hi :: u64) = unat hi"
    by (simp_all add: unat_ucast_up)
  then show ?thesis
    using unat_lt_32 [of lo] unat_lt_32 [of hi] unfolding wide_def by (subst unat_join) auto
qed

section \<open>Leading zeros\<close>

lemma drop_bit_push_drop: "drop_bit n (push_bit n (drop_bit n a)) = drop_bit n (a :: 'a::len word)"
  by (rule bit_word_eqI) (auto simp: bit_simps dest: bit_imp_le_length)

lemma high_bits_zero: "(a AND NOT (mask n) = 0) = (unat (a :: 'a::len word) < 2 ^ n)"
proof -
  have "a AND NOT (mask n) = push_bit n (drop_bit n a)"
    by (rule bit_word_eqI) (auto simp: bit_simps)
  moreover have "push_bit n (drop_bit n a) = 0 \<longleftrightarrow> drop_bit n a = 0"
    by (metis drop_bit_of_0 drop_bit_push_drop push_bit_of_0)
  ultimately have "(a AND NOT (mask n) = 0) = (drop_bit n a = 0)" by simp
  also have "\<dots> = (unat (drop_bit n a) = 0)" by (simp add: unat_eq_0)
  finally show ?thesis by (simp add: unat_drop div_eq_0_iff)
qed

lemma clz_stage:
  fixes v x :: u32
  assumes "k \<le> 16" and "unat v = unat x * 2 ^ n" and "2 ^ (32 - 2 * k) \<le> unat v"
    and "(n', v') = (if v AND NOT (mask (32 - k)) = 0 then (n + k, push_bit k v) else (n, v))"
  shows "unat v' = unat x * 2 ^ n' \<and> 2 ^ (32 - k) \<le> unat v'"
proof (cases "unat v < 2 ^ (32 - k)")
  case True
  have "(2 :: nat) ^ (32 - k) * 2 ^ k = 2 ^ 32" "(2 :: nat) ^ (32 - 2 * k) * 2 ^ k = 2 ^ (32 - k)"
    using assms(1) by (simp_all flip: power_add)
  moreover from this(1) True have "unat v * 2 ^ k < 2 ^ 32"
    by (metis mult_less_mono1 zero_less_numeral zero_less_power)
  then have "unat (push_bit k v) = unat v * 2 ^ k" by (intro unat_push) simp
  moreover have "2 ^ (32 - 2 * k) * 2 ^ k \<le> unat v * 2 ^ k" using assms(3) by simp
  ultimately show ?thesis
    using assms(2,4) True by (simp add: high_bits_zero power_add)
next
  case False
  then show ?thesis using assms(2,4) by (simp add: high_bits_zero)
qed

lemma ami_clz32:
  assumes "v \<noteq> 0"
  shows "ami_clz32 v < 32" and "unat v * 2 ^ ami_clz32 v < 2 ^ 32" and "2 ^ 31 \<le> unat v * 2 ^ ami_clz32 v"
proof -
  have masks: "0xFFFF0000 = NOT (mask 16 :: u32)" "0xFF000000 = NOT (mask 24 :: u32)"
    "0xF0000000 = NOT (mask 28 :: u32)" "0xC0000000 = NOT (mask 30 :: u32)"
    "0x80000000 = NOT (mask 31 :: u32)"
    by (simp_all add: mask_numeral)
  define st where "st k n w = (if w AND NOT (mask (32 - k)) = 0 then (n + k, push_bit k w) else (n, w))"
    for k n and w :: u32
  obtain n1 v1 where 1: "st 16 0 v = (n1, v1)" by fastforce
  obtain n2 v2 where 2: "st 8 n1 v1 = (n2, v2)" by fastforce
  obtain n3 v3 where 3: "st 4 n2 v2 = (n3, v3)" by fastforce
  obtain n4 v4 where 4: "st 2 n3 v3 = (n4, v4)" by fastforce
  obtain n5 v5 where 5: "st 1 n4 v4 = (n5, v5)" by fastforce
  have clz: "ami_clz32 v = n5"
    using 1 2 3 4 5 unfolding ami_clz32_def masks st_def Let_def
    by (auto split: if_splits)
  have "1 \<le> unat v" using assms by (simp add: Suc_le_eq unat_gt_0)
  then have a1: "unat v1 = unat v * 2 ^ n1 \<and> 2 ^ 16 \<le> unat v1"
    using clz_stage [of 16 v v 0 n1 v1] 1 by (simp add: st_def)
  then have a2: "unat v2 = unat v * 2 ^ n2 \<and> 2 ^ 24 \<le> unat v2"
    using clz_stage [of 8 v1 v n1 n2 v2] 2 by (simp add: st_def)
  then have a3: "unat v3 = unat v * 2 ^ n3 \<and> 2 ^ 28 \<le> unat v3"
    using clz_stage [of 4 v2 v n2 n3 v3] 3 by (simp add: st_def)
  then have a4: "unat v4 = unat v * 2 ^ n4 \<and> 2 ^ 30 \<le> unat v4"
    using clz_stage [of 2 v3 v n3 n4 v4] 4 by (simp add: st_def)
  then have a5: "unat v5 = unat v * 2 ^ n5 \<and> 2 ^ 31 \<le> unat v5"
    using clz_stage [of 1 v4 v n4 n5 v5] 5 by (auto simp: st_def split: if_splits)
  then show *: "unat v * 2 ^ ami_clz32 v < 2 ^ 32" and "2 ^ 31 \<le> unat v * 2 ^ ami_clz32 v"
    unfolding clz using unat_lt_32 [of v5] by simp_all
  show "ami_clz32 v < 32"
  proof (rule ccontr)
    assume "\<not> ami_clz32 v < 32"
    then have "(2 :: nat) ^ 32 \<le> 2 ^ ami_clz32 v" by (intro power_increasing) auto
    then have "1 * 2 ^ 32 \<le> unat v * 2 ^ ami_clz32 v" using \<open>1 \<le> unat v\<close> by (intro mult_le_mono)
    with * show False by simp
  qed
qed

section \<open>Multiplication\<close>

lemma unat_mult_nowrap: "unat a * unat b < 2 ^ LENGTH('w) \<Longrightarrow> unat (a * b :: 'w::len word) = unat a * unat b"
  by (simp add: unat_word_ariths)

lemma mult_16_bound: "(a :: nat) < 65536 \<Longrightarrow> b < 65536 \<Longrightarrow> a * b \<le> 65535 * 65535"
  by (intro mult_le_mono) auto

lemma unat_low16_mult:
  "unat (low16 a * low16 b) = (unat a mod 65536) * (unat b mod 65536)"
  using mult_16_bound [of "unat a mod 65536" "unat b mod 65536"]
  by (subst unat_mult_nowrap) (simp_all add: unat_low16)

lemma unat_umul16: "unat (ami_umul16 cpu a b) = (unat a mod 65536) * (unat b mod 65536)"
  by (simp add: ami_umul16_alt unat_low16_mult)

lemma split_16: "unat (v :: u32) = 65536 * (unat v div 65536) + unat v mod 65536"
  by simp

lemma word_split_16: "(v :: u32) = push_bit 16 (drop_bit 16 v) + low16 v"
proof (rule word_unat_eq_iff [THEN iffD2])
  have "unat (drop_bit 16 v) * 2 ^ 16 < 2 ^ 32"
    using unat_lt_32 [of v] by (simp add: unat_drop)
  then have "unat (push_bit 16 (drop_bit 16 v)) = unat v div 65536 * 65536"
    by (subst unat_push) (simp_all add: unat_drop)
  then show "unat v = unat (push_bit 16 (drop_bit 16 v) + low16 v)"
    using unat_lt_32 [of v] by (subst unat_add_nowrap) (simp_all add: unat_low16)
qed

lemma low16_small: "unat q < 65536 \<Longrightarrow> low16 q = q"
  by (simp add: word_unat_eq_iff unat_low16)

lemma low16_drop [simp]: "low16 (drop_bit 16 v) = drop_bit 16 v"
proof (rule low16_small)
  show "unat (drop_bit 16 v) < 65536"
    using unat_lt_32 [of v] by (simp add: unat_drop)
qed

lemma umul16x32:
  assumes "unat q < 65536"
  shows "ami_umul16x32 cpu q v = q * v"
proof -
  have "q * v = q * (push_bit 16 (drop_bit 16 v) + low16 v)"
    using word_split_16 [of v] by simp
  then show ?thesis
    by (simp add: ami_umul16x32_def ami_umul16_alt low16_small assms push_bit_eq_mult algebra_simps)
qed

lemma carry_halves:
  fixes hh lh hl ll mid :: nat
  assumes "ll = q1 * 65536 + r1" "lh = q2 * 65536 + r2" "hl = q3 * 65536 + r3"
    and "mid = q4 * 65536 + r4" "mid = q1 + r2 + r3"
  shows "(hh + q2 + q3 + q4) * 4294967296 + r4 * 65536 + r1 = hh * 4294967296 + lh * 65536 + hl * 65536 + ll"
proof -
  have "(q4 * 65536 + r4) * 65536 = (q1 + r2 + r3) * 65536" using assms(4,5) by simp
  then show ?thesis unfolding assms(1-3) by (simp add: algebra_simps)
qed

text \<open>The schoolbook product of two 32-bit numbers by halves.\<close>

lemma product_by_halves:
  fixes a1 a0 b1 b0 :: nat
  assumes "a1 < 65536" "a0 < 65536" "b1 < 65536" "b0 < 65536"
    and "mid = a0 * b0 div 65536 + (a0 * b1) mod 65536 + (a1 * b0) mod 65536"
  shows "(a1 * b1 + a0 * b1 div 65536 + a1 * b0 div 65536 + mid div 65536) * 2 ^ 32
           + (mid mod 65536) * 65536 + (a0 * b0) mod 65536
         = (a1 * 65536 + a0) * (b1 * 65536 + b0)"
proof -
  define ll lh hl where "ll = a0 * b0" and "lh = a0 * b1" and "hl = a1 * b0"
  have "mid = ll div 65536 + lh mod 65536 + hl mod 65536"
    using assms(5) by (simp add: ll_def lh_def hl_def)
  then have "(a1 * b1 + lh div 65536 + hl div 65536 + mid div 65536) * 4294967296
        + (mid mod 65536) * 65536 + ll mod 65536 = a1 * b1 * 4294967296 + lh * 65536 + hl * 65536 + ll"
    by (intro carry_halves) simp_all
  also have "\<dots> = (a1 * 65536 + a0) * (b1 * 65536 + b0)"
    by (simp add: ll_def lh_def hl_def algebra_simps)
  finally show ?thesis by (simp add: ll_def lh_def hl_def)
qed

lemma unat_prod64: "unat (ucast (a :: u32) * ucast (b :: u32) :: u64) = unat a * unat b"
proof -
  have "unat a * unat b < 2 ^ 32 * 2 ^ 32" by (intro mult_strict_mono unat_lt_32) auto
  then show ?thesis by (subst unat_mult_nowrap) (simp_all add: unat_ucast_up)
qed

lemma umul32_wide: "ami_umul32_wide cpu a b = ucast a * ucast b"
proof (cases "rt_asm cpu \<and> ami_rt_mulul cpu")
  case True
  then show ?thesis by (simp add: ami_umul32_wide_def mulu_l_wide_def)
next
  case False
  define a1 a0 b1 b0 where "a1 = unat a div 65536" and "a0 = unat a mod 65536"
    and "b1 = unat b div 65536" and "b0 = unat b mod 65536"
  have lt: "a1 < 65536" "a0 < 65536" "b1 < 65536" "b0 < 65536"
    using unat_lt_32 [of a] unat_lt_32 [of b] by (auto simp: a1_def a0_def b1_def b0_def)
  have ab: "unat a = a1 * 65536 + a0" "unat b = b1 * 65536 + b0"
    by (simp_all add: a1_def a0_def b1_def b0_def)
  define ll lh hl hh where "ll = low16 a * low16 b" and "lh = low16 a * low16 (drop_bit 16 b)"
    and "hl = low16 (drop_bit 16 a) * low16 b" and "hh = low16 (drop_bit 16 a) * low16 (drop_bit 16 b)"
  have u: "unat ll = a0 * b0" "unat lh = a0 * b1" "unat hl = a1 * b0" "unat hh = a1 * b1"
    using lt by (simp_all add: ll_def lh_def hl_def hh_def unat_low16_mult unat_drop
        a1_def a0_def b1_def b0_def del: low16_drop)
  define mid where "mid = drop_bit 16 ll + low16 lh + low16 hl"
  have small: "a0 * b0 < 2 ^ 32" "a0 * b1 < 2 ^ 32" "a1 * b0 < 2 ^ 32"
    using u unat_lt_32 [of ll] unat_lt_32 [of lh] unat_lt_32 [of hl] by simp_all
  have mid: "unat mid = a0 * b0 div 65536 + (a0 * b1) mod 65536 + (a1 * b0) mod 65536"
  proof -
    have "a0 * b0 div 65536 < 65536" using small by auto
    then show ?thesis unfolding mid_def
      by (subst unat_add_nowrap; (subst unat_add_nowrap)?) (simp_all add: u unat_drop unat_low16 less_trans)
  qed
  have prod: "(a1 * b1 + a0 * b1 div 65536 + a1 * b0 div 65536 + unat mid div 65536) * 2 ^ 32
                + (unat mid mod 65536) * 65536 + (a0 * b0) mod 65536 = unat a * unat b"
    unfolding ab by (rule product_by_halves [OF lt mid])
  have lt64: "unat a * unat b < 2 ^ 32 * 2 ^ 32"
    by (intro mult_strict_mono unat_lt_32) auto
  define top where "top = hh + drop_bit 16 lh + drop_bit 16 hl + drop_bit 16 mid"
  have top: "unat top = a1 * b1 + a0 * b1 div 65536 + a1 * b0 div 65536 + unat mid div 65536" (is "_ = ?t")
  proof -
    have "?t * 2 ^ 32 < 2 ^ 32 * 2 ^ 32" using prod lt64 by linarith
    then have "?t < 2 ^ 32" by (rule mult_right_less_imp_less) simp
    then show ?thesis unfolding top_def
      by (simp add: unat_word_ariths u unat_drop)
  qed
  have low: "unat (push_bit 16 mid OR low16 ll) = unat mid mod 65536 * 65536 + (a0 * b0) mod 65536"
  proof -
    have "push_bit 16 mid = push_bit 16 (low16 mid)"
      by (rule bit_word_eqI) (auto simp: low16_def bit_simps)
    then have "unat (push_bit 16 mid OR low16 ll) = unat (push_bit 16 (low16 mid) OR low16 ll)"
      by (rule arg_cong)
    moreover have "unat (low16 mid) * 2 ^ 16 + 2 ^ 16 \<le> 2 ^ 32"
      using mod_less_divisor [of 65536 "unat mid"] by (simp add: unat_low16)
    then have "unat (push_bit 16 (low16 mid) OR low16 ll) = unat (low16 mid) * 2 ^ 16 + unat (low16 ll)"
      by (intro unat_join) (simp_all add: unat_low16)
    ultimately show ?thesis by (simp add: unat_low16 u)
  qed
  have "unat (ami_umul32_wide cpu a b) = unat a * unat b"
    using False top low prod
    unfolding ami_umul32_wide_def Let_def ll_def [symmetric] lh_def [symmetric] hl_def [symmetric]
      hh_def [symmetric] mid_def [symmetric] top_def [symmetric]
    by (auto simp: unat_wide u)
  then show ?thesis by (simp add: word_unat_eq_iff unat_prod64)
qed

lemma umul32_low: "ami_umul32_low cpu a b = a * b"
proof -
  have "a * b = (push_bit 16 (drop_bit 16 a) + low16 a) * (push_bit 16 (drop_bit 16 b) + low16 b)"
    using word_split_16 [of a] word_split_16 [of b] by simp
  also have "\<dots> = low16 a * low16 b + push_bit 16 (low16 a * drop_bit 16 b + drop_bit 16 a * low16 b)
               + push_bit 32 (drop_bit 16 a * drop_bit 16 b)"
    by (simp add: push_bit_eq_mult algebra_simps)
  also have "push_bit 32 (drop_bit 16 a * drop_bit 16 b) = 0"
    by (rule bit_word_eqI) (simp add: bit_simps)
  finally show ?thesis
    by (simp add: ami_umul32_low_def muls_l_def Let_def)
qed

lemma ucast_down_mult: "(ucast (x * y :: u64) :: u32) = ucast x * ucast y"
  by (simp add: word_unat_eq_iff unsigned_ucast_eq take_bit_eq_mod unat_word_ariths mod_mult_eq mod_mod_cancel)

lemma ucast_down_add: "(ucast (x + y :: u64) :: u32) = ucast x + ucast y"
  by (simp add: word_unat_eq_iff unsigned_ucast_eq take_bit_eq_mod unat_word_ariths mod_add_eq mod_mod_cancel)

lemma ucast_down_up: "(ucast (ucast (a :: u32) :: u64) :: u32) = a"
  by (rule bit_word_eqI) (simp add: bit_simps)

lemmas ucast_down = ucast_down_mult ucast_down_add ucast_down_up

lemma mulsi3: "mulsi3 cpu a b = a * b"
proof -
  have "ucast (ucast a * ucast b :: u64) = a * b"
    by (simp add: ucast_down)
  then show ?thesis by (simp add: mulsi3_def muls_l_def umul32_wide)
qed

lemma word_split_32: "(v :: u64) = push_bit 32 (ucast (ucast (drop_bit 32 v) :: u32)) + ucast (ucast v :: u32)"
  by (subst disjunctive_add) (auto simp: bit_simps intro!: bit_word_eqI dest: bit_imp_le_length)

lemma push_ucast_32: "push_bit 32 (ucast (a :: u32) :: u64) = push_bit 32 b"
  if "ucast b = a" for b :: u64
  using that by (auto simp: bit_eq_iff bit_simps)

lemma muldi3: "muldi3 cpu a b = a * b"
proof -
  define ah al bh bl :: u64 where "ah = ucast (ucast (drop_bit 32 a) :: u32)" and "al = ucast (ucast a :: u32)"
    and "bh = ucast (ucast (drop_bit 32 b) :: u32)" and "bl = ucast (ucast b :: u32)"
  have "a * b = (push_bit 32 ah + al) * (push_bit 32 bh + bl)"
    using word_split_32 [of a] word_split_32 [of b] by (simp add: ah_def al_def bh_def bl_def)
  also have "\<dots> = al * bl + push_bit 32 (al * bh + ah * bl) + push_bit 64 (ah * bh)"
    by (simp add: push_bit_eq_mult algebra_simps)
  also have "push_bit 64 (ah * bh) = 0"
    by (rule bit_word_eqI) (simp add: bit_simps)
  also have "push_bit 32 (al * bh + ah * bl)
      = push_bit 32 (ucast (ucast a * ucast (drop_bit 32 b) + ucast (drop_bit 32 a) * ucast b :: u32))"
    by (rule push_ucast_32 [symmetric])
      (simp add: ah_def al_def bh_def bl_def ucast_down)
  finally show ?thesis
    by (simp add: muldi3_def Let_def umul32_wide umul32_low al_def bl_def)
qed

section \<open>Division by a 16-bit number\<close>

lemma word_join_eq:
  assumes "unat b < 65536" and "unat a < 65536" and "unat (c :: u32) = unat a * 65536 + unat b"
  shows "push_bit 16 a OR b = c"
  using assms unat_join [of b 16 a] by (simp add: word_unat_eq_iff)

lemma unat_join_16:
  fixes a b :: u32
  assumes "unat b < 65536" and "unat a < 65536"
  shows "unat (push_bit 16 a OR b) = unat a * 65536 + unat b"
  using assms unat_join [of b 16 a] by simp

lemma join_parts:
  fixes a b :: u32
  assumes "unat b < 65536" and "unat a < 65536"
  shows "low16 (push_bit 16 a OR b) = b" and "drop_bit 16 (push_bit 16 a OR b) = a"
  using assms by (simp_all add: word_unat_eq_iff unat_low16 unat_drop unat_join_16 del: drop_bit_or)

lemma quotient_16:
  fixes n d :: nat
  assumes "n div 65536 < d"
  shows "n div d < 65536"
proof -
  have "n < d * 65536" using assms by (simp add: div_less_iff_less_mult)
  then show ?thesis using assms by (simp add: div_less_iff_less_mult mult.commute)
qed

lemma divu32_16_step:
  assumes "unat d < 65536" and "unat n div 65536 < unat d"
  shows "ami_divu32_16_step cpu n d = Some (n div d, n mod d)"
proof -
  have d: "d \<noteq> 0" using assms(2) by auto
  have "unat (n div d) < 65536" using quotient_16 [OF assms(2)] by (simp add: unat_div)
  moreover from this have "\<not> 0x10000 \<le> n div d" by (simp add: word_le_nat_alt)
  moreover have "unat (n mod d) < 65536"
    using assms d by (simp add: unat_mod) (meson less_trans mod_less_divisor unat_gt_0)
  ultimately show ?thesis
    using d by (simp add: ami_divu32_16_step_def divu_w_def low16_small assms(1) join_parts Let_def del: drop_bit_or)
qed

lemma two_digits:
  fixes n d :: nat
  assumes "0 < d"
  shows "n div B div d * B + (n div B mod d * B + n mod B) div d = n div d"
    and "(n div B mod d * B + n mod B) mod d = n mod d"
proof -
  define a q r c where "a = n div B" and "q = a div d" and "r = a mod d" and "c = n mod B"
  have "n = a * B + c" and "a = q * d + r" by (simp_all add: a_def q_def r_def c_def)
  then have n: "n = q * B * d + (r * B + c)" by (simp add: algebra_simps)
  have "n div d = q * B + (r * B + c) div d" "n mod d = (r * B + c) mod d"
    unfolding n using assms by simp_all
  then show "n div B div d * B + (n div B mod d * B + n mod B) div d = n div d"
    and "(n div B mod d * B + n mod B) mod d = n mod d"
    by (simp_all add: a_def q_def r_def c_def)
qed

lemma divu32_16:
  assumes "0 < unat d" and "unat d < 65536"
  shows "ami_divu32_16 cpu n d = Some (n div d, n mod d)"
proof (cases "rt_asm cpu \<and> ami_rt_020 cpu")
  case True
  have "n - n div d * d = n mod d"
    by (metis add_diff_cancel_left' word_mod_div_equality)
  moreover have "d \<noteq> 0" using assms by auto
  ultimately show ?thesis using True by (simp add: ami_divu32_16_def divu_l_def muls_l_def)
next
  case False
  define n1 where "n1 = drop_bit 16 n"
  have n1: "unat n1 = unat n div 65536" by (simp add: n1_def unat_drop)
  have "unat n1 < 65536" using unat_lt_32 [of n] by (simp add: n1)
  then have "ami_divu32_16_step cpu n1 d = Some (n1 div d, n1 mod d)"
    using assms by (intro divu32_16_step) simp_all
  moreover define n2 where "n2 = push_bit 16 (n1 mod d) OR n AND 0xFFFF"
  have r: "unat (n1 mod d) < unat d" using assms by (simp add: unat_mod)
  then have "unat (n1 mod d) < 65536" using assms by linarith
  then have n2: "unat n2 = (unat n div 65536 mod unat d) * 65536 + unat n mod 65536"
    unfolding n2_def by (subst unat_join_16) (simp_all add: unat_and_16 unat_mod n1)
  have "unat n2 div 65536 < unat d" using r by (simp add: n2 unat_mod n1)
  then have "ami_divu32_16_step cpu n2 d = Some (n2 div d, n2 mod d)"
    using assms by (intro divu32_16_step) simp_all
  moreover have "n2 mod d = n mod d"
    using two_digits(2) [of "unat d" "unat n" 65536] assms by (simp add: word_unat_eq_iff unat_mod n2)
  moreover have "push_bit 16 (n1 div d) OR n2 div d = n div d"
  proof (rule word_join_eq)
    show "unat (n2 div d) < 65536"
      using quotient_16 [OF \<open>unat n2 div 65536 < unat d\<close>] by (simp add: unat_div)
    show "unat (n1 div d) < 65536"
      using \<open>unat n1 < 65536\<close> by (simp add: unat_div) (meson div_le_dividend le_less_trans)
    show "unat (n div d) = unat (n1 div d) * 65536 + unat (n2 div d)"
      using two_digits(1) [of "unat d" "unat n" 65536] assms by (simp add: unat_div n1 n2)
  qed
  ultimately show ?thesis
    using False by (auto simp: ami_divu32_16_def n1_def n2_def)
qed


section \<open>The digits of the soft divide\<close>

text \<open>
  With the divisor \<open>v = v1 * 65536 + v0\<close> and a running remainder \<open>U < v\<close>, the test of the
  correction loop is exact: the estimate is too large if and only if the test holds, so the loop
  ends with the digit of the true quotient.
\<close>

lemma estimate_test:
  fixes U v1 v0 un q rhat :: nat
  assumes "U = q * v1 + rhat"
  shows "(rhat * 65536 + un < q * v0) = (U * 65536 + un < q * (v1 * 65536 + v0))"
  using assms by (simp add: algebra_simps)

lemma digit_bound:
  fixes U v un :: nat
  assumes "U < v" and "un < 65536"
  shows "(U * 65536 + un) div v < 65536"
proof -
  have "(U + 1) * 65536 \<le> v * 65536" using assms(1) by (intro mult_le_mono) auto
  then have "U * 65536 + un < 65536 * v" using assms(2) by simp
  then show ?thesis using assms(1) by (simp add: div_less_iff_less_mult)
qed

lemma too_large:
  fixes N v q :: nat
  assumes "0 < v" and "N < q * v"
  shows "0 < q" and "N div v \<le> q - 1"
proof -
  show q: "0 < q" using assms(2) by (cases q) auto
  have "N div v < q" using assms by (simp add: div_less_iff_less_mult)
  then show "N div v \<le> q - 1" using q by simp
qed

text \<open>When the loop stops because the remainder estimate has left sixteen bits.\<close>

lemma large_rhat:
  fixes U v1 v0 un q rhat :: nat
  assumes "U < v1 * 65536 + v0" and "v0 < 65536" and "U = q * v1 + rhat" and "65536 \<le> rhat"
  shows "q * (v1 * 65536 + v0) \<le> U * 65536 + un"
proof -
  have "q < 65536"
  proof (rule ccontr)
    assume "\<not> q < 65536"
    then have "65536 * v1 \<le> q * v1" by (intro mult_le_mono) auto
    then show False using assms by linarith
  qed
  then have "q * v0 \<le> 65536 * 65536" using assms(2) by (intro mult_le_mono) auto
  also have "\<dots> \<le> rhat * 65536" using assms(4) by simp
  finally have "\<not> rhat * 65536 + un < q * v0" by simp
  then show ?thesis using estimate_test [OF assms(3)] by simp
qed

lemma fix_digit:
  fixes U :: nat
  assumes "U < unat v1 * 65536 + unat v0" and "0 < unat v1" and "unat v1 < 65536" and "unat v0 < 65536"
    and "unat un < 65536" and "U = unat q * unat v1 + unat rhat" and "unat rhat < 65536"
    and "(U * 65536 + unat un) div (unat v1 * 65536 + unat v0) \<le> unat q"
  shows "unat (fix_digit cpu v1 v0 un q rhat) = (U * 65536 + unat un) div (unat v1 * 65536 + unat v0)"
  using assms
proof (induction cpu v1 v0 un q rhat rule: fix_digit.induct)
  case (1 cpu v1 v0 un q rhat)
  define v where "v = unat v1 * 65536 + unat v0"
  define N where "N = U * 65536 + unat un"
  have v: "0 < v" using "1.prems"(2) by (simp add: v_def)
  have digit: "N div v < 65536"
    unfolding N_def v_def using "1.prems"(1,5) by (rule digit_bound)
  have join: "unat (push_bit 16 rhat OR un) = unat rhat * 65536 + unat un"
    using "1.prems" by (intro unat_join_16)
  have test: "(drop_bit 16 q \<noteq> 0 \<or> push_bit 16 rhat OR un < ami_umul16 cpu q v0)
                = (65536 \<le> unat q \<or> N < unat q * v)"
  proof (cases "unat q < 65536")
    case True
    then have "drop_bit 16 q = 0" by (simp add: word_unat_eq_iff unat_drop)
    then show ?thesis
      using True estimate_test [OF "1.prems"(6), of "unat un" "unat v0"] "1.prems"(4)
      by (simp add: word_less_nat_alt join unat_umul16 N_def v_def)
  next
    case False
    then have "drop_bit 16 q \<noteq> 0" by (simp add: word_unat_eq_iff unat_drop div_eq_0_iff)
    with False show ?thesis by simp
  qed
  show ?case
  proof (cases "65536 \<le> unat q \<or> N < unat q * v")
    case True
    then have less: "N div v \<le> unat q - 1" and q: "0 < unat q"
      using digit too_large [OF v, of N "unat q"] by auto
    have q': "unat (q - 1) = unat q - 1" using q by (simp add: unat_minus_one unat_gt_0)
    have r': "unat (rhat + v1) = unat rhat + unat v1"
      using "1.prems" by (intro unat_add_nowrap) simp
    have U': "U = unat (q - 1) * unat v1 + unat (rhat + v1)"
      using "1.prems"(6) q unfolding q' r' by (simp add: diff_mult_distrib)
    show ?thesis
    proof (cases "drop_bit 16 (rhat + v1) = 0")
      case small: True
      then have "unat (rhat + v1) < 65536" by (simp add: word_unat_eq_iff unat_drop div_eq_0_iff)
      moreover have "N div v \<le> unat (q - 1)" using less q' by simp
      ultimately have "unat (fix_digit cpu v1 v0 un (q - 1) (rhat + v1)) = N div v"
        using "1.IH" True test small "1.prems" U' unfolding N_def v_def by blast
      then show ?thesis
        using True test small by (subst fix_digit.simps) (simp add: N_def v_def)
    next
      case False
      then have "65536 \<le> unat (rhat + v1)" by (simp add: word_unat_eq_iff unat_drop div_eq_0_iff)
      then have "unat (q - 1) * v \<le> N"
        using large_rhat [OF "1.prems"(1,4) U'] by (simp add: N_def v_def)
      then have "unat (q - 1) \<le> N div v" using v by (simp add: less_eq_div_iff_mult_less_eq)
      then show ?thesis
        using True test False less q' by (subst fix_digit.simps) (simp add: N_def v_def)
    qed
  next
    case False
    then have "unat q * v \<le> N" by simp
    then have "unat q \<le> N div v" using v by (simp add: less_eq_div_iff_mult_less_eq)
    then show ?thesis
      using False test "1.prems"(8) by (subst fix_digit.simps) (simp add: N_def v_def)
  qed
qed

lemma estimate_above:
  fixes U un v1 v0 :: nat
  assumes "0 < v1" and "un < 65536"
  shows "(U * 65536 + un) div (v1 * 65536 + v0) \<le> U div v1"
proof -
  have "U < (U div v1 + 1) * v1" using assms(1) by (simp add: dividend_less_div_times)
  then have "(U + 1) * 65536 \<le> (U div v1 + 1) * v1 * 65536" by (intro mult_le_mono) auto
  also have "\<dots> \<le> (U div v1 + 1) * (v1 * 65536 + v0)" by (simp add: algebra_simps)
  finally have "U * 65536 + un < (U div v1 + 1) * (v1 * 65536 + v0)" using assms(2) by simp
  then have "(U * 65536 + un) div (v1 * 65536 + v0) < U div v1 + 1"
    using assms(1) by (simp add: div_less_iff_less_mult)
  then show ?thesis by simp
qed

lemma soft_digit:
  fixes U v un :: u32
  assumes "unat U < unat v" and "2 ^ 31 \<le> unat v" and "unat un < 65536"
    and q: "q = fix_digit cpu (drop_bit 16 v) (v AND 0xFFFF) un (U div drop_bit 16 v) (U mod drop_bit 16 v)"
  shows "unat q = (unat U * 65536 + unat un) div unat v"
    and "unat (push_bit 16 U + un - ami_umul16x32 cpu q v) = (unat U * 65536 + unat un) mod unat v"
proof -
  define v1 where "v1 = drop_bit 16 v"
  define v0 where "v0 = v AND 0xFFFF"
  have v1: "unat v1 = unat v div 65536" and v0: "unat v0 = unat v mod 65536"
    by (simp_all add: v1_def v0_def unat_drop unat_and_16)
  have v: "unat v = unat v1 * 65536 + unat v0" by (simp add: v1 v0)
  have pos: "0 < unat v1" "unat v1 < 65536" "unat v0 < 65536"
    using assms(2) unat_lt_32 [of v] by (auto simp: v1 v0 div_greater_zero_iff)
  define N where "N = unat U * 65536 + unat un"
  show digit: "unat q = (unat U * 65536 + unat un) div unat v"
    unfolding q v1_def [symmetric] v0_def [symmetric] v
  proof (rule fix_digit)
    show "unat U = unat (U div v1) * unat v1 + unat (U mod v1)"
      by (simp add: unat_div unat_mod)
    show "unat (U mod v1) < 65536" using pos by (simp add: unat_mod) (meson less_trans mod_less_divisor)
    show "(unat U * 65536 + unat un) div (unat v1 * 65536 + unat v0) \<le> unat (U div v1)"
      using estimate_above [OF pos(1) assms(3)] by (simp add: unat_div)
  qed (use assms pos v in simp_all)
  then have "unat q < 65536" using digit_bound [OF assms(1,3)] by simp
  moreover have "q = of_nat (N div unat v)"
    unfolding N_def digit [symmetric] by simp
  ultimately have "push_bit 16 U + un - ami_umul16x32 cpu q v = of_nat N - of_nat (N div unat v * unat v)"
    by (simp add: umul16x32 push_bit_eq_mult N_def)
  also have "\<dots> = of_nat (N mod unat v)"
    by (metis add_diff_cancel_left' div_mult_mod_eq of_nat_add)
  also have "unat (of_nat (N mod unat v) :: u32) = N mod unat v"
  proof -
    have "N mod unat v < 2 ^ 32" using assms(1) by (intro mod_lt_32) simp
    then show ?thesis by (simp add: unat_of_nat)
  qed
  finally show "unat (push_bit 16 U + un - ami_umul16x32 cpu q v) = (unat U * 65536 + unat un) mod unat v"
    by (simp add: N_def)
qed

lemma normalise:
  fixes hi lo :: u32
  assumes "s < 32" and "(unat hi + 1) * 2 ^ s \<le> 2 ^ 32"
  shows "unat (push_bit s hi OR (if s \<noteq> 0 then drop_bit (32 - s) lo else 0)) * 2 ^ 32
           + unat (push_bit s lo) = (unat hi * 2 ^ 32 + unat lo) * 2 ^ s"
proof -
  define t where "t = (if s \<noteq> 0 then drop_bit (32 - s) lo else 0)"
  have split: "(2 :: nat) ^ 32 = 2 ^ (32 - s) * 2 ^ s" using assms(1) by (simp flip: power_add)
  have t: "unat t = unat lo div 2 ^ (32 - s)"
    using unat_lt_32 [of lo] by (simp add: t_def unat_drop)
  have "unat lo div 2 ^ (32 - s) < 2 ^ s"
    using unat_lt_32 [of lo] unfolding split by (simp only: div_less_iff_less_mult zero_less_power
        zero_less_numeral mult.commute [of "2 ^ s"])
  then have "unat (push_bit s hi OR t) = unat hi * 2 ^ s + unat lo div 2 ^ (32 - s)"
    using unat_join [of t s hi] assms(2) by (simp only: t add_mult_distrib) simp
  moreover have "unat (push_bit s lo) = (unat lo * 2 ^ s) mod 2 ^ 32"
    by (simp add: unsigned_push_bit_eq) (simp add: push_bit_eq_mult take_bit_eq_mod)
  moreover have "(unat lo * 2 ^ s) div 2 ^ 32 = unat lo div 2 ^ (32 - s)"
    unfolding split by (simp add: div_mult2_eq mult.commute)
  moreover have "unat lo * 2 ^ s = (unat lo * 2 ^ s) div 2 ^ 32 * 2 ^ 32 + (unat lo * 2 ^ s) mod 2 ^ 32"
    by (simp only: div_mult_mod_eq)
  ultimately show ?thesis unfolding t_def [symmetric] by (simp add: algebra_simps)
qed

lemma wide_quotient:
  assumes "hi < d"
  shows "unat (ucast (wide hi lo div ucast d) :: u32) = (unat hi * 2 ^ 32 + unat lo) div unat d" (is ?q)
    and "unat (ucast (wide hi lo mod ucast d) :: u32) = (unat hi * 2 ^ 32 + unat lo) mod unat d" (is ?r)
proof -
  have hi: "unat hi < unat d" using assms by (simp add: word_less_nat_alt)
  then have "(unat hi + 1) * 2 ^ 32 \<le> unat d * 2 ^ 32" by (intro mult_le_mono) auto
  then have "unat hi * 2 ^ 32 + unat lo < 2 ^ 32 * unat d" using unat_lt_32 [of lo] by (simp add: mult.commute)
  then have "(unat hi * 2 ^ 32 + unat lo) div unat d < 2 ^ 32"
    using hi by (subst div_less_iff_less_mult) auto
  then show ?q
    by (simp add: unsigned_ucast_eq [of "_ div _"] take_bit_eq_mod unat_div unat_wide unat_ucast_up)
  have "(unat hi * 2 ^ 32 + unat lo) mod unat d < 2 ^ 32"
    using hi by (intro mod_lt_32) simp
  then show ?r
    by (simp add: unsigned_ucast_eq [of "_ mod _"] take_bit_eq_mod unat_mod unat_wide unat_ucast_up)
qed

lemma soft_small:
  assumes "hi < divisor" and small: "divisor < 0x10000"
  shows "ami_divu64_32_soft cpu hi lo divisor =
           Some (ucast (wide hi lo div ucast divisor), ucast (wide hi lo mod ucast divisor))"
proof -
  define d where "d = unat divisor"
  define N where "N = unat hi * 2 ^ 32 + unat lo"
  have d: "d < 65536" "unat hi < d"
    using assms by (simp_all add: d_def word_less_nat_alt)
  define n1 where "n1 = push_bit 16 hi OR drop_bit 16 lo"
  have "unat lo div 65536 < 65536" using unat_lt_32 [of lo] by simp
  then have n1: "unat n1 = N div 65536"
    unfolding n1_def N_def using d by (subst unat_join_16) (simp_all add: unat_drop)
  have "unat n1 div 65536 = unat hi" using unat_lt_32 [of lo] by (simp add: n1 N_def flip: div_mult2_eq)
  then have s1: "ami_divu32_16_step cpu n1 divisor = Some (n1 div divisor, n1 mod divisor)"
    using d by (intro divu32_16_step) (simp_all add: d_def)
  define n2 where "n2 = push_bit 16 (n1 mod divisor) OR lo AND 0xFFFF"
  have r: "unat (n1 mod divisor) < d" using d by (simp add: unat_mod d_def)
  have n2: "unat n2 = N div 65536 mod d * 65536 + N mod 65536"
  proof -
    have "unat (n1 mod divisor) < 65536" using r d by linarith
    then have "unat n2 = unat (n1 mod divisor) * 65536 + unat (lo AND 0xFFFF)"
      unfolding n2_def by (intro unat_join_16) (simp_all add: unat_and_16)
    moreover have "unat lo mod 65536 = N mod 65536" by (simp add: N_def mod_add_eq flip: mod_add_left_eq)
    ultimately show ?thesis by (simp add: unat_mod n1 d_def unat_and_16)
  qed
  have "unat n2 div 65536 < d" using r by (simp add: n2 unat_mod n1 d_def)
  then have s2: "ami_divu32_16_step cpu n2 divisor = Some (n2 div divisor, n2 mod divisor)"
    using d by (intro divu32_16_step) (simp_all add: d_def)
  have "0 < d" using d by simp
  note two = two_digits [OF this, of N 65536]
  have "n2 mod divisor = ucast (wide hi lo mod ucast divisor)"
    using two(2) wide_quotient(2) [OF assms(1)] by (simp add: word_unat_eq_iff unat_mod n2 d_def N_def)
  moreover have "push_bit 16 (n1 div divisor) OR n2 div divisor = ucast (wide hi lo div ucast divisor)"
  proof (rule word_join_eq)
    show "unat (n2 div divisor) < 65536"
      using quotient_16 [OF \<open>unat n2 div 65536 < d\<close>] by (simp add: unat_div d_def)
    show "unat (n1 div divisor) < 65536"
      using quotient_16 [of "unat n1" d] \<open>unat n1 div 65536 = unat hi\<close> d by (simp add: unat_div d_def)
    show "unat (ucast (wide hi lo div ucast divisor) :: u32) = unat (n1 div divisor) * 65536 + unat (n2 div divisor)"
      using two(1) wide_quotient(1) [OF assms(1)] by (simp add: unat_div n1 n2 d_def N_def)
  qed
  ultimately show ?thesis
    using small s1 s2 by (auto simp: ami_divu64_32_soft_def n1_def n2_def)
qed

lemma soft_large:
  assumes "hi < divisor" and large: "\<not> divisor < 0x10000"
  shows "ami_divu64_32_soft cpu hi lo divisor =
           Some (ucast (wide hi lo div ucast divisor), ucast (wide hi lo mod ucast divisor))"
proof -
  define s where "s = ami_clz32 divisor"
  define v where "v = push_bit s divisor"
  define N where "N = unat hi * 2 ^ 32 + unat lo"
  have "divisor \<noteq> 0" using large by auto
  note clz = ami_clz32 [OF this, folded s_def]
  have v: "unat v = unat divisor * 2 ^ s" unfolding v_def using clz(2) by (intro unat_push) simp
  have hi: "unat hi < unat divisor" using assms(1) by (simp add: word_less_nat_alt)
  then have "(unat hi + 1) * 2 ^ s \<le> unat divisor * 2 ^ s" by (intro mult_le_mono) auto
  then have hi_s: "(unat hi + 1) * 2 ^ s \<le> 2 ^ 32" using clz(2) by linarith
  define un32 where "un32 = push_bit s hi OR (if s \<noteq> 0 then drop_bit (32 - s) lo else 0)"
  define un10 where "un10 = push_bit s lo"
  define un1 where "un1 = drop_bit 16 un10"
  define un0 where "un0 = un10 AND 0xFFFF"
  have un1: "unat un1 = unat un10 div 65536" "unat un1 < 65536" and un0: "unat un0 = unat un10 mod 65536" "unat un0 < 65536"
    using unat_lt_32 [of un10] by (simp_all add: un1_def un0_def unat_drop unat_and_16)
  have norm: "unat un32 * 2 ^ 32 + unat un10 = N * 2 ^ s"
    using normalise [OF clz(1) hi_s] by (simp add: un32_def un10_def N_def)
  have "(unat hi + 1) * 2 ^ 32 \<le> unat divisor * 2 ^ 32" using hi by (intro mult_le_mono) auto
  then have "N < unat divisor * 2 ^ 32" using unat_lt_32 [of lo] by (simp add: N_def)
  then have "N * 2 ^ s < unat v * 2 ^ 32" by (simp add: v)
  then have "unat un32 * 2 ^ 32 < unat v * 2 ^ 32" using norm by linarith
  then have U: "unat un32 < unat v" by (rule mult_right_less_imp_less) simp
  have top: "2 ^ 31 \<le> unat v" using clz(3) by (simp add: v)
  then have v1: "0 < unat (drop_bit 16 v)" "unat (drop_bit 16 v) < 65536"
    using unat_lt_32 [of v] by (simp_all add: unat_drop div_greater_zero_iff)
  define q1 where "q1 = fix_digit cpu (drop_bit 16 v) (v AND 0xFFFF) un1 (un32 div drop_bit 16 v) (un32 mod drop_bit 16 v)"
  define un21 where "un21 = push_bit 16 un32 + un1 - ami_umul16x32 cpu q1 v"
  note d1 = soft_digit [OF U top un1(2) q1_def, folded un21_def]
  have U2: "unat un21 < unat v" unfolding d1(2) using U by simp
  define q0 where "q0 = fix_digit cpu (drop_bit 16 v) (v AND 0xFFFF) un0 (un21 div drop_bit 16 v) (un21 mod drop_bit 16 v)"
  define r where "r = push_bit 16 un21 + un0 - ami_umul16x32 cpu q0 v"
  note d0 = soft_digit [OF U2 top un0(2) q0_def, folded r_def]
  define M where "M = N * 2 ^ s"
  have M: "M = (unat un32 * 65536 + unat un1) * 65536 + unat un0"
    using norm un1(1) un0(1) by (simp add: M_def algebra_simps)
  then have "M div 65536 = unat un32 * 65536 + unat un1" "M mod 65536 = unat un0"
    by (simp_all only: low_digit [OF un0(2)])
  moreover have "0 < unat v" using U by simp
  ultimately have div: "unat q1 * 65536 + unat q0 = M div unat v" and mod: "unat r = M mod unat v"
    using two_digits [of "unat v" M 65536] d1 d0 by simp_all
  have "push_bit 16 q1 OR q0 = ucast (wide hi lo div ucast divisor)"
  proof (rule word_join_eq)
    show "unat q0 < 65536" unfolding d0(1) by (rule digit_bound [OF U2 un0(2)])
    show "unat q1 < 65536" unfolding d1(1) by (rule digit_bound [OF U un1(2)])
    have "M div unat v = N div unat divisor" by (simp add: M_def v)
    then show "unat (ucast (wide hi lo div ucast divisor) :: u32) = unat q1 * 65536 + unat q0"
      using div wide_quotient(1) [OF assms(1)] by (simp add: N_def)
  qed
  moreover have "drop_bit s r = ucast (wide hi lo mod ucast divisor)"
  proof -
    have "M mod unat v = N mod unat divisor * 2 ^ s" by (simp add: M_def v mod_mult_mult2)
    then show ?thesis
      using mod wide_quotient(2) [OF assms(1)] by (simp add: word_unat_eq_iff unat_drop N_def)
  qed
  ultimately show ?thesis
    unfolding ami_divu64_32_soft_def Let_def s_def [symmetric] v_def [symmetric] un32_def [symmetric]
      un10_def [symmetric] un1_def [symmetric] un0_def [symmetric]
    using large by (simp add: divu32_16 [OF v1] flip: q1_def un21_def q0_def r_def)
qed

lemma divu64_32_soft:
  assumes "hi < divisor"
  shows "ami_divu64_32_soft cpu hi lo divisor =
           Some (ucast (wide hi lo div ucast divisor), ucast (wide hi lo mod ucast divisor))"
  using assms soft_small soft_large by blast

lemma divu64_32:
  assumes "hi < divisor"
  shows "ami_divu64_32 cpu hi lo divisor =
           Some (ucast (wide hi lo div ucast divisor), ucast (wide hi lo mod ucast divisor))"
  using assms divu64_32_soft [OF assms] by (auto simp: ami_divu64_32_def divu_l_wide_def)

section \<open>Pairs of longwords\<close>

lemma wide_add: "wide hi lo = push_bit 32 (ucast hi) + ucast lo"
  unfolding wide_def
  by (rule or_is_add) (use unat_lt_32 [of lo] in \<open>simp add: unat_ucast_up\<close>)

lemma wide_parts [simp]: "wide (ucast (drop_bit 32 v)) (ucast v) = v"
  unfolding wide_add by (rule word_split_32 [symmetric])

lemma ucast_down_diff: "(ucast (x - y :: u64) :: u32) = ucast x - ucast y"
  using ucast_down_add [of "x - y" y] by simp

lemma ucast_borrow: "(ucast (a - b :: u32) :: u64) = ucast a - ucast b + push_bit 32 (of_bool (a < b))"
proof (cases "a < b")
  case True
  then have "unat (a - b) = unat a + 2 ^ 32 - unat b"
    by (simp add: unat_sub_if' word_less_nat_alt)
  moreover have "unat b \<le> unat a + 2 ^ 32" using unat_lt_32 [of b] by simp
  ultimately have "of_nat (unat (a - b)) = (of_nat (unat a) + 2 ^ 32 - of_nat (unat b) :: u64)"
    by (simp add: of_nat_diff)
  then show ?thesis using True by (simp add: push_bit_eq_mult)
next
  case False
  then have "unat (a - b) = unat a - unat b" "unat b \<le> unat a"
    by (simp_all add: word_less_nat_alt unat_sub_if')
  then have "of_nat (unat (a - b)) = (of_nat (unat a) - of_nat (unat b) :: u64)"
    by (simp add: of_nat_diff)
  then show ?thesis using False by simp
qed

lemma wide_borrow:
  "wide (a1 - b1 - of_bool (a0 < b0)) (a0 - b0) = wide a1 a0 - wide b1 b0"
proof -
  have "push_bit 32 (ucast (a1 - b1 - of_bool (a0 < b0)))
          = push_bit 32 (ucast a1 - ucast b1 - of_bool (a0 < b0) :: u64)"
    by (rule push_ucast_32) (simp add: ucast_down_diff ucast_down_up)
  then show ?thesis
    by (simp add: wide_add ucast_borrow push_bit_eq_mult algebra_simps)
qed

lemma wide_shift:
  assumes "s \<le> 32"
  shows "wide (drop_bit s hi) (push_bit (32 - s) hi OR drop_bit s lo) = drop_bit s (wide hi lo)"
proof (rule bit_word_eqI)
  fix n assume n: "n < LENGTH(64)"
  show "bit (wide (drop_bit s hi) (push_bit (32 - s) hi OR drop_bit s lo)) n = bit (drop_bit s (wide hi lo)) n"
  proof (cases "n < 32")
    case True
    have "bit hi (n - (32 - s)) = bit hi (s + n - 32)" if "32 - s \<le> n"
      using that assms by (simp add: add.commute)
    with True assms show ?thesis by (auto simp: wide_def bit_simps dest: bit_imp_le_length)
  next
    case False
    then obtain m where "n = 32 + m" using le_Suc_ex not_less by blast
    with n assms show ?thesis by (auto simp: wide_def bit_simps dest: bit_imp_le_length)
  qed
qed

lemma wide_less: "(wide a1 a0 < wide b1 b0) = (a1 < b1 \<or> a1 = b1 \<and> a0 < b0)"
proof -
  have *: "(a * 4294967296 + c < b * 4294967296 + d) = (a < b \<or> a = b \<and> c < d)"
    if "c < 4294967296" "d < 4294967296" for a b c d :: nat
    using that by (cases a b rule: linorder_cases) auto
  show ?thesis
    using * [of "unat a0" "unat b0" "unat a1" "unat b1"] unat_lt_32 [of a0] unat_lt_32 [of b0]
    by (simp add: word_less_nat_alt unat_wide word_unat_eq_iff)
qed

section \<open>A divisor of more than 32 bits\<close>

text \<open>One correction is enough: the estimate is at most one too large.\<close>

lemma one_correction:
  fixes T h l n0 qh bm :: nat
  assumes h: "2 ^ 31 \<le> h" and l: "l < 2 ^ 32" and bm: "0 < bm" "bm \<le> 31"
    and T: "T < 2 ^ (32 + bm)" "T < h * 2 ^ 32" and odd: "bm = 31 \<Longrightarrow> l \<le> 2 ^ 31"
    and qh: "qh = T div h"
  shows "(qh - 1) * (h * 2 ^ 32 + l) \<le> T * 2 ^ 32 + n0"
proof -
  have "qh * l \<le> h * 2 ^ 32"
  proof (cases "bm = 31")
    case True
    have "qh < 2 ^ 32" using T(2) h unfolding qh by (simp add: div_less_iff_less_mult mult.commute)
    then have "qh * l \<le> 2 ^ 32 * 2 ^ 31" using odd [OF True] by (intro mult_le_mono) auto
    also have "\<dots> \<le> h * 2 ^ 32" using h by simp
    finally show ?thesis .
  next
    case False
    have "(2 :: nat) ^ (32 + bm) \<le> 2 ^ 62" using bm False by (intro power_increasing) auto
    then have "T < 2 ^ 31 * 2 ^ 31" using T(1) by simp
    also have "\<dots> \<le> h * 2 ^ 31" using h by simp
    finally have "qh < 2 ^ 31" using h unfolding qh by (simp add: div_less_iff_less_mult mult.commute)
    then have "qh * l \<le> h * 2 ^ 32" using h l by (intro mult_le_mono) auto
    then show ?thesis .
  qed
  moreover have "qh * h \<le> T" unfolding qh by simp
  then have "qh * h * 2 ^ 32 \<le> T * 2 ^ 32" by simp
  moreover define D where "D = h * 2 ^ 32 + l"
  then have "qh * D = qh * h * 2 ^ 32 + qh * l" "h * 2 ^ 32 \<le> D" by (simp_all add: algebra_simps)
  moreover have "(qh - 1) * D = qh * D - D" by (simp only: diff_mult_distrib nat_mult_1)
  ultimately show ?thesis unfolding D_def [symmetric] by linarith
qed

text \<open>Quotient and remainder after the correction, as naturals.\<close>

lemma corrected_quotient:
  fixes T h l n0 qh :: nat
  assumes "0 < h" and "n0 < 2 ^ 32" and "qh = T div h"
    and "(qh - 1) * (h * 2 ^ 32 + l) \<le> T * 2 ^ 32 + n0"
  shows "(T * 2 ^ 32 + n0) div (h * 2 ^ 32 + l)
           = (if T mod h * 2 ^ 32 + n0 < qh * l then qh - 1 else qh)"
    and "T mod h * 2 ^ 32 + n0 < qh * l \<Longrightarrow> 0 < qh"
proof -
  define D N where "D = h * 2 ^ 32 + l" and "N = T * 2 ^ 32 + n0"
  have T: "T = qh * h + T mod h" unfolding assms(3) by simp
  have test: "(T mod h * 2 ^ 32 + n0 < qh * l) = (N < qh * D)"
    unfolding N_def D_def by (subst (2) T) (simp add: algebra_simps)
  show pos: "0 < qh" if "T mod h * 2 ^ 32 + n0 < qh * l" using that by (cases qh) auto
  have "T < (qh + 1) * h" unfolding assms(3) using assms(1) by (simp add: dividend_less_div_times)
  then have "(T + 1) * 2 ^ 32 \<le> (qh + 1) * h * 2 ^ 32" by (intro mult_le_mono) auto
  then have "N < (qh + 1) * h * 2 ^ 32" using assms(2) by (simp add: N_def)
  also have "\<dots> \<le> (qh + 1) * D" by (simp add: D_def algebra_simps)
  finally have up: "N < Suc qh * D" by simp
  have "N div D = (if N < qh * D then qh - 1 else qh)"
  proof (cases "N < qh * D")
    case True
    then have "0 < qh" by (cases qh) auto
    then have "N < Suc (qh - 1) * D" using True by simp
    then show ?thesis using True assms(4) div_nat_eqI [of D "qh - 1" N] by (simp add: N_def D_def mult.commute)
  next
    case False
    then show ?thesis using up div_nat_eqI [of D qh N] by (simp add: mult.commute)
  qed
  then show "(T * 2 ^ 32 + n0) div (h * 2 ^ 32 + l)
           = (if T mod h * 2 ^ 32 + n0 < qh * l then qh - 1 else qh)"
    by (simp only: test D_def N_def)
qed

lemma shifted_room:
  fixes x :: nat
  assumes "x * 2 ^ s < 2 ^ 32" and "s \<le> 32"
  shows "(x + 1) * 2 ^ s \<le> 2 ^ 32"
proof -
  have split: "(2 :: nat) ^ 32 = 2 ^ (32 - s) * 2 ^ s" using assms(2) by (simp flip: power_add)
  then have "x < 2 ^ (32 - s)" using assms(1) by (simp only: split mult_less_cancel2)
  then show ?thesis unfolding split by (intro mult_le_mono) auto
qed

text \<open>The three longwords of the shifted numerator.\<close>

lemma normalise3:
  fixes hi lo :: u32
  assumes "0 < s" and "s < 32"
  shows "(unat (drop_bit (32 - s) hi) * 2 ^ 32 + unat (push_bit s hi OR drop_bit (32 - s) lo)) * 2 ^ 32
           + unat (push_bit s lo) = (unat hi * 2 ^ 32 + unat lo) * 2 ^ s"
proof -
  define h where "h = take_bit (32 - s) hi"
  have h: "unat h = unat hi mod 2 ^ (32 - s)"
    by (simp add: h_def unsigned_take_bit_eq) (simp add: take_bit_eq_mod)
  have split: "(2 :: nat) ^ 32 = 2 ^ (32 - s) * 2 ^ s" using assms(2) by (simp flip: power_add)
  have "unat hi mod 2 ^ (32 - s) + 1 \<le> 2 ^ (32 - s)" by (simp add: Suc_le_eq)
  then have "(unat h + 1) * 2 ^ s \<le> 2 ^ 32" unfolding h split by (intro mult_le_mono) auto
  then have "unat (push_bit s h OR drop_bit (32 - s) lo) * 2 ^ 32 + unat (push_bit s lo)
               = (unat h * 2 ^ 32 + unat lo) * 2 ^ s"
    using normalise [OF assms(2), of h lo] assms(1) by simp
  moreover have "push_bit s h = push_bit s hi"
    unfolding h_def using assms by (intro bit_word_eqI) (auto simp: bit_simps)
  moreover have "unat hi = unat hi div 2 ^ (32 - s) * 2 ^ (32 - s) + unat h" by (simp only: h div_mult_mod_eq)
  then have "unat hi * 2 ^ 32 * 2 ^ s = (unat hi div 2 ^ (32 - s) * 2 ^ 32) * 2 ^ 32 + unat h * 2 ^ 32 * 2 ^ s"
  proof -
    have regroup: "x * w * q = a * (p * q) * w + y * w * q" if "x = a * p + y" for x a p y w q :: nat
      using that by (simp add: algebra_simps)
    show ?thesis
      using regroup [OF \<open>unat hi = _\<close>, of "2 ^ 32" "2 ^ s"] by (simp only: split [symmetric])
  qed
  ultimately show ?thesis by (simp add: unat_drop add_mult_distrib)
qed

lemma udivmod_top_bit:
  assumes "d_hi \<noteq> 0" and "d_hi \<le> n_hi" and clz: "ami_clz32 d_hi = 0"
  shows "udivmod_large cpu n_hi n_lo d_hi d_lo =
           Some (wide n_hi n_lo div wide d_hi d_lo, wide n_hi n_lo mod wide d_hi d_lo)"
proof -
  have N: "unat (wide n_hi n_lo) < 2 * unat (wide d_hi d_lo)"
    using ami_clz32(3) [OF assms(1)] clz unat_lt2p [of "wide n_hi n_lo"] by (simp add: unat_wide [of d_hi])
  have test: "(d_hi < n_hi \<or> d_lo \<le> n_lo) = (wide d_hi d_lo \<le> wide n_hi n_lo)"
    using assms(2) wide_less [of n_hi n_lo d_hi d_lo] by (auto simp: not_less [symmetric] word_less_nat_alt word_unat_eq_iff)
  show ?thesis
  proof (cases "wide d_hi d_lo \<le> wide n_hi n_lo")
    case le: True
    then have "unat (wide n_hi n_lo) div unat (wide d_hi d_lo) = 1"
      using N by (intro div_nat_eqI) (simp_all add: word_le_nat_alt)
    then have "wide n_hi n_lo div wide d_hi d_lo = 1" by (simp add: word_unat_eq_iff unat_div)
    moreover from this have "wide n_hi n_lo mod wide d_hi d_lo = wide n_hi n_lo - wide d_hi d_lo"
      using word_mod_div_equality [of "wide n_hi n_lo" "wide d_hi d_lo"] by (simp add: algebra_simps)
    ultimately show ?thesis
      using clz test le by (simp add: udivmod_large_def wide_borrow)
  next
    case False
    then have "wide n_hi n_lo < wide d_hi d_lo" by simp
    then have "unat (wide n_hi n_lo) < unat (wide d_hi d_lo)" by (simp only: word_less_nat_alt)
    then have "wide n_hi n_lo div wide d_hi d_lo = 0" "wide n_hi n_lo mod wide d_hi d_lo = wide n_hi n_lo"
      by (simp_all add: word_unat_eq_iff unat_div unat_mod)
    then show ?thesis using clz test False by (simp add: udivmod_large_def)
  qed
qed

text \<open>The correction and the remainder, in the wrapping arithmetic of the two longwords.\<close>

lemma correction_step:
  fixes q h l R n0 :: u32 and T :: nat
  assumes q: "unat q = T div unat h" and R: "unat R = T mod unat h" and h: "0 < unat h"
    and one: "(unat q - 1) * unat (wide h l) \<le> T * 2 ^ 32 + unat n0"
    and m: "m = ucast q * ucast l" and c: "c = (wide R n0 < m)"
  shows "unat (if c then q - 1 else q) = (T * 2 ^ 32 + unat n0) div unat (wide h l)"
    and "unat (wide R n0 - (if c then m - wide h l else m)) = (T * 2 ^ 32 + unat n0) mod unat (wide h l)"
proof -
  define N where "N = T * 2 ^ 32 + unat n0"
  define D where "D = unat (wide h l)"
  have D: "D = unat h * 2 ^ 32 + unat l" by (simp add: D_def unat_wide)
  have c': "c = (T mod unat h * 2 ^ 32 + unat n0 < unat q * unat l)"
    by (simp add: c m word_less_nat_alt unat_prod64 unat_wide R)
  have one': "(unat q - 1) * (unat h * 2 ^ 32 + unat l) \<le> T * 2 ^ 32 + unat n0"
    using one by (simp add: unat_wide)
  note quot = corrected_quotient [OF h unat_lt_32 [of n0] q one']
  have pos: "0 < unat q" if c using quot(2) that c' by blast
  then have minus: "unat (q - 1) = unat q - 1" if c using that by (simp add: unat_minus_one unat_gt_0)
  then show div: "unat (if c then q - 1 else q) = (T * 2 ^ 32 + unat n0) div unat (wide h l)"
    using quot(1) by (simp add: c' unat_wide)
  have "wide R n0 = of_nat (unat (wide R n0))" by simp
  then have "wide R n0 = of_nat (T mod unat h * 2 ^ 32 + unat n0)" by (simp only: unat_wide R)
  moreover have "T = unat q * unat h + T mod unat h" by (simp add: q)
  then have "N = unat q * (unat h * 2 ^ 32) + (T mod unat h * 2 ^ 32 + unat n0)"
    unfolding N_def by (metis (no_types, lifting) add.assoc add_mult_distrib mult.assoc)
  ultimately have "wide R n0 - m = of_nat N - of_nat (unat q) * of_nat D"
    by (simp add: m D algebra_simps)
  then have "wide R n0 - (if c then m - wide h l else m) = of_nat N - of_nat (unat (if c then q - 1 else q)) * of_nat D"
  proof -
    have qc: "(of_nat (unat (if c then q - 1 else q)) :: u64) = of_nat (unat q) - of_bool c"
    proof (cases c)
      case True
      then have "1 \<le> unat q" using pos by (simp add: Suc_le_eq)
      then show ?thesis using True by (simp only: minus if_True of_nat_diff of_nat_1 of_bool_eq)
    qed simp
    show ?thesis
      unfolding qc using \<open>wide R n0 - m = _\<close> by (cases c) (simp_all add: D_def algebra_simps)
  qed
  also have "\<dots> = of_nat N - of_nat (N div D * D)" by (simp add: div N_def D_def)
  also have "\<dots> = of_nat (N mod D)"
    by (metis add_diff_cancel_left' div_mult_mod_eq of_nat_add)
  also have "unat (of_nat (N mod D) :: u64) = N mod D"
  proof -
    have "0 < D" using h by (simp add: D)
    moreover have "D < 2 ^ 64" using unat_lt2p [of "wide h l"] by (simp add: D_def)
    ultimately have "N mod D < 2 ^ 64" using mod_less_divisor [of D N] by linarith
    then show ?thesis by (simp add: unat_of_nat)
  qed
  finally show "unat (wide R n0 - (if c then m - wide h l else m)) = (T * 2 ^ 32 + unat n0) mod unat (wide h l)"
    by (simp add: N_def D_def)
qed

lemma udivmod_shifted:
  assumes "d_hi \<noteq> 0" and "d_hi \<le> n_hi" and nz: "ami_clz32 d_hi \<noteq> 0"
  shows "udivmod_large cpu n_hi n_lo d_hi d_lo =
           Some (wide n_hi n_lo div wide d_hi d_lo, wide n_hi n_lo mod wide d_hi d_lo)"
proof -
  define bm where "bm = ami_clz32 d_hi"
  define b where "b = 32 - bm"
  note clz = ami_clz32 [OF assms(1), folded bm_def]
  have bm: "0 < bm" "bm \<le> 31" using nz clz(1) by (simp_all add: bm_def)
  define h where "h = push_bit bm d_hi OR drop_bit b d_lo"
  define l where "l = push_bit bm d_lo"
  define n2 where "n2 = drop_bit b n_hi"
  define n1 where "n1 = push_bit bm n_hi OR drop_bit b n_lo"
  define n0 where "n0 = push_bit bm n_lo"
  define N D where "N = unat (wide n_hi n_lo)" and "D = unat (wide d_hi d_lo)"
  define T where "T = unat (wide n2 n1)"
  have D': "unat h * 2 ^ 32 + unat l = D * 2 ^ bm"
    using normalise [OF clz(1), of d_hi d_lo] shifted_room [OF clz(2)] bm
    by (simp add: h_def l_def b_def D_def unat_wide)
  have N': "T * 2 ^ 32 + unat n0 = N * 2 ^ bm"
    using normalise3 [OF bm(1) clz(1), of n_hi n_lo]
    by (simp add: n2_def n1_def n0_def b_def N_def T_def unat_wide)
  have "2 ^ 31 * 2 ^ 32 \<le> unat d_hi * 2 ^ bm * 2 ^ 32" using clz(3) by simp
  then have "2 ^ 31 * 2 ^ 32 \<le> D * 2 ^ bm" by (simp add: D_def unat_wide algebra_simps)
  then have h: "2 ^ 31 \<le> unat h" using D' unat_lt_32 [of l] by simp
  have two: "(2 :: nat) ^ 32 = 2 ^ b * 2 ^ bm" using bm by (simp add: b_def flip: power_add)
  have n2: "unat n2 < 2 ^ bm"
    using unat_lt_32 [of n_hi] unfolding two by (simp add: n2_def unat_drop div_less_iff_less_mult mult.commute)
  have "(2 :: nat) ^ bm \<le> 2 ^ 31" using bm by (intro power_increasing) auto
  then have n2_h: "n2 < h" using n2 h by (simp add: word_less_nat_alt)
  note q = wide_quotient [OF n2_h, of n1]
  have T1: "T < 2 ^ (32 + bm)"
  proof -
    have "(unat n2 + 1) * 2 ^ 32 \<le> 2 ^ bm * 2 ^ 32" using n2 by (intro mult_le_mono) auto
    then show ?thesis using unat_lt_32 [of n1] by (simp add: T_def unat_wide power_add)
  qed
  have T2: "T < unat h * 2 ^ 32"
  proof -
    have "(unat n2 + 1) * 2 ^ 32 \<le> unat h * 2 ^ 32"
      using n2_h by (intro mult_le_mono) (auto simp: word_less_nat_alt)
    then show ?thesis using unat_lt_32 [of n1] by (simp add: T_def unat_wide)
  qed
  have odd: "unat l \<le> 2 ^ 31" if "bm = 31"
  proof -
    have "unat l = unat d_lo * 2 ^ 31 mod 2 ^ 32"
      using that by (simp add: l_def unsigned_push_bit_eq) (simp add: push_bit_eq_mult take_bit_eq_mod)
    also have "\<dots> = unat d_lo mod 2 * 2 ^ 31"
      using mod_mult_mult2 [of "unat d_lo" "2 ^ 31" 2] by simp
    finally show ?thesis by simp
  qed
  define qh :: u32 where "qh = ucast (wide n2 n1 div ucast h)"
  define R :: u32 where "R = ucast (wide n2 n1 mod ucast h)"
  have qh: "unat qh = T div unat h" and R: "unat R = T mod unat h"
    using q by (simp_all add: qh_def R_def T_def unat_wide)
  define m :: u64 where "m = ucast qh * ucast l"
  define c where "c = (wide R n0 < m)"
  have "(T div unat h - 1) * (unat h * 2 ^ 32 + unat l) \<le> T * 2 ^ 32 + unat n0"
    using h unat_lt_32 [of l] bm T1 T2 odd by (intro one_correction) simp_all
  then have one: "(unat qh - 1) * unat (wide h l) \<le> T * 2 ^ 32 + unat n0"
    by (simp only: qh unat_wide)
  have "0 < unat h" using h by simp
  moreover have hl: "unat (wide h l) = D * 2 ^ bm" using D' by (simp add: unat_wide)
  ultimately have step: "unat (if c then qh - 1 else qh) = N * 2 ^ bm div (D * 2 ^ bm)"
      "unat (wide R n0 - (if c then m - wide h l else m)) = N * 2 ^ bm mod (D * 2 ^ bm)"
    using correction_step [OF qh R _ one m_def c_def] by (simp_all only: N')
  define r where "r = wide R n0 - (if c then m - wide h l else m)"
  have quot: "ucast (if c then qh - 1 else qh) = wide n_hi n_lo div wide d_hi d_lo"
    using step(1) by (simp add: word_unat_eq_iff unat_div unat_ucast_up flip: N_def D_def)
  have rem: "drop_bit bm r = wide n_hi n_lo mod wide d_hi d_lo"
    using step(2) by (simp add: word_unat_eq_iff unat_mod unat_drop mod_mult_mult2 flip: N_def D_def r_def)
  have test: "(R < ucast (drop_bit 32 m) \<or> ucast (drop_bit 32 m) = R \<and> n0 < ucast m) = c"
    using wide_less [of R n0 "ucast (drop_bit 32 m)" "ucast m"] by (auto simp: c_def)
  have shift: "wide (drop_bit bm x) (push_bit b x OR drop_bit bm y) = drop_bit bm (wide x y)" for x y
    unfolding b_def using bm by (intro wide_shift) simp
  have nz': "(bm = 0) = False" using bm by simp
  show ?thesis
    unfolding udivmod_large_def Let_def bm_def [symmetric] b_def [symmetric] h_def [symmetric] l_def [symmetric]
      n2_def [symmetric] n1_def [symmetric] n0_def [symmetric] divu64_32 [OF n2_h, of cpu n1]
      qh_def [symmetric] R_def [symmetric]
      quot [symmetric] rem [symmetric] r_def
    by (cases c) (simp_all only: nz' if_False if_True bind.bind_lunit prod.case umul32_wide m_def [symmetric]
        test shift wide_borrow wide_parts)
qed

lemma udivmod_large:
  assumes "d_hi \<noteq> 0" and "d_hi \<le> n_hi"
  shows "udivmod_large cpu n_hi n_lo d_hi d_lo =
           Some (wide n_hi n_lo div wide d_hi d_lo, wide n_hi n_lo mod wide d_hi d_lo)"
  using assms udivmod_top_bit udivmod_shifted by blast

section \<open>Unsigned 64-bit division\<close>

lemma wide_zero: "wide 0 x = ucast x"
  by (simp add: wide_add)

lemma udivmod_by_longword:
  assumes "0 < d_lo"
  shows "(if n_hi < d_lo then do { (q_lo, rem) \<leftarrow> ami_divu64_32 cpu n_hi n_lo d_lo; Some (ucast q_lo, ucast rem) }
          else do { (q_hi, rem) \<leftarrow> ami_divu64_32 cpu 0 n_hi d_lo;
                    (q_lo, rem) \<leftarrow> ami_divu64_32 cpu rem n_lo d_lo; Some (wide q_hi q_lo, ucast rem) })
         = Some (wide n_hi n_lo div ucast d_lo, wide n_hi n_lo mod (ucast d_lo :: u64))"
proof (cases "n_hi < d_lo")
  case True
  have "unat (ucast (ucast (wide n_hi n_lo div ucast d_lo) :: u32) :: u64) = unat (wide n_hi n_lo div ucast d_lo)"
    "unat (ucast (ucast (wide n_hi n_lo mod ucast d_lo) :: u32) :: u64) = unat (wide n_hi n_lo mod ucast d_lo)"
    using wide_quotient [OF True, of n_lo] by (simp_all add: unat_ucast_up unat_div unat_mod unat_wide)
  then show ?thesis
    using True divu64_32 [OF True, of cpu n_lo] by (simp add: word_unat_eq_iff)
next
  case False
  define q1 :: u32 where "q1 = ucast (wide 0 n_hi div ucast d_lo)"
  define r1 :: u32 where "r1 = ucast (wide 0 n_hi mod ucast d_lo)"
  have q1: "unat q1 = unat n_hi div unat d_lo" and r1: "unat r1 = unat n_hi mod unat d_lo"
    using wide_quotient [OF assms, of n_hi] by (simp_all add: q1_def r1_def)
  have "unat r1 < unat d_lo" using assms by (simp add: r1 word_less_nat_alt)
  then have r1_lt: "r1 < d_lo" by (simp add: word_less_nat_alt)
  note q0 = wide_quotient [OF r1_lt, of n_lo]
  define N where "N = unat n_hi * 2 ^ 32 + unat n_lo"
  have N: "N div 2 ^ 32 = unat n_hi" "N mod 2 ^ 32 = unat n_lo"
    using unat_lt_32 [of n_lo] by (simp_all add: N_def)
  have "0 < unat d_lo" using assms by (simp add: word_less_nat_alt)
  note two = two_digits [OF this, of N "2 ^ 32", unfolded N]
  have "unat (wide q1 (ucast (wide r1 n_lo div ucast d_lo))) = N div unat d_lo"
    using two(1) q0(1) by (simp only: unat_wide q1 r1)
  moreover have "unat (ucast (ucast (wide r1 n_lo mod ucast d_lo) :: u32) :: u64) = N mod unat d_lo"
    using two(2) q0(2) by (simp add: unat_ucast_up r1)
  ultimately have "wide q1 (ucast (wide r1 n_lo div ucast d_lo)) = wide n_hi n_lo div ucast d_lo"
    "ucast (ucast (wide r1 n_lo mod ucast d_lo) :: u32) = wide n_hi n_lo mod (ucast d_lo :: u64)"
    by (simp_all add: word_unat_eq_iff unat_div unat_mod unat_wide [of n_hi] unat_ucast_up N_def)
  then show ?thesis
    using False divu64_32 [OF assms, of cpu n_hi] divu64_32 [OF r1_lt, of cpu n_lo]
    by (simp flip: q1_def r1_def)
qed

lemma udivmoddi4_exact:
  "udivmoddi4 cpu n d = Some (if d = 0 then (NOT 0, 0) else (n div d, n mod d))"
proof -
  define n_hi n_lo d_hi d_lo :: u32 where "n_hi = ucast (drop_bit 32 n)" and "n_lo = ucast n"
    and "d_hi = ucast (drop_bit 32 d)" and "d_lo = ucast d"
  have n: "n = wide n_hi n_lo" and d: "d = wide d_hi d_lo"
    by (simp_all add: n_hi_def n_lo_def d_hi_def d_lo_def)
  consider "d = 0" | "d \<noteq> 0" "d_hi = 0" | "d_hi \<noteq> 0" "n_hi < d_hi" | "d_hi \<noteq> 0" "d_hi \<le> n_hi"
    by force
  then show ?thesis
  proof cases
    case 1
    then show ?thesis by (simp add: udivmoddi4_def)
  next
    case 2
    then have d': "d = ucast d_lo" by (simp add: d wide_zero)
    then have "0 < d_lo" using 2 by (auto simp: word_neq_0_conv [symmetric])
    note div = udivmod_by_longword [OF this, of n_hi cpu n_lo, folded n d']
    show ?thesis
      unfolding udivmoddi4_def Let_def n_hi_def [symmetric] n_lo_def [symmetric]
        d_hi_def [symmetric] d_lo_def [symmetric] div using 2 by simp
  next
    case 3
    then have "n < d" by (simp add: n d wide_less)
    then have "unat n < unat d" by (simp add: word_less_nat_alt)
    then have "n div d = 0" "n mod d = n" "d \<noteq> 0" by (auto simp: word_unat_eq_iff unat_div unat_mod)
    then show ?thesis
      using 3 by (simp add: udivmoddi4_def Let_def flip: n_hi_def n_lo_def d_hi_def d_lo_def)
  next
    case 4
    then have "\<not> n_hi < d_hi" by simp
    moreover have "d \<noteq> 0" using 4 by (auto simp: d_hi_def)
    ultimately show ?thesis
      unfolding udivmoddi4_def Let_def n_hi_def [symmetric] n_lo_def [symmetric]
        d_hi_def [symmetric] d_lo_def [symmetric] udivmod_large [OF 4, of cpu n_lo d_lo, folded n d]
      using 4 by simp
  qed
qed

section \<open>Signed division\<close>

lemma sint_abs_bound: "\<bar>sint (a :: 'a::len word)\<bar> < 2 ^ LENGTH('a)"
proof -
  have "- (2 ^ (LENGTH('a) - Suc 0)) \<le> sint a" "sint a < 2 ^ (LENGTH('a) - Suc 0)"
    using sint_greater_eq [of a] sint_less [of a] by simp_all
  moreover have "(2 :: int) ^ (LENGTH('a) - Suc 0) < 2 ^ LENGTH('a)"
    by (intro power_strict_increasing) simp_all
  ultimately show ?thesis by linarith
qed

lemma unat_abs: "int (unat (if sint a < 0 then - a else a)) = \<bar>sint (a :: 'a::len word)\<bar>"
proof -
  have "(if sint a < 0 then - a else a) = word_of_int \<bar>sint a\<bar>" by (simp add: abs_if)
  moreover have "uint (word_of_int \<bar>sint a\<bar> :: 'a word) = \<bar>sint a\<bar>"
    using sint_abs_bound [of a] by (simp add: unsigned_of_int take_bit_int_eq_self)
  ultimately show ?thesis by (simp only: uint_nat [symmetric])
qed

lemma magnitude:
  fixes a b :: "'a::len word"
  defines "A \<equiv> if sint a < 0 then - a else a" and "B \<equiv> if sint b < 0 then - b else b"
  shows "word_of_int (\<bar>sint a\<bar> div \<bar>sint b\<bar>) = A div B" and "word_of_int (\<bar>sint a\<bar> mod \<bar>sint b\<bar>) = A mod B"
    and "(B = 0) = (b = 0)"
proof -
  have "\<bar>sint a\<bar> div \<bar>sint b\<bar> = int (unat (A div B))" "\<bar>sint a\<bar> mod \<bar>sint b\<bar> = int (unat (A mod B))"
    unfolding A_def B_def unat_abs [symmetric] by (simp_all only: unat_div unat_mod zdiv_int zmod_int)
  then show "word_of_int (\<bar>sint a\<bar> div \<bar>sint b\<bar>) = A div B" "word_of_int (\<bar>sint a\<bar> mod \<bar>sint b\<bar>) = A mod B"
    by simp_all
  show "(B = 0) = (b = 0)" by (auto simp: B_def)
qed

lemma sgn_cases: "sgn (x :: int) * y = (if x < 0 then - y else if x = 0 then 0 else y)"
  by (simp add: sgn_if)

lemma sdiv_magnitude:
  fixes a b :: "'a::len word"
  shows "word_of_int (sint a sdiv sint b) =
    (if (sint a < 0) \<noteq> (sint b < 0)
     then - ((if sint a < 0 then - a else a) div (if sint b < 0 then - b else b))
     else (if sint a < 0 then - a else a) div (if sint b < 0 then - b else b))"
proof -
  have "sint a sdiv sint b = (if (sint a < 0) \<noteq> (sint b < 0) then - (\<bar>sint a\<bar> div \<bar>sint b\<bar>) else \<bar>sint a\<bar> div \<bar>sint b\<bar>)"
    by (auto simp: signed_divide_int_def sgn_if)
  then show ?thesis unfolding magnitude(1) [symmetric] by (simp del: wi_hom_syms)
qed

lemma smod_magnitude:
  fixes a b :: "'a::len word"
  shows "word_of_int (sint a smod sint b) =
    (if sint a < 0
     then - ((if sint a < 0 then - a else a) mod (if sint b < 0 then - b else b))
     else (if sint a < 0 then - a else a) mod (if sint b < 0 then - b else b))"
proof -
  have "sint a smod sint b = (if sint a < 0 then - (\<bar>sint a\<bar> mod \<bar>sint b\<bar>) else \<bar>sint a\<bar> mod \<bar>sint b\<bar>)"
    by (auto simp: signed_modulo_int_def sgn_if)
  then show ?thesis unfolding magnitude(2) [symmetric] by simp
qed

lemma divdi3_exact:
  "divdi3 cpu n d = Some (if d = 0 then (if sint n < 0 then 1 else - 1) else word_of_int (sint n sdiv sint d))"
  by (auto simp: divdi3_def udivmoddi4_exact sdiv_magnitude split: if_splits)

lemma moddi3_exact:
  "moddi3 cpu n d = Some (if d = 0 then 0 else word_of_int (sint n smod sint d))"
  by (auto simp: moddi3_def udivmoddi4_exact smod_magnitude split: if_splits)

section \<open>The 32-bit set\<close>

lemma udivmodsi_exact:
  "ami_udivmodsi cpu n d = Some (if d = 0 then (NOT 0, 0) else (n div d, n mod d))"
proof (cases "d = 0")
  case False
  then have "0 < d" by (simp add: word_neq_0_conv)
  note q = wide_quotient [OF this, of n] divu64_32_soft [OF this, of cpu n]
  then show ?thesis
    using False by (simp add: ami_udivmodsi_def word_unat_eq_iff unat_div unat_mod)
qed (simp add: ami_udivmodsi_def)

lemma divs_l_exact: "s \<noteq> 0 \<Longrightarrow> divs_l d s = Some (word_of_int (sint d sdiv sint s))"
  by (auto simp: divs_l_def signed_divide_int_def)

lemma udivsi3_exact: "udivsi3 cpu n d = Some (if d = 0 then NOT 0 else n div d)"
  by (simp add: udivsi3_def divu_l_def udivmodsi_exact)

lemma umodsi3_exact: "umodsi3 cpu n d = Some (if d = 0 then 0 else n mod d)"
proof -
  have "n - n div d * d = n mod d" by (metis add_diff_cancel_left' word_mod_div_equality)
  then show ?thesis by (simp add: umodsi3_def divu_l_def muls_l_def udivmodsi_exact)
qed

lemma divsi3_exact:
  "divsi3 cpu n d = Some (if d = 0 then (if sint n < 0 then 1 else - 1) else word_of_int (sint n sdiv sint d))"
  by (auto simp: divsi3_def divs_l_exact udivmodsi_exact sdiv_magnitude split: if_splits)

lemma modsi3_exact: "modsi3 cpu n d = Some (if d = 0 then 0 else word_of_int (sint n smod sint d))"
proof -
  have "n - word_of_int (sint n sdiv sint d) * d = word_of_int (sint n - (sint n sdiv sint d) * sint d)"
    by simp
  also have "\<dots> = word_of_int (sint n smod sint d)" by (simp add: minus_sdiv_mult_eq_smod)
  finally show ?thesis
    by (auto simp: modsi3_def divs_l_exact muls_l_def udivmodsi_exact smod_magnitude split: if_splits)
qed

section \<open>Shifts\<close>

lemma lshrdi3_exact: "lshrdi3 v c = drop_bit (nat c) v"
proof -
  consider "c \<le> 0" | "64 \<le> c" | "32 \<le> c" "c < 64" | "0 < c" "c < 32" by linarith
  then show ?thesis
  proof cases
    case 2
    then show ?thesis by (auto simp: lshrdi3_def bit_eq_iff bit_simps dest: bit_imp_le_length)
  next
    case 3
    then have "drop_bit (nat c) v = ucast (drop_bit (nat (c - 32)) (ucast (drop_bit 32 v) :: u32))"
      by (intro bit_word_eqI) (auto simp: bit_simps nat_diff_distrib dest: bit_imp_le_length)
    with 3 show ?thesis by (simp add: lshrdi3_def)
  next
    case 4
    then have "nat (32 - c) = 32 - nat c" by simp
    then show ?thesis
      using 4 wide_shift [of "nat c" "ucast (drop_bit 32 v)" "ucast v"]
      by (simp add: lshrdi3_def or.commute)
  qed (simp add: lshrdi3_def)
qed

lemma ashldi3_exact: "ashldi3 v c = push_bit (nat c) v"
proof -
  consider "c \<le> 0" | "64 \<le> c" | "32 \<le> c" "c < 64" | "0 < c" "c < 32" by linarith
  then show ?thesis
  proof cases
    case 2
    then show ?thesis by (auto simp: ashldi3_def bit_eq_iff bit_simps dest: bit_imp_le_length)
  next
    case 3
    define k where "k = nat (c - 32)"
    have "nat c = 32 + k" using 3 by (simp add: k_def)
    moreover have "push_bit 32 (ucast (push_bit k (ucast v :: u32))) = push_bit 32 (push_bit k v)"
      by (rule push_ucast_32) (auto simp: bit_eq_iff bit_simps)
    ultimately show ?thesis using 3 by (simp add: ashldi3_def k_def)
  next
    case 4
    define k where "k = nat c"
    have k: "nat (32 - c) = 32 - k" "0 < k" "k < 32" using 4 by (simp_all add: k_def)
    have "wide (push_bit k (ucast (drop_bit 32 v)) OR drop_bit (32 - k) (ucast v)) (push_bit k (ucast v)) = push_bit k v"
    proof (rule bit_word_eqI)
      fix n assume n: "n < LENGTH(64)"
      show "bit (wide (push_bit k (ucast (drop_bit 32 v)) OR drop_bit (32 - k) (ucast v)) (push_bit k (ucast v))) n
              = bit (push_bit k v) n"
      proof (cases "n < 32")
        case True
        then show ?thesis using k by (auto simp: wide_def bit_simps)
      next
        case False
        then obtain m where m: "n = 32 + m" using le_Suc_ex not_less by blast
        show ?thesis
        proof (cases "k \<le> m")
          case True
          then show ?thesis using k n m by (auto simp: wide_def bit_simps)
        next
          case False
          then have "32 - k + m = 32 + m - k" "k \<le> 32 + m" using k by auto
          with False show ?thesis using k n m by (auto simp: wide_def bit_simps)
        qed
      qed
    qed
    then show ?thesis using 4 k(1) by (simp add: ashldi3_def k_def)
  qed (simp add: ashldi3_def)
qed

lemma sign_bit: "(sint v < 0) = bit v (LENGTH('a) - 1)" for v :: "'a::len word"
  by (simp add: not_le [symmetric] bit_last_iff)

lemma bit_sdrop:
  fixes w :: "'a::len word"
  assumes "n < LENGTH('a)"
  shows "bit (signed_drop_bit k w) n = bit w (if n + k < LENGTH('a) then n + k else LENGTH('a) - 1)"
proof -
  have "LENGTH('a) - k \<le> n \<longleftrightarrow> \<not> n + k < LENGTH('a)" by auto
  then show ?thesis unfolding bit_signed_drop_bit_iff using assms by (simp add: add.commute)
qed

lemma bit_sdrop_32: "n < 32 \<Longrightarrow> bit (signed_drop_bit k (w :: u32)) n = bit w (if n + k < 32 then n + k else 31)"
  using bit_sdrop [of n k w] by simp

lemma bit_sdrop_64: "n < 64 \<Longrightarrow> bit (signed_drop_bit k (w :: u64)) n = bit w (if n + k < 64 then n + k else 63)"
  using bit_sdrop [of n k w] by simp

lemma bit_wide: "bit (wide hi lo) n = (if n < 32 then bit lo n else bit hi (n - 32))"
  by (auto simp: wide_def bit_simps dest: bit_imp_le_length)

lemma bit_scast_64: "n < 64 \<Longrightarrow> bit (scast (w :: u32) :: u64) n = bit w (if n < 32 then n else 31)"
  by (cases "n = 31") (auto simp: bit_signed_iff min_def)

lemma bit_high: "bit (ucast (drop_bit 32 (v :: u64)) :: u32) n = (n < 32 \<and> bit v (32 + n))"
  by (auto simp: bit_simps)

lemma ashrdi3_exact: "ashrdi3 v c = signed_drop_bit (nat c) v"
proof -
  consider "c \<le> 0" | "64 \<le> c" | "32 \<le> c" "c < 64" | "0 < c" "c < 32" by linarith
  then show ?thesis
  proof cases
    case 2
    then have "\<not> n + nat c < 64" for n by simp
    then have "signed_drop_bit (nat c) v = (if sint v < 0 then - 1 else 0)"
      by (intro bit_word_eqI) (simp add: bit_sdrop_64 sign_bit)
    with 2 show ?thesis by (simp add: ashrdi3_def)
  next
    case 3
    define k where "k = nat (c - 32)"
    have k: "nat c = 32 + k" "k < 32" using 3 by (simp_all add: k_def)
    have "scast (signed_drop_bit k (ucast (drop_bit 32 v) :: u32)) = signed_drop_bit (nat c) v"
    proof (rule bit_word_eqI)
      fix n assume "n < LENGTH(64)"
      then show "bit (scast (signed_drop_bit k (ucast (drop_bit 32 v) :: u32)) :: u64) n = bit (signed_drop_bit (nat c) v) n"
        using k by (simp add: bit_scast_64 bit_sdrop_64 bit_sdrop_32 bit_high ac_simps)
    qed
    then show ?thesis using 3 by (simp add: ashrdi3_def k_def)
  next
    case 4
    define k where "k = nat c"
    have k: "nat (32 - c) = 32 - k" "0 < k" "k < 32" using 4 by (simp_all add: k_def)
    define hi :: u32 where "hi = ucast (drop_bit 32 v)"
    have "wide (signed_drop_bit k hi) (drop_bit k (ucast v) OR push_bit (32 - k) hi) = signed_drop_bit k v"
    proof (rule bit_word_eqI)
      fix n assume n: "n < LENGTH(64)"
      show "bit (wide (signed_drop_bit k hi) (drop_bit k (ucast v) OR push_bit (32 - k) hi)) n = bit (signed_drop_bit k v) n"
      proof (cases "n < 32")
        case True
        have "32 + (n - (32 - k)) = n + k" if "32 - k \<le> n" using that k by simp
        then show ?thesis
          using True k by (auto simp: bit_wide bit_sdrop_64 hi_def bit_high bit_or_iff bit_push_bit_iff
              bit_drop_bit_eq bit_unsigned_iff ac_simps)
      next
        case False
        then obtain m where "n = 32 + m" using le_Suc_ex not_less by blast
        then show ?thesis
          using k n by (simp add: bit_wide bit_sdrop_64 bit_sdrop_32 hi_def bit_high ac_simps)
      qed
    qed
    then show ?thesis using 4 k(1) by (simp add: ashrdi3_def k_def hi_def)
  qed (simp add: ashrdi3_def)
qed

section \<open>The routines\<close>

text \<open>
  C29. Unsigned division and remainder, 64-bit and 32-bit, return the mathematical quotient and
  remainder for every operand and on every processor the library selects for: the two-digit soft
  divide of the 68000 and 68060 (base 65536, each digit estimated by one hardware division and then
  corrected), the 64-bit divide by a longword, the normalised estimate with one correction for larger
  divisors, and the instructions of the 68020. A zero divisor gives all ones and remainder zero and
  no division instruction ever traps.
\<close>

theorem rt_udiv_exact:
  "udivdi3 cpu n d = Some (if d = 0 then - 1 else n div d) \<and>
   umoddi3 cpu n d = Some (if d = 0 then 0 else n mod d) \<and>
   udivsi3 cpu m e = Some (if e = 0 then - 1 else m div e) \<and>
   umodsi3 cpu m e = Some (if e = 0 then 0 else m mod e)"
  by (simp add: udivdi3_def umoddi3_def udivmoddi4_exact udivsi3_exact umodsi3_exact)

text \<open>
  C30. Signed division truncates towards zero and the remainder has the sign of the numerator, as C
  requires, for all 64-bit and 32-bit operands and on every processor; the one quotient that does not
  fit (the most negative number by \<open>-1\<close>) wraps to itself with remainder zero, in the portable
  arms as in the \<^verbatim>\<open>DIVS.L\<close> of the 68020, which leaves its operand unchanged there.
\<close>

theorem rt_sdiv_exact:
  "divdi3 cpu n d = Some (if d = 0 then (if sint n < 0 then 1 else - 1) else word_of_int (sint n sdiv sint d)) \<and>
   moddi3 cpu n d = Some (if d = 0 then 0 else word_of_int (sint n smod sint d)) \<and>
   divsi3 cpu m e = Some (if e = 0 then (if sint m < 0 then 1 else - 1) else word_of_int (sint m sdiv sint e)) \<and>
   modsi3 cpu m e = Some (if e = 0 then 0 else word_of_int (sint m smod sint e))"
  by (simp add: divdi3_exact moddi3_exact divsi3_exact modsi3_exact)

text \<open>
  Multiplication by halves is multiplication: the 64-bit product keeps all carries between
  the four partial products, the discarded high parts do not matter, and the result is that of the
  68020 instructions.
\<close>

lemma rt_mul_exact:
  "muldi3 cpu a b = a * b \<and> mulsi3 cpu x y = x * y \<and> ami_umul32_wide cpu x y = ucast x * ucast y"
  by (simp add: muldi3 mulsi3 umul32_wide)

text \<open>
  The 64-bit shifts, built from shifts of 32 bits, are the shifts of the whole number for every
  count, including counts of 32 and more, of 64 and more (nothing or only the sign is left) and
  counts that are not positive (nothing is shifted).
\<close>

lemma rt_shift_exact:
  "lshrdi3 v c = drop_bit (nat c) v \<and> ashldi3 v c = push_bit (nat c) v \<and>
   ashrdi3 v c = signed_drop_bit (nat c) v"
  by (simp add: lshrdi3_exact ashldi3_exact ashrdi3_exact)

end
