(* ===== verification/Cks_Sum.thy ===== *)
theory Cks_Sum
  imports Ami_Prelude
begin

text \<open>
  The one's-complement sums of the data path: the carry chains and the fold of
  \<^verbatim>\<open>src/net68k/n68k_checksum.c\<close>, and the copies that sum of \<^verbatim>\<open>src/sana2/sana2_copy.c\<close>.

  The reference is RFC 1071: the sum of the big-endian 16-bit words of a byte string, an odd last
  byte padded with zero (\<open>be16_sum\<close>, a natural number), brought into sixteen bits by end-around
  carries (\<open>ones\<close>, the end-around carry \<open>eac\<close> of modulus 65535). \<open>ones\<close> maps zero to zero and every other number to its representative
  between 1 and 65535 modulo 65535, so a sum is zero only if every word was.
\<close>

section \<open>The reference\<close>

fun be16_sum :: "UBYTE list \<Rightarrow> nat" where
  "be16_sum [] = 0"
| "be16_sum [a] = unat a * 256"
| "be16_sum (a # b # bs) = unat a * 256 + unat b + be16_sum bs"

definition eac :: "nat \<Rightarrow> nat \<Rightarrow> nat" where
  "eac m n = (if n = 0 then 0 else (n - 1) mod m + 1)"

abbreviation (input) ones :: "nat \<Rightarrow> nat" where
  "ones \<equiv> eac 65535"

section \<open>The loops\<close>

text \<open>One step of the chain: add, and add the carry back in.\<close>

definition add_carry :: "ULONG \<Rightarrow> ULONG \<Rightarrow> ULONG" where
  "add_carry acc w = (let acc = acc + w in if acc < w then acc + 1 else acc)"

fun sum_loop :: "ULONG \<Rightarrow> ULONG list \<Rightarrow> ULONG" where
  "sum_loop acc [] = acc"
| "sum_loop acc (w # ws) = sum_loop (add_carry acc w) ws"

definition n68k_sum_longwords :: "ULONG list \<Rightarrow> ULONG" where
  "n68k_sum_longwords ws = sum_loop 0 ws"

definition n68k_fold :: "ULONG \<Rightarrow> ULONG" where
  "n68k_fold s = (let s = drop_bit 16 s + (s AND 0xFFFF) in drop_bit 16 s + (s AND 0xFFFF))"

text \<open>Memory read as big-endian longwords; what is left over is not read.\<close>

fun longwords :: "UBYTE list \<Rightarrow> ULONG list" where
  "longwords (a # b # c # d # bs) = be_val [a, b, c, d] # longwords bs"
| "longwords _ = []"

text \<open>The copy that sums: the bytes written, and the sum of the words it copied.\<close>

fun copy_sum_loop :: "ULONG \<Rightarrow> UBYTE list \<Rightarrow> ULONG list \<Rightarrow> UBYTE list \<times> ULONG" where
  "copy_sum_loop acc out [] = (out, acc)"
| "copy_sum_loop acc out (w # ws) = copy_sum_loop (add_carry acc w) (out @ be32 w) ws"

definition n68k_copy_sum_longwords :: "ULONG list \<Rightarrow> UBYTE list \<times> ULONG" where
  "n68k_copy_sum_longwords ws = copy_sum_loop 0 [] ws"

section \<open>The copy hook\<close>

text \<open>
  \<^verbatim>\<open>union { ULONG l; UCHAR b[4]; } w\<close>: a longword built from the bytes that arrived, the rest zero.
\<close>

definition pad4 :: "UBYTE list \<Rightarrow> ULONG" where
  "pad4 bs = be_val (bs @ replicate (4 - length bs) 0)"

text \<open>The odd-address arm: four bytes at a time, the last group short.\<close>

function copy_bytes_sum :: "UBYTE list \<Rightarrow> UBYTE list \<Rightarrow> ULONG \<Rightarrow> UBYTE list \<times> ULONG" where
  "copy_bytes_sum out from acc =
     (if from = [] then (out, acc)
      else let w = pad4 (take 4 from)
           in copy_bytes_sum (out @ take 4 from) (drop 4 from) (add_carry acc w))"
  by pat_completeness auto
termination by (relation "measure (\<lambda>(out, from, acc). length from)") auto

declare copy_bytes_sum.simps [simp del]

text \<open>
  \<open>to\<close> and \<open>from\<close> are addresses, \<open>bytes\<close> the \<open>len\<close> bytes at \<open>from\<close>; the result is what is written
  at \<open>to\<close> and the sum.
\<close>

definition copy_words_sum :: "UBYTE list \<Rightarrow> UBYTE list \<times> ULONG" where
  "copy_words_sum bytes =
     (let words = length bytes div 4; tail = drop (4 * words) bytes;
          (out, acc) = n68k_copy_sum_longwords (longwords (take (4 * words) bytes))
      in if tail \<noteq> [] then (out @ tail, add_carry acc (pad4 tail)) else (out, acc))"

definition ami_sana2_copy_sum :: "int \<Rightarrow> int \<Rightarrow> UBYTE list \<Rightarrow> UBYTE list \<times> ULONG" where
  "ami_sana2_copy_sum to from bytes =
     (if odd to \<or> odd from then copy_bytes_sum [] bytes 0 else copy_words_sum bytes)"

section \<open>Arithmetic of end-around carries\<close>

lemma eac_0 [simp]: "eac m 0 = 0"
  by (simp add: eac_def)

lemma eac_eq_0 [simp]: "(eac m n = 0) = (n = 0)"
  by (simp add: eac_def)

lemma eac_le: "0 < m \<Longrightarrow> eac m n \<le> m"
  by (simp add: eac_def Suc_le_eq)

lemma eac_mod [simp]: "eac m n mod m = n mod m"
proof (cases n)
  case (Suc k)
  then show ?thesis by (simp add: eac_def mod_Suc_eq)
qed simp

lemma eac_small: "n \<le> m \<Longrightarrow> eac m n = n"
  by (cases n) (simp_all add: eac_def)

text \<open>Being the representative is: in range, congruent, and zero only for zero.\<close>

lemma eac_cong_mod:
  assumes "a mod m = b mod m" and "(a = 0) = (b = 0)"
  shows "eac m a = eac m b"
proof (cases a)
  case (Suc i)
  then obtain j where b: "b = Suc j" using assms(2) by (cases b) auto
  have "int (Suc i mod m) = int (Suc j mod m)" using assms(1) Suc b by simp
  then have "int (Suc i) mod int m = int (Suc j) mod int m" by (simp only: zmod_int)
  then have "(int (Suc i) - 1) mod int m = (int (Suc j) - 1) mod int m" by (rule mod_diff_cong) simp
  then have "int (i mod m) = int (j mod m)" by (simp add: zmod_int)
  then have "i mod m = j mod m" by (simp only: of_nat_eq_iff)
  then show ?thesis using Suc b by (simp add: eac_def)
qed (use assms in simp)

lemma eac_iff: "(eac m a = eac m b) = (a mod m = b mod m \<and> (a = 0) = (b = 0))"
  by (metis eac_cong_mod eac_eq_0 eac_mod)

lemma eac_unique:
  assumes "r \<le> m" and "r mod m = n mod m" and "(r = 0) = (n = 0)"
  shows "r = eac m n"
  using eac_cong_mod [OF assms(2,3)] eac_small [OF assms(1)] by simp

lemma eac_add_left [simp]: "eac m (eac m a + b) = eac m (a + b)"
  by (rule eac_cong_mod) (auto simp: mod_add_left_eq [symmetric, of "eac m a"] mod_add_left_eq)

lemma eac_add_right [simp]: "eac m (a + eac m b) = eac m (a + b)"
  using eac_add_left [of m b a] by (simp add: add.commute)

lemma eac_eac:
  assumes "k dvd m"
  shows "eac k (eac m a) = eac k a"
proof (rule eac_cong_mod)
  have "eac m a mod m mod k = a mod m mod k" by simp
  then show "eac m a mod k = a mod k" using assms by (simp only: mod_mod_cancel)
qed simp

lemma eac_idem [simp]: "eac m (eac m a) = eac m a"
  by (rule eac_eac) simp

lemma eac_full: "0 < m \<Longrightarrow> (eac m n = m) = (n \<noteq> 0 \<and> m dvd n)"
  using eac_unique [of m m n] eac_mod [of m n] eac_eq_0 [of m n] by (metis bot_nat_0.not_eq_extremum
      dvd_imp_mod_0 mod_0_imp_dvd mod_self order_refl)

section \<open>What the loops compute\<close>

abbreviation (input) M32 :: nat where
  "M32 \<equiv> 4294967295"

lemma unat_add_carry: "unat (add_carry a w) = eac M32 (unat a + unat w)"
proof (cases "unat a + unat w < 2 ^ 32")
  case True
  then have "unat (a + w) = unat a + unat w" by (intro unat_add_nowrap) simp
  then show ?thesis using True by (simp add: add_carry_def word_less_nat_alt eac_small)
next
  case False
  have lt: "unat a < 2 ^ 32" "unat w < 2 ^ 32" using unat_lt2p [of a] unat_lt2p [of w] by simp_all
  then have s: "unat (a + w) = unat a + unat w - 2 ^ 32"
    using False by (simp add: unat_plus_if')
  then have "a + w < w" using lt False by (simp add: word_less_nat_alt)
  moreover have "unat (a + w + 1) = unat a + unat w - M32"
    using s lt False by (subst unat_add_nowrap) simp_all
  moreover have "unat a + unat w - M32 = eac M32 (unat a + unat w)"
  proof (rule eac_unique)
    have "unat a + unat w = (unat a + unat w - M32) + M32" using False by simp
    then show "(unat a + unat w - M32) mod M32 = (unat a + unat w) mod M32"
      by (metis mod_add_self2)
  qed (use lt False in simp_all)
  ultimately show ?thesis by (simp add: add_carry_def)
qed

lemma unat_sum_loop: "unat (sum_loop acc ws) = eac M32 (unat acc + sum_list (map unat ws))"
proof (induction ws arbitrary: acc)
  case Nil
  have "unat acc < 2 ^ 32" using unat_lt2p [of acc] by simp
  then show ?case by (simp add: eac_small)
next
  case (Cons w ws)
  then show ?case by (simp add: unat_add_carry add.assoc)
qed

lemma unat_and_ffff: "unat (a AND 0xFFFF :: ULONG) = unat a mod 65536"
proof -
  have "a AND 0xFFFF = take_bit 16 a" by (simp add: take_bit_eq_mask mask_numeral)
  then show ?thesis by (simp add: unsigned_take_bit_eq take_bit_eq_mod unat_mod)
qed

lemma unat_high_16: "unat (drop_bit 16 (a :: ULONG)) = unat a div 65536"
  by (simp add: unat_drop_bit_eq) (simp add: drop_bit_eq_div)

lemma fold_step:
  assumes "unat (s :: ULONG) = n"
  shows "unat (drop_bit 16 s + (s AND 0xFFFF)) = n div 65536 + n mod 65536"
proof -
  have "n < 2 ^ 32" using unat_lt2p [of s] assms by simp
  then have "n div 65536 + n mod 65536 < 2 ^ 32" by simp
  then show ?thesis using assms by (subst unat_add_nowrap) (simp_all add: unat_and_ffff unat_high_16)
qed

lemma fold_mod: "((n :: nat) div 65536 + n mod 65536) mod 65535 = n mod 65535"
proof -
  define q r where "q = n div 65536" and "r = n mod 65536"
  have "n = q * 65536 + r" by (simp add: q_def r_def)
  then have "n = q + r + 65535 * q" by simp
  then have "n mod 65535 = (q + r) mod 65535" by (simp only: mod_mult_self2)
  then show ?thesis by (simp add: q_def r_def)
qed

lemma fold_range: "(k :: nat) \<le> 131070 \<Longrightarrow> k div 65536 + k mod 65536 \<le> 65535"
proof (cases "k < 65536")
  case False
  assume "k \<le> 131070"
  moreover define j where "j = k - 65536"
  ultimately have "k = 65536 + j" "j \<le> 65534" using False by simp_all
  then show ?thesis by simp
qed simp

lemma unat_n68k_fold: "unat (n68k_fold s) = ones (unat s)"
proof (rule eac_unique)
  define n where "n = unat s"
  define k where "k = n div 65536 + n mod 65536"
  have "n < 2 ^ 32" using unat_lt2p [of s] by (simp add: n_def)
  then have "k \<le> 131070" by (simp add: k_def)
  have r: "unat (n68k_fold s) = k div 65536 + k mod 65536"
    unfolding n68k_fold_def Let_def k_def by (intro fold_step) (simp add: n_def)
  show "unat (n68k_fold s) \<le> 65535"
    unfolding r using \<open>k \<le> 131070\<close> by (rule fold_range)
  show "unat (n68k_fold s) mod 65535 = unat s mod 65535"
    unfolding r fold_mod by (simp add: k_def fold_mod n_def)
  have "(k = 0) = (n = 0)" unfolding k_def by (auto simp: div_eq_0_iff)
  then show "(unat (n68k_fold s) = 0) = (unat s = 0)"
    unfolding r by (auto simp: div_eq_0_iff n_def)
qed

lemma eac_add_cong: "eac m a = eac m b \<Longrightarrow> eac m c = eac m d \<Longrightarrow> eac m (a + c) = eac m (b + d)"
  by (metis eac_add_left eac_add_right)

lemma add_carry_ones:
  assumes "ones (unat a) = ones x" and "ones (unat w) = ones y"
  shows "ones (unat (add_carry a w)) = ones (x + y)"
proof -
  have "ones (unat (add_carry a w)) = ones (unat a + unat w)" by (simp add: unat_add_carry eac_eac)
  also have "\<dots> = ones (x + y)" using assms by (rule eac_add_cong)
  finally show ?thesis .
qed

section \<open>Sums of memory\<close>

lemma unat_be_step:
  assumes "unat v < 2 ^ 24"
  shows "unat (be_step v b) = unat v * 256 + unat b"
proof -
  have b: "unat (ucast b :: ULONG) = unat b" by (simp add: unat_ucast_up)
  have "unat b < 256" using unat_lt2p [of b] by simp
  have "\<not> bit (ucast b :: ULONG) n" if "8 \<le> n" for n
    using that by (auto simp: bit_simps dest: bit_imp_le_length)
  then have "be_step v b = push_bit 8 v + ucast b"
    unfolding be_step_def by (subst disjunctive_add) (auto simp: bit_push_bit_iff)
  moreover have "unat (push_bit 8 v) = unat v * 256"
    using assms by (simp add: unsigned_push_bit_eq) (simp add: push_bit_eq_mult take_bit_eq_mod)
  ultimately show ?thesis using assms b \<open>unat b < 256\<close> by (simp add: unat_word_ariths)
qed

lemma unat_be_val4:
  "unat (be_val [a, b, c, d]) = (unat a * 256 + unat b) * 65536 + (unat c * 256 + unat d)"
proof -
  have lt: "unat a < 256" "unat b < 256" "unat c < 256"
    using unat_lt2p [of a] unat_lt2p [of b] unat_lt2p [of c] by simp_all
  have 1: "unat (be_step 0 a) = unat a" by (subst unat_be_step) simp_all
  then have 2: "unat (be_step (be_step 0 a) b) = unat a * 256 + unat b"
    using lt by (subst unat_be_step) simp_all
  then have 3: "unat (be_step (be_step (be_step 0 a) b) c) = (unat a * 256 + unat b) * 256 + unat c"
    using lt by (subst unat_be_step) simp_all
  then show ?thesis using lt by (simp add: be_val_def, subst unat_be_step) simp_all
qed

lemma ones_word: "ones (h * 65536 + l) = ones (h + l)"
proof (rule eac_cong_mod)
  have "h * 65536 + l = h + l + 65535 * h" by simp
  then show "(h * 65536 + l) mod 65535 = (h + l) mod 65535" by (simp only: mod_mult_self2)
qed simp

lemma Suc4_mod [simp]: "Suc (Suc (Suc (Suc n))) mod 4 = n mod 4"
proof -
  have "Suc (Suc (Suc (Suc n))) = n + 4" by simp
  then show ?thesis by (simp only: mod_add_self2)
qed

lemma ones_longwords:
  "length bs mod 4 = 0 \<Longrightarrow> ones (sum_list (map unat (longwords bs))) = ones (be16_sum bs)"
proof (induction bs rule: longwords.induct)
  case (1 a b c d bs)
  then have "ones (sum_list (map unat (longwords bs))) = ones (be16_sum bs)" by simp
  moreover have "ones (unat (be_val [a, b, c, d])) = ones (unat a * 256 + unat b + (unat c * 256 + unat d))"
    unfolding unat_be_val4 by (rule ones_word)
  ultimately have "ones (unat (be_val [a, b, c, d]) + sum_list (map unat (longwords bs)))
      = ones (unat a * 256 + unat b + (unat c * 256 + unat d) + be16_sum bs)"
    by (intro eac_add_cong)
  then show ?case by (simp add: add.assoc)
qed auto

lemma be16_sum_append: "even (length xs) \<Longrightarrow> be16_sum (xs @ ys) = be16_sum xs + be16_sum ys"
  by (induction xs rule: be16_sum.induct) auto

lemma be16_sum_zeros [simp]: "be16_sum (replicate n 0) = 0"
proof (induction n rule: less_induct)
  case (less n)
  show ?case
  proof (cases n)
    case (Suc m)
    show ?thesis using less [of "m - 1"] Suc by (cases m) auto
  qed simp
qed

lemma be16_sum_pad: "be16_sum (xs @ replicate n 0) = be16_sum xs"
proof (cases "even (length xs)")
  case True
  then show ?thesis by (simp add: be16_sum_append)
next
  case False
  then obtain ys a where xs: "xs = ys @ [a]" by (cases xs rule: rev_cases) auto
  with False have "even (length ys)" by simp
  then show ?thesis unfolding xs by (cases n) (simp_all add: be16_sum_append)
qed

lemma sum_longwords_ones:
  assumes "length bs mod 4 = 0"
  shows "ones (unat (n68k_sum_longwords (longwords bs))) = ones (be16_sum bs)"
  using ones_longwords [OF assms] by (simp add: n68k_sum_longwords_def unat_sum_loop eac_eac)

lemma pad4_ones: "length bs \<le> 4 \<Longrightarrow> ones (unat (pad4 bs)) = ones (be16_sum bs)"
proof -
  assume "length bs \<le> 4"
  define p where "p = bs @ replicate (4 - length bs) 0"
  have "length p = 4" using \<open>length bs \<le> 4\<close> by (simp add: p_def)
  then obtain a b c d where p: "p = [a, b, c, d]"
    by (auto simp: length_Suc_conv eval_nat_numeral)
  have "ones (unat (be_val p)) = ones (be16_sum p)"
    unfolding p unat_be_val4 ones_word by (simp add: add.assoc)
  then show ?thesis by (simp add: pad4_def p_def be16_sum_pad)
qed

section \<open>The copies\<close>

lemma copy_sum_loop:
  "copy_sum_loop acc out ws = (out @ concat (map be32 ws), sum_loop acc ws)"
  by (induction ws arbitrary: acc out) simp_all

lemma concat_longwords:
  "length bs mod 4 = 0 \<Longrightarrow> concat (map be32 (longwords bs)) = bs"
proof (induction bs rule: longwords.induct)
  case (1 a b c d bs)
  then show ?case using be32_be_val [of "[a, b, c, d]"] by simp
qed auto

lemma copy_words_sum:
  "fst (copy_words_sum bytes) = bytes \<and> ones (unat (snd (copy_words_sum bytes))) = ones (be16_sum bytes)"
proof -
  define k where "k = 4 * (length bytes div 4)"
  define hd tl where "hd = take k bytes" and "tl = drop k bytes"
  have "k \<le> length bytes" by (simp add: k_def)
  then have "length hd = k" by (simp add: hd_def)
  then have len: "length hd mod 4 = 0" "even (length hd)" by (simp_all add: k_def)
  have len_tl: "length tl \<le> 4" by (simp add: tl_def k_def flip: minus_mult_div_eq_mod)
  have cut: "bytes = hd @ tl" by (simp add: hd_def tl_def)
  have out: "copy_words_sum bytes =
      (if tl \<noteq> [] then (hd @ tl, add_carry (n68k_sum_longwords (longwords hd)) (pad4 tl))
       else (hd, n68k_sum_longwords (longwords hd)))"
    using concat_longwords [OF len(1)]
    unfolding copy_words_sum_def Let_def k_def [symmetric] hd_def [symmetric] tl_def [symmetric]
      n68k_copy_sum_longwords_def copy_sum_loop n68k_sum_longwords_def
    by simp
  have "ones (unat (add_carry (n68k_sum_longwords (longwords hd)) (pad4 tl))) = ones (be16_sum hd + be16_sum tl)"
    by (rule add_carry_ones [OF sum_longwords_ones [OF len(1)] pad4_ones [OF len_tl]])
  then show ?thesis
    using sum_longwords_ones [OF len(1)] unfolding out by (auto simp: cut be16_sum_append [OF len(2)])
qed

lemma copy_bytes_sum:
  "fst (copy_bytes_sum out from acc) = out @ from \<and>
   ones (unat (snd (copy_bytes_sum out from acc))) = ones (unat acc + be16_sum from)"
proof (induction out "from" acc rule: copy_bytes_sum.induct)
  case (1 out "from" acc)
  show ?case
  proof (cases "from = []")
    case True
    then show ?thesis by (simp add: copy_bytes_sum.simps [of out])
  next
    case False
    have "be16_sum from = be16_sum (take 4 from) + be16_sum (drop 4 from)"
    proof (cases "length from \<le> 4")
      case short: False
      then show ?thesis using be16_sum_append [of "take 4 from" "drop 4 from"] by simp
    qed simp
    moreover have "ones (unat (pad4 (take 4 from))) = ones (be16_sum (take 4 from))"
      by (rule pad4_ones) simp
    then have "ones (unat (add_carry acc (pad4 (take 4 from))) + be16_sum (drop 4 from))
        = ones (unat acc + be16_sum (take 4 from) + be16_sum (drop 4 from))"
      by (intro eac_add_cong add_carry_ones refl)
    ultimately show ?thesis
      using "1.IH" [OF False refl] False by (simp add: copy_bytes_sum.simps [of out] add.assoc)
  qed
qed

end
