(* ===== verification/Cks_Packet.thy ===== *)
theory Cks_Packet
  imports Cks_Sum
begin

text \<open>
  The internet checksum over a packet chain, \<^verbatim>\<open>n68k_ip_checksum_compute\<close> of
  \<^verbatim>\<open>src/net68k/n68k_checksum.c\<close>, which takes the place of NetX Duo's function, and that it is the
  checksum of RFC 1071 over the pseudo header and the data.

  An \<open>NX_PACKET\<close> has the fields of NetX Duo's packet that the code uses. \<open>pk_mem\<close> is the packet's
  buffer, \<open>pk_base\<close> the address of its first byte; the prepend and append pointers are offsets into
  it. The chain is the list of the packets that \<^verbatim>\<open>nx_packet_next\<close> links. Word and longword accesses
  are checked twice: one that leaves the buffer is \<open>None\<close>, and so is one at an odd address, where a
  68000 raises an address error. The byte order is that of the 68k, where \<^verbatim>\<open>NX_CHANGE_USHORT_ENDIAN\<close>
  is empty.
\<close>

record NX_PACKET =
  pk_base :: int
  pk_mem :: "UBYTE list"
  pk_prepend :: nat
  pk_append :: nat
  pk_length :: ULONG
  pk_version :: nat
  pk_capability :: ULONG

abbreviation (input) NX_PROTOCOL_ICMP :: ULONG where "NX_PROTOCOL_ICMP \<equiv> 1"
abbreviation (input) NX_PROTOCOL_IGMP :: ULONG where "NX_PROTOCOL_IGMP \<equiv> 2"
abbreviation (input) NX_PROTOCOL_TCP :: ULONG where "NX_PROTOCOL_TCP \<equiv> 6"
abbreviation (input) NX_PROTOCOL_UDP :: ULONG where "NX_PROTOCOL_UDP \<equiv> 17"
abbreviation (input) NX_PROTOCOL_ICMPV6 :: ULONG where "NX_PROTOCOL_ICMPV6 \<equiv> 58"

abbreviation (input) NX_IP_VERSION_V4 :: nat where "NX_IP_VERSION_V4 \<equiv> 4"
abbreviation (input) NX_IP_VERSION_V6 :: nat where "NX_IP_VERSION_V6 \<equiv> 6"

definition pk_addr :: "NX_PACKET \<Rightarrow> nat \<Rightarrow> int" where
  "pk_addr p off = pk_base p + int off"

definition rd_longs :: "NX_PACKET \<Rightarrow> nat \<Rightarrow> nat \<Rightarrow> ULONG list option" where
  "rd_longs p off n =
     (if odd (pk_addr p off) then None else map_option longwords (rd_range (pk_mem p) off (4 * n)))"

definition rd_short :: "NX_PACKET \<Rightarrow> nat \<Rightarrow> ULONG option" where
  "rd_short p off =
     (if odd (pk_addr p off) then None else map_option be_val (rd_range (pk_mem p) off 2))"

definition wr_zero :: "NX_PACKET \<Rightarrow> nat \<Rightarrow> NX_PACKET option" where
  "wr_zero p off = map_option (\<lambda>m. p\<lparr>pk_mem := m\<rparr>) (wr_range (pk_mem p) off [0])"

section \<open>The function\<close>

text \<open>The halves of an address, as \<^verbatim>\<open>USHORT *\<close> reads the array of longwords.\<close>

definition shorts :: "ULONG list \<Rightarrow> ULONG list" where
  "shorts ws = concat (map (\<lambda>w. [drop_bit 16 w, w AND 0xFFFF]) ws)"

definition pseudo_sum :: "nat \<Rightarrow> ULONG \<Rightarrow> ULONG \<Rightarrow> ULONG list \<Rightarrow> ULONG list \<Rightarrow> ULONG option" where
  "pseudo_sum version protocol data_length src dst = do {
     s0 \<leftarrow> rd (shorts src) 0;
     s1 \<leftarrow> rd (shorts src) 1;
     d0 \<leftarrow> rd (shorts dst) 0;
     d1 \<leftarrow> rd (shorts dst) 1;
     let checksum = protocol + s0 + s1 + d0 + d1;
     checksum \<leftarrow>
       (if version = NX_IP_VERSION_V6 then do {
          d \<leftarrow> rd_range (shorts dst) 2 6;
          s \<leftarrow> rd_range (shorts src) 2 6;
          Some (fold (\<lambda>(a, b) c. c + a + b) (zip d s) checksum)
        }
        else Some checksum);
     let checksum = checksum + data_length;
     Some (n68k_fold checksum)
   }"

text \<open>
  The longword part of one packet: the sum so far, the bytes still to go, and the offset of
  \<^verbatim>\<open>long_ptr\<close> after it.
\<close>

definition sum_packet :: "NX_PACKET \<Rightarrow> ULONG \<Rightarrow> ULONG \<Rightarrow> (ULONG \<times> ULONG \<times> nat) option" where
  "sum_packet p checksum data_length =
     (let packet_size = of_int (int (pk_append p) - int (pk_prepend p));
          long_ptr = pk_addr p (pk_prepend p);
          end_ptr = (if packet_size < data_length then pk_addr p (pk_append p) div 4 * 4
                     else long_ptr + int (unat data_length) - 3)
      in if long_ptr < end_ptr
         then let consumed = (end_ptr + 3) div 4 * 4 - long_ptr;
                  words = nat ((end_ptr - long_ptr + 3) div 4)
              in map_option (\<lambda>ws. (checksum + n68k_fold (n68k_sum_longwords ws),
                                   data_length - of_int consumed, pk_prepend p + 4 * words))
                   (rd_longs p (pk_prepend p) words)
         else Some (checksum, data_length, pk_prepend p))"

text \<open>The one, two or three bytes that are left.\<close>

definition sum_tail :: "NX_PACKET \<Rightarrow> nat \<Rightarrow> ULONG \<Rightarrow> ULONG \<Rightarrow> (ULONG \<times> NX_PACKET) option" where
  "sum_tail p long_ptr checksum data_length =
     (if data_length = 0 then Some (checksum, p)
      else if data_length = 1 then do {
        p \<leftarrow> wr_zero p (long_ptr + 1);
        s \<leftarrow> rd_short p long_ptr;
        Some (checksum + s, p)
      }
      else if data_length = 3 then do {
        s \<leftarrow> rd_short p long_ptr;
        let checksum = checksum + s;
        p \<leftarrow> wr_zero p (long_ptr + 3);
        s \<leftarrow> rd_short p (long_ptr + 2);
        Some (checksum + s, p)
      }
      else do {
        s \<leftarrow> rd_short p long_ptr;
        Some (checksum + s, p)
      })"

primrec sum_chain :: "NX_PACKET list \<Rightarrow> NX_PACKET \<Rightarrow> ULONG \<Rightarrow> ULONG \<Rightarrow> (ULONG \<times> NX_PACKET list) option" where
  "sum_chain [] p checksum data_length = do {
     (checksum, data_length, long_ptr) \<leftarrow> sum_packet p checksum data_length;
     (checksum, p) \<leftarrow> sum_tail p long_ptr checksum data_length;
     Some (checksum, [p])
   }"
| "sum_chain (q # qs) p checksum data_length = do {
     (checksum, data_length, long_ptr) \<leftarrow> sum_packet p checksum data_length;
     if 0 < data_length then do {
       (checksum, data_length) \<leftarrow>
         (if pk_addr p (pk_append p) mod 4 = 2 then do {
            s \<leftarrow> rd_short p long_ptr;
            Some (checksum + s, data_length - 2)
          }
          else Some (checksum, data_length));
       (checksum, ps) \<leftarrow> sum_chain qs q checksum data_length;
       Some (checksum, p # ps)
     }
     else Some (checksum, p # q # qs)
   }"

definition n68k_ip_checksum_compute ::
  "NX_PACKET \<Rightarrow> NX_PACKET list \<Rightarrow> ULONG \<Rightarrow> ULONG \<Rightarrow> ULONG list option \<Rightarrow> ULONG list option
   \<Rightarrow> (UWORD \<times> NX_PACKET list) option" where
  "n68k_ip_checksum_compute packet rest protocol data_length src dst = do {
     checksum \<leftarrow>
       (if protocol = NX_PROTOCOL_UDP \<or> protocol = NX_PROTOCOL_ICMPV6 \<or> protocol = NX_PROTOCOL_TCP then do {
          src \<leftarrow> src;
          dst \<leftarrow> dst;
          pseudo_sum (pk_version packet) protocol data_length src dst
        }
        else Some 0);
     (checksum, packets) \<leftarrow> sum_chain rest packet checksum data_length;
     Some (ucast (n68k_fold checksum), packets)
   }"

section \<open>The reference\<close>

definition pk_size :: "NX_PACKET \<Rightarrow> nat" where
  "pk_size p = pk_append p - pk_prepend p"

definition pk_data :: "NX_PACKET \<Rightarrow> UBYTE list" where
  "pk_data p = take (pk_size p) (drop (pk_prepend p) (pk_mem p))"

text \<open>
  What the caller guarantees of a chain whose first \<open>n\<close> bytes are summed: pointers in order and on
  longwords, an even number of bytes in every packet but the last, room for the padding byte, and
  no packet after the last one (unless a whole number of longwords is summed there).
\<close>

fun chain_ok :: "nat \<Rightarrow> NX_PACKET \<Rightarrow> NX_PACKET list \<Rightarrow> bool" where
  "chain_ok n p rest \<longleftrightarrow>
     pk_prepend p \<le> pk_append p \<and> pk_append p \<le> length (pk_mem p) \<and> length (pk_mem p) < 2 ^ 31 \<and>
     pk_addr p (pk_prepend p) mod 4 = 0 \<and>
     (if n \<le> pk_size p
      then pk_prepend p + (n + n mod 2) \<le> length (pk_mem p) \<and> (rest = [] \<or> n mod 4 = 0)
      else even (pk_size p) \<and> (case rest of [] \<Rightarrow> False | q # qs \<Rightarrow> chain_ok (n - pk_size p) q qs))"

declare chain_ok.simps [simp del]

definition pseudo_value :: "nat \<Rightarrow> ULONG \<Rightarrow> nat \<Rightarrow> ULONG list \<Rightarrow> ULONG list \<Rightarrow> nat" where
  "pseudo_value version protocol n src dst =
     unat protocol + n + sum_list (map unat (if version = NX_IP_VERSION_V6 then shorts src @ shorts dst
                                             else take 2 (shorts src) @ take 2 (shorts dst)))"

section \<open>One packet\<close>

lemma unat_be_val2: "unat (be_val [a, b]) = unat a * 256 + unat b"
proof -
  have "unat a < 256" using unat_lt2p [of a] by simp
  moreover have "unat (be_step 0 a) = unat a" by (subst unat_be_step) simp_all
  ultimately show ?thesis by (simp add: be_val_def, subst unat_be_step) simp_all
qed

lemma take2: "off + 2 \<le> length xs \<Longrightarrow> take 2 (drop off xs) = [xs ! off, xs ! (off + 1)]"
  by (simp add: take_Suc_conv_app_nth numeral_2_eq_2)

lemma rd_short_eq:
  assumes "even (pk_addr p off)" and "off + 2 \<le> length (pk_mem p)"
  shows "rd_short p off = Some (be_val [pk_mem p ! off, pk_mem p ! (off + 1)])"
  using assms by (simp add: rd_short_def take2)

text \<open>How many longwords of a packet the loop takes: all that are inside both bounds.\<close>

lemma sum_packet_eq:
  assumes ok: "pk_prepend p \<le> pk_append p" "pk_append p \<le> length (pk_mem p)" "length (pk_mem p) < 2 ^ 31"
      "pk_addr p (pk_prepend p) mod 4 = 0"
    and n: "unat data_length = n" and k: "k = min n (pk_size p) div 4"
  shows "sum_packet p checksum data_length =
           Some (checksum + n68k_fold (n68k_sum_longwords (longwords (take (4 * k) (drop (pk_prepend p) (pk_mem p))))),
                 of_nat (n - 4 * k), pk_prepend p + 4 * k)"
proof -
  define L where "L = pk_addr p (pk_prepend p)"
  define e where "e = (if of_nat (pk_size p) < data_length then pk_addr p (pk_append p) div 4 * 4 else L + int n - 3)"
  have size: "unat (of_nat (pk_size p) :: ULONG) = pk_size p"
  proof -
    have "pk_size p < 2 ^ 32" using ok by (simp add: pk_size_def)
    then show ?thesis by (simp add: unat_of_nat)
  qed
  have diff: "(of_int (int (pk_append p) - int (pk_prepend p)) :: ULONG) = of_nat (pk_size p)"
    using ok(1) by (simp add: pk_size_def of_nat_diff)
  have L4: "L mod 4 = 0" using ok(4) by (simp add: L_def)
  have app: "pk_addr p (pk_append p) = L + int (pk_size p)" using ok(1) by (simp add: L_def pk_addr_def pk_size_def)
  have lt: "(of_nat (pk_size p) < data_length) = (pk_size p < n)" by (simp add: word_less_nat_alt size n)
  have words: "nat ((e - L + 3) div 4) = k" and enter: "(L < e) = (0 < k)" and used: "L < e \<Longrightarrow> (e + 3) div 4 * 4 - L = int (4 * k)"
  proof -
    show "nat ((e - L + 3) div 4) = k" "(L < e) = (0 < k)" "L < e \<Longrightarrow> (e + 3) div 4 * 4 - L = int (4 * k)"
      using L4 by (auto simp: e_def lt app k min_def not_less; presburger)+
  qed
  show ?thesis
  proof (cases "0 < k")
    case True
    have "4 * k \<le> pk_size p" "4 * k \<le> n" by (simp_all add: k min_def, linarith+)
    then have "rd_longs p (pk_prepend p) k = Some (longwords (take (4 * k) (drop (pk_prepend p) (pk_mem p))))"
      using ok L4 by (simp add: rd_longs_def pk_size_def flip: L_def) presburger
    moreover have "data_length - of_int (int (4 * k)) = of_nat (n - 4 * k)"
      using \<open>4 * k \<le> n\<close> n by (simp add: of_nat_diff) (metis of_nat_unat ucast_id)
    moreover have "L < e" using True enter by simp
    ultimately show ?thesis
      unfolding sum_packet_def Let_def L_def [symmetric] diff n e_def [symmetric] words
      using used by simp
  next
    case False
    then have "\<not> L < e" using enter by simp
    moreover have "data_length = of_nat n" using n by (metis of_nat_unat ucast_id)
    ultimately show ?thesis
      unfolding sum_packet_def Let_def L_def [symmetric] diff n e_def [symmetric]
      using False by (simp add: n68k_sum_longwords_def n68k_fold_def)
  qed
qed

text \<open>The bytes after the last longword.\<close>

lemma be16_sum_short:
  "be16_sum [] = 0" "be16_sum [a] = unat a * 256" "be16_sum [a, b] = unat a * 256 + unat b"
  "be16_sum [a, b, c] = unat a * 256 + unat b + unat c * 256"
  by simp_all

lemma sum_tail_eq:
  assumes "pk_addr p off mod 4 = 0" and "r < 4" and "off + (r + r mod 2) \<le> length (pk_mem p)"
    and "unat checksum + 131070 < 2 ^ 32"
  obtains c' m' where "sum_tail p off checksum (of_nat r) = Some (c', p\<lparr>pk_mem := m'\<rparr>)"
    and "unat c' = unat checksum + be16_sum (take r (drop off (pk_mem p)))"
    and "length m' = length (pk_mem p)" and "\<And>i. i \<noteq> off + r \<Longrightarrow> m' ! i = pk_mem p ! i"
    and "even r \<Longrightarrow> m' = pk_mem p"
proof -
  let ?m = "pk_mem p"
  have ev: "even (pk_addr p off)" "even (pk_addr p (off + 2))"
    using assms(1) by (simp_all add: pk_addr_def) presburger+
  have byte: "unat (b :: UBYTE) \<le> 255" for b using unat_lt2p [of b] by simp
  consider "r = 0" | "r = 1" | "r = 2" | "r = 3" using assms(2) by linarith
  then show thesis
  proof cases
    case 1
    then show ?thesis using that [of checksum ?m] by (simp add: sum_tail_def)
  next
    case 2
    define m' where "m' = ?m[off + 1 := 0]"
    have room: "off + 2 \<le> length ?m" using assms(3) 2 by simp
    then have w: "wr_zero p (off + 1) = Some (p\<lparr>pk_mem := m'\<rparr>)"
      by (simp add: wr_zero_def wr_range_def m'_def upd_conv_take_nth_drop)
    have "rd_short (p\<lparr>pk_mem := m'\<rparr>) off = Some (be_val [?m ! off, 0])"
      using room ev(1) by (subst rd_short_eq) (simp_all add: m'_def pk_addr_def)
    moreover have "take 1 (drop off ?m) = [?m ! off]" using room by (simp add: take_Suc_conv_app_nth)
    moreover have "unat (checksum + be_val [?m ! off, 0]) = unat checksum + unat (?m ! off) * 256"
      using assms(4) byte [of "?m ! off"] by (subst unat_add_nowrap) (simp_all add: unat_be_val2)
    ultimately show ?thesis
      using that [of "checksum + be_val [?m ! off, 0]" m'] 2 w by (simp add: sum_tail_def m'_def)
  next
    case 3
    then have room: "off + 2 \<le> length ?m" using assms(3) by simp
    have "unat (checksum + be_val [?m ! off, ?m ! (off + 1)]) = unat checksum + (unat (?m ! off) * 256 + unat (?m ! (off + 1)))"
      using assms(4) byte [of "?m ! off"] byte [of "?m ! (off + 1)"]
      by (subst unat_add_nowrap) (simp_all add: unat_be_val2)
    then show ?thesis
      using that [of "checksum + be_val [?m ! off, ?m ! (off + 1)]" ?m] 3 rd_short_eq [OF ev(1) room]
      by (simp add: sum_tail_def take2 [OF room])
  next
    case 4
    then have room: "off + 4 \<le> length ?m" using assms(3) by simp
    define m' where "m' = ?m[off + 3 := 0]"
    define s1 s2 where "s1 = be_val [?m ! off, ?m ! (off + 1)]" and "s2 = be_val [?m ! (off + 2), 0]"
    have r1: "rd_short p off = Some s1" unfolding s1_def using ev(1) room by (intro rd_short_eq) simp_all
    have w: "wr_zero p (off + 3) = Some (p\<lparr>pk_mem := m'\<rparr>)"
      using room by (simp add: wr_zero_def wr_range_def m'_def upd_conv_take_nth_drop)
    have r2: "rd_short (p\<lparr>pk_mem := m'\<rparr>) (off + 2) = Some s2"
    proof -
      have "m' ! (off + 2 + 1) = 0" "m' ! (off + 2) = ?m ! (off + 2)"
        using room by (simp_all add: m'_def eval_nat_numeral)
      moreover have "off + 2 + 2 \<le> length m'" using room by (simp add: m'_def)
      moreover have "even (pk_addr (p\<lparr>pk_mem := m'\<rparr>) (off + 2))" using ev(2) by (simp add: pk_addr_def)
      ultimately show ?thesis using rd_short_eq [of "p\<lparr>pk_mem := m'\<rparr>" "off + 2"] by (simp add: s2_def)
    qed
    have bytes: "take 3 (drop off ?m) = [?m ! off, ?m ! (off + 1), ?m ! (off + 2)]"
      using room by (simp add: take_Suc_conv_app_nth eval_nat_numeral)
    have "unat s1 \<le> 65535" "unat s2 \<le> 65535"
      using byte [of "?m ! off"] byte [of "?m ! (off + 1)"] byte [of "?m ! (off + 2)"]
      by (simp_all add: s1_def s2_def unat_be_val2)
    then have "unat (checksum + s1 + s2) = unat checksum + unat s1 + unat s2"
      using assms(4) by (subst unat_add_nowrap; (subst unat_add_nowrap)?) simp_all
    then show ?thesis
      using that [of "checksum + s1 + s2" m'] 4 r1 w r2 bytes
      by (simp add: sum_tail_def m'_def s1_def s2_def unat_be_val2)
  qed
qed

section \<open>The chain\<close>

lemma unat_fold_le: "unat (n68k_fold w) \<le> 65535"
  by (simp add: unat_n68k_fold eac_le)

lemma longwords_step:
  assumes "4 * k + pk_prepend p \<le> length (pk_mem p)" and "unat checksum + 65535 < 2 ^ 32"
    and c: "c = checksum + n68k_fold (n68k_sum_longwords (longwords (take (4 * k) (drop (pk_prepend p) (pk_mem p)))))"
  shows "unat c \<le> unat checksum + 65535"
    and "ones (unat c) = ones (unat checksum + be16_sum (take (4 * k) (drop (pk_prepend p) (pk_mem p))))"
proof -
  define bs where "bs = take (4 * k) (drop (pk_prepend p) (pk_mem p))"
  define f where "f = n68k_fold (n68k_sum_longwords (longwords bs))"
  have u: "unat c = unat checksum + unat f"
    unfolding c bs_def [symmetric] f_def [symmetric]
    using assms(2) unat_fold_le [of "n68k_sum_longwords (longwords bs)"]
    by (intro unat_add_nowrap) (simp add: f_def)
  then show "unat c \<le> unat checksum + 65535" using unat_fold_le by (simp add: f_def)
  have "length bs = 4 * k" using assms(1) by (simp add: bs_def)
  then have "length bs mod 4 = 0" by simp
  then have "ones (unat f) = ones (be16_sum bs)"
    using sum_longwords_ones by (simp add: f_def unat_n68k_fold)
  then show "ones (unat c) = ones (unat checksum + be16_sum (take (4 * k) (drop (pk_prepend p) (pk_mem p))))"
    unfolding u bs_def [symmetric] by (intro eac_add_cong refl)
qed

lemma be16_sum_cut:
  assumes "even a" and "a \<le> length xs"
  shows "be16_sum (take a xs) + be16_sum (take b (drop a xs)) = be16_sum (take (a + b) xs)"
  using assms be16_sum_append [of "take a xs" "take b (drop a xs)"] by (simp add: take_add)

lemma chain_last:
  assumes "chain_ok n p []" and n: "unat data_length = n" and "unat checksum + 200000 < 2 ^ 32"
  obtains c' m' where "sum_chain [] p checksum data_length = Some (c', [p\<lparr>pk_mem := m'\<rparr>])"
    and "ones (unat c') = ones (unat checksum + be16_sum (take n (drop (pk_prepend p) (pk_mem p))))"
    and "length m' = length (pk_mem p)" and "\<And>i. i \<noteq> pk_prepend p + n \<Longrightarrow> m' ! i = pk_mem p ! i"
    and "even n \<Longrightarrow> m' = pk_mem p"
proof -
  have ok: "pk_prepend p \<le> pk_append p" "pk_append p \<le> length (pk_mem p)" "length (pk_mem p) < 2 ^ 31"
      "pk_addr p (pk_prepend p) mod 4 = 0" and le: "n \<le> pk_size p"
    and room: "pk_prepend p + (n + n mod 2) \<le> length (pk_mem p)"
    using assms(1) by (simp_all add: chain_ok.simps split: if_splits)
  define k r where "k = n div 4" and "r = n mod 4"
  have nkr: "n = 4 * k + r" "r < 4" by (simp_all add: k_def r_def)
  define c where "c = checksum + n68k_fold (n68k_sum_longwords (longwords (take (4 * k) (drop (pk_prepend p) (pk_mem p)))))"
  have sp: "sum_packet p checksum data_length = Some (c, of_nat r, pk_prepend p + 4 * k)"
  proof -
    have k: "k = min n (pk_size p) div 4" using le by (simp add: k_def min_def)
    have "n - 4 * k = r" using nkr(1) by linarith
    then show ?thesis using sum_packet_eq [OF ok n k, of checksum] by (simp only: c_def)
  qed
  have "4 * k + pk_prepend p \<le> length (pk_mem p)" using room nkr by simp
  note c = longwords_step [OF this _ c_def]
  have bound: "unat c + 131070 < 2 ^ 32" using c(1) assms(3) by simp
  have addr: "pk_addr p (pk_prepend p + 4 * k) mod 4 = 0"
    using ok(4) mod_mult_self2 [of "pk_addr p (pk_prepend p)" 4 "int k"] by (simp add: pk_addr_def add.assoc)
  have "r mod 2 = n mod 2" by (simp add: r_def mod_mod_cancel)
  then have room': "pk_prepend p + 4 * k + (r + r mod 2) \<le> length (pk_mem p)" using room nkr by simp
  obtain c' m' where
      t: "sum_tail p (pk_prepend p + 4 * k) c (of_nat r) = Some (c', p\<lparr>pk_mem := m'\<rparr>)"
    and c': "unat c' = unat c + be16_sum (take r (drop (pk_prepend p + 4 * k) (pk_mem p)))"
    and m': "length m' = length (pk_mem p)" "\<And>i. i \<noteq> pk_prepend p + 4 * k + r \<Longrightarrow> m' ! i = pk_mem p ! i"
      "even r \<Longrightarrow> m' = pk_mem p"
    by (rule sum_tail_eq [OF addr nkr(2) room' bound]) blast
  have "ones (unat c') = ones (unat checksum + be16_sum (take (4 * k) (drop (pk_prepend p) (pk_mem p)))
      + be16_sum (take r (drop (pk_prepend p + 4 * k) (pk_mem p))))"
    unfolding c' using assms(3) by (intro eac_add_cong c(2) refl) simp
  also have "\<dots> = ones (unat checksum + be16_sum (take n (drop (pk_prepend p) (pk_mem p))))"
  proof -
    have "4 * k \<le> length (drop (pk_prepend p) (pk_mem p))" using room nkr(1) by simp
    then show ?thesis
      using be16_sum_cut [of "4 * k" "drop (pk_prepend p) (pk_mem p)" r]
      unfolding nkr(1) add.assoc drop_drop by (simp only: add.commute [of "4 * k" "pk_prepend p"] dvd_triv_left
          even_numeral even_mult_iff simp_thms)
  qed
  finally show thesis
    using that [of c' m'] sp t m' nkr by (simp add: add.assoc)
qed

lemma chain_sum:
  assumes "chain_ok n p rest" and "unat data_length = n"
    and "unat checksum + 200000 * (length rest + 1) < 2 ^ 32"
  shows "\<exists>c' ps. sum_chain rest p checksum data_length = Some (c', ps) \<and>
           ones (unat c') = ones (unat checksum + be16_sum (take n (concat (map pk_data (p # rest)))))"
  using assms
proof (induction rest arbitrary: n p checksum data_length)
  case Nil
  then have "take n (pk_data p) = take n (drop (pk_prepend p) (pk_mem p))"
    by (simp add: chain_ok.simps pk_data_def split: if_splits)
  moreover have "unat checksum + 200000 < 2 ^ 32" using Nil.prems(3) by simp
  then obtain c' m' where "sum_chain [] p checksum data_length = Some (c', [p\<lparr>pk_mem := m'\<rparr>])"
    and "ones (unat c') = ones (unat checksum + be16_sum (take n (drop (pk_prepend p) (pk_mem p))))"
    by (rule chain_last [OF Nil.prems(1,2)]) blast
  ultimately show ?case by auto
next
  case (Cons q qs)
  have ok: "pk_prepend p \<le> pk_append p" "pk_append p \<le> length (pk_mem p)" "length (pk_mem p) < 2 ^ 31"
      "pk_addr p (pk_prepend p) mod 4 = 0"
    using Cons.prems(1) by (simp_all add: chain_ok.simps [of n p])
  define N where "N = min n (pk_size p)"
  define k where "k = N div 4"
  define mem where "mem = drop (pk_prepend p) (pk_mem p)"
  define c where "c = checksum + n68k_fold (n68k_sum_longwords (longwords (take (4 * k) mem)))"
  have sp: "sum_packet p checksum data_length = Some (c, of_nat (n - 4 * k), pk_prepend p + 4 * k)"
    using sum_packet_eq [OF ok Cons.prems(2) k_def [unfolded N_def], of checksum] by (simp only: c_def mem_def)
  have size: "pk_size p \<le> length mem" using ok by (simp add: pk_size_def mem_def)
  have "4 * k \<le> N" by (simp add: k_def)
  moreover have "N \<le> pk_size p" "N \<le> n" by (simp_all add: N_def)
  ultimately have kN: "4 * k \<le> N" "N \<le> pk_size p" "N \<le> n" .
  have k: "4 * k + pk_prepend p \<le> length (pk_mem p)" using kN ok by (simp add: pk_size_def)
  have "unat checksum + 65535 < 2 ^ 32" using Cons.prems(3) by simp
  note c = longwords_step [OF k this c_def [unfolded mem_def], folded mem_def]
  have data: "take j (pk_data p) = take j mem" if "j \<le> pk_size p" for j
    using that by (simp add: pk_data_def mem_def min_def)
  have len: "length (pk_data p) = pk_size p" using size by (simp add: pk_data_def mem_def)
  have n32: "n < 2 ^ 32" using Cons.prems(2) unat_lt2p [of data_length] by simp
  show ?case
  proof (cases "n \<le> pk_size p")
    case True
    then have "n mod 4 = 0" using Cons.prems(1) by (simp add: chain_ok.simps [of n p])
    then have "4 * k = n" using True by (simp add: k_def N_def min_def mult.commute) presburger
    then show ?thesis
      using sp c(2) True len by (simp add: data)
  next
    case False
    then have even: "even (pk_size p)" and next_ok: "chain_ok (n - pk_size p) q qs"
      using Cons.prems(1) by (simp_all add: chain_ok.simps [of n p])
    have N: "N = pk_size p" using False by (simp add: N_def)
    have pos: "0 < (of_nat (n - 4 * k) :: ULONG)"
    proof -
      define j where "j = n - 4 * k"
      have "0 < j" "j < 2 ^ 32" using False kN n32 by (simp_all add: j_def)
      then show ?thesis by (simp add: word_less_nat_alt unat_of_nat flip: j_def)
    qed
    have app: "pk_addr p (pk_append p) mod 4 = int (pk_size p mod 4)"
    proof -
      have "pk_addr p (pk_append p) = pk_addr p (pk_prepend p) + int (pk_size p)"
        using ok(1) by (simp add: pk_addr_def pk_size_def)
      then show ?thesis using ok(4) by (simp add: mod_add_eq [symmetric] zmod_int)
    qed
    define r where "r = pk_size p mod 4"
    have r: "r = 0 \<or> r = 2" using even by (auto simp: r_def) presburger
    have kr: "4 * k + r = pk_size p" by (simp add: k_def N r_def)
    define d where "d = (if r = 2 then c + be_val [mem ! (4 * k), mem ! (4 * k + 1)] else c)"
    have mid: "(if pk_addr p (pk_append p) mod 4 = 2
                then do { s \<leftarrow> rd_short p (pk_prepend p + 4 * k); Some (c + s, (of_nat (n - 4 * k) :: ULONG) - 2) }
                else Some (c, of_nat (n - 4 * k))) = Some (d, of_nat (n - pk_size p))"
    proof (cases "r = 2")
      case True
      have "pk_addr p (pk_prepend p + 4 * k) = pk_addr p (pk_prepend p) + 4 * int k"
        by (simp add: pk_addr_def)
      then have "even (pk_addr p (pk_prepend p + 4 * k))" using ok(4) by presburger
      moreover have "pk_prepend p + 4 * k + 2 \<le> length (pk_mem p)" using kr True ok by (simp add: pk_size_def)
      ultimately have "rd_short p (pk_prepend p + 4 * k) = Some (be_val [mem ! (4 * k), mem ! (4 * k + 1)])"
        using rd_short_eq by (simp add: mem_def add.assoc)
      moreover have "n - 4 * k = (n - pk_size p) + 2" using kr True False by linarith
      ultimately show ?thesis using app True by (simp add: d_def flip: r_def)
    next
      case 0: False
      then show ?thesis using app r kr by (simp add: d_def flip: r_def)
    qed
    have d: "unat d \<le> unat checksum + 131070"
      and d_ones: "ones (unat d) = ones (unat checksum + be16_sum (take (pk_size p) mem))"
    proof -
      have "unat d = unat c + be16_sum (take r (drop (4 * k) mem)) \<and> be16_sum (take r (drop (4 * k) mem)) \<le> 65535"
      proof (cases "r = 2")
        case True
        have bytes: "take r (drop (4 * k) mem) = [mem ! (4 * k), mem ! (4 * k + 1)]"
          using kr True size by (simp add: take2)
        have "unat (b :: UBYTE) \<le> 255" for b using unat_lt2p [of b] by simp
        from this [of "mem ! (4 * k)"] this [of "mem ! (4 * k + 1)"]
        have "unat (be_val [mem ! (4 * k), mem ! (4 * k + 1)]) \<le> 65535" by (simp add: unat_be_val2)
        moreover from this have "unat d = unat c + unat (be_val [mem ! (4 * k), mem ! (4 * k + 1)])"
          using True c(1) Cons.prems(3) unfolding d_def by (simp, intro unat_add_nowrap) simp
        ultimately show ?thesis by (simp add: bytes unat_be_val2)
      qed (use r in \<open>simp add: d_def\<close>)
      then have u: "unat d = unat c + be16_sum (take r (drop (4 * k) mem))"
        and small: "be16_sum (take r (drop (4 * k) mem)) \<le> 65535" by blast+
      show "unat d \<le> unat checksum + 131070" using u small c(1) by linarith
      have "ones (unat d) = ones (unat checksum + be16_sum (take (4 * k) mem) + be16_sum (take r (drop (4 * k) mem)))"
        unfolding u by (intro eac_add_cong c(2) refl)
      then show "ones (unat d) = ones (unat checksum + be16_sum (take (pk_size p) mem))"
        using be16_sum_cut [of "4 * k" mem r] kr size by (simp add: add.assoc)
    qed
    have "unat (of_nat (n - pk_size p) :: ULONG) = n - pk_size p"
    proof -
      define j where "j = n - pk_size p"
      have "j < 2 ^ 32" using n32 by (simp add: j_def)
      then show ?thesis by (simp add: unat_of_nat flip: j_def)
    qed
    moreover have "unat d + 200000 * (length qs + 1) < 2 ^ 32" using d Cons.prems(3) by simp
    ultimately obtain c' ps where ih: "sum_chain qs q d (of_nat (n - pk_size p)) = Some (c', ps)"
      and c': "ones (unat c') = ones (unat d + be16_sum (take (n - pk_size p) (concat (map pk_data (q # qs)))))"
      using Cons.IH [OF next_ok] by blast
    have "ones (unat c') = ones (unat checksum + be16_sum (take (pk_size p) mem)
        + be16_sum (take (n - pk_size p) (concat (map pk_data (q # qs)))))"
      unfolding c' by (intro eac_add_cong d_ones refl)
    also have "\<dots> = ones (unat checksum + be16_sum (take n (concat (map pk_data (p # q # qs)))))"
      using False len even be16_sum_append [of "pk_data p" "take (n - pk_size p) (concat (map pk_data (q # qs)))"] data [of "pk_size p"]
      by (simp add: add.assoc)
    finally show ?thesis using sp pos mid ih by simp
  qed
qed

section \<open>The pseudo header\<close>

lemma shorts_le: "x \<in> set (shorts ws) \<Longrightarrow> unat x \<le> 65535"
proof -
  have "unat (drop_bit 16 w) \<le> 65535" "unat (w AND 0xFFFF) \<le> 65535" for w :: ULONG
    using unat_lt2p [of w] by (simp_all add: unat_high_16 unat_and_ffff)
  moreover assume "x \<in> set (shorts ws)"
  ultimately show ?thesis by (auto simp: shorts_def)
qed

lemma length_shorts [simp]: "length (shorts ws) = 2 * length ws"
  by (induction ws) (simp_all add: shorts_def)

lemma unat_sum_small:
  assumes "\<And>x. x \<in> set xs \<Longrightarrow> unat x \<le> 65535" and "unat acc + 65535 * length xs < 2 ^ 32"
  shows "unat (fold (\<lambda>x c. c + x) xs (acc :: ULONG)) = unat acc + sum_list (map unat xs)"
  using assms
proof (induction xs arbitrary: acc)
  case (Cons x xs)
  have "unat x \<le> 65535" using Cons.prems(1) by simp
  then have "unat (acc + x) = unat acc + unat x"
    using Cons.prems(2) by (intro unat_add_nowrap) simp
  moreover from this have "unat (acc + x) + 65535 * length xs < 2 ^ 32"
    using Cons.prems(2) \<open>unat x \<le> 65535\<close> by simp
  ultimately show ?case using Cons.IH [of "acc + x"] Cons.prems(1) by simp
qed simp

lemma fold_zip_sum:
  "fold (\<lambda>(a, b) c. c + a + b) (zip xs ys) acc = fold (\<lambda>x c. c + x) (concat (map (\<lambda>(a, b). [a, b]) (zip xs ys))) acc"
  by (induction xs ys arbitrary: acc rule: list_induct2') simp_all

lemma set_zip_pairs: "set (concat (map (\<lambda>(a, b). [a, b]) (zip xs ys))) \<subseteq> set xs \<union> set ys"
  by (auto dest: set_zip_leftD set_zip_rightD)

lemma sum_zip_pairs:
  assumes "length xs = length ys"
  shows "sum_list (map unat (concat (map (\<lambda>(a, b). [a, b]) (zip xs ys)))) = sum_list (map unat xs) + sum_list (map unat ys)"
    and "length (concat (map (\<lambda>(a, b). [a, b]) (zip xs ys))) = 2 * length xs"
  using assms by (induction xs ys rule: list_induct2) simp_all

definition addr_len :: "nat \<Rightarrow> nat" where
  "addr_len version = (if version = NX_IP_VERSION_V6 then 4 else 1)"

lemma pseudo_sum_eq:
  assumes len: "length src = addr_len version" "length dst = addr_len version"
    and small: "unat protocol \<le> 65535" "unat data_length < 2 ^ 31"
  shows "\<exists>c. pseudo_sum version protocol data_length src dst = Some c \<and> unat c \<le> 65535 \<and>
             unat c = ones (pseudo_value version protocol (unat data_length) src dst)"
proof -
  have ge: "1 \<le> length src" "1 \<le> length dst" using len by (simp_all add: addr_len_def split: if_splits)
  define first where "first = [shorts src ! 0, shorts src ! 1, shorts dst ! 0, shorts dst ! 1]"
  define more where "more = (if version = NX_IP_VERSION_V6
      then concat (map (\<lambda>(a, b). [a, b]) (zip (drop 2 (shorts dst)) (drop 2 (shorts src)))) else [])"
  define acc where "acc = fold (\<lambda>x c. c + x) (first @ more) protocol"
  have cut: "shorts ws = shorts ws ! 0 # shorts ws ! 1 # drop 2 (shorts ws)" if "1 \<le> length ws" for ws
  proof -
    obtain w us where "ws = w # us" using \<open>1 \<le> length ws\<close> by (cases ws) auto
    then show ?thesis by (simp add: shorts_def)
  qed
  have mem: "set (first @ more) \<subseteq> set (shorts src) \<union> set (shorts dst)"
  proof -
    have "set more \<subseteq> set (shorts src) \<union> set (shorts dst)"
      using set_zip_pairs [of "drop 2 (shorts dst)" "drop 2 (shorts src)"]
        set_drop_subset [of 2 "shorts dst"] set_drop_subset [of 2 "shorts src"]
      by (simp add: more_def) blast
    moreover have "set first \<subseteq> set (shorts src) \<union> set (shorts dst)"
    proof -
      have "0 < length (shorts src)" "1 < length (shorts src)" "0 < length (shorts dst)" "1 < length (shorts dst)"
        using ge by auto
      then show ?thesis using nth_mem by (simp only: first_def list.set insert_subset empty_subsetI Un_iff) blast
    qed
    ultimately show ?thesis by simp
  qed
  have "length (first @ more) \<le> 16"
    using len sum_zip_pairs(2) [of "drop 2 (shorts dst)" "drop 2 (shorts src)"]
    by (simp add: first_def more_def addr_len_def)
  then have "unat protocol + 65535 * length (first @ more) < 2 ^ 32" using small(1) by simp
  then have acc: "unat acc = unat protocol + sum_list (map unat (first @ more))"
    unfolding acc_def using mem shorts_le by (intro unat_sum_small) blast+
  have val: "sum_list (map unat (first @ more)) + unat protocol + unat data_length
      = pseudo_value version protocol (unat data_length) src dst"
  proof (cases "version = NX_IP_VERSION_V6")
    case True
    have "sum_list (map unat (shorts ws)) = unat (shorts ws ! 0) + unat (shorts ws ! 1) + sum_list (map unat (drop 2 (shorts ws)))"
      if "1 \<le> length ws" for ws
      by (subst cut [OF that]) simp
    then show ?thesis
      using True ge len sum_zip_pairs(1) [of "drop 2 (shorts dst)" "drop 2 (shorts src)"]
      by (simp add: first_def more_def pseudo_value_def)
  next
    case False
    have "take 2 (shorts ws) = [shorts ws ! 0, shorts ws ! 1]" if "1 \<le> length ws" for ws
      by (subst cut [OF that]) simp
    then show ?thesis using False ge by (simp add: first_def more_def pseudo_value_def)
  qed
  have bound: "unat acc \<le> 65535 * 17"
  proof -
    have "sum_list (map unat (first @ more)) \<le> sum_list (map (\<lambda>_. 65535) (first @ more))"
      using mem shorts_le by (intro sum_list_mono) blast
    also have "\<dots> \<le> 65535 * 16" using \<open>length (first @ more) \<le> 16\<close> by (simp add: sum_list_triv)
    finally show ?thesis using acc small(1) by simp
  qed
  have "unat (acc + data_length) = unat acc + unat data_length"
    using bound small(2) by (intro unat_add_nowrap) simp
  then have "unat (n68k_fold (acc + data_length)) = ones (pseudo_value version protocol (unat data_length) src dst)"
    unfolding unat_n68k_fold using acc val by (simp add: ac_simps)
  moreover have "pseudo_sum version protocol data_length src dst = Some (n68k_fold (acc + data_length))"
    using len ge by (simp add: pseudo_sum_def acc_def first_def more_def fold_zip_sum addr_len_def)
  ultimately show ?thesis by (simp add: eac_le)
qed

section \<open>The checksum\<close>

definition has_pseudo :: "ULONG \<Rightarrow> bool" where
  "has_pseudo protocol \<longleftrightarrow> protocol = NX_PROTOCOL_UDP \<or> protocol = NX_PROTOCOL_ICMPV6 \<or> protocol = NX_PROTOCOL_TCP"

lemma compute_eq:
  assumes ok: "chain_ok (unat data_length) packet rest" and "unat data_length < 2 ^ 31" and "length rest < 20000"
    and addr: "has_pseudo protocol \<Longrightarrow> src = Some s \<and> dst = Some d \<and>
                 length s = addr_len (pk_version packet) \<and> length d = addr_len (pk_version packet)"
  obtains c ps where "n68k_ip_checksum_compute packet rest protocol data_length src dst = Some (c, ps)"
    and "unat c = ones ((if has_pseudo protocol
                         then pseudo_value (pk_version packet) protocol (unat data_length) s d else 0)
                        + be16_sum (take (unat data_length) (concat (map pk_data (packet # rest)))))"
proof -
  let ?v = "if has_pseudo protocol then pseudo_value (pk_version packet) protocol (unat data_length) s d else 0"
  let ?data = "be16_sum (take (unat data_length) (concat (map pk_data (packet # rest))))"
  obtain c0 where c0: "(if has_pseudo protocol then do {
          src \<leftarrow> src; dst \<leftarrow> dst;
          pseudo_sum (pk_version packet) protocol data_length src dst } else Some 0) = Some c0"
    and le: "unat c0 \<le> 65535" and val: "unat c0 = ones ?v"
  proof (cases "has_pseudo protocol")
    case True
    then have "unat protocol \<le> 65535" by (auto simp: has_pseudo_def)
    then show ?thesis
      using True addr pseudo_sum_eq [of s "pk_version packet" d protocol data_length] assms(2) that by auto
  qed (use that [of 0] in simp)
  have "unat c0 + 200000 * (length rest + 1) < 2 ^ 32" using le assms(3) by simp
  from chain_sum [OF ok refl this] obtain c' ps where sum: "sum_chain rest packet c0 data_length = Some (c', ps)"
    and c': "ones (unat c') = ones (unat c0 + ?data)" by blast
  have "n68k_ip_checksum_compute packet rest protocol data_length src dst = Some (ucast (n68k_fold c'), ps)"
    unfolding n68k_ip_checksum_compute_def has_pseudo_def [symmetric] using c0 sum by simp
  moreover have "unat (ucast (n68k_fold c') :: UWORD) = ones (?v + ?data)"
  proof -
    have "unat (n68k_fold c') = ones (?v + ?data)" using c' val by (simp add: unat_n68k_fold)
    moreover from this have "unat (n68k_fold c') \<le> 65535" by (simp add: eac_le)
    ultimately show ?thesis by (simp add: unsigned_ucast_eq take_bit_eq_mod unat_mod)
  qed
  ultimately show thesis by (rule that)
qed

text \<open>One packet: the same, and what is left of the buffer.\<close>

lemma compute_single:
  assumes ok: "chain_ok (unat data_length) packet []" and "unat data_length < 2 ^ 31"
    and addr: "has_pseudo protocol \<Longrightarrow> src = Some s \<and> dst = Some d \<and>
                 length s = addr_len (pk_version packet) \<and> length d = addr_len (pk_version packet)"
  obtains c m' where "n68k_ip_checksum_compute packet [] protocol data_length src dst = Some (c, [packet\<lparr>pk_mem := m'\<rparr>])"
    and "unat c = ones ((if has_pseudo protocol
                         then pseudo_value (pk_version packet) protocol (unat data_length) s d else 0)
                        + be16_sum (take (unat data_length) (pk_data packet)))"
    and "length m' = length (pk_mem packet)" and "even (unat data_length) \<Longrightarrow> m' = pk_mem packet"
proof -
  obtain c ps where c: "n68k_ip_checksum_compute packet [] protocol data_length src dst = Some (c, ps)"
      "unat c = ones ((if has_pseudo protocol
                         then pseudo_value (pk_version packet) protocol (unat data_length) s d else 0)
                        + be16_sum (take (unat data_length) (concat (map pk_data [packet]))))"
    by (rule compute_eq [OF ok assms(2) _ addr]) simp_all
  obtain c0 c' where "unat c0 \<le> 65535" "sum_chain [] packet c0 data_length = Some (c', ps)"
  proof (cases "has_pseudo protocol")
    case True
    then have "unat protocol \<le> 65535" by (auto simp: has_pseudo_def)
    then obtain c0 where c0: "pseudo_sum (pk_version packet) protocol data_length s d = Some c0" "unat c0 \<le> 65535"
      using True addr pseudo_sum_eq [of s "pk_version packet" d protocol data_length] assms(2) by auto
    then obtain c' where "sum_chain [] packet c0 data_length = Some (c', ps)"
      using True c(1) addr unfolding n68k_ip_checksum_compute_def has_pseudo_def [symmetric]
      by (auto simp del: sum_chain.simps simp: bind_eq_Some_conv)
    then show ?thesis using that c0(2) by blast
  next
    case False
    then show ?thesis
      using that [of 0] c(1) unfolding n68k_ip_checksum_compute_def has_pseudo_def [symmetric]
      by (auto simp del: sum_chain.simps simp: bind_eq_Some_conv)
  qed
  moreover from this have "unat c0 + 200000 < 2 ^ 32" by simp
  then obtain c'' m' where "sum_chain [] packet c0 data_length = Some (c'', [packet\<lparr>pk_mem := m'\<rparr>])"
      "length m' = length (pk_mem packet)" "even (unat data_length) \<Longrightarrow> m' = pk_mem packet"
    by (rule chain_last [OF ok refl]) blast
  ultimately show thesis using that c by simp
qed

end
