(* ===== verification/Cks_Verify.thy ===== *)
theory Cks_Verify
  imports Cks_Packet
begin

text \<open>
  The checks a received frame gets before the stack sees it, \<^verbatim>\<open>src/net68k/n68k_rx_verify.c\<close>, built
  with IPv6: the ordinary walk (\<open>n68k_rx_verify\<close>, \<open>n68k_rxv6_verify\<close>), and the check from the sum
  that the copy of the frame carried (\<open>n68k_rx_verify_sum\<close>).

  The packet's prepend pointer is at the IP header; \<open>ip8 p i\<close> is \<^verbatim>\<open>ip[i]\<close>. The capability bits are
  NetX Duo's: \<open>cap\<close> gives their values. \<open>hot\<close> is the build switch \<^verbatim>\<open>AMINETXDUO_RX_VERIFY_STATS\<close>.
  Offsets into the frame are at most 65535 + 40 + 2048, far from the width of a \<^verbatim>\<open>ULONG\<close>, and are
  natural numbers; a read outside the packet's buffer is \<open>None\<close>. A verdict is the counters, the bits to
  publish, whether the frame is dropped, and the packets as they are left.
\<close>

record N68kRxVerifyStats =
  ip_ok :: ULONG
  transport_ok :: ULONG
  bad_ip :: ULONG
  bad_transport :: ULONG
  skip_short :: ULONG
  skip_version :: ULONG
  skip_length :: ULONG
  skip_fragment :: ULONG
  skip_protocol :: ULONG
  skip_udp_nosum :: ULONG
  from_copy :: ULONG
  v6_ok :: ULONG
  v4_fused :: ULONG
  skip_ext :: ULONG
  v6_ext :: ULONG

record capability_bits =
  CAP_IPV4_RX :: ULONG
  CAP_TCP_RX :: ULONG
  CAP_UDP_RX :: ULONG
  CAP_ICMPV4_RX :: ULONG
  CAP_ICMPV6_RX :: ULONG
  CAP_IGMP_RX :: ULONG

type_synonym rxv_stats = N68kRxVerifyStats
type_synonym verdict = "rxv_stats \<times> ULONG \<times> bool \<times> NX_PACKET list"

definition N68K_RXV_COUNT :: "((ULONG \<Rightarrow> ULONG) \<Rightarrow> rxv_stats \<Rightarrow> rxv_stats) \<Rightarrow> rxv_stats \<Rightarrow> rxv_stats" where
  "N68K_RXV_COUNT f st = f (\<lambda>x. x + 1) st"

definition N68K_RXV_HOT :: "bool \<Rightarrow> ((ULONG \<Rightarrow> ULONG) \<Rightarrow> rxv_stats \<Rightarrow> rxv_stats) \<Rightarrow> rxv_stats \<Rightarrow> rxv_stats" where
  "N68K_RXV_HOT hot f st = (if hot then f (\<lambda>x. x + 1) st else st)"

section \<open>Reads\<close>

definition ip8 :: "NX_PACKET \<Rightarrow> nat \<Rightarrow> UBYTE option" where
  "ip8 p i = rd (pk_mem p) (pk_prepend p + i)"

definition N68K_RD16 :: "NX_PACKET \<Rightarrow> nat \<Rightarrow> ULONG option" where
  "N68K_RD16 p i = map_option be_val (rd_range (pk_mem p) (pk_prepend p + i) 2)"

definition N68K_RD32 :: "NX_PACKET \<Rightarrow> nat \<Rightarrow> ULONG option" where
  "N68K_RD32 p i = map_option be_val (rd_range (pk_mem p) (pk_prepend p + i) 4)"

text \<open>The same in one instruction, which an odd address does not allow.\<close>

definition N68K_RDW16 :: "NX_PACKET \<Rightarrow> nat \<Rightarrow> ULONG option" where
  "N68K_RDW16 p i = (if odd (pk_addr p (pk_prepend p + i)) then None else N68K_RD16 p i)"

definition N68K_RDW32 :: "NX_PACKET \<Rightarrow> nat \<Rightarrow> ULONG option" where
  "N68K_RDW32 p i = (if odd (pk_addr p (pk_prepend p + i)) then None else N68K_RD32 p i)"

definition n68k_rxv_even :: "NX_PACKET \<Rightarrow> bool" where
  "n68k_rxv_even p \<longleftrightarrow> pk_addr p (pk_prepend p) mod 4 = 0"

definition n68k_rx_sum_ok ::
  "NX_PACKET \<Rightarrow> NX_PACKET list \<Rightarrow> ULONG \<Rightarrow> ULONG \<Rightarrow> ULONG list option \<Rightarrow> ULONG list option
   \<Rightarrow> (bool \<times> NX_PACKET list) option" where
  "n68k_rx_sum_ok packet rest protocol len src dst = do {
     (checksum, ps) \<leftarrow> n68k_ip_checksum_compute packet rest protocol len src dst;
     Some (NOT (ucast checksum :: ULONG) AND 0xFFFF = 0, ps)
   }"

section \<open>The shape of an IPv6 frame\<close>

abbreviation (input) N68K_V6_HOPOPT :: nat where "N68K_V6_HOPOPT \<equiv> 0"
abbreviation (input) N68K_V6_ROUTING :: nat where "N68K_V6_ROUTING \<equiv> 43"
abbreviation (input) N68K_V6_FRAGMENT :: nat where "N68K_V6_FRAGMENT \<equiv> 44"
abbreviation (input) N68K_V6_ESP :: nat where "N68K_V6_ESP \<equiv> 50"
abbreviation (input) N68K_V6_AH :: nat where "N68K_V6_AH \<equiv> 51"
abbreviation (input) N68K_V6_NONEXT :: nat where "N68K_V6_NONEXT \<equiv> 59"
abbreviation (input) N68K_V6_DSTOPT :: nat where "N68K_V6_DSTOPT \<equiv> 60"
abbreviation (input) N68K_V6_MAX_EXT :: nat where "N68K_V6_MAX_EXT \<equiv> 8"

abbreviation (input) P_ICMP :: nat where "P_ICMP \<equiv> 1"
abbreviation (input) P_IGMP :: nat where "P_IGMP \<equiv> 2"
abbreviation (input) P_TCP :: nat where "P_TCP \<equiv> 6"
abbreviation (input) P_UDP :: nat where "P_UDP \<equiv> 17"
abbreviation (input) P_ICMPV6 :: nat where "P_ICMPV6 \<equiv> 58"

function dstopt_loop :: "NX_PACKET \<Rightarrow> nat \<Rightarrow> nat \<Rightarrow> nat \<Rightarrow> bool option" where
  "dstopt_loop p opt bytes i =
     (if i < bytes then do {
        b \<leftarrow> ip8 p (opt + i);
        if b = 0 then dstopt_loop p opt bytes (i + 1)
        else if bytes < i + 2 then Some False
        else if b = 201 then Some False
        else do {
          l \<leftarrow> ip8 p (opt + i + 1);
          dstopt_loop p opt bytes (i + (2 + unat l))
        }
      }
      else Some (i = bytes))"
  by pat_completeness auto
termination by (relation "measure (\<lambda>(p, opt, bytes, i). bytes - i)") auto

declare dstopt_loop.simps [simp del]

definition n68k_rxv6_dstopt_plain :: "NX_PACKET \<Rightarrow> nat \<Rightarrow> nat \<Rightarrow> bool option" where
  "n68k_rxv6_dstopt_plain p opt bytes = dstopt_loop p opt bytes 0"

text \<open>One extension header: the counters of a frame that is declined, or the header's length.\<close>

definition ext_hlen :: "NX_PACKET \<Rightarrow> rxv_stats \<Rightarrow> nat \<Rightarrow> nat \<Rightarrow> (rxv_stats + nat) option" where
  "ext_hlen p st next at =
     (if next = N68K_V6_HOPOPT \<or> next = N68K_V6_DSTOPT \<or> next = N68K_V6_ROUTING
      then map_option (\<lambda>l. Inr ((unat l + 1) * 8)) (ip8 p (at + 1))
      else if next = N68K_V6_FRAGMENT then Some (Inr 8)
      else if next = N68K_V6_AH then map_option (\<lambda>l. Inr ((unat l + 2) * 4)) (ip8 p (at + 1))
      else if next = N68K_V6_ESP \<or> next = N68K_V6_NONEXT then Some (Inl (N68K_RXV_COUNT skip_ext_update st))
      else Some (Inl (N68K_RXV_COUNT skip_protocol_update st)))"

definition ext_check :: "NX_PACKET \<Rightarrow> rxv_stats \<Rightarrow> nat \<Rightarrow> nat \<Rightarrow> nat \<Rightarrow> (rxv_stats + nat) option" where
  "ext_check p st next at hlen =
     (if next = N68K_V6_ROUTING then do {
        s \<leftarrow> ip8 p (at + 3);
        Some (if s \<noteq> 0 then Inl (N68K_RXV_COUNT skip_ext_update st) else Inr hlen)
      }
      else if next = N68K_V6_FRAGMENT then do {
        w \<leftarrow> N68K_RD16 p (at + 2);
        Some (if w AND 0xFFF9 \<noteq> 0 then Inl (N68K_RXV_COUNT skip_fragment_update st) else Inr hlen)
      }
      else if next = N68K_V6_DSTOPT then do {
        plain \<leftarrow> n68k_rxv6_dstopt_plain p (at + 2) (hlen - 2);
        Some (if \<not> plain then Inl (N68K_RXV_COUNT skip_ext_update st) else Inr hlen)
      }
      else Some (Inr hlen))"

definition ext_header :: "NX_PACKET \<Rightarrow> nat \<Rightarrow> rxv_stats \<Rightarrow> nat \<Rightarrow> nat \<Rightarrow> (rxv_stats + nat) option" where
  "ext_header p fin st next at =
     (if fin < at + 8 then Some (Inl (N68K_RXV_COUNT skip_length_update st))
      else do {
        r \<leftarrow> ext_hlen p st next at;
        (case r of
           Inl st \<Rightarrow> Some (Inl st)
         | Inr hlen \<Rightarrow>
             if hlen < 8 \<or> fin < at + hlen then Some (Inl (N68K_RXV_COUNT skip_length_update st))
             else ext_check p st next at hlen)
      })"

text \<open>The chain: the protocol of the transport header and where it starts.\<close>

function ext_chain :: "NX_PACKET \<Rightarrow> nat \<Rightarrow> rxv_stats \<Rightarrow> nat \<Rightarrow> nat \<Rightarrow> nat \<Rightarrow> (rxv_stats + nat \<times> nat) option" where
  "ext_chain p fin st walked next at =
     (if next = P_TCP \<or> next = P_UDP \<or> next = P_ICMPV6 then Some (Inr (next, at))
      else if N68K_V6_MAX_EXT \<le> walked then Some (Inl (N68K_RXV_COUNT skip_ext_update st))
      else do {
        r \<leftarrow> ext_header p fin st next at;
        (case r of
           Inl st \<Rightarrow> Some (Inl st)
         | Inr hlen \<Rightarrow> do {
             b \<leftarrow> ip8 p at;
             ext_chain p fin st (walked + 1) (unat b) (at + hlen)
           })
      })"
  by pat_completeness auto
termination by (relation "measure (\<lambda>(p, fin, st, walked, next, at). N68K_V6_MAX_EXT - walked)") auto

declare ext_chain.simps [simp del]

definition transport_shape ::
  "NX_PACKET \<Rightarrow> nat \<Rightarrow> rxv_stats \<Rightarrow> nat \<Rightarrow> nat \<Rightarrow> (rxv_stats + nat \<times> nat \<times> nat) option" where
  "transport_shape p fin st next at =
     (if fin < at + (if next = P_TCP then 20 else 8) then Some (Inl (N68K_RXV_COUNT skip_length_update st))
      else if next = P_UDP then do {
        ulen \<leftarrow> N68K_RD16 p (at + 4);
        if unat ulen \<noteq> fin - at then Some (Inl (N68K_RXV_COUNT skip_length_update st))
        else do {
          c \<leftarrow> N68K_RD16 p (at + 6);
          Some (if c = 0 then Inl (N68K_RXV_COUNT skip_udp_nosum_update st) else Inr (next, at, fin - at))
        }
      }
      else Some (Inr (next, at, fin - at)))"

definition n68k_rxv6_shape :: "NX_PACKET \<Rightarrow> rxv_stats \<Rightarrow> (rxv_stats + nat \<times> nat \<times> nat) option" where
  "n68k_rxv6_shape p st =
     (if pk_length p < 40 then Some (Inl (N68K_RXV_COUNT skip_short_update st))
      else do {
        w \<leftarrow> N68K_RD16 p 4;
        let plen = unat w;
        if plen = 0 \<or> unat (pk_length p) < plen + 40 then Some (Inl (N68K_RXV_COUNT skip_length_update st))
        else do {
          next \<leftarrow> ip8 p 6;
          r \<leftarrow> ext_chain p (40 + plen) st 0 (unat next) 40;
          (case r of
             Inl st \<Rightarrow> Some (Inl st)
           | Inr (next, at) \<Rightarrow> transport_shape p (40 + plen) st next at)
        }
      })"

definition n68k_rxv6_bit :: "capability_bits \<Rightarrow> nat \<Rightarrow> ULONG" where
  "n68k_rxv6_bit cap protocol =
     (if protocol = P_TCP then CAP_TCP_RX cap else if protocol = P_UDP then CAP_UDP_RX cap else CAP_ICMPV6_RX cap)"

section \<open>The ordinary walk\<close>

text \<open>The caller's fields put back on the packet.\<close>

definition restored :: "NX_PACKET \<Rightarrow> NX_PACKET list \<Rightarrow> NX_PACKET list" where
  "restored packet ps = (case ps of [] \<Rightarrow> [] | q # qs \<Rightarrow>
     q\<lparr>pk_prepend := pk_prepend packet, pk_length := pk_length packet, pk_version := pk_version packet\<rparr> # qs)"

text \<open>The two addresses of an IPv6 header as eight longwords.\<close>

definition v6_addresses :: "NX_PACKET \<Rightarrow> (ULONG list \<times> ULONG list) option" where
  "v6_addresses p =
     (let rd32 = (if n68k_rxv_even p then N68K_RDW32 p else N68K_RD32 p) in do {
        s0 \<leftarrow> rd32 8; s1 \<leftarrow> rd32 12; s2 \<leftarrow> rd32 16; s3 \<leftarrow> rd32 20;
        d0 \<leftarrow> rd32 24; d1 \<leftarrow> rd32 28; d2 \<leftarrow> rd32 32; d3 \<leftarrow> rd32 36;
        Some ([s0, s1, s2, s3], [d0, d1, d2, d3])
      })"

definition n68k_rxv6_verify ::
  "capability_bits \<Rightarrow> bool \<Rightarrow> rxv_stats \<Rightarrow> NX_PACKET \<Rightarrow> NX_PACKET list \<Rightarrow> verdict option" where
  "n68k_rxv6_verify cap hot st packet rest = do {
     r \<leftarrow> n68k_rxv6_shape packet st;
     (case r of
        Inl st \<Rightarrow> Some (st, 0, False, packet # rest)
      | Inr (protocol, offset, payload) \<Rightarrow> do {
          (src, dst) \<leftarrow> v6_addresses packet;
          (ok, ps) \<leftarrow> n68k_rx_sum_ok
             (packet\<lparr>pk_prepend := pk_prepend packet + offset, pk_length := of_nat payload,
                     pk_version := NX_IP_VERSION_V6\<rparr>)
             rest (of_nat protocol) (of_nat payload) (Some src) (Some dst);
          let ps = restored packet ps;
          if \<not> ok then Some (N68K_RXV_COUNT bad_transport_update st, 0, True, ps)
          else do {
            let st = N68K_RXV_HOT hot v6_ok_update (N68K_RXV_HOT hot transport_ok_update st);
            let st = (if 40 < offset then N68K_RXV_HOT hot v6_ext_update st else st);
            Some (st, n68k_rxv6_bit cap protocol, False, ps)
          }
        })
   }"

definition v4_bit :: "capability_bits \<Rightarrow> nat \<Rightarrow> ULONG" where
  "v4_bit cap protocol =
     (if protocol = P_TCP then CAP_TCP_RX cap else if protocol = P_UDP then CAP_UDP_RX cap
      else if protocol = P_ICMP then CAP_ICMPV4_RX cap else CAP_IGMP_RX cap)"

text \<open>What follows a good IPv4 header; \<open>ps\<close> are the packets as the header's sum left them.\<close>

definition v4_transport ::
  "capability_bits \<Rightarrow> bool \<Rightarrow> rxv_stats \<Rightarrow> NX_PACKET \<Rightarrow> NX_PACKET list \<Rightarrow> nat \<Rightarrow> verdict option" where
  "v4_transport cap hot st packet rest ihl = do {
     let flags = CAP_IPV4_RX cap;
     let ps = packet # rest;
     t \<leftarrow> N68K_RD16 packet 2;
     let total = unat t;
     frag \<leftarrow> N68K_RD16 packet 6;
     if total < ihl \<or> unat (pk_length packet) < total then Some (N68K_RXV_COUNT skip_length_update st, flags, False, ps)
     else if frag AND 0x3FFF \<noteq> 0 then Some (N68K_RXV_COUNT skip_fragment_update st, flags, False, ps)
     else do {
       b \<leftarrow> ip8 packet 9;
       let protocol = unat b;
       let payload = total - ihl;
       src \<leftarrow> N68K_RD32 packet 12;
       dst \<leftarrow> N68K_RD32 packet 16;
       if \<not> (protocol = P_TCP \<or> protocol = P_UDP \<or> protocol = P_ICMP \<or> protocol = P_IGMP)
       then Some (N68K_RXV_COUNT skip_protocol_update st, flags, False, ps)
       else do {
         bad_len \<leftarrow> (if protocol = P_UDP
                     then if payload < 8 then Some True
                          else map_option (\<lambda>l. unat l \<noteq> payload) (N68K_RD16 packet (ihl + 4))
                     else Some False);
         if bad_len then Some (N68K_RXV_COUNT skip_length_update st, flags, False, ps)
         else do {
           no_sum \<leftarrow> (if protocol = P_UDP \<and> 8 \<le> payload
                      then map_option (\<lambda>c. c = 0) (N68K_RD16 packet (ihl + 6)) else Some False);
           if no_sum then Some (N68K_RXV_COUNT skip_udp_nosum_update st, flags, False, ps)
           else do {
             let bare = protocol = P_ICMP \<or> protocol = P_IGMP;
             (ok, ps) \<leftarrow> n68k_rx_sum_ok
                (packet\<lparr>pk_prepend := pk_prepend packet + ihl, pk_length := of_nat payload\<rparr>)
                rest (of_nat protocol) (of_nat payload)
                (if bare then None else Some [src]) (if bare then None else Some [dst]);
             let ps = restored packet ps;
             if \<not> ok then Some (N68K_RXV_COUNT bad_transport_update st, 0, True, ps)
             else Some (N68K_RXV_HOT hot transport_ok_update st, flags OR v4_bit cap protocol, False, ps)
           }
         }
       }
     }
   }"

definition n68k_rx_verify ::
  "capability_bits \<Rightarrow> bool \<Rightarrow> rxv_stats \<Rightarrow> NX_PACKET \<Rightarrow> NX_PACKET list \<Rightarrow> verdict option" where
  "n68k_rx_verify cap hot st packet rest =
     (if pk_length packet < 20 then Some (N68K_RXV_COUNT skip_short_update st, 0, False, packet # rest)
      else do {
        b \<leftarrow> ip8 packet 0;
        if drop_bit 4 b = 6 then n68k_rxv6_verify cap hot st packet rest
        else if drop_bit 4 b \<noteq> 4 then Some (N68K_RXV_COUNT skip_version_update st, 0, False, packet # rest)
        else do {
          let ihl = 4 * unat (b AND 0x0F);
          if ihl < 20 \<or> unat (pk_length packet) < ihl
          then Some (N68K_RXV_COUNT skip_short_update st, 0, False, packet # rest)
          else do {
            (ok, ps) \<leftarrow> n68k_rx_sum_ok packet rest (of_nat NX_IP_VERSION_V4) (of_nat ihl) None None;
            if \<not> ok then Some (N68K_RXV_COUNT bad_ip_update st, 0, True, ps)
            else (case ps of [] \<Rightarrow> None
                  | packet # rest \<Rightarrow> v4_transport cap hot (N68K_RXV_HOT hot ip_ok_update st) packet rest ihl)
          }
        }
      })"

section \<open>The check from the carried sum\<close>

primrec sum_be_loop :: "nat \<Rightarrow> NX_PACKET \<Rightarrow> nat \<Rightarrow> ULONG \<Rightarrow> ULONG option" where
  "sum_be_loop 0 p i acc = Some acc"
| "sum_be_loop (Suc n) p i acc = do { w \<leftarrow> N68K_RD32 p i; sum_be_loop n p (i + 4) (add_carry acc w) }"

definition n68k_rxv_sum_be :: "NX_PACKET \<Rightarrow> nat \<Rightarrow> nat \<Rightarrow> ULONG option" where
  "n68k_rxv_sum_be p i longs = sum_be_loop longs p i 0"

definition n68k_rxv_fold :: "ULONG \<Rightarrow> ULONG" where
  "n68k_rxv_fold s = (let s = (s AND 0xFFFF) + drop_bit 16 s in (s AND 0xFFFF) + drop_bit 16 s)"

definition v6_verify_sum ::
  "capability_bits \<Rightarrow> bool \<Rightarrow> rxv_stats \<Rightarrow> NX_PACKET \<Rightarrow> NX_PACKET list \<Rightarrow> ULONG \<Rightarrow> ULONG \<Rightarrow> verdict option" where
  "v6_verify_sum cap hot st packet rest carried copied = do {
     r \<leftarrow> n68k_rxv6_shape packet st;
     (case r of
        Inl st \<Rightarrow> Some (st, 0, False, packet # rest)
      | Inr (protocol, offset, payload) \<Rightarrow>
          if unat copied \<noteq> offset + payload \<or> (offset - 40) mod 4 \<noteq> 0
          then n68k_rxv6_verify cap hot st packet rest
          else do {
            fixed \<leftarrow> n68k_rxv_sum_be packet 0 2;
            head \<leftarrow> (if 40 < offset
                     then map_option (add_carry fixed) (n68k_rxv_sum_be packet 40 ((offset - 40) div 4))
                     else Some fixed);
            let s = n68k_rxv_fold (add_carry (NOT head) carried) + of_nat protocol + of_nat payload;
            if n68k_rxv_fold s \<noteq> 0xFFFF
            then Some (N68K_RXV_COUNT bad_transport_update st, 0, True, packet # rest)
            else do {
              let st = N68K_RXV_HOT hot from_copy_update
                         (N68K_RXV_HOT hot v6_ok_update (N68K_RXV_HOT hot transport_ok_update st));
              let st = (if 40 < offset then N68K_RXV_HOT hot v6_ext_update st else st);
              Some (st, n68k_rxv6_bit cap protocol, False, packet # rest)
            }
          })
   }"

text \<open>The IPv4 header's sum: five longwords in line, or the loop.\<close>

definition v4_head_sum :: "NX_PACKET \<Rightarrow> nat \<Rightarrow> ULONG option" where
  "v4_head_sum p ihl =
     (if ihl = 20 then do {
        ws \<leftarrow> rd_longs p (pk_prepend p) 5;
        Some (add_carry (add_carry (add_carry (add_carry (ws ! 0) (ws ! 1)) (ws ! 2)) (ws ! 3)) (ws ! 4))
      }
      else map_option n68k_sum_longwords (rd_longs p (pk_prepend p) (ihl div 4)))"

definition v4_sum_verdict ::
  "capability_bits \<Rightarrow> bool \<Rightarrow> rxv_stats \<Rightarrow> NX_PACKET \<Rightarrow> NX_PACKET list \<Rightarrow> nat \<Rightarrow> nat \<Rightarrow> nat \<Rightarrow> ULONG \<Rightarrow> verdict option" where
  "v4_sum_verdict cap hot st packet rest ihl protocol payload carried = do {
     head \<leftarrow> v4_head_sum packet ihl;
     if n68k_rxv_fold head \<noteq> 0xFFFF then Some (N68K_RXV_COUNT bad_ip_update st, 0, True, packet # rest)
     else do {
       let st = N68K_RXV_HOT hot ip_ok_update st;
       src \<leftarrow> N68K_RDW32 packet 12;
       dst \<leftarrow> N68K_RDW32 packet 16;
       let s = add_carry (add_carry carried src) dst + of_nat protocol + of_nat payload;
       if n68k_rxv_fold s \<noteq> 0xFFFF then Some (N68K_RXV_COUNT bad_transport_update st, 0, True, packet # rest)
       else Some (N68K_RXV_HOT hot v4_fused_update (N68K_RXV_HOT hot from_copy_update
                    (N68K_RXV_HOT hot transport_ok_update st)),
                  CAP_IPV4_RX cap OR (if protocol = P_TCP then CAP_TCP_RX cap else CAP_UDP_RX cap),
                  False, packet # rest)
     }
   }"

definition v4_verify_sum ::
  "capability_bits \<Rightarrow> bool \<Rightarrow> rxv_stats \<Rightarrow> NX_PACKET \<Rightarrow> NX_PACKET list \<Rightarrow> UBYTE \<Rightarrow> ULONG \<Rightarrow> ULONG \<Rightarrow> verdict option" where
  "v4_verify_sum cap hot st packet rest b carried copied =
     (if \<not> n68k_rxv_even packet then n68k_rx_verify cap hot st packet rest
      else do {
        let ihl = 4 * unat (b AND 0x0F);
        total \<leftarrow> N68K_RDW16 packet 2;
        if ihl < 20 \<or> unat total < ihl \<or> pk_length packet < total \<or> copied \<noteq> total
        then n68k_rx_verify cap hot st packet rest
        else do {
          pb \<leftarrow> ip8 packet 9;
          let protocol = unat pb;
          let payload = unat total - ihl;
          frag \<leftarrow> N68K_RDW16 packet 6;
          if (protocol \<noteq> P_TCP \<and> protocol \<noteq> P_UDP) \<or> frag AND 0x3FFF \<noteq> 0
          then n68k_rx_verify cap hot st packet rest
          else do {
            bad_len \<leftarrow> (if protocol = P_UDP
                        then if payload < 8 then Some True
                             else map_option (\<lambda>l. unat l \<noteq> payload) (N68K_RDW16 packet (ihl + 4))
                        else Some False);
            if bad_len then n68k_rx_verify cap hot (N68K_RXV_COUNT skip_length_update st) packet rest
            else do {
              no_sum \<leftarrow> (if protocol = P_UDP \<and> 8 \<le> payload
                         then map_option (\<lambda>c. c = 0) (N68K_RDW16 packet (ihl + 6)) else Some False);
              if no_sum then n68k_rx_verify cap hot st packet rest
              else v4_sum_verdict cap hot st packet rest ihl protocol payload carried
            }
          }
        }
      })"

definition n68k_rx_verify_sum ::
  "capability_bits \<Rightarrow> bool \<Rightarrow> rxv_stats \<Rightarrow> NX_PACKET \<Rightarrow> NX_PACKET list \<Rightarrow> ULONG \<Rightarrow> ULONG \<Rightarrow> verdict option" where
  "n68k_rx_verify_sum cap hot st packet rest carried copied =
     (if pk_length packet < 20 then Some (N68K_RXV_COUNT skip_short_update st, 0, False, packet # rest)
      else do {
        b \<leftarrow> ip8 packet 0;
        let ver = drop_bit 4 b;
        if ver = 6 then v6_verify_sum cap hot st packet rest carried copied
        else if ver \<noteq> 4 then Some (N68K_RXV_COUNT skip_version_update st, 0, False, packet # rest)
        else v4_verify_sum cap hot st packet rest b carried copied
      })"

end
