(* ===== verification/Cks_Accept.thy ===== *)
theory Cks_Accept
  imports Cks_Verify
begin

text \<open>
  What a receive checksum check must answer for a frame, said over the frame's bytes and without the
  packet, its pointers or its counters (\<open>frame_verdict\<close>), and that both checks of
  \<^verbatim>\<open>src/net68k/n68k_rx_verify.c\<close> answer it: the ordinary walk (\<open>verify_verdict\<close>) and the check from
  the carried sum (\<open>verify_sum_verdict\<close>).
\<close>

section \<open>The specification\<close>

text \<open>A sum with its checksum in it is good if it is the one's-complement zero that is not all zeros.\<close>

definition sum_valid :: "nat \<Rightarrow> bool" where
  "sum_valid n \<longleftrightarrow> 0 < n \<and> n mod 65535 = 0"

definition f16 :: "UBYTE list \<Rightarrow> nat \<Rightarrow> nat" where
  "f16 f i = unat (f ! i) * 256 + unat (f ! (i + 1))"

text \<open>A transport segment under the pseudo header of two addresses, the protocol and the length.\<close>

definition transport_valid :: "UBYTE list \<Rightarrow> nat \<Rightarrow> UBYTE list \<Rightarrow> bool" where
  "transport_valid addrs protocol seg \<longleftrightarrow>
     sum_valid (be16_sum addrs + protocol + length seg + be16_sum seg)"

fun plain_options :: "UBYTE list \<Rightarrow> bool" where
  "plain_options [] \<longleftrightarrow> True"
| "plain_options [t] \<longleftrightarrow> t = 0"
| "plain_options (t # l # bs) \<longleftrightarrow>
     (if t = 0 then plain_options (l # bs)
      else t \<noteq> 201 \<and> unat l \<le> length bs \<and> plain_options (drop (unat l) bs))"

text \<open>The length an extension header states, and whether it can be stepped over.\<close>

definition v6_hlen :: "UBYTE list \<Rightarrow> nat \<Rightarrow> nat \<Rightarrow> nat" where
  "v6_hlen f next at =
     (if next = N68K_V6_FRAGMENT then 8
      else if next = N68K_V6_AH then 4 * (unat (f ! (at + 1)) + 2) else 8 * (unat (f ! (at + 1)) + 1))"

definition v6_steps_over :: "UBYTE list \<Rightarrow> nat \<Rightarrow> nat \<Rightarrow> nat \<Rightarrow> bool" where
  "v6_steps_over f fin next at \<longleftrightarrow>
     next \<in> {N68K_V6_HOPOPT, N68K_V6_ROUTING, N68K_V6_FRAGMENT, N68K_V6_AH, N68K_V6_DSTOPT} \<and>
     at + 8 \<le> fin \<and> at + v6_hlen f next at \<le> fin \<and>
     (next = N68K_V6_ROUTING \<longrightarrow> f ! (at + 3) = 0) \<and>
     (next = N68K_V6_FRAGMENT \<longrightarrow> f16 f (at + 2) div 8 = 0 \<and> even (f16 f (at + 2))) \<and>
     (next = N68K_V6_DSTOPT \<longrightarrow> plain_options (take (v6_hlen f next at - 2) (drop (at + 2) f)))"

primrec v6_walk :: "nat \<Rightarrow> UBYTE list \<Rightarrow> nat \<Rightarrow> nat \<Rightarrow> nat \<Rightarrow> (nat \<times> nat) option" where
  "v6_walk 0 f fin next at = (if next \<in> {P_TCP, P_UDP, P_ICMPV6} then Some (next, at) else None)"
| "v6_walk (Suc n) f fin next at =
     (if next \<in> {P_TCP, P_UDP, P_ICMPV6} then Some (next, at)
      else if v6_steps_over f fin next at
      then v6_walk n f fin (unat (f ! at)) (at + v6_hlen f next at)
      else None)"

definition udp_summed :: "UBYTE list \<Rightarrow> nat \<Rightarrow> nat \<Rightarrow> bool" where
  "udp_summed f at n \<longleftrightarrow> 8 \<le> n \<and> f16 f (at + 4) = n \<and> f16 f (at + 6) \<noteq> 0"

text \<open>Protocol, offset and length of the transport segment of an IPv6 frame that can be checked.\<close>

definition v6_segment :: "UBYTE list \<Rightarrow> (nat \<times> nat \<times> nat) option" where
  "v6_segment f =
     (let fin = 40 + f16 f 4 in
      if length f < 40 \<or> f16 f 4 = 0 \<or> length f < fin then None
      else case v6_walk 8 f fin (unat (f ! 6)) 40 of
        None \<Rightarrow> None
      | Some (next, at) \<Rightarrow>
          if at + (if next = P_TCP then 20 else 8) \<le> fin \<and> (next = P_UDP \<longrightarrow> udp_summed f at (fin - at))
          then Some (next, at, fin - at) else None)"

definition v6_verdict :: "capability_bits \<Rightarrow> UBYTE list \<Rightarrow> ULONG \<times> bool" where
  "v6_verdict cap f =
     (case v6_segment f of
        None \<Rightarrow> (0, False)
      | Some (protocol, at, n) \<Rightarrow>
          if transport_valid (take 32 (drop 8 f)) protocol (take n (drop at f))
          then (n68k_rxv6_bit cap protocol, False) else (0, True))"

definition v4_ihl :: "UBYTE list \<Rightarrow> nat" where
  "v4_ihl f = 4 * (unat (f ! 0) mod 16)"

definition v4_checkable :: "UBYTE list \<Rightarrow> bool" where
  "v4_checkable f \<longleftrightarrow>
     v4_ihl f \<le> f16 f 2 \<and> f16 f 2 \<le> length f \<and> f16 f 6 mod 16384 = 0 \<and>
     unat (f ! 9) \<in> {P_TCP, P_UDP, P_ICMP, P_IGMP} \<and>
     (unat (f ! 9) = P_UDP \<longrightarrow> udp_summed f (v4_ihl f) (f16 f 2 - v4_ihl f))"

definition v4_segment_valid :: "UBYTE list \<Rightarrow> bool" where
  "v4_segment_valid f =
     (let seg = take (f16 f 2 - v4_ihl f) (drop (v4_ihl f) f); protocol = unat (f ! 9) in
      if protocol \<in> {P_TCP, P_UDP} then transport_valid (take 8 (drop 12 f)) protocol seg
      else sum_valid (be16_sum seg))"

definition v4_verdict :: "capability_bits \<Rightarrow> UBYTE list \<Rightarrow> ULONG \<times> bool" where
  "v4_verdict cap f =
     (if v4_ihl f < 20 \<or> length f < v4_ihl f then (0, False)
      else if \<not> sum_valid (be16_sum (take (v4_ihl f) f)) then (0, True)
      else if \<not> v4_checkable f then (CAP_IPV4_RX cap, False)
      else if v4_segment_valid f then (CAP_IPV4_RX cap OR v4_bit cap (unat (f ! 9)), False)
      else (0, True))"

definition frame_verdict :: "capability_bits \<Rightarrow> UBYTE list \<Rightarrow> ULONG \<times> bool" where
  "frame_verdict cap f =
     (if length f < 20 then (0, False)
      else if unat (f ! 0) div 16 = 6 then v6_verdict cap f
      else if unat (f ! 0) div 16 = 4 then v4_verdict cap f
      else (0, False))"

section \<open>Frames in packets\<close>

text \<open>
  A received frame: one packet, its header on a longword, the length field true, one byte of the
  buffer free behind it, and a version that is not left over from an IPv6 packet.
\<close>

definition frame_ok :: "NX_PACKET \<Rightarrow> bool" where
  "frame_ok p \<longleftrightarrow>
     pk_prepend p \<le> pk_append p \<and> pk_append p < length (pk_mem p) \<and> length (pk_mem p) < 2 ^ 31 \<and>
     pk_addr p (pk_prepend p) mod 4 = 0 \<and> pk_length p = of_nat (pk_size p) \<and>
     pk_version p \<noteq> NX_IP_VERSION_V6"

lemma frame_bounds:
  assumes "frame_ok p"
  shows "pk_prepend p + pk_size p < length (pk_mem p)" and "length (pk_mem p) < 2 ^ 31"
  using assms by (auto simp: frame_ok_def pk_size_def)

lemma length_pk_data: "frame_ok p \<Longrightarrow> length (pk_data p) = pk_size p"
  using frame_bounds [of p] by (simp add: pk_data_def)

lemma unat_pk_length: "frame_ok p \<Longrightarrow> unat (pk_length p) = length (pk_data p)"
proof -
  assume ok: "frame_ok p"
  then have "pk_size p < 2 ^ 32" "pk_length p = of_nat (pk_size p)"
    using frame_bounds [OF ok] by (simp, simp add: frame_ok_def)
  then show ?thesis using ok by (simp add: length_pk_data unat_of_nat)
qed

lemma pk_length_less: "frame_ok p \<Longrightarrow> (pk_length p < n) = (length (pk_data p) < unat n)"
  by (simp add: word_less_nat_alt unat_pk_length)

lemma ip8_eq: "frame_ok p \<Longrightarrow> i < length (pk_data p) \<Longrightarrow> ip8 p i = Some (pk_data p ! i)"
  using frame_bounds [of p] by (simp add: length_pk_data) (simp add: ip8_def pk_data_def)

lemma frame_range:
  assumes "frame_ok p" and "i + n \<le> length (pk_data p)"
  shows "rd_range (pk_mem p) (pk_prepend p + i) n = Some (take n (drop i (pk_data p)))"
proof -
  have "i + n \<le> pk_size p" using assms by (simp add: length_pk_data)
  moreover from this have "n \<le> pk_size p - i" by simp
  ultimately show ?thesis
    using frame_bounds [OF assms(1)] by (simp add: pk_data_def drop_take min_def add.commute)
qed

lemma RD16_eq:
  assumes "frame_ok p" and "i + 2 \<le> length (pk_data p)"
  obtains w where "N68K_RD16 p i = Some w" and "unat w = f16 (pk_data p) i"
  using assms by (simp add: N68K_RD16_def frame_range take2 unat_be_val2 f16_def)

lemma RD32_eq:
  assumes "frame_ok p" and "i + 4 \<le> length (pk_data p)"
  shows "N68K_RD32 p i = Some (be_val (take 4 (drop i (pk_data p))))"
  using assms by (simp add: N68K_RD32_def frame_range)

lemma RDW_eq:
  assumes "frame_ok p" and "even i"
  shows "N68K_RDW16 p i = N68K_RD16 p i" and "N68K_RDW32 p i = N68K_RD32 p i"
proof -
  have "pk_addr p (pk_prepend p + i) = pk_addr p (pk_prepend p) + int i" by (simp add: pk_addr_def)
  moreover have "pk_addr p (pk_prepend p) mod 4 = 0" using assms(1) by (simp add: frame_ok_def)
  ultimately have "even (pk_addr p (pk_prepend p + i))" using assms(2) by presburger
  then show "N68K_RDW16 p i = N68K_RD16 p i" "N68K_RDW32 p i = N68K_RD32 p i"
    by (simp_all add: N68K_RDW16_def N68K_RDW32_def)
qed

lemma f16_lt: "f16 f i < 65536"
proof -
  have "unat (f ! i) < 256" "unat (f ! (i + 1)) < 256" using unat_lt2p [of "f ! i"] unat_lt2p [of "f ! (i + 1)"] by simp_all
  then show ?thesis by (simp add: f16_def)
qed

section \<open>Masks\<close>

lemma and_3fff: "(w AND 0x3FFF = (0 :: ULONG)) = (unat w mod 16384 = 0)"
proof -
  have "w AND 0x3FFF = take_bit 14 w" by (simp add: take_bit_eq_mask mask_numeral)
  then have "unat (w AND 0x3FFF) = unat w mod 16384" by (simp add: unsigned_take_bit_eq take_bit_eq_mod unat_mod)
  then show ?thesis by (metis unat_0 unat_eq_zero)
qed

lemma and_0f: "unat ((b :: UBYTE) AND 0x0F) = unat b mod 16"
proof -
  have "b AND 0x0F = take_bit 4 b" by (simp add: take_bit_eq_mask mask_numeral)
  then show ?thesis by (simp add: unsigned_take_bit_eq take_bit_eq_mod unat_mod)
qed

lemma nibble: "(drop_bit 4 (b :: UBYTE) = n) = (unat b div 16 = unat n)"
proof -
  have "unat (drop_bit 4 b) = unat b div 16" by (simp add: unat_drop_bit_eq) (simp add: drop_bit_eq_div)
  then show ?thesis by (metis unsigned_word_eqI)
qed

lemma bit_fff9: "bit (0xFFF9 :: ULONG) n \<longleftrightarrow> n = 0 \<or> 3 \<le> n \<and> n < 16"
proof -
  have eq: "(0xFFF9 :: ULONG) = (mask 16 AND NOT (mask 3)) OR 1" by (simp add: mask_numeral)
  show ?thesis unfolding eq by (auto simp: bit_simps)
qed

lemma and_fff9:
  assumes "unat w < 65536"
  shows "(w AND 0xFFF9 = (0 :: ULONG)) = (unat w div 8 = 0 \<and> even (unat w))"
proof -
  have "\<not> bit w n" if "16 \<le> n" for n
  proof -
    have "(2 :: nat) ^ 16 \<le> 2 ^ n" using that by (rule power_increasing) simp
    then have "\<not> bit (unat w) n" using assms by (simp add: bit_iff_odd)
    then show ?thesis by (simp add: bit_unsigned_iff)
  qed
  note high = this
  have "(w AND 0xFFF9 = 0) = (\<forall>n. \<not> (bit w n \<and> (n = 0 \<or> 3 \<le> n \<and> n < 16)))"
  proof (intro iffI allI notI)
    fix n assume z: "w AND 0xFFF9 = 0" and b: "bit w n \<and> (n = 0 \<or> 3 \<le> n \<and> n < 16)"
    from b have "bit (w AND 0xFFF9) n" by (simp only: bit_and_iff bit_fff9 simp_thms)
    then show False by (simp add: z)
  next
    assume none: "\<forall>n. \<not> (bit w n \<and> (n = 0 \<or> 3 \<le> n \<and> n < 16))"
    show "w AND 0xFFF9 = 0" by (rule bit_word_eqI) (use none in \<open>simp only: bit_and_iff bit_fff9 bit_0_eq bot_apply bot_bool_def simp_thms\<close>)
  qed
  also have "\<dots> = (\<forall>n. \<not> (bit w n \<and> (n = 0 \<or> 3 \<le> n)))"
    using high not_le by blast
  also have "\<dots> = (\<not> bit w 0 \<and> (\<forall>n. \<not> bit w (3 + n)))"
    by (auto simp: le_iff_add) (metis gr0I)
  also have "\<dots> = (even (unat w) \<and> drop_bit 3 w = 0)"
  proof -
    have "bit w 0 = bit (unat w) 0" by (simp add: bit_unsigned_iff del: bit_0)
    then have "(\<not> bit w 0) = even (unat w)" by (simp only: bit_0 not_not)
    moreover have "(drop_bit 3 w = 0) = (\<forall>n. \<not> bit w (3 + n))"
    proof
      assume z: "drop_bit 3 w = 0"
      show "\<forall>n. \<not> bit w (3 + n)"
      proof
        fix n have "\<not> bit (drop_bit 3 w) n" unfolding z by simp
        then show "\<not> bit w (3 + n)" by (simp add: bit_drop_bit_eq)
      qed
    qed (auto intro: bit_word_eqI simp: bit_drop_bit_eq)
    ultimately show ?thesis by blast
  qed
  also have "(drop_bit 3 w = 0) = (unat w div 8 = 0)"
  proof -
    have "unat (drop_bit 3 w) = unat w div 8" by (simp add: unat_drop_bit_eq) (simp add: drop_bit_eq_div)
    then show ?thesis by (metis unat_0 unat_eq_zero)
  qed
  finally show ?thesis by blast
qed

section \<open>One sum\<close>

lemma ones_valid: "(ones n = 65535) = sum_valid n"
  using eac_full [of 65535 n] by (auto simp: sum_valid_def dvd_eq_mod_eq_0)

lemma inverted_zero: "(NOT (ucast (c :: UWORD) :: ULONG) AND 0xFFFF = 0) = (unat c = 65535)"
proof -
  have eq: "(0xFFFF :: ULONG) = mask 16" by (simp add: mask_numeral)
  have "(NOT (ucast c :: ULONG) AND 0xFFFF = 0) = (\<forall>n < 16. bit c n)"
  proof -
    have "(NOT (ucast c :: ULONG) AND 0xFFFF = 0) = (\<forall>n < 32. n < 16 \<longrightarrow> bit c n)"
      unfolding bit_eq_iff eq by (auto simp: bit_simps)
    moreover have "n < 32" if "n < 16" for n :: nat using that by simp
    ultimately show ?thesis by blast
  qed
  also have "\<dots> = (c = -1)" by (auto simp: bit_eq_iff bit_simps)
  also have "\<dots> = (unat c = unat (0xFFFF :: UWORD))"
  proof -
    have "(-1 :: UWORD) = 0xFFFF" by simp
    then show ?thesis by (metis unsigned_word_eqI)
  qed
  finally show ?thesis by simp
qed

text \<open>The packet as it is presented to the sum: moved on to a longword of the frame.\<close>

definition at_offset :: "NX_PACKET \<Rightarrow> nat \<Rightarrow> NX_PACKET \<Rightarrow> bool" where
  "at_offset p off q \<longleftrightarrow> pk_base q = pk_base p \<and> pk_mem q = pk_mem p \<and> pk_append q = pk_append p \<and>
     pk_prepend q = pk_prepend p + off"

lemma at_offset_data: "at_offset p off q \<Longrightarrow> pk_data q = drop off (pk_data p)"
  by (simp add: at_offset_def pk_data_def pk_size_def drop_take add.commute)

lemma at_offset_chain_ok:
  assumes "frame_ok p" and "at_offset p off q" and "4 dvd off" and "off + n \<le> length (pk_data p)"
  shows "chain_ok n q []"
proof -
  have "pk_addr q (pk_prepend q) = pk_addr p (pk_prepend p) + int off"
    using assms(2) by (simp add: at_offset_def pk_addr_def)
  moreover have "pk_addr p (pk_prepend p) mod 4 = 0" using assms(1) by (simp add: frame_ok_def)
  moreover have "int off mod 4 = 0" using assms(3) by presburger
  ultimately have "pk_addr q (pk_prepend q) mod 4 = 0" by presburger
  moreover have "n mod 2 \<le> 1" by simp
  then have "pk_prepend p + off + (n + n mod 2) \<le> length (pk_mem p)"
    using assms(4) frame_bounds [OF assms(1)] by (simp add: length_pk_data [OF assms(1)])
  moreover have "pk_prepend p + off \<le> pk_append p" "n \<le> pk_append p - (pk_prepend p + off)"
    using assms(1,4) by (auto simp: length_pk_data [OF assms(1)] pk_size_def frame_ok_def)
  ultimately show ?thesis
    using assms(1,2) by (simp add: chain_ok.simps at_offset_def pk_size_def frame_ok_def)
qed

lemma sum_ok_eq:
  assumes "frame_ok p" and q: "at_offset p off q" and "4 dvd off" and "off + n \<le> length (pk_data p)" and "n < 2 ^ 31"
    and addr: "has_pseudo protocol \<Longrightarrow> src = Some s \<and> dst = Some d \<and>
                 length s = addr_len (pk_version q) \<and> length d = addr_len (pk_version q)"
  obtains m' where "n68k_rx_sum_ok q [] protocol (of_nat n) src dst =
      Some (sum_valid ((if has_pseudo protocol then pseudo_value (pk_version q) protocol n s d else 0)
              + be16_sum (take n (drop off (pk_data p)))), [q\<lparr>pk_mem := m'\<rparr>])"
    and "length m' = length (pk_mem p)" and "even n \<Longrightarrow> m' = pk_mem p"
proof -
  have n: "unat (of_nat n :: ULONG) = n" using \<open>n < 2 ^ 31\<close> by (simp add: unat_of_nat)
  have "chain_ok (unat (of_nat n :: ULONG)) q []" unfolding n by (rule at_offset_chain_ok [OF assms(1-4)])
  moreover have "unat (of_nat n :: ULONG) < 2 ^ 31" using n assms(5) by simp
  ultimately obtain c m' where
      c: "n68k_ip_checksum_compute q [] protocol (of_nat n) src dst = Some (c, [q\<lparr>pk_mem := m'\<rparr>])"
    and val: "unat c = ones ((if has_pseudo protocol then pseudo_value (pk_version q) protocol n s d else 0)
                        + be16_sum (take n (pk_data q)))"
    and m': "length m' = length (pk_mem q)" "even n \<Longrightarrow> m' = pk_mem q"
    using compute_single [where data_length = "of_nat n" and packet = q and protocol = protocol and src = src and dst = dst
        and s = s and d = d, OF _ _ addr] unfolding n by blast
  show thesis
  proof (rule that)
    show "n68k_rx_sum_ok q [] protocol (of_nat n) src dst =
      Some (sum_valid ((if has_pseudo protocol then pseudo_value (pk_version q) protocol n s d else 0)
              + be16_sum (take n (drop off (pk_data p)))), [q\<lparr>pk_mem := m'\<rparr>])"
      by (simp add: n68k_rx_sum_ok_def c inverted_zero val ones_valid at_offset_data [OF q])
  qed (use m' q in \<open>simp_all add: at_offset_def\<close>)
qed

section \<open>The shape of an IPv6 frame\<close>

lemma plain_options_pad: "plain_options (0 # ys) = plain_options ys"
  by (cases ys) simp_all

lemma dstopt_eq:
  assumes ok: "frame_ok p" and room: "opt + bytes \<le> length (pk_data p)"
  shows "dstopt_loop p opt bytes i =
    Some (i \<le> bytes \<and> plain_options (take (bytes - i) (drop (opt + i) (pk_data p))))"
  using ok room
proof (induction p opt bytes i rule: dstopt_loop.induct)
  case (1 p opt bytes i)
  define f where "f = pk_data p"
  define zs where "zs = take (bytes - (i + 2)) (drop (opt + (i + 2)) f)"
  note prems = "1.prems"
  show ?case
  proof (cases "i < bytes")
    case True
    then have b: "ip8 p (opt + i) = Some (f ! (opt + i))" using prems by (simp add: ip8_eq f_def)
    have cut: "take (bytes - i) (drop (opt + i) f) = f ! (opt + i) # take (bytes - (i + 1)) (drop (opt + (i + 1)) f)"
      using True prems(2) by (simp add: f_def take_Cons' Cons_nth_drop_Suc [symmetric])
    show ?thesis
    proof (cases "f ! (opt + i) = 0")
      case zero: True
      show ?thesis using "1.IH"(1) [OF True b zero prems] True b zero cut
        by (simp add: dstopt_loop.simps [of p opt bytes i] plain_options_pad flip: f_def)
    next
      case nz: False
      show ?thesis
      proof (cases "bytes < i + 2")
        case short: True
        then have "bytes = i + 1" using True by simp
        then show ?thesis using True b nz cut by (subst dstopt_loop.simps) (simp flip: f_def)
      next
        case long: False
        then have l: "ip8 p (opt + i + 1) = Some (f ! (opt + i + 1))" using prems by (simp add: ip8_eq f_def)
        have cut': "take (bytes - (i + 1)) (drop (opt + (i + 1)) f) = f ! (opt + i + 1) # zs"
          using long prems(2) by (simp add: f_def zs_def take_Cons' Cons_nth_drop_Suc [symmetric])
        have zs: "length zs = bytes - (i + 2)" using prems(2) long by (simp add: zs_def f_def)
        define k where "k = unat (f ! (opt + i + 1))"
        have k: "unat (f ! Suc (opt + i)) = k" by (simp add: k_def)
        have "drop k zs = take (bytes - (i + (2 + k))) (drop (opt + (i + (2 + k))) f)"
          by (simp add: zs_def drop_take add.commute add.left_commute)
        moreover have "(i + (2 + k) \<le> bytes) = (k \<le> length zs)" using zs long by auto
        moreover have "dstopt_loop p opt bytes (i + (2 + k)) =
            Some (i + (2 + k) \<le> bytes \<and> plain_options (take (bytes - (i + (2 + k))) (drop (opt + (i + (2 + k))) f)))"
          if "f ! (opt + i) \<noteq> 201"
          using "1.IH"(2) [OF True b nz long that l prems] unfolding k_def f_def .
        ultimately show ?thesis
          using True b nz long l cut cut' by (simp add: dstopt_loop.simps [of p opt bytes i] k flip: f_def)
      qed
    qed
  next
    case False
    then show ?thesis by (auto simp: dstopt_loop.simps [of p opt bytes i])
  qed
qed

text \<open>
  Forgetting the counters of a declined frame: what is left of a step of the walk is an option.
\<close>

definition located :: "('a + 'b) \<Rightarrow> 'b option" where
  "located r = (case r of Inl _ \<Rightarrow> None | Inr x \<Rightarrow> Some x)"

lemma located_simps [simp]: "located (Inl a) = None" "located (Inr b) = Some b"
  by (simp_all add: located_def)

lemma ext_header_eq:
  assumes ok: "frame_ok p" and fin: "fin \<le> length (pk_data p)"
    and "next \<notin> {P_TCP, P_UDP, P_ICMPV6}"
  obtains r where "ext_header p fin st next at = Some r"
    and "located r = (if v6_steps_over (pk_data p) fin next at then Some (v6_hlen (pk_data p) next at) else None)"
proof -
  define f where "f = pk_data p"
  define h where "h = v6_hlen f next at"
  note over = v6_steps_over_def [of f fin "next" at, folded h_def]
  have "\<exists>r. ext_header p fin st next at = Some r \<and>
          located r = (if v6_steps_over f fin next at then Some h else None)"
  proof (cases "fin < at + 8")
    case True
    then show ?thesis by (simp add: ext_header_def over)
  next
    case False
    have l: "ip8 p (at + 1) = Some (f ! (at + 1))" "ip8 p (at + 3) = Some (f ! (at + 3))"
      using False ok fin by (simp_all add: ip8_eq f_def)
    have "at + 2 + 2 \<le> length (pk_data p)" using False fin by simp
    then obtain w where w: "N68K_RD16 p (at + 2) = Some w" "unat w = f16 f (at + 2)"
      unfolding f_def by (rule RD16_eq [OF ok])
    have w9: "(w AND 0xFFF9 = 0) = (f16 f (at + 2) div 8 = 0 \<and> even (f16 f (at + 2)))"
      using and_fff9 [of w] w(2) f16_lt [of f "at + 2"] by simp
    have opts: "n68k_rxv6_dstopt_plain p (at + 2) (h - 2) = Some (plain_options (take (h - 2) (drop (at + 2) f)))"
      if "at + h \<le> fin" "8 \<le> h"
    proof -
      have "at + 2 + (h - 2) \<le> length (pk_data p)" using that fin by simp
      then show ?thesis using dstopt_eq [OF ok, of "at + 2" "h - 2" 0] by (simp add: n68k_rxv6_dstopt_plain_def f_def)
    qed
    consider "next \<in> {N68K_V6_HOPOPT, N68K_V6_ROUTING, N68K_V6_FRAGMENT, N68K_V6_AH, N68K_V6_DSTOPT}"
      | "next \<notin> {N68K_V6_HOPOPT, N68K_V6_ROUTING, N68K_V6_FRAGMENT, N68K_V6_AH, N68K_V6_DSTOPT}" by blast
    then show ?thesis
    proof cases
      case 1
      then have "ext_hlen p st next at = Some (Inr h)" and "8 \<le> h"
        using l by (auto simp: ext_hlen_def h_def v6_hlen_def mult.commute)
      moreover have "at + h \<le> fin \<Longrightarrow> \<exists>r. ext_check p st next at h = Some r \<and>
          located r = (if v6_steps_over f fin next at then Some h else None)"
        using 1 l w w9 opts \<open>8 \<le> h\<close> False
        by (auto simp: ext_check_def over)
      ultimately show ?thesis using False by (auto simp: ext_header_def over)
    next
      case 2
      then show ?thesis using False by (auto simp: ext_header_def ext_hlen_def over)
    qed
  qed
  then show thesis using that by (auto simp: f_def h_def)
qed

lemma ext_chain_eq:
  assumes ok: "frame_ok p" and fin: "fin \<le> length (pk_data p)" and "walked \<le> 8"
  shows "\<exists>r. ext_chain p fin st walked next at = Some r \<and> located r = v6_walk (8 - walked) (pk_data p) fin next at"
  using assms
proof (induction p fin st walked "next" at rule: ext_chain.induct)
  case (1 p fin st walked "next" at)
  note prems = "1.prems"
  show ?case
  proof (cases "next \<in> {P_TCP, P_UDP, P_ICMPV6}")
    case True
    then have "v6_walk (8 - walked) (pk_data p) fin next at = Some (next, at)" by (cases "8 - walked") simp_all
    then show ?thesis using True by (auto simp: ext_chain.simps [of p fin st walked "next" at])
  next
    case False
    show ?thesis
    proof (cases "walked = 8")
      case True
      then show ?thesis using False by (subst ext_chain.simps) auto
    next
      case w8: False
      then have n: "8 - walked = Suc (8 - (walked + 1))" and lt: "\<not> 8 \<le> walked" using prems(3) by simp_all
      have tr: "\<not> (next = P_TCP \<or> next = P_UDP \<or> next = P_ICMPV6)" using False by simp
      obtain r where r: "ext_header p fin st next at = Some r"
        "located r = (if v6_steps_over (pk_data p) fin next at then Some (v6_hlen (pk_data p) next at) else None)"
        by (rule ext_header_eq [OF prems(1,2) False])
      show ?thesis
      proof (cases r)
        case (Inl a)
        then have "v6_walk (8 - walked) (pk_data p) fin next at = None" using r(2) False unfolding n by (simp split: if_splits)
        then show ?thesis using Inl r(1) tr lt by (auto simp: ext_chain.simps [of p fin st walked "next" at])
      next
        case (Inr h)
        then have over: "v6_steps_over (pk_data p) fin next at" "h = v6_hlen (pk_data p) next at"
          using r(2) by (auto split: if_splits)
        then have b: "ip8 p at = Some (pk_data p ! at)" using prems by (simp add: ip8_eq v6_steps_over_def)
        have "walked + 1 \<le> 8" using lt by simp
        then obtain r' where "ext_chain p fin st (walked + 1) (unat (pk_data p ! at)) (at + h) = Some r'"
            "located r' = v6_walk (8 - (walked + 1)) (pk_data p) fin (unat (pk_data p ! at)) (at + h)"
          using "1.IH" [OF tr lt r(1) Inr b prems(1,2)] by blast
        moreover have "v6_walk (8 - walked) (pk_data p) fin next at
            = v6_walk (8 - (walked + 1)) (pk_data p) fin (unat (pk_data p ! at)) (at + h)"
          unfolding n using over False by simp
        ultimately show ?thesis
          using Inr r(1) tr lt b by (auto simp: ext_chain.simps [of p fin st walked "next" at])
      qed
    qed
  qed
qed

lemma shape_eq:
  assumes ok: "frame_ok p"
  obtains r where "n68k_rxv6_shape p st = Some r" and "located r = v6_segment (pk_data p)"
proof -
  define f where "f = pk_data p"
  have "\<exists>r. n68k_rxv6_shape p st = Some r \<and> located r = v6_segment f"
  proof (cases "length f < 40")
    case True
    then show ?thesis using ok by (simp add: n68k_rxv6_shape_def v6_segment_def pk_length_less f_def)
  next
    case False
    then have "4 + 2 \<le> length (pk_data p)" by (simp add: f_def)
    then obtain w where w: "N68K_RD16 p 4 = Some w" "unat w = f16 f 4"
      unfolding f_def by (rule RD16_eq [OF ok])
    have b: "ip8 p 6 = Some (f ! 6)" using False ok by (simp add: ip8_eq f_def)
    show ?thesis
    proof (cases "f16 f 4 = 0 \<or> length f < f16 f 4 + 40")
      case True
      then show ?thesis
        using ok w False by (auto simp: n68k_rxv6_shape_def v6_segment_def pk_length_less unat_pk_length f_def)
    next
      case fits: False
      define fin where "fin = 40 + f16 f 4"
      have "fin \<le> length (pk_data p)" using fits by (simp add: fin_def f_def)
      from ext_chain_eq [OF ok this, of 0 st "unat (f ! 6)" 40] obtain r where
        r: "ext_chain p fin st 0 (unat (f ! 6)) 40 = Some r" "located r = v6_walk 8 f fin (unat (f ! 6)) 40"
        unfolding f_def by auto
      have start: "n68k_rxv6_shape p st =
          (case r of Inl st \<Rightarrow> Some (Inl st) | Inr (next, at) \<Rightarrow> transport_shape p fin st next at)"
        using ok w False b fits r(1)
        unfolding n68k_rxv6_shape_def pk_length_less [OF ok] unat_pk_length [OF ok] f_def [symmetric]
        by (auto simp flip: fin_def)
      show ?thesis
      proof (cases r)
        case (Inl a)
        then show ?thesis using start r(2) False fits by (simp add: v6_segment_def Let_def flip: fin_def)
      next
        case (Inr x)
        obtain nx at where x: "x = (nx, at)" by (cases x)
        have seg: "v6_segment f = (if at + (if nx = P_TCP then 20 else 8) \<le> fin \<and> (nx = P_UDP \<longrightarrow> udp_summed f at (fin - at))
            then Some (nx, at, fin - at) else None)"
        proof -
          have "v6_walk 8 f fin (unat (f ! 6)) 40 = Some (nx, at)" using Inr x r(2) by simp
          moreover have "\<not> (length f < 40 \<or> f16 f 4 = 0 \<or> length f < fin)" using False fits by (simp add: fin_def)
          ultimately show ?thesis unfolding v6_segment_def fin_def [symmetric] Let_def by (simp del: not_less)
        qed
        show ?thesis
        proof (cases "fin < at + (if nx = P_TCP then 20 else 8)")
          case True
          then show ?thesis using Inr x start seg by (simp add: transport_shape_def)
        next
          case room: False
          show ?thesis
          proof (cases "nx = P_UDP")
            case True
            have "at + 4 + 2 \<le> length (pk_data p)" "at + 6 + 2 \<le> length (pk_data p)"
              using room True \<open>fin \<le> length (pk_data p)\<close> by simp_all
            then obtain u c where "N68K_RD16 p (at + 4) = Some u" "unat u = f16 f (at + 4)"
                "N68K_RD16 p (at + 6) = Some c" "unat c = f16 f (at + 6)"
              unfolding f_def by (metis RD16_eq [OF ok])
            then show ?thesis
              using Inr x start seg room True by (auto simp: transport_shape_def udp_summed_def unat_eq_zero [symmetric] simp del: unat_eq_zero)
          next
            case False
            then show ?thesis using Inr x start seg room by (simp add: transport_shape_def)
          qed
        qed
      qed
    qed
  qed
  then show thesis using that by (auto simp: f_def)
qed

text \<open>Where a segment can be: a longword of the frame, and inside it.\<close>

lemma v6_walk_Some:
  assumes "v6_walk k f fin next at = Some (pr, off)" and "4 dvd at"
  shows "4 dvd off \<and> at \<le> off \<and> pr \<in> {P_TCP, P_UDP, P_ICMPV6}"
  using assms
proof (induction k arbitrary: "next" at)
  case (Suc k)
  have "4 dvd v6_hlen f next at" by (simp add: v6_hlen_def)
  then show ?case using Suc.IH [of "unat (f ! at)" "at + v6_hlen f next at"] Suc.prems
    by (auto split: if_splits)
qed (auto split: if_splits)

lemma v6_segment_Some:
  assumes "v6_segment f = Some (pr, off, n)"
  shows "4 dvd off" and "40 \<le> off" and "pr \<in> {P_TCP, P_UDP, P_ICMPV6}" and "off + n = 40 + f16 f 4"
    and "off + n \<le> length f" and "40 \<le> length f"
proof -
  obtain at where walk: "v6_walk 8 f (40 + f16 f 4) (unat (f ! 6)) 40 = Some (pr, at)"
    and "off = at" "n = 40 + f16 f 4 - at" "at \<le> 40 + f16 f 4" "40 + f16 f 4 \<le> length f" "40 \<le> length f"
    using assms by (auto simp: v6_segment_def Let_def split: option.splits if_splits)
  then show "4 dvd off" "40 \<le> off" "pr \<in> {P_TCP, P_UDP, P_ICMPV6}" "off + n = 40 + f16 f 4"
      "off + n \<le> length f" "40 \<le> length f"
    using v6_walk_Some [OF walk] by simp_all
qed

section \<open>The pseudo headers\<close>

lemma longwords_take:
  assumes "4 * Suc k \<le> length xs"
  shows "longwords (take (4 * Suc k) xs) = be_val (take 4 xs) # longwords (take (4 * k) (drop 4 xs))"
proof -
  obtain a b c d ys where "xs = a # b # c # d # ys"
    using assms by (auto simp: neq_Nil_conv Suc_le_length_iff eval_nat_numeral)
  moreover from this have "take 4 xs = [a, b, c, d]" "drop 4 xs = ys" by simp_all
  moreover have "4 * Suc k = Suc (Suc (Suc (Suc (4 * k))))" by simp
  ultimately show ?thesis by (simp only: take_Suc_Cons longwords.simps)
qed

lemma sum_shorts: "length bs mod 4 = 0 \<Longrightarrow> sum_list (map unat (shorts (longwords bs))) = be16_sum bs"
proof (induction bs rule: longwords.induct)
  case (1 a b c d bs)
  have lt: "unat a < 256" "unat b < 256" "unat c < 256" "unat d < 256"
    using unat_lt2p [of a] unat_lt2p [of b] unat_lt2p [of c] unat_lt2p [of d] by simp_all
  define lo where "lo = unat c * 256 + unat d"
  have "lo < 65536" using lt by (simp add: lo_def)
  then have "unat (drop_bit 16 (be_val [a, b, c, d])) = unat a * 256 + unat b"
      "unat (be_val [a, b, c, d] AND 0xFFFF) = lo"
    using mod_mult_self3 [of "unat a * 256 + unat b" 65536 lo]
    by (simp_all add: unat_high_16 unat_and_ffff unat_be_val4 flip: lo_def)
  then have "unat (drop_bit 16 (be_val [a, b, c, d])) = unat a * 256 + unat b"
      "unat (be_val [a, b, c, d] AND 0xFFFF) = unat c * 256 + unat d" by (simp_all only: lo_def)
  then show ?case using 1 by (simp add: shorts_def)
qed (auto simp: shorts_def)

lemma length_longwords: "length (longwords bs) = length bs div 4"
proof (induction bs rule: longwords.induct)
  case (1 a b c d bs)
  have "Suc (Suc (Suc (Suc (length bs)))) div 4 = Suc (length bs div 4)" by linarith
  then show ?case using 1 by simp
qed auto

lemma v6_addresses_eq:
  assumes ok: "frame_ok p" and "40 \<le> length (pk_data p)"
  shows "v6_addresses p = Some (longwords (take 16 (drop 8 (pk_data p))), longwords (take 16 (drop 24 (pk_data p))))"
proof -
  define f where "f = pk_data p"
  have lw: "longwords (take 16 (drop i f)) =
      [be_val (take 4 (drop i f)), be_val (take 4 (drop (i + 4) f)), be_val (take 4 (drop (i + 8) f)), be_val (take 4 (drop (i + 12) f))]"
    if "i \<le> 24" for i
    using that assms(2) longwords_take [of 3 "drop i f"] longwords_take [of 2 "drop (i + 4) f"]
      longwords_take [of 1 "drop (i + 8) f"] longwords_take [of 0 "drop (i + 12) f"]
    by (simp add: f_def add.commute)
  have "n68k_rxv_even p" using ok by (simp add: n68k_rxv_even_def frame_ok_def)
  moreover have "N68K_RDW32 p i = Some (be_val (take 4 (drop i f)))" if "even i" "i \<le> 36" for i
    using RDW_eq(2) [OF ok that(1)] RD32_eq [OF ok, of i] that(2) assms(2) by (simp add: f_def)
  ultimately show ?thesis
    using lw [of 8] lw [of 24] by (simp add: v6_addresses_def flip: f_def)
qed

lemma be16_sum_split32:
  assumes "40 \<le> length f"
  shows "be16_sum (take 32 (drop 8 f)) = be16_sum (take 16 (drop 8 f)) + be16_sum (take 16 (drop 24 f))"
  using be16_sum_cut [of 16 "drop 8 f" 16] assms by simp

lemma v6_pseudo_value:
  assumes "40 \<le> length f"
  shows "pseudo_value NX_IP_VERSION_V6 protocol n (longwords (take 16 (drop 8 f))) (longwords (take 16 (drop 24 f)))
         = be16_sum (take 32 (drop 8 f)) + unat protocol + n"
  using assms be16_sum_split32 [OF assms]
  by (simp add: pseudo_value_def sum_shorts)

lemma v4_pseudo_value:
  assumes "20 \<le> length f" and "v \<noteq> NX_IP_VERSION_V6"
  shows "pseudo_value v protocol n [be_val (take 4 (drop 12 f))] [be_val (take 4 (drop 16 f))]
         = be16_sum (take 8 (drop 12 f)) + unat protocol + n"
proof -
  have lw: "longwords (take 4 (drop i f)) = [be_val (take 4 (drop i f))]" if "i \<le> 16" for i
    using longwords_take [of 0 "drop i f"] that assms(1) by simp
  have "take 2 (shorts [w]) = shorts [w]" for w by (simp add: shorts_def)
  then show ?thesis
    using assms sum_shorts [of "take 4 (drop 12 f)"] sum_shorts [of "take 4 (drop 16 f)"]
      be16_sum_cut [of 4 "drop 12 f" 4]
    by (simp add: pseudo_value_def lw)
qed

section \<open>The ordinary walk\<close>

definition verdict_of :: "verdict \<Rightarrow> ULONG \<times> bool" where
  "verdict_of v = (case v of (st, flags, dropped, ps) \<Rightarrow> (flags, dropped))"

lemma verdict_of_simp [simp]: "verdict_of (st, flags, dropped, ps) = (flags, dropped)"
  by (simp add: verdict_of_def)

lemma has_pseudo_of_nat:
  "n < 256 \<Longrightarrow> has_pseudo (of_nat n) \<longleftrightarrow> n \<in> {P_TCP, P_UDP, P_ICMPV6}"
proof -
  assume "n < 256"
  then have u: "unat (of_nat n :: ULONG) = n" by (simp add: unat_of_nat)
  have "(of_nat n = (m :: ULONG)) = (n = unat m)" for m using u by (metis unsigned_word_eqI)
  then show ?thesis by (auto simp: has_pseudo_def)
qed

lemma transport_valid_seg:
  "off + n \<le> length f \<Longrightarrow> transport_valid addrs pr (take n (drop off f))
     = sum_valid (be16_sum addrs + pr + n + be16_sum (take n (drop off f)))"
  by (simp add: transport_valid_def min_absorb2)

lemma v6_verify_eq:
  assumes ok: "frame_ok p"
  obtains v where "n68k_rxv6_verify cap hot st p [] = Some v" and "verdict_of v = v6_verdict cap (pk_data p)"
proof -
  define f where "f = pk_data p"
  obtain r where r: "n68k_rxv6_shape p st = Some r" "located r = v6_segment f"
    unfolding f_def by (rule shape_eq [OF ok])
  have "\<exists>v. n68k_rxv6_verify cap hot st p [] = Some v \<and> verdict_of v = v6_verdict cap f"
  proof (cases r)
    case (Inl a)
    then show ?thesis using r by (simp add: n68k_rxv6_verify_def v6_verdict_def)
  next
    case (Inr x)
    obtain pr off n where x: "x = (pr, off, n)" by (cases x)
    have seg: "v6_segment f = Some (pr, off, n)" using Inr x r(2) by simp
    note seg' = v6_segment_Some [OF seg]
    define q where "q = p\<lparr>pk_prepend := pk_prepend p + off, pk_length := of_nat n, pk_version := NX_IP_VERSION_V6\<rparr>"
    have q: "at_offset p off q" and ver: "pk_version q = NX_IP_VERSION_V6" by (simp_all add: q_def at_offset_def)
    have pr: "has_pseudo (of_nat pr)" "unat (of_nat pr :: ULONG) = pr"
      using seg'(3) has_pseudo_of_nat [of pr] by (auto simp: unat_of_nat)
    have "n < 2 ^ 31" using seg'(2,4) f16_lt [of f 4] by simp
    have "4 dvd off" "off + n \<le> length (pk_data p)" using seg' by (simp_all add: f_def)
    then obtain m' where sum:
        "n68k_rx_sum_ok q [] (of_nat pr) (of_nat n)
           (Some (longwords (take 16 (drop 8 f)))) (Some (longwords (take 16 (drop 24 f)))) =
         Some (sum_valid ((if has_pseudo (of_nat pr) then pseudo_value (pk_version q) (of_nat pr) n
                             (longwords (take 16 (drop 8 f))) (longwords (take 16 (drop 24 f))) else 0)
                 + be16_sum (take n (drop off (pk_data p)))), [q\<lparr>pk_mem := m'\<rparr>])"
      by (rule sum_ok_eq [OF ok q _ _ \<open>n < 2 ^ 31\<close>,
            where s = "longwords (take 16 (drop 8 f))" and d = "longwords (take 16 (drop 24 f))"])
         (use seg'(6) ver in \<open>simp_all add: length_longwords addr_len_def\<close>)
    have addrs: "v6_addresses p = Some (longwords (take 16 (drop 8 f)), longwords (take 16 (drop 24 f)))"
      using v6_addresses_eq [OF ok] seg'(6) by (simp add: f_def)
    have "sum_valid ((if has_pseudo (of_nat pr) then pseudo_value (pk_version q) (of_nat pr) n
                             (longwords (take 16 (drop 8 f))) (longwords (take 16 (drop 24 f))) else 0)
                 + be16_sum (take n (drop off (pk_data p))))
        = transport_valid (take 32 (drop 8 f)) pr (take n (drop off f))"
      using pr ver seg' by (simp add: v6_pseudo_value transport_valid_seg f_def)
    then have "n68k_rx_sum_ok q [] (of_nat pr) (of_nat n)
           (Some (longwords (take 16 (drop 8 f)))) (Some (longwords (take 16 (drop 24 f)))) =
         Some (transport_valid (take 32 (drop 8 f)) pr (take n (drop off f)), [q\<lparr>pk_mem := m'\<rparr>])"
      using sum by simp
    then show ?thesis
      using r(1) Inr x seg addrs by (auto simp: n68k_rxv6_verify_def v6_verdict_def Let_def q_def)
  qed
  then show thesis using that by (auto simp: f_def)
qed

lemma udp_checks:
  assumes ok: "frame_ok p" and "at + n \<le> length (pk_data p)"
  obtains bad_len no_sum where
    "(if pr = P_UDP then if n < 8 then Some True else map_option (\<lambda>l. unat l \<noteq> n) (N68K_RD16 p (at + 4)) else Some False) = Some bad_len"
    and "\<not> bad_len \<Longrightarrow> (if pr = P_UDP \<and> 8 \<le> n then map_option (\<lambda>c. c = 0) (N68K_RD16 p (at + 6)) else Some False) = Some no_sum"
    and "(bad_len \<or> no_sum) = (pr = P_UDP \<and> \<not> udp_summed (pk_data p) at n)"
proof (cases "pr = P_UDP \<and> 8 \<le> n")
  case True
  then have "at + 4 + 2 \<le> length (pk_data p)" "at + 6 + 2 \<le> length (pk_data p)" using assms(2) by simp_all
  then obtain u c where "N68K_RD16 p (at + 4) = Some u" "unat u = f16 (pk_data p) (at + 4)"
      "N68K_RD16 p (at + 6) = Some c" "unat c = f16 (pk_data p) (at + 6)"
    by (metis RD16_eq [OF ok])
  then show thesis using that [of "unat u \<noteq> n" "c = 0"] True
    by (simp add: udp_summed_def unat_eq_zero [symmetric] del: unat_eq_zero)
next
  case False
  then show thesis using that [of "pr = P_UDP" False] by (auto simp: udp_summed_def)
qed

lemma v4_transport_eq:
  assumes ok: "frame_ok p" and ihl: "ihl = v4_ihl (pk_data p)" "20 \<le> ihl" "ihl \<le> length (pk_data p)"
  obtains v where "v4_transport cap hot st p [] ihl = Some v"
    and "verdict_of v = (if \<not> v4_checkable (pk_data p) then (CAP_IPV4_RX cap, False)
           else if v4_segment_valid (pk_data p) then (CAP_IPV4_RX cap OR v4_bit cap (unat (pk_data p ! 9)), False)
           else (0, True))"
proof -
  define f where "f = pk_data p"
  have "2 + 2 \<le> length (pk_data p)" "6 + 2 \<le> length (pk_data p)" using ihl by simp_all
  then obtain t frag where t: "N68K_RD16 p 2 = Some t" "unat t = f16 f 2"
    and frag: "N68K_RD16 p 6 = Some frag" "unat frag = f16 f 6"
    unfolding f_def by (metis RD16_eq [OF ok])
  have rds: "ip8 p 9 = Some (f ! 9)" "N68K_RD32 p 12 = Some (be_val (take 4 (drop 12 f)))"
      "N68K_RD32 p 16 = Some (be_val (take 4 (drop 16 f)))"
    using ok ihl by (simp_all add: ip8_eq RD32_eq f_def)
  define n where "n = f16 f 2 - ihl"
  define pr where "pr = unat (f ! 9)"
  have "pr < 256" using unat_lt2p [of "f ! 9"] by (simp add: pr_def)
  have start: "unat (pk_length p) = length f" by (simp add: unat_pk_length [OF ok] f_def)
  show thesis
  proof (cases "f16 f 2 < ihl \<or> length f < f16 f 2 \<or> f16 f 6 mod 16384 \<noteq> 0 \<or> pr \<notin> {P_TCP, P_UDP, P_ICMP, P_IGMP}")
    case True
    then have "\<not> v4_checkable f" using ihl(1) by (auto simp: v4_checkable_def f_def pr_def)
    moreover have "\<exists>v. v4_transport cap hot st p [] ihl = Some v \<and> verdict_of v = (CAP_IPV4_RX cap, False)"
      using True t frag rds start by (auto simp: v4_transport_def and_3fff pr_def Let_def)
    ultimately show thesis using that by (auto simp: f_def)
  next
    case False
    then have fits: "ihl + n \<le> length (pk_data p)" and n: "f16 f 2 = ihl + n" using ihl by (auto simp: n_def f_def)
    obtain bad_len no_sum where bl:
        "(if pr = P_UDP then if n < 8 then Some True else map_option (\<lambda>l. unat l \<noteq> n) (N68K_RD16 p (ihl + 4)) else Some False) = Some bad_len"
      and ns: "\<not> bad_len \<Longrightarrow> (if pr = P_UDP \<and> 8 \<le> n then map_option (\<lambda>c. c = 0) (N68K_RD16 p (ihl + 6)) else Some False) = Some no_sum"
      and both: "(bad_len \<or> no_sum) = (pr = P_UDP \<and> \<not> udp_summed f ihl n)"
      unfolding f_def by (rule udp_checks [OF ok fits]) blast
    have chk: "v4_checkable f = (\<not> (bad_len \<or> no_sum))"
      using False both ihl(1) by (auto simp: v4_checkable_def n_def pr_def f_def)
    define q where "q = p\<lparr>pk_prepend := pk_prepend p + ihl, pk_length := of_nat n\<rparr>"
    define bare where "bare \<longleftrightarrow> pr = P_ICMP \<or> pr = P_IGMP"
    define src dst where "src = be_val (take 4 (drop 12 f))" and "dst = be_val (take 4 (drop 16 f))"
    have q: "at_offset p ihl q" and ver: "pk_version q \<noteq> NX_IP_VERSION_V6"
      using ok by (simp_all add: q_def at_offset_def frame_ok_def)
    have hp: "has_pseudo (of_nat pr) = (\<not> bare)"
      using has_pseudo_of_nat [OF \<open>pr < 256\<close>] False by (auto simp: bare_def)
    have "4 dvd ihl" using ihl(1) by (simp add: v4_ihl_def)
    moreover have "n < 2 ^ 31" using n f16_lt [of f 2] by simp
    ultimately obtain m' where sum:
        "n68k_rx_sum_ok q [] (of_nat pr) (of_nat n) (if bare then None else Some [src]) (if bare then None else Some [dst]) =
         Some (sum_valid ((if has_pseudo (of_nat pr) then pseudo_value (pk_version q) (of_nat pr) n [src] [dst] else 0)
                 + be16_sum (take n (drop ihl (pk_data p)))), [q\<lparr>pk_mem := m'\<rparr>])"
      by (rule sum_ok_eq [OF ok q _ fits, where s = "[src]" and d = "[dst]" and protocol = "of_nat pr"
            and src = "if bare then None else Some [src]" and dst = "if bare then None else Some [dst]"])
         (use hp ver in \<open>simp_all add: addr_len_def\<close>)
    have "v4_ihl f = ihl" "f16 f 2 - ihl = n" using ihl(1) n by (simp_all add: f_def)
    then have seg: "v4_segment_valid f = (if bare then sum_valid (be16_sum (take n (drop ihl f)))
        else transport_valid (take 8 (drop 12 f)) pr (take n (drop ihl f)))"
      using False unfolding v4_segment_valid_def Let_def pr_def [symmetric] by (auto simp: bare_def)
    have "20 \<le> length f" using ihl by (simp add: f_def)
    moreover have "unat (of_nat pr :: ULONG) = pr" using \<open>pr < 256\<close> by (simp add: unat_of_nat)
    ultimately have valid: "sum_valid ((if has_pseudo (of_nat pr) then pseudo_value (pk_version q) (of_nat pr) n [src] [dst] else 0)
                 + be16_sum (take n (drop ihl (pk_data p)))) = v4_segment_valid f"
      using v4_pseudo_value [of f "pk_version q" "of_nat pr" n, folded src_def dst_def, OF _ ver] fits hp
      unfolding seg f_def [symmetric] by (simp add: transport_valid_seg)
    have "v4_transport cap hot st p [] ihl = Some
       (if bad_len then (N68K_RXV_COUNT skip_length_update st, CAP_IPV4_RX cap, False, [p])
        else if no_sum then (N68K_RXV_COUNT skip_udp_nosum_update st, CAP_IPV4_RX cap, False, [p])
        else if \<not> v4_segment_valid f then (N68K_RXV_COUNT bad_transport_update st, 0, True, restored p [q\<lparr>pk_mem := m'\<rparr>])
        else (N68K_RXV_HOT hot transport_ok_update st, CAP_IPV4_RX cap OR v4_bit cap pr, False, restored p [q\<lparr>pk_mem := m'\<rparr>]))"
    proof -
      have no: "\<not> (unat t < ihl \<or> length f < unat t)" "frag AND 0x3FFF = 0"
          "\<not> \<not> (pr = P_TCP \<or> pr = P_UDP \<or> bare)" "unat t - ihl = n"
        using False t frag by (auto simp: and_3fff n_def bare_def)
      show ?thesis
        unfolding v4_transport_def Let_def t(1) frag(1) rds start bind.bind_lunit if_not_P [OF no(1)] no(2,4)
          pr_def [symmetric] q_def [symmetric] bl src_def [symmetric] dst_def [symmetric] bare_def [symmetric]
          if_not_P [OF no(3)]
        using ns sum unfolding valid by simp
    qed
    from that [OF this] show thesis using chk unfolding f_def [symmetric] pr_def [symmetric] by (auto split: if_splits)
  qed
qed

lemma verify_verdict:
  assumes ok: "frame_ok p"
  obtains v where "n68k_rx_verify cap hot st p [] = Some v" and "verdict_of v = frame_verdict cap (pk_data p)"
proof -
  define f where "f = pk_data p"
  note less = pk_length_less [OF ok] unat_pk_length [OF ok]
  have "\<exists>v. n68k_rx_verify cap hot st p [] = Some v \<and> verdict_of v = frame_verdict cap f"
  proof (cases "length f < 20")
    case True
    then show ?thesis by (simp add: n68k_rx_verify_def frame_verdict_def less f_def)
  next
    case False
    then have "0 < length (pk_data p)" by (auto simp: f_def)
    then have b: "ip8 p 0 = Some (f ! 0)" using ok by (simp only: ip8_eq f_def)
    consider (v6) "unat (f ! 0) div 16 = 6" | (v4) "unat (f ! 0) div 16 = 4"
      | (other) "unat (f ! 0) div 16 \<noteq> 6" "unat (f ! 0) div 16 \<noteq> 4" by blast
    then show ?thesis
    proof cases
      case v6
      obtain v where "n68k_rxv6_verify cap hot st p [] = Some v" "verdict_of v = v6_verdict cap f"
        unfolding f_def by (rule v6_verify_eq [OF ok])
      then show ?thesis using False b v6 by (simp add: n68k_rx_verify_def frame_verdict_def less nibble f_def)
    next
      case v4
      define ihl where "ihl = v4_ihl f"
      show ?thesis
      proof (cases "ihl < 20 \<or> length f < ihl")
        case True
        then show ?thesis using False b v4
          by (auto simp: n68k_rx_verify_def frame_verdict_def less nibble f_def v4_verdict_def and_0f ihl_def v4_ihl_def)
      next
        case fits: False
        have "ihl < 2 ^ 31" "4 dvd ihl" "even ihl" by (simp_all add: ihl_def v4_ihl_def)
        moreover have "\<not> has_pseudo (of_nat NX_IP_VERSION_V4)" by (simp add: has_pseudo_def)
        moreover have "0 + ihl \<le> length (pk_data p)" using fits by (simp add: f_def)
        moreover have "at_offset p 0 p" by (simp add: at_offset_def)
        ultimately obtain m' where "n68k_rx_sum_ok p [] (of_nat NX_IP_VERSION_V4) (of_nat ihl) None None =
            Some (sum_valid (be16_sum (take ihl f)), [p\<lparr>pk_mem := m'\<rparr>])" "m' = pk_mem p"
          using sum_ok_eq [OF ok \<open>at_offset p 0 p\<close>, of ihl "of_nat NX_IP_VERSION_V4" None undefined None undefined]
          by (auto simp: f_def)
        then have sum: "n68k_rx_sum_ok p [] (of_nat NX_IP_VERSION_V4) (of_nat ihl) None None =
            Some (sum_valid (be16_sum (take ihl f)), [p])" by simp
        have ihl': "ihl = v4_ihl (pk_data p)" "20 \<le> ihl" "ihl \<le> length (pk_data p)"
          using fits by (simp_all add: ihl_def f_def)
        obtain v where v: "v4_transport cap hot (N68K_RXV_HOT hot ip_ok_update st) p [] ihl = Some v"
          "verdict_of v = (if \<not> v4_checkable f then (CAP_IPV4_RX cap, False)
             else if v4_segment_valid f then (CAP_IPV4_RX cap OR v4_bit cap (unat (f ! 9)), False)
             else (0, True))"
          unfolding f_def by (rule v4_transport_eq [OF ok ihl'])
        have ihl_eq: "4 * unat (f ! 0 AND 0x0F) = ihl" by (simp add: ihl_def v4_ihl_def and_0f)
        have "n68k_rx_verify cap hot st p [] =
            (if sum_valid (be16_sum (take ihl f)) then Some v else Some (N68K_RXV_COUNT bad_ip_update st, 0, True, [p]))"
          using False b v4 fits sum v(1)
          unfolding n68k_rx_verify_def less f_def [symmetric]
          by (simp add: nibble ihl_eq Let_def)
        then show ?thesis using v(2) v4 False fits
          by (auto simp: frame_verdict_def v4_verdict_def simp del: split_paired_Ex simp flip: ihl_def)
      qed
    next
      case other
      then show ?thesis using False b by (simp add: n68k_rx_verify_def frame_verdict_def less nibble f_def)
    qed
  qed
  then show thesis using that by (auto simp: f_def)
qed

end
