(* ===== verification/Cks_Fused.thy ===== *)
theory Cks_Fused
  imports Cks_Accept
begin

text \<open>
  The check from the carried sum gives the ordinary walk's verdict: \<open>n68k_rx_verify_sum\<close> and
  \<open>n68k_rx_verify\<close> of \<^verbatim>\<open>src/net68k/n68k_rx_verify.c\<close>, for a sum that agrees with the bytes copied.
  What a copy has to promise for that is the interface \<open>carried_sum\<close>; the copy hooks of
  \<^verbatim>\<open>src/sana2/sana2_copy.c\<close> provide it.
\<close>

section \<open>Sums of parts of the frame\<close>

lemma rxv_fold_eq: "n68k_rxv_fold s = n68k_fold s"
  by (simp add: n68k_rxv_fold_def n68k_fold_def Let_def add.commute)

lemma fold_valid: "(n68k_rxv_fold s = 0xFFFF) = sum_valid (unat s)"
proof -
  have "(n68k_fold s = 0xFFFF) = (unat (n68k_fold s) = unat (0xFFFF :: ULONG))" by (metis unsigned_word_eqI)
  then show ?thesis by (simp add: rxv_fold_eq unat_n68k_fold ones_valid)
qed

lemma sum_valid_ones: "ones a = ones b \<Longrightarrow> sum_valid a = sum_valid b"
  by (metis ones_valid)

text \<open>
  Adding the length and the protocol without an end-around carry is harmless: where the addition
  wraps, the sum was not good and what is left is too small to look good.
\<close>

lemma fold_add_valid:
  assumes "x < 65534"
  shows "(n68k_rxv_fold (s + of_nat x) = 0xFFFF) = sum_valid (unat s + x)"
proof -
  have x: "unat (of_nat x :: ULONG) = x" using assms by (simp add: unat_of_nat)
  have s: "unat s < 2 ^ 32" using unat_lt2p [of s] by simp
  show ?thesis
  proof (cases "unat s + x < 2 ^ 32")
    case True
    then have "unat (s + of_nat x) = unat s + x" using x by (subst unat_add_nowrap) simp_all
    then show ?thesis by (simp add: fold_valid)
  next
    case False
    define k where "k = unat s + x - 2 ^ 32"
    have sum: "unat s + x = k + 1 + 65535 * 65537" and "k < 65534" using False s assms by (simp_all add: k_def)
    have "unat (s + of_nat x) = k" using False s x by (simp add: unat_plus_if' k_def)
    moreover have "\<not> sum_valid k" using \<open>k < 65534\<close> by (auto simp: sum_valid_def)
    moreover have "(unat s + x) mod 65535 = k + 1" using \<open>k < 65534\<close> unfolding sum by (simp only: mod_mult_self2) simp
    then have "\<not> sum_valid (unat s + x)" by (simp add: sum_valid_def)
    ultimately show ?thesis by (simp add: fold_valid)
  qed
qed

lemma sum_be_loop_eq:
  assumes ok: "frame_ok p" and "i + 4 * k \<le> length (pk_data p)"
  shows "sum_be_loop k p i acc = Some (sum_loop acc (longwords (take (4 * k) (drop i (pk_data p)))))"
  using assms(2)
proof (induction k arbitrary: i acc)
  case (Suc k)
  have "N68K_RD32 p i = Some (be_val (take 4 (drop i (pk_data p))))" using Suc.prems by (intro RD32_eq ok) simp
  moreover have "longwords (take (4 * Suc k) (drop i (pk_data p)))
      = be_val (take 4 (drop i (pk_data p))) # longwords (take (4 * k) (drop (i + 4) (pk_data p)))"
    using Suc.prems longwords_take [of k "drop i (pk_data p)"] by (simp add: add.commute)
  moreover have "i + 4 + 4 * k \<le> length (pk_data p)" using Suc.prems by simp
  ultimately show ?case using Suc.IH by (simp del: mult_Suc_right)
qed simp

lemma sum_be_eq:
  assumes ok: "frame_ok p" and "i + 4 * k \<le> length (pk_data p)"
  obtains w where "n68k_rxv_sum_be p i k = Some w"
    and "ones (unat w) = ones (be16_sum (take (4 * k) (drop i (pk_data p))))"
  using sum_be_loop_eq [OF assms, of 0] sum_longwords_ones [of "take (4 * k) (drop i (pk_data p))"] assms(2)
  by (simp add: n68k_rxv_sum_be_def n68k_sum_longwords_def min_absorb2)

lemma add_carry_0 [simp]: "add_carry 0 w = w"
  by (simp add: add_carry_def)

lemma head_sum_eq:
  assumes ok: "frame_ok p" and "4 dvd ihl" and "ihl \<le> length (pk_data p)"
  obtains head where "v4_head_sum p ihl = Some head"
    and "ones (unat head) = ones (be16_sum (take ihl (pk_data p)))"
proof -
  obtain k where k: "ihl = 4 * k" using assms(2) by auto
  have even: "even (pk_addr p (pk_prepend p))"
  proof -
    have "pk_addr p (pk_prepend p) mod 4 = 0" using ok by (simp add: frame_ok_def)
    then show ?thesis by presburger
  qed
  have rd: "rd_longs p (pk_prepend p) k = Some (longwords (take ihl (pk_data p)))"
    using even frame_range [OF ok, of 0 ihl] assms(3) by (simp add: rd_longs_def k)
  have "v4_head_sum p ihl = Some (n68k_sum_longwords (longwords (take ihl (pk_data p))))"
  proof (cases "ihl = 20")
    case True
    then have "length (longwords (take ihl (pk_data p))) = 5" using assms(3) by (simp add: length_longwords)
    then obtain a b c d e where ws: "longwords (take ihl (pk_data p)) = [a, b, c, d, e]"
      by (auto simp: length_Suc_conv eval_nat_numeral)
    then show ?thesis using rd True k by (simp add: v4_head_sum_def n68k_sum_longwords_def)
  next
    case False
    then show ?thesis using rd by (simp add: v4_head_sum_def k)
  qed
  moreover have "ones (unat (n68k_sum_longwords (longwords (take ihl (pk_data p))))) = ones (be16_sum (take ihl (pk_data p)))"
    using assms(3) by (intro sum_longwords_ones) (simp add: k)
  ultimately show thesis by (rule that)
qed

section \<open>IPv4\<close>

lemma v4_sum_verdict_eq:
  assumes ok: "frame_ok p" and ihl: "ihl = v4_ihl (pk_data p)" "20 \<le> ihl"
    and total: "f16 (pk_data p) 2 = ihl + n" "ihl + n \<le> length (pk_data p)"
    and pr: "pr = unat (pk_data p ! 9)" "pr \<in> {P_TCP, P_UDP}" and chk: "v4_checkable (pk_data p)"
    and carried: "ones (unat carried) = ones (be16_sum (take (ihl + n) (pk_data p)))"
  obtains v where "v4_sum_verdict cap hot st p [] ihl pr n carried = Some v"
    and "verdict_of v = v4_verdict cap (pk_data p)"
proof -
  define f where "f = pk_data p"
  have dvd: "4 dvd ihl" by (simp add: ihl(1) v4_ihl_def)
  obtain head where head: "v4_head_sum p ihl = Some head" and h: "ones (unat head) = ones (be16_sum (take ihl f))"
    unfolding f_def by (rule head_sum_eq [OF ok dvd]) (use total(2) in auto)
  have hv: "(n68k_rxv_fold head = 0xFFFF) = sum_valid (be16_sum (take ihl f))"
    using sum_valid_ones [OF h] by (simp add: fold_valid)
  define src dst where "src = be_val (take 4 (drop 12 f))" and "dst = be_val (take 4 (drop 16 f))"
  have rd: "N68K_RDW32 p 12 = Some src" "N68K_RDW32 p 16 = Some dst"
    using ok ihl total by (simp_all add: RDW_eq RD32_eq src_def dst_def f_def)
  define s where "s = add_carry (add_carry carried src) dst"
  have tot: "f16 f 2 - v4_ihl f = n" "v4_ihl f = ihl" using total ihl(1) by (simp_all add: f_def)
  have x: "pr + n < 65534" using total(1) ihl(2) f16_lt [of "pk_data p" 2] pr(2) by auto
  have final: "(n68k_rxv_fold (s + of_nat pr + of_nat n) = 0xFFFF) = v4_segment_valid f"
    if "sum_valid (be16_sum (take ihl f))"
  proof -
    have addr: "ones (unat src) = ones (be16_sum (take 4 (drop 12 f)))" "ones (unat dst) = ones (be16_sum (take 4 (drop 16 f)))"
      using pad4_ones [of "take 4 (drop 12 f)"] pad4_ones [of "take 4 (drop 16 f)"] ihl(2) total(2)
      by (simp_all add: pad4_def src_def dst_def f_def)
    have "ones (unat s) = ones (be16_sum (take (ihl + n) f) + be16_sum (take 4 (drop 12 f)) + be16_sum (take 4 (drop 16 f)))"
      unfolding s_def by (intro add_carry_ones addr) (simp add: carried f_def)
    also have "\<dots> = ones (be16_sum (take ihl f) + be16_sum (take n (drop ihl f)) + be16_sum (take 8 (drop 12 f)))"
    proof -
      have "be16_sum (take (ihl + n) f) = be16_sum (take ihl f) + be16_sum (take n (drop ihl f))"
        using be16_sum_cut [of ihl f n] ihl(1) total(2) by (simp add: f_def v4_ihl_def)
      moreover have "be16_sum (take 8 (drop 12 f)) = be16_sum (take 4 (drop 12 f)) + be16_sum (take 4 (drop 16 f))"
        using be16_sum_cut [of 4 "drop 12 f" 4] ihl(2) total(2) by (simp add: f_def)
      ultimately show ?thesis by (simp add: add.assoc)
    qed
    finally have "ones (unat s + (pr + n)) =
        ones (be16_sum (take ihl f) + be16_sum (take n (drop ihl f)) + be16_sum (take 8 (drop 12 f)) + (pr + n))"
      by (intro eac_add_cong refl)
    also have "\<dots> = ones (be16_sum (take 8 (drop 12 f)) + pr + n + be16_sum (take n (drop ihl f)))"
      (is "ones ?a = ones ?b")
    proof (rule eac_cong_mod)
      have "?a mod 65535 = (be16_sum (take ihl f) mod 65535 + ?b) mod 65535"
        unfolding mod_add_left_eq by (simp add: ac_simps)
      then show "?a mod 65535 = ?b mod 65535" using that by (simp add: sum_valid_def)
      show "(?a = 0) = (?b = 0)" using pr(2) by auto
    qed
    finally have "sum_valid (unat s + (pr + n)) = sum_valid (be16_sum (take 8 (drop 12 f)) + pr + n + be16_sum (take n (drop ihl f)))"
      by (rule sum_valid_ones)
    also have "\<dots> = v4_segment_valid f"
      using pr total(2) tot by (simp add: v4_segment_valid_def Let_def transport_valid_seg f_def)
    also have "s + of_nat pr + of_nat n = s + of_nat (pr + n)" by (simp add: add.assoc)
    ultimately show ?thesis using fold_add_valid [OF x, of s] by (simp add: add.assoc)
  qed
  have bit: "v4_bit cap pr = (if pr = P_TCP then CAP_TCP_RX cap else CAP_UDP_RX cap)"
    using pr(2) by (auto simp: v4_bit_def)
  have "\<not> (v4_ihl f < 20 \<or> length f < v4_ihl f)" using ihl total(2) by (auto simp: f_def)
  then have spec: "v4_verdict cap f =
      (if \<not> sum_valid (be16_sum (take ihl f)) then (0, True)
       else if v4_segment_valid f then (CAP_IPV4_RX cap OR v4_bit cap pr, False) else (0, True))"
    using chk tot(2) pr(1) unfolding v4_verdict_def f_def [symmetric] by simp
  show thesis
  proof (cases "sum_valid (be16_sum (take ihl f))")
    case True
    show ?thesis
      using that head rd hv final [OF True] True spec
      by (cases "v4_segment_valid f") (simp_all add: v4_sum_verdict_def Let_def bit s_def [symmetric] f_def [symmetric])
  next
    case False
    then show ?thesis using that head hv spec by (simp add: v4_sum_verdict_def f_def)
  qed
qed

lemma v4_verify_sum_eq:
  assumes ok: "frame_ok p" and v4: "20 \<le> length (pk_data p)" "unat (pk_data p ! 0) div 16 = 4"
    and carried: "ones (unat carried) = ones (be16_sum (take (unat copied) (pk_data p)))"
  obtains v where "v4_verify_sum cap hot st p [] (pk_data p ! 0) carried copied = Some v"
    and "verdict_of v = frame_verdict cap (pk_data p)"
proof -
  define f where "f = pk_data p"
  define ihl where "ihl = v4_ihl f"
  have walk: "\<exists>v. n68k_rx_verify cap hot st' p [] = Some v \<and> verdict_of v = frame_verdict cap f" for st'
    unfolding f_def by (rule verify_verdict [OF ok]) blast
  have even: "n68k_rxv_even p" using ok by (simp add: n68k_rxv_even_def frame_ok_def)
  have "2 + 2 \<le> length (pk_data p)" "6 + 2 \<le> length (pk_data p)" using v4 by simp_all
  then obtain t frag where t: "N68K_RD16 p 2 = Some t" "unat t = f16 f 2"
    and frag: "N68K_RD16 p 6 = Some frag" "unat frag = f16 f 6"
    unfolding f_def by (metis RD16_eq [OF ok])
  have b: "ip8 p 9 = Some (f ! 9)" using v4 ok by (simp add: ip8_eq f_def)
  define pr where "pr = unat (f ! 9)"
  have ihl_eq: "4 * unat (f ! 0 AND 0x0F) = ihl" by (simp add: ihl_def v4_ihl_def and_0f)
  have len: "(pk_length p < t) = (length f < f16 f 2)" by (simp add: pk_length_less [OF ok] t f_def)
  have "\<exists>v. v4_verify_sum cap hot st p [] (f ! 0) carried copied = Some v \<and> verdict_of v = frame_verdict cap f"
  proof (cases "ihl < 20 \<or> f16 f 2 < ihl \<or> length f < f16 f 2 \<or> copied \<noteq> t \<or>
      (pr \<noteq> P_TCP \<and> pr \<noteq> P_UDP) \<or> f16 f 6 mod 16384 \<noteq> 0")
    case True
    show ?thesis
      using walk True even t frag b ihl_eq
      by (auto simp: v4_verify_sum_def RDW_eq [OF ok] Let_def len pr_def and_3fff simp del: split_paired_Ex)
  next
    case False
    define n where "n = f16 f 2 - ihl"
    have n: "f16 f 2 = ihl + n" "ihl + n \<le> length f" "20 \<le> ihl" "copied = t" using False by (auto simp: n_def)
    then have fits: "ihl + n \<le> length (pk_data p)" by (simp add: f_def)
    have ev: "even (ihl + 4)" "even (ihl + 6)" by (simp_all add: ihl_def v4_ihl_def)
    obtain bad_len no_sum where bl:
        "(if pr = P_UDP then if n < 8 then Some True else map_option (\<lambda>l. unat l \<noteq> n) (N68K_RD16 p (ihl + 4)) else Some False) = Some bad_len"
      and ns: "\<not> bad_len \<Longrightarrow> (if pr = P_UDP \<and> 8 \<le> n then map_option (\<lambda>c. c = 0) (N68K_RD16 p (ihl + 6)) else Some False) = Some no_sum"
      and both: "(bad_len \<or> no_sum) = (pr = P_UDP \<and> \<not> udp_summed f ihl n)"
      unfolding f_def by (rule udp_checks [OF ok fits]) blast
    have run: "v4_verify_sum cap hot st p [] (f ! 0) carried copied =
        (if bad_len then n68k_rx_verify cap hot (N68K_RXV_COUNT skip_length_update st) p []
         else if no_sum then n68k_rx_verify cap hot st p []
         else v4_sum_verdict cap hot st p [] ihl pr n carried)"
    proof -
      have no: "\<not> (ihl < 20 \<or> unat t < ihl \<or> pk_length p < t \<or> copied \<noteq> t)"
          "\<not> ((pr \<noteq> P_TCP \<and> pr \<noteq> P_UDP) \<or> frag AND 0x3FFF \<noteq> 0)" "unat t - ihl = n"
        using False t frag len by (auto simp: and_3fff n_def)
      have "\<not> \<not> n68k_rxv_even p" using even by simp
      then show ?thesis
        unfolding v4_verify_sum_def Let_def ihl_eq RDW_eq(1) [OF ok even_numeral] RDW_eq(1) [OF ok ev(1)] RDW_eq(1) [OF ok ev(2)]
          t(1) frag(1) b bind.bind_lunit if_not_P [OF no(1)] no(3) pr_def [symmetric] if_not_P [OF no(2)] bl
        using ns by simp
    qed
    show ?thesis
    proof (cases "bad_len \<or> no_sum")
      case True
      then show ?thesis using run walk by (auto simp del: split_paired_Ex)
    next
      case sum: False
      have "v4_checkable (pk_data p)" using False both sum by (auto simp: v4_checkable_def ihl_def n_def pr_def f_def)
      moreover have "ones (unat carried) = ones (be16_sum (take (ihl + n) (pk_data p)))"
        using carried n t by (simp add: f_def)
      moreover have "pr \<in> {P_TCP, P_UDP}" using False by auto
      ultimately obtain v where "v4_sum_verdict cap hot st p [] ihl pr n carried = Some v"
          "verdict_of v = v4_verdict cap (pk_data p)"
        using v4_sum_verdict_eq [OF ok ihl_def [unfolded f_def] n(3) n(1) [unfolded f_def] fits pr_def [unfolded f_def]]
        by blast
      moreover have "frame_verdict cap f = v4_verdict cap f" using v4 by (simp add: frame_verdict_def f_def)
      ultimately show ?thesis using run sum by (simp add: f_def)
    qed
  qed
  then show thesis using that by (auto simp: f_def)
qed

section \<open>IPv6\<close>

lemma v6_frame_sum:
  assumes "v6_segment f = Some (pr, off, n)"
  shows "be16_sum (take (off + n) f) = be16_sum (take 8 f) + be16_sum (take 32 (drop 8 f))
           + be16_sum (take (off - 40) (drop 40 f)) + be16_sum (take n (drop off f))"
proof -
  note seg = v6_segment_Some [OF assms]
  have "even off" using seg(1) by auto
  then have "even (off - 40)" by simp
  have "be16_sum (take (off + n) f) = be16_sum (take off f) + be16_sum (take n (drop off f))"
    using be16_sum_cut [of off f n] \<open>even off\<close> seg(5) by simp
  moreover have "be16_sum (take off f) = be16_sum (take 40 f) + be16_sum (take (off - 40) (drop 40 f))"
    using be16_sum_cut [of 40 f "off - 40"] seg(2,6) by simp
  moreover have "be16_sum (take 40 f) = be16_sum (take 8 f) + be16_sum (take 32 (drop 8 f))"
    using be16_sum_cut [of 8 f 32] seg(6) by simp
  ultimately show ?thesis by simp
qed

text \<open>Taking a sum back out: the complement is its negative modulo 65535.\<close>

lemma unat_complement: "unat (NOT (h :: ULONG)) = 4294967295 - unat h"
proof -
  have "NOT h = 4294967295 - h" by (simp add: not_eq_complement)
  moreover have "h \<le> 4294967295"
  proof -
    have "unat h \<le> 4294967295" using unat_lt2p [of h] by simp
    then show ?thesis by (simp add: word_le_nat_alt)
  qed
  ultimately show ?thesis by (simp add: unat_sub_le)
qed

lemma taken_out:
  assumes h: "ones (unat h) = ones a" and c: "ones (unat c) = ones (a + b)" and "0 < x"
  shows "sum_valid (unat (n68k_rxv_fold (add_carry (NOT h) c)) + x) = sum_valid (b + x)"
proof -
  define d where "d = 4294967295 - unat h"
  have hd: "unat h + d = 65535 * 65537" using unat_lt2p [of h] by (simp add: d_def)
  have "ones (unat (n68k_rxv_fold (add_carry (NOT h) c))) = ones (d + (a + b))"
    using add_carry_ones [of "NOT h" d c "a + b"] c
    by (simp add: rxv_fold_eq unat_n68k_fold unat_complement d_def)
  then have "ones (unat (n68k_rxv_fold (add_carry (NOT h) c)) + x) = ones (d + (a + b) + x)"
    by (intro eac_add_cong refl)
  then have "sum_valid (unat (n68k_rxv_fold (add_carry (NOT h) c)) + x) = sum_valid (d + (a + b) + x)"
    by (rule sum_valid_ones)
  also have "\<dots> = sum_valid (b + x)"
  proof -
    have am: "a mod 65535 = unat h mod 65535" using h by (metis eac_mod)
    have "(d + (a + b) + x) mod 65535 = (a mod 65535 + (d + b + x)) mod 65535" 
      unfolding mod_add_left_eq by (simp add: ac_simps)
    also have "\<dots> = (unat h + d + (b + x)) mod 65535" unfolding am mod_add_left_eq by (simp add: ac_simps)
    also have "\<dots> = (b + x) mod 65535" unfolding hd by (simp only: mod_mult_self4)
    finally show ?thesis using \<open>0 < x\<close> by (simp add: sum_valid_def)
  qed
  finally show ?thesis .
qed

lemma v6_verify_sum_eq:
  assumes ok: "frame_ok p" and v6: "20 \<le> length (pk_data p)" "unat (pk_data p ! 0) div 16 = 6"
    and carried: "ones (unat carried) = ones (be16_sum (take (unat copied) (pk_data p)))"
  obtains v where "v6_verify_sum cap hot st p [] carried copied = Some v"
    and "verdict_of v = frame_verdict cap (pk_data p)"
proof -
  define f where "f = pk_data p"
  have spec: "frame_verdict cap f = v6_verdict cap f" using v6 by (simp add: frame_verdict_def f_def)
  obtain r where r: "n68k_rxv6_shape p st = Some r" "located r = v6_segment f"
    unfolding f_def by (rule shape_eq [OF ok])
  have "\<exists>v. v6_verify_sum cap hot st p [] carried copied = Some v \<and> verdict_of v = v6_verdict cap f"
  proof (cases r)
    case (Inl a)
    then show ?thesis using r by (simp add: v6_verify_sum_def v6_verdict_def)
  next
    case (Inr x)
    obtain pr off n where x: "x = (pr, off, n)" by (cases x)
    have seg: "v6_segment f = Some (pr, off, n)" using Inr x r(2) by simp
    note seg' = v6_segment_Some [OF seg]
    show ?thesis
    proof (cases "unat copied = off + n")
      case False
      obtain v where "n68k_rxv6_verify cap hot st p [] = Some v" "verdict_of v = v6_verdict cap f"
        unfolding f_def by (rule v6_verify_eq [OF ok])
      then show ?thesis using r(1) Inr x False by (auto simp: v6_verify_sum_def simp del: split_paired_Ex)
    next
      case True
      have dvd: "4 dvd off - 40" using seg'(1,2) by presburger
      then have off4: "4 * ((off - 40) div 4) = off - 40" by simp
      obtain fixed where fixed: "n68k_rxv_sum_be p 0 2 = Some fixed" "ones (unat fixed) = ones (be16_sum (take 8 f))"
        using sum_be_eq [OF ok, of 0 2] seg'(6) by (auto simp: f_def)
      have "40 + 4 * ((off - 40) div 4) \<le> length (pk_data p)" using seg'(2,5) by (simp add: off4 f_def)
      then obtain ext where ext: "n68k_rxv_sum_be p 40 ((off - 40) div 4) = Some ext"
          "ones (unat ext) = ones (be16_sum (take (off - 40) (drop 40 f)))"
        using sum_be_eq [OF ok, of 40 "(off - 40) div 4"] unfolding off4 by (auto simp: f_def)
      define head where "head = (if 40 < off then add_carry fixed ext else fixed)"
      have head: "ones (unat head) = ones (be16_sum (take 8 f) + be16_sum (take (off - 40) (drop 40 f)))"
        using add_carry_ones [OF fixed(2) ext(2)] fixed(2) by (simp add: head_def)
      define s where "s = n68k_rxv_fold (add_carry (NOT head) carried)"
      define b where "b = be16_sum (take 32 (drop 8 f)) + be16_sum (take n (drop off f))"
      have "ones (unat carried) = ones (be16_sum (take 8 f) + be16_sum (take (off - 40) (drop 40 f)) + b)"
        using carried True v6_frame_sum [OF seg] by (simp add: f_def b_def ac_simps)
      then have sv: "sum_valid (unat s + (pr + n)) = sum_valid (b + (pr + n))"
        unfolding s_def by (rule taken_out [OF head]) (use seg'(3) in auto)
      have "unat s \<le> 65535" by (simp add: s_def rxv_fold_eq unat_fold_le)
      moreover have "pr \<le> 58" "n < 65536" using seg'(2,3,4) f16_lt [of f 4] by auto
      moreover from this have "unat (of_nat (pr + n) :: ULONG) = pr + n" by (simp add: unat_of_nat del: of_nat_add)
      ultimately have "unat (s + of_nat (pr + n)) = unat s + (pr + n)"
        by (subst unat_add_nowrap) simp_all
      then have final: "(n68k_rxv_fold (s + of_nat pr + of_nat n) = 0xFFFF) = transport_valid (take 32 (drop 8 f)) pr (take n (drop off f))"
        using sv seg'(5) by (simp add: fold_valid transport_valid_seg b_def ac_simps)
      have mod0: "(off - 40) mod 4 = 0" using dvd by auto
      have "(if 40 < off then map_option (add_carry fixed) (n68k_rxv_sum_be p 40 ((off - 40) div 4)) else Some fixed) = Some head"
        by (simp add: head_def ext)
      then show ?thesis
        using r(1) Inr x True mod0 fixed(1) final seg
        by (auto simp: v6_verify_sum_def v6_verdict_def Let_def s_def simp del: split_paired_Ex if_split split: if_split)
    qed
  qed
  then show thesis using that spec by (auto simp: f_def)
qed

section \<open>The equivalence\<close>

lemma verify_sum_verdict:
  assumes ok: "frame_ok p" and carried: "ones (unat carried) = ones (be16_sum (take (unat copied) (pk_data p)))"
  obtains v where "n68k_rx_verify_sum cap hot st p [] carried copied = Some v"
    and "verdict_of v = frame_verdict cap (pk_data p)"
proof (cases "length (pk_data p) < 20")
  case True
  then show thesis using that by (simp add: n68k_rx_verify_sum_def frame_verdict_def pk_length_less [OF ok])
next
  case False
  then have "0 < length (pk_data p)" by auto
  then have b: "ip8 p 0 = Some (pk_data p ! 0)" using ok by (simp only: ip8_eq)
  have len: "\<not> pk_length p < 20" "20 \<le> length (pk_data p)" using False by (simp_all add: pk_length_less [OF ok])
  consider (v6) "unat (pk_data p ! 0) div 16 = 6" | (v4) "unat (pk_data p ! 0) div 16 = 4"
    | (other) "unat (pk_data p ! 0) div 16 \<noteq> 6" "unat (pk_data p ! 0) div 16 \<noteq> 4" by blast
  then show thesis
  proof cases
    case v6
    then show thesis
      using that v6_verify_sum_eq [OF ok len(2) v6 carried, of cap hot st thesis] len(1) b
      by (simp add: n68k_rx_verify_sum_def nibble)
  next
    case v4
    then show thesis
      using that v4_verify_sum_eq [OF ok len(2) v4 carried, of cap hot st thesis] len(1) b
      by (simp add: n68k_rx_verify_sum_def nibble)
  next
    case other
    then show thesis using that len(1) b by (simp add: n68k_rx_verify_sum_def nibble frame_verdict_def)
  qed
qed

text \<open>
  What a copy promises: it copies, and the sum it returns is the one's-complement sum of the bytes.
\<close>

locale carried_sum =
  fixes copy_sum :: "UBYTE list \<Rightarrow> UBYTE list \<times> ULONG"
  assumes copies: "fst (copy_sum bytes) = bytes"
    and sums: "ones (unat (snd (copy_sum bytes))) = ones (be16_sum bytes)"
begin

lemma carried_verdict:
  assumes "frame_ok p" and "take (length bytes) (pk_data p) = bytes" and "length bytes < 2 ^ 32"
  shows "map_option verdict_of (n68k_rx_verify_sum cap hot st p [] (snd (copy_sum bytes)) (of_nat (length bytes)))
       = map_option verdict_of (n68k_rx_verify cap hot' st' p [])"
proof -
  have "unat (of_nat (length bytes) :: ULONG) = length bytes" using assms(3) by (simp add: unat_of_nat)
  then have "ones (unat (snd (copy_sum bytes))) = ones (be16_sum (take (unat (of_nat (length bytes) :: ULONG)) (pk_data p)))"
    using assms(2) by (simp add: sums)
  then obtain v where "n68k_rx_verify_sum cap hot st p [] (snd (copy_sum bytes)) (of_nat (length bytes)) = Some v"
      "verdict_of v = frame_verdict cap (pk_data p)"
    by (rule verify_sum_verdict [OF assms(1)])
  moreover obtain v' where "n68k_rx_verify cap hot' st' p [] = Some v'" "verdict_of v' = frame_verdict cap (pk_data p)"
    by (rule verify_verdict [OF assms(1)])
  ultimately show ?thesis by simp
qed

end

interpretation copy_hook: carried_sum "ami_sana2_copy_sum to from" for to "from"
  using copy_words_sum copy_bytes_sum [of "[]" _ 0]
  by unfold_locales (simp_all add: ami_sana2_copy_sum_def)

end
