(* ===== verification/Sana2_Copy.thy ===== *)
theory Sana2_Copy
  imports Cks_Fused
begin

text \<open>
  The SANA-II buffer hooks of \<^verbatim>\<open>src/sana2/sana2_copy.c\<close>: the receive copy that sums
  (\<open>ami_sana2_copy_to_buff\<close>), the direct-receive pair, and the transmit checksum written by the copy
  (\<open>ami_sana2_tx_fuse_checksum\<close>) or left to the card (\<open>ami_sana2_tx_pseudo_sum\<close>). The build is the
  one with \<^verbatim>\<open>AMINETXDUO_RX_VERIFY\<close>.

  A slot's packet is its chain, a list of packets; the empty list is a null pointer. A destination
  in the packet is an offset into the packet's buffer; the device's memory is given by its address and
  its bytes. The outer option is a memory fault.
\<close>

section \<open>Receive\<close>

record AmiSana2Stats =
  rx_copy_hook :: ULONG
  rx_copy_summed :: ULONG
  rx_copy_unaligned :: ULONG
  rx_direct_fill :: ULONG

record AmiRxSlot =
  rs_stats :: "AmiSana2Stats option"
  rs_link_hdr_ok :: bool
  rs_packet :: "NX_PACKET option"
  rs_dst :: "nat option"
  rs_capacity :: ULONG
  rs_copied :: ULONG
  rs_sum :: ULONG
  rs_summed :: bool
  rs_rxflags :: UBYTE
  rs_hdr_written :: bool

definition count_stat :: "((ULONG \<Rightarrow> ULONG) \<Rightarrow> AmiSana2Stats \<Rightarrow> AmiSana2Stats) \<Rightarrow> AmiRxSlot \<Rightarrow> AmiRxSlot" where
  "count_stat f slot = slot\<lparr>rs_stats := map_option (f (\<lambda>x. x + 1)) (rs_stats slot)\<rparr>"

definition ami_sana2_copy_to_buff ::
  "AmiRxSlot option \<Rightarrow> (int \<times> UBYTE list) option \<Rightarrow> ULONG \<Rightarrow> (bool \<times> AmiRxSlot option) option" where
  "ami_sana2_copy_to_buff to_slot from_mem len =
     (case (to_slot, from_mem) of
        (Some slot, Some (src, mem)) \<Rightarrow>
          (case (rs_packet slot, rs_dst slot) of
             (Some packet, Some dst) \<Rightarrow>
               if rs_capacity slot < len then Some (False, Some slot)
               else do {
                 let slot = count_stat rx_copy_hook_update (slot\<lparr>rs_summed := False, rs_rxflags := 0\<rparr>);
                 bytes \<leftarrow> rd_range mem 0 (unat len);
                 let aligned = even (pk_addr packet dst) \<and> even src;
                 let (out, acc) = (if aligned then copy_words_sum bytes
                                   else ami_sana2_copy_sum (pk_addr packet dst) src bytes);
                 m \<leftarrow> wr_range (pk_mem packet) dst out;
                 let slot = count_stat rx_copy_summed_update
                       (slot\<lparr>rs_packet := Some (packet\<lparr>pk_mem := m\<rparr>), rs_sum := acc, rs_summed := True\<rparr>);
                 let slot = (if aligned then slot else count_stat rx_copy_unaligned_update slot);
                 Some (True, Some (slot\<lparr>rs_copied := len\<rparr>))
               }
           | _ \<Rightarrow> Some (False, Some slot))
      | _ \<Rightarrow> Some (False, to_slot))"

definition ami_sana2_rx_direct :: "AmiRxSlot option \<Rightarrow> ULONG \<Rightarrow> nat option" where
  "ami_sana2_rx_direct to_slot len =
     (case to_slot of
        None \<Rightarrow> None
      | Some slot \<Rightarrow>
          if rs_packet slot = None \<or> rs_dst slot = None then None
          else if rs_capacity slot < len then None
          else rs_dst slot)"

abbreviation (input) ANXD_S2_RXF_SUMMED :: UBYTE where "ANXD_S2_RXF_SUMMED \<equiv> 1"

definition ami_sana2_rx_filled :: "AmiRxSlot option \<Rightarrow> ULONG \<Rightarrow> ULONG \<Rightarrow> UBYTE \<Rightarrow> AmiRxSlot option" where
  "ami_sana2_rx_filled to_slot len acc flags =
     map_option (\<lambda>slot.
       let slot = slot\<lparr>rs_copied := len\<rparr>;
           slot = (if rs_link_hdr_ok slot then slot\<lparr>rs_hdr_written := True\<rparr> else slot);
           slot = count_stat rx_direct_fill_update (count_stat rx_copy_hook_update slot);
           slot = (if flags AND ANXD_S2_RXF_SUMMED \<noteq> 0 then count_stat rx_copy_summed_update slot else slot)
       in slot\<lparr>rs_sum := acc, rs_summed := (flags AND ANXD_S2_RXF_SUMMED \<noteq> 0), rs_rxflags := flags\<rparr>) to_slot"

section \<open>The transmit checksum\<close>

record AmiTxSlot =
  ts_iface :: bool
  ts_packet :: "NX_PACKET list"
  ts_cursor :: "nat option"
  ts_cursor_off :: ULONG
  ts_consumed :: ULONG
  ts_total :: ULONG
  ts_hdr_len :: UWORD
  ts_pad_len :: UWORD

definition ami_sana2_tx_be16 :: "NX_PACKET \<Rightarrow> nat \<Rightarrow> ULONG option" where
  "ami_sana2_tx_be16 p i = map_option be_val (rd_range (pk_mem p) (pk_prepend p + i) 2)"

text \<open>Some header length and total length, if \<open>ip\<close> starts a whole IPv4 TCP segment.\<close>

definition ami_sana2_tx_tcp_segment :: "NX_PACKET \<Rightarrow> ULONG \<Rightarrow> (nat \<times> nat) option option" where
  "ami_sana2_tx_tcp_segment p len =
     (if len < 40 then Some None
      else do {
        b \<leftarrow> ip8 p 0;
        if b AND 0xF0 \<noteq> 0x40 then Some None
        else do {
          let ihl = unat (b AND 0x0F) * 4;
          if ihl < 20 \<or> unat len < ihl + 20 then Some None
          else do {
            pr \<leftarrow> ip8 p 9;
            if pr \<noteq> 6 then Some None
            else do {
              frag \<leftarrow> ami_sana2_tx_be16 p 6;
              if frag AND 0x3FFF \<noteq> 0 then Some None
              else do {
                t \<leftarrow> ami_sana2_tx_be16 p 2;
                let tot = unat t;
                Some (if unat len < tot \<or> tot < ihl + 20 then None else Some (ihl, tot))
              }
            }
          }
        }
      })"

definition ami_sana2_tx_pseudo_header :: "NX_PACKET \<Rightarrow> ULONG \<Rightarrow> ULONG option" where
  "ami_sana2_tx_pseudo_header p tcp_len = do {
     a \<leftarrow> ami_sana2_tx_be16 p 12;
     b \<leftarrow> ami_sana2_tx_be16 p 14;
     c \<leftarrow> ami_sana2_tx_be16 p 16;
     d \<leftarrow> ami_sana2_tx_be16 p 18;
     let s = a + b + c + d + (6 + tcp_len);
     let s = (s AND 0xFFFF) + drop_bit 16 s;
     Some ((s AND 0xFFFF) + drop_bit 16 s)
   }"

text \<open>\<^verbatim>\<open>while (sum >> 16)\<close>: fold until nothing is left above sixteen bits.\<close>

lemma fold_less: "drop_bit 16 (s :: ULONG) \<noteq> 0 \<Longrightarrow> unat ((s AND 0xFFFF) + drop_bit 16 s) < unat s"
proof -
  assume "drop_bit 16 s \<noteq> 0"
  then have "unat (drop_bit 16 s) \<noteq> 0" by (metis unat_eq_zero)
  then have "unat s div 65536 \<noteq> 0" by (metis unat_high_16)
  moreover have "unat s = unat s div 65536 * 65536 + unat s mod 65536" by simp
  ultimately have "unat s div 65536 + unat s mod 65536 < unat s" by linarith
  then show ?thesis using fold_step [of s] by (simp add: add.commute)
qed

function ami_sana2_gso_fold :: "ULONG \<Rightarrow> ULONG" where
  "ami_sana2_gso_fold s =
     (if drop_bit 16 s \<noteq> 0 then ami_sana2_gso_fold ((s AND 0xFFFF) + drop_bit 16 s) else s)"
  by pat_completeness auto
termination by (relation "measure unat") (simp_all add: fold_less)

declare ami_sana2_gso_fold.simps [simp del]

text \<open>The checksum of a summed segment: complemented, and never zero.\<close>

definition complement16 :: "ULONG \<Rightarrow> ULONG" where
  "complement16 s = (let s = NOT s AND 0xFFFF in if s = 0 then 0xFFFF else s)"

definition field16 :: "ULONG \<Rightarrow> UBYTE list" where
  "field16 s = [ucast (drop_bit 8 s), ucast (s AND 0xFF)]"

text \<open>
  The fused copy: the bytes written to \<open>out\<close> (at address \<open>out_at\<close>) and the slot, or \<open>None\<close> for the
  frames it leaves to the caller.
\<close>

definition ami_sana2_tx_fuse_checksum ::
  "'a AmiTxSlot_scheme \<Rightarrow> int \<Rightarrow> ULONG \<Rightarrow> (UBYTE list \<times> 'a AmiTxSlot_scheme) option option" where
  "ami_sana2_tx_fuse_checksum slot out_at len =
     (if \<not> ts_iface slot \<or> ts_hdr_len slot \<noteq> 0 then Some None
      else if len \<noteq> ts_total slot then Some None
      else case ts_packet slot of
        [pkt] \<Rightarrow> do {
          seg \<leftarrow> ami_sana2_tx_tcp_segment pkt len;
          (case seg of
             None \<Rightarrow> Some None
           | Some (ihl, tot) \<Rightarrow> do {
               let tcp_len = tot - ihl;
               head \<leftarrow> rd_range (pk_mem pkt) (pk_prepend pkt) ihl;
               bytes \<leftarrow> rd_range (pk_mem pkt) (pk_prepend pkt + ihl) tcp_len;
               let (body, acc) = ami_sana2_copy_sum (out_at + int ihl) (pk_addr pkt (pk_prepend pkt + ihl)) bytes;
               pad \<leftarrow> rd_range (pk_mem pkt) (pk_prepend pkt + tot) (unat len - tot);
               pseudo \<leftarrow> ami_sana2_tx_pseudo_header pkt (of_nat tcp_len);
               let acc = complement16 (ami_sana2_gso_fold (ami_sana2_gso_fold acc + pseudo));
               out \<leftarrow> wr_range (head @ body @ pad) (ihl + 16) (field16 acc);
               m \<leftarrow> wr_range (pk_mem pkt) (pk_prepend pkt + ihl + 16) (field16 acc);
               Some (Some (out, slot\<lparr>ts_packet := [pkt\<lparr>pk_mem := m\<rparr>], ts_consumed := len,
                                      ts_cursor := Some 0, ts_cursor_off := len\<rparr>))
             })
        }
      | _ \<Rightarrow> Some None)"

definition ami_sana2_tx_pseudo_sum :: "ULONG \<Rightarrow> NX_PACKET \<Rightarrow> (bool \<times> NX_PACKET) option" where
  "ami_sana2_tx_pseudo_sum tcp_tx pkt = do {
     seg \<leftarrow> ami_sana2_tx_tcp_segment pkt (pk_length pkt);
     (case seg of
        None \<Rightarrow> Some (False, pkt)
      | Some (ihl, tot) \<Rightarrow>
          if tot \<noteq> unat (pk_length pkt) then Some (False, pkt)
          else if unat (of_int (int (pk_append pkt) - int (pk_prepend pkt)) :: ULONG) < ihl + 20 then Some (False, pkt)
          else do {
            s \<leftarrow> ami_sana2_tx_pseudo_header pkt (of_nat (tot - ihl));
            m \<leftarrow> wr_range (pk_mem pkt) (pk_prepend pkt + ihl + 16) (field16 s);
            Some (True, pkt\<lparr>pk_mem := m, pk_capability := pk_capability pkt AND NOT tcp_tx\<rparr>)
          })
   }"

section \<open>Closing a sum\<close>

lemma unat_gso_fold: "unat (ami_sana2_gso_fold s) = ones (unat s)"
proof (induction s rule: ami_sana2_gso_fold.induct)
  case (1 s)
  define n where "n = unat s"
  show ?case
  proof (cases "drop_bit 16 s \<noteq> 0")
    case True
    have "unat ((s AND 0xFFFF) + drop_bit 16 s) = n div 65536 + n mod 65536"
      using fold_step [of s n] by (simp add: n_def add.commute)
    moreover have "ones (n div 65536 + n mod 65536) = ones n"
      by (rule eac_cong_mod) (auto simp: fold_mod div_eq_0_iff)
    ultimately show ?thesis using 1 [OF True] True by (simp add: ami_sana2_gso_fold.simps [of s] n_def)
  next
    case False
    then have "unat (drop_bit 16 s) = 0" by simp
    then have "unat s div 65536 = 0" by (simp only: unat_high_16)
    then have "unat s \<le> 65535" by (simp add: div_eq_0_iff)
    then show ?thesis using False by (simp add: ami_sana2_gso_fold.simps [of s] eac_small)
  qed
qed

lemma unat_complement16:
  assumes "unat s \<le> 65535"
  shows "unat (complement16 s) = (if unat s = 65535 then 65535 else 65535 - unat s)"
proof -
  have "unat (NOT s AND 0xFFFF) = (4294967295 - unat s) mod 65536"
    by (simp add: unat_and_ffff unat_complement)
  also have "4294967295 - unat s = 65535 - unat s + 65536 * 65535" using assms by simp
  also have "(65535 - unat s + 65536 * 65535) mod 65536 = 65535 - unat s"
    by (subst mod_mult_self2) simp
  finally have u: "unat (NOT s AND 0xFFFF) = 65535 - unat s" .
  then have "(NOT s AND 0xFFFF = 0) = (unat s = 65535)" using assms by (metis diff_is_0_eq le_antisym order_refl unat_eq_zero)
  then show ?thesis using u by (simp add: complement16_def Let_def)
qed

text \<open>The complement of the folded sum makes the sum good, whatever the sum was.\<close>

lemma checksum_closes:
  assumes "ones (unat s) = ones n"
  shows "sum_valid (n + unat (complement16 (ami_sana2_gso_fold s)))"
    and "unat (complement16 (ami_sana2_gso_fold s)) \<le> 65535"
proof -
  define r where "r = ones n"
  have r: "unat (ami_sana2_gso_fold s) = r" using assms by (simp add: unat_gso_fold r_def)
  have le: "r \<le> 65535" by (simp add: r_def eac_le)
  then have c: "unat (complement16 (ami_sana2_gso_fold s)) = (if r = 65535 then 65535 else 65535 - r)"
    using unat_complement16 [of "ami_sana2_gso_fold s"] by (simp add: r)
  then show "unat (complement16 (ami_sana2_gso_fold s)) \<le> 65535" by simp
  have "ones (n + unat (complement16 (ami_sana2_gso_fold s))) = ones (r + unat (complement16 (ami_sana2_gso_fold s)))"
    by (simp add: r_def)
  moreover have "sum_valid (r + unat (complement16 (ami_sana2_gso_fold s)))"
    using le by (simp add: c sum_valid_def)
  ultimately show "sum_valid (n + unat (complement16 (ami_sana2_gso_fold s)))" by (metis ones_valid)
qed

lemma be16_sum_field16:
  assumes "unat s \<le> 65535"
  shows "be16_sum (field16 s) = unat s"
proof -
  have "unat (ucast (drop_bit 8 s) :: UBYTE) = unat s div 256"
    using assms by (simp add: unsigned_ucast_eq take_bit_eq_mod unat_drop_bit_eq) (simp add: drop_bit_eq_div)
  moreover have "unat (ucast (s AND 0xFF) :: UBYTE) = unat s mod 256"
  proof -
    have "s AND 0xFF = take_bit 8 s" by (simp add: take_bit_eq_mask mask_numeral)
    then show ?thesis by (simp add: unsigned_ucast_eq unsigned_take_bit_eq take_bit_eq_mod unat_mod)
  qed
  ultimately show ?thesis by (simp add: field16_def)
qed

text \<open>Filling in a field that was zero adds its value.\<close>

definition fill2 :: "UBYTE list \<Rightarrow> nat \<Rightarrow> UBYTE list \<Rightarrow> UBYTE list" where
  "fill2 xs i v = take i xs @ v @ drop (i + 2) xs"

lemma length_fill2 [simp]: "i + 2 \<le> length xs \<Longrightarrow> length v = 2 \<Longrightarrow> length (fill2 xs i v) = length xs"
  by (simp add: fill2_def)

lemma be16_sum_fill2:
  assumes "even i" and "i + 2 \<le> length xs" and "xs ! i = 0" "xs ! (i + 1) = 0" and "length v = 2"
  shows "be16_sum (fill2 xs i v) = be16_sum xs + be16_sum v"
proof -
  have "xs = take i xs @ take 2 (drop i xs) @ drop (i + 2) xs"
    by (metis append_take_drop_id drop_drop add.commute)
  then have "xs = take i xs @ [0, 0] @ drop (i + 2) xs" using take2 [OF assms(2)] assms(3,4) by simp
  moreover have "even (length (take i xs))" using assms(1,2) by simp
  ultimately have "be16_sum xs = be16_sum (take i xs) + be16_sum (drop (i + 2) xs)"
    using be16_sum_append [of "take i xs" "[0, 0] @ drop (i + 2) xs"] by simp
  then show ?thesis
    using be16_sum_append [of "take i xs" "v @ drop (i + 2) xs"] be16_sum_append [of v "drop (i + 2) xs"]
      \<open>even (length (take i xs))\<close> assms(5)
    by (simp add: fill2_def)
qed

lemma fill2_take_drop:
  assumes "k \<le> i" and "i + 2 \<le> m + k" and "i + 2 \<le> length xs" and "length v = 2"
  shows "take m (drop k (fill2 xs i v)) = fill2 (take m (drop k xs)) (i - k) v"
proof -
  have "drop k (fill2 xs i v) = drop k (take i xs) @ v @ drop (i + 2) xs"
    using assms by (simp add: fill2_def)
  also have "drop k (take i xs) = take (i - k) (drop k xs)" by (simp add: drop_take)
  finally have "take m (drop k (fill2 xs i v)) = take (i - k) (drop k xs) @ v @ take (m + k - (i + 2)) (drop (i + 2) xs)"
    using assms by simp
  moreover have "take (i - k) (take m (drop k xs)) = take (i - k) (drop k xs)" using assms by simp
  moreover have "m - (i - k + 2) = m + k - (i + 2)" "k + (i - k + 2) = i + 2" using assms(1) by simp_all
  then have "drop (i - k + 2) (take m (drop k xs)) = take (m + k - (i + 2)) (drop (i + 2) xs)"
    by (simp only: drop_take drop_drop add.commute [of k])
  ultimately show ?thesis by (simp add: fill2_def)
qed

lemma fill2_outside:
  "j < i \<or> i + 2 \<le> j \<Longrightarrow> i + 2 \<le> length xs \<Longrightarrow> length v = 2 \<Longrightarrow> fill2 xs i v ! j = xs ! j"
proof (elim disjE)
  assume "i + 2 \<le> j" "length v = 2" "i + 2 \<le> length xs"
  moreover from this obtain d where "j = i + 2 + d" using le_Suc_ex by blast
  ultimately show ?thesis by (simp add: fill2_def nth_append)
qed (simp add: fill2_def nth_append)

lemma take_fill2: "m \<le> i \<Longrightarrow> i + 2 \<le> length xs \<Longrightarrow> take m (fill2 xs i v) = take m xs"
  by (simp add: fill2_def)

section \<open>The receive copy\<close>

lemma copy_to_buff_success:
  assumes "ami_sana2_copy_to_buff (Some slot) (Some (src, mem)) len = Some (True, Some slot')"
  obtains p d where "rs_packet slot = Some p" and "rs_dst slot = Some d" and "len \<le> rs_capacity slot"
    and "unat len \<le> length mem" and "d + unat len \<le> length (pk_mem p)"
    and "rs_packet slot' = Some (p\<lparr>pk_mem := take d (pk_mem p) @ take (unat len) mem @ drop (d + unat len) (pk_mem p)\<rparr>)"
    and "rs_dst slot' = Some d" and "rs_summed slot'" and "rs_copied slot' = len" and "rs_rxflags slot' = 0"
    and "rs_sum slot' = snd (ami_sana2_copy_sum (pk_addr p d) src (take (unat len) mem))"
proof -
  obtain p d where pd: "rs_packet slot = Some p" "rs_dst slot = Some d" "\<not> rs_capacity slot < len"
    using assms by (auto simp: ami_sana2_copy_to_buff_def split: option.splits if_splits)
  have words: "(if even (pk_addr p d) \<and> even src then copy_words_sum bytes else ami_sana2_copy_sum (pk_addr p d) src bytes)
      = (bytes, snd (ami_sana2_copy_sum (pk_addr p d) src bytes))" for bytes
    using copy_hook.copies [of "pk_addr p d" src bytes]
    by (auto simp: ami_sana2_copy_sum_def prod_eq_iff)
  show thesis
    by (rule that [OF pd(1,2)])
       (use assms pd in \<open>auto simp: ami_sana2_copy_to_buff_def Let_def words count_stat_def rd_range_def wr_range_def
          bind_eq_Some_conv not_less split: if_splits\<close>)
qed

text \<open>The copy hook, then the check: the answer is the specification's, for the bytes the device gave.\<close>

lemma copied_frame_verdict:
  assumes "ami_sana2_copy_to_buff (Some slot) (Some (src, mem)) len = Some (True, Some slot')"
    and "rs_packet slot' = Some p" and "rs_dst slot' = Some (pk_prepend q)" and "pk_mem q = pk_mem p"
    and "frame_ok q" and "unat len \<le> pk_size q"
  shows "map_option verdict_of (n68k_rx_verify_sum cap hot st q [] (rs_sum slot') (rs_copied slot')) =
         map_option verdict_of (n68k_rx_verify cap hot' st' q [])"
proof -
  define bytes where "bytes = take (unat len) mem"
  obtain p0 d where s: "unat len \<le> length mem" "d + unat len \<le> length (pk_mem p0)"
      "rs_packet slot' = Some (p0\<lparr>pk_mem := take d (pk_mem p0) @ bytes @ drop (d + unat len) (pk_mem p0)\<rparr>)"
      "rs_dst slot' = Some d" "rs_copied slot' = len"
      "rs_sum slot' = snd (ami_sana2_copy_sum (pk_addr p0 d) src bytes)"
    unfolding bytes_def by (rule copy_to_buff_success [OF assms(1)]) blast
  have len: "length bytes = unat len" using s(1) by (simp add: bytes_def)
  have "pk_mem q = take d (pk_mem p0) @ bytes @ drop (d + unat len) (pk_mem p0)" "pk_prepend q = d"
    using assms(2-4) s(3,4) by auto
  then have "take (length bytes) (pk_data q) = bytes"
    using s(2) len assms(6) by (simp add: pk_data_def min_absorb1)
  moreover have "length bytes < 2 ^ 32" using len unat_lt2p [of len] by simp
  moreover have "of_nat (length bytes) = rs_copied slot'" using len s(5) by (metis of_nat_unat ucast_id)
  ultimately show ?thesis
    using copy_hook.carried_verdict [OF assms(5), of bytes cap hot st "pk_addr p0 d" src hot' st'] s(6) by simp
qed

section \<open>The transmit checksum is right\<close>

lemma and_f0: "((b :: UBYTE) AND 0xF0 = 0x40) = (unat b div 16 = 4)"
proof -
  have f0: "(0xF0 :: UBYTE) = NOT (mask 4)" by (simp add: mask_numeral)
  have "b AND 0xF0 = push_bit 4 (drop_bit 4 b)"
    unfolding f0 by (rule bit_word_eqI) (auto simp: bit_simps)
  moreover have d: "unat (drop_bit 4 b) = unat b div 16" by (simp add: unat_drop_bit_eq) (simp add: drop_bit_eq_div)
  moreover have "unat (push_bit 4 (drop_bit 4 b)) = unat (drop_bit 4 b) * 16"
  proof -
    have "unat (drop_bit 4 b) * 16 < 2 ^ LENGTH(8)" using unat_lt2p [of b] d by simp
    then show ?thesis
      by (simp add: unsigned_push_bit_eq) (simp add: push_bit_eq_mult take_bit_eq_mod)
  qed
  ultimately have "unat (b AND 0xF0) = unat b div 16 * 16" by simp
  moreover have "(b AND 0xF0 = 0x40) = (unat (b AND 0xF0) = unat (0x40 :: UBYTE))" by (metis unsigned_word_eqI)
  ultimately show ?thesis by simp
qed

text \<open>The packet holds a contiguous frame at its prepend pointer.\<close>

definition holds :: "NX_PACKET \<Rightarrow> UBYTE list \<Rightarrow> bool" where
  "holds p f \<longleftrightarrow> pk_prepend p + length f \<le> length (pk_mem p) \<and>
     take (length f) (drop (pk_prepend p) (pk_mem p)) = f"

lemma holds_range:
  assumes "holds p f" and "i + n \<le> length f"
  shows "rd_range (pk_mem p) (pk_prepend p + i) n = Some (take n (drop i f))"
proof -
  have "take n (drop i f) = take n (drop i (take (length f) (drop (pk_prepend p) (pk_mem p))))"
    using assms(1) by (simp add: holds_def)
  also have "\<dots> = take n (drop (pk_prepend p + i) (pk_mem p))"
    using assms(2) by (simp add: drop_take min_absorb1 add.commute)
  finally show ?thesis using assms by (simp add: holds_def)
qed

lemma holds_ip8: "holds p f \<Longrightarrow> i < length f \<Longrightarrow> ip8 p i = Some (f ! i)"
proof -
  assume h: "holds p f" and i: "i < length f"
  define m where "m = drop (pk_prepend p) (pk_mem p)"
  have "take (length f) m ! i = m ! i" using i by simp
  moreover have "take (length f) m = f" using h by (simp add: holds_def m_def)
  ultimately have "f ! i = m ! i" by simp
  moreover have "m ! i = pk_mem p ! (pk_prepend p + i)" using h by (simp add: m_def holds_def)
  ultimately have "f ! i = pk_mem p ! (pk_prepend p + i)" by simp
  then show ?thesis using h i by (simp add: ip8_def holds_def)
qed

lemma holds_be16:
  assumes "holds p f" and "i + 2 \<le> length f"
  obtains w where "ami_sana2_tx_be16 p i = Some w" and "unat w = f16 f i"
  using holds_range [OF assms] assms(2) by (simp add: ami_sana2_tx_be16_def take2 unat_be_val2 f16_def)

text \<open>An IPv4 TCP datagram, whole and not a fragment: header length and total length.\<close>

definition tcp_shape :: "UBYTE list \<Rightarrow> (nat \<times> nat) option" where
  "tcp_shape f =
     (if 40 \<le> length f \<and> unat (f ! 0) div 16 = 4 \<and> 20 \<le> v4_ihl f \<and> v4_ihl f + 20 \<le> length f \<and>
         unat (f ! 9) = P_TCP \<and> f16 f 6 mod 16384 = 0 \<and> f16 f 2 \<le> length f \<and> v4_ihl f + 20 \<le> f16 f 2
      then Some (v4_ihl f, f16 f 2) else None)"

lemma tcp_segment_eq:
  assumes h: "holds p f" and len: "unat len = length f"
  shows "ami_sana2_tx_tcp_segment p len = Some (tcp_shape f)"
proof (cases "length f < 40")
  case True
  then show ?thesis by (simp add: ami_sana2_tx_tcp_segment_def tcp_shape_def word_less_nat_alt len)
next
  case False
  then have "6 + 2 \<le> length f" "2 + 2 \<le> length f" by simp_all
  then obtain g t where r: "ami_sana2_tx_be16 p 6 = Some g" "unat g = f16 f 6"
      "ami_sana2_tx_be16 p 2 = Some t" "unat t = f16 f 2"
    by (metis holds_be16 [OF h])
  have b: "ip8 p 0 = Some (f ! 0)" "ip8 p 9 = Some (f ! 9)" using False by (auto intro: holds_ip8 [OF h])
  have six: "(f ! 9 = 6) = (unat (f ! 9) = P_TCP)" using unsigned_word_eqI [of "f ! 9" 6] by auto
  have ihl: "unat (f ! 0 AND 0x0F) * 4 = v4_ihl f" by (simp add: and_0f v4_ihl_def)
  show ?thesis
    using False by (auto simp: ami_sana2_tx_tcp_segment_def tcp_shape_def word_less_nat_alt len b r and_f0 ihl six and_3fff Let_def)
qed

lemma pseudo_header_eq:
  assumes h: "holds p f" and "20 \<le> length f" and "unat tcp_len \<le> 65535"
  obtains w where "ami_sana2_tx_pseudo_header p tcp_len = Some w"
    and "unat w = ones (be16_sum (take 8 (drop 12 f)) + 6 + unat tcp_len)"
proof -
  have "12 + 2 \<le> length f" "14 + 2 \<le> length f" "16 + 2 \<le> length f" "18 + 2 \<le> length f" using assms(2) by simp_all
  then obtain a b c d where r: "ami_sana2_tx_be16 p 12 = Some a" "unat a = f16 f 12"
      "ami_sana2_tx_be16 p 14 = Some b" "unat b = f16 f 14" "ami_sana2_tx_be16 p 16 = Some c" "unat c = f16 f 16"
      "ami_sana2_tx_be16 p 18 = Some d" "unat d = f16 f 18"
    by (metis holds_be16 [OF h])
  have lt: "f16 f 12 < 65536" "f16 f 14 < 65536" "f16 f 16 < 65536" "f16 f 18 < 65536" by (rule f16_lt)+
  have sums: "unat (a + b) = f16 f 12 + f16 f 14" "unat (a + b + c) = f16 f 12 + f16 f 14 + f16 f 16"
      "unat (a + b + c + d) = f16 f 12 + f16 f 14 + f16 f 16 + f16 f 18" "unat (6 + tcp_len) = 6 + unat tcp_len"
    using r lt assms(3) by (simp_all add: unat_word_ariths)
  define s where "s = a + b + c + d + (6 + tcp_len)"
  have "unat s = f16 f 12 + f16 f 14 + f16 f 16 + f16 f 18 + (6 + unat tcp_len)"
    unfolding s_def using sums lt assms(3) by (subst unat_add_nowrap) simp_all
  also have "f16 f 12 + f16 f 14 + f16 f 16 + f16 f 18 = be16_sum (take 8 (drop 12 f))"
  proof -
    have two: "be16_sum (take 2 (drop i f)) = f16 f i" if "i \<le> 18" for i
      using that assms(2) by (simp add: take2 f16_def)
    show ?thesis
      using be16_sum_cut [of 2 "drop 12 f" 6] be16_sum_cut [of 2 "drop 14 f" 4] be16_sum_cut [of 2 "drop 16 f" 2]
        two [of 12] two [of 14] two [of 16] two [of 18] assms(2)
      by (simp add: le_diff_conv2)
  qed
  finally have "unat s = be16_sum (take 8 (drop 12 f)) + 6 + unat tcp_len" by simp
  moreover have "ami_sana2_tx_pseudo_header p tcp_len = Some (n68k_rxv_fold s)"
    by (simp add: ami_sana2_tx_pseudo_header_def r s_def n68k_rxv_fold_def Let_def)
  ultimately show thesis using that by (simp add: rxv_fold_eq unat_n68k_fold)
qed

lemma length_field16 [simp]: "length (field16 s) = 2"
  by (simp add: field16_def)

lemma holds_fill2:
  assumes h: "holds p f" and "i + 2 \<le> length f" and "length v = 2"
  obtains m where "wr_range (pk_mem p) (pk_prepend p + i) v = Some m" and "holds (p\<lparr>pk_mem := m\<rparr>) (fill2 f i v)"
    and "length m = length (pk_mem p)"
proof -
  define b0 where "b0 = pk_prepend p"
  define m where "m = fill2 (pk_mem p) (b0 + i) v"
  have room: "b0 + length f \<le> length (pk_mem p)" using h unfolding holds_def b0_def by blast
  then have "wr_range (pk_mem p) (b0 + i) v = Some m"
    using assms(2,3) by (simp add: m_def fill2_def wr_range_def)
  moreover have "take (length f) (drop b0 m) = fill2 f i v"
    using fill2_take_drop [of b0 "b0 + i" "length f" "pk_mem p" v] room assms h
    by (simp add: m_def holds_def b0_def)
  moreover have "length m = length (pk_mem p)" using room assms by (simp add: m_def)
  ultimately show thesis using that [of m] room assms by (simp add: holds_def b0_def)
qed

lemma fuse_eq:
  assumes slot: "ts_iface slot" "ts_hdr_len slot = 0" "ts_total slot = len" "ts_packet slot = [p]"
    and h: "holds p f" and len: "unat len = length f" and shape: "tcp_shape f = Some (ihl, tot)"
    and zero: "f ! (ihl + 16) = 0" "f ! (ihl + 17) = 0"
  obtains c m where "ami_sana2_tx_fuse_checksum slot out_at len =
      Some (Some (fill2 f (ihl + 16) (field16 c),
                  slot\<lparr>ts_packet := [p\<lparr>pk_mem := m\<rparr>], ts_consumed := len, ts_cursor := Some 0, ts_cursor_off := len\<rparr>))"
    and "holds (p\<lparr>pk_mem := m\<rparr>) (fill2 f (ihl + 16) (field16 c))"
    and "unat c \<le> 65535"
    and "transport_valid (take 8 (drop 12 f)) P_TCP (take (tot - ihl) (drop ihl (fill2 f (ihl + 16) (field16 c))))"
proof -
  have sh: "40 \<le> length f" "20 \<le> ihl" "tot \<le> length f" "ihl + 20 \<le> tot" "ihl = v4_ihl f" "tot = f16 f 2"
    using shape by (auto simp: tcp_shape_def split: if_splits)
  define n where "n = tot - ihl"
  define seg where "seg = take n (drop ihl f)"
  have n: "ihl + n \<le> length f" "18 \<le> n" "n \<le> 65535" using sh f16_lt [of f 2] by (simp_all add: n_def)
  have n32: "unat (of_nat n :: ULONG) = n" using n(3) by (simp add: unat_of_nat)
  define acc where "acc = snd (ami_sana2_copy_sum (out_at + int ihl) (pk_addr p (pk_prepend p + ihl)) seg)"
  have copy: "ami_sana2_copy_sum (out_at + int ihl) (pk_addr p (pk_prepend p + ihl)) seg = (seg, acc)"
    using copy_hook.copies by (simp add: acc_def prod_eq_iff)
  have acc: "ones (unat acc) = ones (be16_sum seg)" unfolding acc_def by (rule copy_hook.sums)
  have "20 \<le> length f" "unat (of_nat n :: ULONG) \<le> 65535" using sh n n32 by simp_all
  then obtain w where "ami_sana2_tx_pseudo_header p (of_nat n) = Some w"
      "unat w = ones (be16_sum (take 8 (drop 12 f)) + 6 + unat (of_nat n :: ULONG))"
    by (rule pseudo_header_eq [OF h])
  then have w: "ami_sana2_tx_pseudo_header p (of_nat n) = Some w"
      "unat w = ones (be16_sum (take 8 (drop 12 f)) + 6 + n)" by (simp_all only: n32)
  define s where "s = ami_sana2_gso_fold acc + w"
  define c where "c = complement16 (ami_sana2_gso_fold s)"
  have "unat (ami_sana2_gso_fold acc) \<le> 65535" "unat w \<le> 65535"
    by (simp_all add: unat_gso_fold w(2) eac_le)
  then have "unat s = unat (ami_sana2_gso_fold acc) + unat w" unfolding s_def by (intro unat_add_nowrap) simp
  then have "ones (unat s) = ones (be16_sum seg + (be16_sum (take 8 (drop 12 f)) + 6 + n))"
    using acc by (simp add: unat_gso_fold w(2))
  from checksum_closes [OF this] have c: "sum_valid (be16_sum seg + (be16_sum (take 8 (drop 12 f)) + 6 + n) + unat c)"
      "unat c \<le> 65535" by (simp_all add: c_def)
  have room: "ihl + 16 + 2 \<le> length f" using n by simp
  obtain m where m: "wr_range (pk_mem p) (pk_prepend p + (ihl + 16)) (field16 c) = Some m"
      "holds (p\<lparr>pk_mem := m\<rparr>) (fill2 f (ihl + 16) (field16 c))"
    by (rule holds_fill2 [OF h room length_field16])
  have parts: "take ihl f @ seg @ drop tot f = f"
  proof -
    have "seg @ drop tot f = drop ihl f"
      using sh by (simp add: seg_def n_def) (metis append_take_drop_id drop_drop le_add_diff_inverse2 add_leD1 add.commute)
    then show ?thesis by simp
  qed
  have "wr_range f (ihl + 16) (field16 c) = Some (fill2 f (ihl + 16) (field16 c))"
    using room by (simp add: wr_range_def fill2_def)
  moreover have "rd_range (pk_mem p) (pk_prepend p) ihl = Some (take ihl f)"
      "rd_range (pk_mem p) (pk_prepend p + ihl) n = Some seg"
      "rd_range (pk_mem p) (pk_prepend p + tot) (length f - tot) = Some (take (length f - tot) (drop tot f))"
    using holds_range [OF h, of 0 ihl] holds_range [OF h, of ihl n] holds_range [OF h, of tot "length f - tot"] n sh
    by (simp_all add: seg_def)
  ultimately have run: "ami_sana2_tx_fuse_checksum slot out_at len =
      Some (Some (fill2 f (ihl + 16) (field16 c),
                  slot\<lparr>ts_packet := [p\<lparr>pk_mem := m\<rparr>], ts_consumed := len, ts_cursor := Some 0, ts_cursor_off := len\<rparr>))"
    using slot m(1) w(1) copy tcp_segment_eq [OF h len] shape
    by (simp add: ami_sana2_tx_fuse_checksum_def n_def [symmetric] len s_def [symmetric] c_def [symmetric] parts add.assoc Let_def)
  have "take n (drop ihl (fill2 f (ihl + 16) (field16 c))) = fill2 seg 16 (field16 c)"
    using fill2_take_drop [of ihl "ihl + 16" n f "field16 c"] n by (simp add: seg_def)
  moreover have "be16_sum (fill2 seg 16 (field16 c)) = be16_sum seg + unat c"
    using n zero be16_sum_fill2 [of 16 seg "field16 c"] be16_sum_field16 [OF c(2)] by (simp add: seg_def add.commute)
  moreover have "length (fill2 seg 16 (field16 c)) = n" using n by (simp add: seg_def)
  ultimately have "transport_valid (take 8 (drop 12 f)) P_TCP (take n (drop ihl (fill2 f (ihl + 16) (field16 c))))"
    using c(1) by (simp add: transport_valid_def ac_simps)
  then show thesis using that [OF run m(2) c(2)] by (simp add: n_def)
qed

text \<open>A good TCP datagram passes the receive check with both bits.\<close>

lemma tcp_accepted:
  assumes shape: "tcp_shape g = Some (ihl, tot)" and head: "sum_valid (be16_sum (take ihl g))"
    and seg: "transport_valid (take 8 (drop 12 g)) P_TCP (take (tot - ihl) (drop ihl g))"
  shows "frame_verdict cap g = (CAP_IPV4_RX cap OR CAP_TCP_RX cap, False)"
proof -
  have sh: "40 \<le> length g" "unat (g ! 0) div 16 = 4" "20 \<le> ihl" "ihl + 20 \<le> length g" "unat (g ! 9) = P_TCP"
      "f16 g 6 mod 16384 = 0" "tot \<le> length g" "ihl + 20 \<le> tot" "v4_ihl g = ihl" "f16 g 2 = tot"
    using shape by (auto simp: tcp_shape_def split: if_splits)
  then have "v4_checkable g" by (simp add: v4_checkable_def)
  moreover have "v4_segment_valid g" using sh seg by (simp add: v4_segment_valid_def Let_def)
  ultimately show ?thesis using sh head by (simp add: frame_verdict_def v4_verdict_def v4_bit_def)
qed

lemma f16_fill2: "j + 2 \<le> i \<or> i + 2 \<le> j \<Longrightarrow> i + 2 \<le> length f \<Longrightarrow> length v = 2 \<Longrightarrow> f16 (fill2 f i v) j = f16 f j"
  by (auto simp: f16_def fill2_outside)

lemma tcp_shape_fill2:
  assumes "tcp_shape f = Some (ihl, tot)" and "length v = 2"
  shows "tcp_shape (fill2 f (ihl + 16) v) = Some (ihl, tot)"
proof -
  have sh: "20 \<le> ihl" "ihl + 20 \<le> length f" "v4_ihl f = ihl"
    using assms(1) by (auto simp: tcp_shape_def split: if_splits)
  then have "fill2 f (ihl + 16) v ! 0 = f ! 0" "fill2 f (ihl + 16) v ! 9 = f ! 9" "length (fill2 f (ihl + 16) v) = length f"
      "f16 (fill2 f (ihl + 16) v) 6 = f16 f 6" "f16 (fill2 f (ihl + 16) v) 2 = f16 f 2"
    using assms(2) by (simp_all add: fill2_outside f16_fill2)
  moreover from this have "v4_ihl (fill2 f (ihl + 16) v) = v4_ihl f" by (simp add: v4_ihl_def)
  ultimately have "tcp_shape (fill2 f (ihl + 16) v) = tcp_shape f" by (simp only: tcp_shape_def)
  then show ?thesis using assms(1) by simp
qed

lemma head_fill2:
  assumes "20 \<le> ihl" and "ihl + 18 \<le> length f" and "length v = 2"
  shows "take ihl (fill2 f (ihl + 16) v) = take ihl f"
    and "take 8 (drop 12 (fill2 f (ihl + 16) v)) = take 8 (drop 12 f)"
proof -
  show "take ihl (fill2 f (ihl + 16) v) = take ihl f" using assms by (intro take_fill2) simp_all
  have "take 20 (fill2 f (ihl + 16) v) = take 20 f" using assms by (intro take_fill2) simp_all
  then have "drop 12 (take 20 (fill2 f (ihl + 16) v)) = drop 12 (take 20 f)" by simp
  then show "take 8 (drop 12 (fill2 f (ihl + 16) v)) = take 8 (drop 12 f)" by (simp add: drop_take)
qed

lemma fused_accepted:
  assumes slot: "ts_iface slot" "ts_hdr_len slot = 0" "ts_total slot = len" "ts_packet slot = [p]"
    and h: "holds p f" and len: "unat len = length f" and shape: "tcp_shape f = Some (ihl, tot)"
    and zero: "f ! (ihl + 16) = 0" "f ! (ihl + 17) = 0" and head: "sum_valid (be16_sum (take ihl f))"
  obtains c slot' q where "ami_sana2_tx_fuse_checksum slot out_at len = Some (Some (fill2 f (ihl + 16) c, slot'))"
    and "length c = 2" and "ts_packet slot' = [q]" and "holds q (fill2 f (ihl + 16) c)"
    and "frame_verdict cap (fill2 f (ihl + 16) c) = (CAP_IPV4_RX cap OR CAP_TCP_RX cap, False)"
proof -
  obtain c m where run: "ami_sana2_tx_fuse_checksum slot out_at len =
      Some (Some (fill2 f (ihl + 16) (field16 c),
                  slot\<lparr>ts_packet := [p\<lparr>pk_mem := m\<rparr>], ts_consumed := len, ts_cursor := Some 0, ts_cursor_off := len\<rparr>))"
    and q: "holds (p\<lparr>pk_mem := m\<rparr>) (fill2 f (ihl + 16) (field16 c))"
    and tv: "transport_valid (take 8 (drop 12 f)) P_TCP (take (tot - ihl) (drop ihl (fill2 f (ihl + 16) (field16 c))))"
    by (rule fuse_eq [OF slot h len shape zero])
  have "20 \<le> ihl" "ihl + 18 \<le> length f" using shape by (auto simp: tcp_shape_def split: if_splits)
  note hd = head_fill2 [OF this length_field16]
  have "frame_verdict cap (fill2 f (ihl + 16) (field16 c)) = (CAP_IPV4_RX cap OR CAP_TCP_RX cap, False)"
    using tcp_shape_fill2 [OF shape length_field16] head tv by (intro tcp_accepted) (simp_all add: hd)
  then show thesis using that [OF run length_field16 _ q] by simp
qed

text \<open>
  Left to the card: the field gets the pseudo header's sum, and the sum the card then takes over the
  segment is the whole checksum's.
\<close>

lemma card_sum_eq:
  assumes h: "holds p f" and len: "unat (pk_length p) = length f" and room: "length f \<le> pk_append p - pk_prepend p"
    and small: "pk_append p < 2 ^ 32"
    and shape: "tcp_shape f = Some (ihl, length f)" and zero: "f ! (ihl + 16) = 0" "f ! (ihl + 17) = 0"
  obtains q c where "ami_sana2_tx_pseudo_sum tcp_tx p = Some (True, q)" and "holds q (fill2 f (ihl + 16) c)"
    and "length c = 2" and "pk_capability q = pk_capability p AND NOT tcp_tx"
    and "ones (be16_sum (drop ihl (fill2 f (ihl + 16) c))) =
         ones (be16_sum (take 8 (drop 12 f)) + 6 + (length f - ihl) + be16_sum (drop ihl f))"
proof -
  have sh: "40 \<le> length f" "20 \<le> ihl" "ihl + 20 \<le> length f" "v4_ihl f = ihl" "f16 f 2 = length f"
    using shape by (auto simp: tcp_shape_def split: if_splits)
  define n where "n = length f - ihl"
  have n: "n \<le> 65535" using sh(5) f16_lt [of f 2] by (simp add: n_def)
  have n32: "unat (of_nat n :: ULONG) = n" using n by (simp add: unat_of_nat)
  have "20 \<le> length f" "unat (of_nat n :: ULONG) \<le> 65535" using sh n n32 by simp_all
  then obtain w where w: "ami_sana2_tx_pseudo_header p (of_nat n) = Some w"
      "unat w = ones (be16_sum (take 8 (drop 12 f)) + 6 + unat (of_nat n :: ULONG))"
    by (rule pseudo_header_eq [OF h])
  have field: "ihl + 16 + 2 \<le> length f" using sh by simp
  obtain m where m: "wr_range (pk_mem p) (pk_prepend p + (ihl + 16)) (field16 w) = Some m"
      "holds (p\<lparr>pk_mem := m\<rparr>) (fill2 f (ihl + 16) (field16 w))"
    by (rule holds_fill2 [OF h field length_field16])
  have le: "unat w \<le> 65535" by (simp add: w(2) eac_le)
  have app: "ihl + 20 \<le> unat (of_int (int (pk_append p) - int (pk_prepend p)) :: ULONG)"
  proof -
    define k where "k = pk_append p - pk_prepend p"
    have "ihl + 20 \<le> k" using sh(3) room by (simp add: k_def)
    then have "of_int (int (pk_append p) - int (pk_prepend p)) = (of_nat k :: ULONG)" by (simp add: k_def of_nat_diff)
    moreover have "k < 2 ^ 32" using small by (simp add: k_def)
    ultimately show ?thesis using \<open>ihl + 20 \<le> k\<close> by (simp add: unat_of_nat)
  qed
  have run: "ami_sana2_tx_pseudo_sum tcp_tx p =
      Some (True, p\<lparr>pk_mem := m, pk_capability := pk_capability p AND NOT tcp_tx\<rparr>)"
    using tcp_segment_eq [OF h len] shape len app m(1) w(1)
    by (simp add: ami_sana2_tx_pseudo_sum_def n_def add.assoc not_less)
  have "drop ihl (fill2 f (ihl + 16) (field16 w)) = fill2 (drop ihl f) 16 (field16 w)"
    using fill2_take_drop [of ihl "ihl + 16" n f "field16 w"] sh by (simp add: n_def)
  moreover have "be16_sum (fill2 (drop ihl f) 16 (field16 w)) = be16_sum (drop ihl f) + unat w"
    using sh zero be16_sum_fill2 [of 16 "drop ihl f" "field16 w"] be16_sum_field16 [OF le] by (simp add: add.commute)
  ultimately have "ones (be16_sum (drop ihl (fill2 f (ihl + 16) (field16 w))))
      = ones (be16_sum (take 8 (drop 12 f)) + 6 + n + be16_sum (drop ihl f))"
    using w(2) n32 by (simp add: add.commute)
  then show thesis
    using that [OF run _ length_field16] m(2) by (simp add: n_def holds_def)
qed

end
