(* ===== verification/Sana2_Gso.thy ===== *)
theory Sana2_Gso
  imports Sana2_Copy
begin

text \<open>
  TCP segmentation in the transmit copy, \<^verbatim>\<open>src/sana2/sana2_copy.c\<close>: a block of payload under one pair
  of headers goes out as several frames, each cut from the parent while the device copies it, and the
  chunked transmit copy of an ordinary frame. The build has \<^verbatim>\<open>AMINETXDUO_TCP_GSO\<close> and
  \<^verbatim>\<open>AMINETXDUO_TX_BATCH\<close>.

  The parent is a chain of packets, the list \<open>chain\<close>; a pointer into it is an index, \<open>None\<close> the null
  pointer. The fields of the block's context are at most sixteen bits wide and are natural numbers, the
  casts of the code written out, and the fields by which the transmit queue counts the children of a
  block are left to the queue; \<open>info\<close> is the record that NetX Duo leaves in front of the headroom, and
  \<open>api\<close> has the vendor's constants for it.
\<close>

section \<open>The block\<close>

record gso_api =
  NX_TCP_GSO_VERSION :: nat
  NX_TCP_GSO_REPAIR :: nat
  gso_info_size :: nat

record NX_TCP_GSO_INFO =
  info_mss :: nat
  info_version :: nat
  info_flags :: nat
  info_offset :: nat
  info_length :: nat

record AmiTxGso =
  g_cur_buf :: "nat option"
  g_cur_start :: int
  g_base :: nat
  g_end :: nat
  g_mss :: nat
  g_ihl :: nat
  g_thl :: nat
  g_segs :: nat
  g_next_seg :: nat
  g_repair :: bool
  g_tail :: bool

abbreviation (input) AMI_SANA2_GSO_MAX_SEGS :: nat where "AMI_SANA2_GSO_MAX_SEGS \<equiv> 255"
abbreviation (input) AMI_TCP_FIN :: UBYTE where "AMI_TCP_FIN \<equiv> 0x01"
abbreviation (input) AMI_TCP_SYN :: UBYTE where "AMI_TCP_SYN \<equiv> 0x02"
abbreviation (input) AMI_TCP_RST :: UBYTE where "AMI_TCP_RST \<equiv> 0x04"
abbreviation (input) AMI_TCP_PSH :: UBYTE where "AMI_TCP_PSH \<equiv> 0x08"
abbreviation (input) AMI_TCP_URG :: UBYTE where "AMI_TCP_URG \<equiv> 0x20"
abbreviation (input) AMI_TCP_CWR :: UBYTE where "AMI_TCP_CWR \<equiv> 0x80"

text \<open>Child \<open>seg\<close>'s payload offset and length; the subtraction is a \<^verbatim>\<open>ULONG\<close>'s.\<close>

definition ami_sana2_gso_slice :: "AmiTxGso \<Rightarrow> nat \<Rightarrow> nat \<times> nat" where
  "ami_sana2_gso_slice g seg =
     (let off = g_base g + seg * g_mss g; len = (g_end g + 2 ^ 32 - off) mod 2 ^ 32
      in (off, if g_mss g < len then g_mss g else len))"

text \<open>Whether the record asks for a repair, if it is one the interface knows.\<close>

definition info_mode :: "gso_api \<Rightarrow> NX_TCP_GSO_INFO \<Rightarrow> nat \<Rightarrow> bool option" where
  "info_mode api info room =
     (if info_version info = 1 then (if info_flags info \<noteq> 0 then None else Some False)
      else if info_version info = NX_TCP_GSO_VERSION api \<and> gso_info_size api \<le> room
      then if info_flags info = NX_TCP_GSO_REPAIR api then Some True
           else if info_flags info \<noteq> 0 \<or> info_offset info \<noteq> 0 \<or> info_length info \<noteq> 0 then None
           else Some False
      else None)"

definition gso_extent :: "NX_TCP_GSO_INFO \<Rightarrow> bool \<Rightarrow> nat \<Rightarrow> (nat \<times> nat \<times> nat) option" where
  "gso_extent info repair payload =
     (if repair
      then let fin = info_offset info + info_length info
           in if info_length info = 0 \<or> info_mss info < info_length info \<or> payload < fin then None
              else Some (info_offset info, fin, 1)
      else let segs = (payload + info_mss info - 1) div info_mss info
           in if AMI_SANA2_GSO_MAX_SEGS < segs then None else Some (0, payload, segs))"

definition ami_sana2_gso_parse ::
  "gso_api \<Rightarrow> NX_TCP_GSO_INFO \<Rightarrow> NX_PACKET \<Rightarrow> nat \<Rightarrow> AmiTxGso \<Rightarrow> AmiTxGso option option" where
  "ami_sana2_gso_parse api info p mtu g =
     (let room = pk_prepend p; first = pk_append p - pk_prepend p in
      if room < 4 \<or> info_mss info = 0 then Some None
      else case info_mode api info room of
        None \<Rightarrow> Some None
      | Some repair \<Rightarrow>
          if first < 40 then Some None
          else do {
            b \<leftarrow> ip8 p 0;
            pr \<leftarrow> ip8 p 9;
            let ihl = unat (b AND 0x0F) * 4;
            if b AND 0xF0 \<noteq> 0x40 \<or> pr \<noteq> 6 \<or> ihl < 20 \<or> first < ihl + 20 then Some None
            else do {
              frag \<leftarrow> ami_sana2_tx_be16 p 6;
              doff \<leftarrow> ip8 p (ihl + 12);
              flags \<leftarrow> ip8 p (ihl + 13);
              let thl = unat (drop_bit 4 doff) * 4;
              let len = unat (pk_length p);
              if frag AND 0x3FFF \<noteq> 0 \<or> thl < 20 \<or> first < ihl + thl
                 \<or> flags AND (AMI_TCP_SYN OR AMI_TCP_RST OR AMI_TCP_URG) \<noteq> 0
                 \<or> len \<le> ihl + thl \<or> 0xFFFF < len \<or> (mtu \<noteq> 0 \<and> mtu < ihl + thl + info_mss info)
              then Some None
              else case gso_extent info repair (len - ihl - thl) of
                None \<Rightarrow> Some None
              | Some (base, fin, segs) \<Rightarrow>
                  Some (Some (g\<lparr>g_cur_buf := Some 0, g_cur_start := - int (ihl + thl),
                                g_base := base mod 65536, g_end := fin mod 65536,
                                g_repair := repair, g_tail := (repair \<and> fin = len - ihl - thl),
                                g_mss := info_mss info, g_ihl := ihl, g_thl := thl, g_segs := segs mod 256\<rparr>))
            }
          })"

section \<open>A child's headers\<close>

record AmiGsoFields =
  f_seq :: ULONG
  f_seg_len :: nat
  f_ip_len :: UWORD
  f_ip_id :: UWORD
  f_ip_sum :: UWORD
  f_flags :: UBYTE

definition gso_flags :: "AmiTxGso \<Rightarrow> nat \<Rightarrow> UBYTE \<Rightarrow> UBYTE" where
  "gso_flags g seg flags =
     (if g_repair g
      then let flags = flags AND NOT (AMI_TCP_FIN OR AMI_TCP_CWR)
           in if \<not> g_tail g then flags AND NOT AMI_TCP_PSH else flags
      else let flags = (if seg + 1 < g_segs g then flags AND NOT (AMI_TCP_FIN OR AMI_TCP_PSH) else flags)
           in if seg \<noteq> 0 then flags AND NOT AMI_TCP_CWR else flags)"

definition ami_sana2_gso_fields :: "AmiTxGso \<Rightarrow> nat \<Rightarrow> NX_PACKET \<Rightarrow> AmiGsoFields option" where
  "ami_sana2_gso_fields g seg p = do {
     let (seg_off, seg_len) = ami_sana2_gso_slice g seg;
     old_len \<leftarrow> ami_sana2_tx_be16 p 2;
     old_id \<leftarrow> ami_sana2_tx_be16 p 4;
     flags \<leftarrow> ip8 p (g_ihl g + 13);
     let ip_len = (of_nat (g_ihl g + g_thl g + seg_len) :: UWORD);
     let ip_id = (ucast (old_id + of_nat seg) :: UWORD);
     hc \<leftarrow> ami_sana2_tx_be16 p 10;
     let s = NOT hc AND 0xFFFF;
     let s = s + ((NOT old_len AND 0xFFFF) + ucast ip_len);
     let s = s + ((NOT old_id AND 0xFFFF) + ucast ip_id);
     hi \<leftarrow> ami_sana2_tx_be16 p (g_ihl g + 4);
     lo \<leftarrow> ami_sana2_tx_be16 p (g_ihl g + 6);
     Some \<lparr>f_seq = (push_bit 16 hi OR lo) + of_nat seg_off, f_seg_len = seg_len, f_ip_len = ip_len, f_ip_id = ip_id,
           f_ip_sum = ucast (NOT (ami_sana2_gso_fold s) AND 0xFFFF), f_flags = gso_flags g seg flags\<rparr>
   }"

definition ami_sana2_gso_poke :: "nat \<Rightarrow> nat \<Rightarrow> nat \<Rightarrow> UBYTE \<Rightarrow> UBYTE list \<Rightarrow> UBYTE list" where
  "ami_sana2_gso_poke frm to at v out = (if frm \<le> at \<and> at < to then out[at - frm := v] else out)"

definition ami_sana2_gso_put16 :: "int \<Rightarrow> nat \<Rightarrow> UWORD \<Rightarrow> UBYTE list \<Rightarrow> UBYTE list option" where
  "ami_sana2_gso_put16 out_at i v out = (if odd (out_at + int i) then None else wr_range out i (be16 v))"

definition ami_sana2_gso_put32 :: "int \<Rightarrow> nat \<Rightarrow> ULONG \<Rightarrow> UBYTE list \<Rightarrow> UBYTE list option" where
  "ami_sana2_gso_put32 out_at i v out = (if odd (out_at + int i) then None else wr_range out i (be32 v))"

definition emit_direct :: "nat \<Rightarrow> AmiGsoFields \<Rightarrow> UWORD \<Rightarrow> int \<Rightarrow> UBYTE list \<Rightarrow> UBYTE list option" where
  "emit_direct t f tcp_sum out_at out = do {
     out \<leftarrow> ami_sana2_gso_put16 out_at 2 (f_ip_len f) out;
     out \<leftarrow> ami_sana2_gso_put16 out_at 4 (f_ip_id f) out;
     out \<leftarrow> ami_sana2_gso_put16 out_at 10 (f_ip_sum f) out;
     out \<leftarrow> (if (out_at + int (t + 4)) mod 4 = 0 then ami_sana2_gso_put32 out_at (t + 4) (f_seq f) out
            else do {
              out \<leftarrow> ami_sana2_gso_put16 out_at (t + 4) (ucast (drop_bit 16 (f_seq f))) out;
              ami_sana2_gso_put16 out_at (t + 6) (ucast (f_seq f)) out
            });
     out \<leftarrow> wr_range out (t + 13) [f_flags f];
     ami_sana2_gso_put16 out_at (t + 16) tcp_sum out
   }"

definition emit_pokes :: "nat \<Rightarrow> AmiGsoFields \<Rightarrow> UWORD \<Rightarrow> nat \<Rightarrow> nat \<Rightarrow> UBYTE list \<Rightarrow> UBYTE list" where
  "emit_pokes t f tcp_sum frm to out =
     (let poke = ami_sana2_gso_poke frm to in
      (poke (t + 17) (ucast tcp_sum) \<circ> poke (t + 16) (ucast (drop_bit 8 tcp_sum)) \<circ> poke (t + 13) (f_flags f) \<circ>
       poke (t + 7) (ucast (f_seq f)) \<circ> poke (t + 6) (ucast (drop_bit 8 (f_seq f))) \<circ>
       poke (t + 5) (ucast (drop_bit 16 (f_seq f))) \<circ> poke (t + 4) (ucast (drop_bit 24 (f_seq f))) \<circ>
       poke 11 (ucast (f_ip_sum f)) \<circ> poke 10 (ucast (drop_bit 8 (f_ip_sum f))) \<circ>
       poke 5 (ucast (f_ip_id f)) \<circ> poke 4 (ucast (drop_bit 8 (f_ip_id f))) \<circ>
       poke 3 (ucast (f_ip_len f)) \<circ> poke 2 (ucast (drop_bit 8 (f_ip_len f)))) out)"

definition ami_sana2_gso_emit ::
  "AmiTxGso \<Rightarrow> NX_PACKET \<Rightarrow> AmiGsoFields \<Rightarrow> UWORD \<Rightarrow> int \<Rightarrow> nat \<Rightarrow> nat \<Rightarrow> UBYTE list option" where
  "ami_sana2_gso_emit g p f tcp_sum out_at frm to = do {
     out \<leftarrow> rd_range (pk_mem p) (pk_prepend p + frm) (to - frm);
     if frm = 0 \<and> g_ihl g + 18 \<le> to \<and> even out_at then emit_direct (g_ihl g) f tcp_sum out_at out
     else Some (emit_pokes (g_ihl g) f tcp_sum frm to out)
   }"

section \<open>The payload\<close>

fun gso_bytes :: "nat \<Rightarrow> UBYTE list \<Rightarrow> ULONG \<Rightarrow> ULONG" where
  "gso_bytes i [] s = s"
| "gso_bytes i (b # bs) s = gso_bytes (i + 1) bs (add_carry s (if odd i then ucast b else push_bit 8 (ucast b)))"

definition swap16 :: "ULONG \<Rightarrow> ULONG" where
  "swap16 s = (push_bit 8 s OR drop_bit 8 s) AND 0xFFFF"

text \<open>
  One run summed, and copied if there is a destination: what is written is the run itself, so only
  the sum is returned.
\<close>

definition ami_sana2_gso_copy_sum :: "int option \<Rightarrow> int \<Rightarrow> UBYTE list \<Rightarrow> ULONG" where
  "ami_sana2_gso_copy_sum to src bytes =
     (let lead = (to = None \<and> odd src \<and> bytes \<noteq> []);
          rest = (if lead then tl bytes else bytes);
          words = (case to of None \<Rightarrow> length rest div 4
                   | Some d \<Rightarrow> if even d \<and> even src then length rest div 4 else 0);
          s = ami_sana2_gso_fold (gso_bytes (4 * words) (drop (4 * words) rest)
                (n68k_sum_longwords (longwords (take (4 * words) rest))))
      in if lead then ami_sana2_gso_fold (push_bit 8 (ucast (hd bytes)) + swap16 s) else s)"

text \<open>
  The walk along the chain: whether it took all of \<open>len\<close>, the cursor, the bytes and the sum.
\<close>

definition next_buf :: "NX_PACKET list \<Rightarrow> nat \<Rightarrow> nat option" where
  "next_buf chain i = (if i + 1 < length chain then Some (i + 1) else None)"

function ami_sana2_gso_walk ::
  "NX_PACKET list \<Rightarrow> bool \<Rightarrow> nat option \<Rightarrow> nat \<Rightarrow> int option \<Rightarrow> nat \<Rightarrow> nat \<Rightarrow> ULONG \<Rightarrow> UBYTE list
   \<Rightarrow> (bool \<times> nat option \<times> nat \<times> UBYTE list \<times> ULONG) option" where
  "ami_sana2_gso_walk chain want cur off to len at acc out =
     (case cur of
        Some i \<Rightarrow>
          if len = 0 then Some (True, cur, off, out, acc)
          else if length chain \<le> i then None
          else let p = chain ! i; have = pk_append p - pk_prepend p in
            if have \<le> off then ami_sana2_gso_walk chain want (next_buf chain i) 0 to len at acc out
            else let n = min (have - off) len in do {
              run \<leftarrow> rd_range (pk_mem p) (pk_prepend p + off) n;
              let s = ami_sana2_gso_copy_sum to (pk_addr p (pk_prepend p + off)) run;
              let s = (if odd at then swap16 s else s);
              ami_sana2_gso_walk chain want cur (off + n) (map_option (\<lambda>d. d + int n) to) (len - n) (at + n)
                (if want then acc + s else acc) (if to = None then out else out @ run)
            }
      | None \<Rightarrow> Some (len = 0, None, off, out, acc))"
  by pat_completeness auto
termination
  by (relation "measure (\<lambda>(chain, want, cur, off, to, len, at, acc, out).
        (case cur of None \<Rightarrow> 0 | Some i \<Rightarrow> Suc (length chain - i)) + len)")
     (auto simp: next_buf_def)

declare ami_sana2_gso_walk.simps [simp del]

section \<open>A child's checksum\<close>

primrec finish_loop :: "nat \<Rightarrow> NX_PACKET \<Rightarrow> nat \<Rightarrow> AmiGsoFields \<Rightarrow> nat \<Rightarrow> ULONG \<Rightarrow> ULONG option" where
  "finish_loop 0 p t f i s = Some s"
| "finish_loop (Suc n) p t f i s = do {
     v \<leftarrow> (if i = 4 then Some (drop_bit 16 (f_seq f))
          else if i = 6 then Some (f_seq f AND 0xFFFF)
          else if i = 12 then map_option (\<lambda>b. push_bit 8 (ucast b) OR ucast (f_flags f)) (ip8 p (t + 12))
          else if i \<noteq> 16 then ami_sana2_tx_be16 p (t + i)
          else Some 0);
     finish_loop n p t f (i + 2) (s + v)
   }"

definition ami_sana2_gso_finish :: "AmiTxGso \<Rightarrow> NX_PACKET \<Rightarrow> AmiGsoFields \<Rightarrow> ULONG \<Rightarrow> ULONG option" where
  "ami_sana2_gso_finish g p f payload_sum = do {
     s \<leftarrow> finish_loop ((g_thl g + 1) div 2) p (g_ihl g) f 0 (ami_sana2_gso_fold payload_sum);
     ph \<leftarrow> ami_sana2_tx_pseudo_header p (of_nat (g_thl g + f_seg_len f));
     Some (complement16 (ami_sana2_gso_fold (s + ph)))
   }"

section \<open>The slot\<close>

record AmiGsoSlot = AmiTxSlot +
  gs_gso :: bool
  gs_tx_tcp :: bool
  gs_seg_index :: nat
  gs_seg_summed :: bool
  gs_seg_sum :: UWORD
  gs_seg_buf :: "nat option"
  gs_seg_buf_off :: nat
  gs_batch_count :: nat
  gs_batch_done :: nat

text \<open>The checksum field as the child carries it, or \<open>None\<close> if the chain ends first.\<close>

definition ami_sana2_gso_tcp_field ::
  "AmiGsoSlot \<Rightarrow> AmiTxGso \<Rightarrow> NX_PACKET \<Rightarrow> AmiGsoFields \<Rightarrow> (ULONG option \<times> AmiGsoSlot) option" where
  "ami_sana2_gso_tcp_field slot g p f =
     (if gs_tx_tcp slot
      then map_option (\<lambda>s. (Some s, slot)) (ami_sana2_tx_pseudo_header p (of_nat (g_thl g + f_seg_len f)))
      else if \<not> gs_seg_summed slot then do {
        (ok, cur, off, out, acc) \<leftarrow>
          ami_sana2_gso_walk (ts_packet slot) True (gs_seg_buf slot) (gs_seg_buf_off slot) None (f_seg_len f) 0 0 [];
        if \<not> ok then Some (None, slot)
        else do {
          s \<leftarrow> ami_sana2_gso_finish g p f acc;
          let slot = slot\<lparr>gs_seg_sum := ucast s, gs_seg_summed := True\<rparr>;
          Some (Some (ucast (gs_seg_sum slot)), slot)
        }
      }
      else Some (Some (ucast (gs_seg_sum slot)), slot))"

text \<open>The buffer that holds payload offset \<open>seg_off\<close>, from a buffer whose first byte is at \<open>start\<close>.\<close>

function place_loop :: "NX_PACKET list \<Rightarrow> nat \<Rightarrow> nat option \<Rightarrow> int \<Rightarrow> (nat option \<times> int) option" where
  "place_loop chain seg_off buf start =
     (case buf of
        None \<Rightarrow> Some (None, start)
      | Some i \<Rightarrow>
          if length chain \<le> i then None
          else let have = int (pk_append (chain ! i)) - int (pk_prepend (chain ! i)) in
            if int seg_off < start + have then Some (Some i, start)
            else place_loop chain seg_off (next_buf chain i) (start + have))"
  by pat_completeness auto
termination
  by (relation "measure (\<lambda>(chain, seg_off, buf, start). case buf of None \<Rightarrow> 0 | Some i \<Rightarrow> Suc (length chain - i))")
     (auto simp: next_buf_def)

declare place_loop.simps [simp del]

definition ami_sana2_gso_place ::
  "AmiGsoSlot \<Rightarrow> AmiTxGso \<Rightarrow> NX_PACKET list \<Rightarrow> nat \<Rightarrow> (nat \<times> AmiGsoSlot \<times> AmiTxGso) option" where
  "ami_sana2_gso_place slot g parent seg = do {
     let slot = slot\<lparr>gs_seg_index := seg mod 256\<rparr>;
     let (seg_off, seg_len) = ami_sana2_gso_slice g (gs_seg_index slot);
     let g = (if g_cur_buf g = None \<or> int seg_off < g_cur_start g
              then g\<lparr>g_cur_buf := Some 0, g_cur_start := - int (g_ihl g + g_thl g)\<rparr> else g);
     (buf, start) \<leftarrow> place_loop parent seg_off (g_cur_buf g) (g_cur_start g);
     let g = (if buf \<noteq> None then g\<lparr>g_cur_buf := buf, g_cur_start := start\<rparr> else g);
     Some (g_ihl g + g_thl g + seg_len,
           slot\<lparr>ts_packet := parent, gs_seg_buf := buf,
                gs_seg_buf_off := (if buf \<noteq> None then nat (int seg_off - start) else 0), gs_seg_summed := False\<rparr>,
           g)
   }"

definition ami_sana2_gso_prepare ::
  "AmiGsoSlot \<Rightarrow> AmiTxGso \<Rightarrow> NX_PACKET list \<Rightarrow> (nat \<times> AmiGsoSlot \<times> AmiTxGso) option" where
  "ami_sana2_gso_prepare slot g parent =
     ami_sana2_gso_place slot (g\<lparr>g_next_seg := (g_next_seg g + 1) mod 256\<rparr>) parent (g_next_seg g)"

text \<open>The least frame a card sends, without its Ethernet header.\<close>

definition ami_sana2_gso_frame_len :: "bool \<Rightarrow> AmiTxGso \<Rightarrow> nat \<Rightarrow> nat" where
  "ami_sana2_gso_frame_len ethernet g seg =
     (let len = g_ihl g + g_thl g + snd (ami_sana2_gso_slice g seg)
      in if ethernet \<and> len < 60 - 14 then 60 - 14 else len)"

definition ami_sana2_gso_header :: "AmiGsoSlot \<Rightarrow> AmiTxGso \<Rightarrow> int \<Rightarrow> (nat \<times> UBYTE list \<times> AmiGsoSlot) option" where
  "ami_sana2_gso_header slot g out_at = do {
     p \<leftarrow> rd (ts_packet slot) 0;
     f \<leftarrow> ami_sana2_gso_fields g (gs_seg_index slot) p;
     (csum, slot) \<leftarrow> ami_sana2_gso_tcp_field slot g p f;
     out \<leftarrow> ami_sana2_gso_emit g p f (ucast (case csum of Some s \<Rightarrow> s | None \<Rightarrow> 0)) out_at 0 (g_ihl g + g_thl g);
     Some (g_ihl g + g_thl g, out, slot)
   }"

section \<open>The copy\<close>

text \<open>The whole frame in one call: the sum comes out of the copy.\<close>

definition gso_copy_whole ::
  "AmiGsoSlot \<Rightarrow> AmiTxGso \<Rightarrow> NX_PACKET \<Rightarrow> AmiGsoFields \<Rightarrow> int \<Rightarrow> ULONG \<Rightarrow> (bool \<times> UBYTE list \<times> AmiGsoSlot) option" where
  "gso_copy_whole slot g p f out_at len = do {
     let hlen = g_ihl g + g_thl g;
     hdr \<leftarrow> ami_sana2_gso_emit g p f 0 out_at 0 hlen;
     (ok, cur, off, body, acc) \<leftarrow>
       ami_sana2_gso_walk (ts_packet slot) True (ts_cursor slot) (unat (ts_cursor_off slot)) (Some (out_at + int hlen))
         (f_seg_len f) 0 0 [];
     let slot = slot\<lparr>ts_cursor := cur, ts_cursor_off := of_nat off\<rparr>;
     if \<not> ok then Some (False, hdr @ body, slot)
     else do {
       csum \<leftarrow> ami_sana2_gso_finish g p f acc;
       out \<leftarrow> wr_range (hdr @ body @ replicate (unat len - (hlen + f_seg_len f)) 0) (g_ihl g + 16) (field16 csum);
       Some (True, out, slot\<lparr>ts_consumed := len\<rparr>)
     }
   }"

text \<open>In pieces: \<open>len\<close> bytes of headers, payload and pad from where the last call stopped.\<close>

definition gso_copy_piece ::
  "AmiGsoSlot \<Rightarrow> AmiTxGso \<Rightarrow> NX_PACKET \<Rightarrow> AmiGsoFields \<Rightarrow> ULONG \<Rightarrow> int \<Rightarrow> nat \<Rightarrow> (bool \<times> UBYTE list \<times> AmiGsoSlot) option" where
  "gso_copy_piece slot g p f csum out_at len = do {
     let hlen = g_ihl g + g_thl g;
     let data_end = hlen + f_seg_len f;
     let pos = unat (ts_consumed slot);
     let n = (if len \<noteq> 0 \<and> pos < hlen then min (hlen - pos) len else 0);
     hdr \<leftarrow> (if n \<noteq> 0 then ami_sana2_gso_emit g p f (ucast csum) out_at pos (pos + n) else Some []);
     let pos = pos + n;
     let len = len - n;
     let m = (if len \<noteq> 0 \<and> pos < data_end then min (data_end - pos) len else 0);
     (ok, cur, off, body, acc) \<leftarrow>
       (if m \<noteq> 0
        then ami_sana2_gso_walk (ts_packet slot) False (ts_cursor slot) (unat (ts_cursor_off slot))
               (Some (out_at + int n)) m 0 0 []
        else Some (True, ts_cursor slot, unat (ts_cursor_off slot), [], 0));
     let slot = slot\<lparr>ts_cursor := cur, ts_cursor_off := of_nat off\<rparr>;
     if \<not> ok then Some (False, hdr @ body, slot\<lparr>ts_consumed := of_nat pos\<rparr>)
     else Some (True, hdr @ body @ replicate (len - m) 0, slot\<lparr>ts_consumed := of_nat (pos + len)\<rparr>)
   }"

definition gso_rewind :: "AmiGsoSlot \<Rightarrow> ULONG \<Rightarrow> AmiGsoSlot" where
  "gso_rewind slot len =
     (if ts_cursor slot = None \<or> ts_total slot \<le> ts_consumed slot \<or> ts_total slot - ts_consumed slot < len
      then slot\<lparr>ts_cursor := gs_seg_buf slot, ts_cursor_off := of_nat (gs_seg_buf_off slot), ts_consumed := 0\<rparr>
      else slot)"

definition ami_sana2_gso_copy ::
  "AmiGsoSlot \<Rightarrow> AmiTxGso \<Rightarrow> int \<Rightarrow> ULONG \<Rightarrow> (bool \<times> UBYTE list \<times> AmiGsoSlot) option" where
  "ami_sana2_gso_copy slot g out_at len = do {
     p \<leftarrow> rd (ts_packet slot) 0;
     let slot = gso_rewind slot len;
     if gs_seg_buf slot = None then Some (False, [], slot)
     else do {
       f \<leftarrow> ami_sana2_gso_fields g (gs_seg_index slot) p;
       if \<not> gs_tx_tcp slot \<and> ts_consumed slot = 0 \<and> len = ts_total slot \<and> \<not> gs_seg_summed slot
       then gso_copy_whole slot g p f out_at len
       else do {
         (csum, slot) \<leftarrow> ami_sana2_gso_tcp_field slot g p f;
         (case csum of
            None \<Rightarrow> Some (False, [], slot)
          | Some csum \<Rightarrow> gso_copy_piece slot g p f csum out_at (unat len))
       }
     }
   }"

text \<open>The ordinary frame; \<open>nx_sum\<close> is NetX Duo's own checksum of the packet.\<close>

definition copy_from_packet ::
  "(NX_PACKET list \<Rightarrow> NX_PACKET list) \<Rightarrow> ULONG \<Rightarrow> AmiGsoSlot \<Rightarrow> int \<Rightarrow> ULONG \<Rightarrow> (bool \<times> UBYTE list \<times> AmiGsoSlot) option" where
  "copy_from_packet nx_sum tcp_tx slot out_at len = do {
     let slot = (if ts_cursor slot = None \<or> ts_total slot \<le> ts_consumed slot \<or> ts_total slot - ts_consumed slot < len
                 then slot\<lparr>ts_cursor := Some 0, ts_cursor_off := 0, ts_consumed := 0\<rparr> else slot);
     let walk = (\<lambda>slot :: AmiGsoSlot. do {
       (ok, cur, off, out, acc) \<leftarrow>
         ami_sana2_gso_walk (ts_packet slot) False (ts_cursor slot) (unat (ts_cursor_off slot)) (Some out_at)
           (unat len) 0 0 [];
       Some (ok, out, slot\<lparr>ts_cursor := cur, ts_cursor_off := of_nat off,
                           ts_consumed := ts_consumed slot + of_nat (length out)\<rparr>)
     });
     p \<leftarrow> rd (ts_packet slot) 0;
     if ts_consumed slot = 0 \<and> pk_capability p AND tcp_tx \<noteq> 0 then do {
       r \<leftarrow> ami_sana2_tx_fuse_checksum slot out_at len;
       (case r of
          Some (out, slot) \<Rightarrow> do {
            p \<leftarrow> rd (ts_packet slot) 0;
            Some (True, out, slot\<lparr>ts_packet := p\<lparr>pk_capability := pk_capability p AND NOT tcp_tx\<rparr> # tl (ts_packet slot)\<rparr>)
          }
        | None \<Rightarrow> do {
            let chain = nx_sum (p\<lparr>pk_length := pk_length p - ucast (ts_pad_len slot)\<rparr> # tl (ts_packet slot));
            q \<leftarrow> rd chain 0;
            walk (slot\<lparr>ts_packet := q\<lparr>pk_length := pk_length p\<rparr> # tl chain\<rparr>)
          })
     }
     else walk slot
   }"

definition ami_sana2_copy_from_buff ::
  "(NX_PACKET list \<Rightarrow> NX_PACKET list) \<Rightarrow> ULONG \<Rightarrow> AmiTxGso \<Rightarrow> AmiGsoSlot \<Rightarrow> int \<Rightarrow> ULONG
   \<Rightarrow> (bool \<times> UBYTE list \<times> AmiGsoSlot) option" where
  "ami_sana2_copy_from_buff nx_sum tcp_tx g slot out_at len =
     (if ts_packet slot = [] then Some (False, [], slot)
      else if ts_total slot < len then Some (False, [], slot)
      else if gs_gso slot then ami_sana2_gso_copy slot g out_at len
      else copy_from_packet nx_sum tcp_tx slot out_at len)"

section \<open>Batches\<close>

text \<open>The number of children, the length of each and of the last; zero for a write that is no batch.\<close>

definition ami_sana2_tx_batch :: "bool \<Rightarrow> AmiGsoSlot \<Rightarrow> AmiTxGso \<Rightarrow> nat \<times> nat \<times> nat" where
  "ami_sana2_tx_batch ethernet slot g =
     (if gs_batch_count slot = 0 \<or> \<not> gs_gso slot then (0, 0, 0)
      else (gs_batch_count slot, ami_sana2_gso_frame_len ethernet g 0 mod 65536,
            ami_sana2_gso_frame_len ethernet g (gs_batch_count slot - 1) mod 65536))"

definition ami_sana2_tx_child ::
  "bool \<Rightarrow> AmiGsoSlot \<Rightarrow> AmiTxGso \<Rightarrow> nat \<Rightarrow> int \<Rightarrow> nat \<Rightarrow> (bool \<times> UBYTE list \<times> AmiGsoSlot \<times> AmiTxGso) option" where
  "ami_sana2_tx_child ethernet slot g index dst len =
     (if gs_batch_count slot = 0 \<or> \<not> gs_gso slot \<or> ts_packet slot = [] \<or> gs_batch_count slot \<le> index
      then Some (False, [], slot, g)
      else if len \<noteq> ami_sana2_gso_frame_len ethernet g index then Some (False, [], slot, g)
      else do {
        (l, slot, g) \<leftarrow> (if index \<noteq> gs_seg_index slot then ami_sana2_gso_place slot g (ts_packet slot) index
                        else Some (len, slot, g));
        (ok, out, slot) \<leftarrow> ami_sana2_gso_copy (slot\<lparr>ts_total := of_nat len, ts_cursor := None\<rparr>) g dst (of_nat len);
        Some (ok, out, slot, g)
      })"

definition ami_sana2_tx_posted :: "AmiGsoSlot \<Rightarrow> nat \<Rightarrow> AmiGsoSlot" where
  "ami_sana2_tx_posted slot count =
     (if gs_batch_count slot = 0 then slot
      else slot\<lparr>gs_batch_done := (if count < gs_batch_count slot then count else gs_batch_count slot)\<rparr>)"

end
