(* ===== verification/Gso_Sums.thy ===== *)
theory Gso_Sums
  imports Sana2_Gso
begin

text \<open>
  Sums of a payload that is cut at odd places: what the runs of \<open>ami_sana2_gso_copy_sum\<close> and the walk
  \<open>ami_sana2_gso_walk\<close> along the parent's chain add up to. A run that starts at an odd offset sums
  with its bytes swapped, and swapping a one's-complement sum multiplies it by 256.
\<close>

section \<open>Byte order\<close>

lemma be16_sum_eq_0: "(be16_sum xs = 0) = (\<forall>x \<in> set xs. x = 0)"
  by (induction xs rule: be16_sum.induct) (auto simp: unat_eq_zero)

lemma mod_65536: "(65536 * a + b) mod 65535 = (a + b) mod (65535 :: nat)"
proof -
  have "65536 * a + b = a + b + 65535 * a" by simp
  then show ?thesis by (simp only: mod_mult_self2)
qed

lemma be16_sum_Cons_mod: "be16_sum (a # bs) mod 65535 = (256 * unat a + 256 * be16_sum bs) mod 65535"
proof (induction bs arbitrary: a rule: induct_list012)
  case (2 b)
  have "(256 * unat a + 256 * be16_sum [b]) mod 65535 = (65536 * unat b + 256 * unat a) mod 65535"
    by (simp add: ac_simps)
  then show ?case unfolding mod_65536 by (simp add: ac_simps)
next
  case (3 b c bs)
  have "(256 * unat a + 256 * be16_sum (b # c # bs)) mod 65535
      = (65536 * unat b + (256 * unat a + (256 * unat c + 256 * be16_sum bs))) mod 65535"
    by (simp add: ac_simps)
  also have "\<dots> = (unat b + 256 * unat a + (256 * unat c + 256 * be16_sum bs)) mod 65535"
    unfolding mod_65536 by (simp add: ac_simps)
  also have "\<dots> = (unat b + 256 * unat a + be16_sum (c # bs)) mod 65535"
    by (rule mod_add_cong [OF refl 3(1) [of c, symmetric]])
  finally show ?case by (simp add: ac_simps)
qed (simp add: mult.commute)

lemma be16_sum_Cons: "ones (be16_sum (a # bs)) = ones (256 * unat a + 256 * be16_sum bs)"
proof (rule eac_cong_mod)
  show "(be16_sum (a # bs) = 0) = (256 * unat a + 256 * be16_sum bs = 0)"
    by (simp add: be16_sum_eq_0 unat_eq_zero)
qed (rule be16_sum_Cons_mod)

lemma be16_sum_append_odd:
  assumes "odd (length xs)"
  shows "ones (be16_sum (xs @ ys)) = ones (be16_sum xs + 256 * be16_sum ys)"
proof -
  obtain zs a where xs: "xs = zs @ [a]" using assms by (cases xs rule: rev_cases) auto
  then have "even (length zs)" using assms by simp
  then have "ones (be16_sum (xs @ ys)) = ones (be16_sum zs + be16_sum (a # ys))"
    by (simp add: xs be16_sum_append)
  also have "\<dots> = ones (be16_sum zs + (256 * unat a + 256 * be16_sum ys))"
    by (intro eac_add_cong be16_sum_Cons refl)
  finally show ?thesis using \<open>even (length zs)\<close> by (simp add: xs be16_sum_append ac_simps)
qed

lemma ones_256: "ones a = ones b \<Longrightarrow> ones (256 * a) = ones (256 * b)"
  unfolding eac_iff by (metis mod_mult_right_eq mult_is_0 zero_neq_numeral)

lemma ones_65536: "ones (256 * (256 * a)) = ones a"
proof (rule eac_cong_mod)
  show "(256 * (256 * a)) mod 65535 = a mod 65535" using mod_65536 [of a 0] by (simp add: mult.assoc [symmetric])
qed simp

lemma unat_swap16:
  assumes "unat s \<le> 65535"
  shows "unat (swap16 s) = unat s mod 256 * 256 + unat s div 256"
proof -
  have hi: "unat (drop_bit 8 s) = unat s div 256" by (simp add: unat_drop_bit_eq) (simp add: drop_bit_eq_div)
  have lo: "unat (push_bit 8 s) = unat s * 256"
    using assms by (simp add: unsigned_push_bit_eq) (simp add: push_bit_eq_mult take_bit_eq_mod)
  have small: "\<not> bit (drop_bit 8 s) n" if "8 \<le> n" for n
  proof -
    have "unat s div 256 < 2 ^ 8" using assms by simp
    moreover have "(2 :: nat) ^ 8 \<le> 2 ^ n" using that by (rule power_increasing) simp
    ultimately have "unat (drop_bit 8 s) < 2 ^ n" using hi by simp
    then have "\<not> bit (unat (drop_bit 8 s)) n" by (simp add: bit_iff_odd)
    then show ?thesis by (simp add: bit_unsigned_iff)
  qed
  have "push_bit 8 s OR drop_bit 8 s = push_bit 8 s + drop_bit 8 s"
    by (subst disjunctive_add) (use small in \<open>auto simp: bit_push_bit_iff\<close>)
  moreover have "unat (push_bit 8 s + drop_bit 8 s) = unat s * 256 + unat s div 256"
    using assms by (subst unat_add_nowrap) (simp_all add: hi lo)
  ultimately have "unat (swap16 s) = (unat s * 256 + unat s div 256) mod 65536"
    by (simp add: swap16_def unat_and_ffff)
  also have "unat s * 256 + unat s div 256 = 65536 * (unat s div 256) + (unat s mod 256 * 256 + unat s div 256)"
  proof -
    define q r where "q = unat s div 256" and "r = unat s mod 256"
    have "unat s = q * 256 + r" by (simp add: q_def r_def)
    then show ?thesis unfolding q_def [symmetric] r_def [symmetric] by simp
  qed
  also have "\<dots> mod 65536 = (unat s mod 256 * 256 + unat s div 256) mod 65536" by (simp only: mod_mult_self4)
  also have "\<dots> = unat s mod 256 * 256 + unat s div 256"
  proof -
    have "unat s mod 256 < 256" "unat s div 256 < 256" using assms by simp_all
    then show ?thesis by simp
  qed
  finally show ?thesis .
qed

lemma swap16_ones:
  assumes "unat s \<le> 65535"
  shows "ones (unat (swap16 s)) = ones (256 * unat s)" and "unat (swap16 s) \<le> 65535"
proof -
  define q r where "q = unat s div 256" and "r = unat s mod 256"
  have s: "unat s = q * 256 + r" and lt: "r < 256" "q < 256" using assms by (simp_all add: q_def r_def)
  have sw: "unat (swap16 s) = r * 256 + q" using unat_swap16 [OF assms] by (simp add: q_def r_def)
  then show "unat (swap16 s) \<le> 65535" using lt by simp
  show "ones (unat (swap16 s)) = ones (256 * unat s)"
  proof (rule eac_cong_mod)
    have eq: "256 * unat s = 65536 * q + r * 256" by (simp add: s)
    show "unat (swap16 s) mod 65535 = 256 * unat s mod 65535" unfolding sw eq mod_65536 by (simp only: add.commute)
    show "(unat (swap16 s) = 0) = (256 * unat s = 0)" by (auto simp: sw s)
  qed
qed

section \<open>One run\<close>

lemma unat_push8: "unat (push_bit 8 (ucast (b :: UBYTE)) :: ULONG) = 256 * unat b"
proof -
  have "unat (ucast b :: ULONG) = unat b" by (simp add: unat_ucast_up)
  moreover have "unat b < 256" using unat_lt2p [of b] by simp
  ultimately show ?thesis by (simp add: unsigned_push_bit_eq) (simp add: push_bit_eq_mult take_bit_eq_mod)
qed

lemma gso_bytes_ones:
  "ones (unat (gso_bytes i bs s)) = ones (unat s + be16_sum (if odd i then 0 # bs else bs))"
proof (induction i bs s rule: gso_bytes.induct)
  case (1 i s)
  then show ?case by simp
next
  case (2 i b bs s)
  have b: "unat (ucast b :: ULONG) = unat b" by (simp add: unat_ucast_up)
  define v where "v = (if odd i then ucast b else push_bit 8 (ucast b) :: ULONG)"
  have v: "unat v = (if odd i then unat b else 256 * unat b)" by (simp add: v_def b unat_push8)
  have "ones (unat (add_carry s v)) = ones (unat s + unat v)" by (rule add_carry_ones) simp_all
  then have "ones (unat (add_carry s v) + be16_sum (if odd (i + 1) then 0 # bs else bs))
      = ones (unat s + unat v + be16_sum (if odd (i + 1) then 0 # bs else bs))"
    by (rule eac_add_cong) (rule refl)
  then have "ones (unat (gso_bytes i (b # bs) s)) = ones (unat s + unat v + be16_sum (if odd (i + 1) then 0 # bs else bs))"
    using 2 [folded v_def] by (simp only: gso_bytes.simps v_def [symmetric])
  moreover have "unat v + be16_sum (if odd (i + 1) then 0 # bs else bs) = be16_sum (if odd i then 0 # b # bs else b # bs)"
    by (cases bs) (auto simp: v)
  ultimately show ?case by (simp add: add.assoc)
qed

lemma gso_copy_sum_eq: "unat (ami_sana2_gso_copy_sum to src bytes) = ones (be16_sum bytes)"
proof -
  define lead where "lead \<longleftrightarrow> to = None \<and> odd src \<and> bytes \<noteq> []"
  define rest where "rest = (if lead then tl bytes else bytes)"
  define w where "w = (case to of None \<Rightarrow> length rest div 4 | Some d \<Rightarrow> if even d \<and> even src then length rest div 4 else 0)"
  define s where "s = ami_sana2_gso_fold (gso_bytes (4 * w) (drop (4 * w) rest) (n68k_sum_longwords (longwords (take (4 * w) rest))))"
  have w: "4 * w \<le> length rest" by (auto simp: w_def split: option.splits)
  then have "ones (unat (n68k_sum_longwords (longwords (take (4 * w) rest)))) = ones (be16_sum (take (4 * w) rest))"
    by (intro sum_longwords_ones) (simp add: min_absorb2)
  then have "ones (unat (n68k_sum_longwords (longwords (take (4 * w) rest))) + be16_sum (drop (4 * w) rest))
      = ones (be16_sum (take (4 * w) rest) + be16_sum (drop (4 * w) rest))"
    by (intro eac_add_cong refl)
  moreover have "be16_sum (take (4 * w) rest) + be16_sum (drop (4 * w) rest) = be16_sum rest"
    using be16_sum_cut [of "4 * w" rest "length rest"] w by simp
  ultimately have s: "unat s = ones (be16_sum rest)"
    by (simp add: s_def unat_gso_fold gso_bytes_ones)
  have run: "ami_sana2_gso_copy_sum to src bytes =
      (if lead then ami_sana2_gso_fold (push_bit 8 (ucast (hd bytes)) + swap16 s) else s)"
    unfolding ami_sana2_gso_copy_sum_def Let_def lead_def [symmetric] rest_def [symmetric] w_def [symmetric] s_def [symmetric] ..
  show ?thesis
  proof (cases lead)
    case True
    then obtain b where bytes: "bytes = b # rest" by (cases bytes) (auto simp: rest_def lead_def)
    have le: "unat s \<le> 65535" by (simp add: s eac_le)
    have "unat b < 256" using unat_lt2p [of b] by simp
    then have "unat (push_bit 8 (ucast b) + swap16 s) = 256 * unat b + unat (swap16 s)"
      using swap16_ones(2) [OF le] by (subst unat_add_nowrap) (simp_all add: unat_push8)
    moreover have "ones (256 * unat b + unat (swap16 s)) = ones (256 * unat b + 256 * be16_sum rest)"
    proof (intro eac_add_cong refl)
      have "ones (unat s) = ones (be16_sum rest)" by (simp add: s)
      from ones_256 [OF this] show "ones (unat (swap16 s)) = ones (256 * be16_sum rest)"
        by (simp only: swap16_ones(1) [OF le])
    qed
    ultimately show ?thesis unfolding run using True by (simp add: bytes unat_gso_fold be16_sum_Cons)
  next
    case False
    then show ?thesis using s by (simp add: run rest_def)
  qed
qed

section \<open>The walk\<close>

definition buf_ok :: "NX_PACKET \<Rightarrow> bool" where
  "buf_ok p \<longleftrightarrow> pk_prepend p \<le> pk_append p \<and> pk_append p \<le> length (pk_mem p)"

text \<open>The bytes ahead of a cursor, and a cursor that is at a buffer of the chain.\<close>

definition ahead :: "NX_PACKET list \<Rightarrow> nat option \<Rightarrow> nat \<Rightarrow> UBYTE list" where
  "ahead chain cur off = (case cur of None \<Rightarrow> []
     | Some i \<Rightarrow> drop off (pk_data (chain ! i)) @ concat (map pk_data (drop (i + 1) chain)))"

definition cursor_ok :: "NX_PACKET list \<Rightarrow> nat option \<Rightarrow> bool" where
  "cursor_ok chain cur \<longleftrightarrow> (case cur of None \<Rightarrow> True | Some i \<Rightarrow> i < length chain)"

lemma ahead_next:
  assumes "i < length chain" and "length (pk_data (chain ! i)) \<le> off"
  shows "ahead chain (next_buf chain i) 0 = ahead chain (Some i) off" and "cursor_ok chain (next_buf chain i)"
  using assms by (auto simp: ahead_def next_buf_def cursor_ok_def Cons_nth_drop_Suc [symmetric])

lemma length_buf: "buf_ok p \<Longrightarrow> length (pk_data p) = pk_append p - pk_prepend p"
  by (auto simp: buf_ok_def pk_data_def pk_size_def)

lemma buf_range:
  assumes "buf_ok p" and "off + n \<le> length (pk_data p)"
  shows "rd_range (pk_mem p) (pk_prepend p + off) n = Some (take n (drop off (pk_data p)))"
proof -
  have "off + n \<le> pk_size p" using assms by (simp add: length_buf pk_size_def)
  moreover have "pk_prepend p + pk_size p \<le> length (pk_mem p)" using assms(1) by (auto simp: buf_ok_def pk_size_def)
  ultimately show ?thesis by (simp add: pk_data_def drop_take min_absorb1 add.commute)
qed

definition shifted :: "nat \<Rightarrow> nat \<Rightarrow> nat" where
  "shifted at x = (if odd at then 256 * x else x)"

lemma shifted_append:
  "ones (shifted at (be16_sum xs) + shifted (at + length xs) (be16_sum ys)) = ones (shifted at (be16_sum (xs @ ys)))"
proof (cases "even (length xs)")
  case True
  then show ?thesis by (simp add: shifted_def be16_sum_append distrib_left)
next
  case False
  note app = be16_sum_append_odd [OF False, of ys]
  show ?thesis
  proof (cases "odd at")
    case True
    have "ones (256 * be16_sum (xs @ ys)) = ones (256 * (be16_sum xs + 256 * be16_sum ys))" using app by (rule ones_256)
    also have "\<dots> = ones (256 * be16_sum xs + 256 * (256 * be16_sum ys))" by (simp add: distrib_left)
    also have "\<dots> = ones (256 * be16_sum xs + be16_sum ys)" by (intro eac_add_cong ones_65536 refl)
    finally show ?thesis using True False by (simp add: shifted_def)
  next
    case even: False
    then show ?thesis using False app by (simp add: shifted_def)
  qed
qed

lemma walk_eq:
  assumes "list_all buf_ok chain" and "cursor_ok chain cur" and "len \<le> length (ahead chain cur off)"
    and "unat acc + 65535 * len < 2 ^ 32"
  shows "\<exists>cur' off' acc'. ami_sana2_gso_walk chain want cur off to len at acc out =
           Some (True, cur', off', (if to = None then out else out @ take len (ahead chain cur off)), acc') \<and>
         (want \<longrightarrow> ones (unat acc') = ones (unat acc + shifted at (be16_sum (take len (ahead chain cur off))))) \<and>
         cursor_ok chain cur' \<and> ahead chain cur' off' = drop len (ahead chain cur off) \<and> off' \<le> off + len"
  using assms
proof (induction chain want cur off to len at acc out rule: ami_sana2_gso_walk.induct)
  case (1 chain want cur off to len at acc out)
  note prems = "1.prems"
  define P where "P = ahead chain cur off"
  note unf = ami_sana2_gso_walk.simps [of chain want cur off to len at acc out]
  show ?case
  proof (cases cur)
    case None
    then have "len = 0" using prems(3) by (simp add: ahead_def)
    then have "ami_sana2_gso_walk chain want cur off to len at acc out = Some (True, None, off, out, acc)"
      using None by (subst unf) simp
    then show ?thesis using None \<open>len = 0\<close> by (auto simp: ahead_def cursor_ok_def shifted_def)
  next
    case (Some i)
    then have i: "i < length chain" using prems(2) by (simp add: cursor_ok_def)
    define p where "p = chain ! i"
    have p: "buf_ok p" using prems(1) i by (simp add: p_def list_all_length)
    define hv where "hv = pk_append p - pk_prepend p"
    have hv: "length (pk_data p) = hv" using length_buf [OF p] by (simp add: hv_def)
    show ?thesis
    proof (cases "len = 0")
      case True
      then have "ami_sana2_gso_walk chain want cur off to len at acc out = Some (True, cur, off, out, acc)"
        using Some by (subst unf) simp
      then show ?thesis using Some True prems(2) by (auto simp: shifted_def)
    next
      case pos: False
      have dang: "\<not> length chain \<le> i" using i by simp
      show ?thesis
      proof (cases "hv \<le> off")
        case True
        then have nx: "ahead chain (next_buf chain i) 0 = P" "cursor_ok chain (next_buf chain i)"
          using ahead_next [OF i, of off] hv Some by (simp_all add: p_def P_def)
        have "len \<le> length (ahead chain (next_buf chain i) 0)" using prems(3) by (simp add: nx P_def)
        from "1.IH"(1) [OF Some pos dang refl refl, folded p_def, folded hv_def, OF True prems(1) nx(2) this prems(4)]
        obtain cur' off' acc' where "ami_sana2_gso_walk chain want (next_buf chain i) 0 to len at acc out =
             Some (True, cur', off', (if to = None then out else out @ take len P), acc')"
          and "want \<longrightarrow> ones (unat acc') = ones (unat acc + shifted at (be16_sum (take len P)))"
          and "cursor_ok chain cur'" "ahead chain cur' off' = drop len P" "off' \<le> 0 + len"
          unfolding nx(1) by blast
        moreover have "ami_sana2_gso_walk chain want cur off to len at acc out
            = ami_sana2_gso_walk chain want (next_buf chain i) 0 to len at acc out"
          using Some pos dang True by (subst unf) (simp add: Let_def p_def [symmetric] hv_def [symmetric])
        ultimately show ?thesis unfolding P_def [symmetric] by (simp add: trans_le_add2)
      next
        case False
        define n where "n = min (hv - off) len"
        define run where "run = take n (drop off (pk_data p))"
        have n: "off + n \<le> length (pk_data p)" "n \<le> len" "0 < n" using False pos by (simp_all add: n_def hv)
        have rd: "rd_range (pk_mem p) (pk_prepend p + off) n = Some run"
          unfolding run_def by (rule buf_range [OF p n(1)])
        have len: "length run = n" using n(1) by (simp add: run_def)
        have P: "P = drop off (pk_data p) @ concat (map pk_data (drop (i + 1) chain))"
          by (simp add: P_def ahead_def Some p_def)
        have run: "take n P = run" using n(1) by (simp add: P run_def)
        have rest: "ahead chain cur (off + n) = drop n P"
          using n(1) by (simp add: P ahead_def Some p_def [symmetric] add.commute)
        have body: "take len P = run @ take (len - n) (drop n P)"
          using run n(2) by (metis take_add le_add_diff_inverse)
        define s where "s = (let s = ami_sana2_gso_copy_sum to (pk_addr p (pk_prepend p + off)) run in if odd at then swap16 s else s)"
        have s: "ones (unat s) = ones (shifted at (be16_sum run))" "unat s \<le> 65535"
        proof -
          define c where "c = ami_sana2_gso_copy_sum to (pk_addr p (pk_prepend p + off)) run"
          have c: "unat c = ones (be16_sum run)" by (simp add: c_def gso_copy_sum_eq)
          then have le: "unat c \<le> 65535" by (simp add: eac_le)
          have "ones (unat c) = ones (be16_sum run)" by (simp add: c)
          from this ones_256 [OF this] show "ones (unat s) = ones (shifted at (be16_sum run))" "unat s \<le> 65535"
            using le swap16_ones [OF le] by (simp_all add: s_def c_def [symmetric] Let_def shifted_def)
        qed
        define acc1 where "acc1 = (if want then acc + s else acc)"
        have "unat (acc + s) = unat acc + unat s" using s(2) prems(4) pos by (intro unat_add_nowrap) simp
        then have acc1: "unat acc1 = (if want then unat acc + unat s else unat acc)" by (simp add: acc1_def)
        have room: "unat acc1 + 65535 * (len - n) < 2 ^ 32"
        proof -
          have "unat acc1 \<le> unat acc + 65535 * n" using acc1 s(2) n(3) by simp
          moreover have "65535 * (len - n) + 65535 * n = 65535 * len" using n(2) by (simp add: diff_mult_distrib2)
          ultimately show ?thesis using prems(4) by linarith
        qed
        have left: "len - n \<le> length (ahead chain cur (off + n))" using prems(3) by (simp add: rest P_def)
        define to1 where "to1 = map_option (\<lambda>d. d + int n) to"
        define out1 where "out1 = (if to = None then out else out @ run)"
        have step: "ami_sana2_gso_walk chain want cur off to len at acc out =
            ami_sana2_gso_walk chain want cur (off + n) to1 (len - n) (at + n) acc1 out1"
          using Some pos dang False rd
          by (subst unf) (simp add: Let_def p_def [symmetric] hv_def [symmetric] n_def [symmetric] s_def acc1_def to1_def out1_def)
        from "1.IH"(2) [OF Some pos dang refl refl, folded p_def, folded hv_def, OF False refl, folded n_def, OF rd refl, OF refl,
            folded s_def [unfolded Let_def], folded acc1_def to1_def out1_def, OF prems(1,2) left room]
        obtain cur' off' acc' where
          w: "ami_sana2_gso_walk chain want cur (off + n) to1 (len - n) (at + n) acc1 out1 =
               Some (True, cur', off', (if to1 = None then out1 else out1 @ take (len - n) (drop n P)), acc')"
          and sum: "want \<Longrightarrow> ones (unat acc') = ones (unat acc1 + shifted (at + n) (be16_sum (take (len - n) (drop n P))))"
          and c': "cursor_ok chain cur'" "ahead chain cur' off' = drop (len - n) (drop n P)" "off' \<le> off + n + (len - n)"
          unfolding rest by blast
        have outs: "(if to1 = None then out1 else out1 @ take (len - n) (drop n P)) = (if to = None then out else out @ take len P)"
          by (simp add: to1_def out1_def body)
        have "ones (unat acc') = ones (unat acc + shifted at (be16_sum (take len P)))" if want
        proof -
          have "ones (unat acc') = ones (unat acc + (shifted at (be16_sum run) + shifted (at + n) (be16_sum (take (len - n) (drop n P)))))"
            using sum [OF that] acc1 that s(1) eac_add_cong [OF eac_add_cong [OF refl s(1)] refl] by (simp add: add.assoc)
          also have "\<dots> = ones (unat acc + shifted at (be16_sum (take len P)))"
            using shifted_append [of at run "take (len - n) (drop n P)"] len body
            by (intro eac_add_cong refl) simp
          finally show ?thesis .
        qed
        then show ?thesis
          unfolding P_def [symmetric] using step w outs c' n(2) by (auto simp: add.commute)
      qed
    qed
  qed
qed

end
