(* ===== verification/Gso_Child.thy ===== *)
theory Gso_Child
  imports Gso_Sums
begin

text \<open>
  The headers of a child of a TCP block (\<open>ami_sana2_gso_fields\<close>, \<open>ami_sana2_gso_emit\<close>,
  \<open>ami_sana2_gso_finish\<close>): the template with six fields replaced, however the header is cut into
  pieces and wherever it is written, an IPv4 checksum that stays good when the length and the
  identification change, and a TCP checksum over exactly these bytes.
\<close>

section \<open>Replacing a field\<close>

definition put2 :: "UBYTE list \<Rightarrow> nat \<Rightarrow> UBYTE \<Rightarrow> UBYTE \<Rightarrow> UBYTE list" where
  "put2 xs i a b = xs[i := a, i + 1 := b]"

lemma length_put2 [simp]: "length (put2 xs i a b) = length xs"
  by (simp add: put2_def)

lemma nth_put2_other: "j \<noteq> i \<Longrightarrow> j \<noteq> i + 1 \<Longrightarrow> put2 xs i a b ! j = xs ! j"
  by (simp add: put2_def)

lemma f16_put2: "i + 1 < length xs \<Longrightarrow> f16 (put2 xs i a b) i = unat a * 256 + unat b"
  by (simp add: put2_def f16_def nth_list_update)

lemma f16_put2_other: "j + 2 \<le> i \<or> i + 2 \<le> j \<Longrightarrow> f16 (put2 xs i a b) j = f16 xs j"
  by (auto simp: put2_def f16_def)

lemma f16_update_other: "i \<noteq> j \<Longrightarrow> i \<noteq> j + 1 \<Longrightarrow> f16 (xs[i := a]) j = f16 xs j"
  by (simp add: f16_def)

lemma wr_range_put2: "i + 2 \<le> length xs \<Longrightarrow> wr_range xs i [a, b] = Some (put2 xs i a b)"
  by (simp add: wr_range_def put2_def list_update_append upd_conv_take_nth_drop take_update_swap min_def)

lemma be16_sum_step: "j + 2 * Suc n \<le> length xs \<Longrightarrow>
  be16_sum (take (2 * Suc n) (drop j xs)) = f16 xs j + be16_sum (take (2 * n) (drop (j + 2) xs))"
proof -
  assume room: "j + 2 * Suc n \<le> length xs"
  have "take (2 * Suc n) (drop j xs) = take 2 (drop j xs) @ take (2 * n) (drop (j + 2) xs)"
    using take_add [of 2 "2 * n" "drop j xs"] by (simp add: add.commute)
  moreover have "take 2 (drop j xs) = [xs ! j, xs ! (j + 1)]" using room by (intro take2) simp
  ultimately show ?thesis by (simp add: f16_def)
qed

lemma be16_sum_put2:
  assumes "even i" and "i + 2 \<le> length xs"
  shows "be16_sum (put2 xs i a b) + f16 xs i = be16_sum xs + (unat a * 256 + unat b)"
proof -
  have cut: "be16_sum zs = be16_sum (take i zs) + (f16 zs i + be16_sum (drop (i + 2) zs))" if "length zs = length xs" for zs
  proof -
    have "be16_sum zs = be16_sum (take i zs) + be16_sum (drop i zs)"
      using be16_sum_cut [of i zs "length zs"] assms that by simp
    moreover have "be16_sum (drop i zs) = f16 zs i + be16_sum (drop (i + 2) zs)"
    proof -
      have "drop i zs = zs ! i # zs ! (i + 1) # drop (i + 2) zs"
        using assms(2) that by (simp add: Cons_nth_drop_Suc)
      then show ?thesis by (simp add: f16_def)
    qed
    ultimately show ?thesis by simp
  qed
  have "take i (put2 xs i a b) = take i xs" "drop (i + 2) (put2 xs i a b) = drop (i + 2) xs" by (simp_all add: put2_def)
  then show ?thesis using cut [of xs] cut [of "put2 xs i a b"] assms(2) f16_put2 [of i xs a b] by simp
qed

section \<open>The header is the template, patched\<close>

definition gso_patch :: "nat \<Rightarrow> AmiGsoFields \<Rightarrow> UWORD \<Rightarrow> UBYTE list \<Rightarrow> UBYTE list" where
  "gso_patch t f c xs =
     (let xs = put2 xs 2 (ucast (drop_bit 8 (f_ip_len f))) (ucast (f_ip_len f));
          xs = put2 xs 4 (ucast (drop_bit 8 (f_ip_id f))) (ucast (f_ip_id f));
          xs = put2 xs 10 (ucast (drop_bit 8 (f_ip_sum f))) (ucast (f_ip_sum f));
          xs = put2 xs (t + 4) (ucast (drop_bit 24 (f_seq f))) (ucast (drop_bit 16 (f_seq f)));
          xs = put2 xs (t + 6) (ucast (drop_bit 8 (f_seq f))) (ucast (f_seq f));
          xs = xs[t + 13 := f_flags f]
      in put2 xs (t + 16) (ucast (drop_bit 8 c)) (ucast c))"

lemma length_gso_patch [simp]: "length (gso_patch t f c xs) = length xs"
  by (simp add: gso_patch_def Let_def)

lemma poke_eq:
  "ami_sana2_gso_poke frm to at v (take (to - frm) (drop frm xs)) = take (to - frm) (drop frm (xs[at := v]))"
proof (cases "at < frm")
  case True
  then show ?thesis by (simp add: ami_sana2_gso_poke_def drop_update_cancel)
next
  case False
  then show ?thesis
    by (simp add: ami_sana2_gso_poke_def drop_update_swap) (simp add: take_update_swap list_update_beyond)
qed

lemma emit_pokes_eq:
  "emit_pokes t f c frm to (take (to - frm) (drop frm xs)) = take (to - frm) (drop frm (gso_patch t f c xs))"
  by (simp add: emit_pokes_def poke_eq gso_patch_def put2_def Let_def add.commute add.left_commute numeral_3_eq_3)

lemma seq_halves:
  "ucast (drop_bit 8 (ucast (drop_bit 16 (w :: ULONG)) :: UWORD)) = (ucast (drop_bit 24 w) :: UBYTE)"
  "ucast (ucast (drop_bit 16 w) :: UWORD) = (ucast (drop_bit 16 w) :: UBYTE)"
  "ucast (drop_bit 8 (ucast w :: UWORD)) = (ucast (drop_bit 8 w) :: UBYTE)"
  "ucast (ucast w :: UWORD) = (ucast w :: UBYTE)"
  by (rule bit_word_eqI; auto simp: bit_simps)+

lemma put16_eq:
  assumes "even out_at" and "even i" and "i + 2 \<le> length xs"
  shows "ami_sana2_gso_put16 out_at i v xs = Some (put2 xs i (ucast (drop_bit 8 v)) (ucast v))"
  using assms by (simp add: ami_sana2_gso_put16_def be16_def wr_range_put2)

lemma put32_eq:
  assumes "even out_at" and "even i" and "i + 4 \<le> length xs"
  shows "ami_sana2_gso_put32 out_at i v xs =
    Some (put2 (put2 xs i (ucast (drop_bit 24 v)) (ucast (drop_bit 16 v))) (i + 2) (ucast (drop_bit 8 v)) (ucast v))"
proof -
  have "wr_range xs i (a @ b) = Option.bind (wr_range xs i a) (\<lambda>ys. wr_range ys (i + 2) b)"
    if "length a = 2" "length b = 2" for a b :: "UBYTE list"
  proof -
    have "i + 2 + 2 = i + 4" "i + 2 \<le> length xs" using assms(3) by simp_all
    moreover have "i + 2 \<le> length xs - 2" "drop (Suc (Suc (Suc (Suc i)))) xs = drop (i + 4) xs"
      using assms(3) by (simp_all add: eval_nat_numeral)
    ultimately show ?thesis using that assms(3) by (simp add: wr_range_def)
  qed
  from this [of "[ucast (drop_bit 24 v), ucast (drop_bit 16 v)]" "[ucast (drop_bit 8 v), ucast v]"]
  show ?thesis using assms by (simp add: ami_sana2_gso_put32_def be32_def wr_range_put2)
qed

lemma emit_direct_eq:
  assumes "even out_at" and "4 dvd t" and "t + 18 \<le> length xs"
  shows "emit_direct t f c out_at xs = Some (gso_patch t f c xs)"
proof -
  have t: "even t" using assms(2) by auto
  have flag: "wr_range ys (t + 13) [b] = Some (ys[t + 13 := b])" if "length ys = length xs" for ys :: "UBYTE list" and b
    using that assms(3) by (simp add: wr_range_def upd_conv_take_nth_drop)
  show ?thesis
    using assms(1,3) t by (simp add: emit_direct_def put16_eq put32_eq flag gso_patch_def Let_def seq_halves add.commute [of 6 t])
qed

lemma emit_eq:
  assumes h: "holds p hdr" and len: "length hdr = g_ihl g + g_thl g" and "4 dvd g_ihl g"
    and "frm \<le> to" and "to \<le> length hdr"
  shows "ami_sana2_gso_emit g p f c out_at frm to = Some (take (to - frm) (drop frm (gso_patch (g_ihl g) f c hdr)))"
proof -
  have rd: "rd_range (pk_mem p) (pk_prepend p + frm) (to - frm) = Some (take (to - frm) (drop frm hdr))"
    using assms(4,5) by (intro holds_range [OF h]) simp
  show ?thesis
  proof (cases "frm = 0 \<and> g_ihl g + 18 \<le> to \<and> even out_at")
    case True
    then have "g_ihl g + 18 \<le> length (take to hdr)" using assms(5) by simp
    moreover have "gso_patch t f c (take to xs) = take to (gso_patch t f c xs)" for t xs
      by (simp add: gso_patch_def put2_def Let_def take_update_swap)
    ultimately show ?thesis
      using True rd emit_direct_eq [of out_at "g_ihl g" "take to hdr" f c] assms(3)
      by (simp add: ami_sana2_gso_emit_def)
  next
    case False
    then show ?thesis using rd by (simp only: ami_sana2_gso_emit_def emit_pokes_eq if_False bind.bind_lunit if_not_P)
  qed
qed

section \<open>The fields\<close>

lemma unat_ucast_word16: "unat (w :: ULONG) < 65536 \<Longrightarrow> unat (ucast w :: UWORD) = unat w"
  by (simp add: unsigned_ucast_eq take_bit_eq_mod unat_mod)

lemma unat_not_low: "unat w < 65536 \<Longrightarrow> unat (NOT w AND 0xFFFF :: ULONG) = 65535 - unat w"
proof -
  assume "unat w < 65536"
  then have "4294967295 - unat w = 65535 - unat w + 65536 * 65535" by simp
  then have "(4294967295 - unat w) mod 65536 = (65535 - unat w) mod 65536" by (simp only: mod_mult_self2)
  then show ?thesis by (simp add: unat_and_ffff unat_complement)
qed

text \<open>RFC 1624: the checksum of a header in which two words changed.\<close>

lemma incremental:
  assumes h: "65535 dvd r + m + i + hc" and "m \<le> 65535" "i \<le> 65535" "hc \<le> 65535"
    and c: "c = 65535 - ones ((65535 - hc) + ((65535 - m) + m') + ((65535 - i) + i'))"
  shows "65535 dvd r + m' + i' + c"
proof -
  define x where "x = (65535 - hc) + ((65535 - m) + m') + ((65535 - i) + i')"
  have le: "ones x \<le> 65535" by (simp add: eac_le)
  have "int x mod 65535 = int (ones x) mod 65535" using eac_mod [of 65535 x] by (metis of_nat_mod of_nat_numeral)
  then have d: "65535 dvd int x - int (ones x)" by (simp only: mod_eq_dvd_iff)
  have x: "int x = 196605 - int hc - int m - int i + int m' + int i'" using assms(2-4) by (simp add: x_def)
  have "int c = 65535 - int (ones x)" using c le by (simp add: x_def)
  then have "int (r + m' + i' + c) = int (r + m + i + hc) + (int x - int (ones x)) - 131070" using x by simp
  moreover have "(65535 :: int) dvd int (r + m + i + hc)" using h by presburger
  moreover have "(65535 :: int) dvd 131070" by simp
  ultimately have "(65535 :: int) dvd int (r + m' + i' + c)" using d by (metis dvd_add dvd_diff)
  then show ?thesis by presburger
qed

text \<open>The headers a parsed block has: whole in the first buffer, IPv4 and TCP, not a fragment.\<close>

definition gso_template :: "AmiTxGso \<Rightarrow> UBYTE list \<Rightarrow> bool" where
  "gso_template g hdr \<longleftrightarrow>
     length hdr = g_ihl g + g_thl g \<and> unat (hdr ! 0) div 16 = 4 \<and> v4_ihl hdr = g_ihl g \<and> 20 \<le> g_ihl g \<and>
     unat (hdr ! 9) = P_TCP \<and> f16 hdr 6 mod 16384 = 0 \<and> 4 dvd g_thl g \<and> 20 \<le> g_thl g \<and> g_thl g \<le> 60"

lemma gso_template_dvd: "gso_template g hdr \<Longrightarrow> 4 dvd g_ihl g \<and> g_ihl g \<le> 60"
proof -
  assume "gso_template g hdr"
  then have "g_ihl g = 4 * (unat (hdr ! 0) mod 16)" by (simp add: gso_template_def v4_ihl_def)
  moreover have "unat (hdr ! 0) mod 16 < 16" by simp
  ultimately show ?thesis by simp
qed

lemma fields_eq:
  assumes h: "holds p hdr" and t: "gso_template g hdr" and slice: "ami_sana2_gso_slice g seg = (off, n)"
    and fits: "g_ihl g + g_thl g + n \<le> 65535"
  obtains f where "ami_sana2_gso_fields g seg p = Some f" and "f_seg_len f = n"
    and "unat (f_ip_len f) = g_ihl g + g_thl g + n"
    and "unat (f_ip_id f) = (f16 hdr 4 + seg) mod 65536"
    and "f_seq f = be_val (take 4 (drop (g_ihl g + 4) hdr)) + of_nat off"
    and "f_flags f = gso_flags g seg (hdr ! (g_ihl g + 13))"
    and "unat (f_ip_sum f) = 65535 - ones ((65535 - f16 hdr 10) + ((65535 - f16 hdr 2) + unat (f_ip_len f))
            + ((65535 - f16 hdr 4) + unat (f_ip_id f)))"
proof -
  define ihl where "ihl = g_ihl g"
  have len: "40 \<le> length hdr" "ihl + 20 \<le> length hdr" using t by (simp_all add: gso_template_def ihl_def)
  then have "2 + 2 \<le> length hdr" "4 + 2 \<le> length hdr" "10 + 2 \<le> length hdr" "ihl + 4 + 2 \<le> length hdr" "ihl + 6 + 2 \<le> length hdr"
    by simp_all
  then obtain ol oi hc hi lo where r: "ami_sana2_tx_be16 p 2 = Some ol" "unat ol = f16 hdr 2"
      "ami_sana2_tx_be16 p 4 = Some oi" "unat oi = f16 hdr 4" "ami_sana2_tx_be16 p 10 = Some hc" "unat hc = f16 hdr 10"
      "ami_sana2_tx_be16 p (ihl + 4) = Some hi" "unat hi = f16 hdr (ihl + 4)"
      "ami_sana2_tx_be16 p (ihl + 6) = Some lo" "unat lo = f16 hdr (ihl + 6)"
    by (metis holds_be16 [OF h])
  have fl: "ip8 p (ihl + 13) = Some (hdr ! (ihl + 13))" using len by (intro holds_ip8 [OF h]) simp
  define il where "il = (of_nat (ihl + g_thl g + n) :: UWORD)"
  define ii where "ii = (ucast (oi + of_nat seg) :: UWORD)"
  define s where "s = (NOT hc AND 0xFFFF) + ((NOT ol AND 0xFFFF) + ucast il) + ((NOT oi AND 0xFFFF) + ucast ii)"
  have il: "unat il = ihl + g_thl g + n" using fits by (simp add: il_def ihl_def unat_of_nat del: of_nat_add)
  have ii: "unat ii = (f16 hdr 4 + seg) mod 65536"
  proof -
    have "unat (oi + of_nat seg) = (f16 hdr 4 + seg) mod 4294967296"
      by (simp add: unat_word_ariths r(4) unat_of_nat mod_add_right_eq)
    then show ?thesis by (simp add: ii_def unsigned_ucast_eq take_bit_eq_mod unat_mod mod_mod_cancel)
  qed
  have lt: "unat ol < 65536" "unat oi < 65536" "unat hc < 65536" using r f16_lt by simp_all
  have u: "unat (ucast il :: ULONG) = unat il" "unat (ucast ii :: ULONG) = unat ii" by (simp_all add: unat_ucast_up)
  have small: "unat il < 65536" "unat ii < 65536" using unat_lt2p [of il] unat_lt2p [of ii] by simp_all
  have "unat s = (65535 - f16 hdr 10) + ((65535 - f16 hdr 2) + unat il) + ((65535 - f16 hdr 4) + unat ii)"
    using lt small unfolding s_def by (simp add: unat_word_ariths unat_not_low u r)
  then have "unat (NOT (ami_sana2_gso_fold s) AND 0xFFFF) = 65535 - ones ((65535 - f16 hdr 10) + ((65535 - f16 hdr 2) + unat il)
            + ((65535 - f16 hdr 4) + unat ii))"
    using eac_le [of 65535 "unat s"] by (subst unat_not_low) (simp_all add: unat_gso_fold)
  then have sum: "unat (ucast (NOT (ami_sana2_gso_fold s) AND 0xFFFF) :: UWORD) = 65535 - ones ((65535 - f16 hdr 10)
      + ((65535 - f16 hdr 2) + unat il) + ((65535 - f16 hdr 4) + unat ii))"
    by (subst unat_ucast_word16) simp_all
  have seq: "push_bit 16 hi OR lo = be_val (take 4 (drop (ihl + 4) hdr))"
  proof -
    obtain a b c d where abcd: "take 4 (drop (ihl + 4) hdr) = [a, b, c, d]"
        "f16 hdr (ihl + 4) = unat a * 256 + unat b" "f16 hdr (ihl + 6) = unat c * 256 + unat d"
      using len by (simp add: f16_def eval_nat_numeral take_Suc_conv_app_nth)
    then have "unat hi = unat (be_val [a, b])" "unat lo = unat (be_val [c, d])"
      using r by (simp_all add: unat_be_val2)
    then have "hi = be_val [a, b]" "lo = be_val [c, d]" by (blast intro: unsigned_word_eqI)+
    then show ?thesis unfolding abcd
      by (auto intro!: bit_word_eqI simp: be_val_def be_step_def bit_simps)
  qed
  show thesis
  proof (rule that)
    show "ami_sana2_gso_fields g seg p = Some \<lparr>f_seq = (push_bit 16 hi OR lo) + of_nat off, f_seg_len = n, f_ip_len = il, f_ip_id = ii,
           f_ip_sum = ucast (NOT (ami_sana2_gso_fold s) AND 0xFFFF), f_flags = gso_flags g seg (hdr ! (ihl + 13))\<rparr>"
      using r fl slice by (simp add: ami_sana2_gso_fields_def ihl_def [symmetric] Let_def il_def ii_def s_def)
  qed (use il ii seq sum in \<open>simp_all add: ihl_def unat_ucast_word16\<close>)
qed

section \<open>The IPv4 header of a child\<close>

lemma be16_bytes: "unat (ucast (drop_bit 8 (v :: UWORD)) :: UBYTE) * 256 + unat (ucast v :: UBYTE) = unat v"
proof -
  have "unat v < 65536" using unat_lt2p [of v] by simp
  then show ?thesis
    by (simp add: unsigned_ucast_eq take_bit_eq_mod unat_drop_bit_eq unat_mod) (simp add: drop_bit_eq_div)
qed

lemma patch_f16:
  assumes "20 \<le> t" and "t + 18 \<le> length xs"
  shows "f16 (gso_patch t f c xs) 2 = unat (f_ip_len f)" and "f16 (gso_patch t f c xs) 4 = unat (f_ip_id f)"
    and "f16 (gso_patch t f c xs) 10 = unat (f_ip_sum f)" and "f16 (gso_patch t f c xs) 6 = f16 xs 6"
    and "gso_patch t f c xs ! 0 = xs ! 0" and "gso_patch t f c xs ! 9 = xs ! 9"
  using assms by (simp_all add: gso_patch_def Let_def f16_put2_other f16_update_other f16_put2 be16_bytes nth_put2_other)

lemma take_put2: "take n (put2 xs i a b) = put2 (take n xs) i a b"
  by (simp add: put2_def take_update_swap)

lemma put2_beyond: "length xs \<le> i \<Longrightarrow> put2 xs i a b = xs"
  by (simp add: put2_def list_update_beyond)

text \<open>The IPv4 header changes in three words; its addresses do not.\<close>

lemma patch_ip:
  assumes "20 \<le> t" and "t + 18 \<le> length xs"
  shows "be16_sum (take t (gso_patch t f c xs)) + (f16 xs 2 + f16 xs 4 + f16 xs 10)
       = be16_sum (take t xs) + (unat (f_ip_len f) + unat (f_ip_id f) + unat (f_ip_sum f))"
    and "take 8 (drop 12 (gso_patch t f c xs)) = take 8 (drop 12 xs)"
proof -
  define ys where "ys = take t xs"
  have len: "length ys = t" using assms by (simp add: ys_def)
  define y1 where "y1 = put2 ys 2 (ucast (drop_bit 8 (f_ip_len f))) (ucast (f_ip_len f))"
  define y2 where "y2 = put2 y1 4 (ucast (drop_bit 8 (f_ip_id f))) (ucast (f_ip_id f))"
  define y3 where "y3 = put2 y2 10 (ucast (drop_bit 8 (f_ip_sum f))) (ucast (f_ip_sum f))"
  have y: "take t (gso_patch t f c xs) = y3"
    using assms by (simp add: gso_patch_def Let_def take_put2 take_update_swap put2_beyond list_update_beyond y1_def y2_def y3_def ys_def)
  have f: "f16 ys i = f16 xs i" if "i + 1 < t" for i using that by (simp add: f16_def ys_def)
  have "f16 y1 4 = f16 xs 4" "f16 y2 10 = f16 xs 10"
    using assms(1) by (simp_all add: y1_def y2_def f16_put2_other f)
  then show "be16_sum (take t (gso_patch t f c xs)) + (f16 xs 2 + f16 xs 4 + f16 xs 10)
       = be16_sum (take t xs) + (unat (f_ip_len f) + unat (f_ip_id f) + unat (f_ip_sum f))"
    using be16_sum_put2 [of 2 ys "ucast (drop_bit 8 (f_ip_len f))" "ucast (f_ip_len f)"]
      be16_sum_put2 [of 4 y1 "ucast (drop_bit 8 (f_ip_id f))" "ucast (f_ip_id f)"]
      be16_sum_put2 [of 10 y2 "ucast (drop_bit 8 (f_ip_sum f))" "ucast (f_ip_sum f)"] assms(1) len f [of 2]
    unfolding y by (simp add: y1_def [symmetric] y2_def [symmetric] y3_def [symmetric] be16_bytes ys_def [symmetric])
       (simp add: y1_def y2_def)
  show "take 8 (drop 12 (gso_patch t f c xs)) = take 8 (drop 12 xs)"
    by (rule nth_equalityI)
       (use assms in \<open>auto simp: gso_patch_def Let_def nth_put2_other nth_list_update\<close>)
qed

lemma child_ip_valid:
  assumes t: "gso_template g hdr" and valid: "sum_valid (be16_sum (take (g_ihl g) hdr))"
    and sum: "unat (f_ip_sum f) = 65535 - ones ((65535 - f16 hdr 10) + ((65535 - f16 hdr 2) + unat (f_ip_len f))
            + ((65535 - f16 hdr 4) + unat (f_ip_id f)))"
  shows "sum_valid (be16_sum (take (g_ihl g) (gso_patch (g_ihl g) f c hdr)))"
proof -
  define ihl where "ihl = g_ihl g"
  define H H' where "H = be16_sum (take ihl hdr)" and "H' = be16_sum (take ihl (gso_patch ihl f c hdr))"
  have len: "20 \<le> ihl" "ihl + 18 \<le> length hdr" using t by (simp_all add: gso_template_def ihl_def)
  have eq: "H' + (f16 hdr 2 + f16 hdr 4 + f16 hdr 10) = H + (unat (f_ip_len f) + unat (f_ip_id f) + unat (f_ip_sum f))"
    using patch_ip(1) [OF len, of f c] by (simp add: H_def H'_def)
  have ge: "f16 hdr 2 + f16 hdr 4 + f16 hdr 10 \<le> H"
  proof -
    have "take ihl hdr = take 12 hdr @ drop 12 (take ihl hdr)" using append_take_drop_id [of 12 "take ihl hdr"] len(1) by (simp add: min_absorb1)
    then have "be16_sum (take 12 hdr) \<le> H"
      using be16_sum_append [of "take 12 hdr" "drop 12 (take ihl hdr)"] len by (simp add: H_def)
    moreover have "be16_sum (take 12 hdr) = f16 hdr 0 + (f16 hdr 2 + (f16 hdr 4 + (f16 hdr 6 + (f16 hdr 8 + f16 hdr 10))))"
      using len be16_sum_step [of 0 5 hdr] be16_sum_step [of 2 4 hdr] be16_sum_step [of 4 3 hdr] be16_sum_step [of 6 2 hdr]
        be16_sum_step [of 8 1 hdr] be16_sum_step [of 10 0 hdr]
      by (simp add: numeral_2_eq_2 [symmetric])
    ultimately show ?thesis by simp
  qed
  define r where "r = H - (f16 hdr 2 + f16 hdr 4 + f16 hdr 10)"
  have H: "H = r + f16 hdr 2 + f16 hdr 4 + f16 hdr 10" using ge by (simp add: r_def)
  then have H': "H' = r + unat (f_ip_len f) + unat (f_ip_id f) + unat (f_ip_sum f)" using eq by simp
  have "65535 dvd H'"
    unfolding H'
  proof (rule incremental)
    show "65535 dvd r + f16 hdr 2 + f16 hdr 4 + f16 hdr 10"
      using valid H by (simp add: sum_valid_def H_def ihl_def dvd_eq_mod_eq_0)
  qed (use f16_lt [of hdr 2] f16_lt [of hdr 4] f16_lt [of hdr 10] sum in simp_all)
  moreover have "0 < H'"
  proof -
    have "gso_patch ihl f c hdr ! 0 = hdr ! 0" using patch_f16(5) [OF len] by simp
    moreover have "hdr ! 0 \<noteq> 0" using t by (auto simp: gso_template_def)
    moreover have "take ihl (gso_patch ihl f c hdr) ! 0 = gso_patch ihl f c hdr ! 0" "0 < length (take ihl (gso_patch ihl f c hdr))"
      using len by auto
    ultimately have "\<exists>x \<in> set (take ihl (gso_patch ihl f c hdr)). x \<noteq> 0" by (metis nth_mem)
    then show ?thesis using be16_sum_eq_0 [of "take ihl (gso_patch ihl f c hdr)"] by (auto simp: H'_def)
  qed
  ultimately show ?thesis by (simp add: sum_valid_def H'_def ihl_def dvd_eq_mod_eq_0)
qed

section \<open>The TCP checksum of a child\<close>

lemma seq_words:
  "unat (ucast (drop_bit 24 (w :: ULONG)) :: UBYTE) * 256 + unat (ucast (drop_bit 16 w) :: UBYTE) = unat (drop_bit 16 w)"
  "unat (ucast (drop_bit 8 w) :: UBYTE) * 256 + unat (ucast w :: UBYTE) = unat (w AND 0xFFFF)"
proof -
  have hi: "ucast (drop_bit 16 w) = (ucast (drop_bit 16 w :: ULONG) :: UWORD)" ..
  have "unat (ucast (drop_bit 16 w) :: UWORD) = unat (drop_bit 16 w)"
    using unat_lt2p [of w] by (intro unat_ucast_word16) (simp add: unat_high_16)
  then show "unat (ucast (drop_bit 24 w) :: UBYTE) * 256 + unat (ucast (drop_bit 16 w) :: UBYTE) = unat (drop_bit 16 w)"
    using be16_bytes [of "ucast (drop_bit 16 w)"] by (simp add: seq_halves)
  have "unat (ucast w :: UWORD) = unat (w AND 0xFFFF)"
    by (simp add: unat_and_ffff unsigned_ucast_eq take_bit_eq_mod unat_mod)
  then show "unat (ucast (drop_bit 8 w) :: UBYTE) * 256 + unat (ucast w :: UBYTE) = unat (w AND 0xFFFF)"
    using be16_bytes [of "ucast w"] by (simp add: seq_halves)
qed

text \<open>The word the loop adds is the patched header's, the checksum field zero.\<close>

lemma finish_word:
  assumes h: "holds p hdr" and "20 \<le> t" and "even i" and "t + i + 2 \<le> length hdr"
  obtains v where "(if i = 4 then Some (drop_bit 16 (f_seq f))
          else if i = 6 then Some (f_seq f AND 0xFFFF)
          else if i = 12 then map_option (\<lambda>b. push_bit 8 (ucast b) OR ucast (f_flags f)) (ip8 p (t + 12))
          else if i \<noteq> 16 then ami_sana2_tx_be16 p (t + i) else Some 0) = Some v"
    and "unat v = f16 (gso_patch t f 0 hdr) (t + i)"
proof -
  let ?H = "gso_patch t f 0 hdr"
  consider "i = 4" | "i = 6" | "i = 12" | "i = 16" | "i \<notin> {4, 6, 12, 16}" by blast
  then show thesis
  proof cases
    case 1
    then show ?thesis using that assms(2,4)
      by (simp add: gso_patch_def Let_def f16_put2_other f16_update_other f16_put2 seq_words)
  next
    case 2
    then show ?thesis using that assms(2,4)
      by (simp add: gso_patch_def Let_def f16_put2_other f16_update_other f16_put2 seq_words)
  next
    case 3
    have b: "ip8 p (t + 12) = Some (hdr ! (t + 12))" using assms(4) 3 by (intro holds_ip8 [OF h]) simp
    have "f16 ?H (t + 12) = unat (hdr ! (t + 12)) * 256 + unat (f_flags f)"
      using assms(2,4) 3 by (simp add: gso_patch_def Let_def f16_put2_other add.commute [of 13 t] f16_def nth_put2_other)
    moreover have "unat (push_bit 8 (ucast x) OR ucast y :: ULONG) = unat x * 256 + unat y" for x y :: UBYTE
      using unat_be_step [of "ucast x" y] unat_lt2p [of x] by (simp add: be_step_def unat_ucast_up)
    ultimately show ?thesis using that 3 b by simp
  next
    case 4
    then show ?thesis using that [of 0] assms(4) by (simp add: gso_patch_def Let_def f16_put2)
  next
    case 5
    obtain w where w: "ami_sana2_tx_be16 p (t + i) = Some w" "unat w = f16 hdr (t + i)"
      by (rule holds_be16 [OF h assms(4)])
    have "i \<noteq> 5" "i \<noteq> 7" "i \<noteq> 13" "i \<noteq> 17" "i \<noteq> 3" "i \<noteq> 15" "i + 2 \<le> 4 \<or> 8 \<le> i" "i + 2 \<le> 12 \<or> 14 \<le> i"  "i + 2 \<le> 16 \<or> 18 \<le> i"
      using assms(3) 5 by auto
    then have "f16 ?H (t + i) = f16 hdr (t + i)"
      using assms(2) by (auto simp: gso_patch_def Let_def f16_put2_other f16_update_other)
    then show ?thesis using that w 5 by simp
  qed
qed

lemma finish_loop_eq:
  assumes h: "holds p hdr" and "20 \<le> t" and "even i" and "t + i + 2 * n \<le> length hdr" and "unat s + 65535 * n < 2 ^ 32"
  shows "\<exists>s'. finish_loop n p t f i s = Some s' \<and>
           unat s' = unat s + be16_sum (take (2 * n) (drop (t + i) (gso_patch t f 0 hdr)))"
  using assms(3-5)
proof (induction n arbitrary: i s)
  case (Suc n)
  have "t + i + 2 \<le> length hdr" using Suc.prems(2) by simp
  then obtain v where v: "(if i = 4 then Some (drop_bit 16 (f_seq f))
          else if i = 6 then Some (f_seq f AND 0xFFFF)
          else if i = 12 then map_option (\<lambda>b. push_bit 8 (ucast b) OR ucast (f_flags f)) (ip8 p (t + 12))
          else if i \<noteq> 16 then ami_sana2_tx_be16 p (t + i) else Some 0) = Some v"
      "unat v = f16 (gso_patch t f 0 hdr) (t + i)"
    by (rule finish_word [OF h assms(2) Suc.prems(1)])
  have "unat v \<le> 65535" using v(2) f16_lt [of "gso_patch t f 0 hdr" "t + i"] by simp
  then have s: "unat (s + v) = unat s + unat v" using Suc.prems(3) by (intro unat_add_nowrap) simp
  have "t + (i + 2) + 2 * n \<le> length hdr" "unat (s + v) + 65535 * n < 2 ^ 32" "even (i + 2)"
    using Suc.prems s \<open>unat v \<le> 65535\<close> by simp_all
  then obtain s' where "finish_loop n p t f (i + 2) (s + v) = Some s'"
      "unat s' = unat (s + v) + be16_sum (take (2 * n) (drop (t + (i + 2)) (gso_patch t f 0 hdr)))"
    using Suc.IH by blast
  moreover have "be16_sum (take (2 * Suc n) (drop (t + i) (gso_patch t f 0 hdr)))
      = f16 (gso_patch t f 0 hdr) (t + i) + be16_sum (take (2 * n) (drop (t + i + 2) (gso_patch t f 0 hdr)))"
    using Suc.prems(2) by (intro be16_sum_step) simp
  ultimately show ?case using v s by (simp add: add.assoc)
qed simp

text \<open>The checksum field is written last: patching with it adds its value to a zero field.\<close>

lemma patch_put2: "gso_patch t f c xs = put2 (gso_patch t f 0 xs) (t + 16) (ucast (drop_bit 8 c)) (ucast c)"
proof -
  have "put2 ys i a b = put2 (put2 ys i x y) i a b" for ys :: "UBYTE list" and i a b x y
    by (simp add: put2_def list_update_swap [of i "Suc i"])
  then show ?thesis unfolding gso_patch_def Let_def by blast
qed

lemma drop_put2: "drop t (put2 xs (t + i) a b) = put2 (drop t xs) i a b"
  by (simp add: put2_def drop_update_swap)

lemma patch_tcp_sum:
  assumes "t + 18 \<le> length xs"
  shows "be16_sum (drop t (gso_patch t f c xs)) = be16_sum (drop t (gso_patch t f 0 xs)) + unat c"
proof -
  define ys where "ys = drop t (gso_patch t f 0 xs)"
  have "f16 (gso_patch t f 0 xs) (t + 16) = 0" using assms by (simp add: gso_patch_def Let_def f16_put2)
  then have "f16 ys 16 = 0" using assms by (simp add: ys_def f16_def add.commute [of 17 t])
  moreover have "drop t (gso_patch t f c xs) = put2 ys 16 (ucast (drop_bit 8 c)) (ucast c)"
    by (subst patch_put2) (simp only: drop_put2 ys_def)
  moreover have "16 + 2 \<le> length ys" using assms by (simp add: ys_def)
  ultimately show ?thesis
    using be16_sum_put2 [of 16 ys "ucast (drop_bit 8 c)" "ucast c"] be16_bytes [of c] by (simp add: ys_def)
qed

lemma be16_sum_bound: "be16_sum xs \<le> 65535 * length xs"
proof (induction xs rule: be16_sum.induct)
  case (2 b)
  then show ?case using unat_lt2p [of b] by simp
next
  case (3 a b xs)
  then show ?case using unat_lt2p [of a] unat_lt2p [of b] by simp
qed simp

lemma finish_eq:
  assumes h: "holds p hdr" and t: "gso_template g hdr" and len: "f_seg_len f = length xs"
    and fits: "g_thl g + length xs \<le> 65535" and psum: "ones (unat payload_sum) = ones (be16_sum xs)"
  obtains c where "ami_sana2_gso_finish g p f payload_sum = Some c" and "unat c \<le> 65535"
    and "transport_valid (take 8 (drop 12 hdr)) P_TCP (drop (g_ihl g) (gso_patch (g_ihl g) f (ucast c) hdr) @ xs)"
proof -
  define ihl thl where "ihl = g_ihl g" and "thl = g_thl g"
  have th: "even thl" "20 \<le> thl" "thl \<le> 60" "20 \<le> ihl" "length hdr = ihl + thl"
    using t by (auto simp: gso_template_def ihl_def thl_def)
  define tcp where "tcp = drop ihl (gso_patch ihl f 0 hdr)"
  have ltcp: "length tcp = thl" using th by (simp add: tcp_def)
  define s0 where "s0 = ami_sana2_gso_fold payload_sum"
  have s0: "unat s0 = ones (be16_sum xs)" using psum by (simp add: s0_def unat_gso_fold)
  then have s0_le: "unat s0 \<le> 65535" by (simp add: eac_le)
  have n: "2 * ((thl + 1) div 2) = thl" "(thl + 1) div 2 \<le> 30" using th by auto
  then have "ihl + 0 + 2 * ((thl + 1) div 2) \<le> length hdr" "unat s0 + 65535 * ((thl + 1) div 2) < 2 ^ 32"
    using th s0_le by auto
  then obtain s where s: "finish_loop ((thl + 1) div 2) p ihl f 0 s0 = Some s"
      "unat s = unat s0 + be16_sum (take (2 * ((thl + 1) div 2)) (drop (ihl + 0) (gso_patch ihl f 0 hdr)))"
    using finish_loop_eq [OF h th(4), of 0 "(thl + 1) div 2" s0 f] by auto
  have su: "unat s = unat s0 + be16_sum tcp" using s(2) unfolding n by (simp add: tcp_def th)
  define l where "l = (of_nat (thl + length xs) :: ULONG)"
  have l: "unat l = thl + length xs" using fits by (simp add: l_def thl_def unat_of_nat del: of_nat_add)
  obtain ph where ph: "ami_sana2_tx_pseudo_header p l = Some ph"
      "unat ph = ones (be16_sum (take 8 (drop 12 hdr)) + 6 + unat l)"
    using pseudo_header_eq [OF h, of l] th fits l by (auto simp: thl_def)
  have ph_le: "unat ph \<le> 65535" by (simp add: ph(2) eac_le)
  have tcp_le: "be16_sum tcp \<le> 65535 * 60" using be16_sum_bound [of tcp] ltcp th by simp
  then have spu: "unat (s + ph) = unat s + unat ph" using su s0_le ph_le by (intro unat_add_nowrap) simp
  define n0 where "n0 = be16_sum xs + be16_sum tcp + (be16_sum (take 8 (drop 12 hdr)) + 6 + (thl + length xs))"
  have "ones (unat s0 + be16_sum tcp + unat ph) = ones n0"
    unfolding n0_def s0 ph(2) l by (intro eac_add_cong refl) simp_all
  then have close: "ones (unat (s + ph)) = ones n0" by (simp add: spu su)
  define c where "c = complement16 (ami_sana2_gso_fold (s + ph))"
  note cl = checksum_closes [OF close, folded c_def]
  have "ami_sana2_gso_finish g p f payload_sum = Some c"
    using s(1) ph(1) by (simp add: ami_sana2_gso_finish_def len ihl_def [symmetric] thl_def [symmetric] s0_def [symmetric]
        l_def [symmetric] c_def del: of_nat_add)
  moreover have "transport_valid (take 8 (drop 12 hdr)) P_TCP (drop ihl (gso_patch ihl f (ucast c) hdr) @ xs)"
  proof -
    have cu: "unat (ucast c :: UWORD) = unat c" using cl(2) by (intro unat_ucast_word16) simp
    have "be16_sum (drop ihl (gso_patch ihl f (ucast c) hdr) @ xs)
        = be16_sum (drop ihl (gso_patch ihl f (ucast c) hdr)) + be16_sum xs"
      using th by (intro be16_sum_append) simp
    also have "\<dots> = be16_sum tcp + unat c + be16_sum xs"
      using th by (subst patch_tcp_sum) (simp_all add: tcp_def cu)
    finally show ?thesis using cl(1) th by (simp add: transport_valid_def n0_def ac_simps)
  qed
  ultimately show thesis using that cl(2) by (simp add: ihl_def)
qed

end
