(* ===== verification/Gso_Block.thy ===== *)
theory Gso_Block
  imports Gso_Child
begin

text \<open>
  The block: what \<open>ami_sana2_gso_parse\<close> guarantees of the parent it accepts, how the slices of
  \<open>ami_sana2_gso_slice\<close> cover the payload, and that \<open>ami_sana2_gso_place\<close> finds the buffer in which a
  slice starts, from whatever buffer it found the last one in.
\<close>

section \<open>A parent\<close>

definition chain_bytes :: "NX_PACKET list \<Rightarrow> UBYTE list" where
  "chain_bytes chain = concat (map pk_data chain)"

abbreviation (input) hdr_len :: "AmiTxGso \<Rightarrow> nat" where "hdr_len g \<equiv> g_ihl g + g_thl g"

definition gso_payload :: "AmiTxGso \<Rightarrow> NX_PACKET list \<Rightarrow> UBYTE list" where
  "gso_payload g chain = drop (hdr_len g) (chain_bytes chain)"

text \<open>A chain whose buffers are whole and whose length field is true.\<close>

definition parent_ok :: "NX_PACKET list \<Rightarrow> bool" where
  "parent_ok chain \<longleftrightarrow> chain \<noteq> [] \<and> list_all buf_ok chain \<and> unat (pk_length (hd chain)) = length (chain_bytes chain)"

text \<open>The extent of a block: at least one child, every child but the last full, the last not empty.\<close>

definition extent_ok :: "AmiTxGso \<Rightarrow> nat \<Rightarrow> bool" where
  "extent_ok g plen \<longleftrightarrow> 0 < g_mss g \<and> 0 < g_segs g \<and> g_segs g < 256 \<and> g_end g \<le> plen \<and>
     g_base g + (g_segs g - 1) * g_mss g < g_end g \<and> g_end g \<le> g_base g + g_segs g * g_mss g"

definition block_ok :: "AmiTxGso \<Rightarrow> NX_PACKET list \<Rightarrow> bool" where
  "block_ok g chain \<longleftrightarrow> parent_ok chain \<and> hdr_len g \<le> length (pk_data (hd chain)) \<and>
     gso_template g (take (hdr_len g) (chain_bytes chain)) \<and> length (chain_bytes chain) \<le> 65535 \<and>
     extent_ok g (length (gso_payload g chain))"

definition place_ok :: "AmiTxGso \<Rightarrow> NX_PACKET list \<Rightarrow> bool" where
  "place_ok g chain \<longleftrightarrow> (case g_cur_buf g of None \<Rightarrow> True
     | Some i \<Rightarrow> i < length chain \<and> g_cur_start g = int (length (chain_bytes (take i chain))) - int (hdr_len g))"

lemma chain_bytes_hd: "chain \<noteq> [] \<Longrightarrow> n \<le> length (pk_data (hd chain)) \<Longrightarrow> take n (chain_bytes chain) = take n (pk_data (hd chain))"
  by (cases chain) (simp_all add: chain_bytes_def)

lemma holds_data: "buf_ok p \<Longrightarrow> n \<le> length (pk_data p) \<Longrightarrow> holds p (take n (pk_data p))"
proof -
  assume p: "buf_ok p" and n: "n \<le> length (pk_data p)"
  have "pk_prepend p + length (pk_data p) \<le> length (pk_mem p)" using p by (auto simp: length_buf buf_ok_def)
  moreover have "take n (pk_data p) = take n (drop (pk_prepend p) (pk_mem p))"
    using n p by (simp add: length_buf pk_data_def pk_size_def min_absorb1)
  ultimately show ?thesis using n by (simp add: holds_def)
qed

lemma segs_bounds:
  assumes "0 < m" and "0 < (n :: nat)"
  shows "((n + m - 1) div m - 1) * m < n" and "n \<le> (n + m - 1) div m * m" and "0 < (n + m - 1) div m"
proof -
  define q where "q = (n + m - 1) div m"
  have "m \<le> n + m - 1" using assms by simp
  then show pos: "0 < (n + m - 1) div m" using assms(1) by (simp add: div_greater_zero_iff)
  have le: "q * m \<le> n + m - 1" unfolding q_def by (rule div_times_less_eq_dividend)
  have lt: "n + m - 1 < q * m + m" using dividend_less_div_times [OF assms(1), of "n + m - 1"] by (simp add: q_def)
  show "n \<le> (n + m - 1) div m * m" using lt assms(1) unfolding q_def by simp
  have "(q - 1) * m = q * m - m" by (simp add: diff_mult_distrib)
  then show "((n + m - 1) div m - 1) * m < n" using le assms unfolding q_def [symmetric] by linarith
qed

lemma extent_eq:
  assumes "gso_extent info repair payload = Some (base, fin, segs)" and "0 < info_mss info" and "0 < payload"
    and "g_mss g = info_mss info" "g_base g = base" "g_end g = fin" "g_segs g = segs"
  shows "extent_ok g payload"
proof (cases repair)
  case True
  then have "base = info_offset info" "fin = base + info_length info" "segs = 1" "0 < info_length info"
      "info_length info \<le> info_mss info" "fin \<le> payload"
    using assms(1) by (auto simp: gso_extent_def Let_def split: if_splits)
  then show ?thesis using assms(2,4-7) by (simp add: extent_ok_def)
next
  case False
  then have e: "base = 0" "fin = payload" "segs = (payload + info_mss info - 1) div info_mss info" "segs < 256"
    using assms(1) by (auto simp: gso_extent_def Let_def split: if_splits)
  show ?thesis
    using segs_bounds [OF assms(2,3)] e assms(2,4-7) by (simp add: extent_ok_def)
qed

lemma parse_block:
  assumes ok: "parent_ok chain" and parse: "ami_sana2_gso_parse api info (hd chain) mtu g0 = Some (Some g)"
  shows "block_ok g chain" and "place_ok g chain" and "g_mss g = info_mss info"
    and "mtu \<noteq> 0 \<Longrightarrow> hdr_len g + g_mss g \<le> mtu"
    and "\<not> g_repair g \<Longrightarrow> g_base g = 0 \<and> g_end g = length (gso_payload g chain)"
    and "g_repair g \<Longrightarrow> g_base g = info_offset info \<and> g_end g = info_offset info + info_length info \<and> g_segs g = 1"
proof -
  define p where "p = hd chain"
  define d where "d = pk_data p"
  have p: "buf_ok p" using ok by (cases chain) (auto simp: parent_ok_def p_def)
  have ld: "pk_append p - pk_prepend p = length d" using length_buf [OF p] by (simp add: d_def)
  have h: "holds p d" using holds_data [OF p, of "length d"] by (simp add: d_def)
  obtain repair where mode: "info_mode api info (pk_prepend p) = Some repair" and room: "4 \<le> pk_prepend p" "info_mss info \<noteq> 0"
      and d40: "40 \<le> length d"
    using parse ld by (auto simp: ami_sana2_gso_parse_def p_def [symmetric] Let_def split: if_splits option.splits)
  have rd: "ip8 p 0 = Some (d ! 0)" "ip8 p 9 = Some (d ! 9)" using d40 by (auto intro: holds_ip8 [OF h])
  define ihl where "ihl = v4_ihl d"
  have ihl: "unat (d ! 0 AND 0x0F) * 4 = ihl" by (simp add: ihl_def v4_ihl_def and_0f)
  have "\<not> (d ! 0 AND 0xF0 \<noteq> 0x40 \<or> d ! 9 \<noteq> 6 \<or> ihl < 20 \<or> length d < ihl + 20)"
    using parse unfolding p_def [symmetric] ami_sana2_gso_parse_def [of api info p mtu g0, unfolded Let_def ld mode option.case rd ihl
        bind.bind_lunit]
    by (auto simp del: bind_eq_Some_conv split: if_splits)
  then have g1: "unat (d ! 0) div 16 = 4" "unat (d ! 9) = P_TCP" "20 \<le> ihl" "ihl + 20 \<le> length d" "d ! 0 AND 0xF0 = 0x40" "d ! 9 = 6"
    by (simp_all add: and_f0)
  then have "6 + 2 \<le> length d" by simp
  then obtain frag where frag: "ami_sana2_tx_be16 p 6 = Some frag" "unat frag = f16 d 6" by (rule holds_be16 [OF h])
  have rd2: "ip8 p (ihl + 12) = Some (d ! (ihl + 12))" "ip8 p (ihl + 13) = Some (d ! (ihl + 13))"
    using g1 holds_ip8 [OF h] by auto
  define thl where "thl = unat (drop_bit 4 (d ! (ihl + 12))) * 4"
  define len where "len = unat (pk_length p)"
  have len: "len = length (chain_bytes chain)" using ok by (simp add: parent_ok_def len_def p_def)
  note unf = ami_sana2_gso_parse_def [of api info p mtu g0, unfolded Let_def ld mode option.case rd ihl bind.bind_lunit
      rd2 frag(1) thl_def [symmetric] len_def [symmetric]]
  have run: "\<not> (frag AND 0x3FFF \<noteq> 0 \<or> thl < 20 \<or> length d < ihl + thl
       \<or> d ! (ihl + 13) AND (AMI_TCP_SYN OR AMI_TCP_RST OR AMI_TCP_URG) \<noteq> 0
       \<or> len \<le> ihl + thl \<or> 0xFFFF < len \<or> (mtu \<noteq> 0 \<and> mtu < ihl + thl + info_mss info))"
    and "gso_extent info repair (len - ihl - thl) \<noteq> None"
    using parse unfolding p_def [symmetric] unf by (auto split: if_splits option.splits)
  then obtain base fin segs where ex: "gso_extent info repair (len - ihl - thl) = Some (base, fin, segs)" by auto
  have g: "g = g0\<lparr>g_cur_buf := Some 0, g_cur_start := - int (ihl + thl), g_base := base mod 65536, g_end := fin mod 65536,
       g_repair := repair, g_tail := (repair \<and> fin = len - ihl - thl), g_mss := info_mss info, g_ihl := ihl, g_thl := thl,
       g_segs := segs mod 256\<rparr>"
    using parse ex unfolding p_def [symmetric] unf by (auto split: if_splits)
  have lens: "ihl + thl < len" "len \<le> 65535" using run by auto
  have small: "base < 65536" "fin < 65536" "segs < 256"
    using ex lens by (auto simp: gso_extent_def Let_def split: if_splits)
  have pl: "length (gso_payload g chain) = len - ihl - thl" by (simp add: gso_payload_def g len)
  have thl: "4 dvd thl" "thl \<le> 60"
  proof -
    have "unat (drop_bit 4 (d ! (ihl + 12))) < 16"
      using unat_lt2p [of "d ! (ihl + 12)"] by (simp add: unat_drop_bit_eq) (simp add: drop_bit_eq_div)
    then show "4 dvd thl" "thl \<le> 60" by (simp_all add: thl_def)
  qed
  have fit: "ihl + thl \<le> length d" using run by auto
  have hd_take: "take (ihl + thl) (chain_bytes chain) = take (ihl + thl) d"
    using ok fit by (simp add: chain_bytes_hd parent_ok_def d_def p_def)
  have ihl': "v4_ihl (take (ihl + thl) d) = ihl" using g1 by (simp add: v4_ihl_def ihl_def)
  have "f16 d 6 mod 16384 = 0" using run frag by (simp add: and_3fff)
  then have "gso_template g (take (ihl + thl) d)"
    using g1 thl run fit by (simp add: gso_template_def g ihl' f16_def)
  moreover have "extent_ok g (len - ihl - thl)"
    using ex small room lens by (intro extent_eq [where info = info and repair = repair]) (simp_all add: g)
  ultimately show "block_ok g chain"
    using ok fit lens pl len hd_take by (simp add: block_ok_def g d_def p_def)
  show "place_ok g chain" using ok by (simp add: place_ok_def g parent_ok_def chain_bytes_def)
  show "g_mss g = info_mss info" by (simp add: g)
  show "hdr_len g + g_mss g \<le> mtu" if "mtu \<noteq> 0" using that run by (simp add: g)
  show "g_base g = 0 \<and> g_end g = length (gso_payload g chain)" if "\<not> g_repair g"
    using that ex small unfolding pl by (auto simp: g gso_extent_def Let_def split: if_splits)
  show "g_base g = info_offset info \<and> g_end g = info_offset info + info_length info \<and> g_segs g = 1" if "g_repair g"
    using that ex small by (auto simp: g gso_extent_def Let_def split: if_splits)
qed

section \<open>Slices\<close>

lemma slice_eq:
  assumes "extent_ok g plen" and "seg < g_segs g" and "plen < 2 ^ 32"
  shows "ami_sana2_gso_slice g seg = (g_base g + seg * g_mss g, min (g_mss g) (g_end g - (g_base g + seg * g_mss g)))"
    and "g_base g + seg * g_mss g < g_end g"
proof -
  have "seg * g_mss g \<le> (g_segs g - 1) * g_mss g" using assms(2) by (intro mult_le_mono1) simp
  then show lt: "g_base g + seg * g_mss g < g_end g" using assms(1) unfolding extent_ok_def by linarith
  define off where "off = g_base g + seg * g_mss g"
  have "g_end g < 2 ^ 32" using assms by (simp add: extent_ok_def)
  then have "g_end g - off < 2 ^ 32" "off \<le> g_end g" using lt by (simp_all add: off_def)
  moreover from this have "g_end g + 2 ^ 32 - off = g_end g - off + 2 ^ 32" by simp
  ultimately have "(g_end g + 2 ^ 32 - off) mod 2 ^ 32 = g_end g - off" by (simp only: mod_add_self2 mod_less)
  then show "ami_sana2_gso_slice g seg = (g_base g + seg * g_mss g, min (g_mss g) (g_end g - (g_base g + seg * g_mss g)))"
    by (simp add: ami_sana2_gso_slice_def Let_def off_def [symmetric] min_def)
qed

definition gso_child_payload :: "AmiTxGso \<Rightarrow> UBYTE list \<Rightarrow> nat \<Rightarrow> UBYTE list" where
  "gso_child_payload g xs seg = (case ami_sana2_gso_slice g seg of (off, n) \<Rightarrow> take n (drop off xs))"

lemma slices_prefix:
  assumes "extent_ok g (length xs)" and "length xs < 2 ^ 32" and "k \<le> g_segs g"
  shows "concat (map (gso_child_payload g xs) [0..<k]) = take (min (k * g_mss g) (g_end g - g_base g)) (drop (g_base g) xs)"
  using assms(3)
proof (induction k)
  case (Suc k)
  define m where "m = k * g_mss g"
  have s: "ami_sana2_gso_slice g k = (g_base g + m, min (g_mss g) (g_end g - (g_base g + m)))" "g_base g + m < g_end g"
    using slice_eq [OF assms(1) _ assms(2), of k] Suc.prems by (simp_all add: m_def)
  have m: "min m (g_end g - g_base g) = m" using s(2) by simp
  have "concat (map (gso_child_payload g xs) [0..<Suc k]) =
      take m (drop (g_base g) xs) @ take (min (g_mss g) (g_end g - (g_base g + m))) (drop m (drop (g_base g) xs))"
    using Suc m gso_child_payload_def [of g xs k, unfolded s(1)] by (simp add: m_def [symmetric] add.commute)
  also have "\<dots> = take (m + min (g_mss g) (g_end g - (g_base g + m))) (drop (g_base g) xs)" by (rule take_add [symmetric])
  also have "m + min (g_mss g) (g_end g - (g_base g + m)) = min (Suc k * g_mss g) (g_end g - g_base g)"
    using s(2) unfolding mult_Suc m_def [symmetric] by linarith
  finally show ?case .
qed simp

lemma slices_cover:
  assumes "extent_ok g (length xs)" and "length xs < 2 ^ 32"
  shows "concat (map (gso_child_payload g xs) [0..<g_segs g]) = take (g_end g - g_base g) (drop (g_base g) xs)"
proof -
  have "min (g_segs g * g_mss g) (g_end g - g_base g) = g_end g - g_base g"
    using assms(1) unfolding extent_ok_def by (intro min_absorb2) linarith
  then show ?thesis using slices_prefix [OF assms order.refl] by simp
qed

section \<open>Finding a slice\<close>

lemma ahead_bytes:
  assumes "i < length chain" and "off \<le> length (pk_data (chain ! i))"
  shows "ahead chain (Some i) off = drop (length (chain_bytes (take i chain)) + off) (chain_bytes chain)"
proof -
  have "chain_bytes chain = chain_bytes (take i chain) @ pk_data (chain ! i) @ chain_bytes (drop (i + 1) chain)"
    using id_take_nth_drop [OF assms(1)] unfolding chain_bytes_def by (metis Suc_eq_plus1 concat.simps(2) concat_append list.map(2) map_append)
  then show ?thesis using assms(2) by (simp add: ahead_def chain_bytes_def)
qed

lemma bytes_Suc: "i < length chain \<Longrightarrow> chain_bytes (take (i + 1) chain) = chain_bytes (take i chain) @ pk_data (chain ! i)"
  by (simp add: chain_bytes_def take_Suc_conv_app_nth)

text \<open>The loop finds the buffer of payload offset \<open>seg_off\<close>, and it starts there or before.\<close>

lemma place_loop_eq:
  assumes "list_all buf_ok chain" and "i < length chain" and "start = int (length (chain_bytes (take i chain))) - int h"
    and "start \<le> int seg_off" and "h + seg_off < length (chain_bytes chain)"
  shows "\<exists>j start'. place_loop chain seg_off (Some i) start = Some (Some j, start') \<and> j < length chain \<and>
           start' = int (length (chain_bytes (take j chain))) - int h \<and> start' \<le> int seg_off \<and>
           int seg_off < start' + int (length (pk_data (chain ! j)))"
  using assms(2-4)
proof (induction "length chain - i" arbitrary: i start)
  case (Suc n)
  define p where "p = chain ! i"
  have ok: "buf_ok p" using assms(1) Suc.prems(1) by (simp add: p_def list_all_length)
  have size: "int (pk_append p) - int (pk_prepend p) = int (length (pk_data p))"
    using ok length_buf [OF ok] by (auto simp: buf_ok_def)
  note unf = place_loop.simps [of chain seg_off "Some i" start]
  show ?case
  proof (cases "int seg_off < start + int (length (pk_data p))")
    case True
    then have "place_loop chain seg_off (Some i) start = Some (Some i, start)"
      using Suc.prems(1) by (subst unf) (simp add: Let_def p_def [symmetric] size)
    then show ?thesis using Suc.prems True by (auto simp: p_def)
  next
    case False
    have next_start: "start + int (length (pk_data p)) = int (length (chain_bytes (take (i + 1) chain))) - int h"
      using Suc.prems(1,2) bytes_Suc [of i chain] by (simp add: p_def)
    have "i + 1 < length chain"
    proof (rule ccontr)
      assume "\<not> i + 1 < length chain"
      then have "take (i + 1) chain = chain" by simp
      then have "int seg_off \<ge> int (length (chain_bytes chain)) - int h" using False next_start by simp
      then show False using assms(5) by simp
    qed
    moreover from this have "place_loop chain seg_off (Some i) start = place_loop chain seg_off (Some (i + 1)) (start + int (length (pk_data p)))"
      using Suc.prems(1) False by (subst unf) (simp add: Let_def p_def [symmetric] size next_buf_def)
    moreover have "n = length chain - (i + 1)" using Suc.hyps(2) by simp
    ultimately show ?thesis using Suc.hyps(1) [of "i + 1" "start + int (length (pk_data p))"] next_start False by auto
  qed
qed simp

text \<open>A slot placed on child \<open>seg\<close>: the bytes ahead of its cursor are the payload from the slice on.\<close>

definition placed :: "AmiGsoSlot \<Rightarrow> AmiTxGso \<Rightarrow> NX_PACKET list \<Rightarrow> bool" where
  "placed slot g chain \<longleftrightarrow> ts_packet slot = chain \<and> gs_seg_index slot < g_segs g \<and> cursor_ok chain (gs_seg_buf slot) \<and>
     gs_seg_buf slot \<noteq> None \<and> gs_seg_buf_off slot \<le> 131070 \<and>
     ahead chain (gs_seg_buf slot) (gs_seg_buf_off slot) = drop (fst (ami_sana2_gso_slice g (gs_seg_index slot))) (gso_payload g chain)"

text \<open>What placing changes of the block is its cursor alone.\<close>

definition same_block :: "AmiTxGso \<Rightarrow> AmiTxGso \<Rightarrow> bool" where
  "same_block g g' \<longleftrightarrow> g' = g\<lparr>g_cur_buf := g_cur_buf g', g_cur_start := g_cur_start g'\<rparr>"

lemma place_eq:
  assumes b: "block_ok g chain" and pl: "place_ok g chain" and seg: "seg < g_segs g"
  obtains slot' g' where "ami_sana2_gso_place slot g chain seg = Some (hdr_len g + snd (ami_sana2_gso_slice g seg), slot', g')"
    and "placed slot' g chain" and "same_block g g'" and "place_ok g' chain" and "gs_seg_index slot' = seg"
    and "\<not> gs_seg_summed slot'" and "gs_tx_tcp slot' = gs_tx_tcp slot"
    and "gs_gso slot' = gs_gso slot"
proof -
  define h where "h = hdr_len g"
  have ext: "extent_ok g (length (gso_payload g chain))" "length (gso_payload g chain) < 2 ^ 32"
    using b by (auto simp: block_ok_def gso_payload_def)
  note sl = slice_eq [OF ext(1) seg ext(2)]
  define off where "off = g_base g + seg * g_mss g"
  have seg_mod: "seg mod 256 = seg" using seg ext(1) by (simp add: extent_ok_def)
  have chain: "list_all buf_ok chain" "chain \<noteq> []" "length (chain_bytes chain) \<le> 65535" using b by (auto simp: block_ok_def parent_ok_def)
  have inside: "h + off < length (chain_bytes chain)"
    using sl(2) ext(1) unfolding extent_ok_def gso_payload_def length_drop h_def off_def by linarith
  define i where "i = (if g_cur_buf g = None \<or> int off < g_cur_start g then 0 else the (g_cur_buf g))"
  define st where "st = (if g_cur_buf g = None \<or> int off < g_cur_start g then - int h else g_cur_start g)"
  have start: "i < length chain" "st = int (length (chain_bytes (take i chain))) - int h" "st \<le> int off"
    using pl chain(2) by (auto simp: i_def st_def place_ok_def h_def chain_bytes_def split: option.splits)
  obtain j st' where j: "place_loop chain off (Some i) st = Some (Some j, st')" "j < length chain"
      "st' = int (length (chain_bytes (take j chain))) - int h" "st' \<le> int off" "int off < st' + int (length (pk_data (chain ! j)))"
    using place_loop_eq [OF chain(1) start inside] by blast
  define g1 where "g1 = (if g_cur_buf g = None \<or> int off < g_cur_start g
      then g\<lparr>g_cur_buf := Some 0, g_cur_start := - int (hdr_len g)\<rparr> else g)"
  have g1: "g_cur_buf g1 = Some i" "g_cur_start g1 = st" "same_block g g1" "g_ihl g1 = g_ihl g" "g_thl g1 = g_thl g"
    by (auto simp: g1_def i_def st_def h_def same_block_def)
  define g' where "g' = g1\<lparr>g_cur_buf := Some j, g_cur_start := st'\<rparr>"
  define slot' where "slot' = slot\<lparr>gs_seg_index := seg, ts_packet := chain, gs_seg_buf := Some j, gs_seg_buf_off := nat (int off - st'),
      gs_seg_summed := False\<rparr>"
  have run: "ami_sana2_gso_place slot g chain seg = Some (hdr_len g + snd (ami_sana2_gso_slice g seg), slot', g')"
    using j(1) sl(1) g1
    by (simp add: ami_sana2_gso_place_def seg_mod Let_def off_def [symmetric] g1_def [symmetric] slot'_def g'_def)
  have o: "nat (int off - st') \<le> length (pk_data (chain ! j))" "length (chain_bytes (take j chain)) + nat (int off - st') = h + off"
    using j by simp_all
  have "ahead chain (Some j) (nat (int off - st')) = drop (h + off) (chain_bytes chain)"
    using ahead_bytes [OF j(2) o(1)] o(2) by simp
  then have "placed slot' g chain"
    using seg j(2) o(2) inside chain(3) sl(1)
    by (simp add: placed_def slot'_def cursor_ok_def gso_payload_def h_def [symmetric] off_def add.commute)
  moreover have "same_block g g'" "place_ok g' chain"
    using g1 j by (simp_all add: g'_def same_block_def place_ok_def h_def)
  ultimately show thesis using that [OF run] by (simp add: slot'_def)
qed

end
