(* ===== verification/Gso_Copy.thy ===== *)
theory Gso_Copy
  imports Gso_Block
begin

text \<open>
  The frame of a child, and that \<open>ami_sana2_gso_copy\<close> delivers it: in one call, where the sum comes out
  of the copy, or in as many calls as the device likes, where the payload is summed ahead of the copy.
\<close>

section \<open>The frame\<close>

definition child_frame :: "AmiTxGso \<Rightarrow> AmiGsoFields \<Rightarrow> UWORD \<Rightarrow> UBYTE list \<Rightarrow> UBYTE list \<Rightarrow> nat \<Rightarrow> UBYTE list" where
  "child_frame g f c hdr xs tot = gso_patch (g_ihl g) f c hdr @ xs @ replicate (tot - (length hdr + length xs)) 0"

text \<open>Header template, payload, fields and checksum of child \<open>seg\<close>.\<close>

definition child_of ::
  "AmiTxGso \<Rightarrow> NX_PACKET list \<Rightarrow> nat \<Rightarrow> UBYTE list \<Rightarrow> UBYTE list \<Rightarrow> AmiGsoFields \<Rightarrow> ULONG \<Rightarrow> bool" where
  "child_of g chain seg hdr xs f c \<longleftrightarrow>
     holds (hd chain) hdr \<and> hdr = take (hdr_len g) (chain_bytes chain) \<and> gso_template g hdr \<and>
     xs = gso_child_payload g (gso_payload g chain) seg \<and> length xs = snd (ami_sana2_gso_slice g seg) \<and>
     hdr_len g + length xs \<le> 65535 \<and>
     ami_sana2_gso_fields g seg (hd chain) = Some f \<and> f_seg_len f = length xs \<and>
     unat (f_ip_len f) = hdr_len g + length xs \<and> unat (f_ip_id f) = (f16 hdr 4 + seg) mod 65536 \<and>
     f_seq f = be_val (take 4 (drop (g_ihl g + 4) hdr)) + of_nat (fst (ami_sana2_gso_slice g seg)) \<and>
     f_flags f = gso_flags g seg (hdr ! (g_ihl g + 13)) \<and>
     unat (f_ip_sum f) = 65535 - ones ((65535 - f16 hdr 10) + ((65535 - f16 hdr 2) + unat (f_ip_len f))
            + ((65535 - f16 hdr 4) + unat (f_ip_id f))) \<and>
     (\<forall>s. ones (unat s) = ones (be16_sum xs) \<longrightarrow> ami_sana2_gso_finish g (hd chain) f s = Some c) \<and> unat c \<le> 65535 \<and>
     transport_valid (take 8 (drop 12 hdr)) P_TCP (drop (g_ihl g) (gso_patch (g_ihl g) f (ucast c) hdr) @ xs)"

lemma finish_cong: "ones (unat s) = ones (unat s') \<Longrightarrow> ami_sana2_gso_finish g p f s = ami_sana2_gso_finish g p f s'"
proof -
  assume "ones (unat s) = ones (unat s')"
  then have "ami_sana2_gso_fold s = ami_sana2_gso_fold s'" by (metis unat_gso_fold unsigned_word_eqI)
  then show ?thesis by (simp add: ami_sana2_gso_finish_def)
qed

lemma child_exists:
  assumes b: "block_ok g chain" and seg: "seg < g_segs g"
  obtains hdr xs f c where "child_of g chain seg hdr xs f c"
proof -
  define hdr where "hdr = take (hdr_len g) (chain_bytes chain)"
  define xs where "xs = gso_child_payload g (gso_payload g chain) seg"
  have ext: "extent_ok g (length (gso_payload g chain))" "length (gso_payload g chain) < 2 ^ 32"
    and tmpl: "gso_template g hdr" and len: "length (chain_bytes chain) \<le> 65535"
    using b by (auto simp: block_ok_def gso_payload_def hdr_def)
  obtain off n where sl: "ami_sana2_gso_slice g seg = (off, n)" by (cases "ami_sana2_gso_slice g seg")
  have "off < g_end g" "n \<le> g_end g - off" using slice_eq [OF ext(1) seg ext(2)] sl by auto
  then have n: "length xs = n" "off + n \<le> length (gso_payload g chain)"
    using ext(1) by (auto simp: extent_ok_def xs_def gso_child_payload_def sl)
  have "buf_ok (hd chain)" "chain \<noteq> []" using b by (cases chain; auto simp: block_ok_def parent_ok_def)+
  then have h: "holds (hd chain) hdr"
    using b holds_data [of "hd chain" "hdr_len g"] by (simp add: hdr_def chain_bytes_hd block_ok_def)
  have fits: "hdr_len g + n \<le> 65535"
  proof -
    have "hdr_len g \<le> length (chain_bytes chain)" using tmpl by (auto simp: gso_template_def hdr_def)
    then show ?thesis using n(2) len by (simp add: gso_payload_def)
  qed
  obtain f where f: "ami_sana2_gso_fields g seg (hd chain) = Some f" "f_seg_len f = n"
      "unat (f_ip_len f) = hdr_len g + n" "unat (f_ip_id f) = (f16 hdr 4 + seg) mod 65536"
      "f_seq f = be_val (take 4 (drop (g_ihl g + 4) hdr)) + of_nat off"
      "f_flags f = gso_flags g seg (hdr ! (g_ihl g + 13))"
      "unat (f_ip_sum f) = 65535 - ones ((65535 - f16 hdr 10) + ((65535 - f16 hdr 2) + unat (f_ip_len f))
            + ((65535 - f16 hdr 4) + unat (f_ip_id f)))"
    by (rule fields_eq [OF h tmpl sl fits])
  define s0 where "s0 = (of_nat (ones (be16_sum xs)) :: ULONG)"
  have "ones (be16_sum xs) \<le> 65535" by (simp add: eac_le)
  then have "unat s0 = ones (be16_sum xs)" by (simp add: s0_def unat_of_nat)
  then have s0: "ones (unat s0) = ones (be16_sum xs)" by simp
  have "f_seg_len f = length xs" "g_thl g + length xs \<le> 65535" using f(2) n(1) fits by simp_all
  then obtain c where c: "ami_sana2_gso_finish g (hd chain) f s0 = Some c" "unat c \<le> 65535"
      "transport_valid (take 8 (drop 12 hdr)) P_TCP (drop (g_ihl g) (gso_patch (g_ihl g) f (ucast c) hdr) @ xs)"
    using finish_eq [OF h tmpl _ _ s0] by blast
  have fin: "ami_sana2_gso_finish g (hd chain) f s = Some c" if "ones (unat s) = ones (be16_sum xs)" for s
    using that s0 c(1) by (metis finish_cong)
  have "child_of g chain seg hdr xs f c"
    unfolding child_of_def n(1) sl fst_conv snd_conv
    using h tmpl f c(2,3) fits fin by (intro conjI hdr_def xs_def refl) (simp_all only: simp_thms, blast)
  then show thesis by (rule that)
qed

lemma childD:
  assumes "child_of g chain seg hdr xs f c"
  shows "holds (hd chain) hdr" and "gso_template g hdr" and "hdr = take (hdr_len g) (chain_bytes chain)"
    and "xs = gso_child_payload g (gso_payload g chain) seg" and "length xs = snd (ami_sana2_gso_slice g seg)"
    and "hdr_len g + length xs \<le> 65535"
    and "ami_sana2_gso_fields g seg (hd chain) = Some f" and "f_seg_len f = length xs"
    and "unat (f_ip_len f) = hdr_len g + length xs"
    and "unat (f_ip_sum f) = 65535 - ones ((65535 - f16 hdr 10) + ((65535 - f16 hdr 2) + unat (f_ip_len f))
            + ((65535 - f16 hdr 4) + unat (f_ip_id f)))"
    and "ones (unat s) = ones (be16_sum xs) \<Longrightarrow> ami_sana2_gso_finish g (hd chain) f s = Some c"
    and "unat c \<le> 65535"
    and "transport_valid (take 8 (drop 12 hdr)) P_TCP (drop (g_ihl g) (gso_patch (g_ihl g) f (ucast c) hdr) @ xs)"
  using assms unfolding child_of_def by blast+

lemma child_lengths:
  assumes "child_of g chain seg hdr xs f c"
  shows "length hdr = hdr_len g" and "20 \<le> g_ihl g" and "20 \<le> g_thl g" and "4 dvd g_ihl g"
  using childD(2) [OF assms] gso_template_dvd [of g hdr] by (auto simp: gso_template_def)

lemma length_child_frame:
  "length hdr + length xs \<le> tot \<Longrightarrow> length (child_frame g f c hdr xs tot) = tot"
  by (simp add: child_frame_def)

lemma nth_child_frame:
  "i < length hdr \<Longrightarrow> child_frame g f c hdr xs tot ! i = gso_patch (g_ihl g) f c hdr ! i"
  by (simp add: child_frame_def nth_append)

text \<open>The receiving stack accepts the child with both bits.\<close>

lemma child_accepted:
  assumes ch: "child_of g chain seg hdr xs f c" and valid: "sum_valid (be16_sum (take (g_ihl g) hdr))"
  shows "frame_verdict cap (child_frame g f (ucast c) hdr xs tot) = (CAP_IPV4_RX cap OR CAP_TCP_RX cap, False)"
proof -
  define ihl where "ihl = g_ihl g"
  define H where "H = gso_patch ihl f (ucast c) hdr"
  define fr where "fr = child_frame g f (ucast c) hdr xs tot"
  note L = child_lengths [OF ch, folded ihl_def]
  note tmpl = childD(2) [OF ch]
  have fr: "fr = H @ xs @ replicate (tot - (length hdr + length xs)) 0" by (simp add: fr_def child_frame_def H_def ihl_def)
  have lH: "length H = ihl + g_thl g" by (simp add: H_def L ihl_def)
  have "ihl + 18 \<le> length hdr" using L by (simp add: ihl_def)
  note P = patch_f16 [OF L(2) this, of f "ucast c", folded H_def]
  note Q = patch_ip(2) [OF L(2) \<open>ihl + 18 \<le> length hdr\<close>, of f "ucast c", folded H_def]
  have n: "fr ! i = H ! i" if "i < 40" for i using that L lH by (simp add: fr nth_append)
  have "take 4 fr = take 4 H" using L lH by (simp add: fr)
  have f16: "f16 fr i = f16 H i" if "i < 39" for i using that n [of i] n [of "i + 1"] by (simp add: f16_def)
  have l: "unat (f_ip_len f) = length H + length xs" using childD(9) [OF ch] lH by (simp add: ihl_def)
  have shape: "tcp_shape fr = Some (ihl, length H + length xs)"
  proof -
    have "v4_ihl fr = ihl" using tmpl n [of 0] P(5) by (simp add: v4_ihl_def gso_template_def ihl_def)
    moreover have "length fr = length H + length xs + (tot - (length hdr + length xs))" by (simp add: fr)
    ultimately show ?thesis
      using tmpl L lH n f16 P l by (simp add: tcp_shape_def gso_template_def)
  qed
  have ip: "take ihl fr = take ihl H" using lH by (simp add: fr)
  have "sum_valid (be16_sum (take ihl H))"
    using child_ip_valid [OF tmpl valid childD(10) [OF ch], of "ucast c"] by (simp add: H_def ihl_def)
  moreover have "take 8 (drop 12 fr) = take 8 (drop 12 hdr)" using L lH Q by (simp add: fr)
  moreover have "take (length H + length xs - ihl) (drop ihl fr) = drop ihl H @ xs" using lH by (simp add: fr)
  moreover have "transport_valid (take 8 (drop 12 hdr)) P_TCP (drop ihl H @ xs)"
    using childD(13) [OF ch] by (simp add: H_def ihl_def)
  ultimately show ?thesis
    using tcp_accepted [OF shape, of cap] ip by (simp add: fr_def)
qed

section \<open>The copy in pieces\<close>

lemma walk_keeps:
  "ami_sana2_gso_walk chain want cur off to len at acc out = Some (True, cur', rest) \<Longrightarrow> cur \<noteq> None \<Longrightarrow> cur' \<noteq> None"
proof (induction chain want cur off to len at acc out rule: ami_sana2_gso_walk.induct)
  case (1 chain want cur off to len at acc out)
  then obtain i where cur: "cur = Some i" by blast
  note unf = ami_sana2_gso_walk.simps [of chain want cur off to len at acc out]
  show ?case
  proof (cases "len = 0")
    case True
    then show ?thesis using 1(3) cur by (subst (asm) unf) auto
  next
    case pos: False
    have inb: "\<not> length chain \<le> i" using 1(3) cur pos by (subst (asm) unf) (auto split: if_splits)
    show ?thesis
    proof (cases "pk_append (chain ! i) - pk_prepend (chain ! i) \<le> off")
      case True
      then have r: "ami_sana2_gso_walk chain want (next_buf chain i) 0 to len at acc out = Some (True, cur', rest)"
        using 1(3) cur pos inb by (subst (asm) unf) (simp add: Let_def)
      show ?thesis
      proof (cases "next_buf chain i")
        case None
        then show ?thesis using r pos by (subst (asm) ami_sana2_gso_walk.simps) simp
      next
        case (Some j)
        then show ?thesis using 1(1) [OF cur pos inb refl refl True] r by simp
      qed
    next
      case False
      then show ?thesis
        using 1(3) cur pos inb 1(2) [OF cur pos inb refl refl False refl _ refl refl] cur
        by (subst (asm) unf) (auto simp: Let_def split: Option.bind_splits)
    qed
  qed
qed

text \<open>The copy has delivered \<open>pos\<close> bytes of the child's frame, \<open>n\<close> bytes of payload ahead of its slice.\<close>

definition copying :: "AmiGsoSlot \<Rightarrow> AmiTxGso \<Rightarrow> NX_PACKET list \<Rightarrow> nat \<Rightarrow> nat \<Rightarrow> bool" where
  "copying slot g chain n pos \<longleftrightarrow> ts_cursor slot \<noteq> None \<and> cursor_ok chain (ts_cursor slot) \<and> unat (ts_consumed slot) = pos \<and>
     unat (ts_cursor_off slot) \<le> 131070 + (min pos (hdr_len g + n) - hdr_len g) \<and>
     ahead chain (ts_cursor slot) (unat (ts_cursor_off slot)) =
       drop (min pos (hdr_len g + n) - hdr_len g)
         (drop (fst (ami_sana2_gso_slice g (gs_seg_index slot))) (gso_payload g chain))"

text \<open>A slot of which only the cursor has moved.\<close>

definition moved :: "AmiGsoSlot \<Rightarrow> AmiGsoSlot \<Rightarrow> bool" where
  "moved slot slot' \<longleftrightarrow>
     slot' = slot\<lparr>ts_cursor := ts_cursor slot', ts_cursor_off := ts_cursor_off slot', ts_consumed := ts_consumed slot'\<rparr>"

lemma movedD:
  assumes "moved slot slot'"
  shows "gs_seg_index slot' = gs_seg_index slot" "ts_packet slot' = ts_packet slot" "gs_seg_buf slot' = gs_seg_buf slot"
    "gs_seg_buf_off slot' = gs_seg_buf_off slot" "gs_tx_tcp slot' = gs_tx_tcp slot" "ts_total slot' = ts_total slot"
    "gs_seg_summed slot' = gs_seg_summed slot" "gs_seg_sum slot' = gs_seg_sum slot" "gs_gso slot' = gs_gso slot"
    "placed slot' g chain = placed slot g chain"
proof -
  note eq = assms [unfolded moved_def]
  show f: "gs_seg_index slot' = gs_seg_index slot" "ts_packet slot' = ts_packet slot" "gs_seg_buf slot' = gs_seg_buf slot"
      "gs_seg_buf_off slot' = gs_seg_buf_off slot" "gs_tx_tcp slot' = gs_tx_tcp slot" "ts_total slot' = ts_total slot"
      "gs_seg_summed slot' = gs_seg_summed slot" "gs_seg_sum slot' = gs_seg_sum slot" "gs_gso slot' = gs_gso slot"
    by (subst eq, simp)+
  show "placed slot' g chain = placed slot g chain" by (simp add: placed_def f)
qed

lemma rewind_copying:
  assumes "placed slot g chain"
  shows "copying (slot\<lparr>ts_cursor := gs_seg_buf slot, ts_cursor_off := of_nat (gs_seg_buf_off slot), ts_consumed := 0\<rparr>) g chain n 0"
proof -
  have "unat (of_nat (gs_seg_buf_off slot) :: ULONG) = gs_seg_buf_off slot"
    using assms by (simp add: placed_def unat_of_nat)
  then show ?thesis using assms by (simp add: placed_def copying_def)
qed

text \<open>Three runs side by side: what is cut out of them is cut out of each.\<close>

lemma cut3:
  assumes "pos \<le> length a + (length b + length c)"
    and n: "n = (if pos < length a then min (length a - pos) len else 0)"
    and m: "m = (if pos + n < length a + length b then min (length a + length b - (pos + n)) (len - n) else 0)"
  shows "take len (drop pos (a @ b @ c)) =
    take n (drop pos a) @ take m (drop (min (pos + n) (length a + length b) - length a) b) @
    take (len - n - m) (drop (pos + n + m - (length a + length b)) c)"
proof -
  have split: "take len (drop pos (xs @ ys)) = take k (drop pos xs) @ take (len - k) (drop (pos + k - length xs) ys)"
    if "k = (if pos < length xs then min (length xs - pos) len else 0)" for len pos k and xs ys :: "'a list"
  proof (cases "pos < length xs")
    case True
    then have "pos + k - length xs = 0" "take (len - (length xs - pos)) ys = take (len - k) ys" "take len (drop pos xs) = take k (drop pos xs)"
      using that by (auto simp: min_def)
    then show ?thesis using True by simp
  qed (use that in simp)
  have "take (len - n) (drop (pos + n - length a) (b @ c)) =
      take m (drop (pos + n - length a) b) @ take (len - n - m) (drop (pos + n - length a + m - length b) c)"
  proof (rule split)
    show "m = (if pos + n - length a < length b then min (length b - (pos + n - length a)) (len - n) else 0)"
    proof (cases "length a \<le> pos + n")
      case True
      then show ?thesis by (auto simp: m)
    next
      case False
      then have "n = len" using n by (auto split: if_splits)
      then show ?thesis by (simp add: m)
    qed
  qed
  moreover have "take (len - n - m) (drop (pos + n - length a + m - length b) c) = take (len - n - m) (drop (pos + n + m - (length a + length b)) c)"
  proof (cases "length a \<le> pos + n")
    case False
    then have "n = len" using n by (auto split: if_splits)
    then show ?thesis by simp
  qed (simp add: add.commute)
  moreover have "take m (drop (pos + n - length a) b) = take m (drop (min (pos + n) (length a + length b) - length a) b)"
    by (cases "pos + n < length a + length b") (simp_all add: m)
  ultimately show ?thesis using split [OF n, of "b @ c"] by simp
qed

lemma cut_arith:
  fixes pos len h x :: nat
  assumes n: "n = (if pos < h then min (h - pos) len else 0)"
    and m: "m = (if pos + n < h + x then min (h + x - (pos + n)) (len - n) else 0)"
  shows "m \<noteq> 0 \<Longrightarrow> min pos (h + x) - h = min (pos + n) (h + x) - h"
    and "m \<noteq> 0 \<Longrightarrow> min (pos + n) (h + x) - h + m \<le> x"
    and "min pos (h + x) - h + m = min (pos + len) (h + x) - h"
    and "h + x \<le> tot \<Longrightarrow> pos + len \<le> tot \<Longrightarrow> len - n - m \<noteq> 0 \<Longrightarrow>
           len - n - m \<le> tot - (h + x) - (pos + n + m - (h + x))"
    and "n \<le> len" and "m \<le> len - n" and "n \<noteq> 0 \<Longrightarrow> pos + n \<le> h"
proof -
  consider "pos + len \<le> h" "n = len" "m = 0" | "pos < h" "h < pos + len" "n = h - pos" "m = min x (len - n)"
    | "h \<le> pos" "n = 0" "pos < h + x" "m = min (h + x - pos) len" | "h + x \<le> pos" "n = 0" "m = 0"
  proof -
    have "n = len \<and> m = 0" if "pos < h" "pos + len \<le> h" using that m by (simp add: n)
    moreover have "n = h - pos \<and> m = min x (len - n)" if "pos < h" "h < pos + len" using that m by (simp add: n)
    moreover have "n = 0 \<and> m = min (h + x - pos) len" if "h \<le> pos" "pos < h + x" using that m by (simp add: n)
    moreover have "n = 0 \<and> m = 0" if "h + x \<le> pos" using that m by (simp add: n)
    ultimately show thesis using that by (metis not_less)
  qed
  note cases = this
  show "m \<noteq> 0 \<Longrightarrow> min pos (h + x) - h = min (pos + n) (h + x) - h" by (cases rule: cases) simp_all
  show "m \<noteq> 0 \<Longrightarrow> min (pos + n) (h + x) - h + m \<le> x" by (cases rule: cases) simp_all
  show "min pos (h + x) - h + m = min (pos + len) (h + x) - h" by (cases rule: cases) linarith+
  show "len - n - m \<le> tot - (h + x) - (pos + n + m - (h + x))"
    if "h + x \<le> tot" "pos + len \<le> tot" "len - n - m \<noteq> 0"
    using that by (cases rule: cases) (auto simp: min_def split: if_splits)
  show "n \<le> len" "m \<le> len - n" "n \<noteq> 0 \<Longrightarrow> pos + n \<le> h" by (cases rule: cases; simp)+
qed

lemma piece_eq:
  assumes ch: "child_of g chain (gs_seg_index slot) hdr xs f c" and b: "block_ok g chain" and pk: "ts_packet slot = chain"
    and at: "copying slot g chain (length xs) pos" and tot: "hdr_len g + length xs \<le> tot" "pos + len \<le> tot" "tot \<le> 65535"
    and sum: "ucast csum = (ucast c :: UWORD)"
  obtains slot' where "gso_copy_piece slot g (hd chain) f csum out_at len =
      Some (True, take len (drop pos (child_frame g f (ucast c) hdr xs tot)), slot')"
    and "copying slot' g chain (length xs) (pos + len)"
    and "moved slot slot'"
proof -
  define h where "h = hdr_len g"
  define off where "off = fst (ami_sana2_gso_slice g (gs_seg_index slot))"
  define pay where "pay = drop off (gso_payload g chain)"
  define H where "H = gso_patch (g_ihl g) f (ucast c) hdr"
  define n where "n = (if pos < h then min (h - pos) len else 0)"
  define m where "m = (if pos + n < h + length xs then min (h + length xs - (pos + n)) (len - n) else 0)"
  note A = cut_arith [OF n_def m_def]
  note L = child_lengths [OF ch]
  have lh: "length H = h" using L by (simp add: H_def h_def)
  have okc: "list_all buf_ok chain" using b by (simp add: block_ok_def parent_ok_def)
  have xs: "xs = take (length xs) pay" "length xs \<le> length pay"
  proof -
    have "xs = take (snd (ami_sana2_gso_slice g (gs_seg_index slot))) pay"
      using childD(4) [OF ch] by (simp add: gso_child_payload_def pay_def off_def split_beta)
    moreover from this have "length xs \<le> length pay" using arg_cong [of xs _ length] by simp
    ultimately show "xs = take (length xs) pay" "length xs \<le> length pay" using childD(5) [OF ch] by simp_all
  qed
  have pos: "unat (ts_consumed slot) = pos" and cu: "ts_cursor slot \<noteq> None" "cursor_ok chain (ts_cursor slot)"
      and ah: "ahead chain (ts_cursor slot) (unat (ts_cursor_off slot)) = drop (min pos (h + length xs) - h) pay"
      and co: "unat (ts_cursor_off slot) \<le> 131070 + (min pos (h + length xs) - h)"
    using at by (simp_all add: copying_def h_def pay_def off_def)
  have n': "(if len \<noteq> 0 \<and> pos < h then min (h - pos) len else 0) = n"
      "(if len - n \<noteq> 0 \<and> pos + n < h + length xs then min (h + length xs - (pos + n)) (len - n) else 0) = m"
    by (auto simp: n_def m_def)
  have hdr: "(if n \<noteq> 0 then ami_sana2_gso_emit g (hd chain) f (ucast csum) out_at pos (pos + n) else Some []) = Some (take n (drop pos H))"
  proof (cases "n = 0")
    case False
    then have "pos + n \<le> length hdr" using L(1) A(7) by (simp add: h_def)
    then show ?thesis
      using emit_eq [OF childD(1) [OF ch] L(1,4), of pos "pos + n" f "ucast c" out_at] False by (simp add: sum H_def)
  qed simp
  obtain cur' off' acc' where walk: "(if m \<noteq> 0
        then ami_sana2_gso_walk chain False (ts_cursor slot) (unat (ts_cursor_off slot)) (Some (out_at + int n)) m 0 0 []
        else Some (True, ts_cursor slot, unat (ts_cursor_off slot), [], 0)) =
      Some (True, cur', off', take m (drop (min (pos + n) (h + length xs) - h) xs), acc')"
    and cur': "cur' \<noteq> None" "cursor_ok chain cur'" "ahead chain cur' off' = drop (min pos (h + length xs) - h + m) pay"
      "off' \<le> unat (ts_cursor_off slot) + m"
  proof (cases "m = 0")
    case True
    then show ?thesis using that [of "ts_cursor slot" "unat (ts_cursor_off slot)" 0] cu ah by simp
  next
    case False
    define k where "k = min (pos + n) (h + length xs) - h"
    have k: "k + m \<le> length xs" "min pos (h + length xs) - h = k" using A(1,2) [OF False] by (simp_all add: k_def)
    have "take m (drop k pay) = take m (drop k xs)"
    proof -
      have "take m (drop k (take (length xs) pay)) = take m (drop k pay)" using k(1) by (simp add: drop_take min_absorb1)
      then show ?thesis using xs(1) by simp
    qed
    moreover have "m \<le> length (ahead chain (ts_cursor slot) (unat (ts_cursor_off slot)))"
      using k xs(2) by (simp add: ah)
    moreover have "unat (0 :: ULONG) + 65535 * m < 2 ^ 32" using k(1) childD(6) [OF ch] by simp
    ultimately obtain cur' off' acc' where w: "ami_sana2_gso_walk chain False (ts_cursor slot) (unat (ts_cursor_off slot))
          (Some (out_at + int n)) m 0 0 [] = Some (True, cur', off', take m (drop k xs), acc')"
        "cursor_ok chain cur'" "ahead chain cur' off' = drop m (drop k pay)" "off' \<le> unat (ts_cursor_off slot) + m"
      using walk_eq [OF okc cu(2), of m "unat (ts_cursor_off slot)" 0 False "Some (out_at + int n)" 0 "[]"] k(2)
      by (auto simp: ah)
    from walk_keeps [OF w(1) cu(1)] show ?thesis
      using that [of cur' off' acc'] w False k(2) by (simp add: k_def add.commute)
  qed
  define slot' where "slot' = slot\<lparr>ts_cursor := cur', ts_cursor_off := of_nat off', ts_consumed := of_nat (pos + len)\<rparr>"
  have out: "take n (drop pos H) @ take m (drop (min (pos + n) (h + length xs) - h) xs) @ replicate (len - n - m) 0
      = take len (drop pos (child_frame g f (ucast c) hdr xs tot))"
  proof -
    define z where "z = replicate (tot - (h + length xs)) (0 :: UBYTE)"
    have fr: "child_frame g f (ucast c) hdr xs tot = H @ xs @ z" by (simp add: child_frame_def H_def z_def L h_def)
    have "take (len - n - m) (drop (pos + n + m - (h + length xs)) z) = replicate (len - n - m) 0"
    proof -
      have "len - n - m \<le> tot - (h + length xs) - (pos + n + m - (h + length xs)) \<or> len - n - m = 0"
        using A(4) [OF tot(1) [folded h_def] tot(2)] by argo
      then show ?thesis by (auto simp: z_def drop_replicate take_replicate min_absorb1)
    qed
    moreover have "pos \<le> length H + (length xs + length z)" using tot by (simp add: lh z_def h_def)
    then have "take len (drop pos (H @ xs @ z)) = take n (drop pos H) @ take m (drop (min (pos + n) (h + length xs) - h) xs)
        @ take (len - n - m) (drop (pos + n + m - (h + length xs)) z)"
      using cut3 [of pos H xs z n len m, unfolded lh, OF _ n_def m_def] by (simp only: lh)
    ultimately show ?thesis unfolding fr by (simp only:)
  qed
  have "gso_copy_piece slot g (hd chain) f csum out_at len =
      Some (True, take len (drop pos (child_frame g f (ucast c) hdr xs tot)), slot')"
  proof -
    have "pos + n + (len - n) = pos + len" using A(5) by simp
    then show ?thesis
      unfolding gso_copy_piece_def Let_def childD(8) [OF ch] pos h_def [symmetric] n' hdr bind.bind_lunit pk walk
      using out by (simp add: slot'_def)
  qed
  moreover have "copying slot' g chain (length xs) (pos + len)"
  proof -
    note A(3)
    moreover have "unat (of_nat (pos + len) :: ULONG) = pos + len" using tot by (simp add: unat_of_nat del: of_nat_add)
    moreover have "off' \<le> 131070 + (min pos (h + length xs) - h + m)" using cur'(4) co by simp
    moreover from this calculation(1) have "unat (of_nat off' :: ULONG) = off'" using childD(6) [OF ch] by (simp add: unat_of_nat h_def)
    ultimately show ?thesis
      using cur' unfolding copying_def slot'_def h_def [symmetric] by (simp add: pay_def off_def del: of_nat_add)
  qed
  ultimately show thesis using that by (simp add: slot'_def moved_def)
qed

section \<open>The copy\<close>

lemma child_slice:
  assumes "child_of g chain seg hdr xs f c"
  shows "take (length xs) (drop (fst (ami_sana2_gso_slice g seg)) (gso_payload g chain)) = xs"
    and "length xs \<le> length (drop (fst (ami_sana2_gso_slice g seg)) (gso_payload g chain))"
proof -
  define pay where "pay = drop (fst (ami_sana2_gso_slice g seg)) (gso_payload g chain)"
  have xs: "xs = take (snd (ami_sana2_gso_slice g seg)) pay"
    using childD(4) [OF assms] by (simp add: gso_child_payload_def pay_def split_beta)
  then show "length xs \<le> length pay" using arg_cong [OF xs, of length] by simp
  show "take (length xs) pay = xs" using xs childD(5) [OF assms] by simp
qed

lemma tcp_field_eq:
  assumes ch: "child_of g chain (gs_seg_index slot) hdr xs f c" and b: "block_ok g chain" and pl: "placed slot g chain"
    and "\<not> gs_tx_tcp slot" and "gs_seg_summed slot \<Longrightarrow> gs_seg_sum slot = ucast c"
  shows "ami_sana2_gso_tcp_field slot g (hd chain) f =
    Some (Some (ucast (ucast c :: UWORD)), slot\<lparr>gs_seg_sum := ucast c, gs_seg_summed := True\<rparr>)"
proof (cases "gs_seg_summed slot")
  case True
  then show ?thesis using assms(4,5) by (simp add: ami_sana2_gso_tcp_field_def)
next
  case False
  have okc: "list_all buf_ok chain" using b by (simp add: block_ok_def parent_ok_def)
  have p: "ts_packet slot = chain" "cursor_ok chain (gs_seg_buf slot)"
      "ahead chain (gs_seg_buf slot) (gs_seg_buf_off slot) = drop (fst (ami_sana2_gso_slice g (gs_seg_index slot))) (gso_payload g chain)"
    using pl by (simp_all add: placed_def)
  have "unat (0 :: ULONG) + 65535 * length xs < 2 ^ 32" using childD(6) [OF ch] by simp
  then obtain cur' off' acc' where w: "ami_sana2_gso_walk chain True (gs_seg_buf slot) (gs_seg_buf_off slot) None (length xs) 0 0 [] =
        Some (True, cur', off', [], acc')" "ones (unat acc') = ones (be16_sum xs)"
    using walk_eq [OF okc p(2), of "length xs" "gs_seg_buf_off slot" 0 True None 0 "[]"] child_slice [OF ch] p(3)
    by (auto simp: shifted_def)
  show ?thesis
    using False assms(4) w(1) childD(11) [OF ch w(2)] by (simp add: ami_sana2_gso_tcp_field_def p(1) childD(8) [OF ch] Let_def)
qed

lemma wr_field:
  assumes "i + 2 \<le> length xs"
  shows "wr_range (xs @ ys) i (field16 c) =
    Some (put2 xs i (ucast (drop_bit 8 (ucast c :: UWORD))) (ucast (ucast c :: UWORD)) @ ys)"
proof -
  have "c AND 0xFF = take_bit 8 c" by (simp add: take_bit_eq_mask mask_numeral)
  moreover have "ucast (take_bit 8 c) = (ucast c :: UBYTE)" by (rule bit_word_eqI) (auto simp: bit_simps)
  ultimately have "field16 c = [ucast (drop_bit 8 (ucast c :: UWORD)), ucast (ucast c :: UWORD)]"
    by (simp add: field16_def seq_halves)
  moreover have "put2 (xs @ ys) i a b = put2 xs i a b @ ys" for a b
    using assms by (simp add: put2_def list_update_append)
  ultimately show ?thesis using assms by (simp add: wr_range_put2)
qed

lemma whole_eq:
  assumes ch: "child_of g chain (gs_seg_index slot) hdr xs f c" and b: "block_ok g chain" and pk: "ts_packet slot = chain"
    and at: "copying slot g chain (length xs) 0" and tot: "hdr_len g + length xs \<le> unat len"
  shows "\<exists>slot'. gso_copy_whole slot g (hd chain) f out_at len = Some (True, child_frame g f (ucast c) hdr xs (unat len), slot') \<and>
    moved slot slot'"
proof -
  define h where "h = hdr_len g"
  note L = child_lengths [OF ch]
  have okc: "list_all buf_ok chain" using b by (simp add: block_ok_def parent_ok_def)
  have hdr: "ami_sana2_gso_emit g (hd chain) f 0 out_at 0 h = Some (gso_patch (g_ihl g) f 0 hdr)"
    using emit_eq [OF childD(1) [OF ch] L(1,4), of 0 h f 0 out_at] L(1) by (simp add: h_def)
  have cu: "cursor_ok chain (ts_cursor slot)"
      "ahead chain (ts_cursor slot) (unat (ts_cursor_off slot)) = drop (fst (ami_sana2_gso_slice g (gs_seg_index slot))) (gso_payload g chain)"
    using at by (simp_all add: copying_def)
  have "unat (0 :: ULONG) + 65535 * length xs < 2 ^ 32" using childD(6) [OF ch] by simp
  then obtain cur' off' acc' where w: "ami_sana2_gso_walk chain True (ts_cursor slot) (unat (ts_cursor_off slot)) (Some (out_at + int h))
        (length xs) 0 0 [] = Some (True, cur', off', xs, acc')" "ones (unat acc') = ones (be16_sum xs)"
    using walk_eq [OF okc cu(1), of "length xs" "unat (ts_cursor_off slot)" 0 True "Some (out_at + int h)" 0 "[]"] child_slice [OF ch] cu(2)
    by (auto simp: shifted_def)
  have "g_ihl g + 16 + 2 \<le> length (gso_patch (g_ihl g) f 0 hdr)" using L by simp
  note field = wr_field [OF this, of "xs @ replicate (unat len - (h + length xs)) 0" c]
  show ?thesis
    unfolding gso_copy_whole_def Let_def h_def [symmetric] hdr bind.bind_lunit pk childD(8) [OF ch] w(1)
    using childD(11) [OF ch w(2)] field patch_put2 [of "g_ihl g" f "ucast c" hdr] L(1)
    by (simp add: child_frame_def h_def moved_def)
qed

text \<open>A slot that has delivered \<open>pos\<close> of the \<open>tot\<close> bytes of its child.\<close>

definition delivering ::
  "AmiGsoSlot \<Rightarrow> AmiTxGso \<Rightarrow> NX_PACKET list \<Rightarrow> UBYTE list \<Rightarrow> UBYTE list \<Rightarrow> AmiGsoFields \<Rightarrow> ULONG \<Rightarrow> nat \<Rightarrow> nat \<Rightarrow> bool" where
  "delivering slot g chain hdr xs f c tot pos \<longleftrightarrow>
     block_ok g chain \<and> placed slot g chain \<and> child_of g chain (gs_seg_index slot) hdr xs f c \<and> \<not> gs_tx_tcp slot \<and>
     unat (ts_total slot) = tot \<and> hdr_len g + length xs \<le> tot \<and> tot \<le> 65535 \<and>
     (gs_seg_summed slot \<longrightarrow> gs_seg_sum slot = ucast c) \<and> pos \<le> tot \<and>
     (pos = 0 \<and> ts_cursor slot = None \<or> pos = tot \<or>
      pos < tot \<and> copying slot g chain (length xs) pos \<and> gs_seg_summed slot)"

lemma gso_copy_step:
  assumes d: "delivering slot g chain hdr xs f c tot pos" and len: "0 < len" "pos + unat len \<le> tot"
  shows "\<exists>slot'. ami_sana2_gso_copy slot g out_at len =
      Some (True, take (unat len) (drop pos (child_frame g f (ucast c) hdr xs tot)), slot') \<and>
    delivering slot' g chain hdr xs f c tot (pos + unat len) \<and> gs_gso slot' = gs_gso slot"
proof -
  have b: "block_ok g chain" and pl: "placed slot g chain" and ch: "child_of g chain (gs_seg_index slot) hdr xs f c"
    and ntcp: "\<not> gs_tx_tcp slot" and tt: "unat (ts_total slot) = tot" and fit: "hdr_len g + length xs \<le> tot" "tot \<le> 65535"
    and summed: "gs_seg_summed slot \<longrightarrow> gs_seg_sum slot = ucast c"
    using d unfolding delivering_def by blast+
  define s1 where "s1 = gso_rewind slot len"
  have lpos: "0 < unat len" using len(1) by (simp add: word_less_nat_alt)
  have s1: "copying s1 g chain (length xs) pos" "moved slot s1"
  proof -
    consider "pos = 0" "ts_cursor slot = None" | "pos < tot" "copying slot g chain (length xs) pos"
      using d lpos len(2) unfolding delivering_def by force
    then have "copying s1 g chain (length xs) pos \<and> moved slot s1"
    proof cases
      case 1
      then show ?thesis using rewind_copying [OF pl] by (simp add: s1_def gso_rewind_def moved_def)
    next
      case 2
      then have "ts_cursor slot \<noteq> None" and con: "unat (ts_consumed slot) = pos" by (simp_all add: copying_def)
      moreover have "\<not> ts_total slot \<le> ts_consumed slot" using 2 con tt by (simp add: word_le_nat_alt)
      moreover have "\<not> ts_total slot - ts_consumed slot < len"
      proof -
        have "unat (ts_total slot - ts_consumed slot) = tot - pos"
          using 2 con tt by (simp add: unat_sub word_le_nat_alt)
        then show ?thesis using len(2) by (simp add: word_less_nat_alt)
      qed
      ultimately have "s1 = slot" by (auto simp: s1_def gso_rewind_def)
      then show ?thesis using 2 by (simp add: moved_def)
    qed
    then show "copying s1 g chain (length xs) pos"
        "moved slot s1" by blast+
  qed
  note same = movedD [OF s1(2)]
  have pl1: "placed s1 g chain" using pl by (simp add: placed_def same)
  then have pk1: "ts_packet s1 = chain" and sb: "gs_seg_buf s1 \<noteq> None" by (simp_all add: placed_def)
  note ch1 = ch [folded same(1)]
  have "chain \<noteq> []" using b by (simp add: block_ok_def parent_ok_def)
  then have rd: "rd (ts_packet slot) 0 = Some (hd chain)" using pl by (simp add: placed_def rd_def hd_conv_nth)
  note run = ami_sana2_gso_copy_def [of slot g out_at len, unfolded rd bind.bind_lunit Let_def s1_def [symmetric] if_not_P [OF sb]
      childD(7) [OF ch1]]
  show ?thesis
  proof (cases "ts_consumed s1 = 0 \<and> len = ts_total s1 \<and> \<not> gs_seg_summed s1")
    case True
    then have p0: "pos = 0" "unat len = tot" using s1(1) tt by (simp_all add: copying_def same)
    have fit': "hdr_len g + length xs \<le> unat len" using fit(1) p0(2) by simp
    obtain s2 where s2: "gso_copy_whole s1 g (hd chain) f out_at len = Some (True, child_frame g f (ucast c) hdr xs (unat len), s2)"
        "moved s1 s2"
      using whole_eq [OF ch1 b pk1 s1(1) [unfolded p0(1)] fit'] by blast
    note same2 = movedD [OF s2(2)] same
    have "delivering s2 g chain hdr xs f c tot (pos + unat len)"
      using d p0 by (simp add: delivering_def same2)
    moreover have "take (unat len) (drop pos (child_frame g f (ucast c) hdr xs tot)) = child_frame g f (ucast c) hdr xs tot"
      using p0 fit child_lengths(1) [OF ch] by (simp add: length_child_frame)
    ultimately show ?thesis using run True s2(1) p0(2) ntcp by (simp add: same same2)
  next
    case False
    define s2 where "s2 = s1\<lparr>gs_seg_sum := ucast c, gs_seg_summed := True\<rparr>"
    have tf: "ami_sana2_gso_tcp_field s1 g (hd chain) f = Some (Some (ucast (ucast c :: UWORD)), s2)"
      unfolding s2_def by (rule tcp_field_eq [OF ch1 b pl1]) (use ntcp summed same in simp_all)
    have ch2: "child_of g chain (gs_seg_index s2) hdr xs f c" "ts_packet s2 = chain" "copying s2 g chain (length xs) pos"
      using ch1 pk1 s1(1) by (simp_all add: s2_def copying_def)
    have "ucast (ucast (ucast c :: UWORD) :: ULONG) = (ucast c :: UWORD)" by (rule bit_word_eqI) (auto simp: bit_simps)
    from piece_eq [OF ch2(1) b ch2(2,3) fit(1) len(2) fit(2) this, of out_at]
    obtain s3 where s3: "gso_copy_piece s2 g (hd chain) f (ucast (ucast c :: UWORD)) out_at (unat len) =
        Some (True, take (unat len) (drop pos (child_frame g f (ucast c) hdr xs tot)), s3)"
      "copying s3 g chain (length xs) (pos + unat len)"
      "moved s2 s3" by blast
    note same3 = movedD [OF s3(3)] same
    have s2: "gs_seg_index s2 = gs_seg_index s1" "gs_tx_tcp s2 = gs_tx_tcp s1" "ts_total s2 = ts_total s1"
        "gs_seg_summed s2" "gs_seg_sum s2 = ucast c" "gs_gso s2 = gs_gso s1" "placed s2 g chain"
      using pl1 by (simp_all add: s2_def placed_def)
    have "delivering s3 g chain hdr xs f c tot (pos + unat len)"
      using d s3(2) len(2) by (auto simp: delivering_def same3 s2)
    then show ?thesis using run False tf s3(1) by (auto simp: same3 s2)
  qed
qed

section \<open>A device that takes the frame in its own pieces\<close>

text \<open>The calls of one frame, one after the other: whether all of them succeeded, and all the bytes.\<close>

primrec copy_calls ::
  "(NX_PACKET list \<Rightarrow> NX_PACKET list) \<Rightarrow> ULONG \<Rightarrow> AmiTxGso \<Rightarrow> AmiGsoSlot \<Rightarrow> (int \<times> ULONG) list \<Rightarrow> (bool \<times> UBYTE list) option" where
  "copy_calls nx_sum tcp_tx g slot [] = Some (True, [])"
| "copy_calls nx_sum tcp_tx g slot (c # cs) = do {
     (ok, out, slot) \<leftarrow> ami_sana2_copy_from_buff nx_sum tcp_tx g slot (fst c) (snd c);
     if ok then map_option (\<lambda>(ok, rest). (ok, out @ rest)) (copy_calls nx_sum tcp_tx g slot cs) else Some (False, out)
   }"

definition calls_cover :: "(int \<times> ULONG) list \<Rightarrow> nat \<Rightarrow> bool" where
  "calls_cover cs n \<longleftrightarrow> list_all (\<lambda>c. 0 < snd c) cs \<and> sum_list (map (unat \<circ> snd) cs) = n"

lemma gso_calls:
  assumes "delivering slot g chain hdr xs f c tot pos" and "gs_gso slot" and "calls_cover cs (tot - pos)"
  shows "copy_calls nx_sum tcp_tx g slot cs = Some (True, drop pos (child_frame g f (ucast c) hdr xs tot))"
  using assms
proof (induction cs arbitrary: slot pos)
  case Nil
  then have "pos = tot" "length hdr + length xs \<le> tot"
    using child_lengths(1) [of g chain "gs_seg_index slot" hdr xs f c] by (auto simp: calls_cover_def delivering_def)
  then show ?case by (simp add: length_child_frame)
next
  case (Cons a cs)
  define len where "len = snd a"
  have len: "0 < len" "pos + unat len \<le> tot" "calls_cover cs (tot - (pos + unat len))"
    using Cons.prems by (auto simp: calls_cover_def len_def delivering_def)
  from gso_copy_step [OF Cons.prems(1) len(1,2), of "fst a"]
  obtain slot' where s: "ami_sana2_gso_copy slot g (fst a) len =
      Some (True, take (unat len) (drop pos (child_frame g f (ucast c) hdr xs tot)), slot')"
    "delivering slot' g chain hdr xs f c tot (pos + unat len)" "gs_gso slot' = gs_gso slot" by blast
  have "ts_packet slot = chain" "chain \<noteq> []" "unat (ts_total slot) = tot"
    using Cons.prems(1) by (simp_all add: delivering_def placed_def block_ok_def parent_ok_def)
  moreover from this have "\<not> ts_total slot < len" using len(2) by (simp add: word_less_nat_alt)
  ultimately have "ami_sana2_copy_from_buff nx_sum tcp_tx g slot (fst a) len = ami_sana2_gso_copy slot g (fst a) len"
    using Cons.prems(2) by (simp add: ami_sana2_copy_from_buff_def)
  moreover have "copy_calls nx_sum tcp_tx g slot' cs = Some (True, drop (pos + unat len) (child_frame g f (ucast c) hdr xs tot))"
    using Cons.IH [OF s(2) _ len(3)] Cons.prems(2) s(3) by simp
  ultimately show ?case
    using s(1) by (simp add: len_def [symmetric] add.commute [of pos] flip: drop_drop)
qed

section \<open>A batch\<close>

lemma frame_len_ge: "hdr_len g + snd (ami_sana2_gso_slice g seg) \<le> ami_sana2_gso_frame_len eth g seg"
  by (simp add: ami_sana2_gso_frame_len_def Let_def)

lemma frame_len_le:
  assumes "child_of g chain seg hdr xs f c"
  shows "ami_sana2_gso_frame_len eth g seg \<le> 65535"
  using childD(5,6) [OF assms] by (simp add: ami_sana2_gso_frame_len_def Let_def)

lemma same_blockD:
  assumes "same_block g g'"
  shows "block_ok g' chain = block_ok g chain" and "placed slot g' chain = placed slot g chain"
    and "child_of g' chain seg hdr xs f c = child_of g chain seg hdr xs f c"
    and "g_thl g' = g_thl g" and "child_frame g' = child_frame g" and "g_segs g' = g_segs g" and "g_ihl g' = g_ihl g"
    and "ami_sana2_gso_slice g' = ami_sana2_gso_slice g" and "gso_payload g' = gso_payload g" and "ami_sana2_gso_frame_len eth g' = ami_sana2_gso_frame_len eth g"
proof -
  note eq = assms [unfolded same_block_def]
  have f: "g_base g' = g_base g" "g_end g' = g_end g" "g_mss g' = g_mss g" "g_ihl g' = g_ihl g" "g_thl g' = g_thl g" "g_segs g' = g_segs g"
      "g_repair g' = g_repair g" "g_tail g' = g_tail g"
    by (subst eq, simp)+
  have sl: "ami_sana2_gso_slice g' = ami_sana2_gso_slice g" by (rule ext) (simp only: ami_sana2_gso_slice_def f)
  have fl: "gso_flags g' = gso_flags g" by (intro ext) (simp only: gso_flags_def f)
  have pay: "gso_payload g' = gso_payload g" by (rule ext) (simp add: gso_payload_def f)
  have tm: "gso_template g' = gso_template g" by (rule ext) (simp add: gso_template_def f)
  have fi: "ami_sana2_gso_fields g' = ami_sana2_gso_fields g" by (intro ext) (simp only: ami_sana2_gso_fields_def f sl fl)
  have fn: "ami_sana2_gso_finish g' = ami_sana2_gso_finish g" by (intro ext) (simp only: ami_sana2_gso_finish_def f)
  show "g_thl g' = g_thl g" "g_segs g' = g_segs g" "g_ihl g' = g_ihl g" by (simp_all only: f)
  show "ami_sana2_gso_slice g' = ami_sana2_gso_slice g" "gso_payload g' = gso_payload g" by (fact sl pay)+
  show "block_ok g' chain = block_ok g chain" by (simp add: block_ok_def extent_ok_def f pay tm)
  show "placed slot g' chain = placed slot g chain" by (simp add: placed_def f sl pay)
  show "child_frame g' = child_frame g" by (intro ext) (simp add: child_frame_def f)
  show "ami_sana2_gso_frame_len eth g' = ami_sana2_gso_frame_len eth g"
    by (rule ext) (simp only: ami_sana2_gso_frame_len_def f sl)
  show "child_of g' chain seg hdr xs f c = child_of g chain seg hdr xs f c"
    by (simp only: child_of_def f sl fl pay tm fi fn gso_child_payload_def)
qed

text \<open>The driver's own children: placed where the index says, in any order, each delivered whole.\<close>

lemma tx_child_eq:
  assumes b: "block_ok g chain" and pl: "place_ok g chain" and idx: "index < gs_batch_count slot" "gs_batch_count slot \<le> g_segs g"
    and slot: "gs_gso slot" "\<not> gs_tx_tcp slot" "ts_packet slot = chain"
    and here: "index = gs_seg_index slot \<Longrightarrow> placed slot g chain \<and> \<not> gs_seg_summed slot"
    and len: "len = ami_sana2_gso_frame_len eth g index"
  shows "\<exists>hdr xs f c slot' g'. ami_sana2_tx_child eth slot g index dst len =
      Some (True, child_frame g f (ucast c) hdr xs len, slot', g') \<and> child_of g chain index hdr xs f c \<and>
      same_block g g' \<and> place_ok g' chain"
proof -
  have seg: "index < g_segs g" using idx by simp
  obtain hdr xs f c where ch: "child_of g chain index hdr xs f c" by (rule child_exists [OF b seg])
  obtain l s1 g1 where s1: "(if index \<noteq> gs_seg_index slot then ami_sana2_gso_place slot g (ts_packet slot) index else Some (len, slot, g))
      = Some (l, s1, g1)" "placed s1 g chain" "same_block g g1" "place_ok g1 chain" "gs_seg_index s1 = index"
      "\<not> gs_seg_summed s1" "\<not> gs_tx_tcp s1"
  proof (cases "index = gs_seg_index slot")
    case True
    have "same_block g g" by (simp add: same_block_def)
    with True here [OF True] pl slot(2) show ?thesis by (intro that [of len slot g]) simp_all
  next
    case False
    obtain s' g' where "ami_sana2_gso_place slot g chain index = Some (hdr_len g + snd (ami_sana2_gso_slice g index), s', g')"
        "placed s' g chain" "same_block g g'" "place_ok g' chain" "gs_seg_index s' = index" "\<not> gs_seg_summed s'" "gs_tx_tcp s' = gs_tx_tcp slot"
        "gs_gso s' = gs_gso slot"
      by (rule place_eq [OF b pl seg])
    with False slot(2,3) show ?thesis by (intro that [of "hdr_len g + snd (ami_sana2_gso_slice g index)" s' g']) simp_all
  qed
  define s2 where "s2 = s1\<lparr>ts_total := of_nat len, ts_cursor := None\<rparr>"
  have small: "len \<le> 65535" using frame_len_le [OF ch] len by simp
  have ge: "hdr_len g + length xs \<le> len" using frame_len_ge [of g index eth] len childD(5) [OF ch] by simp
  have u: "unat (of_nat len :: ULONG) = len" using small by (simp add: unat_of_nat)
  have d: "delivering s2 g1 chain hdr xs f c len 0"
  proof -
    note sb = same_blockD [OF s1(3)]
    show ?thesis
      using b ch s1(2,5-7) ge small u unfolding delivering_def sb by (simp add: s2_def placed_def)
  qed
  have "0 < len" using ge child_lengths(2) [OF ch] by simp
  then have pos: "0 < (of_nat len :: ULONG)" using u by (simp add: word_less_nat_alt)
  have "0 + unat (of_nat len :: ULONG) \<le> len" using u by simp
  from gso_copy_step [OF d pos this, of dst] obtain s3 where s3: "ami_sana2_gso_copy s2 g1 dst (of_nat len) =
      Some (True, child_frame g f (ucast c) hdr xs len, s3)"
    using u ge child_lengths(1) [OF ch] by (auto simp: same_blockD(5) [OF s1(3)] length_child_frame)
  have "ami_sana2_tx_child eth slot g index dst len = Some (True, child_frame g f (ucast c) hdr xs len, s3, g1)"
  proof -
    have "\<not> (gs_batch_count slot = 0 \<or> \<not> gs_gso slot \<or> ts_packet slot = [] \<or> gs_batch_count slot \<le> index)"
      using idx slot b by (auto simp: block_ok_def parent_ok_def)
    then show ?thesis using len s1(1) s3 unfolding ami_sana2_tx_child_def by (simp add: s2_def)
  qed
  then show ?thesis using ch s1(3,4) by blast
qed

section \<open>The bytes of the header\<close>

text \<open>Only the last child ends the stream or pushes, and only the first reports a reduced window.\<close>

lemma gso_flags_bits:
  assumes "\<not> g_repair g" and "seg < g_segs g"
  shows "bit (gso_flags g seg b) n \<longleftrightarrow> bit b n \<and> (n \<in> {0, 3} \<longrightarrow> seg + 1 = g_segs g) \<and> (n = 7 \<longrightarrow> seg = 0)"
proof (cases "n < 8")
  case True
  have bits: "bit (AMI_TCP_FIN OR AMI_TCP_PSH) n \<longleftrightarrow> n \<in> {0, 3}" "bit AMI_TCP_CWR n \<longleftrightarrow> n = 7"
    using True by (auto simp: bit_simps bit_numeral_rec numeral_eq_Suc less_Suc_eq)
  have m: "bit (w AND NOT (AMI_TCP_FIN OR AMI_TCP_PSH)) n \<longleftrightarrow> bit w n \<and> n \<notin> {0, 3}"
      "bit (w AND NOT AMI_TCP_CWR) n \<longleftrightarrow> bit w n \<and> n \<noteq> 7" for w
    unfolding bit_and_iff bit_not_iff bits using True by simp_all
  show ?thesis
    unfolding gso_flags_def Let_def if_not_P [OF assms(1)]
    by (cases "seg + 1 < g_segs g"; cases "seg \<noteq> 0"; simp only: if_True if_False simp_thms m; use assms(2) in auto)
next
  case False
  then have "\<not> bit b n" "\<not> bit (gso_flags g seg b) n" by (auto dest: bit_imp_le_length)
  then show ?thesis by simp
qed

end
