(* ===== verification/Cks_Correct.thy ===== *)
theory Cks_Correct
  imports Sana2_Copy
begin

text \<open>
  What the checksum components promise: the internet checksum over a packet chain, the receive check
  and its fused form, and the transmit checksum that the copy writes.
\<close>

section \<open>Samples\<close>

definition sample_packet :: "int \<Rightarrow> UBYTE list \<Rightarrow> NX_PACKET" where
  "sample_packet base f = \<lparr>pk_base = base, pk_mem = f @ [0, 0, 0, 0], pk_prepend = 0, pk_append = length f,
     pk_length = of_nat (length f), pk_version = 0, pk_capability = 0\<rparr>"

definition sample_tcp :: "UBYTE list \<Rightarrow> UBYTE list" where
  "sample_tcp field = [69, 0, 0, 41, 0, 1, 0, 0, 64, 6, 102, 204, 10, 0, 0, 1, 10, 0, 0, 2,
     0, 80, 4, 0, 0, 0, 0, 1, 0, 0, 0, 2, 80, 16, 32, 0] @ field @ [0, 0, 65]"

definition sample_caps :: capability_bits where
  "sample_caps = \<lparr>CAP_IPV4_RX = 2, CAP_TCP_RX = 8, CAP_UDP_RX = 32, CAP_ICMPV4_RX = 128, CAP_ICMPV6_RX = 512,
     CAP_IGMP_RX = 2048\<rparr>"

definition no_counts :: rxv_stats where
  "no_counts = \<lparr>ip_ok = 0, transport_ok = 0, bad_ip = 0, bad_transport = 0, skip_short = 0, skip_version = 0,
     skip_length = 0, skip_fragment = 0, skip_protocol = 0, skip_udp_nosum = 0, from_copy = 0, v6_ok = 0,
     v4_fused = 0, skip_ext = 0, v6_ext = 0\<rparr>"

section \<open>The checksum\<close>

text \<open>
  C12. The checksum over a packet chain is RFC 1071's: the sixteen-bit one's-complement sum of the
  pseudo header, for the protocols that have one, and of the first \<open>data_length\<close> bytes of the chain, an
  odd last byte padded with zero. The chain has to be one that the code's longword reads are made for
  (\<open>chain_ok\<close>): it holds the bytes, the data of every packet that is read starts on a longword, every packet before the
  one in which the sum ends has an even size, and the sum ends in the last packet or after a
  multiple of four bytes of another. For a chain cut at an odd place the code does not compute this sum.
\<close>

theorem cks_compute_exact:
  assumes "chain_ok (unat data_length) packet rest" and "unat data_length < 2 ^ 31" and "length rest < 20000"
    and "has_pseudo protocol \<Longrightarrow> length src = addr_len (pk_version packet) \<and> length dst = addr_len (pk_version packet)"
  shows "map_option (\<lambda>(checksum, packets). unat checksum)
           (n68k_ip_checksum_compute packet rest protocol data_length (Some src) (Some dst)) =
         Some (ones ((if has_pseudo protocol
                      then pseudo_value (pk_version packet) protocol (unat data_length) src dst else 0)
                     + be16_sum (take (unat data_length) (concat (map pk_data (packet # rest))))))"
  by (rule compute_eq [OF assms(1-3), of protocol "Some src" src "Some dst" dst]) (use assms(4) in auto)

theorem cks_compute_exact_witness:
  "chain_ok 9 (sample_packet 0 [1, 2, 3, 4, 5, 6]) [sample_packet 64 [7, 8, 9]] \<and>
   map_option (\<lambda>(checksum, packets). unat checksum)
     (n68k_ip_checksum_compute (sample_packet 0 [1, 2, 3, 4, 5, 6]) [sample_packet 64 [7, 8, 9]] NX_PROTOCOL_ICMP 9 (Some []) (Some [])) =
   Some (ones (be16_sum [1, 2, 3, 4, 5, 6, 7, 8, 9]))"
proof
  show ok: "chain_ok 9 (sample_packet 0 [1, 2, 3, 4, 5, 6]) [sample_packet 64 [7, 8, 9]]"
    by (simp add: chain_ok.simps sample_packet_def pk_addr_def pk_size_def)
  have "\<not> has_pseudo NX_PROTOCOL_ICMP" by (simp add: has_pseudo_def)
  then show "map_option (\<lambda>(checksum, packets). unat checksum)
      (n68k_ip_checksum_compute (sample_packet 0 [1, 2, 3, 4, 5, 6]) [sample_packet 64 [7, 8, 9]] NX_PROTOCOL_ICMP 9 (Some []) (Some [])) =
    Some (ones (be16_sum [1, 2, 3, 4, 5, 6, 7, 8, 9]))"
    using cks_compute_exact [of 9 "sample_packet 0 [1, 2, 3, 4, 5, 6]" "[sample_packet 64 [7, 8, 9]]" NX_PROTOCOL_ICMP "[]" "[]"] ok
    by (simp add: pk_data_def pk_size_def) (simp add: sample_packet_def)
qed

section \<open>The receive check\<close>

text \<open>
  C10. For a received frame that is one packet with its IP header on a longword, its length field true, one byte
  of the buffer free behind it and no IPv6 version left in the packet (\<open>frame_ok\<close>), whatever its bytes, the receive check
  answers exactly the specification over the bytes: it drops the frame only if a checksum that covers it
  is wrong, and publishes the IPv4 and transport bits exactly for the checksums that are right; a
  fragment, a truncated frame, a UDP datagram without a checksum and an extension header that cannot be
  stepped over get no transport bit. No read leaves the packet. A header that is not on a longword is outside
  this: \<open>rx_unaligned_dropped\<close> below is a right frame that is dropped there.
\<close>

theorem rx_verify_exact:
  assumes "frame_ok p"
  shows "map_option verdict_of (n68k_rx_verify cap hot st p []) = Some (frame_verdict cap (pk_data p))"
  by (rule verify_verdict [OF assms, of cap hot st]) simp

theorem rx_verify_exact_witness:
  "frame_ok (sample_packet 0 (sample_tcp [54, 126])) \<and>
   map_option verdict_of (n68k_rx_verify sample_caps True no_counts (sample_packet 0 (sample_tcp [54, 126])) []) =
   Some (frame_verdict sample_caps (sample_tcp [54, 126]))"
proof
  show ok: "frame_ok (sample_packet 0 (sample_tcp [54, 126]))"
    by (simp add: frame_ok_def sample_packet_def sample_tcp_def pk_addr_def pk_size_def)
  then show "map_option verdict_of (n68k_rx_verify sample_caps True no_counts (sample_packet 0 (sample_tcp [54, 126])) []) =
      Some (frame_verdict sample_caps (sample_tcp [54, 126]))"
    using rx_verify_exact [OF ok, of sample_caps True no_counts] by (simp add: pk_data_def pk_size_def sample_packet_def)
qed

text \<open>
  C11. A frame copied in by the SANA-II hook, at any alignment of the device's buffer, and then
  checked from the sum the copy carried gets the verdict of a second walk over its bytes, whatever the
  counters and the build switch of either; adding the length and the protocol without an end-around
  carry changes nothing.
\<close>

theorem rx_copy_verified:
  assumes "ami_sana2_copy_to_buff (Some slot) (Some (src, mem)) len = Some (True, Some slot')"
    and "rs_packet slot' = Some p" and "rs_dst slot' = Some (pk_prepend q)" and "pk_mem q = pk_mem p"
    and "frame_ok q" and "unat len \<le> pk_size q"
  shows "map_option verdict_of (n68k_rx_verify_sum cap hot st q [] (rs_sum slot') (rs_copied slot')) =
         map_option verdict_of (n68k_rx_verify cap hot' st' q [])"
  using assms by (rule copied_frame_verdict)

definition sample_slot :: AmiRxSlot where
  "sample_slot = \<lparr>rs_stats = None, rs_link_hdr_ok = False, rs_packet = Some (sample_packet 0 (replicate 41 0)),
     rs_dst = Some 0, rs_capacity = 41, rs_copied = 0, rs_sum = 0, rs_summed = False, rs_rxflags = 0, rs_hdr_written = False\<rparr>"

definition filled_slot :: AmiRxSlot where
  "filled_slot = sample_slot\<lparr>rs_packet := Some (sample_packet 0 (sample_tcp [54, 126])),
     rs_sum := snd (copy_words_sum (sample_tcp [54, 126])), rs_summed := True, rs_copied := 41\<rparr>"

theorem rx_copy_verified_witness:
  "ami_sana2_copy_to_buff (Some sample_slot) (Some (2, sample_tcp [54, 126])) 41 = Some (True, Some filled_slot) \<and>
   map_option verdict_of (n68k_rx_verify_sum sample_caps True no_counts (sample_packet 0 (sample_tcp [54, 126])) []
      (rs_sum filled_slot) (rs_copied filled_slot)) =
   map_option verdict_of (n68k_rx_verify sample_caps False no_counts (sample_packet 0 (sample_tcp [54, 126])) [])"
proof
  have len: "length (sample_tcp [54, 126]) = 41" by (simp add: sample_tcp_def)
  show copy: "ami_sana2_copy_to_buff (Some sample_slot) (Some (2, sample_tcp [54, 126])) 41 = Some (True, Some filled_slot)"
    using copy_words_sum [of "sample_tcp [54, 126]"] len
    by (simp add: ami_sana2_copy_to_buff_def sample_slot_def filled_slot_def sample_packet_def pk_addr_def count_stat_def
        wr_range_def Let_def split_beta)
  have "frame_ok (sample_packet 0 (sample_tcp [54, 126]))"
    by (simp add: frame_ok_def sample_packet_def sample_tcp_def pk_addr_def pk_size_def)
  then show "map_option verdict_of (n68k_rx_verify_sum sample_caps True no_counts (sample_packet 0 (sample_tcp [54, 126])) []
      (rs_sum filled_slot) (rs_copied filled_slot)) =
    map_option verdict_of (n68k_rx_verify sample_caps False no_counts (sample_packet 0 (sample_tcp [54, 126])) [])"
    by (intro rx_copy_verified [OF copy, where p = "sample_packet 0 (sample_tcp [54, 126])"])
       (simp_all add: filled_slot_def sample_slot_def sample_packet_def pk_size_def len)
qed

text \<open>
  A frame whose IP header is at two modulo four can be dropped although both of its checksums are
  right: the ordinary path, which such frames are sent to, counts the longwords from the pointer and the
  bytes that are left from the rounded address, and sums two bytes behind the header. In this frame they are
  \<^verbatim>\<open>0x0050\<close>; when they are 0 or \<^verbatim>\<open>0xFFFF\<close> the sum does not notice.
\<close>

lemma rx_unaligned_dropped:
  "frame_verdict sample_caps (sample_tcp [54, 126]) = (10, False) \<and>
   pk_data (sample_packet 2 (sample_tcp [54, 126])) = sample_tcp [54, 126] \<and>
   map_option verdict_of (n68k_rx_verify_sum sample_caps True no_counts (sample_packet 2 (sample_tcp [54, 126])) []
      (snd (copy_words_sum (sample_tcp [54, 126]))) 41) = Some (0, True)"
proof (intro conjI)
  have shape: "tcp_shape (sample_tcp [54, 126]) = Some (20, 41)"
    by (simp add: tcp_shape_def sample_tcp_def v4_ihl_def f16_def)
  have "frame_verdict sample_caps (sample_tcp [54, 126]) = (CAP_IPV4_RX sample_caps OR CAP_TCP_RX sample_caps, False)"
    by (rule tcp_accepted [OF shape]) (simp_all add: sum_valid_def transport_valid_def sample_tcp_def)
  then show "frame_verdict sample_caps (sample_tcp [54, 126]) = (10, False)" by (simp add: sample_caps_def)
  show "pk_data (sample_packet 2 (sample_tcp [54, 126])) = sample_tcp [54, 126]"
    by (simp add: pk_data_def pk_size_def sample_packet_def)
  have sum: "n68k_rx_sum_ok (sample_packet 2 (sample_tcp [54, 126])) [] 4 20 None None
      = Some (False, [sample_packet 2 (sample_tcp [54, 126])])"
    by (simp add: n68k_rx_sum_ok_def n68k_ip_checksum_compute_def sum_packet_def sum_tail_def pk_addr_def rd_longs_def
        rd_short_def sample_packet_def sample_tcp_def rd_range_def n68k_sum_longwords_def add_carry_def be_val_def be_step_def
        n68k_fold_def Let_def)
  show "map_option verdict_of (n68k_rx_verify_sum sample_caps True no_counts (sample_packet 2 (sample_tcp [54, 126])) []
      (snd (copy_words_sum (sample_tcp [54, 126]))) 41) = Some (0, True)"
  proof -
    have "ip8 (sample_packet 2 (sample_tcp [54, 126])) 0 = Some 69" "pk_length (sample_packet 2 (sample_tcp [54, 126])) = 41"
        "\<not> n68k_rxv_even (sample_packet 2 (sample_tcp [54, 126]))"
      by (simp_all add: ip8_def n68k_rxv_even_def pk_addr_def sample_packet_def sample_tcp_def)
    then show ?thesis
      using sum by (simp add: n68k_rx_verify_sum_def v4_verify_sum_def n68k_rx_verify_def nibble and_0f Let_def)
  qed
qed

section \<open>The transmit checksum\<close>

text \<open>
  C18. A whole TCP segment that the fused copy takes, its checksum field zero and its IP header
  checksum right, goes out with only that field filled in, and the packet keeps the same bytes; the
  receive check accepts the frame and publishes both bits.
\<close>

theorem tx_fused_accepted:
  assumes "ts_iface slot" and "ts_hdr_len slot = 0" and "ts_total slot = len" and "ts_packet slot = [p]"
    and "holds p f" and "unat len = length f" and "tcp_shape f = Some (ihl, tot)"
    and "f ! (ihl + 16) = 0" and "f ! (ihl + 17) = 0" and "sum_valid (be16_sum (take ihl f))"
  shows "\<exists>c slot' q. ami_sana2_tx_fuse_checksum slot out_at len = Some (Some (fill2 f (ihl + 16) c, slot')) \<and>
           length c = 2 \<and> ts_packet slot' = [q] \<and> holds q (fill2 f (ihl + 16) c) \<and>
           frame_verdict cap (fill2 f (ihl + 16) c) = (CAP_IPV4_RX cap OR CAP_TCP_RX cap, False)"
  by (rule fused_accepted [OF assms]) blast

definition sample_tx :: AmiTxSlot where
  "sample_tx = \<lparr>ts_iface = True, ts_packet = [sample_packet 0 (sample_tcp [0, 0])], ts_cursor = None, ts_cursor_off = 0,
     ts_consumed = 0, ts_total = 41, ts_hdr_len = 0, ts_pad_len = 0\<rparr>"

theorem tx_fused_accepted_witness:
  "tcp_shape (sample_tcp [0, 0]) = Some (20, 41) \<and>
   (\<exists>c slot' q. ami_sana2_tx_fuse_checksum sample_tx 0 41 = Some (Some (fill2 (sample_tcp [0, 0]) (20 + 16) c, slot')) \<and>
      length c = 2 \<and> ts_packet slot' = [q] \<and> holds q (fill2 (sample_tcp [0, 0]) (20 + 16) c) \<and>
      frame_verdict sample_caps (fill2 (sample_tcp [0, 0]) (20 + 16) c) = (CAP_IPV4_RX sample_caps OR CAP_TCP_RX sample_caps, False))"
proof
  show shape: "tcp_shape (sample_tcp [0, 0]) = Some (20, 41)"
    by (simp add: tcp_shape_def sample_tcp_def v4_ihl_def f16_def)
  have "sum_valid (be16_sum (take 20 (sample_tcp [0, 0])))"
    by (simp add: sum_valid_def sample_tcp_def)
  then show "\<exists>c slot' q. ami_sana2_tx_fuse_checksum sample_tx 0 41 = Some (Some (fill2 (sample_tcp [0, 0]) (20 + 16) c, slot')) \<and>
      length c = 2 \<and> ts_packet slot' = [q] \<and> holds q (fill2 (sample_tcp [0, 0]) (20 + 16) c) \<and>
      frame_verdict sample_caps (fill2 (sample_tcp [0, 0]) (20 + 16) c) = (CAP_IPV4_RX sample_caps OR CAP_TCP_RX sample_caps, False)"
    by (intro tx_fused_accepted [OF _ _ _ _ _ _ shape, where p = "sample_packet 0 (sample_tcp [0, 0])"])
       (simp_all add: sample_tx_def sample_packet_def sample_tcp_def holds_def)
qed

text \<open>
  For a card that finishes the sum, the field gets the pseudo header's: what the card then sums
  over the segment is the whole TCP checksum's sum, and the packet no longer asks for a checksum.
\<close>

lemma tx_card_sum:
  assumes "holds p f" and "unat (pk_length p) = length f" and "length f \<le> pk_append p - pk_prepend p"
    and "pk_append p < 2 ^ 32" and "tcp_shape f = Some (ihl, length f)"
    and "f ! (ihl + 16) = 0" and "f ! (ihl + 17) = 0"
  shows "\<exists>q c. ami_sana2_tx_pseudo_sum tcp_tx p = Some (True, q) \<and> holds q (fill2 f (ihl + 16) c) \<and> length c = 2 \<and>
           pk_capability q = pk_capability p AND NOT tcp_tx \<and>
           ones (be16_sum (drop ihl (fill2 f (ihl + 16) c))) =
           ones (be16_sum (take 8 (drop 12 f)) + 6 + (length f - ihl) + be16_sum (drop ihl f))"
  by (rule card_sum_eq [OF assms, of tcp_tx]) blast

end
