(* ===== verification/Gso_Correct.thy ===== *)
theory Gso_Correct
  imports Gso_Copy Cks_Correct
begin

text \<open>
  What the segmentation in the transmit copy promises: the children of a block cover its payload, each
  of them is a good TCP frame however the device takes it, and a frame that is no block goes out as it is.
\<close>

section \<open>The fields of a child\<close>

lemma child_header:
  assumes ch: "child_of g chain seg hdr xs f c" and tot: "length hdr + length xs \<le> tot"
  defines "fr \<equiv> child_frame g f (ucast c) hdr xs tot"
  shows "f16 fr 2 = hdr_len g + length xs" and "f16 fr 4 = (f16 hdr 4 + seg) mod 65536"
    and "be_val (take 4 (drop (g_ihl g + 4) fr)) = be_val (take 4 (drop (g_ihl g + 4) hdr)) + of_nat (fst (ami_sana2_gso_slice g seg))"
    and "fr ! (g_ihl g + 13) = gso_flags g seg (hdr ! (g_ihl g + 13))"
    and "take (length xs) (drop (hdr_len g) fr) = xs"
proof -
  define t where "t = g_ihl g"
  define H where "H = gso_patch t f (ucast c) hdr"
  note L = child_lengths [OF ch, folded t_def]
  have fr: "fr = H @ xs @ replicate (tot - (length hdr + length xs)) 0" by (simp add: fr_def child_frame_def H_def t_def)
  have nth: "fr ! i = H ! i" if "i < length hdr" for i using that by (simp add: fr nth_append H_def)
  have t18: "t + 18 \<le> length hdr" using L by (simp add: t_def)
  note P = patch_f16 [OF L(2) t18, of f "ucast c", folded H_def]
  have "f16 fr i = f16 H i" if "i + 1 < length hdr" for i using that nth [of i] nth [of "i + 1"] by (simp add: f16_def)
  then have f16: "f16 fr 2 = f16 H 2" "f16 fr 4 = f16 H 4" using t18 L(2) by simp_all
  show "f16 fr 2 = hdr_len g + length xs" using f16 P childD(9) [OF ch] by simp
  have ch': "unat (f_ip_id f) = (f16 hdr 4 + seg) mod 65536"
      "f_seq f = be_val (take 4 (drop (t + 4) hdr)) + of_nat (fst (ami_sana2_gso_slice g seg))"
      "f_flags f = gso_flags g seg (hdr ! (t + 13))"
    using ch unfolding child_of_def t_def by blast+
  show "f16 fr 4 = (f16 hdr 4 + seg) mod 65536" using f16 P ch' by simp
  have seq: "H ! (t + 4) = ucast (drop_bit 24 (f_seq f))" "H ! (t + 5) = ucast (drop_bit 16 (f_seq f))"
      "H ! (t + 6) = ucast (drop_bit 8 (f_seq f))" "H ! (t + 7) = ucast (f_seq f)" "H ! (t + 13) = f_flags f"
    using t18 by (simp_all add: H_def gso_patch_def Let_def nth_put2_other put2_def nth_list_update)
  have "take 4 (drop (t + 4) fr) = [H ! (t + 4), H ! (t + 5), H ! (t + 6), H ! (t + 7)]"
  proof -
    have "t + 4 + 4 \<le> length fr" using t18 tot by (simp add: fr H_def)
    then have "take 4 (drop (t + 4) fr) = [fr ! (t + 4), fr ! (t + 5), fr ! (t + 6), fr ! (t + 7)]"
      by (simp add: eval_nat_numeral take_Suc_conv_app_nth)
    then show ?thesis using nth [of "t + 4"] nth [of "t + 5"] nth [of "t + 6"] nth [of "t + 7"] t18 by simp
  qed
  then show "be_val (take 4 (drop (g_ihl g + 4) fr)) = be_val (take 4 (drop (g_ihl g + 4) hdr)) + of_nat (fst (ami_sana2_gso_slice g seg))"
    using seq ch'(2) by (simp add: t_def be_val_be32 [unfolded be32_def])
  show "fr ! (g_ihl g + 13) = gso_flags g seg (hdr ! (g_ihl g + 13))"
    using nth [of "t + 13"] seq(5) ch'(3) t18 by (simp add: t_def)
  show "take (length xs) (drop (hdr_len g) fr) = xs" using L(1) by (simp add: fr H_def t_def)
qed

lemma same_block_trans: "same_block g g1 \<Longrightarrow> same_block g1 g2 \<Longrightarrow> same_block g g2"
  unfolding same_block_def by (cases g; cases g1; cases g2) simp

lemma placed_delivering:
  assumes b: "block_ok g chain" and pl: "placed slot g chain" "\<not> gs_seg_summed slot" "\<not> gs_tx_tcp slot" and same: "same_block g g'"
    and ch: "child_of g chain (gs_seg_index slot) hdr xs f c"
    and tot: "tot = ami_sana2_gso_frame_len eth g (gs_seg_index slot)"
  shows "delivering (slot\<lparr>ts_total := of_nat tot, ts_cursor := None\<rparr>) g' chain hdr xs f c tot 0"
proof -
  note sb = same_blockD [OF same]
  have small: "tot \<le> 65535" using frame_len_le [OF ch] tot by simp
  have ge: "hdr_len g + length xs \<le> tot" using frame_len_ge [of g "gs_seg_index slot" eth] tot childD(5) [OF ch] by simp
  have "unat (of_nat tot :: ULONG) = tot" using small by (simp add: unat_of_nat)
  then show ?thesis using b ch pl ge small unfolding delivering_def sb by (simp add: placed_def)
qed

section \<open>Segmentation\<close>

text \<open>
  C20. The children of a block that was accepted, at least one and at most 255, together carry its
  payload, every byte once and in order (for a repair, exactly the range it names); no child is empty or
  longer than the segment size, and with its headers each fits the interface's MTU.
\<close>

theorem gso_slices_cover:
  assumes "parent_ok chain" and "ami_sana2_gso_parse api info (hd chain) mtu g0 = Some (Some g)"
  shows "concat (map (gso_child_payload g (gso_payload g chain)) [0..<g_segs g]) =
           (if g_repair g then take (info_length info) (drop (info_offset info) (gso_payload g chain)) else gso_payload g chain) \<and>
         0 < g_segs g \<and> g_segs g \<le> 255 \<and>
         (\<forall>seg < g_segs g. gso_child_payload g (gso_payload g chain) seg \<noteq> [] \<and>
            length (gso_child_payload g (gso_payload g chain) seg) \<le> info_mss info \<and>
            (mtu \<noteq> 0 \<longrightarrow> hdr_len g + length (gso_child_payload g (gso_payload g chain) seg) \<le> mtu))"
proof -
  note P = parse_block [OF assms]
  define pay where "pay = gso_payload g chain"
  have ext: "extent_ok g (length pay)" "length pay < 2 ^ 32" using P(1) by (auto simp: block_ok_def gso_payload_def pay_def)
  have "concat (map (gso_child_payload g pay) [0..<g_segs g]) =
      (if g_repair g then take (info_length info) (drop (info_offset info) pay) else pay)"
    using slices_cover [OF ext] P(5,6) by (auto simp: pay_def)
  moreover have "gso_child_payload g pay seg \<noteq> [] \<and> length (gso_child_payload g pay seg) \<le> info_mss info \<and>
      (mtu \<noteq> 0 \<longrightarrow> hdr_len g + length (gso_child_payload g pay seg) \<le> mtu)" if lt: "seg < g_segs g" for seg
  proof -
    obtain hdr xs f c where ch: "child_of g chain seg hdr xs f c" by (rule child_exists [OF P(1) lt])
    note sl = slice_eq [OF ext(1) lt ext(2)]
    have "length xs = min (g_mss g) (g_end g - (g_base g + seg * g_mss g))" using childD(5) [OF ch] sl(1) by simp
    then have "0 < length xs" "length xs \<le> g_mss g" using sl(2) ext(1) by (auto simp: extent_ok_def)
    then show ?thesis using childD(4) [OF ch] P(3,4) by (auto simp: pay_def)
  qed
  ultimately show ?thesis using ext(1) by (auto simp: pay_def extent_ok_def)
qed

text \<open>
  C19. A child of an accepted block, whatever child was placed before it, is delivered whole and as
  the same bytes however the device cuts its copies and wherever it writes them: a frame of the length
  that was announced, that carries the child's payload, and that a receiver's check accepts with both
  checksums good if the parent's IP header was good.
\<close>

theorem gso_child_accepted:
  assumes "parent_ok chain" and "ami_sana2_gso_parse api info (hd chain) mtu g0 = Some (Some g)"
    and "sum_valid (be16_sum (take (g_ihl g) (chain_bytes chain)))"
    and "same_block g g1" and "place_ok g1 chain" and "seg < g_segs g" and "gs_gso slot" and "\<not> gs_tx_tcp slot"
  shows "\<exists>n slot' g' frame. ami_sana2_gso_place slot g1 chain seg = Some (n, slot', g') \<and> same_block g g' \<and> place_ok g' chain \<and>
           (\<forall>cs. calls_cover cs (ami_sana2_gso_frame_len eth g seg) \<longrightarrow>
              copy_calls nx_sum tcp_tx g' (slot'\<lparr>ts_total := of_nat (ami_sana2_gso_frame_len eth g seg), ts_cursor := None\<rparr>) cs
              = Some (True, frame)) \<and>
           length frame = ami_sana2_gso_frame_len eth g seg \<and>
           drop (hdr_len g) (take n frame) = gso_child_payload g (gso_payload g chain) seg \<and>
           frame_verdict cap frame = (CAP_IPV4_RX cap OR CAP_TCP_RX cap, False)"
proof -
  note P = parse_block [OF assms(1,2)]
  note sb = same_blockD [OF assms(4)]
  define tot where "tot = ami_sana2_gso_frame_len eth g seg"
  have b1: "block_ok g1 chain" "seg < g_segs g1" using P(1) assms(6) by (simp_all add: sb)
  obtain slot' g' where r: "ami_sana2_gso_place slot g1 chain seg = Some (hdr_len g1 + snd (ami_sana2_gso_slice g1 seg), slot', g')"
      "placed slot' g1 chain" "same_block g1 g'" "place_ok g' chain" "gs_seg_index slot' = seg" "\<not> gs_seg_summed slot'"
      "gs_tx_tcp slot' = gs_tx_tcp slot" "gs_gso slot' = gs_gso slot"
    by (rule place_eq [OF b1(1) assms(5) b1(2)])
  obtain hdr xs f c where ch: "child_of g chain seg hdr xs f c" by (rule child_exists [OF P(1) assms(6)])
  define frame where "frame = child_frame g f (ucast c) hdr xs tot"
  note sb' = same_blockD [OF r(3)] sb
  have d: "delivering (slot'\<lparr>ts_total := of_nat tot, ts_cursor := None\<rparr>) g' chain hdr xs f c tot 0"
    by (rule placed_delivering [OF b1(1) r(2,6) _ r(3), where eth = eth]) (use ch r assms(8) in \<open>simp_all add: sb tot_def\<close>)
  have calls: "copy_calls nx_sum tcp_tx g' (slot'\<lparr>ts_total := of_nat tot, ts_cursor := None\<rparr>) cs = Some (True, frame)"
    if "calls_cover cs tot" for cs
    using gso_calls [OF d, of cs nx_sum tcp_tx] that r(8) assms(7) by (simp add: frame_def sb')
  have fits: "length hdr + length xs \<le> tot"
    using frame_len_ge [of g seg eth] childD(5) [OF ch] child_lengths(1) [OF ch] by (simp add: tot_def)
  have valid: "sum_valid (be16_sum (take (g_ihl g) hdr))"
    using assms(3) childD(3) [OF ch] by (simp add: min_absorb1)
  have "drop (hdr_len g) (take (hdr_len g + length xs) frame) = gso_child_payload g (gso_payload g chain) seg"
    using child_header(5) [OF ch fits] childD(4) [OF ch] by (simp add: frame_def drop_take)
  moreover have "same_block g g'" using assms(4) r(3) by (rule same_block_trans)
  ultimately show ?thesis
    using r(1,4) calls child_accepted [OF ch valid, of cap tot] length_child_frame [OF fits] childD(5) [OF ch]
    by (intro exI [of _ "hdr_len g + length xs"] exI [of _ slot'] exI [of _ g'] exI [of _ frame])
       (simp add: tot_def [symmetric] frame_def sb)
qed

section \<open>A sample block\<close>

definition sample_hdr :: "UBYTE list" where
  "sample_hdr = [69, 0, 0, 45, 0, 7, 0, 0, 64, 6, 102, 194, 10, 0, 0, 1, 10, 0, 0, 2,
     0, 80, 4, 0, 0, 0, 0, 9, 0, 0, 0, 2, 80, 24, 32, 0, 0, 0, 0, 0]"

definition sample_parent :: "NX_PACKET list" where
  "sample_parent =
     [\<lparr>pk_base = 0, pk_mem = [0, 0, 0, 0] @ sample_hdr @ [1], pk_prepend = 4, pk_append = 45, pk_length = 45,
        pk_version = 0, pk_capability = 0\<rparr>,
      \<lparr>pk_base = 100, pk_mem = [0, 2, 3, 4, 5, 0], pk_prepend = 1, pk_append = 5, pk_length = 4,
        pk_version = 0, pk_capability = 0\<rparr>]"

definition sample_api :: gso_api where
  "sample_api = \<lparr>NX_TCP_GSO_VERSION = 2, NX_TCP_GSO_REPAIR = 1, gso_info_size = 8\<rparr>"

definition sample_info :: NX_TCP_GSO_INFO where
  "sample_info = \<lparr>info_mss = 2, info_version = 1, info_flags = 0, info_offset = 0, info_length = 0\<rparr>"

definition sample_gso :: AmiTxGso where
  "sample_gso = \<lparr>g_cur_buf = Some 0, g_cur_start = - 40, g_base = 0, g_end = 5, g_mss = 2, g_ihl = 20, g_thl = 20, g_segs = 3,
     g_next_seg = 0, g_repair = False, g_tail = False\<rparr>"

definition sample_gso_slot :: AmiGsoSlot where
  "sample_gso_slot = \<lparr>ts_iface = True, ts_packet = sample_parent, ts_cursor = None, ts_cursor_off = 0, ts_consumed = 0, ts_total = 46,
     ts_hdr_len = 0, ts_pad_len = 0, gs_gso = True, gs_tx_tcp = False, gs_seg_index = 255, gs_seg_summed = False, gs_seg_sum = 0,
     gs_seg_buf = None, gs_seg_buf_off = 0, gs_batch_count = 3, gs_batch_done = 0\<rparr>"

lemma sample_bytes: "chain_bytes sample_parent = sample_hdr @ [1, 2, 3, 4, 5]" "length sample_hdr = 40"
  by (simp_all add: chain_bytes_def sample_parent_def pk_data_def pk_size_def sample_hdr_def)

lemma sample_ok: "parent_ok sample_parent"
  unfolding parent_ok_def sample_bytes by (simp add: sample_parent_def sample_hdr_def buf_ok_def)

lemma sample_parse: "ami_sana2_gso_parse sample_api sample_info (hd sample_parent) 1500 sample_gso = Some (Some sample_gso)"
  by (simp add: ami_sana2_gso_parse_def sample_api_def sample_info_def sample_parent_def sample_gso_def info_mode_def gso_extent_def
      ip8_def ami_sana2_tx_be16_def rd_def rd_range_def sample_hdr_def be_val_def be_step_def Let_def)

theorem gso_slices_cover_witness:
  "ami_sana2_gso_parse sample_api sample_info (hd sample_parent) 1500 sample_gso = Some (Some sample_gso) \<and>
   concat (map (gso_child_payload sample_gso (gso_payload sample_gso sample_parent)) [0..<3]) = [1, 2, 3, 4, 5]"
proof -
  have "gso_payload sample_gso sample_parent = [1, 2, 3, 4, 5]" "g_segs sample_gso = 3" "\<not> g_repair sample_gso"
    unfolding gso_payload_def sample_bytes by (simp_all add: sample_gso_def sample_bytes)
  then show ?thesis using gso_slices_cover [OF sample_ok sample_parse] sample_parse by simp
qed

theorem gso_child_accepted_witness:
  "\<exists>n slot' g' frame. ami_sana2_gso_place sample_gso_slot sample_gso sample_parent 1 = Some (n, slot', g') \<and>
     copy_calls id 4 g' (slot'\<lparr>ts_total := 46, ts_cursor := None\<rparr>) [(1001, 13), (2000, 33)] = Some (True, frame) \<and>
     copy_calls id 4 g' (slot'\<lparr>ts_total := 46, ts_cursor := None\<rparr>) [(0, 46)] = Some (True, frame) \<and>
     drop 40 (take n frame) = [3, 4] \<and>
     frame_verdict sample_caps frame = (CAP_IPV4_RX sample_caps OR CAP_TCP_RX sample_caps, False)"
proof -
  have pl: "place_ok sample_gso sample_parent" and same: "same_block sample_gso sample_gso"
    using parse_block(2) [OF sample_ok sample_parse] by (simp_all add: same_block_def)
  have valid: "sum_valid (be16_sum (take (g_ihl sample_gso) (chain_bytes sample_parent)))"
    unfolding sample_bytes by (simp add: sample_gso_def sample_hdr_def sum_valid_def)
  have seg: "1 < g_segs sample_gso" "gs_gso sample_gso_slot" "\<not> gs_tx_tcp sample_gso_slot"
    by (simp_all add: sample_gso_def sample_gso_slot_def)
  have len: "ami_sana2_gso_frame_len True sample_gso 1 = 46"
    by (simp add: ami_sana2_gso_frame_len_def ami_sana2_gso_slice_def sample_gso_def)
  have pay: "gso_child_payload sample_gso (gso_payload sample_gso sample_parent) 1 = [3, 4]" "hdr_len sample_gso = 40"
    unfolding gso_child_payload_def gso_payload_def sample_bytes
    by (simp_all add: ami_sana2_gso_slice_def sample_gso_def sample_hdr_def)
  have cover: "calls_cover [(1001, 13), (2000, 33)] 46" "calls_cover [(0, 46)] 46" by (simp_all add: calls_cover_def)
  from gso_child_accepted [OF sample_ok sample_parse valid same pl seg, of True id 4 sample_caps]
  show ?thesis unfolding len pay using cover by (elim exE conjE) (intro exI conjI; simp del: copy_calls.simps; blast)
qed

section \<open>Batches\<close>

text \<open>
  C21. A driver that pulls the children of a block itself gets each of them, in any order and as often
  as it asks, with the parent's headers in which the length, the identification, the sequence number, the
  flags and the two checksums are the child's: the sequence number of its first byte, FIN and PSH only on
  the last child, CWR only on the first. The frame passes the check of a receiver.
\<close>

theorem gso_batch_child:
  assumes "parent_ok chain" and "ami_sana2_gso_parse api info (hd chain) mtu g0 = Some (Some g)" and "\<not> g_repair g"
    and "sum_valid (be16_sum (take (g_ihl g) (chain_bytes chain)))"
    and "same_block g g1" and "place_ok g1 chain" and "index < gs_batch_count slot" and "gs_batch_count slot \<le> g_segs g"
    and "gs_gso slot" and "\<not> gs_tx_tcp slot" and "ts_packet slot = chain"
    and "index = gs_seg_index slot \<Longrightarrow> placed slot g1 chain \<and> \<not> gs_seg_summed slot"
  shows "\<exists>frame slot' g'. ami_sana2_tx_child eth slot g1 index dst (ami_sana2_gso_frame_len eth g index) =
           Some (True, frame, slot', g') \<and> same_block g g' \<and> place_ok g' chain \<and>
           f16 frame 2 = hdr_len g + length (gso_child_payload g (gso_payload g chain) index) \<and>
           f16 frame 4 = (f16 (chain_bytes chain) 4 + index) mod 65536 \<and>
           be_val (take 4 (drop (g_ihl g + 4) frame)) =
             be_val (take 4 (drop (g_ihl g + 4) (chain_bytes chain))) + of_nat (index * info_mss info) \<and>
           (\<forall>n. bit (frame ! (g_ihl g + 13)) n \<longleftrightarrow> bit (chain_bytes chain ! (g_ihl g + 13)) n \<and>
              (n \<in> {0, 3} \<longrightarrow> index + 1 = g_segs g) \<and> (n = 7 \<longrightarrow> index = 0)) \<and>
           frame_verdict cap frame = (CAP_IPV4_RX cap OR CAP_TCP_RX cap, False)"
proof -
  note P = parse_block [OF assms(1,2)]
  note sb = same_blockD [OF assms(5)]
  define len where "len = ami_sana2_gso_frame_len eth g index"
  have lt: "index < g_segs g" using assms(7,8) by simp
  have b1: "block_ok g1 chain" "gs_batch_count slot \<le> g_segs g1" "len = ami_sana2_gso_frame_len eth g1 index"
    using P(1) assms(8) by (simp_all add: sb len_def)
  obtain hdr xs f c slot' g' where r: "ami_sana2_tx_child eth slot g1 index dst len =
        Some (True, child_frame g1 f (ucast c) hdr xs len, slot', g')" "child_of g1 chain index hdr xs f c" "same_block g1 g'" "place_ok g' chain"
    using tx_child_eq [OF b1(1) assms(6,7) b1(2) assms(9-12) b1(3), of dst] by blast
  have ch: "child_of g chain index hdr xs f c" using r(2) by (simp add: sb)
  define frame where "frame = child_frame g f (ucast c) hdr xs len"
  have fits: "length hdr + length xs \<le> len"
    using frame_len_ge [of g index eth] childD(5) [OF ch] child_lengths(1) [OF ch] by (simp add: len_def)
  note H = child_header [OF ch fits, folded frame_def]
  note L = child_lengths [OF ch]
  have hdr: "hdr = take (hdr_len g) (chain_bytes chain)" by (rule childD(3) [OF ch])
  have at: "hdr ! i = chain_bytes chain ! i" if "i < hdr_len g" for i using that by (simp add: hdr)
  have f4: "f16 hdr 4 = f16 (chain_bytes chain) 4" using at [of 4] at [of 5] L by (simp add: f16_def)
  have seq: "take 4 (drop (g_ihl g + 4) hdr) = take 4 (drop (g_ihl g + 4) (chain_bytes chain))"
    using L(3) by (simp add: hdr drop_take min_absorb1)
  have ext: "extent_ok g (length (gso_payload g chain))" "length (gso_payload g chain) < 2 ^ 32"
    using P(1) by (auto simp: block_ok_def gso_payload_def)
  have off: "fst (ami_sana2_gso_slice g index) = index * info_mss info"
    using slice_eq(1) [OF ext(1) lt ext(2)] P(3,5) assms(3) by simp
  have valid: "sum_valid (be16_sum (take (g_ihl g) hdr))" using assms(4) by (simp add: hdr min_absorb1)
  have fl: "hdr ! (g_ihl g + 13) = chain_bytes chain ! (g_ihl g + 13)" using L(3) by (intro at) simp
  have "frame_verdict cap frame = (CAP_IPV4_RX cap OR CAP_TCP_RX cap, False)"
    using child_accepted [OF ch valid] by (simp add: frame_def)
  moreover have "ami_sana2_tx_child eth slot g1 index dst len = Some (True, frame, slot', g')" using r(1) by (simp add: frame_def sb)
  moreover have "same_block g g'" using assms(5) r(3) by (rule same_block_trans)
  moreover have "length xs = length (gso_child_payload g (gso_payload g chain) index)" using childD(4) [OF ch] by simp
  ultimately show ?thesis
    using H(1-4) r(4) gso_flags_bits [OF assms(3) lt] unfolding f4 seq off fl len_def [symmetric] by auto
qed

theorem gso_batch_child_witness:
  "\<exists>frame slot' g'. ami_sana2_tx_child True sample_gso_slot sample_gso 2 0 46 = Some (True, frame, slot', g') \<and>
     f16 frame 2 = 41 \<and> f16 frame 4 = 9 \<and> be_val (take 4 (drop 24 frame)) = 13 \<and> bit (frame ! 33) 3 \<and>
     frame_verdict sample_caps frame = (CAP_IPV4_RX sample_caps OR CAP_TCP_RX sample_caps, False)"
proof -
  have pl: "place_ok sample_gso sample_parent" and same: "same_block sample_gso sample_gso"
    using parse_block(2) [OF sample_ok sample_parse] by (simp_all add: same_block_def)
  have valid: "sum_valid (be16_sum (take (g_ihl sample_gso) (chain_bytes sample_parent)))"
    unfolding sample_bytes by (simp add: sample_gso_def sample_hdr_def sum_valid_def)
  have seg: "\<not> g_repair sample_gso" "2 < gs_batch_count sample_gso_slot" "gs_batch_count sample_gso_slot \<le> g_segs sample_gso"
      "gs_gso sample_gso_slot" "\<not> gs_tx_tcp sample_gso_slot" "ts_packet sample_gso_slot = sample_parent" "2 \<noteq> gs_seg_index sample_gso_slot"
    by (simp_all add: sample_gso_def sample_gso_slot_def)
  have len: "ami_sana2_gso_frame_len True sample_gso 2 = 46"
    by (simp add: ami_sana2_gso_frame_len_def ami_sana2_gso_slice_def sample_gso_def)
  have pay: "length (gso_child_payload sample_gso (gso_payload sample_gso sample_parent) 2) = 1"
    unfolding gso_child_payload_def gso_payload_def sample_bytes
    by (simp add: ami_sana2_gso_slice_def sample_gso_def sample_hdr_def)
  have g: "g_ihl sample_gso = 20" "g_thl sample_gso = 20" "g_segs sample_gso = 3" "info_mss sample_info = 2"
    by (simp_all add: sample_gso_def sample_info_def)
  have b: "f16 (chain_bytes sample_parent) 4 = 7" "be_val (take 4 (drop 24 (chain_bytes sample_parent))) = 9"
    unfolding sample_bytes by (simp_all add: sample_hdr_def f16_def be_val_def be_step_def)
  have psh: "bit (chain_bytes sample_parent ! 33) 3"
    unfolding sample_bytes by (simp add: sample_hdr_def bit_iff_odd_drop_bit)
  from gso_batch_child [OF sample_ok sample_parse seg(1) valid same pl seg(2-6), of True 0 sample_caps] seg(7)
  show ?thesis unfolding len pay g using b psh by (auto simp: numeral_2_eq_2 simp del: split_paired_Ex)
qed

section \<open>Ordinary frames\<close>

text \<open>A slot that has delivered \<open>pos\<close> of the \<open>tot\<close> bytes of a frame that asks for no checksum.\<close>

definition sending :: "ULONG \<Rightarrow> AmiGsoSlot \<Rightarrow> NX_PACKET list \<Rightarrow> nat \<Rightarrow> nat \<Rightarrow> bool" where
  "sending tcp_tx slot chain tot pos \<longleftrightarrow>
     chain \<noteq> [] \<and> list_all buf_ok chain \<and> ts_packet slot = chain \<and> \<not> gs_gso slot \<and> pk_capability (hd chain) AND tcp_tx = 0 \<and>
     unat (ts_total slot) = tot \<and> tot \<le> length (chain_bytes chain) \<and> tot \<le> 65535 \<and> pos \<le> tot \<and>
     (pos = 0 \<and> ts_cursor slot = None \<or> pos = tot \<or>
      pos < tot \<and> ts_cursor slot \<noteq> None \<and> cursor_ok chain (ts_cursor slot) \<and> unat (ts_consumed slot) = pos \<and>
      unat (ts_cursor_off slot) \<le> pos \<and> ahead chain (ts_cursor slot) (unat (ts_cursor_off slot)) = drop pos (chain_bytes chain))"

lemma sending_step:
  assumes d: "sending tcp_tx slot chain tot pos" and len: "0 < len" "pos + unat len \<le> tot"
  shows "\<exists>slot'. ami_sana2_copy_from_buff nx_sum tcp_tx g slot out_at len =
      Some (True, take (unat len) (drop pos (chain_bytes chain)), slot') \<and> sending tcp_tx slot' chain tot (pos + unat len)"
proof -
  have ok: "chain \<noteq> []" "list_all buf_ok chain" "ts_packet slot = chain" "\<not> gs_gso slot" "pk_capability (hd chain) AND tcp_tx = 0"
      "unat (ts_total slot) = tot" "tot \<le> length (chain_bytes chain)" "tot \<le> 65535"
    using d unfolding sending_def by blast+
  define s1 where "s1 = (if ts_cursor slot = None \<or> ts_total slot \<le> ts_consumed slot \<or> ts_total slot - ts_consumed slot < len
      then slot\<lparr>ts_cursor := Some 0, ts_cursor_off := 0, ts_consumed := 0\<rparr> else slot)"
  have lpos: "0 < unat len" using len(1) by (simp add: word_less_nat_alt)
  have s1: "ts_cursor s1 \<noteq> None \<and> cursor_ok chain (ts_cursor s1) \<and> unat (ts_consumed s1) = pos \<and> unat (ts_cursor_off s1) \<le> pos \<and>
      ahead chain (ts_cursor s1) (unat (ts_cursor_off s1)) = drop pos (chain_bytes chain)"
  proof -
    consider "pos = 0" "ts_cursor slot = None" | "pos < tot" "ts_cursor slot \<noteq> None" "cursor_ok chain (ts_cursor slot)"
        "unat (ts_consumed slot) = pos" "unat (ts_cursor_off slot) \<le> pos"
        "ahead chain (ts_cursor slot) (unat (ts_cursor_off slot)) = drop pos (chain_bytes chain)"
      using d lpos len(2) unfolding sending_def by force
    then show ?thesis
    proof cases
      case 1
      then show ?thesis using ok(1) ahead_bytes [of 0 chain 0] by (simp add: s1_def cursor_ok_def chain_bytes_def)
    next
      case 2
      have "\<not> ts_total slot \<le> ts_consumed slot" using 2 ok(6) by (simp add: word_le_nat_alt)
      moreover have "unat (ts_total slot - ts_consumed slot) = tot - pos" using 2 ok(6) by (simp add: unat_sub word_le_nat_alt)
      then have "\<not> ts_total slot - ts_consumed slot < len" using len(2) by (simp add: word_less_nat_alt)
      ultimately have "s1 = slot" using 2(2) by (auto simp: s1_def)
      then show ?thesis using 2 by simp
    qed
  qed
  have same: "ts_packet s1 = chain" "gs_gso s1 = gs_gso slot" "ts_total s1 = ts_total slot" by (simp_all add: s1_def ok(3))
  have "unat len \<le> length (ahead chain (ts_cursor s1) (unat (ts_cursor_off s1)))" "unat (0 :: ULONG) + 65535 * unat len < 2 ^ 32"
    using s1 ok(7,8) len(2) by simp_all
  then obtain cur' off' acc' where w: "ami_sana2_gso_walk chain False (ts_cursor s1) (unat (ts_cursor_off s1)) (Some out_at) (unat len) 0 0 [] =
        Some (True, cur', off', take (unat len) (drop pos (chain_bytes chain)), acc')"
      "cursor_ok chain cur'" "ahead chain cur' off' = drop (unat len) (drop pos (chain_bytes chain))" "off' \<le> unat (ts_cursor_off s1) + unat len"
    using walk_eq [OF ok(2), of "ts_cursor s1" "unat len" "unat (ts_cursor_off s1)" 0 False "Some out_at" 0 "[]"] s1 by auto
  have cur: "cur' \<noteq> None" by (rule walk_keeps [OF w(1)]) (use s1 in blast)
  define out where "out = take (unat len) (drop pos (chain_bytes chain))"
  define s2 where "s2 = s1\<lparr>ts_cursor := cur', ts_cursor_off := of_nat off', ts_consumed := ts_consumed s1 + of_nat (length out)\<rparr>"
  have lo: "length out = unat len" using ok(7) len(2) by (simp add: out_def)
  have "unat (ts_consumed s1 + of_nat (length out)) = pos + unat len"
    using s1 lo ok(8) len(2) by (subst unat_add_nowrap) simp_all
  moreover have "unat (of_nat off' :: ULONG) = off'" using w(4) s1 ok(8) len(2) by (simp add: unat_of_nat)
  ultimately have "sending tcp_tx s2 chain tot (pos + unat len)"
    using d ok w cur s1 len(2) by (auto simp: sending_def s2_def same add.commute)
  moreover have "ami_sana2_copy_from_buff nx_sum tcp_tx g slot out_at len = Some (True, out, s2)"
  proof -
    have "\<not> ts_total slot < len" "rd chain 0 = Some (hd chain)"
      using ok len(2) by (simp_all add: word_less_nat_alt rd_def hd_conv_nth)
    then show ?thesis
      using ok w(1) unfolding ami_sana2_copy_from_buff_def copy_from_packet_def Let_def s1_def [symmetric]
      by (simp add: same s2_def out_def)
  qed
  ultimately show ?thesis unfolding out_def by blast
qed

lemma sending_calls:
  assumes "sending tcp_tx slot chain tot pos" and "calls_cover cs (tot - pos)"
  shows "copy_calls nx_sum tcp_tx g slot cs = Some (True, take (tot - pos) (drop pos (chain_bytes chain)))"
  using assms
proof (induction cs arbitrary: slot pos)
  case Nil
  then show ?case by (simp add: calls_cover_def)
next
  case (Cons a cs)
  have len: "0 < snd a" "pos + unat (snd a) \<le> tot" "calls_cover cs (tot - (pos + unat (snd a)))"
    using Cons.prems by (auto simp: calls_cover_def sending_def)
  from sending_step [OF Cons.prems(1) len(1,2), of nx_sum g "fst a"]
  obtain slot' where s: "ami_sana2_copy_from_buff nx_sum tcp_tx g slot (fst a) (snd a) =
      Some (True, take (unat (snd a)) (drop pos (chain_bytes chain)), slot')" "sending tcp_tx slot' chain tot (pos + unat (snd a))" by blast
  have "take (tot - pos) (drop pos (chain_bytes chain)) =
      take (unat (snd a)) (drop pos (chain_bytes chain)) @ take (tot - (pos + unat (snd a))) (drop (pos + unat (snd a)) (chain_bytes chain))"
  proof -
    have "tot - pos = unat (snd a) + (tot - (pos + unat (snd a)))" using len(2) by simp
    then show ?thesis by (simp only: take_add drop_drop add.commute [of pos])
  qed
  then show ?case using s(1) Cons.IH [OF s(2) len(3)] by simp
qed

text \<open>
  C22. A frame that asks for no checksum goes out byte for byte, from however many buffers and in
  however many calls the device takes it, each call writing where the device likes.
\<close>

theorem tx_pieces_exact:
  assumes "chain \<noteq> []" and "list_all buf_ok chain" and "ts_packet slot = chain" and "\<not> gs_gso slot"
    and "pk_capability (hd chain) AND tcp_tx = 0" and "ts_cursor slot = None"
    and "unat (ts_total slot) \<le> length (chain_bytes chain)" and "unat (ts_total slot) \<le> 65535"
    and "calls_cover cs (unat (ts_total slot))"
  shows "copy_calls nx_sum tcp_tx g slot cs = Some (True, take (unat (ts_total slot)) (chain_bytes chain))"
proof -
  have "sending tcp_tx slot chain (unat (ts_total slot)) 0" using assms by (simp add: sending_def)
  from sending_calls [OF this, of cs nx_sum g] show ?thesis using assms(9) by simp
qed

theorem tx_pieces_exact_witness:
  "copy_calls id 4 sample_gso (sample_gso_slot\<lparr>gs_gso := False, ts_total := 43\<rparr>) [(7, 40), (100, 2), (1, 1)] =
   Some (True, sample_hdr @ [1, 2, 3])"
proof -
  have s: "sample_parent \<noteq> []" "list_all buf_ok sample_parent" "pk_capability (hd sample_parent) AND 4 = 0"
    using sample_ok by (simp_all add: parent_ok_def) (simp add: sample_parent_def)
  have "ts_packet (sample_gso_slot\<lparr>gs_gso := False, ts_total := 43\<rparr>) = sample_parent"
      "ts_cursor (sample_gso_slot\<lparr>gs_gso := False, ts_total := 43\<rparr>) = None" by (simp_all add: sample_gso_slot_def)
  from tx_pieces_exact [OF s(1,2) this(1) _ s(3) this(2), of "[(7, 40), (100, 2), (1, 1)]" id sample_gso]
  show ?thesis by (simp add: calls_cover_def sample_bytes del: copy_calls.simps)
qed

end
