(* ===== verification/Big_Prim.thy ===== *)
theory Big_Prim
  imports Rt_Correct
begin

text \<open>
  The limb primitives of \<^verbatim>\<open>src/crypto68k/c68k_prim.c\<close>, the portable half of the module: multiply and
  accumulate, multiply and subtract, add, subtract, compare and the quotient of two limbs by one.

  A number is a list of 32-bit limbs, least significant first. A pointer and a count are the list of that
  many limbs: a routine that updates \<^verbatim>\<open>r[0..n-1]\<close> in place takes the limbs and returns the new ones, with
  its carry or borrow. The callers cut these lists out of their buffers with \<open>rd_range\<close> and \<open>wr_range\<close>,
  so an access that leaves a buffer is \<open>None\<close>. The hook by which a long loop gives the machine away
  (\<^verbatim>\<open>C68K_YIELD\<close>) does not touch the operands and is not part of the model; how often it is called is
  \<open>c68k_yield_stride\<close>.
\<close>

type_synonym limb = "32 word"
type_synonym limb2 = "64 word"

abbreviation (input) B32 :: nat where "B32 \<equiv> 4294967296"

section \<open>The routines\<close>

definition c68k_yield_stride :: "bool \<Rightarrow> limb \<Rightarrow> limb" where
  "c68k_yield_stride hooked products =
     (if \<not> hooked then 0xFFFFFFFF
      else let products = (if products = 0 then 1 else products);
               stride = (256 + products - 1) div products
           in if stride \<noteq> 0 then stride else 1)"

definition c68k_wide_mul :: "limb \<Rightarrow> limb \<Rightarrow> limb2" where
  "c68k_wide_mul a b =
     (let a_lo = a AND 0xFFFF; a_hi = drop_bit 16 a; b_lo = b AND 0xFFFF; b_hi = drop_bit 16 b;
          ll = a_lo * b_lo; lh = a_lo * b_hi; hl = a_hi * b_lo; hh = a_hi * b_hi;
          mid = drop_bit 16 ll + (lh AND 0xFFFF) + (hl AND 0xFFFF)
      in push_bit 32 (ucast (hh + drop_bit 16 lh + drop_bit 16 hl + drop_bit 16 mid))
         OR ucast (push_bit 16 mid OR (ll AND 0xFFFF)))"

text \<open>The form for the 68000, whose halves are sixteen-bit variables.\<close>

definition c68k_wide_mul_000 :: "limb \<Rightarrow> limb \<Rightarrow> limb2" where
  "c68k_wide_mul_000 a b =
     (let a_lo = (ucast a :: u16); a_hi = (ucast (drop_bit 16 a) :: u16);
          b_lo = (ucast b :: u16); b_hi = (ucast (drop_bit 16 b) :: u16);
          ll = ucast a_lo * (ucast b_lo :: limb); lh = ucast a_lo * (ucast b_hi :: limb);
          hl = ucast a_hi * (ucast b_lo :: limb); hh = ucast a_hi * (ucast b_hi :: limb);
          mid = drop_bit 16 ll + (lh AND 0xFFFF) + (hl AND 0xFFFF)
      in push_bit 32 (ucast (hh + drop_bit 16 lh + drop_bit 16 hl + drop_bit 16 mid))
         OR ucast (push_bit 16 mid OR (ll AND 0xFFFF)))"

text \<open>The loops: the accumulator carries into the next limb by its high half.\<close>

fun addmul_loop :: "limb \<Rightarrow> limb2 \<Rightarrow> limb list \<Rightarrow> limb list \<Rightarrow> limb list \<times> limb" where
  "addmul_loop a product (r # rs) (b # bs) =
     (let product = drop_bit 32 product + ucast r + c68k_wide_mul a b;
          (rs', c) = addmul_loop a product rs bs
      in (ucast product # rs', c))"
| "addmul_loop a product rs bs = (rs, ucast (drop_bit 32 product))"

definition c68k_addmul_1_c :: "limb list \<Rightarrow> limb list \<Rightarrow> limb \<Rightarrow> limb list \<times> limb" where
  "c68k_addmul_1_c r b a = addmul_loop a 0 r b"

definition c68k_addmul_1 :: "limb list \<Rightarrow> limb list \<Rightarrow> limb \<Rightarrow> limb list \<times> limb" where
  "c68k_addmul_1 r b a = c68k_addmul_1_c r b a"

fun submul_loop :: "limb \<Rightarrow> limb2 \<Rightarrow> limb \<Rightarrow> limb list \<Rightarrow> limb list \<Rightarrow> limb list \<times> limb" where
  "submul_loop a product borrow (r # rs) (b # bs) =
     (let product = drop_bit 32 product + ucast a * ucast b;
          lo = ucast product;
          out = r - lo - borrow;
          borrow = (if borrow \<noteq> 0 then (if r \<le> lo then 1 else 0) else (if r < lo then 1 else 0));
          (rs', c) = submul_loop a product borrow rs bs
      in (out # rs', c))"
| "submul_loop a product borrow rs bs = (rs, ucast (drop_bit 32 product + ucast borrow))"

definition c68k_submul_1 :: "limb list \<Rightarrow> limb list \<Rightarrow> limb \<Rightarrow> limb list \<times> limb" where
  "c68k_submul_1 r b a = submul_loop a 0 0 r b"

text \<open>
  The quotient and the remainder. The caller must check that \<open>hi < d\<close>: otherwise the \<^verbatim>\<open>DIVU.L\<close> of the assembly traps,
  on a zero divisor or on a quotient that does not fit, and the C body would cut the quotient off.
\<close>

definition c68k_div_2by1 :: "limb \<Rightarrow> limb \<Rightarrow> limb \<Rightarrow> (limb \<times> limb) option" where
  "c68k_div_2by1 hi lo d =
     (let num = push_bit 32 (ucast hi) OR ucast lo :: limb2
      in if d \<le> hi then None else Some (ucast (num div ucast d), ucast (num mod ucast d)))"

fun add_carry_loop :: "limb2 \<Rightarrow> limb list \<Rightarrow> limb list \<times> limb" where
  "add_carry_loop s (x # xs) =
     (let s = drop_bit 32 s + ucast x; (ys, c) = add_carry_loop s xs in (ucast s # ys, c))"
| "add_carry_loop s [] = ([], ucast (drop_bit 32 s))"

definition c68k_add_carry :: "limb list \<Rightarrow> limb \<Rightarrow> limb list \<times> limb" where
  "c68k_add_carry src carry = add_carry_loop (push_bit 32 (ucast carry)) src"

fun add_loop :: "limb2 \<Rightarrow> limb list \<Rightarrow> limb list \<Rightarrow> limb list \<times> limb" where
  "add_loop s (r # rs) (b # bs) =
     (let s = drop_bit 32 s + ucast r + ucast b; (ys, c) = add_loop s rs bs in (ucast s # ys, c))"
| "add_loop s rs bs = (rs, ucast (drop_bit 32 s))"

definition c68k_add :: "limb list \<Rightarrow> limb list \<Rightarrow> limb list \<times> limb" where
  "c68k_add r b = add_loop 0 r b"

fun sub_loop :: "limb \<Rightarrow> limb list \<Rightarrow> limb list \<Rightarrow> limb list \<times> limb" where
  "sub_loop borrow (l # ls) (r # rs) =
     (let out = l - r - borrow;
          borrow = (if borrow \<noteq> 0 then (if l \<le> r then 1 else 0) else (if l < r then 1 else 0));
          (ys, c) = sub_loop borrow ls rs
      in (out # ys, c))"
| "sub_loop borrow ls rs = (ls, borrow)"

definition c68k_sub :: "limb list \<Rightarrow> limb list \<Rightarrow> limb list \<times> limb" where
  "c68k_sub r b = sub_loop 0 r b"

text \<open>From the top limb down: the lists are walked in reverse.\<close>

fun cmp_down :: "limb list \<Rightarrow> limb list \<Rightarrow> int" where
  "cmp_down (a # as) (b # bs) = (if a \<noteq> b then (if b < a then 1 else -1) else cmp_down as bs)"
| "cmp_down as bs = 0"

definition c68k_cmp :: "limb list \<Rightarrow> limb list \<Rightarrow> int" where
  "c68k_cmp a b = cmp_down (rev a) (rev b)"

section \<open>The value of a number\<close>

primrec lval :: "limb list \<Rightarrow> nat" where
  "lval [] = 0"
| "lval (x # xs) = unat x + B32 * lval xs"

lemma lval_append: "lval (xs @ ys) = lval xs + B32 ^ length xs * lval ys"
  by (induction xs) (simp_all add: algebra_simps)

lemma lval_less: "lval xs < B32 ^ length xs"
proof (induction xs)
  case (Cons x xs)
  have "unat x + B32 * lval xs < B32 + B32 * lval xs" using unat_lt_32 [of x] by simp
  also have "\<dots> = B32 * (lval xs + 1)" by simp
  also have "\<dots> \<le> B32 * B32 ^ length xs" using Cons by (intro mult_le_mono2) simp
  finally show ?case by simp
qed simp

lemma lval_zeros [simp]: "lval (replicate n 0) = 0"
  by (induction n) simp_all

lemma lval_split: "i \<le> length xs \<Longrightarrow> lval xs = lval (take i xs) + B32 ^ i * lval (drop i xs)"
  using lval_append [of "take i xs" "drop i xs"] by simp

lemma lval_inject: "length xs = length ys \<Longrightarrow> lval xs = lval ys \<Longrightarrow> xs = ys"
proof (induction xs ys rule: list_induct2)
  case (Cons x xs y ys)
  have lt: "unat x < B32" "unat y < B32" using unat_lt_32 [of x] unat_lt_32 [of y] by simp_all
  have eq: "unat x + B32 * lval xs = unat y + B32 * lval ys" using Cons.prems by simp
  have "(unat x + B32 * lval xs) mod B32 = unat x" "(unat y + B32 * lval ys) mod B32 = unat y" using lt by simp_all
  then have "unat x = unat y" using eq by simp
  then show ?case using Cons eq by (simp add: word_unat_eq_iff)
qed simp

text \<open>A sixty-four-bit accumulator is a limb and what goes into the next.\<close>

lemma unat_low_limb: "unat (ucast (p :: limb2) :: limb) = unat p mod B32"
  by (simp add: unsigned_ucast_eq take_bit_eq_mod unat_mod)

lemma unat_high_limb: "unat (drop_bit 32 (p :: limb2)) = unat p div B32"
  by (simp add: unat_drop)

lemma unat_high_limb_cast: "unat (ucast (drop_bit 32 (p :: limb2)) :: limb) = unat p div B32"
proof -
  have "unat p div B32 < B32" using unat_lt2p [of p] by simp
  then show ?thesis by (simp add: unat_low_limb unat_high_limb)
qed

lemma unat_limb_up: "unat (ucast (x :: limb) :: limb2) = unat x"
  by (simp add: unat_ucast_up)

lemma limb_step: "unat p mod B32 + B32 * (unat (p :: limb2) div B32) = unat p"
  by simp

section \<open>The routines compute\<close>

lemma and_low16: "(a AND 0xFFFF :: u32) = low16 a"
  by (simp add: word_unat_eq_iff unat_and_16 unat_low16)

lemma wide_mul: "c68k_wide_mul a b = ucast a * ucast b" "c68k_wide_mul_000 a b = ucast a * ucast b"
proof -
  define cpu where "cpu = \<lparr>rt_asm = False, ami_rt_020 = False, ami_rt_mulul = False\<rparr>"
  have "c68k_wide_mul a b = ami_umul32_wide cpu a b"
    by (simp add: c68k_wide_mul_def ami_umul32_wide_def cpu_def and_low16 wide_def Let_def)
  moreover have "c68k_wide_mul_000 a b = ami_umul32_wide cpu a b"
    by (simp add: c68k_wide_mul_000_def ami_umul32_wide_def cpu_def and_low16 wide_def Let_def flip: low16_def)
  ultimately show "c68k_wide_mul a b = ucast a * ucast b" "c68k_wide_mul_000 a b = ucast a * ucast b"
    by (simp_all add: umul32_wide)
qed

lemma unat_wide_mul: "unat (c68k_wide_mul a b) = unat a * unat b"
  by (simp add: wide_mul unat_prod64)

text \<open>A limb product and two limbs fit the accumulator exactly.\<close>

lemma product_bound: "x < B32 \<Longrightarrow> y < B32 \<Longrightarrow> x * y \<le> (B32 - 1) * (B32 - 1)"
  by (rule mult_le_mono) simp_all

lemma addmul_loop_val:
  assumes "length rs = length bs"
  shows "length (fst (addmul_loop a p rs bs)) = length rs \<and>
    lval (fst (addmul_loop a p rs bs)) + B32 ^ length rs * unat (snd (addmul_loop a p rs bs))
      = lval rs + unat a * lval bs + unat p div B32"
  using assms
proof (induction rs bs arbitrary: p rule: list_induct2)
  case Nil
  then show ?case by (simp add: unat_high_limb_cast)
next
  case (Cons r rs b bs)
  define q where "q = drop_bit 32 p + ucast r + c68k_wide_mul a b"
  have "unat p div B32 \<le> B32 - 1" using unat_lt2p [of p] by simp
  moreover have "unat r \<le> B32 - 1" using unat_lt_32 [of r] by simp
  moreover have "unat a * unat b \<le> (B32 - 1) * (B32 - 1)"
    using unat_lt_32 [of a] unat_lt_32 [of b] by (intro product_bound) simp_all
  ultimately have q: "unat q = unat p div B32 + unat r + unat a * unat b"
    unfolding q_def by (simp add: unat_word_ariths unat_high_limb unat_limb_up unat_wide_mul)
  obtain ys c where rec: "addmul_loop a q rs bs = (ys, c)" by (cases "addmul_loop a q rs bs")
  have IH: "length ys = length rs" "lval ys + B32 ^ length rs * unat c = lval rs + unat a * lval bs + unat q div B32"
    using Cons.IH [of q] rec by simp_all
  have "unat q mod B32 + B32 * (lval ys + B32 ^ length rs * unat c)
      = unat q + B32 * (lval rs + unat a * lval bs)"
    unfolding IH(2) using limb_step [of q] by (simp add: algebra_simps)
  moreover have "addmul_loop a p (r # rs) (b # bs) = (ucast q # ys, c)"
    using rec by (simp only: addmul_loop.simps Let_def q_def [symmetric] prod.case)
  ultimately show ?case using IH(1) q by (simp add: unat_low_limb algebra_simps)
qed

lemma addmul_val:
  assumes "length r = length b" and "c68k_addmul_1 r b a = (r', c)"
  shows "length r' = length r" and "lval r' + B32 ^ length r * unat c = lval r + unat a * lval b"
  using addmul_loop_val [OF assms(1), of a 0] assms(2) by (simp_all add: c68k_addmul_1_def c68k_addmul_1_c_def)

lemma add_loop_val:
  assumes "length rs = length bs" and "unat s div B32 \<le> 1"
  shows "length (fst (add_loop s rs bs)) = length rs \<and> unat (snd (add_loop s rs bs)) \<le> 1 \<and>
    lval (fst (add_loop s rs bs)) + B32 ^ length rs * unat (snd (add_loop s rs bs)) = lval rs + lval bs + unat s div B32"
  using assms
proof (induction rs bs arbitrary: s rule: list_induct2)
  case Nil
  then show ?case by (simp add: unat_high_limb_cast)
next
  case (Cons r rs b bs)
  define q where "q = drop_bit 32 s + ucast r + ucast b"
  have "unat r < B32" "unat b < B32" using unat_lt_32 [of r] unat_lt_32 [of b] by simp_all
  then have q: "unat q = unat s div B32 + unat r + unat b" and le: "unat q div B32 \<le> 1"
    using Cons.prems unfolding q_def by (simp_all add: unat_word_ariths unat_high_limb unat_limb_up)
  obtain ys c where rec: "add_loop q rs bs = (ys, c)" by (cases "add_loop q rs bs")
  have IH: "length ys = length rs" "unat c \<le> 1" "lval ys + B32 ^ length rs * unat c = lval rs + lval bs + unat q div B32"
    using Cons.IH [OF le] rec by simp_all
  have "unat q mod B32 + B32 * (lval ys + B32 ^ length rs * unat c) = unat q + B32 * (lval rs + lval bs)"
    unfolding IH(3) using limb_step [of q] by (simp add: algebra_simps)
  moreover have "add_loop s (r # rs) (b # bs) = (ucast q # ys, c)"
    using rec by (simp only: add_loop.simps Let_def q_def [symmetric] prod.case)
  ultimately show ?case using IH(1,2) q by (simp add: unat_low_limb algebra_simps)
qed

lemma add_val:
  assumes "length r = length b" and "c68k_add r b = (r', c)"
  shows "length r' = length r" and "unat c \<le> 1" and "lval r' + B32 ^ length r * unat c = lval r + lval b"
  using add_loop_val [OF assms(1), of 0] assms(2) by (simp_all add: c68k_add_def)

lemma add_carry_loop_val:
  "length (fst (add_carry_loop s xs)) = length xs \<and>
   lval (fst (add_carry_loop s xs)) + B32 ^ length xs * unat (snd (add_carry_loop s xs)) = lval xs + unat s div B32"
proof (induction xs arbitrary: s)
  case Nil
  then show ?case by (simp add: unat_high_limb_cast)
next
  case (Cons x xs)
  define q where "q = drop_bit 32 s + ucast x"
  have "unat x < B32" "unat s div B32 < B32" using unat_lt_32 [of x] unat_lt2p [of s] by simp_all
  then have q: "unat q = unat s div B32 + unat x"
    unfolding q_def by (simp add: unat_word_ariths unat_high_limb unat_limb_up)
  obtain ys c where rec: "add_carry_loop q xs = (ys, c)" by (cases "add_carry_loop q xs")
  have IH: "length ys = length xs" "lval ys + B32 ^ length xs * unat c = lval xs + unat q div B32"
    using Cons.IH [of q] rec by simp_all
  have "unat q mod B32 + B32 * (lval ys + B32 ^ length xs * unat c) = unat q + B32 * lval xs"
    unfolding IH(2) using limb_step [of q] by (simp add: algebra_simps)
  moreover have "add_carry_loop s (x # xs) = (ucast q # ys, c)"
    using rec by (simp only: add_carry_loop.simps Let_def q_def [symmetric] prod.case)
  ultimately show ?case using IH(1) q by (simp add: unat_low_limb algebra_simps)
qed

lemma add_carry_val:
  assumes "c68k_add_carry xs c = (ys, d)"
  shows "length ys = length xs" and "lval ys + B32 ^ length xs * unat d = lval xs + unat c"
proof -
  have "unat (push_bit 32 (ucast c) :: limb2) = unat c * 2 ^ 32"
    using unat_lt_32 [of c] by (subst unat_push) (simp_all add: unat_limb_up)
  then show "length ys = length xs" "lval ys + B32 ^ length xs * unat d = lval xs + unat c"
    using add_carry_loop_val [of "push_bit 32 (ucast c)" xs] assms by (simp_all add: c68k_add_carry_def)
qed

text \<open>A limb of a difference, with the borrow of the two comparisons.\<close>

lemma sub_limb:
  fixes l r b :: limb
  assumes "unat b \<le> 1"
  defines "b' \<equiv> (if b \<noteq> 0 then (if l \<le> r then 1 else 0) else (if l < r then 1 else 0)) :: limb"
  shows "unat l + B32 * unat b' = unat (l - r - b) + unat r + unat b" and "unat b' \<le> 1"
proof -
  have lt: "unat l < B32" "unat r < B32" using unat_lt_32 [of l] unat_lt_32 [of r] by simp_all
  show "unat b' \<le> 1" by (simp add: b'_def)
  have ge: "unat l + B32 * unat b' \<ge> unat r + unat b"
  proof (cases "b = 0")
    case True
    then show ?thesis using lt by (simp add: b'_def word_less_nat_alt)
  next
    case False
    then have "unat b = 1" using assms(1) by (metis le_Suc_eq One_nat_def le_0_eq unat_eq_zero)
    then show ?thesis using lt False by (simp add: b'_def word_le_nat_alt)
  qed
  have lt2: "unat l + B32 * unat b' < B32 + unat r + unat b"
  proof (cases "b = 0")
    case True
    then show ?thesis using lt by (simp add: b'_def word_less_nat_alt)
  next
    case False
    then have "unat b = 1" using assms(1) by (metis le_Suc_eq One_nat_def le_0_eq unat_eq_zero)
    then show ?thesis using lt False by (simp add: b'_def word_le_nat_alt)
  qed
  define d where "d = unat l + B32 * unat b' - (unat r + unat b)"
  have d: "unat l + B32 * unat b' = d + (unat r + unat b)" "d < B32" using ge lt2 by (simp_all add: d_def)
  have "l = of_nat d + (r + b)"
  proof -
    have "(of_nat (unat l + B32 * unat b') :: limb) = of_nat (unat l) + of_nat B32 * of_nat (unat b')"
      by (simp only: of_nat_add of_nat_mult)
    moreover have "(of_nat B32 :: limb) = 0" by simp
    ultimately have "(of_nat (unat l + B32 * unat b') :: limb) = l" by (simp only: mult_zero_left add_0_right) simp
    moreover have "(of_nat (d + (unat r + unat b)) :: limb) = of_nat d + (r + b)" by simp
    ultimately show ?thesis using d(1) by simp
  qed
  then have "l - r - b = of_nat d" by simp
  then have "unat (l - r - b) = d" using d(2) by (simp add: unat_of_nat)
  then show "unat l + B32 * unat b' = unat (l - r - b) + unat r + unat b" using d(1) by simp
qed

lemma sub_loop_val:
  assumes "length ls = length rs" and "unat b \<le> 1"
  shows "length (fst (sub_loop b ls rs)) = length ls \<and> unat (snd (sub_loop b ls rs)) \<le> 1 \<and>
    lval ls + B32 ^ length ls * unat (snd (sub_loop b ls rs)) = lval (fst (sub_loop b ls rs)) + lval rs + unat b"
  using assms
proof (induction ls rs arbitrary: b rule: list_induct2)
  case Nil
  then show ?case by simp
next
  case (Cons l ls r rs)
  define b' :: limb where "b' = (if b \<noteq> 0 then (if l \<le> r then 1 else 0) else (if l < r then 1 else 0))"
  note L = sub_limb [OF Cons.prems, of l r, folded b'_def]
  obtain ys c where rec: "sub_loop b' ls rs = (ys, c)" by (cases "sub_loop b' ls rs")
  have IH: "length ys = length ls" "unat c \<le> 1" "lval ls + B32 ^ length ls * unat c = lval ys + lval rs + unat b'"
    using Cons.IH [OF L(2)] rec by simp_all
  have "unat l + B32 * (lval ls + B32 ^ length ls * unat c) = unat (l - r - b) + unat r + unat b + B32 * (lval ys + lval rs)"
    unfolding IH(3) using L(1) by (simp add: algebra_simps)
  moreover have "sub_loop b (l # ls) (r # rs) = ((l - r - b) # ys, c)"
    using rec by (simp only: sub_loop.simps Let_def b'_def [symmetric] prod.case)
  ultimately show ?case using IH by (simp add: algebra_simps)
qed

lemma length_sub_loop: "length (fst (sub_loop b ls rs)) = length ls"
  by (induction b ls rs rule: sub_loop.induct) (simp_all add: Let_def split_beta)

lemma length_sub [simp]: "length (fst (c68k_sub r b)) = length r"
  by (simp add: c68k_sub_def length_sub_loop)

lemma length_add_loop: "length (fst (add_loop s rs bs)) = length rs"
  by (induction s rs bs rule: add_loop.induct) (simp_all add: Let_def split_beta)

lemma length_add [simp]: "length (fst (c68k_add r b)) = length r"
  by (simp add: c68k_add_def length_add_loop)

lemma sub_val:
  assumes "length r = length b" and "c68k_sub r b = (r', c)"
  shows "length r' = length r" and "unat c \<le> 1" and "lval r + B32 ^ length r * unat c = lval r' + lval b"
  using sub_loop_val [OF assms(1), of 0] assms(2) by (simp_all add: c68k_sub_def)

lemma submul_row:
  fixes x y z c N d w P a b e :: nat
  assumes "x + B32 * (y + N * c) = d + w + (P + a * b) + B32 * (z + a * e)"
  shows "x + B32 * y + B32 * N * c = d + B32 * z + a * (b + B32 * e) + P + w"
  using assms by (simp add: algebra_simps)

lemma submul_loop_val:
  assumes "length rs = length bs" and "unat w \<le> 1" and "unat p div B32 \<le> B32 - 2"
  shows "length (fst (submul_loop a p w rs bs)) = length rs \<and>
    lval rs + B32 ^ length rs * unat (snd (submul_loop a p w rs bs))
      = lval (fst (submul_loop a p w rs bs)) + unat a * lval bs + unat p div B32 + unat w"
  using assms
proof (induction rs bs arbitrary: p w rule: list_induct2)
  case Nil
  have "unat (drop_bit 32 p + ucast w) = unat p div B32 + unat w"
    using Nil by (simp add: unat_word_ariths unat_high_limb unat_limb_up)
  then show ?case using Nil by (simp add: unat_low_limb)
next
  case (Cons r rs b bs)
  define q where "q = drop_bit 32 p + ucast a * ucast b"
  define lo where "lo = (ucast q :: limb)"
  define w' :: limb where "w' = (if w \<noteq> 0 then (if r \<le> lo then 1 else 0) else (if r < lo then 1 else 0))"
  have prod: "unat a * unat b \<le> (B32 - 1) * (B32 - 1)"
    using unat_lt_32 [of a] unat_lt_32 [of b] by (intro product_bound) simp_all
  have pu: "unat (ucast a * ucast b :: limb2) = unat a * unat b" by (rule unat_prod64)
  have q: "unat q = unat p div B32 + unat a * unat b"
    using prod Cons.prems(2) unfolding q_def by (simp add: unat_word_ariths(1) unat_high_limb pu)
  have qle: "unat q div B32 \<le> B32 - 2" using q prod Cons.prems(2) by simp
  have lo: "unat lo = unat q mod B32" by (simp add: lo_def unat_low_limb)
  note L = sub_limb [OF Cons.prems(1), of r lo, folded w'_def]
  obtain ys c where rec: "submul_loop a q w' rs bs = (ys, c)" by (cases "submul_loop a q w' rs bs")
  have IH: "length ys = length rs" "lval rs + B32 ^ length rs * unat c = lval ys + unat a * lval bs + unat q div B32 + unat w'"
    using Cons.IH [OF L(2) qle] rec by simp_all
  have "unat r + B32 * (lval rs + B32 ^ length rs * unat c)
      = unat (r - lo - w) + unat w + (unat q mod B32 + B32 * (unat q div B32)) + B32 * (lval ys + unat a * lval bs)"
    unfolding IH(2) using L(1) unfolding lo by (simp only: distrib_left)
  then have "unat r + B32 * (lval rs + B32 ^ length rs * unat c)
      = unat (r - lo - w) + unat w + (unat p div B32 + unat a * unat b) + B32 * (lval ys + unat a * lval bs)"
    unfolding limb_step by (simp only: q)
  note row = submul_row [OF this]
  have "submul_loop a p w (r # rs) (b # bs) = ((r - lo - w) # ys, c)"
    using rec by (simp only: submul_loop.simps Let_def q_def [symmetric] lo_def [symmetric] w'_def [symmetric] prod.case)
  then show ?case using IH(1) row by (simp only: fst_conv snd_conv lval.simps list.size power_Suc add_Suc_right add_0_right simp_thms)
qed

lemma submul_val:
  assumes "length r = length b" and "c68k_submul_1 r b a = (r', c)"
  shows "length r' = length r" and "lval r + B32 ^ length r * unat c = lval r' + unat a * lval b"
  using submul_loop_val [OF assms(1), of 0 0 a] assms(2) by (simp_all add: c68k_submul_1_def)

lemma cmp_down_val:
  assumes "length as = length bs"
  shows "cmp_down as bs = (if lval (rev bs) < lval (rev as) then 1 else if lval (rev as) = lval (rev bs) then 0 else -1)"
  using assms
proof (induction as bs rule: list_induct2)
  case (Cons a as b bs)
  define N where "N = B32 ^ length as"
  have lt: "lval (rev as) < N" "lval (rev bs) < N" using lval_less [of "rev as"] lval_less [of "rev bs"] Cons by (simp_all add: N_def)
  have v: "lval (rev (a # as)) = lval (rev as) + N * unat a" "lval (rev (b # bs)) = lval (rev bs) + N * unat b"
    using Cons by (simp_all add: lval_append N_def)
  have up: "x + N * i < y + N * j" if "i < j" "x < N" for x y i j :: nat
  proof -
    have "N * i + N \<le> N * j" using that(1) by (metis Suc_leI mult_Suc_right mult_le_mono2 add.commute)
    then show ?thesis using that(2) by linarith
  qed
  consider "unat a < unat b" | "unat b < unat a" | "a = b" using word_unat_eq_iff linorder_neqE_nat by blast
  then show ?case
  proof cases
    case 1
    then show ?thesis using up [OF 1 lt(1), of "lval (rev bs)"] unfolding v by (auto simp: word_less_nat_alt)
  next
    case 2
    then show ?thesis using up [OF 2 lt(2), of "lval (rev as)"] unfolding v by (auto simp: word_less_nat_alt)
  next
    case 3
    then show ?thesis using Cons.IH unfolding v by auto
  qed
qed simp

lemma cmp_val: "length a = length b \<Longrightarrow> 0 \<le> c68k_cmp a b \<longleftrightarrow> lval b \<le> lval a"
  using cmp_down_val [of "rev a" "rev b"] by (simp add: c68k_cmp_def)

lemma div_2by1_val:
  assumes "unat hi < unat d"
  obtains q r where "c68k_div_2by1 hi lo d = Some (q, r)" and "unat hi * B32 + unat lo = unat q * unat d + unat r" and "unat r < unat d"
proof -
  define num where "num = (push_bit 32 (ucast hi) OR ucast lo :: limb2)"
  have num: "unat num = unat hi * B32 + unat lo"
    using unat_wide [of hi lo] by (simp add: num_def wide_def)
  define N where "N = unat hi * B32 + unat lo"
  have "N < unat d * B32"
  proof -
    have "(unat hi + 1) * B32 \<le> unat d * B32" using assms by (intro mult_le_mono1) simp
    then show ?thesis using unat_lt_32 [of lo] by (simp add: N_def)
  qed
  then have q: "N div unat d < B32" by (simp add: less_mult_imp_div_less mult.commute)
  have r: "N mod unat d < unat d" using assms by simp
  have up: "unat (ucast d :: limb2) = unat d" by (rule unat_limb_up)
  have "unat (ucast (num div ucast d) :: limb) = N div unat d" "unat (ucast (num mod ucast d) :: limb) = N mod unat d"
    using q r unat_lt_32 [of d] by (simp_all add: unat_low_limb unat_div unat_mod up num N_def [symmetric])
  moreover have "\<not> d \<le> hi" using assms by (simp add: word_le_nat_alt)
  ultimately show thesis
    using that [of "ucast (num div ucast d)" "ucast (num mod ucast d)"] r
    by (simp add: c68k_div_2by1_def num_def [symmetric] N_def [symmetric] Let_def)
qed

end
