(* ===== verification/Big_Mont.thy ===== *)
theory Big_Mont
  imports Big_Prim
begin

text \<open>
  Montgomery multiplication and squaring, \<^verbatim>\<open>src/crypto68k/c68k_mont.c\<close>: the product by rows or by
  Karatsuba's split, the reduction row by row, and the last subtraction.

  A buffer is a list and a pointer into it an offset; \<open>s\<close> is the scratch that follows the product, cut
  into the regions the code cuts it into. \<open>kl\<close> is \<^verbatim>\<open>c68k_karatsuba_limbs\<close>, the width at which the split
  begins.
\<close>

section \<open>The routines\<close>

primrec newton :: "nat \<Rightarrow> limb \<Rightarrow> limb \<Rightarrow> limb" where
  "newton 0 m0 v = v"
| "newton (Suc i) m0 v = newton i m0 (v * (2 - m0 * v))"

definition c68k_mont_n0inv :: "limb \<Rightarrow> limb" where
  "c68k_mont_n0inv m0 = 0 - newton 5 m0 m0"

definition c68k_mont_final :: "limb list \<Rightarrow> limb list \<Rightarrow> (limb list \<times> limb list) option" where
  "c68k_mont_final high m = do {
     top_limb \<leftarrow> rd high (length m);
     low \<leftarrow> rd_range high 0 (length m);
     let low = (if top_limb \<noteq> 0 \<or> 0 \<le> c68k_cmp low m then fst (c68k_sub low m) else low);
     high \<leftarrow> wr_range high 0 low;
     Some (low, high)
   }"

text \<open>\<^verbatim>\<open>while ((carry != 0) && (j <= top))\<close>: the carry of a row runs up the buffer.\<close>

function carry_up :: "limb list \<Rightarrow> nat \<Rightarrow> nat \<Rightarrow> limb \<Rightarrow> limb list option" where
  "carry_up t j hi carry =
     (if carry \<noteq> 0 \<and> j \<le> hi then do {
        tj \<leftarrow> rd t j;
        let s = tj + carry;
        let carry = (if s < carry then 1 else 0);
        carry_up (t[j := s]) (j + 1) hi carry
      } else Some t)"
  by pat_completeness auto
termination by (relation "measure (\<lambda>(t, j, hi, carry). Suc hi - j)") auto

declare carry_up.simps [simp del]

primrec reduce_rows :: "nat \<Rightarrow> nat \<Rightarrow> limb list \<Rightarrow> limb \<Rightarrow> limb list \<Rightarrow> limb list option" where
  "reduce_rows 0 i m n0inv t = Some t"
| "reduce_rows (Suc k) i m n0inv t = do {
     ti \<leftarrow> rd t i;
     row \<leftarrow> rd_range t i (length m);
     let (row, carry) = c68k_addmul_1 row m (ti * n0inv);
     t \<leftarrow> wr_range t i row;
     t \<leftarrow> carry_up t (i + length m) (2 * length m) carry;
     reduce_rows k (i + 1) m n0inv t
   }"

definition c68k_mont_reduce :: "limb list \<Rightarrow> limb list \<Rightarrow> limb \<Rightarrow> limb list option" where
  "c68k_mont_reduce t m n0inv = reduce_rows (length m) 0 m n0inv t"

primrec school_rows :: "nat \<Rightarrow> nat \<Rightarrow> limb list \<Rightarrow> limb list \<Rightarrow> limb list \<Rightarrow> limb list option" where
  "school_rows 0 i x y t = Some t"
| "school_rows (Suc k) i x y t = do {
     xi \<leftarrow> rd x i;
     row \<leftarrow> rd_range t i (length y);
     let (row, carry) = c68k_addmul_1 row y xi;
     t \<leftarrow> wr_range t i (row @ [carry]);
     school_rows k (i + 1) x y t
   }"

definition c68k_mul_school :: "limb list \<Rightarrow> limb list \<Rightarrow> limb list \<Rightarrow> limb list option" where
  "c68k_mul_school t x y = do {
     t \<leftarrow> wr_range t 0 (replicate (length x) 0);
     school_rows (length x) 0 x y t
   }"

text \<open>
  The symmetric square: the products above the diagonal, doubled, and the diagonal. With no limbs the count
  down of the doubling would start at the wrapped \<^verbatim>\<open>total - 1\<close>, outside the product.
\<close>

primrec sqr_rows :: "nat \<Rightarrow> nat \<Rightarrow> limb list \<Rightarrow> limb list \<Rightarrow> limb list option" where
  "sqr_rows 0 i x t = Some t"
| "sqr_rows (Suc k) i x t = do {
     xi \<leftarrow> rd x i;
     rest \<leftarrow> rd_range x (i + 1) (length x - i - 1);
     row \<leftarrow> rd_range t (2 * i + 1) (length x - i - 1);
     let (row, carry) = c68k_addmul_1 row rest xi;
     t \<leftarrow> wr_range t (2 * i + 1) (row @ [carry]);
     sqr_rows k (i + 1) x t
   }"

fun double_limbs :: "limb \<Rightarrow> limb list \<Rightarrow> limb list" where
  "double_limbs below [] = []"
| "double_limbs below (t # ts) = (push_bit 1 t OR drop_bit 31 below) # double_limbs t ts"

fun diagonal :: "limb2 \<Rightarrow> limb list \<Rightarrow> limb list \<Rightarrow> limb list" where
  "diagonal product (x # xs) (t0 # t1 # ts) =
     (let p = drop_bit 32 product + ucast t0 + ucast x * ucast x;
          q = drop_bit 32 p + ucast t1
      in ucast p # ucast q # diagonal q xs ts)"
| "diagonal product xs ts = ts"

definition c68k_sqr :: "limb list \<Rightarrow> limb list option" where
  "c68k_sqr x =
     (if x = [] then None
      else do {
        t \<leftarrow> sqr_rows (length x) 0 x (replicate (2 * length x) 0);
        Some (diagonal 0 x (double_limbs 0 t))
      })"

section \<open>Karatsuba\<close>

text \<open>The middle term, \<open>n + 1\<close> limbs, into the product at limb \<open>h\<close>.\<close>

definition recombine :: "limb list \<Rightarrow> nat \<Rightarrow> limb list \<Rightarrow> limb list option" where
  "recombine t h mid = do {
     low \<leftarrow> rd_range t h (length mid);
     let (low, carry) = c68k_add low mid;
     t \<leftarrow> wr_range t h low;
     if carry \<noteq> 0 then do {
       up \<leftarrow> rd_range t (h + length mid) (length t - (h + length mid));
       wr_range t (h + length mid) (fst (c68k_add_carry up carry))
     } else Some t
   }"

function c68k_sqr_n :: "nat \<Rightarrow> limb list \<Rightarrow> limb list \<Rightarrow> (limb list \<times> limb list) option" where
  "c68k_sqr_n kl x s =
     (let n = length x in
      if n < kl \<or> n < 2 \<or> odd n then map_option (\<lambda>t. (t, s)) (c68k_sqr x)
      else let h = n div 2; x0 = take h x; x1 = drop h x in
        if length s < h + n + (n + 1) then None
        else do {
          let d = (if 0 \<le> c68k_cmp x1 x0 then fst (c68k_sub x1 x0) else fst (c68k_sub x0 x1));
          (l, sub) \<leftarrow> c68k_sqr_n kl x0 (drop (h + n + (n + 1)) s);
          (u_hi, sub) \<leftarrow> c68k_sqr_n kl x1 sub;
          (u, sub) \<leftarrow> c68k_sqr_n kl d sub;
          let (mid, top) = c68k_add l u_hi;
          let (mid, borrow) = c68k_sub mid u;
          let mid = mid @ [top - borrow];
          t \<leftarrow> recombine (l @ u_hi) h mid;
          Some (t, d @ u @ mid @ sub)
        })"
  by pat_completeness auto
termination
proof (relation "measure (\<lambda>(kl, x, s). length x)", goal_cases)
  case (2 kl x s n h x0 x1 d)
  then show ?case by (cases "length x") auto
qed auto

declare c68k_sqr_n.simps [simp del]

function c68k_mul_n :: "nat \<Rightarrow> limb list \<Rightarrow> limb list \<Rightarrow> limb list \<Rightarrow> limb list \<Rightarrow> (limb list \<times> limb list) option" where
  "c68k_mul_n kl t x y s =
     (let n = length x in
      if n < kl \<or> n < 2 \<or> odd n then map_option (\<lambda>t. (t, s)) (c68k_mul_school t x y)
      else let h = n div 2; x0 = take h x; x1 = drop h x; y0 = take h y; y1 = drop h y in
        if length s < 2 * h + (n + 1) then None
        else do {
          let (a, cx) = c68k_add x0 x1;
          let (b, cy) = c68k_add y0 y1;
          (z0, sub) \<leftarrow> c68k_mul_n kl (take n t) x0 y0 (drop (2 * h + (n + 1)) s);
          (z2, sub) \<leftarrow> c68k_mul_n kl (drop n t) x1 y1 sub;
          (p, sub) \<leftarrow> c68k_mul_n kl (take n (drop (2 * h) s)) a b sub;
          let pn = (0 :: limb);
          let (p, pn) = (if cx \<noteq> 0 then (case c68k_add (drop h p) b of (q, c) \<Rightarrow> (take h p @ q, pn + c)) else (p, pn));
          let (p, pn) = (if cy \<noteq> 0 then (case c68k_add (drop h p) a of (q, c) \<Rightarrow> (take h p @ q, pn + c)) else (p, pn));
          let pn = (if cx \<noteq> 0 \<and> cy \<noteq> 0 then pn + 1 else pn);
          let (p, borrow) = c68k_sub p z0;
          let pn = pn - borrow;
          let (p, borrow) = c68k_sub p z2;
          let p = p @ [pn - borrow];
          t \<leftarrow> recombine (z0 @ z2) h p;
          Some (t, a @ b @ p @ sub)
        })"
  by pat_completeness auto
termination
proof (relation "measure (\<lambda>(kl, t, x, y, s). length x)", goal_cases)
  case 1
  then show ?case by simp
next
  case 2
  then show ?case by auto
next
  case 3
  then show ?case by auto
next
  case 4
  then show ?case by (auto dest!: arg_cong [of _ _ "length \<circ> fst"])
qed

declare c68k_mul_n.simps [simp del]

section \<open>Multiply and square\<close>

text \<open>The result; \<open>work\<close> is the caller's buffer, of which \<open>2 * m_len + 1\<close> limbs are the product.\<close>

definition c68k_mont_mul ::
  "nat \<Rightarrow> limb list \<Rightarrow> limb list \<Rightarrow> limb list \<Rightarrow> limb list \<Rightarrow> limb \<Rightarrow> limb list \<Rightarrow> (limb list \<times> limb list) option" where
  "c68k_mont_mul kl r x y m n0inv work =
     (if m = [] then Some (r, work)
      else let tot = 2 * length m in
        if length work < tot + 1 then None
        else do {
          (t, s) \<leftarrow> c68k_mul_n kl (take tot work) x y (drop (tot + 1) work);
          t \<leftarrow> c68k_mont_reduce (t @ [0]) m n0inv;
          (r, high) \<leftarrow> c68k_mont_final (drop (length m) t) m;
          Some (r, take (length m) t @ high @ s)
        })"

definition c68k_mont_sqr ::
  "nat \<Rightarrow> limb list \<Rightarrow> limb list \<Rightarrow> limb list \<Rightarrow> limb \<Rightarrow> limb list \<Rightarrow> (limb list \<times> limb list) option" where
  "c68k_mont_sqr kl r x m n0inv work =
     (if m = [] then Some (r, work)
      else let tot = 2 * length m in
        if length work < tot + 1 then None
        else do {
          (t, s) \<leftarrow> c68k_sqr_n kl x (drop (tot + 1) work);
          t \<leftarrow> c68k_mont_reduce (t @ [0]) m n0inv;
          (r, high) \<leftarrow> c68k_mont_final (drop (length m) t) m;
          Some (r, take (length m) t @ high @ s)
        })"

end
