(* ===== verification/Big_Product.thy ===== *)
theory Big_Product
  imports Big_Mont
begin

text \<open>
  The products of \<^verbatim>\<open>c68k_mont.c\<close> are exact: the rows of the schoolbook product, the symmetric square,
  and both Karatsuba splits at any depth, inside the scratch they are given.
\<close>

section \<open>Schoolbook\<close>

lemma lval_take_Suc: "i < length xs \<Longrightarrow> lval (take (Suc i) xs) = lval (take i xs) + B32 ^ i * unat (xs ! i)"
  by (simp add: take_Suc_conv_app_nth lval_append)

lemma school_rows_val:
  assumes "i + k = length x" and "length t = length x + length y" and "lval (take (i + length y) t) = lval (take i x) * lval y"
  shows "\<exists>t'. school_rows k i x y t = Some t' \<and> length t' = length t \<and> lval t' = lval x * lval y"
  using assms
proof (induction k arbitrary: i t)
  case 0
  then show ?case by simp
next
  case (Suc k)
  define n where "n = length y"
  define row where "row = take n (drop i t)"
  have len: "i < length x" "i + n + 1 \<le> length t" "length row = n" using Suc.prems by (simp_all add: n_def row_def)
  obtain r c where rc: "c68k_addmul_1 row y (x ! i) = (r, c)" by (cases "c68k_addmul_1 row y (x ! i)")
  have lr: "length row = length y" using len(3) by (simp add: n_def)
  note V = addmul_val [OF lr rc]
  define t1 where "t1 = take i t @ (r @ [c]) @ drop (i + n + 1) t"
  have wr: "wr_range t i (r @ [c]) = Some t1"
    using V(1) len by (simp add: wr_range_def t1_def)
  have l1: "length t1 = length t" using len V(1) by (simp add: t1_def)
  have tk: "take (i + 1 + n) t1 = take i t @ r @ [c]" using len V(1) by (simp add: t1_def)
  have "lval (take (i + 1 + n) t1) = lval (take i t) + B32 ^ i * (lval r + B32 ^ n * unat c)"
    unfolding tk using len V(1) by (simp add: lval_append)
  also have "\<dots> = lval (take i t) + B32 ^ i * (lval row + unat (x ! i) * lval y)" using V(2) len(3) by simp
  also have "\<dots> = lval (take (i + n) t) + B32 ^ i * unat (x ! i) * lval y"
  proof -
    have "take (i + n) t = take i t @ row" by (simp add: row_def take_add)
    then show ?thesis using len by (simp add: lval_append algebra_simps)
  qed
  also have "\<dots> = lval (take (i + 1) x) * lval y"
    using Suc.prems(3) len(1) by (simp add: n_def lval_take_Suc algebra_simps)
  finally have "lval (take (i + 1 + length y) t1) = lval (take (i + 1) x) * lval y" by (simp add: n_def)
  moreover have "i + 1 + k = length x" "length t1 = length x + length y" using Suc.prems l1 by simp_all
  ultimately obtain t' where "school_rows k (i + 1) x y t1 = Some t'" "length t' = length t1" "lval t' = lval x * lval y"
    using Suc.IH by blast
  then show ?case using len rc wr l1 by (simp add: n_def [symmetric] row_def [symmetric])
qed

lemma mul_school_val:
  assumes "length x = length y" and "length t = 2 * length x"
  obtains t' where "c68k_mul_school t x y = Some t'" and "length t' = length t" and "lval t' = lval x * lval y"
proof -
  define t0 where "t0 = replicate (length x) 0 @ drop (length x) t"
  have wr: "wr_range t 0 (replicate (length x) 0) = Some t0" using assms by (simp add: wr_range_def t0_def)
  have "lval (take (0 + length y) t0) = lval (take 0 x) * lval y" using assms by (simp add: t0_def)
  then have "\<exists>t'. school_rows (length x) 0 x y t0 = Some t' \<and> length t' = length t0 \<and> lval t' = lval x * lval y"
    using assms by (intro school_rows_val) (simp_all add: t0_def)
  then show thesis using that wr assms by (auto simp: c68k_mul_school_def t0_def)
qed

section \<open>The symmetric square\<close>

primrec tri :: "limb list \<Rightarrow> nat" where
  "tri [] = 0"
| "tri (x # xs) = B32 * (unat x * lval xs) + B32\<^sup>2 * tri xs"

primrec squares :: "limb list \<Rightarrow> nat" where
  "squares [] = 0"
| "squares (x # xs) = (unat x)\<^sup>2 + B32\<^sup>2 * squares xs"

lemma square_parts: "(lval x)\<^sup>2 = squares x + 2 * tri x"
  by (induction x) (simp_all add: power2_eq_square algebra_simps)

lemma pow_double: "(B32 ^ i)\<^sup>2 = B32 ^ (2 * i)"
  by (simp add: power_mult [symmetric] mult.commute)

lemma sqr_rows_val:
  assumes "i + k = length x" and "length t = 2 * length x" and "drop (i + length x) t = replicate (length x - i) 0"
    and "lval t + B32 ^ (2 * i) * tri (drop i x) = tri x"
  shows "\<exists>t'. sqr_rows k i x t = Some t' \<and> length t' = length t \<and> lval t' = tri x"
  using assms
proof (induction k arbitrary: i t)
  case 0
  then show ?case by simp
next
  case (Suc k)
  define n where "n = length x"
  define l where "l = n - i - 1"
  define row where "row = take l (drop (2 * i + 1) t)"
  define rest where "rest = drop (i + 1) x"
  have len: "i < n" "2 * i + 1 + l = i + n" "length t = 2 * n" "length row = l" "length rest = l" "i + n < 2 * n"
    using Suc.prems by (simp_all add: n_def row_def rest_def l_def)
  have zero: "t ! (i + n) = 0"
  proof -
    have "drop (i + n) t ! 0 = replicate (n - i) 0 ! 0" using Suc.prems(3) by (simp add: n_def)
    then show ?thesis using len by simp
  qed
  obtain r c where rc: "c68k_addmul_1 row rest (x ! i) = (r, c)" by (cases "c68k_addmul_1 row rest (x ! i)")
  have "length row = length rest" using len by simp
  note V = addmul_val [OF this rc]
  define t1 where "t1 = take (2 * i + 1) t @ (r @ [c]) @ drop (i + n + 1) t"
  have wr: "wr_range t (2 * i + 1) (r @ [c]) = Some t1"
  proof -
    have e: "2 * i + 1 + length (r @ [c]) = i + n + 1" using V(1) len by simp
    show ?thesis unfolding wr_range_def e using len by (simp add: t1_def)
  qed
  have l1: "length t1 = length t" using len V(1) by (simp add: t1_def)
  have t: "t = take (2 * i + 1) t @ (row @ [0]) @ drop (i + n + 1) t"
  proof -
    have "drop (2 * i + 1) t = row @ drop (i + n) t"
    proof -
      have "drop l (drop (2 * i + 1) t) = drop (i + n) t" unfolding drop_drop len(2) [symmetric] by (simp add: add.commute)
      then show ?thesis using append_take_drop_id [of l "drop (2 * i + 1) t"] unfolding row_def by metis
    qed
    moreover have "drop (i + n) t = 0 # drop (i + n + 1) t"
      using Cons_nth_drop_Suc [of "i + n" t] len zero by simp
    ultimately have "drop (2 * i + 1) t = row @ 0 # drop (i + n + 1) t" by simp
    then show ?thesis using append_take_drop_id [of "2 * i + 1" t] by simp
  qed
  have val: "lval t1 = lval t + B32 ^ (2 * i + 1) * (unat (x ! i) * lval rest)"
  proof -
    define hi where "hi = lval (drop (i + n + 1) t)"
    have lt: "length (take (2 * i + 1) t) = 2 * i + 1" using len by simp
    have "lval t1 = lval (take (2 * i + 1) t) + B32 ^ (2 * i + 1) * (lval r + B32 ^ l * unat c + B32 ^ l * B32 * hi)"
      using len V(1) lt by (simp add: t1_def lval_append hi_def algebra_simps)
    also have "lval r + B32 ^ l * unat c = lval row + unat (x ! i) * lval rest" using V(2) len(4) by simp
    also have "lval (take (2 * i + 1) t) + B32 ^ (2 * i + 1) * (lval row + unat (x ! i) * lval rest + B32 ^ l * B32 * hi)
        = lval (take (2 * i + 1) t @ (row @ [0]) @ drop (i + n + 1) t) + B32 ^ (2 * i + 1) * (unat (x ! i) * lval rest)"
      using len lt by (simp add: lval_append hi_def algebra_simps)
    finally show ?thesis using t by simp
  qed
  have "drop (i + 1 + n) t1 = replicate (n - (i + 1)) 0"
  proof -
    have "length (take (2 * i + 1) t @ (r @ [c])) = i + 1 + n" using len V(1) by simp
    then have "drop (i + 1 + n) t1 = drop (i + n + 1) t"
      unfolding t1_def append_assoc [symmetric] by (metis append_eq_conv_conj)
    also have "\<dots> = drop 1 (drop (i + n) t)" by (simp add: add.commute)
    finally show ?thesis using Suc.prems(3) by (simp add: n_def)
  qed
  moreover have "lval t1 + B32 ^ (2 * (i + 1)) * tri (drop (i + 1) x) = tri x"
  proof -
    have "drop i x = x ! i # rest" using len by (simp add: rest_def n_def Cons_nth_drop_Suc)
    moreover have "drop (Suc i) x = rest" by (simp add: rest_def)
    ultimately show ?thesis using Suc.prems(4) val by (simp add: power2_eq_square algebra_simps)
  qed
  moreover have "i + 1 + k = length x" "length t1 = 2 * length x" using Suc.prems l1 by simp_all
  ultimately obtain t' where "sqr_rows k (i + 1) x t1 = Some t'" "length t' = length t1" "lval t' = tri x"
    using Suc.IH [of "i + 1" t1] by (auto simp: n_def)
  moreover have "rd_range x (i + 1) (length x - i - 1) = Some rest" "rd_range t (2 * i + 1) (length x - i - 1) = Some row"
    using len by (simp_all add: rest_def row_def l_def n_def)
  ultimately show ?case using rc wr l1 len by (simp add: n_def [symmetric])
qed

lemma double_val: "\<exists>c. lval (double_limbs b ts) + B32 ^ length ts * c = 2 * lval ts + unat b div 2 ^ 31"
proof (induction ts arbitrary: b)
  case Nil
  then show ?case by simp
next
  case (Cons t ts)
  obtain c where c: "lval (double_limbs t ts) + B32 ^ length ts * c = 2 * lval ts + unat t div 2 ^ 31" using Cons by blast
  define q r where "q = unat t div 2 ^ 31" and "r = unat t mod 2 ^ 31"
  have t: "unat t = q * 2 ^ 31 + r" "r < 2 ^ 31" by (simp_all add: q_def r_def)
  have top: "unat (drop_bit 31 b) = unat b div 2 ^ 31" by (rule unat_drop)
  have "unat b div 2 ^ 31 < 2" using unat_lt_32 [of b] by simp
  have push: "unat (push_bit 1 t) = 2 * r"
  proof -
    have "unat (push_bit 1 t) = unat t * 2 mod 2 ^ 32" by (simp add: push_bit_eq_mult unat_word_ariths mult.commute)
    also have "unat t * 2 = 2 ^ 32 * q + 2 * r" using t(1) by simp
    also have "\<dots> mod 2 ^ 32 = 2 * r mod 2 ^ 32" by (rule mod_mult_self4)
    also have "\<dots> = 2 * r" by (rule mod_less) (use t(2) in simp)
    finally show ?thesis .
  qed
  have limb: "unat (push_bit 1 t OR drop_bit 31 b) = 2 * r + unat b div 2 ^ 31"
  proof -
    have "unat (drop_bit 31 b) < 2 ^ 1" using top \<open>unat b div 2 ^ 31 < 2\<close> by simp
    then have "unat (push_bit 1 t OR drop_bit 31 b) = unat (push_bit 1 t + drop_bit 31 b)" by (simp only: or_is_add)
    also have "\<dots> = 2 * r + unat b div 2 ^ 31"
      using push top t(2) \<open>unat b div 2 ^ 31 < 2\<close> by (subst unat_add_nowrap) simp_all
    finally show ?thesis .
  qed
  have "lval (double_limbs b (t # ts)) + B32 ^ length (t # ts) * c
      = 2 * r + unat b div 2 ^ 31 + B32 * (lval (double_limbs t ts) + B32 ^ length ts * c)"
    using limb by (simp add: algebra_simps)
  also have "\<dots> = 2 * lval (t # ts) + unat b div 2 ^ 31" unfolding c using t by (simp add: q_def [symmetric] algebra_simps)
  finally show ?case by blast
qed

lemma diagonal_val:
  assumes "length ts = 2 * length xs"
  shows "\<exists>c. lval (diagonal p xs ts) + B32 ^ length ts * c = lval ts + squares xs + unat p div B32 \<and>
    length (diagonal p xs ts) = length ts"
  using assms
proof (induction xs arbitrary: p ts)
  case Nil
  then show ?case by simp
next
  case (Cons x xs)
  obtain t0 t1 us where ts: "ts = t0 # t1 # us" "length us = 2 * length xs"
    using Cons.prems by (auto simp: length_Suc_conv)
  define q where "q = drop_bit 32 p + ucast t0 + ucast x * ucast x"
  define w where "w = drop_bit 32 q + ucast t1"
  have pu: "unat (ucast x * ucast x :: limb2) = (unat x)\<^sup>2" by (simp add: unat_prod64 power2_eq_square)
  have sq: "(unat x)\<^sup>2 \<le> (B32 - 1) * (B32 - 1)"
    using product_bound [of "unat x" "unat x"] unat_lt_32 [of x] by (simp add: power2_eq_square)
  have lt: "unat p div B32 \<le> B32 - 1" "unat t0 \<le> B32 - 1" "unat t1 \<le> B32 - 1"
    using unat_lt2p [of p] unat_lt_32 [of t0] unat_lt_32 [of t1] by simp_all
  have q: "unat q = unat p div B32 + unat t0 + (unat x)\<^sup>2"
    using sq lt unfolding q_def by (simp add: unat_word_ariths(1) unat_high_limb unat_limb_up pu)
  have "unat q div B32 \<le> B32 - 1" using unat_lt2p [of q] by simp
  then have w: "unat w = unat q div B32 + unat t1"
    using lt unfolding w_def by (simp add: unat_word_ariths(1) unat_high_limb unat_limb_up)
  obtain c where c: "lval (diagonal w xs us) + B32 ^ length us * c = lval us + squares xs + unat w div B32"
      "length (diagonal w xs us) = length us"
    using Cons.IH [OF ts(2), of w] by blast
  have d: "diagonal p (x # xs) ts = ucast q # ucast w # diagonal w xs us"
    unfolding ts by (simp only: diagonal.simps Let_def q_def [symmetric] w_def [symmetric])
  have "lval (diagonal p (x # xs) ts) + B32 ^ length ts * c
      = unat q mod B32 + B32 * (unat w mod B32 + B32 * (lval (diagonal w xs us) + B32 ^ length us * c))"
    unfolding d using ts by (simp add: unat_low_limb algebra_simps)
  also have "\<dots> = unat q mod B32 + B32 * (unat w mod B32 + B32 * (unat w div B32)) + B32 * B32 * (lval us + squares xs)"
    unfolding c(1) by (simp only: distrib_left mult.assoc add.assoc add.commute add.left_commute)
  also have "unat w mod B32 + B32 * (unat w div B32) = unat q div B32 + unat t1" unfolding limb_step by (rule w)
  also have "unat q mod B32 + B32 * (unat q div B32 + unat t1) + B32 * B32 * (lval us + squares xs)
      = unat q mod B32 + B32 * (unat q div B32) + B32 * unat t1 + B32 * B32 * (lval us + squares xs)"
    by (simp only: distrib_left add.assoc)
  also have "\<dots> = unat q + B32 * unat t1 + B32 * B32 * (lval us + squares xs)" unfolding limb_step ..
  also have "\<dots> = lval ts + squares (x # xs) + unat p div B32"
    unfolding q ts by (simp add: power2_eq_square [of B32] algebra_simps)
  finally have "lval (diagonal p (x # xs) ts) + B32 ^ length ts * c = lval ts + squares (x # xs) + unat p div B32" .
  moreover have "length (diagonal p (x # xs) ts) = length ts" unfolding d using c(2) ts by simp
  ultimately show ?case by blast
qed

lemma length_double [simp]: "length (double_limbs b ts) = length ts"
  by (induction b ts rule: double_limbs.induct) simp_all

lemma no_carry: "v + N * c = (w :: nat) \<Longrightarrow> w < N \<Longrightarrow> v = w"
  by (cases c) auto

lemma square_less: "(lval x)\<^sup>2 < B32 ^ (2 * length x)"
  using lval_less [of x] power_strict_mono [of "lval x" "B32 ^ length x" 2] by (simp add: pow_double)

lemma sqr_val:
  assumes "x \<noteq> []"
  obtains t where "c68k_sqr x = Some t" and "length t = 2 * length x" and "lval t = (lval x)\<^sup>2"
proof -
  define n where "n = length x"
  have "\<exists>t'. sqr_rows (length x) 0 x (replicate (2 * length x) 0) = Some t' \<and> length t' = length (replicate (2 * length x) (0 :: limb))
      \<and> lval t' = tri x"
    by (rule sqr_rows_val) (simp_all add: mult_2)
  then obtain t1 where t1: "sqr_rows (length x) 0 x (replicate (2 * length x) 0) = Some t1" "length t1 = 2 * n" "lval t1 = tri x"
    by (auto simp: n_def)
  define t2 where "t2 = double_limbs 0 t1"
  obtain c where c: "lval t2 + B32 ^ (2 * n) * c = 2 * tri x" using double_val [of 0 t1] t1 by (auto simp: t2_def)
  have "2 * tri x < B32 ^ (2 * n)" using square_parts [of x] square_less [of x] by (simp add: n_def)
  with c have t2: "lval t2 = 2 * tri x" by (rule no_carry)
  have l2: "length t2 = 2 * length x" by (simp add: t2_def t1 n_def)
  obtain e where e: "lval (diagonal 0 x t2) + B32 ^ (2 * n) * e = 2 * tri x + squares x" "length (diagonal 0 x t2) = 2 * n"
    using diagonal_val [OF l2, of 0] t2 l2 by (auto simp: n_def)
  have "2 * tri x + squares x < B32 ^ (2 * n)" using square_parts [of x] square_less [of x] by (simp add: n_def)
  with e(1) have "lval (diagonal 0 x t2) = 2 * tri x + squares x" by (rule no_carry)
  then show thesis using that [of "diagonal 0 x t2"] t1(1) e(2) square_parts [of x] assms by (simp add: c68k_sqr_def t2_def n_def)
qed

end
