(* ===== verification/Big_Karatsuba.thy ===== *)
theory Big_Karatsuba
  imports Big_Product
begin

text \<open>
  Karatsuba's splits of \<^verbatim>\<open>c68k_mont.c\<close> are exact at any depth, inside six limbs of scratch for each limb
  of the operands: the middle term is never negative, its top limb holds what the additions carried, and
  adding it to the product never leaves the product's limbs.
\<close>

section \<open>Arithmetic of the split\<close>

lemma net_carry:
  fixes v N c b M :: nat
  assumes "v < N" and "v + N * c = M + N * b"
  shows "b \<le> c" and "v + N * (c - b) = M"
proof -
  show le: "b \<le> c"
  proof (rule ccontr)
    assume "\<not> b \<le> c"
    then have "N * c + N \<le> N * b" by (metis Suc_leI mult_Suc_right mult_le_mono2 not_le add.commute)
    then show False using assms by linarith
  qed
  have "N * b + N * (c - b) = N * c" using le by (simp add: distrib_left [symmetric])
  then show "v + N * (c - b) = M" using assms(2) by linarith
qed

lemma same_residue:
  fixes W r N a b :: nat
  assumes "W < N" and "r < N" and "W + N * a = r + N * b"
  shows "W = r"
  using arg_cong [OF assms(3), of "\<lambda>v. v mod N"] assms(1,2) by simp

lemma square_split: "(x0 + H * x1)\<^sup>2 = x0\<^sup>2 + H\<^sup>2 * x1\<^sup>2 + H * (2 * x0 * (x1 :: nat))"
  by (simp add: power2_eq_square algebra_simps)

lemma product_split: "(x0 + H * x1) * (y0 + H * y1) = x0 * y0 + H\<^sup>2 * (x1 * y1) + H * (x0 * y1 + x1 * (y0 :: nat))"
  by (simp add: power2_eq_square algebra_simps)

lemma unat_diff: "b \<le> unat c \<Longrightarrow> unat d = b \<Longrightarrow> unat (c - d :: limb) = unat c - b"
  by (simp add: unat_sub word_le_nat_alt)

section \<open>The middle term goes in\<close>

lemma recombine_val:
  assumes fits: "h + length mid \<le> length t" and lt: "lval t + B32 ^ h * lval mid < B32 ^ length t"
  obtains t' where "recombine t h mid = Some t'" and "length t' = length t" and "lval t' = lval t + B32 ^ h * lval mid"
proof -
  define m where "m = length mid"
  define A L U where "A = take h t" and "L = take m (drop h t)" and "U = drop (h + m) t"
  have len: "length A = h" "length L = m" "length U = length t - (h + m)" and t: "t = A @ L @ U"
    using fits by (simp_all add: A_def L_def U_def m_def take_add [symmetric] append_assoc [symmetric] del: append_assoc)
  define u where "u = length U"
  have tot: "length t = h + m + u" using len fits by (simp add: u_def m_def)
  obtain L' c where add: "c68k_add L mid = (L', c)" by (cases "c68k_add L mid")
  have "length L = length mid" using len by (simp add: m_def)
  note V = add_val [OF this add]
  obtain U' d where up: "c68k_add_carry U c = (U', d)" by (cases "c68k_add_carry U c")
  note W = add_carry_val [OF up]
  have rdL: "rd_range t h m = Some L" using fits by (simp add: L_def m_def)
  have wrL: "wr_range t h L' = Some (A @ L' @ U)" using fits V(1) len by (simp add: wr_range_def A_def U_def m_def)
  have rdU: "rd_range (A @ L' @ U) (h + m) (length (A @ L' @ U) - (h + m)) = Some U"
    using V(1) len by (simp add: rd_range_def)
  have wrU: "wr_range (A @ L' @ U) (h + m) U' = Some (A @ L' @ U')"
    using V(1) W(1) len by (simp add: wr_range_def)
  define t' where "t' = (if c \<noteq> 0 then A @ L' @ U' else A @ L' @ U)"
  have run: "recombine t h mid = Some t'"
    unfolding recombine_def m_def [symmetric] rdL bind.bind_lunit add Let_def prod.case wrL
    using rdU wrU up by (simp add: t'_def)
  have len': "length t' = length t" using V(1) W(1) len(1,2) tot by (simp add: t'_def u_def)
  have "\<exists>d. lval t' + B32 ^ length t * d = lval t + B32 ^ h * lval mid"
  proof (cases "c = 0")
    case True
    then have "lval t' + B32 ^ length t * 0 = lval t + B32 ^ h * lval mid"
      using V len(1,2) arg_cong [OF t, of lval] by (simp add: t'_def lval_append algebra_simps)
    then show ?thesis by blast
  next
    case False
    have "lval t' + B32 ^ length t * unat d = lval A + B32 ^ h * (lval L' + B32 ^ m * (lval U' + B32 ^ u * unat d))"
      using False V(1) W(1) len(1,2) by (simp add: t'_def lval_append tot power_add algebra_simps)
    also have "lval U' + B32 ^ u * unat d = lval U + unat c" using W(2) by (simp add: u_def)
    also have "lval A + B32 ^ h * (lval L' + B32 ^ m * (lval U + unat c))
        = lval A + B32 ^ h * (lval L' + B32 ^ m * unat c + B32 ^ m * lval U)" by (simp add: algebra_simps)
    also have "lval L' + B32 ^ m * unat c = lval L + lval mid" using V(3) len by simp
    also have "lval A + B32 ^ h * (lval L + lval mid + B32 ^ m * lval U) = lval (A @ L @ U) + B32 ^ h * lval mid"
      using len(1,2) by (simp add: lval_append algebra_simps)
    finally show ?thesis using t by metis
  qed
  then have "lval t' = lval t + B32 ^ h * lval mid" using lt no_carry by blast
  then show thesis using that run len' by blast
qed

section \<open>Squaring\<close>

lemma lval_less_n: "length xs = n \<Longrightarrow> lval xs < B32 ^ n"
  using lval_less [of xs] by simp

lemma abs_diff_val:
  assumes "length x0 = length x1"
  defines "d \<equiv> (if 0 \<le> c68k_cmp x1 x0 then fst (c68k_sub x1 x0) else fst (c68k_sub x0 x1))"
  shows "length d = length x0" and "(lval d)\<^sup>2 + 2 * lval x0 * lval x1 = (lval x0)\<^sup>2 + (lval x1)\<^sup>2"
proof -
  have diff: "lval (fst (c68k_sub a b)) + lval b = lval a" if ab: "length a = length b" "lval b \<le> lval a" for a b
  proof -
    obtain r c where rc: "c68k_sub a b = (r, c)" by (cases "c68k_sub a b")
    note V = sub_val [OF ab(1) rc]
    have "unat c = 0"
    proof (rule ccontr)
      assume "unat c \<noteq> 0"
      then have "B32 ^ length a \<le> B32 ^ length a * unat c" by simp
      then show False using V(3) ab(2) lval_less_n [OF V(1)] by linarith
    qed
    then show ?thesis using V(3) rc by simp
  qed
  have sq: "e\<^sup>2 + 2 * a * b = a\<^sup>2 + b\<^sup>2" if "e + b = a" for a b e :: nat
    using that by (auto simp: power2_eq_square algebra_simps)
  show "length d = length x0" using assms(1) by (simp add: d_def)
  show "(lval d)\<^sup>2 + 2 * lval x0 * lval x1 = (lval x0)\<^sup>2 + (lval x1)\<^sup>2"
  proof (cases "lval x0 \<le> lval x1")
    case True
    then have "lval d + lval x0 = lval x1" using diff [of x1 x0] cmp_val [of x1 x0] assms(1) by (simp add: d_def)
    from sq [OF this] show ?thesis by (simp add: algebra_simps)
  next
    case False
    then have "lval d + lval x1 = lval x0" using diff [of x0 x1] cmp_val [of x1 x0] assms(1) by (simp add: d_def)
    from sq [OF this] show ?thesis by (simp add: algebra_simps)
  qed
qed

lemma sqr_n_val:
  assumes "6 * length x \<le> length s" and "x \<noteq> []"
  shows "\<exists>t s'. c68k_sqr_n kl x s = Some (t, s') \<and> length t = 2 * length x \<and> length s' = length s \<and> lval t = (lval x)\<^sup>2"
  using assms
proof (induction "length x" arbitrary: x s rule: less_induct)
  case less
  define n where "n = length x"
  show ?case
  proof (cases "n < kl \<or> n < 2 \<or> odd n")
    case True
    obtain t where t: "c68k_sqr x = Some t" "length t = 2 * length x" "lval t = (lval x)\<^sup>2" using sqr_val [OF less.prems(2)] .
    have "c68k_sqr_n kl x s = Some (t, s)"
      using True t(1) by (subst c68k_sqr_n.simps) (simp add: Let_def n_def)
    then show ?thesis using t by simp
  next
    case False
    define h where "h = n div 2"
    define x0 x1 where "x0 = take h x" and "x1 = drop h x"
    define d where "d = (if 0 \<le> c68k_cmp x1 x0 then fst (c68k_sub x1 x0) else fst (c68k_sub x0 x1))"
    define s0 where "s0 = drop (h + n + (n + 1)) s"
    have n: "n = 2 * h" "1 \<le> h" "h < n" using False by (auto simp: h_def)
    have len: "length x0 = h" "length x1 = h" using n by (simp_all add: x0_def x1_def n_def)
    have ne: "x0 \<noteq> []" "x1 \<noteq> []" using len n(2) by auto
    have big: "\<not> length s < h + n + (n + 1)" and ls: "length s = h + n + (n + 1) + length s0" "6 * h \<le> length s0"
      using less.prems(1) n by (simp_all add: n_def s0_def)
    have xv: "lval x = lval x0 + B32 ^ h * lval x1" using lval_split [of h x] n by (simp add: x0_def x1_def n_def)
    note D = abs_diff_val [of x0 x1, folded d_def]
    have "length x0 = length x1" using len by simp
    note D = D [OF this]
    have dne: "d \<noteq> []" using D(1) len n(2) by auto
    obtain l s1 where l: "c68k_sqr_n kl x0 s0 = Some (l, s1)" "length l = n" "length s1 = length s0" "lval l = (lval x0)\<^sup>2"
      using less.hyps [of x0 s0] ne len n ls(2) by (auto simp: n_def)
    obtain uh s2 where uh: "c68k_sqr_n kl x1 s1 = Some (uh, s2)" "length uh = n" "length s2 = length s0" "lval uh = (lval x1)\<^sup>2"
      using less.hyps [of x1 s1] ne len n ls(2) l(3) by (auto simp: n_def)
    obtain u s3 where u: "c68k_sqr_n kl d s2 = Some (u, s3)" "length u = n" "length s3 = length s0" "lval u = (lval d)\<^sup>2"
      using less.hyps [of d s2] dne len n ls(2) uh(3) D(1) by (auto simp: n_def)
    obtain mid1 c where mid1: "c68k_add l uh = (mid1, c)" by (cases "c68k_add l uh")
    have "length l = length uh" using l uh by simp
    note A = add_val [OF this mid1]
    obtain mid2 b where mid2: "c68k_sub mid1 u = (mid2, b)" by (cases "c68k_sub mid1 u")
    have "length mid1 = length u" using A(1) l u by simp
    note S = sub_val [OF this mid2]
    have l2: "length mid2 = n" using S(1) A(1) l(2) by simp
    have "lval mid2 + B32 ^ n * unat c = 2 * lval x0 * lval x1 + B32 ^ n * unat b"
      using A S(3) D(2) l u uh A(1) by simp
    note N = net_carry [OF lval_less_n [OF l2] this]
    define mid where "mid = mid2 @ [c - b]"
    have mid: "lval mid = 2 * lval x0 * lval x1" "length mid = n + 1"
      using N l2 unat_diff [OF N(1) refl] by (simp_all add: mid_def lval_append)
    have tv: "lval (l @ uh) + B32 ^ h * lval mid = (lval x)\<^sup>2"
      unfolding xv square_split mid(1) using l uh n(1) by (simp add: lval_append pow_double)
    obtain t where t: "recombine (l @ uh) h mid = Some t" "length t = 2 * n" "lval t = (lval x)\<^sup>2"
    proof (rule recombine_val [of h mid "l @ uh"])
      show "h + length mid \<le> length (l @ uh)" using mid(2) l uh n by simp
      show "lval (l @ uh) + B32 ^ h * lval mid < B32 ^ length (l @ uh)"
        unfolding tv using square_less [of x] l uh by (simp add: n_def mult_2)
    qed (use that tv l uh in auto)
    have "c68k_sqr_n kl x s = Some (t, d @ u @ mid @ s3)"
      using False big l(1) uh(1) u(1) t(1) mid1 mid2
      by (subst c68k_sqr_n.simps)
         (simp only: Let_def n_def [symmetric] h_def [symmetric] x0_def [symmetric] x1_def [symmetric] d_def [symmetric]
            s0_def [symmetric] mid_def [symmetric] if_False bind.bind_lunit prod.case)
    moreover have "length (d @ u @ mid @ s3) = length s" using D(1) len(1) u mid(2) ls(1) by simp
    ultimately show ?thesis using t by (simp add: n_def)
  qed
qed

section \<open>Multiplying\<close>

text \<open>A carried operand goes into the upper half of the product of the sums.\<close>

lemma upper_half_val:
  assumes "length p = 2 * h" and "length b = h" and "h = length (take h p)"
    and "(p', pn') = (if cx \<noteq> 0 then (case c68k_add (drop h p) b of (q, c) \<Rightarrow> (take h p @ q, pn + c)) else (p, pn))"
    and "unat cx \<le> 1" and "unat pn \<le> 1"
  shows "length p' = 2 * h" and "lval p' + (B32 ^ h)\<^sup>2 * unat pn' = lval p + (B32 ^ h)\<^sup>2 * unat pn + B32 ^ h * unat cx * lval b"
    and "unat pn' \<le> unat pn + 1"
proof -
  obtain q c where qc: "c68k_add (drop h p) b = (q, c)" by (cases "c68k_add (drop h p) b")
  have "length (drop h p) = length b" using assms(1,2) by simp
  note V = add_val [OF this qc]
  have lq: "length q = h" using V(1) assms(1) by simp
  have "length p' = 2 * h \<and> lval p' + (B32 ^ h)\<^sup>2 * unat pn' = lval p + (B32 ^ h)\<^sup>2 * unat pn + B32 ^ h * unat cx * lval b
    \<and> unat pn' \<le> unat pn + 1"
  proof (cases "cx = 0")
    case True
    then show ?thesis using assms by simp
  next
    case False
    then have cx: "unat cx = 1" using assms(5) by (metis le_Suc_eq One_nat_def le_0_eq unat_eq_zero)
    have pn: "unat pn' = unat pn + unat c"
      using assms(4,6) False qc V(2) by (simp add: unat_word_ariths)
    have p': "p' = take h p @ q" using assms(4) False qc by simp
    have "lval p = lval (take h p) + B32 ^ h * lval (drop h p)" using lval_split [of h p] assms(1) by simp
    moreover have "lval p' = lval (take h p) + B32 ^ h * lval q" using assms(1) by (simp add: p' lval_append)
    moreover have "lval q + B32 ^ h * unat c = lval (drop h p) + lval b" using V(3) assms(1) by simp
    then have "B32 ^ h * (lval q + B32 ^ h * unat c) = B32 ^ h * (lval (drop h p) + lval b)" by (rule arg_cong)
    ultimately have "lval p' + (B32 ^ h)\<^sup>2 * unat pn' = lval p + (B32 ^ h)\<^sup>2 * unat pn + B32 ^ h * unat cx * lval b"
      unfolding cx pn by (simp add: power2_eq_square algebra_simps)
    then show ?thesis using p' lq assms(1) pn V(2) by simp
  qed
  then show "length p' = 2 * h" "lval p' + (B32 ^ h)\<^sup>2 * unat pn' = lval p + (B32 ^ h)\<^sup>2 * unat pn + B32 ^ h * unat cx * lval b"
    "unat pn' \<le> unat pn + 1" by blast+
qed

lemma carry_product: "unat cx \<le> 1 \<Longrightarrow> unat cy \<le> 1 \<Longrightarrow> unat pn \<le> 2 \<Longrightarrow>
  unat (if cx \<noteq> 0 \<and> cy \<noteq> 0 then pn + 1 else pn :: limb) = unat pn + unat (cx :: limb) * unat (cy :: limb)"
proof -
  assume a: "unat cx \<le> 1" "unat cy \<le> 1" "unat pn \<le> 2"
  have "unat cx = (if cx \<noteq> 0 then 1 else 0)" "unat cy = (if cy \<noteq> 0 then 1 else 0)"
    using a(1,2) by (auto simp: le_Suc_eq unat_eq_zero)
  then show ?thesis using a(3) by (simp add: unat_word_ariths)
qed

lemma sums_product: "x0 + x1 = a + H * cx \<Longrightarrow> y0 + y1 = b + H * cy \<Longrightarrow>
  a * b + H * cx * b + H * cy * a + H\<^sup>2 * (cx * cy) = x0 * y0 + x1 * y1 + (x0 * y1 + x1 * (y0 :: nat))"
proof -
  assume e: "x0 + x1 = a + H * cx" "y0 + y1 = b + H * cy"
  have "a * b + H * cx * b + H * cy * a + H\<^sup>2 * (cx * cy) = (a + H * cx) * (b + H * cy)"
    by (simp add: power2_eq_square algebra_simps)
  also have "\<dots> = (x0 + x1) * (y0 + y1)" unfolding e ..
  finally show ?thesis by (simp add: algebra_simps)
qed

lemma two_borrows:
  fixes p p1 p2 z0 z2 :: "limb list"
  assumes len: "length p = n" "length z0 = n" "length z2 = n"
    and sub: "c68k_sub p z0 = (p1, b1)" "c68k_sub p1 z2 = (p2, b2)"
    and val: "lval p + B32 ^ n * unat pn = lval z0 + lval z2 + M"
  shows "length (p2 @ [pn - b1 - b2]) = n + 1" and "lval (p2 @ [pn - b1 - b2]) = M"
proof -
  have "length p = length z0" using len by simp
  note S = sub_val [OF this sub(1)]
  have "length p1 = length z2" using S(1) len by simp
  note T = sub_val [OF this sub(2)]
  have l2: "length p2 = n" using T(1) S(1) len by simp
  have "lval p2 + B32 ^ n * unat pn = M + B32 ^ n * (unat b1 + unat b2)"
    using S(3) T(3) S(1) val len by (simp add: distrib_left)
  note N = net_carry [OF lval_less_n [OF l2] this]
  have "unat (pn - b1) = unat pn - unat b1" using N(1) by (intro unat_diff) simp_all
  then have "unat (pn - b1 - b2) = unat pn - (unat b1 + unat b2)" using N(1) unat_diff [of "unat b2" "pn - b1" b2] by simp
  then show "length (p2 @ [pn - b1 - b2]) = n + 1" "lval (p2 @ [pn - b1 - b2]) = M"
    using N(2) l2 by (simp_all add: lval_append)
qed

lemma mul_n_val:
  assumes "length x = length y" and "length t = 2 * length x" and "6 * length x \<le> length s"
  shows "\<exists>t' s'. c68k_mul_n kl t x y s = Some (t', s') \<and> length t' = length t \<and> length s' = length s \<and> lval t' = lval x * lval y"
  using assms
proof (induction "length x" arbitrary: t x y s rule: less_induct)
  case less
  define n where "n = length x"
  show ?case
  proof (cases "n < kl \<or> n < 2 \<or> odd n")
    case True
    obtain t' where t': "c68k_mul_school t x y = Some t'" "length t' = length t" "lval t' = lval x * lval y"
      using mul_school_val [OF less.prems(1,2)] by blast
    have "c68k_mul_n kl t x y s = Some (t', s)"
      using True t'(1) by (subst c68k_mul_n.simps) (simp add: Let_def n_def)
    then show ?thesis using t' by simp
  next
    case False
    define h where "h = n div 2"
    define H where "H = B32 ^ h"
    define x0 x1 y0 y1 where "x0 = take h x" and "x1 = drop h x" and "y0 = take h y" and "y1 = drop h y"
    define s0 where "s0 = drop (2 * h + (n + 1)) s"
    have n: "n = 2 * h" "1 \<le> h" "h < n" using False by (auto simp: h_def)
    have lx: "length x = 2 * h" "length y = 2 * h" "length t = 2 * n" using n(1) less.prems(1,2) by (simp_all flip: n_def)
    have len: "length x0 = h" "length x1 = h" "length y0 = h" "length y1 = h"
      using lx by (simp_all add: x0_def x1_def y0_def y1_def)
    have big: "\<not> length s < 2 * h + (n + 1)" and ls: "length s = 2 * h + (n + 1) + length s0" "6 * h \<le> length s0"
      using less.prems(3) lx(1) n(1,2) by (simp_all add: s0_def)
    have xv: "lval x = lval x0 + H * lval x1" "lval y = lval y0 + H * lval y1"
      using lval_split [of h x] lval_split [of h y] lx by (simp_all add: x0_def x1_def y0_def y1_def H_def)
    have HH: "B32 ^ n = H\<^sup>2" by (simp add: n(1) H_def pow_double)
    obtain a cx where a: "c68k_add x0 x1 = (a, cx)" by (cases "c68k_add x0 x1")
    obtain b cy where b: "c68k_add y0 y1 = (b, cy)" by (cases "c68k_add y0 y1")
    have e: "length x0 = length x1" "length y0 = length y1" using len by simp_all
    note A = add_val [OF e(1) a] and Bv = add_val [OF e(2) b]
    have lab: "length a = h" "length b = h" using A(1) Bv(1) len by simp_all
    obtain z0 s1 where z0: "c68k_mul_n kl (take n t) x0 y0 s0 = Some (z0, s1)" "length z0 = n" "length s1 = length s0" "lval z0 = lval x0 * lval y0"
      using less.hyps [of x0 y0 "take n t" s0] len lx n ls(2) by auto
    obtain z2 s2 where z2: "c68k_mul_n kl (drop n t) x1 y1 s1 = Some (z2, s2)" "length z2 = n" "length s2 = length s0" "lval z2 = lval x1 * lval y1"
      using less.hyps [of x1 y1 "drop n t" s1] len lx n ls(2) z0(3) by auto
    have "length (take n (drop (2 * h) s)) = n" using big by simp
    then obtain p s3 where p: "c68k_mul_n kl (take n (drop (2 * h) s)) a b s2 = Some (p, s3)" "length p = 2 * h" "length s3 = length s0" "lval p = lval a * lval b"
      using less.hyps [of a b "take n (drop (2 * h) s)" s2] lab lx n ls(2) z2(3) by auto
    obtain p1 pn1 where p1: "(p1, pn1) = (if cx \<noteq> 0 then (case c68k_add (drop h p) b of (q, c) \<Rightarrow> (take h p @ q, 0 + c)) else (p, 0))"
      by (metis surj_pair)
    have "h = length (take h p)" using p(2) by simp
    note P1 = upper_half_val [OF p(2) lab(2) this p1 A(2), simplified]
    obtain p2 pn2 where p2: "(p2, pn2) = (if cy \<noteq> 0 then (case c68k_add (drop h p1) a of (q, c) \<Rightarrow> (take h p1 @ q, pn1 + c)) else (p1, pn1))"
      by (metis surj_pair)
    have "h = length (take h p1)" "unat pn1 \<le> 1" using P1(1,3) by simp_all
    note P2 = upper_half_val [OF P1(1) lab(1) this(1) p2 Bv(2) this(2)]
    define pn3 where "pn3 = (if cx \<noteq> 0 \<and> cy \<noteq> 0 then pn2 + 1 else pn2)"
    have pn3: "unat pn3 = unat pn2 + unat cx * unat cy"
      unfolding pn3_def using P1(3) P2(3) by (intro carry_product A(2) Bv(2)) simp
    have full: "lval p2 + B32 ^ n * unat pn3 = lval z0 + lval z2 + (lval x0 * lval y1 + lval x1 * lval y0)"
    proof -
      have "lval x0 + lval x1 = lval a + H * unat cx" "lval y0 + lval y1 = lval b + H * unat cy"
        using A(3) Bv(3) len by (simp_all add: H_def)
      note sums_product [OF this]
      moreover have "lval p2 + H\<^sup>2 * unat pn3 = lval a * lval b + H * unat cx * lval b + H * unat cy * lval a + H\<^sup>2 * (unat cx * unat cy)"
        using P1(2) P2(2) p(4) unfolding pn3 H_def [symmetric] by (simp add: distrib_left)
      ultimately show ?thesis using z0(4) z2(4) by (simp add: HH)
    qed
    obtain p3 b1 where p3: "c68k_sub p2 z0 = (p3, b1)" by (cases "c68k_sub p2 z0")
    obtain p4 b2 where p4: "c68k_sub p3 z2 = (p4, b2)" by (cases "c68k_sub p3 z2")
    define mid where "mid = p4 @ [pn3 - b1 - b2]"
    have "length p2 = n" using P2(1) n by simp
    note mid = two_borrows [OF this z0(2) z2(2) p3 p4 full, folded mid_def]
    have tv: "lval (z0 @ z2) + B32 ^ h * lval mid = lval x * lval y"
      unfolding xv product_split mid(2) using z0 z2 by (simp add: lval_append HH H_def [symmetric])
    have xyl: "lval x * lval y < B32 ^ (2 * n)"
      using mult_strict_mono [OF lval_less [of x] lval_less [of y]] lx n(1) by (simp add: power_add mult_2)
    obtain t' where t': "recombine (z0 @ z2) h mid = Some t'" "length t' = 2 * n" "lval t' = lval x * lval y"
    proof (rule recombine_val [of h mid "z0 @ z2"])
      show "h + length mid \<le> length (z0 @ z2)" using mid(1) z0 z2 n by simp
      show "lval (z0 @ z2) + B32 ^ h * lval mid < B32 ^ length (z0 @ z2)"
        unfolding tv using xyl z0 z2 by (simp add: mult_2)
    qed (use that tv z0 z2 in auto)
    have "c68k_mul_n kl t x y s = Some (t', a @ b @ mid @ s3)"
      using False big z0(1) z2(1) p(1) t'(1) a b p3 p4
      by (subst c68k_mul_n.simps)
         (simp only: Let_def n_def [symmetric] h_def [symmetric] x0_def [symmetric] x1_def [symmetric] y0_def [symmetric]
            y1_def [symmetric] s0_def [symmetric] p1 [symmetric] p2 [symmetric] pn3_def [symmetric] mid_def [symmetric]
            if_False bind.bind_lunit prod.case)
    moreover have "length (a @ b @ mid @ s3) = length s" using lab mid(1) p(3) ls(1) by simp
    ultimately show ?thesis using t' lx(3) by simp
  qed
qed

end
