(* ===== verification/Big_Reduce.thy ===== *)
theory Big_Reduce
  imports Big_Karatsuba
begin

text \<open>
  The reduction of \<^verbatim>\<open>c68k_mont.c\<close>: the negated inverse of the lowest limb, the rows that clear the lower half
  of the product, the last subtraction, and with them Montgomery multiplication and squaring.
\<close>

section \<open>The inverse of the lowest limb\<close>

lemma newton_step: "m0 * v = 1 + 2 ^ k * f \<Longrightarrow> m0 * (v * (2 - m0 * v)) = 1 + 2 ^ (2 * k) * (- (f * f) :: limb)"
proof -
  assume e: "m0 * v = 1 + 2 ^ k * f"
  have "m0 * (v * (2 - m0 * v)) = (m0 * v) * (2 - m0 * v)" by (simp only: mult.assoc)
  also have "\<dots> = (1 + 2 ^ k * f) * (1 - 2 ^ k * f)" unfolding e by simp
  also have "\<dots> = 1 - (2 ^ k * 2 ^ k) * (f * f)" by (simp only: algebra_simps) simp
  finally show ?thesis by (simp add: mult_2 power_add)
qed

lemma newton_val: "m0 * v = 1 + 2 ^ k * f \<Longrightarrow> \<exists>g. m0 * newton i m0 v = 1 + 2 ^ (2 ^ i * k) * (g :: limb)"
proof (induction i arbitrary: v k f)
  case 0
  then show ?case by auto
next
  case (Suc i)
  from Suc.IH [OF newton_step [OF Suc.prems]] show ?case by (simp add: mult.assoc mult.left_commute)
qed

lemma n0inv_val:
  assumes "odd m0"
  shows "m0 * c68k_mont_n0inv m0 = - 1"
proof -
  obtain j where j: "m0 = 2 * j + 1" using assms by (rule oddE)
  obtain f where f: "j * (j + 1) = 2 * f" using dvdE [of 2 "j * (j + 1)"] by auto
  have "m0 * m0 = 1 + 4 * (j * (j + 1))" unfolding j by (simp add: algebra_simps)
  then have "m0 * m0 = 1 + 2 ^ 3 * f" unfolding f by simp
  from newton_val [OF this, of 5] obtain g where "m0 * newton 5 m0 m0 = 1 + 2 ^ (2 ^ 5 * 3) * g" by blast
  moreover have "(2 :: limb) ^ (2 ^ 5 * 3) = 0" by simp
  ultimately have "m0 * newton 5 m0 m0 = 1" by (simp only: mult_zero_left add_0_right)
  then show ?thesis by (simp add: c68k_mont_n0inv_def right_diff_distrib)
qed

text \<open>The seed is right in three bits and a step doubles them, so that the last of the five changes nothing.\<close>

lemma n0inv_four:
  assumes "odd m0"
  shows "newton 5 m0 m0 = newton 4 m0 m0"
proof -
  obtain j where j: "m0 = 2 * j + 1" using assms by (rule oddE)
  obtain f where f: "j * (j + 1) = 2 * f" using dvdE [of 2 "j * (j + 1)"] by auto
  have "m0 * m0 = 1 + 4 * (j * (j + 1))" unfolding j by (simp add: algebra_simps)
  then have "m0 * m0 = 1 + 2 ^ 3 * f" unfolding f by simp
  from newton_val [OF this, of 4] obtain g where "m0 * newton 4 m0 m0 = 1 + 2 ^ (2 ^ 4 * 3) * g" by blast
  moreover have "(2 :: limb) ^ (2 ^ 4 * 3) = 0" by simp
  ultimately have "m0 * newton 4 m0 m0 = 1" by (simp only: mult_zero_left add_0_right)
  moreover have "newton (Suc i) m0 v = newton i m0 v * (2 - m0 * newton i m0 v)" for i v by (induction i arbitrary: v) simp_all
  ultimately show ?thesis by (simp add: eval_nat_numeral)
qed

section \<open>The carry of a row\<close>

lemma add_limb: "unat x + unat c = unat (x + c) + B32 * unat (if x + c < c then 1 else 0 :: limb)"
  for x c :: limb
proof -
  have lt: "unat x < B32" "unat c < B32" using unat_lt_32 [of x] unat_lt_32 [of c] by simp_all
  have s: "unat (x + c) = (unat x + unat c) mod B32" by (simp add: unat_word_ariths)
  show ?thesis
  proof (cases "unat x + unat c < B32")
    case True
    then show ?thesis using s by (simp add: word_less_nat_alt)
  next
    case False
    then have "(unat x + unat c) mod B32 = unat x + unat c - B32" using lt by (subst mod_if) simp
    then show ?thesis using s lt False by (simp add: word_less_nat_alt)
  qed
qed

lemma carry_up_val:
  assumes "length t = hi + 1" and "j \<le> hi + 1"
  shows "\<exists>t' d. carry_up t j hi c = Some t' \<and> length t' = length t \<and> take j t' = take j t \<and>
    lval t' + B32 ^ length t * d = lval t + B32 ^ j * unat c"
  using assms
proof (induction t j hi c rule: carry_up.induct)
  case (1 t j hi c)
  show ?case
  proof (cases "c \<noteq> 0 \<and> j \<le> hi")
    case False
    then have run: "carry_up t j hi c = Some t" by (subst carry_up.simps) auto
    show ?thesis
    proof (cases "c = 0")
      case True
      then show ?thesis using run by (intro exI [of _ t] exI [of _ 0]) simp
    next
      case False2: False
      then have "j = length t" using False 1(2,3) by simp
      then show ?thesis using run by (intro exI [of _ t] exI [of _ "unat c"]) simp
    qed
  next
    case True
    define s where "s = t ! j + c"
    define c' :: limb where "c' = (if s < c then 1 else 0)"
    have jt: "j < length t" using True 1(2) by simp
    have add: "unat (t ! j) + unat c = unat s + B32 * unat c'" using add_limb [of "t ! j" c] by (simp add: s_def c'_def)
    have lt: "length (t[j := s]) = hi + 1" "j + 1 \<le> hi + 1" using 1(2) True by simp_all
    have "\<exists>t' d. carry_up (t[j := s]) (j + 1) hi c' = Some t' \<and> length t' = length (t[j := s]) \<and>
        take (j + 1) t' = take (j + 1) (t[j := s]) \<and> lval t' + B32 ^ length (t[j := s]) * d = lval (t[j := s]) + B32 ^ (j + 1) * unat c'"
      using 1(1) [OF True, of "t ! j" s c'] jt lt by (simp add: s_def c'_def rd_in_range)
    then obtain t' d where IH: "carry_up (t[j := s]) (j + 1) hi c' = Some t'" "length t' = length t"
        "take (j + 1) t' = take (j + 1) (t[j := s])" "lval t' + B32 ^ length t * d = lval (t[j := s]) + B32 ^ (j + 1) * unat c'"
      by auto
    have run: "carry_up t j hi c = Some t'"
      using True jt IH(1) by (subst carry_up.simps) (simp add: Let_def s_def c'_def)
    have tk: "take j t' = take j t"
      using arg_cong [OF IH(3), of "take j"] by (simp add: min_def)
    have "t = take j t @ t ! j # drop (Suc j) t" "t[j := s] = take j t @ s # drop (Suc j) t"
      using jt by (simp_all add: id_take_nth_drop upd_conv_take_nth_drop)
    then have "lval t = lval (take j t) + B32 ^ j * (unat (t ! j) + B32 * lval (drop (Suc j) t))"
        "lval (t[j := s]) = lval (take j t) + B32 ^ j * (unat s + B32 * lval (drop (Suc j) t))"
      using lval_append [of "take j t"] jt by (metis lval.simps(2) length_take min.absorb4)+
    then have "lval (t[j := s]) + B32 ^ (j + 1) * unat c' = lval t + B32 ^ j * unat c"
      using arg_cong [OF add, of "\<lambda>v. B32 ^ j * v"] by (simp add: algebra_simps)
    then show ?thesis using run IH tk by auto
  qed
qed

section \<open>The rows\<close>

lemma of_nat_lval: "xs \<noteq> [] \<Longrightarrow> (of_nat (lval xs) :: limb) = hd xs"
proof (cases xs)
  case (Cons y ys)
  have "(of_nat (lval (y # ys)) :: limb) = of_nat (unat y) + of_nat B32 * of_nat (lval ys)"
    by (simp only: lval.simps of_nat_add of_nat_mult)
  also have "(of_nat B32 :: limb) = 0" by simp
  finally show ?thesis using Cons by simp
qed simp

text \<open>The multiplier of a row is chosen so that its lowest limb comes out zero.\<close>

lemma row_cleared:
  assumes "row \<noteq> []" and "length row = length m" and "hd m * n0inv = - 1" and "c68k_addmul_1 row m (hd row * n0inv) = (r, c)"
  shows "hd r = 0"
proof -
  note V = addmul_val [OF assms(2,4)]
  have ne: "m \<noteq> []" "r \<noteq> []" using assms(1,2) V(1) by auto
  have "(of_nat B32 :: limb) = 0" by simp
  then have pow: "(of_nat (B32 ^ length row) :: limb) = 0"
    using assms(1) by (cases row) (simp_all only: list.size power_Suc of_nat_mult mult_zero_left add_Suc_right simp_thms)
  have "(of_nat (lval r + B32 ^ length row * unat c) :: limb) = of_nat (lval row + unat (hd row * n0inv) * lval m)"
    using V(2) by simp
  moreover have un: "(of_nat (unat v) :: limb) = v" for v by simp
  ultimately have "hd r = hd row + hd row * n0inv * hd m"
    by (simp only: of_nat_add of_nat_mult pow of_nat_lval [OF assms(1)] of_nat_lval [OF ne(1)] of_nat_lval [OF ne(2)]
        un mult_zero_left add_0_right)
  also have "\<dots> = hd row + hd row * (hd m * n0inv)" by (simp add: ac_simps)
  finally show ?thesis unfolding assms(3) by simp
qed

lemma reduce_rows_val:
  assumes "i + k = length m" and "m \<noteq> []" and "length t = 2 * length m + 1" and "hd m * n0inv = - 1"
    and "take i t = replicate i 0" and "lval t + B32 ^ (i + k) * lval m < B32 ^ length t + B32 ^ i * lval m"
  shows "\<exists>t' K. reduce_rows k i m n0inv t = Some t' \<and> length t' = length t \<and> take (i + k) t' = replicate (i + k) 0 \<and>
    K < B32 ^ k \<and> lval t' = lval t + B32 ^ i * K * lval m"
  using assms
proof (induction k arbitrary: i t)
  case 0
  then show ?case by (intro exI [of _ t] exI [of _ 0]) simp
next
  case (Suc k)
  define n where "n = length m"
  define row where "row = take n (drop i t)"
  define u where "u = t ! i * n0inv"
  have len: "i < n" "length t = 2 * n + 1" "length row = n" "0 < n"
    using Suc.prems by (auto simp: n_def row_def)
  have row: "row \<noteq> []" "length row = length m" "hd row = t ! i"
    using len by (auto simp: n_def row_def hd_conv_nth)
  obtain r c where rc: "c68k_addmul_1 row m u = (r, c)" by (cases "c68k_addmul_1 row m u")
  note V = addmul_val [OF row(2) rc]
  have z: "hd r = 0" using row_cleared [OF row(1,2) Suc.prems(4)] rc row(3) by (simp add: u_def)
  have lr: "length r = n" "r \<noteq> []" using V(1) len row by auto
  define t1 where "t1 = take i t @ r @ drop (i + n) t"
  have wr: "wr_range t i r = Some t1" using lr len by (simp add: wr_range_def t1_def)
  have l1: "length t1 = 2 * n + 1" using lr len by (simp add: t1_def)
  have tk1: "take (i + 1) t1 = replicate (i + 1) 0"
  proof -
    obtain r' where "r = 0 # r'" using z lr(2) by (cases r) auto
    then show ?thesis using Suc.prems(5) len by (simp add: t1_def replicate_append_same)
  qed
  obtain t2 d where up: "carry_up t1 (i + n) (2 * n) c = Some t2" "length t2 = length t1" "take (i + n) t2 = take (i + n) t1"
      "lval t2 + B32 ^ length t1 * d = lval t1 + B32 ^ (i + n) * unat c"
    using carry_up_val [of t1 "2 * n" "i + n" c] l1 len by auto
  have val: "lval t1 + B32 ^ (i + n) * unat c = lval t + B32 ^ i * unat u * lval m"
  proof -
    have "t = take i t @ row @ drop (i + n) t"
      by (metis append_take_drop_id drop_drop row_def add.commute)
    then have "lval t = lval (take i t) + B32 ^ i * (lval row + B32 ^ n * lval (drop (i + n) t))"
      using len lval_append [of "take i t" "row @ drop (i + n) t"] lval_append [of row "drop (i + n) t"] by simp
    moreover have "lval t1 = lval (take i t) + B32 ^ i * (lval r + B32 ^ n * lval (drop (i + n) t))"
      using len lr by (simp add: t1_def lval_append)
    moreover have "B32 ^ i * (lval r + B32 ^ n * unat c) = B32 ^ i * (lval row + unat u * lval m)"
      using V(2) row len by simp
    ultimately show ?thesis by (simp add: power_add algebra_simps)
  qed
  have ule: "B32 ^ i * (unat u + 1) * lval m \<le> B32 ^ (i + 1) * lval m"
    using unat_lt_32 [of u] by (intro mult_le_mono1) simp
  have ksuc: "B32 ^ (i + 1) * lval m \<le> B32 ^ (i + Suc k) * lval m"
    by (intro mult_le_mono1 power_increasing) simp_all
  have bound: "lval t + B32 ^ i * unat u * lval m < B32 ^ length t"
    using Suc.prems(6) ule ksuc by (simp only: distrib_left distrib_right mult_1_right)
  have v2: "lval t2 = lval t + B32 ^ i * unat u * lval m"
    using up(4) bound len l1 unfolding val by (metis no_carry)
  have "B32 ^ i * unat u * lval m + B32 ^ i * lval m \<le> B32 ^ (i + 1) * lval m"
    using ule by (simp only: distrib_left distrib_right mult_1_right)
  moreover have "i + 1 + k = i + Suc k" "length t2 = length t" using up(2) l1 len by simp_all
  ultimately have "lval t2 + B32 ^ (i + 1 + k) * lval m < B32 ^ length t2 + B32 ^ (i + 1) * lval m"
    using Suc.prems(6) v2 by (simp only:)
  moreover have "take (i + 1) t2 = replicate (i + 1) 0"
    using arg_cong [OF up(3), of "take (i + 1)"] tk1 len by (simp add: min_def)
  moreover have "i + 1 + k = length m" "length t2 = 2 * length m + 1" using Suc.prems up(2) l1 by (simp_all add: n_def)
  ultimately obtain t' K where IH: "reduce_rows k (i + 1) m n0inv t2 = Some t'" "length t' = length t2"
      "take (i + 1 + k) t' = replicate (i + 1 + k) 0" "K < B32 ^ k" "lval t' = lval t2 + B32 ^ (i + 1) * K * lval m"
    using Suc.IH [of "i + 1" t2] Suc.prems(2,4) by blast
  have "reduce_rows (Suc k) i m n0inv t = Some t'"
    using len rc wr up(1) IH(1) by (simp add: n_def [symmetric] row_def [symmetric] u_def)
  moreover have "lval t' = lval t + B32 ^ i * (unat u + B32 * K) * lval m" using IH(5) v2 by (simp add: algebra_simps)
  moreover have "unat u + B32 * K < B32 ^ Suc k"
  proof -
    have "B32 * (K + 1) \<le> B32 * B32 ^ k" using IH(4) by (intro mult_le_mono2) simp
    then show ?thesis using unat_lt_32 [of u] by simp
  qed
  moreover have "length t' = length t" "take (i + Suc k) t' = replicate (i + Suc k) 0" using IH(2,3) up(2) l1 len by simp_all
  ultimately show ?case by blast
qed

section \<open>The last subtraction\<close>

lemma mont_final_val:
  assumes "length high = length m + 1" and "lval high < 2 * lval m"
  obtains r high' where "c68k_mont_final high m = Some (r, high')" and "length r = length m" and "length high' = length high"
    and "lval r < lval m" and "lval r = lval high \<or> lval r + lval m = lval high"
proof -
  define n where "n = length m"
  define N where "N = B32 ^ n"
  define low where "low = take n high"
  define top where "top = high ! n"
  define r where "r = (if top \<noteq> 0 \<or> 0 \<le> c68k_cmp low m then fst (c68k_sub low m) else low)"
  have len: "length low = length m" "length low = n" using assms(1) by (simp_all add: low_def n_def)
  have high: "lval high = lval low + N * unat top"
    using lval_take_Suc [of n high] assms(1) by (simp add: n_def N_def low_def top_def)
  have lr: "length r = length m" using len by (simp add: r_def)
  have mN: "lval m < N" by (simp add: N_def n_def lval_less)
  have lowN: "lval low < N" using lval_less_n [OF len(2)] by (simp add: N_def)
  have "c68k_mont_final high m = Some (r, r @ drop n high)"
  proof -
    have "rd high n = Some top" "rd_range high 0 n = Some low" "wr_range high 0 r = Some (r @ drop n high)"
      using assms(1) lr by (simp_all add: top_def low_def n_def wr_range_def)
    then show ?thesis
      by (simp only: c68k_mont_final_def n_def [symmetric] Let_def bind.bind_lunit r_def [symmetric])
  qed
  moreover have "lval r < lval m \<and> (lval r = lval high \<or> lval r + lval m = lval high)"
  proof (cases "top \<noteq> 0 \<or> 0 \<le> c68k_cmp low m")
    case True
    obtain r' c where rc: "c68k_sub low m = (r', c)" by (cases "c68k_sub low m")
    note V = sub_val [OF len(1) rc]
    have r: "r = r'" using True rc by (simp add: r_def)
    have ge: "lval m \<le> lval high"
    proof (cases "top = 0")
      case True2: True
      then show ?thesis using True cmp_val [OF len(1)] high by simp
    next
      case False
      then have "1 \<le> unat top" by (simp add: Suc_le_eq unat_gt_0)
      then have "N \<le> N * unat top" by simp
      then show ?thesis using high mN by linarith
    qed
    define W where "W = lval high - lval m"
    have W: "lval high = W + lval m" "W < lval m" using ge assms(2) by (simp_all add: W_def)
    have "W + N * unat c = lval r + N * unat top"
      using V(3) high W(1) len by (simp add: r N_def)
    moreover have "lval r < N" using lval_less [of r] lr by (simp add: N_def n_def)
    ultimately have "W = lval r" using W(2) mN by (intro same_residue [of W N]) linarith+
    then show ?thesis using W by simp
  next
    case False
    then show ?thesis using high cmp_val [OF len(1)] by (simp add: r_def)
  qed
  ultimately show thesis using that lr assms(1) by (simp add: n_def)
qed

section \<open>Montgomery multiplication\<close>

lemma hd_odd: "odd (lval m) \<Longrightarrow> odd (hd m)"
proof (cases m)
  case (Cons x xs)
  assume "odd (lval m)"
  then have "odd (unat x)" using Cons by simp
  then have "bit (unat x) 0" by (simp add: bit_0)
  then have "bit x 0" by (simp add: bit_unsigned_iff)
  then show ?thesis using Cons by (simp add: bit_0)
qed simp

text \<open>From a product to its Montgomery residue, what both entry points do after the product.\<close>

lemma reduced_val:
  assumes odd: "odd (lval m)" and t: "length t = 2 * length m" and T: "lval t < B32 ^ length m * lval m"
  obtains t' r high where "c68k_mont_reduce (t @ [0]) m (c68k_mont_n0inv (hd m)) = Some t'"
    and "c68k_mont_final (drop (length m) t') m = Some (r, high)" and "length t' = 2 * length m + 1" and "length r = length m"
    and "length high = length m + 1" and "lval r < lval m" and "lval r * B32 ^ length m mod lval m = lval t mod lval m"
proof -
  define n where "n = length m"
  define N where "N = B32 ^ n"
  define mv where "mv = lval m"
  have ne: "m \<noteq> []" using odd by auto
  have mN: "mv < N" by (simp add: mv_def N_def n_def lval_less)
  have "N * N + N * N \<le> B32 * (N * N)" by simp
  moreover have "B32 ^ (2 * n + 1) = B32 * (N * N)" by (simp add: N_def mult_2 power_add)
  moreover have "N * mv < N * N" using mN by simp
  ultimately have bound: "lval (t @ [0]) + B32 ^ (0 + length m) * lval m < B32 ^ length (t @ [0]) + B32 ^ 0 * lval m"
  proof -
    assume a: "N * N + N * N \<le> B32 * (N * N)" "B32 ^ (2 * n + 1) = B32 * (N * N)" "N * mv < N * N"
    have "lval t < N * mv" using T by (simp add: N_def n_def mv_def)
    then have "lval t + N * mv < B32 ^ (2 * n + 1) + mv" using a by linarith
    then show ?thesis using t by (simp only: lval_append N_def n_def mv_def length_append list.size) simp
  qed
  obtain t' K where R: "reduce_rows n 0 m (c68k_mont_n0inv (hd m)) (t @ [0]) = Some t'" "length t' = 2 * n + 1"
      "take n t' = replicate n 0" "K < N" "lval t' = lval t + K * mv"
    using reduce_rows_val [of 0 "length m" m "t @ [0]" "c68k_mont_n0inv (hd m)"] ne t bound n0inv_val [OF hd_odd [OF odd]]
    by (auto simp: n_def N_def mv_def lval_append)
  define V where "V = lval (drop n t')"
  have V: "N * V = lval t + K * mv" using lval_split [of n t'] R by (simp add: V_def N_def)
  have "K * mv < N * mv" using R(4) odd by (intro mult_strict_right_mono) (auto simp: mv_def odd_pos)
  moreover have "lval t < N * mv" using T by (simp add: N_def n_def mv_def)
  moreover have "N * (2 * mv) = N * mv + N * mv" by simp
  ultimately have "N * V < N * (2 * mv)" using V by linarith
  then have "lval (drop n t') < 2 * lval m" by (simp add: V_def mv_def)
  then obtain r high where F: "c68k_mont_final (drop n t') m = Some (r, high)" "length r = n" "length high = n + 1"
      "lval r < mv" "lval r = V \<or> lval r + mv = V"
    using mont_final_val [of "drop n t'" m] R(2) by (auto simp: n_def mv_def V_def)
  have "lval r mod mv = V mod mv" using F(5) by auto
  then have "lval r * N mod mv = V * N mod mv" by (rule mod_mult_cong) simp
  also have "\<dots> = lval t mod mv" using V by (simp add: mult.commute)
  finally have "lval r * N mod mv = lval t mod mv" .
  moreover have "c68k_mont_reduce (t @ [0]) m (c68k_mont_n0inv (hd m)) = Some t'" using R(1) by (simp add: c68k_mont_reduce_def n_def)
  ultimately show thesis using that F R(2) by (simp add: n_def mv_def N_def)
qed

lemma mont_mul_val:
  assumes odd: "odd (lval m)" and len: "length x = length m" "length y = length m" and xy: "lval x * lval y < B32 ^ length m * lval m"
    and work: "8 * length m + 1 \<le> length work"
  obtains r' work' where "c68k_mont_mul kl r x y m (c68k_mont_n0inv (hd m)) work = Some (r', work')" and "length r' = length m"
    and "length work' = length work" and "lval r' < lval m" and "lval r' * B32 ^ length m mod lval m = lval x * lval y mod lval m"
proof -
  define n where "n = length m"
  have ne: "m \<noteq> []" using odd by auto
  have "length x = length y" "length (take (2 * n) work) = 2 * length x" "6 * length x \<le> length (drop (2 * n + 1) work)"
    using len work by (simp_all add: n_def)
  from mul_n_val [OF this, of kl] obtain t s where
    M: "c68k_mul_n kl (take (2 * n) work) x y (drop (2 * n + 1) work) = Some (t, s)" "length t = 2 * length m"
      "length s = length work - (2 * n + 1)" "lval t = lval x * lval y"
    using len work by (auto simp: n_def)
  have "lval t < B32 ^ length m * lval m" unfolding M(4) by (rule xy)
  from reduced_val [OF odd M(2) this] obtain t' r' high where
    R: "c68k_mont_reduce (t @ [0]) m (c68k_mont_n0inv (hd m)) = Some t'" "c68k_mont_final (drop n t') m = Some (r', high)"
      "length t' = 2 * n + 1" "length r' = length m" "length high = n + 1" "lval r' < lval m"
      "lval r' * B32 ^ length m mod lval m = lval t mod lval m"
    by (auto simp: n_def)
  have "\<not> length work < 2 * n + 1" using work by (simp add: n_def)
  then have run: "c68k_mont_mul kl r x y m (c68k_mont_n0inv (hd m)) work = Some (r', take n t' @ high @ s)"
    using ne by (simp only: c68k_mont_mul_def if_False Let_def n_def [symmetric] M(1) R(1,2) bind.bind_lunit prod.case)
  have "length (take n t' @ high @ s) = length work" using R(3,5) M(3) work by (simp add: n_def)
  then show thesis using that [OF run R(4)] R(6,7) M(4) by simp
qed

lemma mont_sqr_val:
  assumes odd: "odd (lval m)" and len: "length x = length m" and x: "lval x < lval m"
    and work: "8 * length m + 1 \<le> length work"
  obtains r' work' where "c68k_mont_sqr kl r x m (c68k_mont_n0inv (hd m)) work = Some (r', work')" and "length r' = length m"
    and "length work' = length work" and "lval r' < lval m" and "lval r' * B32 ^ length m mod lval m = (lval x)\<^sup>2 mod lval m"
proof -
  define n where "n = length m"
  have ne: "m \<noteq> []" using odd by auto
  have "6 * length x \<le> length (drop (2 * n + 1) work)" using len work by (simp add: n_def)
  moreover have "x \<noteq> []" using len ne by auto
  ultimately obtain t s where
    M: "c68k_sqr_n kl x (drop (2 * n + 1) work) = Some (t, s)" "length t = 2 * length m"
      "length s = length work - (2 * n + 1)" "lval t = (lval x)\<^sup>2"
    using sqr_n_val [of x "drop (2 * n + 1) work" kl] len work by (auto simp: n_def)
  have "lval x * lval x < B32 ^ length m * lval m"
    using lval_less_n [OF len] x by (intro mult_strict_mono) simp_all
  then have "lval t < B32 ^ length m * lval m" unfolding M(4) power2_eq_square .
  from reduced_val [OF odd M(2) this] obtain t' r' high where
    R: "c68k_mont_reduce (t @ [0]) m (c68k_mont_n0inv (hd m)) = Some t'" "c68k_mont_final (drop n t') m = Some (r', high)"
      "length t' = 2 * n + 1" "length r' = length m" "length high = n + 1" "lval r' < lval m"
      "lval r' * B32 ^ length m mod lval m = lval t mod lval m"
    by (auto simp: n_def)
  have "\<not> length work < 2 * n + 1" using work by (simp add: n_def)
  then have run: "c68k_mont_sqr kl r x m (c68k_mont_n0inv (hd m)) work = Some (r', take n t' @ high @ s)"
    using ne by (simp only: c68k_mont_sqr_def if_False Let_def n_def [symmetric] M(1) R(1,2) bind.bind_lunit prod.case)
  have "length (take n t' @ high @ s) = length work" using R(3,5) M(3) work by (simp add: n_def)
  then show thesis using that [OF run R(4)] R(6,7) M(4) by simp
qed

end
