(* ===== verification/Big_Div.thy ===== *)
theory Big_Div
  imports Big_Karatsuba
begin

text \<open>
  Long division, \<^verbatim>\<open>src/crypto68k/c68k_div.c\<close>: the remainder by Knuth's algorithm D over 32-bit limbs.

  \<open>u\<close> and \<open>m\<close> are the limbs the pointers hold when the routine is entered. The caller may give the
  numerator's own buffer as the start of the scratch: \<open>d_shl\<close> reads a limb before it writes it, so the
  shifted numerator is the same.
\<close>

section \<open>The routines\<close>

text \<open>A shift by the width of a limb or more is undefined.\<close>

fun shl_loop :: "nat \<Rightarrow> limb \<Rightarrow> limb list \<Rightarrow> limb list \<times> limb" where
  "shl_loop s carry (v # vs) =
     (let (ds, c) = shl_loop s (drop_bit (32 - s) v) vs in ((push_bit s v OR carry) # ds, c))"
| "shl_loop s carry [] = ([], carry)"

definition d_shl :: "limb list \<Rightarrow> nat \<Rightarrow> (limb list \<times> limb) option" where
  "d_shl src s = (if 32 \<le> s then None else if s = 0 then Some (src, 0) else Some (shl_loop s 0 src))"

fun shr_loop :: "nat \<Rightarrow> limb list \<Rightarrow> limb list" where
  "shr_loop s (v # v' # vs) = (drop_bit s v OR push_bit (32 - s) v') # shr_loop s (v' # vs)"
| "shr_loop s [v] = [drop_bit s v]"
| "shr_loop s [] = []"

definition d_shr :: "limb list \<Rightarrow> nat \<Rightarrow> limb list option" where
  "d_shr src s = (if 32 \<le> s then None else if s = 0 then Some src else Some (shr_loop s src))"

lemma top_bit_clear: "v AND 0x80000000 = (0 :: limb) \<longleftrightarrow> unat v < 2 ^ 31"
proof -
  have "v AND 0x80000000 = 0 \<longleftrightarrow> \<not> bit v 31"
    using and_exp_eq_0_iff_not_bit [of v 31] by simp
  also have "bit v 31 \<longleftrightarrow> bit (unat v) 31" by (simp add: bit_unsigned_iff)
  also have "\<dots> \<longleftrightarrow> odd (unat v div 2 ^ 31)" by (rule bit_iff_odd)
  also have "odd (unat v div 2 ^ 31) \<longleftrightarrow> \<not> unat v < 2 ^ 31"
  proof -
    have "unat v div 2 ^ 31 < 2" using unat_lt_32 [of v] by simp
    then have "unat v div 2 ^ 31 = 0 \<or> unat v div 2 ^ 31 = 1" by linarith
    then show ?thesis by (auto simp: div_eq_0_iff)
  qed
  finally show ?thesis by simp
qed

lemma unat_shift1: "unat v < 2 ^ 31 \<Longrightarrow> unat (push_bit 1 v :: limb) = 2 * unat v"
  by (subst unat_push) simp_all

text \<open>The caller has excluded zero, for which the loop would not end.\<close>

function clz_loop :: "limb \<Rightarrow> nat \<Rightarrow> nat" where
  "clz_loop v n = (if v = 0 \<or> v AND 0x80000000 \<noteq> 0 then n else clz_loop (push_bit 1 v) (n + 1))"
  by pat_completeness auto

termination
proof (relation "measure (\<lambda>(v, n). 2 ^ 32 - unat v)", goal_cases)
  case (2 v n)
  then have "unat v < 2 ^ 31" "0 < unat v" using top_bit_clear [of v] by (auto simp: unat_gt_0)
  moreover from this(1) have "unat (push_bit 1 v) = 2 * unat v" by (rule unat_shift1)
  ultimately show ?case by (simp only: in_measure prod.case) simp
qed simp

declare clz_loop.simps [simp del]

definition d_clz :: "limb \<Rightarrow> nat" where
  "d_clz v = (if v = 0 then 32 else clz_loop v 0)"

text \<open>The corrections of the estimate; a zero estimate passes the test.\<close>

function correct :: "limb \<Rightarrow> limb \<Rightarrow> limb \<Rightarrow> limb \<Rightarrow> limb \<Rightarrow> limb" where
  "correct v1 v2 u2 qhat rhat =
     (if (ucast qhat * ucast v2 :: limb2) \<le> push_bit 32 (ucast rhat) OR ucast u2 then qhat
      else let qhat = qhat - 1; num = ucast rhat + ucast v1 :: limb2
           in if drop_bit 32 num \<noteq> 0 then qhat else correct v1 v2 u2 qhat (ucast num))"
  by pat_completeness auto
termination
proof (relation "measure (\<lambda>(v1, v2, u2, qhat, rhat). unat qhat)", goal_cases)
  case (2 v1 v2 u2 qhat rhat q num)
  then have "qhat \<noteq> 0" by auto
  then show ?case using 2 by (simp add: unat_gt_0 unat_minus_one)
qed simp

declare correct.simps [simp del]

definition estimate :: "limb \<Rightarrow> limb \<Rightarrow> limb \<Rightarrow> limb \<Rightarrow> limb \<Rightarrow> limb option" where
  "estimate v1 v2 u0 u1 u2 =
     (if v1 \<le> u0 then
        let qhat = 0xFFFFFFFF; num = ucast u1 + ucast v1 :: limb2
        in if drop_bit 32 num \<noteq> 0 then Some qhat else Some (correct v1 v2 u2 qhat (ucast num))
      else do {
        (qhat, rhat) \<leftarrow> c68k_div_2by1 u0 u1 v1;
        Some (correct v1 v2 u2 qhat rhat)
      })"

text \<open>One pass of the loop, at \<open>j\<close>.\<close>

definition mod_step :: "nat \<Rightarrow> limb list \<Rightarrow> limb list \<Rightarrow> limb list option" where
  "mod_step j vn un = do {
     let n = length vn;
     u0 \<leftarrow> rd un (j + n);
     u1 \<leftarrow> rd un (j + n - 1);
     u2 \<leftarrow> rd un (j + n - 2);
     v1 \<leftarrow> rd vn (n - 1);
     v2 \<leftarrow> rd vn (n - 2);
     qhat \<leftarrow> estimate v1 v2 u0 u1 u2;
     row \<leftarrow> rd_range un j n;
     let (row, borrow) = c68k_submul_1 row vn qhat;
     un \<leftarrow> wr_range un j row;
     if u0 < borrow then do {
       let (row, carry) = c68k_add row vn;
       wr_range un j (row @ [u0 - borrow + carry])
     } else wr_range un (j + n) [u0 - borrow]
   }"

primrec mod_rows :: "nat \<Rightarrow> limb list \<Rightarrow> limb list \<Rightarrow> limb list option" where
  "mod_rows 0 vn un = Some un"
| "mod_rows (Suc j) vn un = do { un \<leftarrow> mod_step j vn un; mod_rows j vn un }"

text \<open>The single-limb divisor, from the top limb down.\<close>

fun mod_limb :: "limb \<Rightarrow> limb \<Rightarrow> limb list \<Rightarrow> limb option" where
  "mod_limb d rhat (u # us) = do { (q, r) \<leftarrow> c68k_div_2by1 rhat u d; mod_limb d r us }"
| "mod_limb d rhat [] = Some rhat"

definition c68k_mod :: "limb list \<Rightarrow> limb list \<Rightarrow> limb list \<Rightarrow> (limb list \<times> limb list) option" where
  "c68k_mod u m scratch =
     (let n = length m in
      if n = 0 \<or> length u < n then Some (take n u @ replicate (n - length u) 0, scratch)
      else if n = 1 then do { r \<leftarrow> mod_limb (hd m) 0 (rev u); Some ([r], scratch) }
      else do {
        let s = d_clz (last m);
        (vn, c) \<leftarrow> d_shl m s;
        scratch \<leftarrow> wr_range scratch (length u + 1) vn;
        (un, c) \<leftarrow> d_shl u s;
        scratch \<leftarrow> wr_range scratch 0 (un @ [c]);
        un \<leftarrow> mod_rows (length u - n + 1) vn (un @ [c]);
        scratch \<leftarrow> wr_range scratch 0 un;
        low \<leftarrow> rd_range un 0 n;
        r \<leftarrow> d_shr low s;
        Some (r, scratch)
      })"

section \<open>The shifts\<close>

lemma shl_limb:
  fixes v c :: limb
  assumes "s < 32" and "unat c < 2 ^ s"
  shows "unat (push_bit s v OR c) + B32 * unat (drop_bit (32 - s) v) = unat v * 2 ^ s + unat c"
proof -
  have pw: "(2 :: nat) ^ (32 - s) * 2 ^ s = B32" using assms(1) by (simp flip: power_add)
  define q r where "q = unat v div 2 ^ (32 - s)" and "r = unat v mod 2 ^ (32 - s)"
  have v: "unat v = q * 2 ^ (32 - s) + r" unfolding q_def r_def by (rule div_mult_mod_eq [symmetric])
  have r: "r < 2 ^ (32 - s)" by (simp add: r_def)
  have up: "(r + 1) * 2 ^ s \<le> 2 ^ (32 - s) * 2 ^ s" using r by (intro mult_le_mono1) simp
  have rlt: "r * 2 ^ s + 2 ^ s \<le> B32" using up unfolding pw by simp
  have "unat (push_bit s v) = unat v * 2 ^ s mod B32"
    by (simp add: unsigned_push_bit_eq) (simp add: push_bit_eq_mult take_bit_eq_mod)
  also have "unat v * 2 ^ s = B32 * q + r * 2 ^ s" unfolding v pw [symmetric] by (simp add: algebra_simps)
  also have "\<dots> mod B32 = r * 2 ^ s mod B32" by (rule mod_mult_self4)
  also have "\<dots> = r * 2 ^ s" by (rule mod_less) (use rlt assms(2) in linarith)
  finally have push: "unat (push_bit s v) = r * 2 ^ s" .
  have "unat (push_bit s v OR c) = unat (push_bit s v + c)" using assms(2) by (simp only: or_is_add)
  also have "\<dots> = r * 2 ^ s + unat c" using push rlt assms(2) by (subst unat_add_nowrap) simp_all
  finally have limb: "unat (push_bit s v OR c) = r * 2 ^ s + unat c" .
  have "unat (drop_bit (32 - s) v) = q" by (simp add: q_def unat_drop)
  then show ?thesis using limb \<open>unat v * 2 ^ s = B32 * q + r * 2 ^ s\<close> by simp
qed

lemma shl_loop_val:
  assumes "s < 32" and "unat c < 2 ^ s"
  shows "length (fst (shl_loop s c vs)) = length vs \<and> unat (snd (shl_loop s c vs)) < 2 ^ s \<and>
    lval (fst (shl_loop s c vs)) + B32 ^ length vs * unat (snd (shl_loop s c vs)) = lval vs * 2 ^ s + unat c"
  using assms(2)
proof (induction vs arbitrary: c)
  case (Cons v vs)
  define c' where "c' = drop_bit (32 - s) v"
  have "unat v < 2 ^ (32 - s) * 2 ^ s" using unat_lt_32 [of v] assms(1) by (simp flip: power_add)
  then have c': "unat c' < 2 ^ s" by (simp add: c'_def unat_drop less_mult_imp_div_less mult.commute)
  obtain ds d where rec: "shl_loop s c' vs = (ds, d)" by (cases "shl_loop s c' vs")
  have IH: "length ds = length vs" "unat d < 2 ^ s" "lval ds + B32 ^ length vs * unat d = lval vs * 2 ^ s + unat c'"
    using Cons.IH [OF c'] rec by simp_all
  have "unat (push_bit s v OR c) + B32 * (lval ds + B32 ^ length vs * unat d) = unat v * 2 ^ s + unat c + B32 * (lval vs * 2 ^ s)"
    unfolding IH(3) using shl_limb [OF assms(1) Cons.prems, of v] by (simp add: c'_def algebra_simps)
  moreover have "shl_loop s c (v # vs) = ((push_bit s v OR c) # ds, d)"
    using rec by (simp only: shl_loop.simps c'_def [symmetric] Let_def prod.case)
  ultimately show ?case using IH(1,2) by (simp add: algebra_simps)
qed (use assms in simp)

lemma d_shl_val:
  assumes "s < 32"
  obtains ds c where "d_shl vs s = Some (ds, c)" and "length ds = length vs" and "unat c < 2 ^ s"
    and "lval ds + B32 ^ length vs * unat c = lval vs * 2 ^ s"
proof (cases "s = 0")
  case True
  then show thesis using that [of vs 0] by (simp add: d_shl_def)
next
  case False
  then show thesis using that [of "fst (shl_loop s 0 vs)" "snd (shl_loop s 0 vs)"] assms shl_loop_val [OF assms, of 0 vs]
    by (simp add: d_shl_def)
qed

lemma shr_limb:
  fixes v w :: limb
  assumes "s < 32"
  shows "unat (drop_bit s v OR push_bit (32 - s) w) = unat v div 2 ^ s + 2 ^ (32 - s) * (unat w mod 2 ^ s)"
proof (cases "s = 0")
  case True
  have "push_bit 32 w = 0" by (rule bit_word_eqI) (simp add: bit_simps)
  then show ?thesis using True by simp
next
  case False
  have pw: "(2 :: nat) ^ (32 - s) * 2 ^ s = B32" using assms(1) by (simp flip: power_add)
  have d: "unat (drop_bit s v) = unat v div 2 ^ s" by (rule unat_drop)
  have "unat v < 2 ^ s * 2 ^ (32 - s)" using unat_lt_32 [of v] pw by (simp add: mult.commute)
  then have dlt: "unat (drop_bit s v) < 2 ^ (32 - s)" unfolding d by (simp add: less_mult_imp_div_less mult.commute)
  have "unat (push_bit (32 - s) w OR drop_bit s v) + B32 * unat (drop_bit (32 - (32 - s)) w)
      = unat w * 2 ^ (32 - s) + unat (drop_bit s v)"
    using shl_limb [of "32 - s" "drop_bit s v" w] dlt False assms by simp
  moreover have "32 - (32 - s) = s" using assms by simp
  moreover have "unat w * 2 ^ (32 - s) = 2 ^ (32 - s) * (unat w mod 2 ^ s) + B32 * (unat w div 2 ^ s)"
  proof -
    have "unat w * 2 ^ (32 - s) = 2 ^ (32 - s) * (unat w mod 2 ^ s + 2 ^ s * (unat w div 2 ^ s))"
      by (simp only: mod_mult_div_eq mult.commute)
    then show ?thesis unfolding distrib_left mult.assoc [symmetric] pw .
  qed
  ultimately have "unat (push_bit (32 - s) w OR drop_bit s v) = 2 ^ (32 - s) * (unat w mod 2 ^ s) + unat (drop_bit s v)"
    by (simp add: unat_drop)
  then show ?thesis using d by (simp add: or.commute)
qed

lemma shr_loop_val: "s < 32 \<Longrightarrow> lval (shr_loop s vs) = lval vs div 2 ^ s \<and> length (shr_loop s vs) = length vs"
proof (induction s vs rule: shr_loop.induct)
  case (1 s v w vs)
  define R where "R = lval (w # vs)"
  have pw: "B32 = (2 :: nat) ^ (32 - s) * 2 ^ s" using 1(2) by (simp flip: power_add)
  have "R mod 2 ^ s = unat w mod 2 ^ s"
  proof -
    have "R = unat w + 2 ^ s * (2 ^ (32 - s) * lval vs)" unfolding R_def lval.simps pw by (simp add: ac_simps)
    then show ?thesis by simp
  qed
  then have "lval (shr_loop s (v # w # vs)) = unat v div 2 ^ s + 2 ^ (32 - s) * (R mod 2 ^ s) + 2 ^ (32 - s) * 2 ^ s * (R div 2 ^ s)"
    using 1 shr_limb [OF 1(2), of v w] pw by (simp add: R_def)
  also have "\<dots> = unat v div 2 ^ s + 2 ^ (32 - s) * (R mod 2 ^ s + 2 ^ s * (R div 2 ^ s))" by (simp only: distrib_left mult.assoc add.assoc)
  also have "\<dots> = (unat v + 2 ^ s * (2 ^ (32 - s) * R)) div 2 ^ s" by (simp only: mod_mult_div_eq div_mult_self2 power_not_zero) simp
  also have "2 ^ s * (2 ^ (32 - s) * R) = B32 * R" unfolding pw by (simp only: ac_simps)
  finally show ?case using 1 by (simp add: R_def)
qed (simp_all add: unat_drop)

lemma d_shr_val:
  assumes "s < 32"
  obtains ds where "d_shr vs s = Some ds" and "length ds = length vs" and "lval ds = lval vs div 2 ^ s"
  using that assms shr_loop_val [OF assms, of vs] by (cases "s = 0") (simp_all add: d_shr_def)

lemma clz_loop_val: "v \<noteq> 0 \<Longrightarrow> \<exists>k. clz_loop v n = n + k \<and> 2 ^ 31 \<le> unat v * 2 ^ k \<and> unat v * 2 ^ k < 2 ^ 32"
proof (induction v n rule: clz_loop.induct)
  case (1 v n)
  show ?case
  proof (cases "v AND 0x80000000 = 0")
    case True
    then have lt: "unat v < 2 ^ 31" by (simp only: top_bit_clear)
    have e: "unat (push_bit 1 v) = 2 * unat v" using lt by (rule unat_shift1)
    have ne: "push_bit 1 v \<noteq> 0"
    proof
      assume "push_bit 1 v = 0"
      then have "2 * unat v = 0" unfolding e [symmetric] by (simp only: unat_0)
      then show False using 1(2) by (simp add: unat_eq_zero)
    qed
    have "\<not> (v = 0 \<or> v AND 0x80000000 \<noteq> 0)" using 1(2) True by simp
    from 1(1) [OF this ne] obtain k where k: "clz_loop (push_bit 1 v) (n + 1) = n + 1 + k"
        "2 ^ 31 \<le> unat (push_bit 1 v) * 2 ^ k" "unat (push_bit 1 v) * 2 ^ k < 2 ^ 32" by blast
    have "clz_loop v n = n + (k + 1)"
      using 1(2) True k(1) by (subst clz_loop.simps) (simp only: simp_thms if_False add.assoc add.commute [of 1])
    moreover have "unat v * 2 ^ (k + 1) = unat (push_bit 1 v) * 2 ^ k" unfolding e by simp
    ultimately show ?thesis using k(2,3) by metis
  next
    case False
    then have "\<not> unat v < 2 ^ 31" by (simp only: top_bit_clear) simp
    moreover have "clz_loop v n = n + 0" using False by (subst clz_loop.simps) simp
    ultimately show ?thesis using unat_lt_32 [of v] by (intro exI [of _ 0]) simp
  qed
qed

lemma d_clz_val:
  assumes "v \<noteq> 0"
  shows "d_clz v < 32" and "2 ^ 31 \<le> unat v * 2 ^ d_clz v" and "unat v * 2 ^ d_clz v < 2 ^ 32"
proof -
  show "2 ^ 31 \<le> unat v * 2 ^ d_clz v" "unat v * 2 ^ d_clz v < 2 ^ 32"
    using clz_loop_val [OF assms, of 0] assms by (auto simp: d_clz_def)
  moreover have "0 < unat v" using assms by (simp add: unat_gt_0)
  then have "1 * (2 :: nat) ^ d_clz v \<le> unat v * 2 ^ d_clz v" by (intro mult_le_mono1) simp
  ultimately have "1 * (2 :: nat) ^ d_clz v < 2 ^ 32" by linarith
  then show "d_clz v < 32" by (simp only: mult_1 power_strict_increasing_iff)
qed

end
