(* ===== verification/Big_Knuth.thy ===== *)
theory Big_Knuth
  imports Big_Div
begin

text \<open>
  Algorithm D of \<^verbatim>\<open>c68k_div.c\<close> returns the remainder. The estimate of a quotient limb, from two limbs of the
  divisor and three of the numerator, is the quotient limb or one more; a row leaves a remainder below the
  divisor whichever it was.
\<close>

section \<open>The estimate\<close>

lemma estimate_over:
  fixes U V b Ur Vr d num q :: nat
  assumes "U = num * b + Ur" and "Ur < b" and "V = d * b + Vr" and "num < q * d"
  shows "U < q * V"
proof -
  have "(num + 1) * b \<le> q * d * b" using assms(4) by (intro mult_le_mono1) simp
  then have "U < q * d * b" using assms(1,2) by (simp add: distrib_right)
  also have "\<dots> \<le> q * V" unfolding assms(3) by (simp add: distrib_left mult.assoc)
  finally show ?thesis .
qed

lemma estimate_under:
  fixes U V b Ur Vr d num q :: nat
  assumes "U = num * b + Ur" and "V = d * b + Vr" and "Vr < b" and "q * d \<le> num" and "q \<le> d"
  shows "q * V \<le> U + V"
proof -
  have "q * V = q * d * b + q * Vr" unfolding assms(2) by (simp add: distrib_left mult.assoc)
  also have "\<dots> \<le> num * b + d * b" using assms(3-5) by (intro add_mono mult_le_mono) simp_all
  also have "\<dots> \<le> U + V" unfolding assms(1,2) by simp
  finally show ?thesis .
qed

lemma test_val: "(ucast q * ucast v2 :: limb2) \<le> push_bit 32 (ucast r) OR ucast u2 \<longleftrightarrow> unat q * unat v2 \<le> unat r * B32 + unat u2"
  for q v2 r u2 :: limb
  using unat_wide [of r u2] by (simp add: word_le_nat_alt unat_prod64 wide_def)

lemma num_val: "unat (ucast a + ucast c :: limb2) = unat a + unat c" for a c :: limb
  using unat_lt_32 [of a] unat_lt_32 [of c] by (simp add: unat_word_ariths unat_limb_up)

lemma num_high: "drop_bit 32 (ucast a + ucast c :: limb2) \<noteq> 0 \<longleftrightarrow> B32 \<le> unat a + unat c" for a c :: limb
proof -
  have "drop_bit 32 (ucast a + ucast c :: limb2) = 0 \<longleftrightarrow> unat (drop_bit 32 (ucast a + ucast c :: limb2)) = 0"
    by (simp add: unat_eq_zero)
  also have "\<dots> \<longleftrightarrow> unat a + unat c < B32" unfolding unat_high_limb num_val by (simp add: div_eq_0_iff)
  finally show ?thesis by auto
qed

text \<open>What holds of the estimate at both exits of the loop: the two limbs of the divisor go into the three.\<close>

lemma overflow_exit:
  fixes q r w v1 v2 u2 :: nat
  assumes "q * v1 + r = w" and "B32 \<le> r" and "q < B32" and "v2 < B32"
  shows "q * (v1 * B32 + v2) \<le> w * B32 + u2"
proof -
  have "q * v2 \<le> (B32 - 1) * (B32 - 1)" using assms(3,4) by (intro product_bound)
  also have "\<dots> \<le> r * B32" using assms(2) by simp
  finally have "q * (v1 * B32 + v2) \<le> q * v1 * B32 + r * B32" by (simp only: distrib_left mult.assoc add_le_cancel_left)
  also have "\<dots> = w * B32" unfolding assms(1) [symmetric] by (simp only: distrib_right)
  finally show ?thesis by simp
qed

lemma correct_val:
  assumes "U = (w * B32 + unat u2) * b + Ur" and "Ur < b" and "V = (unat v1 * B32 + unat v2) * b + Vr" and "Vr < b"
    and "0 < unat v1" and "unat qhat * unat v1 + unat rhat = w" and "U < (unat qhat + 1) * V"
  shows "U < (unat (correct v1 v2 u2 qhat rhat) + 1) * V \<and> unat (correct v1 v2 u2 qhat rhat) * V \<le> U + V"
  using assms
proof (induction v1 v2 u2 qhat rhat rule: correct.induct)
  case (1 v1 v2 u2 qhat rhat)
  note U = 1(2,3) and V = 1(4,5) and v1 = 1(6) and I = 1(7,8)
  define d num where "d = unat v1 * B32 + unat v2" and "num = w * B32 + unat u2"
  have q: "unat x < B32" "unat x \<le> d" for x :: limb
    using unat_lt_32 [of x] v1 mult_le_mono1 [of 1 "unat v1" B32] by (simp_all add: d_def)
  note under = estimate_under [OF U(1) [folded num_def] V(1) [folded d_def] V(2)]
  show ?case
  proof (cases "unat qhat * unat v2 \<le> unat rhat * B32 + unat u2")
    case True
    then have run: "correct v1 v2 u2 qhat rhat = qhat" by (subst correct.simps) (simp only: test_val if_True)
    have "unat qhat * d \<le> num"
      using True unfolding d_def num_def I(1) [symmetric] by (simp add: algebra_simps)
    then show ?thesis unfolding run using under q(2) I(2) by blast
  next
    case False
    define q' where "q' = qhat - 1"
    have "num < unat qhat * d"
      using False unfolding d_def num_def I(1) [symmetric] by (simp add: algebra_simps)
    then have lt: "U < unat qhat * V" using estimate_over [OF U(1) [folded num_def] U(2) V(1) [folded d_def]] by blast
    then have "qhat \<noteq> 0" by auto
    then have q': "unat qhat = unat q' + 1" by (simp add: q'_def unat_minus_one unat_gt_0)
    have I': "unat q' * unat v1 + (unat rhat + unat v1) = w" "U < (unat q' + 1) * V" using I(1) lt q' by (simp_all add: distrib_right)
    show ?thesis
    proof (cases "B32 \<le> unat rhat + unat v1")
      case True
      then have run: "correct v1 v2 u2 qhat rhat = q'"
        using False by (subst correct.simps) (simp only: test_val num_high if_False if_True Let_def q'_def)
      have "unat q' * d \<le> num" unfolding d_def num_def using overflow_exit [OF I'(1) True q(1) q(1)] .
      then show ?thesis unfolding run using under q(2) I'(2) by blast
    next
      case F2: False
      define r' where "r' = (ucast (ucast rhat + ucast v1 :: limb2) :: limb)"
      have r': "unat r' = unat rhat + unat v1" using F2 by (simp add: r'_def unat_low_limb num_val)
      have run: "correct v1 v2 u2 qhat rhat = correct v1 v2 u2 q' r'"
        using False F2 by (subst correct.simps) (simp only: test_val num_high if_False Let_def q'_def r'_def)
      have a: "\<not> (ucast qhat * ucast v2 :: limb2) \<le> push_bit 32 (ucast rhat) OR ucast u2"
        and b: "\<not> drop_bit 32 (ucast rhat + ucast v1 :: limb2) \<noteq> 0"
        using False F2 by (simp_all only: test_val num_high not_False_eq_True)
      show ?thesis unfolding run
        using 1(1) [OF a q'_def refl b U V v1] I' unfolding r'_def [symmetric] r' by blast
    qed
  qed
qed

lemma estimate_val:
  assumes "U = ((unat u0 * B32 + unat u1) * B32 + unat u2) * b + Ur" and "Ur < b"
    and "V = (unat v1 * B32 + unat v2) * b + Vr" and "Vr < b" and "0 < unat v1" and "U < V * B32"
  obtains q where "estimate v1 v2 u0 u1 u2 = Some q" and "U < (unat q + 1) * V" and "unat q * V \<le> U + V"
proof -
  define w where "w = unat u0 * B32 + unat u1"
  define d num where "d = unat v1 * B32 + unat v2" and "num = w * B32 + unat u2"
  have lt: "unat x < B32" for x :: limb using unat_lt_32 [of x] by simp
  have q: "unat x \<le> d" for x :: limb
    using lt [of x] assms(5) mult_le_mono1 [of 1 "unat v1" B32] by (simp add: d_def)
  note C = correct_val [OF assms(1) [folded w_def] assms(2-5)]
  show thesis
  proof (cases "v1 \<le> u0")
    case True
    have "num * b < (d + 1) * b * B32"
    proof -
      have "num * b \<le> U" using assms(1) by (simp add: num_def w_def)
      also have "\<dots> < V * B32" by (rule assms(6))
      also have "\<dots> \<le> (d + 1) * b * B32" using assms(3,4) by (intro mult_le_mono1) (simp add: d_def distrib_right)
      finally show ?thesis .
    qed
    also have "(d + 1) * b * B32 = (d + 1) * B32 * b" by (simp only: ac_simps)
    finally have "num < (d + 1) * B32" by (simp only: mult_less_cancel2)
    then have "unat u0 = unat v1" using True lt [of v2] lt [of u1] by (simp add: num_def w_def d_def word_le_nat_alt)
    then have w: "(B32 - 1) * unat v1 + (unat u1 + unat v1) = w" by (simp add: w_def)
    have I2: "U < (unat (0xFFFFFFFF :: limb) + 1) * V" using assms(6) by (simp add: mult.commute)
    show thesis
    proof (cases "B32 \<le> unat u1 + unat v1")
      case True2: True
      have run: "estimate v1 v2 u0 u1 u2 = Some 0xFFFFFFFF"
        using True True2 by (simp only: estimate_def num_high if_True Let_def)
      have "unat (0xFFFFFFFF :: limb) * d \<le> num"
        unfolding d_def num_def by (rule overflow_exit [OF _ True2 lt lt]) (use w in simp)
      then have "unat (0xFFFFFFFF :: limb) * V \<le> U + V"
        by (rule estimate_under [OF assms(1) [folded w_def, folded num_def] assms(3) [folded d_def] assms(4) _ q])
      then show thesis using that run I2 by blast
    next
      case False
      define r where "r = (ucast (ucast u1 + ucast v1 :: limb2) :: limb)"
      have r: "unat r = unat u1 + unat v1" using False by (simp add: r_def unat_low_limb num_val)
      have run: "estimate v1 v2 u0 u1 u2 = Some (correct v1 v2 u2 0xFFFFFFFF r)"
        using True False by (simp only: estimate_def num_high if_True if_False Let_def r_def)
      show thesis using that [OF run] C [of "0xFFFFFFFF" r] I2 w r by simp
    qed
  next
    case False
    then have "unat u0 < unat v1" by (simp add: word_le_nat_alt)
    then obtain qh r where D: "c68k_div_2by1 u0 u1 v1 = Some (qh, r)" "w = unat qh * unat v1 + unat r" "unat r < unat v1"
      using div_2by1_val [of u0 v1 u1] by (metis w_def)
    have run: "estimate v1 v2 u0 u1 u2 = Some (correct v1 v2 u2 qh r)"
      using False D(1) by (simp add: estimate_def)
    have "num < (unat qh + 1) * d"
    proof -
      have "(w + 1) * B32 \<le> (unat qh + 1) * unat v1 * B32" using D(2,3) by (intro mult_le_mono1) simp
      then have "num < (unat qh + 1) * unat v1 * B32" using lt [of u2] by (simp add: num_def)
      also have "\<dots> \<le> (unat qh + 1) * d" by (simp add: d_def distrib_left mult.assoc)
      finally show ?thesis .
    qed
    then have "U < (unat qh + 1) * V"
      by (rule estimate_over [OF assms(1) [folded w_def, folded num_def] assms(2) assms(3) [folded d_def]])
    then show thesis using that [OF run] C [of qh r] D(2) by simp
  qed
qed

section \<open>A row\<close>

text \<open>What the subtraction, and the addition when it went below zero, leave of the window.\<close>

lemma window_val:
  fixes row' row'' :: "limb list"
  assumes len: "length row = length vn" and sub: "c68k_submul_1 row vn q = (row', borrow)" and add: "c68k_add row' vn = (row'', carry)"
    and U: "U = lval row + B32 ^ length vn * unat u0" and est: "U < (unat q + 1) * lval vn" "unat q * lval vn \<le> U + lval vn"
  defines "W \<equiv> (if u0 < borrow then row'' @ [u0 - borrow + carry] else row' @ [u0 - borrow])"
  shows "length W = length vn + 1" and "lval W < lval vn" and "\<exists>k. U = lval W + k * lval vn"
proof -
  define N V Q where "N = B32 ^ length vn" and "V = lval vn" and "Q = unat q"
  note S = submul_val [OF len sub]
  have l': "length row' = length vn" using S(1) len by simp
  note A = add_val [OF l' add]
  have S2: "lval row + N * unat borrow = lval row' + Q * V" using S(2) len by (simp add: N_def Q_def V_def)
  have A2: "lval row'' + N * unat carry = lval row' + V" using A(3) l' by (simp add: N_def V_def)
  have lt: "V < N" "lval row' < N" "lval row'' < N" using lval_less [of row'] lval_less [of row''] l' A(1)
    by (simp_all add: V_def N_def lval_less)
  have b: "U < Q * V + V" "Q * V \<le> U + V" using est by (simp_all add: Q_def V_def)
  have "length W = length vn + 1 \<and> lval W < V \<and> (\<exists>k. U = lval W + k * V)"
  proof (cases "u0 < borrow")
    case True
    define e where "e = unat borrow - unat u0"
    have e: "unat borrow = unat u0 + e" "1 \<le> e" using True by (simp_all add: e_def word_less_nat_alt)
    have Ue: "U + N * e = lval row' + Q * V" using S2 U unfolding e(1) by (simp add: N_def distrib_left)
    have "N \<le> N * e" using e(2) by simp
    then have UQ: "U < Q * V" using Ue lt(2) by linarith
    define X where "X = U + V - Q * V"
    have X: "X + Q * V = U + V" "X < V" using b UQ by (simp_all add: X_def)
    have E: "X + N * e = lval row'' + N * unat carry" using Ue A2 X(1) by linarith
    have Xr: "X = lval row''" by (rule same_residue [OF _ lt(3) E]) (use X(2) lt(1) in linarith)
    then have ec: "e = unat carry" using E lt(1) by simp
    have "unat (u0 + carry) = unat borrow" using e(1) ec unat_lt_32 [of borrow] by (subst unat_add_nowrap) simp_all
    then have "borrow = u0 + carry" by (simp add: word_unat_eq_iff)
    then have W: "W = row'' @ [0]" using True by (simp add: W_def)
    obtain k where "Q = Suc k" using UQ by (cases Q) auto
    then have "U = lval W + k * V" using X(1) Xr W by (simp add: lval_append)
    then show ?thesis using W Xr X(2) A(1) l' by (auto simp: lval_append)
  next
    case False
    define e where "e = unat u0 - unat borrow"
    have e: "unat u0 = unat borrow + e" "unat (u0 - borrow) = e" using False
      by (simp_all add: e_def unat_sub word_le_nat_alt word_less_nat_alt)
    have W: "W = row' @ [u0 - borrow]" using False by (simp add: W_def)
    have Wv: "lval W = lval row' + N * e" using W l' e(2) by (simp add: lval_append N_def)
    have "U = lval W + Q * V" using S2 U unfolding Wv e(1) by (simp add: N_def distrib_left)
    then show ?thesis using b(1) W l' by auto
  qed
  then show "length W = length vn + 1" "lval W < lval vn" "\<exists>k. U = lval W + k * lval vn" by (simp_all add: V_def)
qed

lemma lval_top2:
  assumes "2 \<le> length vn"
  shows "lval vn = (unat (vn ! (length vn - 1)) * B32 + unat (vn ! (length vn - 2))) * B32 ^ (length vn - 2) + lval (take (length vn - 2) vn)"
proof -
  define k where "k = length vn - 2"
  have k: "length vn = Suc (Suc k)" using assms by (simp add: k_def)
  have "lval vn = lval (take (Suc (Suc k)) vn)" using k by simp
  also have "\<dots> = lval (take (Suc k) vn) + B32 ^ Suc k * unat (vn ! Suc k)" by (rule lval_take_Suc) (simp add: k)
  also have "lval (take (Suc k) vn) = lval (take k vn) + B32 ^ k * unat (vn ! k)" by (rule lval_take_Suc) (simp add: k)
  finally show ?thesis using k by (simp add: algebra_simps)
qed

lemma mod_step_val:
  assumes n: "2 \<le> length vn" and v1: "0 < unat (vn ! (length vn - 1))" and len: "j + length vn + 1 \<le> length un"
    and inv: "lval (drop (j + 1) un) < lval vn"
  obtains un' where "mod_step j vn un = Some un'" and "length un' = length un" and "lval (drop j un') < lval vn"
    and "lval un' mod lval vn = lval un mod lval vn"
proof -
  define n where "n = length vn"
  define V where "V = lval vn"
  define row u0 u1 u2 where "row = take n (drop j un)" and "u0 = un ! (j + n)" and "u1 = un ! (j + n - 1)" and "u2 = un ! (j + n - 2)"
  define A Z where "A = take j un" and "Z = drop (j + n + 1) un"
  have lens: "length row = n" "length A = j" "2 \<le> n" using len n by (simp_all add: row_def A_def n_def)
  have split: "un = A @ (row @ [u0]) @ Z"
  proof -
    have "drop j un = row @ drop n (drop j un)" unfolding row_def by (rule append_take_drop_id [symmetric])
    also have "drop n (drop j un) = u0 # Z" using len Cons_nth_drop_Suc [of "j + n" un] by (simp add: u0_def Z_def n_def add.commute)
    finally have "drop j un = (row @ [u0]) @ Z" by simp
    then show ?thesis using append_take_drop_id [of j un] by (simp add: A_def)
  qed
  define U where "U = lval (row @ [u0])"
  have Ur: "U = lval row + B32 ^ n * unat u0" using lens by (simp add: U_def lval_append)
  have "lval Z = 0"
  proof (rule ccontr)
    assume "lval Z \<noteq> 0"
    then have "B32 ^ n \<le> B32 ^ n * lval Z" by simp
    also have "\<dots> \<le> lval (take n (drop (j + 1) un) @ drop n (drop (j + 1) un))"
      using len by (simp add: lval_append Z_def n_def add.commute min_def)
    also have "\<dots> < B32 ^ n" unfolding append_take_drop_id using inv lval_less [of vn] by (simp add: n_def)
    finally show False by simp
  qed
  then have dj: "lval (drop j (A @ W @ Z)) = lval W" for W using lens by (simp add: lval_append)
  have UB: "U < V * B32"
  proof -
    have "lval (drop j un) = unat (un ! j) + B32 * lval (drop (j + 1) un)"
      using Cons_nth_drop_Suc [of j un] len by (metis lval.simps(2) Suc_eq_plus1 add_lessD1 less_eq_Suc_le add.assoc)
    moreover have "lval (drop j un) = U" using dj [of "row @ [u0]"] split by (simp add: U_def)
    moreover have "B32 * (lval (drop (j + 1) un) + 1) \<le> B32 * V" using inv by (intro mult_le_mono2) (simp add: V_def)
    ultimately show ?thesis using unat_lt_32 [of "un ! j"] by (simp add: mult.commute)
  qed
  have Utop: "U = ((unat u0 * B32 + unat u1) * B32 + unat u2) * B32 ^ (n - 2) + lval (take (n - 2) row)"
  proof -
    have "row ! (n - 1) = u1" "row ! (n - 2) = u2" using lens len by (simp_all add: row_def u1_def u2_def n_def)
    moreover obtain k where "n = k + 2" using lens(3) by (metis le_add_diff_inverse2)
    ultimately show ?thesis using lval_top2 [of row] lens Ur by (simp add: algebra_simps)
  qed
  have lt: "lval (take (n - 2) row) < B32 ^ (n - 2)" "lval (take (n - 2) vn) < B32 ^ (n - 2)"
    using lens by (simp_all add: lval_less_n n_def)
  obtain q where q: "estimate (vn ! (n - 1)) (vn ! (n - 2)) u0 u1 u2 = Some q" "U < (unat q + 1) * V" "unat q * V \<le> U + V"
    using estimate_val [OF Utop lt(1) _ lt(2) _ UB, of "vn ! (n - 1)" "vn ! (n - 2)"] lval_top2 [OF n] v1 by (auto simp: n_def V_def)
  obtain row' borrow where sub: "c68k_submul_1 row vn q = (row', borrow)" by (cases "c68k_submul_1 row vn q")
  obtain row'' carry where add: "c68k_add row' vn = (row'', carry)" by (cases "c68k_add row' vn")
  define W where "W = (if u0 < borrow then row'' @ [u0 - borrow + carry] else row' @ [u0 - borrow])"
  have lr: "length row = length vn" using lens by (simp add: n_def)
  note W = window_val [OF lr sub add Ur [unfolded n_def] q(2,3) [unfolded V_def], folded W_def]
  have l': "length row' = n" "length row'' = n" using submul_val(1) [OF lr sub] add_val(1) [OF _ add] lens lr by simp_all
  have run: "mod_step j vn un = Some (A @ W @ Z)"
  proof -
    have rds: "rd un (j + n) = Some u0" "rd un (j + n - 1) = Some u1" "rd un (j + n - 2) = Some u2"
        "rd vn (n - 1) = Some (vn ! (n - 1))" "rd vn (n - 2) = Some (vn ! (n - 2))" "rd_range un j n = Some row"
      using len lens by (simp_all add: n_def u0_def u1_def u2_def row_def)
    have wr1: "wr_range un j row' = Some (A @ row' @ [u0] @ Z)"
      using split l' lens by (simp add: wr_range_def)
    have wr2: "wr_range (A @ row' @ [u0] @ Z) j (row'' @ [x]) = Some (A @ (row'' @ [x]) @ Z)" for x
      using l' lens by (simp add: wr_range_def)
    have wr3: "wr_range (A @ row' @ [u0] @ Z) (j + n) [x] = Some (A @ (row' @ [x]) @ Z)" for x
      using l' lens by (simp add: wr_range_def)
    show ?thesis
      using wr2 wr3 unfolding W_def
      by (simp only: mod_step_def Let_def n_def [symmetric] rds q(1) bind.bind_lunit sub add prod.case wr1 split: if_split) simp
  qed
  have "lval (A @ W @ Z) mod V = lval un mod V"
  proof -
    obtain k where k: "U = lval W + k * V" using W(3) by (auto simp: V_def)
    have "lval un = lval A + B32 ^ j * U" using arg_cong [OF split, of lval] lens \<open>lval Z = 0\<close> by (simp add: lval_append U_def)
    also have "\<dots> = lval (A @ W @ Z) + (B32 ^ j * k) * V" using lens \<open>lval Z = 0\<close> k by (simp add: lval_append distrib_left)
    finally show ?thesis by simp
  qed
  moreover have "length (A @ W @ Z) = length un" using arg_cong [OF split, of length] W(1) lens by (simp add: n_def)
  ultimately show thesis using that [OF run] W(2) dj [of W] by (simp add: V_def)
qed

section \<open>The remainder\<close>

lemma mod_rows_val:
  assumes "2 \<le> length vn" and "0 < unat (vn ! (length vn - 1))" and "k + length vn \<le> length un"
    and "lval (drop k un) < lval vn"
  shows "\<exists>un'. mod_rows k vn un = Some un' \<and> length un' = length un \<and> lval un' = lval un mod lval vn"
  using assms(3,4)
proof (induction k arbitrary: un)
  case 0
  then show ?case by simp
next
  case (Suc j)
  have "j + length vn + 1 \<le> length un" "lval (drop (j + 1) un) < lval vn" using Suc.prems by simp_all
  from mod_step_val [OF assms(1,2) this] obtain un1 where s: "mod_step j vn un = Some un1" "length un1 = length un"
      "lval (drop j un1) < lval vn" "lval un1 mod lval vn = lval un mod lval vn" by blast
  then show ?case using Suc.IH [of un1] Suc.prems by auto
qed

lemma mod_limb_val:
  assumes "unat r < unat d"
  shows "\<exists>r'. mod_limb d r us = Some r' \<and> unat r' = (lval (rev us) + B32 ^ length us * unat r) mod unat d"
  using assms
proof (induction us arbitrary: r)
  case (Cons u us)
  obtain q r1 where D: "c68k_div_2by1 r u d = Some (q, r1)" "unat r * B32 + unat u = unat q * unat d + unat r1" "unat r1 < unat d"
    using div_2by1_val [OF Cons.prems, of u] by blast
  obtain r' where IH: "mod_limb d r1 us = Some r'" "unat r' = (lval (rev us) + B32 ^ length us * unat r1) mod unat d"
    using Cons.IH [OF D(3)] by blast
  have "lval (rev (u # us)) + B32 ^ length (u # us) * unat r = lval (rev us) + B32 ^ length us * (unat r * B32 + unat u)"
    by (simp add: lval_append algebra_simps)
  also have "\<dots> = lval (rev us) + B32 ^ length us * unat r1 + (B32 ^ length us * unat q) * unat d"
    unfolding D(2) by (simp add: distrib_left)
  finally show ?case using D(1) IH by simp
qed simp

lemma lval_last:
  assumes "m \<noteq> []" and "last m \<noteq> 0"
  shows "B32 ^ (length m - 1) \<le> lval m"
proof -
  have "lval m = lval (butlast m @ [last m])" using assms(1) by simp
  also have "\<dots> = lval (butlast m) + B32 ^ (length m - 1) * unat (last m)" by (simp only: lval_append) simp
  finally show ?thesis using assms(2) by (simp add: Suc_le_eq unat_gt_0 trans_le_add2)
qed

text \<open>The shifted numerator starts below the shifted divisor: the bits shifted out are fewer than the divisor's top limb holds.\<close>

lemma top_below:
  assumes "length xs = length vn" and "vn \<noteq> []" and "unat (last xs) < unat (last vn)"
  shows "lval xs < lval vn"
proof -
  define N where "N = B32 ^ (length vn - 1)"
  have split: "lval zs = lval (butlast zs) + N * unat (last zs)" if "length zs = length vn" for zs
  proof -
    have "zs \<noteq> []" using that assms(2) by auto
    then have "lval zs = lval (butlast zs @ [last zs])" by simp
    also have "\<dots> = lval (butlast zs) + N * unat (last zs)" unfolding N_def that [symmetric] by (simp only: lval_append) simp
    finally show ?thesis .
  qed
  have "lval (butlast xs) < N" using lval_less [of "butlast xs"] assms(1) by (simp add: N_def)
  moreover have "N * (unat (last xs) + 1) \<le> N * unat (last vn)" using assms(3) by (intro mult_le_mono2) simp
  ultimately show ?thesis unfolding split [OF assms(1)] split [OF refl] by simp
qed

lemma lval_last_split: "xs \<noteq> [] \<Longrightarrow> lval xs = lval (butlast xs) + B32 ^ (length xs - 1) * unat (last xs)"
  using lval_append [of "butlast xs" "[last xs]"] by simp

lemma normalised:
  assumes "m \<noteq> []" and "last m \<noteq> 0"
  obtains vn c where "d_shl m (d_clz (last m)) = Some (vn, c)" and "length vn = length m" and "2 ^ 31 \<le> unat (last vn)"
    and "lval vn = lval m * 2 ^ d_clz (last m)"
proof -
  define s where "s = d_clz (last m)"
  define N where "N = B32 ^ (length m - 1)"
  note Z = d_clz_val [OF assms(2), folded s_def]
  obtain vn c where v: "d_shl m s = Some (vn, c)" "length vn = length m" "lval vn + B32 ^ length m * unat c = lval m * 2 ^ s"
    using d_shl_val [OF Z(1), of m] by blast
  have split: "lval m = lval (butlast m) + N * unat (last m)" using lval_last_split [OF assms(1)] by (simp add: N_def)
  have NB: "B32 ^ length m = N * 2 ^ 32" using assms(1) by (cases m) (simp_all add: N_def)
  have low: "lval (butlast m) < N" using lval_less [of "butlast m"] by (simp add: N_def)
  have "unat (last m) < 2 ^ (32 - s)"
  proof -
    have "unat (last m) * 2 ^ s < 2 ^ (32 - s) * 2 ^ s" using Z(1,3) by (simp flip: power_add)
    then show ?thesis by (simp only: mult_less_cancel2)
  qed
  then have "(unat (last m) + 1) * 2 ^ s \<le> 2 ^ (32 - s) * 2 ^ s" by (intro mult_le_mono1) simp
  then have "(unat (last m) + 1) * 2 ^ s \<le> 2 ^ 32" using Z(1) by (simp flip: power_add)
  then have "N * ((unat (last m) + 1) * 2 ^ s) \<le> N * 2 ^ 32" by (rule mult_le_mono2)
  moreover have "lval m * 2 ^ s < N * (unat (last m) + 1) * 2 ^ s" using low split by (intro mult_strict_right_mono) simp_all
  ultimately have "lval m * 2 ^ s < B32 ^ length m" unfolding NB by (simp only: mult.assoc)
  with v(3) have val: "lval vn = lval m * 2 ^ s" by (rule no_carry)
  have ne: "vn \<noteq> []" using v(2) assms(1) by auto
  have "2 ^ 31 \<le> unat (last vn)"
  proof (rule ccontr)
    assume "\<not> 2 ^ 31 \<le> unat (last vn)"
    then have "N * (unat (last vn) + 1) \<le> N * 2 ^ 31" by (intro mult_le_mono2) simp
    moreover have "lval (butlast vn) < N" using lval_less [of "butlast vn"] v(2) by (simp add: N_def)
    then have "lval vn < N * (unat (last vn) + 1)" using lval_last_split [OF ne] v(2) by (simp add: N_def)
    moreover have "N * 2 ^ 31 \<le> N * (unat (last m) * 2 ^ s)" using Z(2) by (rule mult_le_mono2)
    moreover have "N * (unat (last m) * 2 ^ s) \<le> lval m * 2 ^ s" unfolding split by (simp add: distrib_right)
    ultimately show False using val by linarith
  qed
  then show thesis using that v(1,2) val by (simp add: s_def)
qed

lemma mod_long_val:
  assumes last: "last m \<noteq> 0" and n: "2 \<le> length m" "length m \<le> length u" and scratch: "length u + length m + 1 \<le> length scratch"
  shows "\<exists>r scratch'. c68k_mod u m scratch = Some (r, scratch') \<and> length r = length m \<and> length scratch' = length scratch \<and>
    lval r = lval u mod lval m"
proof -
  define s where "s = d_clz (last m)"
  define n where "n = length m"
  define l where "l = length u"
  have ln: "2 \<le> n" "n \<le> l" "l + n + 1 \<le> length scratch" using assms by (simp_all add: n_def l_def)
  have ne: "m \<noteq> []" using n by auto
  note Z = d_clz_val [OF last, folded s_def]
  obtain vn c where v: "d_shl m s = Some (vn, c)" "length vn = n" "2 ^ 31 \<le> unat (last vn)" "lval vn = lval m * 2 ^ s"
    using normalised [OF ne last] by (auto simp: s_def n_def)
  obtain us d where u: "d_shl u s = Some (us, d)" "length us = l" "unat d < 2 ^ s" "lval us + B32 ^ l * unat d = lval u * 2 ^ s"
    using d_shl_val [OF Z(1), of u] by (auto simp: l_def)
  define un where "un = us @ [d]"
  have un: "length un = l + 1" "lval un = lval u * 2 ^ s" using u by (simp_all add: un_def lval_append)
  have vne: "vn \<noteq> []" "2 \<le> length vn" using v(2) ln by auto
  have "(2 :: nat) ^ s \<le> 2 ^ 31" using Z(1) by (intro power_increasing) simp_all
  then have dl: "unat d < unat (last vn)" using u(3) v(3) by linarith
  have start: "lval (drop (l - n + 1) un) < lval vn"
  proof (rule top_below)
    show "length (drop (l - n + 1) un) = length vn" using un v(2) ln by simp
    have "last (drop (l - n + 1) un) = d" using u(2) ln by (simp add: un_def)
    then show "unat (last (drop (l - n + 1) un)) < unat (last vn)" using dl by simp
  qed (rule vne(1))
  have "0 < unat (vn ! (length vn - 1))" using v(3) vne(1) by (simp add: last_conv_nth)
  from mod_rows_val [OF vne(2) this _ start] obtain un' where
    r: "mod_rows (l - n + 1) vn un = Some un'" "length un' = l + 1" "lval un' = lval un mod lval vn"
    using un v(2) ln by auto
  have V0: "0 < lval vn" using start by simp
  have "lval un' < B32 ^ n" using r(3) V0 lval_less [of vn] v(2) mod_less_divisor [OF V0, of "lval un"] by simp
  moreover have "lval (take n un') + B32 ^ n * lval (drop n un') = lval un'" using lval_split [of n un'] r(2) ln by simp
  ultimately have low: "lval (take n un') = lval un'" using no_carry by blast
  have rem: "lval un' = (lval u mod lval m) * 2 ^ s" unfolding r(3) un(2) v(4) by (rule mult_mod_left [symmetric])
  obtain res where res: "d_shr (take n un') s = Some res" "length res = length (take n un')" "lval res = lval (take n un') div 2 ^ s"
    using d_shr_val [OF Z(1), of "take n un'"] by blast
  obtain s1 where s1: "wr_range scratch (l + 1) vn = Some s1" "length s1 = length scratch"
    using ln v(2) by (simp add: wr_range_def)
  obtain s2 where s2: "wr_range s1 0 un = Some s2" "length s2 = length scratch"
    using ln un(1) s1(2) by (simp add: wr_range_def)
  obtain s3 where s3: "wr_range s2 0 un' = Some s3" "length s3 = length scratch"
    using ln r(2) s2(2) by (simp add: wr_range_def)
  have rd: "rd_range un' 0 n = Some (take n un')" using r(2) ln by simp
  have guards: "\<not> (n = 0 \<or> l < n)" "n \<noteq> 1" using ln by simp_all
  have "c68k_mod u m scratch = Some (res, s3)"
    using guards by (simp only: c68k_mod_def n_def [symmetric] l_def [symmetric] Let_def if_False s_def [symmetric] v(1) u(1) s1(1)
        un_def [symmetric] s2(1) r(1) s3(1) rd res(1) bind.bind_lunit prod.case)
  moreover have "lval res = lval u mod lval m" using res(3) low rem by simp
  ultimately show ?thesis using res(2) r(2) ln s3(2) by (simp add: n_def)
qed

lemma mod_val:
  assumes m: "m \<noteq> []" "last m \<noteq> 0" and scratch: "length u + length m + 1 \<le> length scratch"
  obtains r scratch' where "c68k_mod u m scratch = Some (r, scratch')" and "length r = length m"
    and "length scratch' = length scratch" and "lval r = lval u mod lval m"
proof -
  define n where "n = length m"
  consider "length u < n" | "n \<le> length u" "n = 1" | "n \<le> length u" "2 \<le> n" 
  proof -
    have "0 < n" using m(1) by (simp add: n_def)
    then show thesis using that by linarith
  qed
  then show thesis
  proof cases
    case 1
    have "B32 ^ length u \<le> B32 ^ (length m - 1)" using 1 by (intro power_increasing) (simp_all add: n_def)
    then have "lval u < lval m" using lval_less [of u] lval_last [OF m] by linarith
    then show thesis using that [of "u @ replicate (n - length u) 0" scratch] 1 by (simp add: c68k_mod_def n_def lval_append)
  next
    case 2
    then obtain d where d: "m = [d]" by (auto simp: n_def length_Suc_conv)
    then have "unat (0 :: limb) < unat d" using m(2) by (simp add: unat_gt_0)
    from mod_limb_val [OF this, of "rev u"] obtain r where r: "mod_limb d 0 (rev u) = Some r" "unat r = lval u mod unat d" by auto
    have "u \<noteq> []" using 2 by auto
    then have "c68k_mod u m scratch = Some ([r], scratch)" using d r(1) by (simp add: c68k_mod_def Let_def)
    then show thesis using that r(2) d by simp
  next
    case 3
    then show thesis using mod_long_val [OF m(2), of u scratch] that scratch by (auto simp: n_def)
  qed
qed

end
