(* ===== verification/Big_Powm.thy ===== *)
theory Big_Powm
  imports Big_Reduce Big_Knuth
begin

text \<open>
  Modular exponentiation, \<^verbatim>\<open>src/crypto68k/c68k_powm.c\<close>: the radix squared, the table of odd powers and the
  sliding window over the exponent, from the top bit down.

  The vendored huge-number routines are parameters, as functions on the limbs a huge number holds: \<^verbatim>\<open>size\<close>
  limbs, least significant first. Counts and bit positions are natural numbers: an exponent whose bit length
  leaves 32 bits does not fit the machine. Of the scratch, \<open>work\<close>, \<open>setup\<close> and \<open>table\<close> are cut out at the code's
  offsets; \<^verbatim>\<open>xm\<close>, \<^verbatim>\<open>acc\<close>, \<^verbatim>\<open>one\<close>, \<^verbatim>\<open>rr\<close> and \<^verbatim>\<open>xpad\<close>, the five regions before them, are the values they hold.
\<close>

record huge_ops =
  adjust_size :: "limb list \<Rightarrow> limb list"
  square :: "limb list \<Rightarrow> limb list"
  modulus :: "limb list \<Rightarrow> limb list \<Rightarrow> limb list"
  mont_power_modulus :: "limb list \<Rightarrow> limb list \<Rightarrow> limb list \<Rightarrow> limb list"

datatype powm_status = NX_CRYPTO_SUCCESS | NX_CRYPTO_NOT_SUCCESSFUL | NX_CRYPTO_SIZE_ERROR

section \<open>The routines\<close>

definition c68k_zero :: "nat \<Rightarrow> limb list" where
  "c68k_zero n = replicate n 0"

definition c68k_copy :: "limb list \<Rightarrow> limb list \<Rightarrow> limb list option" where
  "c68k_copy dst src = wr_range dst 0 src"

definition c68k_bit :: "limb list \<Rightarrow> nat \<Rightarrow> limb option" where
  "c68k_bit e i = do { l \<leftarrow> rd e (i div 32); Some (drop_bit (i mod 32) l AND 1) }"

primrec limb_bits :: "nat \<Rightarrow> limb \<Rightarrow> nat" where
  "limb_bits 0 l = 0"
| "limb_bits (Suc i) l = (if l = 0 then 0 else Suc (limb_bits i (drop_bit 1 l)))"

text \<open>\<^verbatim>\<open>while (e_len > 0 && e[e_len - 1] == 0)\<close> drops limbs from the top, the head of the reversed list.\<close>

definition c68k_bitlen :: "limb list \<Rightarrow> nat" where
  "c68k_bitlen e =
     (case dropWhile (\<lambda>l. l = 0) (rev e) of
        [] \<Rightarrow> 0
      | l # ls \<Rightarrow> 32 * length ls + limb_bits 32 l)"

definition c68k_window_for :: "nat \<Rightarrow> nat" where
  "c68k_window_for bits =
     (if bits > 671 then 6 else if bits > 239 then 5 else if bits > 79 then 4 else if bits > 23 then 3 else 1)"

definition c68k_mont_setup_rr :: "huge_ops \<Rightarrow> bool \<Rightarrow> limb list \<Rightarrow> limb list \<Rightarrow> limb list option" where
  "c68k_mont_setup_rr hn fast m setup =
     (let n = length m; m_hn = adjust_size hn m; temp = c68k_zero n @ [1] in
      if length setup < n + 1 then None
      else if fast then do {
        (temp, area) \<leftarrow> c68k_mod temp m (drop (n + 1) setup);
        let sq = square hn (adjust_size hn temp);
        area \<leftarrow> wr_range area 0 sq;
        area \<leftarrow> wr_range area (length sq) (replicate (2 * n - length sq) 0);
        sq \<leftarrow> rd_range area 0 (2 * n);
        (rr, area) \<leftarrow> c68k_mod sq m area;
        Some rr
      } else do {
        let temp = modulus hn temp m_hn;
        let sq = square hn temp;
        area \<leftarrow> wr_range (drop (n + 1) setup) 0 sq;
        let sq = modulus hn sq m_hn;
        Some (take n sq @ c68k_zero (n - length sq))
      })"

definition C68K_POWM_SCRATCH_LIMBS :: "nat \<Rightarrow> nat \<Rightarrow> nat" where
  "C68K_POWM_SCRATCH_LIMBS m_len w = (20 + 2 ^ (w - 1)) * m_len + 16"

fun pick_window :: "nat \<Rightarrow> nat \<Rightarrow> nat \<Rightarrow> nat" where
  "pick_window m_len limbs w =
     (if 1 < w \<and> limbs < C68K_POWM_SCRATCH_LIMBS m_len w then pick_window m_len limbs (w - 1) else w)"

declare pick_window.simps [simp del]

text \<open>\<open>table[i] = table[i - 1] * acc\<close>, for the \<open>k\<close> entries from \<open>i\<close>.\<close>

primrec odd_powers :: "nat \<Rightarrow> nat \<Rightarrow> nat \<Rightarrow> limb list \<Rightarrow> limb list \<Rightarrow> limb \<Rightarrow> limb list \<Rightarrow> limb list \<Rightarrow> (limb list \<times> limb list) option" where
  "odd_powers 0 i kl acc m n0inv table work = Some (table, work)"
| "odd_powers (Suc k) i kl acc m n0inv table work = do {
     prev \<leftarrow> rd_range table ((i - 1) * length m) (length m);
     here \<leftarrow> rd_range table (i * length m) (length m);
     (t, work) \<leftarrow> c68k_mont_mul kl here prev acc m n0inv work;
     table \<leftarrow> wr_range table (i * length m) t;
     odd_powers k (i + 1) kl acc m n0inv table work
   }"

function find_low :: "limb list \<Rightarrow> nat \<Rightarrow> nat option" where
  "find_low e low = do {
     b \<leftarrow> c68k_bit e low;
     if b = 0 then find_low e (low + 1) else Some low
   }"
  by pat_completeness auto
termination
proof (relation "measure (\<lambda>(e, low). 32 * length e - low)", goal_cases)
  case (2 e low b)
  then have "low div 32 < length e" by (auto simp: c68k_bit_def rd_def split: if_splits)
  then show ?case by auto
qed simp

declare find_low.simps [simp del]

primrec window_loop :: "nat \<Rightarrow> limb list \<Rightarrow> nat \<Rightarrow> nat \<Rightarrow> limb \<Rightarrow> limb option" where
  "window_loop 0 e pos i v = Some v"
| "window_loop (Suc k) e pos i v = do { b \<leftarrow> c68k_bit e (pos - i); window_loop k e pos (i + 1) (push_bit 1 v OR b) }"

primrec sqr_times :: "nat \<Rightarrow> nat \<Rightarrow> limb list \<Rightarrow> limb \<Rightarrow> limb list \<Rightarrow> limb list \<Rightarrow> (limb list \<times> limb list) option" where
  "sqr_times 0 kl m n0inv acc work = Some (acc, work)"
| "sqr_times (Suc k) kl m n0inv acc work = do {
     (acc, work) \<leftarrow> c68k_mont_sqr kl acc acc m n0inv work;
     sqr_times k kl m n0inv acc work
   }"

lemma find_low_bound: "find_low e low = Some r \<Longrightarrow> c68k_bit e p = Some b \<Longrightarrow> b \<noteq> 0 \<Longrightarrow> low \<le> p \<Longrightarrow> low \<le> r \<and> r \<le> p"
proof (induction e low rule: find_low.induct)
  case (1 e low)
  obtain b' where b': "c68k_bit e low = Some b'" using 1(2) by (subst (asm) find_low.simps) (cases "c68k_bit e low", auto)
  show ?case
  proof (cases "b' = 0")
    case True
    then have "find_low e (low + 1) = Some r" using 1(2) b' by (subst (asm) find_low.simps) simp
    moreover have "low \<noteq> p" using True b' 1(3,4) by auto
    ultimately show ?thesis using 1(1) [OF b' True] 1(3,4,5) by auto
  next
    case False
    then have "r = low" using 1(2) b' by (subst (asm) find_low.simps) simp
    then show ?thesis using 1(5) by simp
  qed
qed

text \<open>\<^verbatim>\<open>while (pos >= 0)\<close>, with \<open>k = pos + 1\<close> bits left.\<close>

function scan :: "nat \<Rightarrow> limb list \<Rightarrow> limb list \<Rightarrow> limb \<Rightarrow> nat \<Rightarrow> limb list \<Rightarrow> nat \<Rightarrow> bool \<Rightarrow> limb list \<Rightarrow> limb list \<Rightarrow>
    (limb list \<times> limb list) option" where
  "scan kl e m n0inv w table k started acc work =
     (if k = 0 then Some (acc, work)
      else let pos = k - 1 in do {
        b \<leftarrow> c68k_bit e pos;
        if b = 0 then do {
          (acc, work) \<leftarrow> (if started then c68k_mont_sqr kl acc acc m n0inv work else Some (acc, work));
          scan kl e m n0inv w table pos started acc work
        } else do {
          low \<leftarrow> find_low e (pos - (w - 1));
          let window_len = pos - low + 1;
          v \<leftarrow> window_loop window_len e pos 0 0;
          entry \<leftarrow> rd_range table (unat (drop_bit 1 (v - 1)) * length m) (length m);
          (acc, work) \<leftarrow>
            (if \<not> started then Some (entry, work)
             else do {
               (acc, work) \<leftarrow> sqr_times window_len kl m n0inv acc work;
               c68k_mont_mul kl acc acc entry m n0inv work
             });
          scan kl e m n0inv w table low True acc work
        }
      })"
  by pat_completeness auto
termination
proof (relation "measure (\<lambda>(kl, e, m, n0inv, w, table, k, started, acc, work). k)", goal_cases)
  case 1
  then show ?case by simp
next
  case 2
  then show ?case by simp
next
  case (3 kl e m n0inv w table k started acc work pos b low)
  then have "low \<le> pos" using find_low_bound [of e "pos - (w - 1)" low pos b] by simp
  then show ?case using 3 by simp
qed

declare scan.simps [simp del]

definition c68k_mont_power_modulus ::
  "nat \<Rightarrow> huge_ops \<Rightarrow> bool \<Rightarrow> limb list \<Rightarrow> limb list \<Rightarrow> limb list \<Rightarrow> limb list \<Rightarrow> limb list \<Rightarrow> (powm_status \<times> limb list) option" where
  "c68k_mont_power_modulus kl hn fast result x e m scratch =
     (let n = length m; scratch_limbs = length scratch in
      if n = 0 \<or> hd m AND 1 = 0 \<or> n < length x then Some (NX_CRYPTO_NOT_SUCCESSFUL, result)
      else
        let bits = c68k_bitlen e;
            w = pick_window n scratch_limbs (min (c68k_window_for bits) 6) in
        if scratch_limbs < C68K_POWM_SCRATCH_LIMBS n 1 then Some (NX_CRYPTO_SIZE_ERROR, result)
        else do {
          let table_size = 2 ^ (w - 1);
          let work = take (8 * n + 2) (drop (5 * n) scratch);
          let setup = take (7 * n + 8) (drop (13 * n + 2) scratch);
          let table = drop (20 * n + 10) scratch;
          let n0inv = c68k_mont_n0inv (hd m);
          rr \<leftarrow> c68k_mont_setup_rr hn fast m setup;
          xpad \<leftarrow> c68k_copy (c68k_zero n) x;
          let one = 1 # c68k_zero (n - 1);
          (xm, work) \<leftarrow> c68k_mont_mul kl (take n scratch) xpad rr m n0inv work;
          if bits = 0 then Some (NX_CRYPTO_SUCCESS, if 0 \<le> c68k_cmp one m then c68k_zero n else one)
          else do {
            table \<leftarrow> wr_range table 0 xm;
            let acc = take n (drop n scratch);
            (acc, table, work) \<leftarrow>
              (if 1 < table_size then do {
                 (acc, work) \<leftarrow> c68k_mont_sqr kl acc xm m n0inv work;
                 (table, work) \<leftarrow> odd_powers (table_size - 1) 1 kl acc m n0inv table work;
                 Some (acc, table, work)
               } else Some (acc, table, work));
            (acc, work) \<leftarrow> scan kl e m n0inv w table bits False acc work;
            (result, work) \<leftarrow> c68k_mont_mul kl result acc one m n0inv work;
            Some (NX_CRYPTO_SUCCESS, result)
          }
        })"

text \<open>The entry with the vendored routine's shape; \<open>result\<close> is the result's buffer before the call.\<close>

definition c68k_huge_number_mont_power_modulus ::
  "nat \<Rightarrow> huge_ops \<Rightarrow> bool \<Rightarrow> limb list \<Rightarrow> limb list \<Rightarrow> limb list \<Rightarrow> limb list \<Rightarrow> limb list \<Rightarrow> limb list option" where
  "c68k_huge_number_mont_power_modulus kl hn fast result x e m scratch = do {
     let x = adjust_size hn x;
     let e = adjust_size hn e;
     let m = adjust_size hn m;
     (status, r) \<leftarrow> c68k_mont_power_modulus kl hn fast result x e m scratch;
     if status \<noteq> NX_CRYPTO_SUCCESS then Some (mont_power_modulus hn x e m)
     else Some (adjust_size hn r)
   }"

end
