(* ===== verification/Big_Exp.thy ===== *)
theory Big_Exp
  imports Big_Powm
begin

text \<open>
  The exponentiation of \<^verbatim>\<open>c68k_powm.c\<close> returns the power: the bits and windows it reads are those of the
  exponent's value, the operands stay Montgomery residues, and the accumulator holds the power of the
  exponent's bits read so far.
\<close>

section \<open>The bits of the exponent\<close>

lemma lval_div_limbs: "k \<le> length e \<Longrightarrow> lval e div 2 ^ (32 * k) = lval (drop k e)"
proof -
  assume k: "k \<le> length e"
  have pw: "(2 :: nat) ^ (32 * k) = B32 ^ k" by (simp add: power_mult)
  have "lval (take k e) < B32 ^ k" using k by (intro lval_less_n) simp
  then show ?thesis unfolding pw lval_split [OF k] by simp
qed

lemma bit_val:
  assumes "i < 32 * length e"
  shows "c68k_bit e i = Some (if odd (lval e div 2 ^ i) then 1 else 0)"
proof -
  define k r where "k = i div 32" and "r = i mod 32"
  have kr: "i = 32 * k + r" "r < 32" "k < length e" using assms by (auto simp: k_def r_def)
  define l where "l = e ! k"
  have "lval e div 2 ^ i = lval (drop k e) div 2 ^ r"
    using lval_div_limbs [of k e] kr by (simp add: power_add div_mult2_eq)
  also have "lval (drop k e) = unat l + 2 ^ r * (2 ^ (32 - r) * lval (drop (Suc k) e))"
  proof -
    have "drop k e = l # drop (Suc k) e" using kr by (simp add: l_def Cons_nth_drop_Suc)
    moreover have "B32 = (2 :: nat) ^ r * 2 ^ (32 - r)" using kr(2) by (simp flip: power_add)
    ultimately show ?thesis by (metis lval.simps(2) mult.assoc)
  qed
  also have "\<dots> div 2 ^ r = 2 ^ (32 - r) * lval (drop (Suc k) e) + unat l div 2 ^ r" by simp
  finally have "odd (lval e div 2 ^ i) \<longleftrightarrow> odd (unat l div 2 ^ r)" using kr(2) by simp
  also have "\<dots> \<longleftrightarrow> bit (unat l) r" by (rule bit_iff_odd [symmetric])
  also have "\<dots> \<longleftrightarrow> bit l r" using kr(2) by (simp add: bit_unsigned_iff)
  also have "\<dots> \<longleftrightarrow> odd (drop_bit r l)" by (simp add: bit_iff_odd_drop_bit)
  finally have odd: "odd (lval e div 2 ^ i) \<longleftrightarrow> odd (drop_bit r l)" .
  have "drop_bit r l AND 1 = (if odd (drop_bit r l) then 1 else 0)" by (simp add: and_one_eq mod_2_eq_odd)
  then show ?thesis using kr odd by (simp add: c68k_bit_def k_def [symmetric] r_def [symmetric] l_def)
qed

lemma limb_bits_val: "unat l < 2 ^ i \<Longrightarrow> unat l < 2 ^ limb_bits i l \<and> limb_bits i l \<le> i"
proof (induction i arbitrary: l)
  case 0
  then show ?case by simp
next
  case (Suc i)
  have d: "unat (drop_bit 1 l) = unat l div 2" using unat_drop [of 1 l] by simp
  then have "unat (drop_bit 1 l) < 2 ^ i" using Suc.prems by simp
  from Suc.IH [OF this] show ?case unfolding d by auto
qed

lemma bitlen_val: "lval e < 2 ^ c68k_bitlen e" "c68k_bitlen e \<le> 32 * length e" "c68k_bitlen e = 0 \<longleftrightarrow> lval e = 0"
proof -
  define z where "z = takeWhile (\<lambda>l. l = 0) (rev e)"
  have z: "lval (rev z) = 0"
  proof -
    have "\<forall>l\<in>set z. l = 0" using set_takeWhileD by (fastforce simp: z_def)
    then have "z = replicate (length z) 0" by (metis replicate_length_same)
    then show ?thesis by (metis lval_zeros rev_replicate)
  qed
  have rev: "rev e = z @ dropWhile (\<lambda>l. l = 0) (rev e)" by (simp add: z_def)
  have "lval e < 2 ^ c68k_bitlen e \<and> c68k_bitlen e \<le> 32 * length e \<and> (c68k_bitlen e = 0 \<longleftrightarrow> lval e = 0)"
  proof (cases "dropWhile (\<lambda>l. l = 0) (rev e)")
    case Nil
    then have "lval e = 0" using rev z by (metis append_Nil2 rev_rev_ident)
    moreover have "c68k_bitlen e = 0" unfolding c68k_bitlen_def Nil by (simp only: list.case)
    ultimately show ?thesis by simp
  next
    case (Cons l ls)
    then have l0: "l \<noteq> 0" using hd_dropWhile [of "\<lambda>l. l = 0" "rev e"] by simp
    define k b where "k = length ls" and "b = limb_bits 32 l"
    have e: "e = rev ls @ [l] @ rev z" using arg_cong [OF rev, of rev] Cons by simp
    have v: "lval e = lval (rev ls) + B32 ^ k * unat l" unfolding e using z by (simp add: lval_append k_def)
    have bl: "c68k_bitlen e = 32 * k + b" using Cons by (simp add: c68k_bitlen_def k_def b_def)
    have lb: "unat l < 2 ^ b" "b \<le> 32" using limb_bits_val [of l 32] unat_lt_32 [of l] by (simp_all add: b_def)
    have "lval (rev ls) < B32 ^ k" using lval_less [of "rev ls"] by (simp add: k_def)
    moreover have "B32 ^ k * (unat l + 1) \<le> B32 ^ k * 2 ^ b" using lb(1) by (intro mult_le_mono2) simp
    moreover have "B32 ^ k * 2 ^ b = 2 ^ c68k_bitlen e" unfolding bl by (simp add: power_add power_mult)
    ultimately have "lval e < 2 ^ c68k_bitlen e" unfolding v by simp
    moreover have "0 < unat l" using l0 by (simp add: unat_gt_0)
    then have "lval e \<noteq> 0" "b \<noteq> 0" using v lb(1) by (auto intro: ccontr)
    moreover have "32 * k + b \<le> 32 * length e" using lb(2) e by (simp add: k_def)
    ultimately show ?thesis using bl by simp
  qed
  then show "lval e < 2 ^ c68k_bitlen e" "c68k_bitlen e \<le> 32 * length e" "c68k_bitlen e = 0 \<longleftrightarrow> lval e = 0" by blast+
qed

section \<open>A window\<close>

lemma find_low_val:
  assumes "p < 32 * length e" and "odd (lval e div 2 ^ p)" and "low \<le> p"
  obtains r where "find_low e low = Some r" and "low \<le> r" and "r \<le> p" and "odd (lval e div 2 ^ r)"
proof -
  have "\<exists>r. find_low e low = Some r \<and> low \<le> r \<and> r \<le> p \<and> odd (lval e div 2 ^ r)"
    using assms(3)
  proof (induction "p - low" arbitrary: low)
    case 0
    then have "low = p" by simp
    then show ?case using bit_val [OF assms(1)] assms(2) by (subst find_low.simps) simp
  next
    case (Suc d)
    have bit: "c68k_bit e low = Some (if odd (lval e div 2 ^ low) then 1 else 0)" using Suc.prems assms(1) by (intro bit_val) simp
    show ?case
    proof (cases "odd (lval e div 2 ^ low)")
      case True
      then show ?thesis using bit Suc.prems by (subst find_low.simps) simp
    next
      case False
      then have "find_low e low = find_low e (low + 1)" using bit by (subst find_low.simps) simp
      moreover have "d = p - (low + 1)" "low + 1 \<le> p" using Suc.hyps(2) by simp_all
      ultimately show ?thesis using Suc.hyps(1) [of "low + 1"] by fastforce
    qed
  qed
  then show thesis using that by blast
qed

lemma window_loop_val:
  assumes "pos < 32 * length e"
  shows "i + k \<le> pos + 1 \<Longrightarrow> unat v < 2 ^ i \<Longrightarrow> i + k \<le> 32 \<Longrightarrow>
    \<exists>r. window_loop k e pos i v = Some r \<and> unat r = unat v * 2 ^ k + (lval e div 2 ^ (pos + 1 - (i + k))) mod 2 ^ k"
proof (induction k arbitrary: i v)
  case 0
  then show ?case by simp
next
  case (Suc k)
  define x where "x = lval e div 2 ^ (pos + 1 - (i + Suc k))"
  define b :: limb where "b = (if odd (lval e div 2 ^ (pos - i)) then 1 else 0)"
  define v' where "v' = push_bit 1 v OR b"
  have bit: "c68k_bit e (pos - i) = Some b" unfolding b_def using assms Suc.prems by (intro bit_val) simp
  have xk: "lval e div 2 ^ (pos - i) = x div 2 ^ k"
  proof -
    have "pos - i = (pos + 1 - (i + Suc k)) + k" using Suc.prems(1) by simp
    then show ?thesis by (simp only: power_add div_mult2_eq x_def)
  qed
  have b: "unat b = x div 2 ^ k mod 2" by (simp add: b_def xk mod_2_eq_odd)
  have v': "unat v' = 2 * unat v + unat b"
  proof -
    have "i \<le> 31" using Suc.prems(3) by simp
    then have "(2 :: nat) ^ i \<le> 2 ^ 31" by (rule power_increasing) simp
    then have lt: "unat v < 2 ^ 31" using Suc.prems(2) by simp
    have "unat b < 2 ^ 1" by (simp add: b_def)
    then have "unat v' = unat (push_bit 1 v + b)" by (simp only: v'_def or_is_add)
    also have "\<dots> = 2 * unat v + unat b"
      using unat_shift1 [OF lt] lt \<open>unat b < 2 ^ 1\<close> by (subst unat_add_nowrap) simp_all
    finally show ?thesis .
  qed
  have "unat v' < 2 ^ (i + 1)" using v' Suc.prems(2) by (simp add: b_def split: if_splits)
  then obtain r where r: "window_loop k e pos (i + 1) v' = Some r" "unat r = unat v' * 2 ^ k + x mod 2 ^ k"
    using Suc.IH [of "i + 1" v'] Suc.prems by (auto simp: x_def)
  have "x mod 2 ^ Suc k = 2 ^ k * (x div 2 ^ k mod 2) + x mod 2 ^ k" using mod_mult2_eq [of x "2 ^ k" 2] by (simp add: mult.commute)
  then have "unat r = unat v * 2 ^ Suc k + x mod 2 ^ Suc k" using r(2) unfolding v' b by (simp add: algebra_simps)
  then show ?case using r(1) bit by (simp add: v'_def x_def)
qed

section \<open>Montgomery residues\<close>

definition mres :: "limb list \<Rightarrow> nat \<Rightarrow> nat" where
  "mres m a = a * B32 ^ length m mod lval m"

definition is_res :: "limb list \<Rightarrow> nat \<Rightarrow> limb list \<Rightarrow> bool" where
  "is_res m a t \<longleftrightarrow> length t = length m \<and> lval t = mres m a"

lemma radix_cancel:
  assumes "odd M" and "r * B32 ^ n mod M = z * B32 ^ n mod (M :: nat)"
  shows "r mod M = z mod M"
proof -
  have "(B32 :: nat) ^ n = 2 ^ (32 * n)" by (simp add: power_mult)
  then have cop: "coprime M (B32 ^ n)" using assms(1) by (simp only: coprime_power_right_iff coprime_right_2_iff_odd simp_thms)
  have "int r * int (B32 ^ n) mod int M = int z * int (B32 ^ n) mod int M"
    using assms(2) by (metis of_nat_mult zmod_int)
  then have "int M dvd (int r - int z) * int (B32 ^ n)" by (simp add: mod_eq_dvd_iff left_diff_distrib)
  moreover have "coprime (int M) (int (B32 ^ n))" using cop by (simp only: coprime_int_iff)
  ultimately have "int M dvd int r - int z" by (simp only: coprime_dvd_mult_left_iff)
  then have "int r mod int M = int z mod int M" by (simp add: mod_eq_dvd_iff)
  then show ?thesis by (metis of_nat_eq_iff zmod_int)
qed

lemma mres_mult: "mres m a * mres m b mod lval m = mres m (a * b) * B32 ^ length m mod lval m"
proof -
  have "mres m a * mres m b mod lval m = (a * B32 ^ length m) * (b * B32 ^ length m) mod lval m"
    by (simp only: mres_def mod_mult_eq)
  also have "\<dots> = (a * b * B32 ^ length m) * B32 ^ length m mod lval m" by (simp only: ac_simps)
  finally show ?thesis by (simp only: mres_def mod_mult_left_eq)
qed

text \<open>A modulus, and a work area that is wide enough.\<close>

definition powm_setting :: "limb list \<Rightarrow> limb list \<Rightarrow> bool" where
  "powm_setting m work \<longleftrightarrow> odd (lval m) \<and> 8 * length m + 1 \<le> length work"

lemma mont_mul_res:
  assumes "powm_setting m work" and "is_res m a x" and "is_res m b y"
  obtains r' work' where "c68k_mont_mul kl r x y m (c68k_mont_n0inv (hd m)) work = Some (r', work')" and "powm_setting m work'"
    and "is_res m (a * b) r'"
proof -
  have odd: "odd (lval m)" and w: "8 * length m + 1 \<le> length work" using assms(1) by (simp_all add: powm_setting_def)
  have m0: "0 < lval m" using odd by (simp add: odd_pos)
  have len: "length x = length m" "length y = length m" and v: "lval x = mres m a" "lval y = mres m b"
    using assms(2,3) by (simp_all add: is_res_def)
  have "lval x * lval y < B32 ^ length m * lval m"
    using lval_less_n [OF len(1)] v(2) m0 by (intro mult_strict_mono) (simp_all add: mres_def)
  from mont_mul_val [OF odd len this w, where kl = kl and r = r] obtain r' work' where
    R: "c68k_mont_mul kl r x y m (c68k_mont_n0inv (hd m)) work = Some (r', work')" "length r' = length m"
      "length work' = length work" "lval r' < lval m" "lval r' * B32 ^ length m mod lval m = lval x * lval y mod lval m" by blast
  have "lval r' * B32 ^ length m mod lval m = mres m (a * b) * B32 ^ length m mod lval m" unfolding R(5) v by (rule mres_mult)
  from radix_cancel [OF odd this] have "is_res m (a * b) r'" using R(2,4) by (simp add: is_res_def mres_def)
  then show thesis using that R(1,3) assms(1) by (simp add: powm_setting_def)
qed

lemma mont_sqr_res:
  assumes "powm_setting m work" and "is_res m a x"
  obtains r' work' where "c68k_mont_sqr kl r x m (c68k_mont_n0inv (hd m)) work = Some (r', work')" and "powm_setting m work'"
    and "is_res m (a * a) r'"
proof -
  have odd: "odd (lval m)" and w: "8 * length m + 1 \<le> length work" using assms(1) by (simp_all add: powm_setting_def)
  have m0: "0 < lval m" using odd by (simp add: odd_pos)
  have len: "length x = length m" and v: "lval x = mres m a" using assms(2) by (simp_all add: is_res_def)
  have "lval x < lval m" using v m0 by (simp add: mres_def)
  from mont_sqr_val [OF odd len this w, where kl = kl and r = r] obtain r' work' where
    R: "c68k_mont_sqr kl r x m (c68k_mont_n0inv (hd m)) work = Some (r', work')" "length r' = length m"
      "length work' = length work" "lval r' < lval m" "lval r' * B32 ^ length m mod lval m = (lval x)\<^sup>2 mod lval m" by blast
  have "lval r' * B32 ^ length m mod lval m = mres m (a * a) * B32 ^ length m mod lval m"
    unfolding R(5) v power2_eq_square by (rule mres_mult)
  from radix_cancel [OF odd this] have "is_res m (a * a) r'" using R(2,4) by (simp add: is_res_def mres_def)
  then show thesis using that R(1,3) assms(1) by (simp add: powm_setting_def)
qed

lemma sqr_times_res:
  assumes "powm_setting m work" and "is_res m a acc"
  shows "\<exists>acc' work'. sqr_times k kl m (c68k_mont_n0inv (hd m)) acc work = Some (acc', work') \<and> powm_setting m work' \<and>
    is_res m (a ^ (2 ^ k)) acc'"
  using assms
proof (induction k arbitrary: a acc work)
  case 0
  then show ?case by simp
next
  case (Suc k)
  obtain acc1 work1 where s: "c68k_mont_sqr kl acc acc m (c68k_mont_n0inv (hd m)) work = Some (acc1, work1)"
      "powm_setting m work1" "is_res m (a * a) acc1"
    using mont_sqr_res [OF Suc.prems] by blast
  have "(a * a) ^ (2 ^ k) = a ^ (2 ^ Suc k)" by (simp add: power_mult power2_eq_square)
  then show ?case using Suc.IH [OF s(2,3)] s(1) by simp
qed

section \<open>The table of odd powers\<close>

definition table_ok :: "limb list \<Rightarrow> nat \<Rightarrow> nat \<Rightarrow> limb list \<Rightarrow> bool" where
  "table_ok m a ts table \<longleftrightarrow> ts * length m \<le> length table \<and>
     (\<forall>k<ts. is_res m (a ^ (2 * k + 1)) (take (length m) (drop (k * length m) table)))"

lemma table_okD:
  "table_ok m a ts table \<Longrightarrow> k < ts \<Longrightarrow>
   \<exists>t. rd_range table (k * length m) (length m) = Some t \<and> is_res m (a ^ (2 * k + 1)) t"
proof -
  assume t: "table_ok m a ts table" "k < ts"
  have "Suc k * length m \<le> ts * length m" using t(2) by (intro mult_le_mono1) simp
  then have "k * length m + length m \<le> length table" using t(1) by (simp add: table_ok_def)
  then show ?thesis using t by (simp add: table_ok_def)
qed

lemma table_ok_Suc:
  assumes "table_ok m a ts table" and "Suc ts * length m \<le> length table" and "is_res m (a ^ (2 * ts + 1)) t"
  obtains table' where "wr_range table (ts * length m) t = Some table'" and "length table' = length table" and "table_ok m a (Suc ts) table'"
proof -
  define n where "n = length m"
  have lt: "length t = n" using assms(3) by (simp add: is_res_def n_def)
  define table' where "table' = take (ts * n) table @ t @ drop (ts * n + n) table"
  have run: "wr_range table (ts * length m) t = Some table'" "length table' = length table"
    using assms(2) lt by (simp_all add: wr_range_def table'_def n_def)
  have "is_res m (a ^ (2 * k + 1)) (take n (drop (k * n) table'))" if k: "k < Suc ts" for k
  proof (cases "k = ts")
    case True
    then have "take n (drop (k * n) table') = t" using assms(2) lt by (simp add: table'_def n_def)
    then show ?thesis using assms(3) True by simp
  next
    case False
    then have "Suc k * n \<le> ts * n" using k by (intro mult_le_mono1) simp
    then have kn: "k * n + n \<le> ts * n" by simp
    have "drop (k * n) table' = take (ts * n - k * n) (drop (k * n) table) @ t @ drop (ts * n + n) table"
    proof -
      have "k * n \<le> ts * n" using kn by linarith
      then have "length (take (ts * n) table) = ts * n" "k * n - ts * n = 0" using assms(2) by (simp_all add: n_def)
      then show ?thesis unfolding table'_def by (simp only: drop_append drop_take drop_0 diff_0_eq_0)
    qed
    moreover have "n \<le> length (take (ts * n - k * n) (drop (k * n) table))" using assms(2) kn by (simp add: n_def)
    ultimately have "take n (drop (k * n) table') = take n (take (ts * n - k * n) (drop (k * n) table))" by simp
    also have "\<dots> = take n (drop (k * n) table)" using kn by (simp add: min_def)
    finally have "take n (drop (k * n) table') = take n (drop (k * n) table)" .
    then show ?thesis using assms(1) False k by (simp add: table_ok_def n_def)
  qed
  then show thesis using that run assms(2) by (simp add: table_ok_def n_def)
qed

lemma odd_powers_val:
  assumes "is_res m (a * a) acc" and "powm_setting m work" and "table_ok m a i table" and "1 \<le> i" and "(i + k) * length m \<le> length table"
  shows "\<exists>table' work'. odd_powers k i kl acc m (c68k_mont_n0inv (hd m)) table work = Some (table', work') \<and>
    powm_setting m work' \<and> table_ok m a (i + k) table' \<and> length table' = length table"
  using assms(2-5)
proof (induction k arbitrary: i table work)
  case 0
  then show ?case by simp
next
  case (Suc k)
  obtain j where j: "i = Suc j" using Suc.prems(3) by (cases i) simp_all
  obtain prev where prev: "rd_range table ((i - 1) * length m) (length m) = Some prev" "is_res m (a ^ (2 * j + 1)) prev"
    using table_okD [OF Suc.prems(2), of j] j by auto
  have "Suc i * length m \<le> (i + Suc k) * length m" by (intro mult_le_mono1) simp
  from order_trans [OF this Suc.prems(4)] have fits: "Suc i * length m \<le> length table" .
  obtain here where here: "rd_range table (i * length m) (length m) = Some here" using fits by (simp add: add.commute)
  obtain t work1 where t: "c68k_mont_mul kl here prev acc m (c68k_mont_n0inv (hd m)) work = Some (t, work1)" "powm_setting m work1"
      "is_res m (a ^ (2 * j + 1) * (a * a)) t"
    using mont_mul_res [OF Suc.prems(1) prev(2) assms(1), where kl = kl and r = here] by blast
  have "is_res m (a ^ (2 * i + 1)) t" using t(3) j by (simp add: ac_simps)
  from table_ok_Suc [OF Suc.prems(2) fits this] obtain table1 where
    t1: "wr_range table (i * length m) t = Some table1" "length table1 = length table" "table_ok m a (Suc i) table1" by blast
  have "\<exists>table' work'. odd_powers k (i + 1) kl acc m (c68k_mont_n0inv (hd m)) table1 work1 = Some (table', work') \<and>
      powm_setting m work' \<and> table_ok m a (i + 1 + k) table' \<and> length table' = length table1"
    using Suc.IH [of work1 "i + 1" table1] t(2) t1 Suc.prems(4) by simp
  then show ?case using prev(1) here t(1) t1 by auto
qed

section \<open>The scan\<close>

lemma window_split: "E div 2 ^ low = (E div 2 ^ (low + len)) * 2 ^ len + E div 2 ^ low mod 2 ^ len" for E :: nat
  unfolding power_add div_mult2_eq by (rule div_mult_mod_eq [symmetric])

text \<open>A window is odd and no wider than the table.\<close>

lemma scan_window:
  assumes "pos < 32 * length e" and "odd (lval e div 2 ^ pos)" and "1 \<le> w" and "w \<le> 32"
  obtains low v j where "find_low e (pos - (w - 1)) = Some low" and "low \<le> pos" and "window_loop (pos - low + 1) e pos 0 0 = Some v"
    and "unat (drop_bit 1 (v - 1)) = j" and "j < 2 ^ (w - 1)"
    and "lval e div 2 ^ low = (lval e div 2 ^ Suc pos) * 2 ^ (pos - low + 1) + (2 * j + 1)"
proof -
  obtain low where low: "find_low e (pos - (w - 1)) = Some low" "pos - (w - 1) \<le> low" "low \<le> pos" "odd (lval e div 2 ^ low)"
    using find_low_val [OF assms(1,2), of "pos - (w - 1)"] by auto
  define l where "l = pos - low + 1"
  have l: "1 \<le> l" "l \<le> w" "low + l = Suc pos" using low(2,3) assms(3) by (simp_all add: l_def)
  define x where "x = lval e div 2 ^ low mod 2 ^ l"
  obtain v where v: "window_loop l e pos 0 0 = Some v" "unat v = x"
  proof -
    have "Suc pos - l = low" using l(3) by simp
    then show thesis using that window_loop_val [OF assms(1), of 0 l 0] l assms(4) by (auto simp: x_def)
  qed
  have "odd x" using low(4) l(1) by (simp add: x_def dvd_mod_iff)
  then obtain j where j: "x = 2 * j + 1" by (rule oddE)
  have "x < 2 ^ l" by (simp add: x_def)
  also have "(2 :: nat) ^ l \<le> 2 ^ w" using l(2) by (rule power_increasing) simp
  finally have "2 * j + 1 < 2 * 2 ^ (w - 1)" using j assms(3) by (simp flip: power_Suc)
  then have jlt: "j < 2 ^ (w - 1)" by simp
  have "unat (v - 1) = 2 * j" using v(2) j by (simp add: unat_sub word_le_nat_alt)
  then have "unat (drop_bit 1 (v - 1)) = j" using unat_drop [of 1 "v - 1"] by simp
  moreover have "lval e div 2 ^ low = (lval e div 2 ^ Suc pos) * 2 ^ l + (2 * j + 1)"
    using window_split [of "lval e" low l] unfolding l(3) x_def [symmetric] j .
  ultimately show thesis using that [of low v j] low v(1) jlt by (simp add: l_def)
qed

lemma scan_val:
  assumes "powm_setting m work" and "table_ok m a (2 ^ (w - 1)) table" and "1 \<le> w" and "w \<le> 32" and "k \<le> 32 * length e"
    and "if started then is_res m (a ^ (lval e div 2 ^ k)) acc else lval e div 2 ^ k = 0"
  shows "\<exists>acc' work'. scan kl e m (c68k_mont_n0inv (hd m)) w table k started acc work = Some (acc', work') \<and>
    powm_setting m work' \<and> (started \<or> lval e \<noteq> 0 \<longrightarrow> is_res m (a ^ lval e) acc')"
  using assms(1,5,6)
proof (induction k arbitrary: started acc work rule: less_induct)
  case (less k)
  define ni where "ni = c68k_mont_n0inv (hd m)"
  define E where "E = lval e"
  show ?case
  proof (cases "k = 0")
    case True
    then have "scan kl e m ni w table k started acc work = Some (acc, work)" by (subst scan.simps) simp
    then show ?thesis using less.prems True by (auto simp: ni_def split: if_splits)
  next
    case False
    then obtain pos where pos: "k = Suc pos" by (cases k) auto
    have pl: "pos < 32 * length e" using less.prems(2) pos by simp
    have bit: "c68k_bit e pos = Some (if odd (E div 2 ^ pos) then 1 else 0)" unfolding E_def by (rule bit_val [OF pl])
    show ?thesis
    proof (cases "odd (E div 2 ^ pos)")
      case even: False
      have dbl: "E div 2 ^ pos = 2 * (E div 2 ^ k)" using even unfolding pos power_Suc2 div_mult2_eq by simp
      obtain acc1 work1 where s: "(if started then c68k_mont_sqr kl acc acc m ni work else Some (acc, work)) = Some (acc1, work1)"
          "powm_setting m work1" "if started then is_res m (a ^ (E div 2 ^ pos)) acc1 else E div 2 ^ pos = 0"
      proof (cases started)
        case True
        then have "is_res m (a ^ (E div 2 ^ k)) acc" using less.prems(3) by (simp add: E_def)
        from mont_sqr_res [OF less.prems(1) this, where kl = kl and r = acc] obtain acc1 work1 where
          "c68k_mont_sqr kl acc acc m ni work = Some (acc1, work1)" "powm_setting m work1" "is_res m (a ^ (E div 2 ^ k) * a ^ (E div 2 ^ k)) acc1"
          unfolding ni_def by blast
        then show thesis using that True by (simp add: dbl mult_2 power_add)
      next
        case False
        then show thesis using that less.prems(1,3) dbl by (simp add: E_def)
      qed
      have "scan kl e m ni w table k started acc work = scan kl e m ni w table pos started acc1 work1"
        using pos bit even s(1) by (subst scan.simps) (simp only: Let_def nat.simps diff_Suc_1 if_False if_True bind.bind_lunit prod.case simp_thms)
      moreover have "pos < k" "pos \<le> 32 * length e" using pos pl by simp_all
      ultimately show ?thesis using less.IH [OF _ s(2) _ s(3) [unfolded E_def]] by (simp only: ni_def)
    next
      case odd: True
      then have "odd (lval e div 2 ^ pos)" by (simp add: E_def)
      from scan_window [OF pl this assms(3,4)] obtain low v j where
        W: "find_low e (pos - (w - 1)) = Some low" "low \<le> pos" "window_loop (pos - low + 1) e pos 0 0 = Some v"
          "unat (drop_bit 1 (v - 1)) = j" "j < 2 ^ (w - 1)" "E div 2 ^ low = (E div 2 ^ k) * 2 ^ (pos - low + 1) + (2 * j + 1)"
        unfolding pos E_def by blast
      define l where "l = pos - low + 1"
      obtain entry where entry: "rd_range table (j * length m) (length m) = Some entry" "is_res m (a ^ (2 * j + 1)) entry"
        using table_okD [OF assms(2) W(5)] by blast
      obtain acc1 work1 where s: "(if \<not> started then Some (entry, work)
            else do { (acc, work) \<leftarrow> sqr_times l kl m ni acc work; c68k_mont_mul kl acc acc entry m ni work }) = Some (acc1, work1)"
          "powm_setting m work1" "is_res m (a ^ (E div 2 ^ low)) acc1"
      proof (cases started)
        case True
        then have "is_res m (a ^ (E div 2 ^ k)) acc" using less.prems(3) by (simp add: E_def)
        from sqr_times_res [OF less.prems(1) this, of l kl] obtain acc2 work2 where
          S: "sqr_times l kl m ni acc work = Some (acc2, work2)" "powm_setting m work2" "is_res m ((a ^ (E div 2 ^ k)) ^ (2 ^ l)) acc2"
          unfolding ni_def by blast
        from mont_mul_res [OF S(2,3) entry(2), where kl = kl and r = acc2] obtain acc1 work1 where
          M: "c68k_mont_mul kl acc2 acc2 entry m ni work2 = Some (acc1, work1)" "powm_setting m work1"
            "is_res m ((a ^ (E div 2 ^ k)) ^ (2 ^ l) * a ^ (2 * j + 1)) acc1"
          unfolding ni_def by blast
        moreover have "(a ^ (E div 2 ^ k)) ^ (2 ^ l) * a ^ (2 * j + 1) = a ^ (E div 2 ^ low)"
          unfolding W(6) l_def by (simp only: power_add power_mult)
        ultimately show thesis using that True S(1) by simp
      next
        case False
        then show thesis using that less.prems(1,3) W(6) entry(2) by (simp add: E_def)
      qed
      have "scan kl e m ni w table k started acc work = scan kl e m ni w table low True acc1 work1"
        using pos bit odd W(1,3,4) entry(1) s(1)
        by (subst scan.simps)
           (simp only: Let_def nat.simps diff_Suc_1 if_False if_True bind.bind_lunit prod.case simp_thms one_neq_zero l_def)
      moreover have "low < k" "low \<le> 32 * length e" using W(2) pos pl by simp_all
      moreover have "E \<noteq> 0" using odd by (intro notI) simp
      ultimately show ?thesis using less.IH [of low work1 True acc1] s(2,3) by (simp add: ni_def E_def)
    qed
  qed
qed

section \<open>The radix squared\<close>

text \<open>What is relied on of the vendored routines: each computes what it is named for, on values, and no wider than it must.\<close>

definition huge_ok :: "huge_ops \<Rightarrow> bool" where
  "huge_ok hn \<longleftrightarrow>
     (\<forall>x. lval (adjust_size hn x) = lval x \<and> length (adjust_size hn x) \<le> length x \<and>
          (length (adjust_size hn x) \<le> 1 \<or> last (adjust_size hn x) \<noteq> 0)) \<and>
     (\<forall>x. lval (square hn x) = (lval x)\<^sup>2 \<and> length (square hn x) \<le> 2 * length x) \<and>
     (\<forall>x m. lval m \<noteq> 0 \<longrightarrow> lval (modulus hn x m) = lval x mod lval m \<and> length (modulus hn x m) \<le> length m)"

lemma wr_range_fits: "off + length ys \<le> length xs \<Longrightarrow> \<exists>zs. wr_range xs off ys = Some zs \<and> length zs = length xs"
  by (simp add: wr_range_def)

lemma setup_rr_val:
  assumes hn: "huge_ok hn" and m: "m \<noteq> []" "last m \<noteq> 0" and wide: "4 * length m + 3 \<le> length setup"
  obtains rr where "c68k_mont_setup_rr hn fast m setup = Some rr" and "length rr = length m"
    and "lval rr = B32 ^ length m * B32 ^ length m mod lval m"
proof -
  define n where "n = length m"
  define R where "R = B32 ^ n"
  define M where "M = lval m"
  define temp :: "limb list" where "temp = c68k_zero n @ [1]"
  have temp: "length temp = n + 1" "lval temp = R" by (simp_all add: temp_def c68k_zero_def lval_append R_def)
  have m0: "M \<noteq> 0" using lval_last [OF m] by (intro notI) (simp add: M_def)
  have sq: "lval (square hn x) = (lval x)\<^sup>2" "length (square hn x) \<le> 2 * length x" for x using hn by (simp_all add: huge_ok_def)
  have adj: "lval (adjust_size hn x) = lval x" "length (adjust_size hn x) \<le> length x" for x using hn by (simp_all add: huge_ok_def)
  have RR: "(R mod M)\<^sup>2 mod M = R * R mod M" by (simp add: power2_eq_square mod_mult_eq)
  have ls: "\<not> length setup < n + 1" using wide by (simp add: n_def)
  show thesis
  proof (cases fast)
    case True
    have "length temp + length m + 1 \<le> length (drop (n + 1) setup)" using temp wide by (simp add: n_def)
    then obtain t1 area where t1: "c68k_mod temp m (drop (n + 1) setup) = Some (t1, area)" "length t1 = n"
        "length area = length setup - (n + 1)" "lval t1 = R mod M"
      using mod_val [OF m, of temp "drop (n + 1) setup"] temp by (auto simp: n_def M_def)
    define s where "s = square hn (adjust_size hn t1)"
    have s: "lval s = (R mod M)\<^sup>2" "length s \<le> 2 * n"
      using sq [of "adjust_size hn t1"] adj [of t1] t1 by (simp_all add: s_def)
    define z where "z = replicate (2 * n - length s) (0 :: limb)"
    define a1 where "a1 = s @ drop (length s) area"
    define a2 where "a2 = s @ z @ drop (2 * n) area"
    have la: "2 * n \<le> length area" using t1(3) wide by (simp add: n_def)
    have wr: "wr_range area 0 s = Some a1" "wr_range a1 (length s) z = Some a2"
      using s(2) la by (simp_all add: wr_range_def a1_def a2_def z_def)
    have rd: "rd_range a2 0 (2 * n) = Some (s @ z)" using s(2) la by (simp add: rd_range_def a2_def z_def)
    have "length (s @ z) + length m + 1 \<le> length a2" using s(2) la wide t1(3) by (simp add: a2_def z_def n_def)
    then obtain rr a3 where rr: "c68k_mod (s @ z) m a2 = Some (rr, a3)" "length rr = n" "lval rr = lval (s @ z) mod M"
      using mod_val [OF m, of "s @ z" a2] unfolding n_def M_def by blast
    have "c68k_mont_setup_rr hn fast m setup = Some rr"
      using True ls by (simp only: c68k_mont_setup_rr_def n_def [symmetric] Let_def temp_def [symmetric] if_False if_True t1(1)
          s_def [symmetric] z_def [symmetric] wr rd rr(1) bind.bind_lunit prod.case)
    moreover have "lval rr = R * R mod M" using rr(3) s(1) RR by (simp add: lval_append z_def)
    ultimately show thesis using that rr(2) by (simp add: n_def R_def M_def)
  next
    case False
    have mo: "lval (modulus hn x (adjust_size hn m)) = lval x mod M" "length (modulus hn x (adjust_size hn m)) \<le> n" for x
    proof -
      have "lval (adjust_size hn m) \<noteq> 0" using adj(1) [of m] m0 by (simp add: M_def)
      then have "lval (modulus hn x (adjust_size hn m)) = lval x mod lval (adjust_size hn m) \<and>
          length (modulus hn x (adjust_size hn m)) \<le> length (adjust_size hn m)"
        using hn unfolding huge_ok_def by blast
      then show "lval (modulus hn x (adjust_size hn m)) = lval x mod M" "length (modulus hn x (adjust_size hn m)) \<le> n"
        using adj [of m] by (simp_all add: M_def n_def)
    qed
    define t1 where "t1 = modulus hn temp (adjust_size hn m)"
    define s where "s = square hn t1"
    define s1 where "s1 = modulus hn s (adjust_size hn m)"
    have t1: "lval t1 = R mod M" "length t1 \<le> n" using mo [of temp] temp by (simp_all add: t1_def)
    have s: "lval s = (R mod M)\<^sup>2" "length s \<le> 2 * n" using sq [of t1] t1 by (simp_all add: s_def)
    have s1: "lval s1 = R * R mod M" "length s1 \<le> n" using mo [of s] s RR by (simp_all add: s1_def)
    have "0 + length s \<le> length (drop (n + 1) setup)" using s(2) wide by (simp add: n_def)
    from wr_range_fits [OF this] obtain area where wr: "wr_range (drop (n + 1) setup) 0 s = Some area" by blast
    have "c68k_mont_setup_rr hn fast m setup = Some (take n s1 @ c68k_zero (n - length s1))"
      using False ls by (simp only: c68k_mont_setup_rr_def n_def [symmetric] Let_def temp_def [symmetric] if_False
          t1_def [symmetric] s_def [symmetric] s1_def [symmetric] wr bind.bind_lunit)
    then show thesis using that [of "take n s1 @ c68k_zero (n - length s1)"] s1
      by (simp add: n_def R_def M_def c68k_zero_def lval_append)
  qed
qed

section \<open>The power\<close>

lemma pick_window_val:
  "1 \<le> w \<Longrightarrow> 1 \<le> pick_window n limbs w \<and> pick_window n limbs w \<le> w \<and>
   (C68K_POWM_SCRATCH_LIMBS n 1 \<le> limbs \<longrightarrow> C68K_POWM_SCRATCH_LIMBS n (pick_window n limbs w) \<le> limbs)"
proof (induction n limbs w rule: pick_window.induct)
  case (1 n limbs w)
  show ?case
  proof (cases "1 < w \<and> limbs < C68K_POWM_SCRATCH_LIMBS n w")
    case True
    then have run: "pick_window n limbs w = pick_window n limbs (w - 1)" by (subst pick_window.simps) simp
    have "1 \<le> w - 1" using True by linarith
    note IH = 1(1) [OF True this]
    then have "pick_window n limbs (w - 1) \<le> w" by linarith
    then show ?thesis unfolding run using IH by blast
  next
    case False
    then have run: "pick_window n limbs w = w" by (subst pick_window.simps) auto
    show ?thesis unfolding run using False 1(2) by (cases "w = 1") auto
  qed
qed

lemma window_for_bounds: "1 \<le> c68k_window_for bits" "c68k_window_for bits \<le> 6"
  by (simp_all add: c68k_window_for_def)

text \<open>The table is built, whatever its size.\<close>

lemma table_built:
  assumes xm: "is_res m a xm" and work: "powm_setting m work" and fits: "2 ^ (w - 1) * length m \<le> length table"
  obtains table0 acc' table' work' where "wr_range table 0 xm = Some table0"
    and "(if 1 < (2 :: nat) ^ (w - 1) then do {
            (acc, work) \<leftarrow> c68k_mont_sqr kl acc xm m (c68k_mont_n0inv (hd m)) work;
            (table, work) \<leftarrow> odd_powers (2 ^ (w - 1) - 1) 1 kl acc m (c68k_mont_n0inv (hd m)) table0 work;
            Some (acc, table, work)
          } else Some (acc, table0, work)) = Some (acc', table', work')"
    and "powm_setting m work'" and "table_ok m a (2 ^ (w - 1)) table'"
proof -
  define ts :: nat where "ts = 2 ^ (w - 1)"
  have t1: "1 \<le> ts" by (simp add: ts_def)
  have f: "ts * length m \<le> length table" using fits by (simp add: ts_def)
  have "1 * length m \<le> ts * length m" using t1 by (rule mult_le_mono1)
  then have "Suc 0 * length m \<le> length table" using f by linarith
  moreover have "table_ok m a 0 table" by (simp add: table_ok_def)
  moreover have "is_res m (a ^ (2 * 0 + 1)) xm" using xm by simp
  ultimately obtain table0 where T: "wr_range table (0 * length m) xm = Some table0" "length table0 = length table" "table_ok m a (Suc 0) table0"
    using table_ok_Suc by blast
  show thesis
  proof (cases "1 < ts")
    case True
    obtain acc1 work1 where s: "c68k_mont_sqr kl acc xm m (c68k_mont_n0inv (hd m)) work = Some (acc1, work1)" "powm_setting m work1"
        "is_res m (a * a) acc1"
      using mont_sqr_res [OF work xm, where kl = kl and r = acc] by blast
    have "(1 + (ts - 1)) * length m \<le> length table0" using f T(2) t1 by simp
    from odd_powers_val [OF s(3,2) T(3) [folded One_nat_def] order_refl this, of kl] obtain table' work' where
      o: "odd_powers (ts - 1) 1 kl acc1 m (c68k_mont_n0inv (hd m)) table0 work1 = Some (table', work')"
        "powm_setting m work'" "table_ok m a (1 + (ts - 1)) table'" by blast
    show thesis using that [of table0 acc1 table' work'] T(1) s(1) o True t1 by (simp add: ts_def)
  next
    case False
    then have "ts = 1" using t1 by linarith
    then have ts1: "2 ^ (w - 1) = (1 :: nat)" by (simp only: ts_def)
    show thesis using that [of table0 acc table0 work] T(1,3) work unfolding ts1 by simp
  qed
qed

lemma one_val: "n \<noteq> 0 \<Longrightarrow> lval (1 # c68k_zero (n - 1)) = 1 \<and> length (1 # c68k_zero (n - 1) :: limb list) = n"
  by (simp add: c68k_zero_def)

lemma and_one_zero: "l AND 1 = (0 :: limb) \<longleftrightarrow> even l"
  by (simp add: and_one_eq mod_2_eq_odd)

lemma leave_domain:
  assumes "powm_setting m work" and "is_res m a acc" and "length one = length m" and "lval one = 1"
  obtains r work' where "c68k_mont_mul kl r0 acc one m (c68k_mont_n0inv (hd m)) work = Some (r, work')" and "length r = length m"
    and "lval r = a mod lval m"
proof -
  have odd: "odd (lval m)" and w: "8 * length m + 1 \<le> length work" using assms(1) by (simp_all add: powm_setting_def)
  have m0: "0 < lval m" using odd by (simp add: odd_pos)
  have acc: "length acc = length m" "lval acc = mres m a" using assms(2) by (simp_all add: is_res_def)
  have "lval one * lval acc < B32 ^ length m * lval m"
    using lval_less_n [OF assms(3)] acc(2) m0 by (intro mult_strict_mono) (simp_all add: mres_def)
  then have "lval acc * lval one < B32 ^ length m * lval m" by (simp only: mult.commute)
  from mont_mul_val [OF odd acc(1) assms(3) this w, where kl = kl and r = r0] obtain r work' where
    R: "c68k_mont_mul kl r0 acc one m (c68k_mont_n0inv (hd m)) work = Some (r, work')" "length r = length m"
      "lval r < lval m" "lval r * B32 ^ length m mod lval m = lval acc * lval one mod lval m" by blast
  have "lval r * B32 ^ length m mod lval m = a * B32 ^ length m mod lval m"
    unfolding R(4) assms(4) acc(2) mres_def by (simp only: mult_1_right mod_mod_trivial)
  from radix_cancel [OF odd this] have "lval r = a mod lval m" using R(3) by simp
  then show thesis using that R(1,2) by blast
qed

lemma powm_val:
  assumes hn: "huge_ok hn" and odd: "odd (lval m)" and last: "last m \<noteq> 0" and x: "length x \<le> length m"
    and scratch: "C68K_POWM_SCRATCH_LIMBS (length m) 1 \<le> length scratch"
  obtains r where "c68k_mont_power_modulus kl hn fast result x e m scratch = Some (NX_CRYPTO_SUCCESS, r)" and "length r = length m"
    and "lval r = lval x ^ lval e mod lval m"
proof -
  define n where "n = length m"
  define bits where "bits = c68k_bitlen e"
  define w where "w = pick_window n (length scratch) (min (c68k_window_for bits) 6)"
  define work where "work = take (8 * n + 2) (drop (5 * n) scratch)"
  define area where "area = take (7 * n + 8) (drop (13 * n + 2) scratch)"
  define table where "table = drop (20 * n + 10) scratch"
  define ni where "ni = c68k_mont_n0inv (hd m)"
  define one where "one = (1 :: limb) # c68k_zero (n - 1)"
  have ne: "m \<noteq> []" using odd by auto
  have n0: "n \<noteq> 0" using ne by (simp add: n_def)
  note one = one_val [OF n0, folded one_def]
  have "1 \<le> min (c68k_window_for bits) 6" using window_for_bounds by simp
  note W = pick_window_val [OF this, of n "length scratch", folded w_def]
  have w: "1 \<le> w" "w \<le> 32" using W by simp_all
  have sc: "(20 + 2 ^ (w - 1)) * n + 16 \<le> length scratch" using W scratch by (simp add: C68K_POWM_SCRATCH_LIMBS_def n_def)
  have sc1: "21 * n + 16 \<le> length scratch" using scratch by (simp add: C68K_POWM_SCRATCH_LIMBS_def n_def)
  have setting: "powm_setting m work" using odd sc1 by (simp add: powm_setting_def work_def n_def)
  have "4 * length m + 3 \<le> length area" using sc1 by (simp add: area_def n_def)
  from setup_rr_val [OF hn ne last this, of fast] obtain rr where rr: "c68k_mont_setup_rr hn fast m area = Some rr" "length rr = length m"
      "lval rr = B32 ^ length m * B32 ^ length m mod lval m" by blast
  define xpad where "xpad = x @ drop (length x) (c68k_zero n)"
  have xp: "c68k_copy (c68k_zero n) x = Some xpad" "length xpad = length m" "lval xpad = lval x"
    using x by (simp_all add: c68k_copy_def wr_range_def c68k_zero_def xpad_def n_def lval_append)
  have m0: "0 < lval m" using odd by (simp add: odd_pos)
  have "lval xpad * lval rr < B32 ^ length m * lval m"
    using lval_less_n [OF xp(2)] rr(3) m0 by (intro mult_strict_mono) simp_all
  moreover have "8 * length m + 1 \<le> length work" using setting by (simp add: powm_setting_def)
  ultimately obtain xm work1 where X: "c68k_mont_mul kl (take n scratch) xpad rr m ni work = Some (xm, work1)" "length xm = length m"
      "length work1 = length work" "lval xm < lval m" "lval xm * B32 ^ length m mod lval m = lval xpad * lval rr mod lval m"
    using mont_mul_val [OF odd xp(2) rr(2), where kl = kl and r = "take n scratch"] unfolding ni_def by blast
  have "lval xm * B32 ^ length m mod lval m = (lval x * B32 ^ length m) * B32 ^ length m mod lval m"
    unfolding X(5) xp(3) rr(3) by (simp only: mod_mult_right_eq mult.assoc)
  from radix_cancel [OF odd this] have xm: "is_res m (lval x) xm" using X(2,4) by (simp add: is_res_def mres_def)
  have setting1: "powm_setting m work1" using setting X(3) by (simp add: powm_setting_def)
  have oddhd: "hd m AND 1 \<noteq> 0" using hd_odd [OF odd] by (simp only: and_one_zero not_False_eq_True)
  have guards: "\<not> (n = 0 \<or> hd m AND 1 = 0 \<or> n < length x)" "\<not> length scratch < C68K_POWM_SCRATCH_LIMBS n 1"
    using n0 oddhd x scratch by (simp_all add: n_def)
  note run = c68k_mont_power_modulus_def [of kl hn fast result x e m scratch, folded n_def bits_def, unfolded Let_def, folded w_def work_def area_def table_def ni_def one_def]
  show thesis
  proof (cases "bits = 0")
    case True
    then have E: "lval e = 0" using bitlen_val(3) [of e] by (simp add: bits_def)
    have "c68k_mont_power_modulus kl hn fast result x e m scratch
        = Some (NX_CRYPTO_SUCCESS, if 0 \<le> c68k_cmp one m then c68k_zero n else one)"
      unfolding run using True guards by (simp only: simp_thms if_False if_True rr(1) xp(1) X(1) bind.bind_lunit prod.case)
    moreover have "lval (if 0 \<le> c68k_cmp one m then c68k_zero n else one) = 1 mod lval m"
      using cmp_val [of one m] one m0 by (auto simp: n_def c68k_zero_def)
    ultimately show thesis using that E one by (auto simp: n_def c68k_zero_def split: if_splits)
  next
    case False
    then have E: "lval e \<noteq> 0" using bitlen_val(3) [of e] by (simp add: bits_def)
    have "2 ^ (w - 1) * length m \<le> length table"
      using sc by (simp add: table_def n_def distrib_right)
    from table_built [OF xm setting1 this, where kl = kl and acc = "take n (drop n scratch)"] obtain table0 acc1 table1 work2 where
      T: "wr_range table 0 xm = Some table0"
        "(if 1 < (2 :: nat) ^ (w - 1) then do {
            (acc, work) \<leftarrow> c68k_mont_sqr kl (take n (drop n scratch)) xm m ni work1;
            (table, work) \<leftarrow> odd_powers (2 ^ (w - 1) - 1) 1 kl acc m ni table0 work;
            Some (acc, table, work)
          } else Some (take n (drop n scratch), table0, work1)) = Some (acc1, table1, work2)"
        "powm_setting m work2" "table_ok m (lval x) (2 ^ (w - 1)) table1"
      unfolding ni_def by blast
    have "if False then is_res m (lval x ^ (lval e div 2 ^ bits)) acc1 else lval e div 2 ^ bits = 0"
      using bitlen_val(1) [of e] by (simp add: bits_def)
    from scan_val [OF T(3,4) w _ this, of kl] obtain acc2 work3 where
      S: "scan kl e m ni w table1 bits False acc1 work2 = Some (acc2, work3)" "powm_setting m work3" "is_res m (lval x ^ lval e) acc2"
      using E bitlen_val(2) [of e] by (auto simp: bits_def ni_def)
    obtain r work4 where R: "c68k_mont_mul kl result acc2 one m ni work3 = Some (r, work4)" "length r = length m"
        "lval r = lval x ^ lval e mod lval m"
      using leave_domain [OF S(2,3), of one] one unfolding ni_def n_def by blast
    have "c68k_mont_power_modulus kl hn fast result x e m scratch = Some (NX_CRYPTO_SUCCESS, r)"
      unfolding run using False guards by (simp only: if_False rr(1) xp(1) X(1) T(1,2) S(1) R(1) bind.bind_lunit prod.case)
    then show thesis using that R(2,3) by blast
  qed
qed

section \<open>The entry for huge numbers\<close>

text \<open>Once its size is adjusted, a number that is not zero has a top limb, and a smaller number is no wider.\<close>

lemma adjusted:
  assumes hn: "huge_ok hn" and m: "lval m \<noteq> 0"
  shows "adjust_size hn m \<noteq> []" and "last (adjust_size hn m) \<noteq> 0"
    and "lval x < lval m \<Longrightarrow> length (adjust_size hn x) \<le> length (adjust_size hn m)"
proof -
  have adj: "lval (adjust_size hn z) = lval z" "length (adjust_size hn z) \<le> 1 \<or> last (adjust_size hn z) \<noteq> 0" for z
    using hn by (simp_all add: huge_ok_def)
  show ne: "adjust_size hn m \<noteq> []" using adj(1) [of m] m by auto
  show last: "last (adjust_size hn m) \<noteq> 0"
  proof (cases "length (adjust_size hn m) \<le> 1")
    case True
    then obtain l where "adjust_size hn m = [l]" using ne by (cases "adjust_size hn m") auto
    then show ?thesis using adj(1) [of m] m by auto
  next
    case False
    then show ?thesis using adj(2) [of m] by blast
  qed
  show "length (adjust_size hn x) \<le> length (adjust_size hn m)" if lt: "lval x < lval m"
  proof (cases "length (adjust_size hn x) \<le> 1")
    case True
    then show ?thesis using ne by (cases "adjust_size hn m") auto
  next
    case False
    then have "last (adjust_size hn x) \<noteq> 0" "adjust_size hn x \<noteq> []" using adj(2) [of x] by auto
    from lval_last [OF this(2,1)] have "B32 ^ (length (adjust_size hn x) - 1) \<le> lval x" by (simp only: adj(1))
    also have "\<dots> < lval m" by (rule lt)
    also have "\<dots> < B32 ^ length (adjust_size hn m)" using lval_less [of "adjust_size hn m"] by (simp only: adj(1))
    finally have "length (adjust_size hn x) - 1 < length (adjust_size hn m)" by (simp only: power_strict_increasing_iff)
    then show ?thesis by simp
  qed
qed

end
