(* ===== verification/Big_Correct.thy ===== *)
theory Big_Correct
  imports Big_Exp
begin

text \<open>
  The properties of the big-number arithmetic of \<^verbatim>\<open>src/crypto68k\<close>.
\<close>

section \<open>Products\<close>

lemma mul_split:
  assumes "length x = length y" and "length t = 2 * length x" and "6 * length x \<le> length s"
  shows "\<exists>t' s'. c68k_mul_school t x y = Some t' \<and> c68k_mul_n kl t x y s = Some (t', s') \<and> length s' = length s \<and>
    lval t' = lval x * lval y"
proof -
  obtain t1 where t1: "c68k_mul_school t x y = Some t1" "length t1 = length t" "lval t1 = lval x * lval y"
    using mul_school_val [OF assms(1,2)] by blast
  obtain t2 s' where t2: "c68k_mul_n kl t x y s = Some (t2, s')" "length t2 = length t" "length s' = length s" "lval t2 = lval x * lval y"
    using mul_n_val [OF assms, of kl] by blast
  have "t2 = t1" using lval_inject [of t2 t1] t1 t2 by simp
  then show ?thesis using t1 t2 by blast
qed

lemma sqr_split:
  assumes "x \<noteq> []" and "length t = 2 * length x" and "6 * length x \<le> length s"
  shows "\<exists>t' s'. c68k_mul_school t x x = Some t' \<and> c68k_sqr_n kl x s = Some (t', s') \<and> length s' = length s"
proof -
  obtain t1 where t1: "c68k_mul_school t x x = Some t1" "length t1 = length t" "lval t1 = lval x * lval x"
    using mul_school_val [OF refl assms(2)] by blast
  obtain t2 s' where t2: "c68k_sqr_n kl x s = Some (t2, s')" "length t2 = 2 * length x" "length s' = length s" "lval t2 = (lval x)\<^sup>2"
    using sqr_n_val [OF assms(3,1), of kl] by blast
  have "t2 = t1" using lval_inject [of t2 t1] t1 t2 assms(2) by (simp add: power2_eq_square)
  then show ?thesis using t1 t2 by blast
qed

text \<open>
  C26. Karatsuba's split changes nothing: for operands of one width, at any threshold, the product that
  \<open>c68k_mul_n\<close> leaves is the one the schoolbook rows leave, the product of the two values, and it stays inside
  six limbs of scratch for each limb of the operands.
\<close>

theorem karatsuba_product:
  assumes "length x = length y" and "length t = 2 * length x" and "6 * length x \<le> length s"
  shows "\<exists>t' s'. c68k_mul_school t x y = Some t' \<and> c68k_mul_n kl t x y s = Some (t', s') \<and> length s' = length s \<and>
    lval t' = lval x * lval y"
  by (rule mul_split [OF assms])

theorem karatsuba_product_witness:
  "\<exists>t' s'. c68k_mul_school [9, 9, 9, 9] [0xFFFFFFFF, 0xFFFFFFFF] [0xFFFFFFFF, 3] = Some t' \<and>
    c68k_mul_n 2 [9, 9, 9, 9] [0xFFFFFFFF, 0xFFFFFFFF] [0xFFFFFFFF, 3] (replicate 12 7) = Some (t', s') \<and>
    length s' = length (replicate 12 (7 :: limb)) \<and> lval t' = lval [0xFFFFFFFF, 0xFFFFFFFF] * lval [0xFFFFFFFF, 3]"
  by (rule karatsuba_product) simp_all

text \<open>
  C27. Squaring is multiplying by oneself: the products above the diagonal, doubled, with the diagonal added,
  and Karatsuba's three squares over it at any threshold, leave the limbs the schoolbook product of the
  operand with itself leaves.
\<close>

theorem karatsuba_square:
  assumes "x \<noteq> []" and "length t = 2 * length x" and "6 * length x \<le> length s"
  shows "\<exists>t' s'. c68k_mul_school t x x = Some t' \<and> c68k_sqr_n kl x s = Some (t', s') \<and> length s' = length s"
  by (rule sqr_split [OF assms])

theorem karatsuba_square_witness:
  "\<exists>t' s'. c68k_mul_school [0, 0, 0, 0] [0xFFFFFFFF, 0x80000001] [0xFFFFFFFF, 0x80000001] = Some t' \<and>
    c68k_sqr_n 2 [0xFFFFFFFF, 0x80000001] (replicate 12 7) = Some (t', s') \<and> length s' = length (replicate 12 (7 :: limb))"
  by (rule karatsuba_square) simp_all

section \<open>Montgomery multiplication\<close>

text \<open>
  C25. Montgomery multiplication: for an odd modulus, operands of its width of which the second is below it,
  and a work area of \<^verbatim>\<open>C68K_MONT_WORK_LIMBS\<close> limbs, \<open>c68k_mont_mul\<close> returns a number below the modulus that,
  times the radix to the modulus' width, is the product of the operands modulo the modulus. No access leaves
  a buffer.
\<close>

theorem mont_mul_exact:
  assumes "odd (lval m)" and "length x = length m" and "length y = length m" and "lval y < lval m"
    and "8 * length m + 2 \<le> length work"
  shows "\<exists>r' work'. c68k_mont_mul kl r x y m (c68k_mont_n0inv (hd m)) work = Some (r', work') \<and>
    length r' = length m \<and> length work' = length work \<and> lval r' < lval m \<and>
    lval r' * B32 ^ length m mod lval m = lval x * lval y mod lval m"
proof -
  have "lval x * lval y < B32 ^ length m * lval m"
    using lval_less_n [OF assms(2)] assms(4) by (intro mult_strict_mono) simp_all
  moreover have "8 * length m + 1 \<le> length work" using assms(5) by simp
  ultimately show ?thesis using mont_mul_val [OF assms(1-3), where kl = kl and r = r] by blast
qed

theorem mont_mul_exact_witness:
  "\<exists>r' work'. c68k_mont_mul 64 [0, 0] [0xFFFFFFFF, 0xFFFFFFFF] [5, 1] [7, 0x80000000] (c68k_mont_n0inv (hd [7, 0x80000000]))
      (replicate 18 9) = Some (r', work') \<and>
    length r' = length [7, 0x80000000 :: limb] \<and> length work' = length (replicate 18 (9 :: limb)) \<and> lval r' < lval [7, 0x80000000] \<and>
    lval r' * B32 ^ length [7, 0x80000000 :: limb] mod lval [7, 0x80000000] =
      lval [0xFFFFFFFF, 0xFFFFFFFF] * lval [5, 1] mod lval [7, 0x80000000]"
  by (rule mont_mul_exact) simp_all

section \<open>Division\<close>

text \<open>
  C24. Long division: for a modulus whose top limb is not zero and a scratch of \<^verbatim>\<open>C68K_MOD_SCRATCH_LIMBS\<close> limbs,
  \<open>c68k_mod\<close> returns, in the modulus' width, the numerator modulo the modulus, whatever the two widths: the
  quotient of a row never traps, its estimate is corrected in a loop that ends, and one addition repairs an
  estimate that is still one too large.
\<close>

theorem mod_exact:
  assumes "m \<noteq> []" and "last m \<noteq> 0" and "length u + length m + 2 \<le> length scratch"
  shows "\<exists>r scratch'. c68k_mod u m scratch = Some (r, scratch') \<and> length r = length m \<and> length scratch' = length scratch \<and>
    lval r = lval u mod lval m"
proof -
  have "length u + length m + 1 \<le> length scratch" using assms(3) by simp
  from mod_val [OF assms(1,2) this] show ?thesis by blast
qed

theorem mod_exact_witness:
  "\<exists>r scratch'. c68k_mod [0, 0, 0, 1] [0xFFFFFFFF, 0x7FFFFFFF] (replicate 8 5) = Some (r, scratch') \<and>
    length r = length [0xFFFFFFFF, 0x7FFFFFFF :: limb] \<and> length scratch' = length (replicate 8 (5 :: limb)) \<and>
    lval r = lval [0, 0, 0, 1] mod lval [0xFFFFFFFF, 0x7FFFFFFF]"
  by (rule mod_exact) simp_all

section \<open>Exponentiation\<close>

text \<open>A number in \<open>n\<close> limbs, and the vendored routines written out, to show that what is relied on can hold.\<close>

primrec limbs_of :: "nat \<Rightarrow> nat \<Rightarrow> limb list" where
  "limbs_of 0 v = []"
| "limbs_of (Suc n) v = of_nat v # limbs_of n (v div B32)"

lemma limbs_of_val: "length (limbs_of n v) = n \<and> lval (limbs_of n v) = v mod B32 ^ n"
proof (induction n arbitrary: v)
  case (Suc n)
  have "v mod (B32 * B32 ^ n) = B32 * (v div B32 mod B32 ^ n) + v mod B32" by (rule mod_mult2_eq)
  then show ?case using Suc.IH [of "v div B32"] by (simp add: unat_of_nat)
qed simp

definition plain_huge :: huge_ops where
  "plain_huge = \<lparr>adjust_size = (\<lambda>x. rev (dropWhile (\<lambda>l. l = 0) (rev x))),
     square = (\<lambda>x. limbs_of (2 * length x) ((lval x)\<^sup>2)),
     modulus = (\<lambda>x m. limbs_of (length m) (lval x mod lval m)),
     mont_power_modulus = (\<lambda>x e m. limbs_of (length m) (lval x ^ lval e mod lval m))\<rparr>"

lemma strip_val: "lval (rev (dropWhile (\<lambda>l. l = 0) xs)) = lval (rev xs)"
  by (induction xs) (simp_all add: lval_append)

lemma plain_huge_ok: "huge_ok plain_huge"
proof -
  have adj: "lval (adjust_size plain_huge x) = lval x" "length (adjust_size plain_huge x) \<le> length x"
      "length (adjust_size plain_huge x) \<le> 1 \<or> last (adjust_size plain_huge x) \<noteq> 0" for x
  proof -
    show "lval (adjust_size plain_huge x) = lval x" using strip_val [of "rev x"] by (simp add: plain_huge_def)
    show "length (adjust_size plain_huge x) \<le> length x" using length_dropWhile_le [of _ "rev x"] by (simp add: plain_huge_def)
    show "length (adjust_size plain_huge x) \<le> 1 \<or> last (adjust_size plain_huge x) \<noteq> 0"
    proof (cases "dropWhile (\<lambda>l. l = 0) (rev x)")
      case (Cons l ls)
      then show ?thesis using hd_dropWhile [of "\<lambda>l. l = 0" "rev x"] by (simp add: plain_huge_def)
    next
      case Nil
      then have "adjust_size plain_huge x = []" by (simp only: plain_huge_def huge_ops.simps rev.simps)
      then show ?thesis by simp
    qed
  qed
  have sq: "lval (square plain_huge x) = (lval x)\<^sup>2" "length (square plain_huge x) \<le> 2 * length x" for x
    using limbs_of_val [of "2 * length x" "(lval x)\<^sup>2"] square_less [of x] by (simp_all add: plain_huge_def)
  have mo: "lval (modulus plain_huge x m) = lval x mod lval m \<and> length (modulus plain_huge x m) \<le> length m" if "lval m \<noteq> 0" for x m
  proof -
    have "0 < lval m" using that by simp
    from mod_less_divisor [OF this, of "lval x"] have "lval x mod lval m < B32 ^ length m" using lval_less [of m] by linarith
    then show ?thesis using limbs_of_val [of "length m" "lval x mod lval m"] by (simp add: plain_huge_def)
  qed
  show ?thesis unfolding huge_ok_def using adj sq mo by blast
qed

text \<open>
  C23. Modular exponentiation: for an odd modulus, a base below it and a scratch that holds at least the smallest
  window, \<open>c68k_huge_number_mont_power_modulus\<close> returns the base to the exponent modulo the modulus, whatever
  the window the scratch allows, the Karatsuba threshold and the divider that prepares the radix. It relies
  on the vendored routines for the square of the radix, the slow remainder and the size of a number only.
\<close>

theorem powm_exact:
  assumes "huge_ok hn" and "odd (lval m)" and "lval x < lval m"
    and "C68K_POWM_SCRATCH_LIMBS (length (adjust_size hn m)) 1 \<le> length scratch"
  shows "\<exists>r. c68k_huge_number_mont_power_modulus kl hn fast result x e m scratch = Some r \<and>
    lval r = lval x ^ lval e mod lval m"
proof -
  have m0: "lval m \<noteq> 0" using assms(3) by simp
  have adj: "lval (adjust_size hn z) = lval z" for z using assms(1) by (simp add: huge_ok_def)
  note A = adjusted [OF assms(1) m0]
  have "odd (lval (adjust_size hn m))" using assms(2) by (simp only: adj not_False_eq_True)
  from powm_val [OF assms(1) this A(2) A(3) [OF assms(3)] assms(4), where kl = kl and fast = fast and result = result
      and e = "adjust_size hn e"] obtain r where
    r: "c68k_mont_power_modulus kl hn fast result (adjust_size hn x) (adjust_size hn e) (adjust_size hn m) scratch = Some (NX_CRYPTO_SUCCESS, r)"
      "lval r = lval x ^ lval e mod lval m"
    unfolding adj by blast
  then show ?thesis by (simp add: c68k_huge_number_mont_power_modulus_def adj)
qed

theorem powm_exact_witness:
  "\<exists>r. c68k_huge_number_mont_power_modulus 64 plain_huge True [] [3, 1, 0] [0xFFFFFFFF, 5] [7, 0x80000000] (replicate 58 0) = Some r \<and>
    lval r = lval [3, 1, 0] ^ lval [0xFFFFFFFF, 5] mod lval [7, 0x80000000]"
  by (rule powm_exact [OF plain_huge_ok]) (simp_all add: C68K_POWM_SCRATCH_LIMBS_def plain_huge_def)

lemma lval_odd_iff: "m \<noteq> [] \<Longrightarrow> odd (lval m) \<longleftrightarrow> odd (hd m)"
proof (cases m)
  case (Cons l ls)
  have "odd (lval m) \<longleftrightarrow> bit (unat l) 0" using Cons by (simp add: bit_0)
  also have "\<dots> \<longleftrightarrow> bit l 0" by (simp add: bit_unsigned_iff)
  finally show ?thesis using Cons by (simp add: bit_0)
qed simp

text \<open>
  C28. The status of the exponentiation: an empty or even modulus, or a base wider than it, is
  \<^verbatim>\<open>NX_CRYPTO_NOT_SUCCESSFUL\<close>; else a scratch below the smallest window's is \<^verbatim>\<open>NX_CRYPTO_SIZE_ERROR\<close>; both leave the
  result as it was. In every other case the call returns \<^verbatim>\<open>NX_CRYPTO_SUCCESS\<close>.
\<close>

theorem powm_status:
  assumes "huge_ok hn" and "m = [] \<or> last m \<noteq> 0"
  shows "\<exists>r. c68k_mont_power_modulus kl hn fast result x e m scratch =
    Some (if m = [] \<or> even (lval m) \<or> length m < length x then (NX_CRYPTO_NOT_SUCCESSFUL, result)
          else if length scratch < C68K_POWM_SCRATCH_LIMBS (length m) 1 then (NX_CRYPTO_SIZE_ERROR, result)
          else (NX_CRYPTO_SUCCESS, r))"
proof (cases "m = [] \<or> even (lval m) \<or> length m < length x")
  case True
  then have "length m = 0 \<or> hd m AND 1 = 0 \<or> length m < length x" using lval_odd_iff [of m] by (auto simp: and_one_zero)
  then show ?thesis using True by (simp add: c68k_mont_power_modulus_def Let_def)
next
  case False
  then have "\<not> (length m = 0 \<or> hd m AND 1 = 0 \<or> length m < length x)" using lval_odd_iff [of m] by (auto simp: and_one_zero)
  note guard = this
  show ?thesis
  proof (cases "length scratch < C68K_POWM_SCRATCH_LIMBS (length m) 1")
    case True
    then have "c68k_mont_power_modulus kl hn fast result x e m scratch = Some (NX_CRYPTO_SIZE_ERROR, result)"
      using guard by (simp only: c68k_mont_power_modulus_def Let_def if_True if_False)
    then show ?thesis using False True by (simp only: if_True if_False simp_thms)
  next
    case wide: False
    have *: "odd (lval m)" "last m \<noteq> 0" "length x \<le> length m" "C68K_POWM_SCRATCH_LIMBS (length m) 1 \<le> length scratch"
      using False assms(2) wide by auto
    from powm_val [OF assms(1) *, where kl = kl and fast = fast and result = result and e = e] obtain r where
      "c68k_mont_power_modulus kl hn fast result x e m scratch = Some (NX_CRYPTO_SUCCESS, r)" by blast
    then show ?thesis using False wide by (simp only: if_False) blast
  qed
qed

theorem powm_status_witness:
  "\<exists>r. c68k_mont_power_modulus 64 plain_huge True [1] [3] [2] [8] (replicate 58 0) =
    Some (if [8 :: limb] = [] \<or> even (lval [8]) \<or> length [8 :: limb] < length [3 :: limb] then (NX_CRYPTO_NOT_SUCCESSFUL, [1])
          else if length (replicate 58 (0 :: limb)) < C68K_POWM_SCRATCH_LIMBS (length [8 :: limb]) 1 then (NX_CRYPTO_SIZE_ERROR, [1])
          else (NX_CRYPTO_SUCCESS, r))"
  by (rule powm_status [OF plain_huge_ok]) simp

end
