(* ===== verification/Ack_Pace.thy ===== *)
theory Ack_Pace
  imports Cks_Verify
begin

text \<open>
  Acknowledgment pacing, \<^verbatim>\<open>src/sana2/sana2_ackpace.c\<close>: a pure TCP acknowledgment that would open more of the
  sender's window than the line should take waits in a ring of sixteen on the interface, and the reader
  lets it go when it is due.

  The interface is the fields of \<^verbatim>\<open>AmiSana2If\<close> the file uses; a task is a number. A section between
  \<^verbatim>\<open>Forbid\<close> and \<^verbatim>\<open>Permit\<close> is one definition. The E-clock's low word, its rate, what \<^verbatim>\<open>timer.device\<close> and
  Exec answer and which task runs are parameters. An access outside the packet or the ring is \<open>None\<close>.
\<close>

abbreviation (input) AMI_SANA2_ACKQ :: nat where "AMI_SANA2_ACKQ \<equiv> 16"
abbreviation (input) AMI_ACK_GAP_BYTES_MAX :: ULONG where "AMI_ACK_GAP_BYTES_MAX \<equiv> 16384"
abbreviation (input) AMI_ACK_GAP_BYTES_DEF :: ULONG where "AMI_ACK_GAP_BYTES_DEF \<equiv> 2920"

record AmiAckHeld =
  ah_packet :: NX_PACKET
  ah_dst_msw :: ULONG
  ah_dst_lsw :: ULONG
  ah_gap :: ULONG

record ack_if =
  ack_tpkb :: ULONG
  ackq :: "AmiAckHeld list"
  ackq_head :: UWORD
  ackq_count :: UWORD
  ack_clock :: bool
  ack_next :: ULONG
  ack_prev_ack :: ULONG
  ack_prev_edge :: ULONG
  ack_prev_ports :: ULONG
  ack_ws_ports :: ULONG
  ack_ws :: UBYTE
  ack_gro_ports :: ULONG
  ack_task :: "nat option"
  ack_wake :: ULONG
  ack_hw_rx_bytes :: ULONG
  ack_paced :: ULONG
  ack_unpaced :: ULONG

section \<open>Set-up\<close>

definition ami_sana2_ack_setup :: "ULONG \<Rightarrow> ULONG \<Rightarrow> ack_if \<Rightarrow> ack_if" where
  "ami_sana2_ack_setup hz kbps iface =
     (let iface = iface\<lparr>ack_tpkb := 0, ackq_head := 0, ackq_count := 0, ack_clock := False, ack_task := None, ack_wake := 0\<rparr> in
      if kbps = 0 then iface
      else if hz = 0 then iface
      else let tpkb = (hz * 8) div kbps in iface\<lparr>ack_tpkb := (if tpkb = 0 then 1 else tpkb)\<rparr>)"

section \<open>A pure acknowledgment\<close>

text \<open>The window scale option of our own SYN; the walk steps over every option by its length, at least two.\<close>

function learn_scale :: "NX_PACKET \<Rightarrow> nat \<Rightarrow> nat \<Rightarrow> nat \<Rightarrow> UBYTE option option" where
  "learn_scale p ihl thl i =
     (if i < thl then do {
        kind \<leftarrow> ip8 p (ihl + i);
        if kind = 0 then Some None
        else if kind = 1 then learn_scale p ihl thl (i + 1)
        else if thl \<le> i + 1 then Some None
        else do {
          len \<leftarrow> ip8 p (ihl + (i + 1));
          if len < 2 then Some None
          else if kind = 3 \<and> len = 3 \<and> i + 2 < thl then do {
            ws \<leftarrow> ip8 p (ihl + (i + 2));
            Some (Some (if 14 < ws then 14 else ws))
          } else learn_scale p ihl thl (i + unat len)
        }
      } else Some None)"
  by pat_completeness auto
termination
proof (relation "measure (\<lambda>(p, ihl, thl, i). thl - i)", goal_cases)
  case (3 p ihl thl i kind len)
  then have "2 \<le> unat len" by (simp add: word_less_nat_alt)
  then show ?case using 3 by simp
qed simp_all

declare learn_scale.simps [simp del]

definition ami_ack_learn_scale :: "ack_if \<Rightarrow> NX_PACKET \<Rightarrow> nat \<Rightarrow> nat \<Rightarrow> ULONG \<Rightarrow> ack_if option" where
  "ami_ack_learn_scale iface p ihl thl ports = do {
     found \<leftarrow> learn_scale p ihl thl 20;
     Some (iface\<lparr>ack_ws_ports := ports, ack_ws := (case found of None \<Rightarrow> 0 | Some ws \<Rightarrow> ws)\<rparr>)
   }"

definition tcp_long :: "NX_PACKET \<Rightarrow> nat \<Rightarrow> ULONG option" where
  "tcp_long p i = map_option be_val (rd_range (pk_mem p) (pk_prepend p + i) 4)"

text \<open>The interface, which a SYN changes, and the acknowledgment, the ports and the window of one that may be held.\<close>

definition ami_ack_parse :: "ack_if \<Rightarrow> NX_PACKET \<Rightarrow> (ack_if \<times> (ULONG \<times> ULONG \<times> ULONG) option) option" where
  "ami_ack_parse iface p =
     (let avail = (of_int (int (pk_append p) - int (pk_prepend p)) :: ULONG) in
      if avail < 40 then Some (iface, None)
      else do {
        b0 \<leftarrow> ip8 p 0;
        b9 \<leftarrow> ip8 p 9;
        if drop_bit 4 b0 \<noteq> 4 \<or> b9 \<noteq> 6 then Some (iface, None)
        else let ihl = (push_bit 2 (ucast (b0 AND 0x0F)) :: ULONG) in
          if ihl < 20 \<or> avail < ihl + 20 then Some (iface, None)
          else do {
            let tcp = unat ihl;
            b12 \<leftarrow> ip8 p (tcp + 12);
            let thl = (push_bit 2 (ucast (drop_bit 4 b12)) :: ULONG);
            if thl < 20 \<or> avail < ihl + thl then Some (iface, None)
            else do {
              ports \<leftarrow> tcp_long p tcp;
              flags \<leftarrow> ip8 p (tcp + 13);
              if flags AND 0x02 \<noteq> 0 then do {
                iface \<leftarrow> ami_ack_learn_scale iface p tcp (unat thl) ports;
                Some (iface, None)
              }
              else if pk_length p \<noteq> ihl + thl then Some (iface, None)
              else if flags AND 0x17 \<noteq> 0x10 then Some (iface, None)
              else do {
                w0 \<leftarrow> ip8 p (tcp + 14);
                w1 \<leftarrow> ip8 p (tcp + 15);
                ack \<leftarrow> tcp_long p (tcp + 8);
                Some (iface, Some (ack, ports, push_bit 8 (ucast w0) OR ucast w1))
              }
            }
          }
      })"

section \<open>Holding\<close>

text \<open>What the acknowledgment opens past the one before it on the same connection.\<close>

definition ack_step :: "ack_if \<Rightarrow> ULONG \<Rightarrow> ULONG \<Rightarrow> ULONG \<Rightarrow> ULONG" where
  "ack_step iface ack edge ports =
     (let step =
        (if ports = ack_prev_ports iface then
           let by_ack = ack - ack_prev_ack iface; by_edge = edge - ack_prev_edge iface;
               by_ack = (if sint by_ack < 0 then 0 else by_ack); by_edge = (if sint by_edge < 0 then 0 else by_edge)
           in if by_ack < by_edge then by_edge else by_ack
         else AMI_ACK_GAP_BYTES_DEF)
      in if AMI_ACK_GAP_BYTES_MAX < step then AMI_ACK_GAP_BYTES_MAX else step)"

definition ack_gap :: "ULONG \<Rightarrow> ULONG \<Rightarrow> ULONG" where
  "ack_gap tpkb step = (step * tpkb) div 1000"

text \<open>
  At once on an idle line, which starts the clock; into the ring; or out of turn. The answer is whether it is
  held, the interface, and whom to wake with what.
\<close>

definition ack_admit :: "ULONG \<Rightarrow> nat \<Rightarrow> ack_if \<Rightarrow> AmiAckHeld \<Rightarrow> (bool \<times> ack_if \<times> (nat \<times> ULONG) option) option" where
  "ack_admit now me iface h =
     (if ackq_count iface = 0 \<and> (\<not> ack_clock iface \<or> 0 \<le> sint (now - ack_next iface))
      then Some (False, iface\<lparr>ack_clock := True, ack_next := now + ah_gap h\<rparr>, None)
      else if unat (ackq_count iface) < AMI_SANA2_ACKQ \<and> ack_task iface \<noteq> None then do {
        q \<leftarrow> wr_range (ackq iface) ((unat (ackq_head iface) + unat (ackq_count iface)) mod AMI_SANA2_ACKQ) [h];
        let iface = iface\<lparr>ackq := q, ackq_count := ackq_count iface + 1, ack_paced := ack_paced iface + 1\<rparr>;
        Some (True, iface, if ack_task iface \<noteq> Some me then map_option (\<lambda>t. (t, ack_wake iface)) (ack_task iface) else None)
      }
      else Some (False, iface\<lparr>ack_unpaced := ack_unpaced iface + 1\<rparr>, None))"

definition ami_sana2_ack_hold ::
  "ULONG \<Rightarrow> nat \<Rightarrow> ack_if \<Rightarrow> NX_PACKET \<Rightarrow> ULONG \<Rightarrow> ULONG \<Rightarrow> (bool \<times> ack_if \<times> (nat \<times> ULONG) option) option" where
  "ami_sana2_ack_hold now me iface p dst_msw dst_lsw = do {
     (iface, parsed) \<leftarrow> ami_ack_parse iface p;
     case parsed of None \<Rightarrow> Some (False, iface, None)
     | Some (ack, ports, win) \<Rightarrow>
       let win = (if ports = ack_ws_ports iface then push_bit (unat (ack_ws iface)) win else win);
           edge = ack + win;
           step = ack_step iface ack edge ports;
           iface = iface\<lparr>ack_prev_ack := ack, ack_prev_edge := edge, ack_prev_ports := ports\<rparr>;
           gap = ack_gap (ack_tpkb iface) step
       in if ack_hw_rx_bytes iface \<noteq> 0 \<and> win \<le> ack_hw_rx_bytes iface then Some (False, iface, None)
          else ack_admit now me (iface\<lparr>ack_gro_ports := push_bit 16 ports OR drop_bit 16 ports\<rparr>)
                 \<lparr>ah_packet = p, ah_dst_msw = dst_msw, ah_dst_lsw = dst_lsw, ah_gap = gap\<rparr>
   }"

text \<open>The caller, \<^verbatim>\<open>ami_sana2_tx_send\<close> of \<^verbatim>\<open>sana2_tx.c\<close>: whether the packet goes to the device now.\<close>

definition ami_sana2_tx_send :: "ULONG \<Rightarrow> nat \<Rightarrow> ack_if \<Rightarrow> NX_PACKET \<Rightarrow> UWORD \<Rightarrow> ULONG \<Rightarrow> ULONG \<Rightarrow> (bool \<times> ack_if) option" where
  "ami_sana2_tx_send now me iface p ether_type dst_msw dst_lsw =
     (if ack_tpkb iface \<noteq> 0 \<and> ether_type = 0x0800 then do {
        (held, iface, wake) \<leftarrow> ami_sana2_ack_hold now me iface p dst_msw dst_lsw;
        Some (\<not> held, iface)
      } else Some (True, iface))"

section \<open>Releasing\<close>

text \<open>The head of the ring leaves it.\<close>

definition ack_pop :: "ack_if \<Rightarrow> (AmiAckHeld \<times> ack_if) option" where
  "ack_pop iface = do {
     h \<leftarrow> rd (ackq iface) (unat (ackq_head iface));
     Some (h, iface\<lparr>ackq_head := of_nat ((unat (ackq_head iface) + 1) mod AMI_SANA2_ACKQ), ackq_count := ackq_count iface - 1\<rparr>)
   }"

text \<open>One pass of the loop under \<^verbatim>\<open>Forbid\<close>: the ticks to wait, or the acknowledgment to send.\<close>

definition release_step :: "ULONG \<Rightarrow> ack_if \<Rightarrow> ((ULONG + AmiAckHeld) \<times> ack_if) option" where
  "release_step now iface =
     (if ackq_count iface = 0 then Some (Inl 0, iface)
      else if 0 < sint (ack_next iface - now) then
        let wait = ack_next iface - now in Some (Inl (if wait \<noteq> 0 then wait else 1), iface)
      else do {
        let next = ack_next iface;
        (h, iface) \<leftarrow> ack_pop iface;
        let base = (if sint (ah_gap h) < sint (now - next) then now else next);
        Some (Inr h, iface\<lparr>ack_next := base + ah_gap h\<rparr>)
      })"

lemma pop_count: "ack_pop iface = Some (h, iface') \<Longrightarrow> ackq_count iface \<noteq> 0 \<Longrightarrow> unat (ackq_count iface') < unat (ackq_count iface)"
  by (auto simp: ack_pop_def bind_eq_Some_conv unat_minus_one unat_gt_0)

lemma release_count: "release_step now iface = Some (Inr h, iface') \<Longrightarrow> unat (ackq_count iface') < unat (ackq_count iface)"
  by (auto simp: release_step_def Let_def bind_eq_Some_conv dest: pop_count split: if_splits)

function ami_sana2_ack_release :: "(nat \<Rightarrow> ULONG) \<Rightarrow> nat \<Rightarrow> ack_if \<Rightarrow> (ULONG \<times> AmiAckHeld list \<times> ack_if) option" where
  "ami_sana2_ack_release clk i iface = do {
     (r, iface) \<leftarrow> release_step (clk i) iface;
     case r of Inl wait \<Rightarrow> Some (wait, [], iface)
     | Inr h \<Rightarrow> do {
         (wait, sent, iface) \<leftarrow> ami_sana2_ack_release clk (i + 1) iface;
         Some (wait, h # sent, iface)
       }
   }"
  by pat_completeness auto
termination
  by (relation "measure (\<lambda>(clk, i, iface). unat (ackq_count iface))") (auto dest: release_count)

declare ami_sana2_ack_release.simps [simp del]

definition flush_step :: "ack_if \<Rightarrow> (AmiAckHeld option \<times> ack_if) option" where
  "flush_step iface =
     (if ackq_count iface = 0 then Some (None, iface\<lparr>ack_clock := False\<rparr>)
      else map_option (\<lambda>(h, iface). (Some h, iface)) (ack_pop iface))"

lemma flush_count: "flush_step iface = Some (Some h, iface') \<Longrightarrow> unat (ackq_count iface') < unat (ackq_count iface)"
  by (auto simp: flush_step_def dest: pop_count split: if_splits)

function ami_sana2_ack_flush :: "ack_if \<Rightarrow> (AmiAckHeld list \<times> ack_if) option" where
  "ami_sana2_ack_flush iface = do {
     (r, iface) \<leftarrow> flush_step iface;
     case r of None \<Rightarrow> Some ([], iface)
     | Some h \<Rightarrow> do { (sent, iface) \<leftarrow> ami_sana2_ack_flush iface; Some (h # sent, iface) }
   }"
  by pat_completeness auto
termination
  by (relation "measure (\<lambda>iface. unat (ackq_count iface))") (auto dest: flush_count)

declare ami_sana2_ack_flush.simps [simp del]

section \<open>The reader's timer\<close>

record AmiSana2Reader =
  rd_task :: nat
  ack_port :: bool
  ack_tr_open :: bool
  ack_tr_busy :: bool
  ack_mask :: ULONG

text \<open>\<open>port\<close>: the signal bit of the message port, if there is one; \<open>opened\<close>: whether the timer opened.\<close>

definition ami_sana2_ack_reader_start :: "nat option \<Rightarrow> bool \<Rightarrow> AmiSana2Reader \<Rightarrow> ack_if \<Rightarrow> AmiSana2Reader \<times> ack_if" where
  "ami_sana2_ack_reader_start port opened r iface =
     (let r = r\<lparr>ack_port := False, ack_tr_open := False, ack_tr_busy := False, ack_mask := 0\<rparr> in
      if ack_tpkb iface = 0 then (r, iface)
      else case port of None \<Rightarrow> (r, iface\<lparr>ack_tpkb := 0\<rparr>)
      | Some sigbit \<Rightarrow>
          if \<not> opened then (r, iface\<lparr>ack_tpkb := 0\<rparr>)
          else let mask = push_bit sigbit 1 in
            (r\<lparr>ack_port := True, ack_tr_open := True, ack_mask := mask\<rparr>,
             iface\<lparr>ack_task := Some (rd_task r), ack_wake := mask\<rparr>))"

text \<open>\<open>fired\<close>: what \<^verbatim>\<open>CheckIO\<close> answers for a running timer. The answer includes the seconds and microseconds of a new request.\<close>

definition ami_sana2_ack_reader_pass ::
  "bool \<Rightarrow> ULONG \<Rightarrow> (nat \<Rightarrow> ULONG) \<Rightarrow> AmiSana2Reader \<Rightarrow> ack_if \<Rightarrow>
   (AmiAckHeld list \<times> (ULONG \<times> ULONG) option \<times> AmiSana2Reader \<times> ack_if) option" where
  "ami_sana2_ack_reader_pass fired hz clk r iface =
     (if \<not> ack_tr_open r then Some ([], None, r, iface)
      else do {
        let r = (if ack_tr_busy r \<and> fired then r\<lparr>ack_tr_busy := False\<rparr> else r);
        (wait, sent, iface) \<leftarrow> ami_sana2_ack_release clk 0 iface;
        if wait = 0 \<or> ack_tr_busy r then Some (sent, None, r, iface)
        else
          let hz = (if hz < 1000 then 709379 else hz);
              wait = (if hz < wait then hz else wait);
              us = (wait * 1000) div (hz div 1000);
              us = (if us = 0 then 1 else us)
          in Some (sent, Some (us div 1000000, us mod 1000000), r\<lparr>ack_tr_busy := True\<rparr>, iface)
      })"

definition ami_sana2_ack_reader_stop :: "AmiSana2Reader \<Rightarrow> ack_if \<Rightarrow> (AmiAckHeld list \<times> AmiSana2Reader \<times> ack_if) option" where
  "ami_sana2_ack_reader_stop r iface = do {
     let iface = (if ack_tr_open r then iface\<lparr>ack_task := None, ack_wake := 0\<rparr> else iface);
     (sent, iface) \<leftarrow> ami_sana2_ack_flush iface;
     Some (sent, r\<lparr>ack_tr_open := False, ack_tr_busy := (ack_tr_busy r \<and> \<not> ack_tr_open r), ack_port := False, ack_mask := 0\<rparr>, iface)
   }"

end
