(* ===== verification/Ack_Queue.thy ===== *)
theory Ack_Queue
  imports Ack_Pace
begin

text \<open>
  The ring of held acknowledgments is a queue: what is held joins at the end, what is released leaves at the
  front, and nothing reads or writes outside the ring or the packet.
\<close>

section \<open>The ring\<close>

definition ack_inv :: "ack_if \<Rightarrow> bool" where
  "ack_inv s \<longleftrightarrow> length (ackq s) = 16 \<and> unat (ackq_head s) < 16 \<and> unat (ackq_count s) \<le> 16"

definition ack_queue :: "ack_if \<Rightarrow> AmiAckHeld list" where
  "ack_queue s = map (\<lambda>i. ackq s ! ((unat (ackq_head s) + i) mod 16)) [0..<unat (ackq_count s)]"

lemma length_ack_queue [simp]: "length (ack_queue s) = unat (ackq_count s)"
  by (simp add: ack_queue_def)

lemma ack_queue_empty: "ack_queue s = [] \<longleftrightarrow> ackq_count s = 0"
  by (metis length_ack_queue length_0_conv unat_eq_zero)

lemma ack_queue_cong:
  "ackq s = ackq t \<Longrightarrow> ackq_head s = ackq_head t \<Longrightarrow> ackq_count s = ackq_count t \<Longrightarrow> ack_queue s = ack_queue t"
  by (simp add: ack_queue_def)

lemma unat_ring: "unat (of_nat (n mod 16) :: UWORD) = n mod 16"
proof -
  have "n mod 16 < 2 ^ 16" using mod_less_divisor [of 16 n] by simp
  then show ?thesis by (simp add: unat_of_nat)
qed

lemma pop_val:
  assumes "ack_inv s" and "ackq_count s \<noteq> 0"
  obtains h s' where "ack_pop s = Some (h, s')" and "ack_inv s'" and "ack_queue s = h # ack_queue s'"
    and "ack_next s' = ack_next s" and "ack_clock s' = ack_clock s"
proof -
  define hd c where "hd = unat (ackq_head s)" and "c = unat (ackq_count s)"
  have b: "length (ackq s) = 16" "hd < 16" "c \<le> 16" "0 < c" using assms by (simp_all add: ack_inv_def hd_def c_def unat_gt_0)
  define s' where "s' = s\<lparr>ackq_head := of_nat ((hd + 1) mod 16), ackq_count := ackq_count s - 1\<rparr>"
  have c': "unat (ackq_count s - 1) = c - 1" using assms(2) by (simp add: c_def unat_minus_one)
  have run: "ack_pop s = Some (ackq s ! hd, s')" using b by (simp add: ack_pop_def hd_def s'_def)
  have "ack_inv s'" using b c' by (simp add: ack_inv_def s'_def unat_ring)
  moreover have "ack_queue s = ackq s ! hd # ack_queue s'"
  proof -
    have "[0..<c] = 0 # map Suc [0..<c - 1]" using b(4) by (simp add: map_Suc_upt upt_conv_Cons)
    moreover have "((hd + 1) mod 16 + i) mod 16 = (hd + Suc i) mod 16" for i by (simp add: mod_add_left_eq)
    moreover have "ack_queue s = map (\<lambda>i. ackq s ! ((hd + i) mod 16)) [0..<c]" by (simp add: ack_queue_def hd_def c_def)
    moreover have "ack_queue s' = map (\<lambda>i. ackq s ! (((hd + 1) mod 16 + i) mod 16)) [0..<c - 1]"
      using c' by (simp add: ack_queue_def s'_def unat_ring)
    ultimately show ?thesis using b(2) by (simp add: o_def)
  qed
  ultimately show thesis using that [OF run] by (simp add: s'_def)
qed

lemma push_val:
  assumes "ack_inv s" and "unat (ackq_count s) < 16"
  obtains q where "wr_range (ackq s) ((unat (ackq_head s) + unat (ackq_count s)) mod 16) [h] = Some q"
    and "\<And>s'. ackq s' = q \<Longrightarrow> ackq_head s' = ackq_head s \<Longrightarrow> ackq_count s' = ackq_count s + 1 \<Longrightarrow>
      ack_inv s' \<and> ack_queue s' = ack_queue s @ [h]"
proof -
  define hd c where "hd = unat (ackq_head s)" and "c = unat (ackq_count s)"
  have b: "length (ackq s) = 16" "hd < 16" "c < 16" using assms by (simp_all add: ack_inv_def hd_def c_def)
  define k where "k = (hd + c) mod 16"
  have k: "k < 16" by (simp add: k_def)
  define q where "q = (ackq s)[k := h]"
  have wr: "wr_range (ackq s) k [h] = Some q" using b(1) k by (simp add: wr_range_def q_def upd_conv_take_nth_drop)
  have c': "unat (ackq_count s + 1) = c + 1"
    using b(3) by (simp add: c_def unat_word_ariths)
  have other: "(hd + i) mod 16 \<noteq> k" if "i < c" for i
  proof
    assume "(hd + i) mod 16 = k"
    then have "(hd + c) mod 16 = (hd + i) mod 16" by (simp add: k_def)
    moreover have "hd + i \<le> hd + c" using that by simp
    ultimately have "16 dvd (hd + c) - (hd + i)" by (metis mod_eq_dvd_iff_nat)
    then have "16 \<le> (hd + c) - (hd + i)" using that by (intro dvd_imp_le) simp_all
    then show False using b(3) by simp
  qed
  have "ack_inv s' \<and> ack_queue s' = ack_queue s @ [h]"
    if s': "ackq s' = q" "ackq_head s' = ackq_head s" "ackq_count s' = ackq_count s + 1" for s'
  proof -
    have "ack_queue s' = map (\<lambda>i. q ! ((hd + i) mod 16)) [0..<c + 1]" using s' c' by (simp add: ack_queue_def hd_def)
    also have "\<dots> = map (\<lambda>i. q ! ((hd + i) mod 16)) [0..<c] @ [q ! k]" by (simp add: k_def)
    also have "map (\<lambda>i. q ! ((hd + i) mod 16)) [0..<c] = ack_queue s"
      unfolding ack_queue_def hd_def [symmetric] c_def [symmetric] using other b(1) k by (intro map_cong) (auto simp: q_def nth_list_update)
    also have "q ! k = h" using b(1) k by (simp add: q_def)
    finally show ?thesis using s' c' b by (simp add: ack_inv_def q_def hd_def)
  qed
  then show thesis using that wr by (simp add: hd_def c_def k_def)
qed

section \<open>The packet\<close>

definition ack_packet_ok :: "NX_PACKET \<Rightarrow> bool" where
  "ack_packet_ok p \<longleftrightarrow> pk_prepend p \<le> pk_append p \<and> pk_append p \<le> length (pk_mem p) \<and> pk_append p - pk_prepend p < 2 ^ 32"

lemma ip8_total: "ack_packet_ok p \<Longrightarrow> i < pk_append p - pk_prepend p \<Longrightarrow> \<exists>b. ip8 p i = Some b"
  by (auto simp: ip8_def ack_packet_ok_def rd_def)

lemma tcp_long_total: "ack_packet_ok p \<Longrightarrow> i + 4 \<le> pk_append p - pk_prepend p \<Longrightarrow> \<exists>v. tcp_long p i = Some v"
  by (auto simp: tcp_long_def ack_packet_ok_def rd_range_def)

lemma learn_scale_total:
  assumes "ack_packet_ok p" and "ihl + thl \<le> pk_append p - pk_prepend p"
  shows "\<exists>r. learn_scale p ihl thl i = Some r"
  using assms
proof (induction p ihl thl i rule: learn_scale.induct)
  case (1 p ihl thl i)
  note in_range = ip8_total [OF 1(3)]
  show ?case
  proof (cases "i < thl")
    case True
    then obtain kind where k: "ip8 p (ihl + i) = Some kind" using in_range [of "ihl + i"] 1(4) by auto
    consider "kind = 0" | "kind = 1" | "kind \<noteq> 0" "kind \<noteq> 1" "thl \<le> i + 1" | "kind \<noteq> 0" "kind \<noteq> 1" "i + 1 < thl" by linarith
    then show ?thesis
    proof cases
      case 4
      then obtain len where l: "ip8 p (ihl + (i + 1)) = Some len" using in_range [of "ihl + (i + 1)"] 1(4) by auto
      have "\<exists>ws. ip8 p (ihl + (i + 2)) = Some ws" if "i + 2 < thl" using in_range [of "ihl + (i + 2)"] that 1(4) by auto
      then show ?thesis using True k l 4 1(2) [OF True k] 1(3,4) by (subst learn_scale.simps) (auto simp: l)
    qed (use True k 1(1) [OF True k] 1(3,4) in \<open>subst learn_scale.simps, simp\<close>)+
  next
    case False
    then show ?thesis by (subst learn_scale.simps) simp
  qed
qed

lemma header_len:
  fixes b :: UBYTE
  shows "unat (push_bit 2 (ucast (b AND 0x0F)) :: ULONG) \<le> 60" and "unat (push_bit 2 (ucast (drop_bit 4 b)) :: ULONG) \<le> 60"
proof -
  have shift: "unat (push_bit 2 (ucast c) :: ULONG) = unat c * 4" if "unat c < 16" for c :: UBYTE
  proof -
    have "unat (ucast c :: ULONG) = unat c" by (simp add: unat_ucast_up)
    then have "unat (push_bit 2 (ucast c :: ULONG)) = unat c * 2 ^ 2"
      using that unsigned_push_bit_eq [of 2 "ucast c :: ULONG", where ?'a = nat] by (simp add: push_bit_eq_mult take_bit_eq_mod)
    then show ?thesis by simp
  qed
  have "b AND 0x0F \<le> 0x0F" by (rule word_and_le1)
  then have "unat (b AND 0x0F) < 16" by (simp add: word_le_nat_alt)
  then show "unat (push_bit 2 (ucast (b AND 0x0F)) :: ULONG) \<le> 60" using shift by simp
  have "unat (drop_bit 4 b) = unat b div 16" by (simp only: unat_drop_bit_eq) (simp add: drop_bit_eq_div)
  moreover have "unat b < 256" using unat_lt2p [of b] by simp
  ultimately have "unat (drop_bit 4 b) < 16" by simp
  then show "unat (push_bit 2 (ucast (drop_bit 4 b)) :: ULONG) \<le> 60" using shift by simp
qed

lemma parse_val:
  assumes "ack_packet_ok p"
  shows "\<exists>ws_ports ws r. ami_ack_parse s p = Some (s\<lparr>ack_ws_ports := ws_ports, ack_ws := ws\<rparr>, r)"
proof -
  define n where "n = pk_append p - pk_prepend p"
  define avail where "avail = (of_int (int (pk_append p) - int (pk_prepend p)) :: ULONG)"
  have keep: "\<exists>ws_ports ws r. ami_ack_parse s p = Some (s\<lparr>ack_ws_ports := ws_ports, ack_ws := ws\<rparr>, r)"
    if ex: "\<exists>r. ami_ack_parse s p = Some (s, r)"
  proof -
    obtain r where "ami_ack_parse s p = Some (s, r)" using ex by blast
    then have "ami_ack_parse s p = Some (s\<lparr>ack_ws_ports := ack_ws_ports s, ack_ws := ack_ws s\<rparr>, r)" by simp
    then show ?thesis by blast
  qed
  note parse = ami_ack_parse_def [of s p, folded avail_def, unfolded Let_def]
  have n: "unat avail = n"
  proof -
    have "avail = of_nat n" using assms by (simp add: avail_def n_def ack_packet_ok_def flip: of_nat_diff)
    moreover have "n < 2 ^ 32" using assms by (simp add: n_def ack_packet_ok_def)
    ultimately show ?thesis by (simp add: unat_of_nat)
  qed
  note rd1 = ip8_total [OF assms, folded n_def] and rd4 = tcp_long_total [OF assms, folded n_def]
  show ?thesis
  proof (cases "avail < 40")
    case True
    then show ?thesis by (intro keep) (simp add: parse)
  next
    case False
    then have n40: "40 \<le> n" using n by (simp add: word_less_nat_alt)
    obtain b0 b9 where b: "ip8 p 0 = Some b0" "ip8 p 9 = Some b9" using rd1 [of 0] rd1 [of 9] n40 by auto
    define ihl where "ihl = (push_bit 2 (ucast (b0 AND 0x0F)) :: ULONG)"
    have i60: "unat ihl \<le> 60" unfolding ihl_def by (rule header_len)
    show ?thesis
    proof (cases "(drop_bit 4 b0 \<noteq> 4 \<or> b9 \<noteq> 6) \<or> ihl < 20 \<or> avail < ihl + 20")
      case True
      then show ?thesis using False b by (intro keep) (auto simp: parse ihl_def)
    next
      case F2: False
      have "unat (ihl + 20) = unat ihl + 20" using i60 by (simp add: unat_word_ariths)
      then have i20: "unat ihl + 20 \<le> n" using F2 n by (simp add: word_less_nat_alt)
      obtain b12 where b12: "ip8 p (unat ihl + 12) = Some b12" using rd1 [of "unat ihl + 12"] i20 by auto
      define thl where "thl = (push_bit 2 (ucast (drop_bit 4 b12)) :: ULONG)"
      have t60: "unat thl \<le> 60" unfolding thl_def by (rule header_len)
      show ?thesis
      proof (cases "thl < 20 \<or> avail < ihl + thl")
        case True
        then show ?thesis using False F2 b b12 by (intro keep) (auto simp: parse ihl_def thl_def)
      next
        case F3: False
        have "unat (ihl + thl) = unat ihl + unat thl" using i60 t60 by (simp add: unat_word_ariths)
        then have it: "unat ihl + unat thl \<le> n" using F3 n by (simp add: word_less_nat_alt)
        obtain ports flags w0 w1 ack where r: "tcp_long p (unat ihl) = Some ports" "ip8 p (unat ihl + 13) = Some flags"
            "ip8 p (unat ihl + 14) = Some w0" "ip8 p (unat ihl + 15) = Some w1" "tcp_long p (unat ihl + 8) = Some ack"
          using rd4 [of "unat ihl"] rd1 [of "unat ihl + 13"] rd1 [of "unat ihl + 14"] rd1 [of "unat ihl + 15"] rd4 [of "unat ihl + 8"] i20 by auto
        obtain ws where ws: "learn_scale p (unat ihl) (unat thl) 20 = Some ws"
          using learn_scale_total [OF assms, of "unat ihl" "unat thl" 20] it by (auto simp: n_def)
        show ?thesis
        proof (cases "flags AND 0x02 \<noteq> 0")
          case True
          then show ?thesis unfolding parse ami_ack_learn_scale_def using False F2 F3 b b12 r ws by (auto simp: ihl_def thl_def)
        next
          case F4: False
          then show ?thesis using False F2 F3 b b12 r by (intro keep) (auto simp: parse ihl_def thl_def)
        qed
      qed
    qed
  qed
qed

section \<open>The operations on the queue\<close>

lemma admit_val:
  assumes inv: "ack_inv s"
  obtains held s' wake where "ack_admit now me s h = Some (held, s', wake)" and "ack_inv s'"
    and "ack_queue s' = (if held then ack_queue s @ [h] else ack_queue s)" and "ackq_count s \<noteq> 0 \<Longrightarrow> ack_next s' = ack_next s"
proof -
  consider (idle) "ackq_count s = 0 \<and> (\<not> ack_clock s \<or> 0 \<le> sint (now - ack_next s))"
    | (queued) "\<not> (ackq_count s = 0 \<and> (\<not> ack_clock s \<or> 0 \<le> sint (now - ack_next s)))" "unat (ackq_count s) < 16 \<and> ack_task s \<noteq> None"
    | (full) "\<not> (ackq_count s = 0 \<and> (\<not> ack_clock s \<or> 0 \<le> sint (now - ack_next s)))" "\<not> (unat (ackq_count s) < 16 \<and> ack_task s \<noteq> None)"
    by blast
  then show thesis
  proof cases
    case idle
    then have "ack_admit now me s h = Some (False, s\<lparr>ack_clock := True, ack_next := now + ah_gap h\<rparr>, None)" by (simp add: ack_admit_def)
    then show thesis using that [of False "s\<lparr>ack_clock := True, ack_next := now + ah_gap h\<rparr>" None] idle inv
      by (simp add: ack_inv_def ack_queue_def)
  next
    case full
    then have "ack_admit now me s h = Some (False, s\<lparr>ack_unpaced := ack_unpaced s + 1\<rparr>, None)" by (simp only: ack_admit_def if_False)
    then show thesis using that [of False "s\<lparr>ack_unpaced := ack_unpaced s + 1\<rparr>" None] inv by (simp add: ack_inv_def ack_queue_def)
  next
    case queued
    from queued(2) have "unat (ackq_count s) < 16" ..
    from push_val [OF inv this, of h] obtain q where
      q: "wr_range (ackq s) ((unat (ackq_head s) + unat (ackq_count s)) mod 16) [h] = Some q"
        "\<And>s'. ackq s' = q \<Longrightarrow> ackq_head s' = ackq_head s \<Longrightarrow> ackq_count s' = ackq_count s + 1 \<Longrightarrow>
          ack_inv s' \<and> ack_queue s' = ack_queue s @ [h]" by blast
    define s4 where "s4 = s\<lparr>ackq := q, ackq_count := ackq_count s + 1, ack_paced := ack_paced s + 1\<rparr>"
    have s4: "ack_inv s4" "ack_queue s4 = ack_queue s @ [h]" "ack_next s4 = ack_next s" using q(2) [of s4] by (simp_all add: s4_def)
    have "ack_admit now me s h =
        Some (True, s4, if ack_task s4 \<noteq> Some me then map_option (\<lambda>t. (t, ack_wake s4)) (ack_task s4) else None)"
      using queued q(1) by (simp only: ack_admit_def if_True if_False bind.bind_lunit Let_def s4_def [symmetric] not_False_eq_True simp_thms)
    then show thesis using that s4 by simp
  qed
qed

text \<open>Past the parser, an acknowledgment whose window the card cannot hold goes to \<open>ack_admit\<close>.\<close>

lemma hold_admit:
  assumes "ami_ack_parse s p = Some (s1, Some (ack, ports, win))" and "ack_hw_rx_bytes s1 = 0"
  obtains s2 h where "ami_sana2_ack_hold now me s p msw lsw = ack_admit now me s2 h"
    and "ackq_count s2 = ackq_count s1" and "ack_clock s2 = ack_clock s1" and "ack_next s2 = ack_next s1"
    and "ack_task s2 = ack_task s1" and "ack_inv s2 = ack_inv s1"
proof -
  define win1 where "win1 = (if ports = ack_ws_ports s1 then push_bit (unat (ack_ws s1)) win else win)"
  define s2 where "s2 = s1\<lparr>ack_prev_ack := ack, ack_prev_edge := ack + win1, ack_prev_ports := ports,
    ack_gro_ports := push_bit 16 ports OR drop_bit 16 ports\<rparr>"
  define h where "h = \<lparr>ah_packet = p, ah_dst_msw = msw, ah_dst_lsw = lsw, ah_gap = ack_gap (ack_tpkb s1) (ack_step s1 ack (ack + win1) ports)\<rparr>"
  have "ami_sana2_ack_hold now me s p msw lsw = ack_admit now me s2 h"
    using assms by (simp add: ami_sana2_ack_hold_def Let_def win1_def s2_def h_def)
  then show thesis using that [of s2 h] by (simp add: s2_def ack_inv_def)
qed

lemma hold_val:
  assumes inv: "ack_inv s" and p: "ack_packet_ok p"
  obtains held s' wake where "ami_sana2_ack_hold now me s p msw lsw = Some (held, s', wake)" and "ack_inv s'"
    and "held \<Longrightarrow> \<exists>gap. ack_queue s' = ack_queue s @ [\<lparr>ah_packet = p, ah_dst_msw = msw, ah_dst_lsw = lsw, ah_gap = gap\<rparr>]"
    and "\<not> held \<Longrightarrow> ack_queue s' = ack_queue s"
    and "ackq_count s \<noteq> 0 \<Longrightarrow> ack_next s' = ack_next s"
proof -
  obtain a b r where parse: "ami_ack_parse s p = Some (s\<lparr>ack_ws_ports := a, ack_ws := b\<rparr>, r)" using parse_val [OF p] by blast
  define s1 where "s1 = s\<lparr>ack_ws_ports := a, ack_ws := b\<rparr>"
  have parse1: "ami_ack_parse s p = Some (s1, r)" by (simp add: parse s1_def)
  have s1: "ack_inv s1" "ack_queue s1 = ack_queue s" "ack_next s1 = ack_next s" "ackq_count s1 = ackq_count s"
    using inv by (simp_all add: s1_def ack_inv_def ack_queue_def)
  show thesis
  proof (cases r)
    case None
    then have "ami_sana2_ack_hold now me s p msw lsw = Some (False, s1, None)" using parse1 by (simp add: ami_sana2_ack_hold_def)
    then show thesis using that [of False s1 None] s1 by simp
  next
    case (Some t)
    then obtain ack ports win0 where t: "r = Some (ack, ports, win0)" by (cases t) auto
    define win where "win = (if ports = ack_ws_ports s1 then push_bit (unat (ack_ws s1)) win0 else win0)"
    define s2 where "s2 = s1\<lparr>ack_prev_ack := ack, ack_prev_edge := ack + win, ack_prev_ports := ports\<rparr>"
    define gap where "gap = ack_gap (ack_tpkb s2) (ack_step s1 ack (ack + win) ports)"
    define s3 where "s3 = s2\<lparr>ack_gro_ports := push_bit 16 ports OR drop_bit 16 ports\<rparr>"
    define h where "h = \<lparr>ah_packet = p, ah_dst_msw = msw, ah_dst_lsw = lsw, ah_gap = gap\<rparr>"
    have run: "ami_sana2_ack_hold now me s p msw lsw =
        (if ack_hw_rx_bytes s2 \<noteq> 0 \<and> win \<le> ack_hw_rx_bytes s2 then Some (False, s2, None) else ack_admit now me s3 h)"
      by (simp only: ami_sana2_ack_hold_def parse1 t bind.bind_lunit prod.case option.case Let_def win_def [symmetric] s2_def [symmetric]
          gap_def [symmetric] s3_def [symmetric] h_def [symmetric])
    have s2: "ack_inv s2" "ack_queue s2 = ack_queue s" "ack_next s2 = ack_next s" "ackq_count s2 = ackq_count s"
      using s1 by (simp_all add: s2_def ack_inv_def ack_queue_def)
    have s3: "ack_inv s3" "ack_queue s3 = ack_queue s" "ack_next s3 = ack_next s" "ackq_count s3 = ackq_count s"
      using s2 by (simp_all add: s3_def ack_inv_def ack_queue_def)
    show thesis
    proof (cases "ack_hw_rx_bytes s2 \<noteq> 0 \<and> win \<le> ack_hw_rx_bytes s2")
      case True
      then show thesis using that [of False s2 None] run s2 by simp
    next
      case False
      from admit_val [OF s3(1), of now me h] obtain held s' wake where
        A: "ack_admit now me s3 h = Some (held, s', wake)" "ack_inv s'" "ack_queue s' = (if held then ack_queue s3 @ [h] else ack_queue s3)"
          "ackq_count s3 \<noteq> 0 \<Longrightarrow> ack_next s' = ack_next s3" by blast
      then show thesis using that [of held s' wake] run False s3 by (auto simp: h_def)
    qed
  qed
qed

lemma release_step_val:
  assumes "ack_inv s"
  obtains (wait) w where "release_step now s = Some (Inl w, s)" and "w = 0 \<longleftrightarrow> ack_queue s = []"
      and "w \<noteq> 0 \<Longrightarrow> w = ack_next s - now \<and> 0 < sint (ack_next s - now)"
  | (sent) h s' where "release_step now s = Some (Inr h, s')" and "ack_inv s'" and "ack_queue s = h # ack_queue s'"
      and "\<not> 0 < sint (ack_next s - now)"
      and "ack_next s' = (if sint (ah_gap h) < sint (now - ack_next s) then now else ack_next s) + ah_gap h"
proof (cases "ackq_count s = 0")
  case True
  then have "release_step now s = Some (Inl 0, s)" "ack_queue s = []" by (simp_all add: release_step_def ack_queue_empty)
  then show thesis using wait by blast
next
  case nonempty: False
  show thesis
  proof (cases "0 < sint (ack_next s - now)")
    case True
    then have "ack_next s - now \<noteq> 0" by auto
    then show thesis using wait [of "ack_next s - now"] True nonempty by (simp add: release_step_def ack_queue_empty Let_def)
  next
    case False
    obtain h s1 where P: "ack_pop s = Some (h, s1)" "ack_inv s1" "ack_queue s = h # ack_queue s1" "ack_next s1 = ack_next s"
      using pop_val [OF assms nonempty] by blast
    define s2 where "s2 = s1\<lparr>ack_next := (if sint (ah_gap h) < sint (now - ack_next s) then now else ack_next s) + ah_gap h\<rparr>"
    have "release_step now s = Some (Inr h, s2)" using nonempty False P(1) by (simp add: release_step_def Let_def s2_def)
    moreover have "ack_inv s2" "ack_queue s2 = ack_queue s1" using P(2) by (simp_all add: s2_def ack_inv_def ack_queue_def)
    ultimately show thesis using sent [of h s2] P(3) False by (simp add: s2_def)
  qed
qed

lemma flush_step_val:
  assumes "ack_inv s"
  obtains s' where "flush_step s = Some (None, s')" and "ack_inv s'" and "ack_queue s = []" and "ack_queue s' = []"
  | h s' where "flush_step s = Some (Some h, s')" and "ack_inv s'" and "ack_queue s = h # ack_queue s'"
proof (cases "ackq_count s = 0")
  case True
  then show thesis using that(1) [of "s\<lparr>ack_clock := False\<rparr>"] assms by (simp add: flush_step_def ack_queue_empty ack_inv_def)
next
  case False
  obtain h s1 where P: "ack_pop s = Some (h, s1)" "ack_inv s1" "ack_queue s = h # ack_queue s1" using pop_val [OF assms False] by blast
  then show thesis using that(2) [of h s1] False by (simp add: flush_step_def)
qed

lemma release_val:
  assumes "ack_inv s"
  shows "\<exists>w sent s'. ami_sana2_ack_release clk i s = Some (w, sent, s') \<and> ack_inv s' \<and> ack_queue s = sent @ ack_queue s' \<and>
    (w = 0 \<longleftrightarrow> ack_queue s' = [])"
  using assms
proof (induction clk i s rule: ami_sana2_ack_release.induct)
  case (1 clk i s)
  from 1(2) show ?case
  proof (cases rule: release_step_val [where now = "clk i"])
    case (wait w)
    then show ?thesis using 1(2) by (subst ami_sana2_ack_release.simps) simp
  next
    case (sent h s')
    have "\<exists>w more s''. ami_sana2_ack_release clk (i + 1) s' = Some (w, more, s'') \<and> ack_inv s'' \<and> ack_queue s' = more @ ack_queue s'' \<and>
        (w = 0 \<longleftrightarrow> ack_queue s'' = [])"
      using 1(1) [OF sent(1) refl refl sent(2)] by simp
    then show ?thesis using sent by (subst ami_sana2_ack_release.simps) auto
  qed
qed

lemma flush_val:
  assumes "ack_inv s"
  shows "\<exists>s'. ami_sana2_ack_flush s = Some (ack_queue s, s') \<and> ack_inv s' \<and> ack_queue s' = []"
  using assms
proof (induction s rule: ami_sana2_ack_flush.induct)
  case (1 s)
  from 1(2) show ?case
  proof (cases rule: flush_step_val)
    case (1 s')
    then show ?thesis by (subst ami_sana2_ack_flush.simps) simp
  next
    case (2 h s')
    have "\<exists>s''. ami_sana2_ack_flush s' = Some (ack_queue s', s'') \<and> ack_inv s'' \<and> ack_queue s'' = []"
      using "1.IH" [OF 2(1) refl refl 2(2)] by simp
    then show ?thesis using 2 by (subst ami_sana2_ack_flush.simps) auto
  qed
qed

end
