(* ===== verification/Ack_Correct.thy ===== *)
theory Ack_Correct
  imports Ack_Queue
begin

text \<open>
  The properties of acknowledgment pacing: every acknowledgment held is sent once and in order under any
  interleaving of the sections, the reader's passes empty the ring, releases keep the rate, and two ways in
  which the 32-bit clock and product arithmetic wraps.
\<close>

section \<open>Differences of clock readings\<close>

lemma sint_of_small: "- (2 ^ 31) \<le> k \<Longrightarrow> k < 2 ^ 31 \<Longrightarrow> sint (of_int k :: ULONG) = k"
  by (simp add: signed_of_int signed_take_bit_int_eq_self)

lemma sint_nat_diff:
  assumes "T < N + 2 ^ 31" and "N < T + 2 ^ 31"
  shows "sint (of_nat T - of_nat N :: ULONG) = int T - int N"
proof -
  have "(of_nat T - of_nat N :: ULONG) = of_int (int T - int N)" by simp
  moreover have "sint (of_int (int T - int N) :: ULONG) = int T - int N" by (rule sint_of_small) (use assms in simp_all)
  ultimately show ?thesis by metis
qed

lemma late_due: "unat (b - a :: ULONG) < 2 ^ 31 \<Longrightarrow> \<not> 0 < sint (a - b)"
proof -
  assume lt: "unat (b - a) < 2 ^ 31"
  define k where "k = unat (b - a)"
  have "of_nat k = b - a" by (simp add: k_def)
  then have "a - b = of_int (- int k)" by simp
  moreover have "sint (of_int (- int k) :: ULONG) = - int k" by (rule sint_of_small) (use lt in \<open>simp_all add: k_def [symmetric]\<close>)
  ultimately have "sint (a - b) = - int k" by metis
  then show ?thesis by simp
qed

section \<open>Any interleaving\<close>

text \<open>The sections of the tasks that send and of the reader, one at a time.\<close>

datatype ack_op = AckHold ULONG nat NX_PACKET ULONG ULONG | AckRelease ULONG | AckFlush

type_synonym sending = "NX_PACKET \<times> ULONG \<times> ULONG"

definition sending_of :: "AmiAckHeld \<Rightarrow> sending" where
  "sending_of h = (ah_packet h, ah_dst_msw h, ah_dst_lsw h)"

text \<open>What joined the ring and what left it to be sent.\<close>

definition ack_section :: "ack_op \<Rightarrow> ack_if \<Rightarrow> (sending list \<times> sending list \<times> ack_if) option" where
  "ack_section op s =
     (case op of
        AckHold now me p msw lsw \<Rightarrow>
          map_option (\<lambda>(held, s, wake). (if held then [(p, msw, lsw)] else [], [], s)) (ami_sana2_ack_hold now me s p msw lsw)
      | AckRelease now \<Rightarrow> map_option (\<lambda>(r, s). ([], case r of Inl w \<Rightarrow> [] | Inr h \<Rightarrow> [sending_of h], s)) (release_step now s)
      | AckFlush \<Rightarrow> map_option (\<lambda>(r, s). ([], case r of None \<Rightarrow> [] | Some h \<Rightarrow> [sending_of h], s)) (flush_step s))"

primrec ack_history :: "ack_op list \<Rightarrow> ack_if \<Rightarrow> (sending list \<times> sending list \<times> ack_if) option" where
  "ack_history [] s = Some ([], [], s)"
| "ack_history (op # ops) s = do {
     (joined, left, s) \<leftarrow> ack_section op s;
     (joins, lefts, s) \<leftarrow> ack_history ops s;
     Some (joined @ joins, left @ lefts, s)
   }"

definition ack_op_ok :: "ack_op \<Rightarrow> bool" where
  "ack_op_ok op = (case op of AckHold now me p msw lsw \<Rightarrow> ack_packet_ok p | _ \<Rightarrow> True)"

lemma section_val:
  assumes "ack_inv s" and "ack_op_ok op"
  obtains joined left s' where "ack_section op s = Some (joined, left, s')" and "ack_inv s'"
    and "map sending_of (ack_queue s) @ joined = left @ map sending_of (ack_queue s')"
proof (cases op)
  case (AckHold now me p msw lsw)
  then have p: "ack_packet_ok p" using assms(2) by (simp add: ack_op_ok_def)
  from hold_val [OF assms(1) p, of now me msw lsw] obtain held s' wake where
    H: "ami_sana2_ack_hold now me s p msw lsw = Some (held, s', wake)" "ack_inv s'"
      "held \<Longrightarrow> \<exists>gap. ack_queue s' = ack_queue s @ [\<lparr>ah_packet = p, ah_dst_msw = msw, ah_dst_lsw = lsw, ah_gap = gap\<rparr>]"
      "\<not> held \<Longrightarrow> ack_queue s' = ack_queue s" by metis
  then show thesis using that [of "if held then [(p, msw, lsw)] else []" "[]" s'] AckHold
    by (cases held) (auto simp: ack_section_def sending_of_def)
next
  case (AckRelease now)
  from assms(1) show thesis
  proof (cases rule: release_step_val [where now = now])
    case (wait w)
    then show thesis using that [of "[]" "[]" s] AckRelease assms(1) by (simp add: ack_section_def)
  next
    case (sent h s')
    then show thesis using that [of "[]" "[sending_of h]" s'] AckRelease by (simp add: ack_section_def)
  qed
next
  case AckFlush
  from assms(1) show thesis
  proof (cases rule: flush_step_val)
    case (1 s')
    then show thesis using that [of "[]" "[]" s'] AckFlush by (simp add: ack_section_def)
  next
    case (2 h s')
    then show thesis using that [of "[]" "[sending_of h]" s'] AckFlush by (simp add: ack_section_def)
  qed
qed

lemma history_val:
  assumes "ack_inv s" and "list_all ack_op_ok ops"
  shows "\<exists>joins lefts s'. ack_history ops s = Some (joins, lefts, s') \<and> ack_inv s' \<and>
    map sending_of (ack_queue s) @ joins = lefts @ map sending_of (ack_queue s')"
  using assms
proof (induction ops arbitrary: s)
  case Nil
  then show ?case by simp
next
  case (Cons op ops)
  obtain joined left s1 where S: "ack_section op s = Some (joined, left, s1)" "ack_inv s1"
      "map sending_of (ack_queue s) @ joined = left @ map sending_of (ack_queue s1)"
    using section_val [OF Cons.prems(1), of op] Cons.prems(2) by auto
  obtain joins lefts s2 where H: "ack_history ops s1 = Some (joins, lefts, s2)" "ack_inv s2"
      "map sending_of (ack_queue s1) @ joins = lefts @ map sending_of (ack_queue s2)"
    using Cons.IH [OF S(2)] Cons.prems(2) by auto
  have "map sending_of (ack_queue s) @ joined @ joins = left @ map sending_of (ack_queue s1) @ joins"
    using arg_cong [OF S(3), of "\<lambda>l. l @ joins"] by simp
  then show ?case using S(1) H by simp
qed

section \<open>The reader's passes\<close>

primrec ack_passes :: "(nat \<Rightarrow> ULONG) list \<Rightarrow> ack_if \<Rightarrow> (AmiAckHeld list \<times> ack_if) option" where
  "ack_passes [] s = Some ([], s)"
| "ack_passes (clk # clks) s = do {
     (w, sent, s) \<leftarrow> ami_sana2_ack_release clk 0 s;
     (more, s) \<leftarrow> ack_passes clks s;
     Some (sent @ more, s)
   }"

text \<open>A pass begins when the wait the pass before it answered has run out, less than \<open>2 ^ 31\<close> ticks later.\<close>

primrec on_time :: "(nat \<Rightarrow> ULONG) list \<Rightarrow> ack_if \<Rightarrow> bool" where
  "on_time [] s = True"
| "on_time (clk # clks) s =
     (case ami_sana2_ack_release clk 0 s of None \<Rightarrow> False
      | Some (w, sent, s') \<Rightarrow>
          (w \<noteq> 0 \<and> clks \<noteq> [] \<longrightarrow> unat (hd clks 0 - (clk (length sent) + w)) < 2 ^ 31) \<and> on_time clks s')"

lemma release_wait:
  assumes "ack_inv s"
  shows "\<exists>w sent s'. ami_sana2_ack_release clk i s = Some (w, sent, s') \<and>
    (w \<noteq> 0 \<longrightarrow> w = ack_next s' - clk (i + length sent)) \<and>
    (ack_queue s \<noteq> [] \<and> \<not> 0 < sint (ack_next s - clk i) \<longrightarrow> sent \<noteq> [])"
  using assms
proof (induction clk i s rule: ami_sana2_ack_release.induct)
  case (1 clk i s)
  from 1(2) show ?case
  proof (cases rule: release_step_val [where now = "clk i"])
    case (wait w)
    then show ?thesis by (subst ami_sana2_ack_release.simps) auto
  next
    case (sent h s')
    obtain w more s'' where IH: "ami_sana2_ack_release clk (i + 1) s' = Some (w, more, s'')"
        "w \<noteq> 0 \<longrightarrow> w = ack_next s'' - clk (i + 1 + length more)"
      using 1(1) [OF sent(1) refl refl sent(2)] by auto
    then have "ami_sana2_ack_release clk i s = Some (w, h # more, s'')"
      using sent(1) by (subst ami_sana2_ack_release.simps) simp
    then show ?thesis using IH(2) by simp
  qed
qed

lemma passes_empty: "ack_inv s \<Longrightarrow> ack_queue s = [] \<Longrightarrow> \<exists>s'. ack_passes clks s = Some ([], s') \<and> ack_queue s' = []"
proof (induction clks arbitrary: s)
  case (Cons clk clks)
  have "ami_sana2_ack_release clk 0 s = Some (0, [], s)"
    using Cons.prems(2) by (subst ami_sana2_ack_release.simps) (simp add: release_step_def ack_queue_empty)
  then show ?case using Cons.IH [OF Cons.prems] by auto
qed simp

lemma passes_due:
  assumes "ack_inv s" and "on_time clks s" and "length (ack_queue s) \<le> length clks"
    and "clks \<noteq> [] \<Longrightarrow> \<not> 0 < sint (ack_next s - hd clks 0)"
  shows "\<exists>s'. ack_passes clks s = Some (ack_queue s, s') \<and> ack_queue s' = []"
  using assms
proof (induction clks arbitrary: s)
  case Nil
  then have "ack_queue s = []" by (simp add: ack_queue_def)
  then show ?case by simp
next
  case (Cons clk clks)
  show ?case
  proof (cases "ack_queue s = []")
    case True
    then show ?thesis using passes_empty [OF Cons.prems(1) True, of "clk # clks"] by simp
  next
    case False
    obtain w sent s1 where R: "ami_sana2_ack_release clk 0 s = Some (w, sent, s1)" "ack_inv s1" "ack_queue s = sent @ ack_queue s1"
        "w = 0 \<longleftrightarrow> ack_queue s1 = []"
      using release_val [OF Cons.prems(1), of clk 0] by blast
    have W: "w \<noteq> 0 \<longrightarrow> w = ack_next s1 - clk (length sent)" "sent \<noteq> []"
      using release_wait [OF Cons.prems(1), of clk 0] R(1) False Cons.prems(4) by auto
    have T: "w \<noteq> 0 \<and> clks \<noteq> [] \<longrightarrow> unat (hd clks 0 - (clk (length sent) + w)) < 2 ^ 31" "on_time clks s1"
      using Cons.prems(2) R(1) by simp_all
    show ?thesis
    proof (cases "w = 0")
      case True
      then show ?thesis using R passes_empty [OF R(2), of clks] by auto
    next
      case w0: False
      have "length (ack_queue s1) \<le> length clks" using Cons.prems(3) R(3) W(2) by (cases sent) auto
      moreover have "\<not> 0 < sint (ack_next s1 - hd clks 0)" if "clks \<noteq> []"
      proof -
        have "clk (length sent) + w = ack_next s1" using W(1) w0 by simp
        then show ?thesis using T(1) w0 that late_due [of "hd clks 0" "ack_next s1"] by simp
      qed
      ultimately obtain s' where "ack_passes clks s1 = Some (ack_queue s1, s')" "ack_queue s' = []"
        using Cons.IH [OF R(2) T(2)] by blast
      then show ?thesis using R by simp
    qed
  qed
qed

lemma passes_val:
  assumes "ack_inv s" and "on_time clks s" and "length (ack_queue s) < length clks"
  shows "\<exists>s'. ack_passes clks s = Some (ack_queue s, s') \<and> ack_queue s' = []"
proof (cases clks)
  case Nil
  then show ?thesis using assms(3) by simp
next
  case (Cons clk rest)
  obtain w sent s1 where R: "ami_sana2_ack_release clk 0 s = Some (w, sent, s1)" "ack_inv s1" "ack_queue s = sent @ ack_queue s1"
      "w = 0 \<longleftrightarrow> ack_queue s1 = []"
    using release_val [OF assms(1), of clk 0] by blast
  have W: "w \<noteq> 0 \<longrightarrow> w = ack_next s1 - clk (length sent)" using release_wait [OF assms(1), of clk 0] R(1) by auto
  have T: "w \<noteq> 0 \<and> rest \<noteq> [] \<longrightarrow> unat (hd rest 0 - (clk (length sent) + w)) < 2 ^ 31" "on_time rest s1"
    using assms(2) R(1) Cons by simp_all
  have "\<exists>s'. ack_passes rest s1 = Some (ack_queue s1, s') \<and> ack_queue s' = []"
  proof (cases "w = 0")
    case True
    then show ?thesis using R passes_empty [OF R(2), of rest] by simp
  next
    case False
    have "length (ack_queue s1) \<le> length rest" using assms(3) R(3) Cons by simp
    moreover have "\<not> 0 < sint (ack_next s1 - hd rest 0)" if "rest \<noteq> []"
    proof -
      have "clk (length sent) + w = ack_next s1" using W False by simp
      then show ?thesis using T(1) False that late_due [of "hd rest 0" "ack_next s1"] by simp
    qed
    ultimately show ?thesis using passes_due [OF R(2) T(2)] by blast
  qed
  then show ?thesis using R Cons by auto
qed

section \<open>The rate\<close>

definition gaps :: "AmiAckHeld list \<Rightarrow> nat" where
  "gaps hs = sum_list (map (\<lambda>h. unat (ah_gap h)) hs)"

text \<open>
  With clock readings and the due time as natural numbers that never come \<open>2 ^ 30\<close> ticks apart, an
  acknowledgment that leaves moves the due time up by its gap at least.
\<close>

lemma release_paced:
  assumes "ami_sana2_ack_release clk i s = Some (w, sent, s')" and "ack_inv s" and "\<And>k. clk k = of_nat (T k)" and "mono T"
    and "ack_next s = of_nat N" and "N < T i + 2 ^ 30" and "T (i + length sent) < N + 2 ^ 30" and "\<And>h. h \<in> set sent \<Longrightarrow> unat (ah_gap h) < 2 ^ 30"
    and "j < length sent"
  shows "N + gaps (take j sent) \<le> T (i + j)"
  using assms
proof (induction clk i s arbitrary: N w sent s' j rule: ami_sana2_ack_release.induct)
  case (1 clk i s)
  have near: "T i < N + 2 ^ 31" "N < T i + 2 ^ 31"
    using 1(7,8) monoD [OF 1(5), of i "i + length sent"] by simp_all
  from 1(3) show ?case
  proof (cases rule: release_step_val [where now = "clk i"])
    case (wait w')
    then have "sent = []" using 1(2) by (subst (asm) ami_sana2_ack_release.simps) simp
    then show ?thesis using 1(10) by simp
  next
    case (sent h s1)
    obtain w1 more s2 where M: "ami_sana2_ack_release clk (i + 1) s1 = Some (w1, more, s2)"
      using release_val [OF sent(2), of clk "i + 1"] by blast
    have run: "ami_sana2_ack_release clk i s = Some (w1, h # more, s2)"
      using sent(1) M by (subst ami_sana2_ack_release.simps) simp
    then have more: "sent = h # more" using 1(2) by simp
    have due: "N \<le> T i"
    proof -
      have "sint (ack_next s - clk i) = int N - int (T i)" unfolding 1(4,6) using near by (intro sint_nat_diff) simp_all
      then show ?thesis using sent(4) by simp
    qed
    show ?thesis
    proof (cases j)
      case 0
      then show ?thesis using due by (simp add: gaps_def)
    next
      case (Suc k)
      define g where "g = unat (ah_gap h)"
      have g: "g < 2 ^ 30" "ah_gap h = of_nat g" using 1(9) [of h] more by (simp_all add: g_def)
      define N' where "N' = (if g < T i - N then T i else N) + g"
      have "sint (clk i - ack_next s) = int (T i) - int N" unfolding 1(4,6) using near by (intro sint_nat_diff) simp_all
      moreover have "sint (ah_gap h) = int g" using g(1) sint_small [of "ah_gap h"] by (simp add: g_def)
      ultimately have "sint (ah_gap h) < sint (clk i - ack_next s) \<longleftrightarrow> g < T i - N" using due by auto
      then have next': "ack_next s1 = of_nat N'" using sent(5) unfolding 1(4,6) g(2) by (simp add: N'_def)
      have N': "N + g \<le> N'" "N' \<le> T i + g" using due by (simp_all add: N'_def)
      have mono: "T i \<le> T (i + 1)" using monoD [OF 1(5)] by simp
      have "N' + gaps (take k more) \<le> T (i + 1 + k)"
      proof (rule 1(1) [OF sent(1) refl refl M sent(2) 1(4,5) next'])
        show "N' < T (i + 1) + 2 ^ 30" using N'(2) g(1) mono by simp
        show "T (i + 1 + length more) < N' + 2 ^ 30" using 1(8) more N'(1) by simp
        show "unat (ah_gap h) < 2 ^ 30" if "h \<in> set more" for h using 1(9) more that by simp
        show "k < length more" using 1(10) more Suc by simp
      qed
      then show ?thesis using N'(1) more Suc by (simp add: gaps_def g_def)
    qed
  qed
qed

section \<open>The wrapped clock and the wrapped product\<close>

lemma gap_exact:
  assumes "unat tpkb \<le> 262143" and "unat step \<le> 16384"
  shows "unat (ack_gap tpkb step) = unat step * unat tpkb div 1000"
proof -
  have "unat step * unat tpkb \<le> 16384 * 262143" using assms by (intro mult_le_mono) simp_all
  then have "unat (step * tpkb) = unat step * unat tpkb" by (simp add: unat_word_ariths)
  then show ?thesis by (simp add: ack_gap_def unat_div)
qed

lemma setup_tpkb:
  assumes "hz \<noteq> 0" and "unat hz \<le> 715909" and "22 \<le> unat kbps"
  shows "unat (ack_tpkb (ami_sana2_ack_setup hz kbps s)) = max 1 (8 * unat hz div unat kbps)"
    and "unat (ack_tpkb (ami_sana2_ack_setup hz kbps s)) \<le> 262143"
proof -
  have ne: "kbps \<noteq> 0" using assms(3) by auto
  have "unat (hz * 8) = 8 * unat hz" using assms(2) by (simp add: unat_word_ariths)
  then have q: "unat ((hz * 8) div kbps) = 8 * unat hz div unat kbps" by (simp add: unat_div)
  then have "(hz * 8) div kbps = 0 \<longleftrightarrow> 8 * unat hz div unat kbps = 0" by (metis unat_eq_zero)
  then show tpkb: "unat (ack_tpkb (ami_sana2_ack_setup hz kbps s)) = max 1 (8 * unat hz div unat kbps)"
    using ne assms(1) q by (auto simp: ami_sana2_ack_setup_def Let_def max_def)
  have "8 * unat hz div unat kbps \<le> 8 * unat hz div 22" using assms(3) by (intro div_le_mono2) simp_all
  also have "\<dots> \<le> 262143" using assms(2) by simp
  finally show "unat (ack_tpkb (ami_sana2_ack_setup hz kbps s)) \<le> 262143" unfolding tpkb by simp
qed

text \<open>Rounding the ticks of a thousand bytes first costs less than a tick per thousand bytes, and one more.\<close>

lemma gap_rounding:
  fixes bits kbps step :: nat
  assumes "0 < kbps"
  shows "step * (bits div kbps) div 1000 \<le> step * bits div (1000 * kbps)"
    and "step * bits div (1000 * kbps) \<le> step * (bits div kbps) div 1000 + step div 1000 + 1"
proof -
  let ?t = "bits div kbps"
  have split: "step * bits div (1000 * kbps) = step * bits div kbps div 1000" by (metis div_mult2_eq mult.commute)
  have "step * ?t \<le> step * bits div kbps" by (simp add: assms less_eq_div_iff_mult_less_eq mult.assoc)
  then show "step * ?t div 1000 \<le> step * bits div (1000 * kbps)" unfolding split by (rule div_le_mono)
  have "bits \<le> (?t + 1) * kbps" using assms by (metis add.commute dividend_less_div_times less_imp_le mult_Suc plus_1_eq_Suc)
  then have "step * bits \<le> step * (?t + 1) * kbps" unfolding mult.assoc by (rule mult_le_mono2)
  then have "step * bits div kbps \<le> step * (?t + 1)" using assms by (metis div_le_mono nonzero_mult_div_cancel_right not_less0)
  then have "step * bits div kbps div 1000 \<le> step * (?t + 1) div 1000" by (rule div_le_mono)
  also have "\<dots> \<le> step * ?t div 1000 + step div 1000 + 1" by (simp add: algebra_simps)
  finally show "step * bits div (1000 * kbps) \<le> step * ?t div 1000 + step div 1000 + 1" unfolding split .
qed

lemma ack_gap_wraps:
  "ack_tpkb (ami_sana2_ack_setup 715909 21 s) = 272727 \<and> unat (ack_gap 272727 16384) = 173391 \<and> (16384 * 272727) div 1000 = (4468359 :: nat)"
  by (simp add: ami_sana2_ack_setup_def ack_gap_def Let_def)

lemma idle_held:
  assumes "ack_inv s" and "ackq_count s = 0" and "ack_clock s" and "ack_task s = Some t" and "ack_hw_rx_bytes s = 0"
    and "ack_packet_ok p" and "ami_ack_parse s p = Some (s1, Some (ack, ports, win))" and "2 ^ 31 < d" and "d < 2 ^ 32"
  shows "\<exists>s' wake. ami_sana2_ack_hold (ack_next s + of_nat d) me s p msw lsw = Some (True, s', wake) \<and>
    release_step (ack_next s + of_nat d) s' = Some (Inl (of_nat (2 ^ 32 - d)), s')"
proof -
  define now where "now = ack_next s + of_nat d"
  obtain a b where s1: "s1 = s\<lparr>ack_ws_ports := a, ack_ws := b\<rparr>" using parse_val [OF assms(6), of s] assms(7) by auto
  have hw: "ack_hw_rx_bytes s1 = 0" using assms(5) s1 by simp
  obtain s2 h where H: "ami_sana2_ack_hold now me s p msw lsw = ack_admit now me s2 h" "ackq_count s2 = 0" "ack_clock s2"
      "ack_next s2 = ack_next s" "ack_task s2 = Some t" "ack_inv s2"
    using hold_admit [OF assms(7) hw, of now me msw lsw] assms(1-4) s1 by (auto simp: ack_inv_def)
  define k where "k = 2 ^ 32 - d"
  have k: "0 < k" "k < 2 ^ 31" using assms(8,9) by (simp_all add: k_def)
  have "(of_nat d :: ULONG) = - of_nat k"
  proof -
    have "(of_nat d + of_nat k :: ULONG) = of_nat (d + k)" by (simp only: of_nat_add)
    also have "d + k = 2 ^ 32" using assms(9) by (simp add: k_def)
    finally have "(of_nat d + of_nat k :: ULONG) = 0" by simp
    then show ?thesis by (simp only: eq_neg_iff_add_eq_0)
  qed
  then have now: "now - ack_next s = of_int (- int k)" "ack_next s - now = of_nat k" by (simp_all add: now_def)
  have si: "sint (now - ack_next s) = - int k" unfolding now(1) by (rule sint_of_small) (use k in simp_all)
  have sj: "sint (ack_next s - now) = int k"
  proof -
    have "ack_next s - now = of_int (int k)" using now(2) by simp
    moreover have "sint (of_int (int k) :: ULONG) = int k" by (rule sint_of_small) (use k in simp_all)
    ultimately show ?thesis by metis
  qed
  have "unat (ackq_count s2) < 16" using H(2) by simp
  from push_val [OF H(6) this, of h] obtain q where
    q: "wr_range (ackq s2) ((unat (ackq_head s2) + unat (ackq_count s2)) mod 16) [h] = Some q" by blast
  define s3 where "s3 = s2\<lparr>ackq := q, ackq_count := 1, ack_paced := ack_paced s2 + 1\<rparr>"
  obtain wake where "ack_admit now me s2 h = Some (True, s3, wake)"
    using H(2-5) si k q by (simp add: ack_admit_def s3_def Let_def)
  moreover have "release_step now s3 = Some (Inl (of_nat k), s3)"
  proof -
    have "(of_nat k :: ULONG) \<noteq> 0" using sj k now(2) by (metis of_nat_0_less_iff less_irrefl signed_0)
    then show ?thesis using sj k H(4) now(2) by (simp add: release_step_def s3_def Let_def)
  qed
  ultimately show ?thesis using H(1) by (simp add: now_def k_def)
qed

section \<open>The properties\<close>

text \<open>A bare acknowledgment, and an interface with a reader.\<close>

definition sample_ack :: NX_PACKET where
  "sample_ack = \<lparr>pk_base = 0,
     pk_mem = [0x45, 0, 0, 40, 0, 0, 0, 0, 64, 6, 0, 0, 10, 0, 0, 1, 10, 0, 0, 2,
               0, 80, 4, 1, 0, 0, 0, 1, 0, 0, 2, 0, 0x50, 0x10, 0xFF, 0xFF, 0, 0, 0, 0],
     pk_prepend = 0, pk_append = 40, pk_length = 40, pk_version = 4, pk_capability = 0\<rparr>"

definition sample_if :: ack_if where
  "sample_if = \<lparr>ack_tpkb = 286, ackq = replicate 16 \<lparr>ah_packet = sample_ack, ah_dst_msw = 0, ah_dst_lsw = 0, ah_gap = 0\<rparr>,
     ackq_head = 15, ackq_count = 0, ack_clock = True, ack_next = 1000, ack_prev_ack = 0, ack_prev_edge = 0, ack_prev_ports = 0,
     ack_ws_ports = 0, ack_ws = 0, ack_gro_ports = 0, ack_task = Some 1, ack_wake = 8, ack_hw_rx_bytes = 0, ack_paced = 0, ack_unpaced = 0\<rparr>"

lemma sample_if_ok: "ack_inv sample_if" "ack_packet_ok sample_ack"
  by (simp_all add: ack_inv_def sample_if_def ack_packet_ok_def sample_ack_def)

lemma sample_ack_parse: "\<exists>ack ports win. ami_ack_parse sample_if sample_ack = Some (sample_if, Some (ack, ports, win))"
  by (simp add: ami_ack_parse_def sample_ack_def ip8_def tcp_long_def Let_def)

text \<open>Two acknowledgments wait, in the last entry and the first, due at 1000.\<close>

definition sample_two :: ack_if where
  "sample_two = sample_if\<lparr>ackq_count := 2\<rparr>"

lemma sample_two_ok: "ack_inv sample_two" "length (ack_queue sample_two) = 2"
  by (simp_all add: ack_inv_def ack_queue_def sample_two_def sample_if_def)

lemmas sample_steps = release_step_def ack_pop_def rd_def sample_two_def sample_if_def

lemma sample_early: "ami_sana2_ack_release (\<lambda>k. 900) 0 sample_two = Some (100, [], sample_two)"
  by (subst ami_sana2_ack_release.simps) (simp add: sample_steps)

lemma sample_late:
  "ami_sana2_ack_release (\<lambda>k. 2000) 0 sample_two =
    Some (0, ackq sample_if ! 15 # [ackq sample_if ! 0], sample_two\<lparr>ackq_head := 1, ackq_count := 0, ack_next := 2000\<rparr>)"
  by (subst ami_sana2_ack_release.simps, subst ami_sana2_ack_release.simps, subst ami_sana2_ack_release.simps) (simp add: sample_steps)

text \<open>
  C13. Nothing is lost, sent twice or sent out of order: under any interleaving of the sections of the sending
  tasks and of the reader, from any ring that is well formed, what was waiting and what joined since is, in
  order, what left to be sent and what still waits; no access leaves the ring or a packet, and at most
  sixteen wait.
\<close>

theorem ack_fifo_once:
  assumes "ack_inv s" and "list_all ack_op_ok ops"
  shows "\<exists>joins lefts s'. ack_history ops s = Some (joins, lefts, s') \<and> ack_inv s' \<and> length (ack_queue s') \<le> 16 \<and>
    map sending_of (ack_queue s) @ joins = lefts @ map sending_of (ack_queue s')"
proof -
  from history_val [OF assms] obtain joins lefts s' where
    "ack_history ops s = Some (joins, lefts, s')" "ack_inv s'" "map sending_of (ack_queue s) @ joins = lefts @ map sending_of (ack_queue s')" by blast
  then show ?thesis by (simp add: ack_inv_def)
qed

theorem ack_fifo_once_witness:
  "\<exists>joins lefts s'. ack_history [AckHold 900 2 sample_ack 1 2, AckRelease 950, AckHold 960 1 sample_ack 3 4, AckRelease 5000, AckFlush] sample_if
      = Some (joins, lefts, s') \<and> ack_inv s' \<and> length (ack_queue s') \<le> 16 \<and>
    map sending_of (ack_queue sample_if) @ joins = lefts @ map sending_of (ack_queue s')"
  by (rule ack_fifo_once) (simp_all add: sample_if_ok ack_op_ok_def)

text \<open>
  C14. Every acknowledgment held leaves: if each pass of the reader begins once the wait that the pass before it
  answered has run out, and less than \<open>2 ^ 31\<close> ticks after that, then one pass more than there are
  acknowledgments waiting sends them all, in order, whatever the clock shows during a pass.
\<close>

theorem ack_drains:
  assumes "ack_inv s" and "on_time clks s" and "length (ack_queue s) < length clks"
  shows "\<exists>s'. ack_passes clks s = Some (ack_queue s, s') \<and> ack_queue s' = []"
  by (rule passes_val [OF assms])

theorem ack_drains_witness:
  "\<exists>s'. ack_passes [\<lambda>k. 900, \<lambda>k. 2000, \<lambda>k. 3000] sample_two = Some (ack_queue sample_two, s') \<and> ack_queue s' = []"
proof (rule ack_drains [OF sample_two_ok(1)])
  show "on_time [\<lambda>k. 900, \<lambda>k. 2000, \<lambda>k. 3000] sample_two"
    by (simp add: sample_early sample_late, subst ami_sana2_ack_release.simps) (simp add: release_step_def)
qed (simp only: sample_two_ok(2), simp)

text \<open>
  C15. The rate is kept: for a clock that does not run backwards, read as a natural number and never \<open>2 ^ 30\<close>
  ticks from the due time, an acknowledgment that a call of \<open>ami_sana2_ack_release\<close> sends leaves no sooner than
  the due time at the start plus the gaps of those the call sent before it.
\<close>

theorem ack_rate:
  assumes "ami_sana2_ack_release clk 0 s = Some (w, sent, s')" and "ack_inv s" and "\<And>k. clk k = of_nat (T k)" and "mono T"
    and "ack_next s = of_nat N" and "N < T 0 + 2 ^ 30" and "T (length sent) < N + 2 ^ 30" and "\<And>h. h \<in> set sent \<Longrightarrow> unat (ah_gap h) < 2 ^ 30"
    and "j < length sent"
  shows "N + gaps (take j sent) \<le> T j"
  using release_paced [OF assms(1-6) _ assms(8,9)] assms(7) by simp

theorem ack_rate_witness: "1000 + gaps (take 1 [ackq sample_if ! 15, ackq sample_if ! 0]) \<le> 2000"
  by (rule ack_rate [OF sample_late sample_two_ok(1), where T = "\<lambda>k. 2000", unfolded One_nat_def [symmetric]])
    (auto simp: sample_two_def sample_if_def mono_def)

text \<open>
  C16. After a long idle time an acknowledgment waits for the clock to come round: the test that the line is
  idle compares 32-bit readings, so once more than \<open>2 ^ 31\<close> ticks have passed since the last due time, 50 minutes
  of the E-clock, the acknowledgment is held and the reader is told to wait for the rest of the 100-minute
  period.
\<close>

theorem ack_idle_held:
  assumes "ack_inv s" and "ackq_count s = 0" and "ack_clock s" and "ack_task s = Some t" and "ack_hw_rx_bytes s = 0"
    and "ack_packet_ok p" and "ami_ack_parse s p = Some (s1, Some (ack, ports, win))" and "2 ^ 31 < d" and "d < 2 ^ 32"
  shows "\<exists>s' wake. ami_sana2_ack_hold (ack_next s + of_nat d) me s p msw lsw = Some (True, s', wake) \<and>
    release_step (ack_next s + of_nat d) s' = Some (Inl (of_nat (2 ^ 32 - d)), s')"
  by (rule idle_held [OF assms])

theorem ack_idle_held_witness:
  "\<exists>s' wake. ami_sana2_ack_hold (ack_next sample_if + of_nat (2 ^ 31 + 5)) 7 sample_if sample_ack 1 2 = Some (True, s', wake) \<and>
    release_step (ack_next sample_if + of_nat (2 ^ 31 + 5)) s' = Some (Inl (of_nat (2 ^ 32 - (2 ^ 31 + 5))), s')"
proof -
  obtain ack ports win where "ami_ack_parse sample_if sample_ack = Some (sample_if, Some (ack, ports, win))" using sample_ack_parse by blast
  from ack_idle_held [OF sample_if_ok(1) _ _ _ _ sample_if_ok(2) this, where t = 1 and d = "2 ^ 31 + 5" and me = 7 and msw = 1 and lsw = 2]
  show ?thesis by (simp add: sample_if_def)
qed

text \<open>
  C17. The gap is the time the bytes take at the configured rate. On an E-clock of at most 715909 Hz, at 22 kbit/s
  or more and for a step of at most 16384 bytes, no 32-bit product wraps: a thousand bytes cost \<open>8 hz / kbps\<close> ticks,
  rounded down but at least one, and the gap is that many ticks for each thousand bytes of the step,
  rounded down. Unless the rate is above eight bits a tick, this is at most the exact time \<open>8 hz step / (1000 kbps)\<close>
  and at most 17 ticks below it.
\<close>

theorem ack_gap_exact:
  assumes "hz \<noteq> 0" and "unat hz \<le> 715909" and "22 \<le> unat kbps" and "unat step \<le> 16384"
  shows "unat (ack_gap (ack_tpkb (ami_sana2_ack_setup hz kbps s)) step) = unat step * max 1 (8 * unat hz div unat kbps) div 1000 \<and>
    (unat kbps \<le> 8 * unat hz \<longrightarrow>
      unat (ack_gap (ack_tpkb (ami_sana2_ack_setup hz kbps s)) step) \<le> unat step * (8 * unat hz) div (1000 * unat kbps) \<and>
      unat step * (8 * unat hz) div (1000 * unat kbps) \<le> unat (ack_gap (ack_tpkb (ami_sana2_ack_setup hz kbps s)) step) + 17)"
proof (intro conjI impI)
  let ?gap = "unat (ack_gap (ack_tpkb (ami_sana2_ack_setup hz kbps s)) step)"
  have k: "0 < unat kbps" using assms(3) by simp
  show gap: "?gap = unat step * max 1 (8 * unat hz div unat kbps) div 1000"
    using gap_exact [OF setup_tpkb(2) [OF assms(1-3)] assms(4)] setup_tpkb(1) [OF assms(1-3)] by simp
  assume "unat kbps \<le> 8 * unat hz"
  then have "1 \<le> 8 * unat hz div unat kbps" using k by (simp add: Suc_le_eq div_greater_zero_iff)
  then have t: "?gap = unat step * (8 * unat hz div unat kbps) div 1000" using gap by (simp add: max_def)
  show "?gap \<le> unat step * (8 * unat hz) div (1000 * unat kbps)" unfolding t by (rule gap_rounding(1) [OF k])
  have "unat step div 1000 \<le> 16" using assms(4) by simp
  then show "unat step * (8 * unat hz) div (1000 * unat kbps) \<le> ?gap + 17"
    unfolding t using gap_rounding(2) [OF k, of "unat step" "8 * unat hz"] by linarith
qed

theorem ack_gap_exact_witness:
  "unat (ack_gap (ack_tpkb (ami_sana2_ack_setup 709379 22 sample_if)) 16384) = 16384 * 257956 div 1000"
  using ack_gap_exact [of 709379 22 16384 sample_if] by simp

end
