(* ===== verification/Spec2Isabelle.thy ===== *)
theory Spec2Isabelle
  imports Bpf_Sections Bpf_Clock Ip6_Correct Cfg_Ip6_Correct Cfg_Buffer_Correct Rt_Correct Gso_Correct Big_Correct Ack_Correct
begin

text \<open>
  A verification development for AmiNetXDuo, a TCP/IP stack for AmigaOS on top of NetX Duo. Paths
  below are relative to the repository.

  \<^bold>\<open>The program.\<close> Applications call \<^verbatim>\<open>bsdsocket.library\<close> (\<^verbatim>\<open>src/bsdsocket/\<close>), which drives NetX Duo
  through \<^verbatim>\<open>src/netstack/\<close>; frames go to and come from SANA-II devices through \<^verbatim>\<open>src/sana2/\<close>, some of
  which (\<^verbatim>\<open>src/netdev/\<close>) are part of the program. \<^verbatim>\<open>src/bpf/\<close> taps the frames of every interface for
  capture programs, \<^verbatim>\<open>src/ipv6/\<close> chooses addresses and routes for IPv6, \<^verbatim>\<open>src/config/\<close> reads the
  configuration files, and \<^verbatim>\<open>src/common/\<close> holds what all of them are compiled against, the
  arithmetic of the compiler runtime included.

  \<^bold>\<open>Shared theories.\<close> \<open>Ami_Prelude\<close> has the integer types (words, so arithmetic wraps as in C) and
  checked memory: a read or a write outside an object is \<open>None\<close>, so that the absence of such an
  access is a theorem. Two interfaces are locales: \<open>Preference.preference\<close>, a one-pass search for the
  best entry of a table, and \<open>Simulation.simulation\<close>, a component and its specification run by the
  same operations.

  \<^bold>\<open>Packet capture, \<^verbatim>\<open>src/bpf/\<close>.\<close>
  \<^item> \<open>Bpf_Filter\<close> is \<^verbatim>\<open>bpf_filter.c\<close>: views of scattered packets, the bounded loads and the
    interpreter; a filter that would touch memory it must not is \<open>None\<close>. \<open>Bpf_Validate\<close> is
    \<^verbatim>\<open>bpf_validate.c\<close>, with the theorems on both: no program faults, scattering does not matter,
    and a validated program fails only in the ways the format allows. The interpreter is a
    \<open>partial_function\<close>; that it returns is part of the theorem.
  \<^item> \<open>Bpf_Table\<close>, \<open>Bpf_Record\<close>, \<open>Bpf_Capture\<close>, \<open>Bpf_Read\<close>, \<open>Bpf_Ioctl\<close> are \<^verbatim>\<open>bpf_channel.c\<close>,
    \<^verbatim>\<open>bpf_tap.c\<close> and \<^verbatim>\<open>bpf_tap_tx.c\<close>: a \<open>bpf_state\<close> is the static tables of the code, one definition
    per function or ioctl command. Seen as a queue of records, a capture appends and a read takes, out of one
    of the two buffers, the longest prefix that fits.
  \<^item> \<open>Bpf_Inv\<close> is the invariant of the tables. \<open>Bpf_Sections\<close> has the system: \<open>bpf_section\<close> is one rule
    for each critical section, a \<open>bpf_system\<close> is the table with the reads in progress, each with what it
    remembers across the lock it gave away, and \<open>system_step\<close> interleaves the sections with the steps of these reads.
    The invariant of the system says that what a reader remembers still fits the table; it is shown for every
    interleaving. Start-up and the forced release of the teardown are steps only while no read is in progress; what the
    forced release does to a read is a property of its own. A call that
    releases the lock takes the other tasks as a parameter; the locales \<open>bpf_others\<close> and
    \<open>bpf_scheduled\<close> say what these tasks may do (steps of the system), and are interpreted for quiet tasks and for
    tasks that run the receive tap.
  \<^item> \<open>Bpf_Clock\<close> is the time stamp arithmetic of \<^verbatim>\<open>bpf_internal.h\<close>.

  \<^bold>\<open>IPv6 selection, \<^verbatim>\<open>src/ipv6/ipv6_srcsel.c\<close>.\<close> \<open>Ip6_Select\<close> is the whole file over the parts of NetX
  Duo's tables it reads. \<open>Ip6_Prefix\<close>: prefixes bit for bit and the policy table. \<open>Ip6_Ptp\<close>: the
  point-to-point tables implement two partial maps (\<open>simulation\<close>). \<open>Ip6_Correct\<close>: the selection loops
  are \<open>preference\<close>s; the source address is optimal under RFC 6724, routes are longest matches, and one
  deviation from the RFC is shown by an example.

  \<^bold>\<open>Configuration text, \<^verbatim>\<open>src/config/config_text.c\<close> and \<^verbatim>\<open>config_text6.c\<close>.\<close> \<open>Cfg_Text\<close> and \<open>Cfg_Ip6\<close> are the
  functions that read a string, \<open>Cfg_Buffer\<close> those that cut a line up in place, on a checked buffer.
  \<open>Cfg_Numbers\<close>, \<open>Cfg_Ip6_Correct\<close> and \<open>Cfg_Buffer_Correct\<close> give the grammars and values they
  implement, the round trips of addresses, and the safety of the cutting.

  \<^bold>\<open>Compiler runtime, \<^verbatim>\<open>src/common/ami_udivdi3.c\<close>.\<close> \<open>Rt_Arith\<close> is the file in all its arms, chosen by an
  \<open>rt_cpu\<close>; \<open>Rt_Correct\<close> shows that every arm computes the mathematical operation.

  \<^bold>\<open>Checksums and the transmit copy, \<^verbatim>\<open>src/net68k/n68k_checksum.c\<close>, \<^verbatim>\<open>n68k_rx_verify.c\<close> and \<^verbatim>\<open>src/sana2/sana2_copy.c\<close>.\<close>
  \<^item> \<open>Cks_Sum\<close>: the carry chains and the summing copy, against \<open>be16_sum\<close>, the plain sum of big-endian words,
    and \<open>ones\<close>, its one's-complement value. \<open>Cks_Packet\<close>: the checksum over a chain of packets.
  \<^item> \<open>Cks_Verify\<close> is the receive check, from the packet and from the sum that the copy carried.
    \<open>Cks_Accept\<close> has \<open>frame_verdict\<close>, what a check must answer said over the bytes of a frame alone, and
    the refinement of the walk; \<open>Cks_Fused\<close> that of the carried sum, with the locale \<open>carried_sum\<close> for
    what a copy promises, interpreted for the hook of the SANA-II layer. A frame is taken to be one packet
    on a longword (\<open>frame_ok\<close>); \<open>Cks_Correct\<close> shows what happens to one that is not.
  \<^item> \<open>Sana2_Copy\<close> is the receive hook, the fused transmit checksum and the pseudo header sum for a card;
    \<open>Sana2_Gso\<close> the segmentation of TCP blocks and the transmit hook itself.
  \<^item> \<open>Gso_Sums\<close>: sums of runs cut at odd places; \<open>Gso_Child\<close>: the headers of a child, with the
    incremental IPv4 checksum of RFC 1624; \<open>Gso_Block\<close>: what the parser of a block guarantees, its slices
    and where they start; \<open>Gso_Copy\<close>: the copy in one call, in pieces and by batches. \<open>Gso_Correct\<close>: the
    children cover the payload, and each is a frame that \<open>frame_verdict\<close> accepts however the device takes it.

  \<^bold>\<open>Acknowledgment pacing, \<^verbatim>\<open>src/sana2/sana2_ackpace.c\<close>.\<close> \<open>Ack_Pace\<close> is the file: which acknowledgment is held, the ring of
  sixteen, the release at the configured rate and the reader's timer. \<open>Ack_Queue\<close> reads the ring as a list and
  says what each operation does to it. \<open>Ack_Correct\<close>: every acknowledgment held is sent once and in order under
  any interleaving of the sections, the reader's passes empty the ring, releases keep the rate; and where the
  32-bit clock and product wrap.

  \<^bold>\<open>Big numbers, \<^verbatim>\<open>src/crypto68k/c68k_prim.c\<close>, \<^verbatim>\<open>c68k_mont.c\<close>, \<^verbatim>\<open>c68k_div.c\<close> and \<^verbatim>\<open>c68k_powm.c\<close>.\<close> A number is the
  list of its limbs and \<open>lval\<close> its value.
  \<^item> \<open>Big_Prim\<close>: the limb primitives, each with the equation between values that it keeps. \<open>Big_Mont\<close>: products,
    squares, Karatsuba's splits and Montgomery multiplication. \<open>Big_Product\<close> and \<open>Big_Karatsuba\<close> show the
    products exact at any threshold, \<open>Big_Reduce\<close> the reduction.
  \<^item> \<open>Big_Div\<close> is long division, \<open>Big_Knuth\<close> its proof: the estimate of a quotient limb is at most one too
    large.
  \<^item> \<open>Big_Powm\<close> is modular exponentiation, \<open>Big_Exp\<close> its proof: the accumulator is the Montgomery residue of
    the power of the exponent's bits read so far. The vendored huge-number routines are the fields of
    \<open>huge_ops\<close>, and \<open>huge_ok\<close> what is relied on of them. \<open>Big_Correct\<close> has the properties.

  \<^bold>\<open>Bounds and loops.\<close> Loops over tables are recursions on lists; other loops are functions with a
  termination proof or \<open>partial_function\<close>s whose theorems include that they return. No definition
  takes fuel. Integers are words of the width of the C type wherever they can wrap; a signed value
  that is only compared is an \<open>int\<close>.

  \<^bold>\<open>Not modelled.\<close> NetX Duo and NetX Secure are submodules without sources here; what the code reads
  of them is a parameter. Exec, \<^verbatim>\<open>timer.device\<close> and device I/O appear as parameters (whether a lock
  is free, what the clock says, what other tasks do). Assembly files are not modelled, only their
  portable C counterparts. The socket calls, the drivers, TLS, the ciphers and curves, the tools and
  the readers of whole configuration files are not modelled.

  \<^bold>\<open>Plan.\<close> Next: the mbuf emulation, \<^verbatim>\<open>config_keyword.c\<close>, \<^verbatim>\<open>netdb.c\<close> and the account files of
  \<^verbatim>\<open>src/usergroup/\<close>.
\<close>

end
